(* ===== verification/QPrelude.thy ===== *)
theory QPrelude
  imports Main "HOL-Library.Word" "HOL-Library.Monad_Syntax" "HOL-Library.Multiset"
begin

text \<open>
  Shared vocabulary of the development.

  The modelled build is the default one on a 64-bit AMD64 machine: pointers, \<open>size_t\<close>,
  \<open>uintptr_t\<close> and \<open>aligned_t\<close> are 64 bits wide, and \<open>assert\<close> is active. A pointer that
  is only compared, hashed or stored is a \<open>u64\<close> with 0 for \<open>NULL\<close>. Code that can crash
  (a failed \<open>assert\<close>, a dereferenced \<open>NULL\<close> pointer, an access outside an array) returns
  an \<open>option\<close>: \<open>None\<close> is the crash. Loops that have no structural bound carry fuel, and
  running out of fuel is \<open>None\<close> as well; the lemmas of each component prove that the
  fuel supplied by its operations is enough.
\<close>

unbundle bit_operations_syntax

type_synonym u8 = "8 word"
type_synonym u32 = "32 word"
type_synonym u64 = "64 word"

named_theorems hash_inv_simps \<open>facts unfolding the invariant of the hash table\<close>
named_theorems tq_simps \<open>facts about the thread queues\<close>
named_theorems feb_simps \<open>field-level facts about the full/empty-bit state\<close>

section \<open>C assertions and checked array accesses\<close>

definition c_assert :: "bool \<Rightarrow> unit option" where
  "c_assert b = (if b then Some () else None)"

lemma c_assert_eq_Some [simp]: "c_assert b = Some u \<longleftrightarrow> b"
  by (simp add: c_assert_def)

lemma c_assert_simps [simp]: "c_assert True = Some ()" "c_assert False = None"
  by (simp_all add: c_assert_def)

lemma c_assert_bind [simp]: "(c_assert b \<bind> f) = (if b then f () else None)"
  by (simp add: c_assert_def)

lemma bind_eq_Some_iff: "(m \<bind> f) = Some y \<longleftrightarrow> (\<exists>x. m = Some x \<and> f x = Some y)"
  by (cases m) auto

section \<open>Lists\<close>

lemma find_eq_Some_split:
  "List.find P xs = Some x \<longleftrightarrow> (\<exists>us vs. xs = us @ x # vs \<and> P x \<and> (\<forall>u \<in> set us. \<not> P u))"
proof
  assume "List.find P xs = Some x"
  then obtain i where i: "i < length xs" "P (xs ! i)" "x = xs ! i" "\<forall>j < i. \<not> P (xs ! j)"
    by (auto simp: find_Some_iff)
  have "xs = take i xs @ x # drop (Suc i) xs"
    using i by (simp add: id_take_nth_drop)
  moreover have "\<forall>u \<in> set (take i xs). \<not> P u"
    using i by (auto simp: in_set_conv_nth)
  ultimately show "\<exists>us vs. xs = us @ x # vs \<and> P x \<and> (\<forall>u \<in> set us. \<not> P u)"
    using i by blast
next
  assume "\<exists>us vs. xs = us @ x # vs \<and> P x \<and> (\<forall>u \<in> set us. \<not> P u)"
  then obtain us vs where "xs = us @ x # vs" "P x" "\<forall>u \<in> set us. \<not> P u"
    by blast
  then show "List.find P xs = Some x"
    by (induction us arbitrary: xs) auto
qed

lemma find_SomeD: "List.find P xs = Some x \<Longrightarrow> x \<in> set xs \<and> P x"
  by (auto simp: find_eq_Some_split)

lemma find_append:
  "List.find P (xs @ ys) = (case List.find P xs of None \<Rightarrow> List.find P ys | Some x \<Rightarrow> Some x)"
  by (induction xs) auto

lemma filter_length_update:
  assumes "i < length xs"
  shows "length (filter P (xs[i := y])) + (if P (xs ! i) then 1 else 0)
       = length (filter P xs) + (if P y then 1 else 0)"
proof -
  have u: "xs[i := y] = take i xs @ y # drop (Suc i) xs"
    using assms by (simp add: upd_conv_take_nth_drop)
  have o: "xs = take i xs @ xs ! i # drop (Suc i) xs"
    using assms by (simp add: id_take_nth_drop)
  have "length (filter P xs)
      = length (filter P (take i xs)) + (if P (xs ! i) then 1 else 0)
        + length (filter P (drop (Suc i) xs))"
    by (subst o) simp
  then show ?thesis
    unfolding u by simp
qed

lemma map_eq_by_Some: "(\<And>x y. m x = Some y \<longleftrightarrow> m' x = Some y) \<Longrightarrow> m = m'"
  by (metis ext option.exhaust)

lemma mset_map_filter_split:
  "mset (map f xs) = mset (map f (filter P xs)) + mset (map f (filter (\<lambda>x. \<not> P x) xs))"
  by (induction xs) auto

lemma mset_eq_mset_set:
  assumes "mset xs = mset_set A" "finite A"
  shows "distinct xs" "set xs = A"
proof -
  show s: "set xs = A"
    using assms by (metis finite_set_mset_mset_set set_mset_mset)
  show "distinct xs"
    using assms by (metis mset_eq_setD mset_set_set_mset_msubset distinct_count_atmost_1 count_mset_set s)
qed

lemma mset_concat_update:
  assumes "i < length Ls"
  shows "mset (concat (Ls[i := x])) + mset (Ls ! i) = mset (concat Ls) + mset x"
proof -
  have "concat Ls = concat (take i Ls) @ Ls ! i @ concat (drop (Suc i) Ls)"
    using assms by (metis concat.simps(2) concat_append id_take_nth_drop)
  moreover have "concat (Ls[i := x]) = concat (take i Ls) @ x @ concat (drop (Suc i) Ls)"
    using assms by (simp add: upd_conv_take_nth_drop)
  ultimately show ?thesis
    by simp
qed

lemma distinct_concat_nth:
  assumes "distinct (concat Ls)" "i < length Ls"
  shows "distinct (Ls ! i)"
  using assms by (meson distinct_concat_iff nth_mem)

lemma distinct_concat_disjoint:
  assumes "distinct (concat Ls)" "i < length Ls" "j < length Ls" "i \<noteq> j"
  shows "set (Ls ! i) \<inter> set (Ls ! j) = {}"
proof -
  have aux: "set (Ls ! i) \<inter> set (Ls ! j) = {}" if "i < j" "j < length Ls" for i j
  proof -
    have "concat Ls = concat (take j Ls) @ Ls ! j @ concat (drop (Suc j) Ls)"
      using that by (metis concat.simps(2) concat_append id_take_nth_drop)
    then have "set (concat (take j Ls)) \<inter> set (Ls ! j) = {}"
      using assms(1) by auto
    moreover have "Ls ! i \<in> set (take j Ls)"
      using that by (metis in_set_conv_nth length_take min.absorb4 nth_take)
    ultimately show ?thesis
      by auto
  qed
  show ?thesis
    using assms aux [of i j] aux [of j i] by (cases "i < j") auto
qed

section \<open>Power-of-two masks\<close>

text \<open>
  The hash tables select a bucket with \<open>x AND mask\<close>. With a table of \<open>2^k\<close> slots and
  buckets of \<open>2^b\<close> slots the mask keeps the bits \<open>b \<le> i < k\<close>.
\<close>

definition bucket_mask :: "nat \<Rightarrow> nat \<Rightarrow> u64" where
  "bucket_mask k b = mask k AND NOT (mask b)"

lemma unat_and_bucket_mask:
  assumes "b \<le> k" "k < 64"
  shows "unat (x AND bucket_mask k b) = 2 ^ b * ((unat x mod 2 ^ k) div 2 ^ b)"
proof -
  have "x AND bucket_mask k b = push_bit b (drop_bit b (take_bit k x))"
    using assms unfolding bucket_mask_def
    by (intro bit_word_eqI) (auto simp: bit_simps)
  moreover have "unat (push_bit b (drop_bit b (take_bit k x)))
      = push_bit b (drop_bit b (take_bit k (unat x)))"
  proof -
    have "push_bit b (drop_bit b (take_bit k (unat x))) < 2 ^ 64"
    proof -
      have "push_bit b (drop_bit b (take_bit k (unat x))) \<le> take_bit k (unat x)"
        by (simp add: push_bit_eq_mult drop_bit_eq_div)
      also have "\<dots> < 2 ^ k"
        by (simp add: take_bit_eq_mod)
      also have "\<dots> \<le> 2 ^ 64"
        using assms by (intro power_increasing) auto
      finally show ?thesis .
    qed
    then show ?thesis
      using assms
      by (simp add: unsigned_push_bit_eq unsigned_drop_bit_eq unsigned_take_bit_eq
            take_bit_nat_eq_self min_def)
  qed
  ultimately show ?thesis
    by (simp add: push_bit_eq_mult drop_bit_eq_div take_bit_eq_mod mult.commute)
qed

end
