(* ===== verification/Runtime.thy ===== *)
theory Runtime
  imports QPrelude
begin

text \<open>
  What the synchronisation layers know of the rest of the runtime: the thread structure
  (\<open>qt_qthread_struct.h\<close>, \<open>qt_threadstate.h\<close>), return codes, and the interface of the
  ready queues. The scheduler is chosen when the library is configured, so the layers take
  its operations as an argument; the locale \<open>ready_queues\<close> is what they rely on.
\<close>

section \<open>Threads\<close>

type_synonym tid = nat
type_synonym shep_id = nat

datatype threadstate =
    NASCENT | NEW | RUNNING | YIELDED | YIELDED_NEAR | QUEUE | FEB_BLOCKED | PARENT_YIELD
  | PARENT_BLOCKED | PARENT_UNBLOCKED | ASSASSINATED | TERMINATED | MIGRATING | SYSCALL
  | ILLEGAL | TERM_SHEP

text \<open>
  The fields of \<open>struct qthread_s\<close> and of its runtime data that the modelled code uses. A
  target shepherd of \<open>None\<close> is \<open>NO_SHEPHERD\<close>. The array of preconditions (element 0
  counts the rest) is the list of the addresses that are still to be checked; \<open>None\<close> is
  the null pointer.
\<close>

record qthread =
  thread_state :: threadstate
  flags :: "16 word"
  target_shepherd :: "shep_id option"
  shepherd_ptr :: shep_id
  preconds :: "u64 list option"
  blockedon :: u64
  tret :: u64

definition QTHREAD_REAL_MCCOY :: "16 word" where "QTHREAD_REAL_MCCOY = push_bit 1 1"
definition QTHREAD_UNSTEALABLE :: "16 word" where "QTHREAD_UNSTEALABLE = push_bit 4 1"

definition QTHREAD_SUCCESS :: int where "QTHREAD_SUCCESS = 0"
definition QTHREAD_TIMEOUT :: int where "QTHREAD_TIMEOUT = -5"
definition QTHREAD_OPFAIL :: int where "QTHREAD_OPFAIL = -7"

text \<open>\<open>ENOMEM\<close> and \<open>EOVERFLOW\<close> on Linux.\<close>

definition QTHREAD_MALLOC_ERROR :: int where "QTHREAD_MALLOC_ERROR = 12"
definition QTHREAD_OVERFLOW :: int where "QTHREAD_OVERFLOW = 75"

text \<open>What a filter callback asks the queue walker to do with a task.\<close>

datatype filter_code = IGNORE_AND_CONTINUE | IGNORE_AND_STOP | REMOVE_AND_CONTINUE | REMOVE_AND_STOP

section \<open>The interface of the ready queues\<close>

text \<open>
  \<open>tq_enqueue\<close> is \<open>qt_threadqueue_enqueue\<close> on the queue of a shepherd; the flags of the
  thread decide whether it may be stolen. \<open>spawncache_spawn\<close> is \<open>qt_spawncache_spawn\<close>: it
  returns whether the calling worker has a cache that took the thread.
\<close>

record 'q sched_ops =
  tq_enqueue :: "shep_id \<Rightarrow> tid \<Rightarrow> 16 word \<Rightarrow> 'q \<Rightarrow> 'q option"
  spawncache_spawn :: "tid \<Rightarrow> 16 word \<Rightarrow> 'q \<Rightarrow> ('q \<times> bool) option"

text \<open>The pattern of all layers: offer the thread to the worker's cache, else queue it.\<close>

definition spawn_or_enqueue :: "'q sched_ops \<Rightarrow> shep_id \<Rightarrow> tid \<Rightarrow> 16 word \<Rightarrow> 'q \<Rightarrow> 'q option" where
  "spawn_or_enqueue ops sh t fl q =
     do { (q, b) \<leftarrow> spawncache_spawn ops t fl q;
          if b then Some q else tq_enqueue ops sh t fl q }"

locale ready_queues =
  fixes ops :: "'q sched_ops"
    and qinv :: "'q \<Rightarrow> bool"
    and tasks :: "'q \<Rightarrow> tid multiset"
    and nsheps :: "'q \<Rightarrow> nat"
  assumes enqueue_law: "qinv q \<Longrightarrow> sh < nsheps q \<Longrightarrow>
      \<exists>q'. tq_enqueue ops sh t fl q = Some q' \<and> qinv q' \<and> tasks q' = add_mset t (tasks q)
         \<and> nsheps q' = nsheps q"
    and spawn_law: "qinv q \<Longrightarrow>
      \<exists>q' b. spawncache_spawn ops t fl q = Some (q', b) \<and> qinv q' \<and> nsheps q' = nsheps q
         \<and> tasks q' = (if b then add_mset t (tasks q) else tasks q)"
begin

lemma spawn_or_enqueue_law:
  assumes "qinv q" "sh < nsheps q"
  shows "\<exists>q'. spawn_or_enqueue ops sh t fl q = Some q'
    \<and> qinv q' \<and> tasks q' = add_mset t (tasks q) \<and> nsheps q' = nsheps q"
proof -
  obtain q' b where sp: "spawncache_spawn ops t fl q = Some (q', b)" "qinv q'"
    "nsheps q' = nsheps q" "tasks q' = (if b then add_mset t (tasks q) else tasks q)"
    using spawn_law [OF assms(1)] by blast
  show ?thesis
  proof (cases b)
    case True
    then show ?thesis using sp by (simp add: spawn_or_enqueue_def)
  next
    case False
    obtain q'' where "tq_enqueue ops sh t fl q' = Some q''" "qinv q''"
      "tasks q'' = add_mset t (tasks q')" "nsheps q'' = nsheps q'"
      using enqueue_law [OF sp(2), of sh t fl] assms(2) sp(3) by auto
    then show ?thesis using sp False by (simp add: spawn_or_enqueue_def)
  qed
qed

end

end
