(* ===== verification/QHash.thy ===== *)
theory QHash
  imports QPrelude
begin

text \<open>
  The hash functions of \<open>src/src/ds/dictionary/hash.c\<close>, in their 64-bit branches:
  \<open>qt_hash64\<close>, which the full/empty-bit tables use to choose a stripe and a bucket, and
  \<open>qt_hash_bytes\<close>, which the dictionaries use on byte strings. Bytes and state words
  are machine words, so every operation wraps and shifts as in the source.
\<close>

definition GOLDEN_RATIO :: u64 where
  "GOLDEN_RATIO = 0x9e3779b97f4a7c13"

text \<open>
  The mixing macro: twelve assignments, here the four rounds of three. The same twelve
  assignments are spelled out in \<open>qt_hash64\<close>.
\<close>

definition mix_round :: "nat \<Rightarrow> nat \<Rightarrow> nat \<Rightarrow> u64 \<times> u64 \<times> u64 \<Rightarrow> u64 \<times> u64 \<times> u64" where
  "mix_round r1 l2 r3 = (\<lambda>(a, b, c).
     let a = (a - b - c) XOR drop_bit r1 c;
         b = (b - c - a) XOR push_bit l2 a;
         c = (c - a - b) XOR drop_bit r3 b
     in (a, b, c))"

definition mix :: "u64 \<times> u64 \<times> u64 \<Rightarrow> u64 \<times> u64 \<times> u64" where
  "mix s = mix_round 12 18 22 (mix_round 35 49 11 (mix_round 38 23 5 (mix_round 43 9 8 s)))"

text \<open>
  The bytes of the key in memory order (little endian). The bytes 0 to 3 are shifted as
  \<open>int\<close>, so byte 3 shifted by 24 is sign-extended when it is added to the 64-bit word.
\<close>

definition key_byte :: "u64 \<Rightarrow> nat \<Rightarrow> u8" where
  "key_byte key i = ucast (drop_bit (8 * i) key)"

definition int_shift :: "u8 \<Rightarrow> nat \<Rightarrow> u64" where
  "int_shift x n = scast (push_bit n (ucast x :: u32))"

definition qt_hash64 :: "u64 \<Rightarrow> u64" where
  "qt_hash64 key =
     (let b = 0x9e3779b97f4a7c13;
          c = 0xdeadbeefcafebabe + 8;
          a = b + push_bit 56 (ucast (key_byte key 7)) + push_bit 48 (ucast (key_byte key 6))
                + push_bit 40 (ucast (key_byte key 5)) + push_bit 32 (ucast (key_byte key 4))
                + int_shift (key_byte key 3) 24 + int_shift (key_byte key 2) 16
                + int_shift (key_byte key 1) 8 + int_shift (key_byte key 0) 0;
          (a, b, c) = mix (a, b, c)
      in c)"

definition byte_at :: "u8 list \<Rightarrow> nat \<Rightarrow> nat \<Rightarrow> u64" where
  "byte_at k i n = push_bit n (ucast (k ! i))"

fun hash_blocks :: "u8 list \<Rightarrow> u64 \<times> u64 \<times> u64 \<Rightarrow> u8 list \<times> u64 \<times> u64 \<times> u64" where
  "hash_blocks k (a, b, c) =
     (if 12 \<le> length k then
        hash_blocks (drop 12 k)
          (mix (a + (byte_at k 0 0 + byte_at k 1 8 + byte_at k 2 16 + byte_at k 3 24),
                b + (byte_at k 4 0 + byte_at k 5 8 + byte_at k 6 16 + byte_at k 7 24),
                c + (byte_at k 8 0 + byte_at k 9 8 + byte_at k 10 16 + byte_at k 11 24)))
      else (k, a, b, c))"

declare hash_blocks.simps [simp del]

text \<open>
  The \<open>switch\<close> that handles the last 11 bytes falls through: a case for byte \<open>i\<close> is
  executed when more than \<open>i\<close> bytes are left. Bytes 8 and 9 are both shifted by 16, as
  written in the source.
\<close>

definition tail_byte :: "u8 list \<Rightarrow> nat \<Rightarrow> nat \<Rightarrow> u64" where
  "tail_byte k i n = (if i < length k then byte_at k i n else 0)"

definition hash_tail :: "nat \<Rightarrow> u8 list \<Rightarrow> u64 \<times> u64 \<times> u64 \<Rightarrow> u64 \<times> u64 \<times> u64" where
  "hash_tail bytes k = (\<lambda>(a, b, c).
     (a + tail_byte k 3 24 + tail_byte k 2 16 + tail_byte k 1 8 + tail_byte k 0 0,
      b + tail_byte k 7 24 + tail_byte k 6 16 + tail_byte k 5 8 + tail_byte k 4 0,
      c + of_nat bytes + tail_byte k 10 24 + tail_byte k 9 16 + tail_byte k 8 16))"

definition qt_hash_bytes :: "u8 list \<Rightarrow> u64 \<Rightarrow> u64" where
  "qt_hash_bytes key state =
     (let (k, s) = hash_blocks key (GOLDEN_RATIO, GOLDEN_RATIO, state);
          (a, b, c) = mix (hash_tail (length key) k s)
      in c)"

section \<open>The mixing step loses no information\<close>

lemma xor_xor_cancel: "(x XOR z) XOR z = x" for x z :: u64
  by (simp add: xor.assoc)

text \<open>Each round is undone by running its three assignments backwards.\<close>

definition unmix_round :: "nat \<Rightarrow> nat \<Rightarrow> nat \<Rightarrow> u64 \<times> u64 \<times> u64 \<Rightarrow> u64 \<times> u64 \<times> u64" where
  "unmix_round r1 l2 r3 = (\<lambda>(a, b, c).
     let c = (c XOR drop_bit r3 b) + b + a;
         b = (b XOR push_bit l2 a) + a + c;
         a = (a XOR drop_bit r1 c) + c + b
     in (a, b, c))"

lemma unmix_round_mix_round: "unmix_round r1 l2 r3 (mix_round r1 l2 r3 s) = s"
proof -
  obtain a b c where s: "s = (a, b, c)" by (cases s)
  show ?thesis
    unfolding s mix_round_def unmix_round_def Let_def prod.case xor_xor_cancel diff_add_cancel
    by (rule refl)
qed

lemma mix_round_inj: "inj (mix_round r1 l2 r3)"
  by (rule inj_on_inverseI [where g = "unmix_round r1 l2 r3"]) (rule unmix_round_mix_round)

lemma mix_inj: "inj mix"
proof (rule injI)
  fix s t
  assume "mix s = mix t"
  then show "s = t"
    unfolding mix_def by (simp only: mix_round_inj [THEN inj_eq])
qed

text \<open>An injection of the finite state space into itself is onto.\<close>

lemma mix_bij: "bij mix"
proof -
  have "finite (UNIV :: (u64 \<times> u64 \<times> u64) set)"
    by (rule finite)
  then show ?thesis
    using mix_inj by (simp add: bij_def finite_UNIV_inj_surj)
qed

section \<open>The byte hash on keys that differ in their last two bytes\<close>

lemma hash_blocks_swap:
  assumes "length p mod 12 = 8"
  shows "\<exists>q s'. length q = 8 \<and> hash_blocks (p @ [x, y]) s = (q @ [x, y], s')
    \<and> hash_blocks (p @ [y, x]) s = (q @ [y, x], s')"
  using assms
proof (induction "length p" arbitrary: p s rule: less_induct)
  case less
  obtain a b c where s: "s = (a, b, c)"
    by (cases s)
  show ?case
  proof (cases "length p < 12")
    case True
    then have "length p = 8"
      using less.prems by simp
    then show ?thesis
      unfolding s by (simp add: hash_blocks.simps)
  next
    case False
    then have "12 \<le> length p" "length (drop 12 p) mod 12 = 8"
      using less.prems by (simp_all add: mod_if)
    moreover have "byte_at (p @ zs) i n = byte_at p i n" if "i < 12" for i n zs
      using that False by (simp add: byte_at_def nth_append)
    ultimately show ?thesis
      unfolding s using less.hyps [of "drop 12 p"]
      by (subst (1 2) hash_blocks.simps) simp
  qed
qed

lemma hash_tail_swap:
  "length q = 8 \<Longrightarrow> hash_tail n (q @ [x, y]) s = hash_tail n (q @ [y, x]) s"
  by (cases s) (simp add: hash_tail_def tail_byte_def byte_at_def nth_append add_ac)

end
