(* ===== verification/Hashmap.thy ===== *)
theory Hashmap
  imports QHash
begin

text \<open>
  The open-addressing hash table of \<open>src/src/hashmap.c\<close>, which the full/empty-bit and
  syncvar layers use to find the record of an address.

  A table has a power-of-two number of slots, grouped into buckets of one cache line.
  A key is looked for in the bucket its hash selects, then in further buckets at a
  key-dependent odd stride; a slot that was never used stops the search, a deleted slot
  does not. The keys 0 and 1 mark unused and deleted slots, so entries for these two keys
  are kept outside of the array.

  The lock of the table protects every operation; the operations named \<open>_locked\<close> in the
  source run with it held and are modelled as functions of the table. Keys and values are
  pointers (\<open>u64\<close>), sizes are \<open>nat\<close>.
\<close>

section \<open>Data\<close>

record hash_entry =
  ekey :: u64
  evalue :: u64

record qt_hash_s =
  needs_lock :: bool
  entries :: "hash_entry list"
  hmask :: u64
  num_entries :: nat
  population :: nat
  deletes :: nat
  grow_size :: nat
  shrink_size :: nat
  tidy_up_size :: nat
  oob_value :: "u64 \<times> u64"
  has_key :: "bool \<times> bool"

text \<open>The static variables of the file, and the page size of the runtime.\<close>

record hash_globals =
  linesize :: nat
  bucketsize :: nat
  bucketmask :: nat
  pagesize :: nat

definition KEY_NULL :: u64 where "KEY_NULL = 0"
definition KEY_DELETED :: u64 where "KEY_DELETED = 1"

text \<open>\<open>sizeof(hash_entry)\<close> is 16.\<close>

definition qt_hash_initialize_subsystem :: "nat \<Rightarrow> nat \<Rightarrow> hash_globals" where
  "qt_hash_initialize_subsystem cacheline page =
     \<lparr>linesize = cacheline, bucketsize = cacheline div 16,
      bucketmask = cacheline div 16 - 1, pagesize = page\<rparr>"

section \<open>Creation\<close>

function encompassing_from :: "nat \<Rightarrow> nat \<Rightarrow> nat" where
  "encompassing_from z k = (if z < k \<and> 0 < z then encompassing_from (2 * z) k else z)"
  by pat_completeness auto
termination
  by (relation "measure (\<lambda>(z, k). k - z)") auto

declare encompassing_from.simps [simp del]

definition encompassing_power_of_two :: "nat \<Rightarrow> nat" where
  "encompassing_power_of_two k = encompassing_from 1 k"

text \<open>
  The triggers are computed in single precision. With \<open>entries = 2^k\<close> the product with
  the constant is exact; the constants are \<open>0.65f = 10905190 / 2^24\<close>,
  \<open>0.8f = 13421773 / 2^24\<close> and \<open>0.030f = 16106127 / 2^29\<close>. Subtracting 1 is exact while
  the difference has at most 24 significant bits, that is up to \<open>2^24\<close> entries; beyond,
  it is rounded to the nearest even significand, which gives back the product except
  when the product is twice an odd significand.
\<close>

definition float_trigger :: "nat \<Rightarrow> nat \<Rightarrow> nat" where
  "float_trigger m n =
     (let p = m * n div 2 ^ 24
      in if n \<le> 2 ^ 24 then p - 1 else if n = 2 ^ 25 \<and> odd m then p - 2 else p)"

definition min_entries :: "hash_globals \<Rightarrow> nat" where
  "min_entries g = 2 * pagesize g div 16"

definition round_entries :: "hash_globals \<Rightarrow> nat \<Rightarrow> nat" where
  "round_entries g n =
     encompassing_power_of_two
       (if n mod min_entries g \<noteq> 0 then n + (min_entries g - n mod min_entries g) else n)"

definition empty_entry :: hash_entry where
  "empty_entry = \<lparr>ekey = 0, evalue = 0\<rparr>"

definition qt_hash_internal_create :: "hash_globals \<Rightarrow> qt_hash_s \<Rightarrow> nat \<Rightarrow> qt_hash_s" where
  "qt_hash_internal_create g ret n =
     (let n = round_entries g n
      in ret\<lparr>num_entries := n,
             hmask := of_nat (n - 1) AND NOT (of_nat (bucketmask g)),
             grow_size := float_trigger 10905190 n,
             tidy_up_size := float_trigger 13421773 n,
             shrink_size := (if n = min_entries g then 0 else n * 16106127 div 2 ^ 29),
             entries := replicate n empty_entry\<rparr>)"

definition calloc_hash :: qt_hash_s where
  "calloc_hash =
     \<lparr>needs_lock = False, entries = [], hmask = 0, num_entries = 0, population = 0,
      deletes = 0, grow_size = 0, shrink_size = 0, tidy_up_size = 0,
      oob_value = (0, 0), has_key = (False, False)\<rparr>"

definition qt_hash_create :: "hash_globals \<Rightarrow> bool \<Rightarrow> qt_hash_s" where
  "qt_hash_create g needSync =
     qt_hash_internal_create g (calloc_hash\<lparr>needs_lock := needSync\<rparr>) 100"

section \<open>Lookup\<close>

text \<open>
  A lookup returns the place of the value: one of the two out-of-band values, or the
  value of a slot.
\<close>

datatype hash_slot = Oob u64 | Slot nat

datatype scan_result = Found nat | HitNull | Exhausted

fun scan_bucket :: "hash_entry list \<Rightarrow> u64 \<Rightarrow> nat list \<Rightarrow> scan_result" where
  "scan_bucket z key [] = Exhausted"
| "scan_bucket z key (i # is) =
     (let zkey = ekey (z ! i)
      in if zkey = key then Found i
         else if zkey = KEY_NULL then HitNull
         else scan_bucket z key is)"

definition bucket_slots :: "hash_globals \<Rightarrow> u64 \<Rightarrow> nat list" where
  "bucket_slots g bucket = [unat bucket..<unat bucket + bucketsize g]"

definition probe_step :: "hash_globals \<Rightarrow> u64 \<Rightarrow> u64 \<Rightarrow> u64" where
  "probe_step g hashed m =
     ((drop_bit 16 hashed OR push_bit 16 hashed) AND m) OR of_nat (bucketsize g)"

text \<open>The \<open>do ... while (bucket != quit)\<close> loop; \<open>None\<close> is an access outside the array,
  or the fuel running out.\<close>

fun find_loop :: "nat \<Rightarrow> hash_globals \<Rightarrow> qt_hash_s \<Rightarrow> u64 \<Rightarrow> u64 \<Rightarrow> u64 \<Rightarrow> u64
    \<Rightarrow> hash_slot option option" where
  "find_loop 0 g h key step quit bucket = None"
| "find_loop (Suc fuel) g h key step quit bucket =
     (let bucket = (bucket + step) AND hmask h
      in if length (entries h) < unat bucket + bucketsize g then None
         else case scan_bucket (entries h) key (bucket_slots g bucket) of
           Found i \<Rightarrow> Some (Some (Slot i))
         | HitNull \<Rightarrow> Some None
         | Exhausted \<Rightarrow> if bucket \<noteq> quit then find_loop fuel g h key step quit bucket
                      else Some None)"

definition oob_has :: "qt_hash_s \<Rightarrow> u64 \<Rightarrow> bool" where
  "oob_has h key = (if key = KEY_NULL then fst (has_key h) else snd (has_key h))"

definition oob_get :: "qt_hash_s \<Rightarrow> u64 \<Rightarrow> u64" where
  "oob_get h key = (if key = KEY_NULL then fst (oob_value h) else snd (oob_value h))"

definition oob_set :: "qt_hash_s \<Rightarrow> u64 \<Rightarrow> bool \<Rightarrow> u64 \<Rightarrow> qt_hash_s" where
  "oob_set h key b v =
     (if key = KEY_NULL
      then h\<lparr>has_key := (b, snd (has_key h)), oob_value := (v, snd (oob_value h))\<rparr>
      else h\<lparr>has_key := (fst (has_key h), b), oob_value := (fst (oob_value h), v)\<rparr>)"

definition qt_hash_internal_find ::
    "hash_globals \<Rightarrow> qt_hash_s \<Rightarrow> u64 \<Rightarrow> hash_slot option option" where
  "qt_hash_internal_find g h key =
     (if key = KEY_DELETED \<or> key = KEY_NULL
      then Some (if oob_has h key then Some (Oob key) else None)
      else
        let hashed = qt_hash64 key;
            bucket = hashed AND hmask h
        in if length (entries h) < unat bucket + bucketsize g then None
           else case scan_bucket (entries h) key (bucket_slots g bucket) of
             Found i \<Rightarrow> Some (Some (Slot i))
           | HitNull \<Rightarrow> Some None
           | Exhausted \<Rightarrow>
               find_loop (num_entries h) g h key (probe_step g hashed (hmask h)) bucket bucket)"

definition slot_value :: "qt_hash_s \<Rightarrow> hash_slot \<Rightarrow> u64" where
  "slot_value h s = (case s of Oob key \<Rightarrow> oob_get h key | Slot i \<Rightarrow> evalue (entries h ! i))"

text \<open>\<open>NULL\<close> (0) when the key is not present.\<close>

definition qt_hash_get_locked :: "hash_globals \<Rightarrow> qt_hash_s \<Rightarrow> u64 \<Rightarrow> u64 option" where
  "qt_hash_get_locked g h key =
     (case qt_hash_internal_find g h key of
        None \<Rightarrow> None
      | Some None \<Rightarrow> Some 0
      | Some (Some s) \<Rightarrow> Some (slot_value h s))"

section \<open>Insertion and rehashing\<close>

definition PUT_COLLISION :: int where "PUT_COLLISION = 0"
definition PUT_SUCCESS :: int where "PUT_SUCCESS = 1"

text \<open>
  Insertion scans a bucket for the key and remembers in \<open>f\<close> the first slot that is
  deleted or unused; an unused slot ends the scan of the bucket.
\<close>

datatype put_scan_result = Present nat | Free "nat option"

fun put_scan :: "hash_entry list \<Rightarrow> u64 \<Rightarrow> nat option \<Rightarrow> nat list \<Rightarrow> put_scan_result" where
  "put_scan z key f [] = Free f"
| "put_scan z key f (i # is) =
     (let zkey = ekey (z ! i)
      in if zkey = key then Present i
         else if zkey = KEY_DELETED then put_scan z key (if f = None then Some i else f) is
         else if zkey = KEY_NULL then Free (if f = None then Some i else f)
         else put_scan z key f is)"

fun put_loop :: "nat \<Rightarrow> hash_globals \<Rightarrow> qt_hash_s \<Rightarrow> u64 \<Rightarrow> u64 \<Rightarrow> u64 \<Rightarrow> u64
    \<Rightarrow> put_scan_result option" where
  "put_loop 0 g h key step quit bucket = None"
| "put_loop (Suc fuel) g h key step quit bucket =
     (let bucket = (bucket + step) AND hmask h
      in if length (entries h) < unat bucket + bucketsize g then None
         else case put_scan (entries h) key None (bucket_slots g bucket) of
           Present i \<Rightarrow> Some (Present i)
         | Free (Some f) \<Rightarrow> Some (Free (Some f))
         | Free None \<Rightarrow> if bucket \<noteq> quit then put_loop fuel g h key step quit bucket
                       else Some (Free None))"

text \<open>
  Where the search of \<open>qt_hash_put_locked\<close> ends: the key is in its first bucket, the key
  is in a later bucket, or there is room in a slot.
\<close>

datatype put_place = InFirst | InLater nat | Room "nat option"

definition put_search :: "hash_globals \<Rightarrow> qt_hash_s \<Rightarrow> u64 \<Rightarrow> put_place option" where
  "put_search g h key =
     (let hw = qt_hash64 key;
          bucket = hw AND hmask h
      in if length (entries h) < unat bucket + bucketsize g then None
         else case put_scan (entries h) key None (bucket_slots g bucket) of
           Present i \<Rightarrow> Some InFirst
         | Free (Some f) \<Rightarrow> Some (Room (Some f))
         | Free None \<Rightarrow>
             (case put_loop (num_entries h) g h key (probe_step g hw (hmask h)) bucket bucket of
                None \<Rightarrow> None
              | Some (Present i) \<Rightarrow> Some (InLater i)
              | Some (Free f) \<Rightarrow> Some (Room f)))"

text \<open>
  The copying loop of \<open>brehash\<close>. It stops as soon as \<open>copied\<close> reaches the population
  of the old table. A collision in the new table fails an assertion.
\<close>

fun copy_entries :: "(qt_hash_s \<Rightarrow> u64 \<Rightarrow> u64 \<Rightarrow> (qt_hash_s \<times> int) option)
    \<Rightarrow> nat \<Rightarrow> nat \<Rightarrow> hash_entry list \<Rightarrow> qt_hash_s \<Rightarrow> qt_hash_s option" where
  "copy_entries put pop copied [] d = Some d"
| "copy_entries put pop copied (e # es) d =
     (if ekey e > KEY_DELETED then
        do { (d, r) \<leftarrow> put d (ekey e) (evalue e);
             c_assert (r \<noteq> PUT_COLLISION);
             if copied + 1 = pop then Some d else copy_entries put pop (copied + 1) es d }
      else copy_entries put pop copied es d)"

definition brehash :: "(qt_hash_s \<Rightarrow> u64 \<Rightarrow> u64 \<Rightarrow> (qt_hash_s \<times> int) option)
    \<Rightarrow> hash_globals \<Rightarrow> qt_hash_s \<Rightarrow> nat \<Rightarrow> qt_hash_s option" where
  "brehash put g h len =
     (let d = (qt_hash_internal_create g calloc_hash len)
                \<lparr>has_key := has_key h, oob_value := oob_value h\<rparr>;
          copied = of_bool (fst (has_key h)) + of_bool (snd (has_key h))
      in do {
        d \<leftarrow> (if copied < population h
              then copy_entries put (population h) copied (entries h) d else Some d);
        c_assert (population h = population d);
        Some (h\<lparr>entries := entries d, hmask := hmask d, num_entries := num_entries d,
               population := population d, deletes := deletes d, grow_size := grow_size d,
               tidy_up_size := tidy_up_size d, oob_value := oob_value d,
               has_key := has_key d\<rparr>)
      })"

text \<open>
  \<open>qt_hash_put_locked\<close> restarts after a rehash, and a rehash inserts into the new table
  with \<open>qt_hash_put_locked\<close>; the fuel bounds the depth of this recursion.
\<close>

primrec put_locked_fuel :: "nat \<Rightarrow> hash_globals \<Rightarrow> qt_hash_s \<Rightarrow> u64 \<Rightarrow> u64
    \<Rightarrow> (qt_hash_s \<times> int) option" where
  "put_locked_fuel 0 = (\<lambda>g h key value. None)"
| "put_locked_fuel (Suc fuel) = (\<lambda>g h key value.
     if key = KEY_DELETED \<or> key = KEY_NULL then
       (if oob_has h key then Some (h, PUT_COLLISION)
        else Some (oob_set h key True value, PUT_SUCCESS))
     else
       (case put_search g h key of
          None \<Rightarrow> None
        | Some InFirst \<Rightarrow> Some (h, PUT_COLLISION)
        | Some (InLater i) \<Rightarrow>
            Some (h\<lparr>entries := (entries h)[i := (entries h ! i)\<lparr>evalue := value\<rparr>]\<rparr>, 1)
        | Some (Room None) \<Rightarrow> None
        | Some (Room (Some f)) \<Rightarrow>
            (let fill = (\<lambda>h. h\<lparr>entries := (entries h)[f := \<lparr>ekey = key, evalue = value\<rparr>],
                               population := population h + 1\<rparr>)
             in if ekey (entries h ! f) = KEY_NULL then
                  (if grow_size h \<le> population h then
                     do { h \<leftarrow> brehash (put_locked_fuel fuel g) g h (num_entries h * 2);
                          put_locked_fuel fuel g h key value }
                   else if tidy_up_size h < population h + deletes h then
                     do { h \<leftarrow> brehash (put_locked_fuel fuel g) g h (num_entries h);
                          put_locked_fuel fuel g h key value }
                   else Some (fill h, 1))
                else Some (fill (h\<lparr>deletes := deletes h - 1\<rparr>), 1))))"

definition qt_hash_put_locked ::
    "hash_globals \<Rightarrow> qt_hash_s \<Rightarrow> u64 \<Rightarrow> u64 \<Rightarrow> (qt_hash_s \<times> int) option" where
  "qt_hash_put_locked g h key value = put_locked_fuel 2 g h key value"

section \<open>Removal, counting, iteration\<close>

definition qt_hash_remove_locked ::
    "hash_globals \<Rightarrow> qt_hash_s \<Rightarrow> u64 \<Rightarrow> (qt_hash_s \<times> int) option" where
  "qt_hash_remove_locked g h key =
     (if key = KEY_DELETED \<or> key = KEY_NULL then
        (if oob_has h key then Some (oob_set h key False 0, 1) else Some (h, 0))
      else
        case qt_hash_internal_find g h key of
          None \<Rightarrow> None
        | Some None \<Rightarrow> Some (h, 0)
        | Some (Some (Oob k)) \<Rightarrow> None
        | Some (Some (Slot i)) \<Rightarrow>
            (let h = h\<lparr>entries := (entries h)[i := (entries h ! i)\<lparr>ekey := KEY_DELETED\<rparr>],
                       deletes := deletes h + 1, population := population h - 1\<rparr>
             in if tidy_up_size h \<le> population h + deletes h then
                  do { h \<leftarrow> brehash (qt_hash_put_locked g) g h (num_entries h); Some (h, 1) }
                else if population h < shrink_size h then
                  do { h \<leftarrow> brehash (qt_hash_put_locked g) g h (num_entries h div 2); Some (h, 1) }
                else Some (h, 1)))"

definition qt_hash_count :: "qt_hash_s \<Rightarrow> nat" where
  "qt_hash_count h = population h + of_bool (fst (has_key h)) + of_bool (snd (has_key h))"

text \<open>
  The loop shared by \<open>qt_hash_callback\<close> and \<open>qt_hash_destroy_deallocate\<close>: it visits the
  occupied slots until as many entries as the population have been visited.
\<close>

fun visit_entries :: "nat \<Rightarrow> nat \<Rightarrow> hash_entry list \<Rightarrow> (u64 \<times> u64) list" where
  "visit_entries pop visited [] = []"
| "visit_entries pop visited (e # es) =
     (if ekey e > KEY_DELETED then
        (ekey e, evalue e) # (if visited + 1 = pop then [] else visit_entries pop (visited + 1) es)
      else visit_entries pop visited es)"

text \<open>The key/value pairs the callback is applied to, in order.\<close>

definition qt_hash_callback :: "qt_hash_s \<Rightarrow> (u64 \<times> u64) list" where
  "qt_hash_callback h =
     (let oob = (if fst (has_key h) then [(KEY_NULL, fst (oob_value h))] else [])
              @ (if snd (has_key h) then [(KEY_DELETED, snd (oob_value h))] else [])
      in oob @ (if length oob < population h
                then visit_entries (population h) (length oob) (entries h) else []))"

text \<open>
  The values the deallocator is applied to; afterwards the number visited must equal the
  population.
\<close>

definition qt_hash_destroy_deallocate :: "qt_hash_s \<Rightarrow> u64 list option" where
  "qt_hash_destroy_deallocate h =
     (let freed = map snd (qt_hash_callback h)
      in do { c_assert (length freed = population h); Some freed })"

text \<open>
  The unlocked entry points take the lock, call the locked operation and release it; with
  every operation atomic they compute the same.
\<close>

definition qt_hash_put :: "hash_globals \<Rightarrow> qt_hash_s \<Rightarrow> u64 \<Rightarrow> u64 \<Rightarrow> (qt_hash_s \<times> int) option" where
  "qt_hash_put g h key value = qt_hash_put_locked g h key value"

definition qt_hash_get :: "hash_globals \<Rightarrow> qt_hash_s \<Rightarrow> u64 \<Rightarrow> u64 option" where
  "qt_hash_get g h key = qt_hash_get_locked g h key"

definition qt_hash_remove :: "hash_globals \<Rightarrow> qt_hash_s \<Rightarrow> u64 \<Rightarrow> (qt_hash_s \<times> int) option" where
  "qt_hash_remove g h key = qt_hash_remove_locked g h key"

end
