(* ===== verification/Feb.thy ===== *)
theory Feb
  imports Runtime Hashmap
begin

text \<open>
  The full/empty bits of \<open>src/src/feb.c\<close>. Every aligned word of memory has a full/empty
  bit and three queues of waiting threads: \<open>EFQ\<close> (waiting to write an empty word),
  \<open>FEQ\<close> (waiting to read and empty a full word) and \<open>FFQ\<close> (waiting to read a full word).
  A word without a record in the hash tables is full and has no waiters.

  An operation looks the record up under the lock of its stripe and then works on the
  record under the record's own lock; each operation is modelled as one atomic step. A
  thread that has to wait puts itself in a queue and leaves; the thread that releases it
  performs the waiting operation on its behalf and makes it ready again.

  Memory is a function from addresses to words. The records are kept in a store of their
  own, addressed by pointers; the pointer a call of \<open>ALLOC_ADDRSTAT\<close> returns is an
  argument (\<open>newp\<close>, 0 when the allocation fails), as is the success of
  \<open>ALLOC_ADDRRES\<close> (\<open>ares\<close>). Timers, profiling and debug output are left out.
\<close>

section \<open>Data\<close>

record addrres =
  raddr :: u64
  waiter :: tid

record addrstat =
  full :: bool
  EFQ :: "addrres list"
  FEQ :: "addrres list"
  FFQ :: "addrres list"

record 'q feb_state =
  qlib_present :: bool
  lib_initialized :: bool
  hg :: hash_globals
  febs :: "qt_hash_s list"
  stats :: "u64 \<Rightarrow> addrstat option"
  mem :: "u64 \<Rightarrow> u64"
  threads :: "tid \<Rightarrow> qthread"
  ready :: 'q

datatype blocker_type =
  WRITEEF | WRITEEF_NB | WRITEF | READFF | READFF_NB | READFE | READFE_NB | FILL | EMPTY

text \<open>
  How a call ends: it returns a code, or the calling thread is queued and leaves the
  processor (it returns \<open>QTHREAD_SUCCESS\<close> once released), or, outside of a qthread, the
  operation is handed to a new qthread and its result awaited.
\<close>

datatype feb_outcome = Ret int | Blocked | Delegated blocker_type u64 u64

section \<open>Stripes and records\<close>

definition QTHREAD_LOCKING_STRIPES :: nat where "QTHREAD_LOCKING_STRIPES = 128"

definition QTHREAD_CHOOSE_STRIPE2 :: "u64 \<Rightarrow> nat" where
  "QTHREAD_CHOOSE_STRIPE2 addr =
     unat (qt_hash64 addr AND of_nat (QTHREAD_LOCKING_STRIPES - 1))"

definition QALIGN :: "u64 \<Rightarrow> u64" where
  "QALIGN d = d AND NOT (8 - 1)"

definition qthread_addrstat_new :: addrstat where
  "qthread_addrstat_new = \<lparr>full = True, EFQ = [], FEQ = [], FFQ = []\<rparr>"

definition qt_feb_subsystem_init :: "hash_globals \<Rightarrow> bool \<Rightarrow> (u64 \<Rightarrow> u64) \<Rightarrow> (tid \<Rightarrow> qthread)
    \<Rightarrow> 'q \<Rightarrow> 'q feb_state" where
  "qt_feb_subsystem_init g need_sync memory ths q =
     \<lparr>qlib_present = True, lib_initialized = True, hg = g,
      febs = map (\<lambda>_. qt_hash_create g need_sync) [0..<QTHREAD_LOCKING_STRIPES],
      stats = Map.empty, mem = memory, threads = ths, ready = q\<rparr>"

definition feb_get :: "'q feb_state \<Rightarrow> nat \<Rightarrow> u64 \<Rightarrow> u64 option" where
  "feb_get s bin a = qt_hash_get_locked (hg s) (febs s ! bin) a"

definition feb_put :: "'q feb_state \<Rightarrow> nat \<Rightarrow> u64 \<Rightarrow> u64 \<Rightarrow> 'q feb_state option" where
  "feb_put s bin a p =
     do { (h, r) \<leftarrow> qt_hash_put_locked (hg s) (febs s ! bin) a p;
          c_assert (r \<noteq> 0);
          Some (s\<lparr>febs := (febs s)[bin := h]\<rparr>) }"

definition set_mem :: "u64 \<Rightarrow> u64 \<Rightarrow> 'q feb_state \<Rightarrow> 'q feb_state" where
  "set_mem a v s = s\<lparr>mem := (mem s)(a := v)\<rparr>"

definition set_stat :: "u64 \<Rightarrow> addrstat \<Rightarrow> 'q feb_state \<Rightarrow> 'q feb_state" where
  "set_stat p m s = s\<lparr>stats := (stats s)(p \<mapsto> m)\<rparr>"

definition upd_thread :: "tid \<Rightarrow> (qthread \<Rightarrow> qthread) \<Rightarrow> 'q feb_state \<Rightarrow> 'q feb_state" where
  "upd_thread t f s = s\<lparr>threads := (threads s)(t := f (threads s t))\<rparr>"

text \<open>\<open>if (d && (d != a)) *d = *a\<close>\<close>

definition copy_word :: "u64 \<Rightarrow> u64 \<Rightarrow> 'q feb_state \<Rightarrow> 'q feb_state" where
  "copy_word d a s = (if d \<noteq> 0 \<and> d \<noteq> a then set_mem d (mem s a) s else s)"

section \<open>Scheduling a released thread\<close>

definition qt_feb_schedule :: "'q sched_ops \<Rightarrow> tid \<Rightarrow> shep_id \<Rightarrow> 'q feb_state \<Rightarrow> 'q feb_state option"
  where
  "qt_feb_schedule ops w shep s =
     (let s = upd_thread w (\<lambda>t. t\<lparr>thread_state := RUNNING\<rparr>) s;
          t = threads s w
      in if flags t AND QTHREAD_UNSTEALABLE \<noteq> 0 \<and> shepherd_ptr t \<noteq> shep
         then do { q \<leftarrow> tq_enqueue ops (shepherd_ptr t) w (flags t) (ready s);
                   Some (s\<lparr>ready := q\<rparr>) }
         else do { q \<leftarrow> spawn_or_enqueue ops shep w (flags t) (ready s);
                   Some (s\<lparr>ready := q\<rparr>) })"

section \<open>Removing a record\<close>

definition qthread_FEB_remove :: "u64 \<Rightarrow> 'q feb_state \<Rightarrow> 'q feb_state option" where
  "qthread_FEB_remove maddr s =
     (let lockbin = QTHREAD_CHOOSE_STRIPE2 maddr
      in do {
        p \<leftarrow> feb_get s lockbin maddr;
        if p = 0 then Some s
        else do {
          m \<leftarrow> stats s p;
          if FEQ m = [] \<and> EFQ m = [] \<and> FFQ m = [] \<and> full m then do {
            (h, r) \<leftarrow> qt_hash_remove_locked (hg s) (febs s ! lockbin) maddr;
            c_assert (r \<noteq> 0);
            Some (s\<lparr>febs := (febs s)[lockbin := h], stats := (stats s)(p := None)\<rparr>)
          } else Some s
        }
      })"

section \<open>Preconditions\<close>

text \<open>
  The loop of \<open>qthread_check_feb_preconds\<close>, over the addresses that are still to be
  checked, the last one first. The result tells whether the task was queued again.
\<close>

fun check_preconds_loop :: "tid \<Rightarrow> u64 list \<Rightarrow> 'q feb_state \<Rightarrow> ('q feb_state \<times> bool) option" where
  "check_preconds_loop t [] s = Some (s, False)"
| "check_preconds_loop t (this_sync # rest) s =
     do {
       p \<leftarrow> feb_get s (QTHREAD_CHOOSE_STRIPE2 this_sync) (QALIGN this_sync);
       let dec = upd_thread t (\<lambda>th. th\<lparr>preconds := Some (rev rest)\<rparr>) s;
       if p = 0 then check_preconds_loop t rest dec
       else do {
         m \<leftarrow> stats s p;
         if full m then check_preconds_loop t rest dec
         else Some (upd_thread t (\<lambda>th. th\<lparr>thread_state := NASCENT\<rparr>)
                 (set_stat p (m\<lparr>FFQ := \<lparr>raddr = 0, waiter = t\<rparr> # FFQ m\<rparr>) s), True)
       }
     }"

definition qthread_check_feb_preconds :: "tid \<Rightarrow> 'q feb_state \<Rightarrow> ('q feb_state \<times> bool) option" where
  "qthread_check_feb_preconds t s =
     do {
       (s, again) \<leftarrow> check_preconds_loop t
          (case preconds (threads s t) of None \<Rightarrow> [] | Some ps \<Rightarrow> rev ps) s;
       if again then Some (s, True)
       else Some (upd_thread t (\<lambda>th. th\<lparr>thread_state := NEW, preconds := None\<rparr>) s, False)
     }"

fun qthread_precond_launch :: "'q sched_ops \<Rightarrow> shep_id \<Rightarrow> addrres list \<Rightarrow> 'q feb_state
    \<Rightarrow> 'q feb_state option" where
  "qthread_precond_launch ops shep [] s = Some s"
| "qthread_precond_launch ops shep (X # Xs) s =
     do {
       (s, again) \<leftarrow> qthread_check_feb_preconds (waiter X) s;
       s \<leftarrow> (if again then Some s
             else let t = threads s (waiter X);
                      dest = (case target_shepherd t of None \<Rightarrow> shep | Some d \<Rightarrow> d)
                  in do { q \<leftarrow> tq_enqueue ops dest (waiter X) (flags t) (ready s);
                          Some (s\<lparr>ready := q\<rparr>) });
       qthread_precond_launch ops shep Xs s
     }"

section \<open>Filling and emptying a word\<close>

text \<open>
  With the record locked, filling releases every reader in \<open>FFQ\<close> and then one thread of
  \<open>FEQ\<close>, which empties the word again; emptying releases one writer of \<open>EFQ\<close>, which fills
  it again. Tasks in \<open>FFQ\<close> that have not started (they wait for their preconditions) are
  collected in order and launched once the record is unlocked.
\<close>

fun release_FFQ :: "'q sched_ops \<Rightarrow> shep_id \<Rightarrow> u64 \<Rightarrow> addrres list \<Rightarrow> 'q feb_state \<times> addrres list
    \<Rightarrow> ('q feb_state \<times> addrres list) option" where
  "release_FFQ ops shep maddr [] (s, pre) = Some (s, pre)"
| "release_FFQ ops shep maddr (X # Xs) (s, pre) =
     (let s = copy_word (raddr X) maddr s
      in if thread_state (threads s (waiter X)) = NASCENT
         then release_FFQ ops shep maddr Xs (s, pre @ [X])
         else do { s \<leftarrow> qt_feb_schedule ops (waiter X) shep s;
                   release_FFQ ops shep maddr Xs (s, pre) })"

text \<open>\<open>if (maddr && (maddr != X->addr)) *maddr = *(X->addr)\<close> is \<open>copy_word\<close> as well.\<close>

function (sequential) gotlock_empty_inner :: "'q sched_ops \<Rightarrow> shep_id \<Rightarrow> u64
      \<Rightarrow> addrstat \<times> 'q feb_state \<times> addrres list
      \<Rightarrow> (addrstat \<times> 'q feb_state \<times> addrres list) option"
    and gotlock_fill_inner :: "'q sched_ops \<Rightarrow> shep_id \<Rightarrow> u64
      \<Rightarrow> addrstat \<times> 'q feb_state \<times> addrres list
      \<Rightarrow> (addrstat \<times> 'q feb_state \<times> addrres list) option" where
  "gotlock_empty_inner ops shep maddr (m, s, pre) =
     (case EFQ m of
        [] \<Rightarrow> Some (m\<lparr>full := False\<rparr>, s, pre)
      | X # Xs \<Rightarrow>
          do { s \<leftarrow> qt_feb_schedule ops (waiter X) shep (copy_word maddr (raddr X) s);
               gotlock_fill_inner ops shep maddr (m\<lparr>full := False, EFQ := Xs\<rparr>, s, pre) })"
| "gotlock_fill_inner ops shep maddr (m, s, pre) =
     do {
       (s, pre) \<leftarrow> release_FFQ ops shep maddr (FFQ m) (s, pre);
       case FEQ m of
         [] \<Rightarrow> Some (m\<lparr>full := True, FFQ := []\<rparr>, s, pre)
       | X # Xs \<Rightarrow>
           do { s \<leftarrow> qt_feb_schedule ops (waiter X) shep (copy_word (raddr X) maddr s);
                gotlock_empty_inner ops shep maddr
                  (m\<lparr>full := True, FFQ := [], FEQ := Xs\<rparr>, s, pre) }
     }"
  by pat_completeness auto
termination
  by (relation "measure (\<lambda>x. case x of
        Inl (_, _, _, m, _, _) \<Rightarrow> length (EFQ m) + length (FEQ m)
      | Inr (_, _, _, m, _, _) \<Rightarrow> length (EFQ m) + length (FEQ m))") auto

definition qthread_gotlock_empty :: "'q sched_ops \<Rightarrow> shep_id \<Rightarrow> u64 \<Rightarrow> u64 \<Rightarrow> 'q feb_state
    \<Rightarrow> 'q feb_state option" where
  "qthread_gotlock_empty ops shep p maddr s =
     do {
       m \<leftarrow> stats s p;
       (m, s, pre) \<leftarrow> gotlock_empty_inner ops shep maddr (m, s, []);
       let removeable = (full m \<and> EFQ m = [] \<and> FEQ m = [] \<and> FFQ m = []);
       s \<leftarrow> qthread_precond_launch ops shep pre (set_stat p m s);
       if removeable then qthread_FEB_remove maddr s else Some s
     }"

definition qthread_gotlock_fill :: "'q sched_ops \<Rightarrow> shep_id \<Rightarrow> u64 \<Rightarrow> u64 \<Rightarrow> 'q feb_state
    \<Rightarrow> 'q feb_state option" where
  "qthread_gotlock_fill ops shep p maddr s =
     do {
       m \<leftarrow> stats s p;
       c_assert (maddr \<noteq> 0);
       (m, s, pre) \<leftarrow> gotlock_fill_inner ops shep maddr (m, s, []);
       let removeable = (EFQ m = [] \<and> FEQ m = [] \<and> full m);
       s \<leftarrow> qthread_precond_launch ops shep pre (set_stat p m s);
       if removeable then qthread_FEB_remove maddr s else Some s
     }"

section \<open>The operations\<close>

definition qthread_feb_status :: "u64 \<Rightarrow> 'q feb_state \<Rightarrow> bool option" where
  "qthread_feb_status addr s =
     (if \<not> qlib_present s then Some True
      else do {
        p \<leftarrow> feb_get s (QTHREAD_CHOOSE_STRIPE2 addr) (QALIGN addr);
        if p = 0 then Some True else map_option full (stats s p)
      })"

definition qthread_empty :: "'q sched_ops \<Rightarrow> shep_id option \<Rightarrow> u64 \<Rightarrow> u64 \<Rightarrow> 'q feb_state
    \<Rightarrow> ('q feb_state \<times> feb_outcome) option" where
  "qthread_empty ops shep newp dest s =
     do {
       c_assert (lib_initialized s);
       case shep of None \<Rightarrow> Some (s, Delegated EMPTY dest 0)
       | Some shep \<Rightarrow>
         (let a = QALIGN dest; lockbin = QTHREAD_CHOOSE_STRIPE2 a
          in do {
            p \<leftarrow> feb_get s lockbin a;
            if p = 0 then
              (if newp = 0 then Some (s, Ret QTHREAD_MALLOC_ERROR)
               else do {
                 s \<leftarrow> feb_put (set_stat newp (qthread_addrstat_new\<lparr>full := False\<rparr>) s) lockbin a newp;
                 Some (s, Ret QTHREAD_SUCCESS) })
            else do { s \<leftarrow> qthread_gotlock_empty ops shep p a s; Some (s, Ret QTHREAD_SUCCESS) }
          })
     }"

definition qthread_fill :: "'q sched_ops \<Rightarrow> shep_id option \<Rightarrow> u64 \<Rightarrow> 'q feb_state
    \<Rightarrow> ('q feb_state \<times> feb_outcome) option" where
  "qthread_fill ops shep dest s =
     (if \<not> qlib_present s then Some (s, Ret QTHREAD_SUCCESS)
      else do {
        c_assert (lib_initialized s);
        case shep of None \<Rightarrow> Some (s, Delegated FILL dest 0)
        | Some shep \<Rightarrow>
          do {
            p \<leftarrow> feb_get s (QTHREAD_CHOOSE_STRIPE2 dest) (QALIGN dest);
            if p = 0 then Some (s, Ret QTHREAD_SUCCESS)
            else do { s \<leftarrow> qthread_gotlock_fill ops shep p (QALIGN dest) s;
                      Some (s, Ret QTHREAD_SUCCESS) }
          }
      })"

definition qthread_writeF :: "'q sched_ops \<Rightarrow> shep_id option \<Rightarrow> u64 \<Rightarrow> u64 \<Rightarrow> 'q feb_state
    \<Rightarrow> ('q feb_state \<times> feb_outcome) option" where
  "qthread_writeF ops shep dest src s =
     do {
       c_assert (lib_initialized s);
       case shep of None \<Rightarrow> Some (s, Delegated WRITEF dest src)
       | Some shep \<Rightarrow>
         do {
           p \<leftarrow> feb_get s (QTHREAD_CHOOSE_STRIPE2 dest) (QALIGN dest);
           let s = copy_word dest src s;
           if p = 0 then Some (s, Ret QTHREAD_SUCCESS)
           else do { s \<leftarrow> qthread_gotlock_fill ops shep p (QALIGN dest) s;
                     Some (s, Ret QTHREAD_SUCCESS) }
         }
     }"

text \<open>The thread puts itself in a queue of the record and leaves for its shepherd.\<close>

definition block_on :: "tid \<Rightarrow> u64 \<Rightarrow> addrstat \<Rightarrow> 'q feb_state \<Rightarrow> 'q feb_state" where
  "block_on me p m s =
     upd_thread me (\<lambda>t. t\<lparr>thread_state := FEB_BLOCKED, blockedon := p\<rparr>) (set_stat p m s)"

text \<open>The record of an address, created (full, no waiters) when there is none; \<open>Inl\<close> is the
  failed allocation.\<close>

definition find_or_create :: "u64 \<Rightarrow> nat \<Rightarrow> u64 \<Rightarrow> 'q feb_state \<Rightarrow> (int + 'q feb_state \<times> u64) option"
  where
  "find_or_create newp lockbin a s =
     do {
       p \<leftarrow> feb_get s lockbin a;
       if p \<noteq> 0 then Some (Inr (s, p))
       else if newp = 0 then Some (Inl QTHREAD_MALLOC_ERROR)
       else do { s \<leftarrow> feb_put (set_stat newp qthread_addrstat_new s) lockbin a newp;
                 Some (Inr (s, newp)) }
     }"

definition qthread_writeEF :: "'q sched_ops \<Rightarrow> tid option \<Rightarrow> u64 \<Rightarrow> bool \<Rightarrow> u64 \<Rightarrow> u64 \<Rightarrow> 'q feb_state
    \<Rightarrow> ('q feb_state \<times> feb_outcome) option" where
  "qthread_writeEF ops me newp ares dest src s =
     do {
       c_assert (lib_initialized s);
       case me of None \<Rightarrow> Some (s, Delegated WRITEEF dest src)
       | Some me \<Rightarrow>
         do {
           r \<leftarrow> find_or_create newp (QTHREAD_CHOOSE_STRIPE2 dest) (QALIGN dest) s;
           case r of Inl e \<Rightarrow> Some (s, Ret e)
           | Inr (s, p) \<Rightarrow>
             do {
               m \<leftarrow> stats s p;
               if full m then
                 (if \<not> ares then Some (s, Ret QTHREAD_MALLOC_ERROR)
                  else Some (block_on me p (m\<lparr>EFQ := \<lparr>raddr = src, waiter = me\<rparr> # EFQ m\<rparr>) s,
                             Blocked))
               else do { s \<leftarrow> qthread_gotlock_fill ops (shepherd_ptr (threads s me)) p
                               (QALIGN dest) (copy_word dest src s);
                         Some (s, Ret QTHREAD_SUCCESS) }
             }
         }
     }"

definition qthread_writeEF_nb :: "'q sched_ops \<Rightarrow> tid option \<Rightarrow> u64 \<Rightarrow> u64 \<Rightarrow> 'q feb_state
    \<Rightarrow> ('q feb_state \<times> feb_outcome) option" where
  "qthread_writeEF_nb ops me dest src s =
     (case me of None \<Rightarrow> Some (s, Delegated WRITEEF dest src)
      | Some me \<Rightarrow>
        do {
          p \<leftarrow> feb_get s (QTHREAD_CHOOSE_STRIPE2 dest) (QALIGN dest);
          if p = 0 then Some (s, Ret QTHREAD_OPFAIL)
          else do {
            m \<leftarrow> stats s p;
            if full m then Some (s, Ret QTHREAD_OPFAIL)
            else do { s \<leftarrow> qthread_gotlock_fill ops (shepherd_ptr (threads s me)) p
                            (QALIGN dest) (copy_word dest src s);
                      Some (s, Ret QTHREAD_SUCCESS) }
          }
        })"

definition qthread_readFF :: "tid option \<Rightarrow> bool \<Rightarrow> u64 \<Rightarrow> u64 \<Rightarrow> 'q feb_state
    \<Rightarrow> ('q feb_state \<times> feb_outcome) option" where
  "qthread_readFF me ares dest src s =
     do {
       c_assert (lib_initialized s);
       case me of None \<Rightarrow> Some (s, Delegated READFF dest src)
       | Some me \<Rightarrow>
         do {
           p \<leftarrow> feb_get s (QTHREAD_CHOOSE_STRIPE2 src) (QALIGN src);
           if p = 0 then Some (copy_word dest src s, Ret QTHREAD_SUCCESS)
           else do {
             m \<leftarrow> stats s p;
             if \<not> full m then
               (if \<not> ares then Some (s, Ret QTHREAD_MALLOC_ERROR)
                else Some (block_on me p (m\<lparr>FFQ := \<lparr>raddr = dest, waiter = me\<rparr> # FFQ m\<rparr>) s,
                           Blocked))
             else Some (copy_word dest src s, Ret QTHREAD_SUCCESS)
           }
         }
     }"

definition qthread_readFF_nb :: "tid option \<Rightarrow> u64 \<Rightarrow> u64 \<Rightarrow> 'q feb_state
    \<Rightarrow> ('q feb_state \<times> feb_outcome) option" where
  "qthread_readFF_nb me dest src s =
     (case me of None \<Rightarrow> Some (s, Delegated READFF_NB dest src)
      | Some me \<Rightarrow>
        do {
          p \<leftarrow> feb_get s (QTHREAD_CHOOSE_STRIPE2 src) (QALIGN src);
          if p = 0 then Some (copy_word dest src s, Ret QTHREAD_SUCCESS)
          else do {
            m \<leftarrow> stats s p;
            if \<not> full m then Some (s, Ret QTHREAD_OPFAIL)
            else Some (copy_word dest src s, Ret QTHREAD_SUCCESS)
          }
        })"

definition qthread_readFE :: "'q sched_ops \<Rightarrow> tid option \<Rightarrow> u64 \<Rightarrow> bool \<Rightarrow> u64 \<Rightarrow> u64 \<Rightarrow> 'q feb_state
    \<Rightarrow> ('q feb_state \<times> feb_outcome) option" where
  "qthread_readFE ops me newp ares dest src s =
     do {
       c_assert (lib_initialized s);
       case me of None \<Rightarrow> Some (s, Delegated READFE dest src)
       | Some me \<Rightarrow>
         do {
           r \<leftarrow> find_or_create newp (QTHREAD_CHOOSE_STRIPE2 src) (QALIGN src) s;
           case r of Inl e \<Rightarrow> Some (s, Ret e)
           | Inr (s, p) \<Rightarrow>
             do {
               m \<leftarrow> stats s p;
               if \<not> full m then
                 (if \<not> ares then Some (s, Ret QTHREAD_MALLOC_ERROR)
                  else Some (block_on me p (m\<lparr>FEQ := \<lparr>raddr = dest, waiter = me\<rparr> # FEQ m\<rparr>) s,
                             Blocked))
               else do { s \<leftarrow> qthread_gotlock_empty ops (shepherd_ptr (threads s me)) p
                               (QALIGN src) (copy_word dest src s);
                         Some (s, Ret QTHREAD_SUCCESS) }
             }
         }
     }"

definition qthread_readFE_nb :: "'q sched_ops \<Rightarrow> tid option \<Rightarrow> u64 \<Rightarrow> u64 \<Rightarrow> u64 \<Rightarrow> 'q feb_state
    \<Rightarrow> ('q feb_state \<times> feb_outcome) option" where
  "qthread_readFE_nb ops me newp dest src s =
     (case me of None \<Rightarrow> Some (s, Delegated READFE_NB dest src)
      | Some me \<Rightarrow>
        do {
          r \<leftarrow> find_or_create newp (QTHREAD_CHOOSE_STRIPE2 src) (QALIGN src) s;
          case r of Inl e \<Rightarrow> Some (s, Ret e)
          | Inr (s, p) \<Rightarrow>
            do {
              m \<leftarrow> stats s p;
              if \<not> full m then Some (s, Ret QTHREAD_OPFAIL)
              else do { s \<leftarrow> qthread_gotlock_empty ops (shepherd_ptr (threads s me)) p
                              (QALIGN src) (copy_word dest src s);
                        Some (s, Ret QTHREAD_SUCCESS) }
            }
        })"

text \<open>
  \<open>qthread_feb_blocker_thread\<close>: the qthread forked for a caller that is not one performs
  the operation named in its argument.
\<close>

definition qthread_feb_blocker_thread :: "'q sched_ops \<Rightarrow> tid \<Rightarrow> u64 \<Rightarrow> bool \<Rightarrow> blocker_type
    \<Rightarrow> u64 \<Rightarrow> u64 \<Rightarrow> 'q feb_state \<Rightarrow> ('q feb_state \<times> feb_outcome) option" where
  "qthread_feb_blocker_thread ops me newp ares ty a b s =
     (let shep = Some (shepherd_ptr (threads s me))
      in case ty of
        READFE \<Rightarrow> qthread_readFE ops (Some me) newp ares a b s
      | READFE_NB \<Rightarrow> qthread_readFE_nb ops (Some me) newp a b s
      | READFF \<Rightarrow> qthread_readFF (Some me) ares a b s
      | READFF_NB \<Rightarrow> qthread_readFF_nb (Some me) a b s
      | WRITEEF \<Rightarrow> qthread_writeEF ops (Some me) newp ares a b s
      | WRITEEF_NB \<Rightarrow> qthread_writeEF_nb ops (Some me) a b s
      | WRITEF \<Rightarrow> qthread_writeF ops shep a b s
      | FILL \<Rightarrow> qthread_fill ops shep a s
      | EMPTY \<Rightarrow> qthread_empty ops shep newp a s)"

section \<open>Filtering the waiting tasks\<close>

text \<open>
  One queue of \<open>qt_feb_call_tf\<close>: a task is kept or removed as the filter says; the two
  codes that would stop the walk trap.
\<close>

fun filter_waiters :: "(tid \<Rightarrow> filter_code) \<Rightarrow> addrres list \<Rightarrow> addrres list option" where
  "filter_waiters tf [] = Some []"
| "filter_waiters tf (X # Xs) =
     (case tf (waiter X) of
        IGNORE_AND_CONTINUE \<Rightarrow> map_option (Cons X) (filter_waiters tf Xs)
      | REMOVE_AND_CONTINUE \<Rightarrow> filter_waiters tf Xs
      | _ \<Rightarrow> None)"

definition qt_feb_call_tf :: "(u64 \<Rightarrow> tid \<Rightarrow> filter_code) \<Rightarrow> u64 \<Rightarrow> addrstat \<Rightarrow> addrstat option" where
  "qt_feb_call_tf tf addr m =
     do {
       ef \<leftarrow> filter_waiters (tf addr) (EFQ m);
       fe \<leftarrow> filter_waiters (tf addr) (FEQ m);
       ff \<leftarrow> filter_waiters (tf addr) (FFQ m);
       Some (m\<lparr>EFQ := ef, FEQ := fe, FFQ := ff\<rparr>)
     }"

fun call_tf_all :: "(u64 \<Rightarrow> tid \<Rightarrow> filter_code) \<Rightarrow> (u64 \<times> u64) list \<Rightarrow> 'q feb_state
    \<Rightarrow> 'q feb_state option" where
  "call_tf_all tf [] s = Some s"
| "call_tf_all tf ((addr, p) # rest) s =
     do { m \<leftarrow> stats s p; m \<leftarrow> qt_feb_call_tf tf addr m; call_tf_all tf rest (set_stat p m s) }"

definition qthread_feb_taskfilter :: "(u64 \<Rightarrow> tid \<Rightarrow> filter_code) \<Rightarrow> 'q feb_state
    \<Rightarrow> 'q feb_state option" where
  "qthread_feb_taskfilter tf s = call_tf_all tf (concat (map qt_hash_callback (febs s))) s"

end
