(* ===== verification/Hashmap_Probe.thy ===== *)
theory Hashmap_Probe
  imports Hashmap
begin

text \<open>
  The probe sequence of the hash table. With \<open>2^k\<close> slots in buckets of \<open>2^b\<close> slots, the
  first bucket is given by the bits \<open>b..k\<close> of the hash and the stride is an odd number of
  buckets. The sequence therefore visits every bucket once before it comes back to the
  first one, which is why the search loops of lookup and insertion stop, and why their
  fuel, the number of slots, is enough.
\<close>

section \<open>An odd stride visits every bucket\<close>

lemma odd_stride_inj:
  assumes "odd t" "i < 2 ^ m" "j < 2 ^ m" "(q + i * t) mod 2 ^ m = (q + j * t) mod (2 ^ m :: nat)"
  shows "i = j"
proof -
  have *: "i = j" if "i \<le> j" "j < 2 ^ m" "(q + i * t) mod 2 ^ m = (q + j * t) mod 2 ^ m" for i j
  proof -
    have "(2 :: nat) ^ m dvd (q + j * t) - (q + i * t)"
      using that by (metis add_le_mono1 add.commute mod_eq_dvd_iff_nat mult_le_mono1)
    then have "(2 :: nat) ^ m dvd (j - i) * t"
      by (simp add: diff_mult_distrib)
    moreover have "coprime ((2 :: nat) ^ m) t"
      using assms(1) by simp
    ultimately have "2 ^ m dvd j - i"
      by (simp add: coprime_dvd_mult_left_iff)
    then show ?thesis
      using that by (auto dest!: dvd_imp_le)
  qed
  show ?thesis
    using *[of i j] *[of j i] assms by (cases "i \<le> j") auto
qed

definition bucket_no :: "nat \<Rightarrow> nat \<Rightarrow> nat \<Rightarrow> nat \<Rightarrow> nat" where
  "bucket_no m q t j = (q + j * t) mod 2 ^ m"

lemma bucket_no_less: "bucket_no m q t j < 2 ^ m"
  by (simp add: bucket_no_def)

lemma bucket_no_inj: "odd t \<Longrightarrow> inj_on (bucket_no m q t) {..<2 ^ m}"
  by (rule inj_onI) (simp add: bucket_no_def odd_stride_inj)

lemma bucket_no_surj:
  assumes "odd t"
  shows "bucket_no m q t ` {..<2 ^ m} = {..<2 ^ m}"
  by (rule endo_inj_surj) (auto simp: bucket_no_less bucket_no_inj assms)

lemma bucket_no_wrap: "bucket_no m q t (2 ^ m) = bucket_no m q t 0"
  by (simp add: bucket_no_def)

lemma bucket_no_neq_first:
  assumes "odd t" "0 < j" "j < 2 ^ m"
  shows "bucket_no m q t j \<noteq> bucket_no m q t 0"
  using assms inj_onD [OF bucket_no_inj [OF assms(1)], of m q j 0] by auto

section \<open>The slots in probe order\<close>

definition bucket_range :: "nat \<Rightarrow> nat \<Rightarrow> nat list" where
  "bucket_range b B = [2 ^ b * B..<2 ^ b * B + 2 ^ b]"

definition slots_from :: "nat \<Rightarrow> nat \<Rightarrow> nat \<Rightarrow> nat \<Rightarrow> nat \<Rightarrow> nat list" where
  "slots_from b m q t j = concat (map (\<lambda>i. bucket_range b (bucket_no m q t i)) [j..<2 ^ m])"

lemma slots_from_end [simp]: "2 ^ m \<le> j \<Longrightarrow> slots_from b m q t j = []"
  by (simp add: slots_from_def)

lemma slots_from_step:
  "j < 2 ^ m \<Longrightarrow>
   slots_from b m q t j = bucket_range b (bucket_no m q t j) @ slots_from b m q t (Suc j)"
  by (simp add: slots_from_def upt_conv_Cons)

lemma mult_div_pow2: "i < 2 ^ b * B + 2 ^ b \<Longrightarrow> 2 ^ b * B \<le> i \<Longrightarrow> i div 2 ^ b = (B :: nat)"
  by (metis add.commute div_nat_eqI mult.commute mult_Suc_right)

lemma set_slots:
  assumes "odd t"
  shows "set (slots_from b m q t 0) = {..<2 ^ (b + m)}"
proof (intro set_eqI iffI)
  fix i
  assume "i \<in> set (slots_from b m q t 0)"
  then obtain x where x: "i < 2 ^ b * bucket_no m q t x + 2 ^ b"
    by (auto simp: slots_from_def bucket_range_def)
  define B where "B = bucket_no m q t x"
  have B: "B < 2 ^ m" "i < 2 ^ b * B + 2 ^ b"
    using x by (simp_all add: B_def bucket_no_less)
  then have "2 ^ b * B + 2 ^ b \<le> 2 ^ b * 2 ^ m"
    by (metis Suc_leI add.commute mult_Suc_right mult_le_mono2)
  with B show "i \<in> {..<2 ^ (b + m)}"
    by (simp add: power_add)
next
  fix i :: nat
  assume i: "i \<in> {..<2 ^ (b + m)}"
  then have "i div 2 ^ b \<in> bucket_no m q t ` {..<2 ^ m}"
    by (simp add: bucket_no_surj [OF assms] less_mult_imp_div_less power_add mult.commute)
  then obtain j where j: "j < 2 ^ m" "bucket_no m q t j = i div 2 ^ b"
    by auto
  have "i = 2 ^ b * (i div 2 ^ b) + i mod 2 ^ b" and "i mod 2 ^ b < 2 ^ b"
    by simp_all
  then have "i < 2 ^ b * (i div 2 ^ b) + 2 ^ b"
    by linarith
  then have "i \<in> set (bucket_range b (i div 2 ^ b))"
    by (simp add: bucket_range_def)
  with j show "i \<in> set (slots_from b m q t 0)"
    by (auto simp: slots_from_def intro!: bexI [of _ j])
qed

section \<open>The loop computes the slots\<close>

text \<open>What the word-level computations of a bucket and of the stride amount to.\<close>

definition first_bucket :: "nat \<Rightarrow> nat \<Rightarrow> u64 \<Rightarrow> nat" where
  "first_bucket k b hw = (unat hw mod 2 ^ k) div 2 ^ b"

definition stride :: "nat \<Rightarrow> nat \<Rightarrow> u64 \<Rightarrow> nat" where
  "stride k b hw =
     unat (((drop_bit 16 hw OR push_bit 16 hw) AND bucket_mask k b) OR 2 ^ b) div 2 ^ b"

lemma unat_stride:
  assumes "b \<le> k" "k < 64"
  shows "unat (((drop_bit 16 hw OR push_bit 16 hw) AND bucket_mask k b) OR 2 ^ b)
       = 2 ^ b * stride k b hw"
proof -
  let ?w = "((drop_bit 16 hw OR push_bit 16 hw) AND bucket_mask k b) OR 2 ^ b :: u64"
  have "take_bit b ?w = 0"
    by (rule bit_word_eqI) (auto simp: bucket_mask_def bit_simps)
  then have "unat (take_bit b ?w) = 0"
    by simp
  then have "2 ^ b dvd unat ?w"
    unfolding unsigned_take_bit_eq by (simp add: take_bit_eq_mod [where 'a = nat] dvd_eq_mod_eq_0)
  then show ?thesis
    by (simp add: stride_def)
qed

lemma stride_odd:
  assumes "b \<le> k" "k < 64"
  shows "odd (stride k b hw)"
proof -
  have "bit (((drop_bit 16 hw OR push_bit 16 hw) AND bucket_mask k b) OR 2 ^ b :: u64) b"
    using assms by (simp add: bit_simps)
  then show ?thesis
    unfolding stride_def by (simp add: bit_iff_odd [symmetric] bit_unsigned_iff)
qed

lemma next_bucket:
  assumes bk: "b \<le> k" "k < 64" and x: "unat x = 2 ^ b * bucket_no (k - b) q t j"
    and s: "unat s = 2 ^ b * t"
  shows "unat ((x + s) AND bucket_mask k b) = 2 ^ b * bucket_no (k - b) q t (Suc j)"
proof -
  have dvd: "(2 :: nat) ^ k dvd 2 ^ 64"
    using bk by (intro le_imp_power_dvd) simp
  have "unat (x + s) mod 2 ^ k = (unat x + unat s) mod 2 ^ k"
    using dvd by (simp add: unat_word_ariths mod_mod_cancel)
  also have "\<dots> = 2 ^ b * ((bucket_no (k - b) q t j + t) mod 2 ^ (k - b))"
  proof -
    have "(2 :: nat) ^ k = 2 ^ b * 2 ^ (k - b)"
      using bk by (simp flip: power_add)
    then show ?thesis
      unfolding x s by (simp add: mult_mod_right distrib_left)
  qed
  also have "(bucket_no (k - b) q t j + t) mod 2 ^ (k - b) = bucket_no (k - b) q t (Suc j)"
    unfolding bucket_no_def mod_add_left_eq by (simp add: algebra_simps)
  finally show ?thesis
    using bk by (simp add: unat_and_bucket_mask)
qed

end
