(* ===== verification/Hashmap_Search.thy ===== *)
theory Hashmap_Search
  imports Hashmap_Probe
begin

text \<open>
  The search loops of lookup and insertion, reduced to a search in the list of all slots
  in probe order (\<open>probe_slots\<close>): lookup finds the first slot that holds the key or was
  never used, insertion of an absent key finds the first slot that is free.
\<close>

definition hash_shape :: "nat \<Rightarrow> nat \<Rightarrow> hash_globals \<Rightarrow> qt_hash_s \<Rightarrow> bool" where
  "hash_shape b k g h \<longleftrightarrow>
     bucketsize g = 2 ^ b \<and> b \<le> k \<and> k < 64 \<and> num_entries h = 2 ^ k \<and>
     length (entries h) = 2 ^ k \<and> hmask h = bucket_mask k b"

definition probe_slots :: "nat \<Rightarrow> nat \<Rightarrow> u64 \<Rightarrow> nat list" where
  "probe_slots b k key =
     slots_from b (k - b) (first_bucket k b (qt_hash64 key)) (stride k b (qt_hash64 key)) 0"

lemma set_probe_slots:
  assumes "b \<le> k" "k < 64"
  shows "set (probe_slots b k key) = {..<2 ^ k}"
  using assms by (simp add: probe_slots_def set_slots stride_odd)

section \<open>Scanning\<close>

definition stops :: "hash_entry list \<Rightarrow> u64 \<Rightarrow> nat \<Rightarrow> bool" where
  "stops z key i \<longleftrightarrow> ekey (z ! i) = key \<or> ekey (z ! i) = KEY_NULL"

definition is_free :: "hash_entry \<Rightarrow> bool" where
  "is_free e \<longleftrightarrow> ekey e = KEY_NULL \<or> ekey e = KEY_DELETED"

definition scan_outcome :: "hash_entry list \<Rightarrow> u64 \<Rightarrow> nat option \<Rightarrow> hash_slot option" where
  "scan_outcome z key r =
     (case r of None \<Rightarrow> None | Some i \<Rightarrow> if ekey (z ! i) = key then Some (Slot i) else None)"

lemma scan_bucket_find:
  "scan_bucket z key is =
     (case List.find (stops z key) is of
        None \<Rightarrow> Exhausted
      | Some i \<Rightarrow> if ekey (z ! i) = key then Found i else HitNull)"
  by (induction "is") (auto simp: stops_def Let_def)

lemma put_scan_absent:
  assumes "\<forall>i \<in> set is. ekey (z ! i) \<noteq> key"
  shows "put_scan z key f is =
    Free (case f of Some x \<Rightarrow> Some x | None \<Rightarrow> List.find (\<lambda>i. is_free (z ! i)) is)"
  using assms by (induction "is" arbitrary: f) (auto simp: is_free_def Let_def split: option.split)

section \<open>The loops\<close>

lemma hash_shape_bucket:
  assumes "hash_shape b k g h" "unat x = 2 ^ b * B" "B < 2 ^ (k - b)"
  shows "bucket_slots g x = bucket_range b B"
    and "\<not> length (entries h) < unat x + bucketsize g"
proof -
  show "bucket_slots g x = bucket_range b B"
    using assms by (simp add: hash_shape_def bucket_slots_def bucket_range_def)
  have "2 ^ b * (B + 1) \<le> (2 :: nat) ^ b * 2 ^ (k - b)"
    using assms(3) by (intro mult_le_mono2) simp
  also have "\<dots> = 2 ^ k"
    using assms(1) by (simp add: hash_shape_def flip: power_add)
  finally show "\<not> length (entries h) < unat x + bucketsize g"
    using assms by (simp add: hash_shape_def algebra_simps)
qed

lemma hash_shape_stride:
  assumes "hash_shape b k g h"
  shows "unat (probe_step g hw (hmask h)) = 2 ^ b * stride k b hw"
  using assms unat_stride [of b k hw]
  by (simp add: hash_shape_def probe_step_def)

lemma hash_shape_first:
  assumes "hash_shape b k g h"
  shows "unat (hw AND hmask h) = 2 ^ b * bucket_no (k - b) (first_bucket k b hw) t 0"
proof -
  have "(unat hw mod 2 ^ k) div 2 ^ b < 2 ^ (k - b)"
  proof -
    have "(2 :: nat) ^ k = 2 ^ (k - b) * 2 ^ b"
      using assms by (simp add: hash_shape_def flip: power_add)
    moreover have "unat hw mod 2 ^ k < 2 ^ k"
      by simp
    ultimately show ?thesis
      by (metis less_mult_imp_div_less)
  qed
  then show ?thesis
    using assms by (simp add: hash_shape_def unat_and_bucket_mask bucket_no_def first_bucket_def)
qed

lemma same_bucket_iff:
  assumes "unat (x :: u64) = 2 ^ b * B" "unat y = 2 ^ b * C"
  shows "x = y \<longleftrightarrow> B = C"
proof -
  have "x = y \<longleftrightarrow> unat x = unat y"
    by (rule word_unat_eq_iff)
  then show ?thesis
    using assms by simp
qed

lemma hash_shape_next:
  assumes "hash_shape b k g h" "unat x = 2 ^ b * bucket_no (k - b) q t j" "unat s = 2 ^ b * t"
  shows "unat ((x + s) AND hmask h) = 2 ^ b * bucket_no (k - b) q t (Suc j)"
  using assms next_bucket [of b k x q t j s] by (simp add: hash_shape_def)

text \<open>
  Both loops have the same skeleton: move to the next bucket, examine its slots, and stop
  either because the bucket decides or because it is the first one again.
\<close>

lemma find_loop_slots:
  assumes sh: "hash_shape b k g h" and odd: "odd t"
    and s: "unat s = 2 ^ b * t" and quit: "unat quit = 2 ^ b * bucket_no (k - b) q t 0"
    and first: "List.find (stops (entries h) key)
                  (bucket_range b (bucket_no (k - b) q t 0)) = None"
  shows "unat x = 2 ^ b * bucket_no (k - b) q t j \<Longrightarrow> j < 2 ^ (k - b) \<Longrightarrow> 2 ^ (k - b) \<le> j + fuel
    \<Longrightarrow> find_loop fuel g h key s quit x
      = Some (scan_outcome (entries h) key
          (List.find (stops (entries h) key) (slots_from b (k - b) q t (Suc j))))"
proof (induction fuel arbitrary: x j)
  case 0
  then show ?case by simp
next
  case (Suc fuel)
  let ?x = "(x + s) AND hmask h" and ?B = "bucket_no (k - b) q t (Suc j)"
  have x': "unat ?x = 2 ^ b * ?B"
    by (rule hash_shape_next [OF sh Suc.prems(1) s])
  note bkt = hash_shape_bucket [OF sh x' bucket_no_less]
  show ?case
  proof (cases "Suc j < 2 ^ (k - b)")
    case True
    then have neq: "?x \<noteq> quit"
      using bucket_no_neq_first [OF odd, of "Suc j" "k - b" q] same_bucket_iff [OF x' quit] by simp
    have IH: "find_loop fuel g h key s quit ?x
      = Some (scan_outcome (entries h) key
          (List.find (stops (entries h) key) (slots_from b (k - b) q t (Suc (Suc j)))))"
      using Suc.prems True by (intro Suc.IH x') simp_all
    show ?thesis
      using bkt neq IH True
      by (auto simp: Let_def scan_bucket_find scan_outcome_def slots_from_step find_append
            split: option.splits)
  next
    case False
    then have j: "Suc j = 2 ^ (k - b)"
      using Suc.prems by simp
    then have "?B = bucket_no (k - b) q t 0"
      using bucket_no_wrap [of "k - b" q t] by simp
    then have "?x = quit" and "List.find (stops (entries h) key) (bucket_range b ?B) = None"
      using same_bucket_iff [OF x' quit] first by simp_all
    then show ?thesis
      using bkt j by (simp add: Let_def scan_bucket_find scan_outcome_def)
  qed
qed

lemma put_loop_slots:
  assumes sh: "hash_shape b k g h" and odd: "odd t"
    and s: "unat s = 2 ^ b * t" and quit: "unat quit = 2 ^ b * bucket_no (k - b) q t 0"
    and first: "List.find (\<lambda>i. is_free (entries h ! i))
                  (bucket_range b (bucket_no (k - b) q t 0)) = None"
    and absent: "\<forall>i < 2 ^ k. ekey (entries h ! i) \<noteq> key"
  shows "unat x = 2 ^ b * bucket_no (k - b) q t j \<Longrightarrow> j < 2 ^ (k - b) \<Longrightarrow> 2 ^ (k - b) \<le> j + fuel
    \<Longrightarrow> put_loop fuel g h key s quit x
      = Some (Free (List.find (\<lambda>i. is_free (entries h ! i))
          (slots_from b (k - b) q t (Suc j))))"
proof (induction fuel arbitrary: x j)
  case 0
  then show ?case by simp
next
  case (Suc fuel)
  let ?x = "(x + s) AND hmask h" and ?B = "bucket_no (k - b) q t (Suc j)"
  have x': "unat ?x = 2 ^ b * ?B"
    by (rule hash_shape_next [OF sh Suc.prems(1) s])
  note bkt = hash_shape_bucket [OF sh x' bucket_no_less]
  have scan: "put_scan (entries h) key None (bucket_range b ?B)
      = Free (List.find (\<lambda>i. is_free (entries h ! i)) (bucket_range b ?B))"
  proof -
    have "\<forall>i \<in> set (bucket_range b ?B). ekey (entries h ! i) \<noteq> key"
      using bkt(2) absent sh x' by (auto simp: bucket_range_def hash_shape_def)
    then show ?thesis
      by (simp add: put_scan_absent)
  qed
  show ?case
  proof (cases "Suc j < 2 ^ (k - b)")
    case True
    then have neq: "?x \<noteq> quit"
      using bucket_no_neq_first [OF odd, of "Suc j" "k - b" q] same_bucket_iff [OF x' quit] by simp
    have IH: "put_loop fuel g h key s quit ?x
      = Some (Free (List.find (\<lambda>i. is_free (entries h ! i))
          (slots_from b (k - b) q t (Suc (Suc j)))))"
      using Suc.prems True by (intro Suc.IH x') simp_all
    show ?thesis
      using bkt neq IH True scan
      by (auto simp: Let_def slots_from_step find_append split: option.splits)
  next
    case False
    then have j: "Suc j = 2 ^ (k - b)"
      using Suc.prems by simp
    then have "?B = bucket_no (k - b) q t 0"
      using bucket_no_wrap [of "k - b" q t] by simp
    then have "?x = quit" and "List.find (\<lambda>i. is_free (entries h ! i)) (bucket_range b ?B) = None"
      using same_bucket_iff [OF x' quit] first by simp_all
    then show ?thesis
      using bkt j scan by (simp add: Let_def)
  qed
qed

section \<open>Lookup and insertion\<close>

lemma fuel_enough: "b \<le> k \<Longrightarrow> (2 :: nat) ^ (k - b) \<le> 2 ^ k"
  by (intro power_increasing) auto

lemma find_probe:
  assumes sh: "hash_shape b k g h" and key: "key \<noteq> KEY_NULL" "key \<noteq> KEY_DELETED"
  shows "qt_hash_internal_find g h key
       = Some (scan_outcome (entries h) key
           (List.find (stops (entries h) key) (probe_slots b k key)))"
proof -
  let ?hw = "qt_hash64 key"
  let ?q = "first_bucket k b ?hw" and ?t = "stride k b ?hw"
  have bk: "b \<le> k" "k < 64" "num_entries h = 2 ^ k"
    using sh by (simp_all add: hash_shape_def)
  have odd: "odd ?t"
    by (rule stride_odd [OF bk(1,2)])
  note s = hash_shape_stride [OF sh, of ?hw]
  note quit = hash_shape_first [OF sh, of ?hw ?t]
  note bkt = hash_shape_bucket [OF sh quit bucket_no_less]
  have slots: "probe_slots b k key
      = bucket_range b (bucket_no (k - b) ?q ?t 0) @ slots_from b (k - b) ?q ?t (Suc 0)"
    by (simp add: probe_slots_def slots_from_step)
  show ?thesis
  proof (cases "List.find (stops (entries h) key) (bucket_range b (bucket_no (k - b) ?q ?t 0))")
    case None
    have "find_loop (num_entries h) g h key (probe_step g ?hw (hmask h)) (?hw AND hmask h)
        (?hw AND hmask h) = Some (scan_outcome (entries h) key
          (List.find (stops (entries h) key) (slots_from b (k - b) ?q ?t (Suc 0))))"
      using find_loop_slots [OF sh odd s quit None quit] fuel_enough [OF bk(1)] bk(3) by simp
    then show ?thesis
      using None bkt key
      by (simp add: qt_hash_internal_find_def scan_bucket_find slots find_append Let_def)
  next
    case (Some i)
    then show ?thesis
      using bkt key
      by (simp add: qt_hash_internal_find_def scan_bucket_find slots find_append Let_def
            scan_outcome_def)
  qed
qed

lemma put_search_absent:
  assumes sh: "hash_shape b k g h" and absent: "\<forall>i < 2 ^ k. ekey (entries h ! i) \<noteq> key"
  shows "put_search g h key
       = Some (Room (List.find (\<lambda>i. is_free (entries h ! i)) (probe_slots b k key)))"
proof -
  let ?hw = "qt_hash64 key" and ?free = "\<lambda>i. is_free (entries h ! i)"
  let ?q = "first_bucket k b ?hw" and ?t = "stride k b ?hw"
  have bk: "b \<le> k" "k < 64" "num_entries h = 2 ^ k"
    using sh by (simp_all add: hash_shape_def)
  have odd: "odd ?t"
    by (rule stride_odd [OF bk(1,2)])
  note s = hash_shape_stride [OF sh, of ?hw]
  note quit = hash_shape_first [OF sh, of ?hw ?t]
  note bkt = hash_shape_bucket [OF sh quit bucket_no_less]
  have slots: "probe_slots b k key
      = bucket_range b (bucket_no (k - b) ?q ?t 0) @ slots_from b (k - b) ?q ?t (Suc 0)"
    by (simp add: probe_slots_def slots_from_step)
  have scan: "put_scan (entries h) key None (bucket_range b (bucket_no (k - b) ?q ?t 0))
      = Free (List.find ?free (bucket_range b (bucket_no (k - b) ?q ?t 0)))"
  proof -
    have "\<forall>i \<in> set (bucket_range b (bucket_no (k - b) ?q ?t 0)). ekey (entries h ! i) \<noteq> key"
      using bkt(2) absent sh quit by (auto simp: bucket_range_def hash_shape_def)
    then show ?thesis
      by (simp add: put_scan_absent)
  qed
  show ?thesis
  proof (cases "List.find ?free (bucket_range b (bucket_no (k - b) ?q ?t 0))")
    case None
    have "put_loop (num_entries h) g h key (probe_step g ?hw (hmask h)) (?hw AND hmask h)
        (?hw AND hmask h)
        = Some (Free (List.find ?free (slots_from b (k - b) ?q ?t (Suc 0))))"
      using put_loop_slots [OF sh odd s quit None absent quit] fuel_enough [OF bk(1)] bk(3) by simp
    then show ?thesis
      using None bkt scan by (simp add: put_search_def slots find_append Let_def)
  next
    case (Some i)
    then show ?thesis
      using bkt scan by (simp add: put_search_def slots find_append Let_def)
  qed
qed

end
