(* ===== verification/Hashmap_Map.thy ===== *)
theory Hashmap_Map
  imports Hashmap_Search
begin

text \<open>
  The hash table implements a finite map. The invariant says that the table is well
  shaped, that its counters are exact and below the triggers, and that every occupied
  slot is the one its key's lookup reaches. Insertion of an absent key, removal and
  rehashing keep it and act on the abstract map \<open>hmap\<close> as expected.
\<close>

section \<open>The triggers\<close>

lemma trigger_tidy_less: "128 \<le> n \<Longrightarrow> float_trigger 13421773 n + 1 < n"
  by (auto simp: float_trigger_def Let_def)

lemma trigger_grow_le_tidy: "128 \<le> n \<Longrightarrow> float_trigger 10905190 n \<le> float_trigger 13421773 n"
  by (auto simp: float_trigger_def Let_def)

lemma trigger_tidy_double: "128 \<le> n \<Longrightarrow> float_trigger 13421773 n + 1 < float_trigger 10905190 (n * 2)"
  by (auto simp: float_trigger_def Let_def)

lemmas triggers = trigger_tidy_less trigger_grow_le_tidy trigger_tidy_double

section \<open>The invariant and the abstract map\<close>

definition live :: "hash_entry \<Rightarrow> bool" where
  "live e \<longleftrightarrow> ekey e > KEY_DELETED"

definition is_deleted :: "hash_entry \<Rightarrow> bool" where
  "is_deleted e \<longleftrightarrow> ekey e = KEY_DELETED"

definition elookup :: "hash_entry list \<Rightarrow> u64 \<Rightarrow> u64 option" where
  "elookup es key = map_option evalue (List.find (\<lambda>e. ekey e = key) (filter live es))"

definition hmap :: "qt_hash_s \<Rightarrow> u64 \<Rightarrow> u64 option" where
  "hmap h = elookup (entries h)"

definition globals_wf :: "hash_globals \<Rightarrow> bool" where
  "globals_wf g \<longleftrightarrow>
     (\<exists>b p. bucketsize g = 2 ^ b \<and> bucketmask g = 2 ^ b - 1 \<and> min_entries g = 2 ^ p
          \<and> b \<le> p \<and> 7 \<le> p \<and> p < 64)"

definition reachable_slots :: "nat \<Rightarrow> nat \<Rightarrow> hash_entry list \<Rightarrow> bool" where
  "reachable_slots b k z \<longleftrightarrow>
     (\<forall>i < 2 ^ k. live (z ! i) \<longrightarrow>
        List.find (stops z (ekey (z ! i))) (probe_slots b k (ekey (z ! i))) = Some i)"

definition counters_ok :: "qt_hash_s \<Rightarrow> bool" where
  "counters_ok h \<longleftrightarrow>
     grow_size h = float_trigger 10905190 (num_entries h) \<and>
     tidy_up_size h = float_trigger 13421773 (num_entries h) \<and>
     population h = length (filter live (entries h)) \<and>
     deletes h = length (filter is_deleted (entries h)) \<and>
     population h + deletes h \<le> tidy_up_size h + 1"

definition table_ok :: "hash_globals \<Rightarrow> qt_hash_s \<Rightarrow> bool" where
  "table_ok g h \<longleftrightarrow>
     globals_wf g \<and> min_entries g \<le> num_entries h \<and> has_key h = (False, False) \<and>
     counters_ok h \<and> (\<exists>b k. hash_shape b k g h \<and> reachable_slots b k (entries h))"

lemma table_okI:
  "globals_wf g \<Longrightarrow> min_entries g \<le> num_entries h \<Longrightarrow> has_key h = (False, False) \<Longrightarrow> counters_ok h
   \<Longrightarrow> hash_shape b k g h \<Longrightarrow> reachable_slots b k (entries h) \<Longrightarrow> table_ok g h"
  by (auto simp: table_ok_def)

text \<open>
  \<open>brehash\<close> does not carry \<open>shrink_size\<close> over, so a table created by
  \<open>qt_hash_create\<close> keeps the value 0 it starts with.
\<close>

definition hash_inv :: "hash_globals \<Rightarrow> qt_hash_s \<Rightarrow> bool" where
  "hash_inv g h \<longleftrightarrow> table_ok g h \<and> shrink_size h = 0"

lemma live_iff: "live e \<longleftrightarrow> ekey e \<noteq> KEY_NULL \<and> ekey e \<noteq> KEY_DELETED"
proof -
  have "(1 :: u64) < w \<longleftrightarrow> w \<noteq> 0 \<and> w \<noteq> 1" for w
    by (auto simp: word_less_nat_alt word_unat_eq_iff)
  then show ?thesis
    by (auto simp: live_def KEY_NULL_def KEY_DELETED_def)
qed

lemma free_iff: "is_free e \<longleftrightarrow> \<not> live e"
  by (auto simp: is_free_def live_iff)

lemma elookup_Some_nth:
  assumes "\<And>i j. i < length z \<Longrightarrow> j < length z \<Longrightarrow> live (z ! i) \<Longrightarrow> ekey (z ! i) = ekey (z ! j) \<Longrightarrow> i = j"
  shows "elookup z key = Some v \<longleftrightarrow>
    (\<exists>i < length z. live (z ! i) \<and> ekey (z ! i) = key \<and> evalue (z ! i) = v)"
proof
  assume "elookup z key = Some v"
  then obtain e where e: "List.find (\<lambda>e. ekey e = key) (filter live z) = Some e" "evalue e = v"
    by (auto simp: elookup_def)
  then have "e \<in> set z" "live e" "ekey e = key"
    by (auto dest: find_SomeD)
  then show "\<exists>i < length z. live (z ! i) \<and> ekey (z ! i) = key \<and> evalue (z ! i) = v"
    using e(2) by (metis in_set_conv_nth)
next
  assume "\<exists>i < length z. live (z ! i) \<and> ekey (z ! i) = key \<and> evalue (z ! i) = v"
  then obtain i where i: "i < length z" "live (z ! i)" "ekey (z ! i) = key" "evalue (z ! i) = v"
    by blast
  then have "\<exists>e. List.find (\<lambda>e. ekey e = key) (filter live z) = Some e"
    using nth_mem [OF i(1)]
    by (cases "List.find (\<lambda>e. ekey e = key) (filter live z)") (auto simp: find_None_iff)
  then obtain e where e: "List.find (\<lambda>e. ekey e = key) (filter live z) = Some e"
    by blast
  then have "e \<in> set z" "ekey e = key"
    by (auto dest: find_SomeD)
  then obtain j where "j < length z" "e = z ! j" "ekey (z ! j) = key"
    by (auto simp: in_set_conv_nth)
  with i assms [of i j] have "e = z ! i"
    by simp
  with e i show "elookup z key = Some v"
    by (simp add: elookup_def)
qed

lemma elookup_not_live: "\<not> live \<lparr>ekey = key, evalue = 0\<rparr> \<Longrightarrow> elookup z key = None"
  by (induction z) (auto simp: elookup_def live_def)

lemma reachable_unique:
  assumes "reachable_slots b k z" "i < 2 ^ k" "j < 2 ^ k" "live (z ! i)" "ekey (z ! i) = ekey (z ! j)"
  shows "i = j"
proof -
  have "live (z ! j)"
    using assms(4,5) by (simp add: live_def)
  then show ?thesis
    using assms unfolding reachable_slots_def by (metis option.inject)
qed

text \<open>An occupied slot holds the map's value for its key, and every binding has a slot.\<close>

lemma hmap_Some_nth:
  assumes "hash_shape b k g h" "reachable_slots b k (entries h)"
  shows "hmap h key = Some v \<longleftrightarrow>
    (\<exists>i < 2 ^ k. live (entries h ! i) \<and> ekey (entries h ! i) = key \<and> evalue (entries h ! i) = v)"
proof -
  have "length (entries h) = 2 ^ k"
    using assms(1) by (simp add: hash_shape_def)
  then show ?thesis
    unfolding hmap_def
    by (subst elookup_Some_nth) (use reachable_unique [OF assms(2)] in auto)
qed

lemma hmap_None_absent:
  assumes "hash_shape b k g h" "reachable_slots b k (entries h)" "hmap h key = None"
    and "key \<noteq> KEY_NULL" "key \<noteq> KEY_DELETED"
  shows "\<forall>i < 2 ^ k. ekey (entries h ! i) \<noteq> key"
proof (intro allI impI notI)
  fix i :: nat
  assume i: "i < 2 ^ k" "ekey (entries h ! i) = key"
  with assms(4,5) have "live (entries h ! i)"
    by (simp add: live_iff)
  with i have "hmap h key = Some (evalue (entries h ! i))"
    using hmap_Some_nth [OF assms(1,2)] by blast
  with assms(3) show False
    by simp
qed

lemma table_ok_min: "table_ok g h \<Longrightarrow> 128 \<le> num_entries h"
proof -
  assume ok: "table_ok g h"
  then obtain p where p: "min_entries g = 2 ^ p" "7 \<le> p"
    by (auto simp: table_ok_def globals_wf_def)
  have "(128 :: nat) \<le> 2 ^ p"
    using power_increasing [of 7 p "2 :: nat"] p(2) by simp
  then show ?thesis
    using ok p(1) by (auto simp: table_ok_def)
qed

section \<open>Lookup returns the map's value\<close>

lemma find_correct:
  assumes "table_ok g h" "key \<noteq> KEY_NULL" "key \<noteq> KEY_DELETED"
  shows "case qt_hash_internal_find g h key of
      None \<Rightarrow> False
    | Some None \<Rightarrow> hmap h key = None
    | Some (Some s) \<Rightarrow> (\<exists>i < num_entries h. s = Slot i \<and> live (entries h ! i)
        \<and> ekey (entries h ! i) = key \<and> hmap h key = Some (evalue (entries h ! i)))"
proof -
  obtain b k where sh: "hash_shape b k g h" and re: "reachable_slots b k (entries h)"
    using assms by (auto simp: table_ok_def)
  have bk: "b \<le> k" "k < 64" "num_entries h = 2 ^ k"
    using sh by (simp_all add: hash_shape_def)
  note f = find_probe [OF sh assms(2,3)]
  show ?thesis
  proof (cases "hmap h key")
    case None
    have "scan_outcome (entries h) key
        (List.find (stops (entries h) key) (probe_slots b k key)) = None"
    proof (cases "List.find (stops (entries h) key) (probe_slots b k key)")
      case (Some i)
      then have "i \<in> set (probe_slots b k key)"
        by (auto simp: find_eq_Some_split)
      then have "i < 2 ^ k"
        by (simp add: set_probe_slots [OF bk(1,2)])
      then have "ekey (entries h ! i) \<noteq> key"
        using hmap_None_absent [OF sh re None assms(2,3)] by blast
      with Some show ?thesis
        by (simp add: scan_outcome_def)
    qed (simp add: scan_outcome_def)
    with None show ?thesis
      by (simp add: f)
  next
    case (Some v)
    then obtain i where i: "i < 2 ^ k" "live (entries h ! i)" "ekey (entries h ! i) = key"
      "evalue (entries h ! i) = v"
      using hmap_Some_nth [OF sh re] by blast
    then have "List.find (stops (entries h) key) (probe_slots b k key) = Some i"
      using re by (auto simp: reachable_slots_def)
    with i Some bk show ?thesis
      by (simp add: f scan_outcome_def)
  qed
qed

lemma get_locked_correct:
  assumes "table_ok g h" "key \<noteq> KEY_NULL" "key \<noteq> KEY_DELETED"
  shows "qt_hash_get_locked g h key = Some (case hmap h key of None \<Rightarrow> 0 | Some v \<Rightarrow> v)"
  using find_correct [OF assms]
  by (auto simp: qt_hash_get_locked_def slot_value_def split: option.splits)

section \<open>Writing one slot\<close>

lemma reachable_insert:
  assumes re: "reachable_slots b k z" and absent: "\<forall>i < 2 ^ k. ekey (z ! i) \<noteq> key"
    and f: "List.find (\<lambda>i. is_free (z ! i)) (probe_slots b k key) = Some f"
    and len: "length z = 2 ^ k" and bk: "b \<le> k" "k < 64"
    and key: "key \<noteq> KEY_NULL"
  shows "reachable_slots b k (z[f := \<lparr>ekey = key, evalue = v\<rparr>])"
    (is "reachable_slots b k ?z")
proof -
  have slots: "\<And>key u. u \<in> set (probe_slots b k key) \<Longrightarrow> u < 2 ^ k"
    by (simp add: set_probe_slots [OF bk])
  obtain us vs where uv: "probe_slots b k key = us @ f # vs" "is_free (z ! f)"
    "\<forall>u \<in> set us. \<not> is_free (z ! u)"
    using f by (auto simp: find_eq_Some_split)
  have fk: "f < 2 ^ k"
    using slots uv by (metis in_set_conv_decomp)
  have new: "List.find (stops ?z key) (probe_slots b k key) = Some f"
  proof -
    have "\<not> stops ?z key u" if "u \<in> set us" for u
    proof -
      have "u < 2 ^ k"
        using slots that uv(1) by (metis Un_iff set_append)
      moreover have "u \<noteq> f"
        using that uv by blast
      ultimately show ?thesis
        using that uv(3) absent by (auto simp: stops_def is_free_def)
    qed
    then show ?thesis
      using uv(1) fk len by (auto simp: find_eq_Some_split stops_def)
  qed
  have old: "List.find (stops ?z (ekey (z ! i))) (probe_slots b k (ekey (z ! i))) = Some i"
    if i: "i < 2 ^ k" "i \<noteq> f" "live (z ! i)" for i
  proof -
    obtain us' vs' where uv': "probe_slots b k (ekey (z ! i)) = us' @ i # vs'"
      "\<forall>u \<in> set us'. \<not> stops z (ekey (z ! i)) u"
      using re i by (auto simp: reachable_slots_def find_eq_Some_split)
    have "\<not> stops ?z (ekey (z ! i)) u" if "u \<in> set us'" for u
      using that uv'(2) absent i fk len key
      by (cases "u = f") (auto simp: stops_def)
    then show ?thesis
      using uv'(1) i by (auto simp: find_eq_Some_split stops_def)
  qed
  show ?thesis
    unfolding reachable_slots_def
  proof (intro allI impI)
    fix i :: nat
    assume i: "i < 2 ^ k" "live (?z ! i)"
    show "List.find (stops ?z (ekey (?z ! i))) (probe_slots b k (ekey (?z ! i))) = Some i"
      using new old [of i] i fk len by (cases "i = f") auto
  qed
qed

lemma reachable_delete:
  assumes re: "reachable_slots b k z" and i: "i < 2 ^ k" and len: "length z = 2 ^ k"
  shows "reachable_slots b k (z[i := (z ! i)\<lparr>ekey := KEY_DELETED\<rparr>])"
    (is "reachable_slots b k ?z")
  unfolding reachable_slots_def
proof (intro allI impI)
  fix j :: nat
  assume j: "j < 2 ^ k" "live (?z ! j)"
  have ij: "j \<noteq> i"
    using j i len by (auto simp: live_iff)
  then have k: "?z ! j = z ! j"
    by simp
  have lj: "live (z ! j)"
    using j k by simp
  obtain us vs where uv: "probe_slots b k (ekey (z ! j)) = us @ j # vs"
    "\<forall>u \<in> set us. \<not> stops z (ekey (z ! j)) u"
    using re j(1) lj by (auto simp: reachable_slots_def find_eq_Some_split)
  have "\<not> stops ?z (ekey (z ! j)) u" if "u \<in> set us" for u
    using that uv(2) lj i len
    by (cases "u = i") (auto simp: stops_def live_iff KEY_NULL_def KEY_DELETED_def)
  then show "List.find (stops ?z (ekey (?z ! j))) (probe_slots b k (ekey (?z ! j))) = Some j"
    unfolding k using uv(1) ij by (auto simp: find_eq_Some_split stops_def)
qed

text \<open>A table below its triggers has an unused slot, so an insertion finds room.\<close>

lemma free_slot_exists:
  assumes "table_ok g h" "hash_shape b k g h"
  shows "\<exists>f < 2 ^ k. List.find (\<lambda>i. is_free (entries h ! i)) (probe_slots b k key) = Some f"
proof -
  have bk: "b \<le> k" "k < 64" "length (entries h) = 2 ^ k" "num_entries h = 2 ^ k"
    using assms(2) by (simp_all add: hash_shape_def)
  have n: "128 \<le> num_entries h"
    by (rule table_ok_min [OF assms(1)])
  have "length (filter live (entries h)) < 2 ^ k"
    using assms(1) triggers(1,2) [OF n] bk by (auto simp: table_ok_def counters_ok_def)
  then obtain i where i: "i < 2 ^ k" "\<not> live (entries h ! i)"
    using bk(3) by (metis filter_id_conv in_set_conv_nth nat_less_le)
  then have "i \<in> set (probe_slots b k key)" "is_free (entries h ! i)"
    by (simp_all add: set_probe_slots [OF bk(1,2)] free_iff)
  then obtain f where f: "List.find (\<lambda>i. is_free (entries h ! i)) (probe_slots b k key) = Some f"
    by (metis (mono_tags, lifting) find_None_iff option.exhaust)
  then have "f \<in> set (probe_slots b k key)"
    by (auto simp: find_eq_Some_split)
  with f show ?thesis
    by (auto simp: set_probe_slots [OF bk(1,2)])
qed

end
