(* ===== verification/Hashmap_Correct.thy ===== *)
theory Hashmap_Correct
  imports Hashmap_Map
begin

text \<open>
  Functional correctness of creation, insertion, rehashing and removal: each keeps the
  invariant and has its effect on the abstract map. The locale \<open>address_table\<close> is the
  contract the full/empty-bit and syncvar layers rely on.
\<close>

section \<open>Creation\<close>

lemma encompassing_from_pow2: "z = 2 ^ i \<Longrightarrow> i \<le> j \<Longrightarrow> encompassing_from z (2 ^ j) = 2 ^ j"
proof (induction "j - i" arbitrary: z i)
  case 0
  then show ?case
    by (subst encompassing_from.simps) simp
next
  case (Suc d)
  then have "i < j"
    by simp
  then have "z < 2 ^ j"
    using Suc.prems by simp
  moreover have "encompassing_from (2 * z) (2 ^ j) = 2 ^ j"
    using Suc.prems Suc.hyps(2) by (intro Suc.hyps(1) [of "Suc i"]) auto
  ultimately show ?case
    using Suc.prems by (subst encompassing_from.simps) simp
qed

lemma encompassing_pow2: "encompassing_power_of_two (2 ^ j) = 2 ^ j"
  unfolding encompassing_power_of_two_def by (rule encompassing_from_pow2 [of 1 0]) simp_all

lemma round_entries_pow2:
  assumes "globals_wf g" "min_entries g \<le> 2 ^ k"
  shows "round_entries g (2 ^ k) = 2 ^ k"
proof -
  obtain p where p: "min_entries g = 2 ^ p"
    using assms(1) by (auto simp: globals_wf_def)
  then have "p \<le> k"
    using assms(2) by (metis one_less_numeral_iff power_increasing_iff semiring_norm(76))
  then have "2 ^ k mod (2 :: nat) ^ p = 0"
    by (simp add: le_imp_power_dvd)
  then show ?thesis
    by (simp add: round_entries_def p encompassing_pow2)
qed

lemma round_entries_100:
  assumes "globals_wf g"
  shows "round_entries g 100 = min_entries g"
proof -
  obtain p where p: "min_entries g = 2 ^ p" "7 \<le> p"
    using assms by (auto simp: globals_wf_def)
  have "(128 :: nat) \<le> 2 ^ p"
    using power_increasing [of 7 p "2 :: nat"] p(2) by simp
  then have "100 mod (2 :: nat) ^ p = 100"
    by simp
  then show ?thesis
    using \<open>128 \<le> 2 ^ p\<close> by (simp add: round_entries_def p encompassing_pow2)
qed

lemma created_mask:
  "of_nat (2 ^ k - 1) AND NOT (of_nat (2 ^ b - 1)) = bucket_mask k b"
  unfolding bucket_mask_def by (simp flip: mask_eq_exp_minus_1 add: of_nat_mask_eq)

text \<open>A freshly created table is empty, of the requested size, and satisfies the invariant.\<close>

lemma internal_create_ok:
  assumes g: "globals_wf g" and n: "round_entries g n = 2 ^ k" "min_entries g \<le> 2 ^ k" "k < 64"
    and ret: "population ret = 0" "deletes ret = 0" "has_key ret = (False, False)"
  shows "table_ok g (qt_hash_internal_create g ret n)"
    and "hmap (qt_hash_internal_create g ret n) = Map.empty"
    and "population (qt_hash_internal_create g ret n) = 0"
    and "deletes (qt_hash_internal_create g ret n) = 0"
    and "num_entries (qt_hash_internal_create g ret n) = 2 ^ k"
proof -
  let ?h = "qt_hash_internal_create g ret n"
  obtain b p where b: "bucketsize g = 2 ^ b" "bucketmask g = 2 ^ b - 1"
    "min_entries g = 2 ^ p" "b \<le> p"
    using g by (auto simp: globals_wf_def)
  have "p \<le> k"
    using n(2) b(3) by (metis one_less_numeral_iff power_increasing_iff semiring_norm(76))
  with b have bk: "b \<le> k"
    by simp
  have free: "\<not> live empty_entry" "\<not> is_deleted empty_entry"
    by (simp_all add: live_iff is_deleted_def empty_entry_def KEY_NULL_def KEY_DELETED_def)
  have sh: "hash_shape b k g ?h"
    using b bk n
    by (simp add: hash_shape_def qt_hash_internal_create_def Let_def created_mask
          del: of_nat_diff One_nat_def)
  have es: "entries ?h = replicate (2 ^ k) empty_entry"
    using n by (simp add: qt_hash_internal_create_def Let_def)
  have re: "reachable_slots b k (entries ?h)"
    using free by (simp add: es reachable_slots_def)
  have cnt: "counters_ok ?h"
    using free n ret by (simp add: counters_ok_def qt_hash_internal_create_def Let_def)
  show "table_ok g ?h"
    using sh re cnt g n ret
    by (auto simp: table_ok_def) (simp_all add: qt_hash_internal_create_def Let_def)
  show "hmap ?h = Map.empty"
    using free by (auto simp: hmap_def elookup_def es)
  show "population ?h = 0" "deletes ?h = 0" "num_entries ?h = 2 ^ k"
    using ret n by (simp_all add: qt_hash_internal_create_def Let_def)
qed

lemma qt_hash_create_ok:
  assumes "globals_wf g"
  shows "hash_inv g (qt_hash_create g s)" "hmap (qt_hash_create g s) = Map.empty"
    "num_entries (qt_hash_create g s) = min_entries g"
proof -
  obtain p where p: "min_entries g = 2 ^ p" "p < 64"
    using assms by (auto simp: globals_wf_def)
  let ?ret = "calloc_hash\<lparr>needs_lock := s\<rparr>"
  have ret: "population ?ret = 0" "deletes ?ret = 0" "has_key ?ret = (False, False)"
    by (simp_all add: calloc_hash_def)
  have n: "round_entries g 100 = 2 ^ p" "min_entries g \<le> 2 ^ p"
    using round_entries_100 [OF assms] p by simp_all
  note ok = internal_create_ok [OF assms n p(2) ret]
  have "shrink_size (qt_hash_create g s) = 0"
    using round_entries_100 [OF assms]
    by (simp add: qt_hash_create_def qt_hash_internal_create_def Let_def)
  then show "hash_inv g (qt_hash_create g s)"
    using ok(1) by (simp add: hash_inv_def qt_hash_create_def)
  show "hmap (qt_hash_create g s) = Map.empty"
    using ok(2) by (simp add: qt_hash_create_def)
  show "num_entries (qt_hash_create g s) = min_entries g"
    using ok(5) p(1) by (simp add: qt_hash_create_def)
qed

section \<open>Insertion without rehashing\<close>

text \<open>The fields a plain insertion leaves alone.\<close>

definition same_frame :: "qt_hash_s \<Rightarrow> qt_hash_s \<Rightarrow> bool" where
  "same_frame h h' \<longleftrightarrow>
     num_entries h' = num_entries h \<and> grow_size h' = grow_size h \<and>
     tidy_up_size h' = tidy_up_size h \<and> shrink_size h' = shrink_size h \<and>
     oob_value h' = oob_value h \<and> has_key h' = has_key h \<and> needs_lock h' = needs_lock h"

lemma insert_slot_ok:
  fixes v :: u64
  assumes ok: "table_ok g h" and sh: "hash_shape b k g h" and re: "reachable_slots b k (entries h)"
    and key: "key \<noteq> KEY_NULL" "key \<noteq> KEY_DELETED" and none: "hmap h key = None"
    and f: "List.find (\<lambda>i. is_free (entries h ! i)) (probe_slots b k key) = Some f" "f < 2 ^ k"
    and room: "ekey (entries h ! f) = KEY_NULL \<Longrightarrow> population h + deletes h \<le> tidy_up_size h"
  defines "h' \<equiv> h\<lparr>deletes := (if ekey (entries h ! f) = KEY_NULL then deletes h else deletes h - 1),
     entries := (entries h)[f := \<lparr>ekey = key, evalue = v\<rparr>], population := population h + 1\<rparr>"
  shows "table_ok g h'" "hmap h' = (hmap h)(key \<mapsto> v)"
proof -
  let ?z = "entries h" and ?e = "\<lparr>ekey = key, evalue = v\<rparr>"
  have bk: "b \<le> k" "k < 64" and len: "length ?z = 2 ^ k"
    using sh by (simp_all add: hash_shape_def)
  note absent = hmap_None_absent [OF sh re none key]
  have re': "reachable_slots b k (entries h')"
    using reachable_insert [OF re absent f(1) len bk key(1)] by (simp add: h'_def)
  have sh': "hash_shape b k g h'"
    using sh by (simp add: hash_shape_def h'_def)
  have fe: "is_free (?z ! f)" "\<not> live (?z ! f)"
    using find_SomeD [OF f(1)] by (simp_all add: free_iff)
  have e: "live ?e" "\<not> is_deleted ?e"
    using key by (simp_all add: live_iff is_deleted_def)
  have pop: "length (filter live (entries h')) = population h'"
    using filter_length_update [of f ?z live ?e] f(2) len fe e ok
    by (simp add: h'_def table_ok_def counters_ok_def)
  have del: "length (filter is_deleted (entries h')) = deletes h'"
    using filter_length_update [of f ?z is_deleted ?e] f(2) len fe e ok
    by (auto simp: h'_def table_ok_def counters_ok_def is_deleted_def is_free_def
          KEY_NULL_def KEY_DELETED_def split: if_splits)
  have del_pos: "ekey (?z ! f) \<noteq> KEY_NULL \<Longrightarrow> 0 < deletes h"
  proof -
    assume "ekey (?z ! f) \<noteq> KEY_NULL"
    then have "?z ! f \<in> set (filter is_deleted ?z)"
      using fe f(2) len by (simp add: is_deleted_def is_free_def)
    then have "filter is_deleted ?z \<noteq> []"
      by (metis empty_iff empty_set)
    then show ?thesis
      using ok by (simp add: table_ok_def counters_ok_def)
  qed
  have "population h + deletes h \<le> tidy_up_size h + 1"
    using ok by (simp add: table_ok_def counters_ok_def)
  then have "population h' + deletes h' \<le> tidy_up_size h' + 1"
    using room del_pos by (auto simp: h'_def)
  moreover have "num_entries h' = num_entries h" "grow_size h' = grow_size h"
    "tidy_up_size h' = tidy_up_size h" "has_key h' = has_key h"
    by (simp_all add: h'_def)
  ultimately have "counters_ok h'" "min_entries g \<le> num_entries h'" "has_key h' = (False, False)"
    using pop del ok by (simp_all add: table_ok_def counters_ok_def)
  then show "table_ok g h'"
    using sh' re' ok by (auto intro: table_okI simp: table_ok_def)
  show "hmap h' = (hmap h)(key \<mapsto> v)"
  proof (rule map_eq_by_Some)
    fix x y
    show "hmap h' x = Some y \<longleftrightarrow> ((hmap h)(key \<mapsto> v)) x = Some y"
      unfolding hmap_Some_nth [OF sh' re'] fun_upd_apply
      using hmap_Some_nth [OF sh re, of x y] absent f(2) len fe e
      by (cases "x = key") (auto simp: h'_def nth_list_update split: if_splits)
  qed
qed

lemma put_direct:
  assumes ok: "table_ok g h" and sh: "hash_shape b k g h" and re: "reachable_slots b k (entries h)"
    and key: "key \<noteq> KEY_NULL" "key \<noteq> KEY_DELETED" and none: "hmap h key = None"
    and f: "List.find (\<lambda>i. is_free (entries h ! i)) (probe_slots b k key) = Some f" "f < 2 ^ k"
    and room: "ekey (entries h ! f) = KEY_NULL \<Longrightarrow>
      population h < grow_size h \<and> population h + deletes h \<le> tidy_up_size h"
  shows "\<exists>h'. put_locked_fuel (Suc n) g h key v = Some (h', 1) \<and> table_ok g h'
    \<and> hmap h' = (hmap h)(key \<mapsto> v) \<and> population h' = Suc (population h)
    \<and> deletes h' \<le> deletes h \<and> same_frame h h'"
proof -
  let ?h = "h\<lparr>deletes := (if ekey (entries h ! f) = KEY_NULL then deletes h else deletes h - 1),
     entries := (entries h)[f := \<lparr>ekey = key, evalue = v\<rparr>], population := population h + 1\<rparr>"
  have "put_search g h key = Some (Room (Some f))"
    using put_search_absent [OF sh hmap_None_absent [OF sh re none key]] f by simp
  then have "put_locked_fuel (Suc n) g h key v = Some (?h, 1)"
    using key room by (auto simp: Let_def)
  moreover have "table_ok g ?h" "hmap ?h = (hmap h)(key \<mapsto> v)"
    using insert_slot_ok [OF ok sh re key none f] room by auto
  ultimately show ?thesis
    by (intro exI [of _ ?h]) (simp add: same_frame_def)
qed

lemma put_fits:
  assumes ok: "table_ok g h" and key: "key \<noteq> KEY_NULL" "key \<noteq> KEY_DELETED"
    and none: "hmap h key = None"
    and room: "population h < grow_size h" "population h + deletes h \<le> tidy_up_size h"
  shows "\<exists>h'. put_locked_fuel (Suc n) g h key v = Some (h', 1) \<and> table_ok g h'
    \<and> hmap h' = (hmap h)(key \<mapsto> v) \<and> population h' = Suc (population h)
    \<and> deletes h' \<le> deletes h \<and> same_frame h h'"
proof -
  obtain b k where sh: "hash_shape b k g h" and re: "reachable_slots b k (entries h)"
    using ok by (auto simp: table_ok_def)
  obtain f where f: "List.find (\<lambda>i. is_free (entries h ! i)) (probe_slots b k key) = Some f"
    "f < 2 ^ k"
    using free_slot_exists [OF ok sh] by blast
  show ?thesis
    using put_direct [OF ok sh re key none f] room by blast
qed

section \<open>Rehashing\<close>

lemma elookup_Cons:
  "elookup (e # es) x = (if live e \<and> ekey e = x then Some (evalue e) else elookup es x)"
  by (simp add: elookup_def)

lemma elookup_Some_in: "elookup es x = Some y \<Longrightarrow> \<exists>e \<in> set es. live e \<and> ekey e = x"
  using find_SomeD by (fastforce simp: elookup_def)

lemma copy_entries_ok:
  assumes put: "\<And>d key v. Q d \<Longrightarrow> population d < pop \<Longrightarrow> hmap d key = None
      \<Longrightarrow> key \<noteq> KEY_NULL \<Longrightarrow> key \<noteq> KEY_DELETED
      \<Longrightarrow> \<exists>d'. put d key v = Some (d', 1) \<and> Q d' \<and> hmap d' = (hmap d)(key \<mapsto> v)
             \<and> population d' = Suc (population d)"
  shows "Q d \<Longrightarrow> population d = copied \<Longrightarrow> copied + length (filter live es) = pop
    \<Longrightarrow> distinct (map ekey (filter live es)) \<Longrightarrow> \<forall>e \<in> set es. live e \<longrightarrow> hmap d (ekey e) = None
    \<Longrightarrow> \<exists>d'. copy_entries put pop copied es d = Some d' \<and> Q d' \<and> population d' = pop
           \<and> hmap d' = elookup es ++ hmap d"
proof (induction es arbitrary: d copied)
  case Nil
  then show ?case
    by (auto simp: elookup_def map_add_def split: option.split)
next
  case (Cons e es)
  show ?case
  proof (cases "live e")
    case False
    have "elookup (e # es) = elookup es"
      using False by (auto simp: elookup_Cons)
    then show ?thesis
      using Cons.IH [of d copied] Cons.prems False by (auto simp: live_def)
  next
    case True
    let ?k = "ekey e" and ?v = "evalue e"
    from Cons.prems True obtain d' where d': "put d ?k ?v = Some (d', 1)" "Q d'"
      "hmap d' = (hmap d)(?k \<mapsto> ?v)" "population d' = Suc copied"
      using put [of d ?k ?v] by (auto simp: live_iff)
    have el: "elookup (e # es) ++ hmap d = elookup es ++ hmap d'"
    proof -
      have "elookup es ?k = None"
        using Cons.prems(4) True elookup_Some_in [of es ?k]
        by (cases "elookup es ?k") (auto simp: image_iff)
      moreover have "hmap d ?k = None"
        using Cons.prems True by simp
      ultimately show ?thesis
        by (auto simp: d'(3) elookup_Cons map_add_def True fun_eq_iff split: option.splits)
    qed
    show ?thesis
    proof (cases "copied + 1 = pop")
      case stop: True
      moreover have "copied + (1 + length (filter live es)) = pop"
        using Cons.prems(3) True by simp
      ultimately have "length (filter live es) = 0"
        by linarith
      then have "elookup es = Map.empty"
        by (auto simp: elookup_def)
      then show ?thesis
        using d' stop True el by (auto simp: live_def PUT_COLLISION_def)
    next
      case more: False
      have "\<exists>d''. copy_entries put pop (copied + 1) es d' = Some d'' \<and> Q d'' \<and> population d'' = pop
          \<and> hmap d'' = elookup es ++ hmap d'"
      proof (rule Cons.IH)
        show "\<forall>e' \<in> set es. live e' \<longrightarrow> hmap d' (ekey e') = None"
          using Cons.prems(4,5) True by (fastforce simp: d'(3) image_iff)
      qed (use Cons.prems d' True in auto)
      then show ?thesis
        using d' more True el by (auto simp: live_def PUT_COLLISION_def)
    qed
  qed
qed

lemma distinct_keys:
  "(\<And>i j. i < length z \<Longrightarrow> j < length z \<Longrightarrow> live (z ! i) \<Longrightarrow> ekey (z ! i) = ekey (z ! j) \<Longrightarrow> i = j)
   \<Longrightarrow> distinct (map ekey (filter live z))"
proof (induction z)
  case (Cons e z)
  have "distinct (map ekey (filter live z))"
  proof (rule Cons.IH)
    fix i j
    assume "i < length z" "j < length z" "live (z ! i)" "ekey (z ! i) = ekey (z ! j)"
    then show "i = j"
      using Cons.prems [of "Suc i" "Suc j"] by simp
  qed
  moreover have "ekey e \<notin> ekey ` set (filter live z)" if "live e"
  proof
    assume "ekey e \<in> ekey ` set (filter live z)"
    then obtain j where "j < length z" "ekey (z ! j) = ekey e"
      by (auto simp: in_set_conv_nth)
    then show False
      using Cons.prems [of 0 "Suc j"] that by simp
  qed
  ultimately show ?case
    by simp
qed simp

lemma table_ok_distinct:
  assumes "table_ok g h"
  shows "distinct (map ekey (filter live (entries h)))"
proof -
  obtain b k where "hash_shape b k g h" "reachable_slots b k (entries h)"
    using assms by (auto simp: table_ok_def)
  then show ?thesis
    by (intro distinct_keys) (auto simp: hash_shape_def dest: reachable_unique)
qed

text \<open>
  Rehashing into a table of \<open>2^k\<close> slots keeps the map, whatever insertion is used, as long
  as that insertion is correct for the population at hand.
\<close>

lemma brehash_ok:
  assumes ok: "table_ok g h" and k: "min_entries g \<le> 2 ^ k" "k < 64"
    and Q0: "\<And>d. table_ok g d \<Longrightarrow> population d = 0 \<Longrightarrow> deletes d = 0 \<Longrightarrow> num_entries d = 2 ^ k \<Longrightarrow> Q d"
    and Qok: "\<And>d. Q d \<Longrightarrow> table_ok g d"
    and put: "\<And>d key v. Q d \<Longrightarrow> population d < population h \<Longrightarrow> hmap d key = None
      \<Longrightarrow> key \<noteq> KEY_NULL \<Longrightarrow> key \<noteq> KEY_DELETED
      \<Longrightarrow> \<exists>d'. put d key v = Some (d', 1) \<and> Q d' \<and> hmap d' = (hmap d)(key \<mapsto> v)
             \<and> population d' = Suc (population d)"
  shows "\<exists>h' d. brehash put g h (2 ^ k) = Some h' \<and> table_ok g h' \<and> hmap h' = hmap h
    \<and> population h' = population h \<and> shrink_size h' = shrink_size h
    \<and> Q d \<and> num_entries h' = num_entries d \<and> deletes h' = deletes d"
proof -
  have g: "globals_wf g" and hk: "has_key h = (False, False)"
    using ok by (simp_all add: table_ok_def)
  let ?d = "(qt_hash_internal_create g calloc_hash (2 ^ k))
              \<lparr>has_key := has_key h, oob_value := oob_value h\<rparr>"
  have calloc: "population calloc_hash = 0" "deletes calloc_hash = 0"
    "has_key calloc_hash = (False, False)"
    by (simp_all add: calloc_hash_def)
  note created = internal_create_ok [OF g round_entries_pow2 [OF g k(1)] k calloc]
  have d: "table_ok g ?d" "hmap ?d = Map.empty" "population ?d = 0" "deletes ?d = 0"
    "num_entries ?d = 2 ^ k"
    using created hk
    by (simp_all add: table_ok_def counters_ok_def hash_shape_def hmap_def)
  have pop: "length (filter live (entries h)) = population h"
    using ok by (simp add: table_ok_def counters_ok_def)
  have "\<exists>d'. (if 0 < population h then copy_entries put (population h) 0 (entries h) ?d else Some ?d)
        = Some d' \<and> Q d' \<and> population d' = population h \<and> hmap d' = hmap h"
  proof (cases "0 < population h")
    case True
    then show ?thesis
      using copy_entries_ok [where Q = Q and pop = "population h", OF put, of ?d 0 "entries h"]
        Q0 [OF d(1,3,4,5)] d pop table_ok_distinct [OF ok]
      by (simp add: hmap_def)
  next
    case False
    then have "elookup (entries h) = Map.empty"
      using pop by (auto simp: elookup_def)
    then show ?thesis
      using False Q0 [OF d(1,3,4,5)] d by (simp add: hmap_def)
  qed
  then obtain d' where d': "(if 0 < population h then copy_entries put (population h) 0 (entries h) ?d
      else Some ?d) = Some d'" "Q d'" "population d' = population h" "hmap d' = hmap h"
    by blast
  let ?h = "h\<lparr>entries := entries d', hmask := hmask d', num_entries := num_entries d',
      population := population d', deletes := deletes d', grow_size := grow_size d',
      tidy_up_size := tidy_up_size d', oob_value := oob_value d', has_key := has_key d'\<rparr>"
  have copied: "of_bool (fst (has_key h)) + of_bool (snd (has_key h)) = (0 :: nat)"
    by (simp add: hk)
  have "brehash put g h (2 ^ k) = Some ?h"
    unfolding brehash_def Let_def copied d'(1) by (simp add: d'(3))
  moreover have "table_ok g ?h" "hmap ?h = hmap h"
    using Qok [OF d'(2)] d'(4)
    by (simp_all add: table_ok_def counters_ok_def hash_shape_def hmap_def)
  ultimately show ?thesis
    using d' by (intro exI [of _ ?h] exI [of _ d']) simp
qed

section \<open>Insertion and removal\<close>

text \<open>The insertion that a rehash uses when the new table has room for the population.\<close>

lemma brehash_fits:
  assumes ok: "table_ok g h" and k: "min_entries g \<le> 2 ^ k" "k < 64"
    and room: "population h \<le> float_trigger 10905190 (2 ^ k)"
  shows "\<exists>h'. brehash (put_locked_fuel (Suc n) g) g h (2 ^ k) = Some h' \<and> table_ok g h'
    \<and> hmap h' = hmap h \<and> population h' = population h \<and> shrink_size h' = shrink_size h
    \<and> num_entries h' = 2 ^ k \<and> deletes h' = 0"
proof -
  let ?Q = "\<lambda>d. table_ok g d \<and> deletes d = 0 \<and> num_entries d = 2 ^ k"
  have put: "\<exists>d'. put_locked_fuel (Suc n) g d key v = Some (d', 1) \<and> ?Q d'
      \<and> hmap d' = (hmap d)(key \<mapsto> v) \<and> population d' = Suc (population d)"
    if "?Q d" "population d < population h" "hmap d key = None" "key \<noteq> KEY_NULL" "key \<noteq> KEY_DELETED"
    for d key v
  proof -
    have n: "128 \<le> (2 :: nat) ^ k"
      using table_ok_min [of g d] that by simp
    have "population d < grow_size d" "population d + deletes d \<le> tidy_up_size d"
      using that room triggers(2) [OF n] by (auto simp: table_ok_def counters_ok_def)
    then show ?thesis
      using put_fits [of g d key n v] that by (auto simp: same_frame_def)
  qed
  have "\<exists>h' d. brehash (put_locked_fuel (Suc n) g) g h (2 ^ k) = Some h' \<and> table_ok g h'
    \<and> hmap h' = hmap h \<and> population h' = population h \<and> shrink_size h' = shrink_size h
    \<and> ?Q d \<and> num_entries h' = num_entries d \<and> deletes h' = deletes d"
    by (rule brehash_ok [OF ok k]) (use put in simp_all)
  then show ?thesis
    by auto
qed

definition table_small :: "qt_hash_s \<Rightarrow> bool" where
  "table_small h \<longleftrightarrow> num_entries h \<le> 2 ^ 60"

lemma grown_size:
  assumes "table_ok g h" "num_entries h \<le> 2 ^ 61"
  obtains k where "num_entries h = 2 ^ k" "num_entries h * 2 = 2 ^ Suc k"
    "min_entries g \<le> 2 ^ k" "min_entries g \<le> 2 ^ Suc k" "Suc k < 64"
proof -
  obtain b k where sh: "hash_shape b k g h"
    using assms by (auto simp: table_ok_def)
  then have k: "num_entries h = 2 ^ k"
    by (simp add: hash_shape_def)
  then have "(2 :: nat) ^ k \<le> 2 ^ 61"
    using assms(2) by simp
  then have "k \<le> 61"
    by (rule power_le_imp_le_exp [rotated]) simp
  moreover have "min_entries g \<le> 2 ^ k"
    using assms(1) k by (simp add: table_ok_def)
  ultimately show thesis
    using k by (intro that) auto
qed

lemma put_ok:
  assumes ok: "table_ok g h" and key: "key \<noteq> KEY_NULL" "key \<noteq> KEY_DELETED"
    and none: "hmap h key = None" and small: "num_entries h \<le> 2 ^ 61"
  shows "\<exists>h'. put_locked_fuel (Suc (Suc n)) g h key v = Some (h', 1) \<and> table_ok g h'
    \<and> hmap h' = (hmap h)(key \<mapsto> v) \<and> population h' = Suc (population h)
    \<and> shrink_size h' = shrink_size h
    \<and> (num_entries h' = num_entries h \<or> num_entries h' = num_entries h * 2)
    \<and> (deletes h = 0 \<longrightarrow> deletes h' = 0)"
proof -
  obtain b k where sh: "hash_shape b k g h" and re: "reachable_slots b k (entries h)"
    using ok by (auto simp: table_ok_def)
  obtain f where f: "List.find (\<lambda>i. is_free (entries h ! i)) (probe_slots b k key) = Some f"
    "f < 2 ^ k"
    using free_slot_exists [OF ok sh] by blast
  have search: "put_search g h key = Some (Room (Some f))"
    using put_search_absent [OF sh hmap_None_absent [OF sh re none key]] f by simp
  obtain m where m: "num_entries h = 2 ^ m" "num_entries h * 2 = 2 ^ Suc m"
    "min_entries g \<le> 2 ^ m" "min_entries g \<le> 2 ^ Suc m" "Suc m < 64"
    using grown_size [OF ok small] .
  have n: "128 \<le> num_entries h"
    by (rule table_ok_min [OF ok])
  have cnt: "grow_size h = float_trigger 10905190 (num_entries h)"
    "population h + deletes h \<le> float_trigger 13421773 (num_entries h) + 1"
    using ok by (simp_all add: table_ok_def counters_ok_def)
  have restart: "\<exists>h''. put_locked_fuel (Suc n) g h' key v = Some (h'', 1) \<and> table_ok g h''
      \<and> hmap h'' = (hmap h)(key \<mapsto> v) \<and> population h'' = Suc (population h)
      \<and> shrink_size h'' = shrink_size h \<and> num_entries h'' = num_entries h' \<and> deletes h'' = 0"
    if h': "table_ok g h'" "hmap h' = hmap h" "population h' = population h"
      "shrink_size h' = shrink_size h" "deletes h' = 0"
      "population h < float_trigger 10905190 (num_entries h')" for h'
  proof -
    have "population h' < grow_size h'" "population h' + deletes h' \<le> tidy_up_size h'"
      using h' triggers(2) [OF table_ok_min [OF h'(1)]] by (auto simp: table_ok_def counters_ok_def)
    then show ?thesis
      using put_fits [OF h'(1) key, of n v] h' none by (auto simp: same_frame_def)
  qed
  consider (direct) "ekey (entries h ! f) = KEY_NULL \<Longrightarrow>
      population h < grow_size h \<and> population h + deletes h \<le> tidy_up_size h"
    | (grow) "ekey (entries h ! f) = KEY_NULL" "grow_size h \<le> population h"
    | (tidy) "ekey (entries h ! f) = KEY_NULL" "population h < grow_size h"
        "tidy_up_size h < population h + deletes h"
    by linarith
  then show ?thesis
  proof cases
    case direct
    then show ?thesis
      using put_direct [OF ok sh re key none f, of "Suc n" v] by (auto simp: same_frame_def)
  next
    case grow
    have room: "population h < float_trigger 10905190 (2 ^ Suc m)"
      using cnt triggers(3) [OF n] m by (simp add: mult.commute)
    then obtain h' where h': "brehash (put_locked_fuel (Suc n) g) g h (num_entries h * 2) = Some h'"
      "table_ok g h'" "hmap h' = hmap h" "population h' = population h"
      "shrink_size h' = shrink_size h" "num_entries h' = num_entries h * 2" "deletes h' = 0"
      using brehash_fits [OF ok m(4,5), of n] m(2) by auto
    then obtain h'' where "put_locked_fuel (Suc n) g h' key v = Some (h'', 1)" "table_ok g h''"
      "hmap h'' = (hmap h)(key \<mapsto> v)" "population h'' = Suc (population h)"
      "shrink_size h'' = shrink_size h" "num_entries h'' = num_entries h'" "deletes h'' = 0"
      using restart [of h'] room m(2) by auto
    then show ?thesis
      using grow search key h'(1,6)
      by (subst put_locked_fuel.simps(2)) (simp add: Let_def del: put_locked_fuel.simps)
  next
    case tidy
    have room: "population h < float_trigger 10905190 (2 ^ m)"
      using tidy cnt m by simp
    then obtain h' where h': "brehash (put_locked_fuel (Suc n) g) g h (num_entries h) = Some h'"
      "table_ok g h'" "hmap h' = hmap h" "population h' = population h"
      "shrink_size h' = shrink_size h" "num_entries h' = num_entries h" "deletes h' = 0"
      using brehash_fits [OF ok m(3), of n] m(1,5) by auto
    then obtain h'' where "put_locked_fuel (Suc n) g h' key v = Some (h'', 1)" "table_ok g h''"
      "hmap h'' = (hmap h)(key \<mapsto> v)" "population h'' = Suc (population h)"
      "shrink_size h'' = shrink_size h" "num_entries h'' = num_entries h'" "deletes h'' = 0"
      using restart [of h'] room m(1) by auto
    then show ?thesis
      using tidy search key h'(1,6)
      by (subst put_locked_fuel.simps(2)) (simp add: Let_def del: put_locked_fuel.simps)
  qed
qed

text \<open>
  A rehash at the same size, as removal does it. The population may exceed the growth
  trigger here (insertions into deleted slots do not check it), in which case the new
  table grows while it is filled.
\<close>

lemma put_locked_unfold: "qt_hash_put_locked g h key v = put_locked_fuel (Suc (Suc 0)) g h key v"
  by (simp add: qt_hash_put_locked_def numeral_2_eq_2 del: put_locked_fuel.simps)

lemma brehash_same_size:
  assumes ok: "table_ok g h" and small: "table_small h"
  shows "\<exists>h'. brehash (qt_hash_put_locked g) g h (num_entries h) = Some h' \<and> table_ok g h'
    \<and> hmap h' = hmap h \<and> population h' = population h \<and> shrink_size h' = shrink_size h
    \<and> (num_entries h' = num_entries h \<or> num_entries h' = num_entries h * 2)"
proof -
  have small': "num_entries h \<le> 2 ^ 61"
    using small by (simp add: table_small_def)
  obtain m where m: "num_entries h = 2 ^ m" "min_entries g \<le> 2 ^ m" "Suc m < 64"
    using grown_size [OF ok small'] by metis
  have n: "128 \<le> num_entries h"
    by (rule table_ok_min [OF ok])
  have pop: "population h \<le> float_trigger 13421773 (num_entries h) + 1"
    using ok by (simp add: table_ok_def counters_ok_def)
  let ?Q = "\<lambda>d. table_ok g d \<and> deletes d = 0
    \<and> (num_entries d = num_entries h \<or> num_entries d = num_entries h * 2)"
  have put: "\<exists>d'. qt_hash_put_locked g d key v = Some (d', 1) \<and> ?Q d'
      \<and> hmap d' = (hmap d)(key \<mapsto> v) \<and> population d' = Suc (population d)"
    if d: "?Q d" "population d < population h" "hmap d key = None" "key \<noteq> KEY_NULL"
      "key \<noteq> KEY_DELETED" for d key v
  proof (cases "num_entries d = num_entries h")
    case True
    then show ?thesis
      using put_ok [of g d key 0 v] d small'
      by (auto simp: put_locked_unfold simp del: put_locked_fuel.simps)
  next
    case False
    then have "num_entries d = num_entries h * 2"
      using d by simp
    moreover have "grow_size d = float_trigger 10905190 (num_entries d)"
      "tidy_up_size d = float_trigger 13421773 (num_entries d)"
      using d by (simp_all add: table_ok_def counters_ok_def)
    ultimately have "population d < grow_size d" "population d + deletes d \<le> tidy_up_size d"
      using d pop triggers(3) [OF n] triggers(2) [OF table_ok_min [of g d]] by auto
    then show ?thesis
      using put_fits [of g d key "Suc 0" v] d
      by (auto simp: put_locked_unfold same_frame_def simp del: put_locked_fuel.simps)
  qed
  have "\<exists>h' d. brehash (qt_hash_put_locked g) g h (2 ^ m) = Some h' \<and> table_ok g h'
    \<and> hmap h' = hmap h \<and> population h' = population h \<and> shrink_size h' = shrink_size h
    \<and> ?Q d \<and> num_entries h' = num_entries d \<and> deletes h' = deletes d"
    by (rule brehash_ok [OF ok m(2)]) (use put m in simp_all)
  then show ?thesis
    using m(1) by auto
qed

text \<open>Marking the slot of a key as deleted removes the key from the map.\<close>

lemma delete_slot_ok:
  assumes ok: "table_ok g h" and i: "i < num_entries h" "live (entries h ! i)"
    "ekey (entries h ! i) = key"
  defines "h' \<equiv> h\<lparr>entries := (entries h)[i := (entries h ! i)\<lparr>ekey := KEY_DELETED\<rparr>],
     deletes := deletes h + 1, population := population h - 1\<rparr>"
  shows "table_ok g h'" "hmap h' = (hmap h)(key := None)" "num_entries h' = num_entries h"
proof -
  let ?z = "entries h" and ?e = "(entries h ! i)\<lparr>ekey := KEY_DELETED\<rparr>"
  obtain b k where sh: "hash_shape b k g h" and re: "reachable_slots b k (entries h)"
    using ok by (auto simp: table_ok_def)
  have len: "length ?z = 2 ^ k" "i < 2 ^ k"
    using sh i by (simp_all add: hash_shape_def)
  have e: "\<not> live ?e" "is_deleted ?e" "\<not> is_deleted (?z ! i)"
    using i by (simp_all add: live_iff is_deleted_def)
  have cnt: "length (filter live (entries h')) + 1 = population h"
    "length (filter is_deleted (entries h')) = deletes h + 1"
    using filter_length_update [of i ?z live ?e] filter_length_update [of i ?z is_deleted ?e]
      len i e ok
    by (simp_all add: h'_def table_ok_def counters_ok_def)
  have re': "reachable_slots b k (entries h')"
    using reachable_delete [OF re len(2,1)] by (simp add: h'_def)
  have sh': "hash_shape b k g h'"
    using sh by (simp add: hash_shape_def h'_def)
  have "population h + deletes h \<le> tidy_up_size h + 1"
    using ok by (simp add: table_ok_def counters_ok_def)
  then have "population h' + deletes h' \<le> tidy_up_size h' + 1"
    using cnt(1) by (simp add: h'_def)
  moreover have "num_entries h' = num_entries h" "grow_size h' = grow_size h"
    "tidy_up_size h' = tidy_up_size h" "has_key h' = has_key h"
    by (simp_all add: h'_def)
  moreover have "population h' = length (filter live (entries h'))"
    "deletes h' = length (filter is_deleted (entries h'))"
    using cnt by (simp_all add: h'_def)
  ultimately have "counters_ok h'" "min_entries g \<le> num_entries h'" "has_key h' = (False, False)"
    using ok by (simp_all add: table_ok_def counters_ok_def)
  then show "table_ok g h'"
    using sh' re' ok by (auto intro: table_okI simp: table_ok_def)
  show "num_entries h' = num_entries h"
    by (simp add: h'_def)
  show "hmap h' = (hmap h)(key := None)"
  proof (rule map_eq_by_Some)
    fix x y
    have uniq: "\<And>j. j < 2 ^ k \<Longrightarrow> ekey (?z ! j) = key \<Longrightarrow> j = i"
      using reachable_unique [OF re len(2)] i by auto
    have "hmap h' x = Some y \<longleftrightarrow>
        (\<exists>j < 2 ^ k. j \<noteq> i \<and> live (?z ! j) \<and> ekey (?z ! j) = x \<and> evalue (?z ! j) = y)"
      unfolding hmap_Some_nth [OF sh' re']
      using len e(1) by (auto simp: h'_def nth_list_update)
    also have "\<dots> \<longleftrightarrow> ((hmap h)(key := None)) x = Some y"
      using hmap_Some_nth [OF sh re, of x y] i(3) by (auto dest: uniq)
    finally show "hmap h' x = Some y \<longleftrightarrow> ((hmap h)(key := None)) x = Some y" .
  qed
qed

lemma put_locked_ok:
  assumes "hash_inv g h" "table_small h" "KEY_DELETED < key" "hmap h key = None"
  shows "\<exists>h'. qt_hash_put_locked g h key v = Some (h', 1) \<and> hash_inv g h'
    \<and> hmap h' = (hmap h)(key \<mapsto> v) \<and> num_entries h' \<le> num_entries h * 2"
proof -
  have "key \<noteq> KEY_NULL" "key \<noteq> KEY_DELETED"
    using assms(3) live_iff [of "\<lparr>ekey = key, evalue = 0\<rparr>"] by (auto simp: live_def)
  then show ?thesis
    using put_ok [of g h key 0 v] assms
    by (auto simp: hash_inv_def put_locked_unfold table_small_def simp del: put_locked_fuel.simps)
qed

lemma remove_locked_ok:
  assumes "hash_inv g h" "table_small h" "KEY_DELETED < key"
  shows "\<exists>h'. qt_hash_remove_locked g h key = Some (h', if hmap h key = None then 0 else 1)
    \<and> hash_inv g h' \<and> hmap h' = (hmap h)(key := None) \<and> num_entries h' \<le> num_entries h * 2"
proof -
  have key: "key \<noteq> KEY_NULL" "key \<noteq> KEY_DELETED"
    using assms(3) live_iff [of "\<lparr>ekey = key, evalue = 0\<rparr>"] by (auto simp: live_def)
  have ok: "table_ok g h" and shrink: "shrink_size h = 0"
    using assms(1) by (simp_all add: hash_inv_def)
  note find = find_correct [OF ok key]
  show ?thesis
  proof (cases "hmap h key")
    case None
    then have "qt_hash_internal_find g h key = Some None"
      using find by (auto split: option.splits)
    then have "qt_hash_remove_locked g h key = Some (h, 0)"
      using key by (simp add: qt_hash_remove_locked_def)
    then show ?thesis
      using None assms(1) by (auto simp: fun_upd_idem)
  next
    case (Some v)
    then obtain i where i: "i < num_entries h" "live (entries h ! i)" "ekey (entries h ! i) = key"
      "qt_hash_internal_find g h key = Some (Some (Slot i))"
      using find by (auto split: option.splits)
    let ?h = "h\<lparr>entries := (entries h)[i := (entries h ! i)\<lparr>ekey := KEY_DELETED\<rparr>],
      deletes := deletes h + 1, population := population h - 1\<rparr>"
    note del = delete_slot_ok [OF ok i(1,2,3)]
    have "table_small ?h"
      using assms(2) by (simp add: table_small_def)
    from brehash_same_size [OF del(1) this] obtain h' where h':
      "brehash (qt_hash_put_locked g) g ?h (num_entries ?h) = Some h'" "table_ok g h'"
      "hmap h' = hmap ?h" "shrink_size h' = shrink_size ?h"
      "num_entries h' = num_entries ?h \<or> num_entries h' = num_entries ?h * 2"
      by blast
    show ?thesis
    proof (cases "tidy_up_size ?h \<le> population ?h + deletes ?h")
      case True
      then have "qt_hash_remove_locked g h key = Some (h', 1)"
        using i(4) key h'(1) by (simp add: qt_hash_remove_locked_def Let_def)
      then show ?thesis
        using Some h' del shrink by (auto simp: hash_inv_def)
    next
      case False
      then have "qt_hash_remove_locked g h key = Some (?h, 1)"
        using i(4) key shrink by (simp add: qt_hash_remove_locked_def Let_def)
      then show ?thesis
        using Some del shrink by (auto simp: hash_inv_def)
    qed
  qed
qed

section \<open>The contract of a table of addresses\<close>

locale address_table =
  fixes get :: "'h \<Rightarrow> u64 \<Rightarrow> u64 option"
    and put :: "'h \<Rightarrow> u64 \<Rightarrow> u64 \<Rightarrow> ('h \<times> int) option"
    and remove :: "'h \<Rightarrow> u64 \<Rightarrow> ('h \<times> int) option"
    and lookup :: "'h \<Rightarrow> u64 \<Rightarrow> u64 option"
    and inv :: "'h \<Rightarrow> bool"
    and small :: "'h \<Rightarrow> bool"
  assumes get_law: "inv h \<Longrightarrow> KEY_DELETED < a \<Longrightarrow>
      get h a = Some (case lookup h a of None \<Rightarrow> 0 | Some p \<Rightarrow> p)"
    and put_law: "inv h \<Longrightarrow> small h \<Longrightarrow> KEY_DELETED < a \<Longrightarrow> lookup h a = None \<Longrightarrow>
      \<exists>h'. put h a p = Some (h', 1) \<and> inv h' \<and> lookup h' = (lookup h)(a \<mapsto> p)"
    and remove_law: "inv h \<Longrightarrow> small h \<Longrightarrow> KEY_DELETED < a \<Longrightarrow>
      \<exists>h'. remove h a = Some (h', if lookup h a = None then 0 else 1) \<and> inv h'
         \<and> lookup h' = (lookup h)(a := None)"
begin

lemma put_get:
  assumes "inv h" "small h" "KEY_DELETED < a" "lookup h a = None" "put h a p = Some (h', r)"
    "KEY_DELETED < b"
  shows "get h' b = (if b = a then Some p else get h b)"
proof -
  from put_law [OF assms(1-4), of p] assms(5)
  have "inv h'" "lookup h' = (lookup h)(a \<mapsto> p)"
    by auto
  then show ?thesis
    using assms get_law [of h b] get_law [of h' b] by simp
qed

lemma remove_get:
  assumes "inv h" "small h" "KEY_DELETED < a" "remove h a = Some (h', r)" "KEY_DELETED < b"
  shows "get h' b = (if b = a then Some 0 else get h b)"
proof -
  from remove_law [OF assms(1-3)] assms(4)
  have "inv h'" "lookup h' = (lookup h)(a := None)"
    by auto
  then show ?thesis
    using assms get_law [of h b] get_law [of h' b] by simp
qed

lemma put_remove:
  assumes "inv h" "small h" "KEY_DELETED < a" "lookup h a = None" "put h a p = Some (h', r)"
    "small h'"
  shows "\<exists>h''. remove h' a = Some (h'', 1) \<and> inv h'' \<and> lookup h'' = lookup h"
proof -
  from put_law [OF assms(1-4), of p] assms(5)
  have h': "inv h'" "lookup h' = (lookup h)(a \<mapsto> p)"
    by auto
  from remove_law [OF h'(1) assms(6,3)] show ?thesis
    using h'(2) assms(4) by (auto simp: fun_upd_idem)
qed

end

interpretation hashmap: address_table
  "qt_hash_get_locked g" "qt_hash_put_locked g" "qt_hash_remove_locked g" hmap "hash_inv g"
  table_small for g
proof
  fix h :: qt_hash_s and a p :: u64
  assume inv: "hash_inv g h" and a: "KEY_DELETED < a"
  have "a \<noteq> KEY_NULL" "a \<noteq> KEY_DELETED"
    using a live_iff [of "\<lparr>ekey = a, evalue = 0\<rparr>"] by (auto simp: live_def)
  then show "qt_hash_get_locked g h a = Some (case hmap h a of None \<Rightarrow> 0 | Some p \<Rightarrow> p)"
    using inv by (simp add: get_locked_correct hash_inv_def)
  assume small: "table_small h"
  show "\<exists>h'. qt_hash_remove_locked g h a = Some (h', if hmap h a = None then 0 else 1)
      \<and> hash_inv g h' \<and> hmap h' = (hmap h)(a := None)"
    using remove_locked_ok [OF inv small a] by blast
  assume "hmap h a = None"
  then show "\<exists>h'. qt_hash_put_locked g h a p = Some (h', 1) \<and> hash_inv g h' \<and> hmap h' = (hmap h)(a \<mapsto> p)"
    using put_locked_ok [OF inv small a] by blast
qed

end
