(* ===== verification/Feb_Inv.thy ===== *)
theory Feb_Inv
  imports Feb Hashmap_Correct
begin

text \<open>
  The invariant of the full/empty-bit state and the effect of its elementary steps: looking
  a record up, adding one, removing one, and making a thread ready. The tables are used
  through the laws of \<open>address_table\<close> only, the ready queues through those of
  \<open>ready_queues\<close>.
\<close>

section \<open>The invariant\<close>

definition good_addr :: "u64 \<Rightarrow> bool" where
  "good_addr a \<longleftrightarrow> QALIGN a = a \<and> a \<noteq> 0"

text \<open>
  A full word has no readers waiting, an empty one has no writers waiting.
\<close>

definition addrstat_ok :: "addrstat \<Rightarrow> bool" where
  "addrstat_ok m \<longleftrightarrow> (if full m then FEQ m = [] \<and> FFQ m = [] else EFQ m = [])"

definition feb_lookup :: "'q feb_state \<Rightarrow> u64 \<Rightarrow> u64 option" where
  "feb_lookup s a = hmap (febs s ! QTHREAD_CHOOSE_STRIPE2 a) a"

text \<open>The state of a word: that of its record, or full without waiters.\<close>

definition feb_view :: "'q feb_state \<Rightarrow> u64 \<Rightarrow> addrstat" where
  "feb_view s a = (case feb_lookup s a of
     None \<Rightarrow> qthread_addrstat_new | Some p \<Rightarrow> the (stats s p))"

definition stripes_ok :: "'q feb_state \<Rightarrow> bool" where
  "stripes_ok s \<longleftrightarrow>
     globals_wf (hg s) \<and> length (febs s) = QTHREAD_LOCKING_STRIPES \<and>
     (\<forall>i < QTHREAD_LOCKING_STRIPES. hash_inv (hg s) (febs s ! i) \<and>
        (\<forall>a p. hmap (febs s ! i) a = Some p \<longrightarrow> QTHREAD_CHOOSE_STRIPE2 a = i \<and> good_addr a \<and> p \<noteq> 0))"

definition records_ok :: "'q feb_state \<Rightarrow> bool" where
  "records_ok s \<longleftrightarrow>
     (\<forall>a b p. feb_lookup s a = Some p \<longrightarrow> feb_lookup s b = Some p \<longrightarrow> a = b) \<and>
     (\<forall>p. p \<in> dom (stats s) \<longleftrightarrow> (\<exists>a. good_addr a \<and> feb_lookup s a = Some p)) \<and>
     finite (dom (stats s)) \<and> (\<forall>p m. stats s p = Some m \<longrightarrow> addrstat_ok m)"

definition tables_ok :: "'q feb_state \<Rightarrow> bool" where
  "tables_ok s \<longleftrightarrow> lib_initialized s \<and> qlib_present s \<and> stripes_ok s \<and> records_ok s"

definition feb_small :: "'q feb_state \<Rightarrow> bool" where
  "feb_small s \<longleftrightarrow> (\<forall>i < QTHREAD_LOCKING_STRIPES. table_small (febs s ! i))"

definition thread_ok :: "nat \<Rightarrow> qthread \<Rightarrow> bool" where
  "thread_ok n t \<longleftrightarrow> shepherd_ptr t < n \<and> (\<forall>d. target_shepherd t = Some d \<longrightarrow> d < n)
     \<and> (\<forall>ps. preconds t = Some ps \<longrightarrow> (\<forall>a \<in> set ps. good_addr a))"

definition sched_ok :: "('q \<Rightarrow> bool) \<Rightarrow> ('q \<Rightarrow> nat) \<Rightarrow> 'q feb_state \<Rightarrow> bool" where
  "sched_ok qinv nsheps s \<longleftrightarrow> qinv (ready s) \<and> (\<forall>t. thread_ok (nsheps (ready s)) (threads s t))"

definition feb_inv :: "('q \<Rightarrow> bool) \<Rightarrow> ('q \<Rightarrow> nat) \<Rightarrow> 'q feb_state \<Rightarrow> bool" where
  "feb_inv qinv nsheps s \<longleftrightarrow> tables_ok s \<and> sched_ok qinv nsheps s"

text \<open>The threads waiting on a record, and those waiting on any word.\<close>

definition waiters :: "addrstat \<Rightarrow> tid multiset" where
  "waiters m = mset (map waiter (EFQ m @ FEQ m @ FFQ m))"

definition all_waiters :: "'q feb_state \<Rightarrow> tid multiset" where
  "all_waiters s = (\<Sum>p \<in> dom (stats s). waiters (the (stats s p)))"

section \<open>Field-level facts\<close>

text \<open>The part of the state that only the table operations change.\<close>

definition tabs :: "'q feb_state \<Rightarrow> bool \<times> bool \<times> hash_globals \<times> qt_hash_s list \<times> (u64 \<Rightarrow> addrstat option)"
  where "tabs s = (qlib_present s, lib_initialized s, hg s, febs s, stats s)"

lemma tabs_cong:
  assumes "tabs s' = tabs s"
  shows "qlib_present s' = qlib_present s" "lib_initialized s' = lib_initialized s" "hg s' = hg s"
    "febs s' = febs s" "stats s' = stats s" "feb_lookup s' = feb_lookup s" "feb_view s' = feb_view s"
    "tables_ok s' = tables_ok s" "feb_small s' = feb_small s" "all_waiters s' = all_waiters s"
    "feb_get s' i a = feb_get s i a"
proof -
  show f: "qlib_present s' = qlib_present s" "lib_initialized s' = lib_initialized s" "hg s' = hg s"
    "febs s' = febs s" "stats s' = stats s"
    using assms by (simp_all add: tabs_def)
  show l: "feb_lookup s' = feb_lookup s"
    by (simp add: feb_lookup_def f fun_eq_iff)
  show "feb_view s' = feb_view s"
    unfolding feb_view_def [abs_def] f l by (rule refl)
  show "tables_ok s' = tables_ok s" "feb_small s' = feb_small s"
    "all_waiters s' = all_waiters s" "feb_get s' i a = feb_get s i a"
    by (simp_all add: tables_ok_def stripes_ok_def records_ok_def
          feb_small_def all_waiters_def feb_get_def f l)
qed

lemma tabs_updates [simp]:
  "tabs (set_mem a v s) = tabs s" "tabs (upd_thread t f s) = tabs s"
  "tabs (copy_word a b s) = tabs s" "tabs (s\<lparr>ready := q\<rparr>) = tabs s" "tabs (s\<lparr>threads := th\<rparr>) = tabs s"
  by (simp_all add: tabs_def set_mem_def upd_thread_def copy_word_def)

lemma set_stat_fields [simp, feb_simps]:
  "stats (set_stat p m s) = (stats s)(p \<mapsto> m)" "febs (set_stat p m s) = febs s"
  "hg (set_stat p m s) = hg s" "mem (set_stat p m s) = mem s" "threads (set_stat p m s) = threads s"
  "ready (set_stat p m s) = ready s" "lib_initialized (set_stat p m s) = lib_initialized s"
  "qlib_present (set_stat p m s) = qlib_present s"
  by (simp_all add: set_stat_def)

lemma upd_thread_fields [simp, feb_simps]:
  "mem (upd_thread t f s) = mem s" "ready (upd_thread t f s) = ready s"
  "threads (upd_thread t f s) = (threads s)(t := f (threads s t))"
  by (simp_all add: upd_thread_def)

text \<open>Storing a value at a destination; a null destination is ignored.\<close>

definition put_word :: "u64 \<Rightarrow> u64 \<Rightarrow> (u64 \<Rightarrow> u64) \<Rightarrow> u64 \<Rightarrow> u64" where
  "put_word d x mm = (if d = 0 then mm else mm(d := x))"

lemma copy_word_fields [simp, feb_simps]:
  "threads (copy_word a b s) = threads s" "ready (copy_word a b s) = ready s"
  "mem (copy_word a b s) = put_word a (mem s b) (mem s)"
  by (auto simp: copy_word_def set_mem_def put_word_def)

lemma tabs_set_stat: "tabs s' = tabs s \<Longrightarrow> tabs (set_stat p m s') = tabs (set_stat p m s)"
  by (simp add: tabs_def)

section \<open>Addresses and stripes\<close>

lemma choose_stripe_less: "QTHREAD_CHOOSE_STRIPE2 a < QTHREAD_LOCKING_STRIPES"
proof -
  have "qt_hash64 a AND 127 \<le> (127 :: u64)"
    by (rule word_and_le1)
  then have "unat (qt_hash64 a AND 127) \<le> unat (127 :: u64)"
    by (simp add: word_le_nat_alt)
  then show ?thesis
    by (simp add: QTHREAD_CHOOSE_STRIPE2_def QTHREAD_LOCKING_STRIPES_def)
qed

lemma QALIGN_idem [simp]: "QALIGN (QALIGN a) = QALIGN a"
  by (simp add: QALIGN_def and.assoc)

lemma good_addr_key: "good_addr a \<Longrightarrow> KEY_DELETED < a"
proof -
  assume a: "good_addr a"
  have "QALIGN 1 \<noteq> 1"
    by (simp add: QALIGN_def)
  with a have "a \<noteq> 0" "a \<noteq> 1"
    unfolding good_addr_def by blast+
  then show "KEY_DELETED < a"
    using live_iff [of "\<lparr>ekey = a, evalue = 0\<rparr>"] by (simp add: live_def KEY_NULL_def KEY_DELETED_def)
qed

lemma good_addr_align: "good_addr a \<Longrightarrow> QALIGN a = a" "good_addr a \<Longrightarrow> a \<noteq> 0"
  by (simp_all add: good_addr_def)

section \<open>The striped table\<close>

lemma stripes_hash_inv: "stripes_ok s \<Longrightarrow> hash_inv (hg s) (febs s ! QTHREAD_CHOOSE_STRIPE2 a)"
  using choose_stripe_less [of a] by (simp add: stripes_ok_def)

lemma lookup_good: "stripes_ok s \<Longrightarrow> feb_lookup s a = Some p \<Longrightarrow> good_addr a \<and> p \<noteq> 0"
  unfolding stripes_ok_def feb_lookup_def using choose_stripe_less by blast

lemma feb_get_ok:
  assumes "tables_ok s" "good_addr a"
  shows "feb_get s (QTHREAD_CHOOSE_STRIPE2 a) a = Some (case feb_lookup s a of None \<Rightarrow> 0 | Some p \<Rightarrow> p)"
  unfolding feb_get_def feb_lookup_def
  using assms by (intro hashmap.get_law stripes_hash_inv good_addr_key) (simp_all add: tables_ok_def)

lemma lookup_record:
  assumes "tables_ok s" "feb_lookup s a = Some p"
  obtains m where "stats s p = Some m" "addrstat_ok m" "p \<noteq> 0" "feb_view s a = m"
proof -
  have "good_addr a" "p \<noteq> 0"
    using assms lookup_good [of s a p] by (simp_all add: tables_ok_def)
  then have "p \<in> dom (stats s)"
    using assms by (auto simp: tables_ok_def records_ok_def)
  then obtain m where m: "stats s p = Some m"
    by blast
  then have "addrstat_ok m"
    using assms by (auto simp: tables_ok_def records_ok_def)
  then show ?thesis
    using that m \<open>p \<noteq> 0\<close> assms(2) by (simp add: feb_view_def)
qed

text \<open>Replacing one stripe changes the lookup of that stripe only.\<close>

lemma stripe_update:
  assumes "stripes_ok s" "good_addr a" "hash_inv (hg s) h"
    "hmap h = (hmap (febs s ! QTHREAD_CHOOSE_STRIPE2 a))(a := v)" "v \<noteq> Some 0"
  shows "stripes_ok (s\<lparr>febs := (febs s)[QTHREAD_CHOOSE_STRIPE2 a := h], stats := st\<rparr>)"
    and "feb_lookup (s\<lparr>febs := (febs s)[QTHREAD_CHOOSE_STRIPE2 a := h], stats := st\<rparr>) = (feb_lookup s)(a := v)"
proof -
  let ?i = "QTHREAD_CHOOSE_STRIPE2 a"
  let ?s = "s\<lparr>febs := (febs s)[?i := h], stats := st\<rparr>"
  have len: "?i < length (febs s)"
    using assms(1) choose_stripe_less [of a] by (simp add: stripes_ok_def)
  show "stripes_ok ?s"
    using assms len by (auto simp: stripes_ok_def nth_list_update split: if_splits)
  show "feb_lookup ?s = (feb_lookup s)(a := v)"
  proof
    fix b
    show "feb_lookup ?s b = ((feb_lookup s)(a := v)) b"
    proof (cases "QTHREAD_CHOOSE_STRIPE2 b = ?i")
      case True
      then show ?thesis
        using assms(4) len by (auto simp: feb_lookup_def)
    next
      case False
      then have "b \<noteq> a"
        by auto
      then show ?thesis
        using False by (simp add: feb_lookup_def)
    qed
  qed
qed

section \<open>Changing one record\<close>

lemma set_stat_lookup [simp]: "feb_lookup (set_stat p m s) = feb_lookup s"
  by (simp add: feb_lookup_def fun_eq_iff)

lemma set_stat_stripes [simp]:
  "stripes_ok (set_stat p m s) = stripes_ok s" "feb_small (set_stat p m s) = feb_small s"
  by (simp_all add: stripes_ok_def feb_small_def)

lemma set_stat_tables:
  assumes "tables_ok s" "p \<in> dom (stats s)" "addrstat_ok m"
  shows "tables_ok (set_stat p m s)"
  using assms unfolding tables_ok_def records_ok_def by (auto simp: insert_absorb)

lemma set_stat_waiters:
  assumes "tables_ok s" "stats s p = Some m"
  shows "all_waiters (set_stat p m' s) + waiters m = all_waiters s + waiters m'"
proof -
  let ?D = "dom (stats s)"
  have p: "p \<in> ?D" "finite ?D"
    using assms by (auto simp: tables_ok_def records_ok_def)
  have eq: "(\<Sum>x \<in> ?D - {p}. waiters (the (((stats s)(p \<mapsto> m')) x)))
      = (\<Sum>x \<in> ?D - {p}. waiters (the (stats s x)))"
    by (intro sum.cong) auto
  have "all_waiters (set_stat p m' s) = waiters m' + (\<Sum>x \<in> ?D - {p}. waiters (the (stats s x)))"
    unfolding all_waiters_def using p by (simp add: insert_absorb sum.remove [of _ p] eq)
  moreover have "all_waiters s = waiters m + (\<Sum>x \<in> ?D - {p}. waiters (the (stats s x)))"
    unfolding all_waiters_def using p assms(2) by (simp add: sum.remove [of _ p])
  ultimately show ?thesis
    by (simp add: ac_simps)
qed

lemma set_stat_view:
  assumes "tables_ok s" "feb_lookup s a = Some p"
  shows "feb_view (set_stat p m s) = (feb_view s)(a := m)"
proof
  fix b
  show "feb_view (set_stat p m s) b = ((feb_view s)(a := m)) b"
  proof (cases "b = a")
    case True
    then show ?thesis
      using assms(2) by (simp add: feb_view_def)
  next
    case False
    then have "feb_lookup s b \<noteq> Some p"
      using assms unfolding tables_ok_def records_ok_def by blast
    then show ?thesis
      using False by (auto simp: feb_view_def split: option.splits)
  qed
qed

section \<open>Adding a record\<close>

lemma feb_put_ok:
  assumes ok: "tables_ok s" "feb_small s" "good_addr a" "feb_lookup s a = None"
    and p: "p \<noteq> 0" "stats s p = None" and m: "addrstat_ok m"
  obtains h where "feb_put (set_stat p m s) (QTHREAD_CHOOSE_STRIPE2 a) a p
      = Some (s\<lparr>febs := (febs s)[QTHREAD_CHOOSE_STRIPE2 a := h], stats := (stats s)(p \<mapsto> m)\<rparr>)"
    "tables_ok (s\<lparr>febs := (febs s)[QTHREAD_CHOOSE_STRIPE2 a := h], stats := (stats s)(p \<mapsto> m)\<rparr>)"
    "feb_lookup (s\<lparr>febs := (febs s)[QTHREAD_CHOOSE_STRIPE2 a := h], stats := (stats s)(p \<mapsto> m)\<rparr>)
      = (feb_lookup s)(a \<mapsto> p)"
proof -
  let ?i = "QTHREAD_CHOOSE_STRIPE2 a"
  have st: "stripes_ok s"
    using ok(1) by (simp add: tables_ok_def)
  have "table_small (febs s ! ?i)"
    using ok(2) choose_stripe_less [of a] by (simp add: feb_small_def)
  from hashmap.put_law [OF stripes_hash_inv [OF st] this good_addr_key [OF ok(3)]] ok(4)
  obtain h where h: "qt_hash_put_locked (hg s) (febs s ! ?i) a p = Some (h, 1)"
    "hash_inv (hg s) h" "hmap h = (hmap (febs s ! ?i))(a \<mapsto> p)"
    by (auto simp: feb_lookup_def)
  let ?s = "s\<lparr>febs := (febs s)[?i := h], stats := (stats s)(p \<mapsto> m)\<rparr>"
  note upd = stripe_update [OF st ok(3) h(2,3)]
  have look: "feb_lookup ?s = (feb_lookup s)(a \<mapsto> p)"
    using upd(2) p by simp
  have no: "feb_lookup s b \<noteq> Some p" for b
  proof
    assume "feb_lookup s b = Some p"
    then obtain m' where "stats s p = Some m'"
      by (rule lookup_record [OF ok(1)])
    with p(2) show False
      by simp
  qed
  have "records_ok ?s"
    using ok(1,3,4) no m unfolding tables_ok_def records_ok_def look
    by auto (metis option.distinct(1))
  moreover have "stripes_ok ?s"
    using upd(1) p by simp
  ultimately have "tables_ok ?s"
    using ok(1) by (simp add: tables_ok_def)
  moreover have "feb_put (set_stat p m s) ?i a p = Some ?s"
    using h(1) by (simp add: feb_put_def set_stat_def)
  ultimately show ?thesis
    using that look by blast
qed

lemma new_record_waiters:
  assumes "tables_ok s" "stats s p = None"
  shows "all_waiters (s\<lparr>febs := fs, stats := (stats s)(p \<mapsto> m)\<rparr>) = all_waiters s + waiters m"
proof -
  let ?D = "dom (stats s)"
  have fin: "finite ?D"
    using assms(1) by (simp add: tables_ok_def records_ok_def)
  have new: "p \<notin> ?D"
    using assms(2) by auto
  have "(\<Sum>x \<in> ?D. waiters (the (((stats s)(p \<mapsto> m)) x))) = (\<Sum>x \<in> ?D. waiters (the (stats s x)))"
    using new by (intro sum.cong) auto
  then show ?thesis
    unfolding all_waiters_def using fin new by simp
qed

section \<open>Removing a record\<close>

definition removable :: "addrstat \<Rightarrow> bool" where
  "removable m \<longleftrightarrow> full m \<and> EFQ m = [] \<and> FEQ m = [] \<and> FFQ m = []"

lemma removable_new: "removable m \<longleftrightarrow> m = qthread_addrstat_new"
  by (cases m) (auto simp: removable_def qthread_addrstat_new_def)

lemma FEB_remove_ok:
  assumes ok: "tables_ok s" "feb_small s" "good_addr a"
  obtains s' where "qthread_FEB_remove a s = Some s'" "tables_ok s'"
    "feb_view s' = feb_view s" "all_waiters s' = all_waiters s"
    "mem s' = mem s" "threads s' = threads s" "ready s' = ready s"
    "feb_lookup s' = (if removable (feb_view s a) then (feb_lookup s)(a := None) else feb_lookup s)"
proof (cases "feb_lookup s a")
  case None
  have get: "feb_get s (QTHREAD_CHOOSE_STRIPE2 a) a = Some 0"
    using feb_get_ok [OF ok(1,3)] None by simp
  have "qthread_FEB_remove a s = Some s"
    by (simp add: qthread_FEB_remove_def Let_def get)
  then show ?thesis
    using that ok(1) None by (simp add: fun_upd_idem)
next
  case (Some p)
  let ?i = "QTHREAD_CHOOSE_STRIPE2 a"
  obtain m where m: "stats s p = Some m" "addrstat_ok m" "p \<noteq> 0" "feb_view s a = m"
    by (rule lookup_record [OF ok(1) Some])
  have get: "feb_get s ?i a = Some p"
    using feb_get_ok [OF ok(1,3)] Some by simp
  show ?thesis
  proof (cases "removable m")
    case False
    then have "qthread_FEB_remove a s = Some s"
      using m by (auto simp: qthread_FEB_remove_def Let_def get removable_def)
    then show ?thesis
      using that ok(1) False m by simp
  next
    case True
    have st: "stripes_ok s"
      using ok(1) by (simp add: tables_ok_def)
    have "table_small (febs s ! ?i)"
      using ok(2) choose_stripe_less [of a] by (simp add: feb_small_def)
    from hashmap.remove_law [OF stripes_hash_inv [OF st] this good_addr_key [OF ok(3)]] Some
    obtain h where h: "qt_hash_remove_locked (hg s) (febs s ! ?i) a = Some (h, 1)"
      "hash_inv (hg s) h" "hmap h = (hmap (febs s ! ?i))(a := None)"
      by (auto simp: feb_lookup_def)
    let ?s = "s\<lparr>febs := (febs s)[?i := h], stats := (stats s)(p := None)\<rparr>"
    note upd = stripe_update [OF st ok(3) h(2,3), simplified]
    have rm: "qthread_FEB_remove a s = Some ?s"
      using m True h(1) by (simp add: qthread_FEB_remove_def Let_def get removable_def)
    have other: "feb_lookup s b = Some p \<longleftrightarrow> b = a" for b
      using ok(1) Some unfolding tables_ok_def records_ok_def by blast
    have "records_ok ?s"
      using ok(1) other unfolding tables_ok_def records_ok_def upd(2)
      by (auto split: if_splits) (metis option.inject)
    then have tab: "tables_ok ?s"
      using ok(1) upd(1) by (simp add: tables_ok_def)
    have view: "feb_view ?s = feb_view s"
    proof
      fix b
      show "feb_view ?s b = feb_view s b"
        unfolding feb_view_def upd(2)
        using other [of b] m True by (auto split: option.splits simp: removable_new)
    qed
    have all: "all_waiters ?s = all_waiters s"
    proof -
      have "finite (dom (stats s))" "p \<in> dom (stats s)"
        using ok(1) m by (auto simp: tables_ok_def records_ok_def)
      moreover have "waiters m = {#}"
        using True by (simp add: waiters_def removable_def)
      moreover have "(\<Sum>x \<in> dom (stats s) - {p}. waiters (the (((stats s)(p := None)) x)))
          = (\<Sum>x \<in> dom (stats s) - {p}. waiters (the (stats s x)))"
        by (intro sum.cong) auto
      ultimately show ?thesis
        using m(1) by (simp add: all_waiters_def sum.remove [of "dom (stats s)" p])
    qed
    show ?thesis
      using that [OF rm tab view all] upd(2) True m by simp
  qed
qed

end
