(* ===== verification/Records.thy ===== *)
theory Records
  imports Feb_Inv
begin

text \<open>
  A striped table of wait records: an array of hash tables indexed by a hash of the address,
  whose values point to \<open>qthread_addrstat_t\<close> records. \<open>feb.c\<close> and \<open>syncvar.c\<close> both keep
  one, with different stripe functions. The locale \<open>record_table\<close> states what the stripe
  function has to provide and derives, from the laws of the hash table alone, what looking a
  record up, adding, changing and removing one does to the mapping from addresses to records.
\<close>

record rec_store =
  tglobals :: hash_globals
  tables :: "qt_hash_s list"
  recs :: "u64 \<Rightarrow> addrstat option"

definition rec_get :: "(u64 \<Rightarrow> nat) \<Rightarrow> u64 \<Rightarrow> rec_store \<Rightarrow> u64 option" where
  "rec_get stripe a r = qt_hash_get_locked (tglobals r) (tables r ! stripe a) a"

definition rec_set :: "u64 \<Rightarrow> addrstat \<Rightarrow> rec_store \<Rightarrow> rec_store" where
  "rec_set p m r = r\<lparr>recs := (recs r)(p \<mapsto> m)\<rparr>"

text \<open>A new record, entered in the table; the code asserts that the insertion succeeds.\<close>

definition rec_put :: "(u64 \<Rightarrow> nat) \<Rightarrow> u64 \<Rightarrow> u64 \<Rightarrow> addrstat \<Rightarrow> rec_store \<Rightarrow> rec_store option" where
  "rec_put stripe a p m r =
     do { (h, c) \<leftarrow> qt_hash_put_locked (tglobals r) (tables r ! stripe a) a p;
          c_assert (c \<noteq> 0);
          Some (rec_set p m (r\<lparr>tables := (tables r)[stripe a := h]\<rparr>)) }"

definition rec_remove :: "(u64 \<Rightarrow> nat) \<Rightarrow> u64 \<Rightarrow> u64 \<Rightarrow> rec_store \<Rightarrow> rec_store option" where
  "rec_remove stripe a p r =
     do { (h, c) \<leftarrow> qt_hash_remove_locked (tglobals r) (tables r ! stripe a) a;
          Some (r\<lparr>tables := (tables r)[stripe a := h], recs := (recs r)(p := None)\<rparr>) }"

section \<open>The mapping from addresses to records\<close>

definition rec_lookup :: "(u64 \<Rightarrow> nat) \<Rightarrow> rec_store \<Rightarrow> u64 \<Rightarrow> u64 option" where
  "rec_lookup stripe r a = hmap (tables r ! stripe a) a"

definition rec_view :: "(u64 \<Rightarrow> nat) \<Rightarrow> rec_store \<Rightarrow> u64 \<Rightarrow> addrstat option" where
  "rec_view stripe r a = Option.bind (rec_lookup stripe r a) (recs r)"

definition rec_tables_ok :: "(u64 \<Rightarrow> nat) \<Rightarrow> rec_store \<Rightarrow> bool" where
  "rec_tables_ok stripe r \<longleftrightarrow>
     globals_wf (tglobals r) \<and> length (tables r) = QTHREAD_LOCKING_STRIPES \<and>
     (\<forall>i < QTHREAD_LOCKING_STRIPES. hash_inv (tglobals r) (tables r ! i) \<and>
        (\<forall>a p. hmap (tables r ! i) a = Some p \<longrightarrow> stripe a = i \<and> good_addr a \<and> p \<noteq> 0))"

definition rec_store_ok :: "(u64 \<Rightarrow> nat) \<Rightarrow> rec_store \<Rightarrow> bool" where
  "rec_store_ok stripe r \<longleftrightarrow>
     rec_tables_ok stripe r \<and>
     (\<forall>a b p. rec_lookup stripe r a = Some p \<longrightarrow> rec_lookup stripe r b = Some p \<longrightarrow> a = b) \<and>
     dom (recs r) = ran (rec_lookup stripe r) \<and> finite (dom (rec_lookup stripe r))"

definition rec_small :: "rec_store \<Rightarrow> bool" where
  "rec_small r \<longleftrightarrow> (\<forall>i < QTHREAD_LOCKING_STRIPES. table_small (tables r ! i))"

section \<open>The waiters of a mapping\<close>

definition opt_waiters :: "addrstat option \<Rightarrow> tid multiset" where
  "opt_waiters x = (case x of None \<Rightarrow> {#} | Some m \<Rightarrow> waiters m)"

definition map_waiters :: "(u64 \<Rightarrow> addrstat option) \<Rightarrow> tid multiset" where
  "map_waiters v = (\<Sum>a \<in> dom v. opt_waiters (v a))"

lemma map_waiters_superset: "finite D \<Longrightarrow> dom v \<subseteq> D \<Longrightarrow> map_waiters v = (\<Sum>a \<in> D. opt_waiters (v a))"
  unfolding map_waiters_def by (intro sum.mono_neutral_left) (auto simp: opt_waiters_def split: option.splits)

lemma map_waiters_upd:
  assumes "finite (dom v)"
  shows "map_waiters (v(a := x)) + opt_waiters (v a) = map_waiters v + opt_waiters x"
proof -
  let ?D = "insert a (dom v)"
  have "map_waiters (v(a := x)) = (\<Sum>b \<in> ?D. opt_waiters ((v(a := x)) b))"
    by (rule map_waiters_superset) (use assms in auto)
  also have "\<dots> = opt_waiters x + (\<Sum>b \<in> ?D - {a}. opt_waiters (v b))"
    using assms by (subst sum.remove [of ?D a]) (auto intro!: sum.cong)
  finally have 1: "map_waiters (v(a := x)) = opt_waiters x + (\<Sum>b \<in> ?D - {a}. opt_waiters (v b))" .
  have "map_waiters v = (\<Sum>b \<in> ?D. opt_waiters (v b))"
    by (rule map_waiters_superset) (use assms in auto)
  also have "\<dots> = opt_waiters (v a) + (\<Sum>b \<in> ?D - {a}. opt_waiters (v b))"
    using assms by (intro sum.remove) auto
  finally show ?thesis
    by (simp add: 1 ac_simps)
qed

section \<open>The laws\<close>

lemma rec_set_fields [simp]:
  "tables (rec_set p m r) = tables r" "tglobals (rec_set p m r) = tglobals r"
  "recs (rec_set p m r) = (recs r)(p \<mapsto> m)" "rec_small (rec_set p m r) = rec_small r"
  "rec_lookup stripe (rec_set p m r) = rec_lookup stripe r"
  by (simp_all add: rec_set_def rec_small_def rec_lookup_def [abs_def])

lemma rec_lookup_recs [simp]: "rec_lookup stripe (r\<lparr>recs := x\<rparr>) = rec_lookup stripe r"
  by (simp add: rec_lookup_def [abs_def])

lemma rec_store_tables: "rec_store_ok stripe r \<Longrightarrow> rec_tables_ok stripe r"
  unfolding rec_store_ok_def by blast

lemma rec_record:
  assumes "rec_store_ok stripe r" "rec_lookup stripe r a = Some p"
  obtains m where "recs r p = Some m" "rec_view stripe r a = Some m"
proof -
  have "p \<in> dom (recs r)"
    using assms by (auto simp: rec_store_ok_def ran_def)
  then show ?thesis
    using that assms(2) by (auto simp: rec_view_def)
qed

lemma rec_view_None:
  assumes "rec_store_ok stripe r"
  shows "rec_view stripe r a = None \<longleftrightarrow> rec_lookup stripe r a = None"
proof (cases "rec_lookup stripe r a")
  case None
  then show ?thesis by (simp add: rec_view_def)
next
  case (Some p)
  then obtain m where "rec_view stripe r a = Some m"
    by (rule rec_record [OF assms])
  then show ?thesis using Some by simp
qed

lemma rec_view_finite: "rec_store_ok stripe r \<Longrightarrow> finite (dom (rec_view stripe r))"
proof -
  assume ok: "rec_store_ok stripe r"
  then have "dom (rec_view stripe r) = dom (rec_lookup stripe r)"
    using rec_view_None [OF ok] by (simp add: dom_def)
  then show ?thesis
    using ok by (simp add: rec_store_ok_def)
qed

lemma rec_set_ok:
  assumes ok: "rec_store_ok stripe r" and p: "rec_lookup stripe r a = Some p"
  shows "rec_store_ok stripe (rec_set p m r)" "rec_view stripe (rec_set p m r) = (rec_view stripe r)(a \<mapsto> m)"
proof -
  have "p \<in> dom (recs r)"
    using assms by (auto simp: rec_store_ok_def ran_def)
  then have "dom (recs (rec_set p m r)) = dom (recs r)"
    by auto
  moreover have "rec_tables_ok stripe (rec_set p m r) = rec_tables_ok stripe r"
    by (simp add: rec_tables_ok_def)
  ultimately show "rec_store_ok stripe (rec_set p m r)"
    using ok unfolding rec_store_ok_def rec_set_fields by blast
  have "rec_lookup stripe r b = Some p \<longleftrightarrow> b = a" for b
    using ok p unfolding rec_store_ok_def by blast
  then have "rec_lookup stripe r b \<noteq> Some p" if "b \<noteq> a" for b
    using that by blast
  then have "rec_view stripe (rec_set p m r) b = ((rec_view stripe r)(a \<mapsto> m)) b" for b
    using p by (cases "b = a"; cases "rec_lookup stripe r b") (auto simp: rec_view_def)
  then show "rec_view stripe (rec_set p m r) = (rec_view stripe r)(a \<mapsto> m)"
    by (rule ext)
qed

locale record_table =
  fixes stripe :: "u64 \<Rightarrow> nat"
  assumes stripe_less: "stripe a < QTHREAD_LOCKING_STRIPES"
begin

lemma rstripe_inv: "rec_tables_ok stripe r \<Longrightarrow> hash_inv (tglobals r) (tables r ! stripe a)"
  using stripe_less [of a] by (simp add: rec_tables_ok_def)

lemma rlookup_good: "rec_tables_ok stripe r \<Longrightarrow> rec_lookup stripe r a = Some p \<Longrightarrow> good_addr a \<and> p \<noteq> 0"
  unfolding rec_tables_ok_def rec_lookup_def using stripe_less by blast

lemma rlookup_nonnull: "rec_store_ok stripe r \<Longrightarrow> rec_lookup stripe r a = Some p \<Longrightarrow> p \<noteq> 0"
  using rlookup_good [OF rec_store_tables] by blast

lemma rget_ok:
  assumes "rec_store_ok stripe r" "good_addr a"
  shows "rec_get stripe a r = Some (case rec_lookup stripe r a of None \<Rightarrow> 0 | Some p \<Rightarrow> p)"
  unfolding rec_get_def rec_lookup_def
  using assms by (intro hashmap.get_law rstripe_inv good_addr_key) (simp_all add: rec_store_ok_def)

text \<open>Replacing one table changes the lookup of one address.\<close>

lemma rstripe_update:
  assumes "rec_tables_ok stripe r" "good_addr a" "hash_inv (tglobals r) h"
    "hmap h = (hmap (tables r ! stripe a))(a := v)" "v \<noteq> Some 0"
  shows "rec_tables_ok stripe (r\<lparr>tables := (tables r)[stripe a := h], recs := st\<rparr>)"
    and "rec_lookup stripe (r\<lparr>tables := (tables r)[stripe a := h], recs := st\<rparr>) = (rec_lookup stripe r)(a := v)"
proof -
  have len: "stripe a < length (tables r)"
    using assms(1) stripe_less [of a] by (simp add: rec_tables_ok_def)
  show "rec_tables_ok stripe (r\<lparr>tables := (tables r)[stripe a := h], recs := st\<rparr>)"
    using assms len by (auto simp: rec_tables_ok_def nth_list_update split: if_splits)
  show "rec_lookup stripe (r\<lparr>tables := (tables r)[stripe a := h], recs := st\<rparr>) = (rec_lookup stripe r)(a := v)"
  proof
    fix b
    show "rec_lookup stripe (r\<lparr>tables := (tables r)[stripe a := h], recs := st\<rparr>) b
        = ((rec_lookup stripe r)(a := v)) b"
      using assms(4) len by (cases "stripe b = stripe a") (auto simp: rec_lookup_def)
  qed
qed

lemma rput_ok:
  assumes ok: "rec_store_ok stripe r" "rec_small r" "good_addr a" "rec_lookup stripe r a = None"
    and p: "p \<noteq> 0" "recs r p = None"
  obtains r' where "rec_put stripe a p m r = Some r'" "rec_store_ok stripe r'"
    "rec_view stripe r' = (rec_view stripe r)(a \<mapsto> m)" "rec_lookup stripe r' a = Some p"
proof -
  have st: "rec_tables_ok stripe r"
    using ok(1) by (simp add: rec_store_ok_def)
  have "table_small (tables r ! stripe a)"
    using ok(2) stripe_less [of a] by (simp add: rec_small_def)
  from hashmap.put_law [OF rstripe_inv [OF st] this good_addr_key [OF ok(3)]] ok(4)
  obtain h where h: "qt_hash_put_locked (tglobals r) (tables r ! stripe a) a p = Some (h, 1)"
    "hash_inv (tglobals r) h" "hmap h = (hmap (tables r ! stripe a))(a \<mapsto> p)"
    by (auto simp: rec_lookup_def)
  let ?r = "r\<lparr>tables := (tables r)[stripe a := h], recs := (recs r)(p \<mapsto> m)\<rparr>"
  note upd = rstripe_update [OF st ok(3) h(2,3), simplified, OF p(1)]
  have no: "rec_lookup stripe r b \<noteq> Some p" for b
    using rec_record [OF ok(1), of b p] p(2) by force
  have "rec_store_ok stripe ?r"
    using ok(1,4) no p upd unfolding rec_store_ok_def by (auto simp: ran_map_upd)
  moreover have "rec_view stripe ?r = (rec_view stripe r)(a \<mapsto> m)"
    using no by (auto simp: rec_view_def upd(2) fun_eq_iff split: Option.bind_splits)
  moreover have "rec_put stripe a p m r = Some ?r"
    using h(1) by (simp add: rec_put_def rec_set_def)
  ultimately show ?thesis
    using that upd(2) by simp
qed

lemma rremove_ok:
  assumes ok: "rec_store_ok stripe r" "rec_small r" "good_addr a" "rec_lookup stripe r a = Some p"
  obtains r' where "rec_remove stripe a p r = Some r'" "rec_store_ok stripe r'"
    "rec_view stripe r' = (rec_view stripe r)(a := None)"
proof -
  have st: "rec_tables_ok stripe r"
    using ok(1) by (simp add: rec_store_ok_def)
  have "table_small (tables r ! stripe a)"
    using ok(2) stripe_less [of a] by (simp add: rec_small_def)
  from hashmap.remove_law [OF rstripe_inv [OF st] this good_addr_key [OF ok(3)]] ok(4)
  obtain h where h: "qt_hash_remove_locked (tglobals r) (tables r ! stripe a) a = Some (h, 1)"
    "hash_inv (tglobals r) h" "hmap h = (hmap (tables r ! stripe a))(a := None)"
    by (auto simp: rec_lookup_def)
  let ?r = "r\<lparr>tables := (tables r)[stripe a := h], recs := (recs r)(p := None)\<rparr>"
  note upd = rstripe_update [OF st ok(3) h(2,3), simplified]
  have other: "rec_lookup stripe r b = Some p \<longleftrightarrow> b = a" for b
    using ok(1,4) unfolding rec_store_ok_def by blast
  have "ran ((rec_lookup stripe r)(a := None)) = ran (rec_lookup stripe r) - {p}"
    using other by (auto simp: ran_def) (metis option.inject)
  then have "rec_store_ok stripe ?r"
    using ok(1) upd unfolding rec_store_ok_def by (auto split: if_splits)
  moreover have "rec_view stripe ?r = (rec_view stripe r)(a := None)"
    using other by (auto simp: rec_view_def upd(2) fun_eq_iff split: Option.bind_splits)
  moreover have "rec_remove stripe a p r = Some ?r"
    using h(1) by (simp add: rec_remove_def)
  ultimately show ?thesis
    using that by simp
qed

end

interpretation feb_records: record_table QTHREAD_CHOOSE_STRIPE2
  by unfold_locales (rule choose_stripe_less)

end
