(* ===== verification/Syncvar.thy ===== *)
theory Syncvar
  imports Records
begin

text \<open>
  The syncvars of \<open>src/src/syncvar.c\<close>. A syncvar is a 64-bit word that holds 60 bits of data,
  three state bits and a lock bit. The state tells whether the variable is full and whether
  threads are queued on it; their records are kept in a striped hash table, as for the
  full/empty bits, but only while threads wait.

  An operation first takes the lock bit with \<open>qthread_mwaitc\<close>, which spins until the
  variable is unlocked and in a state of interest or a number of attempts is used up. The
  loop is modelled over the sequence of values the word has at its accesses, so that other
  threads may change it in between. The operations themselves are atomic: nobody else holds
  the lock bit. A blocking operation has two parts, the attempt to find the variable in the
  wanted state and the one that queues the thread; between the two other threads may run, so
  the second part is a definition of its own (\<open>_wait\<close>) that starts from any state.

  A failed allocation runs into an assertion. The address of the local variable in which a
  blocked \<open>qthread_syncvar_readFE\<close> receives its value is an argument (\<open>retp\<close>).
\<close>

section \<open>The word\<close>

definition sv_lock :: "u64 \<Rightarrow> bool" where
  "sv_lock w = bit w 0"

definition sv_state_bits :: "u64 \<Rightarrow> u64" where
  "sv_state_bits w = drop_bit 1 w AND 7"

definition sv_data :: "u64 \<Rightarrow> u64" where
  "sv_data w = drop_bit 4 w"

definition BUILD_UNLOCKED_SYNCVAR :: "u64 \<Rightarrow> u64 \<Rightarrow> u64" where
  "BUILD_UNLOCKED_SYNCVAR data state = push_bit 4 data OR push_bit 1 state"

definition SYNCFEB_FULL :: u64 where "SYNCFEB_FULL = 0x3"
definition SYNCFEB_EMPTY :: u64 where "SYNCFEB_EMPTY = 0xc"
definition SYNCFEB_ANY :: u64 where "SYNCFEB_ANY = 0xf"
definition INITIAL_TIMEOUT :: nat where "INITIAL_TIMEOUT = 100"
definition INT_MAX :: nat where "INT_MAX = 2147483647"
definition SYNCFEB_STATE_FULL_NO_WAITERS :: u64 where "SYNCFEB_STATE_FULL_NO_WAITERS = 0"
definition SYNCFEB_STATE_FULL_WITH_WAITERS :: u64 where "SYNCFEB_STATE_FULL_WITH_WAITERS = 1"
definition SYNCFEB_STATE_EMPTY_NO_WAITERS :: u64 where "SYNCFEB_STATE_EMPTY_NO_WAITERS = 2"
definition SYNCFEB_STATE_EMPTY_WITH_WAITERS :: u64 where "SYNCFEB_STATE_EMPTY_WITH_WAITERS = 3"

text \<open>\<open>(pf << 1) | sf\<close>\<close>

definition state_of :: "bool \<Rightarrow> bool \<Rightarrow> u64" where
  "state_of pf sf = push_bit 1 (of_bool pf) OR of_bool sf"

record eflags =
  cf :: bool
  off :: bool
  pf :: bool
  sf :: bool

text \<open>The conversions of \<open>qthread.h\<close> between signed 64-bit values and the 60-bit data field.\<close>

definition INT64TOINT60 :: "u64 \<Rightarrow> u64" where
  "INT64TOINT60 x = x AND 0xfffffffffffffff"

definition INT60TOINT64 :: "u64 \<Rightarrow> u64" where
  "INT60TOINT64 x = (if x AND 0x800000000000000 \<noteq> 0 then x OR 0xf800000000000000 else x)"

section \<open>State\<close>

record 'q sv_state =
  sv_initialized :: bool
  store :: rec_store
  smem :: "u64 \<Rightarrow> u64"
  sthreads :: "tid \<Rightarrow> qthread"
  sready :: 'q

datatype sv_blocker_type =
  SV_WRITEEF | SV_WRITEEF_NB | SV_WRITEF | SV_READFF | SV_READFF_NB | SV_READFE | SV_READFE_NB
  | SV_FILL | SV_EMPTY | SV_INCR

text \<open>
  How a call ends: with a value, with the thread queued, or, outside of a qthread, with the
  operation handed to a new qthread, whose result is awaited or not.
\<close>

datatype sv_outcome = SvRet int | SvBlocked | SvAwait sv_blocker_type u64 u64
  | SvDetached sv_blocker_type u64 u64

definition QTHREAD_CHOOSE_STRIPE :: "u64 \<Rightarrow> nat" where
  "QTHREAD_CHOOSE_STRIPE addr = unat (drop_bit 4 addr AND of_nat (QTHREAD_LOCKING_STRIPES - 1))"

definition qt_syncvar_subsystem_init :: "hash_globals \<Rightarrow> bool \<Rightarrow> (u64 \<Rightarrow> u64) \<Rightarrow> (tid \<Rightarrow> qthread)
    \<Rightarrow> 'q \<Rightarrow> 'q sv_state" where
  "qt_syncvar_subsystem_init g need_sync memory ths q =
     \<lparr>sv_initialized = True,
      store = \<lparr>tglobals = g, tables = map (\<lambda>_. qt_hash_create g need_sync) [0..<QTHREAD_LOCKING_STRIPES],
               recs = Map.empty\<rparr>,
      smem = memory, sthreads = ths, sready = q\<rparr>"

definition set_word :: "u64 \<Rightarrow> u64 \<Rightarrow> 'q sv_state \<Rightarrow> 'q sv_state" where
  "set_word a w s = s\<lparr>smem := (smem s)(a := w)\<rparr>"

definition UNLOCK_THIS_MODIFIED_SYNCVAR :: "u64 \<Rightarrow> u64 \<Rightarrow> u64 \<Rightarrow> 'q sv_state \<Rightarrow> 'q sv_state" where
  "UNLOCK_THIS_MODIFIED_SYNCVAR addr val state = set_word addr (BUILD_UNLOCKED_SYNCVAR val state)"

definition UNLOCK_THIS_UNMODIFIED_SYNCVAR :: "u64 \<Rightarrow> 'q sv_state \<Rightarrow> 'q sv_state" where
  "UNLOCK_THIS_UNMODIFIED_SYNCVAR addr s = set_word addr (smem s addr AND NOT 1) s"

text \<open>\<open>if (dest) *dest = x\<close>\<close>

definition store_to :: "u64 \<Rightarrow> u64 \<Rightarrow> 'q sv_state \<Rightarrow> 'q sv_state" where
  "store_to d x s = (if d = 0 then s else set_word d x s)"

section \<open>Taking the lock bit\<close>

text \<open>
  \<open>env k\<close> is the value of the word at the \<open>k\<close>-th access of the loop; the result is the
  access at which the word was locked and its value there, or \<open>None\<close> after a timeout.
\<close>

fun mwaitc_loop :: "(nat \<Rightarrow> u64) \<Rightarrow> u64 \<Rightarrow> nat \<Rightarrow> nat \<Rightarrow> u64 \<Rightarrow> (nat \<times> u64) option" where
  "mwaitc_loop env statemask timeout i tmp =
     (if sv_lock tmp then
        (case timeout of 0 \<Rightarrow> None
         | Suc t \<Rightarrow> mwaitc_loop env statemask t (Suc i) (env i))
      else if env i = tmp then
        (if statemask AND push_bit (unat (sv_state_bits tmp)) 1 \<noteq> 0 then Some (i, tmp)
         else case timeout of 0 \<Rightarrow> None
         | Suc t \<Rightarrow> mwaitc_loop env statemask t (Suc (Suc i)) (env (Suc i)))
      else
        (case timeout of 0 \<Rightarrow> None
         | Suc t \<Rightarrow> mwaitc_loop env statemask t (Suc i) (env i)))"

declare mwaitc_loop.simps [simp del]

definition locked_flags :: "u64 \<Rightarrow> eflags" where
  "locked_flags w = \<lparr>cf = False, off = bit (sv_state_bits w) 2, pf = bit (sv_state_bits w) 1,
     sf = bit (sv_state_bits w) 0\<rparr>"

definition qthread_mwaitc :: "u64 \<Rightarrow> u64 \<Rightarrow> nat \<Rightarrow> 'q sv_state \<Rightarrow> ('q sv_state \<times> u64 \<times> eflags) option"
  where
  "qthread_mwaitc addr statemask timeout s =
     do {
       c_assert (timeout > 0);
       c_assert (addr \<noteq> 0);
       case mwaitc_loop (\<lambda>_. smem s addr) statemask timeout 1 (smem s addr) of
         Some (_, w) \<Rightarrow> Some (set_word addr (w OR 1) s, sv_data w, locked_flags w)
       | None \<Rightarrow> Some (s, 0, \<lparr>cf = True, off = False, pf = False, sf = False\<rparr>)
     }"

definition qthread_syncvar_status :: "u64 \<Rightarrow> 'q sv_state \<Rightarrow> ('q sv_state \<times> int) option" where
  "qthread_syncvar_status v s =
     (let result = (\<lambda>w. if sv_state_bits w AND 2 \<noteq> 0 then 0 else 1)
      in if \<not> sv_lock (smem s v) then Some (s, result (smem s v))
      else do {
        (s, _, e) \<leftarrow> qthread_mwaitc v 0xff INT_MAX s;
        c_assert (\<not> cf e);
        Some (UNLOCK_THIS_UNMODIFIED_SYNCVAR v s, result (smem s v))
      })"

section \<open>Records and wake-ups\<close>

definition sv_get :: "u64 \<Rightarrow> 'q sv_state \<Rightarrow> u64 option" where
  "sv_get addr s = rec_get QTHREAD_CHOOSE_STRIPE addr (store s)"

definition sv_upd_thread :: "tid \<Rightarrow> (qthread \<Rightarrow> qthread) \<Rightarrow> 'q sv_state \<Rightarrow> 'q sv_state" where
  "sv_upd_thread t f s = s\<lparr>sthreads := (sthreads s)(t := f (sthreads s t))\<rparr>"

definition qthread_syncvar_schedule :: "'q sched_ops \<Rightarrow> tid \<Rightarrow> shep_id \<Rightarrow> 'q sv_state \<Rightarrow> 'q sv_state option"
  where
  "qthread_syncvar_schedule ops w shep s =
     (let s = sv_upd_thread w (\<lambda>t. t\<lparr>thread_state := RUNNING\<rparr>) s;
          t = sthreads s w
      in if flags t AND QTHREAD_UNSTEALABLE \<noteq> 0
         then do { q \<leftarrow> tq_enqueue ops (shepherd_ptr t) w (flags t) (sready s);
                   Some (s\<lparr>sready := q\<rparr>) }
         else do { q \<leftarrow> spawn_or_enqueue ops shep w (flags t) (sready s);
                   Some (s\<lparr>sready := q\<rparr>) })"

definition qthread_syncvar_remove :: "u64 \<Rightarrow> 'q sv_state \<Rightarrow> 'q sv_state option" where
  "qthread_syncvar_remove maddr s =
     do {
       p \<leftarrow> sv_get maddr s;
       if p = 0 then Some s
       else do {
         m \<leftarrow> recs (store s) p;
         if FEQ m = [] \<and> EFQ m = [] \<and> FFQ m = [] then
           do { r \<leftarrow> rec_remove QTHREAD_CHOOSE_STRIPE maddr p (store s); Some (s\<lparr>store := r\<rparr>) }
         else Some s
       }
     }"

text \<open>Storing the record and, when it has no waiters left, removing it.\<close>

definition sv_settle :: "u64 \<Rightarrow> addrstat \<Rightarrow> u64 \<Rightarrow> 'q sv_state \<Rightarrow> 'q sv_state option" where
  "sv_settle p m maddr s =
     (let s = s\<lparr>store := rec_set p m (store s)\<rparr>
      in if EFQ m = [] \<and> FEQ m = [] \<and> FFQ m = [] then qthread_syncvar_remove maddr s else Some s)"

text \<open>Emptying releases one writer; its value goes into the variable, with the given state.\<close>

definition qthread_syncvar_gotlock_empty :: "'q sched_ops \<Rightarrow> shep_id \<Rightarrow> u64 \<Rightarrow> u64 \<Rightarrow> u64 \<Rightarrow> 'q sv_state
    \<Rightarrow> 'q sv_state option" where
  "qthread_syncvar_gotlock_empty ops shep p maddr sfv s =
     do {
       m \<leftarrow> recs (store s) p;
       let m = m\<lparr>full := False\<rparr>;
       case EFQ m of
         [] \<Rightarrow> sv_settle p m maddr s
       | X # Xs \<Rightarrow>
           do {
             s \<leftarrow> qthread_syncvar_schedule ops (waiter X) shep
               (if maddr \<noteq> 0 \<and> maddr \<noteq> raddr X
                then UNLOCK_THIS_MODIFIED_SYNCVAR maddr (smem s (raddr X)) sfv s else s);
             sv_settle p (m\<lparr>EFQ := Xs\<rparr>) maddr s
           }
     }"

fun release_readers :: "'q sched_ops \<Rightarrow> shep_id \<Rightarrow> u64 \<Rightarrow> addrres list \<Rightarrow> 'q sv_state \<Rightarrow> 'q sv_state option"
  where
  "release_readers ops shep ret [] s = Some s"
| "release_readers ops shep ret (X # Xs) s =
     do { s \<leftarrow> qthread_syncvar_schedule ops (waiter X) shep (store_to (raddr X) ret s);
          release_readers ops shep ret Xs s }"

text \<open>Filling releases all readers of \<open>FFQ\<close> and one of \<open>FEQ\<close>.\<close>

definition qthread_syncvar_gotlock_fill :: "'q sched_ops \<Rightarrow> shep_id \<Rightarrow> u64 \<Rightarrow> u64 \<Rightarrow> u64 \<Rightarrow> 'q sv_state
    \<Rightarrow> 'q sv_state option" where
  "qthread_syncvar_gotlock_fill ops shep p maddr ret s =
     do {
       m \<leftarrow> recs (store s) p;
       let m = m\<lparr>full := True\<rparr>;
       s \<leftarrow> release_readers ops shep ret (FFQ m) s;
       case FEQ m of
         [] \<Rightarrow> sv_settle p (m\<lparr>FFQ := []\<rparr>) maddr s
       | X # Xs \<Rightarrow>
           do { s \<leftarrow> release_readers ops shep ret [X] s;
                sv_settle p (m\<lparr>FFQ := [], FEQ := Xs\<rparr>) maddr s }
     }"

text \<open>
  The blocks shared by the operations: releasing those who wait for the variable to become
  full, with the value \<open>val\<close>, and those who wait for it to become empty. The assertions on
  the queues of the record are an argument, since they differ.
\<close>

definition fill_waiters :: "'q sched_ops \<Rightarrow> (addrstat \<Rightarrow> bool) \<Rightarrow> shep_id \<Rightarrow> u64 \<Rightarrow> u64 \<Rightarrow> 'q sv_state
    \<Rightarrow> 'q sv_state option" where
  "fill_waiters ops queues_ok shep addr val s =
     do {
       p \<leftarrow> sv_get addr s;
       c_assert (p \<noteq> 0);
       m \<leftarrow> recs (store s) p;
       c_assert (queues_ok m);
       qthread_syncvar_gotlock_fill ops shep p addr val
         (UNLOCK_THIS_MODIFIED_SYNCVAR addr val
            (state_of (FEQ m \<noteq> []) (FEQ m \<noteq> [] \<and> tl (FEQ m) \<noteq> [])) s)
     }"

definition readers_only :: "addrstat \<Rightarrow> bool" where
  "readers_only m \<longleftrightarrow> (FFQ m \<noteq> [] \<or> FEQ m \<noteq> []) \<and> EFQ m = []"

definition empty_waiters :: "'q sched_ops \<Rightarrow> shep_id \<Rightarrow> u64 \<Rightarrow> 'q sv_state \<Rightarrow> 'q sv_state option" where
  "empty_waiters ops shep addr s =
     do {
       p \<leftarrow> sv_get addr s;
       c_assert (p \<noteq> 0);
       m \<leftarrow> recs (store s) p;
       c_assert (EFQ m \<noteq> []);
       c_assert (FFQ m = [] \<and> FEQ m = []);
       qthread_syncvar_gotlock_empty ops shep p addr (of_bool (tl (EFQ m) \<noteq> [])) s
     }"

definition sv_find_or_create :: "u64 \<Rightarrow> u64 \<Rightarrow> 'q sv_state \<Rightarrow> ('q sv_state \<times> u64) option" where
  "sv_find_or_create newp addr s =
     do {
       p \<leftarrow> sv_get addr s;
       if p \<noteq> 0 then Some (s, p)
       else do {
         c_assert (newp \<noteq> 0);
         r \<leftarrow> rec_put QTHREAD_CHOOSE_STRIPE addr newp qthread_addrstat_new (store s);
         Some (s\<lparr>store := r\<rparr>, newp) }
     }"

text \<open>The thread queues itself on the record (with \<open>enq\<close>) and leaves for its shepherd.\<close>

definition sv_block :: "tid \<Rightarrow> u64 \<Rightarrow> u64 \<Rightarrow> u64 \<Rightarrow> u64 \<Rightarrow> (addrstat \<Rightarrow> addrstat) \<Rightarrow> 'q sv_state
    \<Rightarrow> ('q sv_state \<times> sv_outcome) option" where
  "sv_block me newp addr ret state enq s =
     do {
       (s, p) \<leftarrow> sv_find_or_create newp addr s;
       m \<leftarrow> recs (store s) p;
       let s = UNLOCK_THIS_MODIFIED_SYNCVAR addr ret state s;
       let s = s\<lparr>store := rec_set p (enq m) (store s)\<rparr>;
       Some (sv_upd_thread me (\<lambda>t. t\<lparr>thread_state := FEB_BLOCKED, blockedon := p\<rparr>) s, SvBlocked)
     }"

section \<open>Reading\<close>

definition readFF_locked :: "u64 \<Rightarrow> u64 \<Rightarrow> u64 \<Rightarrow> eflags \<Rightarrow> 'q sv_state \<Rightarrow> ('q sv_state \<times> sv_outcome) option"
  where
  "readFF_locked dest src ret e s =
     do { c_assert (\<not> pf e);
          Some (store_to dest ret (UNLOCK_THIS_MODIFIED_SYNCVAR src ret (of_bool (sf e)) s),
                SvRet QTHREAD_SUCCESS) }"

definition readFF_wait :: "tid \<Rightarrow> u64 \<Rightarrow> u64 \<Rightarrow> u64 \<Rightarrow> 'q sv_state \<Rightarrow> ('q sv_state \<times> sv_outcome) option" where
  "readFF_wait me newp dest src s =
     do {
       (s, ret, e) \<leftarrow> qthread_mwaitc src SYNCFEB_ANY INT_MAX s;
       c_assert (\<not> cf e);
       if \<not> pf e then readFF_locked dest src ret e s
       else sv_block me newp src ret SYNCFEB_STATE_EMPTY_WITH_WAITERS
              (\<lambda>m. m\<lparr>FFQ := \<lparr>raddr = dest, waiter = me\<rparr> # FFQ m\<rparr>) s
     }"

text \<open>The shortcut of both \<open>readFF\<close> operations: the variable is full and nobody holds the lock.\<close>

definition full_unlocked :: "u64 \<Rightarrow> bool" where
  "full_unlocked w \<longleftrightarrow> \<not> sv_lock w \<and> sv_state_bits w AND 2 = 0"

definition qthread_syncvar_readFF :: "tid option \<Rightarrow> u64 \<Rightarrow> u64 \<Rightarrow> u64 \<Rightarrow> 'q sv_state
    \<Rightarrow> ('q sv_state \<times> sv_outcome) option" where
  "qthread_syncvar_readFF me newp dest src s =
     do {
       c_assert (sv_initialized s);
       c_assert (src \<noteq> 0);
       case me of None \<Rightarrow> Some (s, SvAwait SV_READFF dest src)
       | Some me \<Rightarrow>
         (if full_unlocked (smem s src)
          then Some (store_to dest (sv_data (smem s src)) s, SvRet QTHREAD_SUCCESS)
          else do {
            (s, ret, e) \<leftarrow> qthread_mwaitc src SYNCFEB_FULL INITIAL_TIMEOUT s;
            if cf e then readFF_wait me newp dest src s else readFF_locked dest src ret e s
          })
     }"

definition qthread_syncvar_readFF_nb :: "tid option \<Rightarrow> u64 \<Rightarrow> u64 \<Rightarrow> 'q sv_state
    \<Rightarrow> ('q sv_state \<times> sv_outcome) option" where
  "qthread_syncvar_readFF_nb me dest src s =
     do {
       c_assert (src \<noteq> 0);
       case me of None \<Rightarrow> Some (s, SvAwait SV_READFF_NB dest src)
       | Some me \<Rightarrow>
         (if full_unlocked (smem s src)
          then Some (store_to dest (sv_data (smem s src)) s, SvRet QTHREAD_SUCCESS)
          else do {
            (s, ret, e) \<leftarrow> qthread_mwaitc src SYNCFEB_FULL 1 s;
            if cf e then Some (s, SvRet QTHREAD_OPFAIL) else readFF_locked dest src ret e s
          })
     }"

text \<open>
  The variable is locked and full, with writers queued (\<open>sf\<close>) or not: a queued writer fills
  it again at once.
\<close>

definition readFE_locked :: "'q sched_ops \<Rightarrow> tid \<Rightarrow> u64 \<Rightarrow> u64 \<Rightarrow> u64 \<Rightarrow> eflags \<Rightarrow> 'q sv_state
    \<Rightarrow> ('q sv_state \<times> sv_outcome) option" where
  "readFE_locked ops me dest src ret e s =
     do {
       c_assert (\<not> pf e);
       s \<leftarrow> (if sf e then empty_waiters ops (shepherd_ptr (sthreads s me)) src s
             else Some (UNLOCK_THIS_MODIFIED_SYNCVAR src ret SYNCFEB_STATE_EMPTY_NO_WAITERS s));
       Some (store_to dest ret s, SvRet QTHREAD_SUCCESS)
     }"

definition readFE_wait :: "'q sched_ops \<Rightarrow> tid \<Rightarrow> u64 \<Rightarrow> u64 \<Rightarrow> u64 \<Rightarrow> u64 \<Rightarrow> 'q sv_state
    \<Rightarrow> ('q sv_state \<times> sv_outcome) option" where
  "readFE_wait ops me newp retp dest src s =
     do {
       (s, ret, e) \<leftarrow> qthread_mwaitc src SYNCFEB_ANY INT_MAX s;
       c_assert (\<not> cf e);
       if \<not> pf e then readFE_locked ops me dest src ret e s
       else sv_block me newp src ret SYNCFEB_STATE_EMPTY_WITH_WAITERS
              (\<lambda>m. m\<lparr>FEQ := \<lparr>raddr = retp, waiter = me\<rparr> # FEQ m\<rparr>) s
     }"

definition qthread_syncvar_readFE :: "'q sched_ops \<Rightarrow> tid option \<Rightarrow> u64 \<Rightarrow> u64 \<Rightarrow> u64 \<Rightarrow> u64 \<Rightarrow> 'q sv_state
    \<Rightarrow> ('q sv_state \<times> sv_outcome) option" where
  "qthread_syncvar_readFE ops me newp retp dest src s =
     do {
       c_assert (sv_initialized s);
       c_assert (src \<noteq> 0);
       case me of None \<Rightarrow> Some (s, SvAwait SV_READFE dest src)
       | Some me \<Rightarrow>
         do {
           (s, ret, e) \<leftarrow> qthread_mwaitc src SYNCFEB_FULL INITIAL_TIMEOUT s;
           if cf e then readFE_wait ops me newp retp dest src s
           else readFE_locked ops me dest src ret e s
         }
     }"

text \<open>What a blocked \<open>qthread_syncvar_readFE\<close> does when it runs again.\<close>

definition readFE_resume :: "u64 \<Rightarrow> u64 \<Rightarrow> 'q sv_state \<Rightarrow> 'q sv_state" where
  "readFE_resume retp dest s = store_to dest (smem s retp) s"

definition qthread_syncvar_readFE_nb :: "'q sched_ops \<Rightarrow> tid option \<Rightarrow> u64 \<Rightarrow> u64 \<Rightarrow> 'q sv_state
    \<Rightarrow> ('q sv_state \<times> sv_outcome) option" where
  "qthread_syncvar_readFE_nb ops me dest src s =
     do {
       c_assert (src \<noteq> 0);
       case me of None \<Rightarrow> Some (s, SvAwait SV_READFE_NB dest src)
       | Some me \<Rightarrow>
         do {
           (s, ret, e) \<leftarrow> qthread_mwaitc src SYNCFEB_FULL 1 s;
           if cf e then Some (s, SvRet QTHREAD_OPFAIL)
           else readFE_locked ops me dest src ret e s
         }
     }"

section \<open>Filling and emptying\<close>

definition qthread_syncvar_fill :: "'q sched_ops \<Rightarrow> shep_id option \<Rightarrow> u64 \<Rightarrow> 'q sv_state
    \<Rightarrow> ('q sv_state \<times> sv_outcome) option" where
  "qthread_syncvar_fill ops shep addr s =
     do {
       c_assert (sv_initialized s);
       c_assert (addr \<noteq> 0);
       case shep of None \<Rightarrow> Some (s, SvDetached SV_FILL addr 0)
       | Some shep \<Rightarrow>
         do {
           (s, ret, e) \<leftarrow> qthread_mwaitc addr SYNCFEB_ANY INT_MAX s;
           c_assert (\<not> cf e);
           s \<leftarrow> (if pf e then
                   (if sf e then fill_waiters ops readers_only shep addr ret s
                    else Some (UNLOCK_THIS_MODIFIED_SYNCVAR addr ret 0 s))
                 else Some (UNLOCK_THIS_MODIFIED_SYNCVAR addr ret (of_bool (sf e)) s));
           Some (s, SvRet QTHREAD_SUCCESS)
         }
     }"

definition qthread_syncvar_empty :: "'q sched_ops \<Rightarrow> shep_id option \<Rightarrow> u64 \<Rightarrow> 'q sv_state
    \<Rightarrow> ('q sv_state \<times> sv_outcome) option" where
  "qthread_syncvar_empty ops shep addr s =
     do {
       c_assert (sv_initialized s);
       c_assert (addr \<noteq> 0);
       case shep of None \<Rightarrow> Some (s, SvDetached SV_EMPTY addr 0)
       | Some shep \<Rightarrow>
         do {
           (s, ret, e) \<leftarrow> qthread_mwaitc addr SYNCFEB_ANY INT_MAX s;
           c_assert (\<not> cf e);
           s \<leftarrow> (if \<not> pf e then
                   (if sf e then empty_waiters ops shep addr s
                    else Some (UNLOCK_THIS_MODIFIED_SYNCVAR addr ret SYNCFEB_STATE_EMPTY_NO_WAITERS s))
                 else Some (UNLOCK_THIS_MODIFIED_SYNCVAR addr ret
                              (SYNCFEB_STATE_EMPTY_NO_WAITERS OR of_bool (sf e)) s));
           Some (s, SvRet QTHREAD_SUCCESS)
         }
     }"

section \<open>Writing\<close>

definition qthread_syncvar_writeF :: "'q sched_ops \<Rightarrow> shep_id option \<Rightarrow> u64 \<Rightarrow> u64 \<Rightarrow> 'q sv_state
    \<Rightarrow> ('q sv_state \<times> sv_outcome) option" where
  "qthread_syncvar_writeF ops shep dest src s =
     do {
       c_assert (sv_initialized s);
       let ret = smem s src;
       c_assert (drop_bit 60 ret = 0);
       case shep of None \<Rightarrow> Some (s, SvDetached SV_WRITEF dest src)
       | Some shep \<Rightarrow>
         do {
           (s, _, e) \<leftarrow> qthread_mwaitc dest SYNCFEB_ANY INT_MAX s;
           c_assert (\<not> cf e);
           s \<leftarrow> (if pf e \<and> sf e then fill_waiters ops readers_only shep dest ret s
                 else Some (UNLOCK_THIS_MODIFIED_SYNCVAR dest ret 0 s));
           Some (s, SvRet QTHREAD_SUCCESS)
         }
     }"

text \<open>The variable is locked and empty, with readers queued (\<open>sf\<close>) or not.\<close>

definition writeEF_locked :: "'q sched_ops \<Rightarrow> tid \<Rightarrow> u64 \<Rightarrow> u64 \<Rightarrow> eflags \<Rightarrow> 'q sv_state
    \<Rightarrow> ('q sv_state \<times> sv_outcome) option" where
  "writeEF_locked ops me dest src e s =
     do {
       c_assert (pf e);
       s \<leftarrow> (if sf e then fill_waiters ops readers_only (shepherd_ptr (sthreads s me)) dest (smem s src) s
             else Some (UNLOCK_THIS_MODIFIED_SYNCVAR dest (smem s src) SYNCFEB_STATE_FULL_NO_WAITERS s));
       Some (s, SvRet QTHREAD_SUCCESS)
     }"

definition writeEF_wait :: "'q sched_ops \<Rightarrow> tid \<Rightarrow> u64 \<Rightarrow> u64 \<Rightarrow> u64 \<Rightarrow> 'q sv_state
    \<Rightarrow> ('q sv_state \<times> sv_outcome) option" where
  "writeEF_wait ops me newp dest src s =
     do {
       (s, ret, e) \<leftarrow> qthread_mwaitc dest SYNCFEB_ANY INT_MAX s;
       c_assert (\<not> cf e);
       if pf e then writeEF_locked ops me dest src e s
       else sv_block me newp dest ret SYNCFEB_STATE_FULL_WITH_WAITERS
              (\<lambda>m. m\<lparr>EFQ := \<lparr>raddr = src, waiter = me\<rparr> # EFQ m\<rparr>) s
     }"

definition qthread_syncvar_writeEF :: "'q sched_ops \<Rightarrow> tid option \<Rightarrow> u64 \<Rightarrow> u64 \<Rightarrow> u64 \<Rightarrow> 'q sv_state
    \<Rightarrow> ('q sv_state \<times> sv_outcome) option" where
  "qthread_syncvar_writeEF ops me newp dest src s =
     do {
       c_assert (sv_initialized s);
       c_assert (drop_bit 60 (smem s src) = 0);
       case me of None \<Rightarrow> Some (s, SvAwait SV_WRITEEF dest src)
       | Some me \<Rightarrow>
         do {
           (s, _, e) \<leftarrow> qthread_mwaitc dest SYNCFEB_EMPTY INITIAL_TIMEOUT s;
           if cf e then writeEF_wait ops me newp dest src s else writeEF_locked ops me dest src e s
         }
     }"

definition qthread_syncvar_writeEF_nb :: "'q sched_ops \<Rightarrow> tid option \<Rightarrow> u64 \<Rightarrow> u64 \<Rightarrow> 'q sv_state
    \<Rightarrow> ('q sv_state \<times> sv_outcome) option" where
  "qthread_syncvar_writeEF_nb ops me dest src s =
     do {
       c_assert (drop_bit 60 (smem s src) = 0);
       case me of None \<Rightarrow> Some (s, SvAwait SV_WRITEEF_NB dest src)
       | Some me \<Rightarrow>
         do {
           (s, _, e) \<leftarrow> qthread_mwaitc dest SYNCFEB_EMPTY 1 s;
           if cf e then Some (s, SvRet QTHREAD_OPFAIL) else writeEF_locked ops me dest src e s
         }
     }"

text \<open>The operations that take a value store it in a local variable, at \<open>p\<close>, and pass its address.\<close>

definition qthread_syncvar_writeF_const :: "'q sched_ops \<Rightarrow> shep_id option \<Rightarrow> u64 \<Rightarrow> u64 \<Rightarrow> u64
    \<Rightarrow> 'q sv_state \<Rightarrow> ('q sv_state \<times> sv_outcome) option" where
  "qthread_syncvar_writeF_const ops shep p dest src s =
     do { c_assert (sv_initialized s); qthread_syncvar_writeF ops shep dest p (set_word p src s) }"

definition qthread_syncvar_writeEF_const :: "'q sched_ops \<Rightarrow> tid option \<Rightarrow> u64 \<Rightarrow> u64 \<Rightarrow> u64 \<Rightarrow> u64
    \<Rightarrow> 'q sv_state \<Rightarrow> ('q sv_state \<times> sv_outcome) option" where
  "qthread_syncvar_writeEF_const ops me newp p dest src s =
     do { c_assert (sv_initialized s); qthread_syncvar_writeEF ops me newp dest p (set_word p src s) }"

definition incrF_queues_ok :: "addrstat \<Rightarrow> bool" where
  "incrF_queues_ok m \<longleftrightarrow> (FFQ m \<noteq> [] \<or> EFQ m \<noteq> []) \<and> FEQ m = []"

definition qthread_syncvar_incrF :: "'q sched_ops \<Rightarrow> tid option \<Rightarrow> u64 \<Rightarrow> u64 \<Rightarrow> u64 \<Rightarrow> 'q sv_state
    \<Rightarrow> ('q sv_state \<times> sv_outcome) option" where
  "qthread_syncvar_incrF ops me incp operand inc s =
     do {
       c_assert (sv_initialized s);
       c_assert (operand \<noteq> 0);
       case me of None \<Rightarrow> Some (set_word incp inc s, SvAwait SV_INCR operand incp)
       | Some me \<Rightarrow>
         do {
           (s, _, e) \<leftarrow> qthread_mwaitc operand SYNCFEB_ANY INT_MAX s;
           c_assert (\<not> cf e);
           let newv = sv_data (smem s operand) + inc;
           s \<leftarrow> (if pf e \<and> sf e
                 then fill_waiters ops incrF_queues_ok (shepherd_ptr (sthreads s me)) operand newv s
                 else Some (UNLOCK_THIS_MODIFIED_SYNCVAR operand newv (state_of (pf e) (sf e)) s));
           Some (s, SvRet (uint newv))
         }
     }"

section \<open>Callers that are not qthreads\<close>

definition qthread_syncvar_blocker_thread :: "'q sched_ops \<Rightarrow> tid \<Rightarrow> u64 \<Rightarrow> u64 \<Rightarrow> sv_blocker_type
    \<Rightarrow> u64 \<Rightarrow> u64 \<Rightarrow> 'q sv_state \<Rightarrow> ('q sv_state \<times> sv_outcome) option" where
  "qthread_syncvar_blocker_thread ops me newp retp ty a b s =
     (let shep = Some (shepherd_ptr (sthreads s me))
      in case ty of
        SV_READFE \<Rightarrow> qthread_syncvar_readFE ops (Some me) newp retp a b s
      | SV_READFE_NB \<Rightarrow> qthread_syncvar_readFE_nb ops (Some me) a b s
      | SV_READFF \<Rightarrow> qthread_syncvar_readFF (Some me) newp a b s
      | SV_READFF_NB \<Rightarrow> qthread_syncvar_readFF_nb (Some me) a b s
      | SV_WRITEEF \<Rightarrow> qthread_syncvar_writeEF ops (Some me) newp a b s
      | SV_WRITEEF_NB \<Rightarrow> qthread_syncvar_writeEF_nb ops (Some me) a b s
      | SV_WRITEF \<Rightarrow> qthread_syncvar_writeF ops shep a b s
      | SV_FILL \<Rightarrow> qthread_syncvar_fill ops shep a s
      | SV_EMPTY \<Rightarrow> qthread_syncvar_empty ops shep a s
      | SV_INCR \<Rightarrow> qthread_syncvar_incrF ops (Some me) retp a (smem s b) s)"

text \<open>The value a caller outside of a qthread gets: the result passes through an \<open>int\<close>.\<close>

definition blocker_retval :: "u64 \<Rightarrow> u64" where
  "blocker_retval r = scast (ucast r :: 32 word)"

section \<open>Filtering the waiting tasks\<close>

definition qt_syncvar_call_tf :: "(u64 \<Rightarrow> tid \<Rightarrow> filter_code) \<Rightarrow> u64 \<Rightarrow> addrstat \<Rightarrow> addrstat option" where
  "qt_syncvar_call_tf tf addr m =
     do {
       ef \<leftarrow> filter_waiters (tf addr) (EFQ m);
       fe \<leftarrow> filter_waiters (tf addr) (FEQ m);
       ff \<leftarrow> filter_waiters (tf addr) (FFQ m);
       Some (m\<lparr>EFQ := ef, FEQ := fe, FFQ := ff\<rparr>)
     }"

fun sv_call_tf_all :: "(u64 \<Rightarrow> tid \<Rightarrow> filter_code) \<Rightarrow> (u64 \<times> u64) list \<Rightarrow> rec_store \<Rightarrow> rec_store option"
  where
  "sv_call_tf_all tf [] r = Some r"
| "sv_call_tf_all tf ((addr, p) # rest) r =
     do { m \<leftarrow> recs r p; m \<leftarrow> qt_syncvar_call_tf tf addr m; sv_call_tf_all tf rest (rec_set p m r) }"

definition qthread_syncvar_taskfilter :: "(u64 \<Rightarrow> tid \<Rightarrow> filter_code) \<Rightarrow> 'q sv_state \<Rightarrow> 'q sv_state option"
  where
  "qthread_syncvar_taskfilter tf s =
     do { r \<leftarrow> sv_call_tf_all tf (concat (map qt_hash_callback (tables (store s)))) (store s);
          Some (s\<lparr>store := r\<rparr>) }"

end
