(* ===== verification/Syncvar_Inv.thy ===== *)
theory Syncvar_Inv
  imports Syncvar
begin

text \<open>
  The invariant of the syncvars and the effect of their elementary steps: taking the lock
  bit, waking threads and settling a record.
\<close>

interpretation syncvar_records: record_table QTHREAD_CHOOSE_STRIPE
proof
  fix a :: u64
  have "drop_bit 4 a AND 127 \<le> (127 :: u64)"
    by (rule word_and_le1)
  then have "unat (drop_bit 4 a AND 127) \<le> unat (127 :: u64)"
    by (simp add: word_le_nat_alt)
  then show "QTHREAD_CHOOSE_STRIPE a < QTHREAD_LOCKING_STRIPES"
    by (simp add: QTHREAD_CHOOSE_STRIPE_def QTHREAD_LOCKING_STRIPES_def)
qed

section \<open>Bits of the word\<close>

lemma state_bits_state_of: "\<not> bit w 3 \<Longrightarrow> sv_state_bits w = state_of (bit w 2) (bit w 1)"
proof -
  assume w: "\<not> bit w 3"
  have "sv_state_bits w = take_bit 3 (drop_bit 1 w)"
    by (simp add: sv_state_bits_def take_bit_eq_mask mask_eq_exp_minus_1)
  also have "\<dots> = state_of (bit w 2) (bit w 1)"
  proof (rule bit_eqI)
    fix n :: nat
    consider "n = 0" | "n = 1" | "n = 2" | "\<not> n < 3" by linarith
    then show "bit (take_bit 3 (drop_bit 1 w)) n = bit (state_of (bit w 2) (bit w 1)) n"
      using w by cases (auto simp: state_of_def bit_simps numeral_3_eq_3 numeral_2_eq_2)
  qed
  finally show ?thesis .
qed

lemma state_of_cases:
  "state_of False False = 0" "state_of False True = 1" "state_of True False = 2" "state_of True True = 3"
  by (simp_all add: state_of_def)

lemma state_of_bool: "state_of p s = of_bool s + 2 * of_bool p"
  by (cases p; cases s) (simp_all add: state_of_cases)

lemma locked_flags_eq:
  "\<not> bit w 3 \<Longrightarrow> locked_flags w = \<lparr>cf = False, off = False, pf = bit w 2, sf = bit w 1\<rparr>"
  by (simp add: locked_flags_def state_bits_state_of)
    (cases "bit w 2"; cases "bit w 1"; simp add: state_of_cases bit_iff_odd)

lemma interest:
  assumes "\<not> bit w 3"
  shows "SYNCFEB_FULL AND push_bit (unat (sv_state_bits w)) 1 \<noteq> 0 \<longleftrightarrow> \<not> bit w 2"
    "SYNCFEB_EMPTY AND push_bit (unat (sv_state_bits w)) 1 \<noteq> 0 \<longleftrightarrow> bit w 2"
    "SYNCFEB_ANY AND push_bit (unat (sv_state_bits w)) 1 \<noteq> 0"
  by (cases "bit w 2"; cases "bit w 1";
      simp add: state_bits_state_of [OF assms] state_of_cases SYNCFEB_FULL_def SYNCFEB_EMPTY_def SYNCFEB_ANY_def)+

lemma state_full_bit: "\<not> bit w 3 \<Longrightarrow> sv_state_bits w AND 2 = 0 \<longleftrightarrow> \<not> bit w 2"
  by (cases "bit w 2"; cases "bit w 1"; simp add: state_bits_state_of state_of_cases)

lemma build_bits:
  "\<not> bit (BUILD_UNLOCKED_SYNCVAR x (state_of p s)) 0" "bit (BUILD_UNLOCKED_SYNCVAR x (state_of p s)) 1 = s"
  "bit (BUILD_UNLOCKED_SYNCVAR x (state_of p s)) 2 = p" "\<not> bit (BUILD_UNLOCKED_SYNCVAR x (state_of p s)) 3"
  by (cases p; cases s; simp add: BUILD_UNLOCKED_SYNCVAR_def state_of_cases bit_simps)+

lemmas build_bit_simps = build_bits build_bits(2) [unfolded One_nat_def]

lemma build_data: "sv_data (BUILD_UNLOCKED_SYNCVAR x (state_of p s)) = take_bit 60 x"
proof -
  have "drop_bit 4 (push_bit 1 (state_of p s)) = 0"
    by (cases p; cases s; simp add: state_of_cases)
  then show ?thesis
    by (simp add: sv_data_def BUILD_UNLOCKED_SYNCVAR_def)
      (rule bit_eqI, auto simp: bit_simps)
qed

lemma take_bit_data [simp]: "take_bit 60 (sv_data w) = sv_data w"
  by (rule bit_eqI) (auto simp: sv_data_def bit_simps dest: bit_imp_le_length)

lemma take_bit_small: "drop_bit 60 x = 0 \<Longrightarrow> take_bit 60 x = (x :: u64)"
  using bits_ident [of 60 x] by simp

lemmas sync_states = SYNCFEB_STATE_FULL_NO_WAITERS_def SYNCFEB_STATE_FULL_WITH_WAITERS_def
  SYNCFEB_STATE_EMPTY_NO_WAITERS_def SYNCFEB_STATE_EMPTY_WITH_WAITERS_def

section \<open>The abstract variable and the invariant\<close>

record svar =
  vfull :: bool
  vdata :: u64
  vEFQ :: "addrres list"
  vFEQ :: "addrres list"
  vFFQ :: "addrres list"

definition svar_of :: "u64 \<Rightarrow> addrstat option \<Rightarrow> svar" where
  "svar_of w mo = \<lparr>vfull = (\<not> bit w 2), vdata = sv_data w,
     vEFQ = (case mo of None \<Rightarrow> [] | Some m \<Rightarrow> EFQ m),
     vFEQ = (case mo of None \<Rightarrow> [] | Some m \<Rightarrow> FEQ m),
     vFFQ = (case mo of None \<Rightarrow> [] | Some m \<Rightarrow> FFQ m)\<rparr>"

abbreviation sv_recs :: "'q sv_state \<Rightarrow> u64 \<Rightarrow> addrstat option" where
  "sv_recs s \<equiv> rec_view QTHREAD_CHOOSE_STRIPE (store s)"

definition sv_view :: "'q sv_state \<Rightarrow> u64 \<Rightarrow> svar" where
  "sv_view s a = svar_of (smem s a) (sv_recs s a)"

text \<open>
  The word and the record of a variable agree: it is unlocked, it has a record just when the
  state says that threads wait, writers wait only on a full variable and readers only on an
  empty one, and what they read into or write from are not syncvars (the set \<open>V\<close>).
\<close>

definition no_waiters :: "addrstat \<Rightarrow> bool" where
  "no_waiters m \<longleftrightarrow> EFQ m = [] \<and> FEQ m = [] \<and> FFQ m = []"

definition entry_ok :: "u64 set \<Rightarrow> u64 \<Rightarrow> addrstat option \<Rightarrow> bool" where
  "entry_ok V w mo \<longleftrightarrow> \<not> bit w 0 \<and> \<not> bit w 3 \<and> (bit w 1 \<longleftrightarrow> mo \<noteq> None) \<and>
     (\<forall>m. mo = Some m \<longrightarrow> \<not> no_waiters m \<and>
        (if bit w 2 then EFQ m = [] else FEQ m = [] \<and> FFQ m = []) \<and>
        (\<forall>X \<in> set (EFQ m @ FEQ m @ FFQ m). raddr X \<notin> V))"

definition sv_sched :: "('q \<Rightarrow> bool) \<Rightarrow> ('q \<Rightarrow> nat) \<Rightarrow> 'q sv_state \<Rightarrow> bool" where
  "sv_sched qinv nsheps s \<longleftrightarrow> qinv (sready s) \<and> (\<forall>t. thread_ok (nsheps (sready s)) (sthreads s t))"

definition sv_inv :: "('q \<Rightarrow> bool) \<Rightarrow> ('q \<Rightarrow> nat) \<Rightarrow> u64 set \<Rightarrow> 'q sv_state \<Rightarrow> bool" where
  "sv_inv qinv nsheps V s \<longleftrightarrow> sv_initialized s \<and> rec_store_ok QTHREAD_CHOOSE_STRIPE (store s) \<and>
     (\<forall>a \<in> V. good_addr a \<and> entry_ok V (smem s a) (sv_recs s a)) \<and>
     (\<forall>a. a \<notin> V \<longrightarrow> sv_recs s a = None) \<and> sv_sched qinv nsheps s"

definition sv_small :: "'q sv_state \<Rightarrow> bool" where
  "sv_small s \<longleftrightarrow> rec_small (store s)"

definition sv_accounted :: "('q \<Rightarrow> tid multiset) \<Rightarrow> 'q sv_state \<Rightarrow> tid multiset" where
  "sv_accounted tasks s = tasks (sready s) + map_waiters (sv_recs s)"

lemma sv_invD:
  assumes "sv_inv qinv nsheps V s"
  shows "sv_initialized s" "rec_store_ok QTHREAD_CHOOSE_STRIPE (store s)" "sv_sched qinv nsheps s"
    "a \<in> V \<Longrightarrow> good_addr a" "a \<in> V \<Longrightarrow> entry_ok V (smem s a) (sv_recs s a)"
    "a \<in> V \<Longrightarrow> a \<noteq> 0"
  using assms by (auto simp: sv_inv_def good_addr_def)

lemma sv_shep: "sv_inv qinv nsheps V s \<Longrightarrow> shepherd_ptr (sthreads s t) < nsheps (sready s)"
  by (auto simp: sv_inv_def sv_sched_def thread_ok_def)

text \<open>A step that changes the word and the record of one variable.\<close>

lemma sv_change:
  assumes inv: "sv_inv qinv nsheps V s" and a: "a \<in> V"
    and s': "sv_initialized s'" "rec_store_ok QTHREAD_CHOOSE_STRIPE (store s')" "sv_sched qinv nsheps s'"
    and recs: "sv_recs s' = (sv_recs s)(a := mo)"
    and mem: "\<And>b. b \<in> V \<Longrightarrow> smem s' b = ((smem s)(a := w)) b"
    and ok: "entry_ok V w mo"
  shows "sv_inv qinv nsheps V s'" "b \<in> V \<Longrightarrow> sv_view s' b = ((sv_view s)(a := svar_of w mo)) b"
    "map_waiters (sv_recs s') + opt_waiters (sv_recs s a) = map_waiters (sv_recs s) + opt_waiters mo"
proof -
  have "good_addr b \<and> entry_ok V (smem s' b) (sv_recs s' b)" if "b \<in> V" for b
    using sv_invD(4,5) [OF inv that] mem [OF that] ok by (auto simp: recs)
  moreover have "sv_recs s' b = None" if "b \<notin> V" for b
    using inv a that by (auto simp: sv_inv_def recs)
  ultimately show "sv_inv qinv nsheps V s'"
    using s' by (simp add: sv_inv_def)
  show "b \<in> V \<Longrightarrow> sv_view s' b = ((sv_view s)(a := svar_of w mo)) b"
    using mem [of b] by (simp add: sv_view_def recs)
  show "map_waiters (sv_recs s') + opt_waiters (sv_recs s a) = map_waiters (sv_recs s) + opt_waiters mo"
    unfolding recs by (rule map_waiters_upd [OF rec_view_finite [OF sv_invD(2) [OF inv]]])
qed

section \<open>Elementary steps\<close>

lemma set_word_fields [simp]:
  "store (set_word a w s) = store s" "sthreads (set_word a w s) = sthreads s"
  "sready (set_word a w s) = sready s" "sv_initialized (set_word a w s) = sv_initialized s"
  "smem (set_word a w s) = (smem s)(a := w)" "set_word a x (set_word a w s) = set_word a x s"
  by (simp_all add: set_word_def)

lemma unlock_fields [simp]:
  "store (UNLOCK_THIS_MODIFIED_SYNCVAR a x st s) = store s"
  "sthreads (UNLOCK_THIS_MODIFIED_SYNCVAR a x st s) = sthreads s"
  "sready (UNLOCK_THIS_MODIFIED_SYNCVAR a x st s) = sready s"
  "sv_initialized (UNLOCK_THIS_MODIFIED_SYNCVAR a x st s) = sv_initialized s"
  "smem (UNLOCK_THIS_MODIFIED_SYNCVAR a x st s) = (smem s)(a := BUILD_UNLOCKED_SYNCVAR x st)"
  "UNLOCK_THIS_MODIFIED_SYNCVAR a x st (set_word a w s) = UNLOCK_THIS_MODIFIED_SYNCVAR a x st s"
  by (simp_all add: UNLOCK_THIS_MODIFIED_SYNCVAR_def)

lemma store_to_fields [simp]:
  "store (store_to d x s) = store s" "sthreads (store_to d x s) = sthreads s"
  "sready (store_to d x s) = sready s" "sv_initialized (store_to d x s) = sv_initialized s"
  "smem (store_to d x s) = put_word d x (smem s)"
  by (simp_all add: store_to_def put_word_def)

lemma sv_upd_thread_fields [simp]:
  "store (sv_upd_thread t f s) = store s" "smem (sv_upd_thread t f s) = smem s"
  "sready (sv_upd_thread t f s) = sready s" "sv_initialized (sv_upd_thread t f s) = sv_initialized s"
  "sthreads (sv_upd_thread t f s) = (sthreads s)(t := f (sthreads s t))"
  by (simp_all add: sv_upd_thread_def)

lemma sv_get_cong: "store s' = store s \<Longrightarrow> sv_get a s' = sv_get a s"
  by (simp add: sv_get_def)

lemma sv_get_ok:
  assumes "sv_inv qinv nsheps V s" "a \<in> V"
  shows "sv_get a s = Some (case rec_lookup QTHREAD_CHOOSE_STRIPE (store s) a of None \<Rightarrow> 0 | Some p \<Rightarrow> p)"
  unfolding sv_get_def by (rule syncvar_records.rget_ok [OF sv_invD(2,4) [OF assms(1)]]) (rule assms(2))

text \<open>Outside of contention the lock is taken just when the variable is in a state of interest.\<close>

lemma mwaitc_loop_const_None:
  "\<not> sv_lock w \<Longrightarrow> msk AND push_bit (unat (sv_state_bits w)) 1 = 0 \<Longrightarrow> mwaitc_loop (\<lambda>_. w) msk t i w = None"
  by (induction t arbitrary: i; subst mwaitc_loop.simps) simp_all

lemma mwaitc_taken:
  assumes "\<not> bit (smem s a) 0" "msk AND push_bit (unat (sv_state_bits (smem s a))) 1 \<noteq> 0" "a \<noteq> 0" "0 < t"
  shows "qthread_mwaitc a msk t s
    = Some (set_word a (smem s a OR 1) s, sv_data (smem s a), locked_flags (smem s a))"
proof -
  have "mwaitc_loop (\<lambda>_. smem s a) msk t 1 (smem s a) = Some (1, smem s a)"
    using assms by (subst mwaitc_loop.simps) (simp add: sv_lock_def)
  then show ?thesis
    using assms by (simp add: qthread_mwaitc_def)
qed

lemma mwaitc_timeout:
  assumes "\<not> bit (smem s a) 0" "msk AND push_bit (unat (sv_state_bits (smem s a))) 1 = 0" "a \<noteq> 0" "0 < t"
  shows "qthread_mwaitc a msk t s = Some (s, 0, \<lparr>cf = True, off = False, pf = False, sf = False\<rparr>)"
  using assms mwaitc_loop_const_None [of "smem s a" msk t 1]
  by (simp add: qthread_mwaitc_def sv_lock_def)

lemma mwaitc_entry:
  assumes "sv_inv qinv nsheps V s" "a \<in> V" "0 < t"
  shows "qthread_mwaitc a SYNCFEB_ANY t s = Some (set_word a (smem s a OR 1) s, vdata (sv_view s a),
      \<lparr>cf = False, off = False, pf = \<not> vfull (sv_view s a), sf = (sv_recs s a \<noteq> None)\<rparr>)"
    "qthread_mwaitc a SYNCFEB_FULL t s = (if vfull (sv_view s a)
       then Some (set_word a (smem s a OR 1) s, vdata (sv_view s a),
              \<lparr>cf = False, off = False, pf = False, sf = (sv_recs s a \<noteq> None)\<rparr>)
       else Some (s, 0, \<lparr>cf = True, off = False, pf = False, sf = False\<rparr>))"
    "qthread_mwaitc a SYNCFEB_EMPTY t s = (if vfull (sv_view s a)
       then Some (s, 0, \<lparr>cf = True, off = False, pf = False, sf = False\<rparr>)
       else Some (set_word a (smem s a OR 1) s, vdata (sv_view s a),
              \<lparr>cf = False, off = False, pf = True, sf = (sv_recs s a \<noteq> None)\<rparr>))"
proof -
  have e: "\<not> bit (smem s a) 0" "\<not> bit (smem s a) 3" "bit (smem s a) 1 \<longleftrightarrow> sv_recs s a \<noteq> None" "a \<noteq> 0"
    using sv_invD(5,6) [OF assms(1,2)] by (simp_all add: entry_ok_def)
  note i = interest [OF e(2)]
  note f = locked_flags_eq [OF e(2)]
  show "qthread_mwaitc a SYNCFEB_ANY t s = Some (set_word a (smem s a OR 1) s, vdata (sv_view s a),
      \<lparr>cf = False, off = False, pf = \<not> vfull (sv_view s a), sf = (sv_recs s a \<noteq> None)\<rparr>)"
    using mwaitc_taken [OF e(1) i(3) e(4) assms(3)] f e(3) by (simp add: sv_view_def svar_of_def)
  show "qthread_mwaitc a SYNCFEB_FULL t s = (if vfull (sv_view s a)
       then Some (set_word a (smem s a OR 1) s, vdata (sv_view s a),
              \<lparr>cf = False, off = False, pf = False, sf = (sv_recs s a \<noteq> None)\<rparr>)
       else Some (s, 0, \<lparr>cf = True, off = False, pf = False, sf = False\<rparr>))"
    using mwaitc_taken [OF e(1) _ e(4) assms(3), of SYNCFEB_FULL]
      mwaitc_timeout [OF e(1) _ e(4) assms(3), of SYNCFEB_FULL] i(1) f e(3)
    by (auto simp: sv_view_def svar_of_def)
  show "qthread_mwaitc a SYNCFEB_EMPTY t s = (if vfull (sv_view s a)
       then Some (s, 0, \<lparr>cf = True, off = False, pf = False, sf = False\<rparr>)
       else Some (set_word a (smem s a OR 1) s, vdata (sv_view s a),
              \<lparr>cf = False, off = False, pf = True, sf = (sv_recs s a \<noteq> None)\<rparr>))"
    using mwaitc_taken [OF e(1) _ e(4) assms(3), of SYNCFEB_EMPTY]
      mwaitc_timeout [OF e(1) _ e(4) assms(3), of SYNCFEB_EMPTY] i(2) f e(3)
    by (auto simp: sv_view_def svar_of_def)
qed

text \<open>Settling a record.\<close>

lemma remove_none_waiting:
  assumes "rec_store_ok QTHREAD_CHOOSE_STRIPE (store s)" "rec_small (store s)" "good_addr a"
    "rec_lookup QTHREAD_CHOOSE_STRIPE (store s) a = Some p" "recs (store s) p = Some m" "no_waiters m"
  shows "\<exists>s'. qthread_syncvar_remove a s = Some s' \<and> rec_store_ok QTHREAD_CHOOSE_STRIPE (store s')
    \<and> sv_recs s' = (sv_recs s)(a := None) \<and> smem s' = smem s \<and> sthreads s' = sthreads s
    \<and> sready s' = sready s \<and> sv_initialized s' = sv_initialized s"
proof -
  obtain r' where r: "rec_remove QTHREAD_CHOOSE_STRIPE a p (store s) = Some r'"
    "rec_store_ok QTHREAD_CHOOSE_STRIPE r'"
    "rec_view QTHREAD_CHOOSE_STRIPE r' = (sv_recs s)(a := None)"
    by (rule syncvar_records.rremove_ok [OF assms(1-4)])
  have p: "p \<noteq> 0"
    by (rule syncvar_records.rlookup_nonnull [OF assms(1,4)])
  have "sv_get a s = Some p"
    using syncvar_records.rget_ok [OF assms(1,3)] assms(4) by (simp add: sv_get_def)
  then have "qthread_syncvar_remove a s = Some (s\<lparr>store := r'\<rparr>)"
    using p assms(5,6) r(1) by (simp add: qthread_syncvar_remove_def no_waiters_def)
  then show ?thesis
    using r by simp
qed

lemma settle_ok:
  assumes ok: "rec_store_ok QTHREAD_CHOOSE_STRIPE (store s)" "rec_small (store s)" "good_addr a"
    and p: "rec_lookup QTHREAD_CHOOSE_STRIPE (store s) a = Some p"
  shows "\<exists>s'. sv_settle p m a s = Some s' \<and> rec_store_ok QTHREAD_CHOOSE_STRIPE (store s')
    \<and> sv_recs s' = (sv_recs s)(a := if no_waiters m then None else Some m)
    \<and> smem s' = smem s \<and> sthreads s' = sthreads s \<and> sready s' = sready s
    \<and> sv_initialized s' = sv_initialized s"
proof -
  let ?s = "s\<lparr>store := rec_set p m (store s)\<rparr>"
  note set = rec_set_ok [OF ok(1) p, of m]
  show ?thesis
  proof (cases "no_waiters m")
    case True
    have "\<exists>s'. qthread_syncvar_remove a ?s = Some s' \<and> rec_store_ok QTHREAD_CHOOSE_STRIPE (store s')
      \<and> sv_recs s' = (sv_recs ?s)(a := None) \<and> smem s' = smem ?s \<and> sthreads s' = sthreads ?s
      \<and> sready s' = sready ?s \<and> sv_initialized s' = sv_initialized ?s"
      using set ok p True by (intro remove_none_waiting [of _ _ p m]) simp_all
    then show ?thesis
      using True set(2) by (auto simp: sv_settle_def no_waiters_def)
  next
    case False
    then show ?thesis
      using set by (auto simp: sv_settle_def no_waiters_def)
  qed
qed

section \<open>Waking threads\<close>

definition sv_deliver :: "u64 \<Rightarrow> addrres list \<Rightarrow> (u64 \<Rightarrow> u64) \<Rightarrow> u64 \<Rightarrow> u64" where
  "sv_deliver x Xs mm z = (if z \<noteq> 0 \<and> z \<in> raddr ` set Xs then x else mm z)"

lemma sv_deliver_simps:
  "sv_deliver x [] mm = mm" "sv_deliver x Xs (put_word (raddr X) x mm) = sv_deliver x (X # Xs) mm"
  "sv_deliver x Ys (sv_deliver x Xs mm) = sv_deliver x (Xs @ Ys) mm"
  by (auto simp: sv_deliver_def put_word_def fun_eq_iff)

definition sv_readied :: "('q \<Rightarrow> bool) \<Rightarrow> ('q \<Rightarrow> tid multiset) \<Rightarrow> ('q \<Rightarrow> nat) \<Rightarrow> addrres list \<Rightarrow> 'q sv_state
    \<Rightarrow> 'q sv_state \<Rightarrow> bool" where
  "sv_readied qinv tasks nsheps Xs s s' \<longleftrightarrow> store s' = store s \<and> sv_initialized s' = sv_initialized s
     \<and> sv_sched qinv nsheps s' \<and> nsheps (sready s') = nsheps (sready s)
     \<and> tasks (sready s') = tasks (sready s) + mset (map waiter Xs)"

context ready_queues
begin

lemma sv_schedule_ok:
  assumes "sv_sched qinv nsheps s" "shep < nsheps (sready s)"
  shows "\<exists>s'. qthread_syncvar_schedule ops (waiter X) shep s = Some s'
    \<and> sv_readied qinv tasks nsheps [X] s s' \<and> smem s' = smem s"
proof -
  let ?s = "sv_upd_thread (waiter X) (\<lambda>t. t\<lparr>thread_state := RUNNING\<rparr>) s"
  have q: "qinv (sready s)" and t: "\<forall>t. thread_ok (nsheps (sready s)) (sthreads s t)"
    using assms(1) by (simp_all add: sv_sched_def)
  have th: "\<forall>t. thread_ok (nsheps (sready s)) (sthreads ?s t)"
    using t by (simp add: thread_ok_def)
  have home: "shepherd_ptr (sthreads s (waiter X)) < nsheps (sready s)"
    using t by (simp add: thread_ok_def)
  have rdy: "sv_readied qinv tasks nsheps [X] s (?s\<lparr>sready := q'\<rparr>)"
    if "qinv q'" "tasks q' = add_mset (waiter X) (tasks (sready s))" "nsheps q' = nsheps (sready s)" for q'
    using that th by (simp add: sv_readied_def sv_sched_def)
  show ?thesis
    using enqueue_law [OF q home, of "waiter X" "flags (sthreads s (waiter X))"]
      spawn_or_enqueue_law [OF q assms(2), of "waiter X" "flags (sthreads s (waiter X))"] rdy
    by (auto simp: qthread_syncvar_schedule_def Let_def)
qed

lemma release_readers_ok:
  assumes "sv_sched qinv nsheps s" "shep < nsheps (sready s)"
  shows "\<exists>s'. release_readers ops shep x Xs s = Some s'
    \<and> sv_readied qinv tasks nsheps Xs s s' \<and> smem s' = sv_deliver x Xs (smem s)"
  using assms
proof (induction Xs arbitrary: s)
  case Nil
  then show ?case
    by (simp add: sv_readied_def sv_deliver_simps)
next
  case (Cons X Xs)
  let ?s = "store_to (raddr X) x s"
  have "sv_sched qinv nsheps ?s" "shep < nsheps (sready ?s)"
    using Cons.prems by (simp_all add: sv_sched_def)
  then obtain s1 where s1: "qthread_syncvar_schedule ops (waiter X) shep ?s = Some s1"
    "sv_readied qinv tasks nsheps [X] ?s s1" "smem s1 = smem ?s"
    using sv_schedule_ok by blast
  then have "sv_sched qinv nsheps s1" "shep < nsheps (sready s1)"
    using Cons.prems(2) by (simp_all add: sv_readied_def)
  then obtain s2 where s2: "release_readers ops shep x Xs s1 = Some s2"
    "sv_readied qinv tasks nsheps Xs s1 s2" "smem s2 = sv_deliver x Xs (smem s1)"
    using Cons.IH by blast
  show ?case
    using s1 s2 by (auto simp: sv_readied_def sv_deliver_simps)
qed

end

end
