(* ===== verification/Syncvar_Refine.thy ===== *)
theory Syncvar_Refine
  imports Syncvar_Inv
begin

text \<open>
  An abstract specification of the syncvar operations, on variables (full or empty, data,
  queues) and memory, and the proof that the operations of \<open>syncvar.c\<close> implement it.
\<close>

section \<open>The specification\<close>

type_synonym svars = "(u64 \<Rightarrow> svar) \<times> (u64 \<Rightarrow> u64)"

text \<open>Filling with a value serves all copying readers and one taking reader.\<close>

definition fill_svar :: "u64 \<Rightarrow> svar \<Rightarrow> svar" where
  "fill_svar x v = (case vFEQ v of
     [] \<Rightarrow> v\<lparr>vfull := True, vdata := take_bit 60 x, vFFQ := []\<rparr>
   | X # Xs \<Rightarrow> v\<lparr>vdata := take_bit 60 x, vFFQ := [], vFEQ := Xs\<rparr>)"

definition sv_served :: "svar \<Rightarrow> addrres list" where
  "sv_served v = vFFQ v @ take 1 (vFEQ v)"

text \<open>Emptying serves one writer, which fills the variable again.\<close>

definition empty_svar :: "(u64 \<Rightarrow> u64) \<Rightarrow> svar \<Rightarrow> svar" where
  "empty_svar mm v = (case vEFQ v of
     [] \<Rightarrow> v\<lparr>vfull := False\<rparr>
   | X # Xs \<Rightarrow> v\<lparr>vdata := take_bit 60 (mm (raddr X)), vEFQ := Xs\<rparr>)"

definition sv_word :: "sv_blocker_type \<Rightarrow> u64 \<Rightarrow> u64 \<Rightarrow> u64" where
  "sv_word ty a b = (if ty \<in> {SV_READFF, SV_READFF_NB, SV_READFE, SV_READFE_NB} then b else a)"

definition sv_spec :: "sv_blocker_type \<Rightarrow> tid \<Rightarrow> u64 \<Rightarrow> u64 \<Rightarrow> u64 \<Rightarrow> svars \<Rightarrow> svars \<times> sv_outcome" where
  "sv_spec ty me retp a b = (\<lambda>(v, mm).
     let ok = SvRet QTHREAD_SUCCESS; fail = ((v, mm), SvRet QTHREAD_OPFAIL);
         fill = (\<lambda>x. (v(a := fill_svar x (v a)), sv_deliver x (sv_served (v a)) mm));
         copy = ((v, put_word a (vdata (v b)) mm), ok);
         take = ((v(b := empty_svar mm (v b)), put_word a (vdata (v b)) mm), ok);
         wait = (\<lambda>c f. ((v(c := f (v c)), mm), SvBlocked))
     in case ty of
       SV_FILL \<Rightarrow> (if vfull (v a) then (v, mm) else fill (vdata (v a)), ok)
     | SV_EMPTY \<Rightarrow> ((if vfull (v a) then (v(a := empty_svar mm (v a)), mm) else (v, mm)), ok)
     | SV_WRITEF \<Rightarrow> (fill (mm b), ok)
     | SV_WRITEEF \<Rightarrow>
         if vfull (v a) then wait a (\<lambda>x. x\<lparr>vEFQ := \<lparr>raddr = b, waiter = me\<rparr> # vEFQ x\<rparr>) else (fill (mm b), ok)
     | SV_WRITEEF_NB \<Rightarrow> if vfull (v a) then fail else (fill (mm b), ok)
     | SV_READFF \<Rightarrow>
         if vfull (v b) then copy else wait b (\<lambda>x. x\<lparr>vFFQ := \<lparr>raddr = a, waiter = me\<rparr> # vFFQ x\<rparr>)
     | SV_READFF_NB \<Rightarrow> if vfull (v b) then copy else fail
     | SV_READFE \<Rightarrow>
         if vfull (v b) then take else wait b (\<lambda>x. x\<lparr>vFEQ := \<lparr>raddr = retp, waiter = me\<rparr> # vFEQ x\<rparr>)
     | SV_READFE_NB \<Rightarrow> if vfull (v b) then take else fail
     | SV_INCR \<Rightarrow>
         (if \<not> vfull (v a) \<and> vFFQ (v a) \<noteq> [] then fill (vdata (v a) + mm b)
          else (v(a := (v a)\<lparr>vdata := take_bit 60 (vdata (v a) + mm b)\<rparr>), mm),
          SvRet (uint (vdata (v a) + mm b))))"

text \<open>
  The call \<open>r\<close> of thread \<open>me\<close> ends as specified, keeps the invariant, and every thread that was
  waiting or ready still is, the caller being added when it blocks.
\<close>

definition sv_step :: "('q \<Rightarrow> bool) \<Rightarrow> ('q \<Rightarrow> tid multiset) \<Rightarrow> ('q \<Rightarrow> nat) \<Rightarrow> u64 set \<Rightarrow> tid
    \<Rightarrow> 'q sv_state \<Rightarrow> svars \<times> sv_outcome \<Rightarrow> ('q sv_state \<times> sv_outcome) option \<Rightarrow> bool" where
  "sv_step qinv tasks nsheps V me s spec r \<longleftrightarrow>
     (\<exists>s'. r = Some (s', snd spec) \<and> sv_inv qinv nsheps V s'
        \<and> (\<forall>b \<in> V. sv_view s' b = fst (fst spec) b) \<and> (\<forall>x. x \<notin> V \<longrightarrow> smem s' x = snd (fst spec) x)
        \<and> nsheps (sready s') = nsheps (sready s)
        \<and> sv_accounted tasks s' = sv_accounted tasks s + (if snd spec = SvBlocked then {#me#} else {#}))"

text \<open>
  What an operation is allowed to be called with: its variable is a syncvar, the addresses of
  data are not, written values fit in 60 bits; \<open>writeF\<close> is not used on a full variable with
  writers waiting, nor \<open>incrF\<close> on one with taking readers waiting.
\<close>

definition sv_call_ok :: "u64 set \<Rightarrow> sv_blocker_type \<Rightarrow> u64 \<Rightarrow> u64 \<Rightarrow> u64 \<Rightarrow> 'q sv_state \<Rightarrow> bool" where
  "sv_call_ok V ty retp a b s \<longleftrightarrow> sv_word ty a b \<in> V \<and>
     (case ty of
        SV_FILL \<Rightarrow> True | SV_EMPTY \<Rightarrow> True
      | SV_WRITEF \<Rightarrow> b \<notin> V \<and> drop_bit 60 (smem s b) = 0 \<and> vEFQ (sv_view s a) = []
      | SV_WRITEEF \<Rightarrow> b \<notin> V \<and> drop_bit 60 (smem s b) = 0
      | SV_WRITEEF_NB \<Rightarrow> b \<notin> V \<and> drop_bit 60 (smem s b) = 0
      | SV_READFE \<Rightarrow> a \<notin> V \<and> retp \<notin> V
      | SV_INCR \<Rightarrow> b \<notin> V \<and> vFEQ (sv_view s a) = []
      | _ \<Rightarrow> a \<notin> V)"

section \<open>Changing one variable\<close>

lemma view_entry:
  assumes "sv_inv qinv nsheps V s" "a \<in> V"
  shows "sv_recs s a = None \<Longrightarrow> vEFQ (sv_view s a) = [] \<and> vFEQ (sv_view s a) = [] \<and> vFFQ (sv_view s a) = []"
    "sv_recs s a = Some m \<Longrightarrow>
      vEFQ (sv_view s a) = EFQ m \<and> vFEQ (sv_view s a) = FEQ m \<and> vFFQ (sv_view s a) = FFQ m"
    "sv_recs s a = Some m \<Longrightarrow> \<not> no_waiters m"
    "sv_recs s a = Some m \<Longrightarrow> vfull (sv_view s a) \<Longrightarrow> FEQ m = [] \<and> FFQ m = []"
    "sv_recs s a = Some m \<Longrightarrow> \<not> vfull (sv_view s a) \<Longrightarrow> EFQ m = []"
    "sv_recs s a = Some m \<Longrightarrow> X \<in> set (EFQ m) \<union> set (FEQ m) \<union> set (FFQ m) \<Longrightarrow> raddr X \<notin> V"
  using sv_invD(5) [OF assms] by (auto simp: sv_view_def svar_of_def entry_ok_def)

lemma svar_of_build:
  "svar_of (BUILD_UNLOCKED_SYNCVAR x (state_of p w)) None
     = \<lparr>vfull = (\<not> p), vdata = take_bit 60 x, vEFQ = [], vFEQ = [], vFFQ = []\<rparr>"
  "svar_of (BUILD_UNLOCKED_SYNCVAR x (state_of p w)) (Some m)
     = \<lparr>vfull = (\<not> p), vdata = take_bit 60 x, vEFQ = EFQ m, vFEQ = FEQ m, vFFQ = FFQ m\<rparr>"
  by (simp_all add: svar_of_def build_bit_simps build_data)

lemma entry_ok_build_None: "entry_ok V (BUILD_UNLOCKED_SYNCVAR x (state_of p False)) None"
  by (simp add: entry_ok_def build_bit_simps)

lemma entry_ok_build_Some:
  "\<not> no_waiters m \<Longrightarrow> (if p then EFQ m = [] else FEQ m = [] \<and> FFQ m = [])
   \<Longrightarrow> (\<And>X. X \<in> set (EFQ m) \<union> set (FEQ m) \<union> set (FFQ m) \<Longrightarrow> raddr X \<notin> V)
   \<Longrightarrow> entry_ok V (BUILD_UNLOCKED_SYNCVAR x (state_of p True)) (Some m)"
  by (auto simp: entry_ok_def build_bit_simps)

lemma waiters_queues: "waiters m = mset (map waiter (EFQ m)) + mset (map waiter (FEQ m)) + mset (map waiter (FFQ m))"
  by (simp add: waiters_def)

lemma sv_recs_store: "sv_recs (s\<lparr>store := r\<rparr>) = rec_view QTHREAD_CHOOSE_STRIPE r"
  by simp

text \<open>Writing a new word without touching the record.\<close>

lemma plain_write:
  assumes inv: "sv_inv qinv nsheps V s" and a: "a \<in> V"
    and ok: "entry_ok V (BUILD_UNLOCKED_SYNCVAR x st) (sv_recs s a)"
    and d: "d \<notin> V"
    and spec: "fst (fst spec) = (sv_view s)(a := svar_of (BUILD_UNLOCKED_SYNCVAR x st) (sv_recs s a))"
      "\<And>z. z \<notin> V \<Longrightarrow> snd (fst spec) z = put_word d y (smem s) z" "snd spec \<noteq> SvBlocked" "snd spec = out"
  shows "sv_step qinv tasks nsheps V me s spec (Some (store_to d y (UNLOCK_THIS_MODIFIED_SYNCVAR a x st s), out))"
proof -
  let ?s = "store_to d y (UNLOCK_THIS_MODIFIED_SYNCVAR a x st s)"
  have "sv_recs ?s = (sv_recs s)(a := sv_recs s a)"
    by simp
  moreover have "smem ?s b = ((smem s)(a := BUILD_UNLOCKED_SYNCVAR x st)) b" if "b \<in> V" for b
    using that d by (auto simp: put_word_def)
  moreover have "sv_initialized ?s" "rec_store_ok QTHREAD_CHOOSE_STRIPE (store ?s)" "sv_sched qinv nsheps ?s"
    using sv_invD(1-3) [OF inv] by (simp_all add: sv_sched_def)
  ultimately have c: "sv_inv qinv nsheps V ?s"
    "\<And>b. b \<in> V \<Longrightarrow> sv_view ?s b = ((sv_view s)(a := svar_of (BUILD_UNLOCKED_SYNCVAR x st) (sv_recs s a))) b"
    using sv_change [OF inv a, of ?s "sv_recs s a" "BUILD_UNLOCKED_SYNCVAR x st"] ok by blast+
  have "smem ?s z = put_word d y (smem s) z" if "z \<notin> V" for z
    using that a by (auto simp: put_word_def)
  then show ?thesis
    using c spec by (auto simp: sv_step_def sv_accounted_def)
qed

text \<open>The same without a destination.\<close>

lemma plain_write0:
  fixes s :: "'q sv_state"
  assumes "sv_inv qinv nsheps V s" "a \<in> V" "entry_ok V (BUILD_UNLOCKED_SYNCVAR x st) (sv_recs s a)"
    "fst (fst spec) = (sv_view s)(a := svar_of (BUILD_UNLOCKED_SYNCVAR x st) (sv_recs s a))"
      "\<And>z. z \<notin> V \<Longrightarrow> snd (fst spec) z = smem s z" "snd spec \<noteq> SvBlocked" "snd spec = out"
  shows "sv_step qinv tasks nsheps V me s spec (Some (UNLOCK_THIS_MODIFIED_SYNCVAR a x st s, out))"
proof -
  have "0 \<notin> V"
    using sv_invD(6) [OF assms(1), of 0] by blast
  then show ?thesis
    using plain_write [OF assms(1-3), of 0 spec 0 out] assms(4-) by (simp add: put_word_def store_to_def)
qed

lemma no_change:
  assumes "sv_inv qinv nsheps V s" "out \<noteq> SvBlocked"
  shows "sv_step qinv tasks nsheps V me s ((sv_view s, smem s), out) (Some (s, out))"
  using assms by (simp add: sv_step_def)

lemma store_outside:
  assumes inv: "sv_inv qinv nsheps V s" and d: "d \<notin> V" and out: "out \<noteq> SvBlocked"
  shows "sv_step qinv tasks nsheps V me s ((sv_view s, put_word d x (smem s)), out) (Some (store_to d x s, out))"
proof -
  have m: "smem (store_to d x s) b = smem s b" if "b \<in> V" for b
    using that d by (auto simp: put_word_def)
  then have "sv_inv qinv nsheps V (store_to d x s)"
    using inv by (simp add: sv_inv_def sv_sched_def)
  moreover have "sv_view (store_to d x s) b = sv_view s b" if "b \<in> V" for b
    using m [OF that] by (simp add: sv_view_def)
  ultimately show ?thesis
    using out by (simp add: sv_step_def sv_accounted_def)
qed

section \<open>Blocking\<close>

lemma svar_of_enq:
  assumes "sv_inv qinv nsheps V s" "a \<in> V"
  shows "svar_of (smem s a) (Some (case sv_recs s a of None \<Rightarrow> qthread_addrstat_new | Some m \<Rightarrow> m)) = sv_view s a"
  by (cases "sv_recs s a") (simp_all add: sv_view_def svar_of_def qthread_addrstat_new_def)

lemma find_or_create_record:
  assumes inv: "sv_inv qinv nsheps V s" and small: "sv_small s" and a: "a \<in> V"
    and new: "newp \<noteq> 0" "recs (store s) newp = None"
  obtains r p m where "sv_find_or_create newp a (set_word a y s) = Some ((set_word a y s)\<lparr>store := r\<rparr>, p)"
    "recs r p = Some m" "m = (case sv_recs s a of None \<Rightarrow> qthread_addrstat_new | Some m \<Rightarrow> m)"
    "rec_store_ok QTHREAD_CHOOSE_STRIPE r" "rec_lookup QTHREAD_CHOOSE_STRIPE r a = Some p"
    "rec_view QTHREAD_CHOOSE_STRIPE r = (sv_recs s)(a \<mapsto> m)"
proof (cases "rec_lookup QTHREAD_CHOOSE_STRIPE (store s) a")
  case None
  note ok = sv_invD(2) [OF inv]
  note good = sv_invD(4) [OF inv a]
  obtain r where r: "rec_put QTHREAD_CHOOSE_STRIPE a newp qthread_addrstat_new (store s) = Some r"
    "rec_store_ok QTHREAD_CHOOSE_STRIPE r"
    "rec_view QTHREAD_CHOOSE_STRIPE r = (sv_recs s)(a \<mapsto> qthread_addrstat_new)"
    "rec_lookup QTHREAD_CHOOSE_STRIPE r a = Some newp"
    by (rule syncvar_records.rput_ok [OF ok small [unfolded sv_small_def] good None new])
  have "sv_get a (set_word a y s) = Some 0"
    using sv_get_ok [OF inv a] None by (simp add: sv_get_cong [of "set_word a y s" s])
  moreover have "recs r newp = Some qthread_addrstat_new"
    by (rule rec_record [OF r(2,4)]) (simp add: r(3))
  moreover have "sv_recs s a = None"
    using rec_view_None [OF ok] None by simp
  moreover from calculation have "sv_find_or_create newp a (set_word a y s)
      = Some ((set_word a y s)\<lparr>store := r\<rparr>, newp)"
    using r(1) new by (simp add: sv_find_or_create_def)
  ultimately show ?thesis
    using that [of r newp qthread_addrstat_new] r(2-4) by simp
next
  case (Some p)
  note ok = sv_invD(2) [OF inv]
  obtain m where m: "recs (store s) p = Some m" "sv_recs s a = Some m"
    by (rule rec_record [OF ok Some])
  have p: "p \<noteq> 0"
    by (rule syncvar_records.rlookup_nonnull [OF ok Some])
  have "sv_get a (set_word a y s) = Some p"
    using sv_get_ok [OF inv a] Some by (simp add: sv_get_cong [of "set_word a y s" s])
  then have "sv_find_or_create newp a (set_word a y s) = Some ((set_word a y s)\<lparr>store := store s\<rparr>, p)"
    using p by (simp add: sv_find_or_create_def set_word_def)
  then show ?thesis
    by (rule that [OF _ m(1) _ ok Some]) (simp_all add: m fun_upd_idem)
qed

text \<open>
  Queueing the caller: \<open>enq\<close> adds one waiter, whose address is not a syncvar, to a queue of
  the record that may be non-empty in the state the word is given.
\<close>

lemma block_ok:
  assumes inv: "sv_inv qinv nsheps V s" and small: "sv_small s" and a: "a \<in> V"
    and new: "newp \<noteq> 0" "recs (store s) newp = None"
    and m: "m = (case sv_recs s a of None \<Rightarrow> qthread_addrstat_new | Some m \<Rightarrow> m)"
    and ok: "entry_ok V (BUILD_UNLOCKED_SYNCVAR x st) (Some (enq m))"
    and w: "waiters (enq m) = add_mset me (waiters m)"
    and v: "v' = svar_of (BUILD_UNLOCKED_SYNCVAR x st) (Some (enq m))"
  shows "sv_step qinv tasks nsheps V me s (((sv_view s)(a := v'), smem s), SvBlocked)
    (sv_block me newp a x st enq (set_word a y s))"
proof -
  obtain r p m' where r': "sv_find_or_create newp a (set_word a y s) = Some ((set_word a y s)\<lparr>store := r\<rparr>, p)"
    "recs r p = Some m'" "m' = (case sv_recs s a of None \<Rightarrow> qthread_addrstat_new | Some m \<Rightarrow> m)"
    "rec_store_ok QTHREAD_CHOOSE_STRIPE r"
    "rec_lookup QTHREAD_CHOOSE_STRIPE r a = Some p" "rec_view QTHREAD_CHOOSE_STRIPE r = (sv_recs s)(a \<mapsto> m')"
    by (rule find_or_create_record [OF inv small a new, of y])
  then have r: "recs r p = Some m" "rec_store_ok QTHREAD_CHOOSE_STRIPE r"
    "rec_lookup QTHREAD_CHOOSE_STRIPE r a = Some p" "rec_view QTHREAD_CHOOSE_STRIPE r = (sv_recs s)(a \<mapsto> m)"
    using m by simp_all
  define s' where "s' = sv_upd_thread me (\<lambda>t. t\<lparr>thread_state := FEB_BLOCKED, blockedon := p\<rparr>)
    (UNLOCK_THIS_MODIFIED_SYNCVAR a x st (s\<lparr>store := rec_set p (enq m) r\<rparr>))"
  have run: "sv_block me newp a x st enq (set_word a y s) = Some (s', SvBlocked)"
    using r'(1) r(1) by (simp add: sv_block_def s'_def UNLOCK_THIS_MODIFIED_SYNCVAR_def set_word_def sv_upd_thread_def Let_def)
  note set = rec_set_ok [OF r(2,3), of "enq m"]
  have f: "sv_initialized s'" "rec_store_ok QTHREAD_CHOOSE_STRIPE (store s')" "sv_sched qinv nsheps s'"
    using sv_invD(1-3) [OF inv] set(1) by (simp_all add: s'_def sv_sched_def thread_ok_def)
  have recs: "sv_recs s' = (sv_recs s)(a := Some (enq m))"
    using set(2) r(4) by (simp add: s'_def)
  have mem: "smem s' = (smem s)(a := BUILD_UNLOCKED_SYNCVAR x st)"
    by (simp add: s'_def)
  note c = sv_change [OF inv a f recs _ ok, unfolded mem, OF refl]
  have "opt_waiters (sv_recs s a) = waiters m"
    by (cases "sv_recs s a") (simp_all add: m opt_waiters_def waiters_def qthread_addrstat_new_def)
  then have "map_waiters (sv_recs s') = map_waiters (sv_recs s) + {#me#}"
    using c(3) w by (simp add: opt_waiters_def)
  moreover have "sready s' = sready s"
    by (simp add: s'_def)
  ultimately show ?thesis
    unfolding sv_step_def using run c(1,2) v a
    by (intro exI [of _ s']) (auto simp: mem sv_accounted_def)
qed

section \<open>Unlocking\<close>

lemma bit_state_of: "bit (state_of p w) k \<longleftrightarrow> k = 0 \<and> w \<or> k = 1 \<and> p"
  unfolding state_of_def by (auto simp only: bit_or_iff bit_push_bit_iff bit_of_bool_iff possible_bit_word) simp_all

lemma rebuild:
  assumes "\<not> bit w 0" "\<not> bit w 3"
  shows "BUILD_UNLOCKED_SYNCVAR (sv_data w) (state_of (bit w 2) (bit w 1)) = w"
proof (rule bit_eqI)
  fix n :: nat
  consider "n = 0" | "n = 1" | "n = 2" | "n = 3" | "4 \<le> n" by linarith
  then show "bit (BUILD_UNLOCKED_SYNCVAR (sv_data w) (state_of (bit w 2) (bit w 1))) n = bit w n"
  proof cases
    case 5
    then show ?thesis
      by (auto simp only: BUILD_UNLOCKED_SYNCVAR_def sv_data_def bit_state_of bit_or_iff bit_push_bit_iff
          bit_drop_bit_eq o_apply possible_bit_word le_add_diff_inverse dest: bit_imp_le_length)
  qed (use assms in \<open>simp_all add: build_bit_simps\<close>)
qed

lemma unlock_same:
  assumes "sv_inv qinv nsheps V s" "a \<in> V" "p = (\<not> vfull (sv_view s a))" "w = (sv_recs s a \<noteq> None)"
  shows "UNLOCK_THIS_MODIFIED_SYNCVAR a (vdata (sv_view s a)) (state_of p w) s = s"
proof -
  have "BUILD_UNLOCKED_SYNCVAR (vdata (sv_view s a)) (state_of p w) = smem s a"
    using rebuild [of "smem s a"] sv_invD(5) [OF assms(1,2)] assms(3,4)
    by (simp add: entry_ok_def sv_view_def svar_of_def)
  then show ?thesis
    by (simp add: UNLOCK_THIS_MODIFIED_SYNCVAR_def set_word_def)
qed

lemma entry_ok_data:
  assumes "entry_ok V w mo"
  shows "entry_ok V (BUILD_UNLOCKED_SYNCVAR x (state_of (bit w 2) (bit w 1))) mo"
    "svar_of (BUILD_UNLOCKED_SYNCVAR x (state_of (bit w 2) (bit w 1))) mo = (svar_of w mo)\<lparr>vdata := take_bit 60 x\<rparr>"
  using assms by (simp_all add: entry_ok_def svar_of_def build_bit_simps build_data)

lemma data_locked: "sv_data (w OR 1) = sv_data w"
  by (simp add: sv_data_def)

lemma state_bools: "of_bool b = state_of False b" "2 OR of_bool b = state_of True b"
    "2 OR state_of False b = state_of True b"
  by (cases b; simp add: state_of_cases)+

lemmas build_None = entry_ok_build_None [of _ _ False, unfolded state_of_cases]
  entry_ok_build_None [of _ _ True, unfolded state_of_cases]
  svar_of_build(1) [of _ False False, unfolded state_of_cases]
  svar_of_build(1) [of _ True False, unfolded state_of_cases]

lemma step_then_store:
  assumes "sv_step qinv tasks nsheps V me s ((v, mm), out) (r \<bind> (\<lambda>s. Some (s, out)))" "d \<notin> V"
    "out \<noteq> SvBlocked"
  shows "sv_step qinv tasks nsheps V me s ((v, put_word d x mm), out) (r \<bind> (\<lambda>s. Some (store_to d x s, out)))"
proof -
  obtain s' where s': "r = Some s'" "sv_inv qinv nsheps V s'" "\<forall>b \<in> V. sv_view s' b = v b"
    "\<forall>x. x \<notin> V \<longrightarrow> smem s' x = mm x" "nsheps (sready s') = nsheps (sready s)"
    "sv_accounted tasks s' = sv_accounted tasks s"
    using assms(1,3) by (auto simp: sv_step_def bind_eq_Some_iff)
  show ?thesis
    using store_outside [OF s'(2) assms(2,3), of tasks me x] s' assms(3)
    by (auto simp: sv_step_def put_word_def)
qed

section \<open>Waking on a change of state\<close>

lemma record_of:
  assumes "sv_inv qinv nsheps V s" "a \<in> V" "sv_recs s a = Some m"
  obtains p where "rec_lookup QTHREAD_CHOOSE_STRIPE (store s) a = Some p" "recs (store s) p = Some m"
    "p \<noteq> 0" "sv_get a s = Some p"
proof -
  note ok = sv_invD(2) [OF assms(1)]
  obtain p where p: "rec_lookup QTHREAD_CHOOSE_STRIPE (store s) a = Some p" "recs (store s) p = Some m"
    using assms(3) by (auto simp: rec_view_def bind_eq_Some_iff)
  then show ?thesis
    using that syncvar_records.rlookup_nonnull [OF ok p(1)] sv_get_ok [OF assms(1,2)] by simp
qed

context ready_queues
begin

lemma release_readers_append:
  "release_readers ops shep x (Xs @ Ys) s = (release_readers ops shep x Xs s \<bind> release_readers ops shep x Ys)"
  by (induction Xs arbitrary: s) (auto split: Option.bind_splits)

lemma gotlock_fill_eq:
  assumes "recs (store s) p = Some m"
  shows "qthread_syncvar_gotlock_fill ops shep p a x s
    = (release_readers ops shep x (FFQ m @ take 1 (FEQ m)) s \<bind>
        sv_settle p (m\<lparr>full := True, FFQ := [], FEQ := tl (FEQ m)\<rparr>) a)"
proof (cases "FEQ m")
  case Nil
  then have eq: "m\<lparr>full := True, FFQ := [], FEQ := []\<rparr> = m\<lparr>full := True, FFQ := []\<rparr>"
    by (cases m) simp
  show ?thesis
    using assms Nil by (simp add: qthread_syncvar_gotlock_fill_def eq)
next
  case (Cons X Xs)
  have "m\<lparr>full := True, FFQ := [], FEQ := Xs\<rparr> = m\<lparr>full := True, FFQ := [], FEQ := tl (FEQ m)\<rparr>"
    using Cons by simp
  then show ?thesis
    using assms Cons by (simp add: qthread_syncvar_gotlock_fill_def release_readers_append Option.bind_assoc)
qed

text \<open>A wake-up followed by settling the record, as one change of the variable.\<close>

lemma wake_ok:
  assumes inv: "sv_inv qinv nsheps V s" and small: "sv_small s" and a: "a \<in> V"
    and p: "rec_lookup QTHREAD_CHOOSE_STRIPE (store s) a = Some p" "sv_recs s a = Some m"
    and s2: "sv_readied qinv tasks nsheps Xs s s2"
    and mem: "\<And>b. b \<in> V \<Longrightarrow> smem s2 b = ((smem s)(a := w)) b" "\<And>z. z \<notin> V \<Longrightarrow> smem s2 z = mm z"
    and ok: "entry_ok V w (if no_waiters m' then None else Some m')"
    and ws: "waiters m = waiters m' + mset (map waiter Xs)"
  shows "sv_step qinv tasks nsheps V me s
    (((sv_view s)(a := svar_of w (if no_waiters m' then None else Some m')), mm), SvRet c)
    (sv_settle p m' a s2 \<bind> (\<lambda>s. Some (s, SvRet c)))"
proof -
  let ?mo = "if no_waiters m' then None else Some m'"
  have st: "store s2 = store s" "sv_initialized s2" "sv_sched qinv nsheps s2"
    "nsheps (sready s2) = nsheps (sready s)" "tasks (sready s2) = tasks (sready s) + mset (map waiter Xs)"
    using s2 sv_invD(1) [OF inv] by (simp_all add: sv_readied_def)
  obtain s3 where s3: "sv_settle p m' a s2 = Some s3" "rec_store_ok QTHREAD_CHOOSE_STRIPE (store s3)"
    "sv_recs s3 = (sv_recs s2)(a := ?mo)" "smem s3 = smem s2" "sthreads s3 = sthreads s2"
    "sready s3 = sready s2" "sv_initialized s3 = sv_initialized s2"
    using settle_ok [of s2 a p m'] sv_invD(2,4) [OF inv] a p(1) small st(1) by (auto simp: sv_small_def)
  have "sv_initialized s3" "sv_sched qinv nsheps s3" "sv_recs s3 = (sv_recs s)(a := ?mo)"
    using s3 st by (simp_all add: sv_sched_def)
  note c = sv_change [OF inv a this(1) s3(2) this(2,3) _ ok, unfolded s3(4), OF mem(1)]
  have "opt_waiters ?mo = waiters m'"
    by (simp add: opt_waiters_def no_waiters_def waiters_def)
  then have "map_waiters (sv_recs s3) + mset (map waiter Xs) = map_waiters (sv_recs s)"
    using c(3) p(2) ws by (simp add: opt_waiters_def)
  then have "sv_accounted tasks s3 = sv_accounted tasks s"
    using s3(6) st(5) by (simp add: sv_accounted_def ac_simps)
  then show ?thesis
    unfolding sv_step_def using s3(1,4,6) c(1,2) mem(2) st(4) by (intro exI [of _ s3]) simp
qed

lemma fill_waiters_ok:
  assumes inv: "sv_inv qinv nsheps V s" and small: "sv_small s" and a: "a \<in> V"
    and m: "sv_recs s a = Some m" and e: "\<not> vfull (sv_view s a)" and q: "qok m"
    and sh: "shep < nsheps (sready s)"
  shows "sv_step qinv tasks nsheps V me s
    (((sv_view s)(a := fill_svar x (sv_view s a)), sv_deliver x (sv_served (sv_view s a)) (smem s)), SvRet c)
    (fill_waiters ops qok shep a x (set_word a y s) \<bind> (\<lambda>s. Some (s, SvRet c)))"
proof -
  let ?w = "BUILD_UNLOCKED_SYNCVAR x (state_of (FEQ m \<noteq> []) (FEQ m \<noteq> [] \<and> tl (FEQ m) \<noteq> []))"
  let ?s = "UNLOCK_THIS_MODIFIED_SYNCVAR a x (state_of (FEQ m \<noteq> []) (FEQ m \<noteq> [] \<and> tl (FEQ m) \<noteq> [])) s"
  let ?Xs = "FFQ m @ take 1 (FEQ m)"
  let ?m = "m\<lparr>full := True, FFQ := [], FEQ := tl (FEQ m)\<rparr>"
  note v = view_entry [OF inv a]
  note EFQ = v(5) [OF m e]
  obtain p where p: "rec_lookup QTHREAD_CHOOSE_STRIPE (store s) a = Some p" "recs (store s) p = Some m"
    "p \<noteq> 0" "sv_get a s = Some p"
    by (rule record_of [OF inv a m])
  have run: "fill_waiters ops qok shep a x (set_word a y s)
      = (release_readers ops shep x ?Xs ?s \<bind> sv_settle p ?m a)"
    using p q gotlock_fill_eq [of ?s p m shep a x]
    by (simp add: fill_waiters_def sv_get_cong [of "set_word a y s" s])
  have "sv_sched qinv nsheps ?s" "shep < nsheps (sready ?s)"
    using sv_invD(3) [OF inv] sh by (simp_all add: sv_sched_def)
  then obtain s2 where s2: "release_readers ops shep x ?Xs ?s = Some s2"
    "sv_readied qinv tasks nsheps ?Xs ?s s2" "smem s2 = sv_deliver x ?Xs (smem ?s)"
    using release_readers_ok [of ?s shep x ?Xs] by blast
  have out: "raddr X \<notin> V" if "X \<in> set ?Xs" for X
    using that v(6) [OF m, of X] by (auto dest: in_set_takeD)
  have tl: "no_waiters ?m \<longleftrightarrow> tl (FEQ m) = []"
    using EFQ by (simp add: no_waiters_def)
  have tlV: "raddr X \<notin> V" if "X \<in> set (tl (FEQ m))" for X
    using that v(6) [OF m, of X] by (cases "FEQ m") auto
  have ok: "entry_ok V ?w (if no_waiters ?m then None else Some ?m)"
    using EFQ tl tlV entry_ok_build_None [of V x] entry_ok_build_Some [of ?m True V x] by (cases "FEQ m") auto
  have sv: "svar_of ?w (if no_waiters ?m then None else Some ?m) = fill_svar x (sv_view s a)"
    using EFQ tl v(2) [OF m] e by (cases "FEQ m"; intro svar.equality) (auto simp: svar_of_build fill_svar_def)
  have served: "sv_served (sv_view s a) = ?Xs"
    using v(2) [OF m] by (simp add: sv_served_def)
  have "sv_readied qinv tasks nsheps ?Xs s s2"
    using s2(2) by (simp add: sv_readied_def)
  moreover have "smem s2 b = ((smem s)(a := ?w)) b" if "b \<in> V" for b
    using that out s2(3) by (auto simp: sv_deliver_def)
  moreover have "smem s2 z = sv_deliver x ?Xs (smem s) z" if "z \<notin> V" for z
    using that a s2(3) by (auto simp: sv_deliver_def)
  moreover have "waiters m = waiters ?m + mset (map waiter ?Xs)"
    by (cases "FEQ m") (simp_all add: waiters_def)
  ultimately show ?thesis
    using wake_ok [OF inv small a p(1) m, of ?Xs s2 ?w "sv_deliver x ?Xs (smem s)" ?m me c] ok
    unfolding run s2(1) sv served by (simp del: take_Suc)
qed

lemma empty_waiters_ok:
  assumes inv: "sv_inv qinv nsheps V s" and small: "sv_small s" and a: "a \<in> V"
    and m: "sv_recs s a = Some m" and f: "vfull (sv_view s a)" and sh: "shep < nsheps (sready s)"
  shows "sv_step qinv tasks nsheps V me s
    (((sv_view s)(a := empty_svar (smem s) (sv_view s a)), smem s), SvRet c)
    (empty_waiters ops shep a (set_word a y s) \<bind> (\<lambda>s. Some (s, SvRet c)))"
proof -
  note v = view_entry [OF inv a]
  have q: "FEQ m = []" "FFQ m = []" "EFQ m \<noteq> []"
    using v(3,4) [OF m] f by (auto simp: no_waiters_def)
  then obtain X Xs where X: "EFQ m = X # Xs"
    by (cases "EFQ m") auto
  have out: "raddr Y \<notin> V" if "Y \<in> set (X # Xs)" for Y
    using v(6) [OF m, of Y] X that by auto
  let ?x = "smem s (raddr X)"
  let ?st = "state_of False (Xs \<noteq> [])"
  let ?w = "BUILD_UNLOCKED_SYNCVAR ?x ?st"
  let ?s = "UNLOCK_THIS_MODIFIED_SYNCVAR a ?x ?st s"
  let ?m = "m\<lparr>full := False, EFQ := Xs\<rparr>"
  obtain p where p: "rec_lookup QTHREAD_CHOOSE_STRIPE (store s) a = Some p" "recs (store s) p = Some m"
    "p \<noteq> 0" "sv_get a s = Some p"
    by (rule record_of [OF inv a m])
  have "a \<noteq> raddr X" "a \<noteq> 0"
    using out [of X] a sv_invD(6) [OF inv a] by auto
  then have run: "empty_waiters ops shep a (set_word a y s)
      = (qthread_syncvar_schedule ops (waiter X) shep ?s \<bind> sv_settle p ?m a)"
    using p q X by (simp add: empty_waiters_def qthread_syncvar_gotlock_empty_def sv_get_cong [of "set_word a y s" s]
        state_bools)
  have "sv_sched qinv nsheps ?s" "shep < nsheps (sready ?s)"
    using sv_invD(3) [OF inv] sh by (simp_all add: sv_sched_def)
  then obtain s2 where s2: "qthread_syncvar_schedule ops (waiter X) shep ?s = Some s2"
    "sv_readied qinv tasks nsheps [X] ?s s2" "smem s2 = smem ?s"
    using sv_schedule_ok by blast
  have tl: "no_waiters ?m \<longleftrightarrow> Xs = []"
    using q by (simp add: no_waiters_def)
  have ok: "entry_ok V ?w (if no_waiters ?m then None else Some ?m)"
    using q tl out entry_ok_build_None [of V ?x] entry_ok_build_Some [of ?m False V ?x] by (cases Xs) auto
  have sv: "svar_of ?w (if no_waiters ?m then None else Some ?m) = empty_svar (smem s) (sv_view s a)"
    using q tl f X v(2) [OF m] by (intro svar.equality) (auto simp: svar_of_build empty_svar_def)
  have "sv_readied qinv tasks nsheps [X] s s2"
    using s2(2) by (simp add: sv_readied_def)
  moreover have "smem s2 b = ((smem s)(a := ?w)) b" if "b \<in> V" for b
    using s2(3) by simp
  moreover have "smem s2 z = smem s z" if "z \<notin> V" for z
    using that a s2(3) by auto
  moreover have "waiters m = waiters ?m + mset (map waiter [X])"
    using X by (simp add: waiters_def)
  ultimately show ?thesis
    using wake_ok [OF inv small a p(1) m, of "[X]" s2 ?w "smem s" ?m me c] ok
    unfolding run s2(1) sv by simp
qed


end

section \<open>Each operation implements its specification\<close>

lemma rec_or_new:
  assumes inv: "sv_inv qinv nsheps V s" and a: "a \<in> V"
    and m: "m = (case sv_recs s a of None \<Rightarrow> qthread_addrstat_new | Some m \<Rightarrow> m)"
  shows "vEFQ (sv_view s a) = EFQ m" "vFEQ (sv_view s a) = FEQ m" "vFFQ (sv_view s a) = FFQ m"
    "take_bit 60 (vdata (sv_view s a)) = vdata (sv_view s a)"
    "vfull (sv_view s a) \<Longrightarrow> FEQ m = [] \<and> FFQ m = []" "\<not> vfull (sv_view s a) \<Longrightarrow> EFQ m = []"
    "X \<in> set (EFQ m) \<union> set (FEQ m) \<union> set (FFQ m) \<Longrightarrow> raddr X \<notin> V"
proof -
  note v = view_entry [OF inv a]
  show "vEFQ (sv_view s a) = EFQ m" "vFEQ (sv_view s a) = FEQ m" "vFFQ (sv_view s a) = FFQ m"
    "vfull (sv_view s a) \<Longrightarrow> FEQ m = [] \<and> FFQ m = []" "\<not> vfull (sv_view s a) \<Longrightarrow> EFQ m = []"
    using v unfolding m by (auto simp: qthread_addrstat_new_def split: option.splits)
  show "raddr X \<notin> V" if "X \<in> set (EFQ m) \<union> set (FEQ m) \<union> set (FFQ m)"
    using that v(6) [of "the (sv_recs s a)" X] unfolding m by (cases "sv_recs s a") (auto simp: qthread_addrstat_new_def)
  show "take_bit 60 (vdata (sv_view s a)) = vdata (sv_view s a)"
    by (simp add: sv_view_def svar_of_def)
qed

lemma block_reader:
  assumes inv: "sv_inv qinv nsheps V s" and small: "sv_small s" and b: "b \<in> V"
    and new: "newp \<noteq> 0" "recs (store s) newp = None" and e: "\<not> vfull (sv_view s b)" and d: "d \<notin> V"
  shows "sv_step qinv tasks nsheps V me s
      (((sv_view s)(b := (sv_view s b)\<lparr>vFFQ := \<lparr>raddr = d, waiter = me\<rparr> # vFFQ (sv_view s b)\<rparr>), smem s), SvBlocked)
      (sv_block me newp b (vdata (sv_view s b)) SYNCFEB_STATE_EMPTY_WITH_WAITERS
         (\<lambda>m. m\<lparr>FFQ := \<lparr>raddr = d, waiter = me\<rparr> # FFQ m\<rparr>) (set_word b y s))"
    "sv_step qinv tasks nsheps V me s
      (((sv_view s)(b := (sv_view s b)\<lparr>vFEQ := \<lparr>raddr = d, waiter = me\<rparr> # vFEQ (sv_view s b)\<rparr>), smem s), SvBlocked)
      (sv_block me newp b (vdata (sv_view s b)) SYNCFEB_STATE_EMPTY_WITH_WAITERS
         (\<lambda>m. m\<lparr>FEQ := \<lparr>raddr = d, waiter = me\<rparr> # FEQ m\<rparr>) (set_word b y s))"
proof -
  define m where "m = (case sv_recs s b of None \<Rightarrow> qthread_addrstat_new | Some m \<Rightarrow> m)"
  note q = rec_or_new [OF inv b m_def]
  have st: "SYNCFEB_STATE_EMPTY_WITH_WAITERS = state_of True True"
    by (simp add: sync_states state_of_cases)
  show "sv_step qinv tasks nsheps V me s
      (((sv_view s)(b := (sv_view s b)\<lparr>vFFQ := \<lparr>raddr = d, waiter = me\<rparr> # vFFQ (sv_view s b)\<rparr>), smem s), SvBlocked)
      (sv_block me newp b (vdata (sv_view s b)) SYNCFEB_STATE_EMPTY_WITH_WAITERS
         (\<lambda>m. m\<lparr>FFQ := \<lparr>raddr = d, waiter = me\<rparr> # FFQ m\<rparr>) (set_word b y s))"
    unfolding st
    by (rule block_ok [OF inv small b new m_def]) (use q e d in
      \<open>auto intro!: entry_ok_build_Some svar.equality simp: no_waiters_def waiters_def svar_of_build\<close>)
  show "sv_step qinv tasks nsheps V me s
      (((sv_view s)(b := (sv_view s b)\<lparr>vFEQ := \<lparr>raddr = d, waiter = me\<rparr> # vFEQ (sv_view s b)\<rparr>), smem s), SvBlocked)
      (sv_block me newp b (vdata (sv_view s b)) SYNCFEB_STATE_EMPTY_WITH_WAITERS
         (\<lambda>m. m\<lparr>FEQ := \<lparr>raddr = d, waiter = me\<rparr> # FEQ m\<rparr>) (set_word b y s))"
    unfolding st
    by (rule block_ok [OF inv small b new m_def]) (use q e d in
      \<open>auto intro!: entry_ok_build_Some svar.equality simp: no_waiters_def waiters_def svar_of_build\<close>)
qed

lemma block_writer:
  assumes inv: "sv_inv qinv nsheps V s" and small: "sv_small s" and a: "a \<in> V"
    and new: "newp \<noteq> 0" "recs (store s) newp = None" and f: "vfull (sv_view s a)" and b: "b \<notin> V"
  shows "sv_step qinv tasks nsheps V me s
      (((sv_view s)(a := (sv_view s a)\<lparr>vEFQ := \<lparr>raddr = b, waiter = me\<rparr> # vEFQ (sv_view s a)\<rparr>), smem s), SvBlocked)
      (sv_block me newp a (vdata (sv_view s a)) SYNCFEB_STATE_FULL_WITH_WAITERS
         (\<lambda>m. m\<lparr>EFQ := \<lparr>raddr = b, waiter = me\<rparr> # EFQ m\<rparr>) (set_word a y s))"
proof -
  define m where "m = (case sv_recs s a of None \<Rightarrow> qthread_addrstat_new | Some m \<Rightarrow> m)"
  note q = rec_or_new [OF inv a m_def]
  have st: "SYNCFEB_STATE_FULL_WITH_WAITERS = state_of False True"
    by (simp add: sync_states state_of_cases)
  show ?thesis
    unfolding st
    by (rule block_ok [OF inv small a new m_def]) (use q f b in
      \<open>auto intro!: entry_ok_build_Some svar.equality simp: no_waiters_def waiters_def svar_of_build\<close>)
qed

text \<open>With the lock bit taken.\<close>

lemma readFF_locked_ok:
  assumes inv: "sv_inv qinv nsheps V s" and b: "b \<in> V" and f: "vfull (sv_view s b)" and a: "a \<notin> V"
    and e: "pf e = False" "sf e = (sv_recs s b \<noteq> None)"
  shows "sv_step qinv tasks nsheps V me s ((sv_view s, put_word a (vdata (sv_view s b)) (smem s)), SvRet QTHREAD_SUCCESS)
    (readFF_locked a b (vdata (sv_view s b)) e (set_word b y s))"
  using store_outside [OF inv a, of "SvRet QTHREAD_SUCCESS"] unlock_same [OF inv b, of False "sf e"] f e
  by (simp add: readFF_locked_def state_bools)

context ready_queues
begin

lemma readFE_locked_ok:
  assumes inv: "sv_inv qinv nsheps V s" and small: "sv_small s" and b: "b \<in> V"
    and f: "vfull (sv_view s b)" and a: "a \<notin> V" and e: "pf e = False" "sf e = (sv_recs s b \<noteq> None)"
  shows "sv_step qinv tasks nsheps V me s
    (((sv_view s)(b := empty_svar (smem s) (sv_view s b)), put_word a (vdata (sv_view s b)) (smem s)), SvRet QTHREAD_SUCCESS)
    (readFE_locked ops me a b (vdata (sv_view s b)) e (set_word b y s))"
proof (cases "sv_recs s b")
  case None
  then have "svar_of (BUILD_UNLOCKED_SYNCVAR (vdata (sv_view s b)) SYNCFEB_STATE_EMPTY_NO_WAITERS) None
      = empty_svar (smem s) (sv_view s b)"
    using view_entry(1) [OF inv b None]
    by (intro svar.equality) (simp_all add: sync_states build_None empty_svar_def, simp add: sv_view_def svar_of_def)
  then show ?thesis
    using None e by (simp add: readFE_locked_def)
      (rule plain_write [OF inv b _ a], simp_all add: None build_None sync_states)
next
  case (Some m)
  show ?thesis
    using step_then_store [OF empty_waiters_ok [OF inv small b Some f sv_shep [OF inv]] a] Some e
    by (simp add: readFE_locked_def)
qed

lemma fill_step_None:
  assumes inv: "sv_inv qinv nsheps V s" and a: "a \<in> V" and None: "sv_recs s a = None"
  shows "sv_step qinv tasks nsheps V me s
    (((sv_view s)(a := fill_svar x (sv_view s a)), sv_deliver x (sv_served (sv_view s a)) (smem s)), SvRet c)
    (Some (UNLOCK_THIS_MODIFIED_SYNCVAR a x 0 s, SvRet c))"
proof -
  have v: "vFEQ (sv_view s a) = []" "vFFQ (sv_view s a) = []" "vEFQ (sv_view s a) = []"
    using view_entry(1) [OF inv a None] by simp_all
  then have "svar_of (BUILD_UNLOCKED_SYNCVAR x 0) None = fill_svar x (sv_view s a)"
    by (intro svar.equality) (simp_all add: build_None fill_svar_def)
  then show ?thesis
    using v by (intro plain_write0 [OF inv a]) (simp_all add: None build_None sv_served_def sv_deliver_simps)
qed

lemma writeEF_locked_ok:
  assumes inv: "sv_inv qinv nsheps V s" and small: "sv_small s" and a: "a \<in> V"
    and e: "\<not> vfull (sv_view s a)" and b: "b \<notin> V" and fl: "pf e = True" "sf e = (sv_recs s a \<noteq> None)"
  shows "sv_step qinv tasks nsheps V me s
    (((sv_view s)(a := fill_svar (smem s b) (sv_view s a)), sv_deliver (smem s b) (sv_served (sv_view s a)) (smem s)),
      SvRet QTHREAD_SUCCESS)
    (writeEF_locked ops me a b e (set_word a y s))"
proof -
  have ab: "b \<noteq> a"
    using a b by blast
  show ?thesis
  proof (cases "sv_recs s a")
    case None
    then show ?thesis
      using fill_step_None [OF inv a None] fl ab by (simp add: writeEF_locked_def sync_states)
  next
    case (Some m)
    have "readers_only m"
      using view_entry(3,5) [OF inv a Some] e by (auto simp: readers_only_def no_waiters_def)
    from fill_waiters_ok [where qok = readers_only, OF inv small a Some e this sv_shep [OF inv]] show ?thesis
      using Some fl ab by (simp add: writeEF_locked_def)
  qed
qed

end

lemmas timeouts_pos = INITIAL_TIMEOUT_def INT_MAX_def

lemma full_unlocked_iff:
  assumes "sv_inv qinv nsheps V s" "a \<in> V"
  shows "full_unlocked (smem s a) \<longleftrightarrow> vfull (sv_view s a)"
  using sv_invD(5) [OF assms] by (simp add: full_unlocked_def entry_ok_def sv_lock_def state_full_bit sv_view_def svar_of_def)

text \<open>The second part of a blocking operation, from any state the first part may leave.\<close>

lemma readFF_wait_ok:
  assumes inv: "sv_inv qinv nsheps V s" and small: "sv_small s" and b: "b \<in> V"
    and new: "newp \<noteq> 0" "recs (store s) newp = None" and a: "a \<notin> V"
  shows "sv_step qinv tasks nsheps V me s (sv_spec SV_READFF me retp a b (sv_view s, smem s))
    (readFF_wait me newp a b s)"
  using mwaitc_entry(1) [OF inv b, of INT_MAX] block_reader(1) [OF inv small b new _ a]
    readFF_locked_ok [OF inv b _ a]
  by (cases "vfull (sv_view s b)") (simp_all add: readFF_wait_def sv_spec_def Let_def timeouts_pos)

context ready_queues
begin

lemma readFE_wait_ok:
  assumes inv: "sv_inv qinv nsheps V s" and small: "sv_small s" and b: "b \<in> V"
    and new: "newp \<noteq> 0" "recs (store s) newp = None" and a: "a \<notin> V" "retp \<notin> V"
  shows "sv_step qinv tasks nsheps V me s (sv_spec SV_READFE me retp a b (sv_view s, smem s))
    (readFE_wait ops me newp retp a b s)"
  using mwaitc_entry(1) [OF inv b, of INT_MAX] block_reader(2) [OF inv small b new _ a(2)]
    readFE_locked_ok [OF inv small b _ a(1)]
  by (cases "vfull (sv_view s b)") (simp_all add: readFE_wait_def sv_spec_def Let_def timeouts_pos)

lemma writeEF_wait_ok:
  assumes inv: "sv_inv qinv nsheps V s" and small: "sv_small s" and a: "a \<in> V"
    and new: "newp \<noteq> 0" "recs (store s) newp = None" and b: "b \<notin> V"
  shows "sv_step qinv tasks nsheps V me s (sv_spec SV_WRITEEF me retp a b (sv_view s, smem s))
    (writeEF_wait ops me newp a b s)"
  using mwaitc_entry(1) [OF inv a, of INT_MAX] block_writer [OF inv small a new _ b]
    writeEF_locked_ok [OF inv small a _ b]
  by (cases "vfull (sv_view s a)") (simp_all add: writeEF_wait_def sv_spec_def Let_def timeouts_pos)

lemma readFF_ok:
  assumes inv: "sv_inv qinv nsheps V s" and small: "sv_small s" and b: "b \<in> V"
    and new: "newp \<noteq> 0" "recs (store s) newp = None" and a: "a \<notin> V"
  shows "sv_step qinv tasks nsheps V me s (sv_spec SV_READFF me retp a b (sv_view s, smem s))
      (qthread_syncvar_readFF (Some me) newp a b s)"
    "sv_step qinv tasks nsheps V me s (sv_spec SV_READFF_NB me retp a b (sv_view s, smem s))
      (qthread_syncvar_readFF_nb (Some me) a b s)"
proof -
  note i = sv_invD(1) [OF inv] sv_invD(6) [OF inv b] full_unlocked_iff [OF inv b]
  have d: "sv_data (smem s b) = vdata (sv_view s b)"
    by (simp add: sv_view_def svar_of_def)
  show "sv_step qinv tasks nsheps V me s (sv_spec SV_READFF me retp a b (sv_view s, smem s))
      (qthread_syncvar_readFF (Some me) newp a b s)"
  proof (cases "vfull (sv_view s b)")
    case True
    then show ?thesis
      using store_outside [OF inv a] i d by (simp add: qthread_syncvar_readFF_def sv_spec_def Let_def)
  next
    case False
    then show ?thesis
      using readFF_wait_ok [OF assms] mwaitc_entry(2) [OF inv b, of INITIAL_TIMEOUT] i
      by (simp add: qthread_syncvar_readFF_def timeouts_pos)
  qed
  show "sv_step qinv tasks nsheps V me s (sv_spec SV_READFF_NB me retp a b (sv_view s, smem s))
      (qthread_syncvar_readFF_nb (Some me) a b s)"
    using store_outside [OF inv a] no_change [OF inv] mwaitc_entry(2) [OF inv b, of 1] i d
    by (cases "vfull (sv_view s b)") (simp_all add: qthread_syncvar_readFF_nb_def sv_spec_def Let_def)
qed

lemma readFE_ok:
  assumes inv: "sv_inv qinv nsheps V s" and small: "sv_small s" and b: "b \<in> V" and a: "a \<notin> V"
  shows "newp \<noteq> 0 \<Longrightarrow> recs (store s) newp = None \<Longrightarrow> retp \<notin> V \<Longrightarrow>
      sv_step qinv tasks nsheps V me s (sv_spec SV_READFE me retp a b (sv_view s, smem s))
      (qthread_syncvar_readFE ops (Some me) newp retp a b s)"
    "sv_step qinv tasks nsheps V me s (sv_spec SV_READFE_NB me retp a b (sv_view s, smem s))
      (qthread_syncvar_readFE_nb ops (Some me) a b s)"
proof -
  note i = sv_invD(1) [OF inv] sv_invD(6) [OF inv b]
  show "sv_step qinv tasks nsheps V me s (sv_spec SV_READFE_NB me retp a b (sv_view s, smem s))
      (qthread_syncvar_readFE_nb ops (Some me) a b s)"
    using readFE_locked_ok [OF inv small b _ a] no_change [OF inv] mwaitc_entry(2) [OF inv b, of 1] i
    by (cases "vfull (sv_view s b)") (simp_all add: qthread_syncvar_readFE_nb_def sv_spec_def Let_def)
  assume new: "newp \<noteq> 0" "recs (store s) newp = None" and r: "retp \<notin> V"
  show "sv_step qinv tasks nsheps V me s (sv_spec SV_READFE me retp a b (sv_view s, smem s))
      (qthread_syncvar_readFE ops (Some me) newp retp a b s)"
  proof (cases "vfull (sv_view s b)")
    case True
    then show ?thesis
      using readFE_locked_ok [OF inv small b True a] mwaitc_entry(2) [OF inv b, of INITIAL_TIMEOUT] i
      by (simp add: qthread_syncvar_readFE_def sv_spec_def Let_def timeouts_pos)
  next
    case False
    then show ?thesis
      using readFE_wait_ok [OF inv small b new a r] mwaitc_entry(2) [OF inv b, of INITIAL_TIMEOUT] i
      by (simp add: qthread_syncvar_readFE_def timeouts_pos)
  qed
qed

lemma writeEF_ok:
  assumes inv: "sv_inv qinv nsheps V s" and small: "sv_small s" and a: "a \<in> V" and b: "b \<notin> V"
    and x: "drop_bit 60 (smem s b) = 0"
  shows "newp \<noteq> 0 \<Longrightarrow> recs (store s) newp = None \<Longrightarrow>
      sv_step qinv tasks nsheps V me s (sv_spec SV_WRITEEF me retp a b (sv_view s, smem s))
      (qthread_syncvar_writeEF ops (Some me) newp a b s)"
    "sv_step qinv tasks nsheps V me s (sv_spec SV_WRITEEF_NB me retp a b (sv_view s, smem s))
      (qthread_syncvar_writeEF_nb ops (Some me) a b s)"
proof -
  note i = sv_invD(1) [OF inv] x
  show "sv_step qinv tasks nsheps V me s (sv_spec SV_WRITEEF_NB me retp a b (sv_view s, smem s))
      (qthread_syncvar_writeEF_nb ops (Some me) a b s)"
    using writeEF_locked_ok [OF inv small a _ b] no_change [OF inv] mwaitc_entry(3) [OF inv a, of 1] i
    by (cases "vfull (sv_view s a)") (simp_all add: qthread_syncvar_writeEF_nb_def sv_spec_def Let_def)
  assume new: "newp \<noteq> 0" "recs (store s) newp = None"
  show "sv_step qinv tasks nsheps V me s (sv_spec SV_WRITEEF me retp a b (sv_view s, smem s))
      (qthread_syncvar_writeEF ops (Some me) newp a b s)"
  proof (cases "vfull (sv_view s a)")
    case True
    then show ?thesis
      using writeEF_wait_ok [OF inv small a new b] mwaitc_entry(3) [OF inv a, of INITIAL_TIMEOUT] i
      by (simp add: qthread_syncvar_writeEF_def timeouts_pos)
  next
    case False
    then show ?thesis
      using writeEF_locked_ok [OF inv small a False b] mwaitc_entry(3) [OF inv a, of INITIAL_TIMEOUT] i
      by (simp add: qthread_syncvar_writeEF_def sv_spec_def Let_def timeouts_pos)
  qed
qed

lemma fill_ok:
  assumes inv: "sv_inv qinv nsheps V s" and small: "sv_small s" and a: "a \<in> V"
    and sh: "shep < nsheps (sready s)"
  shows "sv_step qinv tasks nsheps V me s (sv_spec SV_FILL me retp a b (sv_view s, smem s))
    (qthread_syncvar_fill ops (Some shep) a s)"
proof -
  note i = sv_invD(1) [OF inv] sv_invD(6) [OF inv a] mwaitc_entry(1) [OF inv a, of INT_MAX]
  show ?thesis
  proof (cases "vfull (sv_view s a)")
    case True
    then show ?thesis
      using no_change [OF inv] unlock_same [OF inv a, of False "sv_recs s a \<noteq> None"] i
      by (simp add: qthread_syncvar_fill_def sv_spec_def Let_def timeouts_pos state_bools)
  next
    case False
    show ?thesis
    proof (cases "sv_recs s a")
      case None
      then show ?thesis
        using fill_step_None [OF inv a None] i False
        by (simp add: qthread_syncvar_fill_def sv_spec_def Let_def timeouts_pos)
    next
      case (Some m)
      have "readers_only m"
        using view_entry(3,5) [OF inv a Some] False by (auto simp: readers_only_def no_waiters_def)
      from fill_waiters_ok [where qok = readers_only, OF inv small a Some False this sh] show ?thesis
        using i False Some by (simp add: qthread_syncvar_fill_def sv_spec_def Let_def timeouts_pos)
    qed
  qed
qed

lemma empty_ok:
  assumes inv: "sv_inv qinv nsheps V s" and small: "sv_small s" and a: "a \<in> V"
    and sh: "shep < nsheps (sready s)"
  shows "sv_step qinv tasks nsheps V me s (sv_spec SV_EMPTY me retp a b (sv_view s, smem s))
    (qthread_syncvar_empty ops (Some shep) a s)"
proof -
  note i = sv_invD(1) [OF inv] sv_invD(6) [OF inv a] mwaitc_entry(1) [OF inv a, of INT_MAX]
  show ?thesis
  proof (cases "vfull (sv_view s a)")
    case False
    then show ?thesis
      using no_change [OF inv] unlock_same [OF inv a, of True "sv_recs s a \<noteq> None"] i
      by (simp add: qthread_syncvar_empty_def sv_spec_def Let_def timeouts_pos sync_states state_bools)
  next
    case True
    show ?thesis
    proof (cases "sv_recs s a")
      case None
      have "svar_of (BUILD_UNLOCKED_SYNCVAR (vdata (sv_view s a)) 2) None = empty_svar (smem s) (sv_view s a)"
        using view_entry(1) [OF inv a None]
        by (intro svar.equality) (simp_all add: build_None empty_svar_def, simp add: sv_view_def svar_of_def)
      moreover have "sv_step qinv tasks nsheps V me s
          (((sv_view s)(a := svar_of (BUILD_UNLOCKED_SYNCVAR (vdata (sv_view s a)) 2) None), smem s), SvRet QTHREAD_SUCCESS)
          (Some (UNLOCK_THIS_MODIFIED_SYNCVAR a (vdata (sv_view s a)) 2 s, SvRet QTHREAD_SUCCESS))"
        by (rule plain_write0 [OF inv a]) (simp_all add: None build_None)
      ultimately show ?thesis
        using i True None by (simp add: qthread_syncvar_empty_def sv_spec_def Let_def timeouts_pos sync_states)
    next
      case (Some m)
      from empty_waiters_ok [OF inv small a Some True sh] show ?thesis
        using i True Some by (simp add: qthread_syncvar_empty_def sv_spec_def Let_def timeouts_pos)
    qed
  qed
qed

lemma writeF_ok:
  assumes inv: "sv_inv qinv nsheps V s" and small: "sv_small s" and a: "a \<in> V" and b: "b \<notin> V"
    and sh: "shep < nsheps (sready s)" and x: "drop_bit 60 (smem s b) = 0" and w: "vEFQ (sv_view s a) = []"
  shows "sv_step qinv tasks nsheps V me s (sv_spec SV_WRITEF me retp a b (sv_view s, smem s))
    (qthread_syncvar_writeF ops (Some shep) a b s)"
proof -
  note i = sv_invD(1) [OF inv] mwaitc_entry(1) [OF inv a, of INT_MAX] x
  show ?thesis
  proof (cases "sv_recs s a")
    case None
    then show ?thesis
      using fill_step_None [OF inv a None] i
      by (simp add: qthread_syncvar_writeF_def sv_spec_def Let_def timeouts_pos)
  next
    case (Some m)
    have e: "\<not> vfull (sv_view s a)"
      using view_entry(2-4) [OF inv a Some] w by (auto simp: no_waiters_def)
    have "readers_only m"
      using view_entry(3,5) [OF inv a Some] e by (auto simp: readers_only_def no_waiters_def)
    from fill_waiters_ok [where qok = readers_only, OF inv small a Some e this sh] show ?thesis
      using i e Some by (simp add: qthread_syncvar_writeF_def sv_spec_def Let_def timeouts_pos)
  qed
qed

lemma incrF_ok:
  assumes inv: "sv_inv qinv nsheps V s" and small: "sv_small s" and a: "a \<in> V"
    and w: "vFEQ (sv_view s a) = []"
  shows "sv_step qinv tasks nsheps V me s (sv_spec SV_INCR me retp a b (sv_view s, smem s))
    (qthread_syncvar_incrF ops (Some me) incp a (smem s b) s)"
proof -
  note i = sv_invD(1) [OF inv] sv_invD(6) [OF inv a] mwaitc_entry(1) [OF inv a, of INT_MAX]
  let ?x = "vdata (sv_view s a) + smem s b"
  have d: "sv_data (smem s a) = vdata (sv_view s a)"
    by (simp add: sv_view_def svar_of_def)
  show ?thesis
  proof (cases "\<not> vfull (sv_view s a) \<and> sv_recs s a \<noteq> None")
    case True
    then obtain m where m: "sv_recs s a = Some m" and e: "\<not> vfull (sv_view s a)"
      by blast
    have q: "incrF_queues_ok m" "vFFQ (sv_view s a) \<noteq> []"
      using view_entry(2,3,5) [OF inv a m] e w by (auto simp: incrF_queues_ok_def no_waiters_def)
    from fill_waiters_ok [where qok = incrF_queues_ok, OF inv small a m e q(1) sv_shep [OF inv]] show ?thesis
      using i e m q(2) by (simp add: qthread_syncvar_incrF_def sv_spec_def Let_def timeouts_pos data_locked d)
  next
    case False
    then have ff: "vfull (sv_view s a) \<or> vFFQ (sv_view s a) = []"
      using view_entry(1) [OF inv a] by blast
    let ?st = "state_of (\<not> vfull (sv_view s a)) (sv_recs s a \<noteq> None)"
    have st: "?st = state_of (bit (smem s a) 2) (bit (smem s a) 1)"
      using sv_invD(5) [OF inv a] by (simp add: entry_ok_def sv_view_def svar_of_def)
    note ed = entry_ok_data [OF sv_invD(5) [OF inv a], of ?x, folded st]
    have "sv_step qinv tasks nsheps V me s
        (((sv_view s)(a := (sv_view s a)\<lparr>vdata := take_bit 60 ?x\<rparr>), smem s), SvRet (uint ?x))
        (Some (UNLOCK_THIS_MODIFIED_SYNCVAR a ?x ?st s, SvRet (uint ?x)))"
    proof (rule plain_write0 [OF inv a ed(1)])
      show "fst (fst (((sv_view s)(a := (sv_view s a)\<lparr>vdata := take_bit 60 ?x\<rparr>), smem s), SvRet (uint ?x)))
          = (sv_view s)(a := svar_of (BUILD_UNLOCKED_SYNCVAR ?x ?st) (sv_recs s a))"
        unfolding ed(2) by (simp add: sv_view_def [symmetric])
    qed simp_all
    then show ?thesis
      using i ff False by (auto simp: qthread_syncvar_incrF_def sv_spec_def Let_def timeouts_pos data_locked d)
  qed
qed

text \<open>Every operation, as dispatched on behalf of a caller outside of a qthread.\<close>

lemma sv_refines:
  assumes inv: "sv_inv qinv nsheps V s" and small: "sv_small s"
    and call: "sv_call_ok V ty retp a b s"
    and new: "newp \<noteq> 0" "recs (store s) newp = None"
  shows "sv_step qinv tasks nsheps V me s (sv_spec ty me retp a b (sv_view s, smem s))
    (qthread_syncvar_blocker_thread ops me newp retp ty a b s)"
  using call fill_ok [OF inv small, of a "shepherd_ptr (sthreads s me)" me retp b]
    empty_ok [OF inv small, of a "shepherd_ptr (sthreads s me)" me retp b]
    writeF_ok [OF inv small, of a b "shepherd_ptr (sthreads s me)" me retp]
    writeEF_ok(1) [OF inv small, of a b newp me retp] writeEF_ok(2) [OF inv small, of a b me retp]
    readFF_ok [OF inv small _ new, of b a me retp]
    readFE_ok(1) [OF inv small, of b a newp retp me] readFE_ok(2) [OF inv small, of b a me retp]
    incrF_ok [OF inv small, of a me retp b retp] sv_shep [OF inv, of me] new
  by (cases ty) (simp_all add: qthread_syncvar_blocker_thread_def sv_call_ok_def sv_word_def)

end

end
