(* ===== verification/Feb_Release.thy ===== *)
theory Feb_Release
  imports Feb_Inv
begin

text \<open>
  What filling and emptying a word do to its waiters. For a record that satisfies its
  invariant the mutually recursive release loops have closed forms: \<open>fill_result\<close>,
  \<open>empty_result\<close> and the delivery of the word to the readers. The lemmas hold for every
  scheduler that satisfies the laws of \<open>ready_queues\<close>.
\<close>

section \<open>Closed forms\<close>

definition fill_result :: "addrstat \<Rightarrow> addrstat" where
  "fill_result m = (case FEQ m of
     [] \<Rightarrow> m\<lparr>full := True, FFQ := []\<rparr>
   | X # Xs \<Rightarrow> m\<lparr>full := False, FFQ := [], FEQ := Xs\<rparr>)"

definition empty_result :: "addrstat \<Rightarrow> addrstat" where
  "empty_result m = (case EFQ m of
     [] \<Rightarrow> m\<lparr>full := False\<rparr>
   | X # Xs \<Rightarrow> m\<lparr>full := True, EFQ := Xs\<rparr>)"

text \<open>The readers a fill serves, and the writer an empty serves.\<close>

definition fill_served :: "addrstat \<Rightarrow> addrres list" where
  "fill_served m = FFQ m @ take 1 (FEQ m)"

definition empty_served :: "addrstat \<Rightarrow> addrres list" where
  "empty_served m = take 1 (EFQ m)"

definition nascent :: "(tid \<Rightarrow> qthread) \<Rightarrow> addrres \<Rightarrow> bool" where
  "nascent th X \<longleftrightarrow> thread_state (th (waiter X)) = NASCENT"

definition run_threads :: "tid set \<Rightarrow> (tid \<Rightarrow> qthread) \<Rightarrow> tid \<Rightarrow> qthread" where
  "run_threads T th = (\<lambda>t. if t \<in> T then (th t)\<lparr>thread_state := RUNNING\<rparr> else th t)"

definition deliver :: "u64 \<Rightarrow> addrres list \<Rightarrow> (u64 \<Rightarrow> u64) \<Rightarrow> u64 \<Rightarrow> u64" where
  "deliver maddr Xs mm = (\<lambda>a. if a \<noteq> 0 \<and> a \<in> raddr ` set Xs then mm maddr else mm a)"

definition accept :: "u64 \<Rightarrow> addrres list \<Rightarrow> (u64 \<Rightarrow> u64) \<Rightarrow> u64 \<Rightarrow> u64" where
  "accept maddr Xs mm = (case Xs of [] \<Rightarrow> mm | X # _ \<Rightarrow> mm(maddr := mm (raddr X)))"

lemma fill_result_ok: "addrstat_ok m \<Longrightarrow> addrstat_ok (fill_result m)"
  by (auto simp: addrstat_ok_def fill_result_def split: list.splits if_splits)

lemma empty_result_ok: "addrstat_ok m \<Longrightarrow> addrstat_ok (empty_result m)"
  by (auto simp: addrstat_ok_def empty_result_def split: list.splits if_splits)

lemma fill_result_waiters:
  "waiters m = waiters (fill_result m) + mset (map waiter (fill_served m))"
  by (auto simp: waiters_def fill_result_def fill_served_def split: list.splits)

lemma empty_result_waiters:
  "waiters m = waiters (empty_result m) + mset (map waiter (empty_served m))"
  by (auto simp: waiters_def empty_result_def empty_served_def split: list.splits)

lemma fill_result_full: "addrstat_ok m \<Longrightarrow> full m \<Longrightarrow> fill_result m = m \<and> fill_served m = []"
  by (simp add: addrstat_ok_def fill_result_def fill_served_def)

lemma run_threads_Un: "run_threads A (run_threads B th) = run_threads (A \<union> B) th"
  by (auto simp: run_threads_def)

lemma run_threads_nascent:
  "\<forall>t \<in> T. thread_state (th t) \<noteq> NASCENT \<Longrightarrow> nascent (run_threads T th) = nascent th"
  by (auto simp: run_threads_def nascent_def fun_eq_iff)

lemma thread_ok_run [simp]: "thread_ok n (run_threads T th t) = thread_ok n (th t)"
  by (simp add: run_threads_def thread_ok_def)

section \<open>Making threads ready\<close>

text \<open>
  The effect of making the threads \<open>Xs\<close> ready: the tables stay, the threads run, and they
  are in the ready queues.
\<close>

definition readied :: "('q \<Rightarrow> tid multiset) \<Rightarrow> ('q \<Rightarrow> nat) \<Rightarrow> addrres list \<Rightarrow> 'q feb_state \<Rightarrow> 'q feb_state
    \<Rightarrow> bool" where
  "readied tasks nsheps Xs s s' \<longleftrightarrow> tabs s' = tabs s \<and> nsheps (ready s') = nsheps (ready s)
     \<and> tasks (ready s') = tasks (ready s) + mset (map waiter Xs)
     \<and> threads s' = run_threads (waiter ` set Xs) (threads s)"

lemma readied_Nil: "readied tasks nsheps [] s s"
  by (simp add: readied_def run_threads_def)

lemma readied_trans:
  "readied tasks nsheps Xs s s' \<Longrightarrow> readied tasks nsheps Ys s' s'' \<Longrightarrow> readied tasks nsheps (Xs @ Ys) s s''"
  by (auto simp: readied_def run_threads_Un image_Un Un_commute)

lemma readied_sched_ok:
  "readied tasks nsheps Xs s s' \<Longrightarrow> qinv (ready s') \<Longrightarrow> sched_ok qinv nsheps s \<Longrightarrow> sched_ok qinv nsheps s'"
  by (simp add: readied_def sched_ok_def)

lemma readied_copy_word [simp]:
  "readied tasks nsheps Xs (copy_word d a s) s' = readied tasks nsheps Xs s s'"
  by (simp add: readied_def)

lemma sched_ok_copy_word [simp]: "sched_ok qinv nsheps (copy_word d a s) = sched_ok qinv nsheps s"
  by (simp add: sched_ok_def)

context ready_queues
begin

lemma schedule_ok:
  assumes "sched_ok qinv nsheps s" "shep < nsheps (ready s)"
  obtains s' where "qt_feb_schedule ops (waiter X) shep s = Some s'" "sched_ok qinv nsheps s'"
    "readied tasks nsheps [X] s s'" "mem s' = mem s"
proof -
  let ?w = "waiter X"
  let ?s = "upd_thread ?w (\<lambda>t. t\<lparr>thread_state := RUNNING\<rparr>) s"
  have q: "qinv (ready s)" "shepherd_ptr (threads s ?w) < nsheps (ready s)"
    using assms by (simp_all add: sched_ok_def thread_ok_def)
  have "\<exists>q'. qt_feb_schedule ops ?w shep s = Some (?s\<lparr>ready := q'\<rparr>) \<and> qinv q'
      \<and> tasks q' = add_mset ?w (tasks (ready s)) \<and> nsheps q' = nsheps (ready s)"
    using enqueue_law [OF q, of ?w "flags (threads s ?w)"]
      spawn_or_enqueue_law [OF q(1) assms(2), of ?w "flags (threads s ?w)"]
    by (auto simp: qt_feb_schedule_def Let_def)
  then obtain q' where q': "qt_feb_schedule ops ?w shep s = Some (?s\<lparr>ready := q'\<rparr>)" "qinv q'"
    "tasks q' = add_mset ?w (tasks (ready s))" "nsheps q' = nsheps (ready s)"
    by blast
  have r: "readied tasks nsheps [X] s (?s\<lparr>ready := q'\<rparr>)"
    using q' by (auto simp: readied_def run_threads_def)
  show ?thesis
    using that [OF q'(1) readied_sched_ok [OF r _ assms(1)] r] q' by simp
qed

section \<open>The release loops\<close>

lemma release_FFQ_ok:
  assumes "sched_ok qinv nsheps s" "shep < nsheps (ready s)"
  shows "\<exists>s'. release_FFQ ops shep maddr Xs (s, pre) = Some (s', pre @ filter (nascent (threads s)) Xs)
    \<and> sched_ok qinv nsheps s' \<and> mem s' = deliver maddr Xs (mem s)
    \<and> readied tasks nsheps (filter (\<lambda>X. \<not> nascent (threads s) X) Xs) s s'"
  using assms
proof (induction Xs arbitrary: s pre)
  case Nil
  then show ?case
    by (simp add: readied_Nil deliver_def)
next
  case (Cons X Xs)
  let ?s = "copy_word (raddr X) maddr s"
  have m: "deliver maddr Xs (mem ?s) = deliver maddr (X # Xs) (mem s)"
    by (auto simp: deliver_def put_word_def)
  show ?case
  proof (cases "nascent (threads s) X")
    case True
    then show ?thesis
      using Cons.IH [of ?s "pre @ [X]"] Cons.prems m by (simp add: nascent_def)
  next
    case False
    obtain s1 where s1: "qt_feb_schedule ops (waiter X) shep ?s = Some s1" "sched_ok qinv nsheps s1"
      "readied tasks nsheps [X] ?s s1" "mem s1 = mem ?s"
      using schedule_ok [of ?s shep X] Cons.prems by auto
    have th: "nascent (threads s1) = nascent (threads s)"
      using s1(3) False by (auto simp: readied_def nascent_def intro!: run_threads_nascent)
    have "shep < nsheps (ready s1)"
      using s1(3) Cons.prems by (simp add: readied_def)
    from Cons.IH [OF s1(2) this, of pre] obtain s' where
      s': "release_FFQ ops shep maddr Xs (s1, pre) = Some (s', pre @ filter (nascent (threads s)) Xs)"
      "sched_ok qinv nsheps s'" "mem s' = deliver maddr Xs (mem s1)"
      "readied tasks nsheps (filter (\<lambda>X. \<not> nascent (threads s) X) Xs) s1 s'"
      unfolding th by blast
    then show ?thesis
      using False s1 m readied_trans [OF s1(3) s'(4)] by (simp flip: nascent_def)
  qed
qed

lemma fill_inner_ok:
  assumes "sched_ok qinv nsheps s" "shep < nsheps (ready s)" "addrstat_ok m"
  shows "\<exists>s'. gotlock_fill_inner ops shep maddr (m, s, []) =
      Some (fill_result m, s', filter (nascent (threads s)) (FFQ m))
    \<and> sched_ok qinv nsheps s' \<and> mem s' = deliver maddr (fill_served m) (mem s)
    \<and> readied tasks nsheps (filter (\<lambda>X. \<not> nascent (threads s) X) (FFQ m) @ take 1 (FEQ m)) s s'"
proof -
  obtain s1 where s1: "release_FFQ ops shep maddr (FFQ m) (s, []) =
      Some (s1, filter (nascent (threads s)) (FFQ m))"
    "sched_ok qinv nsheps s1" "mem s1 = deliver maddr (FFQ m) (mem s)"
    "readied tasks nsheps (filter (\<lambda>X. \<not> nascent (threads s) X) (FFQ m)) s s1"
    using release_FFQ_ok [OF assms(1,2), of maddr "FFQ m" "[]"] by auto
  show ?thesis
  proof (cases "FEQ m")
    case Nil
    then show ?thesis
      using s1 by (simp add: fill_result_def fill_served_def)
  next
    case (Cons X Xs)
    let ?s1 = "copy_word (raddr X) maddr s1"
    have "shep < nsheps (ready ?s1)"
      using s1(4) assms(2) by (simp add: readied_def)
    then obtain s2 where s2: "qt_feb_schedule ops (waiter X) shep ?s1 = Some s2"
      "sched_ok qinv nsheps s2" "readied tasks nsheps [X] s1 s2" "mem s2 = mem ?s1"
      using schedule_ok [of ?s1 shep X] s1(2) by auto
    have "mem s2 = deliver maddr (fill_served m) (mem s)"
      using s1(3) s2(4) Cons by (auto simp: deliver_def fill_served_def put_word_def)
    moreover have "EFQ m = []"
      using assms(3) Cons by (auto simp: addrstat_ok_def split: if_splits)
    ultimately show ?thesis
      using Cons s1 s2 readied_trans [OF s1(4) s2(3)]
      by (auto simp: fill_result_def)
  qed
qed

lemma empty_inner_ok:
  assumes "sched_ok qinv nsheps s" "shep < nsheps (ready s)" "addrstat_ok m" "maddr \<noteq> 0"
  shows "\<exists>s'. gotlock_empty_inner ops shep maddr (m, s, []) = Some (empty_result m, s', [])
    \<and> sched_ok qinv nsheps s' \<and> mem s' = accept maddr (EFQ m) (mem s)
    \<and> readied tasks nsheps (empty_served m) s s'"
proof (cases "EFQ m")
  case Nil
  then show ?thesis
    using assms by (simp add: empty_result_def empty_served_def accept_def readied_Nil)
next
  case (Cons X Xs)
  let ?s = "copy_word maddr (raddr X) s"
  obtain s1 where s1: "qt_feb_schedule ops (waiter X) shep ?s = Some s1"
    "sched_ok qinv nsheps s1" "readied tasks nsheps [X] s s1" "mem s1 = mem ?s"
    using schedule_ok [of ?s shep X] assms by auto
  have "full m" "FEQ m = []" "FFQ m = []"
    using assms(3) Cons by (auto simp: addrstat_ok_def split: if_splits)
  then show ?thesis
    using Cons s1 assms(4) by (simp add: empty_result_def empty_served_def accept_def put_word_def)
qed

end

end
