(* ===== verification/Feb_Ops.thy ===== *)
theory Feb_Ops
  imports Feb_Release
begin

text \<open>
  The whole operations on a word: tasks with preconditions, filling and emptying with the
  record locked, and the entry points of \<open>feb.c\<close>, each with its effect on the abstract
  state of the words (\<open>feb_view\<close>), on memory, and on the set of waiting and ready threads.
\<close>

section \<open>Preconditions\<close>

definition add_ffq :: "tid \<Rightarrow> addrstat \<Rightarrow> addrstat" where
  "add_ffq t m = m\<lparr>FFQ := \<lparr>raddr = 0, waiter = t\<rparr> # FFQ m\<rparr>"

lemma add_ffq_ok: "\<not> full m \<Longrightarrow> addrstat_ok m \<Longrightarrow> addrstat_ok (add_ffq t m)"
  by (simp add: addrstat_ok_def add_ffq_def)

lemma add_ffq_waiters: "waiters (add_ffq t m) = add_mset t (waiters m)"
  by (simp add: waiters_def add_ffq_def)

definition queue_on :: "tid \<Rightarrow> u64 option \<Rightarrow> (u64 \<Rightarrow> addrstat) \<Rightarrow> u64 \<Rightarrow> addrstat" where
  "queue_on t w v = (case w of None \<Rightarrow> v | Some a \<Rightarrow> v(a := add_ffq t (v a)))"

definition missing :: "'q feb_state \<Rightarrow> u64 list \<Rightarrow> u64 option" where
  "missing s ps = List.find (\<lambda>a. \<not> full (feb_view s a)) ps"

lemma preconds_loop_ok:
  assumes "tables_ok s" "\<forall>a \<in> set ps. good_addr a" "\<forall>u. thread_ok n (threads s u)"
  shows "\<exists>s'. check_preconds_loop t ps s = Some (s', missing s ps \<noteq> None)
    \<and> tables_ok s' \<and> febs s' = febs s \<and> ready s' = ready s \<and> mem s' = mem s
    \<and> feb_view s' = queue_on t (missing s ps) (feb_view s)
    \<and> all_waiters s' = all_waiters s + (if missing s ps = None then {#} else {#t#})
    \<and> (\<forall>u. thread_ok n (threads s' u)) \<and> (\<forall>u. u \<noteq> t \<longrightarrow> threads s' u = threads s u)"
  using assms
proof (induction ps arbitrary: s)
  case Nil
  then show ?case
    by (simp add: missing_def queue_on_def)
next
  case (Cons a ps)
  have good: "good_addr a" "QALIGN a = a"
    using Cons.prems(2) by (simp_all add: good_addr_def)
  let ?dec = "upd_thread t (\<lambda>th. th\<lparr>preconds := Some (rev ps)\<rparr>) s"
  note dec = tabs_cong [of ?dec s, simplified]
  have "\<forall>u. thread_ok n (threads ?dec u)"
    using Cons.prems by (simp add: thread_ok_def)
  from Cons.IH [of ?dec, OF _ _ this] Cons.prems
  have IH: "\<exists>s'. check_preconds_loop t ps ?dec = Some (s', missing s ps \<noteq> None)
    \<and> tables_ok s' \<and> febs s' = febs s \<and> ready s' = ready s \<and> mem s' = mem s
    \<and> feb_view s' = queue_on t (missing s ps) (feb_view s)
    \<and> all_waiters s' = all_waiters s + (if missing s ps = None then {#} else {#t#})
    \<and> (\<forall>u. thread_ok n (threads s' u)) \<and> (\<forall>u. u \<noteq> t \<longrightarrow> threads s' u = threads s u)"
    by (auto simp: dec missing_def)
  show ?case
  proof (cases "feb_lookup s a")
    case None
    then have "full (feb_view s a)" "feb_get s (QTHREAD_CHOOSE_STRIPE2 a) a = Some 0"
      using feb_get_ok [OF Cons.prems(1) good(1)]
      by (simp_all add: feb_view_def qthread_addrstat_new_def)
    then show ?thesis
      using IH good by (simp add: missing_def)
  next
    case (Some p)
    obtain m where m: "stats s p = Some m" "addrstat_ok m" "p \<noteq> 0" "feb_view s a = m"
      by (rule lookup_record [OF Cons.prems(1) Some])
    have get: "feb_get s (QTHREAD_CHOOSE_STRIPE2 a) a = Some p"
      using feb_get_ok [OF Cons.prems(1) good(1)] Some by simp
    show ?thesis
    proof (cases "full m")
      case True
      then show ?thesis
        using IH good get m by (simp add: missing_def)
    next
      case False
      let ?s1 = "set_stat p (add_ffq t m) s"
      let ?s' = "upd_thread t (\<lambda>th. th\<lparr>thread_state := NASCENT\<rparr>) ?s1"
      note t1 = tabs_cong [of ?s' ?s1, simplified]
      have "check_preconds_loop t (a # ps) s = Some (?s', True)"
        using good get m False by (simp add: add_ffq_def)
      moreover have "missing s (a # ps) = Some a"
        using m False by (simp add: missing_def)
      moreover have "tables_ok ?s1"
        using Cons.prems(1) m add_ffq_ok [OF False] by (intro set_stat_tables) auto
      moreover have "feb_view ?s1 = (feb_view s)(a := add_ffq t (feb_view s a))"
        using set_stat_view [OF Cons.prems(1) Some] m by simp
      moreover have "all_waiters ?s1 = all_waiters s + {#t#}"
        using set_stat_waiters [OF Cons.prems(1) m(1), of "add_ffq t m"] by (simp add: add_ffq_waiters)
      moreover have "\<forall>u. thread_ok n (threads ?s' u)"
        using Cons.prems(3) by (simp add: thread_ok_def)
      ultimately show ?thesis
        by (simp add: t1 queue_on_def fun_upd_def)
    qed
  qed
qed

text \<open>
  A task whose preconditions are all full becomes new; otherwise it waits in the queue of
  an empty word.
\<close>

lemma check_preconds_ok:
  fixes s :: "'q feb_state" and t :: tid
  defines "ps \<equiv> (case preconds (threads s t) of None \<Rightarrow> [] | Some ps \<Rightarrow> rev ps)"
  assumes "tables_ok s" "\<forall>u. thread_ok n (threads s u)"
  shows "\<exists>s'. qthread_check_feb_preconds t s = Some (s', missing s ps \<noteq> None)
    \<and> tables_ok s' \<and> febs s' = febs s \<and> ready s' = ready s \<and> mem s' = mem s
    \<and> feb_view s' = queue_on t (missing s ps) (feb_view s)
    \<and> all_waiters s' = all_waiters s + (if missing s ps = None then {#} else {#t#})
    \<and> (\<forall>u. thread_ok n (threads s' u)) \<and> (\<forall>u. u \<noteq> t \<longrightarrow> threads s' u = threads s u)"
proof -
  have "\<forall>a \<in> set ps. good_addr a"
    using assms(3) unfolding ps_def
    by (cases "preconds (threads s t)") (auto simp: thread_ok_def)
  from preconds_loop_ok [OF assms(2) this assms(3), of t] obtain s' where
    s': "check_preconds_loop t ps s = Some (s', missing s ps \<noteq> None)"
    "tables_ok s'" "febs s' = febs s" "ready s' = ready s" "mem s' = mem s"
    "feb_view s' = queue_on t (missing s ps) (feb_view s)"
    "all_waiters s' = all_waiters s + (if missing s ps = None then {#} else {#t#})"
    "\<forall>u. thread_ok n (threads s' u)" "\<forall>u. u \<noteq> t \<longrightarrow> threads s' u = threads s u"
    by blast
  let ?s'' = "upd_thread t (\<lambda>th. th\<lparr>thread_state := NEW, preconds := None\<rparr>) s'"
  note t1 = tabs_cong [of ?s'' s', simplified]
  have "\<forall>u. thread_ok n (threads ?s'' u)"
    using s'(8) by (simp add: thread_ok_def)
  then show ?thesis
    using s' by (auto simp: qthread_check_feb_preconds_def t1 simp flip: ps_def)
qed

section \<open>Extending the queues of waiting tasks\<close>

text \<open>Tasks that wait for their preconditions may be added to the reader queues of empty words.\<close>

definition ffq_ext :: "tid set \<Rightarrow> (u64 \<Rightarrow> addrstat) \<Rightarrow> (u64 \<Rightarrow> addrstat) \<Rightarrow> bool" where
  "ffq_ext N v v' \<longleftrightarrow> (\<forall>a. \<exists>ys. v' a = (v a)\<lparr>FFQ := ys @ FFQ (v a)\<rparr> \<and> waiter ` set ys \<subseteq> N
     \<and> (full (v a) \<longrightarrow> ys = []))"

lemma ffq_ext_refl: "ffq_ext N v v"
  by (auto simp: ffq_ext_def intro!: exI [of _ "[]"])

lemma ffq_ext_trans:
  assumes "ffq_ext M v v'" "ffq_ext N v' v''"
  shows "ffq_ext (M \<union> N) v v''"
  unfolding ffq_ext_def
proof
  fix a
  obtain ys where ys: "v' a = (v a)\<lparr>FFQ := ys @ FFQ (v a)\<rparr>" "waiter ` set ys \<subseteq> M" "full (v a) \<longrightarrow> ys = []"
    using assms(1) unfolding ffq_ext_def by blast
  obtain zs where zs: "v'' a = (v' a)\<lparr>FFQ := zs @ FFQ (v' a)\<rparr>" "waiter ` set zs \<subseteq> N" "full (v' a) \<longrightarrow> zs = []"
    using assms(2) unfolding ffq_ext_def by blast
  show "\<exists>ys. v'' a = (v a)\<lparr>FFQ := ys @ FFQ (v a)\<rparr> \<and> waiter ` set ys \<subseteq> M \<union> N \<and> (full (v a) \<longrightarrow> ys = [])"
    by (rule exI [of _ "zs @ ys"]) (use ys zs in auto)
qed

lemma ffq_ext_queue_on: "ffq_ext {t} (feb_view s) (queue_on t (missing s ps) (feb_view s))"
  by (auto simp: ffq_ext_def queue_on_def missing_def add_ffq_def dest: find_SomeD
      split: option.splits intro: exI [of _ "[]"] exI [of _ "[\<lparr>raddr = 0, waiter = t\<rparr>]"])

lemma ffq_ext_empty: "ffq_ext {} v v' \<Longrightarrow> v' = v"
  by (fastforce simp: ffq_ext_def fun_eq_iff)

lemma ffq_ext_fields:
  assumes "ffq_ext N v v'"
  shows "full (v' a) = full (v a)" "EFQ (v' a) = EFQ (v a)" "FEQ (v' a) = FEQ (v a)"
    "full (v a) \<Longrightarrow> v' a = v a"
proof -
  obtain ys where ys: "v' a = (v a)\<lparr>FFQ := ys @ FFQ (v a)\<rparr>" "full (v a) \<longrightarrow> ys = []"
    using assms unfolding ffq_ext_def by blast
  then show "full (v' a) = full (v a)" "EFQ (v' a) = EFQ (v a)" "FEQ (v' a) = FEQ (v a)"
    "full (v a) \<Longrightarrow> v' a = v a"
    by auto
qed

section \<open>Filling and emptying with the record locked\<close>

text \<open>All threads the state knows of that are not running: those in a queue of a word and
  those in a ready queue.\<close>

definition accounted :: "('q \<Rightarrow> tid multiset) \<Rightarrow> 'q feb_state \<Rightarrow> tid multiset" where
  "accounted tasks s = tasks (ready s) + all_waiters s"

lemma feb_invD:
  "feb_inv qinv nsheps s \<Longrightarrow> tables_ok s" "feb_inv qinv nsheps s \<Longrightarrow> sched_ok qinv nsheps s"
  by (simp_all add: feb_inv_def)

lemma sched_okD:
  "sched_ok qinv nsheps s \<Longrightarrow> qinv (ready s)"
  "sched_ok qinv nsheps s \<Longrightarrow> thread_ok (nsheps (ready s)) (threads s t)"
  by (simp_all add: sched_ok_def)

lemma feb_inv_copy_word [simp]: "feb_inv qinv nsheps (copy_word d a s) = feb_inv qinv nsheps s"
  by (simp add: feb_inv_def tabs_cong(8) [of "copy_word d a s" s])

lemma copy_word_tables [simp]:
  "feb_lookup (copy_word d a s) = feb_lookup s" "feb_view (copy_word d a s) = feb_view s"
  "feb_small (copy_word d a s) = feb_small s" "stats (copy_word d a s) = stats s"
  "accounted tasks (copy_word d a s) = accounted tasks s"
  using tabs_cong [of "copy_word d a s" s] by (simp_all add: accounted_def)

context ready_queues
begin

lemma precond_launch_ok:
  assumes "feb_inv qinv nsheps s" "shep < nsheps (ready s)"
  shows "\<exists>s'. qthread_precond_launch ops shep Xs s = Some s' \<and> feb_inv qinv nsheps s'
    \<and> febs s' = febs s \<and> mem s' = mem s \<and> nsheps (ready s') = nsheps (ready s)
    \<and> ffq_ext (waiter ` set Xs) (feb_view s) (feb_view s')
    \<and> accounted tasks s' = accounted tasks s + mset (map waiter Xs)"
  using assms
proof (induction Xs arbitrary: s)
  case Nil
  then show ?case
    by (simp add: ffq_ext_refl)
next
  case (Cons X Xs)
  let ?w = "waiter X"
  let ?ps = "case preconds (threads s ?w) of None \<Rightarrow> [] | Some ps \<Rightarrow> rev ps"
  have th: "\<forall>u. thread_ok (nsheps (ready s)) (threads s u)"
    using Cons.prems(1) by (simp add: feb_inv_def sched_ok_def)
  from check_preconds_ok [OF feb_invD(1) [OF Cons.prems(1)] th, of ?w] obtain s1 where
    s1: "qthread_check_feb_preconds ?w s = Some (s1, missing s ?ps \<noteq> None)"
    "tables_ok s1" "febs s1 = febs s" "ready s1 = ready s" "mem s1 = mem s"
    "feb_view s1 = queue_on ?w (missing s ?ps) (feb_view s)"
    "all_waiters s1 = all_waiters s + (if missing s ?ps = None then {#} else {#?w#})"
    "\<forall>u. thread_ok (nsheps (ready s)) (threads s1 u)"
    by blast
  have q: "qinv (ready s1)"
    using Cons.prems(1) s1(4) by (simp add: feb_inv_def sched_ok_def)
  let ?dest = "case target_shepherd (threads s1 ?w) of None \<Rightarrow> shep | Some d \<Rightarrow> d"
  have dest: "?dest < nsheps (ready s1)"
    using s1(4,8) Cons.prems(2) by (auto simp: thread_ok_def split: option.splits)
  obtain q' where q': "tq_enqueue ops ?dest ?w (flags (threads s1 ?w)) (ready s1) = Some q'"
    "qinv q'" "tasks q' = add_mset ?w (tasks (ready s1))" "nsheps q' = nsheps (ready s1)"
    using enqueue_law [OF q dest] by blast
  define s2 where "s2 = (if missing s ?ps = None then s1\<lparr>ready := q'\<rparr> else s1)"
  have tabs2: "tabs s2 = tabs s1" "mem s2 = mem s" "nsheps (ready s2) = nsheps (ready s)"
    "threads s2 = threads s1" "qinv (ready s2)"
    using s1 q' q by (simp_all add: s2_def)
  note t2 = tabs_cong [OF tabs2(1)]
  have inv2: "feb_inv qinv nsheps s2"
    using s1 tabs2 by (simp add: feb_inv_def t2 sched_ok_def)
  have acc: "accounted tasks s2 = accounted tasks s + {#?w#}"
    using s1 q' by (simp add: accounted_def t2) (simp add: s2_def)
  from Cons.IH [OF inv2] tabs2(3) Cons.prems(2) obtain s' where
    s': "qthread_precond_launch ops shep Xs s2 = Some s'" "feb_inv qinv nsheps s'"
    "febs s' = febs s2" "mem s' = mem s2" "nsheps (ready s') = nsheps (ready s2)"
    "ffq_ext (waiter ` set Xs) (feb_view s2) (feb_view s')"
    "accounted tasks s' = accounted tasks s2 + mset (map waiter Xs)"
    by auto
  have run: "qthread_precond_launch ops shep (X # Xs) s = Some s'"
    using s1(1) q'(1) s'(1) by (cases "missing s ?ps = None") (simp_all add: s2_def Let_def)
  have "ffq_ext {?w} (feb_view s) (feb_view s2)"
    using ffq_ext_queue_on [of ?w s ?ps] s1(6) by (simp add: t2)
  from ffq_ext_trans [OF this s'(6)]
  have "ffq_ext (waiter ` set (X # Xs)) (feb_view s) (feb_view s')"
    by simp
  then show ?case
    using run s' acc tabs2 s1(3) by (simp add: t2)
qed

lemma gotlock_finish:
  assumes ok: "tables_ok s" "rm \<Longrightarrow> feb_small s" "good_addr a" "feb_lookup s a = Some p" "stats s p = Some m"
    and sh: "shep < nsheps (ready s)" and m': "addrstat_ok m'"
    and s1: "sched_ok qinv nsheps s1" "readied tasks nsheps Xs s s1"
    and cons: "waiters m = waiters m' + mset (map waiter (pre @ Xs))"
  shows "\<exists>s'. (qthread_precond_launch ops shep pre (set_stat p m' s1) \<bind>
        (\<lambda>s. if rm then qthread_FEB_remove a s else Some s)) = Some s'
    \<and> feb_inv qinv nsheps s' \<and> mem s' = mem s1 \<and> nsheps (ready s') = nsheps (ready s)
    \<and> accounted tasks s' = accounted tasks s
    \<and> ffq_ext (waiter ` set pre) ((feb_view s)(a := m')) (feb_view s')"
proof -
  have tabs1: "tabs s1 = tabs s" "nsheps (ready s1) = nsheps (ready s)"
    "tasks (ready s1) = tasks (ready s) + mset (map waiter Xs)"
    using s1(2) by (simp_all add: readied_def)
  note t1 = tabs_cong [OF tabs1(1)]
  let ?s = "set_stat p m' s1"
  have inv: "feb_inv qinv nsheps ?s"
    using ok(1,5) s1(1) m' unfolding feb_inv_def
    by (auto simp: sched_ok_def t1 intro!: set_stat_tables)
  have "all_waiters ?s + waiters m = all_waiters s + waiters m'"
    using set_stat_waiters [of s1 p m m'] ok(1,5) by (simp add: t1)
  then have acc: "accounted tasks ?s + mset (map waiter pre) = accounted tasks s"
    using tabs1(3) cons by (simp add: accounted_def) (metis add.assoc add.commute add_left_imp_eq)
  have view: "feb_view ?s = (feb_view s)(a := m')"
    using set_stat_view [of s1 a p m'] ok(1,4) by (simp add: t1)
  obtain s2 where s2: "qthread_precond_launch ops shep pre ?s = Some s2" "feb_inv qinv nsheps s2"
    "febs s2 = febs ?s" "mem s2 = mem ?s" "nsheps (ready s2) = nsheps (ready ?s)"
    "ffq_ext (waiter ` set pre) (feb_view ?s) (feb_view s2)"
    "accounted tasks s2 = accounted tasks ?s + mset (map waiter pre)"
    using precond_launch_ok [OF inv, of shep pre] sh tabs1(2) by auto
  show ?thesis
  proof (cases rm)
    case False
    then show ?thesis
      using s2 acc view tabs1(2) by simp
  next
    case True
    have small: "feb_small s2"
      using ok(2) [OF True] s2(3) by (simp add: feb_small_def t1)
    obtain s3 where s3: "qthread_FEB_remove a s2 = Some s3" "tables_ok s3" "feb_view s3 = feb_view s2"
      "all_waiters s3 = all_waiters s2" "mem s3 = mem s2" "threads s3 = threads s2" "ready s3 = ready s2"
      by (rule FEB_remove_ok [OF feb_invD(1) [OF s2(2)] small ok(3)])
    have "feb_inv qinv nsheps s3"
      using s2(2) s3 by (simp add: feb_inv_def sched_ok_def)
    then show ?thesis
      using True s2 s3 acc view tabs1(2) by (simp add: accounted_def)
  qed
qed

lemma gotlock_fill_ok:
  assumes inv: "feb_inv qinv nsheps s" and small: "feb_small s" and a: "good_addr a"
    and p: "feb_lookup s a = Some p" and sh: "shep < nsheps (ready s)"
  shows "\<exists>s'. qthread_gotlock_fill ops shep p a s = Some s' \<and> feb_inv qinv nsheps s'
    \<and> mem s' = deliver a (fill_served (feb_view s a)) (mem s)
    \<and> nsheps (ready s') = nsheps (ready s) \<and> accounted tasks s' = accounted tasks s
    \<and> ffq_ext (waiter ` set (filter (nascent (threads s)) (FFQ (feb_view s a))))
        ((feb_view s)(a := fill_result (feb_view s a))) (feb_view s')"
proof -
  obtain m where m: "stats s p = Some m" "addrstat_ok m" "p \<noteq> 0" "feb_view s a = m"
    by (rule lookup_record [OF feb_invD(1) [OF inv] p])
  let ?pre = "filter (nascent (threads s)) (FFQ m)"
  let ?run = "filter (\<lambda>X. \<not> nascent (threads s) X) (FFQ m) @ take 1 (FEQ m)"
  obtain s1 where s1: "gotlock_fill_inner ops shep a (m, s, []) = Some (fill_result m, s1, ?pre)"
    "sched_ok qinv nsheps s1" "mem s1 = deliver a (fill_served m) (mem s)"
    "readied tasks nsheps ?run s s1"
    using fill_inner_ok [OF feb_invD(2) [OF inv] sh m(2), of a] by blast
  have split: "mset (map waiter (fill_served m)) = mset (map waiter (?pre @ ?run))"
    using mset_map_filter_split [of waiter "FFQ m" "nascent (threads s)"]
    by (simp add: fill_served_def)
  have "waiters m = waiters (fill_result m) + mset (map waiter (?pre @ ?run))"
    using fill_result_waiters [of m] unfolding split .
  from gotlock_finish [OF feb_invD(1) [OF inv] small a p m(1) sh fill_result_ok [OF m(2)] s1(2,4) this,
      of "EFQ (fill_result m) = [] \<and> FEQ (fill_result m) = [] \<and> full (fill_result m)"]
  show ?thesis
    using m(1,4) good_addr_align(2) [OF a] s1(1,3) 
    by (simp add: qthread_gotlock_fill_def Let_def del: gotlock_fill_inner.simps)
qed

lemma gotlock_empty_ok:
  assumes inv: "feb_inv qinv nsheps s" and small: "EFQ (feb_view s a) \<noteq> [] \<Longrightarrow> feb_small s" and a: "good_addr a"
    and p: "feb_lookup s a = Some p" and sh: "shep < nsheps (ready s)"
  shows "\<exists>s'. qthread_gotlock_empty ops shep p a s = Some s' \<and> feb_inv qinv nsheps s'
    \<and> mem s' = accept a (EFQ (feb_view s a)) (mem s)
    \<and> nsheps (ready s') = nsheps (ready s) \<and> accounted tasks s' = accounted tasks s
    \<and> feb_view s' = (feb_view s)(a := empty_result (feb_view s a))"
proof -
  obtain m where m: "stats s p = Some m" "addrstat_ok m" "p \<noteq> 0" "feb_view s a = m"
    by (rule lookup_record [OF feb_invD(1) [OF inv] p])
  obtain s1 where s1: "gotlock_empty_inner ops shep a (m, s, []) = Some (empty_result m, s1, [])"
    "sched_ok qinv nsheps s1" "mem s1 = accept a (EFQ m) (mem s)"
    "readied tasks nsheps (empty_served m) s s1"
    using empty_inner_ok [OF feb_invD(2) [OF inv] sh m(2) good_addr_align(2) [OF a]] by blast
  have "waiters m = waiters (empty_result m) + mset (map waiter ([] @ empty_served m))"
    using empty_result_waiters [of m] by simp
  moreover have "full (empty_result m) \<Longrightarrow> feb_small s"
    using small m(4) by (simp add: empty_result_def split: list.splits)
  ultimately obtain s' where s': "qthread_gotlock_empty ops shep p a s = Some s'" "feb_inv qinv nsheps s'"
    "mem s' = mem s1" "nsheps (ready s') = nsheps (ready s)" "accounted tasks s' = accounted tasks s"
    "ffq_ext {} ((feb_view s)(a := empty_result m)) (feb_view s')"
    using m(1,4) s1(1)
      gotlock_finish [OF feb_invD(1) [OF inv] _ a p m(1) sh empty_result_ok [OF m(2)] s1(2,4),
        of "full (empty_result m) \<and> EFQ (empty_result m) = [] \<and> FEQ (empty_result m) = []
          \<and> FFQ (empty_result m) = []" "[]"]
    by (auto simp: qthread_gotlock_empty_def Let_def simp del: gotlock_empty_inner.simps)
  then show ?thesis
    using m(4) s1(3) ffq_ext_empty [OF s'(6)] by simp
qed

end

end
