(* ===== verification/Feb_Refine.thy ===== *)
theory Feb_Refine
  imports Feb_Ops
begin

text \<open>
  An abstract specification of the full/empty-bit operations, and the proof that the
  operations of \<open>feb.c\<close> implement it. The abstract state has a record for every word and
  the memory; hash tables, stripes, record pointers and threads are gone. An operation is
  one atomic step of it.
\<close>

section \<open>The specification\<close>

type_synonym word_state = "(u64 \<Rightarrow> addrstat) \<times> (u64 \<Rightarrow> u64)"

definition fill_spec :: "u64 \<Rightarrow> word_state \<Rightarrow> word_state" where
  "fill_spec w = (\<lambda>(v, mm). (v(w := fill_result (v w)), deliver w (fill_served (v w)) mm))"

definition empty_spec :: "u64 \<Rightarrow> word_state \<Rightarrow> word_state" where
  "empty_spec w = (\<lambda>(v, mm). (v(w := empty_result (v w)), accept w (EFQ (v w)) mm))"

text \<open>
  The word an operation synchronises on: the destination of a write, the source of a read.
\<close>

definition op_word :: "blocker_type \<Rightarrow> u64 \<Rightarrow> u64 \<Rightarrow> u64" where
  "op_word ty a b = (if ty \<in> {READFF, READFF_NB, READFE, READFE_NB} then b else a)"

definition feb_spec :: "blocker_type \<Rightarrow> tid \<Rightarrow> u64 \<Rightarrow> u64 \<Rightarrow> word_state \<Rightarrow> word_state \<times> feb_outcome" where
  "feb_spec ty me a b = (\<lambda>(v, mm).
     let ok = Ret QTHREAD_SUCCESS; fail = Ret QTHREAD_OPFAIL;
         write = (fill_spec a (v, put_word a (mm b) mm), ok);
         copy = ((v, put_word a (mm b) mm), ok);
         take = (empty_spec b (v, put_word a (mm b) mm), ok)
     in case ty of
       FILL \<Rightarrow> (fill_spec a (v, mm), ok)
     | EMPTY \<Rightarrow> (empty_spec a (v, mm), ok)
     | WRITEF \<Rightarrow> write
     | WRITEEF \<Rightarrow>
         if full (v a) then ((v(a := (v a)\<lparr>EFQ := \<lparr>raddr = b, waiter = me\<rparr> # EFQ (v a)\<rparr>), mm), Blocked)
         else write
     | WRITEEF_NB \<Rightarrow> if full (v a) then ((v, mm), fail) else write
     | READFF \<Rightarrow>
         if full (v b) then copy
         else ((v(b := (v b)\<lparr>FFQ := \<lparr>raddr = a, waiter = me\<rparr> # FFQ (v b)\<rparr>), mm), Blocked)
     | READFF_NB \<Rightarrow> if full (v b) then copy else ((v, mm), fail)
     | READFE \<Rightarrow>
         if full (v b) then take
         else ((v(b := (v b)\<lparr>FEQ := \<lparr>raddr = a, waiter = me\<rparr> # FEQ (v b)\<rparr>), mm), Blocked)
     | READFE_NB \<Rightarrow> if full (v b) then take else ((v, mm), fail))"

text \<open>
  A concrete state implements an abstract one up to tasks that wait for their
  preconditions: such a task may move from one reader queue to another.
\<close>

definition waiting_tasks :: "'q feb_state \<Rightarrow> u64 \<Rightarrow> tid set" where
  "waiting_tasks s w = waiter ` set (filter (nascent (threads s)) (FFQ (feb_view s w)))"

definition implements :: "('q \<Rightarrow> bool) \<Rightarrow> ('q \<Rightarrow> nat) \<Rightarrow> tid set \<Rightarrow> word_state \<Rightarrow> 'q feb_state \<Rightarrow> bool" where
  "implements qinv nsheps N ws s \<longleftrightarrow>
     feb_inv qinv nsheps s \<and> ffq_ext N (fst ws) (feb_view s) \<and> mem s = snd ws"

definition fresh :: "u64 \<Rightarrow> 'q feb_state \<Rightarrow> bool" where
  "fresh p s \<longleftrightarrow> p \<noteq> 0 \<and> stats s p = None"

section \<open>Records of words\<close>

lemma view_unbound: "feb_lookup s a = None \<Longrightarrow> feb_view s a = qthread_addrstat_new"
  by (simp add: feb_view_def)

lemma new_fields [simp]:
  "full qthread_addrstat_new" "EFQ qthread_addrstat_new = []" "FEQ qthread_addrstat_new = []"
  "FFQ qthread_addrstat_new = []" "addrstat_ok qthread_addrstat_new" "waiters qthread_addrstat_new = {#}"
  by (simp_all add: qthread_addrstat_new_def addrstat_ok_def waiters_def)

lemma fill_new: "fill_result qthread_addrstat_new = qthread_addrstat_new"
  "fill_served qthread_addrstat_new = []"
  by (simp_all add: fill_result_def fill_served_def qthread_addrstat_new_def)

lemma deliver_Nil [simp]: "deliver a [] mm = mm"
  by (simp add: deliver_def)

text \<open>Binding an unused pointer to a word changes the view of that word only.\<close>

lemma fresh_view:
  assumes "tables_ok s" "fresh p s" "feb_lookup s' = (feb_lookup s)(a \<mapsto> p)"
    "stats s' = (stats s)(p \<mapsto> m)"
  shows "feb_view s' = (feb_view s)(a := m)"
proof
  fix b
  have "feb_lookup s b \<noteq> Some p" if "b \<noteq> a"
  proof
    assume "feb_lookup s b = Some p"
    then obtain m where "stats s p = Some m"
      by (rule lookup_record [OF assms(1)])
    then show False
      using assms(2) by (simp add: fresh_def)
  qed
  then show "feb_view s' b = ((feb_view s)(a := m)) b"
    using assms(3,4) by (auto simp: feb_view_def split: option.splits)
qed

lemma find_or_create_ok:
  assumes ok: "tables_ok s" "feb_small s" "good_addr a" and new: "fresh newp s"
  obtains s1 p where "find_or_create newp (QTHREAD_CHOOSE_STRIPE2 a) a s = Some (Inr (s1, p))"
    "tables_ok s1" "feb_lookup s1 a = Some p" "feb_view s1 = feb_view s" "mem s1 = mem s"
    "threads s1 = threads s" "ready s1 = ready s" "all_waiters s1 = all_waiters s"
    "EFQ (feb_view s a) \<noteq> [] \<or> \<not> full (feb_view s a) \<longrightarrow> s1 = s"
proof (cases "feb_lookup s a")
  case None
  let ?s = "\<lambda>h. s\<lparr>febs := (febs s)[QTHREAD_CHOOSE_STRIPE2 a := h],
    stats := (stats s)(newp \<mapsto> qthread_addrstat_new)\<rparr>"
  obtain h where h: "feb_put (set_stat newp qthread_addrstat_new s) (QTHREAD_CHOOSE_STRIPE2 a) a newp
      = Some (?s h)" "tables_ok (?s h)" "feb_lookup (?s h) = (feb_lookup s)(a \<mapsto> newp)"
    using feb_put_ok [OF ok None, of newp qthread_addrstat_new] new by (auto simp: fresh_def)
  have get: "feb_get s (QTHREAD_CHOOSE_STRIPE2 a) a = Some 0"
    using feb_get_ok [OF ok(1,3)] None by simp
  have view: "feb_view (?s h) = feb_view s"
    using fresh_view [OF ok(1) new h(3)] view_unbound [OF None] by (simp add: fun_upd_idem)
  show ?thesis
    by (rule that [of "?s h" newp])
      (use get h view new None new_record_waiters [OF ok(1), of newp] in
        \<open>auto simp: find_or_create_def fresh_def view_unbound\<close>)
next
  case (Some p)
  then have "p \<noteq> 0"
    using lookup_good [of s a p] ok(1) by (simp add: tables_ok_def)
  moreover have "feb_get s (QTHREAD_CHOOSE_STRIPE2 a) a = Some p"
    using feb_get_ok [OF ok(1,3)] Some by simp
  ultimately show ?thesis
    using that [of s p] ok Some by (simp add: find_or_create_def)
qed

lemma block_on_ok:
  assumes "tables_ok s" "sched_ok qinv nsheps s" "feb_lookup s a = Some p" "addrstat_ok m"
    "waiters m = add_mset me (waiters (feb_view s a))"
  shows "feb_inv qinv nsheps (block_on me p m s)" "feb_view (block_on me p m s) = (feb_view s)(a := m)"
    "mem (block_on me p m s) = mem s" "ready (block_on me p m s) = ready s"
    "all_waiters (block_on me p m s) = add_mset me (all_waiters s)"
proof -
  obtain m0 where m0: "stats s p = Some m0" "feb_view s a = m0"
    by (rule lookup_record [OF assms(1,3)])
  let ?s = "set_stat p m s"
  note t = tabs_cong [of "block_on me p m s" ?s, unfolded block_on_def, simplified]
  show "feb_inv qinv nsheps (block_on me p m s)"
    unfolding feb_inv_def using set_stat_tables [OF assms(1) _ assms(4), of p] m0 assms(2)
    by (auto simp: block_on_def t sched_ok_def thread_ok_def)
  show "feb_view (block_on me p m s) = (feb_view s)(a := m)"
    using set_stat_view [OF assms(1,3)] by (simp add: block_on_def t)
  show "mem (block_on me p m s) = mem s" "ready (block_on me p m s) = ready s"
    by (simp_all add: block_on_def)
  show "all_waiters (block_on me p m s) = add_mset me (all_waiters s)"
    using set_stat_waiters [OF assms(1) m0(1), of m] assms(5) m0(2) by (simp add: block_on_def t)
qed

section \<open>Each operation implements its specification\<close>

text \<open>
  The call \<open>r\<close> of thread \<open>me\<close> in state \<open>s\<close> succeeds with outcome \<open>out\<close> in a state that
  implements \<open>ws\<close>, and every thread that was waiting or ready still is, the caller being
  added when it blocks.
\<close>

definition step_ok :: "('q \<Rightarrow> bool) \<Rightarrow> ('q \<Rightarrow> tid multiset) \<Rightarrow> ('q \<Rightarrow> nat) \<Rightarrow> tid set \<Rightarrow> tid
    \<Rightarrow> 'q feb_state \<Rightarrow> word_state \<times> feb_outcome \<Rightarrow> ('q feb_state \<times> feb_outcome) option \<Rightarrow> bool" where
  "step_ok qinv tasks nsheps N me s spec r \<longleftrightarrow>
     (\<exists>s'. r = Some (s', snd spec) \<and> implements qinv nsheps N (fst spec) s'
        \<and> nsheps (ready s') = nsheps (ready s)
        \<and> accounted tasks s' = accounted tasks s + (if snd spec = Blocked then {#me#} else {#}))"

lemma step_okI:
  "r = Some (s', out) \<Longrightarrow> implements qinv nsheps N ws s' \<Longrightarrow> nsheps (ready s') = nsheps (ready s)
   \<Longrightarrow> accounted tasks s' = accounted tasks s + (if out = Blocked then {#me#} else {#})
   \<Longrightarrow> step_ok qinv tasks nsheps N me s (ws, out) r"
  by (auto simp: step_ok_def)

lemma implements_same: "feb_inv qinv nsheps s \<Longrightarrow> implements qinv nsheps N (feb_view s, mem s) s"
  by (simp add: implements_def ffq_ext_refl)

lemma waiting_tasks_copy [simp]: "waiting_tasks (copy_word d a s) w = waiting_tasks s w"
  by (simp add: waiting_tasks_def)

lemma step_ok_copy [simp]:
  "step_ok qinv tasks nsheps N me (copy_word d a s) spec r = step_ok qinv tasks nsheps N me s spec r"
  by (simp add: step_ok_def)

lemma get_bound:
  assumes "tables_ok s" "good_addr a" "feb_lookup s a = Some p"
  shows "feb_get s (QTHREAD_CHOOSE_STRIPE2 a) a = Some p" "p \<noteq> 0" "stats s p = Some (feb_view s a)"
  using feb_get_ok [OF assms(1,2)] assms(3) lookup_record [OF assms(1,3)] by (simp_all, metis+)

lemma view_ok: "tables_ok s \<Longrightarrow> feb_lookup s a = Some p \<Longrightarrow> addrstat_ok (feb_view s a)"
  by (metis lookup_record)

lemma get_unbound:
  assumes "tables_ok s" "good_addr a" "feb_lookup s a = None"
  shows "feb_get s (QTHREAD_CHOOSE_STRIPE2 a) a = Some 0"
  using feb_get_ok [OF assms(1,2)] assms(3) by simp

context ready_queues
begin

lemma fill_step:
  assumes inv: "feb_inv qinv nsheps s" and small: "feb_small s" and a: "good_addr a"
    and sh: "shep < nsheps (ready s)" and p: "feb_lookup s a = Some p"
  shows "step_ok qinv tasks nsheps (waiting_tasks s a) me s
    (fill_spec a (feb_view s, mem s), Ret QTHREAD_SUCCESS)
    (qthread_gotlock_fill ops shep p a s \<bind> (\<lambda>s. Some (s, Ret QTHREAD_SUCCESS)))"
  using gotlock_fill_ok [OF inv small a p sh]
  by (auto simp: step_ok_def implements_def fill_spec_def waiting_tasks_def)

lemma fill_unbound_step:
  assumes "feb_inv qinv nsheps s" "feb_lookup s a = None"
  shows "step_ok qinv tasks nsheps N me s (fill_spec a (feb_view s, mem s), Ret QTHREAD_SUCCESS)
    (Some (s, Ret QTHREAD_SUCCESS))"
proof -
  have "fill_spec a (feb_view s, mem s) = (feb_view s, mem s)"
    using view_unbound [OF assms(2)] by (simp add: fill_spec_def fill_new fun_upd_idem)
  then show ?thesis
    using implements_same [OF assms(1)] by (simp add: step_ok_def)
qed

lemma empty_step:
  assumes inv: "feb_inv qinv nsheps s" and small: "EFQ (feb_view s a) \<noteq> [] \<Longrightarrow> feb_small s"
    and a: "good_addr a" and sh: "shep < nsheps (ready s)" and p: "feb_lookup s a = Some p"
  shows "step_ok qinv tasks nsheps N me s
    (empty_spec a (feb_view s, mem s), Ret QTHREAD_SUCCESS)
    (qthread_gotlock_empty ops shep p a s \<bind> (\<lambda>s. Some (s, Ret QTHREAD_SUCCESS)))"
  using gotlock_empty_ok [OF inv small a p sh]
  by (auto simp: step_ok_def implements_def empty_spec_def ffq_ext_refl)

lemma step_ok_start:
  assumes "step_ok qinv tasks nsheps N me s1 spec r" "nsheps (ready s1) = nsheps (ready s)"
    "accounted tasks s1 = accounted tasks s"
  shows "step_ok qinv tasks nsheps N me s spec r"
  using assms by (simp add: step_ok_def)

lemma fill_refines:
  assumes inv: "feb_inv qinv nsheps s" and small: "feb_small s" and a: "good_addr a"
    and sh: "shep < nsheps (ready s)"
  shows "step_ok qinv tasks nsheps (waiting_tasks s a) me s
    (fill_spec a (feb_view s, mem s), Ret QTHREAD_SUCCESS) (qthread_fill ops (Some shep) a s)"
proof -
  have ini: "qlib_present s" "lib_initialized s" "QALIGN a = a"
    using inv a by (simp_all add: feb_inv_def tables_ok_def good_addr_def)
  show ?thesis
  proof (cases "feb_lookup s a")
    case None
    then show ?thesis
      using fill_unbound_step [OF inv None] get_unbound [OF feb_invD(1) [OF inv] a None] ini
      by (simp add: qthread_fill_def)
  next
    case (Some p)
    then show ?thesis
      using fill_step [OF inv small a sh Some] get_bound [OF feb_invD(1) [OF inv] a Some] ini
      by (simp add: qthread_fill_def)
  qed
qed

text \<open>Copying a word first changes the memory the specification starts from.\<close>

lemma write_unbound_step:
  assumes "feb_inv qinv nsheps s" "feb_lookup s a = None"
  shows "step_ok qinv tasks nsheps N me s
    (fill_spec a (feb_view s, put_word d (mem s b) (mem s)), Ret QTHREAD_SUCCESS)
    (Some (copy_word d b s, Ret QTHREAD_SUCCESS))"
  using fill_unbound_step [of "copy_word d b s" a N me] assms
  by simp

lemma write_step:
  assumes "feb_inv qinv nsheps s" "feb_small s" "good_addr a" "shep < nsheps (ready s)"
    "feb_lookup s a = Some p"
  shows "step_ok qinv tasks nsheps (waiting_tasks s a) me s
    (fill_spec a (feb_view s, put_word d (mem s b) (mem s)), Ret QTHREAD_SUCCESS)
    (qthread_gotlock_fill ops shep p a (copy_word d b s) \<bind> (\<lambda>s. Some (s, Ret QTHREAD_SUCCESS)))"
  using fill_step [of "copy_word d b s" a shep p me] assms
  by simp

lemma take_step:
  assumes "feb_inv qinv nsheps s" "EFQ (feb_view s a) \<noteq> [] \<Longrightarrow> feb_small s" "good_addr a"
    "shep < nsheps (ready s)" "feb_lookup s a = Some p"
  shows "step_ok qinv tasks nsheps N me s
    (empty_spec a (feb_view s, put_word d (mem s b) (mem s)), Ret QTHREAD_SUCCESS)
    (qthread_gotlock_empty ops shep p a (copy_word d b s) \<bind> (\<lambda>s. Some (s, Ret QTHREAD_SUCCESS)))"
  using empty_step [of "copy_word d b s" a shep p N me] assms by simp

lemma copy_step:
  assumes "feb_inv qinv nsheps s"
  shows "step_ok qinv tasks nsheps N me s
    ((feb_view s, put_word d (mem s b) (mem s)), Ret QTHREAD_SUCCESS)
    (Some (copy_word d b s, Ret QTHREAD_SUCCESS))"
  using implements_same [of qinv nsheps "copy_word d b s"] assms by (simp add: step_ok_def)

lemma fail_step:
  assumes "feb_inv qinv nsheps s" "out \<noteq> Blocked"
  shows "step_ok qinv tasks nsheps N me s ((feb_view s, mem s), out) (Some (s, out))"
  using implements_same [OF assms(1)] assms(2) by (simp add: step_ok_def)

lemma block_step:
  assumes "tables_ok s1" "sched_ok qinv nsheps s1" "feb_lookup s1 a = Some p" "addrstat_ok m"
    "waiters m = add_mset me (waiters (feb_view s1 a))"
    and "feb_view s1 = feb_view s" "mem s1 = mem s" "ready s1 = ready s" "all_waiters s1 = all_waiters s"
  shows "step_ok qinv tasks nsheps N me s (((feb_view s)(a := m), mem s), Blocked)
    (Some (block_on me p m s1, Blocked))"
  using block_on_ok [OF assms(1-5)] assms(6-9)
  by (simp add: step_ok_def implements_def ffq_ext_refl accounted_def)

lemma empty_refines:
  assumes inv: "feb_inv qinv nsheps s" and small: "feb_small s" and a: "good_addr a"
    and sh: "shep < nsheps (ready s)" and new: "fresh newp s"
  shows "step_ok qinv tasks nsheps N me s
    (empty_spec a (feb_view s, mem s), Ret QTHREAD_SUCCESS) (qthread_empty ops (Some shep) newp a s)"
proof -
  note ok = feb_invD(1) [OF inv]
  have ini: "lib_initialized s" "QALIGN a = a"
    using ok a by (simp_all add: tables_ok_def good_addr_def)
  show ?thesis
  proof (cases "feb_lookup s a")
    case (Some p)
    then show ?thesis
      using empty_step [OF inv small a sh Some] get_bound [OF ok a Some] ini
      by (simp add: qthread_empty_def Let_def)
  next
    case None
    let ?m = "qthread_addrstat_new\<lparr>full := False\<rparr>"
    have p: "newp \<noteq> 0" "stats s newp = None" and m: "addrstat_ok ?m" "waiters ?m = {#}"
      using new by (simp_all add: fresh_def addrstat_ok_def waiters_def)
    obtain h where h: "feb_put (set_stat newp ?m s) (QTHREAD_CHOOSE_STRIPE2 a) a newp
        = Some (s\<lparr>febs := (febs s)[QTHREAD_CHOOSE_STRIPE2 a := h], stats := (stats s)(newp \<mapsto> ?m)\<rparr>)"
      "tables_ok (s\<lparr>febs := (febs s)[QTHREAD_CHOOSE_STRIPE2 a := h], stats := (stats s)(newp \<mapsto> ?m)\<rparr>)"
      "feb_lookup (s\<lparr>febs := (febs s)[QTHREAD_CHOOSE_STRIPE2 a := h], stats := (stats s)(newp \<mapsto> ?m)\<rparr>)
        = (feb_lookup s)(a \<mapsto> newp)"
      by (rule feb_put_ok [OF ok small a None p m(1)])
    define s' where "s' = s\<lparr>febs := (febs s)[QTHREAD_CHOOSE_STRIPE2 a := h], stats := (stats s)(newp \<mapsto> ?m)\<rparr>"
    have view: "feb_view s' = (feb_view s)(a := ?m)"
      using fresh_view [OF ok new, of s' a ?m] h(3) by (simp add: s'_def)
    have "empty_spec a (feb_view s, mem s) = (feb_view s', mem s')"
      using view_unbound [OF None] view by (simp add: empty_spec_def empty_result_def accept_def s'_def)
    moreover have "feb_inv qinv nsheps s'"
      using h(2) feb_invD(2) [OF inv] by (simp add: feb_inv_def sched_ok_def s'_def)
    moreover have "accounted tasks s' = accounted tasks s"
      using new_record_waiters [OF ok p(2)] m(2) by (simp add: accounted_def s'_def)
    moreover have "qthread_empty ops (Some shep) newp a s = Some (s', Ret QTHREAD_SUCCESS)"
      using get_unbound [OF ok a None] ini h(1) p by (simp add: qthread_empty_def Let_def s'_def)
    ultimately show ?thesis
      using implements_same [of qinv nsheps s'] by (simp add: step_ok_def s'_def)
  qed
qed

lemma writeF_refines:
  assumes inv: "feb_inv qinv nsheps s" and small: "feb_small s" and a: "good_addr a"
    and sh: "shep < nsheps (ready s)"
  shows "step_ok qinv tasks nsheps (waiting_tasks s a) me s
    (fill_spec a (feb_view s, put_word a (mem s b) (mem s)), Ret QTHREAD_SUCCESS)
    (qthread_writeF ops (Some shep) a b s)"
proof -
  note ok = feb_invD(1) [OF inv]
  have ini: "lib_initialized s" "QALIGN a = a"
    using ok a by (simp_all add: tables_ok_def good_addr_def)
  show ?thesis
  proof (cases "feb_lookup s a")
    case None
    then show ?thesis
      using write_unbound_step [OF inv None] get_unbound [OF ok a None] ini
      by (simp add: qthread_writeF_def)
  next
    case (Some p)
    then show ?thesis
      using write_step [OF inv small a sh Some] get_bound [OF ok a Some] ini
      by (simp add: qthread_writeF_def)
  qed
qed

lemma my_shepherd: "feb_inv qinv nsheps s \<Longrightarrow> shepherd_ptr (threads s me) < nsheps (ready s)"
  by (simp add: feb_inv_def sched_ok_def thread_ok_def)

lemma writeEF_refines:
  assumes inv: "feb_inv qinv nsheps s" and small: "feb_small s" and a: "good_addr a"
    and new: "fresh newp s"
  shows "step_ok qinv tasks nsheps (waiting_tasks s a) me s
    (feb_spec WRITEEF me a b (feb_view s, mem s)) (qthread_writeEF ops (Some me) newp True a b s)"
proof -
  note ok = feb_invD(1) [OF inv]
  have ini: "lib_initialized s" "QALIGN a = a"
    using ok a by (simp_all add: tables_ok_def good_addr_def)
  obtain s1 p where s1: "find_or_create newp (QTHREAD_CHOOSE_STRIPE2 a) a s = Some (Inr (s1, p))"
    "tables_ok s1" "feb_lookup s1 a = Some p" "feb_view s1 = feb_view s" "mem s1 = mem s"
    "threads s1 = threads s" "ready s1 = ready s" "all_waiters s1 = all_waiters s"
    "EFQ (feb_view s a) \<noteq> [] \<or> \<not> full (feb_view s a) \<longrightarrow> s1 = s"
    by (rule find_or_create_ok [OF ok small a new])
  note bound = get_bound [OF s1(2) a s1(3)]
  have mok: "addrstat_ok (feb_view s a)"
    using view_ok [OF s1(2,3)] s1(4) by simp
  have sched: "sched_ok qinv nsheps s1"
    using feb_invD(2) [OF inv] s1 by (simp add: sched_ok_def)
  show ?thesis
  proof (cases "full (feb_view s a)")
    case True
    let ?m = "(feb_view s a)\<lparr>EFQ := \<lparr>raddr = b, waiter = me\<rparr> # EFQ (feb_view s a)\<rparr>"
    have m: "addrstat_ok ?m" "waiters ?m = add_mset me (waiters (feb_view s1 a))"
      using mok True s1(4) by (simp_all add: addrstat_ok_def waiters_def)
    show ?thesis
      using block_step [OF s1(2) sched s1(3) m s1(4,5,7,8)] s1(1,4) bound ini True
      by (simp add: qthread_writeEF_def feb_spec_def Let_def)
  next
    case False
    then have "s1 = s"
      using s1(9) by simp
    then show ?thesis
      using write_step [OF inv small a my_shepherd [OF inv] s1(3) [unfolded \<open>s1 = s\<close>]] s1(1) bound ini False
      by (simp add: qthread_writeEF_def feb_spec_def Let_def)
  qed
qed

lemma writeEF_nb_refines:
  assumes inv: "feb_inv qinv nsheps s" and small: "feb_small s" and a: "good_addr a"
  shows "step_ok qinv tasks nsheps (waiting_tasks s a) me s
    (feb_spec WRITEEF_NB me a b (feb_view s, mem s)) (qthread_writeEF_nb ops (Some me) a b s)"
proof -
  note ok = feb_invD(1) [OF inv]
  note al = good_addr_align(1) [OF a]
  show ?thesis
  proof (cases "feb_lookup s a")
    case None
    then show ?thesis
      using fail_step [OF inv] get_unbound [OF ok a None] view_unbound [OF None] al
      by (simp add: qthread_writeEF_nb_def feb_spec_def Let_def)
  next
    case (Some p)
    then show ?thesis
      using fail_step [OF inv] write_step [OF inv small a my_shepherd [OF inv] Some]
        get_bound [OF ok a Some] al
      by (simp add: qthread_writeEF_nb_def feb_spec_def Let_def)
  qed
qed

lemma readFF_refines:
  assumes inv: "feb_inv qinv nsheps s" and b: "good_addr b"
  shows "step_ok qinv tasks nsheps N me s
    (feb_spec READFF me a b (feb_view s, mem s)) (qthread_readFF (Some me) True a b s)"
proof -
  note ok = feb_invD(1) [OF inv]
  have ini: "lib_initialized s" "QALIGN b = b"
    using ok b by (simp_all add: tables_ok_def good_addr_def)
  show ?thesis
  proof (cases "feb_lookup s b")
    case None
    then show ?thesis
      using copy_step [OF inv] get_unbound [OF ok b None] view_unbound [OF None] ini
      by (simp add: qthread_readFF_def feb_spec_def Let_def)
  next
    case (Some p)
    let ?m = "(feb_view s b)\<lparr>FFQ := \<lparr>raddr = a, waiter = me\<rparr> # FFQ (feb_view s b)\<rparr>"
    have m: "addrstat_ok ?m" "waiters ?m = add_mset me (waiters (feb_view s b))"
      if "\<not> full (feb_view s b)"
      using that view_ok [OF ok Some] by (simp_all add: addrstat_ok_def waiters_def)
    show ?thesis
    proof (cases "full (feb_view s b)")
      case True
      then show ?thesis
        using copy_step [OF inv] get_bound [OF ok b Some] ini
        by (simp add: qthread_readFF_def feb_spec_def Let_def)
    next
      case False
      then show ?thesis
        using block_step [OF ok feb_invD(2) [OF inv] Some m [OF False] refl refl refl refl]
          get_bound [OF ok b Some] ini
        by (simp add: qthread_readFF_def feb_spec_def Let_def)
    qed
  qed
qed

lemma readFF_nb_refines:
  assumes inv: "feb_inv qinv nsheps s" and b: "good_addr b"
  shows "step_ok qinv tasks nsheps N me s
    (feb_spec READFF_NB me a b (feb_view s, mem s)) (qthread_readFF_nb (Some me) a b s)"
proof -
  note ok = feb_invD(1) [OF inv]
  note al = good_addr_align(1) [OF b]
  show ?thesis
  proof (cases "feb_lookup s b")
    case None
    then show ?thesis
      using copy_step [OF inv] get_unbound [OF ok b None] view_unbound [OF None] al
      by (simp add: qthread_readFF_nb_def feb_spec_def Let_def)
  next
    case (Some p)
    then show ?thesis
      using fail_step [OF inv] copy_step [OF inv] get_bound [OF ok b Some] al
      by (simp add: qthread_readFF_nb_def feb_spec_def Let_def)
  qed
qed

lemma readFE_take:
  assumes inv: "feb_inv qinv nsheps s" and b: "good_addr b" and small: "feb_small s"
    and s1: "tables_ok s1" "feb_lookup s1 b = Some p" "feb_view s1 = feb_view s" "mem s1 = mem s"
      "threads s1 = threads s" "ready s1 = ready s" "all_waiters s1 = all_waiters s"
      "EFQ (feb_view s b) \<noteq> [] \<or> \<not> full (feb_view s b) \<longrightarrow> s1 = s"
  shows "step_ok qinv tasks nsheps N me s
    (empty_spec b (feb_view s, put_word a (mem s b) (mem s)), Ret QTHREAD_SUCCESS)
    (qthread_gotlock_empty ops (shepherd_ptr (threads s1 me)) p b (copy_word a b s1)
       \<bind> (\<lambda>s. Some (s, Ret QTHREAD_SUCCESS)))"
proof -
  have inv1: "feb_inv qinv nsheps s1"
    using feb_invD(2) [OF inv] s1 by (simp add: feb_inv_def sched_ok_def)
  have "EFQ (feb_view s1 b) \<noteq> [] \<Longrightarrow> feb_small s1"
    using s1(3,8) small by simp
  from take_step [OF inv1 this b my_shepherd [OF inv1] s1(2), of N me a b]
  show ?thesis
    using s1 by (simp add: step_ok_def accounted_def)
qed

lemma readFE_refines:
  assumes inv: "feb_inv qinv nsheps s" and small: "feb_small s" and b: "good_addr b"
    and new: "fresh newp s"
  shows "step_ok qinv tasks nsheps N me s
    (feb_spec READFE me a b (feb_view s, mem s)) (qthread_readFE ops (Some me) newp True a b s)"
    and "step_ok qinv tasks nsheps N me s
    (feb_spec READFE_NB me a b (feb_view s, mem s)) (qthread_readFE_nb ops (Some me) newp a b s)"
proof -
  note ok = feb_invD(1) [OF inv]
  have ini: "lib_initialized s" "QALIGN b = b"
    using ok b by (simp_all add: tables_ok_def good_addr_def)
  obtain s1 p where s1: "find_or_create newp (QTHREAD_CHOOSE_STRIPE2 b) b s = Some (Inr (s1, p))"
    "tables_ok s1" "feb_lookup s1 b = Some p" "feb_view s1 = feb_view s" "mem s1 = mem s"
    "threads s1 = threads s" "ready s1 = ready s" "all_waiters s1 = all_waiters s"
    "EFQ (feb_view s b) \<noteq> [] \<or> \<not> full (feb_view s b) \<longrightarrow> s1 = s"
    by (rule find_or_create_ok [OF ok small b new])
  note bound = get_bound [OF s1(2) b s1(3)]
  note take = readFE_take [OF inv b small s1(2-9)]
  have blk: "step_ok qinv tasks nsheps N me s (((feb_view s)(b := m), mem s), Blocked)
      (Some (block_on me p m s1, Blocked))"
    if "\<not> full (feb_view s b)" "m = (feb_view s b)\<lparr>FEQ := \<lparr>raddr = a, waiter = me\<rparr> # FEQ (feb_view s b)\<rparr>" for m
  proof -
    have "s1 = s"
      using that s1(9) by simp
    have "addrstat_ok (feb_view s b)"
      using view_ok [OF s1(2,3)] s1(4) by simp
    then have m: "addrstat_ok m" "waiters m = add_mset me (waiters (feb_view s b))"
      using that by (simp_all add: addrstat_ok_def waiters_def)
    show ?thesis
      using block_step [OF ok feb_invD(2) [OF inv] s1(3) [unfolded \<open>s1 = s\<close>] m refl refl refl refl]
        \<open>s1 = s\<close> by simp
  qed
  have same: "s1 = s" if "\<not> full (feb_view s b)"
    using that s1(9) by simp
  show "step_ok qinv tasks nsheps N me s
      (feb_spec READFE me a b (feb_view s, mem s)) (qthread_readFE ops (Some me) newp True a b s)"
    using take blk s1(1,4) bound ini
    by (cases "full (feb_view s b)") (simp_all add: qthread_readFE_def feb_spec_def Let_def)
  show "step_ok qinv tasks nsheps N me s
      (feb_spec READFE_NB me a b (feb_view s, mem s)) (qthread_readFE_nb ops (Some me) newp a b s)"
    using take fail_step [OF inv] same s1(1,4) bound ini
    by (cases "full (feb_view s b)") (simp_all add: qthread_readFE_nb_def feb_spec_def Let_def)
qed

text \<open>Every operation, as dispatched on behalf of a caller outside of a qthread.\<close>

lemma feb_refines:
  assumes inv: "feb_inv qinv nsheps s" and small: "feb_small s"
    and w: "good_addr (op_word ty a b)" and new: "fresh newp s"
  shows "step_ok qinv tasks nsheps (waiting_tasks s (op_word ty a b)) me s
    (feb_spec ty me a b (feb_view s, mem s)) (qthread_feb_blocker_thread ops me newp True ty a b s)"
  using assms fill_refines [OF inv small, of a "shepherd_ptr (threads s me)" me]
    empty_refines [OF inv small, of a "shepherd_ptr (threads s me)" newp _ me]
    writeF_refines [OF inv small, of a "shepherd_ptr (threads s me)" me b]
    writeEF_refines [OF inv small, of a newp me b] writeEF_nb_refines [OF inv small, of a me b]
    readFF_refines [OF inv, of b _ me a] readFF_nb_refines [OF inv, of b _ me a]
    readFE_refines [OF inv small, of b newp _ me a] my_shepherd [OF inv, of me]
  by (cases ty) (simp_all add: qthread_feb_blocker_thread_def op_word_def feb_spec_def Let_def)

end

end
