(* ===== verification/Hashmap_Oob.thy ===== *)
theory Hashmap_Oob
  imports Hashmap_Correct
begin

text \<open>
  The two keys that a table keeps outside of its array. The keys 0 and 1 mark unused and
  deleted slots, so \<open>qt_hash_put_locked\<close> stores their values in the header of the table.
  They are not counted in the population, but \<open>brehash\<close> and \<open>qt_hash_callback\<close> count them
  among the entries they have copied or visited and stop at the population. This theory
  says exactly what insertion, removal, lookup and the walks do on a table that may hold
  these keys: a rehash of such a table fails the assertion of \<open>brehash\<close>, and a walk leaves
  out as many entries of the array as there are keys outside of it.
\<close>

section \<open>The array part and the whole map\<close>

definition bare :: "qt_hash_s \<Rightarrow> qt_hash_s" where
  "bare h = h\<lparr>has_key := (False, False)\<rparr>"

definition table_inv :: "hash_globals \<Rightarrow> qt_hash_s \<Rightarrow> bool" where
  "table_inv g h \<longleftrightarrow> hash_inv g (bare h)"

definition special :: "u64 \<Rightarrow> bool" where
  "special key \<longleftrightarrow> key = KEY_DELETED \<or> key = KEY_NULL"

definition full_map :: "qt_hash_s \<Rightarrow> u64 \<Rightarrow> u64 option" where
  "full_map h key =
     (if special key then if oob_has h key then Some (oob_get h key) else None else hmap h key)"

definition oob_keys :: "qt_hash_s \<Rightarrow> nat" where
  "oob_keys h = of_bool (fst (has_key h)) + of_bool (snd (has_key h))"

text \<open>An insertion, or a removal, that rebuilds the array.\<close>

definition put_rehashes :: "hash_globals \<Rightarrow> qt_hash_s \<Rightarrow> u64 \<Rightarrow> bool" where
  "put_rehashes g h key =
     (case put_search g h key of
        Some (Room (Some f)) \<Rightarrow> ekey (entries h ! f) = KEY_NULL \<and>
          (grow_size h \<le> population h \<or> tidy_up_size h < population h + deletes h)
      | _ \<Rightarrow> False)"

definition remove_rehashes :: "qt_hash_s \<Rightarrow> u64 \<Rightarrow> bool" where
  "remove_rehashes h key \<longleftrightarrow> hmap h key \<noteq> None \<and> tidy_up_size h \<le> population h + deletes h"

lemma bare_simps [simp]:
  "entries (bare h) = entries h" "hmask (bare h) = hmask h" "num_entries (bare h) = num_entries h"
  "population (bare h) = population h" "deletes (bare h) = deletes h"
  "grow_size (bare h) = grow_size h" "tidy_up_size (bare h) = tidy_up_size h"
  "shrink_size (bare h) = shrink_size h" "oob_value (bare h) = oob_value h"
  "has_key (bare h) = (False, False)" "hmap (bare h) = hmap h"
  by (simp_all add: bare_def hmap_def)

lemma bare_has_key [simp]: "bare (h\<lparr>has_key := x\<rparr>) = bare h" "bare (bare h) = bare h"
  by (simp_all add: bare_def)

lemma hash_inv_bare: "hash_inv g h \<Longrightarrow> bare h = h"
  by (cases h) (simp add: bare_def hash_inv_def table_ok_def)

lemma hash_inv_iff: "hash_inv g h \<longleftrightarrow> table_inv g h \<and> oob_keys h = 0"
proof
  assume "hash_inv g h"
  then show "table_inv g h \<and> oob_keys h = 0"
    using hash_inv_bare [of g h]
    by (simp add: table_inv_def oob_keys_def) (simp add: hash_inv_def table_ok_def)
next
  assume h: "table_inv g h \<and> oob_keys h = 0"
  then have "bare h = h"
    by (cases h; cases "has_key h") (auto simp: bare_def oob_keys_def)
  then show "hash_inv g h"
    using h by (simp add: table_inv_def)
qed

lemma special_live: "special (ekey e) \<longleftrightarrow> \<not> live e"
  by (auto simp: special_def live_iff)

lemma special_key: "special key \<longleftrightarrow> \<not> KEY_DELETED < key"
  using special_live [of "\<lparr>ekey = key, evalue = 0\<rparr>"] by (simp add: live_def)

lemma hmap_special: "special key \<Longrightarrow> hmap h key = None"
  using elookup_Some_in [of "entries h" key] special_live
  by (cases "hmap h key") (auto simp: hmap_def)

lemma full_map_no_oob: "oob_keys h = 0 \<Longrightarrow> full_map h = hmap h"
  by (rule ext) (auto simp: full_map_def oob_keys_def oob_has_def hmap_special)

section \<open>Rehashing with keys outside of the array\<close>

text \<open>No insertion raises the population by more than one, so copying one entry less than
  the population cannot restore it.\<close>

lemma brehash_population: "brehash put g h len = Some h' \<Longrightarrow> population h' = population h"
  by (auto simp: brehash_def Let_def bind_eq_Some_conv c_assert_def split: if_splits)

lemma put_population:
  "put_locked_fuel n g h key v = Some (h', r) \<Longrightarrow> population h' \<le> population h + 1"
proof (induction n arbitrary: h key v h' r)
  case (Suc n)
  have rec: "population h' \<le> population h + 1"
    if "brehash (put_locked_fuel n g) g h len \<bind> (\<lambda>h. put_locked_fuel n g h key v) = Some (h', r)" for len
  proof -
    from that obtain d where "brehash (put_locked_fuel n g) g h len = Some d"
      "put_locked_fuel n g d key v = Some (h', r)"
      by (auto simp: bind_eq_Some_conv)
    then show ?thesis
      using Suc.IH [of d] brehash_population [of "put_locked_fuel n g" g h len d] by simp
  qed
  show ?case
    using Suc.prems rec
    by (auto simp: oob_set_def Let_def split: if_splits option.splits put_place.splits)
qed simp

lemma copy_population:
  assumes put: "\<And>d key v d' r. put d key v = Some (d', r) \<Longrightarrow> population d' \<le> population d + 1"
  shows "copy_entries put pop copied es d = Some d' \<Longrightarrow> copied < pop
    \<Longrightarrow> population d' \<le> population d + (pop - copied)"
proof (induction es arbitrary: copied d)
  case (Cons e es)
  show ?case
  proof (cases "ekey e > KEY_DELETED")
    case True
    with Cons.prems obtain d1 r where d1: "put d (ekey e) (evalue e) = Some (d1, r)"
      "(if copied + 1 = pop then Some d1 else copy_entries put pop (copied + 1) es d1) = Some d'"
      by (auto simp: bind_eq_Some_conv c_assert_def split: if_splits)
    show ?thesis
    proof (cases "copied + 1 = pop")
      case True
      then show ?thesis
        using d1 put [OF d1(1)] by simp
    next
      case False
      then show ?thesis
        using d1 put [OF d1(1)] Cons.IH [of "copied + 1" d1] Cons.prems(2) by simp
    qed
  next
    case False
    then show ?thesis
      using Cons by simp
  qed
qed simp

lemma brehash_oob_fails:
  assumes put: "\<And>d key v d' r. put d key v = Some (d', r) \<Longrightarrow> population d' \<le> population d + 1"
    and h: "0 < oob_keys h" "0 < population h"
  shows "brehash put g h len = None"
proof -
  let ?d = "(qt_hash_internal_create g calloc_hash len)\<lparr>has_key := has_key h, oob_value := oob_value h\<rparr>"
  have d: "population ?d = 0"
    by (simp add: qt_hash_internal_create_def Let_def calloc_hash_def)
  have copy: "population d \<le> population ?d + (population h - oob_keys h)"
    if "copy_entries put (population h) (oob_keys h) (entries h) ?d = Some d"
      "oob_keys h < population h" for d
    using put that by (rule copy_population)
  have "population d \<noteq> population h"
    if "(if oob_keys h < population h then copy_entries put (population h) (oob_keys h) (entries h) ?d
         else Some ?d) = Some d" for d
    using that d h copy [of d]
    by (auto split: if_splits)
  then show ?thesis
    unfolding brehash_def Let_def oob_keys_def [symmetric]
    by (cases "if oob_keys h < population h
        then copy_entries put (population h) (oob_keys h) (entries h) ?d else Some ?d")
      (auto simp: c_assert_def)
qed

lemma put_rehash_fails:
  "0 < oob_keys h \<Longrightarrow> 0 < population h \<Longrightarrow> brehash (put_locked_fuel n g') g h len = None"
  using put_population by (rule brehash_oob_fails)

lemma put_locked_rehash:
  assumes "\<not> special key" "put_rehashes g h key"
  shows "qt_hash_put_locked g h key v =
    brehash (put_locked_fuel (Suc 0) g) g h
      (if grow_size h \<le> population h then num_entries h * 2 else num_entries h)
    \<bind> (\<lambda>h. put_locked_fuel (Suc 0) g h key v)"
  using assms unfolding put_locked_unfold
  by (subst put_locked_fuel.simps(2))
    (auto simp: put_rehashes_def special_def Let_def simp del: put_locked_fuel.simps
      split: option.splits put_place.splits)

lemma brehash_empty_bare:
  assumes "population h = 0"
  shows "brehash put g h len = map_option (\<lambda>h'. h'\<lparr>has_key := has_key h\<rparr>) (brehash put g (bare h) len)"
  using assms
  by (simp add: brehash_def Let_def c_assert_def qt_hash_internal_create_def calloc_hash_def bare_def)

section \<open>Lookup\<close>

lemma find_loop_bare: "find_loop n g (bare h) key step quit b = find_loop n g h key step quit b"
  by (induction n arbitrary: b) (simp_all add: Let_def split: scan_result.split)

lemma put_loop_bare: "put_loop n g (bare h) key step quit b = put_loop n g h key step quit b"
  by (induction n arbitrary: b) (simp_all add: Let_def split: put_scan_result.split option.split)

lemma put_search_bare: "put_search g (bare h) key = put_search g h key"
  by (simp add: put_search_def put_loop_bare Let_def split: put_scan_result.split option.split)

lemma put_search_has_key: "put_search g (h\<lparr>has_key := x\<rparr>) key = put_search g h key"
  using put_search_bare [of g "h\<lparr>has_key := x\<rparr>" key] put_search_bare [of g h key] by simp

lemma find_bare:
  "\<not> special key \<Longrightarrow> qt_hash_internal_find g (bare h) key = qt_hash_internal_find g h key"
  by (simp add: qt_hash_internal_find_def find_loop_bare special_def Let_def split: scan_result.split)

lemma get_locked_full:
  assumes "table_inv g h"
  shows "qt_hash_get_locked g h key = Some (case full_map h key of None \<Rightarrow> 0 | Some p \<Rightarrow> p)"
proof (cases "special key")
  case True
  then show ?thesis
    by (auto simp: qt_hash_get_locked_def qt_hash_internal_find_def full_map_def special_def
        slot_value_def)
next
  case False
  then have key: "key \<noteq> KEY_NULL" "key \<noteq> KEY_DELETED"
    by (simp_all add: special_def)
  have "qt_hash_get_locked g h key = qt_hash_get_locked g (bare h) key"
    using find_correct [of g "bare h" key] assms key False find_bare [of key g h]
    by (auto simp: qt_hash_get_locked_def table_inv_def hash_inv_def slot_value_def
        split: option.splits)
  then show ?thesis
    using assms key False
    by (simp add: get_locked_correct full_map_def table_inv_def hash_inv_def)
qed

section \<open>Insertion\<close>

lemma put_special:
  assumes "table_inv g h" "special key" "full_map h key = None"
  shows "\<exists>h'. qt_hash_put_locked g h key v = Some (h', 1) \<and> table_inv g h'
    \<and> full_map h' = (full_map h)(key \<mapsto> v) \<and> num_entries h' = num_entries h"
proof -
  let ?h = "oob_set h key True v"
  have "\<not> oob_has h key"
    using assms by (auto simp: full_map_def)
  then have "qt_hash_put_locked g h key v = Some (?h, 1)"
    using assms(2) by (simp add: put_locked_unfold special_def PUT_SUCCESS_def)
  moreover have "bare ?h = (bare h)\<lparr>oob_value := oob_value ?h\<rparr>"
    by (simp add: bare_def oob_set_def)
  then have "table_inv g ?h"
    using assms(1)
    by (simp add: table_inv_def hash_inv_def table_ok_def counters_ok_def hash_shape_def)
  moreover have "full_map ?h = (full_map h)(key \<mapsto> v)"
    using assms(2)
    by (auto simp: full_map_def special_def oob_has_def oob_get_def oob_set_def hmap_def
        KEY_NULL_def KEY_DELETED_def fun_eq_iff)
  ultimately show ?thesis
    by (auto simp: oob_set_def)
qed

lemma put_no_rehash:
  assumes "\<not> special key" "\<not> put_rehashes g h key"
  shows "put_locked_fuel (Suc n) g h key v =
    map_option (\<lambda>(h', r). (h'\<lparr>has_key := has_key h\<rparr>, r)) (put_locked_fuel (Suc n) g (bare h) key v)"
  using assms
  by (cases "put_search g h key")
    (auto simp: special_def put_rehashes_def put_search_has_key bare_def Let_def
      split: option.splits put_place.splits)

lemma full_map_upd:
  assumes "\<not> special key" "hmap h' = (hmap h)(key := x)" "has_key h' = has_key h"
    "oob_value h' = oob_value h"
  shows "full_map h' = (full_map h)(key := x)"
  using assms by (auto simp: full_map_def oob_has_def oob_get_def)

lemma put_without_rehash:
  assumes inv: "table_inv g h" "\<not> special key" "full_map h key = None" "num_entries h \<le> 2 ^ 61"
    and no: "\<not> put_rehashes g h key"
  shows "\<exists>h'. put_locked_fuel (Suc (Suc n)) g h key v = Some (h', 1) \<and> table_inv g h'
    \<and> full_map h' = (full_map h)(key \<mapsto> v)
    \<and> (num_entries h' = num_entries h \<or> num_entries h' = num_entries h * 2)"
proof -
  have ok: "table_ok g (bare h)" "shrink_size h = 0" "hmap h key = None"
    "key \<noteq> KEY_NULL" "key \<noteq> KEY_DELETED"
    using inv by (simp_all add: table_inv_def hash_inv_def full_map_def special_def)
  obtain h' where h': "put_locked_fuel (Suc (Suc n)) g (bare h) key v = Some (h', 1)"
    "table_ok g h'" "hmap h' = (hmap h)(key \<mapsto> v)" "shrink_size h' = 0"
    "num_entries h' = num_entries h \<or> num_entries h' = num_entries h * 2"
    using put_ok [OF ok(1,4,5), of n v] ok inv(4) by (auto simp del: put_locked_fuel.simps)
  have "oob_value h' = oob_value h"
    using h'(1) no inv(2)
    by (auto simp: put_rehashes_def special_def put_search_bare Let_def
        split: option.splits put_place.splits if_splits)
  moreover have "table_inv g (h'\<lparr>has_key := has_key h\<rparr>)"
    using h' hash_inv_bare [of g h'] by (simp add: table_inv_def hash_inv_def)
  ultimately show ?thesis
    using h' put_no_rehash [OF inv(2) no, of "Suc n" v]
      full_map_upd [OF inv(2), of "h'\<lparr>has_key := has_key h\<rparr>" h "Some v"]
    by (simp add: hmap_def del: put_locked_fuel.simps)
qed

lemma brehash_oob_value:
  "population h = 0 \<Longrightarrow> brehash put g h len = Some h' \<Longrightarrow> oob_value h' = oob_value h"
  by (auto simp: brehash_def Let_def bind_eq_Some_conv c_assert_def split: if_splits)

lemma grow_positive: "128 \<le> n \<Longrightarrow> 0 < float_trigger 10905190 n"
  by (auto simp: float_trigger_def Let_def)

text \<open>With no entry in the array the rehash goes through, whatever is outside of it.\<close>

lemma brehash_empty:
  assumes inv: "table_inv g h" "num_entries h \<le> 2 ^ 61" and pop: "population h = 0"
  shows "\<exists>h'. brehash (put_locked_fuel (Suc n) g) g h (num_entries h) = Some h' \<and> table_inv g h'
    \<and> full_map h' = full_map h \<and> population h' = 0 \<and> deletes h' = 0
    \<and> num_entries h' = num_entries h \<and> has_key h' = has_key h"
proof -
  have ok: "table_ok g (bare h)" "shrink_size h = 0"
    using inv by (simp_all add: table_inv_def hash_inv_def)
  obtain m where m: "num_entries h = 2 ^ m" "min_entries g \<le> 2 ^ m" "Suc m < 64"
    using grown_size [OF ok(1)] inv(2) by (metis bare_simps(3))
  obtain h' where h': "brehash (put_locked_fuel (Suc n) g) g (bare h) (2 ^ m) = Some h'"
    "table_ok g h'" "hmap h' = hmap h" "population h' = 0" "shrink_size h' = 0"
    "num_entries h' = 2 ^ m" "deletes h' = 0"
    using brehash_fits [OF ok(1) m(2), of n] m(3) pop ok(2)
    by (auto simp del: put_locked_fuel.simps)
  have "oob_value h' = oob_value h"
    using brehash_oob_value [OF _ h'(1)] pop by simp
  then have "full_map (h'\<lparr>has_key := has_key h\<rparr>) = full_map h"
    using h'(3) by (auto simp: full_map_def oob_has_def oob_get_def hmap_def)
  moreover have "table_inv g (h'\<lparr>has_key := has_key h\<rparr>)"
    using h' hash_inv_bare [of g h'] by (simp add: table_inv_def hash_inv_def)
  ultimately show ?thesis
    using h' m(1) brehash_empty_bare [OF pop, of "put_locked_fuel (Suc n) g" g "2 ^ m"]
    by (simp del: put_locked_fuel.simps)
qed

lemma put_into_empty:
  assumes inv: "table_inv g h" "\<not> special key" "full_map h key = None" "num_entries h \<le> 2 ^ 61"
    and rehash: "put_rehashes g h key" and pop: "population h = 0"
  shows "\<exists>h'. qt_hash_put_locked g h key v = Some (h', 1) \<and> table_inv g h'
    \<and> full_map h' = (full_map h)(key \<mapsto> v) \<and> num_entries h' = num_entries h"
proof -
  have ok: "table_ok g (bare h)"
    using inv by (simp add: table_inv_def hash_inv_def)
  obtain h1 where h1: "brehash (put_locked_fuel (Suc 0) g) g h (num_entries h) = Some h1"
    "table_inv g h1" "full_map h1 = full_map h" "population h1 = 0" "deletes h1 = 0"
    "num_entries h1 = num_entries h" "has_key h1 = has_key h"
    using brehash_empty [OF inv(1,4) pop] by blast
  have ok1: "table_ok g (bare h1)" "shrink_size h1 = 0"
    using h1(2) by (simp_all add: table_inv_def hash_inv_def)
  have grow: "0 < grow_size h" "0 < grow_size h1"
    using grow_positive [OF table_ok_min [OF ok]] grow_positive [OF table_ok_min [OF ok1(1)]] ok ok1
    by (simp_all add: table_ok_def counters_ok_def)
  then have no: "\<not> put_rehashes g h1 key"
    using h1(4,5) by (simp add: put_rehashes_def split: option.split put_place.split)
  have key: "key \<noteq> KEY_NULL" "key \<noteq> KEY_DELETED" "hmap h1 key = None"
    using inv(2) inv(3) [folded h1(3)] by (simp_all add: special_def full_map_def)
  obtain h2 where h2: "put_locked_fuel (Suc 0) g (bare h1) key v = Some (h2, 1)" "table_ok g h2"
    "hmap h2 = (hmap h1)(key \<mapsto> v)" "same_frame (bare h1) h2"
    using put_fits [OF ok1(1) key(1,2), of 0 v] key(3) grow h1(4,5)
    by (auto simp del: put_locked_fuel.simps)
  have "oob_value h2 = oob_value h1"
    using h2(1) no inv(2)
    by (auto simp: put_rehashes_def special_def put_search_bare Let_def
        split: option.splits put_place.splits if_splits)
  then have "full_map (h2\<lparr>has_key := has_key h1\<rparr>) = (full_map h1)(key \<mapsto> v)"
    using full_map_upd [OF inv(2), of "h2\<lparr>has_key := has_key h1\<rparr>" h1 "Some v"] h2(3)
    by (simp add: hmap_def)
  moreover have "table_inv g (h2\<lparr>has_key := has_key h1\<rparr>)"
    using h2 ok1(2) hash_inv_bare [of g h2]
    by (simp add: table_inv_def hash_inv_def same_frame_def)
  moreover have "qt_hash_put_locked g h key v = put_locked_fuel (Suc 0) g h1 key v"
    using grow(1) pop h1(1) by (simp add: put_locked_rehash [OF inv(2) rehash] del: put_locked_fuel.simps)
  ultimately show ?thesis
    using put_no_rehash [OF inv(2) no, of 0 v] h2 h1(3,6)
    by (simp add: same_frame_def del: put_locked_fuel.simps)
qed

lemma put_full:
  assumes inv: "table_inv g h" "table_small h" "full_map h key = None"
  shows "if oob_keys h = 0 \<or> special key \<or> \<not> put_rehashes g h key \<or> population h = 0
    then \<exists>h'. qt_hash_put_locked g h key v = Some (h', 1) \<and> table_inv g h'
      \<and> full_map h' = (full_map h)(key \<mapsto> v) \<and> num_entries h' \<le> num_entries h * 2
    else qt_hash_put_locked g h key v = None"
proof -
  have small: "num_entries h \<le> 2 ^ 61"
    using inv(2) by (simp add: table_small_def)
  consider (special) "special key" | (direct) "\<not> special key" "\<not> put_rehashes g h key"
    | (empty) "\<not> special key" "put_rehashes g h key" "population h = 0"
    | (bare) "\<not> special key" "oob_keys h = 0"
    | (fails) "\<not> special key" "put_rehashes g h key" "population h \<noteq> 0" "oob_keys h \<noteq> 0"
    by blast
  then show ?thesis
  proof cases
    case special
    then show ?thesis
      using put_special [OF inv(1) _ inv(3), of v] by force
  next
    case direct
    then show ?thesis
      using put_without_rehash [OF inv(1) _ inv(3) small, of 0 v]
      by (fastforce simp: put_locked_unfold simp del: put_locked_fuel.simps)
  next
    case empty
    then show ?thesis
      using put_into_empty [OF inv(1) _ inv(3) small, of v] by force
  next
    case bare
    then have "hash_inv g h" "KEY_DELETED < key" "hmap h key = None"
      using inv by (simp_all add: hash_inv_iff special_key full_map_no_oob)
    then obtain h' where h': "qt_hash_put_locked g h key v = Some (h', 1)" "hash_inv g h'"
      "hmap h' = (hmap h)(key \<mapsto> v)" "num_entries h' \<le> num_entries h * 2"
      using put_locked_ok [OF _ inv(2)] by blast
    then show ?thesis
      using bare by (simp add: hash_inv_iff full_map_no_oob)
  next
    case fails
    then have "qt_hash_put_locked g h key v = None"
      by (simp add: put_locked_rehash put_rehash_fails del: put_locked_fuel.simps)
    then show ?thesis
      using fails by simp
  qed
qed

section \<open>Removal\<close>

lemma remove_special:
  assumes "table_inv g h" "special key"
  shows "\<exists>h'. qt_hash_remove_locked g h key = Some (h', if full_map h key = None then 0 else 1)
    \<and> table_inv g h' \<and> full_map h' = (full_map h)(key := None) \<and> num_entries h' = num_entries h"
proof (cases "oob_has h key")
  case True
  let ?h = "oob_set h key False 0"
  have "bare ?h = (bare h)\<lparr>oob_value := oob_value ?h\<rparr>"
    by (simp add: bare_def oob_set_def)
  then have "table_inv g ?h"
    using assms(1)
    by (simp add: table_inv_def hash_inv_def table_ok_def counters_ok_def hash_shape_def)
  moreover have "full_map ?h = (full_map h)(key := None)"
    using assms(2)
    by (auto simp: full_map_def special_def oob_has_def oob_get_def oob_set_def hmap_def
        KEY_NULL_def KEY_DELETED_def fun_eq_iff)
  ultimately show ?thesis
    using True assms(2)
    by (auto simp: qt_hash_remove_locked_def special_def full_map_def oob_set_def)
next
  case False
  then show ?thesis
    using assms by (auto simp: qt_hash_remove_locked_def special_def full_map_def fun_eq_iff)
qed

text \<open>
  Removing a key of the array: the table after its slot has been marked, and the rehash
  that may follow.
\<close>

lemma remove_present:
  assumes inv: "table_inv g h" "\<not> special key" "hmap h key \<noteq> None"
  obtains h1 where "table_inv g h1" "full_map h1 = (full_map h)(key := None)"
    "num_entries h1 = num_entries h" "oob_keys h1 = oob_keys h" "Suc (population h1) = population h"
    "qt_hash_remove_locked g h key = (if remove_rehashes h key
       then brehash (put_locked_fuel (Suc (Suc 0)) g) g h1 (num_entries h1) \<bind> (\<lambda>h. Some (h, 1))
       else Some (h1, 1))"
proof -
  have key: "key \<noteq> KEY_NULL" "key \<noteq> KEY_DELETED"
    using inv(2) by (simp_all add: special_def)
  have ok: "table_ok g (bare h)" and shrink: "shrink_size h = 0"
    using inv(1) by (simp_all add: table_inv_def hash_inv_def)
  obtain i where i: "i < num_entries h" "live (entries h ! i)" "ekey (entries h ! i) = key"
    "qt_hash_internal_find g h key = Some (Some (Slot i))"
    using find_correct [OF ok key, unfolded find_bare [OF inv(2)]] inv(3)
    by (auto split: option.splits)
  define h1 where "h1 = h\<lparr>entries := (entries h)[i := (entries h ! i)\<lparr>ekey := KEY_DELETED\<rparr>],
    deletes := deletes h + 1, population := population h - 1\<rparr>"
  have "population h = length (filter live (entries h))" "length (entries h) = num_entries h"
    using ok by (auto simp: table_ok_def counters_ok_def hash_shape_def)
  then have pop: "0 < population h"
    using i(1,2) nth_mem [of i "entries h"] by (auto simp: filter_empty_conv)
  note del = delete_slot_ok(1,2) [OF ok, of i key, simplified, OF i(1,2,3)]
  have bare1: "bare h1 = (bare h)\<lparr>entries := (entries h)[i := (entries h ! i)\<lparr>ekey := KEY_DELETED\<rparr>],
      deletes := Suc (deletes h), population := population h - Suc 0\<rparr>"
    by (simp add: h1_def bare_def)
  have inv1: "table_inv g h1"
    using del(1) shrink unfolding table_inv_def hash_inv_def bare1 by (simp add: bare_def)
  have hm1: "hmap h1 = (hmap h)(key := None)"
    using del(2) bare1 by (metis bare_simps(11))
  have sel: "has_key h1 = has_key h" "oob_value h1 = oob_value h" "num_entries h1 = num_entries h"
    "oob_keys h1 = oob_keys h" "Suc (population h1) = population h"
    "tidy_up_size h1 = tidy_up_size h" "population h1 + deletes h1 = population h + deletes h"
    using pop shrink by (simp_all add: h1_def oob_keys_def)
  have put: "qt_hash_put_locked g = put_locked_fuel (Suc (Suc 0)) g"
    by (intro ext) (rule put_locked_unfold)
  have "qt_hash_remove_locked g h key = (if tidy_up_size h1 \<le> population h1 + deletes h1
      then brehash (qt_hash_put_locked g) g h1 (num_entries h1) \<bind> (\<lambda>h. Some (h, 1))
      else Some (h1, 1))"
    unfolding qt_hash_remove_locked_def h1_def using i(4) key shrink by (simp add: Let_def)
  moreover have "remove_rehashes h key \<longleftrightarrow> tidy_up_size h1 \<le> population h1 + deletes h1"
    using inv(3) sel by (simp add: remove_rehashes_def)
  ultimately show thesis
    using that [OF inv1 full_map_upd [OF inv(2) hm1 sel(1,2)] sel(3-5)] by (simp only: put)
qed

lemma remove_full:
  assumes inv: "table_inv g h" "table_small h"
  shows "if oob_keys h = 0 \<or> special key \<or> \<not> remove_rehashes h key \<or> population h = 1
    then \<exists>h'. qt_hash_remove_locked g h key = Some (h', if full_map h key = None then 0 else 1)
      \<and> table_inv g h' \<and> full_map h' = (full_map h)(key := None) \<and> num_entries h' \<le> num_entries h * 2
    else qt_hash_remove_locked g h key = None"
proof -
  consider (special) "special key" | (bare) "\<not> special key" "oob_keys h = 0"
    | (absent) "\<not> special key" "oob_keys h \<noteq> 0" "hmap h key = None"
    | (present) "\<not> special key" "oob_keys h \<noteq> 0" "hmap h key \<noteq> None"
    by blast
  then show ?thesis
  proof cases
    case special
    then show ?thesis
      using remove_special [OF inv(1), of key] by force
  next
    case bare
    then have "hash_inv g h" "KEY_DELETED < key"
      using inv by (simp_all add: hash_inv_iff special_key)
    then show ?thesis
      using remove_locked_ok [of g h key] inv(2) bare
      by (auto simp: hash_inv_iff full_map_no_oob)
  next
    case absent
    then have key: "key \<noteq> KEY_NULL" "key \<noteq> KEY_DELETED" "full_map h key = None"
      by (simp_all add: special_def full_map_def)
    then have "qt_hash_internal_find g h key = Some None"
      using find_correct [of g "bare h" key] find_bare [OF absent(1)] absent inv(1)
      by (auto simp: table_inv_def hash_inv_def split: option.splits)
    then have "qt_hash_remove_locked g h key = Some (h, 0)"
      using key by (simp add: qt_hash_remove_locked_def)
    then show ?thesis
      using absent(3) inv(1) key(3) by (simp add: fun_upd_idem remove_rehashes_def)
  next
    case present
    then have fm: "full_map h key \<noteq> None"
      by (simp add: full_map_def)
    obtain h1 where h1: "table_inv g h1" "full_map h1 = (full_map h)(key := None)"
      "num_entries h1 = num_entries h" "oob_keys h1 = oob_keys h" "Suc (population h1) = population h"
      "qt_hash_remove_locked g h key = (if remove_rehashes h key
         then brehash (put_locked_fuel (Suc (Suc 0)) g) g h1 (num_entries h1) \<bind> (\<lambda>h. Some (h, 1))
         else Some (h1, 1))"
      using remove_present [OF inv(1) present(1,3)] by blast
    have "\<exists>h2. brehash (put_locked_fuel (Suc (Suc 0)) g) g h1 (num_entries h1) = Some h2 \<and> table_inv g h2
        \<and> full_map h2 = full_map h1 \<and> num_entries h2 = num_entries h1" if "population h = 1"
      using brehash_empty [OF h1(1), of "Suc 0"] inv(2) h1(3,5) that
      by (auto simp: table_small_def simp del: put_locked_fuel.simps)
    moreover have "brehash (put_locked_fuel (Suc (Suc 0)) g) g h1 (num_entries h1) = None"
      if "population h \<noteq> 1"
      using put_rehash_fails [of h1] present(2) h1(4,5) that by (simp del: put_locked_fuel.simps)
    ultimately show ?thesis
      using h1 present fm by (auto simp del: fun_upd_apply put_locked_fuel.simps)
  qed
qed

section \<open>Walking over the table\<close>

text \<open>The walk over the array leaves out as many entries as were visited before it.\<close>

lemma visit_entries_take:
  "visited < pop \<Longrightarrow> visit_entries pop visited es =
     take (pop - visited) (map (\<lambda>e. (ekey e, evalue e)) (filter live es))"
proof (induction es arbitrary: visited)
  case (Cons e es)
  show ?case
  proof (cases "live e")
    case True
    then show ?thesis
      using Cons by (cases "visited + 1 = pop") (auto simp: take_Cons' simp flip: live_def)
  next
    case False
    then show ?thesis
      using Cons by (simp flip: live_def)
  qed
qed simp

definition oob_list :: "qt_hash_s \<Rightarrow> (u64 \<times> u64) list" where
  "oob_list h = (if fst (has_key h) then [(KEY_NULL, fst (oob_value h))] else [])
     @ (if snd (has_key h) then [(KEY_DELETED, snd (oob_value h))] else [])"

definition live_list :: "qt_hash_s \<Rightarrow> (u64 \<times> u64) list" where
  "live_list h = map (\<lambda>e. (ekey e, evalue e)) (filter live (entries h))"

lemma oob_list_facts:
  "length (oob_list h) = oob_keys h" "distinct (map fst (oob_list h))"
  "special k \<Longrightarrow> map_of (oob_list h) k = full_map h k" "\<not> special k \<Longrightarrow> map_of (oob_list h) k = None"
  "x \<in> set (oob_list h) \<Longrightarrow> special (fst x)"
  by (auto simp: oob_list_def oob_keys_def full_map_def special_def oob_has_def oob_get_def
      KEY_NULL_def KEY_DELETED_def split: if_splits)

lemma map_of_live: "map_of (live_list h) = hmap h"
proof
  have "map_of (map (\<lambda>e. (ekey e, evalue e)) (filter live es)) k = elookup es k" for es k
    by (induction es) (auto simp: elookup_def)
  then show "map_of (live_list h) k = hmap h k" for k
    by (simp add: live_list_def hmap_def)
qed

lemma live_list_facts:
  assumes "table_inv g h"
  shows "length (live_list h) = population h" "distinct (map fst (live_list h))"
    "x \<in> set (live_list h) \<Longrightarrow> \<not> special (fst x)"
proof -
  have ok: "table_ok g (bare h)"
    using assms by (simp add: table_inv_def hash_inv_def)
  then show "length (live_list h) = population h"
    by (simp add: live_list_def table_ok_def counters_ok_def)
  show "distinct (map fst (live_list h))"
    using table_ok_distinct [OF ok] by (simp add: live_list_def o_def)
  show "x \<in> set (live_list h) \<Longrightarrow> \<not> special (fst x)"
    by (auto simp: live_list_def special_live)
qed

lemma callback_lists:
  "qt_hash_callback h = oob_list h @ take (population h - oob_keys h) (live_list h)"
  by (simp add: qt_hash_callback_def Let_def visit_entries_take flip: oob_list_def live_list_def)
    (simp add: oob_list_facts(1) visit_entries_take flip: live_list_def)

lemma full_map_lists: "full_map h = map_of (oob_list h @ live_list h)"
proof
  show "full_map h k = map_of (oob_list h @ live_list h) k" for k
    by (cases "special k")
      (auto simp: map_add_def oob_list_facts map_of_live hmap_special full_map_def
        split: option.splits)
qed

lemma lists_distinct: "table_inv g h \<Longrightarrow> distinct (map fst (oob_list h @ live_list h))"
  using live_list_facts(2,3) [of g h] oob_list_facts(2,5) by fastforce

end
