(* ===== verification/Hashmap_Props.thy ===== *)
theory Hashmap_Props
  imports Hashmap_Oob
begin

text \<open>
  The properties of the hash functions and of the hash table: what a client sees after
  any sequence of operations, what a walk over the table visits, and where the byte hash
  loses information.
\<close>

section \<open>A table in use\<close>

text \<open>
  A table in use: it is created, keys are inserted after a lookup has returned \<open>NULL\<close>, and
  keys are removed, in any order; the keys 0 and 1 are allowed. The second argument is the
  map a client expects. An operation that fails an assertion of the code has no result, so
  the run ends before it.
\<close>

inductive table_run :: "hash_globals \<Rightarrow> qt_hash_s \<Rightarrow> (u64 \<Rightarrow> u64 option) \<Rightarrow> bool" for g where
  create: "table_run g (qt_hash_create g sync) Map.empty"
| insert: "table_run g h m \<Longrightarrow> table_small h \<Longrightarrow> p \<noteq> 0
    \<Longrightarrow> qt_hash_get_locked g h a = Some 0 \<Longrightarrow> qt_hash_put_locked g h a p = Some (h', r)
    \<Longrightarrow> table_run g h' (m(a \<mapsto> p))"
| remove: "table_run g h m \<Longrightarrow> table_small h
    \<Longrightarrow> qt_hash_remove_locked g h a = Some (h', r) \<Longrightarrow> table_run g h' (m(a := None))"

lemma table_run_inv:
  assumes "table_run g h m" "globals_wf g"
  shows "table_inv g h \<and> full_map h = m \<and> 0 \<notin> ran m"
  using assms
proof induction
  case (create sync)
  then show ?case
    using qt_hash_create_ok [of g sync] full_map_no_oob [of "qt_hash_create g sync"]
    by (simp add: hash_inv_iff)
next
  case (insert h m p a h' r)
  then have inv: "table_inv g h" "full_map h = m" "0 \<notin> ran m"
    by simp_all
  have none: "full_map h a = None"
    using insert.hyps(4) inv get_locked_full [OF inv(1), of a]
    by (auto split: option.splits simp: ran_def)
  then have "table_inv g h' \<and> full_map h' = m(a \<mapsto> p)"
    using put_full [OF inv(1) insert.hyps(2) none, of p] insert.hyps(5) inv(2)
    by (auto split: if_splits)
  moreover have "0 \<notin> ran (m(a \<mapsto> p))"
    using inv(2,3) insert.hyps(3) none by simp
  ultimately show ?case
    by blast
next
  case (remove h m a h' r)
  then have inv: "table_inv g h" "full_map h = m" "0 \<notin> ran m"
    by simp_all
  have "table_inv g h' \<and> full_map h' = m(a := None)"
    using remove_full [OF inv(1) remove.hyps(2), of a] remove.hyps(3) inv(2)
    by (auto split: if_splits)
  moreover have "0 \<notin> ran (m(a := None))"
    using inv(3) by (auto simp: ran_def split: if_splits)
  ultimately show ?case
    by blast
qed

section \<open>A concrete table\<close>

text \<open>The configuration of a machine with 64-byte cache lines and 4096-byte pages.\<close>

definition amd64_globals :: hash_globals where
  "amd64_globals = qt_hash_initialize_subsystem 64 4096"

lemma amd64_globals_wf: "globals_wf amd64_globals"
proof -
  have "bucketsize amd64_globals = 2 ^ 2" "bucketmask amd64_globals = 2 ^ 2 - 1"
    "min_entries amd64_globals = 2 ^ 9"
    by (simp_all add: amd64_globals_def qt_hash_initialize_subsystem_def min_entries_def)
  then show ?thesis
    unfolding globals_wf_def by (intro exI [of _ 2] exI [of _ 9]) simp
qed

abbreviation new_table :: qt_hash_s where
  "new_table \<equiv> qt_hash_create amd64_globals True"

lemma new_table_ok:
  "hash_inv amd64_globals new_table" "hmap new_table = Map.empty" "table_small new_table"
proof -
  show "hash_inv amd64_globals new_table" "hmap new_table = Map.empty"
    by (rule qt_hash_create_ok [OF amd64_globals_wf])+
  have "min_entries amd64_globals = 512"
    by (simp add: amd64_globals_def qt_hash_initialize_subsystem_def min_entries_def)
  then show "table_small new_table"
    by (simp add: table_small_def qt_hash_create_ok(3) [OF amd64_globals_wf])
qed


section \<open>Properties\<close>

lemma new_table_full:
  "table_inv amd64_globals new_table" "full_map new_table = Map.empty" "oob_keys new_table = 0"
  using new_table_ok(1,2) full_map_no_oob [of new_table] by (simp_all add: hash_inv_iff)

text \<open>A table with the key 0 outside of the array and the key 4096 in it.\<close>

lemma put_small:
  assumes "table_inv amd64_globals h" "num_entries h \<le> 2 ^ 50" "full_map h key = None"
    "oob_keys h = 0 \<or> population h = 0"
  obtains h' where "qt_hash_put_locked amd64_globals h key v = Some (h', 1)"
    "table_inv amd64_globals h'" "full_map h' = (full_map h)(key \<mapsto> v)"
    "num_entries h' \<le> num_entries h * 2"
  using put_full [OF assms(1) _ assms(3), of v] assms(2,4)
  by (auto simp: table_small_def split: if_splits)

lemma put_special_population:
  "special key \<Longrightarrow> qt_hash_put_locked g h key v = Some (h', r) \<Longrightarrow> population h' = population h"
  by (auto simp: put_locked_unfold special_def oob_set_def split: if_splits)

lemma oob_keys_full_map:
  "oob_keys h = of_bool (full_map h 0 \<noteq> None) + of_bool (full_map h 1 \<noteq> None)"
  by (simp add: oob_keys_def full_map_def special_def oob_has_def KEY_NULL_def KEY_DELETED_def)

lemma two_keys:
  obtains h0 h where "qt_hash_put_locked amd64_globals new_table 0 9 = Some (h0, 1)"
    "qt_hash_put_locked amd64_globals h0 4096 7 = Some (h, 1)" "table_small h0"
    "table_inv amd64_globals h0" "full_map h0 = [0 \<mapsto> 9]"
    "table_inv amd64_globals h" "full_map h = [0 \<mapsto> 9, 4096 \<mapsto> 7]"
proof -
  have n: "num_entries new_table = 512"
    by (simp add: qt_hash_create_ok(3) [OF amd64_globals_wf])
      (simp add: amd64_globals_def min_entries_def qt_hash_initialize_subsystem_def)
  have p: "population new_table = 0"
    by (simp add: qt_hash_create_def qt_hash_internal_create_def Let_def calloc_hash_def)
  obtain h0 where h0: "qt_hash_put_locked amd64_globals new_table 0 9 = Some (h0, 1)"
    "table_inv amd64_globals h0" "full_map h0 = [0 \<mapsto> 9]" "num_entries h0 \<le> 1024"
    using put_small [OF new_table_full(1), of 0 9] new_table_full n by (auto simp: new_table_full(2))
  have "population h0 = 0"
    using put_special_population [OF _ h0(1)] p by (simp add: special_def KEY_NULL_def)
  then obtain h where h: "qt_hash_put_locked amd64_globals h0 4096 7 = Some (h, 1)"
    "table_inv amd64_globals h" "full_map h = [0 \<mapsto> 9, 4096 \<mapsto> 7]"
    using put_small [OF h0(2), of 4096 7] h0(3,4) by auto
  show thesis
    using that [OF h0(1) h(1) _ h0(2,3) h(2,3)] h0(4) by (simp add: table_small_def)
qed

text \<open>
  C11. Whatever sequence of insertions of absent keys and of removals a table has gone
  through, the keys 0 and 1 included, it satisfies its invariant, its content is exactly
  the map a client expects, and a lookup of any key terminates and returns the value of
  the map, or \<open>NULL\<close> when there is none. (The next property says when an insertion
  completes.)
\<close>

theorem table_run_refines_map:
  assumes "globals_wf g" "table_run g h m"
  shows "table_inv g h \<and> full_map h = m
    \<and> qt_hash_get_locked g h a = Some (case m a of None \<Rightarrow> 0 | Some p \<Rightarrow> p)"
  using table_run_inv [OF assms(2,1)] get_locked_full [of g h a] by auto

theorem table_run_refines_map_witness:
  "\<exists>h. table_run amd64_globals h [0 \<mapsto> 9, 4096 \<mapsto> 7] \<and> qt_hash_get_locked amd64_globals h 4096 = Some 7
     \<and> qt_hash_get_locked amd64_globals h 0 = Some 9 \<and> qt_hash_get_locked amd64_globals h 1 = Some 0"
proof -
  obtain h0 h where h: "qt_hash_put_locked amd64_globals new_table 0 9 = Some (h0, 1)"
    "qt_hash_put_locked amd64_globals h0 4096 7 = Some (h, 1)" "table_small h0"
    by (rule two_keys)
  have get: "qt_hash_get_locked amd64_globals new_table 0 = Some 0"
    using table_run_refines_map [OF amd64_globals_wf table_run.create, where a = 0] by simp
  have run0: "table_run amd64_globals h0 [0 \<mapsto> 9]"
    by (rule table_run.insert [OF table_run.create new_table_ok(3) _ get h(1)]) simp
  then have "qt_hash_get_locked amd64_globals h0 4096 = Some 0"
    using table_run_refines_map [OF amd64_globals_wf, of h0 "[0 \<mapsto> 9]" 4096] by simp
  then have run: "table_run amd64_globals h [0 \<mapsto> 9, 4096 \<mapsto> 7]"
    using table_run.insert [OF run0 h(3) _ _ h(2)] by simp
  show ?thesis
    using run table_run_refines_map [OF amd64_globals_wf run, of 0]
      table_run_refines_map [OF amd64_globals_wf run, of 1]
      table_run_refines_map [OF amd64_globals_wf run, of 4096]
    by auto
qed

text \<open>
  C12. Inserting an absent key, exactly. On a table that holds neither of the keys 0 and 1
  it terminates with the result 1, also when the table has to be rehashed (once for growth,
  or once to clear out deleted slots) before the key fits; the invariant is kept, exactly
  that binding is added, and the table at most doubles. The same holds for the insertion of
  one of the keys 0 and 1, and on a table that holds them as long as no rehash of a
  populated array is due. Otherwise there is no result: the copy made by \<open>brehash\<close> lacks
  an entry and its assertion fails.
\<close>

theorem put_locked_absent:
  assumes "table_inv g h" "table_small h" "full_map h key = None"
  shows "if oob_keys h = 0 \<or> special key \<or> \<not> put_rehashes g h key \<or> population h = 0
    then \<exists>h'. qt_hash_put_locked g h key v = Some (h', 1) \<and> table_inv g h'
      \<and> full_map h' = (full_map h)(key \<mapsto> v) \<and> num_entries h' \<le> num_entries h * 2
    else qt_hash_put_locked g h key v = None"
  by (rule put_full [OF assms])

theorem put_locked_absent_witness:
  "\<exists>h'. qt_hash_put_locked amd64_globals new_table 4096 7 = Some (h', 1)
     \<and> table_inv amd64_globals h' \<and> full_map h' = [4096 \<mapsto> 7]"
  using put_locked_absent [OF new_table_full(1) new_table_ok(3), of 4096 7] new_table_full(2,3)
  by auto



text \<open>
  C14. Removing a key, exactly, on a table that may hold the keys 0 and 1 outside of its array:
  the removal terminates, reports whether the key was there, keeps the invariant and removes
  exactly that binding, unless it has to rebuild an array in which entries are left while a
  key is outside of it; then there is no result, because the assertion of \<open>brehash\<close> fails.
\<close>

theorem remove_locked_exact:
  assumes "table_inv g h" "table_small h"
  shows "if oob_keys h = 0 \<or> special key \<or> \<not> remove_rehashes h key \<or> population h = 1
    then \<exists>h'. qt_hash_remove_locked g h key = Some (h', if full_map h key = None then 0 else 1)
      \<and> table_inv g h' \<and> full_map h' = (full_map h)(key := None) \<and> num_entries h' \<le> num_entries h * 2
    else qt_hash_remove_locked g h key = None"
  by (rule remove_full [OF assms])

theorem remove_locked_exact_witness:
  "\<exists>h h'. full_map h = [0 \<mapsto> 9] \<and> qt_hash_remove_locked amd64_globals h 0 = Some (h', 1)
     \<and> table_inv amd64_globals h' \<and> full_map h' = Map.empty"
proof -
  obtain h h1 where h: "table_small h" "table_inv amd64_globals h" "full_map h = [0 \<mapsto> 9]"
    by (rule two_keys)
  have "special 0"
    by (simp add: special_def KEY_NULL_def)
  then obtain h' where "qt_hash_remove_locked amd64_globals h 0 = Some (h', 1)"
    "table_inv amd64_globals h'" "full_map h' = Map.empty"
    using remove_locked_exact [OF h(2,1), of 0] h(3) by auto
  then show ?thesis
    using h(3) by blast
qed

text \<open>
  Inserting a key and removing it again gives back the original map.
\<close>

lemma put_then_remove:
  assumes "hash_inv g h" "table_small h" "KEY_DELETED < a" "hmap h a = None"
    "qt_hash_put_locked g h a p = Some (h', r)" "table_small h'"
  shows "\<exists>h''. qt_hash_remove_locked g h' a = Some (h'', 1) \<and> hash_inv g h'' \<and> hmap h'' = hmap h"
  by (rule hashmap.put_remove [OF assms])

text \<open>
  C15. What a walk over a table visits, exactly. \<open>qt_hash_callback\<close> applies the callback to
  bindings of the table only and to no key twice, to as many as the greater of the
  population of the array and the number of keys outside of it; so it visits every binding
  if and only if one of these numbers is 0. The count is the number of bindings, and
  \<open>qt_hash_destroy_deallocate\<close> passes its final assertion, having released what a walk
  visits, if and only if there are no more keys outside of the array than in it.
\<close>

theorem walk_visits_all:
  assumes "table_inv g h"
  shows "distinct (map fst (qt_hash_callback h)) \<and> map_of (qt_hash_callback h) \<subseteq>\<^sub>m full_map h
    \<and> length (qt_hash_callback h) = max (population h) (oob_keys h)
    \<and> (map_of (qt_hash_callback h) = full_map h \<longleftrightarrow> oob_keys h = 0 \<or> population h = 0)
    \<and> qt_hash_count h = card (dom (full_map h))
    \<and> qt_hash_destroy_deallocate h =
        (if oob_keys h \<le> population h then Some (map snd (qt_hash_callback h)) else None)"
proof -
  define c where "c = qt_hash_callback h"
  define rest where "rest = drop (population h - oob_keys h) (live_list h)"
  have all: "oob_list h @ live_list h = c @ rest"
    by (simp add: c_def rest_def callback_lists)
  have dist: "distinct (map fst (c @ rest))"
    using lists_distinct [OF assms] all by simp
  have fm: "full_map h = map_of (c @ rest)"
    using full_map_lists [of h] all by simp
  have len: "length c = max (population h) (oob_keys h)"
    "length (c @ rest) = oob_keys h + population h"
    using live_list_facts(1) [OF assms] oob_list_facts(1) [of h]
    by (auto simp: c_def callback_lists rest_def)
  have dc: "distinct (map fst c)"
    using dist by simp
  have sub: "map_of c \<subseteq>\<^sub>m full_map h"
    by (simp add: fm map_le_map_add)
  have card: "card (dom (map_of xs)) = length xs" if "distinct (map fst xs)" for xs :: "(u64 \<times> u64) list"
    using distinct_card [OF that] by (simp add: dom_map_of_conv_image_fst)
  have iff: "map_of c = full_map h \<longleftrightarrow> oob_keys h = 0 \<or> population h = 0"
  proof
    assume "map_of c = full_map h"
    then show "oob_keys h = 0 \<or> population h = 0"
      using card [OF dist] card [OF dc] len by (auto simp: fm max_def split: if_splits)
  next
    assume "oob_keys h = 0 \<or> population h = 0"
    then have "rest = []"
      using len by (simp flip: length_0_conv) auto
    then show "map_of c = full_map h"
      by (simp add: fm)
  qed
  have count: "qt_hash_count h = card (dom (full_map h))"
    using card [OF dist] len by (simp add: fm qt_hash_count_def oob_keys_def)
  have "length c = population h \<longleftrightarrow> oob_keys h \<le> population h"
    using len(1) by auto
  then have "qt_hash_destroy_deallocate h = (if oob_keys h \<le> population h then Some (map snd c) else None)"
    by (simp add: qt_hash_destroy_deallocate_def Let_def c_assert_def flip: c_def)
  then show ?thesis
    using dc sub len(1) iff count by (simp flip: c_def)
qed

theorem walk_visits_all_witness:
  "\<exists>h. table_inv amd64_globals h \<and> full_map h = [0 \<mapsto> 9, 4096 \<mapsto> 7] \<and> qt_hash_count h = 2
     \<and> length (qt_hash_callback h) = 1 \<and> map_of (qt_hash_callback h) \<noteq> full_map h"
proof -
  obtain h0 h where h: "table_inv amd64_globals h" "full_map h = [0 \<mapsto> 9, 4096 \<mapsto> 7]"
    by (rule two_keys)
  have "oob_keys h = 1"
    by (simp add: oob_keys_full_map h(2))
  moreover have "qt_hash_count h = 2"
    using walk_visits_all [OF h(1)] h(2) by simp
  ultimately show ?thesis
    using h walk_visits_all [OF h(1)] by (auto simp: qt_hash_count_def oob_keys_def)
qed

text \<open>
  The mixing step of the hash functions is a bijection on its three-word state: no
  information about the key is lost before the last word is returned.
\<close>

lemma mix_bijective: "bij mix"
  by (rule mix_bij)

text \<open>
  \<open>qt_hash_bytes\<close> shifts the ninth and the tenth byte of a tail by the same amount:
  two keys of length 10 modulo 12 that differ only in the order of their last two bytes
  always collide.
\<close>

lemma hash_bytes_swap_collision:
  assumes "length p mod 12 = 8"
  shows "qt_hash_bytes (p @ [x, y]) st = qt_hash_bytes (p @ [y, x]) st"
proof -
  obtain q s where "length q = 8"
    "hash_blocks (p @ [x, y]) (GOLDEN_RATIO, GOLDEN_RATIO, st) = (q @ [x, y], s)"
    "hash_blocks (p @ [y, x]) (GOLDEN_RATIO, GOLDEN_RATIO, st) = (q @ [y, x], s)"
    using hash_blocks_swap [OF assms] by metis
  then show ?thesis
    by (simp add: qt_hash_bytes_def hash_tail_swap)
qed

end
