(* ===== verification/Sherwood.thy ===== *)
theory Sherwood
  imports Runtime
begin

text \<open>
  The Sherwood scheduler: the ready queues of \<open>src/src/threadqueues/sherwood_threadqueues.c\<close>
  and the worker-local spawn cache of \<open>src/src/spawncache.c\<close>.

  A ready queue is a doubly linked list of nodes with a head and a tail, a length and the
  number of nodes that other shepherds may steal. The nodes live in a heap that maps
  pointers to nodes; 0 is \<open>NULL\<close>, and reading or writing through a pointer that is not
  allocated is the crash \<open>None\<close>. Pointers to nodes are unbounded numbers. The node pool
  is represented by the function that chooses the next pointer (\<open>ALLOC_TQNODE\<close>).

  Every queue operation runs under the lock of its queue and is one atomic function. The
  operations on a spawn cache are run by its worker only. Loops that follow links carry
  fuel, the length of the queue. Steal profiling is left out, and so is the aggregation of
  tasks, which \<open>QTHREAD_TASK_IS_AGGREGABLE\<close> switches off.
\<close>

section \<open>Nodes, queues and caches\<close>

type_synonym ptr = nat

record tq_node =
  nnext :: ptr
  nprev :: ptr
  stealable :: int
  nvalue :: tid

type_synonym nheap = "ptr \<Rightarrow> tq_node option"

record qt_threadqueue =
  head :: ptr
  tail :: ptr
  qlength :: int
  qlength_stealable :: int

record qt_threadqueue_private =
  chead :: ptr
  ctail :: ptr
  on_deck :: ptr
  cqlength :: int
  cqlength_stealable :: int

definition set_next :: "ptr \<Rightarrow> ptr \<Rightarrow> nheap \<Rightarrow> nheap option" where
  "set_next p v h = do { n \<leftarrow> h p; Some (h(p \<mapsto> n\<lparr>nnext := v\<rparr>)) }"

definition set_prev :: "ptr \<Rightarrow> ptr \<Rightarrow> nheap \<Rightarrow> nheap option" where
  "set_prev p v h = do { n \<leftarrow> h p; Some (h(p \<mapsto> n\<lparr>nprev := v\<rparr>)) }"

definition free_node :: "ptr \<Rightarrow> nheap \<Rightarrow> nheap" where
  "free_node p h = h(p := None)"

text \<open>\<open>assert(p == NULL || p->next == NULL)\<close> and the same for \<open>prev\<close>\<close>

definition assert_last :: "ptr \<Rightarrow> nheap \<Rightarrow> unit option" where
  "assert_last p h = (if p = 0 then Some () else do { n \<leftarrow> h p; c_assert (nnext n = 0) })"

definition assert_first :: "ptr \<Rightarrow> nheap \<Rightarrow> unit option" where
  "assert_first p h = (if p = 0 then Some () else do { n \<leftarrow> h p; c_assert (nprev n = 0) })"

text \<open>
  Appending the chain from \<open>first\<close> to \<open>lst\<close> at the tail, the pattern of every insertion at
  the tail: \<open>first->prev = tail; tail = last; if (head == NULL) head = first; else
  first->prev->next = first\<close>.
\<close>

definition splice_tail :: "ptr \<Rightarrow> ptr \<Rightarrow> ptr \<times> ptr \<Rightarrow> nheap \<Rightarrow> ((ptr \<times> ptr) \<times> nheap) option" where
  "splice_tail first lst = (\<lambda>(hd, tl) h.
     do { h \<leftarrow> set_prev first tl h;
          if hd = 0 then Some ((first, lst), h)
          else do { h \<leftarrow> set_next tl first h; Some ((hd, lst), h) } })"

text \<open>Inserting one node at the head.\<close>

definition push_head :: "ptr \<Rightarrow> ptr \<times> ptr \<Rightarrow> nheap \<Rightarrow> ((ptr \<times> ptr) \<times> nheap) option" where
  "push_head node = (\<lambda>(hd, tl) h.
     do { h \<leftarrow> set_next node hd h;
          if tl = 0 then Some ((node, node), h)
          else do { h \<leftarrow> set_prev hd node h; Some ((node, tl), h) } })"

section \<open>The shared queue\<close>

definition qt_threadqueue_new :: qt_threadqueue where
  "qt_threadqueue_new = \<lparr>head = 0, tail = 0, qlength = 0, qlength_stealable = 0\<rparr>"

definition qt_threadqueue_advisory_queuelen :: "qt_threadqueue \<Rightarrow> int" where
  "qt_threadqueue_advisory_queuelen q = qlength q"

definition qt_threadqueue_isstealable :: "16 word \<Rightarrow> int" where
  "qt_threadqueue_isstealable fl = (if fl AND QTHREAD_UNSTEALABLE = 0 then 1 else 0)"

definition qt_threadqueue_enqueue :: "(nheap \<Rightarrow> ptr) \<Rightarrow> qt_threadqueue \<Rightarrow> tid \<Rightarrow> 16 word \<Rightarrow> nheap
    \<Rightarrow> (qt_threadqueue \<times> nheap) option" where
  "qt_threadqueue_enqueue alloc q t fl h =
     (let node = alloc h; st = qt_threadqueue_isstealable fl
      in do {
        c_assert (node \<noteq> 0);
        ((hd, tl), h) \<leftarrow> splice_tail node node (head q, tail q)
           (h(node \<mapsto> \<lparr>nnext = 0, nprev = 0, stealable = st, nvalue = t\<rparr>));
        Some (q\<lparr>head := hd, tail := tl, qlength := qlength q + 1,
                qlength_stealable := qlength_stealable q + st\<rparr>, h)
      })"

definition qt_threadqueue_enqueue_yielded :: "(nheap \<Rightarrow> ptr) \<Rightarrow> qt_threadqueue \<Rightarrow> tid \<Rightarrow> 16 word
    \<Rightarrow> nheap \<Rightarrow> (qt_threadqueue \<times> nheap) option" where
  "qt_threadqueue_enqueue_yielded alloc q t fl h =
     (let node = alloc h; st = qt_threadqueue_isstealable fl
      in do {
        c_assert (node \<noteq> 0);
        ((hd, tl), h) \<leftarrow> push_head node (head q, tail q)
           (h(node \<mapsto> \<lparr>nnext = 0, nprev = 0, stealable = st, nvalue = t\<rparr>));
        Some (q\<lparr>head := hd, tail := tl, qlength := qlength q + 1,
                qlength_stealable := qlength_stealable q + st\<rparr>, h)
      })"

text \<open>Taking the node at the tail, as \<open>qt_scheduler_get_thread\<close> does; \<open>NULL\<close> when empty.\<close>

definition dequeue_tail :: "qt_threadqueue \<Rightarrow> nheap \<Rightarrow> (ptr \<times> qt_threadqueue \<times> nheap) option" where
  "dequeue_tail q h =
     (if head q = 0 \<or> tail q = 0 then Some (0, q, h)
      else do {
        n \<leftarrow> h (tail q);
        c_assert (qlength q > 0);
        let q' = q\<lparr>tail := nprev n, qlength := qlength q - 1,
                   qlength_stealable := qlength_stealable q - stealable n\<rparr>;
        if nprev n = 0 then Some (tail q, q'\<lparr>head := 0\<rparr>, h)
        else do { h \<leftarrow> set_next (nprev n) 0 h; Some (tail q, q', h) }
      })"

section \<open>The spawn cache\<close>

definition qt_init_local_spawncache :: qt_threadqueue_private where
  "qt_init_local_spawncache =
     \<lparr>chead = 0, ctail = 0, on_deck = 0, cqlength = 0, cqlength_stealable = 0\<rparr>"

definition private_asserts :: "qt_threadqueue_private \<Rightarrow> nheap \<Rightarrow> unit option" where
  "private_asserts c h =
     do { c_assert (chead c = ctail c \<and> cqlength c < 2
                  \<or> chead c \<noteq> 0 \<and> ctail c \<noteq> 0 \<and> cqlength c > 1);
          assert_last (ctail c) h;
          assert_first (chead c) h }"

text \<open>The new thread goes on deck; the thread that was there goes to the tail of the list.\<close>

definition qt_threadqueue_private_enqueue :: "(nheap \<Rightarrow> ptr) \<Rightarrow> qt_threadqueue_private \<Rightarrow> tid
    \<Rightarrow> 16 word \<Rightarrow> nheap \<Rightarrow> (qt_threadqueue_private \<times> nheap) option" where
  "qt_threadqueue_private_enqueue alloc c t fl h =
     (let node = alloc h; st = qt_threadqueue_isstealable fl
      in do {
        c_assert (node \<noteq> 0);
        private_asserts c h;
        let h = h(node \<mapsto> \<lparr>nnext = 0, nprev = 0, stealable = st, nvalue = t\<rparr>);
        if on_deck c \<noteq> 0 then do {
          n \<leftarrow> h (on_deck c);
          ((hd, tl), h) \<leftarrow> splice_tail (on_deck c) (on_deck c) (chead c, ctail c) h;
          assert_last tl h;
          assert_first hd h;
          Some (c\<lparr>chead := hd, ctail := tl, cqlength := cqlength c + 1,
                  cqlength_stealable := cqlength_stealable c + (if stealable n \<noteq> 0 then 1 else 0),
                  on_deck := node\<rparr>, h)
        } else Some (c\<lparr>on_deck := node\<rparr>, h)
      })"

definition qt_threadqueue_private_enqueue_yielded :: "(nheap \<Rightarrow> ptr) \<Rightarrow> qt_threadqueue_private \<Rightarrow> tid
    \<Rightarrow> 16 word \<Rightarrow> nheap \<Rightarrow> (qt_threadqueue_private \<times> nheap) option" where
  "qt_threadqueue_private_enqueue_yielded alloc c t fl h =
     (let node = alloc h; st = qt_threadqueue_isstealable fl
      in do {
        c_assert (node \<noteq> 0);
        private_asserts c h;
        ((hd, tl), h) \<leftarrow> push_head node (chead c, ctail c)
           (h(node \<mapsto> \<lparr>nnext = 0, nprev = 0, stealable = st, nvalue = t\<rparr>));
        assert_last tl h;
        assert_first hd h;
        Some (c\<lparr>chead := hd, ctail := tl, cqlength := cqlength c + 1,
                cqlength_stealable := cqlength_stealable c + st\<rparr>, h)
      })"

text \<open>
  The list of the cache is moved to the tail of the shared queue. This is the flush of
  \<open>qt_scheduler_get_thread\<close>, which keeps the node on deck for itself.
\<close>

definition flush_list :: "qt_threadqueue_private \<Rightarrow> qt_threadqueue \<Rightarrow> nheap
    \<Rightarrow> (qt_threadqueue_private \<times> qt_threadqueue \<times> nheap) option" where
  "flush_list c q h =
     do {
       f \<leftarrow> h (chead c);
       l \<leftarrow> h (ctail c);
       c_assert (nnext l = 0 \<and> nprev f = 0);
       c_assert (head q \<noteq> chead c \<and> tail q \<noteq> ctail c);
       ((hd, tl), h) \<leftarrow> splice_tail (chead c) (ctail c) (head q, tail q) h;
       assert_last tl h;
       assert_first hd h;
       Some (c\<lparr>chead := 0, ctail := 0, cqlength := 0, cqlength_stealable := 0\<rparr>,
             q\<lparr>head := hd, tail := tl, qlength := qlength q + cqlength c,
               qlength_stealable := qlength_stealable q + cqlength_stealable c\<rparr>, h)
     }"

definition qt_threadqueue_enqueue_cache :: "qt_threadqueue \<Rightarrow> qt_threadqueue_private \<Rightarrow> nheap
    \<Rightarrow> (qt_threadqueue \<times> qt_threadqueue_private \<times> nheap) option" where
  "qt_threadqueue_enqueue_cache q c h =
     (let first = on_deck c
      in do {
        c_assert (first \<noteq> 0);
        c_assert (chead c = 0 \<or> cqlength c \<noteq> 0);
        (lst, h) \<leftarrow> (if cqlength c \<noteq> 0
           then do { h \<leftarrow> set_next first (chead c) h; h \<leftarrow> set_prev (chead c) first h; Some (ctail c, h) }
           else Some (first, h));
        l \<leftarrow> h lst;
        c_assert (nnext l = 0);
        f \<leftarrow> h first;
        c_assert (nprev f = 0);
        h \<leftarrow> set_next first (chead c) h;
        ((hd, tl), h) \<leftarrow> splice_tail first lst (head q, tail q) h;
        Some (q\<lparr>head := hd, tail := tl, qlength := qlength q + (cqlength c + 1),
                qlength_stealable := qlength_stealable q + (cqlength_stealable c + stealable f)\<rparr>,
              \<lparr>chead = 0, ctail = 0, on_deck = 0, cqlength = 0, cqlength_stealable = 0\<rparr>, h)
      })"

text \<open>\<open>None\<close> as the thread is an empty cache.\<close>

definition qt_threadqueue_private_dequeue :: "qt_threadqueue_private \<Rightarrow> nheap
    \<Rightarrow> (tid option \<times> qt_threadqueue_private \<times> nheap) option" where
  "qt_threadqueue_private_dequeue c h =
     (if on_deck c \<noteq> 0 then do {
        node \<leftarrow> h (on_deck c);
        if ctail c \<noteq> 0 then do {
          n \<leftarrow> h (ctail c);
          h \<leftarrow> set_prev (ctail c) 0 h;
          Some (Some (nvalue node),
                c\<lparr>on_deck := ctail c, ctail := nprev n,
                  chead := (if chead c = ctail c then 0 else chead c),
                  cqlength := cqlength c - 1,
                  cqlength_stealable := cqlength_stealable c - stealable n\<rparr>,
                free_node (on_deck c) h)
        } else Some (Some (nvalue node), c\<lparr>on_deck := 0\<rparr>, free_node (on_deck c) h)
      } else Some (None, c, h))"

section \<open>Stealing\<close>

text \<open>The last node of a chain and the number of nodes before it.\<close>

fun find_last :: "nat \<Rightarrow> nheap \<Rightarrow> ptr \<Rightarrow> nat \<Rightarrow> (ptr \<times> nat) option" where
  "find_last 0 h p cnt = None"
| "find_last (Suc fuel) h p cnt =
     do { n \<leftarrow> h p;
          if nnext n \<noteq> 0 then find_last fuel h (nnext n) (cnt + 1) else Some (p, cnt) }"

definition qt_threadqueue_enqueue_multiple :: "nat \<Rightarrow> qt_threadqueue \<Rightarrow> ptr \<Rightarrow> nheap
    \<Rightarrow> (qt_threadqueue \<times> nheap) option" where
  "qt_threadqueue_enqueue_multiple fuel q first h =
     do {
       c_assert (first \<noteq> 0);
       (lst, addCnt) \<leftarrow> find_last fuel h first 1;
       h \<leftarrow> set_next lst 0 h;
       ((hd, tl), h) \<leftarrow> splice_tail first lst (head q, tail q) h;
       Some (q\<lparr>head := hd, tail := tl, qlength := qlength q + int addCnt,
               qlength_stealable := qlength_stealable q + int addCnt\<rparr>, h)
     }"

fun skip_unstealable :: "nat \<Rightarrow> nheap \<Rightarrow> ptr \<Rightarrow> ptr option" where
  "skip_unstealable fuel h node =
     (if node = 0 then Some 0
      else case fuel of 0 \<Rightarrow> None
      | Suc fuel \<Rightarrow> do { n \<leftarrow> h node;
                       if stealable n = 0 then skip_unstealable fuel h (nnext n) else Some node })"

declare skip_unstealable.simps [simp del]

text \<open>The end of the run of stealable nodes that starts at a stealable node.\<close>

fun take_run :: "nat \<Rightarrow> nheap \<Rightarrow> int \<Rightarrow> int \<Rightarrow> ptr \<Rightarrow> (ptr \<times> int) option" where
  "take_run fuel h desired amt last_stolen =
     do { l \<leftarrow> h last_stolen;
          if amt < desired \<and> nnext l \<noteq> 0 then
            (case fuel of 0 \<Rightarrow> None
             | Suc fuel \<Rightarrow> do { n \<leftarrow> h (nnext l);
                              if stealable n = 0 then Some (last_stolen, amt)
                              else take_run fuel h desired (amt + 1) (nnext l) })
          else Some (last_stolen, amt) }"

declare take_run.simps [simp del]

text \<open>Closing the gap from the left and from the right, at the head or tail where needed.\<close>

definition relink_left :: "ptr \<Rightarrow> ptr \<Rightarrow> ptr \<Rightarrow> qt_threadqueue \<Rightarrow> nheap \<Rightarrow> (qt_threadqueue \<times> nheap) option" where
  "relink_left fs pv nx v h =
     (if fs = head v then Some (v\<lparr>head := nx\<rparr>, h) else do { h \<leftarrow> set_next pv nx h; Some (v, h) })"

definition relink_right :: "ptr \<Rightarrow> ptr \<Rightarrow> ptr \<Rightarrow> qt_threadqueue \<Rightarrow> nheap \<Rightarrow> (qt_threadqueue \<times> nheap) option" where
  "relink_right ls nx pv v h =
     (if ls = tail v then Some (v\<lparr>tail := pv\<rparr>, h) else do { h \<leftarrow> set_prev nx pv h; Some (v, h) })"

text \<open>Taking the run from \<open>fs\<close> to \<open>ls\<close> out of the victim queue; the result is the node after it.\<close>

definition unlink_run :: "ptr \<Rightarrow> ptr \<Rightarrow> qt_threadqueue \<Rightarrow> nheap
    \<Rightarrow> (ptr \<times> qt_threadqueue \<times> nheap) option" where
  "unlink_run fs ls v h =
     do {
       f \<leftarrow> h fs;
       l \<leftarrow> h ls;
       (v, h) \<leftarrow> relink_left fs (nprev f) (nnext l) v h;
       f \<leftarrow> h fs;
       l \<leftarrow> h ls;
       (v, h) \<leftarrow> relink_right ls (nnext l) (nprev f) v h;
       l \<leftarrow> h ls;
       let node = nnext l;
       h \<leftarrow> set_next ls 0 h;
       h \<leftarrow> set_prev fs 0 h;
       Some (node, v, h)
     }"

text \<open>Appending the run to the chain of stolen nodes.\<close>

definition chain_run :: "ptr \<Rightarrow> ptr \<Rightarrow> ptr \<times> ptr \<Rightarrow> nheap \<Rightarrow> ((ptr \<times> ptr) \<times> nheap) option" where
  "chain_run fs ls = (\<lambda>(first, lst) h.
     if first = 0 then Some ((fs, ls), h)
     else do { h \<leftarrow> set_next lst fs h; h \<leftarrow> set_prev fs lst h; Some ((first, ls), h) })"

fun steal_loop :: "nat \<Rightarrow> int \<Rightarrow> ptr \<Rightarrow> int \<Rightarrow> ptr \<times> ptr \<Rightarrow> qt_threadqueue \<Rightarrow> nheap
    \<Rightarrow> (ptr \<times> qt_threadqueue \<times> nheap) option" where
  "steal_loop 0 desired node amt fl v h = None"
| "steal_loop (Suc fuel) desired node amt fl v h =
     do {
       fs \<leftarrow> skip_unstealable fuel h node;
       if fs = 0 then Some (fst fl, v, h)
       else do {
         (ls, amt') \<leftarrow> take_run fuel h desired (amt + 1) fs;
         let v = v\<lparr>qlength := qlength v - (amt' - amt),
                   qlength_stealable := qlength_stealable v - (amt' - amt)\<rparr>;
         (node, v, h) \<leftarrow> unlink_run fs ls v h;
         (fl, h) \<leftarrow> chain_run fs ls fl h;
         if qlength_stealable v > 0 \<and> amt' < desired then steal_loop fuel desired node amt' fl v h
         else Some (fst fl, v, h)
       }
     }"

definition desired_stolen :: "int \<Rightarrow> qt_threadqueue \<Rightarrow> int" where
  "desired_stolen steal_chunksize v =
     (let d = (if steal_chunksize = 0 then qlength_stealable v div 2 else steal_chunksize)
      in if d = 0 then 1 else d)"

text \<open>\<open>got_lock\<close> is the result of the attempt to take the lock of the victim queue.\<close>

definition qt_threadqueue_dequeue_steal :: "int \<Rightarrow> bool \<Rightarrow> qt_threadqueue \<Rightarrow> nheap
    \<Rightarrow> (ptr \<times> qt_threadqueue \<times> nheap) option" where
  "qt_threadqueue_dequeue_steal steal_chunksize got_lock v h =
     (if \<not> got_lock then Some (0, v, h)
      else if qlength_stealable v > 0 \<and> 0 < desired_stolen steal_chunksize v
      then steal_loop (Suc (nat (qlength v))) (desired_stolen steal_chunksize v) (head v) 0 (0, 0) v h
      else Some (0, v, h))"

section \<open>Walking a queue\<close>

text \<open>
  The filter keeps the address of the link to the current node from either side: \<open>lp\<close>
  is the head of the queue or the next field of a node, \<open>rp\<close> the tail or a prev field.
\<close>

datatype lp_loc = AtHead | NextOf ptr
datatype rp_loc = AtTail | PrevOf ptr

definition find_lp :: "ptr \<Rightarrow> ptr \<Rightarrow> nheap \<Rightarrow> lp_loc option" where
  "find_lp hp node h = (if hp = node then Some AtHead else do { n \<leftarrow> h node; Some (NextOf (nprev n)) })"

definition store_lp :: "lp_loc \<Rightarrow> ptr \<Rightarrow> qt_threadqueue \<Rightarrow> nheap \<Rightarrow> (qt_threadqueue \<times> nheap) option" where
  "store_lp lp v q h = (case lp of AtHead \<Rightarrow> Some (q\<lparr>head := v\<rparr>, h)
     | NextOf p \<Rightarrow> do { h \<leftarrow> set_next p v h; Some (q, h) })"

definition store_rp :: "rp_loc \<Rightarrow> ptr \<Rightarrow> qt_threadqueue \<Rightarrow> nheap \<Rightarrow> (qt_threadqueue \<times> nheap) option" where
  "store_rp rp v q h = (case rp of AtTail \<Rightarrow> Some (q\<lparr>tail := v\<rparr>, h)
     | PrevOf p \<Rightarrow> do { h \<leftarrow> set_prev p v h; Some (q, h) })"

text \<open>Unlinking the current node: \<open>*lp = node->next; *rp = node->prev\<close> and the counters.\<close>

definition filter_remove :: "ptr \<Rightarrow> lp_loc \<Rightarrow> rp_loc \<Rightarrow> qt_threadqueue \<Rightarrow> nheap
    \<Rightarrow> (ptr \<times> qt_threadqueue \<times> nheap) option" where
  "filter_remove node lp rp q h =
     do {
       n \<leftarrow> h node;
       (q, h) \<leftarrow> store_lp lp (nnext n) q h;
       n \<leftarrow> h node;
       (q, h) \<leftarrow> store_rp rp (nprev n) q h;
       n \<leftarrow> h node;
       Some (nprev n, q\<lparr>qlength := qlength q - 1,
                        qlength_stealable := qlength_stealable q - stealable n\<rparr>, h)
     }"

fun filter_loop :: "nat \<Rightarrow> (tid \<Rightarrow> filter_code) \<Rightarrow> ptr \<Rightarrow> lp_loc \<Rightarrow> rp_loc \<Rightarrow> qt_threadqueue \<Rightarrow> nheap
    \<Rightarrow> (qt_threadqueue \<times> nheap) option" where
  "filter_loop 0 f node lp rp q h = None"
| "filter_loop (Suc fuel) f node lp rp q h =
     (if node = 0 then Some (q, h)
      else do {
        n \<leftarrow> h node;
        case f (nvalue n) of
          IGNORE_AND_CONTINUE \<Rightarrow>
            (let nd = nprev n
             in do {
               lp \<leftarrow> (if nd \<noteq> 0 then find_lp (head q) nd h else Some lp);
               filter_loop fuel f nd lp (PrevOf node) q h })
        | IGNORE_AND_STOP \<Rightarrow> Some (q, h)
        | REMOVE_AND_CONTINUE \<Rightarrow>
            do { (nd, q, h) \<leftarrow> filter_remove node lp rp q h;
                 lp \<leftarrow> find_lp (head q) nd h;
                 filter_loop fuel f nd lp rp q (free_node node h) }
        | REMOVE_AND_STOP \<Rightarrow>
            do { (nd, q, h) \<leftarrow> filter_remove node lp rp q h; Some (q, free_node node h) }
      })"

definition qt_threadqueue_filter :: "qt_threadqueue \<Rightarrow> (tid \<Rightarrow> filter_code) \<Rightarrow> nheap
    \<Rightarrow> (qt_threadqueue \<times> nheap) option" where
  "qt_threadqueue_filter q f h =
     (if qlength q > 0 then
        do { lp \<leftarrow> find_lp (head q) (tail q) h;
             filter_loop (Suc (nat (qlength q))) f (tail q) lp AtTail q h }
      else Some (q, h))"

text \<open>The node with a given return location, searched from the tail.\<close>

fun find_specific :: "nat \<Rightarrow> (tid \<Rightarrow> u64) \<Rightarrow> u64 \<Rightarrow> ptr \<Rightarrow> nheap \<Rightarrow> ptr option" where
  "find_specific 0 ret value node h = None"
| "find_specific (Suc fuel) ret value node h =
     (if node = 0 then Some 0
      else do { n \<leftarrow> h node;
                if ret (nvalue n) = value then Some node
                else find_specific fuel ret value (nprev n) h })"

definition qt_threadqueue_dequeue_specific :: "(tid \<Rightarrow> u64) \<Rightarrow> qt_threadqueue \<Rightarrow> u64 \<Rightarrow> nheap
    \<Rightarrow> (tid option \<times> qt_threadqueue \<times> nheap) option" where
  "qt_threadqueue_dequeue_specific ret q value h =
     (if qlength q > 0 then do {
        node \<leftarrow> find_specific (Suc (nat (qlength q))) ret value (tail q) h;
        if node = 0 then Some (None, q, h)
        else do {
          n \<leftarrow> h node;
          if node \<noteq> tail q then do {
            (q, h) \<leftarrow> (if node = head q then Some (q\<lparr>head := nnext n\<rparr>, h)
                       else do { h \<leftarrow> set_next (nprev n) (nnext n) h; Some (q, h) });
            h \<leftarrow> set_prev (nnext n) (nprev n) h;
            h \<leftarrow> set_next node 0 h;
            h \<leftarrow> set_prev node (tail q) h;
            h \<leftarrow> set_next (tail q) node h;
            Some (Some (nvalue n), q\<lparr>tail := node\<rparr>, h)
          } else Some (Some (nvalue n), q, h)
        }
      } else Some (None, q, h))"

text \<open>The threads freed with a queue, and the heap that is left.\<close>

fun free_loop :: "nat \<Rightarrow> qt_threadqueue \<Rightarrow> nheap \<Rightarrow> (tid list \<times> qt_threadqueue \<times> nheap) option" where
  "free_loop 0 q h = None"
| "free_loop (Suc fuel) q h =
     (if head q = tail q then Some ([], q, h)
      else if tail q = 0 then free_loop fuel q h
      else do {
        n \<leftarrow> h (tail q);
        (q', h) \<leftarrow> (if nprev n = 0 then Some (q\<lparr>tail := 0, head := 0\<rparr>, h)
                   else do { h \<leftarrow> set_next (nprev n) 0 h; Some (q\<lparr>tail := nprev n\<rparr>, h) });
        (ts, q', h) \<leftarrow> free_loop fuel q' (free_node (tail q) h);
        Some (nvalue n # ts, q', h)
      })"

definition qt_threadqueue_free :: "qt_threadqueue \<Rightarrow> nheap \<Rightarrow> (tid list \<times> nheap) option" where
  "qt_threadqueue_free q h =
     (if head q \<noteq> tail q then
        do { (ts, q, h) \<leftarrow> free_loop (Suc (nat (qlength q))) q h;
             c_assert (head q = 0);
             c_assert (tail q = 0);
             Some (ts, h) }
      else Some ([], h))"

section \<open>The scheduler\<close>

text \<open>
  The scheduler as a whole: the heap of nodes, one ready queue per shepherd, the spawn cache
  of every worker that has one, the worker whose code is running, and for every shepherd
  whether one of its workers is stealing (1), or stealing is forbidden (2).
\<close>

record sw_state =
  nodes :: nheap
  alloc :: "nheap \<Rightarrow> ptr"
  queues :: "qt_threadqueue list"
  caches :: "qt_threadqueue_private option list"
  cur :: nat
  stealing :: "int list"
  steal_disable :: bool
  steal_chunksize :: int

definition sw_enqueue :: "shep_id \<Rightarrow> tid \<Rightarrow> 16 word \<Rightarrow> sw_state \<Rightarrow> sw_state option" where
  "sw_enqueue sh t fl s =
     (if sh < length (queues s) then
        do { (q, h) \<leftarrow> qt_threadqueue_enqueue (alloc s) (queues s ! sh) t fl (nodes s);
             Some (s\<lparr>queues := (queues s)[sh := q], nodes := h\<rparr>) }
      else None)"

definition sw_enqueue_yielded :: "shep_id \<Rightarrow> tid \<Rightarrow> 16 word \<Rightarrow> sw_state \<Rightarrow> sw_state option" where
  "sw_enqueue_yielded sh t fl s =
     (if sh < length (queues s) then
        do { (q, h) \<leftarrow> qt_threadqueue_enqueue_yielded (alloc s) (queues s ! sh) t fl (nodes s);
             Some (s\<lparr>queues := (queues s)[sh := q], nodes := h\<rparr>) }
      else None)"

definition qt_spawncache_get :: "sw_state \<Rightarrow> qt_threadqueue_private option" where
  "qt_spawncache_get s = (if cur s < length (caches s) then caches s ! cur s else None)"

definition set_cache :: "qt_threadqueue_private \<Rightarrow> nheap \<Rightarrow> sw_state \<Rightarrow> sw_state" where
  "set_cache c h s = s\<lparr>caches := (caches s)[cur s := Some c], nodes := h\<rparr>"

definition qt_spawncache_spawn :: "tid \<Rightarrow> 16 word \<Rightarrow> sw_state \<Rightarrow> (sw_state \<times> bool) option" where
  "qt_spawncache_spawn t fl s =
     (case qt_spawncache_get s of
        None \<Rightarrow> Some (s, False)
      | Some c \<Rightarrow> do { (c, h) \<leftarrow> qt_threadqueue_private_enqueue (alloc s) c t fl (nodes s);
                      Some (set_cache c h s, True) })"

definition qt_spawncache_yield :: "tid \<Rightarrow> 16 word \<Rightarrow> sw_state \<Rightarrow> (sw_state \<times> bool) option" where
  "qt_spawncache_yield t fl s =
     (case qt_spawncache_get s of
        None \<Rightarrow> Some (s, False)
      | Some c \<Rightarrow> do { (c, h) \<leftarrow> qt_threadqueue_private_enqueue_yielded (alloc s) c t fl (nodes s);
                      Some (set_cache c h s, True) })"

definition qt_spawncache_flush :: "shep_id \<Rightarrow> sw_state \<Rightarrow> (sw_state \<times> bool) option" where
  "qt_spawncache_flush sh s =
     (case qt_spawncache_get s of
        None \<Rightarrow> Some (s, False)
      | Some c \<Rightarrow>
          (if on_deck c \<noteq> 0 then
             do { (q, c, h) \<leftarrow> qt_threadqueue_enqueue_cache (queues s ! sh) c (nodes s);
                  Some ((set_cache c h s)\<lparr>queues := (queues s)[sh := q]\<rparr>, True) }
           else Some (s, False)))"

text \<open>
  One attempt of \<open>qt_scheduler_get_thread\<close> to find a node without stealing: the node on
  deck (the rest of the cache is moved to the shared queue), else the tail of the queue.
\<close>

definition pick_local :: "shep_id \<Rightarrow> sw_state \<Rightarrow> (ptr \<times> sw_state) option" where
  "pick_local sh s =
     (case qt_spawncache_get s of
        Some c \<Rightarrow>
          (if on_deck c \<noteq> 0 then do {
             assert_last (ctail c) (nodes s);
             assert_first (chead c) (nodes s);
             n \<leftarrow> nodes s (on_deck c);
             c_assert (nnext n = 0 \<and> nprev n = 0);
             if cqlength c > 0 then do {
               (c', q, h) \<leftarrow> flush_list c (queues s ! sh) (nodes s);
               Some (on_deck c, (set_cache (c'\<lparr>on_deck := 0\<rparr>) h s)\<lparr>queues := (queues s)[sh := q]\<rparr>)
             } else Some (on_deck c, set_cache (c\<lparr>on_deck := 0\<rparr>) (nodes s) s)
           } else do {
             (node, q, h) \<leftarrow> dequeue_tail (queues s ! sh) (nodes s);
             Some (node, s\<lparr>queues := (queues s)[sh := q], nodes := h\<rparr>) })
      | None \<Rightarrow> do {
             (node, q, h) \<leftarrow> dequeue_tail (queues s ! sh) (nodes s);
             Some (node, s\<lparr>queues := (queues s)[sh := q], nodes := h\<rparr>) })"

text \<open>
  \<open>qthread_steal\<close> tries the other shepherds in the order of the thief's list until it has
  stolen a node or its own queue has work; one round over the list is modelled. The
  surplus of what was stolen goes to the thief's queue.
\<close>

definition steal_from :: "(shep_id \<Rightarrow> bool) \<Rightarrow> shep_id \<Rightarrow> shep_id \<Rightarrow> sw_state \<Rightarrow> (ptr \<times> sw_state) option"
  where
  "steal_from got_lock sh victim s =
     do {
       (stolen, v, h) \<leftarrow> qt_threadqueue_dequeue_steal (steal_chunksize s) (got_lock victim)
                          (queues s ! victim) (nodes s);
       let fuel = Suc (nat (qlength (queues s ! victim)));
       let s = s\<lparr>queues := (queues s)[victim := v], nodes := h\<rparr>;
       if stolen \<noteq> 0 then do {
         n \<leftarrow> h stolen;
         if nnext n \<noteq> 0 then do {
           h \<leftarrow> set_next stolen 0 h;
           h \<leftarrow> set_prev (nnext n) 0 h;
           (q, h) \<leftarrow> qt_threadqueue_enqueue_multiple fuel (queues s ! sh) (nnext n) h;
           Some (stolen, s\<lparr>queues := (queues s)[sh := q], nodes := h\<rparr>)
         } else Some (stolen, s)
       } else Some (0, s)
     }"

fun steal_round :: "(shep_id \<Rightarrow> bool) \<Rightarrow> shep_id \<Rightarrow> shep_id list \<Rightarrow> sw_state \<Rightarrow> (ptr \<times> sw_state) option"
  where
  "steal_round got_lock sh [] s = Some (0, s)"
| "steal_round got_lock sh (victim # vs) s =
     do {
       (stolen, s) \<leftarrow> (if qlength_stealable (queues s ! victim) \<noteq> 0
                       then steal_from got_lock sh victim s else Some (0, s));
       if stolen \<noteq> 0 then Some (stolen, s)
       else if 0 < qlength (queues s ! sh) \<or> steal_disable s then Some (0, s)
       else steal_round got_lock sh vs s
     }"

definition qthread_steal :: "(shep_id \<Rightarrow> bool) \<Rightarrow> shep_id \<Rightarrow> shep_id list \<Rightarrow> sw_state
    \<Rightarrow> (ptr \<times> sw_state) option" where
  "qthread_steal got_lock sh sheplist s =
     (if stealing s ! sh \<noteq> 0 then Some (0, s)
      else do {
        (stolen, s) \<leftarrow> steal_round got_lock sh sheplist (s\<lparr>stealing := (stealing s)[sh := 1]\<rparr>);
        Some (stolen, s\<lparr>stealing := (stealing s)[sh := 0]\<rparr>)
      })"

text \<open>
  One iteration of the loop of \<open>qt_scheduler_get_thread\<close>: it returns a thread to run, or goes
  round again. The thread that called \<open>main\<close> (\<open>QTHREAD_REAL_MCCOY\<close>) only runs on worker 0.
\<close>

datatype get_result = Run tid | Again

definition start_node :: "(tid \<Rightarrow> 16 word) \<Rightarrow> shep_id \<Rightarrow> nat \<Rightarrow> ptr \<Rightarrow> sw_state
    \<Rightarrow> (sw_state \<times> get_result) option" where
  "start_node tflags sh worker_id node s =
     (if node = 0 then Some (s, Again)
      else do {
        n \<leftarrow> nodes s node;
        let t = nvalue n;
        let s = s\<lparr>nodes := free_node node (nodes s)\<rparr>;
        if tflags t AND QTHREAD_REAL_MCCOY \<noteq> 0 then
          (if worker_id = 0 then
             Some (if stealing s ! sh \<noteq> 0 then s\<lparr>stealing := (stealing s)[sh := 0]\<rparr> else s, Run t)
           else do {
             s \<leftarrow> sw_enqueue_yielded sh t (tflags t) (s\<lparr>stealing := (stealing s)[sh := 2]\<rparr>);
             Some (s, Again) })
        else Some (s, Run t)
      })"

definition steal_if_idle :: "(shep_id \<Rightarrow> bool) \<Rightarrow> shep_id \<Rightarrow> bool \<Rightarrow> shep_id list \<Rightarrow> ptr \<Rightarrow> sw_state
    \<Rightarrow> (ptr \<times> sw_state) option" where
  "steal_if_idle got_lock sh active sheplist node s =
     (if node = 0 \<and> active \<and> 1 < length (queues s) \<and> \<not> steal_disable s
      then qthread_steal got_lock sh sheplist s else Some (node, s))"

definition get_thread_step :: "(tid \<Rightarrow> 16 word) \<Rightarrow> (shep_id \<Rightarrow> bool) \<Rightarrow> shep_id \<Rightarrow> nat \<Rightarrow> bool
    \<Rightarrow> shep_id list \<Rightarrow> sw_state \<Rightarrow> (sw_state \<times> get_result) option" where
  "get_thread_step tflags got_lock sh worker_id active sheplist s =
     do {
       (node, s) \<leftarrow> pick_local sh s;
       if node = 0 \<and> stealing s ! sh \<noteq> 0 then Some (s, Again)
       else do {
         (node, s) \<leftarrow> steal_if_idle got_lock sh active sheplist node s;
         start_node tflags sh worker_id node s
       }
     }"

definition sw_ops :: "sw_state sched_ops" where
  "sw_ops = \<lparr>tq_enqueue = sw_enqueue, spawncache_spawn = qt_spawncache_spawn\<rparr>"

definition qthread_steal_enable :: "sw_state \<Rightarrow> sw_state" where
  "qthread_steal_enable s = s\<lparr>steal_disable := False\<rparr>"

definition qthread_steal_disable :: "sw_state \<Rightarrow> sw_state" where
  "qthread_steal_disable s = s\<lparr>steal_disable := True\<rparr>"

definition qt_threadqueue_choose_dest :: "shep_id option \<Rightarrow> shep_id" where
  "qt_threadqueue_choose_dest curr_shep = (case curr_shep of None \<Rightarrow> 0 | Some sh \<Rightarrow> sh)"

end
