(* ===== verification/Sherwood_Links.thy ===== *)
theory Sherwood_Links
  imports Sherwood
begin

text \<open>
  Doubly linked chains in the node heap. \<open>dseg h p xs q\<close> says that the nodes \<open>xs\<close> form a
  chain whose first node points back to \<open>p\<close> and whose last node points on to \<open>q\<close>. The
  link operations of the scheduler are characterised by the chains they build; none of
  them changes what a node holds (\<open>vals\<close>).
\<close>

section \<open>Chains\<close>

definition hd_or :: "ptr \<Rightarrow> ptr list \<Rightarrow> ptr" where
  "hd_or q xs = (case xs of [] \<Rightarrow> q | x # _ \<Rightarrow> x)"

definition last_or :: "ptr \<Rightarrow> ptr list \<Rightarrow> ptr" where
  "last_or p xs = (if xs = [] then p else last xs)"

fun dseg :: "nheap \<Rightarrow> ptr \<Rightarrow> ptr list \<Rightarrow> ptr \<Rightarrow> bool" where
  "dseg h p [] q = True"
| "dseg h p (x # xs) q =
     (case h x of None \<Rightarrow> False
      | Some n \<Rightarrow> nprev n = p \<and> nnext n = hd_or q xs \<and> dseg h x xs q)"

lemma hd_or_simps [simp, tq_simps]:
  "hd_or q [] = q" "hd_or q (x # xs) = x" "hd_or q (xs @ ys) = hd_or (hd_or q ys) xs"
  by (simp_all add: hd_or_def split: list.splits)

lemma last_or_simps [simp, tq_simps]:
  "last_or p [] = p" "last_or p (x # xs) = last_or x xs" "last_or p (xs @ ys) = last_or (last_or p xs) ys"
  by (simp_all add: last_or_def)

lemma hd_or_in: "xs \<noteq> [] \<Longrightarrow> hd_or q xs \<in> set xs"
  by (cases xs) simp_all

lemma last_or_in: "xs \<noteq> [] \<Longrightarrow> last_or p xs \<in> set xs"
  by (simp add: last_or_def)

lemma hd_or_0: "0 \<notin> set xs \<Longrightarrow> hd_or 0 xs = 0 \<longleftrightarrow> xs = []"
  by (cases xs) auto

lemma last_or_0: "0 \<notin> set xs \<Longrightarrow> last_or 0 xs = 0 \<longleftrightarrow> xs = []"
  by (metis last_or_in last_or_simps(1))

lemma dseg_append [simp]:
  "dseg h p (xs @ ys) q \<longleftrightarrow> dseg h p xs (hd_or q ys) \<and> dseg h (last_or p xs) ys q"
  by (induction xs arbitrary: p) (auto split: option.splits)

lemma dseg_cong: "(\<And>x. x \<in> set xs \<Longrightarrow> h' x = h x) \<Longrightarrow> dseg h' p xs q = dseg h p xs q"
  by (induction xs arbitrary: p) (auto split: option.splits)

lemma dseg_other [simp]: "x \<notin> set xs \<Longrightarrow> dseg (h(x := v)) p xs q = dseg h p xs q"
  by (rule dseg_cong) auto

lemma dseg_dom: "dseg h p xs q \<Longrightarrow> set xs \<subseteq> dom h"
  by (induction xs arbitrary: p) (auto split: option.splits)

lemma dseg_Some: "dseg h p (x # xs) q \<longleftrightarrow>
    (\<exists>n. h x = Some n \<and> nprev n = p \<and> nnext n = hd_or q xs \<and> dseg h x xs q)"
  by (auto split: option.splits)

lemma dseg_snoc: "dseg h p (xs @ [x]) q \<longleftrightarrow>
    dseg h p xs x \<and> (\<exists>n. h x = Some n \<and> nprev n = last_or p xs \<and> nnext n = q)"
  by (auto split: option.splits)

text \<open>Redirecting the links at the two ends of a chain.\<close>

lemma dseg_set_first:
  assumes "dseg h p (x # xs) q" "x \<notin> set xs"
  obtains n where "h x = Some n" "set_prev x p' h = Some (h(x \<mapsto> n\<lparr>nprev := p'\<rparr>))"
    "dseg (h(x \<mapsto> n\<lparr>nprev := p'\<rparr>)) p' (x # xs) q"
  using assms by (auto simp: set_prev_def split: option.splits)

lemma dseg_set_last:
  assumes "dseg h p (xs @ [x]) q" "x \<notin> set xs"
  obtains n where "h x = Some n" "set_next x q' h = Some (h(x \<mapsto> n\<lparr>nnext := q'\<rparr>))"
    "dseg (h(x \<mapsto> n\<lparr>nnext := q'\<rparr>)) p (xs @ [x]) q'"
  using assms by (auto simp: set_next_def split: option.splits)

section \<open>What the nodes hold\<close>

definition vals :: "nheap \<Rightarrow> ptr \<Rightarrow> (tid \<times> int) option" where
  "vals h p = map_option (\<lambda>n. (nvalue n, stealable n)) (h p)"



lemma vals_upd [simp]:
  "h p = Some n \<Longrightarrow> vals (h(p \<mapsto> n\<lparr>nprev := v\<rparr>)) = vals h"
  "h p = Some n \<Longrightarrow> vals (h(p \<mapsto> n\<lparr>nnext := v\<rparr>)) = vals h"
  by (auto simp: vals_def fun_eq_iff)

lemma vals_set_next: "set_next p v h = Some h' \<Longrightarrow> vals h' = vals h"
  by (auto simp: set_next_def bind_eq_Some_iff)

lemma vals_set_prev: "set_prev p v h = Some h' \<Longrightarrow> vals h' = vals h"
  by (auto simp: set_prev_def bind_eq_Some_iff)

lemma vals_new: "vals (h(p \<mapsto> n)) = (vals h)(p \<mapsto> (nvalue n, stealable n))"
  by (auto simp: vals_def fun_eq_iff)

lemma vals_free [simp]: "vals (free_node p h) = (vals h)(p := None)"
  by (auto simp: vals_def free_node_def fun_eq_iff)

lemma vals_dom: "dom (vals h) = dom h"
  by (auto simp: vals_def dom_def)

definition stealable_sum :: "nheap \<Rightarrow> ptr list \<Rightarrow> int" where
  "stealable_sum h xs = (\<Sum>x\<leftarrow>xs. snd (the (vals h x)))"

lemma stealable_sum_simps [simp]:
  "stealable_sum h [] = 0" "stealable_sum h (x # xs) = snd (the (vals h x)) + stealable_sum h xs"
  "stealable_sum h (xs @ ys) = stealable_sum h xs + stealable_sum h ys"
  by (simp_all add: stealable_sum_def)

lemma stealable_sum_cong: "(\<And>x. x \<in> set xs \<Longrightarrow> vals h' x = vals h x) \<Longrightarrow> stealable_sum h' xs = stealable_sum h xs"
  by (induction xs) auto

section \<open>Splicing\<close>

lemma splice_tail_ok:
  assumes ns: "dseg h 0 ns 0" and ms: "dseg h p ms 0" "ms \<noteq> []"
    and d: "distinct (ns @ ms)" "0 \<notin> set ns"
  obtains h' where "splice_tail (hd ms) (last ms) (hd_or 0 ns, last_or 0 ns) h
      = Some ((hd_or 0 (ns @ ms), last_or 0 (ns @ ms)), h')"
    "dseg h' 0 (ns @ ms) 0" "vals h' = vals h" "\<And>x. x \<notin> set (ns @ ms) \<Longrightarrow> h' x = h x"
proof -
  obtain m ms' where m: "ms = m # ms'"
    using ms(2) by (cases ms) auto
  obtain n where n: "h m = Some n"
    "set_prev m (last_or 0 ns) h = Some (h(m \<mapsto> n\<lparr>nprev := last_or 0 ns\<rparr>))"
    "dseg (h(m \<mapsto> n\<lparr>nprev := last_or 0 ns\<rparr>)) (last_or 0 ns) (m # ms') 0"
    using dseg_set_first [of h p m ms' 0 "last_or 0 ns"] ms(1) d(1) unfolding m by auto
  let ?h1 = "h(m \<mapsto> n\<lparr>nprev := last_or 0 ns\<rparr>)"
  have l: "last ms = last_or p ms"
    using ms(2) by (simp add: last_or_def)
  show ?thesis
  proof (cases ns rule: rev_cases)
    case Nil
    show ?thesis
      by (rule that [of ?h1]) (use Nil n m l in \<open>auto simp: splice_tail_def last_or_def\<close>)
  next
    case (snoc us u)
    have u: "hd_or 0 ns \<noteq> 0" "u \<notin> set us" "u \<noteq> m" "u \<notin> set ms'"
      using d hd_or_0 [OF d(2)] unfolding m snoc by auto
    have "dseg ?h1 0 (us @ [u]) 0"
      using ns d unfolding snoc m by (subst dseg_other) auto
    then obtain k where k: "?h1 u = Some k" "set_next u m ?h1 = Some (?h1(u \<mapsto> k\<lparr>nnext := m\<rparr>))"
      "dseg (?h1(u \<mapsto> k\<lparr>nnext := m\<rparr>)) 0 (us @ [u]) m"
      using u(2) by (rule dseg_set_last)
    let ?h2 = "?h1(u \<mapsto> k\<lparr>nnext := m\<rparr>)"
    have ch: "dseg ?h2 0 (ns @ ms) 0"
      using k(3) n(3) u unfolding snoc m by simp
    have va: "vals ?h2 = vals h"
      using k(1) n(1) by (simp only: vals_upd)
    have sp: "splice_tail (hd ms) (last ms) (hd_or 0 ns, last_or 0 ns) h
        = Some ((hd_or 0 (ns @ ms), last_or 0 (ns @ ms)), ?h2)"
      using n(2) k(2) u(1) l unfolding m snoc by (simp add: splice_tail_def last_or_def)
    show ?thesis
      by (rule that [OF sp ch va]) (use m snoc in auto)
  qed
qed

lemma push_head_ok:
  assumes ns: "dseg h 0 ns 0" and x: "h x = Some n" "nprev n = 0" "x \<notin> set ns"
    and d: "distinct ns" "0 \<notin> set ns"
  obtains h' where "push_head x (hd_or 0 ns, last_or 0 ns) h
      = Some ((x, last_or 0 (x # ns)), h')"
    "dseg h' 0 (x # ns) 0" "vals h' = vals h" "\<And>y. y \<notin> set (x # ns) \<Longrightarrow> h' y = h y"
proof -
  let ?h1 = "h(x \<mapsto> n\<lparr>nnext := hd_or 0 ns\<rparr>)"
  have h1: "set_next x (hd_or 0 ns) h = Some ?h1" "vals ?h1 = vals h"
    using x(1) by (auto simp: set_next_def)
  have ns1: "dseg ?h1 0 ns 0"
    using ns x(3) by simp
  show ?thesis
  proof (cases ns)
    case Nil
    show ?thesis
      by (rule that [of ?h1]) (use Nil h1 x in \<open>auto simp: push_head_def\<close>)
  next
    case (Cons y ys)
    obtain k where k: "?h1 y = Some k" "set_prev y x ?h1 = Some (?h1(y \<mapsto> k\<lparr>nprev := x\<rparr>))"
      "dseg (?h1(y \<mapsto> k\<lparr>nprev := x\<rparr>)) x (y # ys) 0"
      using dseg_set_first [of ?h1 0 y ys 0 x] ns1 d(1) unfolding Cons by auto
    let ?h2 = "?h1(y \<mapsto> k\<lparr>nprev := x\<rparr>)"
    have "last_or 0 ns \<noteq> 0"
      using last_or_0 [OF d(2)] Cons by simp
    then have ph: "push_head x (hd_or 0 ns, last_or 0 ns) h = Some ((x, last_or 0 (x # ns)), ?h2)"
      using h1 k(2) Cons by (simp add: push_head_def)
    have ch: "dseg ?h2 0 (x # ns) 0"
      using k(3) x Cons by auto
    have va: "vals ?h2 = vals h"
      using k(1) h1(2) by (simp only: vals_upd)
    show ?thesis
      by (rule that [OF ph ch va]) (use Cons in auto)
  qed
qed

end
