(* ===== verification/Sherwood_Queue.thy ===== *)
theory Sherwood_Queue
  imports Sherwood_Links
begin

text \<open>
  The operations of one ready queue and of one spawn cache as operations on sequences of
  nodes. \<open>tq_rep h q ns\<close> says that the queue \<open>q\<close> consists of the nodes \<open>ns\<close>, from head to tail, and
  that its two counters are exact.
\<close>

section \<open>Representation\<close>

definition tq_rep :: "nheap \<Rightarrow> qt_threadqueue \<Rightarrow> ptr list \<Rightarrow> bool" where
  "tq_rep h q ns \<longleftrightarrow> dseg h 0 ns 0 \<and> head q = hd_or 0 ns \<and> tail q = last_or 0 ns
     \<and> qlength q = int (length ns) \<and> qlength_stealable q = stealable_sum h ns"

definition cache_rep :: "nheap \<Rightarrow> qt_threadqueue_private \<Rightarrow> ptr list \<Rightarrow> bool" where
  "cache_rep h c cs \<longleftrightarrow> dseg h 0 cs 0 \<and> chead c = hd_or 0 cs \<and> ctail c = last_or 0 cs
     \<and> cqlength c = int (length cs) \<and> cqlength_stealable c = stealable_sum h cs
     \<and> (on_deck c \<noteq> 0 \<longrightarrow> dseg h 0 [on_deck c] 0)"

definition deck :: "qt_threadqueue_private \<Rightarrow> ptr list" where
  "deck c = (if on_deck c = 0 then [] else [on_deck c])"

text \<open>A heap of nodes: \<open>NULL\<close> is not a node, and a node is stealable (1) or not (0).\<close>

definition heap_ok :: "nheap \<Rightarrow> bool" where
  "heap_ok h \<longleftrightarrow> finite (dom h) \<and> h 0 = None \<and> (\<forall>p t st. vals h p = Some (t, st) \<longrightarrow> st = 0 \<or> st = 1)"

definition alloc_ok :: "(nheap \<Rightarrow> ptr) \<Rightarrow> bool" where
  "alloc_ok al \<longleftrightarrow> (\<forall>h. finite (dom h) \<longrightarrow> al h \<noteq> 0 \<and> h (al h) = None)"

text \<open>What the nodes of a queue hold, from head to tail.\<close>

definition items :: "nheap \<Rightarrow> ptr list \<Rightarrow> (tid \<times> int) list" where
  "items h ns = map (\<lambda>p. the (vals h p)) ns"

lemma tq_rep_cong:
  assumes "\<And>x. x \<in> set ns \<Longrightarrow> h' x = h x"
  shows "tq_rep h' q ns = tq_rep h q ns"
proof -
  have "stealable_sum h' ns = stealable_sum h ns"
    using assms by (intro stealable_sum_cong) (simp add: vals_def)
  then show ?thesis
    unfolding tq_rep_def using dseg_cong [of ns h' h 0 0] assms by simp
qed

lemma cache_rep_cong:
  assumes "\<And>x. x \<in> set (deck c @ cs) \<Longrightarrow> h' x = h x"
  shows "cache_rep h' c cs = cache_rep h c cs"
proof -
  have "stealable_sum h' cs = stealable_sum h cs"
    using assms by (intro stealable_sum_cong) (simp add: vals_def)
  moreover have "on_deck c \<noteq> 0 \<Longrightarrow> dseg h' 0 [on_deck c] 0 = dseg h 0 [on_deck c] 0"
    using assms by (intro dseg_cong) (simp add: deck_def)
  ultimately show ?thesis
    unfolding cache_rep_def using dseg_cong [of cs h' h 0 0] assms by auto
qed

lemma tq_rep_dom: "tq_rep h q ns \<Longrightarrow> set ns \<subseteq> dom h"
  by (auto simp: tq_rep_def dest: dseg_dom)

lemma cache_rep_dom: "cache_rep h c cs \<Longrightarrow> set (deck c @ cs) \<subseteq> dom h"
  using dseg_dom [of h 0 cs 0] dseg_dom [of h 0 "[on_deck c]" 0]
  by (auto simp: cache_rep_def deck_def split: if_splits)

lemma no_null: "heap_ok h \<Longrightarrow> set ns \<subseteq> dom h \<Longrightarrow> 0 \<notin> set ns"
  by (auto simp: heap_ok_def)

lemma isstealable_01: "qt_threadqueue_isstealable fl = 0 \<or> qt_threadqueue_isstealable fl = 1"
  by (simp add: qt_threadqueue_isstealable_def)

lemma vals_None: "vals h p = None \<longleftrightarrow> h p = None"
  by (simp add: vals_def)

lemma heap_ok_vals:
  "heap_ok h \<longleftrightarrow> finite (dom (vals h)) \<and> vals h 0 = None
     \<and> (\<forall>p t st. vals h p = Some (t, st) \<longrightarrow> st = 0 \<or> st = 1)"
  by (simp add: heap_ok_def vals_dom vals_None)

lemma heap_ok_new:
  "heap_ok h \<Longrightarrow> p \<noteq> 0 \<Longrightarrow> vals h' = (vals h)(p \<mapsto> (t, qt_threadqueue_isstealable fl)) \<Longrightarrow> heap_ok h'"
  unfolding heap_ok_vals using isstealable_01 [of fl] by simp

lemma heap_ok_same: "heap_ok h \<Longrightarrow> vals h' = vals h \<Longrightarrow> heap_ok h'"
  unfolding heap_ok_vals by simp

lemma heap_ok_free: "heap_ok h \<Longrightarrow> heap_ok (free_node p h)"
  unfolding heap_ok_vals by simp

section \<open>The shared queue\<close>

lemma enqueue_ok:
  assumes rep: "tq_rep h q ns" and ok: "heap_ok h" and al: "alloc_ok al" and d: "distinct ns"
  obtains q' h' where "qt_threadqueue_enqueue al q t fl h = Some (q', h')"
    "tq_rep h' q' (ns @ [al h])"
    "vals h' = (vals h)(al h \<mapsto> (t, qt_threadqueue_isstealable fl))"
    "\<And>x. x \<notin> set (ns @ [al h]) \<Longrightarrow> h' x = h x"
proof -
  let ?p = "al h" and ?st = "qt_threadqueue_isstealable fl"
  have p: "?p \<noteq> 0" "h ?p = None"
    using ok al by (auto simp: heap_ok_def alloc_ok_def)
  have pns: "?p \<notin> set ns" "0 \<notin> set ns"
    using tq_rep_dom [OF rep] p(2) no_null [OF ok tq_rep_dom [OF rep]] by auto
  let ?n = "\<lparr>nnext = 0, nprev = 0, stealable = ?st, nvalue = t\<rparr>"
  let ?h1 = "h(?p \<mapsto> ?n)"
  have ns: "dseg ?h1 0 ns 0"
    using rep pns by (simp add: tq_rep_def)
  have new: "dseg ?h1 0 [?p] 0" "[?p] \<noteq> []" "distinct (ns @ [?p])"
    using d pns by simp_all
  obtain h' where h': "splice_tail ?p ?p (hd_or 0 ns, last_or 0 ns) ?h1
      = Some ((hd_or 0 (ns @ [?p]), last_or 0 (ns @ [?p])), h')"
    "dseg h' 0 (ns @ [?p]) 0" "vals h' = vals ?h1" "\<And>x. x \<notin> set (ns @ [?p]) \<Longrightarrow> h' x = ?h1 x"
    using splice_tail_ok [OF ns new pns(2)] by auto
  have sum: "stealable_sum h' ns = stealable_sum h ns"
    using pns h'(3) by (intro stealable_sum_cong) (auto simp: vals_new)
  let ?q = "q\<lparr>head := hd_or 0 (ns @ [?p]), tail := last_or 0 (ns @ [?p]), qlength := qlength q + 1,
    qlength_stealable := qlength_stealable q + ?st\<rparr>"
  have run: "qt_threadqueue_enqueue al q t fl h = Some (?q, h')"
    using rep p h'(1) by (simp add: qt_threadqueue_enqueue_def Let_def tq_rep_def)
  have rep': "tq_rep h' ?q (ns @ [?p])"
    using rep h'(2,3) sum by (simp add: tq_rep_def vals_new)
  show ?thesis
    by (rule that [OF run rep']) (use h' in \<open>auto simp: vals_new\<close>)
qed

lemma enqueue_yielded_ok:
  assumes rep: "tq_rep h q ns" and ok: "heap_ok h" and al: "alloc_ok al" and d: "distinct ns"
  obtains q' h' where "qt_threadqueue_enqueue_yielded al q t fl h = Some (q', h')"
    "tq_rep h' q' (al h # ns)"
    "vals h' = (vals h)(al h \<mapsto> (t, qt_threadqueue_isstealable fl))"
    "\<And>x. x \<notin> set (al h # ns) \<Longrightarrow> h' x = h x"
proof -
  let ?p = "al h" and ?st = "qt_threadqueue_isstealable fl"
  have p: "?p \<noteq> 0" "h ?p = None"
    using ok al by (auto simp: heap_ok_def alloc_ok_def)
  have pns: "?p \<notin> set ns" "0 \<notin> set ns"
    using tq_rep_dom [OF rep] p(2) no_null [OF ok tq_rep_dom [OF rep]] by auto
  let ?n = "\<lparr>nnext = 0, nprev = 0, stealable = ?st, nvalue = t\<rparr>"
  let ?h1 = "h(?p \<mapsto> ?n)"
  have ns: "dseg ?h1 0 ns 0"
    using rep pns by (simp add: tq_rep_def)
  have n: "?h1 ?p = Some ?n" "nprev ?n = 0"
    by simp_all
  obtain h' where h': "push_head ?p (hd_or 0 ns, last_or 0 ns) ?h1 = Some ((?p, last_or 0 (?p # ns)), h')"
    "dseg h' 0 (?p # ns) 0" "vals h' = vals ?h1" "\<And>x. x \<notin> set (?p # ns) \<Longrightarrow> h' x = ?h1 x"
    using push_head_ok [OF ns n pns(1) d pns(2)] by blast
  have sum: "stealable_sum h' ns = stealable_sum h ns"
    using pns h'(3) by (intro stealable_sum_cong) (auto simp: vals_new)
  let ?q = "q\<lparr>head := ?p, tail := last_or 0 (?p # ns), qlength := qlength q + 1,
    qlength_stealable := qlength_stealable q + ?st\<rparr>"
  have run: "qt_threadqueue_enqueue_yielded al q t fl h = Some (?q, h')"
    using rep p h'(1) by (simp add: qt_threadqueue_enqueue_yielded_def Let_def tq_rep_def)
  have rep': "tq_rep h' ?q (?p # ns)"
    using rep h'(2,3) sum by (simp add: tq_rep_def vals_new)
  show ?thesis
    by (rule that [OF run rep']) (use h' in \<open>auto simp: vals_new\<close>)
qed

lemma dequeue_tail_empty: "tq_rep h q [] \<Longrightarrow> dequeue_tail q h = Some (0, q, h)"
  by (simp add: tq_rep_def dequeue_tail_def)

lemma dequeue_tail_ok:
  assumes rep: "tq_rep h q (ns @ [p])" and ok: "heap_ok h" and d: "distinct (ns @ [p])"
  obtains q' h' where "dequeue_tail q h = Some (p, q', h')" "tq_rep h' q' ns" "vals h' = vals h"
    "\<And>x. x \<notin> set ns \<Longrightarrow> h' x = h x"
proof -
  have nz: "0 \<notin> set ns" "p \<noteq> 0"
    using no_null [OF ok tq_rep_dom [OF rep]] by auto
  have ns: "dseg h 0 ns p" and q: "head q = hd_or p ns" "tail q = p" "qlength q = int (length ns) + 1"
    "qlength_stealable q = stealable_sum h ns + snd (the (vals h p))"
    using rep by (simp_all add: tq_rep_def)
  obtain n where n: "h p = Some n" "nprev n = last_or 0 ns" "nnext n = 0"
    using rep by (auto simp: tq_rep_def split: option.splits)
  have hp: "head q \<noteq> 0"
    using q(1) nz by (cases ns) auto
  let ?q = "q\<lparr>tail := last_or 0 ns, head := hd_or 0 ns, qlength := qlength q - 1,
    qlength_stealable := qlength_stealable q - stealable n\<rparr>"
  have rq: "tq_rep h' ?q ns" if "dseg h' 0 ns 0" "vals h' = vals h" for h'
    using that q n stealable_sum_cong [of ns h' h] by (simp add: tq_rep_def vals_def)
  show ?thesis
  proof (cases ns rule: rev_cases)
    case Nil
    then have "dequeue_tail q h = Some (p, ?q, h)"
      using n q nz hp by (simp add: dequeue_tail_def Let_def)
    then show ?thesis
      by (rule that) (use rq Nil in auto)
  next
    case (snoc us u)
    obtain k where k: "h u = Some k" "set_next u 0 h = Some (h(u \<mapsto> k\<lparr>nnext := 0\<rparr>))"
      "dseg (h(u \<mapsto> k\<lparr>nnext := 0\<rparr>)) 0 (us @ [u]) 0"
      using dseg_set_last [of h 0 us u p 0] ns d unfolding snoc by auto
    have "u \<noteq> 0" "hd_or p ns = hd_or 0 ns"
      using nz snoc by (auto simp: hd_or_def split: list.splits)
    then have run: "dequeue_tail q h = Some (p, ?q, h(u \<mapsto> k\<lparr>nnext := 0\<rparr>))"
      using n q nz hp k(2) snoc by (simp add: dequeue_tail_def Let_def)
    show ?thesis
      by (rule that [OF run rq]) (use k snoc in auto)
  qed
qed

section \<open>The spawn cache\<close>

lemma assert_ends:
  assumes "dseg h 0 ns 0" "0 \<notin> set ns"
  shows "assert_last (last_or 0 ns) h = Some ()" "assert_first (hd_or 0 ns) h = Some ()"
proof -
  show "assert_first (hd_or 0 ns) h = Some ()"
    using assms by (cases ns) (auto simp: assert_first_def split: option.splits)
  show "assert_last (last_or 0 ns) h = Some ()"
    using assms by (cases ns rule: rev_cases) (auto simp: assert_last_def split: option.splits)
qed

lemma private_asserts_ok:
  assumes "cache_rep h c cs" "heap_ok h" "distinct cs"
  shows "private_asserts c h = Some ()"
proof -
  have nz: "0 \<notin> set cs"
    using no_null [OF assms(2), of cs] cache_rep_dom [OF assms(1)] by auto
  have "chead c = ctail c \<and> cqlength c < 2 \<or> chead c \<noteq> 0 \<and> ctail c \<noteq> 0 \<and> cqlength c > 1"
  proof (cases "length cs \<le> 1")
    case True
    then have "cs = [] \<or> (\<exists>x. cs = [x])"
      by (cases cs) auto
    then show ?thesis
      using assms(1) by (auto simp: cache_rep_def)
  next
    case False
    then have "cs \<noteq> []"
      by auto
    then show ?thesis
      using False assms(1) nz hd_or_0 [OF nz] last_or_0 [OF nz] by (auto simp: cache_rep_def)
  qed
  then show ?thesis
    using assms(1) assert_ends [of h cs] nz by (simp add: private_asserts_def cache_rep_def)
qed

lemma private_enqueue_ok:
  assumes rep: "cache_rep h c cs" and ok: "heap_ok h" and al: "alloc_ok al"
    and d: "distinct (deck c @ cs)"
  obtains c' h' where "qt_threadqueue_private_enqueue al c t fl h = Some (c', h')"
    "cache_rep h' c' (cs @ deck c)" "deck c' = [al h]"
    "vals h' = (vals h)(al h \<mapsto> (t, qt_threadqueue_isstealable fl))"
    "\<And>x. x \<notin> set (al h # deck c @ cs) \<Longrightarrow> h' x = h x"
proof -
  let ?p = "al h" and ?st = "qt_threadqueue_isstealable fl"
  have p: "?p \<noteq> 0" "h ?p = None"
    using ok al by (auto simp: heap_ok_def alloc_ok_def)
  have pns: "?p \<notin> set (deck c @ cs)" "0 \<notin> set (deck c @ cs)"
    using cache_rep_dom [OF rep] p(2) no_null [OF ok cache_rep_dom [OF rep]] by blast+
  let ?n = "\<lparr>nnext = 0, nprev = 0, stealable = ?st, nvalue = t\<rparr>"
  let ?h1 = "h(?p \<mapsto> ?n)"
  have asserts: "private_asserts c h = Some ()"
    using private_asserts_ok [OF rep ok] d by simp
  have cs: "dseg ?h1 0 cs 0"
    using rep pns by (simp add: cache_rep_def)
  have v1: "vals ?h1 = (vals h)(?p \<mapsto> (t, ?st))"
    by (simp add: vals_new)
  show ?thesis
  proof (cases "on_deck c = 0")
    case True
    have run: "qt_threadqueue_private_enqueue al c t fl h = Some (c\<lparr>on_deck := ?p\<rparr>, ?h1)"
      using p asserts True by (simp add: qt_threadqueue_private_enqueue_def Let_def)
    have "stealable_sum ?h1 cs = stealable_sum h cs"
      using pns by (intro stealable_sum_cong) (auto simp: v1)
    then have rep': "cache_rep ?h1 (c\<lparr>on_deck := ?p\<rparr>) (cs @ deck c)"
      using rep cs True by (simp add: cache_rep_def deck_def)
    show ?thesis
      by (rule that [OF run rep']) (use p v1 in \<open>auto simp: deck_def\<close>)
  next
    case False
    let ?d = "on_deck c"
    have dk: "deck c = [?d]"
      using False by (simp add: deck_def)
    have d1: "dseg ?h1 0 [?d] 0" "[?d] \<noteq> []" "distinct (cs @ [?d])" "0 \<notin> set cs"
      using rep False pns d dk by (auto simp: cache_rep_def split: option.splits)
    obtain n where n: "h ?d = Some n"
      using rep False by (auto simp: cache_rep_def split: option.splits)
    have n1: "?h1 ?d = Some n"
      using n pns dk by auto
    obtain h' where h': "splice_tail ?d ?d (hd_or 0 cs, last_or 0 cs) ?h1
        = Some ((hd_or 0 (cs @ [?d]), last_or 0 (cs @ [?d])), h')"
      "dseg h' 0 (cs @ [?d]) 0" "vals h' = vals ?h1" "\<And>x. x \<notin> set (cs @ [?d]) \<Longrightarrow> h' x = ?h1 x"
      using splice_tail_ok [OF cs d1] by auto
    have nz: "0 \<notin> set (cs @ [?d])"
      using pns dk by auto
    let ?c = "c\<lparr>chead := hd_or 0 (cs @ [?d]), ctail := last_or 0 (cs @ [?d]), cqlength := cqlength c + 1,
      cqlength_stealable := cqlength_stealable c + (if stealable n \<noteq> 0 then 1 else 0), on_deck := ?p\<rparr>"
    have run: "qt_threadqueue_private_enqueue al c t fl h = Some (?c, h')"
      using p asserts False rep n1 h'(1) assert_ends [OF h'(2) nz]
      by (simp add: qt_threadqueue_private_enqueue_def Let_def cache_rep_def del: fun_upd_apply)
    have s1: "stealable_sum h' cs = stealable_sum h cs"
      using pns h'(3) by (intro stealable_sum_cong) (auto simp: v1)
    have "vals h ?d = Some (nvalue n, stealable n)"
      using n by (simp add: vals_def)
    moreover from this have "(if stealable n \<noteq> 0 then 1 else 0) = stealable n"
      using ok unfolding heap_ok_vals by force
    moreover have "vals h' ?d = vals h ?d"
      using h'(3) pns dk by (auto simp: v1)
    ultimately have s2: "stealable_sum h' (cs @ [?d])
        = stealable_sum h cs + (if stealable n \<noteq> 0 then 1 else 0)"
      using s1 by simp
    have "h' ?p = ?h1 ?p"
      using h'(4) pns dk by auto
    then have rep': "cache_rep h' ?c (cs @ deck c)"
      using rep h'(2) s2 dk by (simp add: cache_rep_def)
    show ?thesis
      by (rule that [OF run rep']) (use p h' v1 dk in \<open>auto simp: deck_def\<close>)
  qed
qed

lemma private_enqueue_yielded_ok:
  assumes rep: "cache_rep h c cs" and ok: "heap_ok h" and al: "alloc_ok al"
    and d: "distinct (deck c @ cs)"
  obtains c' h' where "qt_threadqueue_private_enqueue_yielded al c t fl h = Some (c', h')"
    "cache_rep h' c' (al h # cs)" "deck c' = deck c"
    "vals h' = (vals h)(al h \<mapsto> (t, qt_threadqueue_isstealable fl))"
    "\<And>x. x \<notin> set (al h # cs) \<Longrightarrow> h' x = h x"
proof -
  let ?p = "al h" and ?st = "qt_threadqueue_isstealable fl"
  have p: "?p \<noteq> 0" "h ?p = None"
    using ok al by (auto simp: heap_ok_def alloc_ok_def)
  have pns: "?p \<notin> set (deck c @ cs)" "0 \<notin> set (deck c @ cs)"
    using cache_rep_dom [OF rep] p(2) no_null [OF ok cache_rep_dom [OF rep]] by blast+
  let ?n = "\<lparr>nnext = 0, nprev = 0, stealable = ?st, nvalue = t\<rparr>"
  let ?h1 = "h(?p \<mapsto> ?n)"
  have cs: "dseg ?h1 0 cs 0" "?p \<notin> set cs" "distinct cs" "0 \<notin> set cs"
    using rep pns d by (simp_all add: cache_rep_def)
  have n: "?h1 ?p = Some ?n" "nprev ?n = 0"
    by simp_all
  obtain h' where h': "push_head ?p (hd_or 0 cs, last_or 0 cs) ?h1 = Some ((?p, last_or 0 (?p # cs)), h')"
    "dseg h' 0 (?p # cs) 0" "vals h' = vals ?h1" "\<And>x. x \<notin> set (?p # cs) \<Longrightarrow> h' x = ?h1 x"
    using push_head_ok [OF cs(1) n cs(2,3,4)] by blast
  have nz: "0 \<notin> set (?p # cs)"
    using p cs by simp
  have asserts: "private_asserts c h = Some ()"
    using private_asserts_ok [OF rep ok] d by simp
  let ?c = "c\<lparr>chead := ?p, ctail := last_or 0 (?p # cs), cqlength := cqlength c + 1,
    cqlength_stealable := cqlength_stealable c + ?st\<rparr>"
  have run: "qt_threadqueue_private_enqueue_yielded al c t fl h = Some (?c, h')"
    using rep p h'(1) asserts assert_ends [OF h'(2) nz]
    by (simp add: qt_threadqueue_private_enqueue_yielded_def Let_def cache_rep_def)
  have sum: "stealable_sum h' cs = stealable_sum h cs"
    using cs h'(3) by (intro stealable_sum_cong) (auto simp: vals_new)
  have dk: "on_deck c \<noteq> 0 \<Longrightarrow> h' (on_deck c) = h (on_deck c)"
    using pns d h'(4) [of "on_deck c"] by (auto simp: deck_def)
  have rep': "cache_rep h' ?c (?p # cs)"
    using rep h'(2,3) sum dk by (auto simp: cache_rep_def vals_new split: option.splits)
  show ?thesis
    by (rule that [OF run rep']) (use h' in \<open>auto simp: vals_new deck_def\<close>)
qed

section \<open>Moving the cache to the shared queue\<close>

lemma flush_list_ok:
  assumes q: "tq_rep h q ns" and c: "cache_rep h c cs" "cs \<noteq> []" and ok: "heap_ok h"
    and d: "distinct (ns @ deck c @ cs)"
  obtains c' q' h' where "flush_list c q h = Some (c', q', h')" "tq_rep h' q' (ns @ cs)"
    "cache_rep h' c' []" "deck c' = deck c" "vals h' = vals h" "\<And>x. x \<notin> set (ns @ cs) \<Longrightarrow> h' x = h x"
proof -
  have nz: "0 \<notin> set ns" "0 \<notin> set cs"
    using no_null [OF ok tq_rep_dom [OF q]] no_null [OF ok cache_rep_dom [OF c(1)]] by auto
  have ch: "dseg h 0 ns 0" "dseg h 0 cs 0" "distinct (ns @ cs)"
    using q c d by (auto simp: tq_rep_def cache_rep_def)
  have ends: "hd cs = chead c" "last cs = ctail c" "chead c \<in> set cs" "ctail c \<in> set cs"
    using c hd_or_in [OF c(2)] last_or_in [OF c(2)]
    by (auto simp: cache_rep_def hd_or_def last_or_def split: list.splits)
  have hq: "head q \<noteq> chead c" "tail q \<noteq> ctail c"
  proof -
    have "ns = [] \<or> (head q \<in> set ns \<and> tail q \<in> set ns)" "ns = [] \<longrightarrow> head q = 0 \<and> tail q = 0"
      using q hd_or_in [of ns 0] last_or_in [of ns 0] by (auto simp: tq_rep_def)
    then show "head q \<noteq> chead c" "tail q \<noteq> ctail c"
      using ends(3,4) ch(3) nz by auto
  qed
  obtain h' where h': "splice_tail (hd cs) (last cs) (hd_or 0 ns, last_or 0 ns) h
      = Some ((hd_or 0 (ns @ cs), last_or 0 (ns @ cs)), h')"
    "dseg h' 0 (ns @ cs) 0" "vals h' = vals h" "\<And>x. x \<notin> set (ns @ cs) \<Longrightarrow> h' x = h x"
    using splice_tail_ok [OF ch(1,2) c(2) ch(3) nz(1)] by blast
  obtain f l where fl: "h (chead c) = Some f" "nprev f = 0" "h (ctail c) = Some l" "nnext l = 0"
  proof -
    have a: "assert_first (hd_or 0 cs) h = Some ()" "assert_last (last_or 0 cs) h = Some ()"
      using assert_ends [OF ch(2) nz(2)] by blast+
    show ?thesis
      using that a c(1) hd_or_0 [OF nz(2)] last_or_0 [OF nz(2)] c(2)
      by (auto simp: assert_first_def assert_last_def cache_rep_def bind_eq_Some_iff)
  qed
  let ?c = "c\<lparr>chead := 0, ctail := 0, cqlength := 0, cqlength_stealable := 0\<rparr>"
  let ?q = "q\<lparr>head := hd_or 0 (ns @ cs), tail := last_or 0 (ns @ cs), qlength := qlength q + cqlength c,
    qlength_stealable := qlength_stealable q + cqlength_stealable c\<rparr>"
  have nz2: "0 \<notin> set (ns @ cs)"
    using nz by simp
  have run: "flush_list c q h = Some (?c, ?q, h')"
    using fl hq h'(1) ends q assert_ends [OF h'(2) nz2] by (simp add: flush_list_def tq_rep_def)
  have s: "stealable_sum h' xs = stealable_sum h xs" for xs
    using h'(3) by (intro stealable_sum_cong) simp
  have rq: "tq_rep h' ?q (ns @ cs)"
    using q c h'(2) s by (simp add: tq_rep_def cache_rep_def)
  have "on_deck c \<noteq> 0 \<Longrightarrow> h' (on_deck c) = h (on_deck c)"
    using d h'(4) by (auto simp: deck_def)
  then have rc: "cache_rep h' ?c []"
    using c(1) by (auto simp: cache_rep_def split: option.splits)
  show ?thesis
    by (rule that [OF run rq rc]) (use h' in \<open>auto simp: deck_def\<close>)
qed

end
