(* ===== verification/Sherwood_Inv.thy ===== *)
theory Sherwood_Inv
  imports Sherwood_Queue
begin

text \<open>
  The invariant of the whole scheduler: every allocated node is in exactly one ready queue or
  spawn cache, all of which are well linked. The queue operations keep it, and the two
  operations the synchronisation layers use satisfy the laws of \<open>ready_queues\<close>.
\<close>

section \<open>The invariant\<close>

definition cache_ok :: "nheap \<Rightarrow> qt_threadqueue_private option \<Rightarrow> ptr list \<Rightarrow> bool" where
  "cache_ok h co ps = (case co of None \<Rightarrow> ps = []
     | Some c \<Rightarrow> (\<exists>cs. ps = deck c @ cs \<and> cache_rep h c cs))"

text \<open>\<open>Ls\<close> lists the nodes of every queue and then of every cache.\<close>

definition sw_layout :: "sw_state \<Rightarrow> ptr list list \<Rightarrow> bool" where
  "sw_layout s Ls \<longleftrightarrow> length Ls = length (queues s) + length (caches s) \<and>
     (\<forall>i < length (queues s). tq_rep (nodes s) (queues s ! i) (Ls ! i)) \<and>
     (\<forall>j < length (caches s). cache_ok (nodes s) (caches s ! j) (Ls ! (length (queues s) + j))) \<and>
     mset (concat Ls) = mset_set (dom (nodes s))"

definition sw_inv :: "sw_state \<Rightarrow> bool" where
  "sw_inv s \<longleftrightarrow> heap_ok (nodes s) \<and> alloc_ok (alloc s) \<and> length (stealing s) = length (queues s)
     \<and> (\<exists>Ls. sw_layout s Ls)"

definition sw_nsheps :: "sw_state \<Rightarrow> nat" where
  "sw_nsheps s = length (queues s)"

text \<open>The threads in any queue or cache.\<close>

definition node_tasks :: "nheap \<Rightarrow> tid multiset" where
  "node_tasks h = image_mset (\<lambda>p. fst (the (vals h p))) (mset_set (dom (vals h)))"

definition sw_tasks :: "sw_state \<Rightarrow> tid multiset" where
  "sw_tasks s = node_tasks (nodes s)"

lemma node_tasks_new:
  assumes "heap_ok h" "h p = None" "vals h' = (vals h)(p \<mapsto> (t, st))"
  shows "node_tasks h' = add_mset t (node_tasks h)"
proof -
  have fin: "finite (dom (vals h))" "p \<notin> dom (vals h)"
    using assms by (simp_all add: heap_ok_def vals_dom domIff)
  have "image_mset (\<lambda>q. fst (the (vals h' q))) (mset_set (dom (vals h)))
      = image_mset (\<lambda>q. fst (the (vals h q))) (mset_set (dom (vals h)))"
    using fin assms(3) by (intro image_mset_cong) auto
  moreover have "dom (vals h') = insert p (dom (vals h))"
    using assms(3) by simp
  ultimately show ?thesis
    unfolding node_tasks_def using fin assms(3) by simp
qed

lemma node_tasks_same: "vals h' = vals h \<Longrightarrow> node_tasks h' = node_tasks h"
  by (simp add: node_tasks_def)

lemma node_tasks_free:
  assumes "heap_ok h" "h p = Some n"
  shows "node_tasks h = add_mset (nvalue n) (node_tasks (free_node p h))"
proof -
  have "free_node p h p = None" "vals h = (vals (free_node p h))(p \<mapsto> (nvalue n, stealable n))"
    using assms(2) by (auto simp: vals_def free_node_def fun_eq_iff)
  then show ?thesis
    by (rule node_tasks_new [OF heap_ok_free [OF assms(1)]])
qed

lemma layout_distinct:
  assumes "sw_layout s Ls" "heap_ok (nodes s)"
  shows "distinct (concat Ls)" "set (concat Ls) = dom (nodes s)"
  using assms mset_eq_mset_set [of "concat Ls" "dom (nodes s)"] by (auto simp: sw_layout_def heap_ok_def)

lemma cache_ok_cong:
  assumes "\<And>x. x \<in> set ps \<Longrightarrow> h' x = h x"
  shows "cache_ok h' co ps = cache_ok h co ps"
  using assms cache_rep_cong [of _ _ h' h] by (auto simp: cache_ok_def split: option.splits)

text \<open>
  Changing the containers \<open>J\<close>: the others stay well linked when the heap changes only at
  nodes that are not theirs.
\<close>

lemma layout_change:
  assumes lay: "sw_layout s Ls" and ok: "heap_ok (nodes s)"
    and same: "length (queues s') = length (queues s)" "length (caches s') = length (caches s)"
      "length Ls' = length Ls" "\<And>k. k < length Ls \<Longrightarrow> k \<notin> J \<Longrightarrow> Ls' ! k = Ls ! k"
      "\<And>i. i < length (queues s) \<Longrightarrow> i \<notin> J \<Longrightarrow> queues s' ! i = queues s ! i"
      "\<And>j. j < length (caches s) \<Longrightarrow> length (queues s) + j \<notin> J \<Longrightarrow> caches s' ! j = caches s ! j"
    and frame: "\<And>x k. x \<in> set (Ls ! k) \<Longrightarrow> k < length Ls \<Longrightarrow> k \<notin> J \<Longrightarrow> nodes s' x = nodes s x"
    and new: "\<And>i. i < length (queues s) \<Longrightarrow> i \<in> J \<Longrightarrow> tq_rep (nodes s') (queues s' ! i) (Ls' ! i)"
      "\<And>j. j < length (caches s) \<Longrightarrow> length (queues s) + j \<in> J
         \<Longrightarrow> cache_ok (nodes s') (caches s' ! j) (Ls' ! (length (queues s) + j))"
    and all: "mset (concat Ls') = mset_set (dom (nodes s'))"
  shows "sw_layout s' Ls'"
proof -
  have q: "tq_rep (nodes s') (queues s' ! i) (Ls' ! i)" if "i < length (queues s)" for i
  proof (cases "i \<in> J")
    case False
    then show ?thesis
      using lay same that frame [of _ i] tq_rep_cong [of "Ls ! i" "nodes s'" "nodes s"]
      by (simp add: sw_layout_def)
  qed (use new that in simp)
  have c: "cache_ok (nodes s') (caches s' ! j) (Ls' ! (length (queues s) + j))"
    if "j < length (caches s)" for j
  proof (cases "length (queues s) + j \<in> J")
    case False
    then show ?thesis
      using lay same that frame [of _ "length (queues s) + j"]
        cache_ok_cong [of "Ls ! (length (queues s) + j)" "nodes s'" "nodes s"]
      by (simp add: sw_layout_def)
  qed (use new that in simp)
  show ?thesis
    using q c same lay all by (simp add: sw_layout_def)
qed

text \<open>Changing one queue, and changing the cache of the running worker.\<close>

lemma layout_queue:
  assumes lay: "sw_layout s Ls" and ok: "heap_ok (nodes s)" and i: "i < length (queues s)"
    and rep: "tq_rep h' q' ns'"
    and frame: "\<And>x. x \<notin> set (Ls ! i) \<Longrightarrow> x \<in> dom (nodes s) \<Longrightarrow> h' x = nodes s x"
    and all: "mset ns' + mset_set (dom (nodes s)) = mset (Ls ! i) + mset_set (dom h')"
  shows "sw_layout (s\<lparr>queues := (queues s)[i := q'], nodes := h'\<rparr>) (Ls[i := ns'])"
proof (rule layout_change [OF lay ok, where J = "{i}"])
  have len: "i < length Ls"
    using lay i by (simp add: sw_layout_def)
  note dis = layout_distinct [OF lay ok]
  fix x k
  assume x: "x \<in> set (Ls ! k)" "k < length Ls" "k \<notin> {i}"
  then have "x \<notin> set (Ls ! i)"
    using distinct_concat_disjoint [OF dis(1) x(2) len] by auto
  moreover have "x \<in> dom (nodes s)"
    using x dis(2) by auto
  ultimately show "nodes (s\<lparr>queues := (queues s)[i := q'], nodes := h'\<rparr>) x = nodes s x"
    using frame by simp
next
  have len: "i < length Ls"
    using lay i by (simp add: sw_layout_def)
  have "mset (concat (Ls[i := ns'])) + mset (Ls ! i) = mset_set (dom (nodes s)) + mset ns'"
    using mset_concat_update [OF len, of ns'] lay by (simp add: sw_layout_def)
  then show "mset (concat (Ls[i := ns'])) = mset_set (dom (nodes (s\<lparr>queues := (queues s)[i := q'], nodes := h'\<rparr>)))"
    using all by (simp add: ac_simps)
qed (use i rep lay in \<open>auto simp: sw_layout_def\<close>)

lemma layout_cache:
  assumes lay: "sw_layout s Ls" and ok: "heap_ok (nodes s)" and c: "qt_spawncache_get s = Some c"
    and rep: "cache_rep h' c' cs'"
    and frame: "\<And>x. x \<notin> set (Ls ! (length (queues s) + cur s)) \<Longrightarrow> x \<in> dom (nodes s) \<Longrightarrow> h' x = nodes s x"
    and all: "mset (deck c' @ cs') + mset_set (dom (nodes s))
      = mset (Ls ! (length (queues s) + cur s)) + mset_set (dom h')"
  shows "sw_layout (set_cache c' h' s) (Ls[length (queues s) + cur s := deck c' @ cs'])"
proof -
  let ?k = "length (queues s) + cur s"
  have cur: "cur s < length (caches s)"
    using c by (simp add: qt_spawncache_get_def split: if_splits)
  then have len: "?k < length Ls"
    using lay by (simp add: sw_layout_def)
  note dis = layout_distinct [OF lay ok]
  show ?thesis
  proof (rule layout_change [OF lay ok, where J = "{?k}"])
    fix x k
    assume x: "x \<in> set (Ls ! k)" "k < length Ls" "k \<notin> {?k}"
    then have "x \<notin> set (Ls ! ?k)"
      using distinct_concat_disjoint [OF dis(1) x(2) len] by auto
    moreover have "x \<in> dom (nodes s)"
      using x dis(2) by auto
    ultimately show "nodes (set_cache c' h' s) x = nodes s x"
      using frame by (simp add: set_cache_def)
  next
    have "mset (concat (Ls[?k := deck c' @ cs'])) + mset (Ls ! ?k) = mset_set (dom (nodes s)) + mset (deck c' @ cs')"
      using mset_concat_update [OF len, of "deck c' @ cs'"] lay by (simp add: sw_layout_def)
    then show "mset (concat (Ls[?k := deck c' @ cs'])) = mset_set (dom (nodes (set_cache c' h' s)))"
      using all by (simp add: set_cache_def ac_simps)
  qed (use cur rep lay in \<open>auto simp: sw_layout_def set_cache_def cache_ok_def\<close>)
qed

section \<open>Queue operations of the scheduler\<close>

lemma dom_new: "vals h' = (vals h)(p \<mapsto> v) \<Longrightarrow> dom h' = insert p (dom h)"
  using vals_dom [of h] vals_dom [of h'] by (metis dom_fun_upd option.distinct(1))

lemma alloc_fresh:
  assumes "alloc_ok al" "heap_ok h"
  shows "al h \<noteq> 0" "h (al h) = None" "al h \<notin> dom h"
  using assms by (auto simp: alloc_ok_def heap_ok_def)

text \<open>The state after a change keeps its fixed parts and gains the given tasks.\<close>

lemma sw_invI:
  "heap_ok (nodes s) \<Longrightarrow> alloc_ok (alloc s) \<Longrightarrow> length (stealing s) = length (queues s) \<Longrightarrow> sw_layout s Ls
   \<Longrightarrow> sw_inv s"
  by (auto simp: sw_inv_def)

lemma sw_enqueue_ok:
  assumes "sw_inv s" "sh < length (queues s)"
  shows "\<exists>s'. sw_enqueue sh t fl s = Some s' \<and> sw_inv s' \<and> sw_tasks s' = add_mset t (sw_tasks s)
    \<and> length (queues s') = length (queues s)"
proof -
  obtain Ls where s: "heap_ok (nodes s)" "alloc_ok (alloc s)" "length (stealing s) = length (queues s)"
    and lay: "sw_layout s Ls"
    using assms(1) by (auto simp: sw_inv_def)
  have rep: "tq_rep (nodes s) (queues s ! sh) (Ls ! sh)" and d: "distinct (Ls ! sh)"
    using lay assms(2) layout_distinct(1) [OF lay s(1)] distinct_concat_nth [of Ls sh]
    by (auto simp: sw_layout_def)
  let ?p = "alloc s (nodes s)"
  obtain q' h' where e: "qt_threadqueue_enqueue (alloc s) (queues s ! sh) t fl (nodes s) = Some (q', h')"
    "tq_rep h' q' (Ls ! sh @ [?p])"
    "vals h' = (vals (nodes s))(?p \<mapsto> (t, qt_threadqueue_isstealable fl))"
    "\<And>x. x \<notin> set (Ls ! sh @ [?p]) \<Longrightarrow> h' x = nodes s x"
    using enqueue_ok [OF rep s(1,2) d, of t fl] by blast
  let ?s = "s\<lparr>queues := (queues s)[sh := q'], nodes := h'\<rparr>"
  note p = alloc_fresh [OF s(2,1)]
  have fr: "h' x = nodes s x" if "x \<notin> set (Ls ! sh)" "x \<in> dom (nodes s)" for x
    by (rule e(4)) (use that p in auto)
  have "sw_layout ?s (Ls[sh := Ls ! sh @ [?p]])"
    using p(3) s(1) dom_new [OF e(3)]
    by (intro layout_queue [OF lay s(1) assms(2) e(2) fr]) (auto simp: heap_ok_def)
  then have "sw_inv ?s"
    using s heap_ok_new [OF s(1) p(1) e(3)] by (intro sw_invI) auto
  moreover have "sw_tasks ?s = add_mset t (sw_tasks s)"
    using node_tasks_new [OF s(1) p(2) e(3)] by (simp add: sw_tasks_def)
  ultimately show ?thesis
    using e(1) assms(2) by (simp add: sw_enqueue_def)
qed

lemma sw_enqueue_yielded_ok:
  assumes "sw_inv s" "sh < length (queues s)"
  shows "\<exists>s'. sw_enqueue_yielded sh t fl s = Some s' \<and> sw_inv s' \<and> sw_tasks s' = add_mset t (sw_tasks s)
    \<and> length (queues s') = length (queues s)"
proof -
  obtain Ls where s: "heap_ok (nodes s)" "alloc_ok (alloc s)" "length (stealing s) = length (queues s)"
    and lay: "sw_layout s Ls"
    using assms(1) by (auto simp: sw_inv_def)
  have rep: "tq_rep (nodes s) (queues s ! sh) (Ls ! sh)" and d: "distinct (Ls ! sh)"
    using lay assms(2) layout_distinct(1) [OF lay s(1)] distinct_concat_nth [of Ls sh]
    by (auto simp: sw_layout_def)
  let ?p = "alloc s (nodes s)"
  obtain q' h' where e: "qt_threadqueue_enqueue_yielded (alloc s) (queues s ! sh) t fl (nodes s) = Some (q', h')"
    "tq_rep h' q' (?p # Ls ! sh)"
    "vals h' = (vals (nodes s))(?p \<mapsto> (t, qt_threadqueue_isstealable fl))"
    "\<And>x. x \<notin> set (?p # Ls ! sh) \<Longrightarrow> h' x = nodes s x"
    using enqueue_yielded_ok [OF rep s(1,2) d, of t fl] by blast
  let ?s = "s\<lparr>queues := (queues s)[sh := q'], nodes := h'\<rparr>"
  note p = alloc_fresh [OF s(2,1)]
  have fr: "h' x = nodes s x" if "x \<notin> set (Ls ! sh)" "x \<in> dom (nodes s)" for x
    by (rule e(4)) (use that p in auto)
  have "sw_layout ?s (Ls[sh := ?p # Ls ! sh])"
    using p(3) s(1) dom_new [OF e(3)]
    by (intro layout_queue [OF lay s(1) assms(2) e(2) fr]) (auto simp: heap_ok_def)
  then have "sw_inv ?s"
    using s heap_ok_new [OF s(1) p(1) e(3)] by (intro sw_invI) auto
  moreover have "sw_tasks ?s = add_mset t (sw_tasks s)"
    using node_tasks_new [OF s(1) p(2) e(3)] by (simp add: sw_tasks_def)
  ultimately show ?thesis
    using e(1) assms(2) by (simp add: sw_enqueue_yielded_def)
qed

lemma cache_layout:
  assumes "sw_layout s Ls" "heap_ok (nodes s)" "qt_spawncache_get s = Some c"
  obtains cs where "Ls ! (length (queues s) + cur s) = deck c @ cs" "cache_rep (nodes s) c cs"
    "distinct (deck c @ cs)" "length (queues s) + cur s < length Ls"
proof -
  have cur: "cur s < length (caches s)" "caches s ! cur s = Some c"
    using assms(3) by (simp_all add: qt_spawncache_get_def split: if_splits)
  then have "cache_ok (nodes s) (Some c) (Ls ! (length (queues s) + cur s))"
    using assms(1) unfolding sw_layout_def by metis
  then obtain cs where cs: "Ls ! (length (queues s) + cur s) = deck c @ cs" "cache_rep (nodes s) c cs"
    by (auto simp: cache_ok_def)
  have len: "length (queues s) + cur s < length Ls"
    using cur assms(1) by (simp add: sw_layout_def)
  then have "distinct (deck c @ cs)"
    using distinct_concat_nth [OF layout_distinct(1) [OF assms(1,2)] len] cs by simp
  then show ?thesis
    using that cs len by blast
qed

lemma spawncache_spawn_ok:
  assumes "sw_inv s"
  shows "\<exists>s' b. qt_spawncache_spawn t fl s = Some (s', b) \<and> sw_inv s'
    \<and> length (queues s') = length (queues s)
    \<and> sw_tasks s' = (if b then add_mset t (sw_tasks s) else sw_tasks s)"
proof (cases "qt_spawncache_get s")
  case None
  then show ?thesis
    using assms by (auto simp: qt_spawncache_spawn_def)
next
  case (Some c)
  obtain Ls where s: "heap_ok (nodes s)" "alloc_ok (alloc s)" "length (stealing s) = length (queues s)"
    and lay: "sw_layout s Ls"
    using assms(1) by (auto simp: sw_inv_def)
  obtain cs where cs: "Ls ! (length (queues s) + cur s) = deck c @ cs" "cache_rep (nodes s) c cs"
    "distinct (deck c @ cs)"
    by (rule cache_layout [OF lay s(1) Some])
  let ?p = "alloc s (nodes s)"
  obtain c' h' where e: "qt_threadqueue_private_enqueue (alloc s) c t fl (nodes s) = Some (c', h')"
    "cache_rep h' c' (cs @ deck c)" "deck c' = [?p]"
    "vals h' = (vals (nodes s))(?p \<mapsto> (t, qt_threadqueue_isstealable fl))"
    "\<And>x. x \<notin> set (?p # deck c @ cs) \<Longrightarrow> h' x = nodes s x"
    using private_enqueue_ok [OF cs(2) s(1,2) cs(3), of t fl] by blast
  note p = alloc_fresh [OF s(2,1)]
  have fr: "h' x = nodes s x" if "x \<notin> set (Ls ! (length (queues s) + cur s))" "x \<in> dom (nodes s)" for x
    by (rule e(5)) (use that p cs(1) in auto)
  have "sw_layout (set_cache c' h' s) (Ls[length (queues s) + cur s := deck c' @ cs @ deck c])"
    using e(3) p(3) s(1) dom_new [OF e(4)] cs(1)
    by (intro layout_cache [OF lay s(1) Some e(2) fr]) (auto simp: heap_ok_def)
  then have "sw_inv (set_cache c' h' s)"
    using s heap_ok_new [OF s(1) p(1) e(4)] by (intro sw_invI) (auto simp: set_cache_def)
  moreover have "sw_tasks (set_cache c' h' s) = add_mset t (sw_tasks s)"
    using node_tasks_new [OF s(1) p(2) e(4)] by (simp add: sw_tasks_def set_cache_def)
  ultimately show ?thesis
    using e(1) Some by (auto simp: qt_spawncache_spawn_def set_cache_def)
qed

section \<open>The scheduler provides the ready queues\<close>

interpretation sherwood: ready_queues sw_ops sw_inv sw_tasks sw_nsheps
proof
  fix q sh t fl
  assume "sw_inv q" "sh < sw_nsheps q"
  then show "\<exists>q'. tq_enqueue sw_ops sh t fl q = Some q' \<and> sw_inv q'
      \<and> sw_tasks q' = add_mset t (sw_tasks q) \<and> sw_nsheps q' = sw_nsheps q"
    using sw_enqueue_ok [of q sh t fl] by (simp add: sw_ops_def sw_nsheps_def)
next
  fix q t fl
  assume "sw_inv q"
  then show "\<exists>q' b. spawncache_spawn sw_ops t fl q = Some (q', b) \<and> sw_inv q'
      \<and> sw_nsheps q' = sw_nsheps q
      \<and> sw_tasks q' = (if b then add_mset t (sw_tasks q) else sw_tasks q)"
    using spawncache_spawn_ok [of q t fl] by (auto simp: sw_ops_def sw_nsheps_def)
qed

end
