(* ===== verification/Sherwood_Sched.thy ===== *)
theory Sherwood_Sched
  imports Sherwood_Inv
begin

text \<open>
  Taking work from the scheduler. A node that has been taken out of its queue and is not yet
  freed is the node in hand; \<open>holding\<close> says that the rest of the scheduler is intact.
\<close>

section \<open>Changing two containers\<close>

lemma mset_concat_update2:
  assumes "i < length Ls" "k < length Ls" "i \<noteq> k"
  shows "mset (concat (Ls[i := x, k := y])) + (mset (Ls ! i) + mset (Ls ! k))
       = mset (concat Ls) + (mset x + mset y)"
proof -
  have "mset (concat (Ls[i := x, k := y])) + mset (Ls ! k) = mset (concat (Ls[i := x])) + mset y"
    using mset_concat_update [of k "Ls[i := x]" y] assms by simp
  moreover have "mset (concat (Ls[i := x])) + mset (Ls ! i) = mset (concat Ls) + mset x"
    by (rule mset_concat_update [OF assms(1)])
  ultimately show ?thesis
    by (metis add.assoc add.commute)
qed

lemma layout_two:
  assumes lay: "sw_layout s Ls" and ok: "heap_ok (nodes s)" and ik: "i < length Ls" "k < length Ls" "i \<noteq> k"
    and same: "length (queues s') = length (queues s)" "length (caches s') = length (caches s)"
      "\<And>j. j < length (queues s) \<Longrightarrow> j \<noteq> i \<Longrightarrow> j \<noteq> k \<Longrightarrow> queues s' ! j = queues s ! j"
      "\<And>j. j < length (caches s) \<Longrightarrow> length (queues s) + j \<noteq> i \<Longrightarrow> length (queues s) + j \<noteq> k
         \<Longrightarrow> caches s' ! j = caches s ! j"
    and frame: "\<And>x. x \<in> dom (nodes s) \<Longrightarrow> x \<notin> set (Ls ! i) \<Longrightarrow> x \<notin> set (Ls ! k) \<Longrightarrow> nodes s' x = nodes s x"
    and new: "\<And>j L. j < length (queues s) \<Longrightarrow> (j, L) \<in> {(i, x), (k, y)} \<Longrightarrow> tq_rep (nodes s') (queues s' ! j) L"
      "\<And>j L. j < length (caches s) \<Longrightarrow> (length (queues s) + j, L) \<in> {(i, x), (k, y)}
         \<Longrightarrow> cache_ok (nodes s') (caches s' ! j) L"
    and all: "mset x + mset y + mset_set (dom (nodes s))
      = mset (Ls ! i) + mset (Ls ! k) + mset_set (dom (nodes s'))"
  shows "sw_layout s' (Ls[i := x, k := y])"
proof (rule layout_change [OF lay ok, where J = "{i, k}"])
  note dis = layout_distinct [OF lay ok]
  fix z j
  assume z: "z \<in> set (Ls ! j)" "j < length Ls" "j \<notin> {i, k}"
  then have "z \<notin> set (Ls ! i)" "z \<notin> set (Ls ! k)"
    using distinct_concat_disjoint [OF dis(1) z(2) ik(1)] distinct_concat_disjoint [OF dis(1) z(2) ik(2)]
    by auto
  moreover have "z \<in> dom (nodes s)"
    using z dis(2) by auto
  ultimately show "nodes s' z = nodes s z"
    using frame by simp
next
  have "mset (concat (Ls[i := x, k := y])) + (mset (Ls ! i) + mset (Ls ! k))
      = mset_set (dom (nodes s)) + (mset x + mset y)"
    using mset_concat_update2 [OF ik, of x y] lay unfolding sw_layout_def by simp
  also have "\<dots> = mset_set (dom (nodes s')) + (mset (Ls ! i) + mset (Ls ! k))"
    using all by (metis add.commute)
  finally show "mset (concat (Ls[i := x, k := y])) = mset_set (dom (nodes s'))"
    by (rule add_right_imp_eq)
next
  fix j
  assume "j < length (queues s)" "j \<in> {i, k}"
  then show "tq_rep (nodes s') (queues s' ! j) (Ls[i := x, k := y] ! j)"
    using new(1) [of j "Ls[i := x, k := y] ! j"] ik by (auto simp: nth_list_update)
next
  fix j
  assume "j < length (caches s)" "length (queues s) + j \<in> {i, k}"
  then show "cache_ok (nodes s') (caches s' ! j) (Ls[i := x, k := y] ! (length (queues s) + j))"
    using new(2) [of j "Ls[i := x, k := y] ! (length (queues s) + j)"] ik by (auto simp: nth_list_update)
qed (use same in auto)

section \<open>The node in hand\<close>

definition holding :: "ptr \<Rightarrow> sw_state \<Rightarrow> sw_state \<Rightarrow> bool" where
  "holding node s s' \<longleftrightarrow> length (queues s') = length (queues s) \<and> alloc s' = alloc s
     \<and> vals (nodes s') = vals (nodes s)
     \<and> (if node = 0 then sw_inv s'
        else node \<in> dom (nodes s') \<and> sw_inv (s'\<lparr>nodes := free_node node (nodes s')\<rparr>))"

lemma dom_free: "dom (free_node p h) = dom h - {p}"
  by (auto simp: free_node_def)

lemma free_other: "x \<noteq> p \<Longrightarrow> free_node p h x = h x"
  by (simp add: free_node_def)

lemma same_dom: "vals h' = vals h \<Longrightarrow> dom h' = dom h"
  using vals_dom by metis

lemma mset_dom_free: "heap_ok h \<Longrightarrow> p \<in> dom h \<Longrightarrow> add_mset p (mset_set (dom h - {p})) = mset_set (dom h)"
  using mset_set.remove [of "dom h" p] by (simp add: heap_ok_def)

lemma pick_queue_ok:
  assumes "sw_inv s" "sh < length (queues s)"
  obtains node q h where "dequeue_tail (queues s ! sh) (nodes s) = Some (node, q, h)"
    "holding node s (s\<lparr>queues := (queues s)[sh := q], nodes := h\<rparr>)"
proof -
  obtain Ls where s: "heap_ok (nodes s)" "alloc_ok (alloc s)" "length (stealing s) = length (queues s)"
    and lay: "sw_layout s Ls"
    using assms(1) by (auto simp: sw_inv_def)
  have rep: "tq_rep (nodes s) (queues s ! sh) (Ls ! sh)" and d: "distinct (Ls ! sh)"
    using lay assms(2) layout_distinct(1) [OF lay s(1)] distinct_concat_nth [of Ls sh]
    by (auto simp: sw_layout_def)
  show ?thesis
  proof (cases "Ls ! sh" rule: rev_cases)
    case Nil
    then have "dequeue_tail (queues s ! sh) (nodes s) = Some (0, queues s ! sh, nodes s)"
      using dequeue_tail_empty rep by simp
    then show ?thesis
      by (rule that) (use assms(1) in \<open>simp add: holding_def\<close>)
  next
    case (snoc ns p)
    obtain q' h' where e: "dequeue_tail (queues s ! sh) (nodes s) = Some (p, q', h')" "tq_rep h' q' ns"
      "vals h' = vals (nodes s)" "\<And>x. x \<notin> set ns \<Longrightarrow> h' x = nodes s x"
      using dequeue_tail_ok [of "nodes s" "queues s ! sh" ns p] rep d s(1) unfolding snoc by blast
    have p: "p \<in> dom (nodes s)" "p \<notin> set ns" "p \<noteq> 0"
      using tq_rep_dom [OF rep] d no_null [OF s(1) tq_rep_dom [OF rep]] unfolding snoc by auto
    note dom = same_dom [OF e(3)]
    let ?h = "free_node p h'"
    have rep': "tq_rep ?h q' ns"
      using e(2) p(2) by (subst tq_rep_cong [of ns _ h']) (auto simp: free_node_def)
    have fr: "?h x = nodes s x" if "x \<notin> set (Ls ! sh)" "x \<in> dom (nodes s)" for x
      using that e(4) unfolding snoc by (simp add: free_node_def)
    have all: "mset ns + mset_set (dom (nodes s)) = mset (Ls ! sh) + mset_set (dom ?h)"
      using mset_dom_free [OF s(1) p(1)] unfolding snoc by (simp add: dom_free dom)
    have "sw_layout (s\<lparr>queues := (queues s)[sh := q'], nodes := ?h\<rparr>) (Ls[sh := ns])"
      by (rule layout_queue [OF lay s(1) assms(2) rep' fr all])
    moreover have "heap_ok ?h"
      using heap_ok_free [OF heap_ok_same [OF s(1) e(3)]] .
    ultimately have "sw_inv (s\<lparr>queues := (queues s)[sh := q'], nodes := ?h\<rparr>)"
      using s by (intro sw_invI) auto
    then show ?thesis
      using that [OF e(1)] e(3) dom p by (simp add: holding_def)
  qed
qed

lemma pick_local_ok:
  assumes inv: "sw_inv s" and sh: "sh < length (queues s)"
  shows "\<exists>node s'. pick_local sh s = Some (node, s') \<and> holding node s s' \<and> stealing s' = stealing s"
proof -
  obtain Ls where s: "heap_ok (nodes s)" "alloc_ok (alloc s)" "length (stealing s) = length (queues s)"
    and lay: "sw_layout s Ls"
    using inv by (auto simp: sw_inv_def)
  obtain node q h where dq: "dequeue_tail (queues s ! sh) (nodes s) = Some (node, q, h)"
    "holding node s (s\<lparr>queues := (queues s)[sh := q], nodes := h\<rparr>)"
    by (rule pick_queue_ok [OF inv sh])
  show ?thesis
  proof (cases "qt_spawncache_get s")
    case None
    then show ?thesis
      using dq by (simp add: pick_local_def)
  next
    case (Some c)
    obtain cs where cs: "Ls ! (length (queues s) + cur s) = deck c @ cs" "cache_rep (nodes s) c cs"
      "distinct (deck c @ cs)" "length (queues s) + cur s < length Ls"
      by (rule cache_layout [OF lay s(1) Some])
    let ?k = "length (queues s) + cur s" and ?p = "on_deck c"
    show ?thesis
    proof (cases "?p = 0")
      case True
      then show ?thesis
        using dq Some by (simp add: pick_local_def)
    next
      case False
      then have dk: "deck c = [?p]"
        by (simp add: deck_def)
      have nz: "0 \<notin> set cs"
        using no_null [OF s(1) cache_rep_dom [OF cs(2)]] by auto
      obtain n where n: "nodes s ?p = Some n" "nnext n = 0" "nprev n = 0"
        using cs(2) False by (auto simp: cache_rep_def split: option.splits)
      have ends: "assert_last (ctail c) (nodes s) = Some ()" "assert_first (chead c) (nodes s) = Some ()"
        using assert_ends [of "nodes s" cs] cs(2) nz by (simp_all add: cache_rep_def)
      have pd: "?p \<in> dom (nodes s)" "?p \<notin> set cs"
        using n cs(3) dk by auto
      show ?thesis
      proof (cases "cs = []")
        case True
        let ?c = "c\<lparr>on_deck := 0\<rparr>" and ?h = "free_node ?p (nodes s)"
        have rep': "cache_rep ?h ?c []"
          using cs(2) True by (simp add: cache_rep_def)
        have fr: "?h x = nodes s x" if "x \<notin> set (Ls ! ?k)" "x \<in> dom (nodes s)" for x
          using that cs(1) dk by (simp add: free_node_def)
        have all: "mset (deck ?c @ []) + mset_set (dom (nodes s)) = mset (Ls ! ?k) + mset_set (dom ?h)"
          using mset_dom_free [OF s(1) pd(1)] cs(1) dk True by (simp add: deck_def dom_free)
        have "sw_layout (set_cache ?c ?h s) (Ls[?k := deck ?c @ []])"
          by (rule layout_cache [OF lay s(1) Some rep' fr all])
        then have "sw_inv (set_cache ?c ?h s)"
          using s heap_ok_free [OF s(1)] by (intro sw_invI) (auto simp: set_cache_def)
        then have "holding ?p s (set_cache ?c (nodes s) s)"
          using False pd by (simp add: holding_def set_cache_def)
        moreover have "pick_local sh s = Some (?p, set_cache ?c (nodes s) s)"
          using Some False ends n cs(2) True by (simp add: pick_local_def cache_rep_def)
        ultimately show ?thesis
          by (auto simp: set_cache_def)
      next
        case ne: False
        have rep: "tq_rep (nodes s) (queues s ! sh) (Ls ! sh)"
          using lay sh by (simp add: sw_layout_def)
        have shl: "sh < length Ls" "sh \<noteq> ?k"
          using lay sh by (simp_all add: sw_layout_def)
        have dj: "distinct (Ls ! sh @ deck c @ cs)"
          using distinct_concat_nth [OF layout_distinct(1) [OF lay s(1)] shl(1)] cs(1,3)
            distinct_concat_disjoint [OF layout_distinct(1) [OF lay s(1)] shl(1) cs(4) shl(2)]
          by auto
        obtain c' q' h' where f: "flush_list c (queues s ! sh) (nodes s) = Some (c', q', h')"
          "tq_rep h' q' (Ls ! sh @ cs)" "cache_rep h' c' []" "deck c' = deck c"
          "vals h' = vals (nodes s)" "\<And>x. x \<notin> set (Ls ! sh @ cs) \<Longrightarrow> h' x = nodes s x"
          using flush_list_ok [OF rep cs(2) ne s(1) dj] by blast
        let ?c = "c'\<lparr>on_deck := 0\<rparr>" and ?h = "free_node ?p h'"
        let ?s = "(set_cache ?c h' s)\<lparr>queues := (queues s)[sh := q']\<rparr>"
        let ?s' = "?s\<lparr>nodes := ?h\<rparr>"
        have cur: "cur s < length (caches s)"
          using Some by (simp add: qt_spawncache_get_def split: if_splits)
        have rep1: "tq_rep ?h q' (Ls ! sh @ cs)"
          using f(2) dj dk by (subst tq_rep_cong [of _ _ h']) (auto simp: free_node_def)
        have rep2: "cache_ok ?h (Some ?c) []"
          using f(3) by (auto simp: cache_ok_def cache_rep_def deck_def)
        have "sw_layout ?s' (Ls[sh := Ls ! sh @ cs, ?k := []])"
        proof (rule layout_two [OF lay s(1) shl(1) cs(4) shl(2)])
          show "nodes ?s' x = nodes s x" if "x \<in> dom (nodes s)" "x \<notin> set (Ls ! sh)" "x \<notin> set (Ls ! ?k)" for x
            using that f(6) [of x] cs(1) dk by (simp add: free_node_def)
          show "mset (Ls ! sh @ cs) + mset [] + mset_set (dom (nodes s))
              = mset (Ls ! sh) + mset (Ls ! ?k) + mset_set (dom (nodes ?s'))"
            using mset_dom_free [OF s(1) pd(1)] cs(1) dk by (simp add: dom_free same_dom [OF f(5)])
        qed (use rep1 rep2 sh cur in \<open>auto simp: set_cache_def nth_list_update\<close>)
        then have "sw_inv ?s'"
          using s heap_ok_free [OF heap_ok_same [OF s(1) f(5)]] by (intro sw_invI) (auto simp: set_cache_def)
        then have "holding ?p s ?s"
          using False pd f(5) same_dom [OF f(5)] by (simp add: holding_def set_cache_def)
        moreover have "pick_local sh s = Some (?p, ?s)"
          using Some False ends n cs(2) ne f(1) by (simp add: pick_local_def cache_rep_def)
        ultimately show ?thesis
          by (auto simp: set_cache_def)
      qed
    qed
  qed
qed

end
