(* ===== verification/Sherwood_Steal.thy ===== *)
theory Sherwood_Steal
  imports Sherwood_Sched
begin

text \<open>
  Stealing. The loop of \<open>qt_threadqueue_dequeue_steal\<close> takes runs of stealable nodes out of the
  victim's queue and chains them up; it is shown to compute \<open>steal_list\<close>, which takes the
  first stealable nodes from the head of the queue and leaves everything else in order.
\<close>

section \<open>The specification\<close>

fun steal_list :: "('a \<Rightarrow> bool) \<Rightarrow> nat \<Rightarrow> 'a list \<Rightarrow> 'a list \<times> 'a list" where
  "steal_list can 0 xs = ([], xs)"
| "steal_list can (Suc k) [] = ([], [])"
| "steal_list can (Suc k) (x # xs) =
     (if can x then let (a, b) = steal_list can k xs in (x # a, b)
      else let (a, b) = steal_list can (Suc k) xs in (a, x # b))"

lemma steal_list_skip:
  "\<forall>x \<in> set sk. \<not> can x \<Longrightarrow> steal_list can k (sk @ xs) = (let (a, b) = steal_list can k xs in (a, sk @ b))"
proof (induction sk)
  case (Cons x sk)
  then show ?case
    by (cases k) (auto split: prod.splits)
qed simp

lemma steal_list_run:
  "\<forall>x \<in> set run. can x \<Longrightarrow> length run \<le> k
   \<Longrightarrow> steal_list can k (run @ xs) = (let (a, b) = steal_list can (k - length run) xs in (run @ a, b))"
proof (induction run arbitrary: k)
  case (Cons x run)
  then show ?case
    by (cases k) (auto split: prod.splits)
qed simp

lemma steal_list_none: "\<forall>x \<in> set xs. \<not> can x \<Longrightarrow> steal_list can k xs = ([], xs)"
  using steal_list_skip [of xs can k "[]"] by (cases k) auto

text \<open>What it takes is the first \<open>k\<close> stealable elements; what it leaves is in order.\<close>

lemma steal_list_fst: "fst (steal_list can k xs) = take k (filter can xs)"
  by (induction can k xs rule: steal_list.induct) (auto split: prod.splits)

lemma steal_list_mset: "mset (fst (steal_list can k xs)) + mset (snd (steal_list can k xs)) = mset xs"
  by (induction can k xs rule: steal_list.induct) (auto split: prod.splits)

lemma steal_list_others: "filter (\<lambda>x. \<not> can x) (snd (steal_list can k xs)) = filter (\<lambda>x. \<not> can x) xs"
  by (induction can k xs rule: steal_list.induct) (auto split: prod.splits)

section \<open>The inner loops\<close>

definition can_steal :: "nheap \<Rightarrow> ptr \<Rightarrow> bool" where
  "can_steal h x \<longleftrightarrow> snd (the (vals h x)) \<noteq> 0"

lemma can_steal_node: "h x = Some n \<Longrightarrow> can_steal h x \<longleftrightarrow> stealable n \<noteq> 0"
  by (simp add: can_steal_def vals_def)

lemma skip_unstealable_ok:
  "dseg h p xs 0 \<Longrightarrow> 0 \<notin> set xs \<Longrightarrow> length xs \<le> fuel
   \<Longrightarrow> skip_unstealable fuel h (hd_or 0 xs) = Some (hd_or 0 (dropWhile (\<lambda>x. \<not> can_steal h x) xs))"
proof (induction xs arbitrary: p fuel)
  case Nil
  then show ?case
    by (simp add: skip_unstealable.simps)
next
  case (Cons x xs)
  obtain n where n: "h x = Some n" "nnext n = hd_or 0 xs" "dseg h x xs 0"
    using Cons.prems(1) by (auto split: option.splits)
  obtain f where f: "fuel = Suc f" "length xs \<le> f"
    using Cons.prems(3) by (cases fuel) auto
  show ?case
    using n f Cons.prems(2) Cons.IH [OF n(3), of f] can_steal_node [of h x n]
    by (subst skip_unstealable.simps) simp
qed

lemma take_run_ok:
  "dseg h p (x # xs) 0 \<Longrightarrow> 0 \<notin> set xs \<Longrightarrow> length xs \<le> fuel
   \<Longrightarrow> run = take (nat (desired - amt)) (takeWhile (can_steal h) xs)
   \<Longrightarrow> take_run fuel h desired amt x = Some (last_or x run, amt + int (length run))"
proof (induction xs arbitrary: p x fuel amt run)
  case Nil
  then show ?case
    by (subst take_run.simps) (auto split: option.splits)
next
  case (Cons y xs)
  obtain n k where n: "h x = Some n" "nnext n = y" and k: "h y = Some k" "dseg h x (y # xs) 0"
    using Cons.prems(1) by (auto split: option.splits)
  obtain f where f: "fuel = Suc f" "length xs \<le> f"
    using Cons.prems(3) by (cases fuel) auto
  show ?case
  proof (cases "amt < desired \<and> can_steal h y")
    case True
    let ?run = "take (nat (desired - (amt + 1))) (takeWhile (can_steal h) xs)"
    have "nat (desired - amt) = Suc (nat (desired - (amt + 1)))"
      using True by arith
    then have run: "run = y # ?run"
      using Cons.prems(4) True by simp
    have IH: "take_run f h desired (amt + 1) y = Some (last_or y ?run, amt + 1 + int (length ?run))"
      by (rule Cons.IH [OF k(2)]) (use f Cons.prems(2) in auto)
    have "take_run fuel h desired amt x = take_run f h desired (amt + 1) y"
      using n k(1) f(1) True Cons.prems(2) can_steal_node [of h y k] by (subst take_run.simps) simp
    also have "\<dots> = Some (last_or x run, amt + int (length run))"
      unfolding IH run by simp
    finally show ?thesis .
  next
    case False
    then have run: "run = []"
      using Cons.prems(4) by auto
    then show ?thesis
      using n k(1) f(1) False Cons.prems(2) can_steal_node [of h y k]
      by (subst take_run.simps) auto
  qed
qed

section \<open>Moving a run\<close>

lemma dseg_move: "dseg h p xs q \<Longrightarrow> (\<And>x. x \<in> set xs \<Longrightarrow> h' x = h x) \<Longrightarrow> dseg h' p xs q"
  using dseg_cong [of xs h' h p q] by simp

lemma dseg_hd: "xs \<noteq> [] \<Longrightarrow> dseg h p xs q \<Longrightarrow> \<exists>n. h (hd xs) = Some n \<and> nprev n = p"
  by (cases xs) (auto split: option.splits)

lemma dseg_last: "xs \<noteq> [] \<Longrightarrow> dseg h p xs q \<Longrightarrow> \<exists>n. h (last xs) = Some n \<and> nnext n = q"
  by (cases xs rule: rev_cases) (auto split: option.splits)

lemma dseg_set_next_last:
  assumes "dseg h p xs q" "xs \<noteq> []" "distinct xs"
  obtains h' where "set_next (last xs) q' h = Some h'" "dseg h' p xs q'" "vals h' = vals h"
    "\<And>x. x \<noteq> last xs \<Longrightarrow> h' x = h x"
proof -
  obtain us u where u: "xs = us @ [u]"
    using assms(2) by (cases xs rule: rev_cases) auto
  obtain n where n: "h u = Some n" "set_next u q' h = Some (h(u \<mapsto> n\<lparr>nnext := q'\<rparr>))"
    "dseg (h(u \<mapsto> n\<lparr>nnext := q'\<rparr>)) p (us @ [u]) q'"
    using dseg_set_last [of h p us u q q'] assms(1,3) unfolding u by auto
  show ?thesis
    by (rule that [of "h(u \<mapsto> n\<lparr>nnext := q'\<rparr>)"]) (use n u in auto)
qed

lemma dseg_set_prev_hd:
  assumes "dseg h p xs q" "xs \<noteq> []" "distinct xs"
  obtains h' where "set_prev (hd xs) p' h = Some h'" "dseg h' p' xs q" "vals h' = vals h"
    "\<And>x. x \<noteq> hd xs \<Longrightarrow> h' x = h x"
proof -
  obtain u us where u: "xs = u # us"
    using assms(2) by (cases xs) auto
  obtain n where n: "h u = Some n" "set_prev u p' h = Some (h(u \<mapsto> n\<lparr>nprev := p'\<rparr>))"
    "dseg (h(u \<mapsto> n\<lparr>nprev := p'\<rparr>)) p' (u # us) q"
    using dseg_set_first [of h p u us q p'] assms(1,3) unfolding u by auto
  show ?thesis
    by (rule that [of "h(u \<mapsto> n\<lparr>nprev := p'\<rparr>)"]) (use n u in auto)
qed

text \<open>The two patches that close the gap left by a run.\<close>

lemma patch_left:
  assumes us: "dseg h 0 us q" and d: "distinct (us @ fs # rest)" and v: "head v = hd_or 0 (us @ fs # rest)"
    and f: "h fs = Some f" "nprev f = last_or 0 us"
  obtains h' where
    "relink_left fs (nprev f) q' v h = Some (v\<lparr>head := hd_or q' us\<rparr>, h')"
    "dseg h' 0 us q'" "vals h' = vals h" "\<And>x. x \<notin> set us \<Longrightarrow> h' x = h x"
proof (cases us)
  case Nil
  then show ?thesis
    using that [of h] v by (simp add: relink_left_def)
next
  case (Cons u us')
  then have hd: "head v = u" "fs \<noteq> head v" "v\<lparr>head := u\<rparr> = v"
    using v d by auto
  obtain h' where h': "set_next (last us) q' h = Some h'" "dseg h' 0 us q'" "vals h' = vals h"
    "\<And>x. x \<noteq> last us \<Longrightarrow> h' x = h x"
    using dseg_set_next_last [OF us, of q'] Cons d by auto
  have l: "last_or 0 us = last us" "last us \<in> set us" "hd_or q' us = u"
    using Cons by (simp_all add: last_or_def)
  have run: "relink_left fs (nprev f) q' v h = Some (v\<lparr>head := hd_or q' us\<rparr>, h')"
    unfolding l(3) using hd h'(1) l(1) f(2) by (simp add: relink_left_def)
  show ?thesis
    by (rule that [OF run h'(2,3)], rule h'(4)) (use l(2) in auto)
qed

lemma patch_right:
  assumes vs: "dseg h p vs 0" and d: "distinct (us @ ls # vs)" and v: "tail v = last_or 0 (us @ ls # vs)"
    and l: "nnext l = hd_or 0 vs"
  obtains h' where
    "relink_right ls (nnext l) p' v h = Some (v\<lparr>tail := last_or p' vs\<rparr>, h')"
    "dseg h' p' vs 0" "vals h' = vals h" "\<And>x. x \<notin> set vs \<Longrightarrow> h' x = h x"
proof (cases vs)
  case Nil
  then show ?thesis
    using that [of h] v by (simp add: relink_right_def)
next
  case (Cons w vs')
  then have t: "tail v = last vs" "last vs \<in> set vs"
    using v by (auto simp: last_or_def)
  then have tl: "ls \<noteq> tail v" "v\<lparr>tail := last vs\<rparr> = v"
    using d by auto
  obtain h' where h': "set_prev (hd vs) p' h = Some h'" "dseg h' p' vs 0" "vals h' = vals h"
    "\<And>x. x \<noteq> hd vs \<Longrightarrow> h' x = h x"
    using dseg_set_prev_hd [OF vs, of p'] Cons d by auto
  have "last_or p' vs = last vs" "nnext l = hd vs"
    using Cons l by (simp_all add: last_or_def)
  then show ?thesis
    by (intro that [of h']) (use tl h' Cons in \<open>auto simp: relink_right_def\<close>)
qed

lemma unlink_run_ok:
  assumes ch: "dseg h 0 (us @ run @ vs) 0" and run: "run \<noteq> []" and d: "distinct (us @ run @ vs)"
    and v: "head v = hd_or 0 (us @ run @ vs)" "tail v = last_or 0 (us @ run @ vs)"
  obtains h' where "unlink_run (hd run) (last run) v h
      = Some (hd_or 0 vs, v\<lparr>head := hd_or 0 (us @ vs), tail := last_or 0 (us @ vs)\<rparr>, h')"
    "dseg h' 0 (us @ vs) 0" "dseg h' 0 run 0" "vals h' = vals h"
    "\<And>x. x \<notin> set (us @ run @ vs) \<Longrightarrow> h' x = h x"
proof -
  obtain r rs where r: "run = r # rs"
    using run by (cases run) auto
  obtain ss l where ls: "run = ss @ [l]"
    using run by (cases run rule: rev_cases) auto
  have hl: "hd run = r" "last run = l"
    by (simp add: r) (simp add: ls)
  have ends: "hd_or x run = r" "last_or x run = l" for x
    by (simp add: r) (simp add: ls)
  have ch': "dseg h 0 us r" "dseg h (last_or 0 us) run (hd_or 0 vs)" "dseg h l vs 0"
    using ch by (simp_all add: ends)
  have mem: "r \<in> set run" "l \<in> set run"
    by (simp add: r) (simp add: ls)
  have dis: "set us \<inter> set run = {}" "set us \<inter> set vs = {}" "set run \<inter> set vs = {}"
    "distinct us" "distinct run" "distinct vs"
    using d by auto
  obtain f where f: "h r = Some f" "nprev f = last_or 0 us"
    using dseg_hd [OF run ch'(2)] r by auto
  obtain ln where ln: "h l = Some ln" "nnext ln = hd_or 0 vs"
    using dseg_last [OF run ch'(2)] ls by auto
  obtain h1 where h1: "relink_left r (nprev f) (hd_or 0 vs) v h
        = Some (v\<lparr>head := hd_or (hd_or 0 vs) us\<rparr>, h1)"
    "dseg h1 0 us (hd_or 0 vs)" "vals h1 = vals h" "\<And>x. x \<notin> set us \<Longrightarrow> h1 x = h x"
    using patch_left [OF ch'(1) _ _ f, of "rs @ vs" v "hd_or 0 vs"] d v(1) unfolding r by auto
  have nus: "r \<notin> set us" "l \<notin> set us" "l \<notin> set vs"
    using mem dis by auto
  have e1: "h1 r = Some f" "h1 l = Some ln"
    using h1(4) [OF nus(1)] h1(4) [OF nus(2)] f ln by auto
  have vs1: "dseg h1 l vs 0"
    by (rule dseg_move [OF ch'(3)], rule h1(4)) (use dis in auto)
  obtain h2 where h2: "relink_right l (nnext ln) (nprev f) (v\<lparr>head := hd_or (hd_or 0 vs) us\<rparr>) h1
        = Some (v\<lparr>head := hd_or (hd_or 0 vs) us, tail := last_or (nprev f) vs\<rparr>, h2)"
    "dseg h2 (nprev f) vs 0" "vals h2 = vals h1" "\<And>x. x \<notin> set vs \<Longrightarrow> h2 x = h1 x"
    using patch_right [OF vs1 _ _ ln(2), of "us @ ss" l "v\<lparr>head := hd_or (hd_or 0 vs) us\<rparr>" "nprev f"]
      d v(2) unfolding ls by auto
  have e2: "h2 l = Some ln"
    using h2(4) [OF nus(3)] e1 by auto
  have run2: "dseg h2 (last_or 0 us) run (hd_or 0 vs)"
  proof (rule dseg_move [OF ch'(2)])
    fix x
    assume "x \<in> set run"
    then have "x \<notin> set us" "x \<notin> set vs"
      using dis by auto
    then show "h2 x = h x"
      using h1(4) h2(4) by simp
  qed
  obtain h3 where h3: "set_next l 0 h2 = Some h3" "dseg h3 (last_or 0 us) run 0" "vals h3 = vals h2"
    "\<And>x. x \<noteq> l \<Longrightarrow> h3 x = h2 x"
    using dseg_set_next_last [OF run2 run dis(5), of 0] ls by auto
  obtain h4 where h4: "set_prev r 0 h3 = Some h4" "dseg h4 0 run 0" "vals h4 = vals h3"
    "\<And>x. x \<noteq> r \<Longrightarrow> h4 x = h3 x"
    using dseg_set_prev_hd [OF h3(2) run dis(5), of 0] r by auto
  have same: "h4 x = h2 x" if "x \<notin> set run" for x
  proof -
    have "x \<noteq> l" "x \<noteq> r"
      using that mem by auto
    then show ?thesis
      using h3(4) h4(4) by simp
  qed
  have "dseg h4 0 us (hd_or 0 vs)"
  proof (rule dseg_move [OF h1(2)])
    fix x
    assume "x \<in> set us"
    then have "x \<notin> set run" "x \<notin> set vs"
      using dis by auto
    then show "h4 x = h1 x"
      using same h2(4) by simp
  qed
  moreover have "dseg h4 (last_or 0 us) vs 0"
    using f(2) dis by (intro dseg_move [OF h2(2) [unfolded f(2)]] same) auto
  ultimately have rest: "dseg h4 0 (us @ vs) 0"
    by simp
  have "unlink_run r l v h = Some (hd_or 0 vs, v\<lparr>head := hd_or (hd_or 0 vs) us, tail := last_or (nprev f) vs\<rparr>, h4)"
    unfolding unlink_run_def using f(1) ln h1(1) e1 h2(1) e2 h3(1) h4(1) by simp
  then have ul: "unlink_run (hd run) (last run) v h
      = Some (hd_or 0 vs, v\<lparr>head := hd_or 0 (us @ vs), tail := last_or 0 (us @ vs)\<rparr>, h4)"
    using f(2) by (simp add: hl)
  have va: "vals h4 = vals h"
    using h1(3) h2(3) h3(3) h4(3) by simp
  show ?thesis
    by (rule that [OF ul rest h4(2) va]) (use same h1(4) h2(4) in auto)
qed

lemma chain_run_ok:
  assumes st: "dseg h 0 st 0" and run: "dseg h 0 run 0" "run \<noteq> []"
    and d: "distinct (st @ run)" "0 \<notin> set st"
  obtains h' where "chain_run (hd run) (last run) (hd_or 0 st, last_or 0 st) h
      = Some ((hd_or 0 (st @ run), last_or 0 (st @ run)), h')"
    "dseg h' 0 (st @ run) 0" "vals h' = vals h" "\<And>x. x \<notin> set (st @ run) \<Longrightarrow> h' x = h x"
proof (cases "st = []")
  case True
  have "hd run = hd_or 0 run" "last run = last_or 0 run"
    using run(2) by (simp_all add: last_or_def hd_or_def split: list.splits)
  then show ?thesis
    using that [of h] True run by (simp add: chain_run_def)
next
  case False
  have ends: "hd_or 0 st \<noteq> 0" "last_or 0 st = last st" "hd run = hd_or 0 run" "last run = last_or x run" for x
    using hd_or_0 [OF d(2)] False run(2) by (simp_all add: last_or_def hd_or_def split: list.splits)
  obtain h1 where h1: "set_next (last st) (hd run) h = Some h1" "dseg h1 0 st (hd run)" "vals h1 = vals h"
    "\<And>x. x \<noteq> last st \<Longrightarrow> h1 x = h x"
    using dseg_set_next_last [OF st False, of "hd run"] d by auto
  have "last st \<notin> set run"
    using last_in_set [OF False] d by auto
  then have run1: "dseg h1 0 run 0"
    by (intro dseg_move [OF run(1)] h1(4)) auto
  obtain h2 where h2: "set_prev (hd run) (last st) h1 = Some h2" "dseg h2 (last st) run 0"
    "vals h2 = vals h1" "\<And>x. x \<noteq> hd run \<Longrightarrow> h2 x = h1 x"
    using dseg_set_prev_hd [OF run1 run(2), of "last st"] d by auto
  have "hd run \<notin> set st"
    using run(2) d by (cases run) auto
  then have "dseg h2 0 st (hd run)"
    by (intro dseg_move [OF h1(2)] h2(4)) auto
  then have ch: "dseg h2 0 (st @ run) 0"
    using h2(2) ends by simp
  have "chain_run (hd run) (last run) (hd_or 0 st, last_or 0 st) h
      = Some ((hd_or 0 (st @ run), last_or 0 (st @ run)), h2)"
    using h1(1) h2(1) ends(1,2) ends(4) [of "last_or 0 st"] False
    by (simp add: chain_run_def) (simp add: hd_or_def split: list.splits)
  moreover have "h2 x = h x" if "x \<notin> set (st @ run)" for x
  proof -
    have "x \<noteq> last st" "x \<noteq> hd run"
      using that last_in_set [OF False] list.set_sel(1) [OF run(2)] by auto
    then show ?thesis
      using h1(4) h2(4) by simp
  qed
  ultimately show ?thesis
    using that [OF _ ch] h1(3) h2(3) by simp
qed

section \<open>The loop\<close>

lemma node_vals:
  assumes "heap_ok h" "x \<in> dom h"
  obtains t st where "vals h x = Some (t, st)" "st = 0 \<or> st = 1"
proof -
  obtain t st where v: "vals h x = Some (t, st)"
    using assms(2) by (auto simp: vals_def)
  then show ?thesis
    using that assms(1) unfolding heap_ok_vals by blast
qed

lemma stealable_sum_nonneg: "heap_ok h \<Longrightarrow> set xs \<subseteq> dom h \<Longrightarrow> 0 \<le> stealable_sum h xs"
proof (induction xs)
  case (Cons x xs)
  obtain t st where "vals h x = Some (t, st)" "st = 0 \<or> st = 1"
    using node_vals [of h x] Cons.prems by auto
  then show ?case
    using Cons by auto
qed simp

lemma stealable_sum_0:
  "heap_ok h \<Longrightarrow> set xs \<subseteq> dom h \<Longrightarrow> stealable_sum h xs \<le> 0 \<Longrightarrow> \<forall>x \<in> set xs. \<not> can_steal h x"
proof (induction xs)
  case (Cons x xs)
  obtain t st where "vals h x = Some (t, st)" "st = 0 \<or> st = 1"
    using node_vals [of h x] Cons.prems by auto
  moreover have "0 \<le> stealable_sum h xs"
    using Cons.prems by (intro stealable_sum_nonneg) auto
  ultimately show ?case
    using Cons by (auto simp: can_steal_def)
qed simp

lemma stealable_sum_run:
  "heap_ok h \<Longrightarrow> set xs \<subseteq> dom h \<Longrightarrow> \<forall>x \<in> set xs. can_steal h x \<Longrightarrow> stealable_sum h xs = int (length xs)"
proof (induction xs)
  case (Cons x xs)
  obtain t st where "vals h x = Some (t, st)" "st = 0 \<or> st = 1"
    using node_vals [of h x] Cons.prems by auto
  then show ?case
    using Cons by (auto simp: can_steal_def)
qed simp

text \<open>Splitting the rest of the queue into the nodes passed over, the run, and what follows.\<close>

lemma split_run:
  assumes "dropWhile (\<lambda>x. \<not> can x) rest = x # xs" "0 < k"
  defines "sk \<equiv> takeWhile (\<lambda>x. \<not> can x) rest" and "run \<equiv> x # take (k - 1) (takeWhile can xs)"
    and "vs \<equiv> drop (length (take (k - 1) (takeWhile can xs))) xs"
  shows "rest = sk @ run @ vs" "\<forall>y \<in> set sk. \<not> can y" "\<forall>y \<in> set run. can y" "length run \<le> k"
    "length vs < length rest"
proof -
  have "takeWhile can xs = take (length (takeWhile can xs)) xs"
    by (rule takeWhile_eq_take)
  then have "take (k - 1) (takeWhile can xs) = take (length (take (k - 1) (takeWhile can xs))) xs"
    by (metis length_take min.commute take_take)
  then have xs: "xs = take (k - 1) (takeWhile can xs) @ vs"
    unfolding vs_def by (metis append_take_drop_id)
  show r: "rest = sk @ run @ vs"
    using takeWhile_dropWhile_id [of "\<lambda>x. \<not> can x" rest] xs assms(1)
    unfolding sk_def run_def by (metis append_Cons)
  show "\<forall>y \<in> set sk. \<not> can y"
    unfolding sk_def using set_takeWhileD by fastforce
  have "can x"
    using assms(1) by (metis dropWhile_eq_Cons_conv)
  then show "\<forall>y \<in> set run. can y"
    unfolding run_def by (auto dest: in_set_takeD set_takeWhileD)
  show "length run \<le> k"
    using assms(2) unfolding run_def by simp
  show "length vs < length rest"
    unfolding r run_def by simp
qed

lemma steal_step:
  assumes ok: "heap_ok h" and rep: "tq_rep h v (us @ run @ vs)" and st: "dseg h 0 st 0"
    and d: "distinct ((us @ run @ vs) @ st)" "0 \<notin> set ((us @ run @ vs) @ st)"
    and run: "run \<noteq> []" "\<forall>x \<in> set run. can_steal h x"
  obtains v' h1 h2 where
    "unlink_run (hd run) (last run) (v\<lparr>qlength := qlength v - int (length run),
       qlength_stealable := qlength_stealable v - int (length run)\<rparr>) h = Some (hd_or 0 vs, v', h1)"
    "chain_run (hd run) (last run) (hd_or 0 st, last_or 0 st) h1
       = Some ((hd_or 0 (st @ run), last_or 0 (st @ run)), h2)"
    "tq_rep h2 v' (us @ vs)" "dseg h2 0 (st @ run) 0" "vals h2 = vals h"
    "\<And>x. x \<notin> set ((us @ run @ vs) @ st) \<Longrightarrow> h2 x = h x"
proof -
  let ?v = "v\<lparr>qlength := qlength v - int (length run),
    qlength_stealable := qlength_stealable v - int (length run)\<rparr>"
  let ?v' = "?v\<lparr>head := hd_or 0 (us @ vs), tail := last_or 0 (us @ vs)\<rparr>"
  have ch: "dseg h 0 (us @ run @ vs) 0" "distinct (us @ run @ vs)"
    "head ?v = hd_or 0 (us @ run @ vs)" "tail ?v = last_or 0 (us @ run @ vs)"
    using rep d(1) unfolding tq_rep_def distinct_append by simp_all
  obtain h1 where h1: "unlink_run (hd run) (last run) ?v h = Some (hd_or 0 vs, ?v', h1)"
    "dseg h1 0 (us @ vs) 0" "dseg h1 0 run 0" "vals h1 = vals h"
    "\<And>x. x \<notin> set (us @ run @ vs) \<Longrightarrow> h1 x = h x"
    using unlink_run_ok [OF ch(1) run(1) ch(2,3,4)] by blast
  have st1: "dseg h1 0 st 0"
    by (rule dseg_move [OF st], rule h1(5)) (use d(1) in auto)
  have ds: "distinct (st @ run)" "0 \<notin> set st"
    using d by auto
  obtain h2 where h2: "chain_run (hd run) (last run) (hd_or 0 st, last_or 0 st) h1
      = Some ((hd_or 0 (st @ run), last_or 0 (st @ run)), h2)"
    "dseg h2 0 (st @ run) 0" "vals h2 = vals h1" "\<And>x. x \<notin> set (st @ run) \<Longrightarrow> h2 x = h1 x"
    using chain_run_ok [OF st1 h1(3) run(1) ds] by blast
  have "dseg h2 0 (us @ vs) 0"
    by (rule dseg_move [OF h1(2)], rule h2(4)) (use d(1) in auto)
  moreover have s: "stealable_sum h2 xs = stealable_sum h xs" for xs
    using h1(4) h2(3) by (intro stealable_sum_cong) simp
  moreover have "stealable_sum h run = int (length run)"
    using ok run(2) tq_rep_dom [OF rep] by (intro stealable_sum_run) auto
  ultimately have rep': "tq_rep h2 ?v' (us @ vs)"
    using rep by (simp add: tq_rep_def)
  have va: "vals h2 = vals h"
    using h1(4) h2(3) by simp
  have fr: "h2 x = h x" if "x \<notin> set ((us @ run @ vs) @ st)" for x
    using that h1(5) [of x] h2(4) [of x] by simp
  show ?thesis
    by (rule that [OF h1(1) h2(1) rep' h2(2) va fr])
qed

declare steal_loop.simps [simp del]

lemma steal_loop_ok:
  assumes "heap_ok h" "tq_rep h v (left @ rest)" "dseg h 0 st 0" "distinct ((left @ rest) @ st)"
    "0 \<notin> set ((left @ rest) @ st)" "\<forall>x \<in> set left. \<not> can_steal h x" "length rest \<le> fuel" "amt < desired"
    and "steal_list (can_steal h) (nat (desired - amt)) rest = (a, b)"
  shows "\<exists>v' h'. steal_loop (Suc fuel) desired (hd_or 0 rest) amt (hd_or 0 st, last_or 0 st) v h
      = Some (hd_or 0 (st @ a), v', h')
    \<and> tq_rep h' v' (left @ b) \<and> dseg h' 0 (st @ a) 0 \<and> vals h' = vals h
    \<and> (\<forall>x. x \<notin> set ((left @ rest) @ st) \<longrightarrow> h' x = h x)"
  using assms
proof (induction fuel arbitrary: h v left rest st amt a b)
  case 0
  then have "rest = []" "a = []" "b = []"
    using steal_list_none [of rest "can_steal h" "nat (desired - amt)"] by auto
  then show ?case
    using 0 by (simp add: steal_loop.simps skip_unstealable.simps)
next
  case (Suc fuel)
  let ?can = "can_steal h" and ?k = "nat (desired - amt)"
  have ch: "dseg h (last_or 0 left) rest 0"
    using Suc.prems(2) by (simp add: tq_rep_def)
  have skip: "skip_unstealable (Suc fuel) h (hd_or 0 rest) = Some (hd_or 0 (dropWhile (\<lambda>x. \<not> ?can x) rest))"
    by (rule skip_unstealable_ok [OF ch]) (use Suc.prems(5,7) in auto)
  show ?case
  proof (cases "dropWhile (\<lambda>x. \<not> ?can x) rest")
    case Nil
    then have "\<forall>x \<in> set rest. \<not> ?can x"
      by (simp add: dropWhile_eq_Nil_conv)
    then have ab: "a = []" "b = rest"
      using Suc.prems(9) steal_list_none [of rest ?can] by simp_all
    have "steal_loop (Suc (Suc fuel)) desired (hd_or 0 rest) amt (hd_or 0 st, last_or 0 st) v h
        = Some (hd_or 0 st, v, h)"
      by (subst steal_loop.simps) (simp add: skip Nil)
    then show ?thesis
      using Suc.prems(2,3) ab by simp
  next
    case (Cons x xs)
    define sk where "sk = takeWhile (\<lambda>x. \<not> ?can x) rest"
    define rn where "rn = take (?k - 1) (takeWhile ?can xs)"
    define vs where "vs = drop (length rn) xs"
    have k: "0 < ?k" "?k - 1 = nat (desired - (amt + 1))"
      using Suc.prems(8) by auto
    note sp = split_run [OF Cons k(1), folded sk_def rn_def, folded vs_def]
    have node: "hd_or 0 (dropWhile (\<lambda>x. \<not> ?can x) rest) = x" "x \<noteq> 0"
      using Cons Suc.prems(5) sp(1) by auto
    have xs: "dropWhile (\<lambda>x. \<not> ?can x) rest = (x # rn) @ vs"
      using sp(1) takeWhile_dropWhile_id [of "\<lambda>x. \<not> ?can x" rest] unfolding sk_def
      by (metis same_append_eq)
    have chx: "dseg h (last_or (last_or 0 left) sk) (x # xs) 0"
      using ch Cons xs unfolding sp(1) by simp
    have tr: "take_run (Suc fuel) h desired (amt + 1) x = Some (last_or x rn, amt + 1 + int (length rn))"
      by (rule take_run_ok [OF chx])
        (use Cons xs sp(1) Suc.prems(5,7) k(2) in \<open>auto simp: rn_def\<close>)
    let ?run = "x # rn"
    have rep: "tq_rep h v ((left @ sk) @ ?run @ vs)"
      and d: "distinct (((left @ sk) @ ?run @ vs) @ st)" "0 \<notin> set (((left @ sk) @ ?run @ vs) @ st)"
      using Suc.prems(2,4,5) unfolding sp(1) by simp_all
    have ne: "?run \<noteq> []"
      by simp
    obtain v' h1 h2 where st: "unlink_run (hd ?run) (last ?run) (v\<lparr>qlength := qlength v - int (length ?run),
         qlength_stealable := qlength_stealable v - int (length ?run)\<rparr>) h = Some (hd_or 0 vs, v', h1)"
      "chain_run (hd ?run) (last ?run) (hd_or 0 st, last_or 0 st) h1
         = Some ((hd_or 0 (st @ ?run), last_or 0 (st @ ?run)), h2)"
      "tq_rep h2 v' ((left @ sk) @ vs)" "dseg h2 0 (st @ ?run) 0" "vals h2 = vals h"
      "\<And>x. x \<notin> set (((left @ sk) @ ?run @ vs) @ st) \<Longrightarrow> h2 x = h x"
      using steal_step [OF Suc.prems(1) rep Suc.prems(3) d ne sp(3)] by blast
    have lst: "last ?run = last_or x rn"
      by (simp add: last_or_def)
    let ?amt = "amt + 1 + int (length rn)"
    have step: "steal_loop (Suc (Suc fuel)) desired (hd_or 0 rest) amt (hd_or 0 st, last_or 0 st) v h
      = (if qlength_stealable v' > 0 \<and> ?amt < desired
         then steal_loop (Suc fuel) desired (hd_or 0 vs) ?amt (hd_or 0 (st @ ?run), last_or 0 (st @ ?run)) v' h2
         else Some (hd_or 0 (st @ ?run), v', h2))"
      using st(1,2) lst node tr by (subst steal_loop.simps) (simp add: skip Let_def)
    obtain a' b' where ab': "steal_list ?can (nat (desired - ?amt)) vs = (a', b')"
      by fastforce
    have "steal_list ?can ?k rest = (?run @ a', sk @ b')"
    proof -
      have "?k - length ?run = nat (desired - ?amt)"
        using sp(4) by simp
      then have "steal_list ?can ?k (?run @ vs) = (?run @ a', b')"
        using steal_list_run [OF sp(3,4), of vs] ab' by simp
      then show ?thesis
        using steal_list_skip [OF sp(2), of ?k "?run @ vs"] sp(1) by simp
    qed
    then have ab: "a = ?run @ a'" "b = sk @ b'"
      using Suc.prems(9) by simp_all
    have can2: "can_steal h2 = ?can"
      using st(5) by (simp add: can_steal_def fun_eq_iff)
    have ok2: "heap_ok h2"
      by (rule heap_ok_same [OF Suc.prems(1) st(5)])
    show ?thesis
    proof (cases "qlength_stealable v' > 0 \<and> ?amt < desired")
      case True
      have "distinct (((left @ sk) @ vs) @ st @ ?run)" "0 \<notin> set (((left @ sk) @ vs) @ st @ ?run)"
        "length vs \<le> fuel"
        using d sp(5) Suc.prems(7) by auto
      then obtain v'' h'' where "steal_loop (Suc fuel) desired (hd_or 0 vs) ?amt
          (hd_or 0 (st @ ?run), last_or 0 (st @ ?run)) v' h2 = Some (hd_or 0 ((st @ ?run) @ a'), v'', h'')"
        "tq_rep h'' v'' ((left @ sk) @ b')" "dseg h'' 0 ((st @ ?run) @ a') 0" "vals h'' = vals h2"
        "\<forall>x. x \<notin> set (((left @ sk) @ vs) @ st @ ?run) \<longrightarrow> h'' x = h2 x"
        using Suc.IH [OF ok2 st(3,4), of ?amt a' b'] Suc.prems(6) sp(2) True ab' unfolding can2 by auto
      then show ?thesis
        using step True st(5,6) ab unfolding sp(1) by (auto simp del: hd_or_simps last_or_simps)
    next
      case False
      have "a' = [] \<and> b' = vs"
      proof (cases "?amt < desired")
        case True
        then have "stealable_sum h2 ((left @ sk) @ vs) \<le> 0"
          using False st(3) by (simp add: tq_rep_def)
        then have "\<forall>x \<in> set vs. \<not> ?can x"
          using stealable_sum_0 [OF ok2 tq_rep_dom [OF st(3)]] unfolding can2 by auto
        then show ?thesis
          using steal_list_none [of vs ?can] ab' by simp
      qed (use ab' in simp)
      then show ?thesis
        using step False st ab unfolding sp(1) by (auto simp del: hd_or_simps last_or_simps)
    qed
  qed
qed

section \<open>Stealing from a victim\<close>

definition stolen_split :: "int \<Rightarrow> bool \<Rightarrow> qt_threadqueue \<Rightarrow> nheap \<Rightarrow> ptr list \<Rightarrow> ptr list \<times> ptr list" where
  "stolen_split chunk got_lock v h ns =
     (if got_lock then steal_list (can_steal h) (nat (desired_stolen chunk v)) ns else ([], ns))"

lemma dequeue_steal_ok:
  assumes ok: "heap_ok h" and rep: "tq_rep h v ns" and d: "distinct ns"
    and ab: "stolen_split chunk got v h ns = (a, b)"
  obtains v' h' where "qt_threadqueue_dequeue_steal chunk got v h = Some (hd_or 0 a, v', h')"
    "tq_rep h' v' b" "dseg h' 0 a 0" "vals h' = vals h" "\<And>x. x \<notin> set ns \<Longrightarrow> h' x = h x"
proof (cases "got \<and> qlength_stealable v > 0 \<and> 0 < desired_stolen chunk v")
  case True
  let ?d = "desired_stolen chunk v"
  have "nat (qlength v) = length ns" "head v = hd_or 0 ns"
    using rep by (simp_all add: tq_rep_def)
  then have run: "qt_threadqueue_dequeue_steal chunk got v h
      = steal_loop (Suc (length ns)) ?d (hd_or 0 ns) 0 (hd_or 0 [], last_or 0 []) v h"
    using True by (simp add: qt_threadqueue_dequeue_steal_def)
  have "0 \<notin> set (([] @ ns) @ [])"
    using no_null [OF ok tq_rep_dom [OF rep]] by simp
  then show ?thesis
    using steal_loop_ok [of h v "[]" ns "[]" "length ns" 0 ?d a b] ok rep d ab True run that
    by (auto simp: stolen_split_def)
next
  case False
  have "a = [] \<and> b = ns"
  proof (cases "got \<and> 0 < desired_stolen chunk v")
    case True
    then have "\<forall>x \<in> set ns. \<not> can_steal h x"
      using False rep stealable_sum_0 [OF ok tq_rep_dom [OF rep]] by (simp add: tq_rep_def)
    then show ?thesis
      using ab True steal_list_none [of ns "can_steal h"] by (simp add: stolen_split_def)
  qed (use ab in \<open>auto simp: stolen_split_def split: if_splits\<close>)
  moreover have "qt_threadqueue_dequeue_steal chunk got v h = Some (0, v, h)"
    using False by (auto simp: qt_threadqueue_dequeue_steal_def)
  ultimately show ?thesis
    using that rep by simp
qed

lemma find_last_ok:
  "dseg h p (x # xs) 0 \<Longrightarrow> 0 \<notin> set xs \<Longrightarrow> length xs < fuel
   \<Longrightarrow> find_last fuel h x cnt = Some (last_or x xs, cnt + length xs)"
proof (induction xs arbitrary: p x fuel cnt)
  case Nil
  then show ?case
    by (cases fuel) (auto split: option.splits)
next
  case (Cons y xs)
  then show ?case
    by (cases fuel) (auto split: option.splits)
qed

lemma enqueue_multiple_ok:
  assumes rep: "tq_rep h q ns" and ms: "dseg h p ms 0" "ms \<noteq> []" "\<forall>x \<in> set ms. can_steal h x"
    and ok: "heap_ok h" and d: "distinct (ns @ ms)" and fuel: "length ms \<le> fuel"
  obtains q' h' where "qt_threadqueue_enqueue_multiple fuel q (hd ms) h = Some (q', h')"
    "tq_rep h' q' (ns @ ms)" "vals h' = vals h" "\<And>x. x \<notin> set (ns @ ms) \<Longrightarrow> h' x = h x"
proof -
  have nz: "0 \<notin> set ns" "0 \<notin> set ms"
    using no_null [OF ok tq_rep_dom [OF rep]] no_null [OF ok dseg_dom [OF ms(1)]] by auto
  obtain m ms' where m: "ms = m # ms'"
    using ms(2) by (cases ms) auto
  have last: "last ms = last_or m ms'" "m \<noteq> 0"
    using m nz by (auto simp: last_or_def)
  have fl: "find_last fuel h m 1 = Some (last ms, length ms)"
    unfolding last(1) using find_last_ok [of h p m ms' fuel 1] ms(1) nz fuel unfolding m by simp
  have dm: "distinct ms"
    using d by simp
  obtain h1 where h1: "set_next (last ms) 0 h = Some h1" "dseg h1 p ms 0" "vals h1 = vals h"
    "\<And>x. x \<noteq> last ms \<Longrightarrow> h1 x = h x"
    using dseg_set_next_last [OF ms(1,2) dm, of 0] by blast
  have lm: "last ms \<notin> set ns"
    using last_in_set [OF ms(2)] d by auto
  have ns1: "dseg h1 0 ns 0"
    by (rule dseg_move [of h], use rep in \<open>simp add: tq_rep_def\<close>, rule h1(4)) (use lm in auto)
  obtain h' where h': "splice_tail (hd ms) (last ms) (hd_or 0 ns, last_or 0 ns) h1
      = Some ((hd_or 0 (ns @ ms), last_or 0 (ns @ ms)), h')"
    "dseg h' 0 (ns @ ms) 0" "vals h' = vals h1" "\<And>x. x \<notin> set (ns @ ms) \<Longrightarrow> h' x = h1 x"
    using splice_tail_ok [OF ns1 h1(2) ms(2) d nz(1)] by blast
  let ?q = "q\<lparr>head := hd_or 0 (ns @ ms), tail := last_or 0 (ns @ ms), qlength := qlength q + int (length ms),
    qlength_stealable := qlength_stealable q + int (length ms)\<rparr>"
  have run: "qt_threadqueue_enqueue_multiple fuel q (hd ms) h = Some (?q, h')"
    using fl h1(1) h'(1) rep last m by (simp add: qt_threadqueue_enqueue_multiple_def tq_rep_def)
  have "stealable_sum h' xs = stealable_sum h xs" for xs
    using h1(3) h'(3) by (intro stealable_sum_cong) simp
  moreover have "stealable_sum h ms = int (length ms)"
    by (rule stealable_sum_run [OF ok dseg_dom [OF ms(1)] ms(3)])
  ultimately have rep': "tq_rep h' ?q (ns @ ms)"
    using rep h'(2) by (simp add: tq_rep_def)
  have va: "vals h' = vals h"
    using h1(3) h'(3) by simp
  have fr: "h' x = h x" if "x \<notin> set (ns @ ms)" for x
  proof -
    have "x \<noteq> last ms"
      using that last_in_set [OF ms(2)] by auto
    then show ?thesis
      using that h1(4) [of x] h'(4) [of x] by simp
  qed
  show ?thesis
    by (rule that [OF run rep' va fr])
qed

section \<open>Stealing between shepherds\<close>

lemma stolen_split_facts:
  assumes "stolen_split chunk got v h ns = (a, b)"
  shows "mset a + mset b = mset ns" "\<forall>x \<in> set a. can_steal h x"
proof -
  show "mset a + mset b = mset ns"
    using assms steal_list_mset [of "can_steal h" "nat (desired_stolen chunk v)" ns]
    by (auto simp: stolen_split_def split: if_splits)
  have "set a \<subseteq> set (filter (can_steal h) ns)"
    using assms steal_list_fst [of "can_steal h" "nat (desired_stolen chunk v)" ns]
    by (auto simp: stolen_split_def split: if_splits dest: in_set_takeD)
  then show "\<forall>x \<in> set a. can_steal h x"
    by auto
qed

text \<open>The surplus: the node in hand is cut off and the rest goes to the thief's queue.\<close>

lemma surplus_ok:
  assumes ok: "heap_ok h" and rep: "tq_rep h q ns" and a: "dseg h 0 (x # y # ys) 0"
    "\<forall>z \<in> set (x # y # ys). can_steal h z"
    and d: "distinct (ns @ x # y # ys)" and fuel: "length (y # ys) \<le> fuel"
  obtains h1 h2 q' h3 where "set_next x 0 h = Some h1" "set_prev y 0 h1 = Some h2"
    "qt_threadqueue_enqueue_multiple fuel q y h2 = Some (q', h3)" "tq_rep h3 q' (ns @ y # ys)"
    "vals h3 = vals h" "\<And>z. z \<notin> set (ns @ x # y # ys) \<Longrightarrow> h3 z = h z"
proof -
  have ax: "dseg h 0 [x] y" "dseg h x (y # ys) 0"
    using a(1) by (auto split: option.splits)
  obtain h1 where h1: "set_next x 0 h = Some h1" "vals h1 = vals h" "\<And>z. z \<noteq> x \<Longrightarrow> h1 z = h z"
    using dseg_set_next_last [OF ax(1), of 0] by auto
  have y1: "dseg h1 x (y # ys) 0"
    by (rule dseg_move [OF ax(2)], rule h1(3)) (use d in auto)
  obtain h2 where h2: "set_prev y 0 h1 = Some h2" "dseg h2 0 (y # ys) 0" "vals h2 = vals h1"
    "\<And>z. z \<noteq> y \<Longrightarrow> h2 z = h1 z"
    using dseg_set_prev_hd [OF y1, of 0] d by auto
  have rep2: "tq_rep h2 q ns"
  proof (subst tq_rep_cong [of ns h2 h])
    fix z
    assume "z \<in> set ns"
    then have "z \<noteq> x" "z \<noteq> y"
      using d by auto
    then show "h2 z = h z"
      using h1(3) h2(4) by simp
  qed (rule rep)
  have can: "\<forall>z \<in> set (y # ys). can_steal h2 z"
    using a(2) h1(2) h2(3) by (simp add: can_steal_def)
  have ok2: "heap_ok h2"
    using heap_ok_same [OF ok, of h2] h1(2) h2(3) by simp
  obtain q' h3 where h3: "qt_threadqueue_enqueue_multiple fuel q y h2 = Some (q', h3)"
    "tq_rep h3 q' (ns @ y # ys)" "vals h3 = vals h2" "\<And>z. z \<notin> set (ns @ y # ys) \<Longrightarrow> h3 z = h2 z"
    using enqueue_multiple_ok [OF rep2 h2(2) _ can ok2 _ fuel] d by auto
  have va: "vals h3 = vals h"
    using h1(2) h2(3) h3(3) by simp
  have fr: "h3 z = h z" if "z \<notin> set (ns @ x # y # ys)" for z
    using that h1(3) [of z] h2(4) [of z] h3(4) [of z] by simp
  show ?thesis
    by (rule that [OF h1(1) h2(1) h3(1,2) va fr])
qed

lemma holding_zero: "holding 0 s s' \<Longrightarrow> sw_inv s'"
  by (simp add: holding_def)

lemma steal_from_ok:
  assumes inv: "sw_inv s" and sh: "sh < length (queues s)" and vi: "victim < length (queues s)" "victim \<noteq> sh"
  shows "\<exists>node s'. steal_from got sh victim s = Some (node, s') \<and> holding node s s'
    \<and> stealing s' = stealing s \<and> steal_disable s' = steal_disable s"
proof -
  obtain Ls where s: "heap_ok (nodes s)" "alloc_ok (alloc s)" "length (stealing s) = length (queues s)"
    and lay: "sw_layout s Ls"
    using inv by (auto simp: sw_inv_def)
  note dis = layout_distinct [OF lay s(1)]
  have len: "sh < length Ls" "victim < length Ls"
    using lay sh vi by (simp_all add: sw_layout_def)
  let ?ns = "Ls ! victim" and ?ms = "Ls ! sh" and ?v = "queues s ! victim" and ?h = "nodes s"
  have rv: "tq_rep ?h ?v ?ns" and rs: "tq_rep ?h (queues s ! sh) ?ms"
    using lay sh vi by (simp_all add: sw_layout_def)
  have dv: "distinct ?ns" "set ?ns \<inter> set ?ms = {}" "distinct ?ms"
    using distinct_concat_nth [OF dis(1)] distinct_concat_disjoint [OF dis(1) len(2,1) vi(2)] len by auto
  obtain a b where ab: "stolen_split (steal_chunksize s) (got victim) ?v ?h ?ns = (a, b)"
    by fastforce
  note abm = stolen_split_facts [OF ab]
  have abs: "set a \<union> set b = set ?ns" "distinct (a @ b)"
    using abm(1) dv(1) by (metis set_mset_mset set_mset_union) (metis abm(1) dv(1) mset_append mset_eq_imp_distinct_iff)
  obtain v' h where h: "qt_threadqueue_dequeue_steal (steal_chunksize s) (got victim) ?v ?h = Some (hd_or 0 a, v', h)"
    "tq_rep h v' b" "dseg h 0 a 0" "vals h = vals ?h" "\<And>x. x \<notin> set ?ns \<Longrightarrow> h x = ?h x"
    using dequeue_steal_ok [OF s(1) rv dv(1) ab] by blast
  have ok: "heap_ok h" and dom: "dom h = dom ?h"
    using heap_ok_same [OF s(1) h(4)] same_dom [OF h(4)] by auto
  let ?s1 = "s\<lparr>queues := (queues s)[victim := v'], nodes := h\<rparr>"
  show ?thesis
  proof (cases a)
    case Nil
    have "sw_layout ?s1 (Ls[victim := b])"
      by (rule layout_queue [OF lay s(1) vi(1) h(2) h(5)]) (use abm(1) Nil dom in auto)
    then have "sw_inv ?s1"
      using s ok by (intro sw_invI) auto
    moreover have "steal_from got sh victim s = Some (0, ?s1)"
      using h(1) Nil by (simp add: steal_from_def)
    ultimately show ?thesis
      using h(4) by (simp add: holding_def)
  next
    case (Cons x a')
    have x: "x \<noteq> 0" "x \<in> dom h" "x \<notin> set b" "x \<notin> set ?ms" "x \<in> set ?ns"
      using no_null [OF ok dseg_dom [OF h(3)]] dseg_dom [OF h(3)] abs dv(2) Cons by auto
    have rs1: "tq_rep h (queues s ! sh) ?ms"
      using rs dv(2) h(5) by (subst tq_rep_cong [of _ h ?h]) auto
    have fin: "\<exists>s'. steal_from got sh victim s = Some (x, s') \<and> holding x s s'
        \<and> stealing s' = stealing s \<and> steal_disable s' = steal_disable s"
      if r: "tq_rep h' q' (?ms @ a')" "vals h' = vals h" "\<And>z. z \<notin> set (?ms @ a) \<Longrightarrow> h' z = h z"
        and e: "steal_from got sh victim s
          = Some (x, s\<lparr>queues := (queues s)[victim := v', sh := q'], nodes := h'\<rparr>)" for q' h'
    proof -
      let ?s' = "s\<lparr>queues := (queues s)[victim := v', sh := q'], nodes := free_node x h'\<rparr>"
      have dom': "dom h' = dom ?h"
        using same_dom [OF r(2)] dom by simp
      have rv': "tq_rep (free_node x h') v' b"
      proof (subst tq_rep_cong [of b _ h])
        fix z
        assume "z \<in> set b"
        then have "z \<noteq> x" "z \<notin> set (?ms @ a)"
          using x abs dv(2) by auto
        then show "free_node x h' z = h z"
          using r(3) by (simp add: free_node_def)
      qed (rule h(2))
      have xa: "x \<notin> set (?ms @ a')"
        using x abs(2) Cons by auto
      have rs': "tq_rep (free_node x h') q' (?ms @ a')"
        using xa by (subst tq_rep_cong [of _ _ h']) (auto simp: free_node_def r(1))
      have "sw_layout ?s' (Ls[victim := b, sh := ?ms @ a'])"
      proof (rule layout_two [OF lay s(1) len(2,1) vi(2)])
        show "nodes ?s' z = nodes s z" if "z \<in> dom ?h" "z \<notin> set ?ns" "z \<notin> set ?ms" for z
          using that r(3) [of z] h(5) [of z] abs(1) x(5) by (auto simp: free_node_def)
        show "mset b + mset (?ms @ a') + mset_set (dom ?h) = mset ?ns + mset ?ms + mset_set (dom (nodes ?s'))"
          using mset_dom_free [OF s(1), of x] x(2) dom unfolding abm(1) [symmetric] Cons
          by (simp add: dom_free dom')
      qed (use rv' rs' sh vi in \<open>auto simp: nth_list_update sw_layout_def\<close>)
      then have "sw_inv ?s'"
        using s heap_ok_free [OF heap_ok_same [OF ok r(2)]] by (intro sw_invI) auto
      then show ?thesis
        using e x(1,2) dom dom' r(2) h(4) by (simp add: holding_def)
    qed
    have ql: "nat (qlength ?v) = length ?ns" and la: "length a \<le> length ?ns"
      using rv arg_cong [OF abm(1), of size] by (simp_all add: tq_rep_def)
    show ?thesis
    proof (cases a')
      case Nil
      obtain n where n: "h x = Some n" "nnext n = 0"
        using h(3) Cons Nil by (auto split: option.splits)
      have same: "(queues s)[victim := v', sh := queues s ! sh] = (queues s)[victim := v']"
        using vi(2) by (metis list_update_id nth_list_update_neq)
      have "steal_from got sh victim s
          = Some (x, s\<lparr>queues := (queues s)[victim := v', sh := queues s ! sh], nodes := h\<rparr>)"
        using h(1) Cons n x(1) by (simp add: steal_from_def same)
      from fin [OF _ refl _ this] show ?thesis
        using rs1 Nil by auto
    next
      case (Cons y ys)
      note xy = \<open>a = x # a'\<close> [unfolded Cons]
      have d: "distinct (?ms @ x # y # ys)"
        using abs dv xy by auto
      have can: "\<forall>z \<in> set (x # y # ys). can_steal h z"
        using abm(2) h(4) xy by (simp add: can_steal_def)
      have fuel: "length (y # ys) \<le> Suc (nat (qlength ?v))"
        using la xy ql by simp
      obtain h1 h2 q' h3 where u: "set_next x 0 h = Some h1" "set_prev y 0 h1 = Some h2"
        "qt_threadqueue_enqueue_multiple (Suc (nat (qlength ?v))) (queues s ! sh) y h2 = Some (q', h3)"
        "tq_rep h3 q' (?ms @ y # ys)" "vals h3 = vals h" "\<And>z. z \<notin> set (?ms @ x # y # ys) \<Longrightarrow> h3 z = h z"
        using surplus_ok [OF ok rs1 h(3) [unfolded xy] can d fuel] by blast
      obtain n where n: "h x = Some n" "nnext n = y"
        using h(3) xy by (auto split: option.splits)
      have "y \<noteq> 0"
        using no_null [OF ok dseg_dom [OF h(3)]] xy by auto
      then have e: "steal_from got sh victim s
          = Some (x, s\<lparr>queues := (queues s)[victim := v', sh := q'], nodes := h3\<rparr>)"
        using h(1) xy n x(1) u(1,2,3) vi(2) by (simp add: steal_from_def)
      show ?thesis
        using fin [OF _ u(5) _ e] u(4,6) Cons xy by auto
    qed
  qed
qed

lemma holding_trans0: "holding 0 s s1 \<Longrightarrow> holding node s1 s2 \<Longrightarrow> holding node s s2"
  by (simp add: holding_def)

lemma steal_round_ok:
  assumes "sw_inv s" "sh < length (queues s)" "\<forall>v \<in> set vs. v < length (queues s) \<and> v \<noteq> sh"
  shows "\<exists>node s'. steal_round got sh vs s = Some (node, s') \<and> holding node s s' \<and> stealing s' = stealing s"
  using assms
proof (induction vs arbitrary: s)
  case Nil
  then show ?case
    by (simp add: holding_def)
next
  case (Cons v vs)
  let ?r = "if qlength_stealable (queues s ! v) \<noteq> 0 then steal_from got sh v s else Some (0, s)"
  obtain node s1 where s1: "?r = Some (node, s1)" "holding node s s1" "stealing s1 = stealing s"
  proof (cases "qlength_stealable (queues s ! v) = 0")
    case True
    then show ?thesis
      using that [of 0 s] Cons.prems(1) by (simp add: holding_def)
  next
    case False
    obtain node s1 where "steal_from got sh v s = Some (node, s1)" "holding node s s1"
      "stealing s1 = stealing s"
      using steal_from_ok [of s sh v got] Cons.prems by auto
    then show ?thesis
      using that False by simp
  qed
  show ?case
  proof (cases "node \<noteq> 0 \<or> 0 < qlength (queues s1 ! sh) \<or> steal_disable s1")
    case True
    then show ?thesis
      using s1 by auto
  next
    case False
    then have h0: "holding 0 s s1" "sw_inv s1" "length (queues s1) = length (queues s)"
      using s1(2) by (simp_all add: holding_def)
    obtain node' s' where s': "steal_round got sh vs s1 = Some (node', s')" "holding node' s1 s'"
      "stealing s' = stealing s1"
      using Cons.IH [OF h0(2)] Cons.prems h0(3) by auto
    then show ?thesis
      using s1 False holding_trans0 [OF h0(1) s'(2)] by simp
  qed
qed

lemma sw_inv_stealing [simp]:
  "sw_inv (s\<lparr>stealing := (stealing s)[i := x]\<rparr>) = sw_inv s"
  by (simp add: sw_inv_def sw_layout_def)

lemma qthread_steal_ok:
  assumes "sw_inv s" "sh < length (queues s)" "\<forall>v \<in> set vs. v < length (queues s) \<and> v \<noteq> sh"
  shows "\<exists>node s'. qthread_steal got sh vs s = Some (node, s') \<and> holding node s s'"
proof (cases "stealing s ! sh = 0")
  case False
  then show ?thesis
    using assms(1) by (simp add: qthread_steal_def holding_def)
next
  case True
  let ?s = "s\<lparr>stealing := (stealing s)[sh := 1]\<rparr>"
  obtain node s' where s': "steal_round got sh vs ?s = Some (node, s')" "holding node ?s s'"
    using steal_round_ok [of ?s sh vs got] assms by auto
  have inv: "sw_inv (s'\<lparr>stealing := (stealing s')[sh := 0], nodes := h\<rparr>)" if "sw_inv (s'\<lparr>nodes := h\<rparr>)" for h
    using that by (simp add: sw_inv_def sw_layout_def)
  have "holding node s (s'\<lparr>stealing := (stealing s')[sh := 0]\<rparr>)"
    using s'(2) inv by (auto simp: holding_def)
  then show ?thesis
    using s'(1) True by (simp add: qthread_steal_def)
qed

section \<open>One iteration of the scheduler loop\<close>

lemma start_node_ok:
  assumes h: "holding node s0 s" and ok: "heap_ok (nodes s0)" and sh: "sh < length (queues s0)"
  shows "\<exists>s' r. start_node tflags sh wid node s = Some (s', r) \<and> sw_inv s'
    \<and> length (queues s') = length (queues s0)
    \<and> (case r of Run t \<Rightarrow> sw_tasks s0 = add_mset t (sw_tasks s') | Again \<Rightarrow> sw_tasks s' = sw_tasks s0)"
proof (cases "node = 0")
  case True
  then show ?thesis
    using h node_tasks_same [of "nodes s" "nodes s0"] by (simp add: start_node_def holding_def sw_tasks_def)
next
  case False
  then obtain n where n: "nodes s node = Some n"
    using h by (auto simp: holding_def)
  let ?s = "s\<lparr>nodes := free_node node (nodes s)\<rparr>" and ?t = "nvalue n"
  have inv: "sw_inv ?s" and ok1: "heap_ok (nodes s)" and len: "length (queues s) = length (queues s0)"
    using h False heap_ok_same [OF ok] by (auto simp: holding_def)
  have t: "sw_tasks s0 = add_mset ?t (sw_tasks ?s)"
    using node_tasks_free [OF ok1 n] h node_tasks_same [of "nodes s" "nodes s0"]
    by (simp add: sw_tasks_def holding_def)
  let ?s2 = "?s\<lparr>stealing := (stealing ?s)[sh := 2]\<rparr>"
  obtain s3 where s3: "sw_enqueue_yielded sh ?t (tflags ?t) ?s2 = Some s3" "sw_inv s3"
    "sw_tasks s3 = add_mset ?t (sw_tasks ?s2)" "length (queues s3) = length (queues ?s2)"
    using sw_enqueue_yielded_ok [of ?s2 sh ?t "tflags ?t"] inv sh len sw_inv_stealing [of ?s] by auto
  have inv0: "sw_inv (?s\<lparr>stealing := (stealing ?s)[sh := 0]\<rparr>)"
    using inv sw_inv_stealing [of ?s] by simp
  show ?thesis
    using False n s3 inv inv0 t len by (auto simp: start_node_def Let_def sw_tasks_def)
qed

text \<open>
  The loop keeps the invariant; when it returns a thread, that thread is taken from the ready
  threads, and otherwise the ready threads are the same.
\<close>

lemma get_thread_step_ok:
  assumes inv: "sw_inv s" and sh: "sh < length (queues s)"
    and vs: "\<forall>v \<in> set sheplist. v < length (queues s) \<and> v \<noteq> sh"
  shows "\<exists>s' r. get_thread_step tflags got sh wid active sheplist s = Some (s', r)
    \<and> sw_inv s' \<and> length (queues s') = length (queues s)
    \<and> (case r of Run t \<Rightarrow> sw_tasks s = add_mset t (sw_tasks s') | Again \<Rightarrow> sw_tasks s' = sw_tasks s)"
proof -
  have ok: "heap_ok (nodes s)"
    using inv by (simp add: sw_inv_def)
  obtain n1 s1 where s1: "pick_local sh s = Some (n1, s1)" "holding n1 s s1" "stealing s1 = stealing s"
    using pick_local_ok [OF inv sh] by blast
  have len1: "length (queues s1) = length (queues s)" and t1: "sw_tasks s1 = sw_tasks s"
    using s1(2) by (auto simp: holding_def sw_tasks_def intro: node_tasks_same)
  obtain n2 s2 where s2: "steal_if_idle got sh active sheplist n1 s1 = Some (n2, s2)" "holding n2 s s2"
  proof (cases "n1 = 0 \<and> active \<and> 1 < length (queues s1) \<and> \<not> steal_disable s1")
    case True
    then have h0: "holding 0 s s1" "sw_inv s1"
      using s1(2) by (simp_all add: holding_def)
    obtain n2 s2 where "qthread_steal got sh sheplist s1 = Some (n2, s2)" "holding n2 s1 s2"
      using qthread_steal_ok [OF h0(2), of sh sheplist got] sh vs len1 by auto
    then show ?thesis
      using that True holding_trans0 [OF h0(1)] by (auto simp: steal_if_idle_def)
  next
    case False
    then have "steal_if_idle got sh active sheplist n1 s1 = Some (n1, s1)"
      by (auto simp: steal_if_idle_def)
    then show ?thesis
      using that s1(2) by blast
  qed
  show ?thesis
  proof (cases "n1 = 0 \<and> stealing s1 ! sh \<noteq> 0")
    case True
    then show ?thesis
      using s1 len1 t1 by (auto simp: get_thread_step_def holding_def)
  next
    case False
    have "get_thread_step tflags got sh wid active sheplist s = start_node tflags sh wid n2 s2"
      unfolding get_thread_step_def using s1(1) s2(1) False by auto
    then show ?thesis
      using start_node_ok [OF s2(2) ok sh] by metis
  qed
qed

end
