(* ===== verification/Sherwood_Props.thy ===== *)
theory Sherwood_Props
  imports Sherwood_Steal
begin

text \<open>
  The properties of the Sherwood scheduler, and the places where walking or emptying a queue
  goes wrong.
\<close>

section \<open>A concrete scheduler\<close>

definition fresh_ptr :: "nheap \<Rightarrow> ptr" where
  "fresh_ptr h = Suc (Max (insert 0 (dom h)))"

lemma fresh_ptr_ok: "alloc_ok fresh_ptr"
  unfolding alloc_ok_def
proof (intro allI impI conjI)
  fix h :: nheap
  assume fin: "finite (dom h)"
  show "fresh_ptr h \<noteq> 0"
    by (simp add: fresh_ptr_def)
  have "fresh_ptr h \<notin> dom h"
  proof
    assume "fresh_ptr h \<in> dom h"
    then have "fresh_ptr h \<le> Max (insert 0 (dom h))"
      using fin by (intro Max_ge) auto
    then show False
      by (simp add: fresh_ptr_def)
  qed
  then show "h (fresh_ptr h) = None"
    by auto
qed

definition sw_start :: "nat \<Rightarrow> sw_state" where
  "sw_start n = \<lparr>nodes = Map.empty, alloc = fresh_ptr, queues = replicate n qt_threadqueue_new,
     caches = replicate n (Some qt_init_local_spawncache), cur = 0, stealing = replicate n 0,
     steal_disable = False, steal_chunksize = 0\<rparr>"

lemma sw_start_inv: "sw_inv (sw_start n)" "sw_tasks (sw_start n) = {#}" "length (queues (sw_start n)) = n"
proof -
  have "sw_layout (sw_start n) (replicate (2 * n) [])"
    by (auto simp: sw_layout_def sw_start_def tq_rep_def qt_threadqueue_new_def cache_ok_def cache_rep_def
        qt_init_local_spawncache_def deck_def)
  then show "sw_inv (sw_start n)"
    using fresh_ptr_ok by (intro sw_invI) (auto simp: sw_start_def heap_ok_def vals_def)
  show "sw_tasks (sw_start n) = {#}"
    by (simp add: sw_tasks_def node_tasks_def sw_start_def vals_def dom_def)
  show "length (queues (sw_start n)) = n"
    by (simp add: sw_start_def)
qed

section \<open>Properties\<close>

text \<open>
  C16. One iteration of the loop of \<open>qt_scheduler_get_thread\<close>, including the flush of the spawn
  cache, stealing from other shepherds and the hand-over of the main thread to worker 0, never
  crashes and keeps every queue well linked with exact counters. A thread it returns was
  ready and is removed from the ready threads; otherwise no thread is lost or duplicated.
\<close>

theorem scheduler_conserves_tasks:
  assumes "sw_inv s" "sh < length (queues s)"
    and "\<forall>v \<in> set sheplist. v < length (queues s) \<and> v \<noteq> sh"
  shows "\<exists>s' r. get_thread_step tflags got sh wid active sheplist s = Some (s', r)
    \<and> sw_inv s' \<and> length (queues s') = length (queues s)
    \<and> (case r of Run t \<Rightarrow> sw_tasks s = add_mset t (sw_tasks s') | Again \<Rightarrow> sw_tasks s' = sw_tasks s)"
  by (rule get_thread_step_ok [OF assms])

theorem scheduler_conserves_tasks_witness:
  "\<exists>s' r. get_thread_step (\<lambda>_. 0) (\<lambda>_. True) 0 1 True [1] (sw_start 2) = Some (s', r) \<and> sw_inv s'"
  using scheduler_conserves_tasks [OF sw_start_inv(1) [of 2], of 0 "[1]" "\<lambda>_. 0" "\<lambda>_. True" 1 True]
  by (auto simp: sw_start_inv)

text \<open>How many threads a thief takes, in terms of the nodes of the queue.\<close>

lemma stealable_sum_count:
  "heap_ok h \<Longrightarrow> set ns \<subseteq> dom h \<Longrightarrow> stealable_sum h ns = int (length (filter (can_steal h) ns))"
proof (induction ns)
  case (Cons x ns)
  then obtain t st where "vals h x = Some (t, st)" "st = 0 \<or> st = 1"
    by (auto simp: heap_ok_def vals_def)
  then show ?case
    using Cons by (auto simp: can_steal_def)
qed simp

lemma steal_list_snd:
  "distinct xs \<Longrightarrow> snd (steal_list can k xs) = filter (\<lambda>x. x \<notin> set (take k (filter can xs))) xs"
proof (induction can k xs rule: steal_list.induct)
  case (3 can k x xs)
  have nx: "x \<notin> set (take m (filter can xs))" for m
    using 3(3) by (auto dest: in_set_takeD)
  show ?case
  proof (cases "can x")
    case True
    have "filter (\<lambda>y. y \<noteq> x \<and> y \<notin> set (take k (filter can xs))) xs
        = filter (\<lambda>y. y \<notin> set (take k (filter can xs))) xs"
      using 3(3) by (intro filter_cong) auto
    then show ?thesis
      using True 3 by (auto split: prod.splits)
  next
    case False
    then show ?thesis
      using 3 nx by (auto split: prod.splits)
  qed
qed simp_all

lemma desired_stolen_count:
  assumes "heap_ok h" "tq_rep h v ns"
  shows "nat (desired_stolen chunk v) =
    (if chunk = 0 then max 1 (length (filter (can_steal h) ns) div 2) else nat chunk)"
proof -
  have "qlength_stealable v = int (length (filter (can_steal h) ns))"
    using assms stealable_sum_count [OF assms(1) tq_rep_dom [OF assms(2)]] by (simp add: tq_rep_def)
  then show ?thesis
    by (auto simp: desired_stolen_def Let_def max_def nat_div_distrib)
qed

text \<open>
  C17. Stealing takes, from the head of the victim's queue, the first threads that may be moved:
  half of them but at least one, or as many as the configured chunk. What is left keeps its
  order and has exact counters, and the stolen nodes form a chain of their own.
\<close>

theorem steal_takes_from_head:
  assumes "heap_ok h" "tq_rep h v ns" "distinct ns"
    and can_def: "can = filter (can_steal h) ns"
    and stolen_def: "stolen = take (if chunk = 0 then max 1 (length can div 2) else nat chunk) can"
  shows "\<exists>v' h'. qt_threadqueue_dequeue_steal chunk True v h = Some (hd_or 0 stolen, v', h')
    \<and> dseg h' 0 stolen 0 \<and> tq_rep h' v' (filter (\<lambda>p. p \<notin> set stolen) ns) \<and> vals h' = vals h"
proof -
  let ?k = "nat (desired_stolen chunk v)"
  obtain a b where ab: "steal_list (can_steal h) ?k ns = (a, b)"
    by fastforce
  have k: "stolen = take ?k (filter (can_steal h) ns)"
    using desired_stolen_count [OF assms(1,2)] by (simp add: stolen_def can_def)
  have "a = stolen" "b = filter (\<lambda>p. p \<notin> set stolen) ns"
    using ab steal_list_fst [of "can_steal h" ?k ns] steal_list_snd [OF assms(3), of "can_steal h" ?k]
    by (simp_all add: k)
  moreover have "stolen_split chunk True v h ns = (a, b)"
    using ab by (simp add: stolen_split_def)
  ultimately show ?thesis
    using dequeue_steal_ok [OF assms(1-3), of chunk True a b] by blast
qed

text \<open>A queue of four threads, the first of which may not be moved.\<close>

definition four_nodes :: nheap where
  "four_nodes =
     [8 \<mapsto> \<lparr>nnext = 16, nprev = 0, stealable = 0, nvalue = 1\<rparr>,
      16 \<mapsto> \<lparr>nnext = 24, nprev = 8, stealable = 1, nvalue = 2\<rparr>,
      24 \<mapsto> \<lparr>nnext = 32, nprev = 16, stealable = 1, nvalue = 3\<rparr>,
      32 \<mapsto> \<lparr>nnext = 0, nprev = 24, stealable = 1, nvalue = 4\<rparr>]"

definition four_queue :: qt_threadqueue where
  "four_queue = qt_threadqueue_new\<lparr>head := 8, tail := 32, qlength := 4, qlength_stealable := 3\<rparr>"

lemma four_queue_ok: "heap_ok four_nodes" "tq_rep four_nodes four_queue [8, 16, 24, 32]"
  by (auto simp: heap_ok_def vals_def four_nodes_def tq_rep_def four_queue_def
      hd_or_def last_or_def split: if_splits)

theorem steal_takes_from_head_witness:
  "(\<exists>v' h'. qt_threadqueue_dequeue_steal 0 True four_queue four_nodes = Some (16, v', h')
     \<and> tq_rep h' v' [8, 24, 32])
   \<and> (\<exists>v' h'. qt_threadqueue_dequeue_steal 2 True four_queue four_nodes = Some (16, v', h')
     \<and> tq_rep h' v' [8, 32])"
proof -
  have can: "filter (can_steal four_nodes) [8, 16, 24, 32] = [16, 24, 32]"
    by (simp add: can_steal_def vals_def four_nodes_def)
  have three: "Suc (Suc (Suc 0)) div 2 = 1"
    by simp
  show ?thesis
    using steal_takes_from_head [OF four_queue_ok _ refl refl, of 0]
      steal_takes_from_head [OF four_queue_ok _ refl refl, of 2]
    unfolding can by (auto simp: three)
qed

text \<open>
  A thread that is enqueued is the next one its own shepherd takes: insertion at the tail
  followed by removal at the tail gives the thread back and leaves the queue with the nodes,
  the contents and the counters it had.
\<close>

lemma enqueue_dequeue:
  assumes "tq_rep h q ns" "heap_ok h" "alloc_ok al" "distinct ns"
  shows "\<exists>q1 h1 p q2 h2 n. qt_threadqueue_enqueue al q t fl h = Some (q1, h1)
    \<and> dequeue_tail q1 h1 = Some (p, q2, h2) \<and> h2 p = Some n \<and> nvalue n = t
    \<and> tq_rep h2 q2 ns \<and> vals (free_node p h2) = vals h"
proof -
  obtain q1 h1 where e: "qt_threadqueue_enqueue al q t fl h = Some (q1, h1)" "tq_rep h1 q1 (ns @ [al h])"
    "vals h1 = (vals h)(al h \<mapsto> (t, qt_threadqueue_isstealable fl))"
    using enqueue_ok [OF assms, of t fl] by blast
  note p = alloc_fresh [OF assms(3,2)]
  have "heap_ok h1" "distinct (ns @ [al h])"
    using heap_ok_new [OF assms(2) p(1) e(3)] tq_rep_dom [OF assms(1)] p(3) assms(4) by auto
  then obtain q2 h2 where d: "dequeue_tail q1 h1 = Some (al h, q2, h2)" "tq_rep h2 q2 ns" "vals h2 = vals h1"
    using dequeue_tail_ok [OF e(2)] by blast
  have v: "vals h2 (al h) = Some (t, qt_threadqueue_isstealable fl)"
    using d(3) e(3) by simp
  then obtain n where "h2 (al h) = Some n" "nvalue n = t"
    by (auto simp: vals_def)
  moreover have "vals (free_node (al h) h2) = vals h"
    using d(3) e(3) p(2) vals_None [of h "al h"] by (auto simp: fun_eq_iff)
  ultimately show ?thesis
    using e(1) d by blast
qed

section \<open>Emptying, filtering and yielding\<close>

lemma free_loop_stops:
  "dseg h 0 (x # xs) 0 \<Longrightarrow> distinct (x # xs) \<Longrightarrow> 0 \<notin> set (x # xs) \<Longrightarrow> head q = x
   \<Longrightarrow> tail q = last_or x xs \<Longrightarrow> length xs < fuel
   \<Longrightarrow> \<exists>ts q' h'. free_loop fuel q h = Some (ts, q', h') \<and> head q' = x"
proof (induction xs arbitrary: h q fuel rule: rev_induct)
  case Nil
  then show ?case
    by (cases fuel) auto
next
  case (snoc y ys)
  obtain f where f: "fuel = Suc f" "length ys < f"
    using snoc.prems(6) by (cases fuel) auto
  obtain n where n: "h y = Some n" "nprev n = last_or x ys"
    using snoc.prems(1) by (auto split: option.splits)
  have chain: "dseg h 0 (x # ys) y" and d: "distinct (x # ys)" and y: "y \<noteq> x" "y \<noteq> 0" "y \<notin> set (x # ys)"
    using snoc.prems(1,2,3) by (auto split: option.splits)
  obtain h1 where h1: "set_next (last (x # ys)) 0 h = Some h1" "dseg h1 0 (x # ys) 0"
    using dseg_set_next_last [OF chain _ d, of 0] by auto
  have last: "last (x # ys) = last_or x ys" "last_or x ys \<in> set (x # ys)"
    using last_in_set [of "x # ys"] by (auto simp: last_or_def)
  then have nz: "last_or x ys \<noteq> 0"
    using snoc.prems(3) by (metis append_Cons in_set_conv_decomp_first list.set_intros(1) UnI1 set_append)
  let ?q = "q\<lparr>tail := last_or x ys\<rparr>"
  have "dseg (free_node y h1) 0 (x # ys) 0"
    using h1(2) y(3) by (subst dseg_cong [of _ _ h1]) (auto simp: free_node_def)
  then obtain ts q' h' where r: "free_loop f ?q (free_node y h1) = Some (ts, q', h')" "head q' = x"
    using snoc.IH [of "free_node y h1" ?q f] d snoc.prems f by auto
  have "free_loop fuel q h = Some (nvalue n # ts, q', h')"
    using f(1) snoc.prems(4,5) y n nz h1(1) last(1) r(1) by simp
  then show ?case
    using r(2) by blast
qed

text \<open>
  \<open>qt_threadqueue_free\<close> cannot free a queue that holds two or more threads: its loop stops
  when head and tail meet at the last node, and the assertion that the queue is empty fails.
\<close>

lemma free_of_two_crashes:
  assumes "tq_rep h q ns" "heap_ok h" "distinct ns" "2 \<le> length ns"
  shows "qt_threadqueue_free q h = None"
proof -
  obtain x y ys where ns: "ns = x # y # ys"
    using assms(4) by (cases ns; cases "tl ns") auto
  have nz: "0 \<notin> set ns"
    by (rule no_null [OF assms(2) tq_rep_dom [OF assms(1)]])
  have q: "dseg h 0 (x # y # ys) 0" "head q = x" "tail q = last_or x (y # ys)" "nat (qlength q) = length ns"
    using assms(1) unfolding ns tq_rep_def by simp_all
  have "last_or x (y # ys) \<in> set (y # ys)"
    by (simp add: last_or_def)
  then have ne: "head q \<noteq> tail q"
    using q assms(3) unfolding ns by auto
  obtain ts q' h' where "free_loop (Suc (nat (qlength q))) q h = Some (ts, q', h')" "head q' = x"
    using free_loop_stops [OF q(1) _ _ q(2,3), of "Suc (nat (qlength q))"] assms(3) nz q(4) unfolding ns by auto
  then show ?thesis
    using ne nz ns by (simp add: qt_threadqueue_free_def del: free_loop.simps)
qed

definition three_spawned :: "(qt_threadqueue_private \<times> nheap) option" where
  "three_spawned = do {
     (c, h) \<leftarrow> qt_threadqueue_private_enqueue fresh_ptr qt_init_local_spawncache 1 0 Map.empty;
     (c, h) \<leftarrow> qt_threadqueue_private_enqueue fresh_ptr c 2 0 h;
     qt_threadqueue_private_enqueue fresh_ptr c 3 0 h }"

lemmas cache_ops = qt_threadqueue_private_enqueue_def qt_threadqueue_private_dequeue_def
  qt_threadqueue_private_enqueue_yielded_def private_asserts_def assert_first_def assert_last_def
  splice_tail_def push_head_def set_next_def set_prev_def free_node_def fresh_ptr_def
  qt_init_local_spawncache_def qt_threadqueue_isstealable_def Let_def

text \<open>
  After three threads have been spawned, taking one back with
  \<open>qt_threadqueue_private_dequeue\<close> (as a direct yield does) succeeds, but leaves the new tail
  of the cache pointing to a node that is no longer in it: the next spawn fails the
  assertion on the tail.
\<close>

lemma spawn_after_direct_yield_crashes:
  "\<exists>c h c' h'. three_spawned = Some (c, h)
     \<and> qt_threadqueue_private_dequeue c h = Some (Some 3, c', h')
     \<and> qt_threadqueue_private_enqueue fresh_ptr c' 4 0 h' = None"
  unfolding three_spawned_def by (simp add: cache_ops)

definition two_queued :: "(qt_threadqueue \<times> nheap) option" where
  "two_queued = do {
     (q, h) \<leftarrow> qt_threadqueue_enqueue fresh_ptr qt_threadqueue_new 1 0 Map.empty;
     qt_threadqueue_enqueue fresh_ptr q 2 0 h }"

lemmas filter_ops = qt_threadqueue_enqueue_def qt_threadqueue_new_def qt_threadqueue_filter_def
  find_lp_def filter_remove_def store_lp_def store_rp_def cache_ops

text \<open>
  \<open>qt_threadqueue_filter\<close> works when the filter removes the thread at the tail of a queue
  of two, but dereferences \<open>NULL\<close> when it removes the thread at the head and keeps the other.
\<close>

lemma filter_removing_head_crashes:
  "\<exists>q h. two_queued = Some (q, h)
     \<and> qt_threadqueue_filter q (\<lambda>t. if t = 2 then REMOVE_AND_CONTINUE else IGNORE_AND_CONTINUE) h \<noteq> None
     \<and> qt_threadqueue_filter q (\<lambda>t. if t = 1 then REMOVE_AND_CONTINUE else IGNORE_AND_CONTINUE) h = None"
  unfolding two_queued_def by (simp add: filter_ops eval_nat_numeral)

text \<open>
  A thread that yields to its neighbours while its worker's cache is empty is put in the
  list of the cache but not on deck. The scheduler does not look there: it finds no work
  although the thread is ready.
\<close>

lemma yield_near_hides_thread:
  "\<exists>s. qt_spawncache_yield t 0 (sw_start 1) = Some (s, True) \<and> sw_tasks s = {#t#}
     \<and> (\<exists>s'. pick_local 0 s = Some (0, s'))"
proof -
  let ?n = "\<lparr>nnext = 0, nprev = 0, stealable = 1, nvalue = t\<rparr>"
  let ?c = "\<lparr>chead = 1, ctail = 1, on_deck = 0, cqlength = 1, cqlength_stealable = 1\<rparr>"
  let ?s = "set_cache ?c [1 \<mapsto> ?n] (sw_start 1)"
  have y: "qt_spawncache_yield t 0 (sw_start 1) = Some (?s, True)"
    by (simp add: qt_spawncache_yield_def qt_spawncache_get_def sw_start_def cache_ops)
  have v: "vals [1 \<mapsto> ?n] = [1 \<mapsto> (t, 1)]"
    by (simp add: vals_new) (simp add: vals_def fun_eq_iff)
  have "node_tasks [1 \<mapsto> ?n] = {#t#}"
    unfolding node_tasks_def v by simp
  then have "sw_tasks ?s = {#t#}"
    by (simp add: sw_tasks_def set_cache_def)
  moreover have "\<exists>s'. pick_local 0 ?s = Some (0, s')"
    by (simp add: pick_local_def qt_spawncache_get_def sw_start_def set_cache_def dequeue_tail_def
        qt_threadqueue_new_def)
  ultimately show ?thesis
    using y by blast
qed

end
