(* ===== verification/Feb_Props.thy ===== *)
theory Feb_Props
  imports Feb_Refine Hashmap_Props Sherwood_Props
begin

text \<open>
  The properties of the full/empty bits, with the Sherwood scheduler as the provider of the
  ready queues.
\<close>

text \<open>The refinement proved over the laws of the ready queues, for the Sherwood scheduler.\<close>

lemmas sherwood_feb_refines = ready_queues.feb_refines [OF sherwood.ready_queues_axioms]

section \<open>Starting up, and runs\<close>

lemma init_lookup: "globals_wf g \<Longrightarrow> feb_lookup (qt_feb_subsystem_init g sync mm th q) a = None"
  using choose_stripe_less [of a]
  by (simp add: feb_lookup_def qt_feb_subsystem_init_def qt_hash_create_ok(2))

lemma init_inv:
  assumes "globals_wf g" "qinv q" "\<forall>t. thread_ok (nsheps q) (th t)"
  shows "feb_inv qinv nsheps (qt_feb_subsystem_init g sync mm th q)"
proof -
  let ?s = "qt_feb_subsystem_init g sync mm th q"
  have "stripes_ok ?s"
    using assms(1) qt_hash_create_ok [OF assms(1)] by (simp add: stripes_ok_def qt_feb_subsystem_init_def)
  moreover have "records_ok ?s"
  proof -
    have "stats ?s = Map.empty"
      by (simp add: qt_feb_subsystem_init_def)
    moreover have "feb_lookup ?s a = None" for a
      by (rule init_lookup [OF assms(1)])
    ultimately show ?thesis
      unfolding records_ok_def by simp
  qed
  ultimately show ?thesis
    using assms(2,3)
    by (simp add: feb_inv_def tables_ok_def sched_ok_def) (simp add: qt_feb_subsystem_init_def)
qed

lemma init_small:
  assumes "globals_wf g" "min_entries g \<le> 2 ^ 60"
  shows "feb_small (qt_feb_subsystem_init g sync mm th q)"
  using assms qt_hash_create_ok(3) [OF assms(1)]
  by (simp add: feb_small_def qt_feb_subsystem_init_def table_small_def)

text \<open>A concrete start: one shepherd, zeroed memory, and threads that run on shepherd 0.\<close>

definition idle_thread :: qthread where
  "idle_thread = \<lparr>thread_state = RUNNING, flags = 0, target_shepherd = None, shepherd_ptr = 0,
     preconds = None, blockedon = 0, tret = 0\<rparr>"

definition feb_start :: "sw_state feb_state" where
  "feb_start = qt_feb_subsystem_init amd64_globals True (\<lambda>a. a + 1) (\<lambda>_. idle_thread) (sw_start 1)"

lemma feb_start_ok:
  "feb_inv sw_inv sw_nsheps feb_start" "feb_small feb_start" "feb_view feb_start a = qthread_addrstat_new"
  "fresh 1 feb_start" "mem feb_start = (\<lambda>a. a + 1)"
proof -
  show "feb_inv sw_inv sw_nsheps feb_start"
    unfolding feb_start_def using sw_start_inv [of 1]
    by (intro init_inv amd64_globals_wf) (simp_all add: thread_ok_def idle_thread_def sw_nsheps_def)
  have "min_entries amd64_globals = 512"
    by (simp add: amd64_globals_def qt_hash_initialize_subsystem_def min_entries_def)
  then show "feb_small feb_start"
    unfolding feb_start_def by (intro init_small amd64_globals_wf) simp
  show "feb_view feb_start a = qthread_addrstat_new"
    unfolding feb_start_def by (rule view_unbound) (rule init_lookup [OF amd64_globals_wf])
  show "fresh 1 feb_start" "mem feb_start = (\<lambda>a. a + 1)"
    by (simp_all add: feb_start_def fresh_def qt_feb_subsystem_init_def)
qed

lemma good_4096: "good_addr 4096" "good_addr 8192"
  by (simp_all add: good_addr_def QALIGN_def)

text \<open>
  A run: running threads perform operations, and workers take ready threads. \<open>R\<close> is the
  multiset of the running threads.
\<close>

inductive feb_run :: "sw_state feb_state \<Rightarrow> tid multiset \<Rightarrow> sw_state feb_state \<Rightarrow> tid multiset \<Rightarrow> bool"
  for s0 R0 where
  start: "feb_run s0 R0 s0 R0"
| call: "feb_run s0 R0 s R \<Longrightarrow> me \<in># R \<Longrightarrow> feb_small s \<Longrightarrow> good_addr (op_word ty a b) \<Longrightarrow> fresh newp s
    \<Longrightarrow> qthread_feb_blocker_thread sw_ops me newp True ty a b s = Some (s', out)
    \<Longrightarrow> feb_run s0 R0 s' (if out = Blocked then R - {#me#} else R)"
| dispatch: "feb_run s0 R0 s R \<Longrightarrow> sh < sw_nsheps (ready s)
    \<Longrightarrow> \<forall>v \<in> set sheplist. v < sw_nsheps (ready s) \<and> v \<noteq> sh
    \<Longrightarrow> get_thread_step tflags got sh wid active sheplist (ready s) = Some (q, r)
    \<Longrightarrow> feb_run s0 R0 (s\<lparr>ready := q\<rparr>) (case r of Run t \<Rightarrow> add_mset t R | Again \<Rightarrow> R)"

lemma call_step:
  assumes "feb_inv sw_inv sw_nsheps s" "feb_small s" "good_addr (op_word ty a b)" "fresh newp s"
    and "qthread_feb_blocker_thread sw_ops me newp True ty a b s = Some (s', out)"
  shows "feb_inv sw_inv sw_nsheps s'"
    "accounted sw_tasks s' = accounted sw_tasks s + (if out = Blocked then {#me#} else {#})"
  using sherwood_feb_refines [OF assms(1-4), of me] assms(5)
  by (auto simp: step_ok_def implements_def)

lemma dispatch_step:
  assumes "feb_inv sw_inv sw_nsheps s" "sh < sw_nsheps (ready s)"
    "\<forall>v \<in> set sheplist. v < sw_nsheps (ready s) \<and> v \<noteq> sh"
    "get_thread_step tflags got sh wid active sheplist (ready s) = Some (q, r)"
  shows "feb_inv sw_inv sw_nsheps (s\<lparr>ready := q\<rparr>)"
    "case r of Run t \<Rightarrow> accounted sw_tasks s = add_mset t (accounted sw_tasks (s\<lparr>ready := q\<rparr>))
     | Again \<Rightarrow> accounted sw_tasks (s\<lparr>ready := q\<rparr>) = accounted sw_tasks s"
proof -
  have q: "sw_inv (ready s)"
    using assms(1) by (simp add: feb_inv_def sched_ok_def)
  have g: "sw_inv q" "sw_nsheps q = sw_nsheps (ready s)"
    "case r of Run t \<Rightarrow> sw_tasks (ready s) = add_mset t (sw_tasks q) | Again \<Rightarrow> sw_tasks q = sw_tasks (ready s)"
    using get_thread_step_ok [OF q, of sh sheplist tflags got wid active] assms(2-4)
    by (auto simp: sw_nsheps_def)
  note t = tabs_cong [of "s\<lparr>ready := q\<rparr>" s, simplified]
  show "feb_inv sw_inv sw_nsheps (s\<lparr>ready := q\<rparr>)"
    using assms(1) g by (simp add: feb_inv_def sched_ok_def t)
  show "case r of Run t \<Rightarrow> accounted sw_tasks s = add_mset t (accounted sw_tasks (s\<lparr>ready := q\<rparr>))
     | Again \<Rightarrow> accounted sw_tasks (s\<lparr>ready := q\<rparr>) = accounted sw_tasks s"
    using g(3) by (cases r) (simp_all add: accounted_def t)
qed

section \<open>Properties\<close>

text \<open>
  C1. Every full/empty-bit operation, executed on the hash tables, records, waiter queues and
  ready queues of the library, implements its atomic specification on words and memory: it
  terminates without crashing, returns the specified outcome, keeps the invariant, and leaves
  the words and the memory as specified, up to tasks that were waiting for their
  preconditions. No waiting or ready thread is lost or duplicated, and a caller that blocks
  is recorded as waiting.
\<close>

theorem feb_operations_refine_spec:
  assumes "feb_inv sw_inv sw_nsheps s" "feb_small s" "good_addr (op_word ty a b)" "fresh newp s"
  shows "step_ok sw_inv sw_tasks sw_nsheps (waiting_tasks s (op_word ty a b)) me s
    (feb_spec ty me a b (feb_view s, mem s)) (qthread_feb_blocker_thread sw_ops me newp True ty a b s)"
  by (rule sherwood_feb_refines [OF assms])

theorem feb_operations_refine_spec_witness:
  "\<exists>s'. qthread_feb_blocker_thread sw_ops 5 1 True WRITEEF 4096 8192 feb_start = Some (s', Blocked)
     \<and> feb_inv sw_inv sw_nsheps s' \<and> accounted sw_tasks s' = accounted sw_tasks feb_start + {#5#}"
proof -
  have "good_addr (op_word WRITEEF 4096 8192)"
    by (simp add: op_word_def good_4096)
  from feb_operations_refine_spec [OF feb_start_ok(1,2) this feb_start_ok(4), of 5] show ?thesis
    by (simp add: step_ok_def implements_def feb_spec_def feb_start_ok(3) qthread_addrstat_new_def)
      (metis)
qed

text \<open>
  C2. In every run, whatever the interleaving of operations by running threads and of
  dispatches by workers, the invariant holds and every thread is accounted for exactly
  once: the running threads together with those in a ready queue, in a cache, or waiting on a
  word are those of the start. In particular no wake-up is lost.
\<close>

theorem no_thread_is_lost:
  assumes "feb_run s0 R0 s R" "feb_inv sw_inv sw_nsheps s0"
  shows "feb_inv sw_inv sw_nsheps s \<and> accounted sw_tasks s + R = accounted sw_tasks s0 + R0"
  using assms
proof induction
  case (call s R me ty a b newp s' out)
  have inv: "feb_inv sw_inv sw_nsheps s" and acc: "accounted sw_tasks s + R = accounted sw_tasks s0 + R0"
    using call by simp_all
  note c = call_step [OF inv call.hyps(3,4,5,6)]
  have "accounted sw_tasks s' + (if out = Blocked then R - {#me#} else R) = accounted sw_tasks s + R"
    using c(2) call.hyps(2) by (auto simp: insert_DiffM)
  then show ?case
    using c(1) acc by simp
next
  case (dispatch s R sh sheplist tflags got wid active q r)
  then show ?case
    using dispatch_step [of s sh sheplist tflags got wid active q r]
    by (cases r) auto
qed simp

theorem no_thread_is_lost_witness:
  "\<exists>s. feb_run feb_start {#5#} s {#} \<and> feb_inv sw_inv sw_nsheps s \<and> accounted sw_tasks s = {#5#}"
proof -
  have w: "good_addr (op_word WRITEEF 4096 8192)"
    by (simp add: op_word_def good_4096)
  obtain s where s: "qthread_feb_blocker_thread sw_ops 5 1 True WRITEEF 4096 8192 feb_start = Some (s, Blocked)"
    using sherwood_feb_refines [OF feb_start_ok(1,2) w feb_start_ok(4), of 5]
    by (auto simp: step_ok_def feb_spec_def feb_start_ok(3) qthread_addrstat_new_def)
  have run: "feb_run feb_start {#5#} s {#}"
    using feb_run.call [OF feb_run.start [of feb_start "{#5#}"] _ feb_start_ok(2) w feb_start_ok(4) s] by simp
  have "accounted sw_tasks feb_start = {#}"
    using sw_start_inv(2) [of 1]
    by (simp add: accounted_def all_waiters_def feb_start_def qt_feb_subsystem_init_def)
  then show ?thesis
    using run no_thread_is_lost [OF run feb_start_ok(1)] by auto
qed

end
