(* ===== verification/Syncvar_Props.thy ===== *)
theory Syncvar_Props
  imports Syncvar_Refine Feb_Props
begin

text \<open>
  The properties of the syncvars, with the Sherwood scheduler as the provider of the ready
  queues.
\<close>

lemmas sherwood_sv_refines = ready_queues.sv_refines [OF sherwood.ready_queues_axioms]

section \<open>Starting up, and runs\<close>

lemma init_rec_lookup:
  assumes "globals_wf g"
  shows "rec_lookup QTHREAD_CHOOSE_STRIPE (store (qt_syncvar_subsystem_init g sync mm th q)) a = None"
  using syncvar_records.stripe_less [of a]
  by (simp add: rec_lookup_def qt_syncvar_subsystem_init_def qt_hash_create_ok(2) [OF assms])

lemma sv_init_inv:
  assumes g: "globals_wf g" and q: "qinv q" "\<forall>t. thread_ok (nsheps q) (th t)"
    and V: "\<forall>a \<in> V. good_addr a \<and> \<not> bit (mm a) 0 \<and> \<not> bit (mm a) 1 \<and> \<not> bit (mm a) 3"
  shows "sv_inv qinv nsheps V (qt_syncvar_subsystem_init g sync mm th q)"
proof -
  let ?s = "qt_syncvar_subsystem_init g sync mm th q"
  have look: "rec_lookup QTHREAD_CHOOSE_STRIPE (store ?s) = Map.empty"
    using init_rec_lookup [OF g] by (rule ext)
  have "rec_tables_ok QTHREAD_CHOOSE_STRIPE (store ?s)"
    using g qt_hash_create_ok [OF g] by (simp add: rec_tables_ok_def qt_syncvar_subsystem_init_def)
  then have "rec_store_ok QTHREAD_CHOOSE_STRIPE (store ?s)"
    unfolding rec_store_ok_def look by (simp add: qt_syncvar_subsystem_init_def)
  moreover have "sv_recs ?s a = None" for a
    unfolding rec_view_def look by simp
  ultimately show ?thesis
    using q V by (simp add: sv_inv_def sv_sched_def entry_ok_def) (simp add: qt_syncvar_subsystem_init_def)
qed

text \<open>A concrete start: one shepherd, and one syncvar, at 4096, that is full and holds 0.\<close>

definition sv_start :: "sw_state sv_state" where
  "sv_start = qt_syncvar_subsystem_init amd64_globals True (\<lambda>a. if a = 4096 then 0 else 7)
     (\<lambda>_. idle_thread) (sw_start 1)"

lemma sv_start_ok:
  "sv_inv sw_inv sw_nsheps {4096} sv_start" "sv_small sv_start" "recs (store sv_start) 1 = None"
  "sv_view sv_start 4096 = \<lparr>vfull = True, vdata = 0, vEFQ = [], vFEQ = [], vFFQ = []\<rparr>"
  "smem sv_start = (\<lambda>a. if a = 4096 then 0 else 7)" "sv_accounted sw_tasks sv_start = {#}"
proof -
  show "sv_inv sw_inv sw_nsheps {4096} sv_start"
    unfolding sv_start_def using sw_start_inv [of 1]
    by (intro sv_init_inv amd64_globals_wf)
      (simp_all add: thread_ok_def idle_thread_def sw_nsheps_def good_4096)
  have "min_entries amd64_globals = 512"
    by (simp add: amd64_globals_def qt_hash_initialize_subsystem_def min_entries_def)
  then show "sv_small sv_start"
    using qt_hash_create_ok(3) [OF amd64_globals_wf]
    by (simp add: sv_small_def rec_small_def sv_start_def qt_syncvar_subsystem_init_def table_small_def)
  show "recs (store sv_start) 1 = None" "smem sv_start = (\<lambda>a. if a = 4096 then 0 else 7)"
    by (simp_all add: sv_start_def qt_syncvar_subsystem_init_def)
  have r: "sv_recs sv_start a = None" for a
    unfolding sv_start_def rec_view_def by (simp add: init_rec_lookup [OF amd64_globals_wf])
  then show "sv_view sv_start 4096 = \<lparr>vfull = True, vdata = 0, vEFQ = [], vFEQ = [], vFFQ = []\<rparr>"
    by (simp add: sv_view_def svar_of_def sv_data_def) (simp add: sv_start_def qt_syncvar_subsystem_init_def sv_data_def)
  have "map_waiters (sv_recs sv_start) = {#}"
    using r by (simp add: map_waiters_def dom_def)
  then show "sv_accounted sw_tasks sv_start = {#}"
    using sw_start_inv(2) [of 1]
    by (simp add: sv_accounted_def) (simp add: sv_start_def qt_syncvar_subsystem_init_def)
qed

text \<open>The same with the syncvar empty.\<close>

definition sv_start_empty :: "sw_state sv_state" where
  "sv_start_empty = set_word 4096 4 sv_start"

lemma sv_start_empty_ok:
  "sv_inv sw_inv sw_nsheps {4096} sv_start_empty" "sv_small sv_start_empty" "recs (store sv_start_empty) 1 = None"
  "sv_view sv_start_empty 4096 = \<lparr>vfull = False, vdata = 0, vEFQ = [], vFEQ = [], vFFQ = []\<rparr>"
  "smem sv_start_empty = (\<lambda>a. if a = 4096 then 4 else 7)"
proof -
  have r: "sv_recs sv_start 4096 = None"
    using sv_start_ok(4) view_entry(2,3) [OF sv_start_ok(1), of 4096]
    by (cases "sv_recs sv_start 4096") (auto simp: no_waiters_def)
  show "sv_inv sw_inv sw_nsheps {4096} sv_start_empty" "sv_small sv_start_empty"
    using sv_start_ok(1,2) r
    by (auto simp: sv_start_empty_def sv_inv_def sv_sched_def entry_ok_def sv_small_def)
  show "sv_view sv_start_empty 4096 = \<lparr>vfull = False, vdata = 0, vEFQ = [], vFEQ = [], vFFQ = []\<rparr>"
    using r by (simp add: sv_start_empty_def sv_view_def svar_of_def sv_data_def)
  show "recs (store sv_start_empty) 1 = None" "smem sv_start_empty = (\<lambda>a. if a = 4096 then 4 else 7)"
    by (auto simp: sv_start_empty_def sv_start_ok(3,5))
qed

text \<open>
  A run: running threads perform operations, or the second part of one whose first attempt
  timed out, and workers take ready threads. \<open>R\<close> is the multiset of the running threads.
\<close>

inductive sv_run :: "u64 set \<Rightarrow> sw_state sv_state \<Rightarrow> tid multiset \<Rightarrow> sw_state sv_state \<Rightarrow> tid multiset \<Rightarrow> bool"
  for V s0 R0 where
  start: "sv_run V s0 R0 s0 R0"
| call: "sv_run V s0 R0 s R \<Longrightarrow> me \<in># R \<Longrightarrow> sv_small s \<Longrightarrow> sv_call_ok V ty retp a b s
    \<Longrightarrow> newp \<noteq> 0 \<Longrightarrow> recs (store s) newp = None
    \<Longrightarrow> r \<in> {qthread_syncvar_blocker_thread sw_ops me newp retp ty a b s} \<union>
          (case ty of SV_READFF \<Rightarrow> {readFF_wait me newp a b s} | SV_READFE \<Rightarrow> {readFE_wait sw_ops me newp retp a b s}
           | SV_WRITEEF \<Rightarrow> {writeEF_wait sw_ops me newp a b s} | _ \<Rightarrow> {})
    \<Longrightarrow> r = Some (s', out)
    \<Longrightarrow> sv_run V s0 R0 s' (if out = SvBlocked then R - {#me#} else R)"
| dispatch: "sv_run V s0 R0 s R \<Longrightarrow> sh < sw_nsheps (sready s)
    \<Longrightarrow> \<forall>v \<in> set sheplist. v < sw_nsheps (sready s) \<and> v \<noteq> sh
    \<Longrightarrow> get_thread_step tflags got sh wid active sheplist (sready s) = Some (q, r)
    \<Longrightarrow> sv_run V s0 R0 (s\<lparr>sready := q\<rparr>) (case r of Run t \<Rightarrow> add_mset t R | Again \<Rightarrow> R)"

lemma sv_call_refines:
  assumes "sv_inv sw_inv sw_nsheps V s" "sv_small s" "sv_call_ok V ty retp a b s" "newp \<noteq> 0"
    "recs (store s) newp = None"
    "r \<in> {qthread_syncvar_blocker_thread sw_ops me newp retp ty a b s} \<union>
       (case ty of SV_READFF \<Rightarrow> {readFF_wait me newp a b s} | SV_READFE \<Rightarrow> {readFE_wait sw_ops me newp retp a b s}
        | SV_WRITEEF \<Rightarrow> {writeEF_wait sw_ops me newp a b s} | _ \<Rightarrow> {})"
  shows "sv_step sw_inv sw_tasks sw_nsheps V me s (sv_spec ty me retp a b (sv_view s, smem s)) r"
  using assms sherwood_sv_refines [OF assms(1-5), of me]
    readFF_wait_ok [OF assms(1,2) _ assms(4,5), of b a sw_tasks me retp]
    ready_queues.readFE_wait_ok [OF sherwood.ready_queues_axioms assms(1,2) _ assms(4,5), of b a retp me]
    ready_queues.writeEF_wait_ok [OF sherwood.ready_queues_axioms assms(1,2) _ assms(4,5), of a b me retp]
  by (cases ty) (auto simp: sv_call_ok_def sv_word_def)

lemma sv_dispatch_step:
  assumes "sv_inv sw_inv sw_nsheps V s" "sh < sw_nsheps (sready s)"
    "\<forall>v \<in> set sheplist. v < sw_nsheps (sready s) \<and> v \<noteq> sh"
    "get_thread_step tflags got sh wid active sheplist (sready s) = Some (q, r)"
  shows "sv_inv sw_inv sw_nsheps V (s\<lparr>sready := q\<rparr>)"
    "case r of Run t \<Rightarrow> sv_accounted sw_tasks s = add_mset t (sv_accounted sw_tasks (s\<lparr>sready := q\<rparr>))
     | Again \<Rightarrow> sv_accounted sw_tasks (s\<lparr>sready := q\<rparr>) = sv_accounted sw_tasks s"
proof -
  have q: "sw_inv (sready s)"
    using assms(1) by (simp add: sv_inv_def sv_sched_def)
  have g: "sw_inv q" "sw_nsheps q = sw_nsheps (sready s)"
    "case r of Run t \<Rightarrow> sw_tasks (sready s) = add_mset t (sw_tasks q) | Again \<Rightarrow> sw_tasks q = sw_tasks (sready s)"
    using get_thread_step_ok [OF q, of sh sheplist tflags got wid active] assms(2-4)
    by (auto simp: sw_nsheps_def)
  show "sv_inv sw_inv sw_nsheps V (s\<lparr>sready := q\<rparr>)"
    using assms(1) g by (simp add: sv_inv_def sv_sched_def)
  show "case r of Run t \<Rightarrow> sv_accounted sw_tasks s = add_mset t (sv_accounted sw_tasks (s\<lparr>sready := q\<rparr>))
     | Again \<Rightarrow> sv_accounted sw_tasks (s\<lparr>sready := q\<rparr>) = sv_accounted sw_tasks s"
    using g(3) by (cases r) (simp_all add: sv_accounted_def)
qed

text \<open>
  \<open>qthread_syncvar_incrF\<close> on an empty variable for which a taking reader waits fails an
  assertion: the assertions on the queues have the roles of \<open>FEQ\<close> and \<open>EFQ\<close> exchanged.
\<close>

lemma incrF_with_taking_reader_crashes:
  assumes "sv_inv qinv nsheps V s" "a \<in> V" "\<not> vfull (sv_view s a)" "vFEQ (sv_view s a) \<noteq> []"
  shows "qthread_syncvar_incrF ops (Some me) incp a inc s = None"
proof -
  note i = sv_invD(1) [OF assms(1)] sv_invD(6) [OF assms(1,2)]
  obtain m where m: "sv_recs s a = Some m" "FEQ m \<noteq> []"
    using view_entry(1,2) [OF assms(1,2)] assms(4) by (cases "sv_recs s a") auto
  obtain p where p: "recs (store s) p = Some m" "p \<noteq> 0" "sv_get a s = Some p"
    by (rule record_of [OF assms(1,2) m(1)])
  show ?thesis
    using mwaitc_entry(1) [OF assms(1,2), of INT_MAX] i assms(3) m p
    by (simp add: qthread_syncvar_incrF_def timeouts_pos fill_waiters_def incrF_queues_ok_def
        sv_get_cong [of "set_word a (smem s a OR 1) s" s])
qed

lemma blocker_incrF_crashes:
  assumes "sv_inv qinv nsheps V s" "a \<in> V" "vFEQ (sv_view s a) \<noteq> []"
  shows "qthread_syncvar_blocker_thread ops me newp retp SV_INCR a b s = None"
proof -
  have "\<not> vfull (sv_view s a)"
    using view_entry(1,2,4) [OF assms(1,2)] assms(3) by (cases "sv_recs s a") auto
  then show ?thesis
    using incrF_with_taking_reader_crashes [OF assms(1,2) _ assms(3)]
    by (simp add: qthread_syncvar_blocker_thread_def)
qed

text \<open>
  \<open>qthread_syncvar_incrF\<close> on an empty variable without waiters leaves it empty, unlike
  \<open>writeF\<close>: the state bits are written back as they were.
\<close>

lemma incrF_leaves_empty:
  assumes "sv_inv sw_inv sw_nsheps V s" "sv_small s" "a \<in> V" "b \<notin> V" "newp \<noteq> 0" "recs (store s) newp = None"
    and "sv_view s a = \<lparr>vfull = False, vdata = d, vEFQ = [], vFEQ = [], vFFQ = []\<rparr>"
  shows "\<exists>s'. qthread_syncvar_blocker_thread sw_ops me newp retp SV_INCR a b s = Some (s', SvRet (uint (d + smem s b)))
    \<and> sv_view s' a = \<lparr>vfull = False, vdata = take_bit 60 (d + smem s b), vEFQ = [], vFEQ = [], vFFQ = []\<rparr>"
proof -
  have "sv_call_ok V SV_INCR retp a b s"
    using assms by (simp add: sv_call_ok_def sv_word_def)
  from sherwood_sv_refines [OF assms(1,2) this assms(5,6), of me] show ?thesis
    using assms(3,7) by (auto simp: sv_step_def sv_spec_def Let_def)
qed

section \<open>Properties\<close>

text \<open>
  C5. A syncvar operation that is called as \<open>sv_call_ok\<close> demands (its variable is a syncvar,
  its data are elsewhere, a written value fits in 60 bits; not \<open>writeF\<close> on a variable with
  queued writers, see below; not \<open>incrF\<close> on one with waiting taking readers), executed on the
  locked word, the striped tables, the waiter queues and the ready queues of the Sherwood
  scheduler, implements its atomic specification on variables and memory: it does not crash,
  it returns the specified outcome, it leaves the lock bit free and the state bits in
  agreement with the queues, it delivers the value to exactly the specified readers, and no
  waiting or ready thread is lost or duplicated. The specification of \<open>incrF\<close> is what the
  code does: it fills an empty variable only when readers wait for it. \<open>incrF\<close> on a variable
  with waiting taking readers fails an assertion.
\<close>

theorem syncvar_operations_refine_spec:
  assumes "sv_inv sw_inv sw_nsheps V s" "sv_small s" "newp \<noteq> 0" "recs (store s) newp = None"
  shows "(sv_call_ok V ty retp a b s \<longrightarrow>
      sv_step sw_inv sw_tasks sw_nsheps V me s (sv_spec ty me retp a b (sv_view s, smem s))
        (qthread_syncvar_blocker_thread sw_ops me newp retp ty a b s))
    \<and> (ty = SV_INCR \<and> a \<in> V \<and> vFEQ (sv_view s a) \<noteq> [] \<longrightarrow>
      qthread_syncvar_blocker_thread sw_ops me newp retp ty a b s = None)"
  using sherwood_sv_refines [OF assms(1,2) _ assms(3,4), of ty retp a b me]
    blocker_incrF_crashes [OF assms(1), of a sw_ops me newp retp b] by auto

theorem syncvar_operations_refine_spec_witness:
  "\<exists>s'. qthread_syncvar_blocker_thread sw_ops 5 1 64 SV_READFE 8192 4096 sv_start = Some (s', SvRet QTHREAD_SUCCESS)
     \<and> sv_inv sw_inv sw_nsheps {4096} s' \<and> \<not> vfull (sv_view s' 4096) \<and> smem s' 8192 = 0"
proof -
  have "sv_call_ok {4096} SV_READFE 64 8192 4096 sv_start"
    by (simp add: sv_call_ok_def sv_word_def)
  with syncvar_operations_refine_spec [OF sv_start_ok(1,2) _ sv_start_ok(3), of SV_READFE 64 8192 4096 5] show ?thesis
    by (auto simp: sv_step_def sv_spec_def Let_def sv_start_ok(4,5) empty_svar_def put_word_def)
qed

text \<open>
  C6. A blocking operation whose first attempt timed out goes on to its second part after
  other threads may have changed the variable. From any state the second part implements the
  specification of the whole operation, including when the variable reached the wanted state
  meanwhile, with or without threads queued.
\<close>

theorem second_attempt_refines_spec:
  assumes "sv_inv sw_inv sw_nsheps V s" "sv_small s" "newp \<noteq> 0" "recs (store s) newp = None"
    and "v \<in> V" "d \<notin> V" "retp \<notin> V"
  shows "sv_step sw_inv sw_tasks sw_nsheps V me s (sv_spec SV_READFF me retp d v (sv_view s, smem s)) (readFF_wait me newp d v s)
    \<and> sv_step sw_inv sw_tasks sw_nsheps V me s (sv_spec SV_READFE me retp d v (sv_view s, smem s)) (readFE_wait sw_ops me newp retp d v s)
    \<and> sv_step sw_inv sw_tasks sw_nsheps V me s (sv_spec SV_WRITEEF me retp v d (sv_view s, smem s)) (writeEF_wait sw_ops me newp v d s)"
  using readFF_wait_ok [OF assms(1,2,5,3,4,6)]
    ready_queues.readFE_wait_ok [OF sherwood.ready_queues_axioms assms(1,2,5,3,4,6,7)]
    ready_queues.writeEF_wait_ok [OF sherwood.ready_queues_axioms assms(1,2,5,3,4,6)]
  by blast

theorem second_attempt_refines_spec_witness:
  "\<exists>s'. writeEF_wait sw_ops 5 1 4096 8192 sv_start = Some (s', SvBlocked)
     \<and> sv_accounted sw_tasks s' = {#5#} \<and> vEFQ (sv_view s' 4096) = [\<lparr>raddr = 8192, waiter = 5\<rparr>]"
  using second_attempt_refines_spec [OF sv_start_ok(1,2) _ sv_start_ok(3), of 4096 8192 0 5]
  by (auto simp: sv_step_def sv_spec_def Let_def sv_start_ok(4,5,6))

text \<open>
  C7. In every run of syncvar operations called as \<open>sv_call_ok\<close> demands (so without \<open>writeF\<close>
  on a variable with queued writers and without \<open>incrF\<close> on one with waiting taking readers),
  of their second parts and of dispatches by workers, the invariant holds and every thread is
  running, ready or waiting exactly once.
\<close>

theorem syncvars_lose_no_thread:
  assumes "sv_run V s0 R0 s R" "sv_inv sw_inv sw_nsheps V s0"
  shows "sv_inv sw_inv sw_nsheps V s \<and> sv_accounted sw_tasks s + R = sv_accounted sw_tasks s0 + R0"
  using assms
proof induction
  case (call s R me ty retp a b newp r s' out)
  have inv: "sv_inv sw_inv sw_nsheps V s"
    and acc: "sv_accounted sw_tasks s + R = sv_accounted sw_tasks s0 + R0"
    using call by simp_all
  have c: "sv_inv sw_inv sw_nsheps V s'"
    "sv_accounted sw_tasks s' = sv_accounted sw_tasks s + (if out = SvBlocked then {#me#} else {#})"
    using sv_call_refines [OF inv call.hyps(3-7)] call.hyps(8) by (auto simp: sv_step_def)
  have "sv_accounted sw_tasks s' + (if out = SvBlocked then R - {#me#} else R) = sv_accounted sw_tasks s + R"
    using c(2) call.hyps(2) by (auto simp: insert_DiffM)
  then show ?case
    using c(1) acc by simp
next
  case (dispatch s R sh sheplist tflags got wid active q r)
  then show ?case
    using sv_dispatch_step [of V s sh sheplist tflags got wid active q r] by (cases r) auto
qed simp

theorem syncvars_lose_no_thread_witness:
  "\<exists>s. sv_run {4096} sv_start {#5#} s {#} \<and> sv_accounted sw_tasks s = {#5#}"
proof -
  have ok: "sv_call_ok {4096} SV_WRITEEF 64 4096 8192 sv_start"
    by (simp add: sv_call_ok_def sv_word_def sv_start_ok(5))
  obtain s where s: "qthread_syncvar_blocker_thread sw_ops 5 1 64 SV_WRITEEF 4096 8192 sv_start = Some (s, SvBlocked)"
    using sherwood_sv_refines [OF sv_start_ok(1,2) ok _ sv_start_ok(3), of 5]
    by (auto simp: sv_step_def sv_spec_def Let_def sv_start_ok(4))
  have run: "sv_run {4096} sv_start {#5#} s {#}"
    using sv_run.call [OF sv_run.start [of "{4096}" sv_start "{#5#}"] _ sv_start_ok(2) ok _ sv_start_ok(3) _ s, of 5] by simp
  show ?thesis
    using run syncvars_lose_no_thread [OF run sv_start_ok(1)] sv_start_ok(6) by auto
qed

lemma mwaitc_loop_sound:
  "mwaitc_loop env statemask t i tmp = Some (k, w) \<Longrightarrow>
     env k = w \<and> \<not> sv_lock w \<and> statemask AND push_bit (unat (sv_state_bits w)) 1 \<noteq> 0 \<and> i \<le> k \<and> k \<le> i + 2 * t"
proof (induction t arbitrary: i tmp)
  case 0
  then show ?case
    by (subst (asm) mwaitc_loop.simps) (auto split: if_splits)
next
  case (Suc t)
  show ?case
    using Suc.prems Suc.IH [of "Suc i" "env i"] Suc.IH [of "Suc (Suc i)" "env (Suc i)"]
    by (subst (asm) mwaitc_loop.simps) (auto split: if_splits)
qed

lemma mwaitc_loop_steady:
  assumes w: "\<not> sv_lock w" "statemask AND push_bit (unat (sv_state_bits w)) 1 \<noteq> 0"
  shows "\<forall>k \<ge> i. env k = w \<Longrightarrow> 0 < t \<Longrightarrow> mwaitc_loop env statemask t i tmp \<noteq> None"
proof (induction t arbitrary: i tmp)
  case (Suc t)
  have again: "mwaitc_loop env statemask t j w \<noteq> None" if "i \<le> j" for j
    using w Suc.prems(1) that by (subst mwaitc_loop.simps) simp
  show ?case
    using w Suc.prems(1) again [of "Suc i"] again [of "Suc (Suc i)"]
    by (subst mwaitc_loop.simps) auto
qed simp

text \<open>
  C8. The spin loop of \<open>qthread_mwaitc\<close> under contention: whatever values the word takes
  between its accesses, when the loop reports the lock as taken, the word was unlocked and in
  a state of interest at the access that locked it; it makes at most two accesses per attempt;
  and if the word is from some point on constantly unlocked and of interest while attempts
  are left, the lock is taken.
\<close>

theorem mwaitc_sound_and_live:
  shows "(mwaitc_loop env statemask t i tmp = Some (k, w) \<longrightarrow>
      env k = w \<and> \<not> sv_lock w \<and> statemask AND push_bit (unat (sv_state_bits w)) 1 \<noteq> 0 \<and> k \<le> i + 2 * t)
    \<and> ((\<forall>j \<ge> i. env j = w) \<and> \<not> sv_lock w \<and> statemask AND push_bit (unat (sv_state_bits w)) 1 \<noteq> 0 \<and> 0 < t
       \<longrightarrow> mwaitc_loop env statemask t i tmp \<noteq> None)"
  using mwaitc_loop_sound [of env statemask t i tmp k w] mwaitc_loop_steady [of w statemask i env t tmp] by blast

theorem mwaitc_sound_and_live_witness:
  "mwaitc_loop (\<lambda>k. if k = 0 then 1 else 4) SYNCFEB_EMPTY 100 1 1 \<noteq> None"
proof -
  have "SYNCFEB_EMPTY AND push_bit (unat (sv_state_bits 4)) 1 \<noteq> 0" "\<not> sv_lock 4"
    by (simp_all add: SYNCFEB_EMPTY_def sv_state_bits_def sv_lock_def)
  then show ?thesis
    using mwaitc_sound_and_live [of "\<lambda>k. if k = 0 then 1 else 4" SYNCFEB_EMPTY 100 1 1 0 4] by simp
qed

text \<open>
  A syncvar keeps any 60-bit value and any of the four states: what the unlock macro
  packs into the word is what the bit fields read from it.
\<close>

lemma syncvar_word_roundtrip:
  assumes "drop_bit 60 x = 0"
  shows "let w = BUILD_UNLOCKED_SYNCVAR x (state_of p f)
    in sv_data w = x \<and> sv_state_bits w = state_of p f \<and> \<not> sv_lock w"
  using assms build_bits [of x p f]
  by (simp add: Let_def build_data take_bit_small state_bits_state_of sv_lock_def build_bit_simps)

text \<open>
  C9. A value written into an empty variable without waiters is the value the next taking
  read returns, and the variable is empty again.
\<close>

theorem writeEF_then_readFE:
  assumes "sv_inv sw_inv sw_nsheps V s" "sv_small s" "a \<in> V" "p \<notin> V" "d \<notin> V" "d \<noteq> 0"
    and "drop_bit 60 (smem s p) = 0"
    and "sv_view s a = \<lparr>vfull = False, vdata = old, vEFQ = [], vFEQ = [], vFFQ = []\<rparr>"
  shows "\<exists>s1 s2. qthread_syncvar_writeEF_nb sw_ops (Some me) a p s = Some (s1, SvRet QTHREAD_SUCCESS)
    \<and> qthread_syncvar_readFE_nb sw_ops (Some you) d a s1 = Some (s2, SvRet QTHREAD_SUCCESS)
    \<and> smem s2 d = smem s p
    \<and> sv_view s2 a = \<lparr>vfull = False, vdata = smem s p, vEFQ = [], vFEQ = [], vFFQ = []\<rparr>"
proof -
  have None: "sv_recs s a = None"
    using view_entry(2,3) [OF assms(1,3)] assms(8) by (cases "sv_recs s a") (auto simp: no_waiters_def)
  obtain s1 where s1: "qthread_syncvar_writeEF_nb sw_ops (Some me) a p s = Some (s1, SvRet QTHREAD_SUCCESS)"
    "sv_inv sw_inv sw_nsheps V s1"
    "sv_view s1 a = \<lparr>vfull = True, vdata = smem s p, vEFQ = [], vFEQ = [], vFFQ = []\<rparr>"
    using ready_queues.writeEF_ok(2) [OF sherwood.ready_queues_axioms assms(1-4,7), of me 0] assms(3,8)
      take_bit_small [OF assms(7)]
    by (auto simp: sv_step_def sv_spec_def Let_def fill_svar_def)
  have "store s1 = store s"
    using s1(1) mwaitc_entry(3) [OF assms(1,3), of 1] None assms(7,8)
    by (auto simp: qthread_syncvar_writeEF_nb_def writeEF_locked_def)
  then have "sv_small s1"
    using assms(2) by (simp add: sv_small_def)
  then show ?thesis
    using ready_queues.readFE_ok(2) [OF sherwood.ready_queues_axioms s1(2) _ assms(3,5), of you 0] s1(1,3) assms(3,5,6)
    by (auto simp: sv_step_def sv_spec_def Let_def empty_svar_def put_word_def)
qed

theorem writeEF_then_readFE_witness:
  "\<exists>s0 s1 s2. qthread_syncvar_writeEF_nb sw_ops (Some 5) 4096 8192 s0 = Some (s1, SvRet QTHREAD_SUCCESS)
    \<and> qthread_syncvar_readFE_nb sw_ops (Some 6) 16384 4096 s1 = Some (s2, SvRet QTHREAD_SUCCESS) \<and> smem s2 16384 = 7"
proof -
  have "drop_bit 60 (smem sv_start_empty 8192) = 0"
    by (simp add: sv_start_empty_ok(5))
  from writeEF_then_readFE [OF sv_start_empty_ok(1,2) _ _ _ _ this sv_start_empty_ok(4), of 16384 5 6] show ?thesis
    by (auto simp: sv_start_empty_ok(5))
qed

text \<open>
  Signed values of 60 bits survive the conversion into the data field of a syncvar and
  back.
\<close>

lemma int60_roundtrip:
  assumes "- (2 ^ 59) \<le> sint x" "sint x < 2 ^ 59"
  shows "INT60TOINT64 (INT64TOINT60 x) = x \<and> drop_bit 60 (INT64TOINT60 x) = 0"
proof -
  have m: "INT64TOINT60 x = take_bit 60 x"
    by (simp add: INT64TOINT60_def take_bit_eq_mask mask_eq_exp_minus_1)
  have st: "signed_take_bit 59 (sint x) = sint x"
    using assms by (intro signed_take_bit_int_eq_self) simp_all
  have eq: "bit (sint x) n = bit (sint x) 59" if "59 \<le> n" for n
    using bit_signed_take_bit_iff [of 59 "sint x" n] that unfolding st by (simp add: min_def)
  have hi: "bit x n = bit x 59" if "59 \<le> n" "n < 64" for n
    using eq [OF that(1)] that by (simp add: bit_sint_iff)
  have sign: "take_bit 60 x AND 0x800000000000000 \<noteq> 0 \<longleftrightarrow> bit x 59"
  proof -
    have "(0x800000000000000 :: u64) = push_bit 59 1"
      by simp
    then show ?thesis
      by (simp only: and_exp_eq_0_iff_not_bit push_bit_of_1) (simp add: bit_simps)
  qed
  have top: "(0xf800000000000000 :: u64) = push_bit 59 (mask 5)"
    by (simp add: mask_eq_exp_minus_1)
  have "INT60TOINT64 (take_bit 60 x) = x"
  proof (cases "bit x 59")
    case True
    have "INT60TOINT64 (take_bit 60 x) = take_bit 60 x OR push_bit 59 (mask 5)"
      using True sign by (simp only: INT60TOINT64_def top if_True)
    moreover have "bit (take_bit 60 x OR push_bit 59 (mask 5)) n = bit x n" for n
      using True hi [of n] bit_imp_le_length [of x n]
      by (simp only: bit_or_iff bit_push_bit_iff bit_mask_iff bit_take_bit_iff possible_bit_word) auto
    ultimately show ?thesis
      by (simp only: bit_eq_iff)
  next
    case False
    have "bit (take_bit 60 x) n = bit x n" for n
      using False hi [of n] bit_imp_le_length [of x n] by (cases "n < 60") (auto simp: bit_take_bit_iff)
    then show ?thesis
      using False sign by (simp add: INT60TOINT64_def bit_eq_iff)
  qed
  then show ?thesis
    by (simp add: m drop_bit_take_bit)
qed

section \<open>Where the operations go wrong\<close>

text \<open>
  C10. \<open>qthread_syncvar_writeF\<close> on a full variable with writers waiting marks it as having no
  waiters: the next taking read leaves the variable empty and wakes nobody, although the
  writers are still queued.
\<close>

theorem writeF_forgets_writers:
  assumes "sv_inv qinv nsheps V s" "a \<in> V" "vfull (sv_view s a)" "vEFQ (sv_view s a) \<noteq> []"
    and "drop_bit 60 (smem s b) = 0" "b \<notin> V" "d \<notin> V"
  shows "\<exists>s1 s2. qthread_syncvar_writeF ops (Some sh) a b s = Some (s1, SvRet QTHREAD_SUCCESS)
    \<and> qthread_syncvar_readFE ops (Some me) newp retp d a s1 = Some (s2, SvRet QTHREAD_SUCCESS)
    \<and> \<not> vfull (sv_view s2 a) \<and> vEFQ (sv_view s2 a) = vEFQ (sv_view s a) \<and> sready s2 = sready s"
proof -
  note i = sv_invD(1) [OF assms(1)] sv_invD(6) [OF assms(1,2)]
  let ?x = "smem s b"
  let ?s1 = "UNLOCK_THIS_MODIFIED_SYNCVAR a ?x 0 s"
  have w1: "qthread_syncvar_writeF ops (Some sh) a b s = Some (?s1, SvRet QTHREAD_SUCCESS)"
    using mwaitc_entry(1) [OF assms(1,2), of INT_MAX] i assms(3,5)
    by (simp add: qthread_syncvar_writeF_def Let_def timeouts_pos)
  let ?w = "BUILD_UNLOCKED_SYNCVAR ?x 0"
  have bits: "\<not> bit ?w 0" "\<not> bit ?w 1" "\<not> bit ?w 2" "\<not> bit ?w 3"
    using build_bits [of ?x False False] by (simp_all add: state_of_cases)
  have "qthread_mwaitc a SYNCFEB_FULL INITIAL_TIMEOUT ?s1
      = Some (set_word a (?w OR 1) ?s1, sv_data ?w, \<lparr>cf = False, off = False, pf = False, sf = False\<rparr>)"
    using mwaitc_taken [of ?s1 a SYNCFEB_FULL INITIAL_TIMEOUT] interest(1) [OF bits(4)] bits i(2)
      locked_flags_eq [OF bits(4)] by (simp add: timeouts_pos)
  then have r: "qthread_syncvar_readFE ops (Some me) newp retp d a ?s1
      = Some (store_to d (sv_data ?w) (UNLOCK_THIS_MODIFIED_SYNCVAR a (sv_data ?w) 2 s), SvRet QTHREAD_SUCCESS)"
    using i by (simp add: qthread_syncvar_readFE_def readFE_locked_def sync_states UNLOCK_THIS_MODIFIED_SYNCVAR_def)
  let ?s2 = "store_to d (sv_data ?w) (UNLOCK_THIS_MODIFIED_SYNCVAR a (sv_data ?w) 2 s)"
  have "smem ?s2 a = BUILD_UNLOCKED_SYNCVAR (sv_data ?w) (state_of True False)"
    using assms(2,7) by (auto simp: put_word_def state_of_cases)
  then have "\<not> vfull (sv_view ?s2 a)" "vEFQ (sv_view ?s2 a) = vEFQ (sv_view s a)"
    by (simp_all add: sv_view_def svar_of_def build_bit_simps)
  then show ?thesis
    using w1 r by (intro exI [of _ ?s1] exI [of _ ?s2]) simp
qed

theorem writeF_forgets_writers_witness:
  "\<exists>s s1 s2. qthread_syncvar_writeEF sw_ops (Some 5) 1 4096 8192 sv_start = Some (s, SvBlocked)
     \<and> qthread_syncvar_writeF sw_ops (Some 0) 4096 16384 s = Some (s1, SvRet QTHREAD_SUCCESS)
     \<and> qthread_syncvar_readFE sw_ops (Some 6) 2 64 32768 4096 s1 = Some (s2, SvRet QTHREAD_SUCCESS)
     \<and> vEFQ (sv_view s2 4096) = [\<lparr>raddr = 8192, waiter = 5\<rparr>]"
proof -
  obtain s where s: "qthread_syncvar_writeEF sw_ops (Some 5) 1 4096 8192 sv_start = Some (s, SvBlocked)"
    "sv_inv sw_inv sw_nsheps {4096} s" "vfull (sv_view s 4096)"
    "vEFQ (sv_view s 4096) = [\<lparr>raddr = 8192, waiter = 5\<rparr>]" "smem s 16384 = 7"
    using ready_queues.writeEF_ok(1) [OF sherwood.ready_queues_axioms sv_start_ok(1,2), of 4096 8192 1 5 0] sv_start_ok(3,5)
    by (auto simp: sv_step_def sv_spec_def Let_def sv_start_ok(4))
  have "vEFQ (sv_view s 4096) \<noteq> []" "drop_bit 60 (smem s 16384) = 0"
    using s by simp_all
  then obtain s1 s2 where "qthread_syncvar_writeF sw_ops (Some 0) 4096 16384 s = Some (s1, SvRet QTHREAD_SUCCESS)"
    "qthread_syncvar_readFE sw_ops (Some 6) 2 64 32768 4096 s1 = Some (s2, SvRet QTHREAD_SUCCESS)"
    "vEFQ (sv_view s2 4096) = vEFQ (sv_view s 4096)"
    using writeF_forgets_writers [OF s(2) _ s(3), of 16384 32768 sw_ops 0 6 2 64] by auto
  then show ?thesis
    using s(1,4) by metis
qed

text \<open>
  A caller that is not a qthread gets the result of \<open>qthread_syncvar_incrF\<close> through an
  \<open>int\<close>: it is the new value just when that value fits in 31 bits or is the sign extension
  of a negative \<open>int\<close>.
\<close>

lemma external_incrF_truncated:
  "blocker_retval r = r \<longleftrightarrow> - (2 ^ 31) \<le> sint r \<and> sint r < 2 ^ 31"
proof -
  have "bit (sint (blocker_retval r)) n = bit (signed_take_bit 31 (sint r)) n" for n
    by (cases "n < 32"; cases "n < 64")
      (auto simp: blocker_retval_def bit_sint_iff bit_signed_iff bit_unsigned_iff bit_signed_take_bit_iff min_def)
  then have "sint (blocker_retval r) = signed_take_bit 31 (sint r)"
    by (rule bit_eqI)
  then have "blocker_retval r = r \<longleftrightarrow> signed_take_bit 31 (sint r) = sint r"
    by (metis signed_word_eqI)
  then show ?thesis
    by (simp add: signed_take_bit_int_eq_self_iff)
qed

end
