(* ===== verification/Qutil.thy ===== *)
theory Qutil
  imports QPrelude
begin

text \<open>
  The parallel utilities of \<open>qutil.c\<close>: reductions over an array, the sequential quicksort with
  an explicit stack, the parallel merge sort and the parallel quicksort.

  Arrays are lists, and an access outside of the array is \<open>None\<close>. The code has every routine
  for \<open>double\<close> and for \<open>aligned_t\<close> with the same body; the model is polymorphic in a linearly
  ordered element type, which covers \<open>aligned_t\<close> and the doubles without NaN. A \<open>size_t\<close> is a
  \<open>nat\<close> (an array fits into memory), an \<open>ssize_t\<close> an \<open>int\<close>.
\<close>

definition arr_get :: "'a list \<Rightarrow> nat \<Rightarrow> 'a option" where
  "arr_get arr i = (if i < length arr then Some (arr ! i) else None)"

definition arr_set :: "'a list \<Rightarrow> nat \<Rightarrow> 'a \<Rightarrow> 'a list option" where
  "arr_set arr i x = (if i < length arr then Some (arr[i := x]) else None)"

definition SWAP :: "'a list \<Rightarrow> nat \<Rightarrow> nat \<Rightarrow> 'a list option" where
  "SWAP a m n =
     do { temp \<leftarrow> arr_get a m; x \<leftarrow> arr_get a n; a \<leftarrow> arr_set a m x; arr_set a n temp }"

section \<open>Integer logarithm\<close>

definition LT :: "int \<Rightarrow> int list" where
  "LT n = replicate 16 n"

definition LogTable256 :: "int list" where
  "LogTable256 = [-1, 0, 1, 1, 2, 2, 2, 2, 3, 3, 3, 3, 3, 3, 3, 3]
     @ LT 4 @ LT 5 @ LT 5 @ LT 6 @ LT 6 @ LT 6 @ LT 6
     @ LT 7 @ LT 7 @ LT 7 @ LT 7 @ LT 7 @ LT 7 @ LT 7 @ LT 7"

definition QT_INT_LOG :: "u32 \<Rightarrow> u32" where
  "QT_INT_LOG v =
     (let tt = drop_bit 16 v
      in if tt \<noteq> 0 then
           (let t = drop_bit 8 tt
            in if t \<noteq> 0 then 24 + of_int (LogTable256 ! unat t) else 16 + of_int (LogTable256 ! unat tt))
         else
           (let t = drop_bit 8 v
            in if t \<noteq> 0 then 8 + of_int (LogTable256 ! unat t) else of_int (LogTable256 ! unat v)))"

section \<open>Sequential quicksort\<close>

text \<open>\<open>while (arr[R] >= piv && L < R) R--\<close> and \<open>while (arr[L] <= piv && L < R) L++\<close>.\<close>

fun scan_down :: "'a::linorder list \<Rightarrow> 'a \<Rightarrow> nat \<Rightarrow> nat \<Rightarrow> nat option" where
  "scan_down arr piv L R =
     do { x \<leftarrow> arr_get arr R;
          if x \<ge> piv \<and> L < R then scan_down arr piv L (R - 1) else Some R }"

function scan_up :: "'a::linorder list \<Rightarrow> 'a \<Rightarrow> nat \<Rightarrow> nat \<Rightarrow> nat option" where
  "scan_up arr piv L R =
     do { x \<leftarrow> arr_get arr L;
          if x \<le> piv \<and> L < R then scan_up arr piv (L + 1) R else Some L }"
  by pat_completeness auto
termination
  by (relation "measure (\<lambda>(arr, piv, L, R). R - L)") auto

declare scan_down.simps [simp del] scan_up.simps [simp del]

lemma scan_down_le: "scan_down arr piv L R = Some R' \<Longrightarrow> L \<le> R \<Longrightarrow> L \<le> R' \<and> R' \<le> R"
proof (induction arr piv L R rule: scan_down.induct)
  case (1 arr piv L R)
  from 1(2) [unfolded scan_down.simps [of arr piv L R]] 1(1,3) show ?case
    by (force simp: bind_eq_Some_iff split: if_splits)
qed

lemma scan_up_le: "scan_up arr piv L R = Some L' \<Longrightarrow> L \<le> R \<Longrightarrow> L \<le> L' \<and> L' \<le> R"
proof (induction arr piv L R rule: scan_up.induct)
  case (1 arr piv L R)
  from 1(2) [unfolded scan_up.simps [of arr piv L R]] 1(1,3) show ?case
    by (force simp: bind_eq_Some_iff split: if_splits)
qed

function partition_loop :: "'a::linorder list \<Rightarrow> 'a \<Rightarrow> nat \<Rightarrow> nat \<Rightarrow> ('a list \<times> nat) option" where
  "partition_loop arr piv L R =
     (if L < R then
        do {
          R \<leftarrow> scan_down arr piv L R;
          (arr, L) \<leftarrow> (if L < R then do { x \<leftarrow> arr_get arr R; arr \<leftarrow> arr_set arr L x; Some (arr, L + 1) }
                      else Some (arr, L));
          L \<leftarrow> scan_up arr piv L R;
          (arr, R) \<leftarrow> (if L < R then do { x \<leftarrow> arr_get arr L; arr \<leftarrow> arr_set arr R x; Some (arr, R - 1) }
                      else Some (arr, R));
          partition_loop arr piv L R
        }
      else Some (arr, L))"
  by pat_completeness auto
termination
proof (relation "measure (\<lambda>(arr, piv, L, R). R - L)", goal_cases)
  case 1
  show ?case by simp
next
  case (2 arr piv L R R' z arr' L' L'' z' arr'' R'')
  have "L \<le> R'" "R' \<le> R"
    using scan_down_le [OF 2(2)] 2(1) by simp_all
  moreover have "L \<le> L'" "L' \<le> R'" "L < R' \<longrightarrow> L < L'"
    using 2(3,4) calculation by (auto simp: bind_eq_Some_iff split: if_splits)
  moreover have "L' \<le> L''" "L'' \<le> R'"
    using scan_up_le [OF 2(5)] calculation by simp_all
  moreover have "R'' \<le> R'" "L'' \<le> R''"
    using 2(6,7) calculation by (auto simp: bind_eq_Some_iff split: if_splits)
  ultimately show ?case
    using 2(1) by auto
qed

declare partition_loop.simps [simp del]

text \<open>
  The main loop. \<open>beg\<close> and \<open>end\<close> are arrays of \<open>MAX\<close> elements; element \<open>i\<close> is the top of the
  stack of ranges that are still to be sorted. The pushed range is the smaller one.
\<close>

type_synonym 'a qs_state = "'a list \<times> int list \<times> int list \<times> int"

definition int_get :: "int list \<Rightarrow> int \<Rightarrow> int option" where
  "int_get xs i = (if 0 \<le> i then arr_get xs (nat i) else None)"

definition int_set :: "int list \<Rightarrow> int \<Rightarrow> int \<Rightarrow> int list option" where
  "int_set xs i x = (if 0 \<le> i then arr_set xs (nat i) x else None)"

definition qsort_step :: "int \<Rightarrow> 'a::linorder qs_state \<Rightarrow> 'a qs_state option" where
  "qsort_step mx = (\<lambda>(arr, beg, end', i).
     do {
       c_assert (i < mx);
       L \<leftarrow> int_get beg i;
       e \<leftarrow> int_get end' i;
       let R = e - 1;
       if L < R then
         do {
           piv \<leftarrow> arr_get arr (nat L);
           (arr, l) \<leftarrow> partition_loop arr piv (nat L) (nat R);
           arr \<leftarrow> arr_set arr l piv;
           beg \<leftarrow> int_set beg (i + 1) (int l + 1);
           e \<leftarrow> int_get end' i;
           end' \<leftarrow> int_set end' (i + 1) e;
           end' \<leftarrow> int_set end' i (int l);
           let i = i + 1;
           e1 \<leftarrow> int_get end' i; b1 \<leftarrow> int_get beg i;
           e0 \<leftarrow> int_get end' (i - 1); b0 \<leftarrow> int_get beg (i - 1);
           if e1 - b1 > e0 - b0 then
             do {
               beg \<leftarrow> int_set beg i b0; beg \<leftarrow> int_set beg (i - 1) b1;
               end' \<leftarrow> int_set end' i e0; end' \<leftarrow> int_set end' (i - 1) e1;
               Some (arr, beg, end', i)
             }
           else Some (arr, beg, end', i)
         }
       else Some (arr, beg, end', i - 1)
     })"

primrec qsort_loop :: "nat \<Rightarrow> int \<Rightarrow> 'a::linorder qs_state \<Rightarrow> 'a list option" where
  "qsort_loop 0 = (\<lambda>mx (arr, beg, end', i). if i < 0 then Some arr else None)"
| "qsort_loop (Suc fuel) = (\<lambda>mx (arr, beg, end', i).
     if i < 0 then Some arr
     else do { s \<leftarrow> qsort_step mx (arr, beg, end', i); qsort_loop fuel mx s })"

text \<open>
  \<open>QT_INT_LOG\<close> takes a 32-bit argument and returns a 32-bit result, to which 5 is added before
  the widening to \<open>ssize_t\<close>. The local arrays are not initialised; what they hold is \<open>junk\<close>.
\<close>

definition qsort_MAX :: "nat \<Rightarrow> int" where
  "qsort_MAX elements = uint (QT_INT_LOG (of_nat elements) + 5)"

definition drf_qsort :: "int \<Rightarrow> 'a::linorder list \<Rightarrow> nat \<Rightarrow> 'a list option" where
  "drf_qsort junk arr elements =
     (let mx = qsort_MAX elements; beg = replicate (nat mx) junk; end' = replicate (nat mx) junk
      in do {
        beg \<leftarrow> int_set beg 0 0;
        end' \<leftarrow> int_set end' 0 (int elements);
        qsort_loop (2 * elements + 2) mx (arr, beg, end', 0)
      })"

text \<open>The instance for \<open>aligned_t\<close>; the one for \<open>double\<close> has the same text.\<close>

definition drf_qsort_algt :: "int \<Rightarrow> u64 list \<Rightarrow> nat \<Rightarrow> u64 list option" where
  "drf_qsort_algt junk arr elements = drf_qsort junk arr elements"

section \<open>Parallel merge sort\<close>

record merge_args =
  first_start :: nat
  first_stop :: nat
  second_start :: nat
  second_stop :: nat

text \<open>The forked tasks of one phase work on disjoint parts of the array and the caller waits for
  all of them; \<open>order\<close> is the order in which they happen to run.\<close>

fun run_tasks :: "('a list \<Rightarrow> 'a list option) list \<Rightarrow> nat list \<Rightarrow> 'a list \<Rightarrow> 'a list option" where
  "run_tasks tasks [] arr = Some arr"
| "run_tasks tasks (i # order) arr =
     do { task \<leftarrow> arr_get tasks i; arr \<leftarrow> task arr; run_tasks tasks order arr }"

definition qutil_mergesort_presort :: "int \<Rightarrow> merge_args \<Rightarrow> 'a::linorder list \<Rightarrow> 'a list option" where
  "qutil_mergesort_presort junk args array =
     (let n = first_stop args - first_start args + 1
      in do { part \<leftarrow> drf_qsort junk (take n (drop (first_start args) array)) n;
              Some (take (first_start args) array @ part @ drop (first_start args + n) array) })"

text \<open>\<open>for (k = second_start - 1; k >= first_start; k--)\<close>\<close>

fun shift_up :: "'a list \<Rightarrow> nat \<Rightarrow> nat \<Rightarrow> 'a list option" where
  "shift_up array start k =
     (if k \<ge> start then
        do { x \<leftarrow> arr_get array k; array \<leftarrow> arr_set array (k + 1) x;
             if k = 0 then Some array else shift_up array start (k - 1) }
      else Some array)"

declare shift_up.simps [simp del]

text \<open>With \<open>second_start = 0\<close> the index would wrap around and leave the array.\<close>

function qutil_mergesort_inner :: "merge_args \<Rightarrow> 'a::linorder list \<Rightarrow> 'a list option" where
  "qutil_mergesort_inner a array =
     (if first_start a \<le> first_stop a \<and> second_start a \<le> second_stop a then
        do {
          x \<leftarrow> arr_get array (first_start a);
          temp \<leftarrow> arr_get array (second_start a);
          if x < temp then qutil_mergesort_inner (a\<lparr>first_start := first_start a + 1\<rparr>) array
          else do {
            c_assert (0 < second_start a);
            array \<leftarrow> shift_up array (first_start a) (second_start a - 1);
            array \<leftarrow> arr_set array (first_start a) temp;
            qutil_mergesort_inner (a\<lparr>first_start := first_start a + 1, first_stop := first_stop a + 1,
              second_start := second_start a + 1\<rparr>) array
          }
        }
      else Some array)"
  by pat_completeness auto
termination
  by (relation "measure (\<lambda>(a, array). (first_stop a + 1 - first_start a) + (second_stop a + 1 - second_start a))")
    auto

declare qutil_mergesort_inner.simps [simp del]

definition presort_args :: "nat \<Rightarrow> nat \<Rightarrow> nat \<Rightarrow> merge_args" where
  "presort_args chunksize len i =
     \<lparr>first_start = i * chunksize,
      first_stop = (let s = (i + 1) * chunksize - 1 in if s \<ge> len then len - 1 else s),
      second_start = 0, second_stop = 0\<rparr>"

text \<open>The arguments of the tasks of one pass, from the offset \<open>i\<close> on.\<close>

primrec pass_args :: "nat \<Rightarrow> nat \<Rightarrow> nat \<Rightarrow> nat \<Rightarrow> merge_args list option" where
  "pass_args 0 chunksize len i = None"
| "pass_args (Suc fuel) chunksize len i =
     (if i < len - chunksize then
        do { as \<leftarrow> pass_args fuel chunksize len (i + 2 * chunksize);
             Some (\<lparr>first_start = i, first_stop = i + chunksize - 1, second_start = i + chunksize,
                second_stop = (if i + 2 * chunksize - 1 < len - 1 then i + 2 * chunksize - 1 else len - 1)\<rparr> # as) }
      else Some [])"

text \<open>\<open>order n k\<close> is the order of the \<open>k\<close> tasks of pass \<open>n\<close>, and \<open>room\<close> the number of elements of the
  allocated arrays \<open>rets\<close> and \<open>args\<close>.\<close>

primrec merge_passes :: "nat \<Rightarrow> (nat \<Rightarrow> nat \<Rightarrow> nat list) \<Rightarrow> nat \<Rightarrow> nat \<Rightarrow> nat \<Rightarrow> nat \<Rightarrow> 'a::linorder list
    \<Rightarrow> 'a list option" where
  "merge_passes 0 order room n chunksize len array = None"
| "merge_passes (Suc fuel) order room n chunksize len array =
     (if chunksize \<le> len then
        do {
          args \<leftarrow> pass_args (Suc len) chunksize len 0;
          c_assert (length args \<le> room);
          array \<leftarrow> run_tasks (map qutil_mergesort_inner args) (order n (length args)) array;
          merge_passes fuel order room (n + 1) (chunksize * 2) len array
        }
      else Some array)"

definition qutil_mergesort :: "bool \<Rightarrow> (nat \<Rightarrow> nat \<Rightarrow> nat list) \<Rightarrow> int \<Rightarrow> 'a::linorder list \<Rightarrow> nat
    \<Rightarrow> 'a list option" where
  "qutil_mergesort library_initialized order junk array len =
     (let chunksize = 10;
          numthreads = len div chunksize + (if len - len div chunksize * chunksize \<noteq> 0 then 1 else 0)
      in do {
        c_assert library_initialized;
        array \<leftarrow> run_tasks (map (\<lambda>i. qutil_mergesort_presort junk (presort_args chunksize len i)) [0..<numthreads])
                  (order 0 numthreads) array;
        if chunksize \<le> len then
          (let room = (len - chunksize) div (2 * chunksize);
               room = room + (if (len - chunksize) - 2 * chunksize * room \<noteq> 0 then 1 else 0)
           in merge_passes (len + 1) order room 1 chunksize len array)
        else Some array
      })"

section \<open>Reductions\<close>

text \<open>
  \<open>outer_loop\<close> cuts the array into segments of \<open>MT_LOOP_CHUNK\<close> elements and forks a task for each but
  the last. A task reduces its segment, waits for the result of the task before it and combines
  the two; the caller reduces the rest and combines it with the result of the last task. The state
  is the list of the fields \<open>ret\<close>, \<open>None\<close> while \<open>ret_sentinel\<close> is empty. With \<open>checkfeb\<close> the
  elements are read with \<open>qthread_readFF\<close>, which returns the same values once they are full.
\<close>

definition MT_LOOP_CHUNK :: nat where
  "MT_LOOP_CHUNK = 10000"

function reduce_loop :: "('a \<Rightarrow> 'a \<Rightarrow> 'a) \<Rightarrow> 'a list \<Rightarrow> 'a \<Rightarrow> nat \<Rightarrow> nat \<Rightarrow> 'a option" where
  "reduce_loop op array ret i stop =
     (if i < stop then do { x \<leftarrow> arr_get array i; reduce_loop op array (op ret x) (i + 1) stop }
      else Some ret)"
  by pat_completeness auto
termination
  by (relation "measure (\<lambda>(op, array, ret, i, stop). stop - i)") auto

declare reduce_loop.simps [simp del]

definition inner_loop :: "('a \<Rightarrow> 'a \<Rightarrow> 'a) \<Rightarrow> 'a list \<Rightarrow> nat \<Rightarrow> nat \<Rightarrow> 'a option \<Rightarrow> 'a option" where
  "inner_loop op array start stop addlast =
     do { x \<leftarrow> arr_get array start;
          ret \<leftarrow> reduce_loop op array x (start + 1) stop;
          Some (case addlast of None \<Rightarrow> ret | Some v \<Rightarrow> op ret v) }"

text \<open>The segments that are forked, \<open>while (start + MT_LOOP_CHUNK < length)\<close>.\<close>

primrec reduce_forks :: "nat \<Rightarrow> nat \<Rightarrow> nat \<Rightarrow> nat \<Rightarrow> nat option" where
  "reduce_forks 0 chunk len start = None"
| "reduce_forks (Suc fuel) chunk len start =
     (if start + chunk < len then map_option Suc (reduce_forks fuel chunk len (start + chunk)) else Some 0)"

text \<open>An attempt to run task \<open>k\<close>: nothing happens when it has run or still has to wait.\<close>

definition reduce_task :: "('a \<Rightarrow> 'a \<Rightarrow> 'a) \<Rightarrow> nat \<Rightarrow> 'a list \<Rightarrow> nat \<Rightarrow> 'a option list \<Rightarrow> 'a option list option" where
  "reduce_task op chunk array k rets =
     (if k < length rets \<and> rets ! k = None \<and> (k = 0 \<or> rets ! (k - 1) \<noteq> None) then
        do { v \<leftarrow> inner_loop op array (k * chunk) (k * chunk + chunk) (if k = 0 then None else rets ! (k - 1));
             Some (rets[k := Some v]) }
      else Some rets)"

fun reduce_tasks :: "('a \<Rightarrow> 'a \<Rightarrow> 'a) \<Rightarrow> nat \<Rightarrow> 'a list \<Rightarrow> nat list \<Rightarrow> 'a option list \<Rightarrow> 'a option list option" where
  "reduce_tasks op chunk array [] rets = Some rets"
| "reduce_tasks op chunk array (k # ks) rets =
     do { rets \<leftarrow> reduce_task op chunk array k rets; reduce_tasks op chunk array ks rets }"

text \<open>The result after the attempts \<open>sched\<close>; \<open>Some None\<close> when the caller is still waiting.\<close>

definition outer_loop :: "('a \<Rightarrow> 'a \<Rightarrow> 'a) \<Rightarrow> nat \<Rightarrow> 'a list \<Rightarrow> nat \<Rightarrow> nat list \<Rightarrow> 'a option option" where
  "outer_loop op chunk array len sched =
     do {
        forks \<leftarrow> reduce_forks (Suc len) chunk len 0;
        rets \<leftarrow> reduce_tasks op chunk array sched (replicate forks None);
        myret \<leftarrow> inner_loop op array (forks * chunk) len None;
        Some (if forks = 0 then Some myret
              else map_option (op myret) (rets ! (forks - 1)))
      }"

definition SUM_MACRO :: "'a::plus \<Rightarrow> 'a \<Rightarrow> 'a" where
  "SUM_MACRO s a = s + a"

definition MULT_MACRO :: "'a::times \<Rightarrow> 'a \<Rightarrow> 'a" where
  "MULT_MACRO p f = p * f"

definition MAX_MACRO :: "'a::ord \<Rightarrow> 'a \<Rightarrow> 'a" where
  "MAX_MACRO mx contender = (if mx < contender then contender else mx)"

definition MIN_MACRO :: "'a::ord \<Rightarrow> 'a \<Rightarrow> 'a" where
  "MIN_MACRO mn contender = (if mn > contender then contender else mn)"

definition qutil_uint_sum :: "u64 list \<Rightarrow> nat \<Rightarrow> nat list \<Rightarrow> u64 option option" where
  "qutil_uint_sum = outer_loop SUM_MACRO MT_LOOP_CHUNK"

definition qutil_uint_mult :: "u64 list \<Rightarrow> nat \<Rightarrow> nat list \<Rightarrow> u64 option option" where
  "qutil_uint_mult = outer_loop MULT_MACRO MT_LOOP_CHUNK"

definition qutil_uint_max :: "u64 list \<Rightarrow> nat \<Rightarrow> nat list \<Rightarrow> u64 option option" where
  "qutil_uint_max = outer_loop MAX_MACRO MT_LOOP_CHUNK"

definition qutil_uint_min :: "u64 list \<Rightarrow> nat \<Rightarrow> nat list \<Rightarrow> u64 option option" where
  "qutil_uint_min = outer_loop MIN_MACRO MT_LOOP_CHUNK"

section \<open>Parallel quicksort\<close>

text \<open>
  A partition task owns every \<open>T\<close>-th chunk of \<open>ch\<close> elements (\<open>MT_CHUNKSIZE\<close>, a cache line) of the range
  that starts at \<open>base\<close>; \<open>jump\<close> leads from the last element of a chunk to the first of the next one it
  owns. The two walls are relative to the first chunk of the task. A result with \<open>True\<close> is a jump to
  \<open>quickexit\<close>. The fuel of each scan is the number of elements of the range, which no scan exceeds.
\<close>

record part_args =
  pbase :: nat
  ppivot :: "u64"
  plength :: nat
  pjump :: nat
  poffset :: nat

definition left_step :: "nat \<Rightarrow> part_args \<Rightarrow> nat \<Rightarrow> nat" where
  "left_step ch a l = (if (l + 1) mod ch \<noteq> 0 then l + 1 else l + pjump a)"

definition right_step :: "nat \<Rightarrow> part_args \<Rightarrow> nat \<Rightarrow> nat option" where
  "right_step ch a r =
     (if r mod ch \<noteq> 0 then (if r = 0 then None else Some (r - 1))
      else if r < pjump a then None else Some (r - pjump a))"

primrec left_edge :: "nat \<Rightarrow> nat \<Rightarrow> part_args \<Rightarrow> u64 list \<Rightarrow> nat \<Rightarrow> nat \<Rightarrow> (nat \<times> bool) option" where
  "left_edge 0 ch a arr r l = None"
| "left_edge (Suc fuel) ch a arr r l =
     do { x \<leftarrow> arr_get arr (pbase a + l);
          if x \<le> ppivot a then
            (let l = left_step ch a l in if r < l then Some (l, True) else left_edge fuel ch a arr r l)
          else Some (l, False) }"

primrec right_edge :: "nat \<Rightarrow> nat \<Rightarrow> part_args \<Rightarrow> u64 list \<Rightarrow> nat \<Rightarrow> nat \<Rightarrow> (nat \<times> bool) option" where
  "right_edge 0 ch a arr l r = None"
| "right_edge (Suc fuel) ch a arr l r =
     do { x \<leftarrow> arr_get arr (pbase a + r);
          if x > ppivot a then
            (case right_step ch a r of None \<Rightarrow> Some (r, True)
             | Some r \<Rightarrow> if r < l then Some (r, True) else right_edge fuel ch a arr l r)
          else Some (r, False) }"

text \<open>The two \<open>do ... while\<close> loops of the main loop; the second does not compare the walls.\<close>

primrec left_advance :: "nat \<Rightarrow> nat \<Rightarrow> part_args \<Rightarrow> u64 list \<Rightarrow> nat \<Rightarrow> nat \<Rightarrow> (nat \<times> bool) option" where
  "left_advance 0 ch a arr r l = None"
| "left_advance (Suc fuel) ch a arr r l =
     (let l = left_step ch a l
      in if r < l then Some (l, True)
         else do { x \<leftarrow> arr_get arr (pbase a + l);
                   if x \<le> ppivot a then left_advance fuel ch a arr r l else Some (l, False) })"

primrec right_advance :: "nat \<Rightarrow> nat \<Rightarrow> part_args \<Rightarrow> u64 list \<Rightarrow> nat \<Rightarrow> (nat \<times> bool) option" where
  "right_advance 0 ch a arr r = None"
| "right_advance (Suc fuel) ch a arr r =
     (case right_step ch a r of None \<Rightarrow> Some (r, True)
      | Some r \<Rightarrow> do { x \<leftarrow> arr_get arr (pbase a + r);
                      if x > ppivot a then right_advance fuel ch a arr r else Some (r, False) })"

primrec partition_main :: "nat \<Rightarrow> nat \<Rightarrow> part_args \<Rightarrow> u64 list \<Rightarrow> nat \<Rightarrow> nat \<Rightarrow> (u64 list \<times> nat \<times> nat) option" where
  "partition_main 0 ch a arr l r = None"
| "partition_main (Suc fuel) ch a arr l r =
     do {
       (l, exit) \<leftarrow> left_advance (Suc (plength a)) ch a arr r l;
       if exit \<or> r \<le> l then Some (arr, l, r)
       else do {
         (r, exit) \<leftarrow> right_advance (Suc (plength a)) ch a arr r;
         if exit \<or> r \<le> l then Some (arr, l, r)
         else do { arr \<leftarrow> SWAP arr (pbase a + l) (pbase a + r); partition_main fuel ch a arr l r }
       }
     }"

definition partition_walls :: "nat \<Rightarrow> part_args \<Rightarrow> u64 list \<Rightarrow> (u64 list \<times> nat \<times> nat) option" where
  "partition_walls ch a arr =
     do {
       (l, exit) \<leftarrow> left_edge (Suc (plength a)) ch a arr (plength a - 1) 0;
       if exit then Some (arr, l, plength a - 1)
       else do {
         (r, exit) \<leftarrow> right_edge (Suc (plength a)) ch a arr l (plength a - 1);
         if exit then Some (arr, l, r)
         else do { arr \<leftarrow> SWAP arr (pbase a + l) (pbase a + r);
                   partition_main (Suc (plength a)) ch a arr l r }
       }
     }"

text \<open>At \<open>quickexit\<close> the walls are merged into the shared minimum and maximum, each by a loop around
  a compare-and-swap.\<close>

definition qutil_aligned_qsort_partition :: "nat \<Rightarrow> part_args \<Rightarrow> u64 list \<times> nat \<times> nat
    \<Rightarrow> (u64 list \<times> nat \<times> nat) option" where
  "qutil_aligned_qsort_partition ch a = (\<lambda>(arr, furthest_leftwall, furthest_rightwall).
     do { (arr, l, r) \<leftarrow> partition_walls ch a arr;
          Some (arr, min furthest_leftwall (l + poffset a), max furthest_rightwall (r + poffset a)) })"

text \<open>The arguments of the tasks, from number \<open>i\<close> on; \<open>megachunks\<close> is decremented when a task reaches the
  end of the range.\<close>

fun partitioner_args :: "nat \<Rightarrow> nat \<Rightarrow> nat \<Rightarrow> u64 \<Rightarrow> nat \<Rightarrow> nat list \<Rightarrow> nat \<Rightarrow> part_args list" where
  "partitioner_args ch base len pivot numthreads [] megachunks = []"
| "partitioner_args ch base len pivot numthreads (i # is) megachunks =
     (let megachunk_size = ch * numthreads;
          extra_chunks = len mod megachunk_size;
          l = (if extra_chunks \<noteq> 0 then megachunks * megachunk_size + ch else len - megachunk_size + ch);
          cut = (extra_chunks \<noteq> 0 \<and> len \<le> l + i * ch)
      in \<lparr>pbase = base + i * ch, ppivot = pivot, plength = (if cut then len - i * ch else l),
          pjump = (numthreads - 1) * ch + 1, poffset = i * ch\<rparr>
         # partitioner_args ch base len pivot numthreads is (if cut then megachunks - 1 else megachunks))"

fun partition_tasks :: "nat \<Rightarrow> part_args list \<Rightarrow> nat list \<Rightarrow> u64 list \<times> nat \<times> nat
    \<Rightarrow> (u64 list \<times> nat \<times> nat) option" where
  "partition_tasks ch as [] s = Some s"
| "partition_tasks ch as (i # is) s =
     do { a \<leftarrow> arr_get as i; s \<leftarrow> qutil_aligned_qsort_partition ch a s; partition_tasks ch as is s }"

definition qutil_aligned_qsort_inner_partitioner :: "nat \<Rightarrow> (nat \<Rightarrow> nat list) \<Rightarrow> u64 list \<Rightarrow> nat \<Rightarrow> nat \<Rightarrow> u64
    \<Rightarrow> (u64 list \<times> nat \<times> nat) option" where
  "qutil_aligned_qsort_inner_partitioner ch order arr base len pivot =
     (let numthreads = len div MT_LOOP_CHUNK + (if len mod MT_LOOP_CHUNK \<noteq> 0 then 1 else 0)
      in do {
        c_assert (ch * numthreads \<noteq> 0);
        partition_tasks ch (partitioner_args ch base len pivot numthreads [0..<numthreads] (len div (ch * numthreads)))
          (order numthreads) (arr, 2 ^ 64 - 1, 0)
      })"

text \<open>The loop around the partitioner, with the array at \<open>base\<close>.\<close>

primrec furthest_loop :: "nat \<Rightarrow> nat \<Rightarrow> (nat \<Rightarrow> nat list) \<Rightarrow> nat \<Rightarrow> u64 \<Rightarrow> u64 list \<times> nat \<times> nat
    \<Rightarrow> (u64 list \<times> nat \<times> nat) option" where
  "furthest_loop 0 ch order base pivot = (\<lambda>s. None)"
| "furthest_loop (Suc fuel) ch order base pivot = (\<lambda>(arr, l, r).
     if r > l \<and> r - l > 2 * MT_LOOP_CHUNK then
       do { (arr, l', r') \<leftarrow> qutil_aligned_qsort_inner_partitioner ch order arr (base + l) (r - l + 1) pivot;
            furthest_loop fuel ch order base pivot (arr, l' + l, r' + l) }
     else Some (arr, l, r))"

text \<open>\<open>while (l < r && array[l] <= pivot) l++\<close>, \<open>while (l < r && array[r] > pivot) r--\<close>, and the loop
  that follows the first exchange.\<close>

function wall_up :: "u64 list \<Rightarrow> nat \<Rightarrow> u64 \<Rightarrow> nat \<Rightarrow> nat \<Rightarrow> nat option" where
  "wall_up arr base pivot l r =
     (if l < r then do { x \<leftarrow> arr_get arr (base + l); if x \<le> pivot then wall_up arr base pivot (l + 1) r else Some l }
      else Some l)"
  by pat_completeness auto
termination
  by (relation "measure (\<lambda>(arr, base, pivot, l, r). r - l)") auto

fun wall_down :: "u64 list \<Rightarrow> nat \<Rightarrow> u64 \<Rightarrow> nat \<Rightarrow> nat \<Rightarrow> nat option" where
  "wall_down arr base pivot l r =
     (if l < r then do { x \<leftarrow> arr_get arr (base + r); if x > pivot then wall_down arr base pivot l (r - 1) else Some r }
      else Some r)"

declare wall_up.simps [simp del] wall_down.simps [simp del]

primrec mid_loop :: "nat \<Rightarrow> u64 list \<Rightarrow> nat \<Rightarrow> u64 \<Rightarrow> nat \<Rightarrow> nat \<Rightarrow> (u64 list \<times> nat) option" where
  "mid_loop 0 arr base pivot l r = None"
| "mid_loop (Suc fuel) arr base pivot l r =
     do {
       l \<leftarrow> wall_up arr base pivot (l + 1) r;
       if r < l then Some (arr, r)
       else do {
         r \<leftarrow> wall_down arr base pivot l (r - 1);
         if r < l then Some (arr, r)
         else do { arr \<leftarrow> SWAP arr (base + l) (base + r); mid_loop fuel arr base pivot l r }
       }
     }"

definition mid_partition :: "u64 list \<Rightarrow> nat \<Rightarrow> u64 \<Rightarrow> nat \<Rightarrow> nat \<Rightarrow> (u64 list \<times> nat) option" where
  "mid_partition arr base pivot l r =
     do {
       l \<leftarrow> wall_up arr base pivot l r;
       r \<leftarrow> wall_down arr base pivot l r;
       (arr, r) \<leftarrow> (if l < r then do { arr \<leftarrow> SWAP arr (base + l) (base + r); mid_loop (Suc r) arr base pivot l r }
                   else Some (arr, r));
       x \<leftarrow> arr_get arr (base + r);
       Some (arr, if x \<le> pivot then r + 1 else r)
     }"

definition swap_if_greater :: "u64 list \<Rightarrow> nat \<Rightarrow> nat \<Rightarrow> u64 list option" where
  "swap_if_greater arr i j =
     do { x \<leftarrow> arr_get arr i; y \<leftarrow> arr_get arr j; if x > y then SWAP arr i j else Some arr }"

definition tri_median :: "u64 list \<Rightarrow> nat \<Rightarrow> nat \<Rightarrow> (u64 list \<times> u64) option" where
  "tri_median arr base len =
     (let i = len div 2
      in do { arr \<leftarrow> swap_if_greater arr base (base + i);
              arr \<leftarrow> swap_if_greater arr base (base + len - 1);
              arr \<leftarrow> swap_if_greater arr (base + i) (base + len - 1);
              pivot \<leftarrow> arr_get arr (base + i);
              Some (arr, pivot) })"

text \<open>A call before its recursive calls: the pivot, the walls of the partitioner, and the final wall.
  The fuel bounds the number of rounds of the partitioner.\<close>

definition qsort_split :: "nat \<Rightarrow> nat \<Rightarrow> (nat \<Rightarrow> nat list) \<Rightarrow> nat \<Rightarrow> nat \<Rightarrow> u64 list \<Rightarrow> (u64 list \<times> nat) option" where
  "qsort_split fuel ch order base len arr =
     do { (arr, pivot) \<leftarrow> tri_median arr base len;
          (arr, l, r) \<leftarrow> furthest_loop fuel ch order base pivot (arr, 0, len - 1);
          mid_partition arr base pivot l r }"

text \<open>
  The two recursive calls are forked and work on disjoint parts of the array; the model runs the left
  one first. The fuel bounds the depth of the recursion and, within a call, the number of rounds
  of the partitioner.
\<close>

primrec qutil_aligned_qsort_inner :: "nat \<Rightarrow> nat \<Rightarrow> (nat \<Rightarrow> nat list) \<Rightarrow> int \<Rightarrow> nat \<Rightarrow> nat \<Rightarrow> u64 list
    \<Rightarrow> u64 list option" where
  "qutil_aligned_qsort_inner 0 ch order junk base len arr = None"
| "qutil_aligned_qsort_inner (Suc fuel) ch order junk base len arr =
     (if len \<le> MT_LOOP_CHUNK then
        do { part \<leftarrow> drf_qsort_algt junk (take len (drop base arr)) len;
             Some (take base arr @ part @ drop (base + len) arr) }
      else do {
        (arr, r) \<leftarrow> qsort_split fuel ch order base len arr;
        arr \<leftarrow> (if r > 0 then qutil_aligned_qsort_inner fuel ch order junk base r arr else Some arr);
        if len - r > 0 \<and> len > r then qutil_aligned_qsort_inner fuel ch order junk (base + r) (len - r) arr
        else Some arr
      })"

definition qutil_aligned_qsort :: "nat \<Rightarrow> bool \<Rightarrow> nat \<Rightarrow> (nat \<Rightarrow> nat list) \<Rightarrow> int \<Rightarrow> u64 list \<Rightarrow> nat \<Rightarrow> u64 list option" where
  "qutil_aligned_qsort fuel library_initialized ch order junk arr len =
     do { c_assert library_initialized; qutil_aligned_qsort_inner fuel ch order junk 0 len arr }"

end
