(* ===== verification/Qutil_Sort.thy ===== *)
theory Qutil_Sort
  imports Qutil
begin

text \<open>
  Correctness of the sequential quicksort: the partition loop with its hole, the invariant of the
  stack of ranges, and the bound of the stack by the integer logarithm.
\<close>

lemma arr_get_simps [simp]:
  "arr_get arr i = Some x \<longleftrightarrow> i < length arr \<and> x = arr ! i"
  "i < length arr \<Longrightarrow> arr_get arr i = Some (arr ! i)"
  by (auto simp: arr_get_def)

lemma arr_set_simps [simp]:
  "arr_set arr i x = Some arr' \<longleftrightarrow> i < length arr \<and> arr' = arr[i := x]"
  "i < length arr \<Longrightarrow> arr_set arr i x = Some (arr[i := x])"
  by (auto simp: arr_set_def)

lemma int_get_nat [simp]: "i < length xs \<Longrightarrow> int_get xs (int i) = Some (xs ! i)"
  by (simp add: int_get_def)

lemma int_set_nat [simp]: "i < length xs \<Longrightarrow> int_set xs (int i) x = Some (xs[i := x])"
  by (simp add: int_set_def)

section \<open>Partition\<close>

lemma mset_move_hole:
  assumes "i < length xs" "j < length xs" "i \<noteq> j"
  shows "mset (xs[i := xs ! j, j := p]) = mset (xs[i := p])"
proof -
  have "mset ((xs[i := p])[j := (xs[i := p]) ! i, i := (xs[i := p]) ! j]) = mset (xs[i := p])"
    using assms by (intro mset_swap) simp_all
  moreover have "(xs[i := p])[j := (xs[i := p]) ! i, i := (xs[i := p]) ! j] = xs[i := xs ! j, j := p]"
    using assms by (simp add: list_update_swap [of i j])
  ultimately show ?thesis
    by simp
qed

lemma scan_down_spec:
  assumes "L \<le> R" "R < length arr"
  shows "\<exists>R'. scan_down arr piv L R = Some R' \<and> L \<le> R' \<and> R' \<le> R
    \<and> (\<forall>k. R' < k \<and> k \<le> R \<longrightarrow> piv \<le> arr ! k) \<and> (L < R' \<longrightarrow> arr ! R' < piv)"
  using assms
proof (induction arr piv L R rule: scan_down.induct)
  case (1 arr piv L R)
  show ?case
  proof (cases "piv \<le> arr ! R \<and> L < R")
    case True
    then obtain R' where R': "scan_down arr piv L (R - 1) = Some R'" "L \<le> R'" "R' \<le> R - 1"
        "\<forall>k. R' < k \<and> k \<le> R - 1 \<longrightarrow> piv \<le> arr ! k" "L < R' \<longrightarrow> arr ! R' < piv"
      using 1 by fastforce
    have "piv \<le> arr ! k" if "R' < k" "k \<le> R" for k
      using R'(4) True that by (cases "k = R") auto
    then show ?thesis
      using R' True "1.prems" by (subst scan_down.simps) auto
  next
    case False
    then show ?thesis
      using "1.prems" by (subst scan_down.simps) auto
  qed
qed

lemma scan_up_spec:
  assumes "L \<le> R" "R < length arr"
  shows "\<exists>L'. scan_up arr piv L R = Some L' \<and> L \<le> L' \<and> L' \<le> R
    \<and> (\<forall>k. L \<le> k \<and> k < L' \<longrightarrow> arr ! k \<le> piv) \<and> (L' < R \<longrightarrow> piv < arr ! L')"
  using assms
proof (induction arr piv L R rule: scan_up.induct)
  case (1 arr piv L R)
  show ?case
  proof (cases "arr ! L \<le> piv \<and> L < R")
    case True
    then obtain L' where L': "scan_up arr piv (L + 1) R = Some L'" "L + 1 \<le> L'" "L' \<le> R"
        "\<forall>k. L + 1 \<le> k \<and> k < L' \<longrightarrow> arr ! k \<le> piv" "L' < R \<longrightarrow> piv < arr ! L'"
      using 1 by fastforce
    have "arr ! k \<le> piv" if "L \<le> k" "k < L'" for k
      using L'(4) True that by (cases "k = L") auto
    then show ?thesis
      using L' True "1.prems" by (subst scan_up.simps) auto
  next
    case False
    then show ?thesis
      using "1.prems" by (subst scan_up.simps) auto
  qed
qed

text \<open>What the partition loop promises, with the hole at \<open>L\<close> before and at \<open>l\<close> after it.\<close>

definition partitioned :: "'a::linorder list \<Rightarrow> 'a \<Rightarrow> nat \<Rightarrow> nat \<Rightarrow> 'a list \<Rightarrow> nat \<Rightarrow> bool" where
  "partitioned arr piv L R arr' l \<longleftrightarrow>
     L \<le> l \<and> l \<le> R \<and> length arr' = length arr
     \<and> (\<forall>k. k < L \<or> R < k \<longrightarrow> arr' ! k = arr ! k)
     \<and> mset (arr'[l := piv]) = mset (arr[L := piv])
     \<and> (\<forall>k. L \<le> k \<and> k < l \<longrightarrow> arr' ! k \<le> piv)
     \<and> (\<forall>k. l < k \<and> k \<le> R \<longrightarrow> piv \<le> arr' ! k)"

text \<open>One round of the loop that moves an element from the right to the left, and possibly one
  back.\<close>

lemma partitioned_round:
  assumes rec: "partitioned arr2 piv L2 R2 arr' l"
    and b: "L < R1" "R1 \<le> R" "R < length arr" "L < L2" "L2 \<le> R1"
    and down: "\<forall>k. R1 < k \<and> k \<le> R \<longrightarrow> piv \<le> arr ! k" "arr ! R1 < piv"
    and up: "\<forall>k. Suc L \<le> k \<and> k < L2 \<longrightarrow> arr[L := arr ! R1] ! k \<le> piv" "L2 < R1 \<longrightarrow> piv < arr ! L2"
    and arr2: "(arr2, R2) = (if L2 < R1 then (arr[L := arr ! R1, R1 := arr ! L2], R1 - 1)
                             else (arr[L := arr ! R1], R1))"
  shows "partitioned arr piv L R arr' l"
proof -
  have r: "L2 \<le> l" "l \<le> R2" "length arr' = length arr2"
    "\<And>k. k < L2 \<or> R2 < k \<Longrightarrow> arr' ! k = arr2 ! k"
    "mset (arr'[l := piv]) = mset (arr2[L2 := piv])"
    "\<And>k. L2 \<le> k \<Longrightarrow> k < l \<Longrightarrow> arr' ! k \<le> piv" "\<And>k. l < k \<Longrightarrow> k \<le> R2 \<Longrightarrow> piv \<le> arr' ! k"
    using rec unfolding partitioned_def by auto
  have len: "length arr2 = length arr"
    using arr2 by (auto split: if_splits)
  have "mset (arr2[L2 := piv]) = mset (arr[L := piv])"
  proof (cases "L2 < R1")
    case True
    have "mset (arr2[L2 := piv]) = mset ((arr[L := arr ! R1])[R1 := arr[L := arr ! R1] ! L2, L2 := piv])"
      using True arr2 b by simp
    also have "\<dots> = mset (arr[L := arr ! R1, R1 := piv])"
      using True b by (intro mset_move_hole) auto
    also have "\<dots> = mset (arr[L := piv])"
      using b by (intro mset_move_hole) auto
    finally show ?thesis .
  next
    case False
    then show ?thesis
      using arr2 b mset_move_hole [of L arr R1 piv] by simp
  qed
  moreover have "arr' ! k \<le> piv" if "L \<le> k" "k < l" for k
  proof (cases "L2 \<le> k")
    case False
    then have "arr' ! k = arr[L := arr ! R1] ! k"
      using r(4) [of k] arr2 b by (auto split: if_splits)
    then show ?thesis
      using False that up(1) down(2) b by (cases "k = L") auto
  qed (use r that in auto)
  moreover have "piv \<le> arr' ! k" if "l < k" "k \<le> R" for k
  proof (cases "k \<le> R2")
    case False
    then have k: "arr' ! k = arr2 ! k"
      using r(4) by simp
    show ?thesis
    proof (cases "k = R1")
      case True
      then show ?thesis
        using False k arr2 b up(2) by (auto split: if_splits)
    next
      case neq: False
      then have "R1 < k"
        using False arr2 that b by (auto split: if_splits)
      then show ?thesis
        using k arr2 b down(1) that by (auto split: if_splits)
    qed
  qed (use r that in auto)
  moreover have "arr' ! k = arr ! k" if "k < L \<or> R < k" for k
    using r(4) [of k] arr2 b that by (auto split: if_splits)
  moreover have "L \<le> l" "l \<le> R"
    using r b arr2 by (auto split: if_splits)
  ultimately show ?thesis
    using r len unfolding partitioned_def by auto
qed

lemma partition_loop_spec:
  assumes "L \<le> R" "R < length arr"
  shows "\<exists>arr' l. partition_loop arr piv L R = Some (arr', l) \<and> partitioned arr piv L R arr' l"
  using assms
proof (induction "R - L" arbitrary: arr L R rule: less_induct)
  case less
  show ?case
  proof (cases "L < R")
    case False
    then show ?thesis
      using less.prems by (subst partition_loop.simps) (auto simp: partitioned_def)
  next
    case True
    obtain R1 where R1: "scan_down arr piv L R = Some R1" "L \<le> R1" "R1 \<le> R"
        "\<forall>k. R1 < k \<and> k \<le> R \<longrightarrow> piv \<le> arr ! k" "L < R1 \<longrightarrow> arr ! R1 < piv"
      using scan_down_spec [OF less.prems] by blast
    show ?thesis
    proof (cases "L < R1")
      case False
      then have "R1 = L"
        using R1 by simp
      moreover have "scan_up arr piv L L = Some L"
        using less.prems by (subst scan_up.simps) simp
      ultimately show ?thesis
        using R1 True less.prems
        by (subst partition_loop.simps, simp add: partition_loop.simps [of arr piv L L])
          (auto simp: partitioned_def)
    next
      case lt: True
      obtain L2 where L2: "scan_up (arr[L := arr ! R1]) piv (L + 1) R1 = Some L2" "L + 1 \<le> L2" "L2 \<le> R1"
          "\<forall>k. L + 1 \<le> k \<and> k < L2 \<longrightarrow> arr[L := arr ! R1] ! k \<le> piv"
          "L2 < R1 \<longrightarrow> piv < arr[L := arr ! R1] ! L2"
        using scan_up_spec [of "L + 1" R1 "arr[L := arr ! R1]" piv] lt R1 less.prems by auto
      define arr2 where "arr2 = (if L2 < R1 then arr[L := arr ! R1, R1 := arr ! L2] else arr[L := arr ! R1])"
      define R2 where "R2 = (if L2 < R1 then R1 - 1 else R1)"
      have "partition_loop arr piv L R = partition_loop arr2 piv L2 R2"
        using True R1 L2 lt less.prems by (subst partition_loop.simps) (simp add: arr2_def R2_def)
      moreover have "R2 - L2 < R - L" "L2 \<le> R2" "R2 < length arr2"
        using L2 R1 lt less.prems by (auto simp: arr2_def R2_def)
      then obtain arr' l where "partition_loop arr2 piv L2 R2 = Some (arr', l)"
          "partitioned arr2 piv L2 R2 arr' l"
        using less.hyps by blast
      ultimately show ?thesis
        using partitioned_round [of arr2 piv L2 R2 arr' l L R1 R arr] R1 L2 lt less.prems
        by (auto simp: arr2_def R2_def split: if_splits)
    qed
  qed
qed

section \<open>Integer logarithm\<close>

definition is_log :: "nat \<Rightarrow> nat \<Rightarrow> bool" where
  "is_log v r \<longleftrightarrow> 2 ^ r \<le> v \<and> v < 2 ^ (r + 1)"

lemma LogTable256_log:
  assumes "0 < k" "k < 256"
  shows "0 \<le> LogTable256 ! k \<and> LogTable256 ! k < 8 \<and> is_log k (nat (LogTable256 ! k))"
proof -
  have "\<forall>k \<in> set [1..<256]. 0 \<le> LogTable256 ! k \<and> LogTable256 ! k < 8 \<and> is_log k (nat (LogTable256 ! k))"
    by code_simp
  then show ?thesis
    using assms by auto
qed

lemma is_log_shift: "is_log (v div 2 ^ n) r \<Longrightarrow> is_log v (n + r)"
proof -
  assume "is_log (v div 2 ^ n) r"
  then have "2 ^ r \<le> v div 2 ^ n" "v div 2 ^ n < 2 ^ (r + 1)"
    by (auto simp: is_log_def)
  then have "2 ^ r * 2 ^ n \<le> v" "v < 2 ^ (r + 1) * 2 ^ n"
    by (simp_all add: less_eq_div_iff_mult_less_eq div_less_iff_less_mult)
  then show ?thesis
    by (simp add: is_log_def power_add mult.commute mult.left_commute)
qed

lemma QT_INT_LOG_correct:
  assumes "0 < v" "v < 2 ^ 32"
  shows "\<exists>r. QT_INT_LOG (of_nat v) = of_nat r \<and> r < 32 \<and> is_log v r"
proof -
  define tab where "tab k = nat (LogTable256 ! k)" for k
  have tab: "of_int (LogTable256 ! k) = (of_nat (tab k) :: u32)" "tab k < 8" "is_log k (tab k)"
    if "0 < k" "k < 256" for k
  proof -
    have "int (tab k) = LogTable256 ! k"
      using LogTable256_log [OF that] by (simp add: tab_def)
    then show "of_int (LogTable256 ! k) = (of_nat (tab k) :: u32)"
      by (metis of_int_of_nat_eq)
    show "tab k < 8" "is_log k (tab k)"
      using LogTable256_log [OF that] by (auto simp: tab_def)
  qed
  have u: "unat (of_nat v :: u32) = v"
    using assms by (simp add: unat_of_nat take_bit_nat_eq_self)
  have d: "unat (drop_bit n (of_nat v :: u32)) = v div 2 ^ n" for n
    using assms by (simp only: unsigned_drop_bit_eq u) (simp add: drop_bit_eq_div take_bit_nat_eq_self)
  have z: "drop_bit n (of_nat v :: u32) = 0 \<longleftrightarrow> v div 2 ^ n = 0" for n
    using d [of n] by (metis unat_eq_0)
  have shift: "\<exists>r. w + of_int (LogTable256 ! (v div 2 ^ n)) = (of_nat r :: u32) \<and> r < 32 \<and> is_log v r"
    if "w = of_nat n" "n \<le> 24" "0 < v div 2 ^ n" "v div 2 ^ n < 256" for w n
    using tab [OF that(3,4)] is_log_shift [of v n "tab (v div 2 ^ n)"] that(1,2)
    by (intro exI [of _ "n + tab (v div 2 ^ n)"]) auto
  have dd: "unat (drop_bit 8 (drop_bit 16 (of_nat v :: u32))) = v div 2 ^ 24"
    using d [of 24] by (simp add: drop_bit_drop_bit)
  have zz: "drop_bit 8 (drop_bit 16 (of_nat v :: u32)) = 0 \<longleftrightarrow> v div 2 ^ 24 = 0"
    using z [of 24] by (simp add: drop_bit_drop_bit)
  show ?thesis
  proof (cases "v div 2 ^ 16 = 0")
    case False
    show ?thesis
    proof (cases "v div 2 ^ 24 = 0")
      case True
      then have "v div 2 ^ 16 < 256"
        by (simp add: div_eq_0_iff less_mult_imp_div_less)
      then show ?thesis
        using shift [of 16 16] False True by (simp add: QT_INT_LOG_def d z dd zz)
    next
      case nz: False
      have "v div 2 ^ 24 < 256"
        using assms by (simp add: less_mult_imp_div_less)
      then show ?thesis
        using shift [of 24 24] False nz by (simp add: QT_INT_LOG_def d z dd zz)
    qed
  next
    case lo: True
    show ?thesis
    proof (cases "v div 2 ^ 8 = 0")
      case True
      then have "v < 256"
        by (simp add: div_eq_0_iff)
      then show ?thesis
        using shift [of 0 0] lo True assms u by (simp add: QT_INT_LOG_def d z)
    next
      case False
      have "v div 2 ^ 8 < 256"
        using lo by (simp add: div_eq_0_iff less_mult_imp_div_less)
      then show ?thesis
        using shift [of 8 8] lo False by (simp add: QT_INT_LOG_def d z)
    qed
  qed
qed

section \<open>The stack of ranges\<close>

definition segment :: "nat \<Rightarrow> nat \<Rightarrow> 'a list \<Rightarrow> 'a list" where
  "segment b e xs = take (e - b) (drop b xs)"

lemma segment_split: "b \<le> e \<Longrightarrow> xs = take b xs @ segment b e xs @ drop e xs"
  by (metis add_diff_inverse_nat append_take_drop_id drop_drop add.commute linorder_not_less segment_def)

lemma set_segment: "e \<le> length xs \<Longrightarrow> set (segment b e xs) = {xs ! k | k. b \<le> k \<and> k < e}"
proof -
  assume "e \<le> length xs"
  then have "segment b e xs = map (\<lambda>i. xs ! (b + i)) [0..<e - b]"
    by (intro nth_equalityI) (auto simp: segment_def)
  then have "set (segment b e xs) = (\<lambda>i. xs ! (b + i)) ` {..<e - b}"
    by (simp add: atLeast0LessThan)
  also have "\<dots> = {xs ! k | k. b \<le> k \<and> k < e}"
  proof (intro equalityI subsetI)
    fix x assume "x \<in> {xs ! k | k. b \<le> k \<and> k < e}"
    then obtain k where "x = xs ! k" "b \<le> k" "k < e"
      by blast
    then have "x = xs ! (b + (k - b))" "k - b < e - b"
      by simp_all
    then show "x \<in> (\<lambda>i. xs ! (b + i)) ` {..<e - b}"
      by blast
  qed auto
  finally show ?thesis .
qed

lemma mset_segment_eq:
  assumes "length ys = length xs" "b \<le> e" "e \<le> length xs"
    and same: "\<forall>k. k < b \<or> e \<le> k \<longrightarrow> ys ! k = xs ! k" and "mset ys = mset xs"
  shows "mset (segment b e ys) = mset (segment b e xs)"
proof -
  have "take b ys = take b xs" "drop e ys = drop e xs"
    using assms by (auto intro!: nth_equalityI)
  moreover have "mset xs = mset (take b xs) + mset (segment b e xs) + mset (drop e xs)"
    "mset ys = mset (take b ys) + mset (segment b e ys) + mset (drop e ys)"
    using segment_split [OF assms(2), of xs] segment_split [OF assms(2), of ys]
    by (metis mset_append union_assoc)+
  ultimately show ?thesis
    using assms(5) by simp
qed

definition apart :: "nat \<times> nat \<Rightarrow> nat \<times> nat \<Rightarrow> bool" where
  "apart r r' \<longleftrightarrow> snd r \<le> fst r' \<or> snd r' \<le> fst r"

definition covered :: "(nat \<times> nat) list \<Rightarrow> nat \<Rightarrow> nat \<Rightarrow> bool" where
  "covered st p q \<longleftrightarrow> (\<exists>r \<in> set st. fst r \<le> p \<and> q < snd r)"

definition stack_ok :: "nat \<Rightarrow> 'a::linorder list \<Rightarrow> (nat \<times> nat) list \<Rightarrow> bool" where
  "stack_ok N arr st \<longleftrightarrow>
     length arr = N \<and> (\<forall>r \<in> set st. fst r \<le> snd r \<and> snd r \<le> N) \<and> sorted_wrt apart st
     \<and> (\<forall>p q. p < q \<and> q < N \<longrightarrow> arr ! p \<le> arr ! q \<or> covered st p q)"

lemma stack_ok_pop:
  assumes "stack_ok N arr ((b, e) # st)" "e \<le> b + 1"
  shows "stack_ok N arr st"
  using assms unfolding stack_ok_def covered_def by fastforce

lemma stack_ok_outside:
  assumes "stack_ok N arr ((b, e) # st)" "p < q" "q < N" "covered st p q" "b \<le> k" "k < e"
  shows "k \<noteq> p" "k \<noteq> q"
proof -
  obtain r where "r \<in> set st" "fst r \<le> p" "q < snd r"
    using assms(4) by (auto simp: covered_def)
  moreover have "apart (b, e) r"
    using assms(1) \<open>r \<in> set st\<close> by (auto simp: stack_ok_def)
  ultimately show "k \<noteq> p" "k \<noteq> q"
    using assms(2,5,6) by (auto simp: apart_def)
qed

text \<open>Splitting the range on top at \<open>l\<close>.\<close>

lemma stack_ok_split:
  assumes ok: "stack_ok N arr ((b, e) # st)" and l: "b \<le> l" "l < e"
    and len: "length arr' = length arr" and same: "\<forall>k. k < b \<or> e \<le> k \<longrightarrow> arr' ! k = arr ! k"
    and perm: "mset arr' = mset arr"
    and lo: "\<forall>k. b \<le> k \<and> k < l \<longrightarrow> arr' ! k \<le> arr' ! l"
    and hi: "\<forall>k. l < k \<and> k < e \<longrightarrow> arr' ! l \<le> arr' ! k"
  shows "stack_ok N arr' ((b, l) # (l + 1, e) # st)"
proof -
  have N: "length arr = N" "e \<le> N" "b \<le> e"
    using ok by (auto simp: stack_ok_def)
  have set_eq: "set (segment b e arr') = set (segment b e arr)"
    using mset_segment_eq [OF len _ _ same perm] N by (intro mset_eq_setD) auto
  have from_old: "\<exists>k'. b \<le> k' \<and> k' < e \<and> arr' ! k = arr ! k'" if "b \<le> k" "k < e" for k
    using set_eq that N len set_segment [of e arr b] set_segment [of e arr' b] by auto
  have old: "arr ! p \<le> arr ! q" if "p < q" "q < N" "p < b \<and> b \<le> q \<and> q < e \<or> b \<le> p \<and> p < e \<and> e \<le> q" for p q
  proof (rule ccontr)
    assume "\<not> arr ! p \<le> arr ! q"
    then have "covered ((b, e) # st) p q"
      using ok that by (auto simp: stack_ok_def)
    then have "covered st p q"
      using that(3) by (auto simp: covered_def)
    then show False
      using stack_ok_outside [OF ok that(1,2)] that(3) by blast
  qed
  have "arr' ! p \<le> arr' ! q \<or> covered ((b, l) # (l + 1, e) # st) p q" if pq: "p < q" "q < N" for p q
  proof -
    consider "(p < b \<or> e \<le> p) \<and> (q < b \<or> e \<le> q)" | "p < b" "b \<le> q" "q < e"
      | "b \<le> p" "p < e" "e \<le> q" | "b \<le> p" "q < e"
      using pq by linarith
    then show ?thesis
    proof cases
      case 1
      then have "arr' ! p = arr ! p" "arr' ! q = arr ! q"
        using same by auto
      moreover have "arr ! p \<le> arr ! q \<or> covered ((b, e) # st) p q"
        using ok pq by (auto simp: stack_ok_def)
      ultimately show ?thesis
        using 1 pq by (auto simp: covered_def)
    next
      case 2
      then obtain k where "b \<le> k" "k < e" "arr' ! q = arr ! k"
        using from_old by blast
      then show ?thesis
        using old [of p k] 2 same N by auto
    next
      case 3
      then obtain k where "b \<le> k" "k < e" "arr' ! p = arr ! k"
        using from_old pq by blast
      then show ?thesis
        using old [of k q] 3 same pq by auto
    next
      case 4
      then consider "q < l" | "l < p" | "p \<le> l" "l \<le> q"
        by linarith
      then show ?thesis
      proof cases
        case 3
        then have "arr' ! p \<le> arr' ! l" "arr' ! l \<le> arr' ! q"
          using lo hi 4 by (metis le_neq_implies_less order_refl)+
        then show ?thesis
          using order_trans by blast
      qed (use 4 in \<open>auto simp: covered_def\<close>)
    qed
  qed
  moreover have "\<forall>r \<in> set st. apart (b, e) r" "sorted_wrt apart st"
    using ok by (auto simp: stack_ok_def)
  then have "sorted_wrt apart ((b, l) # (l + 1, e) # st)"
    using l by (fastforce simp: apart_def)
  ultimately show ?thesis
    using ok l N len unfolding stack_ok_def by auto
qed

lemma stack_ok_swap: "stack_ok N arr (r # r' # st) \<Longrightarrow> stack_ok N arr (r' # r # st)"
  unfolding stack_ok_def covered_def by (auto simp: apart_def)

text \<open>The size condition that bounds the depth, and the measure that bounds the iterations.\<close>

fun fits :: "nat \<Rightarrow> (nat \<times> nat) list \<Rightarrow> bool" where
  "fits N [] \<longleftrightarrow> True"
| "fits N ((b, e) # st) \<longleftrightarrow> (e - b) * 2 ^ length st \<le> N \<and> fits N st"

definition work :: "(nat \<times> nat) list \<Rightarrow> nat" where
  "work st = (\<Sum>(b, e) \<leftarrow> st. 2 * (e - b) + 1)"

lemma work_simps [simp]: "work [] = 0" "work ((b, e) # st) = 2 * (e - b) + 1 + work st"
  by (simp_all add: work_def)

lemma fits_split:
  assumes "fits N ((b, e) # st)" "b \<le> l" "l < e"
  shows "l - b \<le> e - (l + 1) \<Longrightarrow> fits N ((b, l) # (l + 1, e) # st)"
    and "e - (l + 1) \<le> l - b \<Longrightarrow> fits N ((l + 1, e) # (b, l) # st)"
proof -
  have *: "n * 2 ^ length st \<le> N" if "n \<le> e - b" for n
    using assms(1) that by (meson fits.simps(2) le_trans mult_le_mono1)
  have "2 * (l - b) \<le> e - b" if "l - b \<le> e - (l + 1)"
    using that assms by linarith
  then show "fits N ((b, l) # (l + 1, e) # st)" if "l - b \<le> e - (l + 1)"
    using assms(1) * [of "2 * (l - b)"] * [of "e - (l + 1)"] that assms(2,3) by (simp add: mult_ac)
  have "2 * (e - (l + 1)) \<le> e - b" if "e - (l + 1) \<le> l - b"
    using that assms by linarith
  then show "fits N ((l + 1, e) # (b, l) # st)" if "e - (l + 1) \<le> l - b"
    using assms(1) * [of "2 * (e - (l + 1))"] * [of "l - b"] that assms(2,3) by (simp add: mult_ac)
qed

lemma fits_depth:
  assumes "fits N ((b, e) # st)" "b + 1 < e" "is_log N r"
  shows "length st < r"
proof (rule ccontr)
  assume "\<not> length st < r"
  then have "(2::nat) ^ r \<le> 2 ^ length st"
    by simp
  moreover have "2 * 2 ^ length st \<le> (e - b) * 2 ^ length st"
    using assms(2) by (intro mult_le_mono1) simp
  moreover have "(e - b) * 2 ^ length st \<le> N" "N < 2 * 2 ^ r"
    using assms(1,3) by (simp_all add: is_log_def)
  ultimately show False
    by linarith
qed

text \<open>The arrays \<open>beg\<close> and \<open>end\<close> hold the stack, the bottom first.\<close>

definition holds_stack :: "int list \<Rightarrow> int list \<Rightarrow> (nat \<times> nat) list \<Rightarrow> bool" where
  "holds_stack beg end' st \<longleftrightarrow>
     length beg = length end' \<and> length st \<le> length beg
     \<and> take (length st) beg = map (int \<circ> fst) (rev st) \<and> take (length st) end' = map (int \<circ> snd) (rev st)"

lemma take_Suc_update: "n < length xs \<Longrightarrow> take (Suc n) (xs[n := x]) = take n xs @ [x]"
  by (simp add: take_Suc_conv_app_nth)

lemma holds_stack_top:
  assumes "holds_stack beg end' ((b, e) # st)"
  shows "int_get beg (int (length st)) = Some (int b)" "int_get end' (int (length st)) = Some (int e)"
    and "length st < length beg" "length end' = length beg" "holds_stack beg end' st"
proof -
  have h: "length beg = length end'" "length st < length beg"
    "take (Suc (length st)) beg = map (int \<circ> fst) (rev st) @ [int b]"
    "take (Suc (length st)) end' = map (int \<circ> snd) (rev st) @ [int e]"
    using assms by (auto simp: holds_stack_def)
  then show "holds_stack beg end' st" "length st < length beg" "length end' = length beg"
    by (simp_all add: holds_stack_def take_Suc_conv_app_nth)
  show "int_get beg (int (length st)) = Some (int b)" "int_get end' (int (length st)) = Some (int e)"
    using h by (simp_all add: take_Suc_conv_app_nth)
qed

lemma holds_stack_push2:
  assumes "holds_stack beg end' st" "Suc (length st) < length beg"
    and "beg' = beg[length st := int b0, Suc (length st) := int b1]"
    and "end'' = end'[length st := int e0, Suc (length st) := int e1]"
  shows "holds_stack beg' end'' ((b1, e1) # (b0, e0) # st)"
  using assms by (simp add: holds_stack_def take_Suc_update)

section \<open>The sort\<close>

lemma qsort_step_pop:
  assumes "holds_stack beg end' ((b, e) # st)" "int (length st) < mx" "e \<le> b + 1"
  shows "qsort_step mx (arr, beg, end', int (length st)) = Some (arr, beg, end', int (length st) - 1)"
  using assms(2,3) holds_stack_top [OF assms(1)] by (simp add: qsort_step_def)

lemma qsort_step_split:
  assumes h: "holds_stack beg end' ((b, e) # st)" and mx: "int (Suc (length st)) < mx" "length beg = nat mx"
    and e: "b + 1 < e" "e \<le> length arr"
    and p: "partition_loop arr (arr ! b) b (e - 1) = Some (arr', l)" "b \<le> l" "l < e" "length arr' = length arr"
  obtains beg' end'' top where "qsort_step mx (arr, beg, end', int (length st))
       = Some (arr'[l := arr ! b], beg', end'', int (Suc (length st)))"
     "holds_stack beg' end'' (top @ st)" "length beg' = length beg"
     "if e - (l + 1) > l - b then top = [(b, l), (l + 1, e)] else top = [(l + 1, e), (b, l)]"
proof -
  note top = holds_stack_top [OF h]
  have n: "nat (int (Suc (length st))) = Suc (length st)" "Suc (length st) < length beg"
    using mx by linarith+
  have i: "int_get beg (int (length st)) = Some (int b)" "int_get end' (int (length st)) = Some (int e)"
    by (fact top)+
  have R: "nat (int e - 1) = e - 1"
    by linarith
  have sub: "int (length st) + 1 = int (Suc (length st))"
    by simp
  show ?thesis
  proof (cases "e - (l + 1) > l - b")
    case True
    then have *: "int e - (int l + 1) > int l - int b"
      using p by linarith
    let ?beg = "beg[Suc (length st) := int l + 1, Suc (length st) := int b, length st := int l + 1]"
    let ?fin = "end'[Suc (length st) := int e, length st := int l, Suc (length st) := int l, length st := int e]"
    from * have "qsort_step mx (arr, beg, end', int (length st))
      = Some (arr'[l := arr ! b], ?beg, ?fin, int (Suc (length st)))"
      using mx e p n top i R unfolding qsort_step_def by (simp add: int_get_def int_set_def nat_add_distrib)
    moreover have "holds_stack ?beg ?fin ([(b, l), (l + 1, e)] @ st)"
      unfolding append.simps
      using top(5) n by (intro holds_stack_push2 [of beg end' st]) (auto simp: list_update_swap [of "Suc _"] add.commute)
    ultimately show ?thesis
      using True by (intro that [of ?beg ?fin "[(b, l), (l + 1, e)]"]) simp_all
  next
    case False
    then have *: "\<not> int e - (int l + 1) > int l - int b"
      using p by linarith
    let ?beg = "beg[Suc (length st) := int l + 1]"
    let ?fin = "end'[Suc (length st) := int e, length st := int l]"
    from * have "qsort_step mx (arr, beg, end', int (length st))
      = Some (arr'[l := arr ! b], ?beg, ?fin, int (Suc (length st)))"
      using mx e p n top i R unfolding qsort_step_def by (simp add: int_get_def int_set_def nat_add_distrib)
    moreover have "beg = beg[length st := int b]"
      using top by (metis arr_get_simps(1) int_get_def list_update_id nat_int option.distinct(1))
    then have "holds_stack ?beg ?fin ([(l + 1, e), (b, l)] @ st)"
      unfolding append.simps
      using top(5) n by (intro holds_stack_push2 [of beg end' st]) (auto simp: list_update_swap [of "Suc _"] add.commute)
    ultimately show ?thesis
      using False by (intro that [of ?beg ?fin "[(l + 1, e), (b, l)]"]) simp_all
  qed
qed

lemma qsort_loop_sorts:
  assumes "stack_ok N arr st" "fits N st" "holds_stack beg end' st" "work st \<le> fuel"
    and "is_log N r" "int r + 1 < mx" "length beg = nat mx"
    and "int (length st) \<le> mx"
  shows "\<exists>arr'. qsort_loop fuel mx (arr, beg, end', int (length st) - 1) = Some arr'
    \<and> sorted arr' \<and> mset arr' = mset arr"
  using assms
proof (induction fuel arbitrary: arr st beg end')
  case 0
  then have "st = []"
    by (cases st) auto
  then show ?case
    using 0 by (auto simp: stack_ok_def covered_def sorted_iff_nth_mono_less)
next
  case (Suc fuel)
  show ?case
  proof (cases st)
    case Nil
    then show ?thesis
      using Suc.prems by (auto simp: stack_ok_def covered_def sorted_iff_nth_mono_less)
  next
    case (Cons be st')
    obtain b e where st: "st = (b, e) # st'"
      using Cons by (cases be) auto
    show ?thesis
    proof (cases "e \<le> b + 1")
      case True
      then have "qsort_step mx (arr, beg, end', int (length st')) = Some (arr, beg, end', int (length st') - 1)"
        using Suc.prems st by (intro qsort_step_pop) auto
      moreover have "stack_ok N arr st'" "fits N st'" "holds_stack beg end' st'" "work st' \<le> fuel"
        using Suc.prems st True stack_ok_pop holds_stack_top(5) by auto
      ultimately show ?thesis
        using Suc.IH [of arr st' beg end'] Suc.prems st by auto
    next
      case False
      have be: "b \<le> e" "e \<le> N" "length arr = N"
        using Suc.prems st by (auto simp: stack_ok_def)
      have "b \<le> e - 1" "e - 1 < length arr"
        using False be by auto
      then obtain arr1 l where p: "partition_loop arr (arr ! b) b (e - 1) = Some (arr1, l)"
          "partitioned arr (arr ! b) b (e - 1) arr1 l"
        using partition_loop_spec by blast
      have l: "b \<le> l" "l < e" "length arr1 = length arr"
        using p(2) False by (auto simp: partitioned_def)
      have depth: "length st' < r"
        using fits_depth [of N b e st' r] Suc.prems st False by simp
      obtain beg' end'' top where
        s: "qsort_step mx (arr, beg, end', int (length st'))
              = Some (arr1[l := arr ! b], beg', end'', int (Suc (length st')))"
          "holds_stack beg' end'' (top @ st')" "length beg' = length beg"
          "if e - (l + 1) > l - b then top = [(b, l), (l + 1, e)] else top = [(l + 1, e), (b, l)]"
        using qsort_step_split [of beg end' b e st' mx arr arr1 l] Suc.prems st False be l p depth
        by auto
      have m: "mset (arr1[l := arr ! b]) = mset arr"
        using p(2) be False by (auto simp: partitioned_def)
      have ok: "stack_ok N (arr1[l := arr ! b]) ((b, l) # (l + 1, e) # st')"
        using p(2) Suc.prems st False be l m by (intro stack_ok_split [of N arr]) (auto simp: partitioned_def)
      have top: "stack_ok N (arr1[l := arr ! b]) (top @ st')" "fits N (top @ st')" "work (top @ st') \<le> fuel"
        "length top = 2"
        using s(4) ok stack_ok_swap [OF ok] fits_split [of N b e st' l] Suc.prems(2,4) st l
        by (auto split: if_splits)
      then have "\<exists>arr'. qsort_loop fuel mx (arr1[l := arr ! b], beg', end'', int (length (top @ st')) - 1) = Some arr'
          \<and> sorted arr' \<and> mset arr' = mset (arr1[l := arr ! b])"
        using Suc.IH [of "arr1[l := arr ! b]" "top @ st'" beg' end''] s Suc.prems depth be False
        by auto
      then show ?thesis
        using s(1) m top(4) st by auto
    qed
  qed
qed

lemma drf_qsort_empty: "drf_qsort junk ([]::'a::linorder list) 0 = Some []"
proof -
  have "qsort_MAX 0 = 4"
      by code_simp
  moreover have "qsort_step 4 ([], [0, junk, junk, junk], [0, junk, junk, junk], 0)
        = Some ([] :: 'a::linorder list, [0, junk, junk, junk], [0, junk, junk, junk], -1)"
      by (simp add: qsort_step_def int_get_def)
  ultimately show ?thesis
    by (simp add: drf_qsort_def int_set_def numeral_2_eq_2 numeral_eq_Suc)
qed

lemma qsort_loop_start:
  assumes "is_log (length arr) r"
  shows "\<exists>arr'. qsort_loop (2 * length arr + 2) (int r + 5)
        (arr, (replicate (nat (int r + 5)) junk)[0 := 0], (replicate (nat (int r + 5)) junk)[0 := int (length arr)],
          0) = Some arr' \<and> sorted arr' \<and> mset arr' = mset arr"
proof -
  have "holds_stack ((replicate (nat (int r + 5)) junk)[0 := 0]) ((replicate (nat (int r + 5)) junk)[0 := int (length arr)])
        [(0, length arr)]"
    by (simp add: holds_stack_def take_Suc_update)
  moreover have "stack_ok (length arr) arr [(0, length arr)]" by (auto simp: stack_ok_def covered_def)
  ultimately show ?thesis
      using assms qsort_loop_sorts [of "length arr" arr "[(0, length arr)]" "(replicate (nat (int r + 5)) junk)[0 := 0]" "(replicate (nat (int r + 5)) junk)[0 := int (length arr)]" "2 * length arr + 2" r "int r + 5"] by simp
qed
lemma drf_qsort_nonempty:
  assumes "length arr < 2 ^ 32" "arr \<noteq> []" 
  shows "\<exists>arr'. drf_qsort junk arr (length arr) = Some arr' \<and> sorted arr' \<and> mset arr' = mset arr"
proof -
    obtain r where r: "QT_INT_LOG (of_nat (length arr)) = of_nat r" "r < 32" "is_log (length arr) r"
      using QT_INT_LOG_correct [of "length arr"] assms by auto
    have mx: "qsort_MAX (length arr) = int r + 5"
    proof -
      have "QT_INT_LOG (of_nat (length arr)) + 5 = (of_nat (r + 5) :: u32)"
        by (simp add: r)
      then show ?thesis
        using r(2) by (simp add: qsort_MAX_def uint_nat unat_of_nat take_bit_nat_eq_self del: of_nat_add)
    qed
  show ?thesis
    using qsort_loop_start [OF r(3), of junk]
    by (simp add: drf_qsort_def mx int_set_def Let_def del: qsort_loop.simps)
qed

lemma drf_qsort_sorts:
  assumes "length arr < 2 ^ 32"
  shows "drf_qsort junk arr (length arr) = Some (sort arr)"
proof (cases "arr = []")
  case False
  then obtain arr' where "drf_qsort junk arr (length arr) = Some arr'" "sorted arr'" "mset arr' = mset arr"
    using drf_qsort_nonempty assms by blast
  then show ?thesis
    by (auto dest: properties_for_sort)
qed (simp add: drf_qsort_empty)

end
