(* ===== verification/Qutil_Merge.thy ===== *)
theory Qutil_Merge
  imports Qutil_Sort
begin

text \<open>
  Correctness of the parallel merge sort: the in-place merge, the independence of the tasks of
  one phase from their order, and the passes over blocks of doubling size.
\<close>

section \<open>The in-place merge\<close>

fun merged :: "'a::linorder list \<Rightarrow> 'a list \<Rightarrow> 'a list" where
  "merged (x # xs) (y # ys) = (if x < y then x # merged xs (y # ys) else y # merged (x # xs) ys)"
| "merged [] ys = ys"
| "merged xs [] = xs"

lemma mset_merged: "mset (merged xs ys) = mset xs + mset ys"
  by (induction xs ys rule: merged.induct) auto

lemma sorted_merged: "sorted xs \<Longrightarrow> sorted ys \<Longrightarrow> sorted (merged xs ys)"
proof (induction xs ys rule: merged.induct)
  case (1 x xs y ys)
  then show ?case
    by (auto simp: set_mset_mset [symmetric] mset_merged simp del: set_mset_mset)
qed auto

lemma merged_eq_sort: "sorted xs \<Longrightarrow> sorted ys \<Longrightarrow> merged xs ys = sort (xs @ ys)"
  by (rule properties_for_sort [symmetric]) (simp_all add: mset_merged sorted_merged)

lemma shift_up_stop: "k < start \<Longrightarrow> shift_up array start k = Some array"
  by (simp add: shift_up.simps [of _ _ k])

lemma shift_up_moves:
  assumes "xs \<noteq> []" "start = length pre"
  shows "shift_up (pre @ xs @ y # post) start (start + length xs - 1) = Some (pre @ hd xs # xs @ post)"
  using assms(1)
proof (induction xs arbitrary: y post rule: rev_induct)
  case (snoc x xs)
  let ?k = "start + length xs"
  have upd: "(pre @ (xs @ [x]) @ y # post)[?k + 1 := x] = pre @ xs @ x # x # post"
    using assms(2) by (simp add: list_update_append)
  have step: "shift_up (pre @ (xs @ [x]) @ y # post) start (start + length (xs @ [x]) - 1)
      = (if ?k = 0 then Some (pre @ xs @ x # x # post)
         else shift_up (pre @ xs @ x # x # post) start (?k - 1))"
  proof -
    have "start + length (xs @ [x]) - 1 = ?k"
      by simp
    then show ?thesis
      using assms(2) upd by (simp only:, subst shift_up.simps) (simp add: nth_append)
  qed
  show ?case
  proof (cases "xs = []")
    case True
    then show ?thesis
      using step by (cases start) (auto simp: shift_up_stop)
  next
    case False
    then show ?thesis
      using step snoc.IH [of x "x # post"] by simp
  qed
qed simp

lemma mergesort_inner_merges:
  assumes "first_start a = length pre" "first_stop a + 1 = length pre + length xs"
    and "second_start a = length pre + length xs" "second_stop a + 1 = length pre + length xs + length ys"
  shows "qutil_mergesort_inner a (pre @ xs @ ys @ post) = Some (pre @ merged xs ys @ post)"
  using assms
proof (induction xs ys arbitrary: a pre rule: merged.induct)
  case (1 x xs y ys)
  let ?arr = "pre @ (x # xs) @ (y # ys) @ post"
  have g: "arr_get ?arr (first_start a) = Some x" "arr_get ?arr (second_start a) = Some y"
    using "1.prems" by (simp_all add: nth_append)
  have c: "first_start a \<le> first_stop a" "second_start a \<le> second_stop a" "0 < second_start a"
    using "1.prems" by simp_all
  show ?case
  proof (cases "x < y")
    case True
    then have "qutil_mergesort_inner a ?arr
        = qutil_mergesort_inner (a\<lparr>first_start := first_start a + 1\<rparr>) ((pre @ [x]) @ xs @ (y # ys) @ post)"
      using g c by (subst qutil_mergesort_inner.simps) simp
    also have "\<dots> = Some ((pre @ [x]) @ merged xs (y # ys) @ post)"
      using "1.prems" by (intro "1.IH"(1) [OF True]) auto
    finally show ?thesis
      using True by simp
  next
    case False
    have "shift_up ?arr (first_start a) (second_start a - 1) = Some (pre @ x # (x # xs) @ ys @ post)"
      using shift_up_moves [of "x # xs" "first_start a" pre y "ys @ post"] "1.prems" by simp
    then have "qutil_mergesort_inner a ?arr
        = qutil_mergesort_inner (a\<lparr>first_start := first_start a + 1, first_stop := first_stop a + 1,
              second_start := second_start a + 1\<rparr>) ((pre @ [y]) @ (x # xs) @ ys @ post)"
      using g c False "1.prems"(1) by (subst qutil_mergesort_inner.simps) simp
    also have "\<dots> = Some ((pre @ [y]) @ merged (x # xs) ys @ post)"
      using "1.prems" by (intro "1.IH"(2) [OF False]) auto
    finally show ?thesis
      using False by simp
  qed
qed (subst qutil_mergesort_inner.simps, simp)+

section \<open>Tasks on disjoint ranges\<close>

definition sort_range :: "nat \<times> nat \<Rightarrow> 'a::linorder list \<Rightarrow> 'a list" where
  "sort_range r xs = take (fst r) xs @ sort (segment (fst r) (snd r) xs) @ drop (snd r) xs"

lemma length_segment: "e \<le> length xs \<Longrightarrow> length (segment b e xs) = e - b"
  by (simp add: segment_def)

lemma nth_segment: "i < e - b \<Longrightarrow> e \<le> length xs \<Longrightarrow> segment b e xs ! i = xs ! (b + i)"
  by (simp add: segment_def)

lemma segment_eqI:
  assumes "length ys = length xs" "\<And>k. b \<le> k \<Longrightarrow> k < e \<Longrightarrow> ys ! k = xs ! k" "e \<le> length xs"
  shows "segment b e ys = segment b e xs"
  using assms by (intro nth_equalityI) (auto simp: length_segment nth_segment)

lemma sort_range_props:
  assumes "fst r \<le> snd r" "snd r \<le> length xs"
  shows "length (sort_range r xs) = length xs"
    and "mset (sort_range r xs) = mset xs"
    and "k < fst r \<or> snd r \<le> k \<Longrightarrow> sort_range r xs ! k = xs ! k"
    and "segment (fst r) (snd r) (sort_range r xs) = sort (segment (fst r) (snd r) xs)"
proof -
  show l: "length (sort_range r xs) = length xs"
    using assms by (simp add: sort_range_def length_segment)
  have "mset xs = mset (take (fst r) xs) + mset (segment (fst r) (snd r) xs) + mset (drop (snd r) xs)"
    using segment_split [OF assms(1), of xs] by (metis mset_append union_assoc)
  then show "mset (sort_range r xs) = mset xs"
    by (simp add: sort_range_def)
  show "sort_range r xs ! k = xs ! k" if "k < fst r \<or> snd r \<le> k"
    using that assms by (auto simp: sort_range_def nth_append length_segment)
  show "segment (fst r) (snd r) (sort_range r xs) = sort (segment (fst r) (snd r) xs)"
    using assms by (simp add: sort_range_def segment_def [of _ _ "_ @ _"] length_segment)
qed

text \<open>
  \<open>task\<close> sorts the range \<open>r\<close> of every array in which that range satisfies \<open>Q\<close>. After a phase of
  such tasks on pairwise disjoint ranges, run in any order, every range is sorted and the rest of
  the array is as before.
\<close>

definition sorts :: "('a::linorder list \<Rightarrow> bool) \<Rightarrow> nat \<times> nat \<Rightarrow> ('a list \<Rightarrow> 'a list option) \<Rightarrow> bool" where
  "sorts Q r task \<longleftrightarrow> (\<forall>xs. snd r \<le> length xs \<and> Q (segment (fst r) (snd r) xs) \<longrightarrow> task xs = Some (sort_range r xs))"

lemma run_tasks_sorts:
  assumes "distinct order" "set order \<subseteq> {..<length tasks}"
    and "\<And>i. i \<in> set order \<Longrightarrow> sorts (Q i) (R i) (tasks ! i) \<and> fst (R i) \<le> snd (R i) \<and> snd (R i) \<le> length arr"
    and "\<And>i j. i \<in> set order \<Longrightarrow> j \<in> set order \<Longrightarrow> i \<noteq> j \<Longrightarrow> apart (R i) (R j)"
    and "\<And>i. i \<in> set order \<Longrightarrow> Q i (segment (fst (R i)) (snd (R i)) arr)"
  shows "\<exists>arr'. run_tasks tasks order arr = Some arr' \<and> length arr' = length arr \<and> mset arr' = mset arr
    \<and> (\<forall>i \<in> set order. segment (fst (R i)) (snd (R i)) arr' = sort (segment (fst (R i)) (snd (R i)) arr))
    \<and> (\<forall>k. (\<forall>i \<in> set order. k < fst (R i) \<or> snd (R i) \<le> k) \<longrightarrow> arr' ! k = arr ! k)"
  using assms
proof (induction order arbitrary: arr)
  case (Cons i order)
  let ?seg = "\<lambda>j xs. segment (fst (R j)) (snd (R j)) xs"
  have i: "sorts (Q i) (R i) (tasks ! i)" "fst (R i) \<le> snd (R i)" "snd (R i) \<le> length arr"
    using Cons.prems(3) [of i] by simp_all
  define arr1 where "arr1 = sort_range (R i) arr"
  note p = sort_range_props [OF i(2,3), folded arr1_def]
  have t: "(tasks ! i) arr = Some arr1" "i < length tasks"
    using Cons.prems(2) Cons.prems(5) [of i] i by (auto simp: sorts_def arr1_def)
  have same: "?seg j arr1 = ?seg j arr" if "j \<in> set order" for j
  proof (rule segment_eqI)
    have "apart (R i) (R j)"
      using Cons.prems(1,4) that by auto
    then show "arr1 ! k = arr ! k" if "fst (R j) \<le> k" "k < snd (R j)" for k
      using p(3) that by (auto simp: apart_def)
    show "snd (R j) \<le> length arr"
      using Cons.prems(3) that by simp
  qed (fact p(1))
  have "\<exists>arr'. run_tasks tasks order arr1 = Some arr' \<and> length arr' = length arr1 \<and> mset arr' = mset arr1
    \<and> (\<forall>i \<in> set order. ?seg i arr' = sort (?seg i arr1))
    \<and> (\<forall>k. (\<forall>i \<in> set order. k < fst (R i) \<or> snd (R i) \<le> k) \<longrightarrow> arr' ! k = arr1 ! k)"
  proof (rule Cons.IH)
    show "Q j (?seg j arr1)" if "j \<in> set order" for j
      using same [OF that] Cons.prems(5) that by simp
  qed (use Cons.prems p in auto)
  then obtain arr' where r: "run_tasks tasks order arr1 = Some arr'" "length arr' = length arr1"
      "mset arr' = mset arr1" "\<forall>j \<in> set order. ?seg j arr' = sort (?seg j arr1)"
      "\<forall>k. (\<forall>j \<in> set order. k < fst (R j) \<or> snd (R j) \<le> k) \<longrightarrow> arr' ! k = arr1 ! k"
    by blast
  have "?seg i arr' = ?seg i arr1"
  proof (rule segment_eqI)
    show "arr' ! k = arr1 ! k" if "fst (R i) \<le> k" "k < snd (R i)" for k
    proof (rule r(5) [rule_format])
      fix j assume j: "j \<in> set order"
      then have "apart (R i) (R j)"
        using Cons.prems(1,4) by auto
      then show "k < fst (R j) \<or> snd (R j) \<le> k"
        using that by (auto simp: apart_def)
    qed
  qed (use r p i in auto)
  then show ?case
    using t r p same by auto
qed simp

section \<open>The two kinds of tasks\<close>

lemma presort_sorts:
  assumes "b < e" "e - b < 2 ^ 32" "first_start a = b" "first_stop a + 1 = e"
  shows "sorts (\<lambda>_. True) (b, e) (qutil_mergesort_presort junk a)"
proof -
  have n: "first_stop a - first_start a + 1 = e - b" "first_start a + (e - b) = e"
    using assms by linarith+
  have "drf_qsort junk (segment b e xs) (e - b) = Some (sort (segment b e xs))" if "e \<le> length xs" for xs :: "'a list"
    using drf_qsort_sorts [of "segment b e xs" junk] that assms by (simp add: length_segment)
  then show ?thesis
    using n assms(3)
    by (auto simp: sorts_def qutil_mergesort_presort_def sort_range_def Let_def segment_def)
qed

definition two_runs :: "nat \<Rightarrow> 'a::linorder list \<Rightarrow> bool" where
  "two_runs c xs \<longleftrightarrow> sorted (take c xs) \<and> sorted (drop c xs)"

lemma merge_sorts:
  assumes "0 < c" "b + c < e" "first_start a = b" "first_stop a = b + c - 1" "second_start a = b + c"
    and "second_stop a + 1 = e"
  shows "sorts (two_runs c) (b, e) (qutil_mergesort_inner a)"
  unfolding sorts_def
proof (intro allI impI, elim conjE)
  fix xs :: "'a list"
  assume len: "snd (b, e) \<le> length xs" and runs: "two_runs c (segment (fst (b, e)) (snd (b, e)) xs)"
  let ?s = "segment b e xs"
  have "b \<le> e" "take c ?s @ drop c ?s @ drop e xs = ?s @ drop e xs"
    using assms(2) by (simp, metis append_assoc append_take_drop_id)
  then have split: "take b xs @ take c ?s @ drop c ?s @ drop e xs = xs"
    using segment_split by metis
  have "qutil_mergesort_inner a (take b xs @ take c ?s @ drop c ?s @ drop e xs)
      = Some (take b xs @ merged (take c ?s) (drop c ?s) @ drop e xs)"
    using assms len by (intro mergesort_inner_merges) (auto simp: length_segment)
  moreover have "merged (take c ?s) (drop c ?s) = sort ?s"
    using runs by (simp add: merged_eq_sort two_runs_def)
  ultimately show "qutil_mergesort_inner a xs = Some (sort_range (b, e) xs)"
    using split by (simp add: sort_range_def)
qed

section \<open>Blocks\<close>

definition block :: "nat \<Rightarrow> nat \<Rightarrow> nat \<Rightarrow> nat \<times> nat" where
  "block c len j = (j * c, min ((j + 1) * c) len)"

definition blocks_sorted :: "nat \<Rightarrow> 'a::linorder list \<Rightarrow> bool" where
  "blocks_sorted c xs \<longleftrightarrow>
     (\<forall>j. j * c < length xs \<longrightarrow> sorted (segment (fst (block c (length xs) j)) (snd (block c (length xs) j)) xs))"

lemma block_simps [simp]: "fst (block c len j) = j * c" "snd (block c len j) = min ((j + 1) * c) len"
  by (simp_all add: block_def)

lemma block_apart: "i \<noteq> j \<Longrightarrow> apart (block c len i) (block c len j)"
proof -
  assume "i \<noteq> j"
  then consider "i + 1 \<le> j" | "j + 1 \<le> i"
    by linarith
  then have "(i + 1) * c \<le> j * c \<or> (j + 1) * c \<le> i * c"
    by cases (blast intro: mult_le_mono1)+
  then show ?thesis
    by (auto simp: apart_def)
qed

lemma blocks_sorted_one:
  assumes "blocks_sorted c xs" "length xs \<le> c"
  shows "sorted xs"
proof (cases "xs = []")
  case False
  then have "sorted (segment 0 (min c (length xs)) xs)"
    using assms(1) by (auto simp: blocks_sorted_def dest: spec [of _ 0])
  then show ?thesis
    using assms(2) by (simp add: segment_def min_def)
qed simp

text \<open>A block of double size is a run or two.\<close>

lemma take_segment: "take c (segment b e xs) = segment b (min (b + c) e) xs"
  by (simp add: segment_def min_def) arith

lemma drop_segment: "drop c (segment b e xs) = segment (b + c) e xs"
  by (simp add: segment_def drop_take add.commute)

lemma double_block_two_runs:
  assumes "blocks_sorted c xs" "j * (2 * c) + c < length xs"
  shows "two_runs c (segment (j * (2 * c)) (min ((j + 1) * (2 * c)) (length xs)) xs)"
proof -
  have "sorted (segment (2 * j * c) (min ((2 * j + 1) * c) (length xs)) xs)"
    using assms unfolding blocks_sorted_def by (auto dest!: spec [of _ "2 * j"] simp: algebra_simps)
  moreover have "sorted (segment ((2 * j + 1) * c) (min ((2 * j + 2) * c) (length xs)) xs)"
    using assms unfolding blocks_sorted_def by (auto dest!: spec [of _ "2 * j + 1"] simp: algebra_simps)
  ultimately show ?thesis
    using assms(2) by (simp add: two_runs_def take_segment drop_segment algebra_simps)
qed

lemma last_block_sorted:
  assumes "blocks_sorted c xs" "length xs \<le> j * (2 * c) + c" "j * (2 * c) < length xs"
  shows "sorted (segment (j * (2 * c)) (min ((j + 1) * (2 * c)) (length xs)) xs)"
proof -
  have "sorted (segment (2 * j * c) (min ((2 * j + 1) * c) (length xs)) xs)"
    using assms unfolding blocks_sorted_def by (auto dest!: spec [of _ "2 * j"] simp: algebra_simps)
  moreover have "min ((2 * j + 1) * c) (length xs) = min ((j + 1) * (2 * c)) (length xs)"
    using assms(2) by (simp add: algebra_simps min_def)
  ultimately show ?thesis
    by (simp add: algebra_simps)
qed

section \<open>Passes\<close>

definition merge_task :: "nat \<Rightarrow> nat \<Rightarrow> nat \<Rightarrow> merge_args" where
  "merge_task c len i = \<lparr>first_start = i, first_stop = i + c - 1, second_start = i + c,
     second_stop = (if i + 2 * c - 1 < len - 1 then i + 2 * c - 1 else len - 1)\<rparr>"

lemma pass_args_spec:
  assumes "0 < c" "0 < fuel" "len < i + fuel"
  shows "\<exists>n. pass_args fuel c len i = Some (map (\<lambda>j. merge_task c len (i + j * (2 * c))) [0..<n])
    \<and> (\<forall>j. j < n \<longleftrightarrow> i + j * (2 * c) < len - c)"
  using assms(2,3)
proof (induction fuel arbitrary: i)
  case (Suc fuel)
  show ?case
  proof (cases "i < len - c")
    case True
    then have "0 < fuel" "len < i + 2 * c + fuel"
      using Suc.prems assms(1) by linarith+
    then obtain n where n: "pass_args fuel c len (i + 2 * c)
          = Some (map (\<lambda>j. merge_task c len (i + 2 * c + j * (2 * c))) [0..<n])"
        "\<forall>j. j < n \<longleftrightarrow> i + 2 * c + j * (2 * c) < len - c"
      using Suc.IH by blast
    have "j < Suc n \<longleftrightarrow> i + j * (2 * c) < len - c" for j
      using n(2) True by (cases j) (auto simp: algebra_simps)
    moreover have "map (\<lambda>j. merge_task c len (i + j * (2 * c))) [0..<Suc n]
        = merge_task c len i # map (\<lambda>j. merge_task c len (i + 2 * c + j * (2 * c))) [0..<n]"
      by (simp add: map_upt_Suc algebra_simps del: upt_Suc)
    ultimately show ?thesis
      using n(1) True by (intro exI [of _ "Suc n"]) (simp add: merge_task_def del: upt_Suc)
  next
    case False
    then have "\<not> i + j * (2 * c) < len - c" for j
      by linarith
    then show ?thesis
      using False by (intro exI [of _ 0]) simp
  qed
qed simp

text \<open>Every task runs exactly once in each phase.\<close>

definition schedules :: "(nat \<Rightarrow> nat \<Rightarrow> nat list) \<Rightarrow> bool" where
  "schedules order \<longleftrightarrow> (\<forall>n k. distinct (order n k) \<and> set (order n k) = {..<k})"

lemma merge_pass:
  assumes "0 < c" "blocks_sorted c xs" "schedules order"
    and n: "\<forall>j. j < n \<longleftrightarrow> j * (2 * c) < length xs - c"
  shows "\<exists>xs'. run_tasks (map qutil_mergesort_inner (map (\<lambda>j. merge_task c (length xs) (j * (2 * c))) [0..<n]))
      (order p n) xs = Some xs' \<and> blocks_sorted (2 * c) xs' \<and> mset xs' = mset xs"
proof -
  let ?len = "length xs"
  let ?tasks = "map qutil_mergesort_inner (map (\<lambda>j. merge_task c ?len (j * (2 * c))) [0..<n])"
  let ?R = "block (2 * c) ?len"
  have o: "distinct (order p n)" "set (order p n) = {..<n}"
    using assms(3) by (auto simp: schedules_def)
  have lt: "j * (2 * c) + c < ?len" if "j < n" for j
    using n that by (metis less_diff_conv)
  have task: "sorts (two_runs c) (?R j) (?tasks ! j)" if "j < n" for j
  proof -
    have "sorts (two_runs c) (j * (2 * c), min ((j + 1) * (2 * c)) ?len)
        (qutil_mergesort_inner (merge_task c ?len (j * (2 * c))))"
      using lt [OF that] assms(1) by (intro merge_sorts) (auto simp: merge_task_def min_def)
    then show ?thesis
      using that by (simp add: block_def)
  qed
  have "\<exists>xs'. run_tasks ?tasks (order p n) xs = Some xs' \<and> length xs' = ?len \<and> mset xs' = mset xs
    \<and> (\<forall>j \<in> set (order p n). segment (fst (?R j)) (snd (?R j)) xs' = sort (segment (fst (?R j)) (snd (?R j)) xs))
    \<and> (\<forall>k. (\<forall>j \<in> set (order p n). k < fst (?R j) \<or> snd (?R j) \<le> k) \<longrightarrow> xs' ! k = xs ! k)"
    using o task lt double_block_two_runs [OF assms(2)]
    by (intro run_tasks_sorts [where Q = "\<lambda>_. two_runs c"]) (fastforce simp: block_apart)+
  then obtain xs' where r: "run_tasks ?tasks (order p n) xs = Some xs'" "length xs' = ?len" "mset xs' = mset xs"
      "\<forall>j < n. segment (fst (?R j)) (snd (?R j)) xs' = sort (segment (fst (?R j)) (snd (?R j)) xs)"
      "\<forall>k. (\<forall>j < n. k < fst (?R j) \<or> snd (?R j) \<le> k) \<longrightarrow> xs' ! k = xs ! k"
    using o by (auto simp: lessThan_iff Ball_def)
  have "sorted (segment (fst (?R j)) (snd (?R j)) xs')" if j: "j * (2 * c) < ?len" for j
  proof (cases "j < n")
    case True
    then show ?thesis
      using r(4) by simp
  next
    case False
    have "segment (fst (?R j)) (snd (?R j)) xs' = segment (fst (?R j)) (snd (?R j)) xs"
    proof (rule segment_eqI)
      show "xs' ! k = xs ! k" if "fst (?R j) \<le> k" "k < snd (?R j)" for k
      proof (rule r(5) [rule_format])
        fix i assume "i < n"
        then have "apart (?R i) (?R j)"
          using False by (intro block_apart) auto
        then show "k < fst (?R i) \<or> snd (?R i) \<le> k"
          using that by (auto simp: apart_def)
      qed
    qed (use r(2) in auto)
    moreover have "?len \<le> j * (2 * c) + c"
      using n False by (metis leI less_diff_conv)
    ultimately show ?thesis
      using last_block_sorted [OF assms(2) _ j] by simp
  qed
  then show ?thesis
    using r by (auto simp: blocks_sorted_def)
qed

lemma merge_passes_sort:
  assumes "0 < c" "blocks_sorted c xs" "schedules order" "0 < fuel" "length xs + 1 < c + fuel"
    and room: "\<And>j c'. c \<le> c' \<Longrightarrow> j * (2 * c') < length xs - c' \<Longrightarrow> j < room"
  shows "\<exists>xs'. merge_passes fuel order room p c (length xs) xs = Some xs' \<and> sorted xs' \<and> mset xs' = mset xs"
  using assms
proof (induction fuel arbitrary: p c xs)
  case (Suc fuel)
  show ?case
  proof (cases "c \<le> length xs")
    case False
    then show ?thesis
      using blocks_sorted_one [OF Suc.prems(2)] by simp
  next
    case True
    obtain n where n: "pass_args (Suc (length xs)) c (length xs) 0
          = Some (map (\<lambda>j. merge_task c (length xs) (j * (2 * c))) [0..<n])"
        "\<forall>j. j < n \<longleftrightarrow> j * (2 * c) < length xs - c"
      using pass_args_spec [of c "Suc (length xs)" "length xs" 0, unfolded add_0] Suc.prems(1) by blast
    have "n \<le> room"
    proof (cases n)
      case (Suc k)
      then have "k * (2 * c) < length xs - c"
        using n(2) lessI by blast
      then show ?thesis
        using Suc.prems(6) [of c k] \<open>n = Suc k\<close> by simp
    qed simp
    obtain xs1 where m: "run_tasks (map qutil_mergesort_inner (map (\<lambda>j. merge_task c (length xs) (j * (2 * c))) [0..<n]))
          (order p n) xs = Some xs1" "blocks_sorted (2 * c) xs1" "mset xs1 = mset xs"
      using merge_pass [OF Suc.prems(1-3) n(2)] by blast
    have len: "length xs1 = length xs"
      using m(3) by (rule mset_eq_length)
    then have "\<exists>xs'. merge_passes fuel order room (p + 1) (2 * c) (length xs1) xs1 = Some xs'
        \<and> sorted xs' \<and> mset xs' = mset xs1"
    proof (intro Suc.IH)
      show "j < room" if "2 * c \<le> c'" "j * (2 * c') < length xs1 - c'" for j c'
        using Suc.prems(6) [of c' j] that len by simp
    qed (use Suc.prems(1-5) m True len in simp_all)
    moreover have "merge_passes (Suc fuel) order room p c (length xs) xs
        = merge_passes fuel order room (p + 1) (2 * c) (length xs1) xs1"
      using n(1) m(1) \<open>n \<le> room\<close> True len by (simp add: mult.commute del: pass_args.simps)
    ultimately show ?thesis
      using m(3) by metis
  qed
qed simp

lemma presort_phase:
  assumes "schedules order" and n: "\<And>i. i < n \<longleftrightarrow> i * 10 < length xs"
  shows "\<exists>xs'. run_tasks (map (\<lambda>i. qutil_mergesort_presort junk (presort_args 10 (length xs) i)) [0..<n]) (order 0 n) xs
      = Some xs' \<and> blocks_sorted 10 xs' \<and> mset xs' = mset xs"
proof -
  let ?len = "length xs"
  let ?R = "block 10 ?len"
  let ?tasks = "map (\<lambda>i. qutil_mergesort_presort junk (presort_args 10 ?len i)) [0..<n]"
  have o: "distinct (order 0 n)" "set (order 0 n) = {..<n}"
    using assms(1) by (auto simp: schedules_def)
  have task: "sorts (\<lambda>_. True) (?R i) (?tasks ! i)" if "i < n" for i
  proof -
    have "sorts (\<lambda>_. True) (i * 10, min ((i + 1) * 10) ?len)
        (qutil_mergesort_presort junk (presort_args 10 ?len i))"
      using n [of i] that by (intro presort_sorts) (auto simp: presort_args_def min_def Let_def)
    then show ?thesis
      using that by (simp add: block_def)
  qed
  have lt: "i * 10 \<le> ?len" if "i < n" for i
    using n [of i] that by simp
  have "\<exists>xs'. run_tasks ?tasks (order 0 n) xs = Some xs' \<and> length xs' = ?len \<and> mset xs' = mset xs
    \<and> (\<forall>j \<in> set (order 0 n). segment (fst (?R j)) (snd (?R j)) xs' = sort (segment (fst (?R j)) (snd (?R j)) xs))
    \<and> (\<forall>k. (\<forall>j \<in> set (order 0 n). k < fst (?R j) \<or> snd (?R j) \<le> k) \<longrightarrow> xs' ! k = xs ! k)"
    using o task lt by (intro run_tasks_sorts [where Q = "\<lambda>_ _. True"]) (auto simp: block_apart)
  then show ?thesis
    using o n by (auto simp: blocks_sorted_def)
qed


lemma ceil_div:
  fixes len k :: nat
  assumes "0 < k"
  shows "i < len div k + (if len - len div k * k \<noteq> 0 then 1 else 0) \<longleftrightarrow> i * k < len"
proof -
  have "len = len div k * k + len mod k" "len mod k < k"
    using assms by simp_all
  moreover have "i < len div k + 1 \<longleftrightarrow> i * k < len" if "len mod k \<noteq> 0"
    using that assms less_Suc_eq_le
    by (metis Suc_eq_plus1 div_less_iff_less_mult dvd_eq_mod_eq_0 dvd_triv_right le_neq_implies_less less_eq_div_iff_mult_less_eq order_less_imp_le)
  moreover have "i < len div k \<longleftrightarrow> i * k < len" if "len mod k = 0"
    using that assms by (auto simp: dvd_eq_mod_eq_0 [symmetric])
  ultimately show ?thesis
    by (simp add: minus_div_mult_eq_mod)
qed
lemma qutil_mergesort_sorts:
  assumes "schedules order"
  shows "qutil_mergesort True order junk xs (length xs) = Some (sort xs)"
proof -
  let ?len = "length xs"
  define n where "n = ?len div 10 + (if ?len - ?len div 10 * 10 \<noteq> 0 then 1 else 0)"
  have "i < n \<longleftrightarrow> i * 10 < ?len" for i
    unfolding n_def by (rule ceil_div) simp
  then obtain xs1 where p: "run_tasks (map (\<lambda>i. qutil_mergesort_presort junk (presort_args 10 ?len i)) [0..<n])
      (order 0 n) xs = Some xs1" "blocks_sorted 10 xs1" "mset xs1 = mset xs"
    using presort_phase [OF assms] by blast
  have len: "length xs1 = ?len"
    using p(3) by (rule mset_eq_length)
  define room where "room = (?len - 10) div 20 + (if ?len - 10 - 20 * ((?len - 10) div 20) \<noteq> 0 then 1 else 0)"
  have "j < room" if "10 \<le> c" "j * (2 * c) < ?len - c" for j c
  proof -
    have "j * 20 \<le> j * (2 * c)" "?len - c \<le> ?len - 10"
      using that(1) by simp_all
    then have "j * 20 < ?len - 10"
      using that(2) by linarith
    then show ?thesis
      using ceil_div [of 20 j "?len - 10"] by (simp add: room_def mult.commute)
  qed
  then have "\<exists>xs'. merge_passes (?len + 1) order room 1 10 ?len xs1 = Some xs' \<and> sorted xs' \<and> mset xs' = mset xs"
    using merge_passes_sort [of 10 xs1 order "?len + 1" room 1] p assms len by (auto simp del: merge_passes.simps)
  then obtain xs' where m: "merge_passes (?len + 1) order room 1 10 ?len xs1 = Some xs'" "sorted xs'" "mset xs' = mset xs"
    by blast
  have "\<exists>xs'. qutil_mergesort True order junk xs ?len = Some xs' \<and> sorted xs' \<and> mset xs' = mset xs"
  proof (cases "10 \<le> ?len")
    case True
    then show ?thesis
      using p(1) m unfolding qutil_mergesort_def by (simp add: n_def room_def Let_def del: merge_passes.simps)
  next
    case False
    then show ?thesis
      using p blocks_sorted_one [of 10 xs1] len unfolding qutil_mergesort_def by (simp add: n_def Let_def)
  qed
  then show ?thesis
    by (auto dest: properties_for_sort)
qed

end
