(* ===== verification/Qutil_Props.thy ===== *)
theory Qutil_Props
  imports Qutil_Merge
begin

text \<open>The properties of the parallel utilities.\<close>

section \<open>Reductions\<close>

definition fold1 :: "('a \<Rightarrow> 'a \<Rightarrow> 'a) \<Rightarrow> 'a list \<Rightarrow> 'a" where
  "fold1 op xs = foldl op (hd xs) (tl xs)"

lemma reduce_loop_foldl:
  assumes "stop \<le> length arr"
  shows "reduce_loop op arr ret i stop = Some (foldl op ret (segment i stop arr))"
  using assms
proof (induction op arr ret i stop rule: reduce_loop.induct)
  case (1 op arr ret i stop)
  show ?case
  proof (cases "i < stop")
    case True
    then have "segment i stop arr = arr ! i # segment (i + 1) stop arr"
      using "1.prems" by (simp add: segment_def Cons_nth_drop_Suc [symmetric] take_Cons' )
    then show ?thesis
      using 1 True by (subst reduce_loop.simps) simp
  next
    case False
    then show ?thesis
      by (subst reduce_loop.simps) (simp add: segment_def)
  qed
qed

lemma inner_loop_fold1:
  assumes "start < stop" "stop \<le> length arr"
  shows "inner_loop op arr start stop addlast
    = Some (case addlast of None \<Rightarrow> fold1 op (segment start stop arr)
            | Some v \<Rightarrow> op (fold1 op (segment start stop arr)) v)"
proof -
  have "segment start stop arr = arr ! start # segment (start + 1) stop arr"
    using assms by (simp add: segment_def Cons_nth_drop_Suc [symmetric] take_Cons')
  then show ?thesis
    using assms by (cases addlast) (simp_all add: inner_loop_def reduce_loop_foldl fold1_def)
qed

lemma reduce_forks_spec:
  assumes "0 < chunk" "0 < fuel" "len < start + fuel"
  shows "\<exists>n. reduce_forks fuel chunk len start = Some n \<and> (\<forall>k. k < n \<longleftrightarrow> start + (k + 1) * chunk < len)"
  using assms(2,3)
proof (induction fuel arbitrary: start)
  case (Suc fuel)
  show ?case
  proof (cases "start + chunk < len")
    case True
    then have "0 < fuel" "len < start + chunk + fuel"
      using Suc.prems assms(1) by linarith+
    then obtain n where n: "reduce_forks fuel chunk len (start + chunk) = Some n"
        "\<forall>k. k < n \<longleftrightarrow> start + chunk + (k + 1) * chunk < len"
      using Suc.IH by blast
    have "k < Suc n \<longleftrightarrow> start + (k + 1) * chunk < len" for k
      using n(2) True by (cases k) (auto simp: algebra_simps)
    then show ?thesis
      using n(1) True by auto
  next
    case False
    then show ?thesis
      by (auto simp: algebra_simps)
  qed
qed simp

lemma foldl_assoc_op:
  assumes "\<And>x y z. op (op x y) z = op x (op y z)"
  shows "foldl op (op x y) ys = op x (foldl op y ys)"
  by (induction ys arbitrary: y) (simp_all add: assms)

lemma fold1_append:
  assumes "\<And>x y z. op (op x y) z = op x (op y z)" "xs \<noteq> []" "ys \<noteq> []"
  shows "fold1 op (xs @ ys) = op (fold1 op xs) (fold1 op ys)"
  using assms(2,3) foldl_assoc_op [of op, OF assms(1)]
  by (cases ys) (auto simp: fold1_def)

text \<open>The results of the tasks that have run.\<close>

definition rets_ok :: "('a \<Rightarrow> 'a \<Rightarrow> 'a) \<Rightarrow> nat \<Rightarrow> 'a list \<Rightarrow> nat \<Rightarrow> 'a option list \<Rightarrow> bool" where
  "rets_ok op chunk arr n rets \<longleftrightarrow>
     length rets = n \<and> (\<forall>k < n. rets ! k = None \<or> rets ! k = Some (fold1 op (take ((k + 1) * chunk) arr)))"

lemma rets_okD:
  "rets_ok op chunk arr n rets \<Longrightarrow> 0 < k \<Longrightarrow> k \<le> n
    \<Longrightarrow> rets ! (k - 1) = None \<or> rets ! (k - 1) = Some (fold1 op (take (k * chunk) arr))"
  by (cases k) (auto simp: rets_ok_def)

lemma segment_fold1:
  assumes "\<And>x y z. op (op x y) z = op x (op y z)" "\<And>x y. op x y = op y x"
    and "0 < b" "b < e" "e \<le> length arr"
  shows "op (fold1 op (segment b e arr)) (fold1 op (take b arr)) = fold1 op (take e arr)"
proof -
  have "take e arr = take b arr @ segment b e arr"
    using assms(4) by (metis add_diff_inverse_nat less_imp_le linorder_not_less segment_def take_add)
  moreover have "take b arr \<noteq> []" "segment b e arr \<noteq> []"
    using assms(3-5) by (auto simp: segment_def)
  ultimately show ?thesis
    using fold1_append [of op "take b arr" "segment b e arr"] assms(1,2) by metis
qed

lemma reduce_task_ok:
  assumes op: "\<And>x y z. op (op x y) z = op x (op y z)" "\<And>x y. op x y = op y x"
    and "0 < chunk" "rets_ok op chunk arr n rets" and n: "\<forall>k. k < n \<longrightarrow> (k + 1) * chunk < length arr"
  shows "\<exists>rets'. reduce_task op chunk arr k rets = Some rets' \<and> rets_ok op chunk arr n rets'
    \<and> (\<forall>j < n. rets ! j \<noteq> None \<longrightarrow> rets' ! j \<noteq> None)
    \<and> (k < n \<and> (k = 0 \<or> rets ! (k - 1) \<noteq> None) \<longrightarrow> rets' ! k \<noteq> None)"
proof (cases "k < length rets \<and> rets ! k = None \<and> (k = 0 \<or> rets ! (k - 1) \<noteq> None)")
  case True
  have len: "length rets = n"
    using assms(4) by (simp add: rets_ok_def)
  have b: "(k + 1) * chunk < length arr" "k * chunk + chunk = (k + 1) * chunk"
    using n True len by (auto simp: algebra_simps)
  have "inner_loop op arr (k * chunk) (k * chunk + chunk) (if k = 0 then None else rets ! (k - 1))
      = Some (fold1 op (take ((k + 1) * chunk) arr))"
  proof (cases "k = 0")
    case True
    then show ?thesis
      using b assms(3) by (simp add: inner_loop_fold1 segment_def)
  next
    case False
    then have "rets ! (k - 1) = Some (fold1 op (take (k * chunk) arr))"
      using True rets_okD [OF assms(4), of k] len by auto
    moreover have "op (fold1 op (segment (k * chunk) ((k + 1) * chunk) arr)) (fold1 op (take (k * chunk) arr))
        = fold1 op (take ((k + 1) * chunk) arr)"
      using False b assms(3) by (intro segment_fold1 op) auto
    ultimately show ?thesis
      using False b assms(3) by (simp add: inner_loop_fold1 add.commute)
  qed
  then show ?thesis
    using True assms(4) len by (auto simp: reduce_task_def rets_ok_def nth_list_update)
next
  case False
  then show ?thesis
    using assms(4) unfolding reduce_task_def by (auto simp: rets_ok_def)
qed

lemma reduce_tasks_ok:
  assumes op: "\<And>x y z. op (op x y) z = op x (op y z)" "\<And>x y. op x y = op y x"
    and "0 < chunk" "rets_ok op chunk arr n rets" and n: "\<forall>k. k < n \<longrightarrow> (k + 1) * chunk < length arr"
  shows "\<exists>rets'. reduce_tasks op chunk arr sched rets = Some rets' \<and> rets_ok op chunk arr n rets'"
  using assms(4)
proof (induction sched arbitrary: rets)
  case (Cons k sched)
  then show ?case
    using reduce_task_ok [where op = op, OF op assms(3) Cons.prems n, of k] by fastforce
qed simp

lemma reduce_tasks_append:
  "reduce_tasks op chunk arr (ks @ ls) rets
     = do { rets \<leftarrow> reduce_tasks op chunk arr ks rets; reduce_tasks op chunk arr ls rets }"
proof (induction ks arbitrary: rets)
  case (Cons k ks)
  then show ?case
    by (cases "reduce_task op chunk arr k rets") simp_all
qed simp

text \<open>Once every task has had its turn after the one before it, all have run.\<close>

lemma reduce_tasks_complete:
  assumes op: "\<And>x y z. op (op x y) z = op x (op y z)" "\<And>x y. op x y = op y x"
    and "0 < chunk" "rets_ok op chunk arr n rets" and n: "\<forall>k. k < n \<longrightarrow> (k + 1) * chunk < length arr"
    and "m \<le> n"
  shows "\<exists>rets'. reduce_tasks op chunk arr [0..<m] rets = Some rets' \<and> rets_ok op chunk arr n rets'
    \<and> (\<forall>j < m. rets' ! j \<noteq> None)"
  using assms(6)
proof (induction m)
  case 0
  then show ?case
    using assms(4) by simp
next
  case (Suc m)
  then obtain rets' where r: "reduce_tasks op chunk arr [0..<m] rets = Some rets'" "rets_ok op chunk arr n rets'"
      "\<forall>j < m. rets' ! j \<noteq> None"
    by auto
  then show ?case
    using reduce_task_ok [where op = op, OF op assms(3) r(2) n, of m] Suc.prems
    by (fastforce simp: reduce_tasks_append less_Suc_eq)
qed

lemma outer_loop_reduces:
  assumes op: "\<And>x y z. op (op x y) z = op x (op y z)" "\<And>x y. op x y = op y x"
    and "0 < chunk" "arr \<noteq> []"
  shows "outer_loop op chunk arr (length arr) sched \<in> {Some None, Some (Some (fold1 op arr))}"
    and "\<exists>m. outer_loop op chunk arr (length arr) (sched @ [0..<m]) = Some (Some (fold1 op arr))"
proof -
  obtain n where n: "reduce_forks (Suc (length arr)) chunk (length arr) 0 = Some n"
      "\<forall>k. k < n \<longleftrightarrow> 0 + (k + 1) * chunk < length arr"
    using reduce_forks_spec [of chunk "Suc (length arr)" "length arr" 0] assms(3) by auto
  have lt: "n * chunk < length arr"
    using n(2) assms(4) by (cases n) (auto dest: spec [of _ "n - 1"])
  have n': "\<forall>k. k < n \<longrightarrow> (k + 1) * chunk < length arr"
    using n(2) by simp
  have start: "rets_ok op chunk arr n (replicate n None)"
    by (simp add: rets_ok_def)
  have mine: "inner_loop op arr (n * chunk) (length arr) None = Some (fold1 op (segment (n * chunk) (length arr) arr))"
    using lt by (simp add: inner_loop_fold1)
  have result: "outer_loop op chunk arr (length arr) sched'
      = Some (if n = 0 then Some (fold1 op arr) else map_option (\<lambda>_. fold1 op arr) (rets' ! (n - 1)))"
    if "reduce_tasks op chunk arr sched' (replicate n None) = Some rets'" "rets_ok op chunk arr n rets'" for sched' rets'
  proof (cases "n = 0")
    case True
    then show ?thesis
      using that mine n(1) unfolding outer_loop_def by (simp add: segment_def)
  next
    case False
    then have "op (fold1 op (segment (n * chunk) (length arr) arr)) (fold1 op (take (n * chunk) arr))
        = fold1 op (take (length arr) arr)"
      using lt assms(3) by (intro segment_fold1 op) auto
    moreover have "rets' ! (n - 1) = None \<or> rets' ! (n - 1) = Some (fold1 op (take (n * chunk) arr))"
      using rets_okD [OF that(2), of n] False by simp
    ultimately show ?thesis
      using that(1) mine n(1) False unfolding outer_loop_def by (auto simp del: reduce_forks.simps)
  qed
  obtain rets1 where r1: "reduce_tasks op chunk arr sched (replicate n None) = Some rets1" "rets_ok op chunk arr n rets1"
    using reduce_tasks_ok [where op = op, OF op assms(3) start n'] by blast
  then show "outer_loop op chunk arr (length arr) sched \<in> {Some None, Some (Some (fold1 op arr))}"
    using result [OF r1] by (cases "rets1 ! (n - 1)") auto
  obtain rets2 where r2: "reduce_tasks op chunk arr [0..<n] rets1 = Some rets2" "rets_ok op chunk arr n rets2"
      "\<forall>j < n. rets2 ! j \<noteq> None"
    using reduce_tasks_complete [where op = op, OF op assms(3) r1(2) n' order_refl] by blast
  then have "reduce_tasks op chunk arr (sched @ [0..<n]) (replicate n None) = Some rets2"
    using r1(1) by (simp add: reduce_tasks_append)
  then have "outer_loop op chunk arr (length arr) (sched @ [0..<n]) = Some (Some (fold1 op arr))"
    using result [OF _ r2(2)] r2(3) by (cases n) auto
  then show "\<exists>m. outer_loop op chunk arr (length arr) (sched @ [0..<m]) = Some (Some (fold1 op arr))" ..
qed

section \<open>A constant array\<close>

lemma wall_up_all: "\<forall>i < length arr. arr ! i \<le> pivot \<Longrightarrow> l \<le> r \<Longrightarrow> base + r \<le> length arr
    \<Longrightarrow> wall_up arr base pivot l r = Some r"
proof (induction arr base pivot l r rule: wall_up.induct)
  case (1 arr base pivot l r)
  show ?case
    using 1 by (subst wall_up.simps) auto
qed

lemma qsort_split_replicate:
  assumes "MT_LOOP_CHUNK < n" "n \<le> 2 * MT_LOOP_CHUNK + 1"
  shows "qsort_split (Suc fuel) ch order 0 n (replicate n x) = Some (replicate n x, n)"
proof -
  have "tri_median (replicate n x) 0 n = Some (replicate n x, x)"
    using assms(1) by (simp add: tri_median_def swap_if_greater_def arr_get_def Let_def)
  moreover have "furthest_loop (Suc fuel) ch order 0 x (replicate n x, 0, n - 1) = Some (replicate n x, 0, n - 1)"
  proof -
    have "\<not> 2 * MT_LOOP_CHUNK < n - 1 - 0"
      using assms(2) by simp
    then show ?thesis
      by simp
  qed
  moreover have "mid_partition (replicate n x) 0 x 0 (n - 1) = Some (replicate n x, n)"
    using assms(1) wall_up_all [of "replicate n x" x 0 "n - 1" 0]
    by (simp add: mid_partition_def arr_get_def wall_down.simps [of _ _ _ "n - Suc 0"])
  ultimately show ?thesis
    by (simp add: qsort_split_def)
qed

lemma qsort_inner_replicate:
  assumes "MT_LOOP_CHUNK < n" "n \<le> 2 * MT_LOOP_CHUNK + 1"
  shows "qutil_aligned_qsort_inner fuel ch order junk 0 n (replicate n x) = None"
proof (induction fuel)
  case (Suc fuel)
  show ?case
  proof (cases fuel)
    case 0
    then show ?thesis
      using assms(1) by (simp add: qsort_split_def split: option.split)
  next
    case (Suc f)
    then show ?thesis
      using assms(1) Suc.IH qsort_split_replicate [OF assms, of f ch order x]
      by (simp del: qutil_aligned_qsort_inner.simps add: qutil_aligned_qsort_inner.simps(2) [of "Suc f"])
  qed
qed simp

text \<open>
  The chain of left recursive calls: the range that the call at depth \<open>k\<close> is given. \<open>None\<close> is
  a call that is not made, because the call above it has a short range, finds the left part
  empty, or fails.
\<close>

primrec left_calls :: "nat \<Rightarrow> nat \<Rightarrow> nat \<Rightarrow> (nat \<Rightarrow> nat list) \<Rightarrow> nat \<Rightarrow> nat \<Rightarrow> u64 list
    \<Rightarrow> (nat \<times> nat \<times> u64 list) option" where
  "left_calls 0 fuel ch order base len arr = Some (base, len, arr)"
| "left_calls (Suc k) fuel ch order base len arr =
     (if len \<le> MT_LOOP_CHUNK then None
      else do { (arr, r) \<leftarrow> qsort_split fuel ch order base len arr;
                if r > 0 then left_calls k fuel ch order base r arr else None })"

lemma left_calls_replicate:
  assumes "MT_LOOP_CHUNK < n" "n \<le> 2 * MT_LOOP_CHUNK + 1"
  shows "left_calls k (Suc fuel) ch order 0 n (replicate n x) = Some (0, n, replicate n x)"
  using assms(1) qsort_split_replicate [OF assms] by (induction k) simp_all

section \<open>Properties\<close>

text \<open>
  C18. The sequential quicksort with an explicit stack (the core of both parallel sorts) equals the
  reference sort on every array of fewer than \<open>2^32\<close> elements: no access leaves the array, the loop
  ends, and the stack, whose size is computed from a 32-bit integer logarithm, never overflows,
  because the larger part of a split stays below the smaller one. What the uninitialised stack
  holds plays no role.
\<close>
theorem quicksort_equals_sort:
  "length arr < 2 ^ 32 \<Longrightarrow> drf_qsort junk arr (length arr) = Some (sort arr)"
  by (rule drf_qsort_sorts)

theorem quicksort_equals_sort_witness:
  "drf_qsort (-7) [5, 3, 9, 1, 3 :: nat] 5 = Some [1, 3, 3, 5, 9]"
proof -
  have "sort [5, 3, 9, 1, 3 :: nat] = [1, 3, 3, 5, 9]" and len: "length [5, 3, 9, 1, 3 :: nat] = 5"
    by simp_all
  moreover have "length [5, 3, 9, 1, 3 :: nat] < 2 ^ 32"
    by simp
  ultimately show ?thesis
    using quicksort_equals_sort [of "[5, 3, 9, 1, 3 :: nat]" "-7"] by (simp only: len)
qed

text \<open>
  C19. The parallel merge sort equals the reference sort, whatever the order in which the tasks of
  each phase happen to run: the tasks of a phase work on disjoint ranges, the allocated argument
  arrays are large enough, and the passes end with a sorted array.
\<close>
theorem mergesort_equals_sort:
  assumes "\<forall>n k. distinct (order n k) \<and> set (order n k) = {..<k}"
  shows "qutil_mergesort True order junk arr (length arr) = Some (sort arr)"
  using assms by (intro qutil_mergesort_sorts) (simp add: schedules_def)

theorem mergesort_equals_sort_witness:
  "qutil_mergesort True (\<lambda>n k. if even n then rev [0..<k] else [0..<k]) 0 (rev [0..<23]) 23 = Some [0..<23]"
proof -
  have "sort (rev [0..<23]) = [0..<23]"
    by (rule properties_for_sort) simp_all
  moreover have "\<forall>n k. distinct (if even n then rev [0..<k] else [0..<k])
      \<and> set (if even n then rev [0..<k] else [0..<k]) = {..<k}" for n :: nat
    by auto
  ultimately show ?thesis
    using mergesort_equals_sort [of "\<lambda>n k. if even n then rev [0..<k] else [0..<k]" 0 "rev [0..<23]"] by simp
qed

text \<open>
  C20. A parallel reduction of a non-empty array (without the full/empty checks on its elements,
  \<open>checkfeb = 0\<close>) with an associative and commutative operation, such as the integer sums,
  products, minima and maxima but not the sums and products of doubles, gives the value of the
  sequential one: under every interleaving of the tasks the caller is either still waiting or has
  that value, and from every state one more turn of the tasks in order completes it.
\<close>
theorem reduction_in_any_order:
  assumes "\<forall>x y z. op (op x y) z = op x (op y z)" "\<forall>x y. op x y = op y x" "0 < chunk" "arr \<noteq> []"
  shows "outer_loop op chunk arr (length arr) sched \<in> {Some None, Some (Some (foldl op (hd arr) (tl arr)))}
    \<and> (\<exists>m. outer_loop op chunk arr (length arr) (sched @ [0..<m]) = Some (Some (foldl op (hd arr) (tl arr))))"
  using outer_loop_reduces [of op chunk arr sched] assms unfolding fold1_def by blast

theorem reduction_in_any_order_witness:
  "outer_loop MAX_MACRO 2 [3, 8, 5, 9, 2 :: u64] 5 [1] \<in> {Some None, Some (Some 9)}
   \<and> (\<exists>m. outer_loop MAX_MACRO 2 [3, 8, 5, 9, 2 :: u64] 5 ([1] @ [0..<m]) = Some (Some 9))"
proof -
  let ?arr = "[3, 8, 5, 9, 2 :: u64]"
  have op: "\<forall>x y z :: u64. MAX_MACRO (MAX_MACRO x y) z = MAX_MACRO x (MAX_MACRO y z)"
    "\<forall>x y :: u64. MAX_MACRO x y = MAX_MACRO y x"
    by (auto simp: MAX_MACRO_def)
  have eqs: "foldl MAX_MACRO (hd ?arr) (tl ?arr) = 9" "length ?arr = 5"
    by (simp_all add: MAX_MACRO_def)
  show ?thesis
    using reduction_in_any_order [OF op, of 2 ?arr "[1]"] unfolding eqs by simp
qed

text \<open>
  C21. The parallel quicksort of \<open>MT_LOOP_CHUNK + 1\<close> to \<open>2 * MT_LOOP_CHUNK + 1\<close> equal elements (10001
  to 20001) never returns: no call fails, but every element is at most the pivot, so the left part
  is the whole array. At every depth of the recursion there is a further left call, on the same
  range of an unchanged array; accordingly no bound on the depth gives a result.
\<close>
theorem qsort_of_equal_elements_diverges:
  assumes "MT_LOOP_CHUNK < n" "n \<le> 2 * MT_LOOP_CHUNK + 1"
  shows "left_calls k (Suc rounds) ch order 0 n (replicate n x) = Some (0, n, replicate n x)
    \<and> qutil_aligned_qsort fuel True ch order junk (replicate n x) n = None"
  using qsort_inner_replicate [OF assms] left_calls_replicate [OF assms]
  by (simp add: qutil_aligned_qsort_def)

theorem qsort_of_equal_elements_diverges_witness:
  "\<forall>k. left_calls k 1 8 (\<lambda>k. [0..<k]) 0 12000 (replicate 12000 5) = Some (0, 12000, replicate 12000 5)"
proof
  fix k
  have "MT_LOOP_CHUNK < 12000" "12000 \<le> 2 * MT_LOOP_CHUNK + 1"
    by (simp_all add: MT_LOOP_CHUNK_def)
  from qsort_of_equal_elements_diverges [OF this, of k 0]
  show "left_calls k 1 8 (\<lambda>k. [0..<k]) 0 12000 (replicate 12000 5) = Some (0, 12000, replicate 12000 5)"
    by simp
qed

end
