(* ===== verification/Swsr.thy ===== *)
theory Swsr
  imports Runtime
begin

text \<open>
  The ring buffer for a single writer and a single reader (\<open>ds/qswsrqueue.c\<close>).

  The operations are given twice: as functions, and as sequences of single accesses to shared
  memory, for the interleaving of the writer and the reader. An element is a pointer, 0 is \<open>NULL\<close>;
  an access outside of \<open>elements\<close> is \<open>None\<close>. Memory is sequentially consistent (the code has fences
  between the accesses).
\<close>

record qswsrqueue =
  qhead :: u32
  qsize :: u32
  qtail :: u32
  qsize2 :: u32
  elements :: "u64 list"

text \<open>\<open>width\<close> is \<open>CACHELINE_WIDTH\<close>, \<open>alloc\<close> tells whether the allocation succeeds, and \<open>junk\<close> is what the
  new elements hold. The number of elements is computed in \<open>size_t\<close>, which wraps.\<close>

definition swsr_elements :: "nat \<Rightarrow> nat \<Rightarrow> nat" where
  "swsr_elements width n =
     (let n = (if n * 8 mod 2 ^ 64 < width then width div 8 else n)
      in if n mod width \<noteq> 0 then (n + (width - n mod width)) mod 2 ^ 64 else n)"

definition qswsrqueue_create :: "nat \<Rightarrow> bool \<Rightarrow> u64 \<Rightarrow> nat \<Rightarrow> qswsrqueue option" where
  "qswsrqueue_create width alloc junk n =
     (let n = swsr_elements width n
      in if n > 2 ^ 32 - 1 then None
         else if \<not> alloc then None
         else Some \<lparr>qhead = 0, qsize = of_nat n, qtail = 0, qsize2 = of_nat n, elements = replicate n junk\<rparr>)"

definition swsr_get :: "qswsrqueue \<Rightarrow> u32 \<Rightarrow> u64 option" where
  "swsr_get q i = (if unat i < length (elements q) then Some (elements q ! unat i) else None)"

definition swsr_put :: "qswsrqueue \<Rightarrow> u32 \<Rightarrow> u64 \<Rightarrow> qswsrqueue option" where
  "swsr_put q i x =
     (if unat i < length (elements q) then Some (q\<lparr>elements := (elements q)[unat i := x]\<rparr>) else None)"

section \<open>The operations as functions\<close>

definition qswsrqueue_enqueue :: "qswsrqueue \<Rightarrow> u64 \<Rightarrow> (qswsrqueue \<times> int) option" where
  "qswsrqueue_enqueue q elem =
     (let cur_tail = qtail q; next_tail = (cur_tail + 1) mod qsize q
      in if next_tail \<noteq> qhead q
         then do { q \<leftarrow> swsr_put q cur_tail elem; Some (q\<lparr>qtail := next_tail\<rparr>, QTHREAD_SUCCESS) }
         else Some (q, QTHREAD_OPFAIL))"

definition qswsrqueue_dequeue :: "qswsrqueue \<Rightarrow> (qswsrqueue \<times> u64) option" where
  "qswsrqueue_dequeue q =
     (let cur_head = qhead q
      in if cur_head = qtail q then Some (q, 0)
         else do { item \<leftarrow> swsr_get q cur_head;
                   Some (q\<lparr>qhead := (cur_head + 1) mod qsize q\<rparr>, item) })"

definition qswsrqueue_empty :: "qswsrqueue \<Rightarrow> bool" where
  "qswsrqueue_empty q \<longleftrightarrow> qhead q = qtail q"

text \<open>
  The blocking operations spin, each round after a \<open>qthread_yield\<close>, during which the other side may
  run; \<open>env n q\<close> is the queue after round \<open>n\<close>. The fuel is the number of rounds.
\<close>

primrec enqueue_blocking :: "nat \<Rightarrow> (nat \<Rightarrow> qswsrqueue \<Rightarrow> qswsrqueue) \<Rightarrow> u32 \<Rightarrow> u32 \<Rightarrow> nat \<Rightarrow> u64 \<Rightarrow> qswsrqueue
    \<Rightarrow> (qswsrqueue \<times> int) option" where
  "enqueue_blocking 0 env cur_tail next_tail n elem q = None"
| "enqueue_blocking (Suc fuel) env cur_tail next_tail n elem q =
     (if next_tail = qhead q then enqueue_blocking fuel env cur_tail next_tail (n + 1) elem (env n q)
      else do { q \<leftarrow> swsr_put q cur_tail elem; Some (q\<lparr>qtail := next_tail\<rparr>, QTHREAD_SUCCESS) })"

definition qswsrqueue_enqueue_blocking :: "nat \<Rightarrow> (nat \<Rightarrow> qswsrqueue \<Rightarrow> qswsrqueue) \<Rightarrow> qswsrqueue \<Rightarrow> u64
    \<Rightarrow> (qswsrqueue \<times> int) option" where
  "qswsrqueue_enqueue_blocking fuel env q elem =
     enqueue_blocking fuel env (qtail q) ((qtail q + 1) mod qsize2 q) 0 elem q"

primrec dequeue_blocking :: "nat \<Rightarrow> (nat \<Rightarrow> qswsrqueue \<Rightarrow> qswsrqueue) \<Rightarrow> u32 \<Rightarrow> u32 \<Rightarrow> nat \<Rightarrow> qswsrqueue
    \<Rightarrow> (qswsrqueue \<times> u64) option" where
  "dequeue_blocking 0 env cur_head next_head n q = None"
| "dequeue_blocking (Suc fuel) env cur_head next_head n q =
     (if next_head = qtail q then dequeue_blocking fuel env cur_head next_head (n + 1) (env n q)
      else do { item \<leftarrow> swsr_get q cur_head; Some (q\<lparr>qhead := next_head\<rparr>, item) })"

definition qswsrqueue_dequeue_blocking :: "nat \<Rightarrow> (nat \<Rightarrow> qswsrqueue \<Rightarrow> qswsrqueue) \<Rightarrow> qswsrqueue
    \<Rightarrow> (qswsrqueue \<times> u64) option" where
  "qswsrqueue_dequeue_blocking fuel env q =
     dequeue_blocking fuel env (qhead q) ((qhead q + 1) mod qsize q) 0 q"

section \<open>The operations as sequences of accesses\<close>

text \<open>
  Where the writer and the reader are. The writer has read \<open>tail\<close> (\<open>W_check\<close>), has compared with \<open>head\<close>
  (\<open>W_store\<close>), has stored the element (\<open>W_publish\<close>); the reader has read \<open>head\<close> (\<open>R_check\<close>), has compared
  with \<open>tail\<close> (\<open>R_load\<close>), has loaded the element (\<open>R_publish\<close>).
\<close>

datatype writer_pc = W_idle | W_check u64 u32 u32 | W_store u64 u32 u32 | W_publish u64 u32

datatype reader_pc = R_idle | R_check u32 | R_load u32 | R_publish u64 u32

text \<open>\<open>sent\<close> and \<open>got\<close> record the elements of the completed operations.\<close>

record swsr_system =
  queue :: qswsrqueue
  writer :: writer_pc
  reader :: reader_pc
  sent :: "u64 list"
  got :: "u64 list"

inductive swsr_step :: "swsr_system \<Rightarrow> swsr_system \<Rightarrow> bool" where
  write_begin: "writer s = W_idle \<Longrightarrow>
    swsr_step s (s\<lparr>writer := W_check x (qtail (queue s)) ((qtail (queue s) + 1) mod qsize (queue s))\<rparr>)"
| write_full: "writer s = W_check x cur next' \<Longrightarrow> next' = qhead (queue s) \<Longrightarrow>
    swsr_step s (s\<lparr>writer := W_idle\<rparr>)"
| write_room: "writer s = W_check x cur next' \<Longrightarrow> next' \<noteq> qhead (queue s) \<Longrightarrow>
    swsr_step s (s\<lparr>writer := W_store x cur next'\<rparr>)"
| write_store: "writer s = W_store x cur next' \<Longrightarrow> swsr_put (queue s) cur x = Some q \<Longrightarrow>
    swsr_step s (s\<lparr>queue := q, writer := W_publish x next'\<rparr>)"
| write_publish: "writer s = W_publish x next' \<Longrightarrow>
    swsr_step s (s\<lparr>queue := (queue s)\<lparr>qtail := next'\<rparr>, writer := W_idle, sent := sent s @ [x]\<rparr>)"
| read_begin: "reader s = R_idle \<Longrightarrow>
    swsr_step s (s\<lparr>reader := R_check (qhead (queue s))\<rparr>)"
| read_empty: "reader s = R_check cur \<Longrightarrow> cur = qtail (queue s) \<Longrightarrow>
    swsr_step s (s\<lparr>reader := R_idle\<rparr>)"
| read_some: "reader s = R_check cur \<Longrightarrow> cur \<noteq> qtail (queue s) \<Longrightarrow>
    swsr_step s (s\<lparr>reader := R_load cur\<rparr>)"
| read_load: "reader s = R_load cur \<Longrightarrow> swsr_get (queue s) cur = Some item \<Longrightarrow>
    swsr_step s (s\<lparr>reader := R_publish item ((cur + 1) mod qsize (queue s))\<rparr>)"
| read_publish: "reader s = R_publish item next' \<Longrightarrow>
    swsr_step s (s\<lparr>queue := (queue s)\<lparr>qhead := next'\<rparr>, reader := R_idle, got := got s @ [item]\<rparr>)"

definition swsr_start :: "qswsrqueue \<Rightarrow> swsr_system" where
  "swsr_start q = \<lparr>queue = q, writer = W_idle, reader = R_idle, sent = [], got = []\<rparr>"

section \<open>The contents of the ring\<close>

definition used :: "qswsrqueue \<Rightarrow> nat" where
  "used q = (unat (qtail q) + unat (qsize q) - unat (qhead q)) mod unat (qsize q)"

definition contents :: "qswsrqueue \<Rightarrow> u64 list" where
  "contents q = map (\<lambda>i. elements q ! ((unat (qhead q) + i) mod unat (qsize q))) [0..<used q]"

definition ring_ok :: "qswsrqueue \<Rightarrow> bool" where
  "ring_ok q \<longleftrightarrow> length (elements q) = unat (qsize q) \<and> qsize2 q = qsize q
     \<and> unat (qhead q) < unat (qsize q) \<and> unat (qtail q) < unat (qsize q)"

lemma length_contents [simp]: "length (contents q) = used q"
  by (simp add: contents_def)

lemma used_less: "ring_ok q \<Longrightarrow> used q < unat (qsize q)"
  by (simp add: used_def ring_ok_def)

lemma unat_next:
  assumes "unat w < unat (n :: u32)"
  shows "unat ((w + 1) mod n) = (unat w + 1) mod unat n"
proof -
  have "unat w + 1 < 2 ^ 32"
  proof -
    have "unat n < 2 ^ 32"
      using unsigned_less [where 'a = nat, of n] by simp
    then show ?thesis
      using assms by simp
  qed
  then show ?thesis
    by (simp add: unat_mod_distrib unat_word_ariths take_bit_nat_eq_self)
qed

lemma ring_arith:
  fixes h t n :: nat
  assumes "h < n" "t < n"
  shows "(t + n - h) mod n = (if h \<le> t then t - h else t + n - h)"
    and "(t + 1) mod n \<noteq> h \<Longrightarrow> ((t + 1) mod n + n - h) mod n = (t + n - h) mod n + 1"
    and "h \<noteq> t \<Longrightarrow> (t + n - h) mod n = (t + n - (h + 1) mod n) mod n + 1"
    and "i < (t + n - h) mod n \<Longrightarrow> (h + i) mod n \<noteq> t"
    and "(h + (t + n - h) mod n) mod n = t"
    and "((h + 1) mod n + i) mod n = (h + (i + 1)) mod n"
proof -
  have m: "a mod n = (if a < n then a else a - n)" if "a < 2 * n" for a
    using that by (simp add: mod_if mult_2)
  show len: "(t + n - h) mod n = (if h \<le> t then t - h else t + n - h)"
    using assms m [of "t + n - h"] by auto
  show "((t + 1) mod n + n - h) mod n = (t + n - h) mod n + 1" if "(t + 1) mod n \<noteq> h"
    using that assms m [of "(t + 1) mod n + n - h"] m [of "t + 1"] unfolding len by (auto split: if_splits)
  show "(t + n - h) mod n = (t + n - (h + 1) mod n) mod n + 1" if "h \<noteq> t"
    using that assms m [of "t + n - (h + 1) mod n"] m [of "h + 1"] unfolding len by (auto split: if_splits)
  show "(h + i) mod n \<noteq> t" if "i < (t + n - h) mod n"
    using that assms m [of "h + i"] unfolding len by (auto split: if_splits)
  show "(h + (t + n - h) mod n) mod n = t"
    unfolding len using assms m by auto
  show "((h + 1) mod n + i) mod n = (h + (i + 1)) mod n"
    by (simp add: mod_simps)
qed

lemma contents_publish_tail:
  assumes "ring_ok q" "(qtail q + 1) mod qsize q \<noteq> qhead q"
  shows "contents (q\<lparr>qtail := (qtail q + 1) mod qsize q\<rparr>) = contents q @ [elements q ! unat (qtail q)]"
    and "ring_ok (q\<lparr>qtail := (qtail q + 1) mod qsize q\<rparr>)"
proof -
  let ?n = "unat (qsize q)" and ?h = "unat (qhead q)" and ?t = "unat (qtail q)"
  have b: "?h < ?n" "?t < ?n"
    using assms(1) by (auto simp: ring_ok_def)
  have next': "unat ((qtail q + 1) mod qsize q) = (?t + 1) mod ?n"
    using b by (simp add: unat_next)
  then have "(?t + 1) mod ?n \<noteq> ?h"
    using assms(2) by (metis word_unat_eq_iff)
  then have "used (q\<lparr>qtail := (qtail q + 1) mod qsize q\<rparr>) = used q + 1"
    using ring_arith(2) [OF b] by (simp add: used_def next' del: of_nat_add)
  then show "contents (q\<lparr>qtail := (qtail q + 1) mod qsize q\<rparr>) = contents q @ [elements q ! unat (qtail q)]"
    using ring_arith(5) [OF b] by (simp add: contents_def used_def)
  show "ring_ok (q\<lparr>qtail := (qtail q + 1) mod qsize q\<rparr>)"
    using assms(1) b next' by (simp add: ring_ok_def)
qed

lemma contents_publish_head:
  assumes "ring_ok q" "qhead q \<noteq> qtail q"
  shows "contents q = elements q ! unat (qhead q) # contents (q\<lparr>qhead := (qhead q + 1) mod qsize q\<rparr>)"
    and "ring_ok (q\<lparr>qhead := (qhead q + 1) mod qsize q\<rparr>)"
proof -
  let ?n = "unat (qsize q)" and ?h = "unat (qhead q)" and ?t = "unat (qtail q)"
  have b: "?h < ?n" "?t < ?n"
    using assms(1) by (auto simp: ring_ok_def)
  have next': "unat ((qhead q + 1) mod qsize q) = (?h + 1) mod ?n"
    using b by (simp add: unat_next)
  have "?h \<noteq> ?t"
    using assms(2) by (simp add: word_unat_eq_iff)
  then have "used q = Suc (used (q\<lparr>qhead := (qhead q + 1) mod qsize q\<rparr>))"
    using ring_arith(3) [OF b] by (simp add: used_def next')
  moreover have "(((?h + 1) mod ?n) + i) mod ?n = (?h + Suc i) mod ?n" for i
    using ring_arith(6) [OF b] by simp
  ultimately show "contents q = elements q ! unat (qhead q) # contents (q\<lparr>qhead := (qhead q + 1) mod qsize q\<rparr>)"
    using b by (simp add: contents_def map_upt_Suc next' del: upt_Suc)
  show "ring_ok (q\<lparr>qhead := (qhead q + 1) mod qsize q\<rparr>)"
    using assms(1) b next' by (simp add: ring_ok_def)
qed

lemma contents_store:
  assumes "ring_ok q"
  shows "swsr_put q (qtail q) x = Some (q\<lparr>elements := (elements q)[unat (qtail q) := x]\<rparr>)"
    and "contents (q\<lparr>elements := (elements q)[unat (qtail q) := x]\<rparr>) = contents q"
    and "ring_ok (q\<lparr>elements := (elements q)[unat (qtail q) := x]\<rparr>)"
proof -
  have b: "unat (qhead q) < unat (qsize q)" "unat (qtail q) < unat (qsize q)"
    using assms by (auto simp: ring_ok_def)
  have "unat (qtail q) \<noteq> (unat (qhead q) + i) mod unat (qsize q)" if "i < used q" for i
    using ring_arith(4) [OF b] that unfolding used_def by metis
  moreover have "used (q\<lparr>elements := (elements q)[unat (qtail q) := x]\<rparr>) = used q"
    by (simp add: used_def)
  ultimately have "contents (q\<lparr>elements := (elements q)[unat (qtail q) := x]\<rparr>)
      = map (\<lambda>i. elements q ! ((unat (qhead q) + i) mod unat (qsize q))) [0..<used q]"
    unfolding contents_def by (intro map_cong) auto
  then show "contents (q\<lparr>elements := (elements q)[unat (qtail q) := x]\<rparr>) = contents q"
    by (simp add: contents_def)
  show "swsr_put q (qtail q) x = Some (q\<lparr>elements := (elements q)[unat (qtail q) := x]\<rparr>)"
    "ring_ok (q\<lparr>elements := (elements q)[unat (qtail q) := x]\<rparr>)"
    using assms by (auto simp: swsr_put_def ring_ok_def)
qed

lemma full_iff: "ring_ok q \<Longrightarrow> (qtail q + 1) mod qsize q = qhead q \<longleftrightarrow> used q + 1 = unat (qsize q)"
proof -
  assume ok: "ring_ok q"
  let ?n = "unat (qsize q)" and ?h = "unat (qhead q)" and ?t = "unat (qtail q)"
  have b: "?h < ?n" "?t < ?n"
    using ok by (auto simp: ring_ok_def)
  have "(qtail q + 1) mod qsize q = qhead q \<longleftrightarrow> (?t + 1) mod ?n = ?h"
    using unat_next [OF b(2)] by (simp add: word_unat_eq_iff)
  also have "\<dots> \<longleftrightarrow> used q + 1 = ?n"
  proof -
    have "(?t + 1) mod ?n = (if ?t + 1 = ?n then 0 else ?t + 1)"
      using b by simp
    then show ?thesis
      using b unfolding used_def ring_arith(1) [OF b] by (auto split: if_splits)
  qed
  finally show ?thesis .
qed

lemma empty_iff: "ring_ok q \<Longrightarrow> qhead q = qtail q \<longleftrightarrow> used q = 0"
proof -
  assume "ring_ok q"
  then have b: "unat (qhead q) < unat (qsize q)" "unat (qtail q) < unat (qsize q)"
    by (auto simp: ring_ok_def)
  show ?thesis
    unfolding used_def ring_arith(1) [OF b] using b by (auto simp: word_unat_eq_iff)
qed

section \<open>The invariant of the interleaving\<close>

definition writer_ok :: "swsr_system \<Rightarrow> bool" where
  "writer_ok s \<longleftrightarrow>
     (let q = queue s; t = qtail q; n = (t + 1) mod qsize q
      in case writer s of
           W_idle \<Rightarrow> True
         | W_check x cur next' \<Rightarrow> cur = t \<and> next' = n
         | W_store x cur next' \<Rightarrow> cur = t \<and> next' = n \<and> n \<noteq> qhead q
         | W_publish x next' \<Rightarrow> next' = n \<and> n \<noteq> qhead q \<and> elements q ! unat t = x)"

definition reader_ok :: "swsr_system \<Rightarrow> bool" where
  "reader_ok s \<longleftrightarrow>
     (let q = queue s; h = qhead q
      in case reader s of
           R_idle \<Rightarrow> True
         | R_check cur \<Rightarrow> cur = h
         | R_load cur \<Rightarrow> cur = h \<and> h \<noteq> qtail q
         | R_publish item next' \<Rightarrow> next' = (h + 1) mod qsize q \<and> h \<noteq> qtail q \<and> item = elements q ! unat h)"

definition swsr_inv :: "swsr_system \<Rightarrow> bool" where
  "swsr_inv s \<longleftrightarrow> ring_ok (queue s) \<and> writer_ok s \<and> reader_ok s \<and> sent s = got s @ contents (queue s)"

text \<open>A step of one side keeps what the other side knows.\<close>

lemma not_full_after_read:
  assumes "ring_ok q" "qhead q \<noteq> qtail q"
  shows "(qtail q + 1) mod qsize q \<noteq> (qhead q + 1) mod qsize q"
proof -
  note h = contents_publish_head [OF assms]
  let ?q = "q\<lparr>qhead := (qhead q + 1) mod qsize q\<rparr>"
  have "used q = Suc (used ?q)"
    using arg_cong [OF h(1), of length] by simp
  then have "used ?q + 1 \<noteq> unat (qsize ?q)"
    using used_less [OF assms(1)] by simp
  then show ?thesis
    using full_iff [OF h(2)] by simp
qed

lemma swsr_step_inv: "swsr_step s s' \<Longrightarrow> swsr_inv s \<Longrightarrow> swsr_inv s'"
proof (induction rule: swsr_step.induct)
  case (write_store s x cur next' q)
  then have ok: "ring_ok (queue s)" and cur: "cur = qtail (queue s)"
    by (auto simp: swsr_inv_def writer_ok_def Let_def)
  note st = contents_store [OF ok, of x]
  have "unat (qhead (queue s)) \<noteq> unat (qtail (queue s))" if "qhead (queue s) \<noteq> qtail (queue s)"
    using that by (simp add: word_unat_eq_iff)
  then show ?case
    using write_store st cur ok
    by (auto simp: swsr_inv_def writer_ok_def reader_ok_def Let_def ring_ok_def split: reader_pc.splits)
next
  case (write_publish s x next')
  then have ok: "ring_ok (queue s)"
    and w: "next' = (qtail (queue s) + 1) mod qsize (queue s)" "next' \<noteq> qhead (queue s)"
      "elements (queue s) ! unat (qtail (queue s)) = x"
    by (auto simp: swsr_inv_def writer_ok_def Let_def)
  then show ?case
    using write_publish contents_publish_tail [OF ok]
    by (auto simp: swsr_inv_def writer_ok_def reader_ok_def Let_def split: reader_pc.splits)
next
  case (read_load s cur item)
  then show ?case
    by (auto simp: swsr_inv_def writer_ok_def reader_ok_def Let_def swsr_get_def split: writer_pc.splits if_splits)
next
  case (read_publish s item next')
  then have ok: "ring_ok (queue s)"
    and r: "next' = (qhead (queue s) + 1) mod qsize (queue s)" "qhead (queue s) \<noteq> qtail (queue s)"
      "item = elements (queue s) ! unat (qhead (queue s))"
    by (auto simp: swsr_inv_def reader_ok_def Let_def)
  then show ?case
    using read_publish contents_publish_head [OF ok r(2)] not_full_after_read [OF ok r(2)]
    by (auto simp: swsr_inv_def writer_ok_def reader_ok_def Let_def split: writer_pc.splits)
qed (auto simp: swsr_inv_def writer_ok_def reader_ok_def Let_def split: writer_pc.splits reader_pc.splits)

end
