(* ===== verification/Swsr_Props.thy ===== *)
theory Swsr_Props
  imports Swsr
begin

text \<open>The properties of the ring buffer for a single writer and a single reader.\<close>

lemma swsr_elements_pos:
  assumes "8 \<le> width" "n + width < 2 ^ 64"
  shows "0 < swsr_elements width n"
proof -
  define m where "m = (if n * 8 mod 2 ^ 64 < width then width div 8 else n)"
  have m: "0 < m" "m + (width - m mod width) < 2 ^ 64 \<or> m mod width = 0"
  proof -
    show "0 < m"
      using assms(1) by (cases n) (auto simp: m_def)
    have "width div 8 + (width - width div 8) = width" "width div 8 mod width = width div 8"
      using assms(1) by auto
    then show "m + (width - m mod width) < 2 ^ 64 \<or> m mod width = 0"
      using assms(2) by (auto simp: m_def intro: le_less_trans [of _ "n + width"])
  qed
  have "swsr_elements width n = (if m mod width \<noteq> 0 then (m + (width - m mod width)) mod 2 ^ 64 else m)"
    by (simp add: swsr_elements_def Let_def m_def)
  then show ?thesis
    using m by (cases "m mod width = 0") (simp_all add: mod_less)
qed

lemma create_ok:
  assumes "qswsrqueue_create width alloc junk n = Some q" "8 \<le> width" "n + width < 2 ^ 64"
  shows "ring_ok q" "contents q = []" "unat (qsize q) = swsr_elements width n"
proof -
  let ?n = "swsr_elements width n"
  have q: "?n \<le> 2 ^ 32 - 1" "q = \<lparr>qhead = 0, qsize = of_nat ?n, qtail = 0, qsize2 = of_nat ?n, elements = replicate ?n junk\<rparr>"
    using assms(1) by (auto simp: qswsrqueue_create_def Let_def split: if_splits)
  then show n: "unat (qsize q) = ?n"
    by (simp add: unat_of_nat take_bit_nat_eq_self)
  show "ring_ok q" "contents q = []"
    using q(2) n swsr_elements_pos [OF assms(2,3)] by (simp_all add: ring_ok_def contents_def used_def)
qed

lemma reachable_inv:
  assumes "swsr_step\<^sup>*\<^sup>* (swsr_start q) s" "ring_ok q" "contents q = []"
  shows "swsr_inv s \<and> qsize (queue s) = qsize q"
  using assms(1)
proof (induction rule: rtranclp_induct)
  case base
  then show ?case
    using assms(2,3) by (simp add: swsr_inv_def swsr_start_def writer_ok_def reader_ok_def)
next
  case (step s s')
  have "qsize (queue s') = qsize (queue s)"
    using step.hyps(2) by (cases rule: swsr_step.cases) (auto simp: swsr_put_def split: if_splits)
  then show ?case
    using step swsr_step_inv by auto
qed

text \<open>
  C22. The ring buffer is a bounded FIFO queue under every interleaving of the single accesses of
  one writer and one reader: the elements taken so far and the contents of the ring are together
  exactly the elements written, in order (nothing is lost, duplicated, reordered or read before it
  is written), the ring never holds more than one element less than its size, no access leaves the
  array, and each side can always take a step. (The number of elements asked for is not so close to
  the end of \<open>size_t\<close> that rounding it up to a multiple of the cache line wraps around to 0.)
\<close>
theorem ring_buffer_is_fifo:
  assumes "8 \<le> width" "n + width < 2 ^ 64" "qswsrqueue_create width alloc junk n = Some q"
    and "swsr_step\<^sup>*\<^sup>* (swsr_start q) s"
  shows "sent s = got s @ contents (queue s) \<and> length (contents (queue s)) < swsr_elements width n
    \<and> (\<exists>s'. swsr_step s s' \<and> writer s' \<noteq> writer s) \<and> (\<exists>s'. swsr_step s s' \<and> reader s' \<noteq> reader s)"
proof -
  have inv: "swsr_inv s" "qsize (queue s) = qsize q"
    using reachable_inv [OF assms(4)] create_ok [OF assms(3,1,2)] by auto
  then have ok: "ring_ok (queue s)"
    by (simp add: swsr_inv_def)
  have "\<exists>s'. swsr_step s s' \<and> writer s' \<noteq> writer s"
  proof (cases "writer s")
    case W_idle
    then show ?thesis
      by (intro exI conjI, rule write_begin [where x = 0]) simp_all
  next
    case (W_check x cur next')
    then show ?thesis
      using write_full [OF W_check] write_room [OF W_check] by (cases "next' = qhead (queue s)") fastforce+
  next
    case (W_store x cur next')
    then have "swsr_put (queue s) cur x \<noteq> None"
      using inv(1) contents_store(1) [OF ok] by (auto simp: swsr_inv_def writer_ok_def Let_def)
    then show ?thesis
      using write_store [OF W_store] W_store by fastforce
  next
    case (W_publish x next')
    then show ?thesis
      using write_publish [OF W_publish] by fastforce
  qed
  moreover have "\<exists>s'. swsr_step s s' \<and> reader s' \<noteq> reader s"
  proof (cases "reader s")
    case R_idle
    then show ?thesis
      using read_begin [OF R_idle] by fastforce
  next
    case (R_check cur)
    then show ?thesis
      using read_empty [OF R_check] read_some [OF R_check] by (cases "cur = qtail (queue s)") fastforce+
  next
    case (R_load cur)
    then have "swsr_get (queue s) cur \<noteq> None"
      using inv(1) by (auto simp: swsr_inv_def reader_ok_def Let_def swsr_get_def ring_ok_def)
    then show ?thesis
      using read_load [OF R_load] R_load by fastforce
  next
    case (R_publish item next')
    then show ?thesis
      using read_publish [OF R_publish] by fastforce
  qed
  ultimately show ?thesis
    using inv used_less [OF ok] create_ok(3) [OF assms(3,1,2)] by (simp add: swsr_inv_def)
qed

definition ring64 :: qswsrqueue where
  "ring64 = \<lparr>qhead = 0, qsize = 64, qtail = 0, qsize2 = 64, elements = replicate 64 0\<rparr>"

lemma ring64_create: "qswsrqueue_create 64 True 0 10 = Some ring64"
  by (simp add: qswsrqueue_create_def swsr_elements_def ring64_def)

theorem ring_buffer_is_fifo_witness:
  "let s = (swsr_start ring64)\<lparr>writer := W_check 5 0 1\<rparr>
   in sent s = got s @ contents (queue s) \<and> length (contents (queue s)) < 64
      \<and> (\<exists>s'. swsr_step s s' \<and> writer s' \<noteq> writer s) \<and> (\<exists>s'. swsr_step s s' \<and> reader s' \<noteq> reader s)"
proof -
  have "swsr_step (swsr_start ring64) ((swsr_start ring64)\<lparr>writer := W_check 5 0 1\<rparr>)"
    using write_begin [of "swsr_start ring64" 5] by (simp add: swsr_start_def ring64_def)
  moreover have "swsr_elements 64 10 = 64"
    by (simp add: swsr_elements_def)
  ultimately show ?thesis
    using ring_buffer_is_fifo [of 64 10 True 0 ring64 "(swsr_start ring64)\<lparr>writer := W_check 5 0 1\<rparr>"] ring64_create
    by (simp add: Let_def r_into_rtranclp del: length_contents)
qed

text \<open>
  Nothing checks the computation of the size: asking for \<open>2^61\<close> elements gives a ring of 64, and asking
  for the greatest \<open>size_t\<close> gives one of size 0, by which the operations divide.
\<close>
lemma huge_rings:
  "map_option qsize (qswsrqueue_create 64 True 0 (2 ^ 61)) = Some 64"
  "map_option qsize (qswsrqueue_create 64 True 0 (2 ^ 64 - 1)) = Some 0"
  by (simp_all add: qswsrqueue_create_def swsr_elements_def)

text \<open>
  The operations on their own: an insertion appends the element unless the ring holds one
  element less than its size, when it fails and changes nothing; a removal takes the first element,
  and returns \<open>NULL\<close> just when the ring is empty.
\<close>
lemma ring_operations:
  assumes "ring_ok q"
  shows "(\<exists>q' r. qswsrqueue_enqueue q x = Some (q', r) \<and> ring_ok q'
      \<and> (if length (contents q) + 1 < unat (qsize q) then r = QTHREAD_SUCCESS \<and> contents q' = contents q @ [x]
         else r = QTHREAD_OPFAIL \<and> q' = q))
    \<and> (\<exists>q' y. qswsrqueue_dequeue q = Some (q', y) \<and> ring_ok q'
      \<and> (case contents q of [] \<Rightarrow> y = 0 \<and> q' = q | z # zs \<Rightarrow> y = z \<and> contents q' = zs))
    \<and> (qswsrqueue_empty q \<longleftrightarrow> contents q = [])"
proof (intro conjI)
  note st = contents_store [OF assms, of x]
  show "\<exists>q' r. qswsrqueue_enqueue q x = Some (q', r) \<and> ring_ok q'
      \<and> (if length (contents q) + 1 < unat (qsize q) then r = QTHREAD_SUCCESS \<and> contents q' = contents q @ [x]
         else r = QTHREAD_OPFAIL \<and> q' = q)"
  proof (cases "(qtail q + 1) mod qsize q = qhead q")
    case True
    then show ?thesis
      using assms full_iff [OF assms] by (simp add: qswsrqueue_enqueue_def)
  next
    case False
    let ?q = "q\<lparr>elements := (elements q)[unat (qtail q) := x]\<rparr>"
    have "used q + 1 < unat (qsize q)"
      using False full_iff [OF assms] used_less [OF assms] by simp
    then show ?thesis
      using False st contents_publish_tail [of ?q] assms
      by (simp add: qswsrqueue_enqueue_def ring_ok_def Let_def)
  qed
  show "\<exists>q' y. qswsrqueue_dequeue q = Some (q', y) \<and> ring_ok q'
      \<and> (case contents q of [] \<Rightarrow> y = 0 \<and> q' = q | z # zs \<Rightarrow> y = z \<and> contents q' = zs)"
  proof (cases "qhead q = qtail q")
    case True
    then have "contents q = []"
      using empty_iff [OF assms] by (simp add: contents_def)
    then show ?thesis
      using True assms by (simp add: qswsrqueue_dequeue_def)
  next
    case False
    then show ?thesis
      using contents_publish_head [OF assms False] assms
      by (auto simp: qswsrqueue_dequeue_def swsr_get_def ring_ok_def Let_def)
  qed
  show "qswsrqueue_empty q \<longleftrightarrow> contents q = []"
    using empty_iff [OF assms] by (simp add: qswsrqueue_empty_def contents_def)
qed

text \<open>
  The blocking removal compares the wrong index with the tail (\<open>next_head\<close> instead of
  \<open>cur_head\<close>). On an empty ring it does not wait: it returns what the slot happens to hold and moves
  the head past the tail, after which the ring looks full. On a ring with one element it waits for
  another one, and never returns if nothing is inserted.
\<close>
lemma blocking_dequeue_off_by_one:
  assumes "ring_ok q" "1 < unat (qsize q)"
  shows "(contents q = [] \<longrightarrow> (\<exists>q'. qswsrqueue_dequeue_blocking (Suc fuel) env q = Some (q', elements q ! unat (qhead q))
           \<and> length (contents q') + 1 = unat (qsize q')))
    \<and> (length (contents q) = 1 \<longrightarrow> qswsrqueue_dequeue_blocking fuel (\<lambda>_ q. q) q = None)"
proof (intro conjI impI)
  let ?n = "unat (qsize q)" and ?h = "unat (qhead q)" and ?t = "unat (qtail q)"
  have b: "?h < ?n" "?t < ?n"
    using assms(1) by (auto simp: ring_ok_def)
  have nh: "unat ((qhead q + 1) mod qsize q) = (?h + 1) mod ?n"
    using b(1) by (rule unat_next)
  {
    assume "contents q = []"
    then have e: "qhead q = qtail q"
      using empty_iff [OF assms(1)] by (simp add: contents_def)
    have ne: "(?h + 1) mod ?n \<noteq> ?h"
      using b(1) assms(2) by (cases "?h + 1 = ?n") auto
    then have "(qhead q + 1) mod qsize q \<noteq> qtail q"
      using e nh by (metis)
    moreover have "(?h + ?n - (?h + 1) mod ?n) mod ?n + 1 = ?n"
      using b(1) assms(2) by (cases "?h + 1 = ?n") (auto simp: mod_if)
    ultimately show "\<exists>q'. qswsrqueue_dequeue_blocking (Suc fuel) env q = Some (q', elements q ! unat (qhead q))
           \<and> length (contents q') + 1 = unat (qsize q')"
      using assms(1) e nh b by (simp add: qswsrqueue_dequeue_blocking_def swsr_get_def ring_ok_def used_def)
  next
    assume one: "length (contents q) = 1"
    have "qhead q \<noteq> qtail q"
      using one empty_iff [OF assms(1)] by auto
    then have "used (q\<lparr>qhead := (qhead q + 1) mod qsize q\<rparr>) = 0"
      using arg_cong [OF contents_publish_head(1) [OF assms(1)], of length] one by simp
    then have "(qhead q + 1) mod qsize q = qtail q"
      using empty_iff [OF contents_publish_head(2) [OF assms(1) \<open>qhead q \<noteq> qtail q\<close>]] by simp
    then have "dequeue_blocking f (\<lambda>_ q. q) (qhead q) ((qhead q + 1) mod qsize q) n q = None" for f n
      by (induction f arbitrary: n) simp_all
    then show "qswsrqueue_dequeue_blocking fuel (\<lambda>_ q. q) q = None"
      by (simp add: qswsrqueue_dequeue_blocking_def)
  }
qed

end
