(* ===== verification/Slist.thy ===== *)
theory Slist
  imports QPrelude
begin

text \<open>
  Singly linked lists in an explicit heap of nodes, for the queues that keep their nodes that way,
  and the interface of a FIFO queue that these queues provide. A pointer is a number, 0 is \<open>NULL\<close>.
\<close>

record 'v snode =
  snext :: nat
  sval :: 'v

type_synonym 'v sheap = "nat \<Rightarrow> 'v snode option"

definition set_snext :: "nat \<Rightarrow> nat \<Rightarrow> 'v sheap \<Rightarrow> 'v sheap option" where
  "set_snext p a h = map_option (\<lambda>n. h(p \<mapsto> n\<lparr>snext := a\<rparr>)) (h p)"

lemma set_snext_Some [simp]: "h p = Some n \<Longrightarrow> set_snext p a h = Some (h(p \<mapsto> n\<lparr>snext := a\<rparr>))"
  by (simp add: set_snext_def)

section \<open>Chains\<close>

fun schain :: "'v sheap \<Rightarrow> nat \<Rightarrow> nat list \<Rightarrow> nat \<Rightarrow> bool" where
  "schain h p [] e \<longleftrightarrow> p = e"
| "schain h p (a # as) e \<longleftrightarrow> p = a \<and> a \<noteq> 0 \<and> (\<exists>n. h a = Some n \<and> schain h (snext n) as e)"

definition svals :: "'v sheap \<Rightarrow> nat list \<Rightarrow> 'v list" where
  "svals h ps = map (\<lambda>a. sval (the (h a))) ps"

lemma svals_simps [simp]: "svals h [] = []" "svals h (a # ps) = sval (the (h a)) # svals h ps"
  "svals h (ps @ qs) = svals h ps @ svals h qs" "length (svals h ps) = length ps"
  by (simp_all add: svals_def)

lemma svals_other [simp]: "p \<notin> set ps \<Longrightarrow> svals (h(p := x)) ps = svals h ps"
  by (auto simp: svals_def)

lemma svals_snext [simp]: "h p = Some n \<Longrightarrow> svals (h(p \<mapsto> n\<lparr>snext := a\<rparr>)) ps = svals h ps"
  by (auto simp: svals_def)

lemma schain_append: "schain h p (ps @ qs) e \<longleftrightarrow> (\<exists>m. schain h p ps m \<and> schain h m qs e)"
  by (induction ps arbitrary: p) auto

lemma schain_other [simp]: "p \<notin> set ps \<Longrightarrow> schain (h(p := x)) a ps e \<longleftrightarrow> schain h a ps e"
  by (induction ps arbitrary: a) auto

lemma schain_dom: "schain h p ps e \<Longrightarrow> set ps \<subseteq> dom h \<and> 0 \<notin> set ps"
  by (induction ps arbitrary: p) auto

lemma schain_hd: "schain h p ps 0 \<Longrightarrow> ps \<noteq> [] \<Longrightarrow> hd ps = p"
  by (cases ps) auto

lemma schain_0 [simp]: "schain h 0 ps e \<longleftrightarrow> ps = [] \<and> e = 0"
  by (cases ps) auto

text \<open>Linking a new node behind the last one.\<close>

lemma schain_snoc:
  assumes "schain h p (ps @ [a]) 0" "distinct (ps @ [a])" "h b = None" "b \<noteq> 0" "snext nb = 0"
    and "h a = Some na"
  shows "schain (h(b \<mapsto> nb, a \<mapsto> na\<lparr>snext := b\<rparr>)) p (ps @ [a, b]) 0"
proof -
  have b: "b \<notin> set ps" "b \<noteq> a"
    using schain_dom [OF assms(1)] assms(3,6) by auto
  have "schain h p ps a"
    using assms(1) by (auto simp: schain_append)
  then have "schain (h(b \<mapsto> nb, a \<mapsto> na\<lparr>snext := b\<rparr>)) p ps a"
    using b assms(2) by simp
  moreover have "schain (h(b \<mapsto> nb, a \<mapsto> na\<lparr>snext := b\<rparr>)) a [a, b] 0"
    using b assms(1,4,5) by (auto simp: schain_append)
  ultimately show ?thesis
    by (auto simp: schain_append)
qed

text \<open>The values of a chain, by a walk of at most \<open>n\<close> nodes.\<close>

primrec swalk :: "nat \<Rightarrow> 'v sheap \<Rightarrow> nat \<Rightarrow> 'v list" where
  "swalk 0 h p = []"
| "swalk (Suc n) h p = (case h p of None \<Rightarrow> [] | Some x \<Rightarrow> sval x # (if snext x = 0 then [] else swalk n h (snext x)))"

lemma swalk_chain: "schain h p ps 0 \<Longrightarrow> ps \<noteq> [] \<Longrightarrow> length ps \<le> n \<Longrightarrow> swalk n h p = svals h ps"
proof (induction ps arbitrary: p n)
  case (Cons a ps)
  then show ?case
    by (cases n; cases ps) auto
qed simp

text \<open>What the queues rely on of the allocation of a node, and an allocator that provides it.\<close>

definition sheap_alloc_ok :: "('v sheap \<Rightarrow> nat) \<Rightarrow> bool" where
  "sheap_alloc_ok al \<longleftrightarrow> (\<forall>h. finite (dom h) \<longrightarrow> al h \<noteq> 0 \<and> h (al h) = None)"

definition fresh_node :: "'v sheap \<Rightarrow> nat" where
  "fresh_node h = Suc (Max (insert 0 (dom h)))"

lemma fresh_node_ok: "sheap_alloc_ok fresh_node"
  unfolding sheap_alloc_ok_def
proof (intro allI impI conjI)
  fix h :: "'v sheap"
  assume "finite (dom h)"
  then have "p \<le> Max (insert 0 (dom h))" if "p \<in> dom h" for p
    using that by (intro Max_ge) auto
  then show "h (fresh_node h) = None"
    unfolding fresh_node_def by (metis Suc_n_not_le_n domIff)
qed (simp add: fresh_node_def)

section \<open>The interface of a FIFO queue\<close>

text \<open>At most \<open>n\<close> removals, until the queue is empty.\<close>

primrec drain :: "('q \<Rightarrow> ('q \<times> 'x option) option) \<Rightarrow> nat \<Rightarrow> 'q \<Rightarrow> ('q \<times> 'x list) option" where
  "drain deq 0 q = Some (q, [])"
| "drain deq (Suc n) q =
     do { (q, r) \<leftarrow> deq q;
          case r of None \<Rightarrow> Some (q, []) | Some x \<Rightarrow> do { (q, xs) \<leftarrow> drain deq n q; Some (q, x # xs) } }"

text \<open>
  \<open>accepts\<close> tells whether there is room. Insertion appends; removal takes the first element, and returns
  \<open>None\<close> as its result just when the queue is empty.
\<close>

locale fifo =
  fixes inv :: "'q \<Rightarrow> bool"
    and items :: "'q \<Rightarrow> 'x list"
    and accepts :: "'q \<Rightarrow> bool"
    and enq :: "'x \<Rightarrow> 'q \<Rightarrow> 'q option"
    and deq :: "'q \<Rightarrow> ('q \<times> 'x option) option"
  assumes enq_law: "inv q \<Longrightarrow> accepts q \<Longrightarrow>
      \<exists>q'. enq x q = Some q' \<and> inv q' \<and> items q' = items q @ [x]"
    and deq_law: "inv q \<Longrightarrow>
      \<exists>q'. deq q = Some (q', case items q of [] \<Rightarrow> None | y # ys \<Rightarrow> Some y) \<and> inv q' \<and> items q' = tl (items q)"
begin

lemma drain_items:
  assumes "inv q"
  shows "\<exists>q'. drain deq n q = Some (q', take n (items q)) \<and> inv q' \<and> items q' = drop n (items q)"
  using assms
proof (induction n arbitrary: q)
  case (Suc n)
  obtain q1 where d: "deq q = Some (q1, case items q of [] \<Rightarrow> None | y # ys \<Rightarrow> Some y)" "inv q1"
      "items q1 = tl (items q)"
    using deq_law [OF Suc.prems] by blast
  show ?case
  proof (cases "items q")
    case Nil
    then show ?thesis
      using d by simp
  next
    case (Cons y ys)
    then show ?thesis
      using d Suc.IH [OF d(2)] by auto
  qed
qed simp

lemma enq_then_drain:
  assumes "inv q" "accepts q" "length (items q) < n"
  shows "\<exists>q' q''. enq x q = Some q' \<and> drain deq n q' = Some (q'', items q @ [x]) \<and> inv q'' \<and> items q'' = []"
proof -
  obtain q' where q': "enq x q = Some q'" "inv q'" "items q' = items q @ [x]"
    using enq_law [OF assms(1,2)] by blast
  obtain q'' where "drain deq n q' = Some (q'', take n (items q'))" "inv q''" "items q'' = drop n (items q')"
    using drain_items [OF q'(2)] by blast
  then show ?thesis
    using q' assms(3) by auto
qed

end

end
