(* ===== verification/Mutexfifo.thy ===== *)
theory Mutexfifo
  imports Slist Runtime
begin

text \<open>
  The FIFO ready queues of \<open>threadqueues/mutexfifo_threadqueues.c\<close>: a singly linked list with a dummy
  node at the head, a lock for each end, and an advisory length. An operation holds its lock
  throughout and is one atomic step. The file offers no spawn cache, so that
  \<open>qt_spawncache_spawn\<close> always declines.
\<close>

record mf_queue =
  mhead :: nat
  mtail :: nat
  advisory_queuelen :: int

type_synonym mf_heap = "tid option sheap"

definition mf_threadqueue_new :: "(mf_heap \<Rightarrow> nat) \<Rightarrow> mf_heap \<Rightarrow> (mf_queue \<times> mf_heap) option" where
  "mf_threadqueue_new al h =
     (let node = al h
      in do { c_assert (node \<noteq> 0);
              Some (\<lparr>mhead = node, mtail = node, advisory_queuelen = 0\<rparr>, h(node \<mapsto> \<lparr>snext = 0, sval = None\<rparr>)) })"

definition mf_threadqueue_dequeue :: "mf_queue \<Rightarrow> mf_heap \<Rightarrow> (mf_queue \<times> tid option) option" where
  "mf_threadqueue_dequeue q h =
     do {
       node \<leftarrow> h (mhead q);
       let new_head = snext node;
       if new_head = 0 then Some (q, None)
       else do {
         n \<leftarrow> h new_head;
         let q = q\<lparr>mhead := new_head\<rparr>;
         Some (if sval n = None then q else q\<lparr>advisory_queuelen := advisory_queuelen q - 1\<rparr>, sval n)
       }
     }"

primrec mf_free_loop :: "nat \<Rightarrow> mf_queue \<Rightarrow> mf_heap \<Rightarrow> mf_queue option" where
  "mf_free_loop 0 q h = None"
| "mf_free_loop (Suc fuel) q h =
     (if mhead q \<noteq> mtail q then do { (q, p) \<leftarrow> mf_threadqueue_dequeue q h; mf_free_loop fuel q h } else Some q)"

definition mf_threadqueue_free :: "mf_queue \<Rightarrow> mf_heap \<Rightarrow> mf_heap option" where
  "mf_threadqueue_free q h =
     do { q \<leftarrow> mf_free_loop (Suc (nat (advisory_queuelen q))) q h;
          Some (h(mhead q := None)) }"

definition mf_threadqueue_enqueue :: "(mf_heap \<Rightarrow> nat) \<Rightarrow> mf_queue \<Rightarrow> tid \<Rightarrow> mf_heap \<Rightarrow> (mf_queue \<times> mf_heap) option" where
  "mf_threadqueue_enqueue al q t h =
     (let node = al h
      in do {
        c_assert (node \<noteq> 0);
        h \<leftarrow> set_snext (mtail q) node (h(node \<mapsto> \<lparr>snext = 0, sval = Some t\<rparr>));
        Some (q\<lparr>mtail := node, advisory_queuelen := advisory_queuelen q + 1\<rparr>, h)
      })"

definition mf_threadqueue_enqueue_yielded :: "(mf_heap \<Rightarrow> nat) \<Rightarrow> mf_queue \<Rightarrow> tid \<Rightarrow> mf_heap \<Rightarrow> (mf_queue \<times> mf_heap) option" where
  "mf_threadqueue_enqueue_yielded al q t h = mf_threadqueue_enqueue al q t h"

text \<open>
  The walk of the filter: \<open>ptr\<close> is the node whose \<open>next\<close> field is \<open>*ptr\<close> (the field is the first of its
  node, which the code uses when it sets the tail), \<open>curs\<close> the current node.
\<close>

primrec mf_filter_loop :: "nat \<Rightarrow> (tid \<Rightarrow> filter_code) \<Rightarrow> nat \<Rightarrow> nat \<Rightarrow> mf_queue \<Rightarrow> mf_heap
    \<Rightarrow> (mf_queue \<times> mf_heap) option" where
  "mf_filter_loop 0 f ptr curs q h = None"
| "mf_filter_loop (Suc fuel) f ptr curs q h =
     (if curs = 0 then Some (q, h)
      else do {
        n \<leftarrow> h curs;
        t \<leftarrow> sval n;
        let cut = (\<lambda>q. if snext n = 0 then q\<lparr>mtail := ptr\<rparr> else q);
        case f t of
          IGNORE_AND_CONTINUE \<Rightarrow> mf_filter_loop fuel f curs (snext n) q h
        | IGNORE_AND_STOP \<Rightarrow> Some (q, h)
        | REMOVE_AND_CONTINUE \<Rightarrow>
            do { h \<leftarrow> set_snext ptr (snext n) h;
                 mf_filter_loop fuel f ptr (snext n) (cut q) (h(curs := None)) }
        | REMOVE_AND_STOP \<Rightarrow>
            do { h \<leftarrow> set_snext ptr (snext n) h;
                 Some (cut q, h(curs := None)) }
      })"

definition mf_threadqueue_filter :: "(tid \<Rightarrow> filter_code) \<Rightarrow> mf_queue \<Rightarrow> mf_heap \<Rightarrow> (mf_queue \<times> mf_heap) option" where
  "mf_threadqueue_filter f q h =
     do { n \<leftarrow> h (mhead q);
          mf_filter_loop (Suc (Suc (nat (advisory_queuelen q)))) f (mhead q) (snext n) q h }"

text \<open>
  Round robin over the shepherds: for a shepherd from its own counter, otherwise from the global
  one by \<open>qthread_internal_incr_mod\<close>.
\<close>

definition mf_choose_dest :: "nat \<Rightarrow> nat \<Rightarrow> nat \<times> nat" where
  "mf_choose_dest nshepherds sched_shepherd =
     (let dest = sched_shepherd; next' = sched_shepherd + 1
      in (dest, next' * of_bool (nshepherds > dest + 1)))"

section \<open>All queues\<close>

record mf_state =
  mqueues :: "mf_queue list"
  mheap :: mf_heap
  malloc :: "mf_heap \<Rightarrow> nat"

definition mf_enqueue :: "shep_id \<Rightarrow> tid \<Rightarrow> 16 word \<Rightarrow> mf_state \<Rightarrow> mf_state option" where
  "mf_enqueue sh t fl s =
     (if sh < length (mqueues s) then
        do { (q, h) \<leftarrow> mf_threadqueue_enqueue (malloc s) (mqueues s ! sh) t (mheap s);
             Some (s\<lparr>mqueues := (mqueues s)[sh := q], mheap := h\<rparr>) }
      else None)"

definition mf_dequeue :: "shep_id \<Rightarrow> mf_state \<Rightarrow> (mf_state \<times> tid option) option" where
  "mf_dequeue sh s =
     (if sh < length (mqueues s) then
        do { (q, p) \<leftarrow> mf_threadqueue_dequeue (mqueues s ! sh) (mheap s);
             Some (s\<lparr>mqueues := (mqueues s)[sh := q]\<rparr>, p) }
      else None)"

text \<open>\<open>qt_scheduler_get_thread\<close> repeats the removal until it gives a thread; \<open>env n\<close> is what the other
  workers do to the queues after attempt \<open>n\<close>.\<close>

primrec mf_scheduler_get_thread :: "nat \<Rightarrow> (nat \<Rightarrow> mf_state \<Rightarrow> mf_state) \<Rightarrow> nat \<Rightarrow> shep_id \<Rightarrow> mf_state
    \<Rightarrow> (mf_state \<times> tid) option" where
  "mf_scheduler_get_thread 0 env n sh s = None"
| "mf_scheduler_get_thread (Suc fuel) env n sh s =
     do { (s, p) \<leftarrow> mf_dequeue sh s;
          case p of Some t \<Rightarrow> Some (s, t) | None \<Rightarrow> mf_scheduler_get_thread fuel env (n + 1) sh (env n s) }"

definition mf_filter :: "(tid \<Rightarrow> filter_code) \<Rightarrow> shep_id \<Rightarrow> mf_state \<Rightarrow> mf_state option" where
  "mf_filter f sh s =
     (if sh < length (mqueues s) then
        do { (q, h) \<leftarrow> mf_threadqueue_filter f (mqueues s ! sh) (mheap s);
             Some (s\<lparr>mqueues := (mqueues s)[sh := q], mheap := h\<rparr>) }
      else None)"

text \<open>\<open>qt_threadqueue_private_enqueue\<close> returns 0: no cache takes the thread.\<close>

definition mf_ops :: "mf_state sched_ops" where
  "mf_ops = \<lparr>tq_enqueue = mf_enqueue, spawncache_spawn = (\<lambda>t fl s. Some (s, False))\<rparr>"

end
