(* ===== verification/Mutexfifo_Inv.thy ===== *)
theory Mutexfifo_Inv
  imports Mutexfifo
begin

text \<open>
  The invariant of the mutex FIFO queues, the effect of each operation on the sequence of threads,
  and the interpretation of the interfaces \<open>ready_queues\<close> and \<open>fifo\<close>.
\<close>

section \<open>One queue\<close>

definition mf_rep :: "mf_heap \<Rightarrow> mf_queue \<Rightarrow> nat list \<Rightarrow> bool" where
  "mf_rep h q ps \<longleftrightarrow> ps \<noteq> [] \<and> distinct ps \<and> schain h (mhead q) ps 0 \<and> mtail q = last ps
     \<and> int (length (tl ps)) \<le> advisory_queuelen q \<and> (\<forall>v \<in> set (svals h (tl ps)). v \<noteq> None)"

definition mf_items :: "mf_heap \<Rightarrow> mf_queue \<Rightarrow> tid list" where
  "mf_items h q = map the (tl (swalk (Suc (nat (advisory_queuelen q))) h (mhead q)))"

lemma mf_rep_items: "mf_rep h q ps \<Longrightarrow> mf_items h q = map the (svals h (tl ps))"
proof -
  assume r: "mf_rep h q ps"
  then have "length ps \<le> Suc (nat (advisory_queuelen q))"
    by (cases ps) (auto simp: mf_rep_def)
  then have "swalk (Suc (nat (advisory_queuelen q))) h (mhead q) = svals h ps"
    using r by (intro swalk_chain) (auto simp: mf_rep_def)
  then show ?thesis
    by (cases ps) (simp_all add: mf_items_def del: swalk.simps)
qed

lemma schain_cong: "(\<And>p. p \<in> set ps \<Longrightarrow> h' p = h p) \<Longrightarrow> schain h' a ps e = schain h a ps e"
  by (induction ps arbitrary: a) auto

lemma svals_cong: "(\<And>p. p \<in> set ps \<Longrightarrow> h' p = h p) \<Longrightarrow> svals h' ps = svals h ps"
  by (simp add: svals_def)

lemma mf_rep_cong:
  assumes "mf_rep h q ps" "\<And>p. p \<in> set ps \<Longrightarrow> h' p = h p"
  shows "mf_rep h' q ps" "mf_items h' q = mf_items h q"
proof -
  have "svals h' (tl ps) = svals h (tl ps)"
    using assms(2) by (intro svals_cong) (metis list.set_sel(2) mf_rep_def assms(1))
  then show r: "mf_rep h' q ps"
    using assms schain_cong [of ps h' h] by (simp add: mf_rep_def)
  show "mf_items h' q = mf_items h q"
    using mf_rep_items [OF r] mf_rep_items [OF assms(1)] \<open>svals h' (tl ps) = svals h (tl ps)\<close> by simp
qed

lemma mf_rep_dom: "mf_rep h q ps \<Longrightarrow> set ps \<subseteq> dom h"
  using schain_dom [of h "mhead q" ps 0] by (simp add: mf_rep_def)

lemma mf_enqueue_one:
  assumes "mf_rep h q ps" "al h \<noteq> 0" "h (al h) = None"
  shows "\<exists>q' h'. mf_threadqueue_enqueue al q t h = Some (q', h') \<and> mf_rep h' q' (ps @ [al h])
    \<and> mf_items h' q' = mf_items h q @ [t] \<and> (\<forall>p. p \<notin> set ps \<and> p \<noteq> al h \<longrightarrow> h' p = h p)
    \<and> dom h' = insert (al h) (dom h)"
proof -
  obtain as a where ps: "ps = as @ [a]"
    using assms(1) by (metis append_butlast_last_id mf_rep_def)
  obtain na where na: "h a = Some na"
    using mf_rep_dom [OF assms(1)] ps by auto
  have neq: "al h \<noteq> a" "al h \<notin> set ps"
    using mf_rep_dom [OF assms(1)] ps assms(3) by auto
  let ?nb = "\<lparr>snext = 0, sval = Some t\<rparr>" and ?q = "q\<lparr>mtail := al h, advisory_queuelen := advisory_queuelen q + 1\<rparr>"
  let ?h = "h(al h \<mapsto> ?nb, a \<mapsto> na\<lparr>snext := al h\<rparr>)"
  have e: "mf_threadqueue_enqueue al q t h = Some (?q, ?h)"
    using assms na neq ps by (simp add: mf_threadqueue_enqueue_def mf_rep_def Let_def)
  have v: "svals ?h (tl (ps @ [al h])) = svals h (tl ps) @ [Some t]"
    using ps na neq by (cases as) (auto simp: svals_def)
  have "schain ?h (mhead q) (as @ [a, al h]) 0"
    using assms ps na neq by (intro schain_snoc) (auto simp: mf_rep_def)
  then have r: "mf_rep ?h ?q (ps @ [al h])"
    using assms(1) ps neq v by (auto simp: mf_rep_def)
  show ?thesis
    using e r v mf_rep_items [OF r] mf_rep_items [OF assms(1)] ps na by auto
qed

lemma mf_dequeue_one:
  assumes "mf_rep h q ps"
  shows "\<exists>q'. mf_threadqueue_dequeue q h = Some (q', case mf_items h q of [] \<Rightarrow> None | t # ts \<Rightarrow> Some t)
    \<and> mf_rep h q' (if tl ps = [] then ps else tl ps) \<and> mf_items h q' = tl (mf_items h q)"
proof (cases "tl ps")
  case Nil
  then show ?thesis
    using assms mf_rep_items [OF assms] by (cases ps) (auto simp: mf_threadqueue_dequeue_def mf_rep_def)
next
  case (Cons b rest)
  then obtain a where ps: "ps = a # b # rest"
    by (cases ps) auto
  obtain na nb where n: "h a = Some na" "snext na = b" "h b = Some nb" "sval nb \<noteq> None" "mhead q = a" "b \<noteq> 0"
    using assms ps by (auto simp: mf_rep_def)
  let ?q = "q\<lparr>mhead := b, advisory_queuelen := advisory_queuelen q - 1\<rparr>"
  have r: "mf_rep h ?q (b # rest)"
    using assms ps n by (auto simp: mf_rep_def)
  show ?thesis
    using n r ps mf_rep_items [OF r] mf_rep_items [OF assms]
    by (auto simp: mf_threadqueue_dequeue_def)
qed

section \<open>Filtering\<close>

fun filter_items :: "(tid \<Rightarrow> filter_code) \<Rightarrow> tid list \<Rightarrow> tid list" where
  "filter_items f [] = []"
| "filter_items f (t # ts) =
     (case f t of IGNORE_AND_CONTINUE \<Rightarrow> t # filter_items f ts | IGNORE_AND_STOP \<Rightarrow> t # ts
      | REMOVE_AND_CONTINUE \<Rightarrow> filter_items f ts | REMOVE_AND_STOP \<Rightarrow> ts)"

text \<open>Unlinking the node behind \<open>ptr\<close>.\<close>

lemma mf_unlink:
  assumes r: "mf_rep h q (as @ ptr # c # cs)" and n: "h c = Some n"
  shows "\<exists>h1. set_snext ptr (snext n) h = Some h1
    \<and> mf_rep (h1(c := None)) (if snext n = 0 then q\<lparr>mtail := ptr\<rparr> else q) (as @ ptr # cs)
    \<and> svals (h1(c := None)) (as @ ptr # cs) = svals h (as @ ptr # cs)
    \<and> (\<forall>p. p \<notin> set (as @ ptr # c # cs) \<longrightarrow> (h1(c := None)) p = h p)
    \<and> (case cs of [] \<Rightarrow> snext n = 0 | d # _ \<Rightarrow> snext n = d \<and> d \<noteq> 0)
    \<and> dom (h1(c := None)) = dom h - {c}"
proof -
  have c: "schain h (mhead q) (as @ ptr # c # cs) 0" "distinct (as @ ptr # c # cs)"
    using r by (auto simp: mf_rep_def)
  obtain np where np: "h ptr = Some np" "schain h (mhead q) as ptr" "ptr \<noteq> 0" "schain h (snext n) cs 0"
    using c(1) n by (auto simp: schain_append)
  let ?h = "h(ptr \<mapsto> np\<lparr>snext := snext n\<rparr>)"
  have hd: "case cs of [] \<Rightarrow> snext n = 0 | d # _ \<Rightarrow> snext n = d \<and> d \<noteq> 0"
    using np(4) by (cases cs) auto
  have v: "svals (?h(c := None)) (as @ ptr # cs) = svals h (as @ ptr # cs)"
    using c(2) np(1) by (auto simp: svals_def)
  have sub: "set (svals h (tl (as @ ptr # cs))) \<subseteq> set (svals h (tl (as @ ptr # c # cs)))"
    by (cases as) (auto simp: svals_def)
  have "svals (?h(c := None)) (tl (as @ ptr # cs)) = svals h (tl (as @ ptr # cs))"
    using v by (cases as) auto
  moreover have "schain (?h(c := None)) (mhead q) (as @ ptr # cs) 0"
    using np c(2) by (auto simp: schain_append)
  moreover have "length (tl (as @ ptr # cs)) \<le> length (tl (as @ ptr # c # cs))"
    by simp
  ultimately have "mf_rep (?h(c := None)) (if snext n = 0 then q\<lparr>mtail := ptr\<rparr> else q) (as @ ptr # cs)"
    using r sub hd c(2) unfolding mf_rep_def by (cases cs) auto
  then show ?thesis
    using np(1) v hd by (intro exI [of _ ?h]) (auto simp: n)
qed

lemma mf_filter_loop_ok:
  assumes "mf_rep h q (as @ ptr # cs)" "length cs < fuel" "case cs of [] \<Rightarrow> curs = 0 | d # _ \<Rightarrow> curs = d \<and> d \<noteq> 0"
  shows "\<exists>q' h' cs'. mf_filter_loop fuel f ptr curs q h = Some (q', h') \<and> mf_rep h' q' (as @ ptr # cs')
    \<and> set cs' \<subseteq> set cs \<and> svals h' (as @ [ptr]) = svals h (as @ [ptr])
    \<and> map the (svals h' cs') = filter_items f (map the (svals h cs))
    \<and> (\<forall>p. p \<notin> set (as @ ptr # cs) \<longrightarrow> h' p = h p) \<and> dom h' \<subseteq> dom h"
  using assms
proof (induction fuel arbitrary: as ptr cs curs q h)
  case (Suc fuel)
  show ?case
  proof (cases cs)
    case Nil
    then show ?thesis
      using Suc.prems by (intro exI [of _ q] exI [of _ h] exI [of _ "[]"]) auto
  next
    case (Cons c rest)
    then have curs: "curs = c" "c \<noteq> 0"
      using Suc.prems(3) by auto
    have "c \<in> dom h" "the (h c) = the (h c)"
      using mf_rep_dom [OF Suc.prems(1)] Cons by auto
    then obtain n where n: "h c = Some n"
      by auto
    have "sval n \<noteq> None"
      using Suc.prems(1) Cons n by (cases as) (auto simp: mf_rep_def)
    then obtain t where t: "sval n = Some t"
      by auto
    have nxt: "case rest of [] \<Rightarrow> snext n = 0 | d # _ \<Rightarrow> snext n = d \<and> d \<noteq> 0"
      using mf_unlink [OF Suc.prems(1) [unfolded Cons] n] by auto
    obtain h1 where u: "set_snext ptr (snext n) h = Some h1"
        "mf_rep (h1(c := None)) (if snext n = 0 then q\<lparr>mtail := ptr\<rparr> else q) (as @ ptr # rest)"
        "svals (h1(c := None)) (as @ ptr # rest) = svals h (as @ ptr # rest)"
        "\<forall>p. p \<notin> set (as @ ptr # c # rest) \<longrightarrow> (h1(c := None)) p = h p" "dom (h1(c := None)) = dom h - {c}"
      using mf_unlink [OF Suc.prems(1) [unfolded Cons] n] by blast
    define h2 where "h2 = h1(c := None)"
    note u = u [folded h2_def]
    show ?thesis
    proof (cases "f t")
      case IGNORE_AND_CONTINUE
      have "\<exists>q' h' cs'. mf_filter_loop fuel f c (snext n) q h = Some (q', h') \<and> mf_rep h' q' ((as @ [ptr]) @ c # cs')
          \<and> set cs' \<subseteq> set rest \<and> svals h' ((as @ [ptr]) @ [c]) = svals h ((as @ [ptr]) @ [c])
          \<and> map the (svals h' cs') = filter_items f (map the (svals h rest))
          \<and> (\<forall>p. p \<notin> set ((as @ [ptr]) @ c # rest) \<longrightarrow> h' p = h p) \<and> dom h' \<subseteq> dom h"
        using Suc.prems Cons nxt by (intro Suc.IH) auto
      then obtain q' h' cs' where r: "mf_filter_loop fuel f c (snext n) q h = Some (q', h')"
          "mf_rep h' q' (as @ ptr # c # cs')" "set cs' \<subseteq> set rest" "svals h' (as @ [ptr, c]) = svals h (as @ [ptr, c])"
          "map the (svals h' cs') = filter_items f (map the (svals h rest))"
          "\<forall>p. p \<notin> set (as @ ptr # c # rest) \<longrightarrow> h' p = h p" "dom h' \<subseteq> dom h"
        by auto
      then show ?thesis
        using Cons curs n t IGNORE_AND_CONTINUE
        by (intro exI [of _ q'] exI [of _ h'] exI [of _ "c # cs'"]) auto
    next
      case IGNORE_AND_STOP
      then show ?thesis
        using Cons curs n t Suc.prems(1) by (intro exI [of _ q] exI [of _ h] exI [of _ cs]) auto
    next
      case REMOVE_AND_CONTINUE
      let ?q = "if snext n = 0 then q\<lparr>mtail := ptr\<rparr> else q"
      have "\<exists>q' h' cs'. mf_filter_loop fuel f ptr (snext n) ?q h2 = Some (q', h')
          \<and> mf_rep h' q' (as @ ptr # cs')
          \<and> set cs' \<subseteq> set rest \<and> svals h' (as @ [ptr]) = svals h2 (as @ [ptr])
          \<and> map the (svals h' cs') = filter_items f (map the (svals h2 rest))
          \<and> (\<forall>p. p \<notin> set (as @ ptr # rest) \<longrightarrow> h' p = h2 p) \<and> dom h' \<subseteq> dom h2"
      proof (rule Suc.IH)
        show "length rest < fuel"
          using Suc.prems(2) Cons by simp
      qed (fact u(2) nxt)+
      then obtain q' h' cs' where r: "mf_filter_loop fuel f ptr (snext n) ?q h2 = Some (q', h')"
          "mf_rep h' q' (as @ ptr # cs')" "set cs' \<subseteq> set rest" "svals h' (as @ [ptr]) = svals h2 (as @ [ptr])"
          "map the (svals h' cs') = filter_items f (map the (svals h2 rest))"
          "\<forall>p. p \<notin> set (as @ ptr # rest) \<longrightarrow> h' p = h2 p" "dom h' \<subseteq> dom h2"
        by blast
      have "svals h2 rest = svals h rest" "svals h2 (as @ [ptr]) = svals h (as @ [ptr])"
        using u(3) by auto
      then show ?thesis
        using r u Cons curs n t REMOVE_AND_CONTINUE h2_def [symmetric]
        by (intro exI [of _ q'] exI [of _ h'] exI [of _ cs']) auto
    next
      case REMOVE_AND_STOP
      have "svals h2 rest = svals h rest" "svals h2 (as @ [ptr]) = svals h (as @ [ptr])"
        using u(3) by auto
      then show ?thesis
        using u Cons curs n t REMOVE_AND_STOP h2_def [symmetric]
        by (intro exI [of _ "if snext n = 0 then q\<lparr>mtail := ptr\<rparr> else q"] exI [of _ "h2"] exI [of _ rest]) auto
    qed
  qed
qed simp

end
