(* ===== verification/Mutexfifo_Props.thy ===== *)
theory Mutexfifo_Props
  imports Mutexfifo_Inv
begin

text \<open>All queues of the mutex FIFO scheduler: the invariant, the interpretations and the properties.\<close>

definition mf_layout :: "mf_state \<Rightarrow> nat list list \<Rightarrow> bool" where
  "mf_layout s pss \<longleftrightarrow> length pss = length (mqueues s)
     \<and> (\<forall>i < length pss. mf_rep (mheap s) (mqueues s ! i) (pss ! i))
     \<and> (\<forall>i < length pss. \<forall>j < length pss. i \<noteq> j \<longrightarrow> set (pss ! i) \<inter> set (pss ! j) = {})"

definition mf_inv :: "mf_state \<Rightarrow> bool" where
  "mf_inv s \<longleftrightarrow> sheap_alloc_ok (malloc s) \<and> finite (dom (mheap s)) \<and> (\<exists>pss. mf_layout s pss)"

definition mf_threads :: "shep_id \<Rightarrow> mf_state \<Rightarrow> tid list" where
  "mf_threads sh s = mf_items (mheap s) (mqueues s ! sh)"

definition mf_tasks :: "mf_state \<Rightarrow> tid multiset" where
  "mf_tasks s = mset (concat (map (\<lambda>sh. mf_threads sh s) [0..<length (mqueues s)]))"

definition mf_nsheps :: "mf_state \<Rightarrow> nat" where
  "mf_nsheps s = length (mqueues s)"

lemma mf_layout_update:
  assumes l: "mf_layout s pss" and i: "i < length (mqueues s)" and r: "mf_rep h' q' ps'"
    and sub: "set ps' \<subseteq> set (pss ! i) \<union> N" and new: "N \<inter> dom (mheap s) = {}"
    and same: "\<forall>p. p \<notin> set (pss ! i) \<union> N \<longrightarrow> h' p = mheap s p"
    and s': "s' = s\<lparr>mqueues := (mqueues s)[i := q'], mheap := h'\<rparr>"
  shows "mf_layout s' (pss[i := ps'])"
    and "\<And>j. j < length (mqueues s) \<Longrightarrow> j \<noteq> i \<Longrightarrow> mf_threads j s' = mf_threads j s"
proof -
  have len: "length pss = length (mqueues s)"
    using l by (simp add: mf_layout_def)
  have old: "mf_rep (mheap s) (mqueues s ! j) (pss ! j)" if "j < length pss" for j
    using l that by (simp add: mf_layout_def)
  have apart: "set (pss ! j) \<inter> set (pss ! k) = {}" if "j < length pss" "k < length pss" "j \<noteq> k" for j k
    using l that unfolding mf_layout_def by metis
  have out: "h' p = mheap s p" if "j < length pss" "j \<noteq> i" "p \<in> set (pss ! j)" for p j
  proof -
    have "p \<in> dom (mheap s)" "p \<notin> set (pss ! i)"
      using mf_rep_dom [OF old] apart [of i j] that i len by auto
    then show ?thesis
      using same new by blast
  qed
  have rj: "mf_rep h' (mqueues s ! j) (pss ! j)" "mf_items h' (mqueues s ! j) = mf_items (mheap s) (mqueues s ! j)"
    if "j < length pss" "j \<noteq> i" for j
    using mf_rep_cong [OF old, of j h'] out that by blast+
  have disj: "set ps' \<inter> set (pss ! j) = {}" if "j < length pss" "j \<noteq> i" for j
  proof -
    have "set (pss ! j) \<subseteq> dom (mheap s)"
      by (rule mf_rep_dom [OF old [OF that(1)]])
    moreover have "set (pss ! i) \<inter> set (pss ! j) = {}"
      using apart [of i j] that i len by simp
    ultimately show ?thesis
      using sub new by blast
  qed
  have "mf_rep h' ((mqueues s)[i := q'] ! j) (pss[i := ps'] ! j)" if "j < length pss" for j
    using r rj(1) that i len by (cases "j = i") auto
  moreover have "set (pss[i := ps'] ! j) \<inter> set (pss[i := ps'] ! k) = {}"
    if "j < length pss" "k < length pss" "j \<noteq> k" for j k
    using that apart [OF that] disj [of j] disj [of k] i len
    by (cases "j = i"; cases "k = i") (simp_all add: Int_commute)
  ultimately show "mf_layout s' (pss[i := ps'])"
    using len unfolding mf_layout_def s' by simp
  show "mf_threads j s' = mf_threads j s" if "j < length (mqueues s)" "j \<noteq> i" for j
    using rj(2) that len by (simp add: mf_threads_def s')
qed

lemma mf_tasks_update:
  assumes "i < length (mqueues s)" "length (mqueues s') = length (mqueues s)"
    and "\<And>j. j < length (mqueues s) \<Longrightarrow> j \<noteq> i \<Longrightarrow> mf_threads j s' = mf_threads j s"
  shows "mf_tasks s' + mset (mf_threads i s) = mf_tasks s + mset (mf_threads i s')"
proof -
  let ?f = "\<lambda>s. map (\<lambda>sh. mf_threads sh s) [0..<length (mqueues s)]"
  have "?f s' = (?f s)[i := mf_threads i s']"
    using assms by (intro nth_equalityI) (auto simp: nth_list_update)
  then show ?thesis
    using mset_concat_update [of i "?f s" "mf_threads i s'"] assms(1) by (simp add: mf_tasks_def)
qed

lemma mf_enqueue_ok:
  assumes "mf_inv s" "sh < length (mqueues s)"
  shows "\<exists>s'. mf_enqueue sh t fl s = Some s' \<and> mf_inv s' \<and> mf_threads sh s' = mf_threads sh s @ [t]
    \<and> length (mqueues s') = length (mqueues s)
    \<and> (\<forall>j < length (mqueues s). j \<noteq> sh \<longrightarrow> mf_threads j s' = mf_threads j s)"
proof -
  obtain pss where l: "mf_layout s pss"
    using assms(1) by (auto simp: mf_inv_def)
  let ?h = "mheap s" and ?q = "mqueues s ! sh" and ?al = "malloc s"
  have f: "?al ?h \<noteq> 0" "?h (?al ?h) = None" "finite (dom ?h)" "sheap_alloc_ok ?al"
    using assms(1) by (auto simp: mf_inv_def sheap_alloc_ok_def)
  have r: "mf_rep ?h ?q (pss ! sh)"
    using l assms(2) by (simp add: mf_layout_def)
  obtain q' h' where e: "mf_threadqueue_enqueue ?al ?q t ?h = Some (q', h')" "mf_rep h' q' (pss ! sh @ [?al ?h])"
      "mf_items h' q' = mf_items ?h ?q @ [t]" "\<forall>p. p \<notin> set (pss ! sh) \<and> p \<noteq> ?al ?h \<longrightarrow> h' p = ?h p"
      "dom h' = insert (?al ?h) (dom ?h)"
    using mf_enqueue_one [of ?h ?q "pss ! sh" ?al, OF r f(1,2)] by blast
  let ?s = "s\<lparr>mqueues := (mqueues s)[sh := q'], mheap := h'\<rparr>"
  have "mf_layout ?s (pss[sh := pss ! sh @ [?al ?h]])"
    "\<And>j. j < length (mqueues s) \<Longrightarrow> j \<noteq> sh \<Longrightarrow> mf_threads j ?s = mf_threads j s"
  proof -
    have sub: "set (pss ! sh @ [?al ?h]) \<subseteq> set (pss ! sh) \<union> {?al ?h}" "{?al ?h} \<inter> dom ?h = {}"
      "\<forall>p. p \<notin> set (pss ! sh) \<union> {?al ?h} \<longrightarrow> h' p = ?h p"
      using f(2) e(4) by auto
    show "mf_layout ?s (pss[sh := pss ! sh @ [?al ?h]])"
      by (rule mf_layout_update(1) [OF l assms(2) e(2) sub]) simp
    show "mf_threads j ?s = mf_threads j s" if "j < length (mqueues s)" "j \<noteq> sh" for j
      by (rule mf_layout_update(2) [OF l assms(2) e(2) sub]) (use that in simp_all)
  qed
  moreover have "mf_threads sh ?s = mf_threads sh s @ [t]"
    using e(3) assms(2) by (simp add: mf_threads_def)
  ultimately show ?thesis
    using e f assms(2) by (auto simp: mf_enqueue_def mf_inv_def)
qed

lemma mf_dequeue_ok:
  assumes "mf_inv s" "sh < length (mqueues s)"
  shows "\<exists>s'. mf_dequeue sh s = Some (s', case mf_threads sh s of [] \<Rightarrow> None | t # ts \<Rightarrow> Some t)
    \<and> mf_inv s' \<and> mf_threads sh s' = tl (mf_threads sh s) \<and> length (mqueues s') = length (mqueues s)
    \<and> (\<forall>j < length (mqueues s). j \<noteq> sh \<longrightarrow> mf_threads j s' = mf_threads j s) \<and> mheap s' = mheap s"
proof -
  obtain pss where l: "mf_layout s pss"
    using assms(1) by (auto simp: mf_inv_def)
  let ?h = "mheap s" and ?q = "mqueues s ! sh"
  have r: "mf_rep ?h ?q (pss ! sh)"
    using l assms(2) by (simp add: mf_layout_def)
  obtain q' where e: "mf_threadqueue_dequeue ?q ?h = Some (q', case mf_items ?h ?q of [] \<Rightarrow> None | t # ts \<Rightarrow> Some t)"
      "mf_rep ?h q' (if tl (pss ! sh) = [] then pss ! sh else tl (pss ! sh))" "mf_items ?h q' = tl (mf_items ?h ?q)"
    using mf_dequeue_one [OF r] by blast
  let ?s = "s\<lparr>mqueues := (mqueues s)[sh := q'], mheap := ?h\<rparr>"
  have "mf_layout ?s (pss[sh := if tl (pss ! sh) = [] then pss ! sh else tl (pss ! sh)])"
    "\<And>j. j < length (mqueues s) \<Longrightarrow> j \<noteq> sh \<Longrightarrow> mf_threads j ?s = mf_threads j s"
  proof -
    have sub: "set (if tl (pss ! sh) = [] then pss ! sh else tl (pss ! sh)) \<subseteq> set (pss ! sh) \<union> {}"
      by (cases "pss ! sh") auto
    show "mf_layout ?s (pss[sh := if tl (pss ! sh) = [] then pss ! sh else tl (pss ! sh)])"
      by (rule mf_layout_update(1) [OF l assms(2) e(2) sub]) simp_all
    show "mf_threads j ?s = mf_threads j s" if "j < length (mqueues s)" "j \<noteq> sh" for j
      by (rule mf_layout_update(2) [OF l assms(2) e(2) sub]) (use that in simp_all)
  qed
  moreover have "mf_threads sh ?s = tl (mf_threads sh s)"
    using e(3) assms(2) by (simp add: mf_threads_def)
  moreover have "s\<lparr>mqueues := (mqueues s)[sh := q']\<rparr> = ?s"
    by simp
  ultimately show ?thesis
    using e assms by (auto simp: mf_dequeue_def mf_inv_def mf_threads_def)
qed

section \<open>Interpretations\<close>

interpretation mutexfifo: ready_queues mf_ops mf_inv mf_tasks mf_nsheps
proof
  fix s sh t fl
  assume a: "mf_inv s" "sh < mf_nsheps s"
  then obtain s' where e: "mf_enqueue sh t fl s = Some s'" "mf_inv s'" "mf_threads sh s' = mf_threads sh s @ [t]"
      "length (mqueues s') = length (mqueues s)"
      "\<forall>j < length (mqueues s). j \<noteq> sh \<longrightarrow> mf_threads j s' = mf_threads j s"
    using mf_enqueue_ok [of s sh t fl] by (auto simp: mf_nsheps_def)
  have "mf_tasks s' = add_mset t (mf_tasks s)"
    using mf_tasks_update [of sh s s'] e a(2) by (simp add: mf_nsheps_def)
  then show "\<exists>s'. tq_enqueue mf_ops sh t fl s = Some s' \<and> mf_inv s' \<and> mf_tasks s' = add_mset t (mf_tasks s)
      \<and> mf_nsheps s' = mf_nsheps s"
    using e by (simp add: mf_ops_def mf_nsheps_def)
qed (auto simp: mf_ops_def)

interpretation mutexfifo_queue: fifo "\<lambda>s. mf_inv s \<and> sh < length (mqueues s)" "mf_threads sh" "\<lambda>_. True"
    "\<lambda>t. mf_enqueue sh t fl" "mf_dequeue sh" for sh fl
proof
  fix s t
  assume "mf_inv s \<and> sh < length (mqueues s)"
  then show "\<exists>s'. mf_enqueue sh t fl s = Some s' \<and> (mf_inv s' \<and> sh < length (mqueues s'))
      \<and> mf_threads sh s' = mf_threads sh s @ [t]"
    using mf_enqueue_ok [of s sh t fl] by auto
next
  fix s
  assume "mf_inv s \<and> sh < length (mqueues s)"
  then show "\<exists>s'. mf_dequeue sh s = Some (s', case mf_threads sh s of [] \<Rightarrow> None | t # ts \<Rightarrow> Some t)
      \<and> (mf_inv s' \<and> sh < length (mqueues s')) \<and> mf_threads sh s' = tl (mf_threads sh s)"
    using mf_dequeue_ok [of s sh] by auto
qed

section \<open>Start\<close>

primrec mf_start_queues :: "nat \<Rightarrow> mf_state \<Rightarrow> mf_state option" where
  "mf_start_queues 0 s = Some s"
| "mf_start_queues (Suc n) s =
     do { s \<leftarrow> mf_start_queues n s;
          (q, h) \<leftarrow> mf_threadqueue_new (malloc s) (mheap s);
          Some (s\<lparr>mqueues := mqueues s @ [q], mheap := h\<rparr>) }"

lemma mf_new_ok:
  assumes "mf_inv s"
  shows "\<exists>q h. mf_threadqueue_new (malloc s) (mheap s) = Some (q, h)
    \<and> mf_inv (s\<lparr>mqueues := mqueues s @ [q], mheap := h\<rparr>) \<and> mf_items h q = []
    \<and> (\<forall>j < length (mqueues s). mf_items h (mqueues s ! j) = mf_items (mheap s) (mqueues s ! j))"
proof -
  let ?h = "mheap s" and ?p = "malloc s (mheap s)"
  obtain pss where l: "mf_layout s pss"
    using assms by (auto simp: mf_inv_def)
  have f: "?p \<noteq> 0" "?h ?p = None"
    using assms by (auto simp: mf_inv_def sheap_alloc_ok_def)
  let ?q = "\<lparr>mhead = ?p, mtail = ?p, advisory_queuelen = 0\<rparr>" and ?h' = "?h(?p \<mapsto> \<lparr>snext = 0, sval = None\<rparr>)"
  have r: "mf_rep ?h' ?q [?p]"
    using f by (simp add: mf_rep_def)
  have len: "length pss = length (mqueues s)"
    using l by (simp add: mf_layout_def)
  have old: "mf_rep ?h (mqueues s ! j) (pss ! j)" if "j < length pss" for j
    using l that by (simp add: mf_layout_def)
  have notin: "?p \<notin> set (pss ! j)" if "j < length pss" for j
    using mf_rep_dom [OF old [OF that]] f(2) by auto
  then have o: "mf_rep ?h' (mqueues s ! j) (pss ! j)" "mf_items ?h' (mqueues s ! j) = mf_items ?h (mqueues s ! j)"
    if "j < length pss" for j
    using mf_rep_cong [OF old, of j ?h'] that by (metis fun_upd_other)+
  have "mf_rep ?h' ((mqueues s @ [?q]) ! j) ((pss @ [[?p]]) ! j)" if "j < length (pss @ [[?p]])" for j
    using o(1) r that len by (auto simp: nth_append less_Suc_eq)
  moreover have "set ((pss @ [[?p]]) ! j) \<inter> set ((pss @ [[?p]]) ! k) = {}"
    if "j < length (pss @ [[?p]])" "k < length (pss @ [[?p]])" "j \<noteq> k" for j k
  proof -
    have "set (pss ! j) \<inter> set (pss ! k) = {}" if "j < length pss" "k < length pss" "j \<noteq> k" for j k
      using l that unfolding mf_layout_def by metis
    then show ?thesis
      using that notin by (auto simp: nth_append less_Suc_eq split: if_splits)
  qed
  ultimately have "mf_layout (s\<lparr>mqueues := mqueues s @ [?q], mheap := ?h'\<rparr>) (pss @ [[?p]])"
    using len by (auto simp: mf_layout_def)
  then have "mf_inv (s\<lparr>mqueues := mqueues s @ [?q], mheap := ?h'\<rparr>)"
    using assms by (auto simp: mf_inv_def)
  moreover have "mf_items ?h' ?q = []"
    using mf_rep_items [OF r] by simp
  ultimately show ?thesis
    using f o(2) len by (auto simp: mf_threadqueue_new_def Let_def)
qed

definition mf_start :: mf_state where
  "mf_start = the (mf_start_queues 1 \<lparr>mqueues = [], mheap = Map.empty, malloc = fresh_node\<rparr>)"

lemma mf_start_ok: "mf_inv mf_start" "length (mqueues mf_start) = 1" "mf_threads 0 mf_start = []"
proof -
  let ?s = "\<lparr>mqueues = [], mheap = Map.empty, malloc = fresh_node\<rparr>"
  have "mf_inv ?s"
    by (auto simp: mf_inv_def mf_layout_def fresh_node_ok)
  then show "mf_inv mf_start" "length (mqueues mf_start) = 1" "mf_threads 0 mf_start = []"
    using mf_new_ok [of ?s] by (auto simp: mf_start_def mf_threads_def)
qed

section \<open>Properties\<close>

text \<open>
  C23. The ready queue of a shepherd is a FIFO queue: an insertion appends the thread and leaves all
  other queues alone, and repeated removals hand out the threads in the order of their insertion.
  No removal frees a node, however: the former dummy node stays allocated.
\<close>
theorem mutexfifo_is_fifo:
  assumes "mf_inv s" "sh < length (mqueues s)" "length (mf_threads sh s) < n"
  shows "(\<exists>s' s''. mf_enqueue sh t fl s = Some s' \<and> drain (mf_dequeue sh) n s' = Some (s'', mf_threads sh s @ [t])
      \<and> mf_inv s'' \<and> mf_threads sh s'' = []
      \<and> (\<forall>j < length (mqueues s). j \<noteq> sh \<longrightarrow> mf_threads j s' = mf_threads j s))
    \<and> (\<exists>s' r. mf_dequeue sh s = Some (s', r) \<and> mheap s' = mheap s)"
  using mutexfifo_queue.enq_then_drain [where q = s and sh = sh and n = n and x = t and fl = fl] mf_enqueue_ok [OF assms(1,2), of t fl]
    mf_dequeue_ok [OF assms(1,2)] assms by force

theorem mutexfifo_is_fifo_witness:
  "\<exists>s' s''. mf_enqueue 0 7 0 mf_start = Some s' \<and> drain (mf_dequeue 0) 3 s' = Some (s'', [7]) \<and> mf_inv s''"
  using mutexfifo_is_fifo [of mf_start 0 3 7 0] mf_start_ok by auto

text \<open>
  The filter of the queue removes exactly the threads the callback asks to remove, up to the one at
  which it asks to stop, keeps the others in order, leaves all other queues alone and keeps the
  queue well linked, also when the first or the last thread is removed.
\<close>
lemma mutexfifo_filter_exact:
  assumes "mf_inv s" "sh < length (mqueues s)"
  shows "\<exists>s'. mf_filter f sh s = Some s' \<and> mf_inv s' \<and> mf_threads sh s' = filter_items f (mf_threads sh s)
    \<and> (\<forall>j < length (mqueues s). j \<noteq> sh \<longrightarrow> mf_threads j s' = mf_threads j s)"
proof -
  obtain pss where l: "mf_layout s pss"
    using assms(1) by (auto simp: mf_inv_def)
  let ?h = "mheap s" and ?q = "mqueues s ! sh"
  have r: "mf_rep ?h ?q (pss ! sh)"
    using l assms(2) by (simp add: mf_layout_def)
  obtain p cs where ps: "pss ! sh = p # cs" "mhead ?q = p" "length cs \<le> nat (advisory_queuelen ?q)"
    using r by (cases "pss ! sh") (auto simp: mf_rep_def)
  obtain n where n: "?h p = Some n" "case cs of [] \<Rightarrow> snext n = 0 | d # _ \<Rightarrow> snext n = d \<and> d \<noteq> 0"
    using r ps by (cases cs) (auto simp: mf_rep_def)
  have "mf_rep ?h ?q ([] @ p # cs)" "length cs < Suc (Suc (nat (advisory_queuelen ?q)))"
    using r ps by simp_all
  from mf_filter_loop_ok [OF this n(2), of f] obtain q' h' cs' where
    e: "mf_filter_loop (Suc (Suc (nat (advisory_queuelen ?q)))) f p (snext n) ?q ?h = Some (q', h')"
      "mf_rep h' q' (p # cs')" "set cs' \<subseteq> set cs" "map the (svals h' cs') = filter_items f (map the (svals ?h cs))"
      "\<forall>x. x \<notin> set (p # cs) \<longrightarrow> h' x = ?h x" "dom h' \<subseteq> dom ?h"
    by (auto simp del: mf_filter_loop.simps)
  have ex: "mf_filter f sh s = Some (s\<lparr>mqueues := (mqueues s)[sh := q'], mheap := h'\<rparr>)" (is "_ = Some ?s")
    using e(1) n(1) ps(2) assms(2) by (simp add: mf_filter_def mf_threadqueue_filter_def del: mf_filter_loop.simps)
  have sub: "set (p # cs') \<subseteq> set (pss ! sh) \<union> {}" "{} \<inter> dom ?h = {}"
      "\<forall>x. x \<notin> set (pss ! sh) \<union> {} \<longrightarrow> h' x = ?h x"
    using e(3,5) ps(1) by auto
  have "mf_layout ?s (pss[sh := p # cs'])"
    by (rule mf_layout_update(1) [OF l assms(2) e(2) sub]) simp
  moreover have "mf_threads j ?s = mf_threads j s" if "j < length (mqueues s)" "j \<noteq> sh" for j
    by (rule mf_layout_update(2) [OF l assms(2) e(2) sub]) (use that in simp_all)
  moreover have "mf_threads sh ?s = filter_items f (mf_threads sh s)"
    using mf_rep_items [OF e(2)] mf_rep_items [OF r] e(4) ps(1) assms(2) by (simp add: mf_threads_def)
  moreover have "finite (dom h')"
    using e(6) assms(1) by (auto simp: mf_inv_def intro: finite_subset)
  ultimately show ?thesis
    using ex assms(1) by (auto simp: mf_inv_def)
qed

end
