(* ===== verification/Tqueue.thy ===== *)
theory Tqueue
  imports Slist Runtime
begin

text \<open>
  The queues of \<open>queue.c\<close> on which threads wait until they are released. There are three kinds: a plain
  linked list (\<open>NOSYNC\<close>), the lock-free Nemesis list for many joining threads and one that empties it
  (\<open>NEMESIS\<close>, and \<open>NEMESIS_LENGTH\<close> with a counter), and an array of bounded size (\<open>CAPPED\<close>).

  The operations are functions on the queue and the heap of its nodes. The Nemesis list is given a
  second time as single accesses to shared memory.
\<close>

type_synonym tq_heap = "tid sheap"

record nosync_queue =
  nos_head :: nat
  nos_tail :: nat

record nemesis_queue =
  nem_head :: nat
  nem_tail :: nat
  nem_length :: u64
  shadow_head :: nat

record capped_queue =
  members :: "tid option list"
  membercount :: nat
  maxmembers :: nat
  busy :: nat

datatype qthread_queue = NOSYNC nosync_queue | NEMESIS nemesis_queue | NEMESIS_LENGTH nemesis_queue
  | CAPPED capped_queue

definition QTHREAD_QUEUE_MULTI_JOIN :: u8 where "QTHREAD_QUEUE_MULTI_JOIN = push_bit 1 1"
definition QTHREAD_QUEUE_MULTI_JOIN_LENGTH :: u8 where "QTHREAD_QUEUE_MULTI_JOIN_LENGTH = push_bit 2 1"
definition QTHREAD_QUEUE_CAPPED :: u8 where "QTHREAD_QUEUE_CAPPED = push_bit 3 1"

definition empty_nemesis :: nemesis_queue where
  "empty_nemesis = \<lparr>nem_head = 0, nem_tail = 0, nem_length = 0, shadow_head = 0\<rparr>"

text \<open>The array of a capped queue is not initialised; \<open>junk\<close> is what it holds.\<close>

definition qthread_queue_create :: "u8 \<Rightarrow> nat \<Rightarrow> (nat \<Rightarrow> tid option) \<Rightarrow> qthread_queue" where
  "qthread_queue_create fl len junk =
     (if fl AND QTHREAD_QUEUE_MULTI_JOIN \<noteq> 0 then NEMESIS empty_nemesis
      else if fl AND QTHREAD_QUEUE_MULTI_JOIN_LENGTH \<noteq> 0 then NEMESIS_LENGTH empty_nemesis
      else if fl AND QTHREAD_QUEUE_CAPPED \<noteq> 0
        then CAPPED \<lparr>members = map junk [0..<len], membercount = 0, maxmembers = len, busy = 0\<rparr>
      else NOSYNC \<lparr>nos_head = 0, nos_tail = 0\<rparr>)"

definition qthread_queue_length :: "qthread_queue \<Rightarrow> u64" where
  "qthread_queue_length q =
     (case q of NEMESIS_LENGTH n \<Rightarrow> nem_length n | CAPPED c \<Rightarrow> of_nat (membercount c) | _ \<Rightarrow> 0)"

section \<open>The three kinds\<close>

definition nosync_enqueue :: "(tq_heap \<Rightarrow> nat) \<Rightarrow> nosync_queue \<Rightarrow> tid \<Rightarrow> tq_heap \<Rightarrow> (nosync_queue \<times> tq_heap) option" where
  "nosync_enqueue al q t h =
     (let node = al h; h = h(node \<mapsto> \<lparr>snext = 0, sval = t\<rparr>)
      in do {
        c_assert (node \<noteq> 0);
        (q, h) \<leftarrow> (if nos_tail q = 0 then Some (q\<lparr>nos_head := node\<rparr>, h)
                   else do { h \<leftarrow> set_snext (nos_tail q) node h; Some (q, h) });
        Some (q\<lparr>nos_tail := node\<rparr>, h)
      })"

text \<open>An access to a freed node is \<open>None\<close>: the allocation of the new node of \<open>nosync_enqueue\<close> may reuse its
  address, but the code then links the node to itself.\<close>

definition nosync_dequeue :: "nosync_queue \<Rightarrow> tq_heap \<Rightarrow> (nosync_queue \<times> tq_heap \<times> tid option) option" where
  "nosync_dequeue q h =
     (let node = nos_head q
      in if node = 0 then Some (q, h, None)
         else do { n \<leftarrow> h node; Some (q\<lparr>nos_head := snext n\<rparr>, h(node := None), Some (sval n)) })"

definition NEMESIS_enqueue :: "(tq_heap \<Rightarrow> nat) \<Rightarrow> nemesis_queue \<Rightarrow> tid \<Rightarrow> tq_heap \<Rightarrow> (nemesis_queue \<times> tq_heap) option" where
  "NEMESIS_enqueue al q t h =
     (let node = al h; h = h(node \<mapsto> \<lparr>snext = 0, sval = t\<rparr>); prev = nem_tail q; q = q\<lparr>nem_tail := node\<rparr>
      in do {
        c_assert (node \<noteq> 0);
        if prev = 0 then Some (q\<lparr>nem_head := node\<rparr>, h)
        else do { h \<leftarrow> set_snext prev node h; Some (q, h) }
      })"

text \<open>With no other thread active, the wait for \<open>dequeued->next\<close> would be endless: \<open>None\<close>.\<close>

definition NEMESIS_dequeue :: "nemesis_queue \<Rightarrow> tq_heap \<Rightarrow> (nemesis_queue \<times> tq_heap \<times> tid option) option" where
  "NEMESIS_dequeue q h =
     (if shadow_head q = 0 \<and> nem_head q = 0 then Some (q, h, None)
      else
        (let q = (if shadow_head q = 0 then q\<lparr>shadow_head := nem_head q, nem_head := 0\<rparr> else q);
             dequeued = shadow_head q
         in do {
           n \<leftarrow> h dequeued;
           q \<leftarrow> (if snext n \<noteq> 0 then Some (q\<lparr>shadow_head := snext n\<rparr>)
                 else if nem_tail q = dequeued then Some (q\<lparr>shadow_head := 0, nem_tail := 0\<rparr>)
                 else None);
           Some (q, h(dequeued := None), Some (sval n))
         }))"

definition capped_enqueue :: "capped_queue \<Rightarrow> tid \<Rightarrow> capped_queue option" where
  "capped_enqueue q t =
     (if membercount q \<ge> maxmembers q then Some q
      else (let q = q\<lparr>busy := busy q + 1\<rparr>; offset = membercount q; q = q\<lparr>membercount := offset + 1\<rparr>
            in do {
              c_assert (offset \<ge> maxmembers q);
              c_assert (offset < length (members q));
              Some (q\<lparr>members := (members q)[offset := Some t], busy := busy q - 1\<rparr>)
            }))"

text \<open>The first occupied slot below \<open>membercount\<close>, from \<open>i\<close> on; \<open>busy\<close> is zero between operations, else
  the code spins.\<close>

primrec capped_find :: "nat \<Rightarrow> nat \<Rightarrow> capped_queue \<Rightarrow> nat option option" where
  "capped_find 0 i q = Some None"
| "capped_find (Suc n) i q =
     (if i < length (members q) then (if members q ! i \<noteq> None then Some (Some i) else capped_find n (i + 1) q)
      else None)"

definition capped_dequeue :: "capped_queue \<Rightarrow> (capped_queue \<times> tid option) option" where
  "capped_dequeue q =
     (if busy q \<noteq> 0 then None
      else do { r \<leftarrow> capped_find (membercount q) 0 q;
                Some (case r of None \<Rightarrow> (q, None)
                      | Some i \<Rightarrow> (q\<lparr>members := (members q)[i := None]\<rparr>, members q ! i)) })"

section \<open>Joining and releasing\<close>

text \<open>A worker puts a thread whose state is \<open>QTHREAD_STATE_QUEUE\<close> into the queue it joined.\<close>

definition qthread_queue_internal_enqueue :: "(tq_heap \<Rightarrow> nat) \<Rightarrow> qthread_queue \<Rightarrow> tid \<Rightarrow> tq_heap
    \<Rightarrow> (qthread_queue \<times> tq_heap) option" where
  "qthread_queue_internal_enqueue al q t h =
     (case q of
        NOSYNC n \<Rightarrow> map_option (\<lambda>(n, h). (NOSYNC n, h)) (nosync_enqueue al n t h)
      | NEMESIS n \<Rightarrow> map_option (\<lambda>(n, h). (NEMESIS n, h)) (NEMESIS_enqueue al n t h)
      | NEMESIS_LENGTH n \<Rightarrow>
          map_option (\<lambda>(n, h). (NEMESIS_LENGTH (n\<lparr>nem_length := nem_length n + 1\<rparr>), h)) (NEMESIS_enqueue al n t h)
      | CAPPED c \<Rightarrow> map_option (\<lambda>c. (CAPPED c, h)) (capped_enqueue c t))"

text \<open>The fields of the threads and the ready queues, as in the synchronisation layers.\<close>

record 'q launch_state =
  lthreads :: "tid \<Rightarrow> qthread"
  lready :: 'q

definition qthread_queue_internal_launch :: "'q sched_ops \<Rightarrow> tid \<Rightarrow> shep_id \<Rightarrow> 'q launch_state
    \<Rightarrow> 'q launch_state option" where
  "qthread_queue_internal_launch ops t cur_shep s =
     (let s = s\<lparr>lthreads := (lthreads s)(t := (lthreads s t)\<lparr>thread_state := RUNNING\<rparr>)\<rparr>; th = lthreads s t
      in do { q \<leftarrow> (if flags th AND QTHREAD_UNSTEALABLE \<noteq> 0 \<and> shepherd_ptr th \<noteq> cur_shep
                    then tq_enqueue ops (shepherd_ptr th) t (flags th) (lready s)
                    else spawn_or_enqueue ops cur_shep t (flags th) (lready s));
              Some (s\<lparr>lready := q\<rparr>) })"

definition queue_dequeue :: "qthread_queue \<Rightarrow> tq_heap \<Rightarrow> (qthread_queue \<times> tq_heap \<times> tid option) option" where
  "queue_dequeue q h =
     (case q of
        NOSYNC n \<Rightarrow> map_option (\<lambda>(n, h, t). (NOSYNC n, h, t)) (nosync_dequeue n h)
      | NEMESIS n \<Rightarrow> map_option (\<lambda>(n, h, t). (NEMESIS n, h, t)) (NEMESIS_dequeue n h)
      | NEMESIS_LENGTH n \<Rightarrow> map_option (\<lambda>(n, h, t). (NEMESIS_LENGTH n, h, t)) (NEMESIS_dequeue n h)
      | CAPPED c \<Rightarrow> map_option (\<lambda>(c, t). (CAPPED c, h, t)) (capped_dequeue c))"

text \<open>\<open>release_one\<close> does not check the thread: with an empty queue it dereferences \<open>NULL\<close>.\<close>

definition qthread_queue_release_one :: "'q sched_ops \<Rightarrow> shep_id \<Rightarrow> qthread_queue \<Rightarrow> tq_heap \<Rightarrow> 'q launch_state
    \<Rightarrow> (qthread_queue \<times> tq_heap \<times> 'q launch_state) option" where
  "qthread_queue_release_one ops shep q h s =
     do {
       (q, h, r) \<leftarrow> queue_dequeue q h;
       let q = (case q of NEMESIS_LENGTH n \<Rightarrow> NEMESIS_LENGTH (n\<lparr>nem_length := nem_length n - 1\<rparr>) | _ \<Rightarrow> q);
       t \<leftarrow> r;
       s \<leftarrow> qthread_queue_internal_launch ops t
              (case target_shepherd (lthreads s t) of None \<Rightarrow> shep | Some d \<Rightarrow> d) s;
       Some (q, h, s)
     }"

text \<open>Launching until the queue is empty (\<open>NOSYNC\<close>, \<open>NEMESIS\<close>); the fuel bounds the number of threads.\<close>

primrec release_loop :: "nat \<Rightarrow> 'q sched_ops \<Rightarrow> shep_id \<Rightarrow> qthread_queue \<Rightarrow> tq_heap \<Rightarrow> 'q launch_state
    \<Rightarrow> (qthread_queue \<times> tq_heap \<times> 'q launch_state) option" where
  "release_loop 0 ops shep q h s = None"
| "release_loop (Suc fuel) ops shep q h s =
     do { (q, h, r) \<leftarrow> queue_dequeue q h;
          case r of None \<Rightarrow> Some (q, h, s)
          | Some t \<Rightarrow> do { s \<leftarrow> qthread_queue_internal_launch ops t shep s; release_loop fuel ops shep q h s } }"

primrec release_count :: "nat \<Rightarrow> 'q sched_ops \<Rightarrow> shep_id \<Rightarrow> qthread_queue \<Rightarrow> tq_heap \<Rightarrow> 'q launch_state
    \<Rightarrow> (qthread_queue \<times> tq_heap \<times> 'q launch_state) option" where
  "release_count 0 ops shep q h s = Some (q, h, s)"
| "release_count (Suc n) ops shep q h s =
     do { (q, h, r) \<leftarrow> queue_dequeue q h;
          t \<leftarrow> r;
          s \<leftarrow> qthread_queue_internal_launch ops t shep s;
          release_count n ops shep q h s }"

fun launch_members :: "'q sched_ops \<Rightarrow> shep_id \<Rightarrow> tid option list \<Rightarrow> 'q launch_state \<Rightarrow> 'q launch_state option" where
  "launch_members ops shep [] s = Some s"
| "launch_members ops shep (m # ms) s =
     do { s \<leftarrow> (case m of None \<Rightarrow> Some s | Some t \<Rightarrow> qthread_queue_internal_launch ops t shep s);
          launch_members ops shep ms s }"

text \<open>In the capped case the loop runs up to the field \<open>membercount\<close>, which was just set to 0 when the queue
  was full.\<close>

definition qthread_queue_release_all :: "nat \<Rightarrow> 'q sched_ops \<Rightarrow> shep_id \<Rightarrow> qthread_queue \<Rightarrow> tq_heap \<Rightarrow> 'q launch_state
    \<Rightarrow> (qthread_queue \<times> tq_heap \<times> 'q launch_state) option" where
  "qthread_queue_release_all fuel ops shep q h s =
     (case q of
        NOSYNC n \<Rightarrow> release_loop fuel ops shep q h s
      | NEMESIS n \<Rightarrow> release_loop fuel ops shep q h s
      | NEMESIS_LENGTH n \<Rightarrow>
          do { (q, h, s) \<leftarrow> release_count (unat (nem_length n)) ops shep q h s;
               case q of NEMESIS_LENGTH m \<Rightarrow> Some (NEMESIS_LENGTH (m\<lparr>nem_length := nem_length m - nem_length n\<rparr>), h, s)
               | _ \<Rightarrow> None }
      | CAPPED c \<Rightarrow>
          if busy c \<noteq> 0 \<or> length (members c) < membercount c then None
          else (let copy = take (membercount c) (members c);
                    c' = c\<lparr>members := replicate (membercount c) None @ drop (membercount c) (members c),
                           membercount := (if membercount c = maxmembers c then 0 else membercount c)\<rparr>
                in do { s \<leftarrow> launch_members ops shep (take (membercount c') copy) s; Some (CAPPED c', h, s) }))"

end
