(* ===== verification/Nemesis.thy ===== *)
theory Nemesis
  imports Tqueue
begin

text \<open>
  The Nemesis list of \<open>queue.c\<close> as single accesses to shared memory: any number of calls of
  \<open>qthread_queue_internal_NEMESIS_enqueue\<close> and one call at a time of
  \<open>qthread_queue_internal_NEMESIS_dequeue\<close> are interleaved in every order. Memory is sequentially
  consistent (the swap and the compare-and-swap are the synchronisation of the code).
\<close>

section \<open>The system\<close>

text \<open>
  A call of the insertion is known by the node it allocated: it has filled the node and is about to
  swap the tail (\<open>E_swap\<close>), or it has swapped and is about to write the address of its node into the head
  (previous tail 0) or the previous node (\<open>E_link\<close>).

  The removal has found \<open>shadow_head\<close> null and is about to test \<open>head\<close> (\<open>D_check\<close>), to copy it (\<open>D_load\<close>), to
  clear it (\<open>D_clear\<close>); to read \<open>dequeued->next\<close> (\<open>D_next\<close>), to move \<open>shadow_head\<close> (\<open>D_advance\<close>), to clear it
  (\<open>D_last\<close>), to compare and swap the tail (\<open>D_cas\<close>), is waiting for the link (\<open>D_spin\<close>), is about to clear
  \<open>dequeued->next\<close> (\<open>D_unlink\<close>), to read the thread and free the node (\<open>D_free\<close>).
\<close>

datatype enq_pc = E_swap | E_link nat

datatype deq_pc = D_idle | D_check | D_load | D_clear | D_next nat | D_advance nat | D_last nat | D_cas nat
  | D_spin nat | D_unlink nat | D_free nat

text \<open>\<open>joined\<close> lists the threads in the order of the swaps, \<open>released\<close> the results of the completed removals.\<close>

record nem_system =
  nemq :: nemesis_queue
  nemheap :: tq_heap
  calls :: "nat \<Rightarrow> enq_pc option"
  remover :: deq_pc
  joined :: "tid list"
  released :: "tid list"

inductive nem_step :: "nem_system \<Rightarrow> nem_system \<Rightarrow> bool" where
  enq_alloc: "nemheap s n = None \<Longrightarrow> n \<noteq> 0 \<Longrightarrow>
    nem_step s (s\<lparr>nemheap := (nemheap s)(n \<mapsto> \<lparr>snext = 0, sval = t\<rparr>), calls := (calls s)(n \<mapsto> E_swap)\<rparr>)"
| enq_swap: "calls s n = Some E_swap \<Longrightarrow> nemheap s n = Some x \<Longrightarrow>
    nem_step s (s\<lparr>nemq := (nemq s)\<lparr>nem_tail := n\<rparr>, calls := (calls s)(n \<mapsto> E_link (nem_tail (nemq s))),
                  joined := joined s @ [sval x]\<rparr>)"
| enq_first: "calls s n = Some (E_link 0) \<Longrightarrow>
    nem_step s (s\<lparr>nemq := (nemq s)\<lparr>nem_head := n\<rparr>, calls := (calls s)(n := None)\<rparr>)"
| enq_next: "calls s n = Some (E_link p) \<Longrightarrow> p \<noteq> 0 \<Longrightarrow> nemheap s p = Some x \<Longrightarrow>
    nem_step s (s\<lparr>nemheap := (nemheap s)(p \<mapsto> x\<lparr>snext := n\<rparr>), calls := (calls s)(n := None)\<rparr>)"
| deq_begin: "remover s = D_idle \<Longrightarrow>
    nem_step s (s\<lparr>remover := (if shadow_head (nemq s) = 0 then D_check else D_next (shadow_head (nemq s)))\<rparr>)"
| deq_empty: "remover s = D_check \<Longrightarrow> nem_head (nemq s) = 0 \<Longrightarrow>
    nem_step s (s\<lparr>remover := D_idle\<rparr>)"
| deq_some: "remover s = D_check \<Longrightarrow> nem_head (nemq s) \<noteq> 0 \<Longrightarrow>
    nem_step s (s\<lparr>remover := D_load\<rparr>)"
| deq_load: "remover s = D_load \<Longrightarrow>
    nem_step s (s\<lparr>nemq := (nemq s)\<lparr>shadow_head := nem_head (nemq s)\<rparr>, remover := D_clear\<rparr>)"
| deq_clear: "remover s = D_clear \<Longrightarrow>
    nem_step s (s\<lparr>nemq := (nemq s)\<lparr>nem_head := 0\<rparr>, remover := D_next (shadow_head (nemq s))\<rparr>)"
| deq_next: "remover s = D_next d \<Longrightarrow> nemheap s d = Some x \<Longrightarrow>
    nem_step s (s\<lparr>remover := (if snext x \<noteq> 0 then D_advance d else D_last d)\<rparr>)"
| deq_advance: "remover s = D_advance d \<Longrightarrow> nemheap s d = Some x \<Longrightarrow>
    nem_step s (s\<lparr>nemq := (nemq s)\<lparr>shadow_head := snext x\<rparr>, remover := D_unlink d\<rparr>)"
| deq_last: "remover s = D_last d \<Longrightarrow>
    nem_step s (s\<lparr>nemq := (nemq s)\<lparr>shadow_head := 0\<rparr>, remover := D_cas d\<rparr>)"
| deq_cas: "remover s = D_cas d \<Longrightarrow>
    nem_step s (if nem_tail (nemq s) = d then s\<lparr>nemq := (nemq s)\<lparr>nem_tail := 0\<rparr>, remover := D_free d\<rparr>
                else s\<lparr>remover := D_spin d\<rparr>)"
| deq_spin: "remover s = D_spin d \<Longrightarrow> nemheap s d = Some x \<Longrightarrow>
    nem_step s (if snext x = 0 then s else s\<lparr>remover := D_advance d\<rparr>)"
| deq_unlink: "remover s = D_unlink d \<Longrightarrow> nemheap s d = Some x \<Longrightarrow>
    nem_step s (s\<lparr>nemheap := (nemheap s)(d \<mapsto> x\<lparr>snext := 0\<rparr>), remover := D_free d\<rparr>)"
| deq_free: "remover s = D_free d \<Longrightarrow> nemheap s d = Some x \<Longrightarrow>
    nem_step s (s\<lparr>nemheap := (nemheap s)(d := None), remover := D_idle, released := released s @ [sval x]\<rparr>)"

definition nem_start :: nem_system where
  "nem_start = \<lparr>nemq = empty_nemesis, nemheap = (\<lambda>_. None), calls = (\<lambda>_. None), remover = D_idle,
                joined = [], released = []\<rparr>"

section \<open>The invariant\<close>

text \<open>
  The nodes between the swap that inserts them and the removal, in order: a node is linked to the next, or
  the call that inserted the next is about to do it.
\<close>

fun linked :: "tq_heap \<Rightarrow> (nat \<Rightarrow> enq_pc option) \<Rightarrow> nat list \<Rightarrow> bool" where
  "linked h c [] \<longleftrightarrow> True"
| "linked h c [a] \<longleftrightarrow> (\<exists>x. h a = Some x \<and> snext x = 0)"
| "linked h c (a # b # ns) \<longleftrightarrow>
     (\<exists>x. h a = Some x \<and> (snext x = b \<and> c b = None \<or> snext x = 0 \<and> c b = Some (E_link a))) \<and> linked h c (b # ns)"

lemma linked_other [simp]: "n \<notin> set ns \<Longrightarrow> linked (h(n := x)) c ns \<longleftrightarrow> linked h c ns"
  by (induction h c ns rule: linked.induct) auto

lemma linked_calls [simp]: "n \<notin> set ns \<Longrightarrow> linked h (c(n := x)) ns \<longleftrightarrow> linked h c ns"
  by (induction h c ns rule: linked.induct) auto

lemma linked_calls_hd: "distinct ns \<Longrightarrow> ns \<noteq> [] \<Longrightarrow> linked h (c(hd ns := x)) ns \<longleftrightarrow> linked h c ns"
  by (cases "(h, c, ns)" rule: linked.cases) auto

lemma linked_tl: "linked h c (a # ns) \<Longrightarrow> linked h c ns"
  by (cases ns) auto

lemma linked_dom: "linked h c ns \<Longrightarrow> set ns \<subseteq> dom h"
  by (induction h c ns rule: linked.induct) auto

lemma linked_snoc:
  assumes "linked h c ns" "ns \<noteq> []" "b \<notin> set ns" "h b = Some x" "snext x = 0"
  shows "linked h (c(b \<mapsto> E_link (last ns))) (ns @ [b])"
  using assms by (induction h c ns rule: linked.induct) (auto split: if_splits)

text \<open>A call that is about to link finds the node before its own, and the link completes the list there.\<close>

lemma linked_link:
  assumes "linked h c ns" "distinct ns" "c b = Some (E_link a)" "b \<in> set (tl ns)"
  shows "\<exists>x. h a = Some x \<and> linked (h(a \<mapsto> x\<lparr>snext := b\<rparr>)) (c(b := None)) ns \<and> a \<in> set ns"
  using assms
proof (induction h c ns rule: linked.induct)
  case (3 h c a' b' ns)
  show ?case
  proof (cases "b = b'")
    case True
    then have "a = a'" "a' \<notin> set (b' # ns)" "linked h c (b' # ns)" "distinct (b' # ns)"
      using 3 by auto
    then have l: "linked (h(a \<mapsto> x\<lparr>snext := b\<rparr>)) (c(b := None)) (b' # ns)" for x
      using linked_calls_hd [of "b' # ns" h c None] True by simp
    obtain x where x: "h a = Some x"
      using 3 True \<open>a = a'\<close> by auto
    define h' where "h' = h(a \<mapsto> x\<lparr>snext := b\<rparr>)"
    define c' where "c' = c(b := None)"
    have "linked h' c' (b' # ns)" "h' a' = Some (x\<lparr>snext := b\<rparr>)" "c' b' = None"
      using l [of x] True \<open>a = a'\<close> by (simp_all add: h'_def c'_def)
    then have "linked h' c' (a' # b' # ns)"
      using True by simp
    then have "linked (h(a \<mapsto> x\<lparr>snext := b\<rparr>)) (c(b := None)) (a' # b' # ns)"
      unfolding h'_def c'_def .
    moreover have "a \<in> set (a' # b' # ns)"
      using \<open>a = a'\<close> by simp
    ultimately show ?thesis
      using x by blast
  next
    case False
    then have "linked h c (b' # ns)" "distinct (b' # ns)" "b \<in> set (tl (b' # ns))"
      using 3 by auto
    then obtain x where x: "h a = Some x" "linked (h(a \<mapsto> x\<lparr>snext := b\<rparr>)) (c(b := None)) (b' # ns)" "a \<in> set (b' # ns)"
      using 3(1) 3(4) by blast
    then have "a \<noteq> a'"
      using 3 by auto
    define h' where "h' = h(a \<mapsto> x\<lparr>snext := b\<rparr>)"
    define c' where "c' = c(b := None)"
    have "linked h' c' (b' # ns)" "h' a' = h a'" "c' b' = c b'"
      using x(2) \<open>a \<noteq> a'\<close> False by (simp_all add: h'_def c'_def)
    then have "linked h' c' (a' # b' # ns)"
      using 3(2) by simp
    then have "linked (h(a \<mapsto> x\<lparr>snext := b\<rparr>)) (c(b := None)) (a' # b' # ns)"
      unfolding h'_def c'_def .
    moreover have "a \<in> set (a' # b' # ns)"
      using x(3) by simp
    ultimately show ?thesis
      using x(1) by blast
  qed
qed auto

text \<open>Where the first node is found.\<close>

definition entry :: "nemesis_queue \<Rightarrow> (nat \<Rightarrow> enq_pc option) \<Rightarrow> nat list \<Rightarrow> bool" where
  "entry q c ns \<longleftrightarrow>
     (if ns = [] then shadow_head q = 0 \<and> nem_head q = 0
      else shadow_head q = hd ns \<and> nem_head q = 0 \<and> c (hd ns) = None
        \<or> shadow_head q = 0 \<and> nem_head q = hd ns \<and> c (hd ns) = None
        \<or> shadow_head q = 0 \<and> nem_head q = 0 \<and> c (hd ns) = Some (E_link 0))"

definition taken :: "nem_system \<Rightarrow> nat list" where
  "taken s = (case remover s of D_unlink d \<Rightarrow> [d] | D_free d \<Rightarrow> [d] | _ \<Rightarrow> [])"

definition remover_ok :: "nem_system \<Rightarrow> nat list \<Rightarrow> bool" where
  "remover_ok s ns \<longleftrightarrow>
     (let q = nemq s; c = calls s
      in case remover s of
           D_idle \<Rightarrow> entry q c ns
         | D_check \<Rightarrow> entry q c ns \<and> shadow_head q = 0
         | D_load \<Rightarrow> entry q c ns \<and> shadow_head q = 0 \<and> nem_head q \<noteq> 0
         | D_clear \<Rightarrow> ns \<noteq> [] \<and> shadow_head q = hd ns \<and> nem_head q = hd ns \<and> c (hd ns) = None
         | D_next d \<Rightarrow> entry q c ns \<and> shadow_head q = d \<and> d \<noteq> 0
         | D_advance d \<Rightarrow> ns \<noteq> [] \<and> d = hd ns \<and> nem_head q = 0 \<and> c d = None
             \<and> (\<exists>x. nemheap s d = Some x \<and> snext x \<noteq> 0)
         | D_last d \<Rightarrow> ns \<noteq> [] \<and> d = hd ns \<and> nem_head q = 0 \<and> c d = None
         | D_cas d \<Rightarrow> ns \<noteq> [] \<and> d = hd ns \<and> shadow_head q = 0 \<and> nem_head q = 0 \<and> c d = None
         | D_spin d \<Rightarrow> ns \<noteq> [] \<and> d = hd ns \<and> shadow_head q = 0 \<and> nem_head q = 0 \<and> c d = None \<and> tl ns \<noteq> []
         | D_unlink d \<Rightarrow> entry q c ns
         | D_free d \<Rightarrow> entry q c ns)"

definition nem_inv :: "nem_system \<Rightarrow> nat list \<Rightarrow> bool" where
  "nem_inv s ns \<longleftrightarrow>
     distinct ns \<and> 0 \<notin> set ns \<and> linked (nemheap s) (calls s) ns
     \<and> nem_tail (nemq s) = (if ns = [] then 0 else last ns)
     \<and> (\<forall>n p. calls s n = Some (E_link p) \<longrightarrow> n \<in> set ns)
     \<and> (\<forall>n. calls s n = Some E_swap \<longrightarrow> n \<noteq> 0 \<and> n \<notin> set ns \<and> n \<notin> set (taken s)
           \<and> (\<exists>x. nemheap s n = Some x \<and> snext x = 0))
     \<and> set (taken s) \<subseteq> dom (nemheap s) \<and> set (taken s) \<inter> set ns = {}
     \<and> remover_ok s ns
     \<and> joined s = released s @ svals (nemheap s) (taken s) @ svals (nemheap s) ns"

lemma nem_inv_start: "nem_inv nem_start []"
  by (simp add: nem_inv_def nem_start_def taken_def remover_ok_def entry_def empty_nemesis_def)

section \<open>Every step keeps it\<close>

lemmas nem_defs = nem_inv_def remover_ok_def taken_def Let_def

lemma entry_calls [simp]: "n \<notin> set ns \<Longrightarrow> entry q (c(n := x)) ns \<longleftrightarrow> entry q c ns"
  by (cases ns) (auto simp: entry_def)

lemma inv_alloc:
  assumes "nem_inv s ns" "nemheap s n = None" "n \<noteq> 0"
  shows "nem_inv (s\<lparr>nemheap := (nemheap s)(n \<mapsto> \<lparr>snext = 0, sval = t\<rparr>), calls := (calls s)(n \<mapsto> E_swap)\<rparr>) ns"
proof -
  have "n \<notin> set ns" "n \<notin> set (taken s)"
    using assms linked_dom [of "nemheap s" "calls s" ns] by (auto simp: nem_inv_def)
  moreover have "remover_ok (s\<lparr>nemheap := (nemheap s)(n \<mapsto> \<lparr>snext = 0, sval = t\<rparr>), calls := (calls s)(n \<mapsto> E_swap)\<rparr>) ns"
    using assms(1,2) \<open>n \<notin> set ns\<close>
    by (auto simp: nem_inv_def remover_ok_def Let_def split: deq_pc.splits)
  moreover have "taken (s\<lparr>nemheap := (nemheap s)(n \<mapsto> \<lparr>snext = 0, sval = t\<rparr>), calls := (calls s)(n \<mapsto> E_swap)\<rparr>) = taken s"
    by (simp add: taken_def)
  ultimately show ?thesis
    using assms unfolding nem_inv_def by auto
qed
lemma entry_snoc:
  assumes "entry q c ns" "n \<notin> set ns"
  shows "entry (q\<lparr>nem_tail := n\<rparr>) (c(n \<mapsto> E_link (if ns = [] then 0 else last ns))) (ns @ [n])"
  using assms by (cases ns) (auto simp: entry_def)

lemma inv_swap:
  assumes inv: "nem_inv s ns" and c: "calls s n = Some E_swap" and x: "nemheap s n = Some x"
  shows "nem_inv (s\<lparr>nemq := (nemq s)\<lparr>nem_tail := n\<rparr>, calls := (calls s)(n \<mapsto> E_link (nem_tail (nemq s))),
                     joined := joined s @ [sval x]\<rparr>) (ns @ [n])"
    (is "nem_inv ?s _")
proof -
  have n: "n \<notin> set ns" "n \<notin> set (taken s)" "n \<noteq> 0" "snext x = 0"
    using inv c x by (auto simp: nem_inv_def)
  have tail: "nem_tail (nemq s) = (if ns = [] then 0 else last ns)"
    using inv by (simp add: nem_inv_def)
  have "linked (nemheap s) (calls ?s) (ns @ [n])"
    using linked_snoc [of "nemheap s" "calls s" ns n x] inv n x tail by (cases "ns = []") (auto simp: nem_inv_def)
  moreover have "taken ?s = taken s"
    by (simp add: taken_def)
  moreover have "remover_ok ?s (ns @ [n])"
    using inv n entry_snoc [of "nemq s" "calls s" ns n] tail
    by (cases ns) (auto simp: nem_inv_def remover_ok_def Let_def entry_def split: deq_pc.splits)
  ultimately show ?thesis
    using inv n tail x unfolding nem_inv_def by auto
qed

lemma inv_first:
  assumes inv: "nem_inv s ns" and c: "calls s n = Some (E_link 0)"
  shows "nem_inv (s\<lparr>nemq := (nemq s)\<lparr>nem_head := n\<rparr>, calls := (calls s)(n := None)\<rparr>) ns" (is "nem_inv ?s _")
proof -
  have mem: "n \<in> set ns"
    using inv c by (auto simp: nem_inv_def)
  have hd: "n = hd ns"
  proof (rule ccontr)
    assume "n \<noteq> hd ns"
    then have "n \<in> set (tl ns)"
      using mem by (cases ns) auto
    then have "0 \<in> set ns"
      using linked_link [of "nemheap s" "calls s" ns n 0] inv c by (auto simp: nem_inv_def)
    then show False
      using inv by (simp add: nem_inv_def)
  qed
  have "linked (nemheap s) (calls ?s) ns"
    using linked_calls_hd [of ns "nemheap s" "calls s" None] inv mem hd by (cases "ns = []") (auto simp: nem_inv_def)
  moreover have "taken ?s = taken s"
    by (simp add: taken_def)
  moreover have "remover_ok ?s ns"
    using inv mem hd c by (cases ns) (auto simp: nem_inv_def remover_ok_def Let_def entry_def split: deq_pc.splits)
  ultimately show ?thesis
    using inv unfolding nem_inv_def by auto
qed

lemma inv_next:
  assumes inv: "nem_inv s ns" and c: "calls s n = Some (E_link p)" "p \<noteq> 0" and x: "nemheap s p = Some x"
  shows "nem_inv (s\<lparr>nemheap := (nemheap s)(p \<mapsto> x\<lparr>snext := n\<rparr>), calls := (calls s)(n := None)\<rparr>) ns"
    (is "nem_inv ?s _")
proof -
  have mem: "n \<in> set ns"
    using inv c by (auto simp: nem_inv_def)
  have "n \<noteq> hd ns"
    using inv c mem by (cases ns) (auto simp: nem_inv_def remover_ok_def Let_def entry_def split: deq_pc.splits)
  then have tl: "n \<in> set (tl ns)"
    using mem by (cases ns) auto
  then have l: "linked (nemheap ?s) (calls ?s) ns" "p \<in> set ns"
    using linked_link [of "nemheap s" "calls s" ns n p] inv c x by (auto simp: nem_inv_def)
  have nt: "taken ?s = taken s" "p \<notin> set (taken s)" "n \<noteq> 0"
    using inv l(2) mem by (auto simp: taken_def nem_inv_def)
  have "remover_ok ?s ns"
    using inv \<open>n \<noteq> hd ns\<close> nt(3) by (auto simp: nem_inv_def remover_ok_def Let_def entry_def split: deq_pc.splits)
  moreover have "\<forall>m q. calls ?s m = Some (E_link q) \<longrightarrow> m \<in> set ns"
    using inv by (auto simp: nem_inv_def)
  moreover have "\<forall>m. calls ?s m = Some E_swap \<longrightarrow> m \<noteq> 0 \<and> m \<notin> set ns \<and> m \<notin> set (taken ?s)
      \<and> (\<exists>x. nemheap ?s m = Some x \<and> snext x = 0)"
    using inv l(2) unfolding nt(1) by (auto simp: nem_inv_def)
  ultimately show ?thesis
    using inv l nt x unfolding nem_inv_def by simp blast
qed

text \<open>The steps of the removal that only move it on.\<close>

lemma inv_queue:
  assumes "nem_inv s ns" "nem_tail q = nem_tail (nemq s)"
    and "taken (s\<lparr>nemq := q, remover := r\<rparr>) = taken s" "remover_ok (s\<lparr>nemq := q, remover := r\<rparr>) ns"
  shows "nem_inv (s\<lparr>nemq := q, remover := r\<rparr>) ns"
  using assms by (auto simp: nem_inv_def)

lemma inv_remover:
  assumes "nem_inv s ns" "taken (s\<lparr>remover := r\<rparr>) = taken s" "remover_ok (s\<lparr>remover := r\<rparr>) ns"
  shows "nem_inv (s\<lparr>remover := r\<rparr>) ns"
  using assms by (auto simp: nem_inv_def)

lemma inv_advance:
  assumes inv: "nem_inv s ns" and r: "remover s = D_advance d" and x: "nemheap s d = Some x"
  shows "nem_inv (s\<lparr>nemq := (nemq s)\<lparr>shadow_head := snext x\<rparr>, remover := D_unlink d\<rparr>) (tl ns)"
proof -
  have d: "ns \<noteq> []" "d = hd ns" "nem_head (nemq s) = 0" "calls s d = None" "snext x \<noteq> 0"
    using inv r x by (auto simp: nem_inv_def remover_ok_def Let_def)
  obtain ms where ns: "ns = d # ms"
    using d(1,2) by (cases ns) auto
  obtain e es where ms: "ms = e # es" "snext x = e" "calls s e = None"
    using inv d(5) x unfolding ns by (cases ms) (auto simp: nem_inv_def)
  show ?thesis
    using inv r x d(3-5) ms unfolding ns by (auto simp: nem_inv_def remover_ok_def Let_def entry_def taken_def)
qed

lemma inv_cas:
  assumes inv: "nem_inv s ns" and r: "remover s = D_cas d" and t: "nem_tail (nemq s) = d"
  shows "nem_inv (s\<lparr>nemq := (nemq s)\<lparr>nem_tail := 0\<rparr>, remover := D_free d\<rparr>) []"
proof -
  have d: "ns \<noteq> []" "d = hd ns" "shadow_head (nemq s) = 0" "nem_head (nemq s) = 0" "calls s d = None"
    using inv r by (auto simp: nem_inv_def remover_ok_def Let_def)
  obtain ms where ns: "ns = d # ms"
    using d(1,2) by (cases ns) auto
  have "ms = []"
    using inv t unfolding ns by (cases ms rule: rev_cases) (auto simp: nem_inv_def)
  moreover have "calls s n \<noteq> Some (E_link p)" for n p
    using inv d(5) \<open>ms = []\<close> unfolding ns by (auto simp: nem_inv_def)
  ultimately show ?thesis
    using inv r d(3-5) unfolding ns by (auto simp: nem_inv_def remover_ok_def Let_def entry_def taken_def)
qed

lemma inv_unlink:
  assumes inv: "nem_inv s ns" and r: "remover s = D_unlink d" and x: "nemheap s d = Some x"
  shows "nem_inv (s\<lparr>nemheap := (nemheap s)(d \<mapsto> x\<lparr>snext := 0\<rparr>), remover := D_free d\<rparr>) ns"
proof -
  have "d \<notin> set ns"
    using inv r by (auto simp: nem_inv_def taken_def)
  then show ?thesis
    using inv r x by (auto simp: nem_inv_def remover_ok_def Let_def taken_def)
qed

lemma inv_free:
  assumes inv: "nem_inv s ns" and r: "remover s = D_free d" and x: "nemheap s d = Some x"
  shows "nem_inv (s\<lparr>nemheap := (nemheap s)(d := None), remover := D_idle, released := released s @ [sval x]\<rparr>) ns"
proof -
  have "d \<notin> set ns"
    using inv r by (auto simp: nem_inv_def taken_def)
  then show ?thesis
    using inv r x by (auto simp: nem_inv_def remover_ok_def Let_def taken_def)
qed

lemma nem_step_inv: "nem_step s s' \<Longrightarrow> nem_inv s ns \<Longrightarrow> \<exists>ns'. nem_inv s' ns'"
proof (induction rule: nem_step.induct)
  case (enq_alloc s n t)
  then show ?case
    using inv_alloc by blast
next
  case (enq_swap s n x)
  then show ?case
    using inv_swap by blast
next
  case (enq_first s n)
  then show ?case
    using inv_first by blast
next
  case (enq_next s n p x)
  then show ?case
    using inv_next by blast
next
  case (deq_begin s)
  then have "nem_inv (s\<lparr>remover := (if shadow_head (nemq s) = 0 then D_check else D_next (shadow_head (nemq s)))\<rparr>) ns"
    by (intro inv_remover) (auto simp: nem_defs)
  then show ?case ..
next
  case (deq_empty s)
  then have "nem_inv (s\<lparr>remover := D_idle\<rparr>) ns"
    by (intro inv_remover) (auto simp: nem_defs)
  then show ?case ..
next
  case (deq_some s)
  then have "nem_inv (s\<lparr>remover := D_load\<rparr>) ns"
    by (intro inv_remover) (auto simp: nem_defs)
  then show ?case ..
next
  case (deq_load s)
  then have "nem_inv (s\<lparr>nemq := (nemq s)\<lparr>shadow_head := nem_head (nemq s)\<rparr>, remover := D_clear\<rparr>) ns"
    by (intro inv_queue) (auto simp: nem_defs entry_def split: if_splits)
  then show ?case ..
next
  case (deq_clear s)
  then have "hd ns \<noteq> 0"
    by (cases ns) (auto simp: nem_defs)
  then have "nem_inv (s\<lparr>nemq := (nemq s)\<lparr>nem_head := 0\<rparr>, remover := D_next (shadow_head (nemq s))\<rparr>) ns"
    using deq_clear by (intro inv_queue) (auto simp: nem_defs entry_def)
  then show ?case ..
next
  case (deq_next s d x)
  then have "nem_inv (s\<lparr>remover := (if snext x \<noteq> 0 then D_advance d else D_last d)\<rparr>) ns"
    by (intro inv_remover) (auto simp: nem_defs entry_def split: if_splits)
  then show ?case ..
next
  case (deq_advance s d x)
  then show ?case
    using inv_advance by blast
next
  case (deq_last s d)
  then have "nem_inv (s\<lparr>nemq := (nemq s)\<lparr>shadow_head := 0\<rparr>, remover := D_cas d\<rparr>) ns"
    by (intro inv_queue) (auto simp: nem_defs)
  then show ?case ..
next
  case (deq_cas s d)
  then have "nem_inv (s\<lparr>remover := D_spin d\<rparr>) ns" if "nem_tail (nemq s) \<noteq> d"
    using that by (intro inv_remover) (cases ns; auto simp: nem_defs split: if_splits)+
  then show ?case
    using deq_cas inv_cas by (cases "nem_tail (nemq s) = d") auto
next
  case (deq_spin s d x)
  then have "nem_inv (s\<lparr>remover := D_advance d\<rparr>) ns" if "snext x \<noteq> 0"
    using that by (intro inv_remover) (auto simp: nem_defs)
  then show ?case
    using deq_spin by (cases "snext x = 0") auto
next
  case (deq_unlink s d x)
  then show ?case
    using inv_unlink by blast
next
  case (deq_free s d x)
  then show ?case
    using inv_free by blast
qed

lemma nem_reachable_inv: "nem_step\<^sup>*\<^sup>* nem_start s \<Longrightarrow> \<exists>ns. nem_inv s ns"
  by (induction rule: rtranclp_induct) (use nem_inv_start nem_step_inv in blast)+

end
