(* ===== verification/Tqueue_Props.thy ===== *)
theory Tqueue_Props
  imports Nemesis Sherwood_Props
begin

text \<open>
  The properties of the queues of \<open>queue.c\<close>: the Nemesis list on its own as a FIFO queue, under every
  interleaving, and the release of its threads into the ready queues; and what the two other kinds do
  instead.
\<close>

section \<open>The Nemesis list between operations\<close>

definition nem_first :: "nemesis_queue \<Rightarrow> nat" where
  "nem_first q = (if shadow_head q = 0 then nem_head q else shadow_head q)"

lemma nem_first_tail [simp]: "nem_first (q\<lparr>nem_tail := a\<rparr>) = nem_first q"
  by (simp add: nem_first_def)

definition nem_rep :: "nemesis_queue \<Rightarrow> tq_heap \<Rightarrow> nat list \<Rightarrow> bool" where
  "nem_rep q h ps \<longleftrightarrow> finite (dom h) \<and> distinct ps \<and> schain h (nem_first q) ps 0
     \<and> (shadow_head q = 0 \<or> nem_head q = 0) \<and> nem_tail q = (if ps = [] then 0 else last ps)"

definition nem_items :: "nemesis_queue \<times> tq_heap \<Rightarrow> tid list" where
  "nem_items = (\<lambda>(q, h). if nem_first q = 0 then [] else swalk (card (dom h)) h (nem_first q))"

definition nem_ok :: "nemesis_queue \<times> tq_heap \<Rightarrow> bool" where
  "nem_ok = (\<lambda>(q, h). \<exists>ps. nem_rep q h ps)"

definition nem_deq :: "nemesis_queue \<times> tq_heap \<Rightarrow> ((nemesis_queue \<times> tq_heap) \<times> tid option) option" where
  "nem_deq = (\<lambda>(q, h). map_option (\<lambda>(q, h, t). ((q, h), t)) (NEMESIS_dequeue q h))"

lemma nem_rep_items: "nem_rep q h ps \<Longrightarrow> nem_items (q, h) = svals h ps"
proof -
  assume r: "nem_rep q h ps"
  then have "length ps \<le> card (dom h)"
    using schain_dom [of h "nem_first q" ps 0] by (metis card_mono distinct_card nem_rep_def)
  then show ?thesis
    using r swalk_chain [of h "nem_first q" ps "card (dom h)"]
    by (cases "ps = []") (auto simp: nem_items_def nem_rep_def)
qed

lemma nem_enqueue_rep:
  assumes r: "nem_rep q h ps" and al: "sheap_alloc_ok al"
  shows "\<exists>q' h'. NEMESIS_enqueue al q t h = Some (q', h') \<and> nem_rep q' h' (ps @ [al h])
    \<and> svals h' (ps @ [al h]) = svals h ps @ [t]"
proof -
  let ?n = "\<lparr>snext = 0, sval = t\<rparr>"
  have new: "al h \<noteq> 0" "h (al h) = None"
    using al r by (auto simp: sheap_alloc_ok_def nem_rep_def)
  have c: "schain h (nem_first q) ps 0" "distinct ps" "finite (dom h)"
    using r by (auto simp: nem_rep_def)
  have out: "al h \<notin> set ps" "0 \<notin> set ps"
    using schain_dom [OF c(1)] new by auto
  show ?thesis
  proof (cases ps rule: rev_cases)
    case Nil
    then have "NEMESIS_enqueue al q t h = Some (q\<lparr>nem_tail := al h, nem_head := al h\<rparr>, h(al h \<mapsto> ?n))"
      using r new by (simp add: NEMESIS_enqueue_def nem_rep_def Let_def)
    moreover have "nem_rep (q\<lparr>nem_tail := al h, nem_head := al h\<rparr>) (h(al h \<mapsto> ?n)) (ps @ [al h])"
      using r new Nil by (auto simp: nem_rep_def nem_first_def split: if_splits)
    ultimately show ?thesis
      using Nil by auto
  next
    case (snoc qs a)
    obtain x where x: "h a = Some x"
      using c(1) snoc schain_dom [OF c(1)] by auto
    have "a \<noteq> 0" "a \<noteq> al h"
      using out snoc by auto
    then have e: "NEMESIS_enqueue al q t h
        = Some (q\<lparr>nem_tail := al h\<rparr>, h(al h \<mapsto> ?n, a \<mapsto> x\<lparr>snext := al h\<rparr>))"
      using r new snoc x by (simp add: NEMESIS_enqueue_def nem_rep_def Let_def)
    have ch: "schain (h(al h \<mapsto> ?n, a \<mapsto> x\<lparr>snext := al h\<rparr>)) (nem_first q) (qs @ [a, al h]) 0"
      using schain_snoc [of h "nem_first q" qs a "al h" ?n x] c snoc new x by simp
    have sv: "svals (h(al h \<mapsto> ?n, a \<mapsto> x\<lparr>snext := al h\<rparr>)) (ps @ [al h]) = svals h ps @ [t]"
      using svals_snext [of "h(al h \<mapsto> ?n)" a x "al h"] x \<open>a \<noteq> al h\<close> out by simp
    have "nem_rep (q\<lparr>nem_tail := al h\<rparr>) (h(al h \<mapsto> ?n, a \<mapsto> x\<lparr>snext := al h\<rparr>)) (ps @ [al h])"
      using r ch out(1) snoc by (simp add: nem_rep_def)
    then show ?thesis
      using e sv by blast
  qed
qed

lemma nem_dequeue_rep:
  assumes r: "nem_rep q h ps"
  shows "case ps of [] \<Rightarrow> NEMESIS_dequeue q h = Some (q, h, None)
    | a # qs \<Rightarrow> \<exists>q' x. h a = Some x \<and> NEMESIS_dequeue q h = Some (q', h(a := None), Some (sval x))
        \<and> nem_rep q' (h(a := None)) qs"
proof (cases ps)
  case Nil
  then show ?thesis
    using r by (auto simp: nem_rep_def nem_first_def NEMESIS_dequeue_def split: if_splits)
next
  case (Cons a qs)
  obtain x where x: "h a = Some x" "nem_first q = a" "a \<noteq> 0" "schain h (snext x) qs 0" "a \<notin> set qs" "distinct qs"
    using r Cons by (auto simp: nem_rep_def)
  define q1 where "q1 = (if shadow_head q = 0 then q\<lparr>shadow_head := nem_head q, nem_head := 0\<rparr> else q)"
  have q1: "shadow_head q1 = a" "nem_head q1 = 0" "nem_tail q1 = nem_tail q" "\<not> (shadow_head q = 0 \<and> nem_head q = 0)"
    using r x(2,3) by (auto simp: q1_def nem_first_def nem_rep_def split: if_splits)
  let ?q' = "if snext x = 0 then q1\<lparr>shadow_head := 0, nem_tail := 0\<rparr> else q1\<lparr>shadow_head := snext x\<rparr>"
  have tail: "nem_tail q = last (a # qs)" and nil: "snext x = 0 \<longleftrightarrow> qs = []"
    using r Cons x(4) by (auto simp: nem_rep_def)
  have "NEMESIS_dequeue q h = Some (?q', h(a := None), Some (sval x))"
    using q1 x(1) tail nil unfolding NEMESIS_dequeue_def q1_def [symmetric] by (cases "qs = []") (simp_all add: Let_def)
  moreover have "nem_rep ?q' (h(a := None)) qs"
    using r x q1 tail nil by (auto simp: nem_rep_def nem_first_def)
  ultimately show ?thesis
    using Cons x(1) by auto
qed

lemma nem_enqueue_fifo:
  assumes "sheap_alloc_ok al" "nem_ok p"
  shows "\<exists>p'. NEMESIS_enqueue al (fst p) t (snd p) = Some p' \<and> nem_ok p' \<and> nem_items p' = nem_items p @ [t]"
proof -
  obtain q h ps where p: "p = (q, h)" "nem_rep q h ps"
    using assms(2) by (auto simp: nem_ok_def split: prod.splits)
  obtain q' h' where e: "NEMESIS_enqueue al q t h = Some (q', h')" "nem_rep q' h' (ps @ [al h])"
      "svals h' (ps @ [al h]) = svals h ps @ [t]"
    using nem_enqueue_rep [OF p(2) assms(1)] by blast
  show ?thesis
    using e(1) p(1) nem_rep_items [OF e(2)] nem_rep_items [OF p(2)] e(2,3) by (auto simp: nem_ok_def)
qed

lemma nem_dequeue_fifo:
  assumes "nem_ok p"
  shows "\<exists>p'. nem_deq p = Some (p', case nem_items p of [] \<Rightarrow> None | y # ys \<Rightarrow> Some y)
    \<and> nem_ok p' \<and> nem_items p' = tl (nem_items p)"
proof -
  obtain q h ps where p: "p = (q, h)" "nem_rep q h ps"
    using assms by (auto simp: nem_ok_def split: prod.splits)
  note d = nem_dequeue_rep [OF p(2)] and it = nem_rep_items [OF p(2)]
  show ?thesis
  proof (cases ps)
    case Nil
    then show ?thesis
      using d it p(1) assms by (simp add: nem_deq_def)
  next
    case (Cons a qs)
    then obtain q' x where x: "h a = Some x" "NEMESIS_dequeue q h = Some (q', h(a := None), Some (sval x))"
        "nem_rep q' (h(a := None)) qs"
      using d by auto
    have "a \<notin> set qs"
      using p(2) Cons by (simp add: nem_rep_def)
    then show ?thesis
      using x it nem_rep_items [OF x(3)] p(1) Cons by (auto simp: nem_deq_def nem_ok_def)
  qed
qed

interpretation nemesis_queue: fifo nem_ok nem_items "\<lambda>_. True"
  "\<lambda>t p. NEMESIS_enqueue fresh_node (fst p) t (snd p)" nem_deq
  by unfold_locales (use nem_enqueue_fifo [OF fresh_node_ok] nem_dequeue_fifo in auto)

section \<open>Under every interleaving\<close>

text \<open>When no insertion is between its swap and its link and no removal is active, the list is complete.\<close>

lemma linked_schain:
  "linked h c ns \<Longrightarrow> 0 \<notin> set ns \<Longrightarrow> (\<And>n p. c n \<noteq> Some (E_link p)) \<Longrightarrow> ns \<noteq> [] \<Longrightarrow> schain h (hd ns) ns 0"
  by (induction h c ns rule: linked.induct) auto

lemma quiet_rep:
  assumes "nem_inv s ns" "\<And>n p. calls s n \<noteq> Some (E_link p)" "remover s = D_idle" "finite (dom (nemheap s))"
  shows "nem_rep (nemq s) (nemheap s) ns"
proof -
  have e: "entry (nemq s) (calls s) ns" and ns: "distinct ns" "linked (nemheap s) (calls s) ns" "0 \<notin> set ns"
      "nem_tail (nemq s) = (if ns = [] then 0 else last ns)"
    using assms(1,3) by (auto simp: nem_inv_def remover_ok_def)
  show ?thesis
  proof (cases "ns = []")
    case True
    then show ?thesis
      using e ns assms(4) by (simp add: nem_rep_def entry_def nem_first_def)
  next
    case False
    then have "hd ns \<noteq> 0" "schain (nemheap s) (hd ns) ns 0"
      using ns linked_schain [OF ns(2,3) assms(2)] by (cases ns; auto)+
    then show ?thesis
      using e ns assms(2,4) False by (auto simp: nem_rep_def entry_def nem_first_def)
  qed
qed

lemma nem_finite: "nem_step\<^sup>*\<^sup>* nem_start s \<Longrightarrow> finite (dom (nemheap s))"
proof (induction rule: rtranclp_induct)
  case base
  then show ?case
    by (simp add: nem_start_def dom_def)
next
  case (step s s')
  from step.hyps(2) show ?case
    by (cases rule: nem_step.cases) (use step.IH in \<open>auto simp del: fun_upd_apply\<close>)
qed

text \<open>A call of the insertion always can take its next step, also if it has to write into a node.\<close>

lemma enqueuer_progress:
  assumes "nem_inv s ns" "calls s n = Some pc"
  shows "\<exists>s'. nem_step s s' \<and> calls s' n \<noteq> Some pc"
proof (cases pc)
  case E_swap
  then obtain x where "nemheap s n = Some x"
    using assms by (auto simp: nem_inv_def)
  then show ?thesis
    using nem_step.enq_swap [of s n x] assms E_swap by fastforce
next
  case (E_link p)
  show ?thesis
  proof (cases "p = 0")
    case True
    then show ?thesis
      using nem_step.enq_first [of s n] assms E_link by fastforce
  next
    case False
    have "n \<in> set ns"
      using assms E_link by (auto simp: nem_inv_def)
    moreover have "n \<noteq> hd ns"
      using assms E_link False calculation
      by (cases ns) (auto simp: nem_inv_def remover_ok_def Let_def entry_def split: deq_pc.splits)
    ultimately have "n \<in> set (tl ns)"
      by (cases ns) auto
    then obtain x where "nemheap s p = Some x"
      using linked_link [of "nemheap s" "calls s" ns n p] assms E_link by (auto simp: nem_inv_def)
    then show ?thesis
      using nem_step.enq_next [of s n p x] assms E_link False by fastforce
  qed
qed

text \<open>The removal too, unless it waits for the link of the next node, which some insertion is about to write.\<close>

lemma remover_progress:
  assumes "nem_inv s ns"
  shows "(\<exists>s'. nem_step s s' \<and> remover s' \<noteq> remover s)
    \<or> (\<exists>d n. remover s = D_spin d \<and> calls s n = Some (E_link d))"
proof -
  have heap: "\<exists>x. nemheap s d = Some x" if "ns \<noteq> [] \<and> d = hd ns \<or> d \<in> set (taken s)" for d
  proof -
    have "set ns \<subseteq> dom (nemheap s)" "set (taken s) \<subseteq> dom (nemheap s)"
      using assms linked_dom [of "nemheap s" "calls s" ns] by (auto simp: nem_inv_def)
    then show ?thesis
      using that by (cases ns) auto
  qed
  have ok: "remover_ok s ns"
    using assms by (simp add: nem_inv_def)
  show ?thesis
  proof (cases "remover s")
    case D_idle
    then show ?thesis
      using nem_step.deq_begin [of s] by (fastforce split: if_splits)
  next
    case D_check
    then show ?thesis
      using nem_step.deq_empty [of s] nem_step.deq_some [of s] by (cases "nem_head (nemq s) = 0") fastforce+
  next
    case D_load
    then show ?thesis
      using nem_step.deq_load [of s] by fastforce
  next
    case D_clear
    then show ?thesis
      using nem_step.deq_clear [of s] by fastforce
  next
    case (D_next d)
    then have "ns \<noteq> [] \<and> d = hd ns"
      using ok by (auto simp: remover_ok_def entry_def Let_def split: if_splits)
    then obtain x where "nemheap s d = Some x"
      using heap by blast
    then show ?thesis
      using nem_step.deq_next [of s d x] D_next by (fastforce split: if_splits)
  next
    case (D_advance d)
    then obtain x where "nemheap s d = Some x"
      using ok by (auto simp: remover_ok_def Let_def)
    then show ?thesis
      using nem_step.deq_advance [of s d x] D_advance by fastforce
  next
    case (D_last d)
    then show ?thesis
      using nem_step.deq_last [of s d] by fastforce
  next
    case (D_cas d)
    then show ?thesis
      using nem_step.deq_cas [of s d] by (cases "nem_tail (nemq s) = d") fastforce+
  next
    case (D_spin d)
    then obtain e es where ns: "ns = d # e # es"
      using ok by (cases ns; cases "tl ns") (auto simp: remover_ok_def Let_def)
    then obtain x where x: "nemheap s d = Some x" "snext x = e \<or> snext x = 0 \<and> calls s e = Some (E_link d)" "e \<noteq> 0"
      using assms by (auto simp: nem_inv_def)
    then show ?thesis
      using nem_step.deq_spin [of s d x] D_spin by (cases "snext x = 0") fastforce+
  next
    case (D_unlink d)
    then obtain x where "nemheap s d = Some x"
      using heap by (auto simp: taken_def)
    then show ?thesis
      using nem_step.deq_unlink [of s d x] D_unlink by fastforce
  next
    case (D_free d)
    then obtain x where "nemheap s d = Some x"
      using heap by (auto simp: taken_def)
    then show ?thesis
      using nem_step.deq_free [of s d x] D_free by fastforce
  qed
qed

text \<open>
  C25. The lock-free list that threads join is a FIFO queue under every interleaving of any number of
  insertions with one removal at a time: the threads released so far, the one whose removal is being
  completed and those in the list are together exactly the threads that joined, in the order of their
  swaps of the tail. Every insertion that has begun can always take its next step, and so can the removal,
  except while it waits for a link that an insertion is about to write. A removal reports an empty list
  while no insertion is between swap and link only if every thread that joined was released; and when no
  insertion and no removal is under way, repeated removals return exactly the threads not yet released.
\<close>

theorem nemesis_list_is_fifo:
  assumes "nem_step\<^sup>*\<^sup>* nem_start s"
  shows "(\<exists>ns. distinct (taken s @ ns) \<and> set (taken s @ ns) \<subseteq> dom (nemheap s)
      \<and> joined s = released s @ svals (nemheap s) (taken s @ ns))
    \<and> (\<forall>n pc. calls s n = Some pc \<longrightarrow> (\<exists>s'. nem_step s s' \<and> calls s' n \<noteq> Some pc))
    \<and> ((\<exists>s'. nem_step s s' \<and> remover s' \<noteq> remover s)
       \<or> (\<exists>d n. remover s = D_spin d \<and> calls s n = Some (E_link d)))
    \<and> ((\<forall>n p. calls s n \<noteq> Some (E_link p)) \<longrightarrow>
        (remover s = D_check \<and> nem_head (nemq s) = 0 \<longrightarrow> joined s = released s)
        \<and> (remover s = D_idle \<longrightarrow>
             (\<exists>p. drain nem_deq (length (joined s)) (nemq s, nemheap s) = Some (p, drop (length (released s)) (joined s)))))"
proof -
  obtain ns where inv: "nem_inv s ns"
    using nem_reachable_inv [OF assms] by blast
  have j: "joined s = released s @ svals (nemheap s) (taken s @ ns)"
    using inv by (simp add: nem_inv_def)
  have "distinct (taken s @ ns)" "set (taken s @ ns) \<subseteq> dom (nemheap s)"
    using inv linked_dom [of "nemheap s" "calls s" ns] by (auto simp: nem_inv_def taken_def split: deq_pc.splits)
  moreover have "joined s = released s"
    if "\<forall>n p. calls s n \<noteq> Some (E_link p)" "remover s = D_check" "nem_head (nemq s) = 0"
  proof -
    have "ns = []"
      using inv that by (cases ns) (auto simp: nem_inv_def remover_ok_def entry_def Let_def)
    then show ?thesis
      using j that(2) by (simp add: taken_def)
  qed
  moreover have "\<exists>p. drain nem_deq (length (joined s)) (nemq s, nemheap s) = Some (p, drop (length (released s)) (joined s))"
    if "\<forall>n p. calls s n \<noteq> Some (E_link p)" "remover s = D_idle"
  proof -
    have r: "nem_rep (nemq s) (nemheap s) ns"
      using quiet_rep [OF inv] that nem_finite [OF assms] by blast
    have "nem_items (nemq s, nemheap s) = drop (length (released s)) (joined s)"
      using nem_rep_items [OF r] j that(2) by (simp add: taken_def)
    then show ?thesis
      using nemesis_queue.drain_items [of "(nemq s, nemheap s)" "length (joined s)"] r by (auto simp: nem_ok_def)
  qed
  ultimately show ?thesis
    using j enqueuer_progress [OF inv] remover_progress [OF inv] by blast
qed

text \<open>Two insertions interleaved with a removal: the second has swapped the tail and not yet linked.\<close>

definition nem_example :: nem_system where
  "nem_example = \<lparr>nemq = \<lparr>nem_head = 1, nem_tail = 2, nem_length = 0, shadow_head = 0\<rparr>,
     nemheap = [1 \<mapsto> \<lparr>snext = 0, sval = 7\<rparr>, 2 \<mapsto> \<lparr>snext = 0, sval = 8\<rparr>], calls = [2 \<mapsto> E_link 1],
     remover = D_check, joined = [7, 8], released = []\<rparr>"

lemma nem_example_reachable: "nem_step\<^sup>*\<^sup>* nem_start nem_example"
proof -
  define h1 :: tq_heap where "h1 = [1 \<mapsto> \<lparr>snext = 0, sval = 7\<rparr>]"
  define h2 :: tq_heap where "h2 = [1 \<mapsto> \<lparr>snext = 0, sval = 7\<rparr>, 2 \<mapsto> \<lparr>snext = 0, sval = 8\<rparr>]"
  let ?s = "\<lambda>hd tl h c r j. \<lparr>nemq = \<lparr>nem_head = hd, nem_tail = tl, nem_length = 0, shadow_head = 0\<rparr>, nemheap = h,
      calls = c, remover = r, joined = j, released = []\<rparr>"
  have "nem_step\<^sup>*\<^sup>* nem_start nem_start"
    by simp
  also have "nem_step \<dots> (?s 0 0 h1 [1 \<mapsto> E_swap] D_idle [])"
    using nem_step.enq_alloc [of nem_start 1 7] by (simp add: nem_start_def empty_nemesis_def h1_def del: fun_upd_apply)
  also have "nem_step \<dots> (?s 0 1 h1 [1 \<mapsto> E_link 0] D_idle [7])"
    using nem_step.enq_swap [of "?s 0 0 h1 [1 \<mapsto> E_swap] D_idle []" 1] by (simp add: h1_def fun_upd_same del: fun_upd_apply)
  also have "nem_step \<dots> (?s 0 1 h2 [1 \<mapsto> E_link 0, 2 \<mapsto> E_swap] D_idle [7])"
    using nem_step.enq_alloc [of "?s 0 1 h1 [1 \<mapsto> E_link 0] D_idle [7]" 2 8]
    by (simp add: h1_def h2_def fun_upd_other del: fun_upd_apply)
  also have "nem_step \<dots> (?s 0 2 h2 [1 \<mapsto> E_link 0, 2 \<mapsto> E_link 1] D_idle [7, 8])"
    using nem_step.enq_swap [of "?s 0 1 h2 [1 \<mapsto> E_link 0, 2 \<mapsto> E_swap] D_idle [7]" 2]
    by (simp add: h2_def fun_upd_same del: fun_upd_apply)
  also have "nem_step \<dots> (?s 1 2 h2 [2 \<mapsto> E_link 1] D_idle [7, 8])"
    using nem_step.enq_first [of "?s 0 2 h2 [1 \<mapsto> E_link 0, 2 \<mapsto> E_link 1] D_idle [7, 8]" 1]
    by (simp add: fun_upd_twist fun_upd_other fun_upd_same del: fun_upd_apply)
  also have "nem_step \<dots> nem_example"
    using nem_step.deq_begin [of "?s 1 2 h2 [2 \<mapsto> E_link 1] D_idle [7, 8]"]
    by (simp add: nem_example_def h2_def del: fun_upd_apply)
  finally show ?thesis
    by simp
qed

theorem nemesis_list_is_fifo_witness:
  "\<exists>s'. nem_step nem_example s' \<and> calls s' 2 \<noteq> Some (E_link 1)"
  using nemesis_list_is_fifo [OF nem_example_reachable] by (simp add: nem_example_def)

section \<open>Releasing the threads\<close>

context ready_queues
begin

lemma launch_law:
  assumes "qinv (lready s)" "sh < nsheps (lready s)" "shepherd_ptr (lthreads s t) < nsheps (lready s)"
  shows "\<exists>s'. qthread_queue_internal_launch ops t sh s = Some s' \<and> qinv (lready s')
    \<and> tasks (lready s') = add_mset t (tasks (lready s)) \<and> nsheps (lready s') = nsheps (lready s)
    \<and> lthreads s' = (lthreads s)(t := (lthreads s t)\<lparr>thread_state := RUNNING\<rparr>)"
proof (cases "flags (lthreads s t) AND QTHREAD_UNSTEALABLE \<noteq> 0 \<and> shepherd_ptr (lthreads s t) \<noteq> sh")
  case True
  then show ?thesis
    using enqueue_law [OF assms(1,3), of t "flags (lthreads s t)"] by (auto simp: qthread_queue_internal_launch_def)
next
  case False
  then show ?thesis
    using spawn_or_enqueue_law [OF assms(1,2), of t "flags (lthreads s t)"]
    by (auto simp: qthread_queue_internal_launch_def)
qed

text \<open>The threads \<open>ts\<close> have been made ready.\<close>

definition launched :: "tid list \<Rightarrow> 'q launch_state \<Rightarrow> 'q launch_state \<Rightarrow> bool" where
  "launched ts s s' \<longleftrightarrow> qinv (lready s') \<and> tasks (lready s') = tasks (lready s) + mset ts
     \<and> nsheps (lready s') = nsheps (lready s)
     \<and> (\<forall>t. lthreads s' t = (if t \<in> set ts then (lthreads s t)\<lparr>thread_state := RUNNING\<rparr> else lthreads s t))"

lemma launched_Cons:
  assumes "launched [t] s s'" "launched ts s' s''"
  shows "launched (t # ts) s s''"
  using assms by (auto simp: launched_def)

definition at_home :: "'q launch_state \<Rightarrow> shep_id \<Rightarrow> tid list \<Rightarrow> bool" where
  "at_home s sh ts \<longleftrightarrow> qinv (lready s) \<and> sh < nsheps (lready s)
     \<and> (\<forall>t \<in> set ts. shepherd_ptr (lthreads s t) < nsheps (lready s))"

lemma at_home_launch:
  assumes "at_home s sh (t # ts)"
  shows "\<exists>s'. qthread_queue_internal_launch ops t sh s = Some s' \<and> launched [t] s s' \<and> at_home s' sh ts"
  using launch_law [of s sh t] assms by (auto simp: at_home_def launched_def)

lemma queue_dequeue_NEMESIS:
  assumes "nem_ok (n, h)"
  shows "\<exists>n' h'. NEMESIS_dequeue n h = Some (n', h', case nem_items (n, h) of [] \<Rightarrow> None | y # ys \<Rightarrow> Some y)
    \<and> nem_ok (n', h') \<and> nem_items (n', h') = tl (nem_items (n, h))"
  using nem_dequeue_fifo [OF assms] by (auto simp: nem_deq_def)

lemma release_loop_law:
  assumes "nem_ok (n, h)" "at_home s sh (nem_items (n, h))" "length (nem_items (n, h)) < fuel"
  shows "\<exists>n' h' s'. release_loop fuel ops sh (NEMESIS n) h s = Some (NEMESIS n', h', s') \<and> nem_ok (n', h')
    \<and> nem_items (n', h') = [] \<and> launched (nem_items (n, h)) s s'"
  using assms
proof (induction fuel arbitrary: n h s)
  case (Suc fuel)
  obtain n1 h1 where d: "NEMESIS_dequeue n h = Some (n1, h1, case nem_items (n, h) of [] \<Rightarrow> None | y # ys \<Rightarrow> Some y)"
      "nem_ok (n1, h1)" "nem_items (n1, h1) = tl (nem_items (n, h))"
    using queue_dequeue_NEMESIS [OF Suc.prems(1)] by blast
  show ?case
  proof (cases "nem_items (n, h)")
    case Nil
    then show ?thesis
      using d Suc.prems(2) by (auto simp: queue_dequeue_def launched_def at_home_def)
  next
    case (Cons t ts)
    obtain s1 where s1: "qthread_queue_internal_launch ops t sh s = Some s1" "launched [t] s s1" "at_home s1 sh ts"
      using at_home_launch Suc.prems(2) unfolding Cons by blast
    show ?thesis
      using Suc.IH [of n1 h1 s1] d s1 Suc.prems(3) launched_Cons [OF s1(2)] unfolding Cons
      by (fastforce simp: queue_dequeue_def)
  qed
qed simp

lemma release_count_law:
  assumes "nem_ok (n, h)" "at_home s sh (nem_items (n, h))" "nem_length n = l"
  shows "\<exists>n' h' s'. release_count (length (nem_items (n, h))) ops sh (NEMESIS_LENGTH n) h s = Some (NEMESIS_LENGTH n', h', s')
    \<and> nem_ok (n', h') \<and> nem_items (n', h') = [] \<and> launched (nem_items (n, h)) s s' \<and> nem_length n' = l"
  using assms
proof (induction "nem_items (n, h)" arbitrary: n h s)
  case Nil
  then show ?case
    by (auto simp: launched_def at_home_def)
next
  case (Cons t ts)
  have it: "nem_items (n, h) = t # ts"
    using Cons.hyps(2) by simp
  obtain n1 h1 where d: "NEMESIS_dequeue n h = Some (n1, h1, Some t)" "nem_ok (n1, h1)" "nem_items (n1, h1) = ts"
    using queue_dequeue_NEMESIS [OF Cons.prems(1)] unfolding it by auto
  have len: "nem_length n1 = l"
    using d(1) Cons.prems(3) by (auto simp: NEMESIS_dequeue_def Let_def split: if_splits bind_splits)
  obtain s1 where s1: "qthread_queue_internal_launch ops t sh s = Some s1" "launched [t] s s1" "at_home s1 sh ts"
    using at_home_launch Cons.prems(2) unfolding it by blast
  show ?case
    using Cons.hyps(1) [of n1 h1 s1] d s1 len launched_Cons [OF s1(2)] unfolding it
    by (fastforce simp: queue_dequeue_def)
qed

lemma release_all_NEMESIS:
  assumes "nem_ok (n, h)" "at_home s sh (nem_items (n, h))" "length (nem_items (n, h)) < fuel"
  shows "\<exists>n' h' s'. qthread_queue_release_all fuel ops sh (NEMESIS n) h s = Some (NEMESIS n', h', s') \<and> nem_ok (n', h')
    \<and> nem_items (n', h') = [] \<and> launched (nem_items (n, h)) s s'"
  using release_loop_law [OF assms] by (simp add: qthread_queue_release_all_def)

lemma release_all_NEMESIS_LENGTH:
  assumes "nem_ok (n, h)" "at_home s sh (nem_items (n, h))" "unat (nem_length n) = length (nem_items (n, h))"
  shows "\<exists>n' h' s'. qthread_queue_release_all fuel ops sh (NEMESIS_LENGTH n) h s = Some (NEMESIS_LENGTH n', h', s')
    \<and> nem_ok (n', h') \<and> nem_items (n', h') = [] \<and> nem_length n' = 0 \<and> launched (nem_items (n, h)) s s'"
proof -
  obtain n' h' s' where r: "release_count (length (nem_items (n, h))) ops sh (NEMESIS_LENGTH n) h s = Some (NEMESIS_LENGTH n', h', s')"
      "nem_ok (n', h')" "nem_items (n', h') = []" "launched (nem_items (n, h)) s s'" "nem_length n' = nem_length n"
    using release_count_law [OF assms(1,2) refl] by blast
  have f: "nem_first (n'\<lparr>nem_length := 0\<rparr>) = nem_first n'"
    by (simp add: nem_first_def)
  have "nem_ok (n'\<lparr>nem_length := 0\<rparr>, h')" "nem_items (n'\<lparr>nem_length := 0\<rparr>, h') = []"
    using r(2,3) unfolding nem_ok_def nem_rep_def nem_items_def prod.case f by simp_all
  moreover have "qthread_queue_release_all fuel ops sh (NEMESIS_LENGTH n) h s
      = Some (NEMESIS_LENGTH (n'\<lparr>nem_length := 0\<rparr>), h', s')"
    using r(1,5) assms(3) by (simp add: qthread_queue_release_all_def)
  ultimately show ?thesis
    using r(4) by (intro exI [of _ "n'\<lparr>nem_length := 0\<rparr>"] exI [of _ h'] exI [of _ s']) simp
qed

end

text \<open>
  C26. \<open>qthread_queue_release_all\<close> on a Nemesis queue, with or without the counter, returns, leaves the queue
  empty (and its counter 0) and makes every thread that waited in it ready exactly once on the Sherwood ready
  queues, in state \<open>RUNNING\<close>; the threads that did not wait are untouched.
\<close>

theorem release_all_launches_all:
  assumes "nem_ok (n, h)" "sw_inv (lready s)" "sh < sw_nsheps (lready s)"
    and "\<forall>t \<in> set (nem_items (n, h)). shepherd_ptr (lthreads s t) < sw_nsheps (lready s)"
    and "q = NEMESIS n \<and> length (nem_items (n, h)) < fuel
       \<or> q = NEMESIS_LENGTH n \<and> unat (nem_length n) = length (nem_items (n, h))"
  shows "\<exists>q' h' s'. qthread_queue_release_all fuel sw_ops sh q h s = Some (q', h', s')
    \<and> qthread_queue_length q' = 0 \<and> queue_dequeue q' h' = Some (q', h', None)
    \<and> sw_inv (lready s') \<and> sw_tasks (lready s') = sw_tasks (lready s) + mset (nem_items (n, h))
    \<and> (\<forall>t. lthreads s' t = (if t \<in> set (nem_items (n, h)) then (lthreads s t)\<lparr>thread_state := RUNNING\<rparr> else lthreads s t))"
proof -
  have home: "sherwood.at_home s sh (nem_items (n, h))"
    using assms(2-4) by (simp add: sherwood.at_home_def)
  have empty: "NEMESIS_dequeue n' h' = Some (n', h', None)" if "nem_ok (n', h')" "nem_items (n', h') = []" for n' h'
  proof -
    obtain ps where r: "nem_rep n' h' ps"
      using \<open>nem_ok (n', h')\<close> by (auto simp: nem_ok_def)
    then have "ps = []"
      using nem_rep_items [OF r] that(2) by (simp add: svals_def)
    then show ?thesis
      using nem_dequeue_rep [OF r] by simp
  qed
  from assms(5) show ?thesis
  proof
    assume q: "q = NEMESIS n \<and> length (nem_items (n, h)) < fuel"
    then obtain n' h' s' where r: "qthread_queue_release_all fuel sw_ops sh q h s = Some (NEMESIS n', h', s')"
        "nem_ok (n', h')" "nem_items (n', h') = []" "sherwood.launched (nem_items (n, h)) s s'"
      using sherwood.release_all_NEMESIS [OF assms(1) home, of fuel] by blast
    show ?thesis
      by (intro exI conjI, rule r(1)) (use r(4) empty [OF r(2,3)] in
        \<open>simp_all add: sherwood.launched_def queue_dequeue_def qthread_queue_length_def\<close>)
  next
    assume q: "q = NEMESIS_LENGTH n \<and> unat (nem_length n) = length (nem_items (n, h))"
    then obtain n' h' s' where r: "qthread_queue_release_all fuel sw_ops sh q h s = Some (NEMESIS_LENGTH n', h', s')"
        "nem_ok (n', h')" "nem_items (n', h') = []" "nem_length n' = 0" "sherwood.launched (nem_items (n, h)) s s'"
      using sherwood.release_all_NEMESIS_LENGTH [OF assms(1) home, of fuel] by blast
    show ?thesis
      by (intro exI conjI, rule r(1)) (use r(4,5) empty [OF r(2,3)] in
        \<open>simp_all add: sherwood.launched_def queue_dequeue_def qthread_queue_length_def\<close>)
  qed
qed

definition example_thread :: qthread where
  "example_thread = \<lparr>thread_state = QUEUE, flags = 0, target_shepherd = None, shepherd_ptr = 0, preconds = None,
     blockedon = 0, tret = 0\<rparr>"

theorem release_all_launches_all_witness:
  "\<exists>q' h' s'. qthread_queue_release_all 5 sw_ops 0
       (NEMESIS \<lparr>nem_head = 1, nem_tail = 2, nem_length = 0, shadow_head = 0\<rparr>)
       [1 \<mapsto> \<lparr>snext = 2, sval = 7\<rparr>, 2 \<mapsto> \<lparr>snext = 0, sval = 8\<rparr>]
       \<lparr>lthreads = \<lambda>_. example_thread, lready = sw_start 1\<rparr> = Some (q', h', s')
     \<and> sw_tasks (lready s') = {#7, 8#} \<and> thread_state (lthreads s' 8) = RUNNING
     \<and> thread_state (lthreads s' 9) = QUEUE"
proof -
  let ?n = "\<lparr>nem_head = 1, nem_tail = 2, nem_length = 0, shadow_head = 0\<rparr>"
  let ?h = "[1 \<mapsto> \<lparr>snext = 2, sval = 7\<rparr>, 2 \<mapsto> \<lparr>snext = 0, sval = 8\<rparr>] :: tq_heap"
  have r: "nem_rep ?n ?h [1, 2]"
    by (simp add: nem_rep_def nem_first_def)
  have it: "nem_items (?n, ?h) = [7, 8]"
    using nem_rep_items [OF r] by simp
  have "nem_ok (?n, ?h)"
    unfolding nem_ok_def using r by blast
  then show ?thesis
    using release_all_launches_all [of ?n ?h "\<lparr>lthreads = \<lambda>_. example_thread, lready = sw_start 1\<rparr>" 0 "NEMESIS ?n" 5]
    unfolding it by (auto simp: sw_start_inv sw_nsheps_def example_thread_def)
qed

text \<open>
  The two other kinds of queue lose threads. A capped queue never holds a thread: with room the insertion
  fails its assertion, which is the wrong way round, and without room it returns and the thread is in no queue.
  An unsynchronised queue that was emptied keeps the address of the freed node in \<open>tail\<close>: the next insertion
  writes into it, or, when its own node got that address, leaves \<open>head\<close> null, so that the thread is never
  released.
\<close>

lemma capped_and_nosync_lose_threads:
  assumes "al h \<noteq> 0" "h (al h) = None" "al2 ((h(al h \<mapsto> \<lparr>snext = 0, sval = t\<rparr>))(al h := None)) \<noteq> 0"
  shows "capped_enqueue c t = (if membercount c < maxmembers c then None else Some c)
    \<and> (\<exists>q1 h1 q2 h2. nosync_enqueue al \<lparr>nos_head = 0, nos_tail = 0\<rparr> t h = Some (q1, h1)
         \<and> nosync_dequeue q1 h1 = Some (q2, h2, Some t)
         \<and> (nosync_enqueue al2 q2 t2 h2 = None
            \<or> (\<exists>q3 h3. nosync_enqueue al2 q2 t2 h2 = Some (q3, h3) \<and> nosync_dequeue q3 h3 = Some (q3, h3, None))))"
proof -
  let ?h1 = "h(al h \<mapsto> \<lparr>snext = 0, sval = t\<rparr>)" and ?q1 = "\<lparr>nos_head = al h, nos_tail = al h\<rparr>"
  let ?h2 = "?h1(al h := None)" and ?q2 = "\<lparr>nos_head = 0, nos_tail = al h\<rparr>"
  have e: "nosync_enqueue al \<lparr>nos_head = 0, nos_tail = 0\<rparr> t h = Some (?q1, ?h1)"
    using assms(1) by (simp add: nosync_enqueue_def Let_def)
  have d: "nosync_dequeue ?q1 ?h1 = Some (?q2, ?h2, Some t)"
    using assms(1) by (simp add: nosync_dequeue_def Let_def)
  have "nosync_enqueue al2 ?q2 t2 ?h2 = None
      \<or> (\<exists>q3 h3. nosync_enqueue al2 ?q2 t2 ?h2 = Some (q3, h3) \<and> nos_head q3 = 0)"
  proof (cases "al2 ?h2 = al h")
    case True
    then show ?thesis
      using assms(1) by (simp add: nosync_enqueue_def Let_def)
  next
    case False
    then have "nosync_enqueue al2 ?q2 t2 ?h2 = None"
      using assms(1) by (simp add: nosync_enqueue_def Let_def set_snext_def)
    then show ?thesis ..
  qed
  then have "nosync_enqueue al2 ?q2 t2 ?h2 = None
      \<or> (\<exists>q3 h3. nosync_enqueue al2 ?q2 t2 ?h2 = Some (q3, h3) \<and> nosync_dequeue q3 h3 = Some (q3, h3, None))"
    by (auto simp: nosync_dequeue_def)
  then show ?thesis
    using e d by (auto simp: capped_enqueue_def Let_def)
qed

end
