(* ===== verification/Shepherds.thy ===== *)
theory Shepherds
  imports Runtime
begin

text \<open>
  Shepherds and workers (\<open>shepherds.c\<close>, \<open>workers.c\<close>): enabling and disabling them, walking over their ids,
  their distances, and the choice of an active shepherd near another one. The distances and the lists sorted
  by distance come from the affinity modules; the generation without topology information (\<open>affinity/no.c\<close>,
  \<open>affinity/sys.c\<close>) and with libnuma (\<open>affinity/libnumaV2.c\<close>) is modelled, with the sorting of
  \<open>affinity/shufflesheps.h\<close>.

  Ids are 16 bits wide in the interface and numbers inside. Random numbers are a function from the number of
  the call to its result; the lengths of the ready queues are a function from shepherds.
\<close>

type_synonym u16 = "16 word"

record qthread_shepherd =
  shep_active :: bool
  shep_node :: u32
  sorted_sheplist :: "shep_id list option"
  shep_dists :: "u32 list option"
  worker_active :: "bool list"

record qlib_s =
  shepherds :: "qthread_shepherd list"
  nshepherds_active :: u64
  nworkerspershep :: nat
  nworkers_active :: u64

abbreviation nshepherds :: "qlib_s \<Rightarrow> nat" where
  "nshepherds qlib \<equiv> length (shepherds qlib)"

definition NO_SHEPHERD :: u16 where "NO_SHEPHERD = - 1"
definition QTHREAD_NO_NODE :: u32 where "QTHREAD_NO_NODE = - 1"
definition QTHREAD_BADARGS :: int where "QTHREAD_BADARGS = -1"
definition QTHREAD_PTHREAD_ERROR :: int where "QTHREAD_PTHREAD_ERROR = -2"
definition QTHREAD_NOT_ALLOWED :: int where "QTHREAD_NOT_ALLOWED = -3"

section \<open>Ids\<close>

definition qthread_shep_ok :: "qlib_s \<Rightarrow> shep_id option \<Rightarrow> int" where
  "qthread_shep_ok qlib self =
     (case self of None \<Rightarrow> QTHREAD_PTHREAD_ERROR | Some sh \<Rightarrow> of_bool (shep_active (shepherds qlib ! sh)))"

definition qthread_shep_next :: "qlib_s \<Rightarrow> u16 \<Rightarrow> u16 option" where
  "qthread_shep_next qlib shep =
     do { c_assert (shep \<noteq> NO_SHEPHERD);
          let c = shep + 1;
          Some (c * of_bool (unat c < nshepherds qlib)) }"

definition qthread_shep_prev :: "qlib_s \<Rightarrow> u16 \<Rightarrow> u16 option" where
  "qthread_shep_prev qlib shep =
     do { c_assert (shep \<noteq> NO_SHEPHERD);
          Some (if shep = 0 then of_nat (nshepherds qlib - 1) else shep - 1) }"

definition qthread_shep_next_local :: "qlib_s \<Rightarrow> u16 \<Rightarrow> u16 option" where
  "qthread_shep_next_local qlib shep =
     do { c_assert (shep \<noteq> NO_SHEPHERD);
          let c = shep + 1;
          Some (c * of_bool (unat c < nshepherds qlib)) }"

definition qthread_shep_prev_local :: "qlib_s \<Rightarrow> u16 \<Rightarrow> u16 option" where
  "qthread_shep_prev_local qlib shep =
     do { c_assert (shep \<noteq> NO_SHEPHERD);
          Some (if shep = 0 then of_nat (nshepherds qlib - 1) else shep - 1) }"

definition qthread_shep :: "qlib_s option \<Rightarrow> shep_id option \<Rightarrow> u16" where
  "qthread_shep qlib self =
     (case (qlib, self) of (Some _, Some sh) \<Rightarrow> of_nat sh | _ \<Rightarrow> NO_SHEPHERD)"

text \<open>With assertions off, ids out of range give \<open>QTHREAD_BADARGS\<close>; here the assertions are on.\<close>

definition qthread_distance :: "qlib_s \<Rightarrow> shep_id \<Rightarrow> shep_id \<Rightarrow> u32 option" where
  "qthread_distance qlib src dest =
     do { c_assert (src < nshepherds qlib);
          c_assert (dest < nshepherds qlib);
          case shep_dists (shepherds qlib ! src) of
            None \<Rightarrow> Some 0
          | Some d \<Rightarrow>
              if src < dest then do { c_assert (dest - 1 < length d); Some (d ! (dest - 1)) }
              else if dest = src then Some 0
              else do { c_assert (dest < length d); Some (d ! dest) } }"

definition qthread_sorted_sheps :: "qlib_s \<Rightarrow> shep_id option \<Rightarrow> shep_id list option" where
  "qthread_sorted_sheps qlib self =
     (case self of None \<Rightarrow> None | Some sh \<Rightarrow> sorted_sheplist (shepherds qlib ! sh))"

definition qthread_sorted_sheps_remote :: "qlib_s \<Rightarrow> shep_id \<Rightarrow> shep_id list option option" where
  "qthread_sorted_sheps_remote qlib src =
     do { c_assert (src < nshepherds qlib); Some (sorted_sheplist (shepherds qlib ! src)) }"

definition qthread_num_shepherds :: "qlib_s \<Rightarrow> u16" where
  "qthread_num_shepherds qlib = ucast (nshepherds_active qlib)"

section \<open>Enabling and disabling\<close>

definition set_shep :: "shep_id \<Rightarrow> (qthread_shepherd \<Rightarrow> qthread_shepherd) \<Rightarrow> qlib_s \<Rightarrow> qlib_s" where
  "set_shep sh f qlib = qlib\<lparr>shepherds := (shepherds qlib)[sh := f (shepherds qlib ! sh)]\<rparr>"

text \<open>The counter is decremented also when the shepherd is not active.\<close>

definition qthread_disable_shepherd :: "qlib_s \<Rightarrow> shep_id \<Rightarrow> (qlib_s \<times> int) option" where
  "qthread_disable_shepherd qlib shep =
     do { c_assert (shep < nshepherds qlib);
          if shep = 0 then Some (qlib, QTHREAD_NOT_ALLOWED)
          else Some (set_shep shep (\<lambda>s. s\<lparr>shep_active := False\<rparr>)
                       (qlib\<lparr>nshepherds_active := nshepherds_active qlib - 1\<rparr>), QTHREAD_SUCCESS) }"

definition qthread_enable_shepherd :: "qlib_s \<Rightarrow> shep_id \<Rightarrow> qlib_s option" where
  "qthread_enable_shepherd qlib shep =
     do { c_assert (shep < nshepherds qlib);
          Some (set_shep shep (\<lambda>s. s\<lparr>shep_active := True\<rparr>)
                  (qlib\<lparr>nshepherds_active := nshepherds_active qlib + 1\<rparr>)) }"

definition qthread_disable_worker :: "qlib_s \<Rightarrow> nat \<Rightarrow> (qlib_s \<times> int) option" where
  "qthread_disable_worker qlib w =
     (let shep = w mod nshepherds qlib; worker = w div nshepherds qlib
      in do {
        c_assert (shep < nshepherds qlib);
        c_assert (worker < nworkerspershep qlib);
        if worker = 0 \<and> shep = 0 then Some (qlib, QTHREAD_NOT_ALLOWED)
        else do {
          let qlib = set_shep shep (\<lambda>s. s\<lparr>worker_active := (worker_active s)[worker := False]\<rparr>) qlib;
          let qlib = qlib\<lparr>nworkers_active := nworkers_active qlib - 1\<rparr>;
          qlib \<leftarrow> (if worker = 0 then map_option fst (qthread_disable_shepherd qlib shep) else Some qlib);
          Some (qlib, QTHREAD_SUCCESS)
        }
      })"

definition qthread_enable_worker :: "qlib_s \<Rightarrow> nat \<Rightarrow> qlib_s option" where
  "qthread_enable_worker qlib w =
     (let shep = w mod nshepherds qlib; worker = w div nshepherds qlib
      in do {
        c_assert (shep < nshepherds qlib);
        qlib \<leftarrow> (if worker = 0 then qthread_enable_shepherd qlib shep else Some qlib);
        if worker < nworkerspershep qlib then
          Some (set_shep shep (\<lambda>s. s\<lparr>worker_active := (worker_active s)[worker := True]\<rparr>)
                  (qlib\<lparr>nworkers_active := nworkers_active qlib + 1\<rparr>))
        else Some qlib
      })"

section \<open>The nearest active shepherd\<close>

definition is_active :: "qlib_s \<Rightarrow> shep_id \<Rightarrow> bool option" where
  "is_active qlib sh = (if sh < nshepherds qlib then Some (shep_active (shepherds qlib ! sh)) else None)"

text \<open>Without a list: the least busy active shepherd. \<open>coin\<close> tells \<open>random() % 2 == 0\<close> in round \<open>i\<close>.\<close>

primrec least_busy :: "(shep_id \<Rightarrow> int) \<Rightarrow> (nat \<Rightarrow> bool) \<Rightarrow> qlib_s \<Rightarrow> nat \<Rightarrow> nat \<Rightarrow> (int \<times> shep_id) option
    \<Rightarrow> (int \<times> shep_id) option" where
  "least_busy qlen coin qlib 0 i best = best"
| "least_busy qlen coin qlib (Suc n) i best =
     least_busy qlen coin qlib n (i + 1)
       (if shep_active (shepherds qlib ! i) then
          (case best of None \<Rightarrow> Some (qlen i, i)
           | Some (busyness, target) \<Rightarrow>
               if qlen i < busyness \<or> qlen i = busyness \<and> coin i then Some (qlen i, i) else best)
        else best)"

text \<open>The first position from which on the list has an active shepherd; \<open>n - 1\<close> entries are read.\<close>

fun first_active :: "qlib_s \<Rightarrow> shep_id list \<Rightarrow> nat \<Rightarrow> nat option" where
  "first_active qlib [] target = Some target"
| "first_active qlib (x # xs) target =
     do { a \<leftarrow> is_active qlib x; if a then Some target else first_active qlib xs (target + 1) }"

text \<open>Among those at the same distance the least busy one, active or not.\<close>

fun equidistant :: "(shep_id \<Rightarrow> int) \<Rightarrow> (nat \<Rightarrow> bool) \<Rightarrow> u32 list \<Rightarrow> u32 \<Rightarrow> shep_id list \<Rightarrow> nat \<Rightarrow> int \<times> shep_id
    \<Rightarrow> (int \<times> shep_id) option" where
  "equidistant qlen coin d dist [] alt best = Some best"
| "equidistant qlen coin d dist (x # xs) alt (busyness, target) =
     do { c_assert (x < length d);
          if d ! x = dist then
            equidistant qlen coin d dist xs (alt + 1)
              (if qlen x < busyness \<or> qlen x = busyness \<and> coin alt then (qlen x, x) else (busyness, target))
          else Some (busyness, target) }"

definition qthread_find_active_shepherd :: "(shep_id \<Rightarrow> int) \<Rightarrow> (nat \<Rightarrow> bool) \<Rightarrow> qlib_s \<Rightarrow> shep_id list option
    \<Rightarrow> u32 list option \<Rightarrow> shep_id option option" where
  "qthread_find_active_shepherd qlen coin qlib l d =
     (case l of
        None \<Rightarrow>
          (case least_busy qlen coin qlib (nshepherds qlib) 0 None of None \<Rightarrow> None | Some (_, t) \<Rightarrow> Some (Some t))
      | Some l \<Rightarrow>
          do {
            c_assert (nshepherds qlib - 1 \<le> length l);
            let l = take (nshepherds qlib - 1) l;
            target \<leftarrow> first_active qlib l 0;
            if length l \<le> target then Some None
            else do {
              d \<leftarrow> d;
              c_assert (l ! target < length d);
              (_, t) \<leftarrow> equidistant qlen coin d (d ! (l ! target)) (drop (target + 1) l) (target + 1)
                          (qlen (l ! target), l ! target);
              Some (Some t)
            }
          })"

section \<open>Distances and sorted lists\<close>

text \<open>\<open>rnd\<close> gives the results of \<open>rand()\<close>, \<open>c\<close> the number of calls before.\<close>

definition swap_at :: "nat \<Rightarrow> nat \<Rightarrow> 'a list \<Rightarrow> 'a list" where
  "swap_at i j s = s[j := s ! i, i := s ! j]"

primrec shuffle_loop :: "(nat \<Rightarrow> nat) \<Rightarrow> nat \<Rightarrow> nat \<Rightarrow> nat \<Rightarrow> 'a list \<Rightarrow> 'a list" where
  "shuffle_loop rnd c 0 i s = s"
| "shuffle_loop rnd c (Suc n) i s = shuffle_loop rnd c n (i + 1) (swap_at i (rnd (c + i) mod length s) s)"

definition shuffle_sheps :: "(nat \<Rightarrow> nat) \<Rightarrow> nat \<Rightarrow> 'a list \<Rightarrow> 'a list" where
  "shuffle_sheps rnd c s = shuffle_loop rnd c (length s) 0 s"

definition min_dist :: "u32 list \<Rightarrow> shep_id list \<Rightarrow> u32" where
  "min_dist dists s = foldl (\<lambda>m x. if dists ! x < m then dists ! x else m) (- 1) s"

lemma min_dist_le:
  fixes dists :: "u32 list"
  shows "foldl (\<lambda>m x. if dists ! x < m then dists ! x else m) a s \<le> a
    \<and> (\<forall>x \<in> set s. foldl (\<lambda>m x. if dists ! x < m then dists ! x else m) a s \<le> dists ! x)
    \<and> (foldl (\<lambda>m x. if dists ! x < m then dists ! x else m) a s = a
       \<or> (\<exists>x \<in> set s. foldl (\<lambda>m x. if dists ! x < m then dists ! x else m) a s = dists ! x))"
proof (induction s arbitrary: a)
  case (Cons y s)
  define b where "b = (if dists ! y < a then dists ! y else a)"
  have b: "b \<le> a" "b \<le> dists ! y" "b = a \<or> b = dists ! y"
    by (auto simp: b_def not_less)
  show ?case
    using Cons.IH [of b] b order_trans [OF _ b(1)] order_trans [OF _ b(2)] unfolding foldl_Cons b_def [symmetric]
    by auto
qed simp

lemma min_dist_lower: "x \<in> set s \<Longrightarrow> min_dist dists s \<le> dists ! x"
  using min_dist_le [where a = "- 1"] by (auto simp: min_dist_def)

lemma min_dist_attained:
  assumes "s \<noteq> []"
  shows "\<exists>x \<in> set s. dists ! x = min_dist dists s"
proof -
  have "min_dist dists s = - 1 \<or> (\<exists>x \<in> set s. min_dist dists s = dists ! x)"
    using min_dist_le [where a = "- 1"] by (auto simp: min_dist_def)
  then show ?thesis
  proof
    assume m: "min_dist dists s = - 1"
    obtain x where "x \<in> set s"
      using assms by (cases s) auto
    then have "- 1 \<le> dists ! x"
      using min_dist_lower [of x s dists] m by simp
    then show ?thesis
      using m \<open>x \<in> set s\<close> by (auto simp: word_order.extremum_unique)
  qed auto
qed

lemma sort_loop_shrinks:
  "s \<noteq> [] \<Longrightarrow> length (filter (\<lambda>x. min_dist dists s < dists ! x) s) < length s"
  using min_dist_attained [of s dists] by (auto intro: length_filter_less)

text \<open>The loop: all shepherds at the least distance are moved to \<open>tmp\<close>, shuffled, and the others are kept.\<close>

function sort_loop :: "(nat \<Rightarrow> nat) \<Rightarrow> u32 list \<Rightarrow> nat \<Rightarrow> shep_id list \<Rightarrow> shep_id list \<Rightarrow> shep_id list" where
  "sort_loop rnd dists c s tmp =
     (if s = [] then tmp
      else (let mindist = min_dist dists s;
                near = filter (\<lambda>x. dists ! x = mindist) s;
                shuffled = (if 1 < length near then shuffle_sheps rnd c near else near)
            in sort_loop rnd dists (if 1 < length near then c + length near else c)
                 (filter (\<lambda>x. mindist < dists ! x) s) (tmp @ shuffled)))"
  by pat_completeness auto

termination
  by (relation "measure (\<lambda>(rnd, dists, c, s, tmp). length s)") (use sort_loop_shrinks in auto)

declare sort_loop.simps [simp del]

definition sort_sheps :: "(nat \<Rightarrow> nat) \<Rightarrow> nat \<Rightarrow> u32 list \<Rightarrow> shep_id list \<Rightarrow> shep_id list option" where
  "sort_sheps rnd c dists s =
     do { c_assert (0 < length s);
          c_assert (\<forall>x \<in> set s. x < length dists);
          Some (sort_loop rnd dists c s []) }"

definition others :: "nat \<Rightarrow> nat \<Rightarrow> shep_id list" where
  "others i n = filter (\<lambda>j. j \<noteq> i) [0..<n]"

text \<open>\<open>qt_affinity_gendists\<close> without topology, and with libnuma (\<open>numa_distance\<close>); \<open>rnd i\<close> are the random
  numbers while shepherd \<open>i\<close> is treated.\<close>

definition gendists_flat :: "(nat \<Rightarrow> nat \<Rightarrow> nat) \<Rightarrow> qlib_s \<Rightarrow> qlib_s" where
  "gendists_flat rnd qlib =
     (let n = nshepherds qlib
      in qlib\<lparr>shepherds := map (\<lambda>i. (shepherds qlib ! i)
           \<lparr>shep_dists := Some (map (\<lambda>j. if j \<noteq> i then 10 else 0) [0..<n]),
            sorted_sheplist := Some (shuffle_sheps (rnd i) 0 (others i n))\<rparr>) [0..<n]\<rparr>)"

definition numa_dist :: "(u32 \<Rightarrow> u32 \<Rightarrow> u32) \<Rightarrow> qlib_s \<Rightarrow> nat \<Rightarrow> nat \<Rightarrow> u32" where
  "numa_dist numa_distance qlib i j =
     (let ni = shep_node (shepherds qlib ! i); nj = shep_node (shepherds qlib ! j)
      in if ni \<noteq> QTHREAD_NO_NODE \<and> nj \<noteq> QTHREAD_NO_NODE then numa_distance ni nj
         else if i = j then 0 else 20)"

definition gendists_numa :: "(u32 \<Rightarrow> u32 \<Rightarrow> u32) \<Rightarrow> (nat \<Rightarrow> nat \<Rightarrow> nat) \<Rightarrow> qlib_s \<Rightarrow> qlib_s" where
  "gendists_numa numa_distance rnd qlib =
     (let n = nshepherds qlib
      in qlib\<lparr>shepherds := map (\<lambda>i.
           let d = map (numa_dist numa_distance qlib i) [0..<n]
           in (shepherds qlib ! i)\<lparr>shep_dists := Some d,
                sorted_sheplist := (if 1 < n then sort_sheps (rnd i) 0 d (others i n) else Some (others i n))\<rparr>) [0..<n]\<rparr>)"

end
