(* ===== verification/Shepherds_Props.thy ===== *)
theory Shepherds_Props
  imports Shepherds
begin

text \<open>The properties of the shepherds: the lists sorted by distance and the choice of a near active shepherd.\<close>

section \<open>Sorting\<close>

lemma mset_swap_at: "i < length s \<Longrightarrow> j < length s \<Longrightarrow> mset (swap_at i j s) = mset s"
  by (simp add: swap_at_def mset_swap)

lemma mset_shuffle_loop:
  "i + n \<le> length s \<Longrightarrow> mset (shuffle_loop rnd c n i s) = mset s"
proof (induction n arbitrary: i s)
  case (Suc n)
  have b: "i < length s" "rnd (c + i) mod length s < length s"
    using Suc.prems by (auto intro: mod_less_divisor)
  then show ?case
    using Suc.IH [of "i + 1" "swap_at i (rnd (c + i) mod length s) s"] Suc.prems mset_swap_at [OF b]
    by (simp add: swap_at_def)
qed simp

lemma mset_shuffle_sheps [simp]: "mset (shuffle_sheps rnd c s) = mset s"
  by (simp add: shuffle_sheps_def mset_shuffle_loop)

lemma set_shuffle_sheps [simp]: "set (shuffle_sheps rnd c s) = set s"
  by (metis mset_shuffle_sheps set_mset_mset)

text \<open>What is in \<open>tmp\<close> is sorted and not farther than what is left.\<close>

lemma sort_loop_sorts:
  fixes dists :: "u32 list"
  assumes "sorted (map ((!) dists) tmp)" "\<And>x y. x \<in> set tmp \<Longrightarrow> y \<in> set s \<Longrightarrow> dists ! x \<le> dists ! y"
  shows "mset (sort_loop rnd dists c s tmp) = mset tmp + mset s \<and> sorted (map ((!) dists) (sort_loop rnd dists c s tmp))"
  using assms
proof (induction rnd dists c s tmp rule: sort_loop.induct)
  case (1 rnd dists c s tmp)
  show ?case
  proof (cases "s = []")
    case True
    then show ?thesis
      using 1 by (simp add: sort_loop.simps [of rnd dists c "[]" tmp])
  next
    case False
    define m near far sh c' where "m = min_dist dists s" and "near = filter (\<lambda>x. dists ! x = m) s"
      and "far = filter (\<lambda>x. m < dists ! x) s"
      and "sh = (if 1 < length near then shuffle_sheps rnd c near else near)"
      and "c' = (if 1 < length near then c + length near else c)"
    have step: "sort_loop rnd dists c s tmp = sort_loop rnd dists c' far (tmp @ sh)"
      using False unfolding c'_def far_def sh_def near_def m_def
      by (subst sort_loop.simps) (simp add: Let_def)
    have sh: "mset sh = mset near" "set sh = set near"
      by (auto simp: sh_def)
    have least: "\<And>x. x \<in> set s \<Longrightarrow> m \<le> dists ! x"
      unfolding m_def by (rule min_dist_lower)
    have part: "mset near + mset far = mset s"
    proof -
      have "far = filter (\<lambda>x. \<not> dists ! x = m) s"
        unfolding far_def using least by (intro filter_cong) (auto simp: less_le)
      then show ?thesis
        by (simp add: near_def)
    qed
    have eq: "dists ! x = m" if "x \<in> set sh" for x
      using that sh(2) by (auto simp: near_def)
    then have "sorted (map ((!) dists) sh)"
      by (intro sorted_iff_nth_mono_less [THEN iffD2]) auto
    then have srt: "sorted (map ((!) dists) (tmp @ sh))"
      using "1.prems" sh(2) by (auto simp: sorted_append near_def)
    have le: "dists ! x \<le> dists ! y" if "x \<in> set (tmp @ sh)" "y \<in> set far" for x y
      using that "1.prems"(2) eq least by (auto simp: far_def)
    have "mset (sort_loop rnd dists c' far (tmp @ sh)) = mset (tmp @ sh) + mset far
        \<and> sorted (map ((!) dists) (sort_loop rnd dists c' far (tmp @ sh)))"
      using "1.IH" [OF False m_def near_def sh_def] srt le unfolding c'_def far_def by blast
    then show ?thesis
      using sh(1) part unfolding step by (simp add: add.assoc)
  qed
qed

lemma sort_sheps_ok:
  assumes "s \<noteq> []" "\<forall>x \<in> set s. x < length dists"
  shows "\<exists>r. sort_sheps rnd c dists s = Some r \<and> mset r = mset s \<and> sorted (map ((!) dists) r)"
  using assms sort_loop_sorts [of dists "[]" s rnd c] by (simp add: sort_sheps_def)

section \<open>The nearest active shepherd\<close>

lemma first_active_spec:
  assumes "\<forall>x \<in> set l. x < nshepherds qlib"
  shows "\<exists>us vs. l = us @ vs \<and> first_active qlib l k = Some (k + length us)
    \<and> (\<forall>u \<in> set us. \<not> shep_active (shepherds qlib ! u)) \<and> (vs \<noteq> [] \<longrightarrow> shep_active (shepherds qlib ! hd vs))"
  using assms
proof (induction l arbitrary: k)
  case (Cons x l)
  show ?case
  proof (cases "shep_active (shepherds qlib ! x)")
    case True
    then show ?thesis
      using Cons.prems by (intro exI [of _ "[]"] exI [of _ "x # l"]) (simp add: is_active_def)
  next
    case False
    obtain us vs where "l = us @ vs" "first_active qlib l (k + 1) = Some (k + 1 + length us)"
        "\<forall>u \<in> set us. \<not> shep_active (shepherds qlib ! u)" "vs \<noteq> [] \<longrightarrow> shep_active (shepherds qlib ! hd vs)"
      using Cons.IH [of "k + 1"] Cons.prems by auto
    then show ?thesis
      using False Cons.prems by (intro exI [of _ "x # us"] exI [of _ vs]) (simp add: is_active_def)
  qed
qed simp

text \<open>
  The alternatives at the same distance: the one chosen is least busy among them and no
  busier than the first. Whether it is active is not looked at.
\<close>

lemma equidistant_spec:
  assumes "\<forall>x \<in> set xs. x < length d" "d ! t = dist" "b = qlen t"
  shows "\<exists>t'. equidistant qlen coin d dist xs alt (b, t) = Some (qlen t', t') \<and> d ! t' = dist
    \<and> t' \<in> insert t (set xs) \<and> qlen t' \<le> b \<and> (\<forall>x \<in> set (takeWhile (\<lambda>x. d ! x = dist) xs). qlen t' \<le> qlen x)"
  using assms
proof (induction xs arbitrary: alt b t)
  case (Cons x xs)
  show ?case
  proof (cases "d ! x = dist")
    case True
    define t1 where "t1 = (if qlen x < b \<or> qlen x = b \<and> coin alt then x else t)"
    have step: "equidistant qlen coin d dist (x # xs) alt (b, t) = equidistant qlen coin d dist xs (alt + 1) (qlen t1, t1)"
      using True Cons.prems by (simp add: t1_def)
    have t1: "t1 \<in> {t, x}" "d ! t1 = dist" "qlen t1 \<le> b" "qlen t1 \<le> qlen x"
      using True Cons.prems by (auto simp: t1_def)
    obtain t' where "equidistant qlen coin d dist xs (alt + 1) (qlen t1, t1) = Some (qlen t', t')" "d ! t' = dist"
        "t' \<in> insert t1 (set xs)" "qlen t' \<le> qlen t1" "\<forall>x \<in> set (takeWhile (\<lambda>x. d ! x = dist) xs). qlen t' \<le> qlen x"
      using Cons.IH [of t1 "qlen t1" "alt + 1"] Cons.prems t1 by auto
    then show ?thesis
      unfolding step using t1 True by (intro exI [of _ t']) auto
  next
    case False
    then show ?thesis
      using Cons.prems by simp
  qed
qed simp

lemma sorted_takeWhile_eq:
  fixes d :: "'a::linorder list"
  assumes "sorted (map ((!) d) (y # ys))" "x \<in> set ys" "d ! x = d ! y"
  shows "x \<in> set (takeWhile (\<lambda>x. d ! x = d ! y) ys)"
  using assms
proof (induction ys)
  case (Cons z ys)
  then have "d ! z = d ! y"
    by (auto intro: antisym)
  then show ?case
    using Cons by auto
qed simp

lemma find_active_split:
  assumes "length l = nshepherds qlib - 1" "\<forall>x \<in> set l. x < nshepherds qlib" "length d = nshepherds qlib"
    and "a \<in> set l" "shep_active (shepherds qlib ! a)"
  shows "\<exists>us y ys t. l = us @ y # ys \<and> (\<forall>u \<in> set us. \<not> shep_active (shepherds qlib ! u))
    \<and> shep_active (shepherds qlib ! y) \<and> t \<in> insert y (set ys) \<and> d ! t = d ! y \<and> qlen t \<le> qlen y
    \<and> (\<forall>x \<in> set (takeWhile (\<lambda>x. d ! x = d ! y) ys). qlen t \<le> qlen x)
    \<and> qthread_find_active_shepherd qlen coin qlib (Some l) (Some d) = Some (Some t)"
proof -
  obtain us vs where l: "l = us @ vs" "first_active qlib l 0 = Some (length us)"
      "\<forall>u \<in> set us. \<not> shep_active (shepherds qlib ! u)" "vs \<noteq> [] \<longrightarrow> shep_active (shepherds qlib ! hd vs)"
    using first_active_spec [OF assms(2), of 0] by auto
  have "vs \<noteq> []"
    using assms(4,5) l by auto
  then obtain y ys where vs: "vs = y # ys"
    by (cases vs) auto
  obtain t where e: "equidistant qlen coin d (d ! y) ys (length us + 1) (qlen y, y) = Some (qlen t, t)" "d ! t = d ! y"
      "t \<in> insert y (set ys)" "qlen t \<le> qlen y" "\<forall>x \<in> set (takeWhile (\<lambda>x. d ! x = d ! y) ys). qlen t \<le> qlen x"
    using equidistant_spec [of ys d y "d ! y" "qlen y" qlen coin "length us + 1"] assms(2,3) l(1) vs by auto
  have "qthread_find_active_shepherd qlen coin qlib (Some l) (Some d) = Some (Some t)"
    using l vs e(1) assms(1-3) by (simp add: qthread_find_active_shepherd_def)
  then show ?thesis
    using l vs e by auto
qed

text \<open>The search along a list sorted by distance.\<close>

lemma find_active_sorted:
  fixes d :: "u32 list"
  assumes "length l = nshepherds qlib - 1" "\<forall>x \<in> set l. x < nshepherds qlib" "length d = nshepherds qlib"
    and srt: "sorted (map ((!) d) l)" and a: "a \<in> set l" "shep_active (shepherds qlib ! a)"
  shows "\<exists>t \<in> set l. \<exists>y \<in> set l. qthread_find_active_shepherd qlen coin qlib (Some l) (Some d) = Some (Some t)
    \<and> shep_active (shepherds qlib ! y) \<and> d ! y = d ! t
    \<and> (\<forall>x \<in> set l. shep_active (shepherds qlib ! x) \<longrightarrow> d ! t \<le> d ! x \<and> (d ! x = d ! t \<longrightarrow> qlen t \<le> qlen x))"
proof -
  obtain us y ys t where f: "l = us @ y # ys" "\<forall>u \<in> set us. \<not> shep_active (shepherds qlib ! u)"
      "shep_active (shepherds qlib ! y)" "t \<in> insert y (set ys)" "d ! t = d ! y" "qlen t \<le> qlen y"
      "\<forall>x \<in> set (takeWhile (\<lambda>x. d ! x = d ! y) ys). qlen t \<le> qlen x"
      "qthread_find_active_shepherd qlen coin qlib (Some l) (Some d) = Some (Some t)"
    using find_active_split [OF assms(1-3) a, of qlen coin] by blast
  have srt': "sorted (map ((!) d) (y # ys))"
    using srt f(1) by (simp add: sorted_append)
  have near: "d ! t \<le> d ! x \<and> (d ! x = d ! t \<longrightarrow> qlen t \<le> qlen x)" if x: "x \<in> set l" "shep_active (shepherds qlib ! x)" for x
    using x f(1,2) srt' f(5-7) sorted_takeWhile_eq [OF srt', of x] by auto
  show ?thesis
    using near f by (intro bexI [of _ t] bexI [of _ y]) auto
qed

lemma find_none_active:
  assumes "length l = nshepherds qlib - 1" "\<forall>x \<in> set l. x < nshepherds qlib \<and> \<not> shep_active (shepherds qlib ! x)"
  shows "qthread_find_active_shepherd qlen coin qlib (Some l) d = Some None"
proof -
  have "\<forall>x \<in> set l. x < nshepherds qlib"
    using assms(2) by blast
  then obtain us vs where l: "l = us @ vs" "first_active qlib l 0 = Some (length us)" "vs \<noteq> [] \<longrightarrow> shep_active (shepherds qlib ! hd vs)"
    using first_active_spec [of l qlib 0] by auto
  then have "vs = []"
    using assms(2) by (cases vs) auto
  then show ?thesis
    using l assms(1) by (simp add: qthread_find_active_shepherd_def)
qed

lemma others_facts [simp]: "set (others i n) = {..<n} - {i}" "i < n \<Longrightarrow> length (others i n) = n - 1"
proof -
  show s: "set (others i n) = {..<n} - {i}"
    by (auto simp: others_def)
  show "length (others i n) = n - 1" if "i < n"
    using distinct_card [of "others i n"] that unfolding s by (simp add: others_def)
qed

text \<open>
  C27. On the distances and lists that the library generates from the topology, the search for an active shepherd
  near shepherd \<open>i\<close> returns \<open>NULL\<close> exactly when no other shepherd is active. Otherwise it ends with another
  shepherd at the least distance at which there is an active one, and no active shepherd at that distance has a
  shorter ready queue. The random numbers only decide among those. (The shepherd returned need not itself be active
  when another one at the same distance is.)
\<close>

theorem nearest_active_shepherd:
  assumes "i < nshepherds qlib" "1 < nshepherds qlib"
    and q_def: "q = gendists_numa numa_distance rnd qlib" and dist_def: "dist = numa_dist numa_distance qlib i"
    and near_def: "others_active = {x. x < nshepherds qlib \<and> x \<noteq> i \<and> shep_active (shepherds qlib ! x)}"
    and result_def: "result = qthread_find_active_shepherd qlen coin q (sorted_sheplist (shepherds q ! i)) (shep_dists (shepherds q ! i))"
  shows "if others_active = {} then result = Some None
    else \<exists>t < nshepherds qlib. t \<noteq> i \<and> result = Some (Some t) \<and> dist t \<in> dist ` others_active
      \<and> (\<forall>x \<in> others_active. dist t \<le> dist x \<and> (dist x = dist t \<longrightarrow> qlen t \<le> qlen x))"
proof -
  let ?n = "nshepherds qlib"
  define d where "d = map (numa_dist numa_distance qlib i) [0..<?n]"
  have d: "length d = ?n" "\<And>x. x < ?n \<Longrightarrow> d ! x = dist x"
    by (auto simp: d_def dist_def)
  have "length (others i ?n) \<noteq> 0"
    using assms(1,2) by simp
  then have ne: "others i ?n \<noteq> []"
    by blast
  obtain l where l: "sort_sheps (rnd i) 0 d (others i ?n) = Some l" "mset l = mset (others i ?n)" "sorted (map ((!) d) l)"
    using sort_sheps_ok [OF ne, of d "rnd i" 0] d(1) by auto
  have sl: "set l = {..<?n} - {i}" "length l = ?n - 1"
    using mset_eq_setD [OF l(2)] mset_eq_length [OF l(2)] assms(1) by simp_all
  have q: "length (shepherds q) = ?n" "sorted_sheplist (shepherds q ! i) = Some l" "shep_dists (shepherds q ! i) = Some d"
      "\<And>x. x < ?n \<Longrightarrow> shep_active (shepherds q ! x) = shep_active (shepherds qlib ! x)"
    using assms(1,2) l(1) unfolding q_def gendists_numa_def Let_def d_def by simp_all
  have find: "result = qthread_find_active_shepherd qlen coin q (Some l) (Some d)"
    by (simp add: result_def q(2,3))
  have mem: "x \<in> others_active \<longleftrightarrow> x \<in> set l \<and> shep_active (shepherds q ! x)" for x
    using sl(1) q(4) by (auto simp: near_def)
  have shape: "length l = nshepherds q - 1" "\<forall>x \<in> set l. x < nshepherds q" "length d = nshepherds q"
    using sl q(1) d(1) by auto
  show ?thesis
  proof (cases "others_active = {}")
    case True
    then show ?thesis
      using find_none_active [OF shape(1), of qlen coin "Some d"] shape(2) mem find by auto
  next
    case False
    then obtain a where "a \<in> set l" "shep_active (shepherds q ! a)"
      using mem by blast
    from find_active_sorted [OF shape l(3) this, of qlen coin] obtain t y where t: "t \<in> set l" "y \<in> set l"
        "result = Some (Some t)" "shep_active (shepherds q ! y)" "d ! y = d ! t"
        "\<forall>x \<in> set l. shep_active (shepherds q ! x) \<longrightarrow> d ! t \<le> d ! x \<and> (d ! x = d ! t \<longrightarrow> qlen t \<le> qlen x)"
      unfolding find by blast
    have "dist t = dist y" "y \<in> others_active"
      using t mem sl(1) d(2) by auto
    then have "dist t \<in> dist ` others_active"
      by simp
    moreover have "dist t \<le> dist x \<and> (dist x = dist t \<longrightarrow> qlen t \<le> qlen x)" if "x \<in> others_active" for x
      using that t(1,6) mem sl(1) d(2) by auto
    ultimately show ?thesis
      using False t(1,3) sl(1) by auto
  qed
qed

text \<open>Three shepherds at the same distance, the last one disabled and idle: the thread is sent to it.\<close>

definition three_sheps :: qlib_s where
  "three_sheps = \<lparr>shepherds = map (\<lambda>a. \<lparr>shep_active = a, shep_node = QTHREAD_NO_NODE, sorted_sheplist = None,
       shep_dists = None, worker_active = [a]\<rparr>) [True, True, False],
     nshepherds_active = 2, nworkerspershep = 1, nworkers_active = 2\<rparr>"

theorem nearest_active_shepherd_witness:
  "qthread_find_active_shepherd (\<lambda>_. 0) (\<lambda>_. False) (gendists_numa (\<lambda>_ _. 10) (\<lambda>_ _. 0) three_sheps)
      (sorted_sheplist (shepherds (gendists_numa (\<lambda>_ _. 10) (\<lambda>_ _. 0) three_sheps) ! 1))
      (shep_dists (shepherds (gendists_numa (\<lambda>_ _. 10) (\<lambda>_ _. 0) three_sheps) ! 1)) \<in> {Some (Some 0), Some (Some 2)}"
proof -
  let ?q = "gendists_numa (\<lambda>_ _. 10) (\<lambda>_ _. 0) three_sheps"
  have n: "nshepherds three_sheps = 3" "shep_active (shepherds three_sheps ! 0)"
    by (simp_all add: three_sheps_def)
  have "(1 :: nat) < nshepherds three_sheps"
    using n(1) by simp
  from nearest_active_shepherd [OF this this refl refl refl refl, where numa_distance = "\<lambda>_ _. 10"
      and rnd = "\<lambda>_ _. 0" and qlen = "\<lambda>_. 0" and coin = "\<lambda>_. False"] n(2)
  obtain t where "t < 3" "t \<noteq> 1" "qthread_find_active_shepherd (\<lambda>_. 0) (\<lambda>_. False) ?q
      (sorted_sheplist (shepherds ?q ! 1)) (shep_dists (shepherds ?q ! 1)) = Some (Some t)"
    unfolding n(1) by (fastforce split: if_splits)
  moreover have "t = 0 \<or> t = 2"
    using calculation(1,2) by linarith
  ultimately show ?thesis
    by auto
qed

lemma find_active_returns_disabled:
  "qthread_find_active_shepherd (\<lambda>sh. if sh = 2 then 0 else 5) (\<lambda>_. False) three_sheps (Some [1, 2]) (Some [0, 20, 20])
    = Some (Some 2) \<and> \<not> shep_active (shepherds three_sheps ! 2)"
  by (simp add: qthread_find_active_shepherd_def three_sheps_def is_active_def)

section \<open>Distances\<close>

text \<open>
  The distance to a shepherd with a higher id is that to its predecessor: \<open>qthread_distance\<close> reads the array
  as if it left out the shepherd itself, but every module generates it with an entry for each shepherd. The
  distance to the next shepherd is the one of the shepherd to itself.
\<close>

lemma distance_off_by_one:
  assumes "i < j" "j < nshepherds qlib"
  shows "qthread_distance (gendists_numa numa_distance rnd qlib) i j = Some (numa_dist numa_distance qlib i (j - 1))
    \<and> qthread_distance (gendists_flat rnd qlib) i j = Some (if j = i + 1 then 0 else 10)"
  using assms by (auto simp: qthread_distance_def gendists_numa_def gendists_flat_def Let_def)

section \<open>Walking over the shepherds\<close>

lemma shep_next_prev:
  assumes "unat sh < nshepherds qlib" "nshepherds qlib < 65535"
  shows "\<exists>x. qthread_shep_next qlib sh = Some x \<and> unat x < nshepherds qlib \<and> qthread_shep_prev qlib x = Some sh"
proof -
  have m: "unat NO_SHEPHERD = 65535"
    by (simp add: NO_SHEPHERD_def unsigned_minus_1_eq_mask mask_eq_exp_minus_1)
  then have ne: "sh \<noteq> NO_SHEPHERD" "0 \<noteq> NO_SHEPHERD"
    using assms by (auto simp: NO_SHEPHERD_def)
  define x where "x = sh + 1"
  have "unat sh + 1 < 2 ^ 16"
    using assms by simp
  then have x: "unat x = unat sh + 1" "x - 1 = sh"
    by (simp_all add: x_def unat_word_ariths take_bit_nat_eq_self)
  have nx: "qthread_shep_next qlib sh = Some (if unat x < nshepherds qlib then x else 0)"
    using ne(1) by (simp add: qthread_shep_next_def x_def [symmetric])
  show ?thesis
  proof (cases "unat x < nshepherds qlib")
    case True
    have "x \<noteq> NO_SHEPHERD" "x \<noteq> 0"
      using m x(1) True assms(2) by (metis less_irrefl less_trans, metis One_nat_def add_is_0 unat_0 zero_neq_one)
    then show ?thesis
      using nx True x(2) by (simp add: qthread_shep_prev_def)
  next
    case False
    then have "nshepherds qlib - 1 = unat sh"
      using x(1) assms(1) by simp
    then have "of_nat (nshepherds qlib - 1) = sh"
      by simp
    moreover have "0 < nshepherds qlib"
      using assms(1) by (rule le_less_trans [OF le0])
    ultimately show ?thesis
      using nx False ne(2) unfolding qthread_shep_prev_def by (intro exI [of _ 0]) (simp del: of_nat_diff)
  qed
qed

text \<open>Shepherd 0 stays active, so that an active shepherd always exists.\<close>

lemma shep0_stays_active:
  assumes "0 < nshepherds qlib" "shep_active (shepherds qlib ! 0)"
  shows "qthread_disable_shepherd qlib sh = Some (q, r) \<Longrightarrow> shep_active (shepherds q ! 0) \<and> nshepherds q = nshepherds qlib"
    and "qthread_disable_worker qlib w = Some (q, r) \<Longrightarrow> shep_active (shepherds q ! 0) \<and> nshepherds q = nshepherds qlib"
  using assms
  by (auto simp: qthread_disable_shepherd_def qthread_disable_worker_def set_shep_def Let_def nth_list_update split: if_splits)

text \<open>Disabling a shepherd a second time decrements the counter again.\<close>

lemma disable_twice_counts_twice:
  assumes "0 < sh" "sh < nshepherds qlib"
  shows "\<exists>q1 q2. qthread_disable_shepherd qlib sh = Some (q1, QTHREAD_SUCCESS)
    \<and> qthread_disable_shepherd q1 sh = Some (q2, QTHREAD_SUCCESS) \<and> shepherds q2 = shepherds q1
    \<and> nshepherds_active q2 = nshepherds_active qlib - 2"
  using assms by (auto simp: qthread_disable_shepherd_def set_shep_def)

end
