(* ===== verification/Qthread.thy ===== *)
theory Qthread
  imports Tqueue Shepherds Syncvar
begin

text \<open>
  Threads and workers (\<open>qthread.c\<close>): creating and freeing a thread, forking, yielding, migrating, the delivery of
  the return value, task-local storage and thread ids, and the body of the loop in which a worker fetches a
  thread, runs it and files it away according to its state.

  The threads, the memory and the ready queues are those of the synchronisation layers. The structure of an
  allocated thread that is not in \<open>qthread\<close> is a \<open>tstruct\<close>; a thread without one is freed, and an access to it is
  \<open>None\<close>. The code that a thread runs between two calls of the library is arbitrary. Contexts, stacks (beyond
  their existence), resource limits, teams and profiling are left out, so a spawn into a new team is outside of
  the model.
\<close>

section \<open>State\<close>

definition QTHREAD_RET_IS_SYNCVAR :: "16 word" where "QTHREAD_RET_IS_SYNCVAR = push_bit 2 1"
definition QTHREAD_RET_IS_SINC :: "16 word" where "QTHREAD_RET_IS_SINC = push_bit 3 1"
definition QTHREAD_RET_IS_VOID_SINC :: "16 word" where "QTHREAD_RET_IS_VOID_SINC = push_bit 3 1 OR push_bit 2 1"
definition QTHREAD_SIMPLE :: "16 word" where "QTHREAD_SIMPLE = push_bit 5 1"
definition QTHREAD_HAS_ARGCOPY :: "16 word" where "QTHREAD_HAS_ARGCOPY = push_bit 6 1"
definition QTHREAD_BIG_STRUCT :: "16 word" where "QTHREAD_BIG_STRUCT = push_bit 9 1"
definition QTHREAD_AGGREGATED :: "16 word" where "QTHREAD_AGGREGATED = push_bit 11 1"

definition QTHREAD_SPAWN_SIMPLE :: u32 where "QTHREAD_SPAWN_SIMPLE = push_bit 1 1"
definition QTHREAD_SPAWN_NEW_TEAM :: u32 where "QTHREAD_SPAWN_NEW_TEAM = push_bit 2 1"
definition QTHREAD_SPAWN_NEW_SUBTEAM :: u32 where "QTHREAD_SPAWN_NEW_SUBTEAM = push_bit 3 1"
definition QTHREAD_SPAWN_RET_SYNCVAR_T :: u32 where "QTHREAD_SPAWN_RET_SYNCVAR_T = push_bit 4 1"
definition QTHREAD_SPAWN_RET_SINC :: u32 where "QTHREAD_SPAWN_RET_SINC = push_bit 5 1"
definition QTHREAD_SPAWN_RET_SINC_VOID :: u32 where "QTHREAD_SPAWN_RET_SINC_VOID = push_bit 6 1"

definition QTHREAD_NULL_TASK_ID :: u32 where "QTHREAD_NULL_TASK_ID = - 1"
definition QTHREAD_NON_TASK_ID :: u32 where "QTHREAD_NON_TASK_ID = 0"

abbreviation simple :: "qthread \<Rightarrow> bool" where
  "simple th \<equiv> flags th AND QTHREAD_SIMPLE \<noteq> 0"

text \<open>The thread that called \<open>qthread_initialize\<close>: it has neither a function nor a stack of the library.\<close>

abbreviation mccoy :: "qthread \<Rightarrow> bool" where
  "mccoy th \<equiv> flags th AND QTHREAD_REAL_MCCOY \<noteq> 0"

text \<open>Where the argument is: at the caller's pointer, copied into the structure, or copied to the heap. \<open>tl_data\<close>
  is the task-local storage.\<close>

datatype arg_loc = ArgPtr u64 | ArgInline "u8 list" | ArgHeap "u8 list"

record rdata_s =
  has_stack :: bool
  tasklocal_size :: nat

record tstruct =
  tfun :: u64
  targ :: arg_loc
  rdata :: "rdata_s option"
  thread_id :: u32
  tl_data :: "u8 list"

record 'q rt =
  feb :: "'q feb_state"
  svstore :: rec_store
  structs :: "tid \<Rightarrow> tstruct option"
  qlib :: qlib_s
  qthread_argcopy_size :: nat
  qthread_tasklocal_size :: nat
  max_thread_id :: u64
  user_queues :: "(qthread_queue \<times> tq_heap) list"
  node_alloc :: "tq_heap \<Rightarrow> nat"
  io_queue :: "tid list"

text \<open>
  The scheduler that was configured: the operations of the synchronisation layers, the insertion of a thread that
  yielded, one attempt to get a thread, the cache's variant of yielding, the shepherd on which a new thread starts.
\<close>

record 'q loop_ops =
  sched :: "'q sched_ops"
  enqueue_yielded :: "shep_id \<Rightarrow> tid \<Rightarrow> 16 word \<Rightarrow> 'q \<Rightarrow> 'q option"
  get_thread :: "(tid \<Rightarrow> 16 word) \<Rightarrow> shep_id \<Rightarrow> nat \<Rightarrow> bool \<Rightarrow> 'q \<Rightarrow> ('q \<times> tid option) option"
  spawncache_yield :: "tid \<Rightarrow> 16 word \<Rightarrow> 'q \<Rightarrow> ('q \<times> bool) option"
  choose_dest :: "shep_id option \<Rightarrow> shep_id"

abbreviation th :: "'q rt \<Rightarrow> tid \<Rightarrow> qthread" where
  "th s t \<equiv> threads (feb s) t"

definition set_th :: "tid \<Rightarrow> (qthread \<Rightarrow> qthread) \<Rightarrow> 'q rt \<Rightarrow> 'q rt" where
  "set_th t f s = s\<lparr>feb := upd_thread t f (feb s)\<rparr>"

definition set_ready :: "'q \<Rightarrow> 'q rt \<Rightarrow> 'q rt" where
  "set_ready q s = s\<lparr>feb := (feb s)\<lparr>ready := q\<rparr>\<rparr>"

definition set_struct :: "tid \<Rightarrow> tstruct \<Rightarrow> 'q rt \<Rightarrow> 'q rt" where
  "set_struct t i s = s\<lparr>structs := (structs s)(t \<mapsto> i)\<rparr>"

definition enq :: "'q sched_ops \<Rightarrow> shep_id \<Rightarrow> tid \<Rightarrow> 'q rt \<Rightarrow> 'q rt option" where
  "enq ops sh t s =
     do { q \<leftarrow> tq_enqueue ops sh t (flags (th s t)) (ready (feb s)); Some (set_ready q s) }"

text \<open>The syncvar layer works on the same memory, threads and ready queues.\<close>

definition sv_of :: "'q rt \<Rightarrow> 'q sv_state" where
  "sv_of s = \<lparr>sv_initialized = lib_initialized (feb s), store = svstore s, smem = mem (feb s),
              sthreads = threads (feb s), sready = ready (feb s)\<rparr>"

definition with_sv :: "'q rt \<Rightarrow> 'q sv_state \<Rightarrow> 'q rt" where
  "with_sv s v = s\<lparr>feb := (feb s)\<lparr>mem := smem v, threads := sthreads v, ready := sready v\<rparr>, svstore := store v\<rparr>"

section \<open>Creating and freeing a thread\<close>

definition alloc_rdata :: "shep_id \<Rightarrow> tid \<Rightarrow> 'q rt \<Rightarrow> 'q rt option" where
  "alloc_rdata me t s =
     do { i \<leftarrow> structs s t;
          Some (set_th t (\<lambda>x. x\<lparr>shepherd_ptr := me, blockedon := 0\<rparr>)
                  (set_struct t (i\<lparr>rdata := Some \<lparr>has_stack = \<not> simple (th s t), tasklocal_size = 0\<rparr>\<rparr>) s)) }"

text \<open>\<open>t\<close> is the new structure; \<open>bytes\<close> is what the argument points to (of length \<open>arg_size\<close>), and \<open>junk\<close> what the
  storage of a new structure holds.\<close>

definition qthread_thread_new :: "tid \<Rightarrow> u64 \<Rightarrow> u64 \<Rightarrow> u8 list \<Rightarrow> u64 \<Rightarrow> u8 list \<Rightarrow> 'q rt \<Rightarrow> 'q rt" where
  "qthread_thread_new t f arg bytes ret junk s =
     (let small = 0 < length bytes \<and> length bytes \<le> qthread_argcopy_size s;
          loc = (if 0 < length bytes then (if small then ArgInline bytes else ArgHeap bytes) else ArgPtr arg);
          fl = (if 0 < length bytes then (if small then QTHREAD_BIG_STRUCT else QTHREAD_HAS_ARGCOPY) else 0)
      in set_th t (\<lambda>_. \<lparr>thread_state = NEW, flags = fl, target_shepherd = None, shepherd_ptr = 0, preconds = None,
                        blockedon = 0, tret = ret\<rparr>)
           (set_struct t \<lparr>tfun = f, targ = loc, rdata = None, thread_id = QTHREAD_NON_TASK_ID, tl_data = junk\<rparr> s))"

definition qthread_thread_free :: "tid \<Rightarrow> 'q rt \<Rightarrow> 'q rt option" where
  "qthread_thread_free t s =
     do {
       i \<leftarrow> structs s t;
       (case rdata i of None \<Rightarrow> Some () | Some r \<Rightarrow> c_assert (simple (th s t) \<or> has_stack r));
       c_assert (flags (th s t) AND QTHREAD_HAS_ARGCOPY = 0 \<or> (case targ i of ArgHeap _ \<Rightarrow> True | _ \<Rightarrow> False));
       Some (s\<lparr>structs := (structs s)(t := None)\<rparr>)
     }"

section \<open>Forking\<close>

text \<open>Step 4 of \<open>qthread_spawn\<close>: the location of the return value is made empty. A caller outside of a qthread has
  this done by a helper thread, which is not modelled.\<close>

definition prepare_ret :: "'q sched_ops \<Rightarrow> shep_id option \<Rightarrow> u64 \<Rightarrow> tid \<Rightarrow> u64 \<Rightarrow> u32 \<Rightarrow> 'q rt \<Rightarrow> ('q rt \<times> int) option" where
  "prepare_ret ops myshep newp t ret feature s =
     (let ret_type = feature AND (QTHREAD_SPAWN_RET_SYNCVAR_T OR QTHREAD_SPAWN_RET_SINC OR QTHREAD_SPAWN_RET_SINC_VOID);
          set_flag = (\<lambda>fl. set_th t (\<lambda>x. x\<lparr>flags := flags x OR fl\<rparr>) s)
      in if ret_type = QTHREAD_SPAWN_RET_SYNCVAR_T then
           (let s = set_flag QTHREAD_RET_IS_SYNCVAR
            in do {
              (v, full) \<leftarrow> qthread_syncvar_status ret (sv_of s);
              if full \<noteq> 0 then do {
                (v, out) \<leftarrow> qthread_syncvar_empty ops myshep ret v;
                case out of SvRet c \<Rightarrow> Some (with_sv s v, c) | _ \<Rightarrow> None
              } else Some (with_sv s v, QTHREAD_SUCCESS)
            })
         else if ret_type = QTHREAD_SPAWN_RET_SINC then Some (set_flag QTHREAD_RET_IS_SINC, QTHREAD_SUCCESS)
         else if ret_type = QTHREAD_SPAWN_RET_SINC_VOID then Some (set_flag QTHREAD_RET_IS_VOID_SINC, QTHREAD_SUCCESS)
         else do {
           (f, out) \<leftarrow> qthread_empty ops myshep newp ret (feb s);
           case out of Ret c \<Rightarrow> Some (s\<lparr>feb := f\<rparr>, c) | _ \<Rightarrow> None
         })"

text \<open>\<open>me\<close> is the calling qthread, \<open>t\<close> the new structure, \<open>newp\<close> the record that \<open>qthread_empty\<close> allocates, \<open>pre\<close> the
  addresses of the preconditions.\<close>

definition qthread_spawn :: "'q loop_ops \<Rightarrow> tid option \<Rightarrow> tid \<Rightarrow> u64 \<Rightarrow> u8 list \<Rightarrow> u64 \<Rightarrow> u64 \<Rightarrow> u8 list \<Rightarrow> u64
    \<Rightarrow> u64 list option \<Rightarrow> shep_id option \<Rightarrow> u32 \<Rightarrow> 'q rt \<Rightarrow> ('q rt \<times> int) option" where
  "qthread_spawn ops me t newp junk f arg bytes ret pre target feature s =
     do {
       c_assert (lib_initialized (feb s));
       c_assert (feature AND (QTHREAD_SPAWN_NEW_TEAM OR QTHREAD_SPAWN_NEW_SUBTEAM) = 0);
       (case me of None \<Rightarrow> Some () | Some m \<Rightarrow> do { i \<leftarrow> structs s m; c_assert (rdata i \<noteq> None) });
       let myshep = map_option (\<lambda>m. shepherd_ptr (th s m)) me;
       let dest = (case target of Some d \<Rightarrow> d mod nshepherds (qlib s) | None \<Rightarrow> choose_dest ops myshep);
       let s = qthread_thread_new t f arg bytes ret junk s;
       let s = (if target \<noteq> None
                then set_th t (\<lambda>x. x\<lparr>target_shepherd := Some dest, flags := flags x OR QTHREAD_UNSTEALABLE\<rparr>) s else s);
       let s = (case pre of Some ps \<Rightarrow> set_th t (\<lambda>x. x\<lparr>thread_state := NASCENT, preconds := Some ps\<rparr>) s | None \<Rightarrow> s);
       let s = (if feature AND QTHREAD_SPAWN_SIMPLE \<noteq> 0 then set_th t (\<lambda>x. x\<lparr>flags := flags x OR QTHREAD_SIMPLE\<rparr>) s else s);
       (s, test) \<leftarrow> (if ret \<noteq> 0 then prepare_ret (sched ops) myshep newp t ret feature s else Some (s, QTHREAD_SUCCESS));
       if test \<noteq> QTHREAD_SUCCESS then do { s \<leftarrow> qthread_thread_free t s; Some (s, test) }
       else do {
         (s, again) \<leftarrow> (if pre = None then Some (s, False)
                        else do { (f, again) \<leftarrow> qthread_check_feb_preconds t (feb s); Some (s\<lparr>feb := f\<rparr>, again) });
         s \<leftarrow> (if again then Some s
               else if target = None
               then do { q \<leftarrow> spawn_or_enqueue (sched ops) dest t (flags (th s t)) (ready (feb s)); Some (set_ready q s) }
               else enq (sched ops) dest t s);
         Some (s, QTHREAD_SUCCESS)
       }
     }"

text \<open>The variants of \<open>qthread_fork\<close>.\<close>

definition clip :: "'q rt \<Rightarrow> shep_id option \<Rightarrow> shep_id option" where
  "clip s shepherd = map_option (\<lambda>d. if d \<ge> nshepherds (qlib s) then d mod nshepherds (qlib s) else d) shepherd"

definition qthread_fork :: "'q loop_ops \<Rightarrow> tid option \<Rightarrow> tid \<Rightarrow> u64 \<Rightarrow> u8 list \<Rightarrow> u64 \<Rightarrow> u64 \<Rightarrow> u64 \<Rightarrow> 'q rt \<Rightarrow> ('q rt \<times> int) option" where
  "qthread_fork ops me t newp junk f arg ret s = qthread_spawn ops me t newp junk f arg [] ret None None 0 s"

definition qthread_fork_to :: "'q loop_ops \<Rightarrow> tid option \<Rightarrow> tid \<Rightarrow> u64 \<Rightarrow> u8 list \<Rightarrow> u64 \<Rightarrow> u64 \<Rightarrow> u64 \<Rightarrow> shep_id option \<Rightarrow> 'q rt
    \<Rightarrow> ('q rt \<times> int) option" where
  "qthread_fork_to ops me t newp junk f arg ret shepherd s =
     qthread_spawn ops me t newp junk f arg [] ret None (clip s shepherd) 0 s"

definition qthread_fork_copyargs :: "'q loop_ops \<Rightarrow> tid option \<Rightarrow> tid \<Rightarrow> u64 \<Rightarrow> u8 list \<Rightarrow> u64 \<Rightarrow> u64 \<Rightarrow> u8 list \<Rightarrow> u64 \<Rightarrow> 'q rt
    \<Rightarrow> ('q rt \<times> int) option" where
  "qthread_fork_copyargs ops me t newp junk f arg bytes ret s =
     qthread_spawn ops me t newp junk f arg bytes ret None None 0 s"

definition qthread_fork_copyargs_to :: "'q loop_ops \<Rightarrow> tid option \<Rightarrow> tid \<Rightarrow> u64 \<Rightarrow> u8 list \<Rightarrow> u64 \<Rightarrow> u64 \<Rightarrow> u8 list \<Rightarrow> u64
    \<Rightarrow> shep_id option \<Rightarrow> 'q rt \<Rightarrow> ('q rt \<times> int) option" where
  "qthread_fork_copyargs_to ops me t newp junk f arg bytes ret preferred_shep s =
     qthread_spawn ops me t newp junk f arg bytes ret None preferred_shep 0 s"

definition qthread_fork_syncvar :: "'q loop_ops \<Rightarrow> tid option \<Rightarrow> tid \<Rightarrow> u64 \<Rightarrow> u8 list \<Rightarrow> u64 \<Rightarrow> u64 \<Rightarrow> u64 \<Rightarrow> 'q rt
    \<Rightarrow> ('q rt \<times> int) option" where
  "qthread_fork_syncvar ops me t newp junk f arg ret s =
     qthread_spawn ops me t newp junk f arg [] ret None None QTHREAD_SPAWN_RET_SYNCVAR_T s"

definition qthread_fork_syncvar_copyargs :: "'q loop_ops \<Rightarrow> tid option \<Rightarrow> tid \<Rightarrow> u64 \<Rightarrow> u8 list \<Rightarrow> u64 \<Rightarrow> u64 \<Rightarrow> u8 list \<Rightarrow> u64 \<Rightarrow> 'q rt
    \<Rightarrow> ('q rt \<times> int) option" where
  "qthread_fork_syncvar_copyargs ops me t newp junk f arg bytes ret s =
     qthread_spawn ops me t newp junk f arg bytes ret None None QTHREAD_SPAWN_RET_SYNCVAR_T s"

definition qthread_fork_syncvar_copyargs_simple :: "'q loop_ops \<Rightarrow> tid option \<Rightarrow> tid \<Rightarrow> u64 \<Rightarrow> u8 list \<Rightarrow> u64 \<Rightarrow> u64 \<Rightarrow> u8 list \<Rightarrow> u64
    \<Rightarrow> 'q rt \<Rightarrow> ('q rt \<times> int) option" where
  "qthread_fork_syncvar_copyargs_simple ops me t newp junk f arg bytes ret s =
     qthread_spawn ops me t newp junk f arg bytes ret None None (QTHREAD_SPAWN_SIMPLE OR QTHREAD_SPAWN_RET_SYNCVAR_T) s"

definition qthread_fork_syncvar_to :: "'q loop_ops \<Rightarrow> tid option \<Rightarrow> tid \<Rightarrow> u64 \<Rightarrow> u8 list \<Rightarrow> u64 \<Rightarrow> u64 \<Rightarrow> u64 \<Rightarrow> shep_id option \<Rightarrow> 'q rt
    \<Rightarrow> ('q rt \<times> int) option" where
  "qthread_fork_syncvar_to ops me t newp junk f arg ret shepherd s =
     qthread_spawn ops me t newp junk f arg [] ret None (clip s shepherd) QTHREAD_SPAWN_RET_SYNCVAR_T s"

text \<open>The preconditions are given one by one or as an array; without any there is no array.\<close>

definition precond_array :: "u64 list \<Rightarrow> u64 list option" where
  "precond_array ps = (if ps = [] then None else Some ps)"

definition qthread_fork_precond :: "'q loop_ops \<Rightarrow> tid option \<Rightarrow> tid \<Rightarrow> u64 \<Rightarrow> u8 list \<Rightarrow> u64 \<Rightarrow> u64 \<Rightarrow> u64 \<Rightarrow> u64 list \<Rightarrow> 'q rt
    \<Rightarrow> ('q rt \<times> int) option" where
  "qthread_fork_precond ops me t newp junk f arg ret ps s =
     qthread_spawn ops me t newp junk f arg [] ret (precond_array ps) None 0 s"

definition qthread_fork_precond_simple :: "'q loop_ops \<Rightarrow> tid option \<Rightarrow> tid \<Rightarrow> u64 \<Rightarrow> u8 list \<Rightarrow> u64 \<Rightarrow> u64 \<Rightarrow> u64 \<Rightarrow> u64 list \<Rightarrow> 'q rt
    \<Rightarrow> ('q rt \<times> int) option" where
  "qthread_fork_precond_simple ops me t newp junk f arg ret ps s =
     qthread_spawn ops me t newp junk f arg [] ret (precond_array ps) None QTHREAD_SPAWN_SIMPLE s"

definition qthread_fork_precond_to :: "'q loop_ops \<Rightarrow> tid option \<Rightarrow> tid \<Rightarrow> u64 \<Rightarrow> u8 list \<Rightarrow> u64 \<Rightarrow> u64 \<Rightarrow> u64 \<Rightarrow> shep_id option
    \<Rightarrow> u64 list \<Rightarrow> 'q rt \<Rightarrow> ('q rt \<times> int) option" where
  "qthread_fork_precond_to ops me t newp junk f arg ret shepherd ps s =
     qthread_spawn ops me t newp junk f arg [] ret (precond_array ps) (clip s shepherd) 0 s"

definition qthread_fork_copyargs_precond :: "'q loop_ops \<Rightarrow> tid option \<Rightarrow> tid \<Rightarrow> u64 \<Rightarrow> u8 list \<Rightarrow> u64 \<Rightarrow> u64 \<Rightarrow> u8 list \<Rightarrow> u64
    \<Rightarrow> u64 list \<Rightarrow> 'q rt \<Rightarrow> ('q rt \<times> int) option" where
  "qthread_fork_copyargs_precond ops me t newp junk f arg bytes ret ps s =
     qthread_spawn ops me t newp junk f arg bytes ret (precond_array ps) None QTHREAD_SPAWN_RET_SYNCVAR_T s"

section \<open>The calls of a running thread that lead back to its worker\<close>

text \<open>\<open>qthread_back_to_master\<close>: a simple thread has no stack of its own to leave.\<close>

definition qthread_back_to_master :: "tid \<Rightarrow> 'q rt \<Rightarrow> 'q rt option" where
  "qthread_back_to_master t s = do { c_assert (\<not> simple (th s t)); Some s }"

text \<open>Yielding with \<open>k = 0\<close> (general) and \<open>k = 1\<close> (near); the direct swap of \<open>k = 2\<close> is not modelled, and without a
  thread on deck it is a general yield.\<close>

definition qthread_yield :: "nat \<Rightarrow> tid \<Rightarrow> 'q rt \<Rightarrow> 'q rt option" where
  "qthread_yield k t s =
     qthread_back_to_master t (set_th t (\<lambda>x. x\<lparr>thread_state := (if k = 1 then YIELDED_NEAR else YIELDED)\<rparr>) s)"

text \<open>The result tells whether the thread left its worker.\<close>

definition qthread_migrate_to :: "tid \<Rightarrow> shep_id option \<Rightarrow> 'q rt \<Rightarrow> ('q rt \<times> int \<times> bool) option" where
  "qthread_migrate_to me shepherd s =
     (let x = th s me
      in if flags x AND QTHREAD_REAL_MCCOY \<noteq> 0 then Some (s, QTHREAD_NOT_ALLOWED, False)
         else if shepherd = Some (shepherd_ptr x) then
           Some (set_th me (\<lambda>x. x\<lparr>target_shepherd := shepherd, flags := flags x OR QTHREAD_UNSTEALABLE\<rparr>) s, QTHREAD_SUCCESS, False)
         else case shepherd of
           None \<Rightarrow> Some (set_th me (\<lambda>x. x\<lparr>target_shepherd := None, flags := flags x AND NOT QTHREAD_UNSTEALABLE\<rparr>) s,
                          QTHREAD_SUCCESS, False)
         | Some d \<Rightarrow>
             if d < nshepherds (qlib s) then do {
               s \<leftarrow> qthread_back_to_master me (set_th me (\<lambda>x. x\<lparr>target_shepherd := Some d, thread_state := MIGRATING,
                       flags := flags x OR QTHREAD_UNSTEALABLE\<rparr>) s);
               Some (s, QTHREAD_SUCCESS, True)
             } else Some (s, QTHREAD_BADARGS, False))"

definition qthread_queue_join :: "nat \<Rightarrow> tid \<Rightarrow> 'q rt \<Rightarrow> 'q rt option" where
  "qthread_queue_join q me s =
     qthread_back_to_master me (set_th me (\<lambda>x. x\<lparr>thread_state := QUEUE, blockedon := of_nat q\<rparr>) s)"

section \<open>The end of a thread\<close>

text \<open>What \<open>qthread_wrapper\<close> and \<open>qthread_call_method\<close> do with the value that the function returned.\<close>

datatype ret_action = NoReturn | SincSubmit "u64 option" | SyncvarWriteEF u64 | WriteEF u64

definition qthread_call_method :: "u64 \<Rightarrow> u64 \<Rightarrow> 16 word \<Rightarrow> ret_action" where
  "qthread_call_method ret retval fl =
     (if ret \<noteq> 0 then
        (if fl AND QTHREAD_RET_IS_SINC \<noteq> 0 then
           (if fl AND QTHREAD_RET_IS_VOID_SINC \<noteq> 0 then SincSubmit None else SincSubmit (Some retval))
         else if fl AND QTHREAD_RET_IS_SYNCVAR \<noteq> 0 then SyncvarWriteEF (INT64TOINT60 retval)
         else WriteEF retval)
      else NoReturn)"

definition qthread_default_agg_f :: "(u64 \<times> u64) list \<Rightarrow> 16 word \<Rightarrow> ret_action list" where
  "qthread_default_agg_f calls fl = map (\<lambda>(ret, retval). qthread_call_method ret retval fl) (rev calls)"

text \<open>An aggregated task runs its functions (here with the default aggregation); the thread then is terminated.\<close>

definition wrapper_returns :: "16 word \<Rightarrow> u64 \<Rightarrow> u64 \<Rightarrow> (u64 \<times> u64) list \<Rightarrow> ret_action list" where
  "wrapper_returns fl ret retval agg =
     (if fl AND QTHREAD_AGGREGATED \<noteq> 0 then qthread_default_agg_f agg fl
      else if ret \<noteq> 0 then
        [if fl AND QTHREAD_RET_IS_SINC \<noteq> 0 then
           (if fl AND QTHREAD_RET_IS_VOID_SINC \<noteq> 0 then SincSubmit None else SincSubmit (Some retval))
         else if fl AND QTHREAD_RET_IS_SYNCVAR \<noteq> 0 then SyncvarWriteEF (INT64TOINT60 retval)
         else WriteEF retval]
      else [])"

definition wrapper_terminates :: "tid \<Rightarrow> 'q rt \<Rightarrow> 'q rt" where
  "wrapper_terminates t = set_th t (\<lambda>x. x\<lparr>thread_state := TERMINATED\<rparr>)"

section \<open>The worker loop\<close>

definition qthread_exec :: "tid \<Rightarrow> 'q rt \<Rightarrow> 'q rt option" where
  "qthread_exec t s =
     (if \<not> simple (th s t) then
        (if thread_state (th s t) = NEW then Some (set_th t (\<lambda>x. x\<lparr>thread_state := RUNNING\<rparr>) s) else Some s)
      else do { c_assert (thread_state (th s t) = NEW);
                Some (set_th t (\<lambda>x. x\<lparr>thread_state := RUNNING\<rparr>) s) })"

text \<open>What a worker does with the thread it fetched: it ends, it hands the thread on, or it runs it. \<open>qlen\<close> and \<open>coin\<close>
  are the lengths of the queues and the random bits for the choice of another shepherd.\<close>

datatype dispatched = Finished | Requeued | Running

definition master_dispatch :: "'q sched_ops \<Rightarrow> (shep_id \<Rightarrow> int) \<Rightarrow> (nat \<Rightarrow> bool) \<Rightarrow> shep_id \<Rightarrow> tid \<Rightarrow> 'q rt
    \<Rightarrow> ('q rt \<times> dispatched) option" where
  "master_dispatch ops qlen coin my_id t s =
     do {
       i \<leftarrow> structs s t;
       let x = th s t;
       c_assert (thread_state x \<noteq> NASCENT);
       if thread_state x = TERM_SHEP then do { s \<leftarrow> qthread_thread_free t s; Some (s, Finished) }
       else do {
         c_assert (thread_state x = NEW \<or> thread_state x = RUNNING
                   \<or> thread_state x = YIELDED \<and> flags x AND QTHREAD_REAL_MCCOY \<noteq> 0);
         c_assert (tfun i \<noteq> 0 \<or> flags x AND QTHREAD_REAL_MCCOY \<noteq> 0);
         s \<leftarrow> (if rdata i = None then alloc_rdata my_id t s
               else Some (set_th t (\<lambda>x. x\<lparr>shepherd_ptr := my_id\<rparr>) s));
         home \<leftarrow> (case target_shepherd x of None \<Rightarrow> Some False
                  | Some d \<Rightarrow> if d \<noteq> my_id then is_active (qlib s) d else Some False);
         active \<leftarrow> is_active (qlib s) my_id;
         if home then do {
           let d = the (target_shepherd x);
           s \<leftarrow> enq ops d t (set_th t (\<lambda>x. x\<lparr>shepherd_ptr := d\<rparr>) s);
           Some (s, Requeued)
         } else if \<not> active then do {
           let near = (case target_shepherd x of None \<Rightarrow> my_id | Some d \<Rightarrow> d);
           (if near = my_id then c_assert (sorted_sheplist (shepherds (qlib s) ! my_id) \<noteq> None
                                           \<and> shep_dists (shepherds (qlib s) ! my_id) \<noteq> None) else Some ());
           r \<leftarrow> qthread_find_active_shepherd qlen coin (qlib s) (sorted_sheplist (shepherds (qlib s) ! near))
                  (shep_dists (shepherds (qlib s) ! near));
           d \<leftarrow> r;
           s \<leftarrow> enq ops d t (set_th t (\<lambda>x. x\<lparr>shepherd_ptr := d\<rparr>) s);
           Some (s, Requeued)
         } else do { s \<leftarrow> qthread_exec t s; Some (s, Running) }
       }
     }"

text \<open>What it does with the thread when it has come back; the result is false while the worker waits for another
  thread, which it puts behind one that yielded near. The record on which a thread blocked is unlocked; the
  operations of the synchronisation layers are atomic up to this point.\<close>

definition master_cleanup :: "'q loop_ops \<Rightarrow> shep_id \<Rightarrow> nat \<Rightarrow> tid \<Rightarrow> 'q rt \<Rightarrow> ('q rt \<times> bool) option" where
  "master_cleanup ops my_id worker t s =
     do {
       i \<leftarrow> structs s t;
       let x = th s t;
       let running = set_th t (\<lambda>x. x\<lparr>thread_state := RUNNING\<rparr>) s;
       case thread_state x of
         MIGRATING \<Rightarrow> do {
           d \<leftarrow> target_shepherd x;
           s \<leftarrow> enq (sched ops) d t (set_th t (\<lambda>x. x\<lparr>shepherd_ptr := d\<rparr>) running);
           Some (s, True) }
       | YIELDED_NEAR \<Rightarrow> do {
           (q, b) \<leftarrow> spawncache_yield ops t (flags x) (ready (feb running));
           if b then Some (set_ready q running, True)
           else do {
             active \<leftarrow> is_active (qlib s) my_id;
             (q, r) \<leftarrow> get_thread ops (\<lambda>t. flags (th s t)) my_id worker active q;
             case r of None \<Rightarrow> Some (set_ready q s, False)
             | Some f \<Rightarrow> do { s \<leftarrow> enq (sched ops) my_id t (set_ready q running);
                              s \<leftarrow> enq (sched ops) my_id f s;
                              Some (s, True) } } }
       | YIELDED \<Rightarrow> do {
           q \<leftarrow> enqueue_yielded ops my_id t (flags x) (ready (feb running));
           Some (set_ready q running, True) }
       | QUEUE \<Rightarrow>
           (let n = unat (blockedon x)
            in do {
              c_assert (n < length (user_queues s));
              (q, h) \<leftarrow> qthread_queue_internal_enqueue (node_alloc s) (fst (user_queues s ! n)) t (snd (user_queues s ! n));
              Some (s\<lparr>user_queues := (user_queues s)[n := (q, h)]\<rparr>, True) })
       | FEB_BLOCKED \<Rightarrow> Some (s, True)
       | PARENT_YIELD \<Rightarrow> Some (set_th t (\<lambda>x. x\<lparr>thread_state := PARENT_BLOCKED\<rparr>) s, True)
       | SYSCALL \<Rightarrow> Some (running\<lparr>io_queue := io_queue s @ [t]\<rparr>, True)
       | TERMINATED \<Rightarrow> do { s \<leftarrow> qthread_thread_free t s; Some (s, True) }
       | _ \<Rightarrow> None
     }"

text \<open>A thread of the I/O subsystem took a job, ran the call and makes the thread ready again (\<open>qt_process_blocking_call\<close>).\<close>

definition io_resume :: "'q sched_ops \<Rightarrow> tid \<Rightarrow> 'q rt \<Rightarrow> 'q rt option" where
  "io_resume ops t s =
     do { s \<leftarrow> enq ops (shepherd_ptr (th s t)) t s; Some (s\<lparr>io_queue := remove1 t (io_queue s)\<rparr>) }"

section \<open>Task-local storage and ids\<close>

text \<open>The contents of the storage; \<open>junk\<close> is what new memory holds. The default space is used until more is asked for.\<close>

definition qthread_get_tasklocal :: "u8 list \<Rightarrow> nat \<Rightarrow> tid \<Rightarrow> 'q rt \<Rightarrow> ('q rt \<times> u8 list) option" where
  "qthread_get_tasklocal junk sz f s =
     do {
       i \<leftarrow> structs s f;
       r \<leftarrow> rdata i;
       if tasklocal_size r = 0 \<and> sz \<le> qthread_tasklocal_size s then Some (s, take (qthread_tasklocal_size s) (tl_data i))
       else if tasklocal_size r = 0 then
         (let d = take (qthread_tasklocal_size s) (tl_data i) @ take (sz - qthread_tasklocal_size s) junk
          in Some (set_struct f (i\<lparr>tl_data := d, rdata := Some (r\<lparr>tasklocal_size := sz\<rparr>)\<rparr>) s, d))
       else if sz \<le> tasklocal_size r then Some (s, tl_data i)
       else (let d = tl_data i @ take (sz - tasklocal_size r) junk
             in Some (set_struct f (i\<lparr>tl_data := d, rdata := Some (r\<lparr>tasklocal_size := sz\<rparr>)\<rparr>) s, d))
     }"

definition qthread_size_tasklocal :: "tid \<Rightarrow> 'q rt \<Rightarrow> nat option" where
  "qthread_size_tasklocal f s =
     do { i \<leftarrow> structs s f; r \<leftarrow> rdata i;
          Some (if tasklocal_size r \<noteq> 0 then tasklocal_size r else qthread_tasklocal_size s) }"

definition next_id :: "u64 \<Rightarrow> 'q rt \<Rightarrow> 'q rt \<times> u32" where
  "next_id k s = (s\<lparr>max_thread_id := max_thread_id s + k\<rparr>, ucast (max_thread_id s))"

definition qthread_id :: "tid option \<Rightarrow> 'q rt \<Rightarrow> ('q rt \<times> u32) option" where
  "qthread_id t s =
     (case t of None \<Rightarrow> Some (s, QTHREAD_NON_TASK_ID)
      | Some t \<Rightarrow>
          do {
            i \<leftarrow> structs s t;
            if thread_id i \<noteq> QTHREAD_NON_TASK_ID then Some (s, thread_id i)
            else
              (let (s, n) = next_id 1 s;
                   (s, n) = (if n = QTHREAD_NULL_TASK_ID then next_id 2 s
                             else if n = QTHREAD_NON_TASK_ID then next_id 1 s else (s, n))
               in Some (set_struct t (i\<lparr>thread_id := n\<rparr>) s, n))
          })"

end
