(* ===== verification/Workers.thy ===== *)
theory Workers
  imports Qthread Shepherds_Props Tqueue_Props Feb_Inv
begin

text \<open>
  The workers as a system: each fetches a thread, runs it and files it away; a running thread calls the library
  and may fork, yield, migrate, join a queue, block or end; a thread that waits is made ready by another one. The
  scheduler is any that fulfils the interface \<open>scheduler\<close>.
\<close>

section \<open>The interface of a scheduler\<close>

locale scheduler = ready_queues "sched lops" qinv tasks nsheps
  for lops :: "'q loop_ops" and qinv :: "'q \<Rightarrow> bool" and tasks :: "'q \<Rightarrow> tid multiset" and nsheps :: "'q \<Rightarrow> nat" +
  assumes yielded_law: "qinv q \<Longrightarrow> sh < nsheps q \<Longrightarrow>
      \<exists>q'. enqueue_yielded lops sh t fl q = Some q' \<and> qinv q' \<and> tasks q' = add_mset t (tasks q) \<and> nsheps q' = nsheps q"
    and get_law: "qinv q \<Longrightarrow> sh < nsheps q \<Longrightarrow>
      \<exists>q' r. get_thread lops fls sh w a q = Some (q', r) \<and> qinv q' \<and> nsheps q' = nsheps q
        \<and> tasks q = (case r of None \<Rightarrow> {#} | Some t \<Rightarrow> {#t#}) + tasks q'"
    and dest_law: "0 < nsheps q \<Longrightarrow> (case me of None \<Rightarrow> True | Some sh \<Rightarrow> sh < nsheps q) \<Longrightarrow> choose_dest lops me < nsheps q"

section \<open>The system\<close>

text \<open>A worker looks for a thread, runs one, has one to file away, or has ended. \<open>febwait\<close> are the threads that wait
  on a word or a syncvar, which the synchronisation layers keep.\<close>

datatype wpc = W_fetch | W_run tid | W_back tid | W_done

record 'q sys =
  rts :: "'q rt"
  wks :: "(shep_id \<times> wpc) list"
  febwait :: "tid multiset"

abbreviation rdy :: "'q rt \<Rightarrow> 'q" where
  "rdy r \<equiv> ready (feb r)"

definition launch_view :: "'q rt \<Rightarrow> 'q launch_state" where
  "launch_view r = \<lparr>lthreads = threads (feb r), lready = rdy r\<rparr>"

definition with_launch :: "'q rt \<Rightarrow> 'q launch_state \<Rightarrow> 'q rt" where
  "with_launch r l = r\<lparr>feb := (feb r)\<lparr>threads := lthreads l, ready := lready l\<rparr>\<rparr>"

text \<open>\<open>qthread_finalize\<close> gives every worker but the first a thread that ends it.\<close>

definition finalize_sentinel :: "'q sched_ops \<Rightarrow> shep_id \<Rightarrow> tid \<Rightarrow> u8 list \<Rightarrow> 'q rt \<Rightarrow> 'q rt option" where
  "finalize_sentinel ops sh t junk r =
     enq ops sh t (set_th t (\<lambda>x. x\<lparr>thread_state := TERM_SHEP, flags := QTHREAD_UNSTEALABLE\<rparr>)
       (qthread_thread_new t 0 0 [] 0 junk r))"

text \<open>
  A run of the library: the workers fetch, run and file away threads, and running threads call the library. A thread spawns
  others without a return location and preconditions (the word of a return location and the waiting for preconditions are
  those of the full/empty bits, where \<open>block\<close> and \<open>wake\<close> stand for any wait), it yields to the queue of its shepherd (the
  variants that yield to a near thread or swap directly are not steps), and the queues of the user that it joins are of
  the Nemesis kinds in the states that are considered.
\<close>

inductive rt_step :: "'q loop_ops \<Rightarrow> 'q sys \<Rightarrow> 'q sys \<Rightarrow> bool" for ops where
  fetch_again: "w < length (wks s) \<Longrightarrow> wks s ! w = (sh, W_fetch) \<Longrightarrow> is_active (qlib (rts s)) sh = Some a \<Longrightarrow>
    get_thread ops (\<lambda>t. flags (th (rts s) t)) sh w a (rdy (rts s)) = Some (q, None) \<Longrightarrow>
    rt_step ops s (s\<lparr>rts := set_ready q (rts s)\<rparr>)"
| fetch: "w < length (wks s) \<Longrightarrow> wks s ! w = (sh, W_fetch) \<Longrightarrow> is_active (qlib (rts s)) sh = Some a \<Longrightarrow>
    get_thread ops (\<lambda>t. flags (th (rts s) t)) sh w a (rdy (rts s)) = Some (q, Some t) \<Longrightarrow>
    master_dispatch (sched ops) qlen coin sh t (set_ready q (rts s)) = Some (r, d) \<Longrightarrow>
    rt_step ops s (s\<lparr>rts := r,
      wks := (wks s)[w := (sh, case d of Finished \<Rightarrow> W_done | Requeued \<Rightarrow> W_fetch | Running \<Rightarrow> W_run t)]\<rparr>)"
| cleanup: "w < length (wks s) \<Longrightarrow> wks s ! w = (sh, W_back t) \<Longrightarrow> master_cleanup ops sh w t (rts s) = Some (r, b) \<Longrightarrow>
    rt_step ops s (s\<lparr>rts := r, wks := (wks s)[w := (sh, if b then W_fetch else W_back t)],
      febwait := (if thread_state (th (rts s) t) = FEB_BLOCKED then add_mset t (febwait s) else febwait s)\<rparr>)"
| yield: "w < length (wks s) \<Longrightarrow> wks s ! w = (sh, W_run t) \<Longrightarrow> qthread_yield 0 t (rts s) = Some r \<Longrightarrow>
    rt_step ops s (s\<lparr>rts := r, wks := (wks s)[w := (sh, W_back t)]\<rparr>)"
| migrate: "w < length (wks s) \<Longrightarrow> wks s ! w = (sh, W_run t) \<Longrightarrow> qthread_migrate_to t d (rts s) = Some (r, c, b) \<Longrightarrow>
    rt_step ops s (s\<lparr>rts := r, wks := (wks s)[w := (sh, if b then W_back t else W_run t)]\<rparr>)"
| join: "w < length (wks s) \<Longrightarrow> wks s ! w = (sh, W_run t) \<Longrightarrow> n < length (user_queues (rts s)) \<Longrightarrow> n < 2 ^ 64 \<Longrightarrow>
    qthread_queue_join n t (rts s) = Some r \<Longrightarrow>
    rt_step ops s (s\<lparr>rts := r, wks := (wks s)[w := (sh, W_back t)]\<rparr>)"
| block: "w < length (wks s) \<Longrightarrow> wks s ! w = (sh, W_run t) \<Longrightarrow>
    qthread_back_to_master t (set_th t (\<lambda>x. x\<lparr>thread_state := FEB_BLOCKED, blockedon := p\<rparr>) (rts s)) = Some r \<Longrightarrow>
    rt_step ops s (s\<lparr>rts := r, wks := (wks s)[w := (sh, W_back t)]\<rparr>)"
| syscall: "w < length (wks s) \<Longrightarrow> wks s ! w = (sh, W_run t) \<Longrightarrow>
    qthread_back_to_master t (set_th t (\<lambda>x. x\<lparr>thread_state := SYSCALL, blockedon := p\<rparr>) (rts s)) = Some r \<Longrightarrow>
    rt_step ops s (s\<lparr>rts := r, wks := (wks s)[w := (sh, W_back t)]\<rparr>)"
| exit: "w < length (wks s) \<Longrightarrow> wks s ! w = (sh, W_run t) \<Longrightarrow> \<not> mccoy (th (rts s) t) \<Longrightarrow>
    rt_step ops s (s\<lparr>rts := wrapper_terminates t (rts s), wks := (wks s)[w := (sh, W_back t)]\<rparr>)"
| spawn: "w < length (wks s) \<Longrightarrow> wks s ! w = (sh, W_run t) \<Longrightarrow> structs (rts s) n = None \<Longrightarrow> f \<noteq> 0 \<Longrightarrow>
    qthread_spawn ops (Some t) n newp junk f arg bytes 0 None target feature (rts s) = Some (r, c) \<Longrightarrow>
    rt_step ops s (s\<lparr>rts := r\<rparr>)"
| wake: "t \<in># febwait s \<Longrightarrow> sh < nshepherds (qlib (rts s)) \<Longrightarrow>
    qt_feb_schedule (sched ops) t sh (feb (rts s)) = Some f \<Longrightarrow>
    rt_step ops s (s\<lparr>rts := (rts s)\<lparr>feb := f\<rparr>, febwait := febwait s - {#t#}\<rparr>)"
| io: "t \<in> set (io_queue (rts s)) \<Longrightarrow> io_resume (sched ops) t (rts s) = Some r \<Longrightarrow> rt_step ops s (s\<lparr>rts := r\<rparr>)"
| release: "n < length (user_queues (rts s)) \<Longrightarrow> sh < nshepherds (qlib (rts s)) \<Longrightarrow>
    qthread_queue_release_one (sched ops) sh (fst (user_queues (rts s) ! n)) (snd (user_queues (rts s) ! n))
      (launch_view (rts s)) = Some (q, h, l) \<Longrightarrow>
    rt_step ops s (s\<lparr>rts := (with_launch (rts s) l)\<lparr>user_queues := (user_queues (rts s))[n := (q, h)]\<rparr>\<rparr>)"
| disable: "qthread_disable_shepherd (qlib (rts s)) sh = Some (l, c) \<Longrightarrow> rt_step ops s (s\<lparr>rts := (rts s)\<lparr>qlib := l\<rparr>\<rparr>)"
| enable: "qthread_enable_shepherd (qlib (rts s)) sh = Some l \<Longrightarrow> rt_step ops s (s\<lparr>rts := (rts s)\<lparr>qlib := l\<rparr>\<rparr>)"
| shutdown: "sh < nshepherds (qlib (rts s)) \<Longrightarrow> structs (rts s) n = None \<Longrightarrow>
    finalize_sentinel (sched ops) sh n junk (rts s) = Some r \<Longrightarrow> rt_step ops s (s\<lparr>rts := r\<rparr>)"

section \<open>Where the threads are, and of which kind they are there\<close>

datatype place = At_ready | At_run | At_back | At_wait | At_queue | At_io

definition wplace :: "wpc \<Rightarrow> (place \<times> tid) multiset" where
  "wplace pc = (case pc of W_run t \<Rightarrow> {#(At_run, t)#} | W_back t \<Rightarrow> {#(At_back, t)#} | _ \<Rightarrow> {#})"

definition wplaces :: "(shep_id \<times> wpc) list \<Rightarrow> (place \<times> tid) multiset" where
  "wplaces ws = (\<Sum>w \<in># mset ws. wplace (snd w))"

definition queue_items :: "qthread_queue \<times> tq_heap \<Rightarrow> tid list" where
  "queue_items p = (case fst p of NEMESIS n \<Rightarrow> nem_items (n, snd p) | NEMESIS_LENGTH n \<Rightarrow> nem_items (n, snd p) | _ \<Rightarrow> [])"

definition queue_ok :: "qthread_queue \<times> tq_heap \<Rightarrow> bool" where
  "queue_ok p = (case fst p of NEMESIS n \<Rightarrow> nem_ok (n, snd p) | NEMESIS_LENGTH n \<Rightarrow> nem_ok (n, snd p) | _ \<Rightarrow> False)"

definition queued :: "'q rt \<Rightarrow> tid multiset" where
  "queued r = mset (concat (map queue_items (user_queues r)))"

definition placed :: "('q \<Rightarrow> tid multiset) \<Rightarrow> 'q sys \<Rightarrow> (place \<times> tid) multiset" where
  "placed tasks s = image_mset (Pair At_ready) (tasks (rdy (rts s))) + wplaces (wks s)
     + image_mset (Pair At_wait) (febwait s) + image_mset (Pair At_queue) (queued (rts s))
     + image_mset (Pair At_io) (mset (io_queue (rts s)))"

definition struct_ok :: "qthread \<Rightarrow> tstruct \<Rightarrow> bool" where
  "struct_ok x i \<longleftrightarrow> (case rdata i of None \<Rightarrow> True | Some r \<Rightarrow> simple x \<or> has_stack r \<or> mccoy x)
     \<and> (flags x AND QTHREAD_HAS_ARGCOPY = 0 \<or> (case targ i of ArgHeap _ \<Rightarrow> True | _ \<Rightarrow> False))"

text \<open>The kind of thread that may be at a place; \<open>m\<close> is the number of the user's queues. The main thread has no
  function, is born \<open>YIELDED\<close> and does not terminate.\<close>

definition typed :: "nat \<Rightarrow> place \<Rightarrow> qthread \<Rightarrow> tstruct \<Rightarrow> bool" where
  "typed m p x i \<longleftrightarrow> struct_ok x i \<and>
     (if p = At_ready \<and> thread_state x = TERM_SHEP then \<not> mccoy x
      else (tfun i \<noteq> 0 \<or> mccoy x) \<and> (rdata i \<noteq> None \<or> p = At_ready \<and> thread_state x = NEW) \<and>
     (case p of
        At_ready \<Rightarrow> thread_state x = NEW \<or> (thread_state x = RUNNING \<or> thread_state x = YIELDED \<and> mccoy x) \<and> \<not> simple x
      | At_run \<Rightarrow> thread_state x = RUNNING \<or> thread_state x = YIELDED \<and> mccoy x \<and> \<not> simple x
      | At_back \<Rightarrow>
          thread_state x = TERMINATED \<and> \<not> mccoy x \<or> \<not> simple x \<and>
            (thread_state x = MIGRATING \<and> target_shepherd x \<noteq> None \<or> thread_state x = YIELDED
             \<or> thread_state x = QUEUE \<and> unat (blockedon x) < m \<or> thread_state x = FEB_BLOCKED \<or> thread_state x = SYSCALL)
      | At_wait \<Rightarrow> \<not> simple x \<and> thread_state x = FEB_BLOCKED
      | At_queue \<Rightarrow> \<not> simple x \<and> thread_state x = QUEUE
      | At_io \<Rightarrow> \<not> simple x \<and> thread_state x = RUNNING))"

definition typed_at :: "'q rt \<Rightarrow> place \<Rightarrow> tid \<Rightarrow> bool" where
  "typed_at r p t \<longleftrightarrow> (case structs r t of None \<Rightarrow> False | Some i \<Rightarrow> typed (length (user_queues r)) p (th r t) i)"

definition qlib_ok :: "qlib_s \<Rightarrow> bool" where
  "qlib_ok l \<longleftrightarrow> 0 < nshepherds l \<and> shep_active (shepherds l ! 0)
     \<and> (\<forall>i < nshepherds l. \<exists>xs d. sorted_sheplist (shepherds l ! i) = Some xs \<and> shep_dists (shepherds l ! i) = Some d
          \<and> length d = nshepherds l \<and> length xs = nshepherds l - 1 \<and> set xs = {..<nshepherds l} - {i})"

definition static_ok :: "('q \<Rightarrow> bool) \<Rightarrow> ('q \<Rightarrow> nat) \<Rightarrow> 'q rt \<Rightarrow> bool" where
  "static_ok qinv nsheps r \<longleftrightarrow> qinv (rdy r) \<and> nsheps (rdy r) = nshepherds (qlib r) \<and> qlib_ok (qlib r)
     \<and> lib_initialized (feb r) \<and> sheap_alloc_ok (node_alloc r) \<and> (\<forall>p \<in> set (user_queues r). queue_ok p)
     \<and> (\<forall>t. thread_ok (nshepherds (qlib r)) (th r t))"

definition sys_inv :: "('q \<Rightarrow> bool) \<Rightarrow> ('q \<Rightarrow> tid multiset) \<Rightarrow> ('q \<Rightarrow> nat) \<Rightarrow> 'q sys \<Rightarrow> bool" where
  "sys_inv qinv tasks nsheps s \<longleftrightarrow> static_ok qinv nsheps (rts s)
     \<and> (\<forall>w \<in> set (wks s). fst w < nshepherds (qlib (rts s)))
     \<and> finite (dom (structs (rts s))) \<and> image_mset snd (placed tasks s) = mset_set (dom (structs (rts s)))
     \<and> (\<forall>pt \<in># placed tasks s. typed_at (rts s) (fst pt) (snd pt))"

end
