(* ===== verification/Workers_Inv.thy ===== *)
theory Workers_Inv
  imports Workers
begin

text \<open>The invariant of the system of workers, and that every step keeps it.\<close>

section \<open>Field-level facts\<close>

lemma rt_fields [simp]:
  "feb (set_ready q r) = (feb r)\<lparr>ready := q\<rparr>" "structs (set_ready q r) = structs r" "qlib (set_ready q r) = qlib r"
  "user_queues (set_ready q r) = user_queues r" "io_queue (set_ready q r) = io_queue r"
  "node_alloc (set_ready q r) = node_alloc r"
  "feb (set_th t f r) = upd_thread t f (feb r)" "structs (set_th t f r) = structs r" "qlib (set_th t f r) = qlib r"
  "user_queues (set_th t f r) = user_queues r" "io_queue (set_th t f r) = io_queue r"
  "node_alloc (set_th t f r) = node_alloc r"
  "feb (set_struct t i r) = feb r" "structs (set_struct t i r) = (structs r)(t \<mapsto> i)" "qlib (set_struct t i r) = qlib r"
  "user_queues (set_struct t i r) = user_queues r" "io_queue (set_struct t i r) = io_queue r"
  "node_alloc (set_struct t i r) = node_alloc r"
  by (simp_all add: set_ready_def set_th_def set_struct_def)

lemma upd_thread_same [simp]:
  "ready (upd_thread t f s) = ready s" "lib_initialized (upd_thread t f s) = lib_initialized s"
  "threads (upd_thread t f s) = (threads s)(t := f (threads s t))"
  by (simp_all add: upd_thread_def)

text \<open>Nothing but the thread \<open>t\<close>, the ready queues and the lists changes.\<close>

definition only :: "tid \<Rightarrow> 'q rt \<Rightarrow> 'q rt \<Rightarrow> bool" where
  "only t r r' \<longleftrightarrow> (\<forall>x. x \<noteq> t \<longrightarrow> th r' x = th r x \<and> structs r' x = structs r x)
     \<and> length (user_queues r') = length (user_queues r)"

lemma only_typed: "only t r r' \<Longrightarrow> x \<noteq> t \<Longrightarrow> typed_at r' p x = typed_at r p x"
  by (auto simp: only_def typed_at_def split: option.split)

lemma only_dom:
  assumes "only t r r'"
  shows "dom (structs r') - {t} = dom (structs r) - {t}"
proof (intro set_eqI)
  fix x
  show "x \<in> dom (structs r') - {t} \<longleftrightarrow> x \<in> dom (structs r) - {t}"
    using assms by (cases "x = t") (simp_all add: only_def domIff)
qed

section \<open>Moving threads between places\<close>

lemma wplaces_update:
  assumes "w < length ws"
  shows "wplaces (ws[w := v]) + wplace (snd (ws ! w)) = wplaces ws + wplace (snd v)"
proof -
  have "mset ws = add_mset (ws ! w) (mset ws - {#ws ! w#})"
    using assms by (simp add: insert_DiffM)
  then have "wplaces ws = wplace (snd (ws ! w)) + (\<Sum>x \<in># mset ws - {#ws ! w#}. wplace (snd x))"
    unfolding wplaces_def by (metis image_mset_add_mset sum_mset.insert)
  moreover have "wplaces (ws[w := v]) = wplace (snd v) + (\<Sum>x \<in># mset ws - {#ws ! w#}. wplace (snd x))"
    using assms unfolding wplaces_def by (simp add: mset_update)
  ultimately show ?thesis
    by simp
qed

lemma alive_once:
  assumes "image_mset snd (add_mset (p, t) M) = mset_set A" "finite A" "(p', t') \<in># M"
  shows "t' \<noteq> t"
proof
  assume "t' = t"
  then have "t \<in># image_mset snd M"
    using assms(3) by force
  then have "1 < count (mset_set A) t"
    unfolding assms(1) [symmetric] by simp
  then show False
    using assms(2) by (cases "t \<in> A") auto
qed

lemma inv_move:
  assumes inv: "sys_inv qinv tasks nsheps s"
    and p: "placed tasks s = add_mset (p, t) M" "placed tasks s' = add_mset (p', t) M"
    and st: "static_ok qinv nsheps (rts s')" "only t (rts s) (rts s')" "qlib (rts s') = qlib (rts s)"
      "\<forall>w \<in> set (wks s'). fst w < nshepherds (qlib (rts s))"
    and t: "typed_at (rts s') p' t"
  shows "sys_inv qinv tasks nsheps s'"
proof -
  have fin: "finite (dom (structs (rts s)))"
    and al: "image_mset snd (add_mset (p, t) M) = mset_set (dom (structs (rts s)))"
    and ty: "\<forall>pt \<in># placed tasks s. typed_at (rts s) (fst pt) (snd pt)"
    using inv p(1) by (simp_all add: sys_inv_def)
  have alive: "t \<in> dom (structs (rts s))" "t \<in> dom (structs (rts s'))"
    using ty p(1) t by (auto simp: typed_at_def split: option.splits)
  have dom: "dom (structs (rts s')) = dom (structs (rts s))"
    using only_dom [OF st(2)] alive by blast
  have "typed_at (rts s') (fst pt) (snd pt)" if "pt \<in># M" for pt
    using alive_once [OF al fin, of "fst pt" "snd pt"] that ty p(1) only_typed [OF st(2)] by auto
  then show ?thesis
    using st t al fin unfolding sys_inv_def p(2) dom by auto
qed

lemma inv_add:
  assumes inv: "sys_inv qinv tasks nsheps s"
    and p: "placed tasks s' = add_mset (p', t) (placed tasks s)" "structs (rts s) t = None"
    and st: "static_ok qinv nsheps (rts s')" "only t (rts s) (rts s')" "qlib (rts s') = qlib (rts s)" "wks s' = wks s"
    and t: "typed_at (rts s') p' t"
  shows "sys_inv qinv tasks nsheps s'"
proof -
  have fin: "finite (dom (structs (rts s)))"
    and al: "image_mset snd (placed tasks s) = mset_set (dom (structs (rts s)))"
    and ty: "\<forall>pt \<in># placed tasks s. typed_at (rts s) (fst pt) (snd pt)"
    using inv by (simp_all add: sys_inv_def)
  have "t \<in> dom (structs (rts s'))"
    using t by (auto simp: typed_at_def split: option.splits)
  then have dom: "dom (structs (rts s')) = insert t (dom (structs (rts s)))"
    using only_dom [OF st(2)] p(2) by blast
  have "typed_at (rts s') (fst pt) (snd pt)" if "pt \<in># placed tasks s" for pt
  proof -
    have "snd pt \<noteq> t"
      using ty that p(2) by (auto simp: typed_at_def split: option.splits)
    then show ?thesis
      using ty that only_typed [OF st(2)] by simp
  qed
  moreover have "t \<notin> dom (structs (rts s))"
    using p(2) by auto
  ultimately show ?thesis
    using inv st t al fin unfolding sys_inv_def p(1) dom by auto
qed

lemma inv_drop:
  assumes inv: "sys_inv qinv tasks nsheps s"
    and p: "placed tasks s = add_mset (p, t) M" "placed tasks s' = M"
    and st: "static_ok qinv nsheps (rts s')" "only t (rts s) (rts s')" "qlib (rts s') = qlib (rts s)"
      "\<forall>w \<in> set (wks s'). fst w < nshepherds (qlib (rts s))" "structs (rts s') t = None"
  shows "sys_inv qinv tasks nsheps s'"
proof -
  have fin: "finite (dom (structs (rts s)))"
    and al: "image_mset snd (add_mset (p, t) M) = mset_set (dom (structs (rts s)))"
    and ty: "\<forall>pt \<in># placed tasks s. typed_at (rts s) (fst pt) (snd pt)"
    using inv p(1) by (simp_all add: sys_inv_def)
  have t: "t \<in> dom (structs (rts s))"
    using ty p(1) by (auto simp: typed_at_def split: option.splits)
  have "t \<notin> dom (structs (rts s'))"
    using st(5) by (simp add: domIff)
  then have dom: "dom (structs (rts s')) = dom (structs (rts s)) - {t}"
    using only_dom [OF st(2)] by blast
  have "image_mset snd M = mset_set (dom (structs (rts s')))"
    using al mset_set.remove [OF fin t] unfolding dom by simp
  moreover have "typed_at (rts s') (fst pt) (snd pt)" if "pt \<in># M" for pt
    using alive_once [OF al fin, of "fst pt" "snd pt"] that ty p(1) only_typed [OF st(2)] by auto
  moreover have "finite (dom (structs (rts s')))"
    using fin unfolding dom by simp
  ultimately show ?thesis
    using st unfolding sys_inv_def p(2) by simp
qed

lemma inv_same:
  assumes inv: "sys_inv qinv tasks nsheps s" and p: "placed tasks s' = placed tasks s"
    and st: "static_ok qinv nsheps (rts s')" "threads (feb (rts s')) = threads (feb (rts s))" "structs (rts s') = structs (rts s)"
      "user_queues (rts s') = user_queues (rts s)" "nshepherds (qlib (rts s')) = nshepherds (qlib (rts s))" "wks s' = wks s"
  shows "sys_inv qinv tasks nsheps s'"
proof -
  have "typed_at (rts s') p' t = typed_at (rts s) p' t" for p' t
    using st by (simp add: typed_at_def split: option.split)
  then show ?thesis
    using assms unfolding sys_inv_def by simp
qed

lemma wplace_simps [simp]: "wplace W_fetch = {#}" "wplace W_done = {#}" "wplace (W_run t) = {#(At_run, t)#}"
  "wplace (W_back t) = {#(At_back, t)#}"
  by (simp_all add: wplace_def)

text \<open>The places outside of the workers and the synchronisation layers.\<close>

definition rplaced :: "('q \<Rightarrow> tid multiset) \<Rightarrow> 'q rt \<Rightarrow> (place \<times> tid) multiset" where
  "rplaced tasks r = image_mset (Pair At_ready) (tasks (rdy r)) + image_mset (Pair At_queue) (queued r)
     + image_mset (Pair At_io) (mset (io_queue r))"

lemma placed_rplaced: "placed tasks s = rplaced tasks (rts s) + (wplaces (wks s) + image_mset (Pair At_wait) (febwait s))"
  by (simp add: placed_def rplaced_def ac_simps)

text \<open>The places with the worker \<open>w\<close> aside.\<close>

definition aside :: "nat \<Rightarrow> (shep_id \<times> wpc) list \<Rightarrow> (place \<times> tid) multiset" where
  "aside w ws = wplaces (ws[w := (fst (ws ! w), W_fetch)])"

lemma wplaces_aside:
  assumes "w < length ws"
  shows "wplaces ws = wplace (snd (ws ! w)) + aside w ws" "wplaces (ws[w := (sh, pc)]) = wplace pc + aside w ws"
proof -
  show a: "wplaces ws = wplace (snd (ws ! w)) + aside w ws"
    using wplaces_update [OF assms, of "(fst (ws ! w), W_fetch)"] by (simp add: aside_def ac_simps)
  have "wplace (snd (ws ! w)) + wplaces (ws[w := (sh, pc)]) = wplace (snd (ws ! w)) + (wplace pc + aside w ws)"
    using wplaces_update [OF assms, of "(sh, pc)"] a by (simp add: ac_simps)
  then show "wplaces (ws[w := (sh, pc)]) = wplace pc + aside w ws"
    by (rule add_left_imp_eq)
qed

lemma rplaced_simps [simp]: "rplaced tasks (set_th t f r) = rplaced tasks r" "rplaced tasks (set_struct t i r) = rplaced tasks r"
  "rplaced tasks (r\<lparr>structs := m\<rparr>) = rplaced tasks r"
  by (simp_all add: rplaced_def queued_def)

lemma rplaced_ready:
  assumes "tasks q = add_mset t (tasks (rdy r))"
  shows "rplaced tasks (set_ready q r) = add_mset (At_ready, t) (rplaced tasks r)"
  using assms by (simp add: rplaced_def queued_def)

lemma only_simps [simp]: "only t r r" "only t r (set_th t f r') = only t r r'" "only t r (set_ready q r') = only t r r'"
  "only t r (set_struct t i r') = only t r r'" "only t r (r'\<lparr>structs := (structs r')(t := None)\<rparr>) = only t r r'"
  "only t r (r'\<lparr>io_queue := l\<rparr>) = only t r r'"
  "only t r (r'\<lparr>user_queues := (user_queues r')[k := x]\<rparr>) = only t r r'"
  by (auto simp: only_def)

lemma struct_ok_simps [simp]: "struct_ok (x\<lparr>thread_state := a\<rparr>) i = struct_ok x i" "struct_ok (x\<lparr>shepherd_ptr := b\<rparr>) i = struct_ok x i"
  "struct_ok (x\<lparr>target_shepherd := c\<rparr>) i = struct_ok x i" "struct_ok (x\<lparr>blockedon := p\<rparr>) i = struct_ok x i"
  by (auto simp: struct_ok_def split: option.split)

section \<open>The queues of the user\<close>

lemma nem_length_irrelevant [simp]:
  "nem_ok (n\<lparr>nem_length := l\<rparr>, h) = nem_ok (n, h)" "nem_items (n\<lparr>nem_length := l\<rparr>, h) = nem_items (n, h)"
proof -
  have f: "nem_first (n\<lparr>nem_length := l\<rparr>) = nem_first n"
    by (simp add: nem_first_def)
  show "nem_ok (n\<lparr>nem_length := l\<rparr>, h) = nem_ok (n, h)" "nem_items (n\<lparr>nem_length := l\<rparr>, h) = nem_items (n, h)"
    unfolding nem_ok_def nem_rep_def nem_items_def prod.case f by simp_all
qed

lemma user_enqueue_ok:
  assumes "queue_ok p" "sheap_alloc_ok al"
  shows "\<exists>q h. qthread_queue_internal_enqueue al (fst p) t (snd p) = Some (q, h) \<and> queue_ok (q, h)
    \<and> queue_items (q, h) = queue_items p @ [t]"
proof (cases "fst p")
  case (NEMESIS n)
  then show ?thesis
    using nem_enqueue_fifo [OF assms(2), of "(n, snd p)" t] assms(1)
    by (auto simp: qthread_queue_internal_enqueue_def queue_ok_def queue_items_def)
next
  case (NEMESIS_LENGTH n)
  then show ?thesis
    using nem_enqueue_fifo [OF assms(2), of "(n, snd p)" t] assms(1)
    by (auto simp: qthread_queue_internal_enqueue_def queue_ok_def queue_items_def)
qed (use assms(1) in \<open>auto simp: queue_ok_def\<close>)

lemma user_dequeue_ok:
  assumes "queue_ok p"
  shows "\<exists>q h. queue_dequeue (fst p) (snd p) = Some (q, h, case queue_items p of [] \<Rightarrow> None | y # ys \<Rightarrow> Some y)
    \<and> queue_ok (q, h) \<and> queue_items (q, h) = tl (queue_items p)
    \<and> (case q of NEMESIS_LENGTH n \<Rightarrow> True | NEMESIS n \<Rightarrow> True | _ \<Rightarrow> False)"
proof (cases "fst p")
  case (NEMESIS n)
  then show ?thesis
    using nem_dequeue_fifo [of "(n, snd p)"] assms
    by (auto simp: queue_dequeue_def queue_ok_def queue_items_def nem_deq_def)
next
  case (NEMESIS_LENGTH n)
  then show ?thesis
    using nem_dequeue_fifo [of "(n, snd p)"] assms
    by (auto simp: queue_dequeue_def queue_ok_def queue_items_def nem_deq_def)
qed (use assms in \<open>auto simp: queue_ok_def\<close>)

lemma queued_update:
  assumes "k < length (user_queues r)"
  shows "queued (r\<lparr>user_queues := (user_queues r)[k := p]\<rparr>) + mset (queue_items (user_queues r ! k))
    = queued r + mset (queue_items p)"
  using mset_concat_update [of k "map queue_items (user_queues r)" "queue_items p"] assms
  by (simp add: queued_def map_update)

section \<open>The static part\<close>

context scheduler
begin

abbreviation static :: "'q rt \<Rightarrow> bool" where
  "static \<equiv> static_ok qinv nsheps"

lemma static_ready: "static r \<Longrightarrow> qinv q \<Longrightarrow> nsheps q = nshepherds (qlib r) \<Longrightarrow> static (set_ready q r)"
  by (simp add: static_ok_def)

lemma static_th: "static r \<Longrightarrow> thread_ok (nshepherds (qlib r)) (f (th r t)) \<Longrightarrow> static (set_th t f r)"
  by (simp add: static_ok_def)

lemma static_struct: "static r \<Longrightarrow> static (set_struct t i r)"
  by (simp add: static_ok_def)

lemma static_parts:
  assumes "static r"
  shows "qinv (rdy r)" "nsheps (rdy r) = nshepherds (qlib r)" "qlib_ok (qlib r)" "0 < nshepherds (qlib r)"
    "thread_ok (nshepherds (qlib r)) (th r t)"
  using assms by (auto simp: static_ok_def qlib_ok_def)

lemma enq_ok:
  assumes "static r" "sh < nshepherds (qlib r)"
  shows "\<exists>q. enq (sched lops) sh t r = Some (set_ready q r) \<and> static (set_ready q r)
    \<and> rplaced tasks (set_ready q r) = add_mset (At_ready, t) (rplaced tasks r)"
proof -
  note p = static_parts [OF assms(1)]
  obtain q where q: "tq_enqueue (sched lops) sh t (flags (th r t)) (rdy r) = Some q" "qinv q"
      "tasks q = add_mset t (tasks (rdy r))" "nsheps q = nsheps (rdy r)"
    using enqueue_law [OF p(1), of sh t "flags (th r t)"] assms(2) p(2) by auto
  show ?thesis
    using q(1) rplaced_ready [where tasks = tasks, OF q(3)] static_ready [OF assms(1) q(2)] q(4) p(2)
    by (auto simp: enq_def)
qed

text \<open>A disabled shepherd finds another one, since the first shepherd stays active.\<close>

lemma find_active_ok:
  assumes "qlib_ok l" "near < nshepherds l" "\<not> shep_active (shepherds l ! near)"
  shows "\<exists>d xs ds. sorted_sheplist (shepherds l ! near) = Some xs \<and> shep_dists (shepherds l ! near) = Some ds
    \<and> qthread_find_active_shepherd qlen coin l (Some xs) (Some ds) = Some (Some d) \<and> d < nshepherds l"
proof -
  obtain xs ds where x: "sorted_sheplist (shepherds l ! near) = Some xs" "shep_dists (shepherds l ! near) = Some ds"
      "length ds = nshepherds l" "length xs = nshepherds l - 1" "set xs = {..<nshepherds l} - {near}"
    using assms(1,2) by (auto simp: qlib_ok_def)
  have "0 \<in> set xs" "shep_active (shepherds l ! 0)" "\<forall>y \<in> set xs. y < nshepherds l"
    using x(5) assms by (auto simp: qlib_ok_def intro: gr0I)
  then obtain us y ys t where "xs = us @ y # ys" "t \<in> insert y (set ys)"
      "qthread_find_active_shepherd qlen coin l (Some xs) (Some ds) = Some (Some t)"
    using find_active_split [OF x(4) _ x(3)] by blast
  then show ?thesis
    using x \<open>\<forall>y \<in> set xs. y < nshepherds l\<close> by auto
qed

section \<open>Fetching a thread\<close>

definition dispatch_result :: "tid \<Rightarrow> 'q rt \<Rightarrow> 'q rt \<Rightarrow> dispatched \<Rightarrow> bool" where
  "dispatch_result t r r' d \<longleftrightarrow> static r' \<and> only t r r' \<and> qlib r' = qlib r \<and>
     (case d of Finished \<Rightarrow> structs r' t = None \<and> rplaced tasks r' = rplaced tasks r
      | Requeued \<Rightarrow> typed_at r' At_ready t \<and> rplaced tasks r' = add_mset (At_ready, t) (rplaced tasks r)
      | Running \<Rightarrow> typed_at r' At_run t \<and> rplaced tasks r' = rplaced tasks r)"

lemma free_ok:
  assumes "static r" "structs r t = Some i" "struct_ok (th r t) i" "\<not> mccoy (th r t)"
  shows "\<exists>r'. qthread_thread_free t r = Some r' \<and> static r' \<and> only t r r' \<and> qlib r' = qlib r \<and> structs r' t = None
    \<and> rplaced tasks r' = rplaced tasks r \<and> user_queues r' = user_queues r"
  using assms by (auto simp: qthread_thread_free_def struct_ok_def static_ok_def split: option.splits)

text \<open>The thread, with its runtime data, on the shepherd that fetched it.\<close>

lemma settled_ok:
  assumes "static r" "structs r t = Some i" "struct_ok (th r t) i" "my_id < nshepherds (qlib r)"
  shows "\<exists>r1 i1 b. (if rdata i = None then alloc_rdata my_id t r else Some (set_th t (\<lambda>x. x\<lparr>shepherd_ptr := my_id\<rparr>) r)) = Some r1
    \<and> structs r1 t = Some i1 \<and> rdata i1 \<noteq> None \<and> tfun i1 = tfun i \<and> struct_ok (th r1 t) i1
    \<and> th r1 t = (th r t)\<lparr>shepherd_ptr := my_id, blockedon := b\<rparr>
    \<and> static r1 \<and> only t r r1 \<and> qlib r1 = qlib r \<and> rplaced tasks r1 = rplaced tasks r \<and> user_queues r1 = user_queues r"
proof (cases "rdata i")
  case None
  let ?r = "set_th t (\<lambda>x. x\<lparr>shepherd_ptr := my_id, blockedon := 0\<rparr>)
      (set_struct t (i\<lparr>rdata := Some \<lparr>has_stack = \<not> simple (th r t), tasklocal_size = 0\<rparr>\<rparr>) r)"
  have "static ?r"
    using static_parts(5) [OF assms(1), of t] assms(1,4) by (intro static_th static_struct) (auto simp: thread_ok_def)
  then show ?thesis
    using None assms by (auto simp: alloc_rdata_def struct_ok_def)
next
  case (Some x)
  have "static (set_th t (\<lambda>x. x\<lparr>shepherd_ptr := my_id\<rparr>) r)"
    using static_parts(5) [OF assms(1), of t] assms(1,4) by (intro static_th) (auto simp: thread_ok_def)
  then show ?thesis
    using Some assms by (intro exI [of _ "set_th t (\<lambda>x. x\<lparr>shepherd_ptr := my_id\<rparr>) r"] exI [of _ i] exI [of _ "blockedon (th r t)"])
      (auto simp: struct_ok_def)
qed

text \<open>Handing a ready thread on to shepherd \<open>d\<close>.\<close>

lemma hand_on_ok:
  assumes "static r" "structs r t = Some i" "typed (length (user_queues r)) At_ready (th r t) i" "d < nshepherds (qlib r)"
  shows "\<exists>r'. enq (sched lops) d t (set_th t (\<lambda>x. x\<lparr>shepherd_ptr := d\<rparr>) r) = Some r' \<and> static r' \<and> only t r r'
    \<and> qlib r' = qlib r \<and> typed_at r' At_ready t \<and> rplaced tasks r' = add_mset (At_ready, t) (rplaced tasks r)"
proof -
  let ?r = "set_th t (\<lambda>x. x\<lparr>shepherd_ptr := d\<rparr>) r"
  have st: "static ?r"
    using static_parts(5) [OF assms(1), of t] assms(1,4) by (intro static_th) (auto simp: thread_ok_def)
  obtain q where q: "enq (sched lops) d t ?r = Some (set_ready q ?r)" "static (set_ready q ?r)"
      "rplaced tasks (set_ready q ?r) = add_mset (At_ready, t) (rplaced tasks ?r)"
    using enq_ok [OF st, of d t] assms(4) by auto
  have "typed_at (set_ready q ?r) At_ready t"
    using assms(2,3) by (auto simp: typed_at_def typed_def)
  then show ?thesis
    using q by auto
qed

lemma dispatch_ok:
  assumes st: "static r" and i: "structs r t = Some i" and ty: "typed (length (user_queues r)) At_ready (th r t) i"
    and my: "my_id < nshepherds (qlib r)"
  shows "\<exists>r' d. master_dispatch (sched lops) qlen coin my_id t r = Some (r', d) \<and> dispatch_result t r r' d"
proof (cases "thread_state (th r t) = TERM_SHEP")
  case True
  then show ?thesis
    using free_ok [OF st i] i ty by (auto simp: master_dispatch_def dispatch_result_def typed_def)
next
  case False
  have sok: "struct_ok (th r t) i" and f: "tfun i \<noteq> 0 \<or> mccoy (th r t)"
    and stt: "thread_state (th r t) = NEW
      \<or> (thread_state (th r t) = RUNNING \<or> thread_state (th r t) = YIELDED \<and> mccoy (th r t)) \<and> rdata i \<noteq> None \<and> \<not> simple (th r t)"
    using ty False by (auto simp: typed_def)
  obtain r1 i1 b where r1: "(if rdata i = None then alloc_rdata my_id t r else Some (set_th t (\<lambda>x. x\<lparr>shepherd_ptr := my_id\<rparr>) r)) = Some r1"
      "structs r1 t = Some i1" "rdata i1 \<noteq> None" "tfun i1 = tfun i" "struct_ok (th r1 t) i1"
      "th r1 t = (th r t)\<lparr>shepherd_ptr := my_id, blockedon := b\<rparr>" "static r1" "only t r r1" "qlib r1 = qlib r"
      "rplaced tasks r1 = rplaced tasks r" "user_queues r1 = user_queues r"
    using settled_ok [OF st i sok my] by blast
  have ty1: "typed (length (user_queues r1)) At_ready (th r1 t) i1"
    using r1(3-6) f stt by (auto simp: typed_def)
  have tgt: "target_shepherd (th r t) = Some d \<Longrightarrow> d < nshepherds (qlib r)" for d
    using static_parts(5) [OF st, of t] by (simp add: thread_ok_def)
  have act: "is_active (qlib r) d = Some (shep_active (shepherds (qlib r) ! d))" if "d < nshepherds (qlib r)" for d
    using that by (simp add: is_active_def)
  have hand: "\<exists>r'. enq (sched lops) d t (set_th t (\<lambda>x. x\<lparr>shepherd_ptr := d\<rparr>) r1) = Some r' \<and> dispatch_result t r r' Requeued"
    if "d < nshepherds (qlib r)" for d
    using hand_on_ok [OF r1(7,2) ty1, of d] that r1(8-10) by (fastforce simp: dispatch_result_def only_def)
  define home where "home = (case target_shepherd (th r t) of None \<Rightarrow> False
      | Some d \<Rightarrow> d \<noteq> my_id \<and> shep_active (shepherds (qlib r) ! d))"
  have home: "(case target_shepherd (th r t) of None \<Rightarrow> Some False
      | Some d \<Rightarrow> if d \<noteq> my_id then is_active (qlib r1) d else Some False) = Some home"
    using tgt act r1(9) by (auto simp: home_def split: option.splits)
  have pre: "master_dispatch (sched lops) qlen coin my_id t r =
      (if home then do { r' \<leftarrow> enq (sched lops) (the (target_shepherd (th r t))) t
                          (set_th t (\<lambda>x. x\<lparr>shepherd_ptr := the (target_shepherd (th r t))\<rparr>) r1); Some (r', Requeued) }
       else if \<not> shep_active (shepherds (qlib r) ! my_id) then
         (let near = (case target_shepherd (th r t) of None \<Rightarrow> my_id | Some d \<Rightarrow> d)
          in do { (if near = my_id then c_assert (sorted_sheplist (shepherds (qlib r) ! my_id) \<noteq> None
                                           \<and> shep_dists (shepherds (qlib r) ! my_id) \<noteq> None) else Some ());
                  x \<leftarrow> qthread_find_active_shepherd qlen coin (qlib r) (sorted_sheplist (shepherds (qlib r) ! near))
                         (shep_dists (shepherds (qlib r) ! near));
                  d \<leftarrow> x;
                  r' \<leftarrow> enq (sched lops) d t (set_th t (\<lambda>x. x\<lparr>shepherd_ptr := d\<rparr>) r1);
                  Some (r', Requeued) })
       else do { r' \<leftarrow> qthread_exec t r1; Some (r', Running) })"
    using i False stt f r1(1,9) home act [OF my] unfolding master_dispatch_def by (auto simp: Let_def)
  show ?thesis
  proof (cases home)
    case True
    then obtain d where "target_shepherd (th r t) = Some d" "d < nshepherds (qlib r)"
      using tgt by (auto simp: home_def split: option.splits)
    then show ?thesis
      using hand [of d] True unfolding pre by auto
  next
    case nh: False
    show ?thesis
    proof (cases "shep_active (shepherds (qlib r) ! my_id)")
      case True
      have "simple (th r1 t) \<longrightarrow> thread_state (th r1 t) = NEW"
        using stt r1(6) by auto
      then obtain r' where "qthread_exec t r1 = Some r'" "dispatch_result t r r' Running"
        using r1 f stt static_parts(5) [OF r1(7), of t] static_th [OF r1(7), of "\<lambda>x. x\<lparr>thread_state := RUNNING\<rparr>" t]
        by (auto simp: qthread_exec_def dispatch_result_def typed_at_def typed_def thread_ok_def)
      then show ?thesis
        using nh True unfolding pre by auto
    next
      case na: False
      define near where "near = (case target_shepherd (th r t) of None \<Rightarrow> my_id | Some d \<Rightarrow> d)"
      have "near < nshepherds (qlib r)" "\<not> shep_active (shepherds (qlib r) ! near)"
        using nh na my tgt by (auto simp: near_def home_def split: option.splits)
      then obtain d xs ds where d: "sorted_sheplist (shepherds (qlib r) ! near) = Some xs"
          "shep_dists (shepherds (qlib r) ! near) = Some ds"
          "qthread_find_active_shepherd qlen coin (qlib r) (Some xs) (Some ds) = Some (Some d)" "d < nshepherds (qlib r)"
        using find_active_ok [OF static_parts(3) [OF st]] by blast
      then show ?thesis
        using hand [OF d(4)] nh na unfolding pre near_def [symmetric] Let_def by auto
    qed
  qed
qed

section \<open>Filing a thread away\<close>

definition cleanup_result :: "tid \<Rightarrow> 'q rt \<Rightarrow> 'q rt \<Rightarrow> bool" where
  "cleanup_result t r r' \<longleftrightarrow> static r' \<and> only t r r' \<and> qlib r' = qlib r \<and>
     (if thread_state (th r t) = TERMINATED then structs r' t = None \<and> rplaced tasks r' = rplaced tasks r
      else if thread_state (th r t) = FEB_BLOCKED then typed_at r' At_wait t \<and> rplaced tasks r' = rplaced tasks r
      else \<exists>p. typed_at r' p t \<and> rplaced tasks r' = add_mset (p, t) (rplaced tasks r))"

lemma cleanup_queue:
  assumes "static r" "structs r t = Some i" "typed (length (user_queues r)) At_back (th r t) i" "thread_state (th r t) = QUEUE"
  shows "\<exists>r'. master_cleanup lops my_id w t r = Some (r', True) \<and> cleanup_result t r r'"
proof -
  define k where "k = unat (blockedon (th r t))"
  have k: "k < length (user_queues r)" "\<not> simple (th r t)" "rdata i \<noteq> None" "tfun i \<noteq> 0 \<or> mccoy (th r t)" "struct_ok (th r t) i"
    using assms(3,4) by (auto simp: typed_def k_def)
  have ok: "queue_ok (user_queues r ! k)" "sheap_alloc_ok (node_alloc r)"
    using assms(1) k(1) by (auto simp: static_ok_def)
  obtain q h where q: "qthread_queue_internal_enqueue (node_alloc r) (fst (user_queues r ! k)) t (snd (user_queues r ! k)) = Some (q, h)"
      "queue_ok (q, h)" "queue_items (q, h) = queue_items (user_queues r ! k) @ [t]"
    using user_enqueue_ok [OF ok] by blast
  let ?r = "r\<lparr>user_queues := (user_queues r)[k := (q, h)]\<rparr>"
  have "queued ?r = add_mset t (queued r)"
    using queued_update [OF k(1), of "(q, h)"] q(3) by simp
  then have pl: "rplaced tasks ?r = add_mset (At_queue, t) (rplaced tasks r)"
    by (simp add: rplaced_def)
  have "static ?r"
    using assms(1) q(2) set_update_subset_insert [of "user_queues r" k "(q, h)"] by (auto simp: static_ok_def)
  moreover have "typed_at ?r At_queue t"
    using assms(2,4) k by (simp add: typed_at_def typed_def)
  moreover have "master_cleanup lops my_id w t r = Some (?r, True)"
    using assms(2,4) q(1) k(1) by (simp add: master_cleanup_def k_def [symmetric])
  ultimately show ?thesis
    using pl assms(4) by (auto simp: cleanup_result_def)
qed

lemma cleanup_ok:
  assumes st: "static r" and i: "structs r t = Some i" and ty: "typed (length (user_queues r)) At_back (th r t) i"
    and my: "my_id < nshepherds (qlib r)"
  shows "\<exists>r'. master_cleanup lops my_id w t r = Some (r', True) \<and> cleanup_result t r r'"
proof -
  let ?run = "set_th t (\<lambda>x. x\<lparr>thread_state := RUNNING\<rparr>) r"
  have run: "static ?run" and so: "struct_ok (th r t) i"
    using static_parts(5) [OF st, of t] st ty by (auto simp: typed_def thread_ok_def intro!: static_th)
  consider "thread_state (th r t) = TERMINATED" "\<not> mccoy (th r t)" | "thread_state (th r t) = QUEUE" | "thread_state (th r t) = FEB_BLOCKED"
    | "thread_state (th r t) = YIELDED" "\<not> simple (th r t)" "rdata i \<noteq> None" "tfun i \<noteq> 0 \<or> mccoy (th r t)"
    | "thread_state (th r t) = SYSCALL" "\<not> simple (th r t)" "rdata i \<noteq> None" "tfun i \<noteq> 0 \<or> mccoy (th r t)"
    | "thread_state (th r t) = MIGRATING" "\<not> simple (th r t)" "rdata i \<noteq> None" "tfun i \<noteq> 0 \<or> mccoy (th r t)" "target_shepherd (th r t) \<noteq> None"
    using ty by (auto simp: typed_def)
  then show ?thesis
  proof cases
    case 1
    then show ?thesis
      using free_ok [OF st i so] i by (auto simp: master_cleanup_def cleanup_result_def)
  next
    case 2
    then show ?thesis
      using cleanup_queue [OF st i ty] by blast
  next
    case 3
    then show ?thesis
      using st i ty by (auto simp: master_cleanup_def cleanup_result_def typed_at_def typed_def)
  next
    case 4
    obtain q where q: "enqueue_yielded lops my_id t (flags (th r t)) (rdy r) = Some q" "qinv q"
        "tasks q = add_mset t (tasks (rdy r))" "nsheps q = nsheps (rdy r)"
      using yielded_law [OF static_parts(1) [OF st], of my_id t "flags (th r t)"] my static_parts(2) [OF st] by auto
    have "static (set_ready q ?run)"
      using static_ready [OF run q(2)] q(4) static_parts(2) [OF st] by simp
    moreover have "rplaced tasks (set_ready q ?run) = add_mset (At_ready, t) (rplaced tasks r)"
      using rplaced_ready [where tasks = tasks and r = ?run and q = q and t = t] q(3) by simp
    moreover have "typed_at (set_ready q ?run) At_ready t"
      using i so 4 by (simp add: typed_at_def typed_def)
    ultimately show ?thesis
      using 4 i q(1) by (auto simp: master_cleanup_def cleanup_result_def)
  next
    case 5
    let ?r = "?run\<lparr>io_queue := io_queue r @ [t]\<rparr>"
    have "static ?r"
      using run by (simp add: static_ok_def)
    moreover have "rplaced tasks ?r = add_mset (At_io, t) (rplaced tasks r)"
      by (simp add: rplaced_def queued_def)
    moreover have "typed_at ?r At_io t"
      using i so 5 by (simp add: typed_at_def typed_def)
    ultimately show ?thesis
      using 5 i by (auto simp: master_cleanup_def cleanup_result_def)
  next
    case 6
    then obtain d where d: "target_shepherd (th r t) = Some d" "d < nshepherds (qlib r)"
      using static_parts(5) [OF st, of t] by (auto simp: thread_ok_def)
    have "typed (length (user_queues ?run)) At_ready (th ?run t) i" "structs ?run t = Some i"
      using i so 6 by (simp_all add: typed_def)
    then obtain r' where "enq (sched lops) d t (set_th t (\<lambda>x. x\<lparr>shepherd_ptr := d\<rparr>) ?run) = Some r'" "static r'" "only t ?run r'"
        "qlib r' = qlib ?run" "typed_at r' At_ready t" "rplaced tasks r' = add_mset (At_ready, t) (rplaced tasks ?run)"
      using hand_on_ok [OF run, of t i d] d(2) by auto
    then show ?thesis
      using 6 i d(1) by (auto simp: master_cleanup_def cleanup_result_def only_def)
  qed
qed

section \<open>The steps\<close>

abbreviation inv :: "'q sys \<Rightarrow> bool" where
  "inv \<equiv> sys_inv qinv tasks nsheps"

lemma worker_in_range: "inv s \<Longrightarrow> w < length (wks s) \<Longrightarrow> wks s ! w = (sh, pc) \<Longrightarrow> sh < nshepherds (qlib (rts s))"
  by (metis fst_conv nth_mem sys_inv_def)

lemma workers_in_range:
  assumes "inv s" "w < length (wks s)" "wks s ! w = (sh, pc)"
  shows "\<forall>x \<in> set ((wks s)[w := (sh, pc')]). fst x < nshepherds (qlib (rts s))"
  using assms worker_in_range [OF assms] set_update_subset_insert [of "wks s" w "(sh, pc')"] by (auto simp: sys_inv_def)

lemma inv_static: "inv s \<Longrightarrow> static (rts s)"
  by (simp add: sys_inv_def)

lemma placed_typed:
  assumes "inv s" "(p, t) \<in># placed tasks s"
  shows "\<exists>i. structs (rts s) t = Some i \<and> typed (length (user_queues (rts s))) p (th (rts s) t) i"
  using assms by (fastforce simp: sys_inv_def typed_at_def split: option.splits)

lemma worker_typed:
  assumes "inv s" "w < length (wks s)" "wplace (snd (wks s ! w)) = {#(p, t)#}"
  shows "\<exists>i. structs (rts s) t = Some i \<and> typed (length (user_queues (rts s))) p (th (rts s) t) i"
  using placed_typed [OF assms(1), of p t] wplaces_aside(1) [OF assms(2)] assms(3) by (simp add: placed_rplaced)

text \<open>A running thread changes its own state, and stays or leaves.\<close>

lemma run_step:
  assumes inv: "inv s" and w: "w < length (wks s)" "wks s ! w = (sh, W_run t)"
    and r: "static r" "only t (rts s) r" "qlib r = qlib (rts s)" "rplaced tasks r = rplaced tasks (rts s)"
    and p: "wplace pc = {#(p, t)#}" "typed_at r p t"
  shows "inv (s\<lparr>rts := r, wks := (wks s)[w := (sh, pc)]\<rparr>)"
proof (rule inv_move [OF inv])
  let ?M = "rplaced tasks (rts s) + (aside w (wks s) + image_mset (Pair At_wait) (febwait s))"
  show "placed tasks s = add_mset (At_run, t) ?M"
    using wplaces_aside(1) [OF w(1)] w(2) by (simp add: placed_rplaced)
  show "placed tasks (s\<lparr>rts := r, wks := (wks s)[w := (sh, pc)]\<rparr>) = add_mset (p, t) ?M"
    using wplaces_aside(2) [OF w(1), of sh pc] p(1) r(4) by (simp add: placed_rplaced)
qed (use r p(2) workers_in_range [OF inv w, of pc] in auto)

text \<open>A thread that waits somewhere becomes ready.\<close>

lemma ready_step:
  assumes inv: "inv s" and p: "placed tasks s = add_mset (p, t) M" "placed tasks s' = add_mset (At_ready, t) M"
    and s': "static (rts s')" "only t (rts s) (rts s')" "qlib (rts s') = qlib (rts s)" "wks s' = wks s" "typed_at (rts s') At_ready t"
  shows "inv s'"
  using inv_move [OF inv p s'(1-3) _ s'(5)] inv s'(4) by (simp add: sys_inv_def)

end

end
