(* ===== verification/Workers_Props.thy ===== *)
theory Workers_Props
  imports Workers_Inv
begin

text \<open>Every step of the workers keeps the invariant; the properties of \<open>qthread.c\<close>.\<close>

section \<open>Preservation\<close>

lemma only_left [simp]: "only t (set_ready q r) r' = only t r r'"
  by (simp add: only_def)

lemma or_disjoint_and: "a AND b = 0 \<Longrightarrow> (f OR a) AND b = f AND b" for a b f :: "'a::len word"
  by (simp add: bit.conj_disj_distrib2)

lemma andnot_disjoint_and: "a AND b = 0 \<Longrightarrow> (f AND NOT a) AND b = f AND b" for a b f :: "'a::len word"
proof (rule bit_word_eqI)
  fix n
  assume d: "a AND b = 0" and n: "n < LENGTH('a)"
  have "\<not> (bit a n \<and> bit b n)"
    using arg_cong [OF d, of "\<lambda>w. bit w n"] by (simp add: bit_and_iff)
  then show "bit ((f AND NOT a) AND b) n = bit (f AND b) n"
    using n by (auto simp: bit_and_iff bit_not_iff)
qed

lemma flag_bits: "QTHREAD_UNSTEALABLE AND QTHREAD_REAL_MCCOY = 0" "QTHREAD_UNSTEALABLE AND QTHREAD_SIMPLE = 0"
  "QTHREAD_UNSTEALABLE AND QTHREAD_HAS_ARGCOPY = 0" "QTHREAD_SIMPLE AND QTHREAD_HAS_ARGCOPY = 0"
  by (simp_all add: QTHREAD_UNSTEALABLE_def QTHREAD_REAL_MCCOY_def QTHREAD_SIMPLE_def QTHREAD_HAS_ARGCOPY_def)

lemma unstealable_irrelevant [simp]:
  "(f OR QTHREAD_UNSTEALABLE) AND QTHREAD_SIMPLE = f AND QTHREAD_SIMPLE"
  "(f AND NOT QTHREAD_UNSTEALABLE) AND QTHREAD_SIMPLE = f AND QTHREAD_SIMPLE"
  "(f OR QTHREAD_UNSTEALABLE) AND QTHREAD_REAL_MCCOY = f AND QTHREAD_REAL_MCCOY"
  "(f AND NOT QTHREAD_UNSTEALABLE) AND QTHREAD_REAL_MCCOY = f AND QTHREAD_REAL_MCCOY"
  "(f OR QTHREAD_UNSTEALABLE) AND QTHREAD_HAS_ARGCOPY = f AND QTHREAD_HAS_ARGCOPY"
  "(f AND NOT QTHREAD_UNSTEALABLE) AND QTHREAD_HAS_ARGCOPY = f AND QTHREAD_HAS_ARGCOPY"
  by (simp_all add: or_disjoint_and andnot_disjoint_and flag_bits)

context scheduler
begin

lemma step_fetch_again:
  assumes inv: "inv s" and w: "w < length (wks s)" "wks s ! w = (sh, W_fetch)"
    and g: "get_thread lops fls sh w a (rdy (rts s)) = Some (q, None)"
  shows "inv (s\<lparr>rts := set_ready q (rts s)\<rparr>)"
proof -
  note st = inv_static [OF inv]
  have q: "qinv q" "nsheps q = nshepherds (qlib (rts s))" "tasks q = tasks (rdy (rts s))"
    using get_law [OF static_parts(1) [OF st], of sh fls w a] worker_in_range [OF inv w] g static_parts(2) [OF st] by auto
  show ?thesis
  proof (rule inv_same [OF inv])
    show "placed tasks (s\<lparr>rts := set_ready q (rts s)\<rparr>) = placed tasks s"
      using q(3) by (simp add: placed_def queued_def)
  qed (use static_ready [OF st q(1,2)] in simp_all)
qed

lemma fetched:
  assumes inv: "inv s" and w: "w < length (wks s)" "wks s ! w = (sh, W_fetch)"
    and g: "get_thread lops fls sh w a (rdy (rts s)) = Some (q, Some t)"
  shows "\<exists>r d. master_dispatch (sched lops) qlen coin sh t (set_ready q (rts s)) = Some (r, d)
      \<and> dispatch_result t (set_ready q (rts s)) r d"
    and "rplaced tasks (rts s) = add_mset (At_ready, t) (rplaced tasks (set_ready q (rts s)))"
proof -
  note st = inv_static [OF inv]
  let ?r = "set_ready q (rts s)"
  have q: "qinv q" "nsheps q = nshepherds (qlib (rts s))" "tasks (rdy (rts s)) = add_mset t (tasks q)"
    using get_law [OF static_parts(1) [OF st], of sh fls w a] worker_in_range [OF inv w] g static_parts(2) [OF st] by auto
  show p: "rplaced tasks (rts s) = add_mset (At_ready, t) (rplaced tasks ?r)"
    using q(3) by (simp add: rplaced_def queued_def)
  then have "(At_ready, t) \<in># placed tasks s"
    by (simp add: placed_rplaced)
  then obtain i where "structs ?r t = Some i" "typed (length (user_queues ?r)) At_ready (th ?r t) i"
    using placed_typed [OF inv] by auto
  then show "\<exists>r d. master_dispatch (sched lops) qlen coin sh t ?r = Some (r, d) \<and> dispatch_result t ?r r d"
    using dispatch_ok [OF static_ready [OF st q(1,2)], of t _ sh qlen coin] worker_in_range [OF inv w] by simp
qed

lemma step_fetch:
  assumes inv: "inv s" and w: "w < length (wks s)" "wks s ! w = (sh, W_fetch)"
    and g: "get_thread lops fls sh w a (rdy (rts s)) = Some (q, Some t)"
    and d: "master_dispatch (sched lops) qlen coin sh t (set_ready q (rts s)) = Some (r, d)"
  shows "inv (s\<lparr>rts := r, wks := (wks s)[w := (sh, case d of Finished \<Rightarrow> W_done | Requeued \<Rightarrow> W_fetch | Running \<Rightarrow> W_run t)]\<rparr>)"
    (is "inv ?s")
proof -
  let ?r = "set_ready q (rts s)" and ?pc = "case d of Finished \<Rightarrow> W_done | Requeued \<Rightarrow> W_fetch | Running \<Rightarrow> W_run t"
  let ?M = "rplaced tasks ?r + (aside w (wks s) + image_mset (Pair At_wait) (febwait s))"
  have res: "dispatch_result t ?r r d"
    using fetched(1) [OF inv w g, of qlen coin] d by auto
  have old: "placed tasks s = add_mset (At_ready, t) ?M"
    using fetched(2) [OF inv w g] wplaces_aside(1) [OF w(1)] w(2) by (simp add: placed_rplaced)
  have new: "placed tasks ?s = rplaced tasks r + (wplace ?pc + aside w (wks s) + image_mset (Pair At_wait) (febwait s))"
    using wplaces_aside(2) [OF w(1), of sh ?pc] by (simp add: placed_rplaced)
  have rng: "\<forall>x \<in> set (wks ?s). fst x < nshepherds (qlib (rts s))"
    using workers_in_range [OF inv w, of ?pc] by simp
  show ?thesis
  proof (cases d)
    case Finished
    then show ?thesis
      using inv_drop [OF inv old, of ?s] new res rng by (simp add: dispatch_result_def)
  next
    case Requeued
    then show ?thesis
      using inv_move [OF inv old, of ?s] new res rng by (simp add: dispatch_result_def)
  next
    case Running
    then show ?thesis
      using inv_move [OF inv old, of ?s] new res rng by (simp add: dispatch_result_def)
  qed
qed

lemma cleaned:
  assumes "inv s" "w < length (wks s)" "wks s ! w = (sh, W_back t)"
  shows "\<exists>r. master_cleanup lops sh w t (rts s) = Some (r, True) \<and> cleanup_result t (rts s) r"
  using worker_typed [OF assms(1,2), of At_back t] cleanup_ok [OF inv_static [OF assms(1)], of t _ sh w]
    worker_in_range [OF assms] assms(3) by auto

lemma step_cleanup:
  assumes inv: "inv s" and w: "w < length (wks s)" "wks s ! w = (sh, W_back t)"
    and c: "master_cleanup lops sh w t (rts s) = Some (r, b)"
  shows "inv (s\<lparr>rts := r, wks := (wks s)[w := (sh, if b then W_fetch else W_back t)],
      febwait := (if thread_state (th (rts s) t) = FEB_BLOCKED then add_mset t (febwait s) else febwait s)\<rparr>)"
    (is "inv ?s")
proof -
  let ?M = "rplaced tasks (rts s) + (aside w (wks s) + image_mset (Pair At_wait) (febwait s))"
  have res: "cleanup_result t (rts s) r" "b"
    using cleaned [OF inv w] c by auto
  have old: "placed tasks s = add_mset (At_back, t) ?M"
    using wplaces_aside(1) [OF w(1)] w(2) by (simp add: placed_rplaced)
  have new: "placed tasks ?s = rplaced tasks r + (aside w (wks s) + image_mset (Pair At_wait) (febwait ?s))"
    using wplaces_aside(2) [OF w(1), of sh W_fetch] res(2) by (simp add: placed_rplaced)
  have rng: "\<forall>x \<in> set (wks ?s). fst x < nshepherds (qlib (rts s))"
    using workers_in_range [OF inv w] by simp
  consider "thread_state (th (rts s) t) = TERMINATED" | "thread_state (th (rts s) t) = FEB_BLOCKED"
    | p where "thread_state (th (rts s) t) \<noteq> FEB_BLOCKED" "typed_at r p t" "rplaced tasks r = add_mset (p, t) (rplaced tasks (rts s))"
    using res(1) by (auto simp: cleanup_result_def split: if_splits)
  then show ?thesis
  proof cases
    case 1
    then show ?thesis
      using inv_drop [OF inv old, of ?s] new res(1) rng by (simp add: cleanup_result_def)
  next
    case 2
    then show ?thesis
      using inv_move [OF inv old, of ?s At_wait] new res(1) rng by (simp add: cleanup_result_def)
  next
    case (3 p)
    then show ?thesis
      using inv_move [OF inv old, of ?s p] new res(1) rng by (simp add: cleanup_result_def)
  qed
qed

text \<open>The calls of a running thread.\<close>

lemma run_update:
  assumes inv: "inv s" and w: "w < length (wks s)" "wks s ! w = (sh, W_run t)"
    and f: "thread_ok (nshepherds (qlib (rts s))) (f (th (rts s) t))"
    and p: "wplace pc = {#(p, t)#}"
      "\<And>i. structs (rts s) t = Some i \<Longrightarrow> typed (length (user_queues (rts s))) At_run (th (rts s) t) i
         \<Longrightarrow> typed (length (user_queues (rts s))) p (f (th (rts s) t)) i"
  shows "inv (s\<lparr>rts := set_th t f (rts s), wks := (wks s)[w := (sh, pc)]\<rparr>)"
proof -
  obtain i where "structs (rts s) t = Some i" "typed (length (user_queues (rts s))) At_run (th (rts s) t) i"
    using worker_typed [OF inv w(1), of At_run t] w(2) by auto
  then show ?thesis
    using run_step [OF inv w static_th [where f = f, OF inv_static [OF inv] f], of pc p] p by (simp add: typed_at_def)
qed

lemmas back_defs = qthread_yield_def qthread_back_to_master_def qthread_queue_join_def wrapper_terminates_def

lemma thread_ok_now: "inv s \<Longrightarrow> thread_ok (nshepherds (qlib (rts s))) (th (rts s) t)"
  by (rule static_parts(5) [OF inv_static])

lemma step_back:
  assumes inv: "inv s" and w: "w < length (wks s)" "wks s ! w = (sh, W_run t)"
    and r: "r = set_th t (\<lambda>x. x\<lparr>thread_state := a, blockedon := p\<rparr>) (rts s)" "\<not> simple (th (rts s) t)"
    and a: "a = YIELDED \<or> a = FEB_BLOCKED \<or> a = SYSCALL \<or> a = QUEUE \<and> unat p < length (user_queues (rts s))"
  shows "inv (s\<lparr>rts := r, wks := (wks s)[w := (sh, W_back t)]\<rparr>)"
  unfolding r(1) by (rule run_update [OF inv w, where p = At_back])
    (use a r(2) thread_ok_now [OF inv, of t] in \<open>auto simp: typed_def thread_ok_def\<close>)

lemma step_yield:
  assumes inv: "inv s" and w: "w < length (wks s)" "wks s ! w = (sh, W_run t)" and r: "qthread_yield 0 t (rts s) = Some r"
  shows "inv (s\<lparr>rts := r, wks := (wks s)[w := (sh, W_back t)]\<rparr>)"
proof -
  have "r = set_th t (\<lambda>x. x\<lparr>thread_state := YIELDED, blockedon := blockedon (th (rts s) t)\<rparr>) (rts s)" "\<not> simple (th (rts s) t)"
    using r by (auto simp: back_defs set_th_def upd_thread_def split: if_splits)
  then show ?thesis
    using step_back [OF inv w] by blast
qed

lemma step_exit:
  assumes inv: "inv s" and w: "w < length (wks s)" "wks s ! w = (sh, W_run t)" "\<not> mccoy (th (rts s) t)"
  shows "inv (s\<lparr>rts := wrapper_terminates t (rts s), wks := (wks s)[w := (sh, W_back t)]\<rparr>)"
  unfolding wrapper_terminates_def
  by (rule run_update [OF inv w(1,2), where p = At_back]) (use w(3) thread_ok_now [OF inv, of t] in \<open>auto simp: typed_def thread_ok_def\<close>)

lemma step_migrate:
  assumes inv: "inv s" and w: "w < length (wks s)" "wks s ! w = (sh, W_run t)"
    and m: "qthread_migrate_to t d (rts s) = Some (r, c, b)"
  shows "inv (s\<lparr>rts := r, wks := (wks s)[w := (sh, if b then W_back t else W_run t)]\<rparr>)"
proof -
  let ?x = "th (rts s) t"
  have ok: "thread_ok (nshepherds (qlib (rts s))) ?x"
    by (rule thread_ok_now [OF inv])
  consider "r = rts s" "\<not> b"
    | "r = set_th t (\<lambda>x. x\<lparr>target_shepherd := Some (shepherd_ptr ?x), flags := flags x OR QTHREAD_UNSTEALABLE\<rparr>) (rts s)" "\<not> b"
    | "r = set_th t (\<lambda>x. x\<lparr>target_shepherd := None, flags := flags x AND NOT QTHREAD_UNSTEALABLE\<rparr>) (rts s)" "\<not> b"
    | e where "r = set_th t (\<lambda>x. x\<lparr>target_shepherd := Some e, thread_state := MIGRATING, flags := flags x OR QTHREAD_UNSTEALABLE\<rparr>) (rts s)"
        "b" "e < nshepherds (qlib (rts s))" "\<not> simple ?x"
  proof -
    have "r = rts s \<and> \<not> b
      \<or> r = set_th t (\<lambda>x. x\<lparr>target_shepherd := Some (shepherd_ptr ?x), flags := flags x OR QTHREAD_UNSTEALABLE\<rparr>) (rts s) \<and> \<not> b
      \<or> r = set_th t (\<lambda>x. x\<lparr>target_shepherd := None, flags := flags x AND NOT QTHREAD_UNSTEALABLE\<rparr>) (rts s) \<and> \<not> b
      \<or> (\<exists>e. r = set_th t (\<lambda>x. x\<lparr>target_shepherd := Some e, thread_state := MIGRATING, flags := flags x OR QTHREAD_UNSTEALABLE\<rparr>) (rts s)
           \<and> b \<and> e < nshepherds (qlib (rts s)) \<and> \<not> simple ?x)"
      using m
      by (auto simp: qthread_migrate_to_def Let_def qthread_back_to_master_def split: if_splits option.splits)
    then show thesis
      using that by blast
  qed
  then show ?thesis
  proof cases
    case 1
    then show ?thesis
      using inv w list_update_id [of "wks s" w] by simp
  next
    case 2
    show ?thesis
      unfolding 2(1) using 2(2) ok
      by (intro run_update [OF inv w, where p = At_run]) (auto simp: typed_def thread_ok_def struct_ok_def split: option.splits)
  next
    case 3
    show ?thesis
      unfolding 3(1) using 3(2) ok
      by (intro run_update [OF inv w, where p = At_run]) (auto simp: typed_def thread_ok_def struct_ok_def split: option.splits)
  next
    case (4 e)
    show ?thesis
      unfolding 4(1) using 4(2-4) ok
      by (intro run_update [OF inv w, where p = At_back]) (auto simp: typed_def thread_ok_def struct_ok_def split: option.splits)
  qed
qed

text \<open>Threads that become ready again.\<close>

lemma step_wake:
  assumes inv: "inv s" and t: "t \<in># febwait s" "sh < nshepherds (qlib (rts s))"
    and f: "qt_feb_schedule (sched lops) t sh (feb (rts s)) = Some f"
  shows "inv (s\<lparr>rts := (rts s)\<lparr>feb := f\<rparr>, febwait := febwait s - {#t#}\<rparr>)" (is "inv ?s")
proof -
  let ?r = "set_th t (\<lambda>x. x\<lparr>thread_state := RUNNING\<rparr>) (rts s)"
  note st = inv_static [OF inv]
  obtain W where W: "febwait s = add_mset t W"
    using t(1) by (metis insert_DiffM)
  have old: "placed tasks s = add_mset (At_wait, t) (rplaced tasks (rts s) + (wplaces (wks s) + image_mset (Pair At_wait) W))"
    by (simp add: placed_rplaced W)
  obtain i where i: "structs (rts s) t = Some i" "typed (length (user_queues (rts s))) At_wait (th (rts s) t) i"
    using placed_typed [OF inv, of At_wait t] old by auto
  have ok: "thread_ok (nshepherds (qlib (rts s))) (th (rts s) t)"
    by (rule thread_ok_now [OF inv])
  then have run: "static ?r"
    using st by (intro static_th) (auto simp: thread_ok_def)
  obtain q where q: "f = (upd_thread t (\<lambda>x. x\<lparr>thread_state := RUNNING\<rparr>) (feb (rts s)))\<lparr>ready := q\<rparr>" "qinv q"
      "tasks q = add_mset t (tasks (rdy (rts s)))" "nsheps q = nshepherds (qlib (rts s))"
    using f enqueue_law [OF static_parts(1) [OF st], of "shepherd_ptr (th (rts s) t)" t "flags (th (rts s) t)"]
      spawn_or_enqueue_law [OF static_parts(1) [OF st], of sh t "flags (th (rts s) t)"] ok t(2) static_parts(2) [OF st]
    by (auto simp: qt_feb_schedule_def thread_ok_def Let_def split: if_splits)
  have r: "(rts s)\<lparr>feb := f\<rparr> = set_ready q ?r"
    unfolding q(1) by (simp add: set_ready_def set_th_def)
  show ?thesis
  proof (rule ready_step [OF inv old])
    show "placed tasks ?s = add_mset (At_ready, t) (rplaced tasks (rts s) + (wplaces (wks s) + image_mset (Pair At_wait) W))"
      using rplaced_ready [where tasks = tasks and r = ?r and q = q and t = t] q(3) by (simp add: placed_rplaced W r)
    show "typed_at (rts ?s) At_ready t"
      using i by (simp add: r typed_at_def typed_def)
  qed (use static_ready [OF run q(2)] q(4) in \<open>simp_all add: r\<close>)
qed

lemma step_io:
  assumes inv: "inv s" and t: "t \<in> set (io_queue (rts s))" and r: "io_resume (sched lops) t (rts s) = Some r"
  shows "inv (s\<lparr>rts := r\<rparr>)"
proof -
  note st = inv_static [OF inv]
  let ?M = "image_mset (Pair At_ready) (tasks (rdy (rts s))) + image_mset (Pair At_queue) (queued (rts s))
    + image_mset (Pair At_io) (mset (remove1 t (io_queue (rts s)))) + (wplaces (wks s) + image_mset (Pair At_wait) (febwait s))"
  have m: "mset (io_queue (rts s)) = add_mset t (mset (remove1 t (io_queue (rts s))))"
    using t by simp
  have old: "placed tasks s = add_mset (At_io, t) ?M"
    unfolding placed_rplaced rplaced_def m by (simp del: mset_remove1)
  obtain i where i: "structs (rts s) t = Some i" "typed (length (user_queues (rts s))) At_io (th (rts s) t) i"
    using placed_typed [OF inv, of At_io t] old by auto
  have "shepherd_ptr (th (rts s) t) < nsheps (rdy (rts s))"
    using thread_ok_now [OF inv, of t] static_parts(2) [OF st] by (simp add: thread_ok_def)
  then obtain q where q: "tq_enqueue (sched lops) (shepherd_ptr (th (rts s) t)) t (flags (th (rts s) t)) (rdy (rts s)) = Some q"
      "qinv q" "tasks q = add_mset t (tasks (rdy (rts s)))" "nsheps q = nshepherds (qlib (rts s))"
    using enqueue_law [OF static_parts(1) [OF st]] static_parts(2) [OF st] by fastforce
  have r: "r = (set_ready q (rts s))\<lparr>io_queue := remove1 t (io_queue (rts s))\<rparr>"
    using r q(1) by (simp add: io_resume_def enq_def)
  show ?thesis
  proof (rule ready_step [OF inv old])
    show "placed tasks (s\<lparr>rts := r\<rparr>) = add_mset (At_ready, t) ?M"
      using q(3) by (simp add: placed_rplaced rplaced_def queued_def r del: mset_remove1)
    show "typed_at (rts (s\<lparr>rts := r\<rparr>)) At_ready t"
      using i by (simp add: r typed_at_def typed_def)
    show "static (rts (s\<lparr>rts := r\<rparr>))"
      using static_ready [OF st q(2,4)] by (simp add: r static_ok_def)
  qed (simp_all add: r)
qed

lemma step_release:
  assumes inv: "inv s" and k: "k < length (user_queues (rts s))" "sh < nshepherds (qlib (rts s))"
    and l: "qthread_queue_release_one (sched lops) sh (fst (user_queues (rts s) ! k)) (snd (user_queues (rts s) ! k))
      (launch_view (rts s)) = Some (q, h, l)"
  shows "inv (s\<lparr>rts := (with_launch (rts s) l)\<lparr>user_queues := (user_queues (rts s))[k := (q, h)]\<rparr>\<rparr>)" (is "inv ?s")
proof -
  note st = inv_static [OF inv]
  let ?p = "user_queues (rts s) ! k"
  have "queue_ok ?p"
    using st k(1) by (simp add: static_ok_def)
  then obtain q1 h1 where d: "queue_dequeue (fst ?p) (snd ?p) = Some (q1, h1, case queue_items ?p of [] \<Rightarrow> None | y # ys \<Rightarrow> Some y)"
      "queue_ok (q1, h1)" "queue_items (q1, h1) = tl (queue_items ?p)"
    using user_dequeue_ok by blast
  let ?q2 = "case q1 of NEMESIS_LENGTH n \<Rightarrow> NEMESIS_LENGTH (n\<lparr>nem_length := nem_length n - 1\<rparr>) | _ \<Rightarrow> q1"
  have q2: "queue_ok (?q2, h1)" "queue_items (?q2, h1) = queue_items (q1, h1)"
    using d(2) by (cases q1; simp add: queue_ok_def queue_items_def)+
  obtain t ts where it: "queue_items ?p = t # ts"
    using l d(1) by (cases "queue_items ?p") (auto simp: qthread_queue_release_one_def)
  let ?c = "case target_shepherd (th (rts s) t) of None \<Rightarrow> sh | Some e \<Rightarrow> e"
  have ok: "thread_ok (nshepherds (qlib (rts s))) (th (rts s) t)"
    by (rule thread_ok_now [OF inv])
  then have c: "?c < nsheps (rdy (rts s))" "shepherd_ptr (th (rts s) t) < nsheps (rdy (rts s))"
    using k(2) static_parts(2) [OF st] by (auto simp: thread_ok_def split: option.splits)
  obtain l1 where l1: "qthread_queue_internal_launch (sched lops) t ?c (launch_view (rts s)) = Some l1" "qinv (lready l1)"
      "tasks (lready l1) = add_mset t (tasks (rdy (rts s)))" "nsheps (lready l1) = nsheps (rdy (rts s))"
      "lthreads l1 = (th (rts s))(t := (th (rts s) t)\<lparr>thread_state := RUNNING\<rparr>)"
    using launch_law [of "launch_view (rts s)" ?c t] c static_parts(1) [OF st] by (auto simp: launch_view_def)
  have eq: "q = ?q2" "h = h1" "l = l1"
    using l d(1) it l1(1) by (auto simp: qthread_queue_release_one_def launch_view_def Let_def)
  let ?r = "(with_launch (rts s) l)\<lparr>user_queues := (user_queues (rts s))[k := (q, h)]\<rparr>"
  have qd: "queued (rts s) = add_mset t (queued ?r)"
    using queued_update [OF k(1), of "(q, h)"] it d(3) q2(2) eq by (simp add: queued_def)
  let ?M = "image_mset (Pair At_ready) (tasks (rdy (rts s))) + image_mset (Pair At_queue) (queued ?r)
    + image_mset (Pair At_io) (mset (io_queue (rts s))) + (wplaces (wks s) + image_mset (Pair At_wait) (febwait s))"
  have old: "placed tasks s = add_mset (At_queue, t) ?M"
    by (simp add: placed_rplaced rplaced_def qd)
  obtain i where i: "structs (rts s) t = Some i" "typed (length (user_queues (rts s))) At_queue (th (rts s) t) i"
    using placed_typed [OF inv, of At_queue t] old by auto
  have stq: "\<forall>p \<in> set ((user_queues (rts s))[k := (q, h)]). queue_ok p"
    using st q2(1) eq set_update_subset_insert [of "user_queues (rts s)" k "(q, h)"] by (auto simp: static_ok_def)
  show ?thesis
  proof (rule ready_step [OF inv old])
    show "placed tasks ?s = add_mset (At_ready, t) ?M"
      using l1(3) eq(3) by (simp add: placed_rplaced rplaced_def with_launch_def)
    show "typed_at (rts ?s) At_ready t"
      using i l1(5) eq(3) by (simp add: typed_at_def typed_def with_launch_def)
    show "static (rts ?s)"
      using st stq l1(2,4,5) eq(3) ok by (auto simp: static_ok_def with_launch_def thread_ok_def)
    show "only t (rts s) (rts ?s)"
      using l1(5) eq(3) by (simp add: only_def with_launch_def)
  qed (simp_all add: with_launch_def)
qed

text \<open>New threads.\<close>

lemma new_step:
  assumes inv: "inv s" and t: "structs (rts s) t = None"
    and r: "static r" "only t (rts s) r" "qlib r = qlib (rts s)"
      "rplaced tasks r = add_mset (At_ready, t) (rplaced tasks (rts s))" "typed_at r At_ready t"
  shows "inv (s\<lparr>rts := r\<rparr>)"
  using inv_add [OF inv, of "s\<lparr>rts := r\<rparr>" At_ready t] t r by (simp add: placed_rplaced)

lemma static_new: "static r \<Longrightarrow> static (qthread_thread_new t f arg bytes ret junk r)"
  using static_parts(4) [of r]
  by (auto simp: qthread_thread_new_def Let_def thread_ok_def intro!: static_th static_struct)

lemma thread_new_fields:
  "only t r (qthread_thread_new t f arg bytes ret junk r)" "qlib (qthread_thread_new t f arg bytes ret junk r) = qlib r"
  "rplaced tasks (qthread_thread_new t f arg bytes ret junk r) = rplaced tasks r"
  "\<exists>i. structs (qthread_thread_new t f arg bytes ret junk r) t = Some i \<and> tfun i = f \<and> rdata i = None
     \<and> struct_ok (th (qthread_thread_new t f arg bytes ret junk r) t) i"
  "thread_state (th (qthread_thread_new t f arg bytes ret junk r) t) = NEW"
  by (auto simp: qthread_thread_new_def Let_def struct_ok_def QTHREAD_HAS_ARGCOPY_def QTHREAD_BIG_STRUCT_def)

lemma step_shutdown:
  assumes inv: "inv s" and t: "structs (rts s) t = None" "sh < nshepherds (qlib (rts s))"
    and f: "finalize_sentinel (sched lops) sh t junk (rts s) = Some r"
  shows "inv (s\<lparr>rts := r\<rparr>)"
proof -
  let ?n = "qthread_thread_new t 0 0 [] 0 junk (rts s)"
  let ?r = "set_th t (\<lambda>x. x\<lparr>thread_state := TERM_SHEP, flags := QTHREAD_UNSTEALABLE\<rparr>) ?n"
  have st: "static ?r"
    using static_new [OF inv_static [OF inv]] static_parts(5) [OF static_new [OF inv_static [OF inv]]]
    by (intro static_th) (auto simp: thread_ok_def)
  obtain q where q: "enq (sched lops) sh t ?r = Some (set_ready q ?r)" "static (set_ready q ?r)"
      "rplaced tasks (set_ready q ?r) = add_mset (At_ready, t) (rplaced tasks ?r)"
    using enq_ok [OF st, of sh t] t(2) thread_new_fields(2) by auto
  have r: "r = set_ready q ?r"
    using f q(1) by (simp add: finalize_sentinel_def)
  have ty: "typed_at r At_ready t"
    using thread_new_fields(4) [of t 0 0 "[]" 0 junk "rts s"]
    by (auto simp: r typed_at_def typed_def struct_ok_def flag_bits)
  show ?thesis
    by (rule new_step [OF inv t(1)]) (use q(2,3) ty thread_new_fields in \<open>simp_all add: r\<close>)
qed

text \<open>The new thread before the preparation of its return value and preconditions.\<close>

definition spawn_init :: "tid \<Rightarrow> u8 list \<Rightarrow> u64 \<Rightarrow> u64 \<Rightarrow> u8 list \<Rightarrow> u64 \<Rightarrow> u64 list option \<Rightarrow> shep_id option \<Rightarrow> shep_id \<Rightarrow> u32 \<Rightarrow> 'q rt
    \<Rightarrow> 'q rt" where
  "spawn_init t junk f arg bytes ret pre target dest feature r =
     (let r = qthread_thread_new t f arg bytes ret junk r;
          r = (if target \<noteq> None
                then set_th t (\<lambda>x. x\<lparr>target_shepherd := Some dest, flags := flags x OR QTHREAD_UNSTEALABLE\<rparr>) r else r);
          r = (case pre of Some ps \<Rightarrow> set_th t (\<lambda>x. x\<lparr>thread_state := NASCENT, preconds := Some ps\<rparr>) r | None \<Rightarrow> r)
      in if feature AND QTHREAD_SPAWN_SIMPLE \<noteq> 0 then set_th t (\<lambda>x. x\<lparr>flags := flags x OR QTHREAD_SIMPLE\<rparr>) r else r)"

lemma spawn_init_ok:
  assumes "static r" "dest < nshepherds (qlib r)" "f \<noteq> 0"
    and r'_def: "r' = spawn_init t junk f arg bytes ret None target dest feature r"
  shows "static r'" "only t r r'" "qlib r' = qlib r" "rplaced tasks r' = rplaced tasks r" "typed_at r' At_ready t"
    "thread_state (th r' t) = NEW"
proof -
  let ?n = "qthread_thread_new t f arg bytes ret junk r"
  obtain i where i: "structs ?n t = Some i" "tfun i = f" "rdata i = None" "struct_ok (th ?n t) i"
    using thread_new_fields(4) by blast
  have n: "static ?n" "thread_ok (nshepherds (qlib r)) (th ?n t)"
    using static_new [OF assms(1)] static_parts(5) [OF static_new [OF assms(1)]] thread_new_fields(2) by auto
  define r1 where "r1 = (if target \<noteq> None
      then set_th t (\<lambda>x. x\<lparr>target_shepherd := Some dest, flags := flags x OR QTHREAD_UNSTEALABLE\<rparr>) ?n else ?n)"
  have r1: "static r1" "thread_ok (nshepherds (qlib r)) (th r1 t)" "structs r1 t = Some i" "struct_ok (th r1 t) i"
      "only t r r1" "qlib r1 = qlib r" "rplaced tasks r1 = rplaced tasks r" "thread_state (th r1 t) = NEW"
    unfolding r1_def using n i assms(2) thread_new_fields
    by (auto simp: thread_ok_def struct_ok_def intro!: static_th)
  have r': "r' = (if feature AND QTHREAD_SPAWN_SIMPLE \<noteq> 0 then set_th t (\<lambda>x. x\<lparr>flags := flags x OR QTHREAD_SIMPLE\<rparr>) r1 else r1)"
    by (simp add: r'_def spawn_init_def Let_def r1_def)
  have fl: "(g OR QTHREAD_SIMPLE) AND QTHREAD_HAS_ARGCOPY = g AND QTHREAD_HAS_ARGCOPY" for g
    by (simp add: or_disjoint_and flag_bits)
  show "static r'"
    unfolding r' using r1(1,2,6) by (auto simp: thread_ok_def intro!: static_th)
  show "only t r r'" "qlib r' = qlib r" "rplaced tasks r' = rplaced tasks r" "thread_state (th r' t) = NEW"
    unfolding r' using r1 by simp_all
  show "typed_at r' At_ready t"
    unfolding r' using r1(3,4,8) i(2,3) assms(3) by (auto simp: typed_at_def typed_def struct_ok_def fl)
qed

lemma typed_at_set_ready: "typed_at (set_ready q r) p t = typed_at r p t"
  by (auto simp: typed_at_def split: option.split)

lemma step_spawn:
  assumes inv: "inv s" and w: "w < length (wks s)" "wks s ! w = (sh, W_run m)"
    and t: "structs (rts s) t = None" "f \<noteq> 0"
    and sp: "qthread_spawn lops (Some m) t newp junk f arg bytes 0 None target feature (rts s) = Some (r, c)"
  shows "inv (s\<lparr>rts := r\<rparr>)"
proof -
  note st = inv_static [OF inv]
  let ?my = "shepherd_ptr (th (rts s) m)"
  let ?dest = "case target of Some d \<Rightarrow> d mod nshepherds (qlib (rts s)) | None \<Rightarrow> choose_dest lops (Some ?my)"
  have my: "?my < nsheps (rdy (rts s))"
    using thread_ok_now [OF inv, of m] static_parts(2) [OF st] by (simp add: thread_ok_def)
  have dest: "?dest < nshepherds (qlib (rts s))"
    using dest_law [of "rdy (rts s)" "Some ?my"] my static_parts(2,4) [OF st] by (auto split: option.splits)
  let ?r = "spawn_init t junk f arg bytes 0 None target ?dest feature (rts s)"
  note i = spawn_init_ok [OF st dest t(2) refl, of t junk arg bytes 0 target feature]
  have q: "nsheps (rdy ?r) = nshepherds (qlib (rts s))" "qinv (rdy ?r)"
    using static_parts [OF i(1)] i(3) by auto
  have "(if target = None
      then do { q \<leftarrow> spawn_or_enqueue (sched lops) ?dest t (flags (th ?r t)) (rdy ?r); Some (set_ready q ?r) }
      else enq (sched lops) ?dest t ?r) = Some r"
    using sp by (auto simp: qthread_spawn_def spawn_init_def Let_def bind_eq_Some_iff split: if_splits)
  moreover obtain q1 where "spawn_or_enqueue (sched lops) ?dest t (flags (th ?r t)) (rdy ?r) = Some q1" "qinv q1"
      "tasks q1 = add_mset t (tasks (rdy ?r))" "nsheps q1 = nsheps (rdy ?r)"
    using spawn_or_enqueue_law [OF q(2), of ?dest t "flags (th ?r t)"] dest q(1) by auto
  moreover obtain q2 where "tq_enqueue (sched lops) ?dest t (flags (th ?r t)) (rdy ?r) = Some q2" "qinv q2"
      "tasks q2 = add_mset t (tasks (rdy ?r))" "nsheps q2 = nsheps (rdy ?r)"
    using enqueue_law [OF q(2), of ?dest t "flags (th ?r t)"] dest q(1) by auto
  ultimately obtain q' where q': "r = set_ready q' ?r" "qinv q'" "tasks q' = add_mset t (tasks (rdy ?r))" "nsheps q' = nsheps (rdy ?r)"
    by (cases "target = None") (auto simp: enq_def)
  show ?thesis
  proof (rule new_step [OF inv t(1)])
    show "static r"
      unfolding q'(1) using static_ready [OF i(1) q'(2)] q'(4) q(1) i(3) by simp
    show "rplaced tasks r = add_mset (At_ready, t) (rplaced tasks (rts s))"
      unfolding q'(1) using rplaced_ready [where tasks = tasks, OF q'(3)] i(4) by simp
    show "typed_at r At_ready t"
      using i(5) unfolding q'(1) typed_at_set_ready .
  qed (use i(2,3) in \<open>simp_all add: q'(1)\<close>)
qed

text \<open>Shepherds are disabled and enabled.\<close>

lemma qlib_ok_set:
  assumes "qlib_ok l" "sh < nshepherds l" "b \<or> sh \<noteq> 0"
  shows "qlib_ok (set_shep sh (\<lambda>x. x\<lparr>shep_active := b\<rparr>) (l\<lparr>nshepherds_active := c\<rparr>))"
  using assms by (auto simp: qlib_ok_def set_shep_def nth_list_update)

lemma step_qlib:
  assumes inv: "inv s" and l: "qlib_ok l" "nshepherds l = nshepherds (qlib (rts s))"
  shows "inv (s\<lparr>rts := (rts s)\<lparr>qlib := l\<rparr>\<rparr>)"
  by (rule inv_same [OF inv]) (use l inv_static [OF inv] in \<open>simp_all add: static_ok_def placed_def queued_def\<close>)

lemma step_inv: "rt_step lops s s' \<Longrightarrow> inv s \<Longrightarrow> inv s'"
proof (induction rule: rt_step.induct)
  case (fetch_again w s sh a q)
  then show ?case
    by (blast intro: step_fetch_again)
next
  case (fetch w s sh a q t qlen coin r d)
  then show ?case
    by (blast intro: step_fetch)
next
  case (cleanup w s sh t r b)
  then show ?case
    by (blast intro: step_cleanup)
next
  case (yield w s sh t r)
  then show ?case
    by (blast intro: step_yield)
next
  case (migrate w s sh t d r c b)
  then show ?case
    by (blast intro: step_migrate)
next
  case (join w s sh t n r)
  then have "r = set_th t (\<lambda>x. x\<lparr>thread_state := QUEUE, blockedon := of_nat n\<rparr>) (rts s)" "\<not> simple (th (rts s) t)"
      "unat (of_nat n :: u64) = n"
    by (auto simp: back_defs unat_of_nat take_bit_nat_eq_self split: if_splits)
  then show ?case
    using step_back [OF join.prems join.hyps(1,2)] join.hyps(3) by simp
next
  case (block w s sh t p r)
  then have "r = set_th t (\<lambda>x. x\<lparr>thread_state := FEB_BLOCKED, blockedon := p\<rparr>) (rts s)" "\<not> simple (th (rts s) t)"
    by (auto simp: back_defs split: if_splits)
  then show ?case
    using step_back [OF block.prems block.hyps(1,2)] by blast
next
  case (syscall w s sh t p r)
  then have "r = set_th t (\<lambda>x. x\<lparr>thread_state := SYSCALL, blockedon := p\<rparr>) (rts s)" "\<not> simple (th (rts s) t)"
    by (auto simp: back_defs split: if_splits)
  then show ?case
    using step_back [OF syscall.prems syscall.hyps(1,2)] by blast
next
  case (exit w s sh t)
  then show ?case
    by (blast intro: step_exit)
next
  case (spawn w s sh t n f newp junk arg bytes target feature r c)
  then show ?case
    by (blast intro: step_spawn)
next
  case (wake t s sh f)
  then show ?case
    by (blast intro: step_wake)
next
  case (io t s r)
  then show ?case
    by (blast intro: step_io)
next
  case (release n s sh q h l)
  then show ?case
    by (blast intro: step_release)
next
  case (disable s sh l c)
  then have ok: "qlib_ok (qlib (rts s))"
    using static_parts(3) [OF inv_static] by blast
  have "qlib_ok l \<and> nshepherds l = nshepherds (qlib (rts s))"
    using disable.hyps qlib_ok_set [OF ok, of sh False] ok
    by (auto simp: qthread_disable_shepherd_def set_shep_def split: if_splits)
  then show ?case
    using step_qlib [OF disable.prems] by blast
next
  case (enable s sh l)
  then have ok: "qlib_ok (qlib (rts s))"
    using static_parts(3) [OF inv_static] by blast
  have "qlib_ok l \<and> nshepherds l = nshepherds (qlib (rts s))"
    using enable.hyps qlib_ok_set [OF ok, of sh True]
    by (auto simp: qthread_enable_shepherd_def set_shep_def split: if_splits)
  then show ?case
    using step_qlib [OF enable.prems] by blast
next
  case (shutdown sh s n junk r)
  then show ?case
    by (blast intro: step_shutdown)
qed

lemma run_inv: "(rt_step lops)\<^sup>*\<^sup>* s s' \<Longrightarrow> inv s \<Longrightarrow> inv s'"
  by (induction rule: rtranclp_induct) (auto intro: step_inv)

end

end
