(* ===== verification/Workers_Run.thy ===== *)
theory Workers_Run
  imports Workers_Props Feb_Props Syncvar_Props
begin

text \<open>
  The workers on the Sherwood scheduler: the start of the library, the interpretation of the interface \<open>scheduler\<close>,
  and the properties of the worker loop and of the delivery of return values.
\<close>

section \<open>Start\<close>

text \<open>\<open>qthread_initialize\<close> makes the calling thread a qthread, with no stack of its own, and puts it in the queue of
  shepherd 0; the workers then enter their loops.\<close>

definition mccoy_init :: "'q sched_ops \<Rightarrow> tid \<Rightarrow> u8 list \<Rightarrow> 'q rt \<Rightarrow> 'q rt option" where
  "mccoy_init ops t junk s =
     (let s = qthread_thread_new t 0 0 [] 0 junk s;
          s = set_th t (\<lambda>x. x\<lparr>thread_state := YIELDED, flags := QTHREAD_REAL_MCCOY OR QTHREAD_UNSTEALABLE\<rparr>) s
      in do {
           i \<leftarrow> structs s t;
           c_assert (rdata i = None);
           enq ops 0 t (set_th t (\<lambda>x. x\<lparr>shepherd_ptr := 0\<rparr>)
             (set_struct t (i\<lparr>rdata := Some \<lparr>has_stack = False, tasklocal_size = 0\<rparr>\<rparr>) s))
         })"

definition sys_start :: "'q rt \<Rightarrow> shep_id list \<Rightarrow> 'q sys" where
  "sys_start r shs = \<lparr>rts = r, wks = map (\<lambda>sh. (sh, W_fetch)) shs, febwait = {#}\<rparr>"

text \<open>The subsystems are set up and there is no thread yet.\<close>

definition no_threads :: "('q \<Rightarrow> tid multiset) \<Rightarrow> 'q rt \<Rightarrow> bool" where
  "no_threads tasks r \<longleftrightarrow> tasks (rdy r) = {#} \<and> dom (structs r) = {} \<and> queued r = {#} \<and> io_queue r = []"

text \<open>The Sherwood scheduler, with the list of victims that an affinity layer without topology sets up.\<close>

definition sw_loop_ops :: "(nat \<Rightarrow> nat \<Rightarrow> nat) \<Rightarrow> (shep_id \<Rightarrow> bool) \<Rightarrow> sw_state loop_ops" where
  "sw_loop_ops rnd got =
     \<lparr>sched = sw_ops, enqueue_yielded = sw_enqueue_yielded,
      get_thread = (\<lambda>fl sh wid act q.
        map_option (\<lambda>(q, r). (q, case r of Run t \<Rightarrow> Some t | Again \<Rightarrow> None))
          (get_thread_step fl got sh wid act (shuffle_sheps (rnd sh) 0 (others sh (sw_nsheps q))) q)),
      spawncache_yield = qt_spawncache_yield, choose_dest = qt_threadqueue_choose_dest\<rparr>"

context scheduler
begin

lemma start_inv:
  assumes "static r" "dom (structs r) = {t}" "typed_at r At_ready t" "rplaced tasks r = {#(At_ready, t)#}"
    and "set shs \<subseteq> {..<nshepherds (qlib r)}"
  shows "inv (sys_start r shs)"
proof -
  have "wplaces (map (\<lambda>sh. (sh, W_fetch)) shs) = {#}"
    by (induction shs) (simp_all add: wplaces_def wplace_def)
  then have p: "placed tasks (sys_start r shs) = {#(At_ready, t)#}"
    using assms(4) by (simp add: placed_rplaced sys_start_def)
  show ?thesis
    unfolding sys_inv_def p using assms by (auto simp: sys_start_def)
qed

lemma mccoy_init_ok:
  assumes st: "static r" and e: "no_threads tasks r"
  shows "\<exists>r'. mccoy_init (sched lops) t junk r = Some r' \<and> static r' \<and> qlib r' = qlib r
    \<and> (\<forall>shs. set shs \<subseteq> {..<nshepherds (qlib r)} \<longrightarrow> inv (sys_start r' shs))"
proof -
  let ?n = "qthread_thread_new t 0 0 [] 0 junk r"
  let ?y = "set_th t (\<lambda>x. x\<lparr>thread_state := YIELDED, flags := QTHREAD_REAL_MCCOY OR QTHREAD_UNSTEALABLE\<rparr>) ?n"
  obtain i where i: "structs ?n t = Some i" "rdata i = None"
    using thread_new_fields(4) by blast
  let ?i = "i\<lparr>rdata := Some \<lparr>has_stack = False, tasklocal_size = 0\<rparr>\<rparr>"
  let ?r = "set_th t (\<lambda>x. x\<lparr>shepherd_ptr := 0\<rparr>) (set_struct t ?i ?y)"
  have ok: "thread_ok (nshepherds (qlib r)) (th ?n t)" and n0: "0 < nshepherds (qlib r)"
    using static_parts(5) [OF static_new [OF st]] static_parts(4) [OF st] thread_new_fields(2) by auto
  have sr: "static ?r"
    using static_new [OF st] ok n0 thread_new_fields(2) by (intro static_th static_struct) (auto simp: thread_ok_def)
  obtain q where q: "enq (sched lops) 0 t ?r = Some (set_ready q ?r)" "static (set_ready q ?r)"
      "rplaced tasks (set_ready q ?r) = add_mset (At_ready, t) (rplaced tasks ?r)"
    using enq_ok [OF sr, of 0 t] n0 thread_new_fields(2) by auto
  have fl: "(QTHREAD_REAL_MCCOY OR QTHREAD_UNSTEALABLE) AND QTHREAD_REAL_MCCOY \<noteq> 0"
      "(QTHREAD_REAL_MCCOY OR QTHREAD_UNSTEALABLE) AND QTHREAD_SIMPLE = 0"
      "(QTHREAD_REAL_MCCOY OR QTHREAD_UNSTEALABLE) AND QTHREAD_HAS_ARGCOPY = 0"
    by (simp_all add: QTHREAD_REAL_MCCOY_def QTHREAD_UNSTEALABLE_def QTHREAD_SIMPLE_def QTHREAD_HAS_ARGCOPY_def)
  have ty: "typed_at (set_ready q ?r) At_ready t"
    using i fl by (simp add: typed_at_def typed_def struct_ok_def)
  have none: "rplaced tasks r = {#}"
    using e by (simp add: no_threads_def rplaced_def)
  have pl: "rplaced tasks (set_ready q ?r) = {#(At_ready, t)#}"
    using q(3) thread_new_fields(3) [of t 0 0 "[]" 0 junk r] none by simp
  have "only t r (set_ready q ?r)" "structs r = (\<lambda>_. None)" "structs (set_ready q ?r) t \<noteq> None"
    using thread_new_fields(1) e i by (simp_all add: no_threads_def)
  then have "inv (sys_start (set_ready q ?r) shs)" if "set shs \<subseteq> {..<nshepherds (qlib r)}" for shs
    using start_inv [OF q(2) _ ty pl] that thread_new_fields(2) by (fastforce simp: only_def)
  moreover have "mccoy_init (sched lops) t junk r = Some (set_ready q ?r)"
    using i q(1) by (simp add: mccoy_init_def Let_def)
  ultimately show ?thesis
    using q(2) thread_new_fields(2) by auto
qed

lemma fetch_goes_on:
  assumes inv: "inv s" and w: "w < length (wks s)" "wks s ! w = (sh, W_fetch)"
  shows "\<exists>a q x. is_active (qlib (rts s)) sh = Some a \<and> get_thread lops fls sh w a (rdy (rts s)) = Some (q, x)
    \<and> (\<forall>t. x = Some t \<longrightarrow> (\<exists>r d. master_dispatch (sched lops) qlen coin sh t (set_ready q (rts s)) = Some (r, d)))"
proof -
  note st = inv_static [OF inv]
  have sh: "sh < nshepherds (qlib (rts s))"
    by (rule worker_in_range [OF inv w])
  then obtain a where a: "is_active (qlib (rts s)) sh = Some a"
    by (simp add: is_active_def)
  obtain q x where g: "get_thread lops fls sh w a (rdy (rts s)) = Some (q, x)"
    using get_law [OF static_parts(1) [OF st], of sh fls w a] sh static_parts(2) [OF st] by auto
  show ?thesis
    using a g fetched(1) [OF inv w, of fls a q _ qlen coin] by blast
qed

end

section \<open>The interpretation\<close>

lemma others_ok: "v \<in> set (others sh n) \<longleftrightarrow> v < n \<and> v \<noteq> sh"
  by (auto simp: others_def)

lemma sw_scheduler: "scheduler (sw_loop_ops rnd got) sw_inv sw_tasks sw_nsheps"
proof unfold_locales
  fix q sh t fl
  assume q: "sw_inv q" "sh < sw_nsheps q"
  show "\<exists>q'. tq_enqueue (sched (sw_loop_ops rnd got)) sh t fl q = Some q' \<and> sw_inv q'
      \<and> sw_tasks q' = add_mset t (sw_tasks q) \<and> sw_nsheps q' = sw_nsheps q"
    using sherwood.enqueue_law [OF q, of t fl] by (simp add: sw_loop_ops_def)
  show "\<exists>q'. enqueue_yielded (sw_loop_ops rnd got) sh t fl q = Some q' \<and> sw_inv q'
      \<and> sw_tasks q' = add_mset t (sw_tasks q) \<and> sw_nsheps q' = sw_nsheps q"
    using sw_enqueue_yielded_ok [of q sh t fl] q by (simp add: sw_loop_ops_def sw_nsheps_def)
next
  fix q t fl
  assume q: "sw_inv q"
  show "\<exists>q' b. spawncache_spawn (sched (sw_loop_ops rnd got)) t fl q = Some (q', b) \<and> sw_inv q'
      \<and> sw_nsheps q' = sw_nsheps q \<and> sw_tasks q' = (if b then add_mset t (sw_tasks q) else sw_tasks q)"
    using sherwood.spawn_law [OF q, of t fl] by (simp add: sw_loop_ops_def)
next
  fix q sh fls w a
  assume q: "sw_inv q" "sh < sw_nsheps q"
  let ?vs = "shuffle_sheps (rnd sh) 0 (others sh (sw_nsheps q))"
  have "\<forall>v \<in> set ?vs. v < length (queues q) \<and> v \<noteq> sh"
    by (simp add: others_ok sw_nsheps_def)
  then obtain q' r where r: "get_thread_step fls got sh w a ?vs q = Some (q', r)" "sw_inv q'" "length (queues q') = length (queues q)"
      "case r of Run t \<Rightarrow> sw_tasks q = add_mset t (sw_tasks q') | Again \<Rightarrow> sw_tasks q' = sw_tasks q"
    using get_thread_step_ok [OF q(1), of sh ?vs fls got w a] q(2) unfolding sw_nsheps_def by blast
  let ?x = "case r of Run t \<Rightarrow> Some t | Again \<Rightarrow> None"
  have "get_thread (sw_loop_ops rnd got) fls sh w a q = Some (q', ?x)"
    using r(1) by (simp add: sw_loop_ops_def)
  moreover have "sw_tasks q = (case ?x of None \<Rightarrow> {#} | Some t \<Rightarrow> {#t#}) + sw_tasks q'"
    using r(4) by (cases r) simp_all
  ultimately show "\<exists>q' r. get_thread (sw_loop_ops rnd got) fls sh w a q = Some (q', r) \<and> sw_inv q' \<and> sw_nsheps q' = sw_nsheps q
      \<and> sw_tasks q = (case r of None \<Rightarrow> {#} | Some t \<Rightarrow> {#t#}) + sw_tasks q'"
    using r(2,3) unfolding sw_nsheps_def by blast
next
  fix q :: sw_state and me
  assume "0 < sw_nsheps q" "case me of None \<Rightarrow> True | Some sh \<Rightarrow> sh < sw_nsheps q"
  then show "choose_dest (sw_loop_ops rnd got) me < sw_nsheps q"
    by (auto simp: sw_loop_ops_def qt_threadqueue_choose_dest_def split: option.splits)
qed

interpretation sherwood_loop: scheduler "sw_loop_ops rnd got" sw_inv sw_tasks sw_nsheps for rnd got
  by (rule sw_scheduler)

section \<open>Properties\<close>

text \<open>
  C3. The worker loop is type safe. From the start of the library, in every state that forks, yields,
  migrations, blocking and waking, system calls, user queues, the disabling of shepherds and the shutdown lead to,
  every allocated thread is at exactly one place and of the kind that belongs there. So no assertion of the loop
  fails: a worker that looks for a thread gets an answer and can dispatch the thread it gets, and one whose thread
  came back can file it away.
\<close>

theorem worker_loop_type_safe:
  assumes "static_ok sw_inv sw_nsheps r" "no_threads sw_tasks r" "mccoy_init sw_ops t junk r = Some r0"
    and "set shs \<subseteq> {..<nshepherds (qlib r)}" "(rt_step (sw_loop_ops rnd got))\<^sup>*\<^sup>* (sys_start r0 shs) s"
  shows "image_mset snd (placed sw_tasks s) = mset_set (dom (structs (rts s)))
    \<and> (\<forall>(p, u) \<in># placed sw_tasks s. typed_at (rts s) p u)
    \<and> (\<forall>w sh. w < length (wks s) \<longrightarrow> wks s ! w = (sh, W_fetch) \<longrightarrow>
         (\<exists>a q x. is_active (qlib (rts s)) sh = Some a
            \<and> get_thread (sw_loop_ops rnd got) (\<lambda>u. flags (th (rts s) u)) sh w a (rdy (rts s)) = Some (q, x)
            \<and> (\<forall>u. x = Some u \<longrightarrow> (\<exists>r' d. master_dispatch sw_ops qlen coin sh u (set_ready q (rts s)) = Some (r', d)))))
    \<and> (\<forall>w sh u. w < length (wks s) \<longrightarrow> wks s ! w = (sh, W_back u) \<longrightarrow>
         (\<exists>r'. master_cleanup (sw_loop_ops rnd got) sh w u (rts s) = Some (r', True)))"
proof -
  have sched: "sched (sw_loop_ops rnd got) = sw_ops"
    by (simp add: sw_loop_ops_def)
  have "sys_inv sw_inv sw_tasks sw_nsheps (sys_start r0 shs)"
    using sherwood_loop.mccoy_init_ok [OF assms(1,2), of rnd got t junk] assms(3,4) by (simp add: sched)
  then have inv: "sys_inv sw_inv sw_tasks sw_nsheps s"
    using sherwood_loop.run_inv [OF assms(5)] by blast
  show ?thesis
    using inv sherwood_loop.fetch_goes_on [OF inv, of _ _ rnd got] sherwood_loop.cleaned [OF inv, of _ _ _ rnd got]
    unfolding sched by (simp add: sys_inv_def case_prod_unfold) blast
qed

text \<open>A runtime with one shepherd, as it is set up without topology.\<close>

definition one_shep :: qlib_s where
  "one_shep = gendists_flat (\<lambda>_ _. 0) \<lparr>shepherds = [\<lparr>shep_active = True, shep_node = QTHREAD_NO_NODE, sorted_sheplist = None,
       shep_dists = None, worker_active = [True]\<rparr>], nshepherds_active = 1, nworkerspershep = 1, nworkers_active = 1\<rparr>"

definition rt_start :: "sw_state rt" where
  "rt_start = \<lparr>feb = feb_start, svstore = store sv_start, structs = Map.empty, qlib = one_shep, qthread_argcopy_size = 1024,
     qthread_tasklocal_size = 8, max_thread_id = 1, user_queues = [], node_alloc = fresh_node, io_queue = []\<rparr>"

lemma rt_start_ok: "static_ok sw_inv sw_nsheps rt_start" "no_threads sw_tasks rt_start" "nshepherds (qlib rt_start) = 1"
proof -
  have one: "nshepherds one_shep = 1" "shep_active (shepherds one_shep ! 0)" "sorted_sheplist (shepherds one_shep ! 0) = Some []"
      "shep_dists (shepherds one_shep ! 0) = Some [0]"
    by (simp_all add: one_shep_def gendists_flat_def others_def shuffle_sheps_def)
  then show "nshepherds (qlib rt_start) = 1"
    by (simp add: rt_start_def)
  have "qlib_ok one_shep"
    using one by (auto simp: qlib_ok_def)
  moreover have "thread_ok 1 idle_thread"
    by (simp add: thread_ok_def idle_thread_def)
  ultimately show "static_ok sw_inv sw_nsheps rt_start"
    using sw_start_inv [of 1] one(1) fresh_node_ok
    by (simp add: static_ok_def rt_start_def feb_start_def qt_feb_subsystem_init_def sw_nsheps_def)
  show "no_threads sw_tasks rt_start"
    using sw_start_inv(2) [of 1]
    by (simp add: no_threads_def rt_start_def queued_def feb_start_def qt_feb_subsystem_init_def)
qed

theorem worker_loop_type_safe_witness:
  "\<exists>r0 s. mccoy_init sw_ops 7 [] rt_start = Some r0 \<and> rt_step (sw_loop_ops (\<lambda>_ _. 0) (\<lambda>_. True)) (sys_start r0 [0, 0]) s
     \<and> image_mset snd (placed sw_tasks s) = mset_set (dom (structs (rts s)))"
proof -
  let ?ops = "sw_loop_ops (\<lambda>_ _. 0) (\<lambda>_. True)"
  have sched: "sched ?ops = sw_ops"
    by (simp add: sw_loop_ops_def)
  obtain r0 where r0: "mccoy_init sw_ops 7 [] rt_start = Some r0"
    using sherwood_loop.mccoy_init_ok [OF rt_start_ok(1,2), of "\<lambda>_ _. 0" "\<lambda>_. True" 7 "[]"] unfolding sched by blast
  have shs: "set [0, 0] \<subseteq> {..<nshepherds (qlib rt_start)}"
    by (simp add: rt_start_ok(3))
  note safe = worker_loop_type_safe [OF rt_start_ok(1,2) r0 shs, of "\<lambda>_ _. 0" "\<lambda>_. True"]
  let ?s = "sys_start r0 [0, 0]"
  have w: "0 < length (wks ?s)" "wks ?s ! 0 = (0, W_fetch)"
    by (simp_all add: sys_start_def)
  obtain a q x where g: "is_active (qlib (rts ?s)) 0 = Some a"
      "get_thread ?ops (\<lambda>u. flags (th (rts ?s) u)) 0 0 a (rdy (rts ?s)) = Some (q, x)"
      "\<forall>u. x = Some u \<longrightarrow> (\<exists>r' d. master_dispatch sw_ops (\<lambda>_. 0) (\<lambda>_. False) 0 u (set_ready q (rts ?s)) = Some (r', d))"
    using safe [OF rtranclp.rtrancl_refl] w by blast
  have "\<exists>s. rt_step ?ops ?s s"
  proof (cases x)
    case None
    then show ?thesis
      using rt_step.fetch_again [OF w g(1), where ops = ?ops] g(2) by blast
  next
    case (Some u)
    then show ?thesis
      using rt_step.fetch [OF w g(1), where ops = ?ops and t = u and qlen = "\<lambda>_. 0" and coin = "\<lambda>_. False"] g(2,3)
      unfolding sched by blast
  qed
  then obtain s where s: "rt_step ?ops ?s s"
    by blast
  then have "image_mset snd (placed sw_tasks s) = mset_set (dom (structs (rts s)))"
    using safe [OF r_into_rtranclp] by blast
  then show ?thesis
    using r0 s by blast
qed

section \<open>Forking and the return value\<close>

text \<open>A change of the threads or of the ready queues does not touch the words.\<close>

lemma feb_inv_tabs:
  assumes "tabs f' = tabs f" "feb_inv qinv nsheps f" "qinv (ready f')" "\<And>t. thread_ok (nsheps (ready f')) (threads f' t)"
  shows "feb_inv qinv nsheps f'" "feb_view f' = feb_view f" "feb_small f' = feb_small f" "all_waiters f' = all_waiters f"
    "fresh p f' = fresh p f"
  using assms(2-4) tabs_cong [OF assms(1)] by (simp_all add: feb_inv_def sched_ok_def fresh_def)

lemma empty_word_takes_value:
  assumes "feb_inv sw_inv sw_nsheps f" "feb_small f" "good_addr a" "fresh p f" "feb_view f a = qthread_addrstat_new\<lparr>full := False\<rparr>"
  shows "\<exists>f'. qthread_writeEF sw_ops (Some me) p True a b f = Some (f', Ret QTHREAD_SUCCESS)
    \<and> full (feb_view f' a) \<and> mem f' a = mem f b"
proof -
  have a: "a \<noteq> 0"
    using assms(3) by (simp add: good_addr_def)
  obtain f' where f': "qthread_writeEF sw_ops (Some me) p True a b f = Some (f', Ret QTHREAD_SUCCESS)"
      "implements sw_inv sw_nsheps (waiting_tasks f a) (fill_spec a (feb_view f, put_word a (mem f b) (mem f))) f'"
    using ready_queues.writeEF_refines [OF sherwood.ready_queues_axioms assms(1-4), of me b] by (auto simp: step_ok_def feb_spec_def assms(5))
  have "full (feb_view f' a)"
    using f'(2) by (auto simp: implements_def fill_spec_def ffq_ext_def assms(5) fill_result_def dest: spec [of _ a])
  moreover have "mem f' a = mem f b"
    using f'(2) a by (simp add: implements_def fill_spec_def assms(5) fill_served_def deliver_def put_word_def)
  ultimately show ?thesis
    using f'(1) by blast
qed

lemma feb_thread_new: "\<exists>th. feb (qthread_thread_new t f arg bytes ret junk s) = (feb s)\<lparr>threads := (threads (feb s))(t := th)\<rparr>
    \<and> (0 < n \<longrightarrow> thread_ok n th) \<and> qlib (qthread_thread_new t f arg bytes ret junk s) = qlib s"
  by (auto simp: qthread_thread_new_def Let_def set_th_def set_struct_def upd_thread_def thread_ok_def)

lemma fork_result:
  assumes "structs s m = Some i" "rdata i \<noteq> None" "lib_initialized (feb s)" "ret \<noteq> 0"
    and "qthread_empty sw_ops (Some (shepherd_ptr (th s m))) newp ret (feb (qthread_thread_new t f arg [] ret junk s))
      = Some (f2, Ret QTHREAD_SUCCESS)"
    and "spawn_or_enqueue sw_ops (shepherd_ptr (th s m)) t (flags (threads f2 t)) (ready f2) = Some q"
  shows "qthread_fork (sw_loop_ops rnd got) (Some m) t newp junk f arg ret s
    = Some ((qthread_thread_new t f arg [] ret junk s)\<lparr>feb := f2\<lparr>ready := q\<rparr>\<rparr>, QTHREAD_SUCCESS)"
  using assms
  by (simp add: qthread_fork_def qthread_spawn_def prepare_ret_def sw_loop_ops_def qt_threadqueue_choose_dest_def set_ready_def Let_def
      QTHREAD_SPAWN_RET_SYNCVAR_T_def QTHREAD_SPAWN_RET_SINC_def QTHREAD_SPAWN_RET_SINC_VOID_def)

text \<open>
  C4. Forking a thread with a return location is the atomic step that empties the word, waking what waits for that,
  together with the new thread becoming ready: nothing else of memory, of the words and of the threads changes. If the
  word was full and without waiters, the thread's own \<open>writeEF\<close> of its value does not block, and then the word is full
  and holds the value.
\<close>

theorem fork_refines_spec:
  assumes inv: "feb_inv sw_inv sw_nsheps (feb s)" and small: "feb_small (feb s)" and ret: "good_addr ret"
    and new: "fresh newp (feb s)" and m: "structs s m = Some i" "rdata i \<noteq> None"
  shows "\<exists>s'. qthread_fork (sw_loop_ops rnd got) (Some m) t newp junk f arg ret s = Some (s', QTHREAD_SUCCESS)
    \<and> implements sw_inv sw_nsheps {} (empty_spec ret (feb_view (feb s), mem (feb s))) (feb s')
    \<and> accounted sw_tasks (feb s') = add_mset t (accounted sw_tasks (feb s))
    \<and> (feb_view (feb s) ret = qthread_addrstat_new \<longrightarrow> feb_small (feb s') \<longrightarrow> fresh newp2 (feb s') \<longrightarrow>
         (\<exists>s''. qthread_writeEF sw_ops (Some t) newp2 True ret src (feb s') = Some (s'', Ret QTHREAD_SUCCESS)
            \<and> full (feb_view s'' ret) \<and> mem s'' ret = mem (feb s) src))"
proof -
  let ?n = "sw_nsheps (ready (feb s))"
  have sch: "thread_ok ?n (threads (feb s) u)" "sw_inv (ready (feb s))" for u
    using sched_okD [OF feb_invD(2) [OF inv]] by auto
  then have n: "shepherd_ptr (threads (feb s) m) < ?n"
    by (simp add: thread_ok_def)
  let ?s1 = "qthread_thread_new t f arg [] ret junk s"
  obtain x where x: "feb ?s1 = (feb s)\<lparr>threads := (threads (feb s))(t := x)\<rparr>" "thread_ok ?n x" "qlib ?s1 = qlib s"
    using feb_thread_new n by (metis gr_implies_not0 gr0I)
  have f1: "feb_inv sw_inv sw_nsheps (feb ?s1)" "feb_view (feb ?s1) = feb_view (feb s)" "feb_small (feb ?s1)"
      "all_waiters (feb ?s1) = all_waiters (feb s)" "fresh newp (feb ?s1)"
    using feb_inv_tabs [of "feb ?s1" "feb s" sw_inv sw_nsheps, OF _ inv] sch small new x(2) by (auto simp: x(1))
  have sh: "shepherd_ptr (threads (feb s) m) < sw_nsheps (ready (feb ?s1))"
    using n by (simp add: x(1))
  obtain f2 where f2: "qthread_empty sw_ops (Some (shepherd_ptr (threads (feb s) m))) newp ret (feb ?s1) = Some (f2, Ret QTHREAD_SUCCESS)"
      "implements sw_inv sw_nsheps {} (empty_spec ret (feb_view (feb s), mem (feb s))) f2"
      "sw_nsheps (ready f2) = ?n" "accounted sw_tasks f2 = accounted sw_tasks (feb s)"
    using ready_queues.empty_refines [OF sherwood.ready_queues_axioms f1(1,3) ret sh f1(5), of "{}" t] f1(2,4)
    by (auto simp: step_ok_def accounted_def x(1))
  have inv2: "feb_inv sw_inv sw_nsheps f2"
    using f2(2) by (simp add: implements_def)
  obtain q where q: "spawn_or_enqueue sw_ops (shepherd_ptr (threads (feb s) m)) t (flags (threads f2 t)) (ready f2) = Some q"
      "sw_inv q" "sw_tasks q = add_mset t (sw_tasks (ready f2))" "sw_nsheps q = sw_nsheps (ready f2)"
    using sherwood.spawn_or_enqueue_law [OF sched_okD(1) [OF feb_invD(2) [OF inv2]], of "shepherd_ptr (threads (feb s) m)" t "flags (threads f2 t)"]
      n f2(3) by auto
  let ?f = "f2\<lparr>ready := q\<rparr>"
  have fin: "feb_inv sw_inv sw_nsheps ?f" "feb_view ?f = feb_view f2" "all_waiters ?f = all_waiters f2"
    using feb_inv_tabs [of ?f f2 sw_inv sw_nsheps, OF _ inv2] q(2,4) sched_okD(2) [OF feb_invD(2) [OF inv2]] by auto
  have fork: "qthread_fork (sw_loop_ops rnd got) (Some m) t newp junk f arg ret s = Some (?s1\<lparr>feb := ?f\<rparr>, QTHREAD_SUCCESS)"
    using fork_result [OF m _ _ f2(1) q(1)] feb_invD(1) [OF inv] ret by (simp add: tables_ok_def good_addr_def)
  have out: "implements sw_inv sw_nsheps {} (empty_spec ret (feb_view (feb s), mem (feb s))) ?f"
    using f2(2) fin(1,2) by (simp add: implements_def)
  have acc: "accounted sw_tasks ?f = add_mset t (accounted sw_tasks (feb s))"
    using f2(4) q(3) fin(3) by (simp add: accounted_def)
  have emptied: "feb_view ?f ret = qthread_addrstat_new\<lparr>full := False\<rparr>" "mem ?f = mem (feb s)"
    if "feb_view (feb s) ret = qthread_addrstat_new"
    using out that by (auto simp: implements_def empty_spec_def ffq_ext_def empty_result_def accept_def dest: spec [of _ ret])
  show ?thesis
    using fork out acc emptied empty_word_takes_value [OF fin(1) _ ret, of newp2 t src] by auto
qed

theorem fork_refines_spec_witness:
  "\<exists>s'. qthread_fork (sw_loop_ops (\<lambda>_ _. 0) (\<lambda>_. True)) (Some 7) 8 1 [] 16 0 4096
       (rt_start\<lparr>structs := [7 \<mapsto> \<lparr>tfun = 0, targ = ArgPtr 0, rdata = Some \<lparr>has_stack = False, tasklocal_size = 0\<rparr>,
          thread_id = 0, tl_data = []\<rparr>]\<rparr>) = Some (s', QTHREAD_SUCCESS)
     \<and> accounted sw_tasks (feb s') = add_mset 8 (accounted sw_tasks feb_start)"
proof -
  let ?i = "\<lparr>tfun = 0, targ = ArgPtr 0, rdata = Some \<lparr>has_stack = False, tasklocal_size = 0\<rparr>, thread_id = 0, tl_data = []\<rparr>"
  have "feb (rt_start\<lparr>structs := [7 \<mapsto> ?i]\<rparr>) = feb_start"
    by (simp add: rt_start_def)
  then show ?thesis
    using fork_refines_spec [of "rt_start\<lparr>structs := [7 \<mapsto> ?i]\<rparr>" 4096 1 7 ?i "\<lambda>_ _. 0" "\<lambda>_. True" 8 "[]" 16 0 0 0] feb_start_ok good_4096
    by auto
qed

text \<open>
  C28. The value a thread returns to a sinc never gets there: the flag of a sinc without values includes the bit of a
  sinc with values, so that every submission is the one without a value, from the wrapper and from an aggregated
  call. The other return locations get the value, a syncvar its 60 bits.
\<close>

theorem sinc_value_dropped:
  assumes "fl AND QTHREAD_RET_IS_SINC \<noteq> 0" "ret \<noteq> 0" "fl AND QTHREAD_AGGREGATED = 0"
  shows "wrapper_returns fl ret v agg = [SincSubmit None] \<and> qthread_call_method ret v fl = SincSubmit None
    \<and> qthread_default_agg_f [(ret, v)] fl = [SincSubmit None]"
proof -
  have "fl AND QTHREAD_RET_IS_VOID_SINC \<noteq> 0"
  proof
    assume z: "fl AND QTHREAD_RET_IS_VOID_SINC = 0"
    have "fl AND QTHREAD_RET_IS_SINC = (fl AND QTHREAD_RET_IS_VOID_SINC) AND QTHREAD_RET_IS_SINC"
      by (simp add: QTHREAD_RET_IS_VOID_SINC_def QTHREAD_RET_IS_SINC_def and.assoc)
    then show False
      using assms(1) z by simp
  qed
  then show ?thesis
    using assms by (simp add: wrapper_returns_def qthread_call_method_def qthread_default_agg_f_def)
qed

theorem sinc_value_dropped_witness:
  "wrapper_returns QTHREAD_RET_IS_SINC 4096 42 [] = [SincSubmit None]"
  using sinc_value_dropped [of QTHREAD_RET_IS_SINC 4096 42 "[]"]
  by (simp add: QTHREAD_RET_IS_SINC_def QTHREAD_AGGREGATED_def)

section \<open>Ids and task-local storage\<close>

text \<open>The counter of thread ids skips the null id, but the id that stands for no task is handed out again after it.\<close>

lemma qthread_id_after_wrap:
  assumes "structs s t = Some i" "thread_id i = QTHREAD_NON_TASK_ID" "ucast (max_thread_id s) = QTHREAD_NULL_TASK_ID"
  shows "\<exists>s'. qthread_id (Some t) s = Some (s', QTHREAD_NON_TASK_ID)"
proof -
  have "ucast (max_thread_id s + 1) = (ucast (max_thread_id s) + 1 :: u32)"
    by (rule word_uint_eqI) (simp add: uint_word_ariths unsigned_ucast_eq take_bit_eq_mod mod_mod_cancel mod_simps)
  then show ?thesis
    using assms by (simp add: qthread_id_def next_id_def QTHREAD_NULL_TASK_ID_def QTHREAD_NON_TASK_ID_def Let_def)
qed

text \<open>Asking for more task-local storage keeps what was stored.\<close>

lemma tasklocal_grows:
  assumes "structs s t = Some i" "rdata i = Some r"
    and "length (tl_data i) = (if tasklocal_size r = 0 then qthread_tasklocal_size s else tasklocal_size r)" "sz \<le> length junk"
  shows "\<exists>s' d. qthread_get_tasklocal junk sz t s = Some (s', d) \<and> sz \<le> length d \<and> take (length (tl_data i)) d = tl_data i
    \<and> (\<exists>n. qthread_size_tasklocal t s' = Some n \<and> n = length d)"
  using assms by (auto simp: qthread_get_tasklocal_def qthread_size_tasklocal_def set_struct_def Let_def)

end
