(* ===== verification/Sinc.thy ===== *)
theory Sinc
  imports QPrelude "HOL-Library.Multiset"
begin

text \<open>
  Sincs (\<open>sincs/donecount.c\<close>): a counter of expected submissions, a word that is full when all have arrived, and a
  value per worker into which submissions are reduced. Each access to shared memory is a step: a submission
  reduces its value, decrements the counter and, if it is the last one, collates the values and fills the word.
\<close>

section \<open>State and operations\<close>

record 'v sinc_rdata =
  svalues :: "'v list"
  initial_value :: 'v
  sresult :: "'v option"

record 'v qt_sinc =
  counter :: u64
  sready :: bool
  srdata :: "'v sinc_rdata option"

text \<open>A sinc without values has no reduction data; \<open>workers\<close> is the number of workers, whose values are the initial one.\<close>

definition qt_sinc_init :: "nat \<Rightarrow> 'v option \<Rightarrow> u64 \<Rightarrow> 'v qt_sinc" where
  "qt_sinc_init workers initial expect =
     \<lparr>counter = expect, sready = (expect = 0),
      srdata = map_option (\<lambda>v. \<lparr>svalues = replicate workers v, initial_value = v, sresult = None\<rparr>) initial\<rparr>"

definition qt_sinc_create :: "nat \<Rightarrow> 'v option \<Rightarrow> u64 \<Rightarrow> 'v qt_sinc" where
  "qt_sinc_create workers initial will_spawn = qt_sinc_init workers initial will_spawn"

text \<open>A reset for no submissions leaves the word as it is.\<close>

definition qt_sinc_reset :: "u64 \<Rightarrow> 'v qt_sinc \<Rightarrow> 'v qt_sinc" where
  "qt_sinc_reset will_spawn s =
     s\<lparr>counter := will_spawn, sready := (if will_spawn \<noteq> 0 then False else sready s),
       srdata := map_option (\<lambda>r. r\<lparr>svalues := map (\<lambda>_. initial_value r) (svalues r)\<rparr>) (srdata s)\<rparr>"

definition qt_sinc_resize :: "u64 \<Rightarrow> 'v qt_sinc \<Rightarrow> 'v qt_sinc option" where
  "qt_sinc_resize diff s =
     do { c_assert (counter s = 0);
          c_assert (sready s);
          Some (s\<lparr>counter := counter s + diff, sready := (if counter s + diff \<le> 0 then True else sready s)\<rparr>) }"

definition qt_sinc_fini :: "'v qt_sinc \<Rightarrow> 'v qt_sinc" where
  "qt_sinc_fini s = s\<lparr>srdata := None, sready := True\<rparr>"

definition qt_sinc_expect :: "u64 \<Rightarrow> 'v qt_sinc \<Rightarrow> 'v qt_sinc option" where
  "qt_sinc_expect n s =
     do { let s' = (if n \<noteq> 0
            then s\<lparr>counter := counter s + n, sready := (if counter s = 0 then False else sready s)\<rparr> else s);
          c_assert (0 < counter s');
          Some s' }"

definition qt_sinc_tmpdata :: "nat \<Rightarrow> 'v qt_sinc \<Rightarrow> 'v option" where
  "qt_sinc_tmpdata w s = do { r \<leftarrow> srdata s; c_assert (w < length (svalues r)); Some (svalues r ! w) }"

text \<open>The three parts of a submission: the value is reduced into that of the worker \<open>w\<close>, the counter is decremented (the
  result tells whether this was the last submission), and the values are collated.\<close>

definition submit_value :: "('v \<Rightarrow> 'v \<Rightarrow> 'v) \<Rightarrow> nat \<Rightarrow> 'v option \<Rightarrow> 'v qt_sinc \<Rightarrow> 'v qt_sinc option" where
  "submit_value op w value s =
     (case value of None \<Rightarrow> Some s
      | Some v \<Rightarrow> do { r \<leftarrow> srdata s;
                      c_assert (w < length (svalues r));
                      Some (s\<lparr>srdata := Some (r\<lparr>svalues := (svalues r)[w := op (svalues r ! w) v]\<rparr>)\<rparr>) })"

definition submit_count :: "'v qt_sinc \<Rightarrow> ('v qt_sinc \<times> bool) option" where
  "submit_count s =
     do { c_assert (0 < counter s); Some (s\<lparr>counter := counter s - 1\<rparr>, counter s = 1) }"

definition qt_sinc_internal_collate :: "('v \<Rightarrow> 'v \<Rightarrow> 'v) \<Rightarrow> 'v qt_sinc \<Rightarrow> 'v qt_sinc" where
  "qt_sinc_internal_collate op s =
     s\<lparr>srdata := map_option (\<lambda>r. r\<lparr>sresult := Some (foldl op (initial_value r) (svalues r))\<rparr>) (srdata s), sready := True\<rparr>"

definition qt_sinc_submit :: "('v \<Rightarrow> 'v \<Rightarrow> 'v) \<Rightarrow> nat \<Rightarrow> 'v option \<Rightarrow> 'v qt_sinc \<Rightarrow> 'v qt_sinc option" where
  "qt_sinc_submit op w value s =
     do { s \<leftarrow> submit_value op w value s;
          (s, final) \<leftarrow> submit_count s;
          Some (if final then qt_sinc_internal_collate op s else s) }"

text \<open>Waiting is possible when the word is full; the value goes to the caller's \<open>target\<close>, if there is one.\<close>

definition qt_sinc_wait :: "bool \<Rightarrow> 'v qt_sinc \<Rightarrow> 'v option" where
  "qt_sinc_wait target s = (if target then do { r \<leftarrow> srdata s; sresult r } else None)"

section \<open>Submitters and waiters\<close>

datatype sub_pc = Sub_value | Sub_count | Sub_collate | Sub_done

record 'v sinc_sys =
  sinc :: "'v qt_sinc"
  subs :: "sub_pc list"
  reduced :: "'v list"
  answers :: "'v option list"

text \<open>Submission \<open>j\<close> carries \<open>vals ! j\<close>, an optional value, and is made on worker \<open>wk j\<close>.\<close>

inductive sinc_step :: "('v \<Rightarrow> 'v \<Rightarrow> 'v) \<Rightarrow> 'v option list \<Rightarrow> (nat \<Rightarrow> nat) \<Rightarrow> 'v sinc_sys \<Rightarrow> 'v sinc_sys \<Rightarrow> bool"
  for op vals wk where
  reduce: "j < length (subs s) \<Longrightarrow> subs s ! j = Sub_value \<Longrightarrow> submit_value op (wk j) (vals ! j) (sinc s) = Some s' \<Longrightarrow>
    sinc_step op vals wk s (s\<lparr>sinc := s', subs := (subs s)[j := Sub_count],
      reduced := reduced s @ (case vals ! j of None \<Rightarrow> [] | Some v \<Rightarrow> [v])\<rparr>)"
| count: "j < length (subs s) \<Longrightarrow> subs s ! j = Sub_count \<Longrightarrow> submit_count (sinc s) = Some (s', final) \<Longrightarrow>
    sinc_step op vals wk s (s\<lparr>sinc := s', subs := (subs s)[j := (if final then Sub_collate else Sub_done)]\<rparr>)"
| collate: "j < length (subs s) \<Longrightarrow> subs s ! j = Sub_collate \<Longrightarrow>
    sinc_step op vals wk s (s\<lparr>sinc := qt_sinc_internal_collate op (sinc s), subs := (subs s)[j := Sub_done]\<rparr>)"
| wait: "sready (sinc s) \<Longrightarrow> sinc_step op vals wk s (s\<lparr>answers := answers s @ [qt_sinc_wait True (sinc s)]\<rparr>)"

definition sinc_start :: "nat \<Rightarrow> 'v option \<Rightarrow> nat \<Rightarrow> 'v sinc_sys" where
  "sinc_start workers initial n = \<lparr>sinc = qt_sinc_create workers initial (of_nat n), subs = replicate n Sub_value,
     reduced = [], answers = []\<rparr>"

section \<open>The invariant\<close>

text \<open>The submissions that have reduced their value, and those that have not yet decremented the counter.\<close>

definition past_value :: "sub_pc list \<Rightarrow> nat set" where
  "past_value ps = {j. j < length ps \<and> ps ! j \<noteq> Sub_value}"

definition uncounted :: "sub_pc list \<Rightarrow> nat" where
  "uncounted ps = length (filter (\<lambda>p. p = Sub_value \<or> p = Sub_count) ps)"

definition given :: "'v option list \<Rightarrow> nat set \<Rightarrow> 'v multiset" where
  "given vals A = (\<Sum>j\<in>A. case vals ! j of None \<Rightarrow> {#} | Some v \<Rightarrow> {#v#})"

definition sinc_inv :: "('v \<Rightarrow> 'v \<Rightarrow> 'v) \<Rightarrow> nat \<Rightarrow> 'v option \<Rightarrow> 'v option list \<Rightarrow> 'v sinc_sys \<Rightarrow> bool" where
  "sinc_inv op workers initial vals s \<longleftrightarrow>
     length (subs s) = length vals \<and> length vals < 2 ^ 64
     \<and> unat (counter (sinc s)) = uncounted (subs s)
     \<and> mset (reduced s) = given vals (past_value (subs s))
     \<and> (case initial of None \<Rightarrow> srdata (sinc s) = None
        | Some e \<Rightarrow> \<exists>r. srdata (sinc s) = Some r \<and> length (svalues r) = workers \<and> initial_value r = e
            \<and> foldl op e (svalues r) = foldl op e (reduced s)
            \<and> (sready (sinc s) \<longrightarrow> vals \<noteq> [] \<longrightarrow> sresult r = Some (foldl op e (reduced s))))
     \<and> (sready (sinc s) \<longrightarrow> (\<forall>p \<in> set (subs s). p = Sub_done))
     \<and> (\<not> sready (sinc s) \<longrightarrow> uncounted (subs s) = 0 \<longrightarrow> Sub_collate \<in> set (subs s))
     \<and> (\<forall>j < length (subs s). subs s ! j = Sub_collate \<longrightarrow>
          uncounted (subs s) = 0 \<and> (\<forall>i < length (subs s). i \<noteq> j \<longrightarrow> subs s ! i = Sub_done))"

end
