(* ===== verification/Sinc_Props.thy ===== *)
theory Sinc_Props
  imports Sinc
begin

text \<open>Under every interleaving of submissions a sinc gives its waiters the reduction of all values.\<close>

section \<open>Helper facts\<close>

lemma foldl_op_update:
  assumes comm: "\<And>a b. op a b = op b a" and assoc: "\<And>a b c. op (op a b) c = op a (op b c)" and "w < length xs"
  shows "foldl op e (xs[w := op (xs ! w) v]) = op (foldl op e xs) v"
proof -
  have out: "foldl op (op a v) ys = op (foldl op a ys) v" for a ys
    by (induction ys arbitrary: a) (simp_all, metis comm assoc)
  have "foldl op (op a (op x v)) ys = op (foldl op (op a x) ys) v" for a x ys
    using out [of "op a x" ys] by (simp add: assoc)
  moreover have "foldl op e xs = foldl op (op (foldl op e (take w xs)) (xs ! w)) (drop (Suc w) xs)"
    using id_take_nth_drop [OF assms(3)] by (metis foldl_Cons foldl_append)
  ultimately show ?thesis
    using assms(3) by (simp add: upd_conv_take_nth_drop)
qed

lemma foldl_op_mset:
  assumes comm: "\<And>a b. op a b = op b a" and assoc: "\<And>a b c. op (op a b) c = op a (op b c)" and "mset xs = mset ys"
  shows "foldl op e xs = foldl op e ys"
proof -
  have "fold (\<lambda>x a. op a x) xs = fold (\<lambda>x a. op a x) ys"
    by (rule fold_multiset_equiv) (use assms(3) in \<open>auto simp: fun_eq_iff intro: assoc [THEN trans] comm\<close>, metis comm assoc)
  then show ?thesis
    by (simp add: foldl_conv_fold)
qed

lemma past_value_update:
  assumes "j < length ps" "p \<noteq> Sub_value"
  shows "past_value (ps[j := p]) = insert j (past_value ps)"
  using assms by (auto simp: past_value_def nth_list_update)

lemma given_insert:
  assumes "finite A" "j \<notin> A"
  shows "given vals (insert j A) = (case vals ! j of None \<Rightarrow> {#} | Some v \<Rightarrow> {#v#}) + given vals A"
  using assms by (simp add: given_def)

lemma finite_past [simp]: "finite (past_value ps)"
  by (simp add: past_value_def)

lemma uncounted_update:
  assumes "j < length ps"
  shows "uncounted (ps[j := p]) + (if ps ! j = Sub_value \<or> ps ! j = Sub_count then 1 else 0)
    = uncounted ps + (if p = Sub_value \<or> p = Sub_count then 1 else 0)"
  unfolding uncounted_def by (rule filter_length_update [OF assms])

lemma uncounted_0: "uncounted ps = 0 \<longleftrightarrow> (\<forall>p \<in> set ps. p \<noteq> Sub_value \<and> p \<noteq> Sub_count)"
  by (auto simp: uncounted_def filter_empty_conv)

text \<open>The part of the invariant about values, and the part about the progress of the submissions.\<close>

definition values_ok :: "('v \<Rightarrow> 'v \<Rightarrow> 'v) \<Rightarrow> nat \<Rightarrow> 'v option \<Rightarrow> 'v option list \<Rightarrow> 'v sinc_sys \<Rightarrow> bool" where
  "values_ok op workers initial vals s \<longleftrightarrow> mset (reduced s) = given vals (past_value (subs s))
     \<and> (case initial of None \<Rightarrow> srdata (sinc s) = None
        | Some e \<Rightarrow> \<exists>r. srdata (sinc s) = Some r \<and> length (svalues r) = workers \<and> initial_value r = e
            \<and> foldl op e (svalues r) = foldl op e (reduced s)
            \<and> (sready (sinc s) \<longrightarrow> vals \<noteq> [] \<longrightarrow> sresult r = Some (foldl op e (reduced s))))"

definition progress_ok :: "'v sinc_sys \<Rightarrow> bool" where
  "progress_ok s \<longleftrightarrow> (sready (sinc s) \<longrightarrow> (\<forall>p \<in> set (subs s). p = Sub_done))
     \<and> (\<not> sready (sinc s) \<longrightarrow> uncounted (subs s) = 0 \<longrightarrow> Sub_collate \<in> set (subs s))
     \<and> (\<forall>j < length (subs s). subs s ! j = Sub_collate \<longrightarrow>
          uncounted (subs s) = 0 \<and> (\<forall>i < length (subs s). i \<noteq> j \<longrightarrow> subs s ! i = Sub_done))"

lemma sinc_inv_parts:
  "sinc_inv op workers initial vals s \<longleftrightarrow> length (subs s) = length vals \<and> length vals < 2 ^ 64
     \<and> unat (counter (sinc s)) = uncounted (subs s) \<and> values_ok op workers initial vals s \<and> progress_ok s"
  by (auto simp: sinc_inv_def values_ok_def progress_ok_def)

lemma sinc_start_inv:
  assumes neutral: "\<And>e. initial = Some e \<Longrightarrow> op e e = e" and n: "length vals < 2 ^ 64"
  shows "sinc_inv op workers initial vals (sinc_start workers initial (length vals))"
proof -
  have un: "uncounted (replicate m Sub_value) = m" for m
    by (induction m) (simp_all add: uncounted_def)
  have c: "unat (of_nat (length vals) :: u64) = length vals"
    using n by (simp add: unat_of_nat)
  have z: "(of_nat (length vals) :: u64) = 0 \<longleftrightarrow> vals = []"
    using c by (metis length_0_conv unat_0 unat_eq_0)
  have past: "past_value (replicate m Sub_value) = {}" for m
    by (simp add: past_value_def)
  have fold: "foldl op e (replicate m e) = e" if "op e e = e" for e m
    using that by (induction m) simp_all
  show ?thesis
    unfolding sinc_inv_parts values_ok_def progress_ok_def
    using n c z fold neutral
    by (auto simp: sinc_start_def qt_sinc_create_def qt_sinc_init_def un past given_def split: option.split)
qed

section \<open>Preservation\<close>

text \<open>While a submission has not collated, the sinc is not ready; the last one to count has all others behind it.\<close>

lemma not_ready: "progress_ok s \<Longrightarrow> j < length (subs s) \<Longrightarrow> subs s ! j \<noteq> Sub_done \<Longrightarrow> \<not> sready (sinc s)"
  by (auto simp: progress_ok_def)

lemma no_collate:
  assumes "progress_ok s" "0 < uncounted (subs s)" "i < length (subs s)"
  shows "subs s ! i \<noteq> Sub_collate"
  using assms by (auto simp: progress_ok_def)

lemma step_reduce:
  assumes comm: "\<And>a b. op a b = op b a" and assoc: "\<And>a b c. op (op a b) c = op a (op b c)"
    and inv: "sinc_inv op workers initial vals s" and j: "j < length (subs s)" "subs s ! j = Sub_value"
    and v: "submit_value op w (vals ! j) (sinc s) = Some s'"
  shows "sinc_inv op workers initial vals (s\<lparr>sinc := s', subs := (subs s)[j := Sub_count],
      reduced := reduced s @ (case vals ! j of None \<Rightarrow> [] | Some v \<Rightarrow> [v])\<rparr>)" (is "sinc_inv _ _ _ _ ?t")
proof -
  have p: "progress_ok s" and val: "values_ok op workers initial vals s"
    using inv by (simp_all add: sinc_inv_parts)
  have nr: "\<not> sready (sinc s)"
    by (rule not_ready [OF p j(1)]) (simp add: j(2))
  have un: "uncounted ((subs s)[j := Sub_count]) = uncounted (subs s)"
    using uncounted_update [OF j(1), of Sub_count] j(2) by simp
  have pos: "0 < uncounted (subs s)"
    using uncounted_0 [of "subs s"] nth_mem [OF j(1)] j(2) by (metis gr0I)
  have same: "counter s' = counter (sinc s)" "sready s' = sready (sinc s)"
    using v by (auto simp: submit_value_def bind_eq_Some_iff split: option.splits if_splits)
  have jn: "j \<notin> past_value (subs s)"
    by (simp add: past_value_def j(2))
  have given: "mset (reduced ?t) = given vals (past_value (subs ?t))"
    using val j(1) jn by (auto simp: values_ok_def past_value_update given_insert split: option.split)
  have "values_ok op workers initial vals ?t"
  proof (cases "vals ! j")
    case None
    then have "s' = sinc s"
      using v by (simp add: submit_value_def)
    then show ?thesis
      using val given None by (simp add: values_ok_def split: option.splits)
  next
    case (Some x)
    then obtain r where r: "srdata (sinc s) = Some r" "w < length (svalues r)"
        "s' = (sinc s)\<lparr>srdata := Some (r\<lparr>svalues := (svalues r)[w := op (svalues r ! w) x]\<rparr>)\<rparr>"
      using v by (auto simp: submit_value_def bind_eq_Some_iff split: if_splits)
    obtain e where e: "initial = Some e"
      using val r(1) by (cases initial) (auto simp: values_ok_def)
    have "foldl op e ((svalues r)[w := op (svalues r ! w) x]) = foldl op e (reduced s @ [x])"
      using foldl_op_update [of op, OF comm assoc r(2), of e x] val r(1) e by (simp add: values_ok_def)
    then show ?thesis
      using val given r nr e Some by (simp add: values_ok_def)
  qed
  moreover have "progress_ok ?t"
    using nr same(2) un pos no_collate [OF p pos] j(1) by (auto simp: progress_ok_def nth_list_update)
  ultimately show ?thesis
    using inv un same(1) by (simp add: sinc_inv_parts)
qed

lemma step_count:
  assumes inv: "sinc_inv op workers initial vals s" and j: "j < length (subs s)" "subs s ! j = Sub_count"
    and c: "submit_count (sinc s) = Some (s', final)"
  shows "sinc_inv op workers initial vals (s\<lparr>sinc := s', subs := (subs s)[j := (if final then Sub_collate else Sub_done)]\<rparr>)"
    (is "sinc_inv _ _ _ _ ?t")
proof -
  have p: "progress_ok s" and val: "values_ok op workers initial vals s" and cnt: "unat (counter (sinc s)) = uncounted (subs s)"
    using inv by (simp_all add: sinc_inv_parts)
  have nr: "\<not> sready (sinc s)"
    by (rule not_ready [OF p j(1)]) (simp add: j(2))
  have s': "s' = (sinc s)\<lparr>counter := counter (sinc s) - 1\<rparr>" "final \<longleftrightarrow> counter (sinc s) = 1" "0 < counter (sinc s)"
    using c by (auto simp: submit_count_def split: if_splits)
  have un: "Suc (uncounted (subs ?t)) = uncounted (subs s)"
    using uncounted_update [OF j(1), of "if final then Sub_collate else Sub_done"] j(2) by simp
  have c1: "unat (counter s') = uncounted (subs ?t)"
    using s'(1,3) cnt un by (simp add: unat_minus_one word_gt_0)
  have fin: "final \<longleftrightarrow> uncounted (subs ?t) = 0"
    using s'(2) cnt un by (metis One_nat_def Suc_inject unat_1 word_unat_eq_iff)
  have past: "past_value (subs ?t) = past_value (subs s)"
    using j by (auto simp: past_value_def nth_list_update)
  have val': "values_ok op workers initial vals ?t"
    using val past s'(1) nr by (simp add: values_ok_def split: option.splits)
  have others: "subs s ! i = Sub_done" if "final" "i < length (subs s)" "i \<noteq> j" for i
  proof -
    have "subs ?t ! i \<in> set (subs ?t)"
      using that(2) by simp
    then have "subs ?t ! i \<noteq> Sub_value \<and> subs ?t ! i \<noteq> Sub_count"
      using fin that(1) uncounted_0 [of "subs ?t"] by blast
    moreover have "subs s ! i \<noteq> Sub_collate"
      using no_collate [OF p _ that(2)] un by simp
    ultimately show ?thesis
      using that by (cases "subs s ! i") simp_all
  qed
  have "progress_ok ?t"
    using nr s'(1) fin others no_collate [OF p] un j(1)
    by (auto simp: progress_ok_def nth_list_update set_update_memI)
  then show ?thesis
    using inv c1 val' by (simp add: sinc_inv_parts)
qed

lemma step_collate:
  assumes inv: "sinc_inv op workers initial vals s" and j: "j < length (subs s)" "subs s ! j = Sub_collate"
  shows "sinc_inv op workers initial vals (s\<lparr>sinc := qt_sinc_internal_collate op (sinc s), subs := (subs s)[j := Sub_done]\<rparr>)"
    (is "sinc_inv _ _ _ _ ?t")
proof -
  have p: "progress_ok s" and val: "values_ok op workers initial vals s"
    using inv by (simp_all add: sinc_inv_parts)
  have un: "uncounted (subs ?t) = uncounted (subs s)"
    using uncounted_update [OF j(1), of Sub_done] j(2) by simp
  have past: "past_value (subs ?t) = past_value (subs s)"
    using j by (auto simp: past_value_def nth_list_update)
  have "values_ok op workers initial vals ?t"
    using val past by (auto simp: values_ok_def qt_sinc_internal_collate_def split: option.splits)
  moreover have "\<forall>i < length (subs ?t). subs ?t ! i = Sub_done"
    using p j by (auto simp: progress_ok_def nth_list_update)
  then have "progress_ok ?t"
    by (auto simp: progress_ok_def qt_sinc_internal_collate_def in_set_conv_nth)
  ultimately show ?thesis
    using inv un by (simp add: sinc_inv_parts qt_sinc_internal_collate_def)
qed

lemma sinc_step_inv:
  assumes "sinc_step op vals wk s t" "sinc_inv op workers initial vals s"
    and comm: "\<And>a b. op a b = op b a" and assoc: "\<And>a b c. op (op a b) c = op a (op b c)"
  shows "sinc_inv op workers initial vals t"
  using assms(1,2)
proof cases
  case (reduce j s')
  then show ?thesis
    using step_reduce [of op, OF comm assoc assms(2)] by blast
next
  case (count j s' final)
  then show ?thesis
    using step_count [OF assms(2)] by blast
next
  case (collate j)
  then show ?thesis
    using step_collate [OF assms(2)] by blast
next
  case wait
  then show ?thesis
    using assms(2) by (simp add: sinc_inv_def split: option.splits)
qed

text \<open>What a waiter is told: the reduction of all values.\<close>

definition total :: "('v \<Rightarrow> 'v \<Rightarrow> 'v) \<Rightarrow> 'v \<Rightarrow> 'v option list \<Rightarrow> 'v" where
  "total op e vals = foldl op e (List.map_filter id vals)"

lemma given_all: "given vals {..<length vals} = mset (List.map_filter id vals)"
proof (induction vals rule: rev_induct)
  case (snoc x xs)
  have "given (xs @ [x]) {..<length xs} = given xs {..<length xs}"
    unfolding given_def by (intro sum.cong) (auto simp: nth_append)
  then show ?case
    using snoc by (auto simp: lessThan_Suc given_insert List.map_filter_def split: option.split)
qed (simp add: given_def List.map_filter_def)

lemma ready_total:
  assumes "sinc_inv op workers (Some e) vals s" "sready (sinc s)" "vals \<noteq> []"
    and comm: "\<And>a b. op a b = op b a" and assoc: "\<And>a b c. op (op a b) c = op a (op b c)"
  shows "qt_sinc_wait True (sinc s) = Some (total op e vals)"
proof -
  have "past_value (subs s) = {..<length vals}"
    using assms(1,2) unfolding sinc_inv_parts progress_ok_def past_value_def all_set_conv_all_nth by auto
  then have "mset (reduced s) = mset (List.map_filter id vals)"
    using assms(1) given_all [of vals] by (simp add: sinc_inv_def)
  then show ?thesis
    using foldl_op_mset [of op, OF comm assoc, of "reduced s" "List.map_filter id vals" e] assms(1-3)
    by (auto simp: sinc_inv_def qt_sinc_wait_def total_def)
qed

lemma can_go_on:
  assumes inv: "sinc_inv op workers initial vals s" and "\<forall>j. wk j < workers"
    and "\<forall>v \<in> set vals. v \<noteq> None \<longrightarrow> initial \<noteq> None" and j: "j < length (subs s)" "subs s ! j \<noteq> Sub_done"
  shows "\<exists>t. sinc_step op vals wk s t \<and> subs t \<noteq> subs s"
proof (cases "subs s ! j")
  case Sub_value
  have "\<exists>s'. submit_value op (wk j) (vals ! j) (sinc s) = Some s'"
  proof (cases "vals ! j")
    case (Some v)
    moreover have "vals ! j \<in> set vals"
      using inv j(1) by (simp add: sinc_inv_def)
    ultimately show ?thesis
      using inv assms(2,3) by (cases initial) (auto simp: sinc_inv_def submit_value_def)
  qed (simp add: submit_value_def)
  then obtain s' where "submit_value op (wk j) (vals ! j) (sinc s) = Some s'"
    by blast
  then show ?thesis
    using sinc_step.reduce [OF j(1) Sub_value] j(1) Sub_value
    by (intro exI conjI) (assumption, simp add: list_update_same_conv)
next
  case Sub_count
  then have "0 < uncounted (subs s)"
    using uncounted_0 [of "subs s"] nth_mem [OF j(1)] by (metis gr0I)
  then have "0 < counter (sinc s)"
    using inv by (simp add: sinc_inv_def word_gt_0 unat_eq_0 [symmetric])
  then show ?thesis
    using sinc_step.count [OF j(1) Sub_count, of _ "counter (sinc s) = 1"] j(1) Sub_count
    by (intro exI conjI) (rule sinc_step.count [OF j(1) Sub_count],
        simp add: submit_count_def, simp add: list_update_same_conv)
next
  case Sub_collate
  then show ?thesis
    using sinc_step.collate [OF j(1) Sub_collate] j(1)
    by (intro exI conjI) (rule sinc_step.collate [OF j(1) Sub_collate], simp add: list_update_same_conv)
qed (use j(2) in simp)

section \<open>The property\<close>

text \<open>
  C31. Under every interleaving of the submissions, a waiter is let through only when all expected submissions have been
  made, and it then gets the reduction of all values, whichever worker submitted them; the operation has to be associative
  and commutative with the initial value as its neutral element. As long as a submission is not complete one of its
  steps can be taken: no assertion of the code fails.
\<close>

theorem sinc_reduces_all:
  fixes op :: "'v \<Rightarrow> 'v \<Rightarrow> 'v"
  assumes comm: "\<And>a b. op a b = op b a" and assoc: "\<And>a b c. op (op a b) c = op a (op b c)" and neutral: "op e e = e"
    and run: "(sinc_step op vals wk)\<^sup>*\<^sup>* (sinc_start workers (Some e) (length vals)) s"
    and wk: "\<forall>j. wk j < workers" and vals: "vals \<noteq> []" "length vals < 2 ^ 64"
  shows "(\<forall>x \<in> set (answers s). x = Some (total op e vals))
    \<and> (sready (sinc s) \<longrightarrow> (\<forall>p \<in> set (subs s). p = Sub_done))
    \<and> (\<forall>j < length vals. subs s ! j \<noteq> Sub_done \<longrightarrow> (\<exists>t. sinc_step op vals wk s t \<and> subs t \<noteq> subs s))
    \<and> ((\<forall>p \<in> set (subs s). p = Sub_done) \<longrightarrow> qt_sinc_wait True (sinc s) = Some (total op e vals) \<and> sready (sinc s))"
proof -
  have "sinc_inv op workers (Some e) vals s \<and> (\<forall>x \<in> set (answers s). x = Some (total op e vals))"
    using run
  proof induction
    case base
    then show ?case
      using sinc_start_inv [of "Some e" op vals workers] neutral vals(2) by (simp add: sinc_start_def)
  next
    case (step t u)
    then have "sinc_inv op workers (Some e) vals u"
      using sinc_step_inv [of op, OF _ _ comm assoc] by blast
    moreover have "\<forall>x \<in> set (answers u). x = Some (total op e vals)"
      using step.hyps(2) step.IH ready_total [of op, OF _ _ vals(1) comm assoc] by cases auto
    ultimately show ?case ..
  qed
  then have inv: "sinc_inv op workers (Some e) vals s" and ans: "\<forall>x \<in> set (answers s). x = Some (total op e vals)"
    by auto
  have all_done: "sready (sinc s)" if "\<forall>p \<in> set (subs s). p = Sub_done"
    using inv that uncounted_0 [of "subs s"] by (auto simp: sinc_inv_parts progress_ok_def)
  show ?thesis
    using inv ans all_done ready_total [of op, OF inv _ vals(1) comm assoc] can_go_on [OF inv wk]
    by (auto simp: sinc_inv_def)
qed

theorem sinc_reduces_all_witness:
  "\<exists>t. sinc_step (+) [Some 3, Some 4] (\<lambda>j. j mod 2) (sinc_start 2 (Some 0) 2) t \<and> subs t \<noteq> [Sub_value, Sub_value]
     \<and> (\<forall>x \<in> set (answers t). x = Some (7 :: nat))"
proof -
  let ?vals = "[Some 3, Some (4 :: nat)]" and ?wk = "\<lambda>j. j mod 2 :: nat"
  let ?s0 = "sinc_start 2 (Some (0 :: nat)) 2"
  have ok: "\<forall>j. ?wk j < 2" "?vals \<noteq> []" "length ?vals < 2 ^ 64"
    by simp_all
  have len: "length ?vals = 2"
    by simp
  note all = sinc_reduces_all [of "(+)" "0 :: nat" ?vals ?wk 2, OF add.commute add.assoc _ _ ok(1-3), unfolded len]
  have s0: "subs ?s0 = [Sub_value, Sub_value]"
    by (simp add: sinc_start_def numeral_2_eq_2)
  have "subs ?s0 ! 0 \<noteq> Sub_done"
    by (simp add: s0)
  then obtain t where t: "sinc_step (+) ?vals ?wk ?s0 t" "subs t \<noteq> subs ?s0"
    using all [THEN conjunct2, THEN conjunct2, THEN conjunct1, rule_format, of ?s0 0] by auto
  have "total (+) 0 ?vals = 7"
    by (simp add: total_def List.map_filter_def)
  moreover have "\<forall>x \<in> set (answers t). x = Some (total (+) 0 ?vals)"
    using all [of t] t(1) by auto
  ultimately show ?thesis
    using t unfolding s0 by metis
qed

section \<open>Resetting and resizing\<close>

text \<open>A reset for no submissions leaves a waiter waiting, and after a resize nobody waits for the new submissions.\<close>

lemma reset_to_zero_blocks: "\<not> sready s \<Longrightarrow> counter (qt_sinc_reset 0 s) = 0 \<and> \<not> sready (qt_sinc_reset 0 s)"
  by (simp add: qt_sinc_reset_def)

lemma resize_does_not_wait:
  assumes "counter s = 0" "sready s" "diff \<noteq> 0"
  shows "\<exists>s'. qt_sinc_resize diff s = Some s' \<and> counter s' = diff \<and> sready s'"
  using assms by (simp add: qt_sinc_resize_def)

text \<open>The initial value enters the result once for every worker and once more.\<close>

lemma initial_value_counted_again:
  assumes assoc: "\<And>a b c. op (op a b) c = op a (op b c)"
  shows "qt_sinc_submit op 0 (Some v) (qt_sinc_create (Suc n) (Some e) 1)
    = Some \<lparr>counter = 0, sready = True, srdata = Some \<lparr>svalues = op e v # replicate n e, initial_value = e,
        sresult = Some (foldl op (op (op e e) v) (replicate n e))\<rparr>\<rparr>"
  by (simp add: qt_sinc_submit_def submit_value_def submit_count_def qt_sinc_internal_collate_def qt_sinc_create_def
      qt_sinc_init_def assoc)

end
