(* ===== verification/Qloop.thy ===== *)
theory Qloop
  imports Sinc
begin

text \<open>
  Parallel loops (\<open>qloop.c\<close>): the division of the iterations among workers, the tree in which the worker tasks
  spawn each other, the ways in which the caller learns that they are done, and the variants that accumulate a
  result. The body of a worker task is one step. A fork empties the word for the return value and the end of a
  task fills it, waiting while it is full, as shown for the full/empty bits and syncvars.
\<close>

section \<open>Data\<close>

datatype synctype_t = ALIGNED | SYNCVAR_T | SINC_T | DONECOUNT | NO_SYNC

text \<open>Pointers to synchronisation objects: null, a word of the array that the caller allocated, a word that starts
  at the caller's local union \<open>sync\<close>, a sinc.\<close>

datatype sync_ptr = NullPtr | ArrPtr nat | LocalPtr nat | SincPtr

fun ptr_plus :: "sync_ptr \<Rightarrow> nat \<Rightarrow> sync_ptr" where
  "ptr_plus (ArrPtr i) k = ArrPtr (i + k)"
| "ptr_plus (LocalPtr i) k = LocalPtr (i + k)"
| "ptr_plus p k = p"

text \<open>\<open>struct qloop_wrapper_args\<close>, without the function and its argument, which are the same for all tasks.\<close>

record qloop_wrapper_args =
  startat :: u64
  stopat :: u64
  qid :: nat
  level :: nat
  spawnthreads :: nat
  qsync :: sync_ptr

section \<open>The division of the iterations\<close>

text \<open>\<open>nw\<close> is the number of workers, which fits the narrower \<open>qthread_shepherd_id_t\<close> that some of the code counts them in.\<close>

definition loop_maxworkers :: "u64 \<Rightarrow> u64 \<Rightarrow> u64 \<Rightarrow> u64" where
  "loop_maxworkers nw start stop = (if nw < stop - start then nw else stop - start)"

text \<open>What the records of the tasks hold in \<open>sync\<close>, and the return location of the first task. The case \<open>ALIGNED\<close> of
  \<open>qt_loop_balance_inner\<close> falls through to \<open>DONECOUNT\<close>.\<close>

definition qwa_sync :: "synctype_t \<Rightarrow> sync_ptr" where
  "qwa_sync ty = (case ty of SYNCVAR_T \<Rightarrow> ArrPtr 0 | ALIGNED \<Rightarrow> LocalPtr 0 | DONECOUNT \<Rightarrow> LocalPtr 0
     | SINC_T \<Rightarrow> SincPtr | NO_SYNC \<Rightarrow> NullPtr)"

definition root_ret :: "bool \<Rightarrow> synctype_t \<Rightarrow> sync_ptr" where
  "root_ret accum ty = (case ty of SYNCVAR_T \<Rightarrow> ArrPtr 0 | ALIGNED \<Rightarrow> ArrPtr 0
     | SINC_T \<Rightarrow> if accum then NullPtr else SincPtr | _ \<Rightarrow> NullPtr)"

text \<open>Filling the array of records: \<open>k\<close> records are left, the next one is that of task \<open>i\<close>.\<close>

fun qwa_fill :: "nat \<Rightarrow> nat \<Rightarrow> nat \<Rightarrow> sync_ptr \<Rightarrow> u64 \<Rightarrow> u64 \<Rightarrow> u64 \<Rightarrow> qloop_wrapper_args list" where
  "qwa_fill 0 i m p each extra iterend = []"
| "qwa_fill (Suc k) i m p each extra iterend =
     (let e = (if 0 < extra then iterend + each + 1 else iterend + each)
      in \<lparr>startat = iterend, stopat = e, qid = i, level = 0, spawnthreads = m, qsync = p\<rparr>
         # qwa_fill k (i + 1) m p each (if 0 < extra then extra - 1 else extra) e)"

definition divide :: "u64 \<Rightarrow> synctype_t \<Rightarrow> u64 \<Rightarrow> u64 \<Rightarrow> qloop_wrapper_args list option" where
  "divide m ty start stop =
     do {
       c_assert (m \<noteq> 0);
       let each = (stop - start) div m;
       let extra = (stop - start) - each * m;
       Some (qwa_fill (unat m) 0 (unat m) (qwa_sync ty) each extra start)
     }"

section \<open>Worker tasks and their caller\<close>

text \<open>
  A task has been forked, spawns the children that are left (with its local \<open>level\<close> and \<open>new_id\<close>), has run the body,
  has signalled, or has ended. The caller waits for the word \<open>i\<close> (or for a counter), adds results up, or is done; the
  accumulating loop with a counter passes the counter to \<open>free\<close> at the end.
\<close>

datatype task_pc = T_start | T_spawn nat nat | T_sync | T_ret | T_end

record loop_task =
  tidx :: nat
  tret :: sync_ptr
  tpc :: task_pc

datatype caller_pc = C_wait nat | C_acc nat | C_done | C_crash

record 'v loop_sys =
  args :: "qloop_wrapper_args list"
  tasks :: "loop_task list"
  words :: "sync_ptr \<Rightarrow> bool"
  lsinc :: "'v qt_sinc"
  dc :: nat
  ran :: "nat list"
  rets :: "nat \<Rightarrow> 'v option"
  caller :: caller_pc

text \<open>The return location of a child in \<open>qloop_wrapper\<close> and \<open>qloopaccum_wrapper\<close>.\<close>

definition child_ret :: "bool \<Rightarrow> synctype_t \<Rightarrow> sync_ptr \<Rightarrow> nat \<Rightarrow> sync_ptr" where
  "child_ret accum ty p new_id =
     (case ty of SYNCVAR_T \<Rightarrow> ptr_plus p new_id | ALIGNED \<Rightarrow> ptr_plus p new_id
      | SINC_T \<Rightarrow> if accum then NullPtr else p | _ \<Rightarrow> NullPtr)"

text \<open>A fork with a return location empties the word; a sinc is left alone.\<close>

definition fork_empties :: "sync_ptr \<Rightarrow> (sync_ptr \<Rightarrow> bool) \<Rightarrow> sync_ptr \<Rightarrow> bool" where
  "fork_empties p ws = (case p of ArrPtr i \<Rightarrow> ws(p := False) | LocalPtr i \<Rightarrow> ws(p := False) | _ \<Rightarrow> ws)"

definition set_pc :: "nat \<Rightarrow> task_pc \<Rightarrow> 'v loop_sys \<Rightarrow> 'v loop_sys" where
  "set_pc k pc s = s\<lparr>tasks := (tasks s)[k := (tasks s ! k)\<lparr>tpc := pc\<rparr>]\<rparr>"

text \<open>The result of task \<open>i\<close> of an accumulating loop goes to slot \<open>i\<close>; slot 0 is the caller's \<open>out\<close>.\<close>

definition caller_reads :: "bool \<Rightarrow> nat \<Rightarrow> ('v \<Rightarrow> 'v \<Rightarrow> 'v) \<Rightarrow> (nat \<Rightarrow> 'v option) \<Rightarrow> (nat \<Rightarrow> 'v option) option" where
  "caller_reads accum i acc r =
     (if accum \<and> 0 < i then do { a \<leftarrow> r 0; b \<leftarrow> r i; Some (r(0 \<mapsto> acc a b)) } else Some r)"

text \<open>The signal of a task after its body, and the submission to a sinc; \<open>w\<close> is the worker it runs on.\<close>

definition task_signal :: "bool \<Rightarrow> synctype_t \<Rightarrow> ('v \<Rightarrow> 'v \<Rightarrow> 'v) \<Rightarrow> nat \<Rightarrow> nat \<Rightarrow> 'v loop_sys \<Rightarrow> 'v loop_sys option" where
  "task_signal accum ty acc w i s =
     (case ty of DONECOUNT \<Rightarrow> Some (s\<lparr>dc := dc s + 1\<rparr>)
      | SINC_T \<Rightarrow> if accum then do { c \<leftarrow> qt_sinc_submit acc w (rets s i) (lsinc s); Some (s\<lparr>lsinc := c\<rparr>) } else Some s
      | _ \<Rightarrow> Some s)"

inductive loop_step :: "bool \<Rightarrow> synctype_t \<Rightarrow> (u64 \<Rightarrow> u64 \<Rightarrow> 'v option) \<Rightarrow> ('v \<Rightarrow> 'v \<Rightarrow> 'v) \<Rightarrow> (nat \<Rightarrow> nat) \<Rightarrow> 'v loop_sys \<Rightarrow> 'v loop_sys \<Rightarrow> bool"
  for accum ty func acc wk where
  start: "k < length (tasks s) \<Longrightarrow> tpc (tasks s ! k) = T_start \<Longrightarrow> i = tidx (tasks s ! k) \<Longrightarrow> i < length (args s) \<Longrightarrow>
    a = args s ! i \<Longrightarrow> loop_step accum ty func acc wk s (set_pc k (T_spawn (level a) (qid a + 2 ^ level a)) s)"
| spawn: "k < length (tasks s) \<Longrightarrow> tpc (tasks s ! k) = T_spawn l n \<Longrightarrow> i = tidx (tasks s ! k) \<Longrightarrow> i < length (args s) \<Longrightarrow>
    a = args s ! i \<Longrightarrow> n \<le> spawnthreads a - 1 \<Longrightarrow> j = i + (n - qid a) \<Longrightarrow> j < length (args s) \<Longrightarrow>
    p = child_ret accum ty (qsync a) n \<Longrightarrow>
    loop_step accum ty func acc wk s
      ((set_pc k (T_spawn (l + 1) (2 ^ (l + 1) + qid a)) s)
        \<lparr>args := (args s)[j := (args s ! j)\<lparr>level := l + 1\<rparr>],
         tasks := tasks (set_pc k (T_spawn (l + 1) (2 ^ (l + 1) + qid a)) s) @ [\<lparr>tidx = j, tret = p, tpc = T_start\<rparr>],
         words := fork_empties p (words s)\<rparr>)"
| body: "k < length (tasks s) \<Longrightarrow> tpc (tasks s ! k) = T_spawn l n \<Longrightarrow> i = tidx (tasks s ! k) \<Longrightarrow> i < length (args s) \<Longrightarrow>
    a = args s ! i \<Longrightarrow> \<not> n \<le> spawnthreads a - 1 \<Longrightarrow> func (startat a) (stopat a) = Some v \<Longrightarrow>
    loop_step accum ty func acc wk s ((set_pc k T_sync s)\<lparr>ran := ran s @ [i], rets := (rets s)(i \<mapsto> v)\<rparr>)"
| signal: "k < length (tasks s) \<Longrightarrow> tpc (tasks s ! k) = T_sync \<Longrightarrow> i = tidx (tasks s ! k) \<Longrightarrow>
    task_signal accum ty acc (wk i) i s = Some s' \<Longrightarrow> loop_step accum ty func acc wk s (set_pc k T_ret s')"
| ret_none: "k < length (tasks s) \<Longrightarrow> tpc (tasks s ! k) = T_ret \<Longrightarrow> tret (tasks s ! k) = NullPtr \<Longrightarrow>
    loop_step accum ty func acc wk s (set_pc k T_end s)"
| ret_sinc: "k < length (tasks s) \<Longrightarrow> tpc (tasks s ! k) = T_ret \<Longrightarrow> tret (tasks s ! k) = SincPtr \<Longrightarrow>
    qt_sinc_submit acc (wk (tidx (tasks s ! k))) None (lsinc s) = Some c \<Longrightarrow>
    loop_step accum ty func acc wk s ((set_pc k T_end s)\<lparr>lsinc := c\<rparr>)"
| ret_word: "k < length (tasks s) \<Longrightarrow> tpc (tasks s ! k) = T_ret \<Longrightarrow> p = tret (tasks s ! k) \<Longrightarrow> p \<noteq> NullPtr \<Longrightarrow> p \<noteq> SincPtr \<Longrightarrow>
    \<not> words s p \<Longrightarrow> loop_step accum ty func acc wk s ((set_pc k T_end s)\<lparr>words := (words s)(p := True)\<rparr>)"
| wait_word: "caller s = C_wait i \<Longrightarrow> ty = SYNCVAR_T \<or> ty = ALIGNED \<Longrightarrow> i < length (args s) \<Longrightarrow> words s (ArrPtr i) \<Longrightarrow>
    caller_reads accum i acc (rets s) = Some r \<Longrightarrow>
    loop_step accum ty func acc wk s (s\<lparr>caller := C_wait (i + 1), rets := r\<rparr>)"
| wait_words: "caller s = C_wait i \<Longrightarrow> ty = SYNCVAR_T \<or> ty = ALIGNED \<Longrightarrow> i = length (args s) \<Longrightarrow>
    loop_step accum ty func acc wk s (s\<lparr>caller := C_done\<rparr>)"
| wait_sinc: "caller s = C_wait i \<Longrightarrow> ty = SINC_T \<Longrightarrow> sready (lsinc s) \<Longrightarrow>
    loop_step accum ty func acc wk s
      (s\<lparr>caller := C_done, rets := (if accum then (rets s)(0 := qt_sinc_wait True (lsinc s)) else rets s)\<rparr>)"
| wait_dc: "caller s = C_wait i \<Longrightarrow> ty = DONECOUNT \<Longrightarrow> dc s = length (args s) \<Longrightarrow>
    loop_step accum ty func acc wk s (s\<lparr>caller := (if accum then C_acc 0 else C_done)\<rparr>)"
| accumulate: "caller s = C_acc i \<Longrightarrow> i < length (args s) \<Longrightarrow> caller_reads True i acc (rets s) = Some r \<Longrightarrow>
    loop_step accum ty func acc wk s (s\<lparr>caller := C_acc (i + 1), rets := r\<rparr>)"
| free_counter: "caller s = C_acc i \<Longrightarrow> i = length (args s) \<Longrightarrow> loop_step accum ty func acc wk s (s\<lparr>caller := C_crash\<rparr>)"

text \<open>\<open>out\<close> is what the caller's variable holds before an accumulating loop; a sinc starts from it.\<close>

definition loop_start :: "bool \<Rightarrow> synctype_t \<Rightarrow> nat \<Rightarrow> 'v \<Rightarrow> qloop_wrapper_args list \<Rightarrow> 'v loop_sys" where
  "loop_start accum ty workers out qwa =
     \<lparr>args = qwa, tasks = [\<lparr>tidx = 0, tret = root_ret accum ty, tpc = T_start\<rparr>], words = (\<lambda>_. False),
      lsinc = qt_sinc_create workers (if accum then Some out else None) (of_nat (length qwa)),
      dc = 0, ran = [], rets = (\<lambda>_. None), caller = C_wait 0\<rparr>"

text \<open>The caller up to its wait. A loop over nothing divides by zero.\<close>

definition qt_loop_balance_inner :: "u64 \<Rightarrow> synctype_t \<Rightarrow> u64 \<Rightarrow> u64 \<Rightarrow> unit loop_sys option" where
  "qt_loop_balance_inner nw ty start stop =
     do { qwa \<leftarrow> divide (loop_maxworkers nw start stop) ty start stop;
          c_assert (ty \<noteq> NO_SYNC);
          Some (loop_start False ty (unat nw) () qwa) }"

text \<open>The accumulating loop always has one task per worker, and no variant with words of \<open>aligned_t\<close>.\<close>

definition qt_loopaccum_balance_inner :: "u64 \<Rightarrow> synctype_t \<Rightarrow> 'v \<Rightarrow> u64 \<Rightarrow> u64 \<Rightarrow> 'v loop_sys option" where
  "qt_loopaccum_balance_inner nw ty out start stop =
     do { qwa \<leftarrow> divide nw ty start stop;
          c_assert (ty \<noteq> NO_SYNC \<and> ty \<noteq> ALIGNED);
          Some (loop_start True ty (unat nw) out qwa) }"

definition qt_loop_balance :: "u64 \<Rightarrow> u64 \<Rightarrow> u64 \<Rightarrow> unit loop_sys option" where
  "qt_loop_balance nw start stop = qt_loop_balance_inner nw DONECOUNT start stop"

definition qt_loop_balance_sv :: "u64 \<Rightarrow> u64 \<Rightarrow> u64 \<Rightarrow> unit loop_sys option" where
  "qt_loop_balance_sv nw start stop = qt_loop_balance_inner nw SYNCVAR_T start stop"

definition qt_loop_balance_dc :: "u64 \<Rightarrow> u64 \<Rightarrow> u64 \<Rightarrow> unit loop_sys option" where
  "qt_loop_balance_dc nw start stop = qt_loop_balance_inner nw DONECOUNT start stop"

definition qt_loop_balance_aligned :: "u64 \<Rightarrow> u64 \<Rightarrow> u64 \<Rightarrow> unit loop_sys option" where
  "qt_loop_balance_aligned nw start stop = qt_loop_balance_inner nw ALIGNED start stop"

definition qt_loop_balance_sinc :: "u64 \<Rightarrow> u64 \<Rightarrow> u64 \<Rightarrow> unit loop_sys option" where
  "qt_loop_balance_sinc nw start stop = qt_loop_balance_inner nw SINC_T start stop"

definition qt_loopaccum_balance :: "u64 \<Rightarrow> 'v \<Rightarrow> u64 \<Rightarrow> u64 \<Rightarrow> 'v loop_sys option" where
  "qt_loopaccum_balance nw out start stop = qt_loopaccum_balance_inner nw SYNCVAR_T out start stop"

definition qt_loopaccum_balance_sinc :: "u64 \<Rightarrow> 'v \<Rightarrow> u64 \<Rightarrow> u64 \<Rightarrow> 'v loop_sys option" where
  "qt_loopaccum_balance_sinc nw out start stop = qt_loopaccum_balance_inner nw SINC_T out start stop"

definition qt_loopaccum_balance_dc :: "u64 \<Rightarrow> 'v \<Rightarrow> u64 \<Rightarrow> u64 \<Rightarrow> 'v loop_sys option" where
  "qt_loopaccum_balance_dc nw out start stop = qt_loopaccum_balance_inner nw DONECOUNT out start stop"

section \<open>Parallel reductions of an array\<close>

text \<open>The worker function of \<open>PARALLEL_FUNC\<close>: it starts from the first element of its range, which it does not check to be
  non-empty. Reading past the array is \<open>None\<close>.\<close>

definition read_at :: "'v list \<Rightarrow> nat \<Rightarrow> 'v option" where
  "read_at xs i = (if i < length xs then Some (xs ! i) else None)"

primrec worker_loop :: "nat \<Rightarrow> ('v \<Rightarrow> 'v \<Rightarrow> 'v) \<Rightarrow> 'v list \<Rightarrow> nat \<Rightarrow> 'v \<Rightarrow> 'v option" where
  "worker_loop 0 op xs i acc = Some acc"
| "worker_loop (Suc k) op xs i acc = do { x \<leftarrow> read_at xs i; worker_loop k op xs (i + 1) (op acc x) }"

definition parallel_worker :: "('v \<Rightarrow> 'v \<Rightarrow> 'v) \<Rightarrow> 'v list \<Rightarrow> u64 \<Rightarrow> u64 \<Rightarrow> 'v option" where
  "parallel_worker op xs start stop =
     do { x \<leftarrow> read_at xs (unat start); worker_loop (unat stop - Suc (unat start)) op xs (unat start + 1) x }"

definition parallel_func :: "u64 \<Rightarrow> 'v \<Rightarrow> 'v list \<Rightarrow> 'v loop_sys option" where
  "parallel_func nw out xs = qt_loopaccum_balance_inner nw SYNCVAR_T out 0 (of_nat (length xs))"

section \<open>One task per iteration\<close>

text \<open>
  \<open>qt_loop_spawner\<close>, the worker function of \<open>qt_loop\<close>: it forks a task for every iteration of its range, all with the
  same return location \<open>retptr\<close>, and waits for all of them.
\<close>

datatype spawner_pc = S_spawn nat | S_wait nat | S_done

record spawner_sys =
  sptasks :: "loop_task list"
  spwords :: "nat \<Rightarrow> bool"
  spsinc :: "unit qt_sinc"
  spdc :: nat
  spran :: "nat list"
  spawner :: spawner_pc

definition retptr :: "synctype_t \<Rightarrow> sync_ptr" where
  "retptr ty = (case ty of SYNCVAR_T \<Rightarrow> ArrPtr 0 | ALIGNED \<Rightarrow> ArrPtr 0 | _ \<Rightarrow> NullPtr)"

definition spawner_start :: "nat \<Rightarrow> spawner_sys" where
  "spawner_start steps = \<lparr>sptasks = [], spwords = (\<lambda>_. False), spsinc = qt_sinc_create 0 None (of_nat steps), spdc = 0, spran = [],
     spawner = S_spawn 0\<rparr>"

inductive spawner_step :: "synctype_t \<Rightarrow> nat \<Rightarrow> spawner_sys \<Rightarrow> spawner_sys \<Rightarrow> bool" for ty steps where
  fork: "spawner s = S_spawn i \<Longrightarrow> i < steps \<Longrightarrow>
    spawner_step ty steps s (s\<lparr>sptasks := sptasks s @ [\<lparr>tidx = i, tret = retptr ty, tpc = T_start\<rparr>],
      spwords := (if retptr ty = ArrPtr 0 then (spwords s)(0 := False) else spwords s), spawner := S_spawn (i + 1)\<rparr>)"
| forked: "spawner s = S_spawn i \<Longrightarrow> \<not> i < steps \<Longrightarrow> spawner_step ty steps s (s\<lparr>spawner := S_wait 0\<rparr>)"
| iterate: "k < length (sptasks s) \<Longrightarrow> tpc (sptasks s ! k) = T_start \<Longrightarrow>
    spawner_step ty steps s (s\<lparr>sptasks := (sptasks s)[k := (sptasks s ! k)\<lparr>tpc := T_sync\<rparr>], spran := spran s @ [tidx (sptasks s ! k)]\<rparr>)"
| submit: "k < length (sptasks s) \<Longrightarrow> tpc (sptasks s ! k) = T_sync \<Longrightarrow> ty = SINC_T \<Longrightarrow>
    qt_sinc_submit (\<lambda>a b. a) 0 None (spsinc s) = Some c \<Longrightarrow>
    spawner_step ty steps s (s\<lparr>sptasks := (sptasks s)[k := (sptasks s ! k)\<lparr>tpc := T_ret\<rparr>], spsinc := c\<rparr>)"
| signal: "k < length (sptasks s) \<Longrightarrow> tpc (sptasks s ! k) = T_sync \<Longrightarrow> ty \<noteq> SINC_T \<Longrightarrow>
    spawner_step ty steps s (s\<lparr>sptasks := (sptasks s)[k := (sptasks s ! k)\<lparr>tpc := T_ret\<rparr>],
      spdc := (if ty = DONECOUNT then spdc s + 1 else spdc s)\<rparr>)"
| return_none: "k < length (sptasks s) \<Longrightarrow> tpc (sptasks s ! k) = T_ret \<Longrightarrow> tret (sptasks s ! k) = NullPtr \<Longrightarrow>
    spawner_step ty steps s (s\<lparr>sptasks := (sptasks s)[k := (sptasks s ! k)\<lparr>tpc := T_end\<rparr>]\<rparr>)"
| return_word: "k < length (sptasks s) \<Longrightarrow> tpc (sptasks s ! k) = T_ret \<Longrightarrow> tret (sptasks s ! k) = ArrPtr i \<Longrightarrow> \<not> spwords s i \<Longrightarrow>
    spawner_step ty steps s (s\<lparr>sptasks := (sptasks s)[k := (sptasks s ! k)\<lparr>tpc := T_end\<rparr>], spwords := (spwords s)(i := True)\<rparr>)"
| wait_word: "spawner s = S_wait i \<Longrightarrow> ty = SYNCVAR_T \<or> ty = ALIGNED \<Longrightarrow> i < steps \<Longrightarrow> spwords s i \<Longrightarrow>
    spawner_step ty steps s (s\<lparr>spawner := S_wait (i + 1)\<rparr>)"
| wait_words: "spawner s = S_wait i \<Longrightarrow> ty = SYNCVAR_T \<or> ty = ALIGNED \<Longrightarrow> \<not> i < steps \<Longrightarrow>
    spawner_step ty steps s (s\<lparr>spawner := S_done\<rparr>)"
| wait_sinc: "spawner s = S_wait i \<Longrightarrow> ty = SINC_T \<Longrightarrow> sready (spsinc s) \<Longrightarrow> spawner_step ty steps s (s\<lparr>spawner := S_done\<rparr>)"
| wait_dc: "spawner s = S_wait i \<Longrightarrow> ty = DONECOUNT \<Longrightarrow> spdc s = steps \<Longrightarrow> spawner_step ty steps s (s\<lparr>spawner := S_done\<rparr>)"

end
