(* ===== verification/Qloop_Inv.thy ===== *)
theory Qloop_Inv
  imports Qloop
begin

text \<open>
  The invariant of a balanced loop: the tasks form the tree in which task \<open>i\<close> spawns the tasks \<open>i + 2 ^ l\<close> for every \<open>l\<close>
  from the number of bits of \<open>i\<close> on, each task runs its range once, and the signals agree with the tasks that are done.
\<close>

section \<open>The tree\<close>

fun bits :: "nat \<Rightarrow> nat" where
  "bits n = (if n = 0 then 0 else Suc (bits (n div 2)))"

declare bits.simps [simp del]

lemma bits_0 [simp]: "bits 0 = 0"
  by (simp add: bits.simps)

lemma bits_upper: "n < 2 ^ bits n"
proof (induction n rule: bits.induct)
  case (1 n)
  show ?case
  proof (cases "n = 0")
    case False
    then have "n div 2 < 2 ^ bits (n div 2)"
      using 1 by simp
    then show ?thesis
      using False by (simp add: bits.simps [of n])
  qed simp
qed

lemma bits_lower: "0 < n \<Longrightarrow> 2 ^ (bits n - 1) \<le> n"
proof (induction n rule: bits.induct)
  case (1 n)
  show ?case
  proof (cases "n = 1")
    case False
    then have d: "0 < n div 2" "n \<noteq> 0"
      using 1(2) by (simp_all add: div_greater_zero_iff)
    then have "2 ^ (bits (n div 2) - 1) \<le> n div 2" "0 < bits (n div 2)"
      using 1(1) by (simp_all add: bits.simps [of "n div 2"])
    then have "2 * 2 ^ (bits (n div 2) - 1) \<le> n"
      by linarith
    then show ?thesis
      using d(2) \<open>0 < bits (n div 2)\<close> by (simp add: bits.simps [of n] flip: power_Suc)
  qed (simp add: bits.simps [of "Suc 0"])
qed

lemma bits_unique:
  assumes "2 ^ j \<le> n" "n < 2 ^ Suc j"
  shows "bits n = Suc j"
proof -
  have "0 < n"
    using assms(1) by (metis gr0I le_zero_eq power_not_zero zero_neq_numeral)
  then have "2 ^ (bits n - 1) < (2 :: nat) ^ Suc j" "2 ^ j < (2 :: nat) ^ bits n"
    using bits_lower [of n] bits_upper [of n] assms by linarith+
  then have "bits n - 1 < Suc j" "j < bits n"
    by (auto intro: power_less_imp_less_exp [of "2 :: nat"])
  then show ?thesis
    by simp
qed

definition parent :: "nat \<Rightarrow> nat" where
  "parent c = c - 2 ^ (bits c - 1)"

lemma child_facts:
  assumes "bits i \<le> l"
  shows "bits (2 ^ l + i) = Suc l" "parent (2 ^ l + i) = i"
proof -
  have "i < 2 ^ l"
    using bits_upper [of i] power_increasing [OF assms, of "2 :: nat"] by linarith
  then show b: "bits (2 ^ l + i) = Suc l"
    by (intro bits_unique) simp_all
  show "parent (2 ^ l + i) = i"
    by (simp add: parent_def b)
qed

lemma bits_least:
  assumes "n < 2 ^ j"
  shows "bits n \<le> j"
proof (cases "n = 0")
  case False
  then have "2 ^ (bits n - 1) < (2 :: nat) ^ j"
    using bits_lower [of n] assms by linarith
  then have "bits n - 1 < j"
    by (rule power_less_imp_less_exp [rotated]) simp
  then show ?thesis
    by simp
qed simp

lemma parent_facts:
  assumes "0 < c"
  shows "c = 2 ^ (bits c - 1) + parent c" "parent c < c" "bits (parent c) < bits c" "0 < bits c"
proof -
  show c: "c = 2 ^ (bits c - 1) + parent c"
    using bits_lower [OF assms] by (simp add: parent_def)
  then show "parent c < c"
    by (metis less_add_same_cancel2 zero_less_numeral zero_less_power)
  show pos: "0 < bits c"
    using assms by (simp add: bits.simps [of c])
  have "parent c < 2 ^ (bits c - 1)"
    using c bits_upper [of c] pos by (cases "bits c") simp_all
  then have "bits (parent c) \<le> bits c - 1"
    using bits_least by blast
  then show "bits (parent c) < bits c"
    using pos by simp
qed

lemma bits_le: "bits n \<le> n"
  by (rule bits_least) (rule less_exp)

section \<open>Tasks by their index\<close>

definition pc_of :: "loop_task list \<Rightarrow> nat \<Rightarrow> task_pc option" where
  "pc_of ts = map_of (map (\<lambda>t. (tidx t, tpc t)) ts)"

lemma pc_of_nth: "distinct (map tidx ts) \<Longrightarrow> k < length ts \<Longrightarrow> pc_of ts (tidx (ts ! k)) = Some (tpc (ts ! k))"
  by (force simp: pc_of_def o_def intro!: map_of_is_SomeI)

lemma dom_pc_of: "dom (pc_of ts) = tidx ` set ts"
  by (simp add: pc_of_def dom_map_of_conv_image_fst image_image)

lemma pc_of_Some: "pc_of ts i = Some pc \<Longrightarrow> \<exists>k < length ts. tidx (ts ! k) = i \<and> tpc (ts ! k) = pc"
  by (fastforce simp: pc_of_def in_set_conv_nth dest!: map_of_SomeD)

lemma pc_of_update:
  assumes "distinct (map tidx ts)" "k < length ts"
  shows "pc_of (ts[k := (ts ! k)\<lparr>tpc := pc\<rparr>]) = (pc_of ts)(tidx (ts ! k) \<mapsto> pc)"
  using assms
proof (induction ts arbitrary: k)
  case (Cons t ts)
  show ?case
  proof (cases k)
    case (Suc m)
    then have "tidx t \<noteq> tidx (ts ! m)"
      using Cons.prems by auto
    then show ?thesis
      using Cons.IH [of m] Cons.prems Suc by (auto simp: pc_of_def fun_eq_iff)
  qed (auto simp: pc_of_def fun_eq_iff)
qed simp

lemma pc_of_append:
  assumes "tidx t \<notin> tidx ` set ts"
  shows "pc_of (ts @ [t]) = (pc_of ts)(tidx t \<mapsto> tpc t)"
proof -
  have "tidx t \<notin> dom (pc_of ts)"
    using assms by (simp add: dom_pc_of)
  then show ?thesis
    by (auto simp: pc_of_def map_add_def fun_eq_iff split: option.split)
qed

lemma map_tidx_update [simp]: "k < length ts \<Longrightarrow> map tidx (ts[k := (ts ! k)\<lparr>tpc := pc\<rparr>]) = map tidx ts"
  by (simp add: map_update list_update_same_conv)

section \<open>The tree invariant\<close>

text \<open>A task has spawned its children up to the level \<open>prog\<close>.\<close>

definition prog :: "nat \<Rightarrow> nat \<Rightarrow> task_pc \<Rightarrow> nat" where
  "prog m i pc = (case pc of T_start \<Rightarrow> bits i | T_spawn l n \<Rightarrow> l | _ \<Rightarrow> m)"

definition tree_ok :: "nat \<Rightarrow> (nat \<Rightarrow> task_pc option) \<Rightarrow> bool" where
  "tree_ok m P \<longleftrightarrow> 0 \<in> dom P \<and> dom P \<subseteq> {..<m}
     \<and> (\<forall>i l n. P i = Some (T_spawn l n) \<longrightarrow> n = 2 ^ l + i \<and> bits i \<le> l)
     \<and> (\<forall>c < m. 0 < c \<longrightarrow> (c \<in> dom P \<longleftrightarrow> (\<exists>pc. P (parent c) = Some pc \<and> bits c \<le> prog m (parent c) pc)))"

lemma tree_start: "0 < m \<Longrightarrow> tree_ok m [0 \<mapsto> T_start]"
  using parent_facts(4) by (fastforce simp: tree_ok_def prog_def split: if_splits)

text \<open>Advancing a task without spawning, when that does not change which children it has.\<close>

lemma tree_advance:
  assumes "tree_ok m P" "P i = Some pc"
    and "\<And>c. 0 < c \<Longrightarrow> c < m \<Longrightarrow> parent c = i \<Longrightarrow> bits c \<le> prog m i pc' \<longleftrightarrow> bits c \<le> prog m i pc"
    and "\<And>l n. pc' = T_spawn l n \<Longrightarrow> n = 2 ^ l + i \<and> bits i \<le> l"
  shows "tree_ok m (P(i \<mapsto> pc'))"
  unfolding tree_ok_def
proof (intro conjI allI impI)
  show "0 \<in> dom (P(i \<mapsto> pc'))" "dom (P(i \<mapsto> pc')) \<subseteq> {..<m}"
    using assms(1,2) by (auto simp: tree_ok_def)
next
  fix j l n
  assume "(P(i \<mapsto> pc')) j = Some (T_spawn l n)"
  then show "n = 2 ^ l + j" "bits j \<le> l"
    using assms(1,4) by (auto simp: tree_ok_def split: if_splits)
next
  fix c
  assume c: "c < m" "0 < c"
  then have "c \<in> dom P \<longleftrightarrow> (\<exists>pc. P (parent c) = Some pc \<and> bits c \<le> prog m (parent c) pc)"
    using assms(1) by (simp add: tree_ok_def)
  moreover have "c \<in> dom (P(i \<mapsto> pc')) \<longleftrightarrow> c \<in> dom P"
    using assms(2) by auto
  ultimately show "c \<in> dom (P(i \<mapsto> pc')) \<longleftrightarrow> (\<exists>pc. (P(i \<mapsto> pc')) (parent c) = Some pc \<and> bits c \<le> prog m (parent c) pc)"
    using assms(2) assms(3) [of c] c by (cases "parent c = i") auto
qed

lemma tree_start_spawning:
  assumes "tree_ok m P" "P i = Some T_start"
  shows "tree_ok m (P(i \<mapsto> T_spawn (bits i) (2 ^ bits i + i)))"
  by (rule tree_advance [OF assms]) (simp_all add: prog_def)

lemma tree_body:
  assumes "tree_ok m P" "P i = Some (T_spawn l n)" "m \<le> n"
  shows "tree_ok m (P(i \<mapsto> T_sync))"
proof (rule tree_advance [OF assms(1,2)])
  fix c
  assume c: "0 < c" "c < m" "parent c = i"
  have "2 ^ (bits c - 1) + i < 2 ^ l + i"
    using parent_facts(1) [OF c(1)] c(2,3) assms by (auto simp: tree_ok_def)
  then have "bits c \<le> l"
    by simp
  moreover have "bits c \<le> m"
    using bits_le [of c] c(2) by simp
  ultimately show "bits c \<le> prog m i T_sync \<longleftrightarrow> bits c \<le> prog m i (T_spawn l n)"
    by (simp add: prog_def)
qed simp

lemma tree_later:
  assumes "tree_ok m P" "P i = Some pc" "pc \<in> {T_sync, T_ret, T_end}" "pc' \<in> {T_sync, T_ret, T_end}"
  shows "tree_ok m (P(i \<mapsto> pc'))"
  by (rule tree_advance [OF assms(1,2)]) (use assms(3,4) in \<open>auto simp: prog_def\<close>)

lemma tree_fresh:
  assumes "tree_ok m P" "P i = Some (T_spawn l n)" "n < m"
  shows "n \<notin> dom P" "0 < n" "n = 2 ^ l + i" "bits n = Suc l" "parent n = i"
proof -
  show n: "n = 2 ^ l + i"
    using assms by (simp add: tree_ok_def)
  have "bits i \<le> l"
    using assms by (simp add: tree_ok_def)
  then show b: "bits n = Suc l" "parent n = i"
    using child_facts [of i l] n by simp_all
  show "0 < n"
    by (simp add: n)
  then show "n \<notin> dom P"
    using assms b by (simp add: tree_ok_def prog_def)
qed

lemma tree_spawn:
  assumes ok: "tree_ok m P" and i: "P i = Some (T_spawn l n)" and n: "n < m"
  shows "tree_ok m (P(i \<mapsto> T_spawn (l + 1) (2 ^ (l + 1) + i), n \<mapsto> T_start))"
proof -
  note f = tree_fresh [OF ok i n]
  let ?P = "P(i \<mapsto> T_spawn (l + 1) (2 ^ (l + 1) + i), n \<mapsto> T_start)"
  have ni: "n \<noteq> i"
    using i f(1) by auto
  have dom: "dom ?P = insert n (dom P)"
    using i by auto
  have "c \<in> dom ?P \<longleftrightarrow> (\<exists>pc. ?P (parent c) = Some pc \<and> bits c \<le> prog m (parent c) pc)" if c: "c < m" "0 < c" for c
  proof -
    have old: "c \<in> dom P \<longleftrightarrow> (\<exists>pc. P (parent c) = Some pc \<and> bits c \<le> prog m (parent c) pc)"
      using ok c by (simp add: tree_ok_def)
    consider "parent c = n" | "parent c = i" | "parent c \<noteq> n" "parent c \<noteq> i"
      by blast
    then show ?thesis
    proof cases
      case 1
      then have "c \<notin> dom P" "c \<noteq> n" "bits n < bits c"
        using old f(1) parent_facts(2,3) [OF c(2)] by auto
      then show ?thesis
        unfolding dom using 1 by (simp add: prog_def)
    next
      case 2
      have "c = n \<longleftrightarrow> bits c = Suc l"
        using f(3,4) parent_facts(1) [OF c(2)] 2 by auto
      then show ?thesis
        unfolding dom using 2 ni old i by (auto simp: prog_def le_Suc_eq)
    next
      case 3
      then have "c \<noteq> n"
        using f(5) by auto
      then show ?thesis
        unfolding dom using 3 old by simp
    qed
  qed
  moreover have "k = 2 ^ h + j" "bits j \<le> h" if "?P j = Some (T_spawn h k)" for j h k
    using that ok i by (auto simp: tree_ok_def le_SucI split: if_splits)
  moreover have "0 \<in> dom ?P" "dom ?P \<subseteq> {..<m}"
    using ok dom n by (auto simp: tree_ok_def)
  ultimately show ?thesis
    unfolding tree_ok_def by blast
qed

text \<open>When no task can spawn any more, all are there.\<close>

lemma tree_complete:
  assumes ok: "tree_ok m P" and past: "\<And>i pc. P i = Some pc \<Longrightarrow> pc \<in> {T_sync, T_ret, T_end}"
  shows "dom P = {..<m}"
proof -
  have "c < m \<Longrightarrow> c \<in> dom P" for c
  proof (induction c rule: less_induct)
    case (less c)
    show ?case
    proof (cases "c = 0")
      case False
      then have c: "0 < c" "parent c < c" "parent c < m"
        using parent_facts(2) [of c] less.prems by auto
      then obtain pc where pc: "P (parent c) = Some pc"
        using less.IH [of "parent c"] by auto
      have "prog m (parent c) pc = m"
        using past [OF pc] by (auto simp: prog_def)
      then show ?thesis
        using ok c pc bits_le [of c] less.prems unfolding tree_ok_def by (metis le_trans less_imp_le_nat)
    qed (use ok in \<open>simp add: tree_ok_def\<close>)
  qed
  then show ?thesis
    using ok by (auto simp: tree_ok_def)
qed

end
