(* ===== verification/Qloop_Run.thy ===== *)
theory Qloop_Run
  imports Qloop_Inv
begin

text \<open>Every step of a balanced loop keeps its invariant; the division of the iterations covers each of them once.\<close>

section \<open>The division\<close>

definition range_of :: "qloop_wrapper_args \<Rightarrow> nat list" where
  "range_of q = [unat (startat q)..<unat (stopat q)]"

lemma range_of_record: "range_of \<lparr>startat = a, stopat = b, qid = i, level = l, spawnthreads = m, qsync = p\<rparr> = [unat a..<unat b]"
  by (simp add: range_of_def)

lemma unat_plus: "unat a + unat b < 2 ^ 64 \<Longrightarrow> unat (a + b) = unat a + unat b" for a b :: u64
  by (simp add: unat_word_ariths)

lemma upt_join: "a \<le> b \<Longrightarrow> b \<le> c \<Longrightarrow> [a..<b] @ [b..<c] = [a..<c]"
  by (metis le_add_diff_inverse upt_add_eq_append)

lemma qwa_fill_length [simp]: "length (qwa_fill k i m p each extra e) = k"
  by (induction k arbitrary: i extra e) (simp_all add: Let_def)

lemma qwa_fill_nth:
  "j < k \<Longrightarrow> qid (qwa_fill k i m p each extra e ! j) = i + j \<and> level (qwa_fill k i m p each extra e ! j) = 0
    \<and> spawnthreads (qwa_fill k i m p each extra e ! j) = m \<and> qsync (qwa_fill k i m p each extra e ! j) = p"
proof (induction k arbitrary: i extra e j)
  case (Suc k)
  then show ?case
    by (cases j) (simp_all add: Let_def)
qed simp

lemma qwa_fill_ranges:
  "unat e + k * unat each + unat extra < 2 ^ 64 \<Longrightarrow> unat extra \<le> k \<Longrightarrow>
    concat (map range_of (qwa_fill k i m p each extra e)) = [unat e..<unat e + k * unat each + unat extra]
    \<and> (\<forall>q \<in> set (qwa_fill k i m p each extra e). length (range_of q) = unat each \<or> length (range_of q) = unat each + 1)"
proof (induction k arbitrary: i extra e)
  case 0
  then show ?case
    by simp
next
  case (Suc k)
  show ?case
  proof (cases "0 < extra")
    case True
    then have x: "unat (extra - 1) = unat extra - 1" "0 < unat extra"
      by (simp_all add: unat_minus_one word_gt_0 unat_gt_0)
    have e: "unat (e + each + 1) = unat e + unat each + 1"
      using Suc.prems x(2) unat_plus [of e each] unat_plus [of "e + each" 1] by simp
    have "concat (map range_of (qwa_fill k (i + 1) m p each (extra - 1) (e + each + 1)))
        = [unat (e + each + 1)..<unat (e + each + 1) + k * unat each + unat (extra - 1)]
      \<and> (\<forall>q \<in> set (qwa_fill k (i + 1) m p each (extra - 1) (e + each + 1)).
           length (range_of q) = unat each \<or> length (range_of q) = unat each + 1)"
      by (rule Suc.IH) (use Suc.prems e x in \<open>simp_all add: algebra_simps\<close>)
    then show ?thesis
      using True e x Suc.prems
      by (simp add: range_of_record Let_def upt_join algebra_simps del: upt_Suc)
  next
    case False
    then have x: "extra = 0"
      by (simp add: word_gt_0)
    have e: "unat (e + each) = unat e + unat each"
      using Suc.prems unat_plus [of e each] by simp
    have "concat (map range_of (qwa_fill k (i + 1) m p each 0 (e + each)))
        = [unat (e + each)..<unat (e + each) + k * unat each + unat (0 :: u64)]
      \<and> (\<forall>q \<in> set (qwa_fill k (i + 1) m p each 0 (e + each)). length (range_of q) = unat each \<or> length (range_of q) = unat each + 1)"
      by (rule Suc.IH) (use Suc.prems e x in \<open>simp_all add: algebra_simps\<close>)
    then show ?thesis
      using x e by (simp add: range_of_record Let_def upt_join algebra_simps)
  qed
qed

text \<open>The records that \<open>divide\<close> makes, and the iterations they cover.\<close>

definition qwa_ok :: "synctype_t \<Rightarrow> qloop_wrapper_args list \<Rightarrow> bool" where
  "qwa_ok ty qwa \<longleftrightarrow> qwa \<noteq> [] \<and> length qwa < 2 ^ 64 \<and> (\<forall>i < length qwa. qid (qwa ! i) = i \<and> level (qwa ! i) = 0
     \<and> spawnthreads (qwa ! i) = length qwa \<and> qsync (qwa ! i) = qwa_sync ty)"

lemma divide_ok:
  assumes "start \<le> stop" "m \<noteq> 0"
  shows "\<exists>qwa. divide m ty start stop = Some qwa \<and> qwa_ok ty qwa \<and> length qwa = unat m
    \<and> concat (map range_of qwa) = [unat start..<unat stop]
    \<and> (\<forall>q \<in> set qwa. length (range_of q) = (unat stop - unat start) div unat m
         \<or> length (range_of q) = (unat stop - unat start) div unat m + 1)"
proof -
  let ?n = "stop - start" and ?each = "(stop - start) div m"
  let ?extra = "?n - ?each * m"
  let ?q = "qwa_fill (unat m) 0 (unat m) (qwa_sync ty) ?each ?extra start"
  have m: "0 < unat m"
    using assms(2) by (simp add: unat_gt_0)
  have n: "unat ?n = unat stop - unat start" "unat start \<le> unat stop"
    using assms(1) by (simp_all add: unat_sub word_le_nat_alt)
  have each: "unat ?each = unat ?n div unat m"
    by (rule unat_div)
  have "unat ?each * unat m \<le> unat ?n"
    by (simp add: each)
  then have prod: "unat (?each * m) = unat ?each * unat m"
    using unsigned_less [where 'a = nat, of ?n] by (simp add: unat_word_ariths)
  then have extra: "unat ?extra = unat ?n mod unat m"
    using each by (subst unat_sub) (simp_all add: word_le_nat_alt minus_div_mult_eq_mod)
  have sum: "unat start + unat m * unat ?each + unat ?extra = unat stop"
    using n by (simp add: each extra)
  have "unat start + unat m * unat ?each + unat ?extra < 2 ^ 64"
    unfolding sum using unsigned_less [where 'a = nat, of stop] by simp
  moreover have "unat ?extra \<le> unat m"
    using m by (simp add: extra less_imp_le_nat)
  ultimately have r: "concat (map range_of ?q) = [unat start..<unat stop]"
      "\<forall>q \<in> set ?q. length (range_of q) = unat ?each \<or> length (range_of q) = unat ?each + 1"
    using qwa_fill_ranges [of start "unat m" ?each ?extra 0 "unat m" "qwa_sync ty"] sum by simp_all
  have "?q \<noteq> []"
    using m qwa_fill_length by (metis length_0_conv less_irrefl)
  then have "qwa_ok ty ?q"
    using qwa_fill_nth [of _ "unat m"] unsigned_less [where 'a = nat, of m] by (simp add: qwa_ok_def)
  then show ?thesis
    using assms(2) r each n by (simp add: divide_def Let_def)
qed

section \<open>The invariant\<close>

definition ret_of :: "bool \<Rightarrow> synctype_t \<Rightarrow> nat \<Rightarrow> sync_ptr" where
  "ret_of accum ty i = (case ty of SYNCVAR_T \<Rightarrow> ArrPtr i | SINC_T \<Rightarrow> if accum then NullPtr else SincPtr | _ \<Rightarrow> NullPtr)"

definition signals :: "bool \<Rightarrow> synctype_t \<Rightarrow> task_pc \<Rightarrow> bool" where
  "signals accum ty pc \<longleftrightarrow> pc = T_end \<or> pc = T_ret \<and> (ty = DONECOUNT \<or> ty = SINC_T \<and> accum)"

definition signalled :: "bool \<Rightarrow> synctype_t \<Rightarrow> (nat \<Rightarrow> task_pc option) \<Rightarrow> nat set" where
  "signalled accum ty P = {i. \<exists>pc. P i = Some pc \<and> signals accum ty pc}"

definition finished :: "(nat \<Rightarrow> task_pc option) \<Rightarrow> nat set" where
  "finished P = {i. \<exists>pc. P i = Some pc \<and> pc \<in> {T_sync, T_ret, T_end}}"

definition sync_ok :: "bool \<Rightarrow> synctype_t \<Rightarrow> nat \<Rightarrow> nat \<Rightarrow> (nat \<Rightarrow> task_pc option) \<Rightarrow> 'v loop_sys \<Rightarrow> bool" where
  "sync_ok accum ty workers m P s \<longleftrightarrow>
     (ty = SYNCVAR_T \<longrightarrow> (\<forall>i. words s (ArrPtr i) \<longleftrightarrow> P i = Some T_end))
     \<and> (ty = DONECOUNT \<longrightarrow> dc s = card (signalled accum ty P))
     \<and> (ty = SINC_T \<longrightarrow> unat (counter (lsinc s)) + card (signalled accum ty P) = m
          \<and> (sready (lsinc s) \<longleftrightarrow> counter (lsinc s) = 0)
          \<and> (accum \<longrightarrow> (\<exists>r. srdata (lsinc s) = Some r \<and> length (svalues r) = workers
               \<and> (sready (lsinc s) \<longrightarrow> sresult r \<noteq> None))))"

definition caller_ok :: "synctype_t \<Rightarrow> nat \<Rightarrow> (nat \<Rightarrow> task_pc option) \<Rightarrow> caller_pc \<Rightarrow> bool" where
  "caller_ok ty m P c \<longleftrightarrow> (case c of C_wait i \<Rightarrow> ty = SYNCVAR_T \<longrightarrow> i \<le> m \<and> (\<forall>j < i. P j = Some T_end)
     | C_acc i \<Rightarrow> i \<le> m \<and> {..<m} \<subseteq> finished P | _ \<Rightarrow> {..<m} \<subseteq> finished P)"

definition args_ok :: "qloop_wrapper_args list \<Rightarrow> (nat \<Rightarrow> task_pc option) \<Rightarrow> qloop_wrapper_args list \<Rightarrow> bool" where
  "args_ok qwa P as \<longleftrightarrow> length as = length qwa \<and> (\<forall>i < length qwa. as ! i = (qwa ! i)\<lparr>level := level (as ! i)\<rparr>)
     \<and> (\<forall>i \<in> dom P. level (as ! i) = bits i)"

definition loop_inv :: "bool \<Rightarrow> synctype_t \<Rightarrow> nat \<Rightarrow> qloop_wrapper_args list \<Rightarrow> 'v loop_sys \<Rightarrow> bool" where
  "loop_inv accum ty workers qwa s \<longleftrightarrow>
     (let P = pc_of (tasks s); m = length qwa
      in distinct (map tidx (tasks s)) \<and> tree_ok m P \<and> args_ok qwa P (args s)
         \<and> (\<forall>t \<in> set (tasks s). tret t = ret_of accum ty (tidx t))
         \<and> mset (ran s) = mset_set (finished P) \<and> (\<forall>i \<in> finished P. rets s i \<noteq> None)
         \<and> sync_ok accum ty workers m P s \<and> caller_ok ty m P (caller s))"

lemma finite_tree: "tree_ok m P \<Longrightarrow> finite (finished P) \<and> finite (signalled accum ty P)"
proof -
  assume "tree_ok m P"
  then have "finished P \<subseteq> {..<m}" "signalled accum ty P \<subseteq> {..<m}"
    by (auto simp: tree_ok_def finished_def signalled_def)
  then show ?thesis
    using finite_subset by blast
qed

lemma signalled_finished: "signalled accum ty P \<subseteq> finished P"
  by (auto simp: signalled_def finished_def signals_def)

lemma signalled_update:
  assumes "P i = Some pc"
  shows "signalled accum ty (P(i \<mapsto> pc')) = (if signals accum ty pc' then insert i (signalled accum ty P)
    else signalled accum ty P - {i})" "i \<in> signalled accum ty P \<longleftrightarrow> signals accum ty pc"
  using assms by (auto simp: signalled_def)

lemma finished_update:
  assumes "P i = Some pc"
  shows "finished (P(i \<mapsto> pc')) = (if pc' \<in> {T_sync, T_ret, T_end} then insert i (finished P) else finished P - {i})"
    "i \<in> finished P \<longleftrightarrow> pc \<in> {T_sync, T_ret, T_end}"
  using assms by (auto simp: finished_def)

lemma set_pc_fields [simp]:
  "args (set_pc k pc s) = args s" "words (set_pc k pc s) = words s" "lsinc (set_pc k pc s) = lsinc s" "dc (set_pc k pc s) = dc s"
  "ran (set_pc k pc s) = ran s" "rets (set_pc k pc s) = rets s" "caller (set_pc k pc s) = caller s"
  by (simp_all add: set_pc_def)

text \<open>One task moves on, no task is added.\<close>

lemma inv_pc:
  assumes inv: "loop_inv accum ty workers qwa s" and k: "k < length (tasks s)"
    and s': "tasks s' = tasks (set_pc k pc s)" "args s' = args s" "caller s' = caller s"
    and pcs: "\<not> pc = T_start" "tpc (tasks s ! k) \<noteq> T_end"
    and tree: "tree_ok (length qwa) ((pc_of (tasks s))(tidx (tasks s ! k) \<mapsto> pc))"
    and ran: "mset (ran s') = mset_set (finished ((pc_of (tasks s))(tidx (tasks s ! k) \<mapsto> pc)))"
    and rets: "\<forall>i \<in> finished ((pc_of (tasks s))(tidx (tasks s ! k) \<mapsto> pc)). rets s' i \<noteq> None"
    and sync: "sync_ok accum ty workers (length qwa) ((pc_of (tasks s))(tidx (tasks s ! k) \<mapsto> pc)) s'"
    and fin: "tpc (tasks s ! k) \<in> {T_sync, T_ret, T_end} \<Longrightarrow> pc \<in> {T_sync, T_ret, T_end}"
  shows "loop_inv accum ty workers qwa s'"
proof -
  let ?P = "pc_of (tasks s)" and ?i = "tidx (tasks s ! k)"
  have d: "distinct (map tidx (tasks s))"
    using inv by (simp add: loop_inv_def Let_def)
  have P: "pc_of (tasks s') = ?P(?i \<mapsto> pc)"
    using pc_of_update [OF d k] by (simp add: s'(1) set_pc_def)
  have old: "?P ?i = Some (tpc (tasks s ! k))"
    by (rule pc_of_nth [OF d k])
  have ts: "t \<in> set (tasks s') \<Longrightarrow> tret t = ret_of accum ty (tidx t)" for t
    using inv k set_update_subset_insert [of "tasks s" k] by (fastforce simp: s'(1) set_pc_def loop_inv_def Let_def)
  have "args_ok qwa (?P(?i \<mapsto> pc)) (args s')"
    using inv old by (auto simp: s'(2) args_ok_def loop_inv_def Let_def)
  moreover have "caller_ok ty (length qwa) (?P(?i \<mapsto> pc)) (caller s')"
  proof -
    have "finished ?P \<subseteq> finished (?P(?i \<mapsto> pc))"
      using finished_update [where P = ?P, OF old] fin by auto
    then show ?thesis
      using inv old pcs(2) unfolding s'(3) caller_ok_def loop_inv_def Let_def by (fastforce split: caller_pc.splits)
  qed
  moreover have "distinct (map tidx (tasks s'))"
    using d k by (simp add: s'(1) set_pc_def)
  ultimately show ?thesis
    unfolding loop_inv_def Let_def P using tree ran rets sync ts by blast
qed

section \<open>The steps keep the invariant\<close>

text \<open>The kinds of synchronisation that work.\<close>

definition counts :: "synctype_t \<Rightarrow> bool" where
  "counts ty \<longleftrightarrow> ty = SYNCVAR_T \<or> ty = SINC_T \<or> ty = DONECOUNT"

lemma loop_invD:
  assumes "loop_inv accum ty workers qwa s"
  shows "distinct (map tidx (tasks s))" "tree_ok (length qwa) (pc_of (tasks s))" "args_ok qwa (pc_of (tasks s)) (args s)"
    "\<And>t. t \<in> set (tasks s) \<Longrightarrow> tret t = ret_of accum ty (tidx t)" "mset (ran s) = mset_set (finished (pc_of (tasks s)))"
    "\<And>i. i \<in> finished (pc_of (tasks s)) \<Longrightarrow> rets s i \<noteq> None" "sync_ok accum ty workers (length qwa) (pc_of (tasks s)) s"
    "caller_ok ty (length qwa) (pc_of (tasks s)) (caller s)"
  using assms by (simp_all add: loop_inv_def Let_def)

lemma task_facts:
  assumes "loop_inv accum ty workers qwa s" "qwa_ok ty qwa" "k < length (tasks s)" "i = tidx (tasks s ! k)"
  shows "pc_of (tasks s) i = Some (tpc (tasks s ! k))" "i < length qwa" "qid (args s ! i) = i"
    "spawnthreads (args s ! i) = length qwa" "qsync (args s ! i) = qwa_sync ty" "level (args s ! i) = bits i"
    "tret (tasks s ! k) = ret_of accum ty i" "startat (args s ! i) = startat (qwa ! i)" "stopat (args s ! i) = stopat (qwa ! i)"
proof -
  note d = loop_invD [OF assms(1)]
  show P: "pc_of (tasks s) i = Some (tpc (tasks s ! k))"
    using pc_of_nth [OF d(1) assms(3)] assms(4) by simp
  then show i: "i < length qwa"
    using d(2) by (auto simp: tree_ok_def)
  have a: "args s ! i = (qwa ! i)\<lparr>level := level (args s ! i)\<rparr>" "level (args s ! i) = bits i"
    using d(3) i P by (auto simp: args_ok_def)
  show "level (args s ! i) = bits i"
    by (rule a(2))
  show "qid (args s ! i) = i" "spawnthreads (args s ! i) = length qwa" "qsync (args s ! i) = qwa_sync ty"
      "startat (args s ! i) = startat (qwa ! i)" "stopat (args s ! i) = stopat (qwa ! i)"
    using assms(2) i by (subst a(1), simp add: qwa_ok_def)+
  show "tret (tasks s ! k) = ret_of accum ty i"
    using d(4) assms(3,4) by simp
qed

lemma submit_effect:
  assumes "qt_sinc_submit acc w v c = Some c'"
  shows "0 < counter c" "counter c' = counter c - 1" "sready c' \<longleftrightarrow> counter c = 1 \<or> sready c"
    "\<And>r. srdata c = Some r \<Longrightarrow> \<not> sready c \<Longrightarrow>
      \<exists>r'. srdata c' = Some r' \<and> length (svalues r') = length (svalues r) \<and> (sready c' \<longrightarrow> sresult r' \<noteq> None)"
  using assms
  by (auto simp: qt_sinc_submit_def submit_value_def submit_count_def qt_sinc_internal_collate_def bind_eq_Some_iff
      split: if_splits option.splits)

lemma step_start:
  assumes inv: "loop_inv accum ty workers qwa s" and q: "qwa_ok ty qwa" and k: "k < length (tasks s)"
    and pc: "tpc (tasks s ! k) = T_start" and i: "i = tidx (tasks s ! k)" and a: "a = args s ! i"
  shows "loop_inv accum ty workers qwa (set_pc k (T_spawn (level a) (qid a + 2 ^ level a)) s)"
proof -
  note t = task_facts [OF inv q k i] and d = loop_invD [OF inv]
  let ?pc = "T_spawn (bits i) (2 ^ bits i + i)"
  have P: "pc_of (tasks s) i = Some T_start"
    using t(1) pc by simp
  have fin: "finished ((pc_of (tasks s))(i \<mapsto> ?pc)) = finished (pc_of (tasks s))"
    using finished_update [where P = "pc_of (tasks s)", OF P] by auto
  have sig: "signalled accum ty ((pc_of (tasks s))(i \<mapsto> ?pc)) = signalled accum ty (pc_of (tasks s))"
    using signalled_update [where P = "pc_of (tasks s)", OF P] by (auto simp: signals_def)
  have "loop_inv accum ty workers qwa (set_pc k ?pc s)"
  proof (rule inv_pc [OF inv k refl])
    show "sync_ok accum ty workers (length qwa) ((pc_of (tasks s))(tidx (tasks s ! k) \<mapsto> ?pc)) (set_pc k ?pc s)"
      using d(7) P unfolding sync_ok_def i [symmetric] sig by auto
  qed (use d(5,6) pc tree_start_spawning [OF d(2) P] fin i in \<open>auto\<close>)
  then show ?thesis
    using t(3,6) by (simp add: a add.commute)
qed

lemma step_body:
  assumes inv: "loop_inv accum ty workers qwa s" and q: "qwa_ok ty qwa" and k: "k < length (tasks s)"
    and pc: "tpc (tasks s ! k) = T_spawn l n" and i: "i = tidx (tasks s ! k)" and a: "a = args s ! i" "\<not> n \<le> spawnthreads a - 1"
  shows "loop_inv accum ty workers qwa ((set_pc k T_sync s)\<lparr>ran := ran s @ [i], rets := (rets s)(i \<mapsto> v)\<rparr>)"
proof -
  note t = task_facts [OF inv q k i] and d = loop_invD [OF inv]
  have P: "pc_of (tasks s) i = Some (T_spawn l n)"
    using t(1) pc by simp
  have n: "length qwa \<le> n"
    using a t(4) by simp
  have fin: "finished ((pc_of (tasks s))(i \<mapsto> T_sync)) = insert i (finished (pc_of (tasks s)))" "i \<notin> finished (pc_of (tasks s))"
    using finished_update [where P = "pc_of (tasks s)", OF P] by auto
  have sig: "signalled accum ty ((pc_of (tasks s))(i \<mapsto> T_sync)) = signalled accum ty (pc_of (tasks s))"
    using signalled_update [where P = "pc_of (tasks s)", OF P] by (auto simp: signals_def)
  have ran: "mset_set (insert i (finished (pc_of (tasks s)))) = add_mset i (mset (ran s))"
    using fin(2) finite_tree [OF d(2)] d(5) by simp
  show ?thesis
  proof (rule inv_pc [OF inv k, where pc = T_sync])
    show "sync_ok accum ty workers (length qwa) ((pc_of (tasks s))(tidx (tasks s ! k) \<mapsto> T_sync))
        ((set_pc k T_sync s)\<lparr>ran := ran s @ [i], rets := (rets s)(i \<mapsto> v)\<rparr>)"
      using d(7) P unfolding sync_ok_def i [symmetric] sig by auto
  qed (use d(6) pc tree_body [OF d(2) P n] fin(1) ran i in \<open>auto\<close>)
qed

text \<open>A task that has run its body moves on, with the effect of its signal on the synchronisation object.\<close>

lemma step_later:
  assumes inv: "loop_inv accum ty workers qwa s" and q: "qwa_ok ty qwa" and k: "k < length (tasks s)" and i: "i = tidx (tasks s ! k)"
    and pc: "tpc (tasks s ! k) = T_sync \<and> pc = T_ret \<or> tpc (tasks s ! k) = T_ret \<and> pc = T_end"
    and s': "tasks s' = tasks (set_pc k pc s)" "args s' = args s" "caller s' = caller s" "ran s' = ran s" "rets s' = rets s"
    and sync: "sync_ok accum ty workers (length qwa) ((pc_of (tasks s))(i \<mapsto> pc)) s'"
  shows "loop_inv accum ty workers qwa s'"
proof -
  note t = task_facts [OF inv q k i] and d = loop_invD [OF inv]
  have fin: "finished ((pc_of (tasks s))(i \<mapsto> pc)) = finished (pc_of (tasks s))"
    using finished_update [where P = "pc_of (tasks s)", OF t(1)] pc by auto
  show ?thesis
  proof (rule inv_pc [OF inv k s'(1-3)])
    show "tree_ok (length qwa) ((pc_of (tasks s))(tidx (tasks s ! k) \<mapsto> pc))"
      using tree_later [OF d(2) t(1)] pc i by auto
  qed (use d(5,6) pc fin sync i s'(4,5) in \<open>auto\<close>)
qed

lemma step_signal:
  assumes inv: "loop_inv accum ty workers qwa s" and q: "qwa_ok ty qwa" and k: "k < length (tasks s)" and i: "i = tidx (tasks s ! k)"
    and ty: "counts ty" and pc: "tpc (tasks s ! k) = T_sync" and sig: "task_signal accum ty acc w i s = Some s'"
  shows "loop_inv accum ty workers qwa (set_pc k T_ret s')"
proof -
  note t = task_facts [OF inv q k i] and d = loop_invD [OF inv]
  let ?P = "pc_of (tasks s)"
  have P: "?P i = Some T_sync"
    using t(1) pc by simp
  have same: "tasks s' = tasks s" "args s' = args s" "caller s' = caller s" "ran s' = ran s" "rets s' = rets s" "words s' = words s"
    using sig by (auto simp: task_signal_def bind_eq_Some_iff split: synctype_t.splits if_splits)
  have fin: "finite (signalled accum ty ?P)" "i \<notin> signalled accum ty ?P"
    using finite_tree [OF d(2)] signalled_update(2) [where P = ?P, OF P] by (auto simp: signals_def)
  have sg: "signalled accum ty (?P(i \<mapsto> T_ret)) = (if ty = DONECOUNT \<or> ty = SINC_T \<and> accum then insert i (signalled accum ty ?P)
      else signalled accum ty ?P)"
    using signalled_update(1) [where P = ?P, OF P, of accum ty T_ret] fin(2) by (auto simp: signals_def)
  have "sync_ok accum ty workers (length qwa) (?P(i \<mapsto> T_ret)) (set_pc k T_ret s')"
  proof (cases "ty = SINC_T \<and> accum")
    case True
    then obtain c where c: "qt_sinc_submit acc w (rets s i) (lsinc s) = Some c" "s' = s\<lparr>lsinc := c\<rparr>"
      using sig by (auto simp: task_signal_def bind_eq_Some_iff)
    note e = submit_effect [OF c(1)]
    have "unat (counter c) = unat (counter (lsinc s)) - 1" "0 < unat (counter (lsinc s))"
      using e(1,2) by (simp_all add: unat_minus_one word_gt_0 unat_gt_0)
    moreover have "sready c \<longleftrightarrow> counter c = 0"
      using d(7) True e(1-3) by (auto simp: sync_ok_def)
    ultimately show ?thesis
      using d(7) True c(2) sg fin e(4) by (auto simp: sync_ok_def)
  next
    case False
    then show ?thesis
      using d(7) sig sg fin P by (auto simp: sync_ok_def task_signal_def split: synctype_t.splits)
  qed
  then show ?thesis
    by (intro step_later [OF inv q k i, where pc = T_ret]) (use pc same in \<open>simp_all add: set_pc_def\<close>)
qed

lemma step_ret_none:
  assumes inv: "loop_inv accum ty workers qwa s" and q: "qwa_ok ty qwa" and k: "k < length (tasks s)"
    and ty: "counts ty" and pc: "tpc (tasks s ! k) = T_ret" "tret (tasks s ! k) = NullPtr"
  shows "loop_inv accum ty workers qwa (set_pc k T_end s)"
proof -
  let ?i = "tidx (tasks s ! k)" and ?P = "pc_of (tasks s)"
  note t = task_facts [OF inv q k refl] and d = loop_invD [OF inv]
  have P: "?P ?i = Some T_ret"
    using t(1) pc(1) by simp
  have c: "ty = DONECOUNT \<or> ty = SINC_T \<and> accum"
    using t(7) pc(2) ty by (auto simp: ret_of_def counts_def split: if_splits)
  then have "signalled accum ty (?P(?i \<mapsto> T_end)) = signalled accum ty ?P"
    using signalled_update [where P = ?P, OF P] by (auto simp: signals_def)
  then have "sync_ok accum ty workers (length qwa) (?P(?i \<mapsto> T_end)) (set_pc k T_end s)"
    using d(7) c by (auto simp: sync_ok_def)
  then show ?thesis
    by (intro step_later [OF inv q k refl, where pc = T_end]) (use pc in \<open>simp_all add: set_pc_def\<close>)
qed

lemma step_ret_sinc:
  assumes inv: "loop_inv accum ty workers qwa s" and q: "qwa_ok ty qwa" and k: "k < length (tasks s)"
    and ty: "counts ty" and pc: "tpc (tasks s ! k) = T_ret" "tret (tasks s ! k) = SincPtr"
    and c: "qt_sinc_submit acc w None (lsinc s) = Some c"
  shows "loop_inv accum ty workers qwa ((set_pc k T_end s)\<lparr>lsinc := c\<rparr>)"
proof -
  let ?i = "tidx (tasks s ! k)" and ?P = "pc_of (tasks s)"
  note t = task_facts [OF inv q k refl] and d = loop_invD [OF inv] and e = submit_effect [OF c]
  have P: "?P ?i = Some T_ret"
    using t(1) pc(1) by simp
  have tt: "ty = SINC_T" "\<not> accum"
    using t(7) pc(2) ty by (auto simp: ret_of_def counts_def split: if_splits)
  have sg: "signalled accum ty (?P(?i \<mapsto> T_end)) = insert ?i (signalled accum ty ?P)" "?i \<notin> signalled accum ty ?P"
    using signalled_update [where P = ?P, OF P] tt by (auto simp: signals_def)
  have "unat (counter c) = unat (counter (lsinc s)) - 1" "0 < unat (counter (lsinc s))"
    using e(1,2) by (simp_all add: unat_minus_one word_gt_0 unat_gt_0)
  moreover have "sready c \<longleftrightarrow> counter c = 0"
    using d(7) tt e(1-3) by (auto simp: sync_ok_def)
  ultimately have "sync_ok accum ty workers (length qwa) (?P(?i \<mapsto> T_end)) ((set_pc k T_end s)\<lparr>lsinc := c\<rparr>)"
    using d(7) tt sg finite_tree [OF d(2)] by (auto simp: sync_ok_def)
  then show ?thesis
    by (intro step_later [OF inv q k refl, where pc = T_end]) (use pc in \<open>simp_all add: set_pc_def\<close>)
qed

lemma step_ret_word:
  assumes inv: "loop_inv accum ty workers qwa s" and q: "qwa_ok ty qwa" and k: "k < length (tasks s)"
    and ty: "counts ty" and pc: "tpc (tasks s ! k) = T_ret" "p = tret (tasks s ! k)" "p \<noteq> NullPtr" "p \<noteq> SincPtr"
  shows "loop_inv accum ty workers qwa ((set_pc k T_end s)\<lparr>words := (words s)(p := True)\<rparr>)"
proof -
  let ?i = "tidx (tasks s ! k)" and ?P = "pc_of (tasks s)"
  note t = task_facts [OF inv q k refl] and d = loop_invD [OF inv]
  have tt: "ty = SYNCVAR_T" "p = ArrPtr ?i"
    using t(7) pc(2-4) ty by (auto simp: ret_of_def counts_def split: if_splits)
  then have "sync_ok accum ty workers (length qwa) (?P(?i \<mapsto> T_end)) ((set_pc k T_end s)\<lparr>words := (words s)(p := True)\<rparr>)"
    using d(7) by (auto simp: sync_ok_def)
  then show ?thesis
    by (intro step_later [OF inv q k refl, where pc = T_end]) (use pc in \<open>simp_all add: set_pc_def\<close>)
qed

text \<open>A task spawns its next child.\<close>

lemma child_ret_of: "counts ty \<Longrightarrow> child_ret accum ty (qwa_sync ty) n = ret_of accum ty n"
  by (auto simp: child_ret_def qwa_sync_def ret_of_def counts_def)

lemma loop_step_spawn:
  assumes inv: "loop_inv accum ty workers qwa s" and q: "qwa_ok ty qwa" and k: "k < length (tasks s)" and ty: "counts ty"
    and pc: "tpc (tasks s ! k) = T_spawn l n" and i: "i = tidx (tasks s ! k)" and a: "a = args s ! i" "n \<le> spawnthreads a - 1"
    and j: "j = i + (n - qid a)" and p: "p = child_ret accum ty (qsync a) n"
  shows "loop_inv accum ty workers qwa ((set_pc k (T_spawn (l + 1) (2 ^ (l + 1) + qid a)) s)
      \<lparr>args := (args s)[j := (args s ! j)\<lparr>level := l + 1\<rparr>],
       tasks := tasks (set_pc k (T_spawn (l + 1) (2 ^ (l + 1) + qid a)) s) @ [\<lparr>tidx = j, tret = p, tpc = T_start\<rparr>],
       words := fork_empties p (words s)\<rparr>)" (is "loop_inv _ _ _ _ ?s")
proof -
  note t = task_facts [OF inv q k i] and d = loop_invD [OF inv]
  let ?P = "pc_of (tasks s)" and ?m = "length qwa"
  let ?pc = "T_spawn (l + 1) (2 ^ (l + 1) + i)"
  have P: "?P i = Some (T_spawn l n)"
    using t(1) pc by simp
  have n: "n < ?m"
    using a t(2,4) by simp
  note f = tree_fresh [OF d(2) P n]
  have jn: "j = n" "qid a = i" "p = ret_of accum ty n"
    using j a(1) t(3,5) f(3) p child_ret_of [OF ty] by auto
  have P1: "pc_of ((tasks s)[k := (tasks s ! k)\<lparr>tpc := ?pc\<rparr>]) = ?P(i \<mapsto> ?pc)"
    using pc_of_update [OF d(1) k] i by simp
  have new: "n \<notin> tidx ` set ((tasks s)[k := (tasks s ! k)\<lparr>tpc := ?pc\<rparr>])"
    using f(1) P unfolding dom_pc_of [symmetric] P1 by auto
  have P': "pc_of (tasks ?s) = ?P(i \<mapsto> ?pc, n \<mapsto> T_start)"
    using pc_of_append [of "\<lparr>tidx = n, tret = p, tpc = T_start\<rparr>", OF _] new P1 jn(1,2) by (simp add: set_pc_def)
  have fin: "finished (?P(i \<mapsto> ?pc, n \<mapsto> T_start)) = finished ?P"
    using P f(1) by (auto simp: finished_def)
  have sig: "signalled accum ty (?P(i \<mapsto> ?pc, n \<mapsto> T_start)) = signalled accum ty ?P"
    using P f(1) by (auto simp: signalled_def signals_def)
  have "distinct (map tidx (tasks ?s))"
    using d(1) k f(1) jn(1,2) unfolding dom_pc_of by (simp add: set_pc_def)
  moreover have "tree_ok ?m (pc_of (tasks ?s))"
    unfolding P' by (rule tree_spawn [OF d(2) P n])
  moreover have "args_ok qwa (pc_of (tasks ?s)) (args ?s)"
  proof -
    obtain x where "args s ! n = (qwa ! n)\<lparr>level := x\<rparr>"
      using d(3) n by (auto simp: args_ok_def)
    then have "(args s ! n)\<lparr>level := Suc l\<rparr> = (qwa ! n)\<lparr>level := Suc l\<rparr>"
      by simp
    then show ?thesis
      unfolding P' using d(3) f(1,4) n P jn(1) by (auto simp: args_ok_def nth_list_update)
  qed
  moreover have "tret u = ret_of accum ty (tidx u)" if "u \<in> set (tasks ?s)" for u
    using that d(4) k jn set_update_subset_insert [of "tasks s" k] by (fastforce simp: set_pc_def)
  moreover have "sync_ok accum ty workers ?m (pc_of (tasks ?s)) ?s"
  proof (cases "ty = SYNCVAR_T")
    case True
    then have "fork_empties p (words s) = (words s)(ArrPtr n := False)"
      by (simp add: jn(3) ret_of_def fork_empties_def)
    then show ?thesis
      using d(7) True P f(1) unfolding P' by (auto simp: sync_ok_def)
  next
    case False
    then show ?thesis
      using d(7) unfolding P' sync_ok_def sig by auto
  qed
  moreover have "caller_ok ty ?m (pc_of (tasks ?s)) (caller ?s)"
  proof -
    have "?P c = Some T_end \<Longrightarrow> (?P(i \<mapsto> ?pc, n \<mapsto> T_start)) c = Some T_end" for c
      using P f(1) by auto
    then show ?thesis
      using d(8) unfolding P' caller_ok_def fin by (cases "caller s") (simp_all del: fun_upd_apply)
  qed
  ultimately show ?thesis
    using d(5,6) unfolding loop_inv_def Let_def P' fin by simp
qed

text \<open>The caller.\<close>

lemma inv_caller:
  assumes "loop_inv accum ty workers qwa s" "caller_ok ty (length qwa) (pc_of (tasks s)) c" "\<forall>i. rets s i \<noteq> None \<longrightarrow> r i \<noteq> None"
  shows "loop_inv accum ty workers qwa (s\<lparr>caller := c, rets := r\<rparr>)"
  using assms by (auto simp: loop_inv_def Let_def sync_ok_def)

lemma all_signalled:
  assumes inv: "loop_inv accum ty workers qwa s" and "length qwa \<le> card (signalled accum ty (pc_of (tasks s)))"
  shows "{..<length qwa} \<subseteq> finished (pc_of (tasks s))"
proof -
  note d = loop_invD [OF inv]
  let ?F = "finished (pc_of (tasks s))"
  have sub: "?F \<subseteq> {..<length qwa}"
    using d(2) by (auto simp: tree_ok_def finished_def)
  have "card (signalled accum ty (pc_of (tasks s))) \<le> card ?F"
    by (rule card_mono) (use finite_tree [OF d(2)] signalled_finished in blast)+
  moreover have "card ?F \<le> length qwa"
    using card_mono [OF finite_lessThan sub] by simp
  ultimately have "card ?F = card {..<length qwa}"
    using assms(2) by simp
  then show ?thesis
    using card_subset_eq [OF finite_lessThan sub] by simp
qed

lemma ended_finished: "(\<forall>j < m. P j = Some T_end) \<Longrightarrow> {..<m} \<subseteq> finished P"
  by (auto simp: finished_def)

lemma args_length: "loop_inv accum ty workers qwa s \<Longrightarrow> length (args s) = length qwa"
  by (simp add: loop_inv_def Let_def args_ok_def)

lemma caller_reads_keeps: "caller_reads accum i acc r = Some r' \<Longrightarrow> \<forall>j. r j \<noteq> None \<longrightarrow> r' j \<noteq> None"
  by (auto simp: caller_reads_def bind_eq_Some_iff split: if_splits)

lemma step_wait_word:
  assumes inv: "loop_inv accum ty workers qwa s" and ty: "counts ty" and c: "caller s = C_wait i" "ty = SYNCVAR_T \<or> ty = ALIGNED"
    and i: "i < length (args s)" "words s (ArrPtr i)" and r: "\<forall>j. rets s j \<noteq> None \<longrightarrow> r j \<noteq> None"
  shows "loop_inv accum ty workers qwa (s\<lparr>caller := C_wait (i + 1), rets := r\<rparr>)"
proof (rule inv_caller [OF inv _ r])
  have "ty = SYNCVAR_T"
    using c(2) ty by (auto simp: counts_def)
  then show "caller_ok ty (length qwa) (pc_of (tasks s)) (C_wait (i + 1))"
    using loop_invD(7,8) [OF inv] args_length [OF inv] c(1) i by (auto simp: sync_ok_def caller_ok_def less_Suc_eq)
qed

lemma step_wait_sinc:
  assumes inv: "loop_inv accum ty workers qwa s" and c: "ty = SINC_T" "sready (lsinc s)"
  shows "loop_inv accum ty workers qwa
    (s\<lparr>caller := C_done, rets := (if accum then (rets s)(0 := qt_sinc_wait True (lsinc s)) else rets s)\<rparr>)"
proof (rule inv_caller [OF inv])
  note d = loop_invD [OF inv]
  have "{..<length qwa} \<subseteq> finished (pc_of (tasks s))"
    using d(7) c by (intro all_signalled [OF inv]) (auto simp: sync_ok_def)
  then show "caller_ok ty (length qwa) (pc_of (tasks s)) C_done"
    by (simp add: caller_ok_def)
  show "\<forall>i. rets s i \<noteq> None \<longrightarrow> (if accum then (rets s)(0 := qt_sinc_wait True (lsinc s)) else rets s) i \<noteq> None"
    using d(7) c by (auto simp: sync_ok_def qt_sinc_wait_def)
qed

text \<open>The rest of the caller's steps only change its control point.\<close>

lemma step_caller:
  assumes inv: "loop_inv accum ty workers qwa s" and "caller_ok ty (length qwa) (pc_of (tasks s)) c"
  shows "loop_inv accum ty workers qwa (s\<lparr>caller := c\<rparr>)"
  using inv_caller [OF assms, of "rets s"] by simp

lemma loop_step_inv:
  assumes "loop_step accum ty func acc wk s s'" "loop_inv accum ty workers qwa s" "qwa_ok ty qwa" "counts ty"
  shows "loop_inv accum ty workers qwa s'"
  using assms
proof (cases rule: loop_step.cases)
  case (wait_words i)
  then have "\<forall>j < length qwa. pc_of (tasks s) j = Some T_end"
    using loop_invD(8) [OF assms(2)] args_length [OF assms(2)] assms(4) by (auto simp: caller_ok_def counts_def)
  then show ?thesis
    using wait_words ended_finished step_caller [OF assms(2), of C_done] by (simp add: caller_ok_def)
next
  case (wait_dc i)
  then have "{..<length qwa} \<subseteq> finished (pc_of (tasks s))"
    using loop_invD(7) [OF assms(2)] args_length [OF assms(2)] by (intro all_signalled [OF assms(2)]) (simp add: sync_ok_def)
  then show ?thesis
    using wait_dc step_caller [OF assms(2)] by (simp add: caller_ok_def)
next
  case (accumulate i r)
  then show ?thesis
    using inv_caller [OF assms(2) _ caller_reads_keeps [OF accumulate(4)]] loop_invD(8) [OF assms(2)] args_length [OF assms(2)]
    by (simp add: caller_ok_def)
next
  case (free_counter i)
  then show ?thesis
    using step_caller [OF assms(2), of C_crash] loop_invD(8) [OF assms(2)] by (simp add: caller_ok_def)
next
  case (wait_word i r)
  then show ?thesis
    using step_wait_word [OF assms(2,4) _ _ _ _ caller_reads_keeps [OF wait_word(6)]] by simp
next
  case (wait_sinc i)
  then show ?thesis
    using step_wait_sinc [OF assms(2)] by simp
qed (use assms in \<open>blast intro: step_start loop_step_spawn step_body step_signal step_ret_none step_ret_sinc step_ret_word\<close>)+

end
