(* ===== verification/Qloop_Live.thy ===== *)
theory Qloop_Live
  imports Qloop_Run
begin

text \<open>A balanced loop cannot get stuck and ends after a bounded number of steps.\<close>

section \<open>Runs of a bounded relation\<close>

lemma bounded_runs:
  assumes step: "\<And>s s'. I s \<Longrightarrow> R s s' \<Longrightarrow> I s' \<and> f s' < (f s :: nat)" and "I s" "(R ^^ n) s t"
  shows "I t \<and> n + f t \<le> f s"
  using assms(3)
proof (induction n arbitrary: t)
  case 0
  then show ?case
    using assms(2) by simp
next
  case (Suc n)
  then obtain u where u: "(R ^^ n) s u" "R u t"
    by auto
  then have "I u" "n + f u \<le> f s"
    using Suc.IH by auto
  then show ?case
    using step [OF _ u(2)] by simp
qed

lemma invariant_runs:
  assumes "\<And>s s'. I s \<Longrightarrow> R s s' \<Longrightarrow> I s'" "I s" "(R ^^ n) s t"
  shows "I t"
  using assms(3) by (induction n arbitrary: t) (use assms(1,2) in auto)

section \<open>The start\<close>

lemma loop_start_inv:
  assumes q: "qwa_ok ty qwa" and ty: "counts ty"
  shows "loop_inv accum ty workers qwa (loop_start accum ty workers out qwa)"
proof -
  have m: "0 < length qwa" "length qwa < 2 ^ 64"
    using q by (auto simp: qwa_ok_def)
  have "unat (of_nat (length qwa) :: u64) = length qwa"
    using m(2) by (simp add: unat_of_nat)
  moreover from this have "(of_nat (length qwa) :: u64) \<noteq> 0"
    using m(1) by (metis unat_0 less_irrefl)
  moreover have "pc_of [\<lparr>tidx = 0, tret = root_ret accum ty, tpc = T_start\<rparr>] = [0 \<mapsto> T_start]"
    by (simp add: pc_of_def)
  moreover have "root_ret accum ty = ret_of accum ty 0"
    using ty by (auto simp: root_ret_def ret_of_def counts_def)
  moreover have "finished [0 \<mapsto> T_start] = {}" "signalled accum ty [0 \<mapsto> T_start] = {}"
    by (auto simp: finished_def signalled_def signals_def split: if_splits)
  ultimately show ?thesis
    using m(1) tree_start [OF m(1)] q
    by (auto simp: loop_inv_def Let_def loop_start_def args_ok_def qwa_ok_def sync_ok_def caller_ok_def qt_sinc_create_def qt_sinc_init_def)
qed

section \<open>Progress\<close>

text \<open>The body returns on every range that the division made, and the tasks run on existing workers.\<close>

definition loop_runs :: "(u64 \<Rightarrow> u64 \<Rightarrow> 'v option) \<Rightarrow> nat \<Rightarrow> (nat \<Rightarrow> nat) \<Rightarrow> qloop_wrapper_args list \<Rightarrow> bool" where
  "loop_runs func workers wk qwa \<longleftrightarrow> (\<forall>q \<in> set qwa. func (startat q) (stopat q) \<noteq> None) \<and> (\<forall>i < length qwa. wk i < workers)"

lemma counter_positive:
  assumes inv: "loop_inv accum SINC_T workers qwa s" and i: "i < length qwa" "i \<notin> signalled accum SINC_T (pc_of (tasks s))"
  shows "0 < counter (lsinc s)"
proof -
  have "signalled accum SINC_T (pc_of (tasks s)) \<subseteq> {..<length qwa} - {i}"
    using loop_invD(2) [OF inv] i(2) by (auto simp: tree_ok_def signalled_def)
  then have "card (signalled accum SINC_T (pc_of (tasks s))) \<le> card ({..<length qwa} - {i})"
    by (intro card_mono) simp_all
  then have "card (signalled accum SINC_T (pc_of (tasks s))) < length qwa"
    using i(1) by simp
  then have "0 < unat (counter (lsinc s))"
    using loop_invD(7) [OF inv] by (auto simp: sync_ok_def)
  then show ?thesis
    by (simp add: unat_gt_0 word_gt_0)
qed

lemma submit_possible:
  assumes "0 < counter c" "v \<noteq> None \<Longrightarrow> \<exists>r. srdata c = Some r \<and> w < length (svalues r)"
  shows "\<exists>c'. qt_sinc_submit op w v c = Some c'"
  using assms by (cases v) (auto simp: qt_sinc_submit_def submit_value_def submit_count_def)

lemma signal_possible:
  assumes inv: "loop_inv accum ty workers qwa s" and q: "qwa_ok ty qwa" and k: "k < length (tasks s)" and i: "i = tidx (tasks s ! k)"
    and pc: "tpc (tasks s ! k) = T_sync" and w: "w < workers"
  shows "\<exists>s'. task_signal accum ty acc w i s = Some s'"
proof (cases "ty = SINC_T \<and> accum")
  case True
  note t = task_facts [OF inv q k i]
  have "i \<notin> signalled accum SINC_T (pc_of (tasks s))"
    using t(1) pc by (simp add: signalled_def signals_def)
  then have "0 < counter (lsinc s)"
    using counter_positive inv t(2) True by blast
  then have "\<exists>c'. qt_sinc_submit acc w (rets s i) (lsinc s) = Some c'"
    using loop_invD(7) [OF inv] w True by (intro submit_possible) (auto simp: sync_ok_def)
  then show ?thesis
    using True by (auto simp: task_signal_def)
qed (simp add: task_signal_def split: synctype_t.split)

lemma return_possible:
  assumes inv: "loop_inv accum ty workers qwa s" and q: "qwa_ok ty qwa" and ty: "counts ty" and k: "k < length (tasks s)"
    and pc: "tpc (tasks s ! k) = T_ret"
  shows "\<exists>s'. loop_step accum ty func acc wk s s'"
proof -
  let ?i = "tidx (tasks s ! k)"
  note t = task_facts [OF inv q k refl] and d = loop_invD [OF inv]
  consider "tret (tasks s ! k) = NullPtr" | "ty = SYNCVAR_T" "tret (tasks s ! k) = ArrPtr ?i"
    | "ty = SINC_T" "\<not> accum" "tret (tasks s ! k) = SincPtr"
    using t(7) ty by (auto simp: counts_def ret_of_def split: if_splits)
  then show ?thesis
  proof cases
    case 1
    then show ?thesis
      using loop_step.ret_none [OF k pc] by blast
  next
    case 2
    then have "\<not> words s (ArrPtr ?i)"
      using d(7) t(1) pc by (simp add: sync_ok_def)
    then show ?thesis
      using loop_step.ret_word [OF k pc refl] 2 by force
  next
    case 3
    then have "?i \<notin> signalled accum SINC_T (pc_of (tasks s))"
      using t(1) pc by (simp add: signalled_def signals_def)
    then have "0 < counter (lsinc s)"
      using counter_positive inv t(2) 3(1) by blast
    then show ?thesis
      using submit_possible [of "lsinc s" None] loop_step.ret_sinc [OF k pc 3(3)] by blast
  qed
qed

lemma task_can_step:
  assumes inv: "loop_inv accum ty workers qwa s" and q: "qwa_ok ty qwa" and ty: "counts ty" and k: "k < length (tasks s)"
    and pc: "tpc (tasks s ! k) \<noteq> T_end" and runs: "loop_runs func workers wk qwa"
  shows "\<exists>s'. loop_step accum ty func acc wk s s'"
proof -
  let ?i = "tidx (tasks s ! k)"
  note t = task_facts [OF inv q k refl] and d = loop_invD [OF inv]
  have i: "?i < length (args s)"
    using t(2) args_length [OF inv] by simp
  show ?thesis
  proof (cases "tpc (tasks s ! k)")
    case T_start
    then show ?thesis
      using loop_step.start [OF k _ refl i refl] by blast
  next
    case (T_spawn l n)
    show ?thesis
    proof (cases "n \<le> spawnthreads (args s ! ?i) - 1")
      case True
      have "n < length qwa"
        using True t(2,4) by simp
      then have "n = 2 ^ l + ?i"
        using tree_fresh(3) [OF d(2)] t(1) T_spawn by simp
      then have "?i + (n - qid (args s ! ?i)) < length (args s)"
        using t(3) \<open>n < length qwa\<close> args_length [OF inv] by simp
      then show ?thesis
        using loop_step.spawn [OF k T_spawn refl i refl True refl _ refl] by blast
    next
      case False
      have "func (startat (args s ! ?i)) (stopat (args s ! ?i)) \<noteq> None"
        using runs t(2,8,9) by (simp add: loop_runs_def)
      then show ?thesis
        using loop_step.body [OF k T_spawn refl i refl False] by blast
    qed
  next
    case T_sync
    then show ?thesis
      using signal_possible [OF inv q k refl T_sync] loop_step.signal [OF k T_sync refl] runs t(2)
      unfolding loop_runs_def by blast
  qed (use return_possible [OF inv q ty k] pc in blast)+
qed

lemma reads_possible:
  assumes "loop_inv accum ty workers qwa s" "{..<length qwa} \<subseteq> finished (pc_of (tasks s))" "i < length qwa"
  shows "\<exists>r. caller_reads b i acc (rets s) = Some r"
proof -
  have fin: "0 \<in> finished (pc_of (tasks s))" "i \<in> finished (pc_of (tasks s))"
    using assms(2,3) by auto
  have "rets s 0 \<noteq> None" "rets s i \<noteq> None"
    using loop_invD(6) [OF assms(1)] fin by blast+
  then show ?thesis
    by (auto simp: caller_reads_def)
qed

lemma loop_progress:
  assumes inv: "loop_inv accum ty workers qwa s" and q: "qwa_ok ty qwa" and ty: "counts ty"
    and runs: "loop_runs func workers wk qwa" and c: "caller s \<noteq> C_done" "caller s \<noteq> C_crash"
  shows "\<exists>s'. loop_step accum ty func acc wk s s'"
proof (cases "\<exists>k < length (tasks s). tpc (tasks s ! k) \<noteq> T_end")
  case True
  then show ?thesis
    using task_can_step [OF inv q ty _ _ runs] by blast
next
  case False
  note d = loop_invD [OF inv] and len = args_length [OF inv]
  let ?P = "pc_of (tasks s)" and ?m = "length qwa"
  have ends: "?P i = Some pc \<Longrightarrow> pc = T_end" for i pc
    using False pc_of_Some by blast
  then have "dom ?P = {..<?m}"
    using tree_complete [OF d(2)] by blast
  then have all: "j < ?m \<longleftrightarrow> ?P j = Some T_end" for j
    using ends by (metis domI domIff lessThan_iff option.exhaust)
  then have sig: "signalled accum ty ?P = {..<?m}" and fin: "{..<?m} \<subseteq> finished ?P"
    using ends by (auto simp: signalled_def finished_def signals_def)
  note reads = reads_possible [OF inv fin]
  show ?thesis
  proof (cases "caller s")
    case (C_wait i)
    consider "ty = SYNCVAR_T" "i < ?m" | "ty = SYNCVAR_T" "i = ?m" | "ty = SINC_T" | "ty = DONECOUNT"
      using ty d(8) C_wait by (fastforce simp: counts_def caller_ok_def)
    then show ?thesis
    proof cases
      case 1
      then have w: "words s (ArrPtr i)"
        using d(7) all by (simp add: sync_ok_def)
      have il: "i < length (args s)"
        using 1(2) len by simp
      obtain r where "caller_reads accum i acc (rets s) = Some r"
        using reads [OF 1(2)] by blast
      then show ?thesis
        using loop_step.wait_word [OF C_wait _ il w] 1(1) by blast
    next
      case 3
      have "unat (counter (lsinc s)) + card {..<?m} = ?m" "sready (lsinc s) \<longleftrightarrow> counter (lsinc s) = 0"
        using d(7) 3 unfolding sync_ok_def sig by blast+
      then have "sready (lsinc s)"
        by (simp add: unsigned_eq_0_iff)
      then show ?thesis
        using loop_step.wait_sinc [OF C_wait 3] by blast
    next
      case 4
      then have "dc s = card {..<?m}"
        using d(7) unfolding sync_ok_def sig by blast
      then have "dc s = length (args s)"
        using len by simp
      then show ?thesis
        using loop_step.wait_dc [OF C_wait 4] by blast
    next
      case 2
      then have "i = length (args s)"
        using len by simp
      then show ?thesis
        using loop_step.wait_words [OF C_wait, of ty] 2(1) by blast
    qed
  next
    case (C_acc i)
    then consider "i < length (args s)" | "i = length (args s)"
      using d(8) len by (fastforce simp: caller_ok_def)
    then show ?thesis
    proof cases
      case 1
      then show ?thesis
        using reads [of i] loop_step.accumulate [OF C_acc 1] len by metis
    qed (use loop_step.free_counter [OF C_acc] in blast)
  qed (use c in simp_all)
qed

section \<open>Termination\<close>

text \<open>The steps that task \<open>i\<close> has left when there are \<open>m\<close> tasks, and those of the caller.\<close>

definition task_work :: "nat \<Rightarrow> task_pc option \<Rightarrow> nat" where
  "task_work m p = (case p of None \<Rightarrow> m + 6 | Some T_start \<Rightarrow> m + 5 | Some (T_spawn l n) \<Rightarrow> (m - l) + 4
     | Some T_sync \<Rightarrow> 3 | Some T_ret \<Rightarrow> 2 | Some T_end \<Rightarrow> 0)"

definition caller_work :: "nat \<Rightarrow> caller_pc \<Rightarrow> nat" where
  "caller_work m c = (case c of C_wait i \<Rightarrow> m + 3 + (m - i) | C_acc i \<Rightarrow> 1 + (m - i) | _ \<Rightarrow> 0)"

definition loop_work :: "nat \<Rightarrow> 'v loop_sys \<Rightarrow> nat" where
  "loop_work m s = (\<Sum>i<m. task_work m (pc_of (tasks s) i)) + caller_work m (caller s)"

lemma sum_update_less:
  fixes f :: "'a option \<Rightarrow> nat" and m :: nat
  assumes "i < m" "f (Some x) < f (P i)"
  shows "(\<Sum>j<m. f ((P(i \<mapsto> x)) j)) < (\<Sum>j<m. f (P j))"
  using assms by (intro sum_strict_mono_ex1) (auto intro: bexI [of _ i])

lemma work_pc:
  assumes inv: "loop_inv accum ty workers qwa s" and k: "k < length (tasks s)" and pc: "tpc (tasks s ! k) = pc"
    and less: "task_work (length qwa) (Some pc') < task_work (length qwa) (Some pc)"
    and s': "tasks s' = tasks (set_pc k pc' s)" "caller s' = caller s"
  shows "loop_work (length qwa) s' < loop_work (length qwa) s"
proof -
  note d = loop_invD [OF inv]
  let ?i = "tidx (tasks s ! k)" and ?P = "pc_of (tasks s)"
  have i: "?P ?i = Some pc"
    using pc_of_nth [OF d(1) k] pc by simp
  then have "?i < length qwa"
    using d(2) by (auto simp: tree_ok_def)
  moreover have "pc_of (tasks s') = ?P(?i \<mapsto> pc')"
    using pc_of_update [OF d(1) k] by (simp add: s'(1) set_pc_def)
  ultimately show ?thesis
    using sum_update_less [where P = ?P and i = ?i and f = "task_work (length qwa)" and x = pc' and m = "length qwa"] less i
    by (simp add: loop_work_def s'(2) del: fun_upd_apply)
qed

lemma work_spawn:
  assumes inv: "loop_inv accum ty workers qwa s" and k: "k < length (tasks s)" and pc: "tpc (tasks s ! k) = T_spawn l n"
    and n: "n < length qwa"
    and s': "tasks s' = tasks (set_pc k (T_spawn (l + 1) x) s) @ [\<lparr>tidx = n, tret = p, tpc = T_start\<rparr>]" "caller s' = caller s"
  shows "loop_work (length qwa) s' < loop_work (length qwa) s"
proof -
  note d = loop_invD [OF inv]
  let ?s = "set_pc k (T_spawn (l + 1) x) s" and ?P = "pc_of (tasks s)"
  have i: "?P (tidx (tasks s ! k)) = Some (T_spawn l n)"
    using pc_of_nth [OF d(1) k] pc by simp
  note f = tree_fresh [OF d(2) i n]
  have "l < length qwa"
    using f(3) n less_exp [of l] by linarith
  then have 1: "loop_work (length qwa) ?s < loop_work (length qwa) s"
    by (intro work_pc [OF inv k pc, where pc' = "T_spawn (l + 1) x"]) (simp_all add: task_work_def set_pc_def)
  have P: "pc_of (tasks ?s) n = None"
    using pc_of_update [OF d(1) k] f(1) i by (auto simp: set_pc_def)
  then have "n \<notin> tidx ` set (tasks ?s)"
    unfolding dom_pc_of [symmetric] by blast
  then have "pc_of (tasks s') = (pc_of (tasks ?s))(n \<mapsto> T_start)"
    using pc_of_append [of "\<lparr>tidx = n, tret = p, tpc = T_start\<rparr>"] by (simp add: s'(1))
  then have "loop_work (length qwa) s' < loop_work (length qwa) ?s"
    using sum_update_less [where P = "pc_of (tasks ?s)" and i = n and f = "task_work (length qwa)" and x = T_start, OF n] P
    by (simp add: loop_work_def s'(2) task_work_def del: fun_upd_apply)
  then show ?thesis
    using 1 by simp
qed

lemma step_works:
  assumes "loop_step accum ty func acc wk s s'" "loop_inv accum ty workers qwa s" "qwa_ok ty qwa"
  shows "loop_work (length qwa) s' < loop_work (length qwa) s"
  using assms(1)
proof (cases rule: loop_step.cases)
  case (spawn k l n i a j p)
  note t = task_facts [OF assms(2,3) spawn(2,4)] and d = loop_invD [OF assms(2)]
  have n: "n < length qwa"
    using spawn(6,7) t(2,4) by simp
  then have "n = 2 ^ l + i"
    using tree_fresh(3) [OF d(2)] t(1) spawn(3) by simp
  then show ?thesis
    using spawn(1,6,8) t(3) by (intro work_spawn [OF assms(2) spawn(2,3) n, of _ "2 ^ (l + 1) + qid a" p]) simp_all
next
  case (start k i a)
  then show ?thesis
    by (intro work_pc [OF assms(2) start(2,3)]) (simp_all add: task_work_def)
next
  case (body k l n i a v)
  then show ?thesis
    by (intro work_pc [OF assms(2) body(2,3)]) (simp_all add: task_work_def set_pc_def)
next
  case (signal k i u)
  then have "tasks u = tasks s" "caller u = caller s"
    by (auto simp: task_signal_def bind_eq_Some_iff split: synctype_t.splits if_splits)
  then show ?thesis
    using signal by (intro work_pc [OF assms(2) signal(2,3)]) (simp_all add: task_work_def set_pc_def)
next
  case (ret_none k)
  then show ?thesis
    by (intro work_pc [OF assms(2) ret_none(2,3)]) (simp_all add: task_work_def)
next
  case (ret_sinc k c)
  then show ?thesis
    by (intro work_pc [OF assms(2) ret_sinc(2,3)]) (simp_all add: task_work_def set_pc_def)
next
  case (ret_word k p)
  then show ?thesis
    by (intro work_pc [OF assms(2) ret_word(2,3)]) (simp_all add: task_work_def set_pc_def)
qed (use args_length [OF assms(2)] in \<open>auto simp: loop_work_def caller_work_def\<close>)

lemma start_work: "0 < m \<Longrightarrow> loop_work m (loop_start accum ty workers out qwa) \<le> m * (m + 6) + 2 * m + 3"
proof -
  have "task_work m (pc_of ts i) \<le> m + 6" for ts i
    by (auto simp: task_work_def split: option.split task_pc.split)
  then have "(\<Sum>i<m. task_work m (pc_of ts i)) \<le> m * (m + 6)" for ts
    using sum_bounded_above [of "{..<m}" "\<lambda>i. task_work m (pc_of ts i)" "m + 6"] by simp
  then show ?thesis
    by (simp add: loop_work_def caller_work_def loop_start_def)
qed

section \<open>Complete runs\<close>

text \<open>What every run of the loop does: at most quadratically many steps in the number of tasks, no deadlock before the caller
  is done, and all ranges run once by then.\<close>

lemma loop_runs_to_end:
  assumes q: "qwa_ok ty qwa" and ty: "counts ty" and runs: "loop_runs func workers wk qwa"
    and run: "(loop_step accum ty func acc wk ^^ n) (loop_start accum ty workers out qwa) s"
  shows "loop_inv accum ty workers qwa s" "n \<le> length qwa * (length qwa + 6) + 2 * length qwa + 3"
    "caller s = C_done \<or> caller s = C_crash \<or> (\<exists>s'. loop_step accum ty func acc wk s s')"
    "caller s = C_done \<Longrightarrow> mset (ran s) = mset [0..<length qwa]"
proof -
  let ?I = "loop_inv accum ty workers qwa" and ?s0 = "loop_start accum ty workers out qwa"
  have m: "0 < length qwa"
    using q by (simp add: qwa_ok_def)
  have b: "?I s \<and> n + loop_work (length qwa) s \<le> loop_work (length qwa) ?s0"
    by (rule bounded_runs [where I = ?I and R = "loop_step accum ty func acc wk" and f = "loop_work (length qwa)"])
      (use loop_step_inv step_works q ty in blast, rule loop_start_inv [OF q ty], rule run)
  then show inv: "?I s"
    by simp
  show "n \<le> length qwa * (length qwa + 6) + 2 * length qwa + 3"
    using b start_work [OF m, of accum ty workers out qwa] by simp
  show "caller s = C_done \<or> caller s = C_crash \<or> (\<exists>s'. loop_step accum ty func acc wk s s')"
    using loop_progress [OF inv q ty runs] by blast
  note d = loop_invD [OF inv]
  assume c: "caller s = C_done"
  have "finished (pc_of (tasks s)) \<subseteq> {..<length qwa}"
    using d(2) by (auto simp: tree_ok_def finished_def)
  moreover have "{..<length qwa} \<subseteq> finished (pc_of (tasks s))"
    using d(8) unfolding c caller_ok_def by simp
  ultimately have "finished (pc_of (tasks s)) = {..<length qwa}"
    by blast
  then show "mset (ran s) = mset [0..<length qwa]"
    using d(5) by (simp add: mset_set_upto_eq_mset_upto lessThan_atLeast0)
qed

end
