(* ===== verification/Qloop_Props.thy ===== *)
theory Qloop_Props
  imports Qloop_Live
begin

text \<open>What the parallel loops guarantee, and where their code departs from it.\<close>

section \<open>Balanced loops\<close>

lemma loop_maxworkers_facts:
  assumes "start < stop" "nw \<noteq> 0"
  shows "loop_maxworkers nw start stop \<noteq> 0" "unat (loop_maxworkers nw start stop) = min (unat nw) (unat stop - unat start)"
proof -
  have d: "unat (stop - start) = unat stop - unat start" "unat start < unat stop"
    using assms(1) by (simp_all add: unat_sub word_le_nat_alt word_less_nat_alt less_imp_le_nat)
  then show u: "unat (loop_maxworkers nw start stop) = min (unat nw) (unat stop - unat start)"
    by (simp add: loop_maxworkers_def word_less_nat_alt min_def)
  show "loop_maxworkers nw start stop \<noteq> 0"
    using u d assms(2) unat_gt_0 [of nw] by force
qed

lemma balance_starts:
  assumes "start < stop" "nw \<noteq> 0" "ty \<noteq> NO_SYNC"
  shows "\<exists>qwa. qt_loop_balance_inner nw ty start stop = Some (loop_start False ty (unat nw) () qwa) \<and> qwa_ok ty qwa
    \<and> length qwa = min (unat nw) (unat stop - unat start) \<and> concat (map range_of qwa) = [unat start..<unat stop]
    \<and> (\<forall>q \<in> set qwa. length (range_of q) = (unat stop - unat start) div length qwa
         \<or> length (range_of q) = (unat stop - unat start) div length qwa + 1)"
proof -
  note m = loop_maxworkers_facts [OF assms(1,2)]
  obtain qwa where "divide (loop_maxworkers nw start stop) ty start stop = Some qwa" "qwa_ok ty qwa"
      "length qwa = unat (loop_maxworkers nw start stop)" "concat (map range_of qwa) = [unat start..<unat stop]"
      "\<forall>q \<in> set qwa. length (range_of q) = (unat stop - unat start) div length qwa
         \<or> length (range_of q) = (unat stop - unat start) div length qwa + 1"
    using divide_ok [OF _ m(1), of start stop ty] assms(1) by (metis less_imp_le)
  then show ?thesis
    using assms(3) m(2) by (intro exI [of _ qwa]) (simp add: qt_loop_balance_inner_def)
qed

text \<open>Only the accumulating loop with a counter can crash.\<close>

lemma no_crash_step:
  "\<exists>i. caller s \<in> {C_wait i, C_done} \<Longrightarrow> loop_step False ty func acc wk s s' \<Longrightarrow> \<exists>i. caller s' \<in> {C_wait i, C_done}"
  by (erule loop_step.cases) (auto simp: task_signal_def bind_eq_Some_iff split: synctype_t.splits if_splits)

lemma no_crash:
  "(loop_step False ty func acc wk ^^ n) (loop_start False ty workers out qwa) s \<Longrightarrow> caller s \<noteq> C_crash"
  using invariant_runs [where I = "\<lambda>s. \<exists>i. caller s \<in> {C_wait i, C_done}" and R = "loop_step False ty func acc wk"
      and s = "loop_start False ty workers out qwa" and n = n and t = s, OF no_crash_step]
  by (auto simp: loop_start_def)

lemma range_of_args:
  assumes "loop_inv accum ty workers qwa s" "i < length qwa"
  shows "range_of (args s ! i) = range_of (qwa ! i)"
proof -
  obtain x where "args s ! i = (qwa ! i)\<lparr>level := x\<rparr>"
    using loop_invD(3) [OF assms(1)] assms(2) by (auto simp: args_ok_def)
  then show ?thesis
    by (simp add: range_of_def)
qed

lemma mset_concat_map: "mset (concat (map f xs)) = \<Sum>\<^sub># (image_mset (\<lambda>x. mset (f x)) (mset xs))"
  by (induction xs) simp_all

lemma ran_ranges:
  assumes "loop_inv accum ty workers qwa s" "mset (ran s) = mset [0..<length qwa]"
  shows "mset (concat (map (\<lambda>i. range_of (args s ! i)) (ran s))) = mset (concat (map range_of qwa))"
proof -
  have "mset (concat (map (\<lambda>i. range_of (args s ! i)) (ran s)))
      = \<Sum>\<^sub># (image_mset (\<lambda>i. mset (range_of (qwa ! i))) (mset [0..<length qwa]))"
    unfolding mset_concat_map assms(2)
    by (intro arg_cong [where f = sum_mset] image_mset_cong) (simp add: range_of_args [OF assms(1)])
  also have "\<dots> = mset (concat (map (\<lambda>i. range_of (qwa ! i)) [0..<length qwa]))"
    by (simp only: mset_concat_map)
  also have "map (\<lambda>i. range_of (qwa ! i)) [0..<length qwa] = map range_of qwa"
    by (rule nth_equalityI) simp_all
  finally show ?thesis .
qed

text \<open>
  C29. (\<open>qloop.c\<close>, \<open>qt_loop_balance_inner\<close> and \<open>qloop_wrapper\<close>.) A balanced loop over a non-empty range, with a syncvar per
  task, a sinc or a counter, runs at most \<open>min(workers, iterations)\<close> tasks whose ranges differ by at most one iteration. In
  every interleaving of the tree of tasks with their caller the number of steps is bounded, some step is possible until
  the caller returns, and when it returns the ranges that were run are exactly the iterations, each once.
\<close>

theorem balanced_loop_runs_all:
  assumes "start < stop" "nw \<noteq> 0" "ty = SYNCVAR_T \<or> ty = SINC_T \<or> ty = DONECOUNT" "\<And>i. wk i < unat nw"
  shows "\<exists>s0. qt_loop_balance_inner nw ty start stop = Some s0 \<and> length (args s0) = min (unat nw) (unat stop - unat start)
    \<and> (\<forall>q \<in> set (args s0). length (range_of q) = (unat stop - unat start) div length (args s0)
         \<or> length (range_of q) = (unat stop - unat start) div length (args s0) + 1)
    \<and> (\<forall>n s. (loop_step False ty (\<lambda>_ _. Some ()) acc wk ^^ n) s0 s \<longrightarrow>
         n \<le> length (args s0) * (length (args s0) + 6) + 2 * length (args s0) + 3
         \<and> (caller s = C_done \<or> (\<exists>s'. loop_step False ty (\<lambda>_ _. Some ()) acc wk s s'))
         \<and> (caller s = C_done \<longrightarrow> mset (concat (map (\<lambda>i. range_of (args s ! i)) (ran s))) = mset [unat start..<unat stop]))"
proof -
  have ty: "counts ty" "ty \<noteq> NO_SYNC"
    using assms(3) by (auto simp: counts_def)
  obtain qwa where q: "qt_loop_balance_inner nw ty start stop = Some (loop_start False ty (unat nw) () qwa)" "qwa_ok ty qwa"
      "length qwa = min (unat nw) (unat stop - unat start)" "concat (map range_of qwa) = [unat start..<unat stop]"
      "\<forall>q \<in> set qwa. length (range_of q) = (unat stop - unat start) div length qwa
         \<or> length (range_of q) = (unat stop - unat start) div length qwa + 1"
    using balance_starts [OF assms(1,2) ty(2)] by blast
  let ?s0 = "loop_start False ty (unat nw) () qwa" and ?R = "loop_step False ty (\<lambda>_ _. Some ()) acc wk"
  have args: "args ?s0 = qwa"
    by (simp add: loop_start_def)
  have runs: "loop_runs (\<lambda>_ _. Some ()) (unat nw) wk qwa"
    using assms(4) by (simp add: loop_runs_def)
  have "n \<le> length qwa * (length qwa + 6) + 2 * length qwa + 3 \<and> (caller s = C_done \<or> (\<exists>s'. ?R s s'))
      \<and> (caller s = C_done \<longrightarrow> mset (concat (map (\<lambda>i. range_of (args s ! i)) (ran s))) = mset [unat start..<unat stop])"
    if run: "(?R ^^ n) ?s0 s" for n s
  proof -
    note e = loop_runs_to_end [OF q(2) ty(1) runs run]
    have "caller s \<noteq> C_crash"
      by (rule no_crash [OF run])
    moreover have "mset (concat (map (\<lambda>i. range_of (args s ! i)) (ran s))) = mset [unat start..<unat stop]" if "caller s = C_done"
      using ran_ranges [OF e(1) e(4) [OF that]] q(4) by simp
    ultimately show ?thesis
      using e(2,3) by blast
  qed
  then show ?thesis
    using q(1,3,5) unfolding args by (intro exI [of _ ?s0]) (simp add: args)
qed

theorem balanced_loop_runs_all_witness:
  "\<exists>s0. qt_loop_balance_inner 4 SINC_T 3 8 = Some s0 \<and> length (args s0) = 4
    \<and> (\<forall>n s. (loop_step False SINC_T (\<lambda>_ _. Some ()) (\<lambda>a b. a) (\<lambda>i. i mod 4) ^^ n) s0 s \<longrightarrow>
         n \<le> 51 \<and> (caller s = C_done \<longrightarrow>
           mset (concat (map (\<lambda>i. range_of (args s ! i)) (ran s))) = {#3, 4, 5, 6, 7#}))"
proof -
  have "mset [3..<8] = {#3, 4, 5, 6, 7 :: nat#}"
    by (simp add: upt_rec)
  then show ?thesis
    using balanced_loop_runs_all [of 3 8 4 SINC_T "\<lambda>i. i mod 4" "\<lambda>a b. a"] by fastforce
qed

section \<open>Accumulating loops\<close>

text \<open>The results that are in place: that of every task but the first is that of the body on its range, and the caller has
  added up those for which it has waited.\<close>

definition task_result :: "(u64 \<Rightarrow> u64 \<Rightarrow> 'v option) \<Rightarrow> qloop_wrapper_args list \<Rightarrow> nat \<Rightarrow> 'v option" where
  "task_result func qwa i = func (startat (qwa ! i)) (stopat (qwa ! i))"

definition added_up :: "(u64 \<Rightarrow> u64 \<Rightarrow> 'v option) \<Rightarrow> ('v \<Rightarrow> 'v \<Rightarrow> 'v) \<Rightarrow> qloop_wrapper_args list \<Rightarrow> nat \<Rightarrow> 'v" where
  "added_up func acc qwa j = foldl acc (the (task_result func qwa 0)) (map (\<lambda>i. the (task_result func qwa i)) [1..<j])"

definition acc_ok :: "(u64 \<Rightarrow> u64 \<Rightarrow> 'v option) \<Rightarrow> ('v \<Rightarrow> 'v \<Rightarrow> 'v) \<Rightarrow> qloop_wrapper_args list \<Rightarrow> 'v loop_sys \<Rightarrow> bool" where
  "acc_ok func acc qwa s \<longleftrightarrow>
     (\<forall>i v. 0 < i \<longrightarrow> rets s i = Some v \<longrightarrow> task_result func qwa i = Some v)
     \<and> (case caller s of C_wait j \<Rightarrow> \<forall>v. rets s 0 = Some v \<longrightarrow> v = added_up func acc qwa j
        | C_done \<Rightarrow> rets s 0 = Some (added_up func acc qwa (length qwa)) | _ \<Rightarrow> False)"

lemma added_up_start [simp]: "added_up func acc qwa 0 = the (task_result func qwa 0)" "added_up func acc qwa (Suc 0) = the (task_result func qwa 0)"
  by (simp_all add: added_up_def)

lemma added_up_Suc: "0 < j \<Longrightarrow> added_up func acc qwa (Suc j) = acc (added_up func acc qwa j) (the (task_result func qwa j))"
  by (simp add: added_up_def)

lemma acc_ok_body:
  assumes ok: "acc_ok func acc qwa s" and inv: "loop_inv True SYNCVAR_T workers qwa s" and i: "i \<notin> finished (pc_of (tasks s))" "i < length qwa"
    and v: "task_result func qwa i = Some v" and s': "rets s' = (rets s)(i \<mapsto> v)" "caller s' = caller s"
  shows "acc_ok func acc qwa s'"
proof (cases "i = 0")
  case True
  have "caller s = C_wait 0"
    using loop_invD(8) [OF inv] i ok unfolding True caller_ok_def acc_ok_def
    by (cases "caller s") (auto simp: finished_def gr0_conv_Suc)
  then show ?thesis
    using ok v s' True by (auto simp: acc_ok_def)
next
  case False
  then show ?thesis
    using ok v s' by (auto simp: acc_ok_def split: caller_pc.splits)
qed

lemma acc_ok_wait:
  assumes ok: "acc_ok func acc qwa s" and c: "caller s = C_wait i" and r: "caller_reads True i acc (rets s) = Some r"
    and s': "rets s' = r" "caller s' = C_wait (Suc i)"
  shows "acc_ok func acc qwa s'"
proof (cases "0 < i")
  case True
  then obtain a b where ab: "rets s 0 = Some a" "rets s i = Some b" "r = (rets s)(0 \<mapsto> acc a b)"
    using r by (auto simp: caller_reads_def bind_eq_Some_iff)
  have "a = added_up func acc qwa i" "task_result func qwa i = Some b"
    using ok True ab(1,2) c by (auto simp: acc_ok_def)
  then show ?thesis
    using ok ab(3) s' True by (simp add: acc_ok_def added_up_Suc)
next
  case False
  then show ?thesis
    using ok r c s' by (simp add: acc_ok_def caller_reads_def)
qed

lemma acc_ok_done:
  assumes "acc_ok func acc qwa s" "loop_inv True SYNCVAR_T workers qwa s" "qwa \<noteq> []" "caller s = C_wait (length qwa)"
    "rets s' = rets s" "caller s' = C_done"
  shows "acc_ok func acc qwa s'"
proof -
  have "0 \<in> finished (pc_of (tasks s))"
    using loop_invD(8) [OF assms(2)] assms(3,4) by (auto simp: caller_ok_def finished_def)
  then have "rets s 0 \<noteq> None"
    by (rule loop_invD(6) [OF assms(2)])
  then show ?thesis
    using assms(1,4-6) by (auto simp: acc_ok_def)
qed

lemma acc_ok_same: "acc_ok func acc qwa s \<Longrightarrow> rets s' = rets s \<Longrightarrow> caller s' = caller s \<Longrightarrow> acc_ok func acc qwa s'"
  by (simp add: acc_ok_def split: caller_pc.splits)

lemma acc_ok_step:
  assumes "loop_step True SYNCVAR_T func acc wk s s'" "acc_ok func acc qwa s" "loop_inv True SYNCVAR_T workers qwa s" "qwa_ok SYNCVAR_T qwa"
  shows "acc_ok func acc qwa s'"
  using assms(1)
proof (cases rule: loop_step.cases)
  case (body k l n i a v)
  note t = task_facts [OF assms(3,4) body(2,4)]
  show ?thesis
  proof (rule acc_ok_body [OF assms(2,3)])
    show "i \<notin> finished (pc_of (tasks s))"
      using t(1) body(3) by (simp add: finished_def)
  qed (use t(2,8,9) body in \<open>simp_all add: task_result_def\<close>)
next
  case (wait_word i r)
  then show ?thesis
    by (intro acc_ok_wait [OF assms(2)]) simp_all
next
  case (wait_words i)
  then show ?thesis
    using args_length [OF assms(3)] assms(4) by (intro acc_ok_done [OF assms(2,3)]) (simp_all add: qwa_ok_def)
next
  case (accumulate i r)
  then show ?thesis
    using assms(2) by (simp add: acc_ok_def)
next
  case (free_counter i)
  then show ?thesis
    using assms(2) by (simp add: acc_ok_def)
qed (rule acc_ok_same [OF assms(2)], simp_all add: task_signal_def)+

lemma fold_ranges:
  assumes "\<And>x y z. op (op x y) z = op x (op y z)" "xs \<noteq> []" "\<And>r. r \<in> set rs \<Longrightarrow> r \<noteq> []"
  shows "foldl op (foldl op (hd xs) (tl xs)) (map (\<lambda>r. foldl op (hd r) (tl r)) rs) = foldl op (hd (xs @ concat rs)) (tl (xs @ concat rs))"
  using assms(2,3)
proof (induction rs arbitrary: xs)
  case (Cons r rs)
  have assoc: "op a (foldl op b ys) = foldl op (op a b) ys" for a b ys
    by (induction ys arbitrary: b) (simp_all add: assms(1))
  obtain y ys where r: "r = y # ys"
    using Cons.prems(2) by (metis list.exhaust list.set_intros(1))
  have "op (foldl op (hd xs) (tl xs)) (foldl op y ys) = foldl op (hd (xs @ r)) (tl (xs @ r))"
    using Cons.prems(1) by (simp add: r assoc)
  then show ?case
    using Cons.IH [of "xs @ r"] Cons.prems by (simp add: r)
qed simp

lemma worker_loop_fold:
  "i + k \<le> length xs \<Longrightarrow> worker_loop k op xs i a = Some (foldl op a (map (nth xs) [i..<i + k]))"
proof (induction k arbitrary: i a)
  case (Suc k)
  have "[i..<i + Suc k] = i # [Suc i..<Suc i + k]"
    using upt_conv_Cons [of i "i + Suc k"] by simp
  then show ?case
    using Suc.IH [of "Suc i"] Suc.prems by (simp add: read_at_def del: upt_Suc)
qed simp

lemma parallel_worker_fold:
  assumes "unat a < unat b" "unat b \<le> length xs"
  shows "parallel_worker op xs a b = Some (let ys = map (nth xs) [unat a..<unat b] in foldl op (hd ys) (tl ys))"
proof -
  have "[unat a..<unat b] = unat a # [Suc (unat a)..<unat b]"
    using assms(1) by (rule upt_conv_Cons)
  then show ?thesis
    using assms worker_loop_fold [of "Suc (unat a)" "unat b - Suc (unat a)" xs op]
    by (simp add: parallel_worker_def read_at_def)
qed

text \<open>The ranges of the tasks of a reduction are not empty when the array has at least as many elements as there are workers;
  the results of the tasks add up to the fold of the array.\<close>

lemma range_facts:
  assumes "concat (map range_of qwa) = [0..<n]" "q \<in> set qwa" "range_of q \<noteq> []"
  shows "unat (startat q) < unat (stopat q)" "unat (stopat q) \<le> n"
proof -
  show less: "unat (startat q) < unat (stopat q)"
    using assms(3) by (simp add: range_of_def)
  then have "unat (stopat q) - 1 \<in> set (range_of q)"
    by (auto simp: range_of_def)
  then have "unat (stopat q) - 1 \<in> set (concat (map range_of qwa))"
    using assms(2) by auto
  then show "unat (stopat q) \<le> n"
    using less unfolding assms(1) by auto
qed

lemma results_of_ranges:
  assumes c: "concat (map range_of qwa) = [0..<length xs]" and ne: "\<And>q. q \<in> set qwa \<Longrightarrow> range_of q \<noteq> []" and i: "i < length qwa"
  shows "task_result (parallel_worker op xs) qwa i
    = Some (let ys = map (nth xs) (range_of (qwa ! i)) in foldl op (hd ys) (tl ys))"
  using parallel_worker_fold [OF range_facts [OF c nth_mem [OF i] ne [OF nth_mem [OF i]]], of op]
  by (simp add: task_result_def range_of_def)

lemma results_add_up:
  assumes assoc: "\<And>x y z. op (op x y) z = op x (op y z)" and c: "concat (map range_of qwa) = [0..<length xs]"
    and ne: "\<And>q. q \<in> set qwa \<Longrightarrow> range_of q \<noteq> []" and q: "qwa \<noteq> []"
  shows "added_up (parallel_worker op xs) op qwa (length qwa) = foldl op (hd xs) (tl xs)"
proof -
  let ?part = "\<lambda>q. map (nth xs) (range_of q)" and ?f = "\<lambda>r. foldl op (hd r) (tl r)"
  obtain q0 qs where qs: "qwa = q0 # qs"
    using q by (cases qwa) auto
  note r = results_of_ranges [OF c ne, of _ op]
  have "map (\<lambda>i. the (task_result (parallel_worker op xs) qwa i)) [1..<length qwa] = map ?f (map ?part qs)"
    by (rule nth_equalityI) (use r in \<open>simp_all add: qs Let_def del: upt_Suc\<close>)
  then have "added_up (parallel_worker op xs) op qwa (length qwa) = foldl op (?f (?part q0)) (map ?f (map ?part qs))"
    using r [of 0] by (simp add: added_up_def qs Let_def del: upt_Suc)
  also have "\<dots> = ?f (?part q0 @ concat (map ?part qs))"
    using assoc ne by (intro fold_ranges) (auto simp: qs)
  also have "?part q0 @ concat (map ?part qs) = map (nth xs) (concat (map range_of qwa))"
    by (simp add: qs map_concat o_def)
  also have "\<dots> = xs"
    unfolding c by (rule map_nth)
  finally show ?thesis .
qed

lemma accum_values:
  assumes q: "qwa_ok SYNCVAR_T qwa" and run: "(loop_step True SYNCVAR_T func acc wk ^^ n) (loop_start True SYNCVAR_T workers out qwa) s"
  shows "acc_ok func acc qwa s" "loop_inv True SYNCVAR_T workers qwa s"
proof -
  let ?I = "\<lambda>s. acc_ok func acc qwa s \<and> loop_inv True SYNCVAR_T workers qwa s"
  have ty: "counts SYNCVAR_T"
    by (simp add: counts_def)
  have "acc_ok func acc qwa (loop_start True SYNCVAR_T workers out qwa)"
    by (simp add: acc_ok_def loop_start_def)
  then have start: "?I (loop_start True SYNCVAR_T workers out qwa)"
    by (simp add: loop_start_inv [OF q ty])
  have "?I t'" if "?I t" "loop_step True SYNCVAR_T func acc wk t t'" for t t'
    using acc_ok_step [OF that(2) _ _ q] loop_step_inv [OF that(2) _ q ty] that(1) by blast
  then have "?I s"
    by (rule invariant_runs [where I = ?I, OF _ start run])
  then show "acc_ok func acc qwa s" "loop_inv True SYNCVAR_T workers qwa s"
    by simp_all
qed

text \<open>
  C30. (\<open>qloop.c\<close>, \<open>PARALLEL_FUNC\<close>: the functions \<open>qt_uint_sum\<close>, \<open>qt_double_max\<close> and so on, without the full/empty checks.) For an
  associative operation (not sums and products of doubles) and an array of at least as many elements as there are workers (shorter ones are
  read past their end, see below), the parallel reduction ends in every interleaving, within
  a bounded number of steps, with the left fold of the array, that is with the result of a sequential loop.
\<close>

theorem parallel_func_equals_fold:
  assumes assoc: "\<And>x y z. op (op x y) z = op x (op y z)" and nw: "nw \<noteq> 0" "unat nw \<le> length xs" and len: "length xs < 2 ^ 64"
    and wk: "\<And>i. wk i < unat nw"
  shows "\<exists>s0. parallel_func nw out xs = Some s0
    \<and> (\<forall>n s. (loop_step True SYNCVAR_T (parallel_worker op xs) op wk ^^ n) s0 s \<longrightarrow>
         n \<le> unat nw * (unat nw + 6) + 2 * unat nw + 3
         \<and> (caller s = C_done \<or> (\<exists>s'. loop_step True SYNCVAR_T (parallel_worker op xs) op wk s s'))
         \<and> (caller s = C_done \<longrightarrow> rets s 0 = Some (foldl op (hd xs) (tl xs))))"
proof -
  let ?f = "parallel_worker op xs"
  let ?R = "loop_step True SYNCVAR_T ?f op wk"
  have u: "unat (of_nat (length xs) :: u64) = length xs"
    using len by (simp add: unat_of_nat)
  obtain qwa where q: "divide nw SYNCVAR_T 0 (of_nat (length xs)) = Some qwa" "qwa_ok SYNCVAR_T qwa" "length qwa = unat nw"
      "concat (map range_of qwa) = [0..<length xs]"
      "\<forall>q \<in> set qwa. length (range_of q) = length xs div unat nw \<or> length (range_of q) = length xs div unat nw + 1"
    using divide_ok [OF _ nw(1), of 0 "of_nat (length xs)" SYNCVAR_T] u by auto
  have "0 < length xs div unat nw"
    using nw unat_gt_0 [of nw] by (simp add: div_greater_zero_iff)
  then have ne: "range_of q \<noteq> []" if "q \<in> set qwa" for q
    using q(5) that by force
  have "qwa \<noteq> []"
    using q(2) by (simp add: qwa_ok_def)
  note sum = results_add_up [OF assoc q(4) ne this]
  have runs: "loop_runs ?f (unat nw) wk qwa"
    using results_of_ranges [OF q(4) ne, of _ op] wk by (auto simp: loop_runs_def in_set_conv_nth task_result_def)
  let ?s0 = "loop_start True SYNCVAR_T (unat nw) out qwa"
  have "n \<le> unat nw * (unat nw + 6) + 2 * unat nw + 3 \<and> (caller s = C_done \<or> (\<exists>s'. ?R s s'))
      \<and> (caller s = C_done \<longrightarrow> rets s 0 = Some (foldl op (hd xs) (tl xs)))" if run: "(?R ^^ n) ?s0 s" for n s
    using loop_runs_to_end(2,3) [OF q(2) _ runs run] accum_values(1) [OF q(2) run] sum q(3)
    by (auto simp: counts_def acc_ok_def)
  moreover have "parallel_func nw out xs = Some ?s0"
    using q(1) by (simp add: parallel_func_def qt_loopaccum_balance_inner_def)
  ultimately show ?thesis
    by blast
qed

theorem parallel_func_equals_fold_witness:
  "\<exists>s0. parallel_func 2 0 [5, 7, 11 :: int] = Some s0
    \<and> (\<forall>n s. (loop_step True SYNCVAR_T (parallel_worker (+) [5, 7, 11]) (+) (\<lambda>i. i mod 2) ^^ n) s0 s \<longrightarrow>
         n \<le> 23 \<and> (caller s = C_done \<longrightarrow> rets s 0 = Some 23))"
  using parallel_func_equals_fold [of "(+)" 2 "[5, 7, 11 :: int]" "\<lambda>i. i mod 2" 0] by fastforce

section \<open>Loops that do not return\<close>

text \<open>With words of \<open>aligned_t\<close> every task but the first returns to the caller's stack.\<close>

definition aligned_stuck :: "unit loop_sys \<Rightarrow> bool" where
  "aligned_stuck s \<longleftrightarrow> (\<forall>a \<in> set (args s). qsync a = LocalPtr 0) \<and> (\<forall>t \<in> set (tasks s). tret t \<noteq> ArrPtr 1)
     \<and> \<not> words s (ArrPtr 1) \<and> (caller s = C_wait 0 \<or> caller s = C_wait 1) \<and> 2 \<le> length (args s)"

lemma aligned_pc:
  assumes "aligned_stuck s" "k < length (tasks s)"
  shows "aligned_stuck (set_pc k pc s)"
  using assms set_update_subset_insert [of "tasks s" k] by (fastforce simp: aligned_stuck_def set_pc_def)

lemma aligned_stuck_step:
  assumes "loop_step False ALIGNED func acc wk s s'" "aligned_stuck s"
  shows "aligned_stuck s'"
  using assms(1)
proof (cases rule: loop_step.cases)
  case (spawn k l n i a j p)
  have "qsync a = LocalPtr 0" "qsync (args s ! j) = LocalPtr 0"
    using assms(2) spawn(5,6,9) by (auto simp: aligned_stuck_def)
  moreover from this have "p = LocalPtr n"
    using spawn(10) by (simp add: child_ret_def)
  moreover have "t \<in> set ((tasks s)[k := (tasks s ! k)\<lparr>tpc := pc\<rparr>]) \<Longrightarrow> tret t \<noteq> ArrPtr 1" for t pc
    using assms(2) spawn(2) set_update_subset_insert [of "tasks s" k] by (fastforce simp: aligned_stuck_def)
  moreover have "a \<in> set ((args s)[j := (args s ! j)\<lparr>level := l + 1\<rparr>]) \<Longrightarrow> qsync a = LocalPtr 0" for a
    using assms(2) calculation(2) set_update_subset_insert [of "args s" j] by (fastforce simp: aligned_stuck_def)
  ultimately show ?thesis
    using assms(2) spawn(1) by (auto simp: aligned_stuck_def set_pc_def fork_empties_def)
next
  case (ret_word k p)
  then show ?thesis
    using aligned_pc [OF assms(2) ret_word(2), of T_end] assms(2) by (auto simp: aligned_stuck_def)
next
  case (wait_word i r)
  then show ?thesis
    using assms(2) by (auto simp: aligned_stuck_def)
qed (use assms(2) aligned_pc [OF assms(2)] in \<open>auto simp: aligned_stuck_def task_signal_def\<close>)

lemma divide_sync: "divide m ty start stop = Some qwa \<Longrightarrow> length qwa = unat m \<and> (\<forall>q \<in> set qwa. qsync q = qwa_sync ty)"
  using qwa_fill_nth [of _ "unat m"] by (auto simp: divide_def Let_def in_set_conv_nth split: if_splits)

text \<open>
  C32. (\<open>qloop.c\<close>, \<open>qt_loop_balance_aligned\<close>; the case \<open>ALIGNED\<close> falls through to \<open>DONECOUNT\<close>.) With two or more workers and
  iterations, the balanced loop with words of \<open>aligned_t\<close> never returns: the second task fills a word on the stack of the
  caller, which waits for the second word of its array.
\<close>

theorem aligned_balance_never_returns:
  assumes "start < stop" "2 \<le> unat nw" "2 \<le> unat stop - unat start"
  shows "\<exists>s0. qt_loop_balance_aligned nw start stop = Some s0
    \<and> (\<forall>n s. (loop_step False ALIGNED func acc wk ^^ n) s0 s \<longrightarrow> caller s \<noteq> C_done)"
proof -
  have "nw \<noteq> 0"
    using assms(2) by auto
  then obtain qwa where q: "qt_loop_balance_inner nw ALIGNED start stop = Some (loop_start False ALIGNED (unat nw) () qwa)" "qwa_ok ALIGNED qwa"
      "length qwa = min (unat nw) (unat stop - unat start)"
    using balance_starts [OF assms(1), of nw ALIGNED] by auto
  have "aligned_stuck (loop_start False ALIGNED (unat nw) () qwa)"
    using q(2,3) assms(2,3) by (auto simp: aligned_stuck_def loop_start_def qwa_ok_def qwa_sync_def root_ret_def in_set_conv_nth)
  then have "aligned_stuck s" if "(loop_step False ALIGNED func acc wk ^^ n) (loop_start False ALIGNED (unat nw) () qwa) s" for n s
    using invariant_runs [where I = aligned_stuck and R = "loop_step False ALIGNED func acc wk", OF _ _ that] aligned_stuck_step by blast
  then show ?thesis
    using q(1) unfolding qt_loop_balance_aligned_def aligned_stuck_def by fastforce
qed

theorem aligned_balance_never_returns_witness:
  "\<exists>s0. qt_loop_balance_aligned 2 0 2 = Some s0
    \<and> (\<forall>n s. (loop_step False ALIGNED (\<lambda>_ _. Some ()) (\<lambda>a b. a) (\<lambda>_. 0) ^^ n) s0 s \<longrightarrow> caller s \<noteq> C_done)"
  by (rule aligned_balance_never_returns) simp_all

text \<open>The tasks of \<open>qt_loop_spawner\<close> all return to the first word.\<close>

definition spawner_stuck :: "spawner_sys \<Rightarrow> bool" where
  "spawner_stuck s \<longleftrightarrow> (\<forall>t \<in> set (sptasks s). tret t = ArrPtr 0) \<and> \<not> spwords s 1
     \<and> ((\<exists>i. spawner s = S_spawn i) \<or> spawner s = S_wait 0 \<or> spawner s = S_wait 1)"

lemma spawner_stuck_update:
  assumes "spawner_stuck s" "k < length (sptasks s)"
  shows "spawner_stuck (s\<lparr>sptasks := (sptasks s)[k := (sptasks s ! k)\<lparr>tpc := pc\<rparr>]\<rparr>)"
  using assms set_update_subset_insert [of "sptasks s" k] by (fastforce simp: spawner_stuck_def)

lemma spawner_stuck_step:
  assumes "spawner_step ty steps s s'" "ty = SYNCVAR_T \<or> ty = ALIGNED" "2 \<le> steps" "spawner_stuck s"
  shows "spawner_stuck s'"
  using assms(1)
proof (cases rule: spawner_step.cases)
  case (return_word k i)
  have "i = 0"
    using assms(4) return_word(2,4) by (auto simp: spawner_stuck_def)
  then show ?thesis
    using spawner_stuck_update [OF assms(4) return_word(2), of T_end] return_word(1) by (auto simp: spawner_stuck_def)
next
  case (fork i)
  then show ?thesis
    using assms(2,4) by (auto simp: spawner_stuck_def retptr_def)
qed (use assms(2-4) spawner_stuck_update [OF assms(4)] in \<open>auto simp: spawner_stuck_def\<close>)

lemma spawner_never_returns:
  assumes "ty = SYNCVAR_T \<or> ty = ALIGNED" "2 \<le> steps" "(spawner_step ty steps ^^ n) (spawner_start steps) s"
  shows "spawner s \<noteq> S_done"
proof -
  have "spawner_stuck (spawner_start steps)"
    by (simp add: spawner_stuck_def spawner_start_def)
  then have "spawner_stuck s"
    using invariant_runs [where I = spawner_stuck, OF _ _ assms(3)] spawner_stuck_step [OF _ assms(1,2)] by blast
  then show ?thesis
    by (auto simp: spawner_stuck_def)
qed

section \<open>Empty loops and short arrays\<close>

lemma empty_balance_divides_by_zero: "qt_loop_balance_inner nw ty start start = None"
  by (simp add: qt_loop_balance_inner_def loop_maxworkers_def divide_def)

text \<open>A task whose body does not return keeps the caller from returning.\<close>

lemma ran_defined:
  assumes q: "qwa_ok ty qwa" and ty: "counts ty"
    and run: "(loop_step accum ty func acc wk ^^ n) (loop_start accum ty workers out qwa) s"
  shows "loop_inv accum ty workers qwa s" "i \<in> set (ran s) \<Longrightarrow> task_result func qwa i \<noteq> None"
proof -
  let ?I = "\<lambda>s. loop_inv accum ty workers qwa s \<and> (\<forall>i \<in> set (ran s). task_result func qwa i \<noteq> None)"
  have step: "?I t'" if I: "?I t" and st: "loop_step accum ty func acc wk t t'" for t t'
  proof
    show inv: "loop_inv accum ty workers qwa t'"
      using loop_step_inv [OF st _ q ty] I by blast
    from st show "\<forall>i \<in> set (ran t'). task_result func qwa i \<noteq> None"
    proof (cases rule: loop_step.cases)
      case (body k l n i a v)
      then show ?thesis
        using I task_facts(8,9) [OF _ q body(2,4)] by (auto simp: task_result_def)
    qed (use I in \<open>auto simp: task_signal_def bind_eq_Some_iff split: synctype_t.splits if_splits\<close>)
  qed
  have "ran (loop_start accum ty workers out qwa) = []"
    by (simp add: loop_start_def)
  then have start: "?I (loop_start accum ty workers out qwa)"
    by (simp add: loop_start_inv [OF q ty])
  have "?I s"
    by (rule invariant_runs [where I = ?I, OF _ start run]) (rule step)
  then show "loop_inv accum ty workers qwa s" "i \<in> set (ran s) \<Longrightarrow> task_result func qwa i \<noteq> None"
    by blast+
qed

lemma qwa_fill_last:
  "unat extra < k \<Longrightarrow> startat (last (qwa_fill k i m p 0 extra e)) = e + extra \<and> stopat (last (qwa_fill k i m p 0 extra e)) = e + extra"
proof (induction k arbitrary: i extra e)
  case (Suc k)
  show ?case
  proof (cases "k = 0")
    case True
    then have "extra = 0"
      using Suc.prems by (simp add: unsigned_eq_0_iff)
    then show ?thesis
      using True by simp
  next
    case False
    have ne: "qwa_fill k j m p 0 x y \<noteq> []" for j x y
      using False qwa_fill_length by (metis list.size(3))
    show ?thesis
    proof (cases "0 < extra")
      case True
      then have "0 < unat extra" "unat (extra - 1) = unat extra - 1"
        by (simp_all add: unat_minus_one word_gt_0 unat_gt_0)
      then have "unat (extra - 1) < k"
        using Suc.prems by simp
      then show ?thesis
        using Suc.IH [of "extra - 1" "i + 1" "e + 1"] ne True by (simp add: Let_def algebra_simps)
    next
      case zero: False
      then have "extra = 0"
        by (simp add: word_gt_0)
      then show ?thesis
        using Suc.IH [of 0 "i + 1" e] ne False by (simp add: Let_def)
    qed
  qed
qed simp

text \<open>
  (\<open>qloop.c\<close>, \<open>PARALLEL_FUNC\<close>.) With fewer elements than workers the last task of a parallel reduction reads past the array:
  its worker function is called with an empty range and starts from the element at its start. The reduction never
  returns normally in the model, in which that read is an error.
\<close>

lemma short_reduction_reads_past_end:
  assumes "length xs < unat nw"
  shows "\<exists>s0. parallel_func nw out xs = Some s0 \<and> startat (last (args s0)) = of_nat (length xs)
    \<and> parallel_worker op xs (startat (last (args s0))) (stopat (last (args s0))) = None
    \<and> (\<forall>n s. (loop_step True SYNCVAR_T (parallel_worker op xs) op wk ^^ n) s0 s \<longrightarrow> caller s \<noteq> C_done)"
proof -
  let ?n = "of_nat (length xs) :: u64" and ?f = "parallel_worker op xs"
  let ?R = "loop_step True SYNCVAR_T ?f op wk"
  have nw: "nw \<noteq> 0"
    using assms by auto
  have u: "unat ?n = length xs"
    using assms unsigned_less [where 'a = nat, of nw] by (simp add: unat_of_nat)
  obtain qwa where q: "divide nw SYNCVAR_T 0 ?n = Some qwa" "qwa_ok SYNCVAR_T qwa" "length qwa = unat nw"
    using divide_ok [OF _ nw, of 0 ?n SYNCVAR_T] by auto
  have "?n div nw = 0"
    using assms u by (simp add: unat_div flip: unsigned_eq_0_iff [where 'b = 64 and 'a = nat])
  then have "qwa = qwa_fill (unat nw) 0 (unat nw) (ArrPtr 0) 0 ?n 0"
    using q(1) nw by (simp add: divide_def Let_def qwa_sync_def)
  then have l: "startat (last qwa) = ?n" "stopat (last qwa) = ?n"
    using qwa_fill_last [of ?n "unat nw"] assms u by simp_all
  have none: "?f ?n ?n = None"
    by (simp add: parallel_worker_def read_at_def u)
  let ?s0 = "loop_start True SYNCVAR_T (unat nw) out qwa"
  have "caller s \<noteq> C_done" if run: "(?R ^^ n) ?s0 s" for n s
  proof
    assume c: "caller s = C_done"
    have ty: "counts SYNCVAR_T"
      by (simp add: counts_def)
    note r = ran_defined [OF q(2) ty run]
    have "{..<length qwa} \<subseteq> finished (pc_of (tasks s))"
      using loop_invD(8) [OF r(1)] unfolding c caller_ok_def by simp
    moreover have "finite (finished (pc_of (tasks s)))"
      using finite_tree [OF loop_invD(2) [OF r(1)]] by blast
    ultimately have "length qwa - 1 \<in> set (ran s)"
      using loop_invD(5) [OF r(1)] q(3) assms by (auto simp flip: set_mset_mset)
    moreover have "task_result ?f qwa (length qwa - 1) = None"
      using l none q(2) by (simp add: task_result_def qwa_ok_def last_conv_nth)
    ultimately show False
      using r(2) by blast
  qed
  moreover have "parallel_func nw out xs = Some ?s0"
    using q(1) by (simp add: parallel_func_def qt_loopaccum_balance_inner_def)
  moreover have "args ?s0 = qwa"
    by (simp add: loop_start_def)
  ultimately show ?thesis
    using l none by (intro exI [of _ ?s0]) simp
qed

text \<open>The accumulating loop with a counter adds the results up and then frees the counter as if it were a pointer.\<close>

lemma loopaccum_dc_never_returns:
  assumes "(loop_step True DONECOUNT func acc wk ^^ n) (loop_start True DONECOUNT workers out qwa) s"
  shows "caller s \<noteq> C_done"
proof -
  have "caller t \<noteq> C_done \<Longrightarrow> loop_step True DONECOUNT func acc wk t t' \<Longrightarrow> caller t' \<noteq> C_done" for t t' :: "'a loop_sys"
    by (erule loop_step.cases) (auto simp: task_signal_def)
  then show ?thesis
    using invariant_runs [where I = "\<lambda>s. caller s \<noteq> C_done", OF _ _ assms] by (auto simp: loop_start_def)
qed

end
