(* ===== verification/Qqloop.thy ===== *)
theory Qqloop
  imports QPrelude "HOL-Library.Signed_Division"
begin

text \<open>
  Loops over a shared queue of iterations (\<open>qloop.c\<close>): wrappers, one per worker, take ranges of iterations from the queue by
  one of four policies until it is empty; workers may join and leave while the loop runs. Every access to shared
  memory is a step of its own: the reads and the swaps of the queue, the unsynchronised read and write of its start that
  the guided and the factored policy use when there is one worker, and the two reads of the caller's waiting loop. The number of
  workers, which the code reads anew in every call, may change between the calls. \<open>saligned_t\<close> is \<open>int\<close>: the values that occur
  lie between the start of the loop and its end plus one chunk per wrapper; the number of wrappers fits a shepherd number.
\<close>

section \<open>The iteration queue\<close>

datatype qt_loop_queue_type = CHUNK | GUIDED | FACTORED | TIMED

record qqloop_iteration_queue =
  iq_start :: int
  iq_stop :: int
  iq_step :: int
  iq_type :: qt_loop_queue_type
  iq_phase :: int
  iq_lastblocks :: "nat \<Rightarrow> int"

text \<open>\<open>junk\<close> is what the uninitialised parts hold. The first phase is computed in \<open>size_t\<close>.\<close>

definition qqloop_create_iq :: "(nat \<Rightarrow> int) \<Rightarrow> int \<Rightarrow> int \<Rightarrow> int \<Rightarrow> qt_loop_queue_type \<Rightarrow> qqloop_iteration_queue" where
  "qqloop_create_iq junk startat stopat step type =
     \<lparr>iq_start = startat, iq_stop = stopat, iq_step = step, iq_type = type,
      iq_phase = (if type = FACTORED then (startat + stopat) mod 2 ^ 64 div 2 else junk 0), iq_lastblocks = junk\<rparr>"

section \<open>Taking iterations\<close>

text \<open>The share of the iterations from \<open>at\<close> on: at least one.\<close>

definition share_of :: "int \<Rightarrow> int \<Rightarrow> nat \<Rightarrow> int" where
  "share_of stop at sheps = (let i = (stop - at) sdiv int sheps in if i = 0 then 1 else i)"

text \<open>The phase that \<open>qqloop_get_iterations_factored\<close> stores when the current one is used up.\<close>

definition new_phase :: "int \<Rightarrow> int \<Rightarrow> nat \<Rightarrow> int \<Rightarrow> int" where
  "new_phase stop ret sheps phase =
     (let newphase = (stop + ret) sdiv 2;
          chunksize = (stop - newphase) sdiv int sheps;
          newphase = ret + chunksize * int sheps
      in if newphase \<noteq> phase then newphase else stop)"

text \<open>\<open>slow\<close> tells whether the last range took at least the time that the code compares with.\<close>

definition timed_block :: "bool \<Rightarrow> int \<Rightarrow> int \<Rightarrow> int \<Rightarrow> nat \<Rightarrow> int \<Rightarrow> int" where
  "timed_block slow block stop localstart wc step =
     (let b = (if slow then (stop - localstart) sdiv (2 * int wc * step) + 1 else block)
      in if localstart + b > stop then stop - localstart else b)"

text \<open>
  Where a wrapper is: before a call, inside one (with the local variables of the four functions), running a range, after
  the last call, finished.
\<close>

datatype get_pc = I_get
  | I_sheps int | I_readphase int | I_fsheps int int
  | I_one | I_one_set int
  | I_guided nat | I_guided_cas nat int
  | I_factor nat int | I_phase nat int int | I_factor_cas nat int int
  | I_chunk
  | I_block nat | I_timed nat bool int | I_timed_cas nat bool int int | I_last int int
  | I_run int int | I_exit | I_end

text \<open>The outcome of a call: a range, or nothing.\<close>

definition got :: "int \<Rightarrow> int \<Rightarrow> int \<Rightarrow> get_pc" where
  "got stop ret iterations = (if ret < stop then I_run ret (ret + iterations) else I_exit)"

text \<open>
  One access to the queue by a wrapper on shepherd \<open>shep\<close>. \<open>first\<close> says that its range has step 0, \<open>nw\<close> is the number of
  workers that \<open>qthread_num_workers\<close> returns, \<open>act\<close> the number of active wrappers, \<open>chunk\<close> the chunk size. With one worker
  the whole rest of the queue is taken by a read of its start (\<open>I_one\<close>) and a write (\<open>I_one_set\<close>).
\<close>

fun get_step :: "nat \<Rightarrow> int \<Rightarrow> nat \<Rightarrow> bool \<Rightarrow> bool \<Rightarrow> nat \<Rightarrow> qqloop_iteration_queue \<Rightarrow> get_pc \<Rightarrow> (qqloop_iteration_queue \<times> get_pc) option" where
  "get_step nw chunk shep first slow act iq I_get =
     Some (iq, case iq_type iq of
        CHUNK \<Rightarrow> if iq_start iq < iq_stop iq then I_chunk else I_exit
      | TIMED \<Rightarrow> I_block act
      | GUIDED \<Rightarrow> I_sheps (iq_start iq)
      | FACTORED \<Rightarrow> I_readphase (iq_start iq))"
| "get_step nw chunk shep first slow act iq (I_sheps ret) =
     Some (iq, if nw = 1 then if ret < iq_stop iq then I_one else I_exit
               else if ret < iq_stop iq then I_guided act else I_exit)"
| "get_step nw chunk shep first slow act iq (I_readphase ret) = Some (iq, I_fsheps ret (iq_phase iq))"
| "get_step nw chunk shep first slow act iq (I_fsheps ret phase) =
     Some (iq, if nw = 1 then if ret < iq_stop iq then I_one else I_exit
               else if ret < iq_stop iq then I_factor act phase else I_exit)"
| "get_step nw chunk shep first slow act iq I_one = Some (iq, I_one_set (iq_start iq))"
| "get_step nw chunk shep first slow act iq (I_one_set startat) =
     Some (iq\<lparr>iq_start := iq_stop iq\<rparr>, I_run startat (iq_stop iq))"
| "get_step nw chunk shep first slow act iq (I_guided sheps) = Some (iq, I_guided_cas sheps (iq_start iq))"
| "get_step nw chunk shep first slow act iq (I_guided_cas sheps ret) =
     do { c_assert (sheps \<noteq> 0);
          let iterations = share_of (iq_stop iq) ret sheps;
          if iq_start iq = ret then Some (iq\<lparr>iq_start := ret + iterations\<rparr>, got (iq_stop iq) ret iterations)
          else Some (iq, if ret < iq_stop iq then I_guided sheps else I_exit) }"
| "get_step nw chunk shep first slow act iq (I_factor sheps phase) = Some (iq, I_phase sheps phase (iq_start iq))"
| "get_step nw chunk shep first slow act iq (I_phase sheps phase ret) =
     (if phase \<le> ret \<and> ret < iq_stop iq then
        do { c_assert (sheps \<noteq> 0);
             Some (if iq_phase iq = phase then iq\<lparr>iq_phase := new_phase (iq_stop iq) ret sheps phase\<rparr> else iq,
                   I_phase sheps (iq_phase iq) ret) }
      else Some (iq, I_factor_cas sheps phase ret))"
| "get_step nw chunk shep first slow act iq (I_factor_cas sheps phase ret) =
     do { c_assert (sheps \<noteq> 0);
          let iterations = share_of (iq_stop iq) phase sheps;
          if iq_start iq = ret then Some (iq\<lparr>iq_start := ret + iterations\<rparr>, got (iq_stop iq) ret iterations)
          else Some (iq, if ret < iq_stop iq then I_factor sheps phase else I_exit) }"
| "get_step nw chunk shep first slow act iq I_chunk =
     (let ret = iq_start iq
      in Some (iq\<lparr>iq_start := ret + chunk\<rparr>,
               got (iq_stop iq) ret (if ret + chunk > iq_stop iq then iq_stop iq - ret else chunk)))"
| "get_step nw chunk shep first slow act iq (I_block wc) =
     Some (iq, if first then I_timed wc True 1 else I_timed wc slow (iq_lastblocks iq shep))"
| "get_step nw chunk shep first slow act iq (I_timed wc slow' block) =
     Some (iq, if iq_start iq < iq_stop iq then I_timed_cas wc slow' block (iq_start iq) else I_exit)"
| "get_step nw chunk shep first slow act iq (I_timed_cas wc slow' block localstart) =
     do { c_assert (\<not> slow' \<or> 2 * int wc * iq_step iq \<noteq> 0);
          let b = timed_block slow' block (iq_stop iq) localstart wc (iq_step iq);
          if iq_start iq = localstart then Some (iq\<lparr>iq_start := localstart + b\<rparr>, I_last localstart b)
          else Some (iq, if iq_start iq < iq_stop iq then I_timed_cas wc slow' b (iq_start iq) else I_exit) }"
| "get_step nw chunk shep first slow act iq (I_last localstart b) =
     Some (iq\<lparr>iq_lastblocks := (iq_lastblocks iq)(shep := b)\<rparr>, if 0 < b then I_run localstart (localstart + b) else I_exit)"
| "get_step nw chunk shep first slow act iq pc = None"

section \<open>The loop\<close>

record qq_wrapper =
  qw_shep :: nat
  qw_first :: bool
  qw_pc :: get_pc

text \<open>The caller's wait \<open>while ( *dc < *as)\<close>: before a test, between its two reads (which C leaves in either order), after the loop.\<close>

datatype wait_pc = W_test | W_dc nat | W_as nat | W_done

text \<open>\<open>adding\<close> counts the calls of \<open>qt_loop_queue_addworker\<close> that have incremented \<open>activesheps\<close> and not yet decided.\<close>

record qq_sys =
  iq :: qqloop_iteration_queue
  wraps :: "qq_wrapper list"
  donecount :: nat
  activesheps :: nat
  adding :: nat
  qran :: "(int \<times> int) list"
  caller :: wait_pc

definition returned :: "qq_sys \<Rightarrow> bool" where
  "returned s \<longleftrightarrow> caller s = W_done"

definition new_wrapper :: "nat \<Rightarrow> qq_wrapper" where
  "new_wrapper shep = \<lparr>qw_shep = shep, qw_first = True, qw_pc = I_get\<rparr>"

definition set_wrap :: "nat \<Rightarrow> bool \<Rightarrow> get_pc \<Rightarrow> qq_sys \<Rightarrow> qq_sys" where
  "set_wrap k f pc s = s\<lparr>wraps := (wraps s)[k := (wraps s ! k)\<lparr>qw_first := f, qw_pc := pc\<rparr>]\<rparr>"

text \<open>\<open>qqloop_wrapper\<close> and the second part of \<open>qt_loop_queue_addworker\<close>. \<open>nws\<close> holds the numbers of workers that may be seen while the loop runs. A
  wrapper whose shepherd has been disabled leaves after a range.\<close>

inductive qq_step :: "nat set \<Rightarrow> int \<Rightarrow> qq_sys \<Rightarrow> qq_sys \<Rightarrow> bool" for nws chunk where
  get: "k < length (wraps s) \<Longrightarrow> w = wraps s ! k \<Longrightarrow> nw \<in> nws \<Longrightarrow>
    get_step nw chunk (qw_shep w) (qw_first w) slow (activesheps s) (iq s) (qw_pc w) = Some (q, pc) \<Longrightarrow>
    qq_step nws chunk s ((set_wrap k (qw_first w) pc s)\<lparr>iq := q\<rparr>)"
| run: "k < length (wraps s) \<Longrightarrow> qw_pc (wraps s ! k) = I_run a b \<Longrightarrow> a \<noteq> b \<Longrightarrow>
    qq_step nws chunk s ((set_wrap k False I_get s)\<lparr>qran := qran s @ [(a, b)]\<rparr>)"
| run_disabled: "k < length (wraps s) \<Longrightarrow> qw_pc (wraps s ! k) = I_run a b \<Longrightarrow> a \<noteq> b \<Longrightarrow>
    qq_step nws chunk s ((set_wrap k False I_end s)\<lparr>qran := qran s @ [(a, b)], activesheps := activesheps s - 1\<rparr>)"
| exit: "k < length (wraps s) \<Longrightarrow> qw_pc (wraps s ! k) = I_exit \<Longrightarrow>
    qq_step nws chunk s ((set_wrap k (qw_first (wraps s ! k)) I_end s)\<lparr>donecount := donecount s + 1\<rparr>)"
| add_fork: "0 < adding s \<Longrightarrow> donecount s = 0 \<Longrightarrow>
    qq_step nws chunk s (s\<lparr>adding := adding s - 1, wraps := wraps s @ [new_wrapper shep]\<rparr>)"
| add_cancel: "0 < adding s \<Longrightarrow> donecount s \<noteq> 0 \<Longrightarrow>
    qq_step nws chunk s (s\<lparr>adding := adding s - 1, activesheps := activesheps s - 1\<rparr>)"

text \<open>The caller's wait in \<open>qt_loop_queue_run\<close> and \<open>qt_loop_queue_run_there\<close>; \<open>as_first\<close> says that the program was compiled to read \<open>*as\<close> first.\<close>

inductive qq_poll :: "bool \<Rightarrow> qq_sys \<Rightarrow> qq_sys \<Rightarrow> bool" for as_first where
  read_dc: "\<not> as_first \<Longrightarrow> caller s = W_test \<Longrightarrow> qq_poll as_first s (s\<lparr>caller := W_dc (donecount s)\<rparr>)"
| test_as: "caller s = W_dc v \<Longrightarrow> qq_poll as_first s (s\<lparr>caller := if v < activesheps s then W_test else W_done\<rparr>)"
| read_as: "as_first \<Longrightarrow> caller s = W_test \<Longrightarrow> qq_poll as_first s (s\<lparr>caller := W_as (activesheps s)\<rparr>)"
| test_dc: "caller s = W_as v \<Longrightarrow> qq_poll as_first s (s\<lparr>caller := if donecount s < v then W_test else W_done\<rparr>)"

text \<open>The first part of \<open>qt_loop_queue_addworker\<close>, which the program may call as long as the loop runs.\<close>

inductive qq_add :: "qq_sys \<Rightarrow> qq_sys \<Rightarrow> bool" where
  add: "\<not> returned s \<Longrightarrow> qq_add s (s\<lparr>activesheps := activesheps s + 1, adding := adding s + 1\<rparr>)"

definition default_chunk :: "nat \<Rightarrow> int \<Rightarrow> int \<Rightarrow> int" where
  "default_chunk nw start stop = (let c = (stop - start) div int nw div 10 in if c = 0 then 1 else c)"

definition qt_loop_queue_create :: "(nat \<Rightarrow> int) \<Rightarrow> qt_loop_queue_type \<Rightarrow> int \<Rightarrow> int \<Rightarrow> int \<Rightarrow> qq_sys" where
  "qt_loop_queue_create junk type start stop incr =
     \<lparr>iq = qqloop_create_iq junk start stop incr type, wraps = [], donecount = 0, activesheps = 0, adding = 0, qran = [], caller = W_test\<rparr>"

text \<open>The caller has forked its wrappers and begins to wait: one per worker, or (\<open>qt_loop_queue_run_there\<close>) one.\<close>

definition qt_loop_queue_run :: "nat \<Rightarrow> qq_sys \<Rightarrow> qq_sys" where
  "qt_loop_queue_run nw s = s\<lparr>activesheps := nw, wraps := map new_wrapper [0..<nw]\<rparr>"

definition qt_loop_queue_run_there :: "nat \<Rightarrow> qq_sys \<Rightarrow> qq_sys" where
  "qt_loop_queue_run_there shep s = s\<lparr>activesheps := activesheps s + 1, wraps := wraps s @ [new_wrapper shep]\<rparr>"

end
