(* ===== verification/Qqloop_Inv.thy ===== *)
theory Qqloop_Inv
  imports Qqloop "HOL-Library.Multiset"
begin

text \<open>What one access to the iteration queue does to the iterations that are handed out, and to the work that is left.\<close>

section \<open>Arithmetic\<close>

lemma sdiv_nonneg: "0 < n \<Longrightarrow> 0 \<le> x \<Longrightarrow> x sdiv n = x div n" for x n :: int
  by (simp add: signed_divide_int_def sgn_if)

lemma sdiv_bounds:
  fixes x n :: int
  assumes "0 < n"
  shows "0 \<le> x \<Longrightarrow> 0 \<le> x sdiv n \<and> x sdiv n \<le> x" "x \<le> 0 \<Longrightarrow> x \<le> x sdiv n \<and> x sdiv n \<le> 0"
proof -
  have b: "0 \<le> y div n \<and> y div n \<le> y" if "0 \<le> y" for y
    using assms that zdiv_mono2 [of y 1 n] by (simp add: pos_imp_zdiv_nonneg_iff)
  show "0 \<le> x \<Longrightarrow> 0 \<le> x sdiv n \<and> x sdiv n \<le> x"
    using b by (simp add: sdiv_nonneg [OF assms])
  show "x \<le> 0 \<Longrightarrow> x \<le> x sdiv n \<and> x sdiv n \<le> 0"
    using b [of "- x"] assms by (auto simp: signed_divide_int_def sgn_if)
qed

lemma share_of_bounds:
  assumes "0 < n"
  shows "at < stop \<Longrightarrow> 1 \<le> share_of stop at n \<and> at + share_of stop at n \<le> stop" "stop \<le> at \<Longrightarrow> stop \<le> at + share_of stop at n"
    "at \<le> stop \<Longrightarrow> 1 \<le> share_of stop at n"
  using sdiv_bounds [of "int n" "stop - at"] assms by (auto simp: share_of_def Let_def)

lemma new_phase_bounds:
  assumes "0 < n" "0 \<le> ret" "ret < stop" "phase \<le> ret"
  shows "phase < new_phase stop ret n phase" "new_phase stop ret n phase \<le> stop"
proof -
  let ?mid = "(stop + ret) sdiv 2"
  let ?c = "(stop - ?mid) sdiv int n"
  have m: "?mid = (stop + ret) div 2" "ret \<le> ?mid" "?mid \<le> stop"
    using assms(2,3) by (simp_all add: sdiv_nonneg)
  then have "0 \<le> ?c" "?c = (stop - ?mid) div int n"
    using assms(1) sdiv_bounds(1) [of "int n" "stop - ?mid"] by (auto simp: sdiv_nonneg)
  moreover from this have "?c * int n \<le> stop - ?mid"
    using assms(1) by (metis m(3) div_mult_mod_eq diff_ge_0_iff_ge le_add_same_cancel1 of_nat_0_less_iff pos_mod_sign)
  moreover define c where "c = ?c * int n"
  ultimately have "0 \<le> c" "c \<le> stop - ?mid" "new_phase stop ret n phase = (if ret + c \<noteq> phase then ret + c else stop)"
    by (simp_all add: new_phase_def Let_def)
  then show "phase < new_phase stop ret n phase" "new_phase stop ret n phase \<le> stop"
    using assms m(2,3) by auto
qed

lemma timed_block_bounds:
  assumes "localstart < stop" "slow \<Longrightarrow> 0 < wc \<and> 0 < step" "\<not> slow \<Longrightarrow> 0 < block"
  shows "0 < timed_block slow block stop localstart wc step" "localstart + timed_block slow block stop localstart wc step \<le> stop"
proof -
  have "slow \<Longrightarrow> 0 \<le> (stop - localstart) sdiv (2 * int wc * step)"
    using sdiv_bounds(1) [of "2 * int wc * step" "stop - localstart"] assms(1,2) by simp
  then show "0 < timed_block slow block stop localstart wc step" "localstart + timed_block slow block stop localstart wc step \<le> stop"
    using assms by (auto simp: timed_block_def Let_def)
qed

section \<open>Iterations\<close>

definition iters :: "int \<Rightarrow> int \<Rightarrow> int multiset" where
  "iters a b = mset [a..b - 1]"

lemma iters_empty [simp]: "b \<le> a \<Longrightarrow> iters a b = {#}"
  by (simp add: iters_def)

lemma iters_join: "a \<le> b \<Longrightarrow> b \<le> c \<Longrightarrow> iters a b + iters b c = iters a c"
proof (cases "a = b \<or> b = c")
  case False
  assume "a \<le> b" "b \<le> c"
  with False have "[a..c - 1] = [a..b - 1] @ [b..c - 1]"
    using upto_split2 [of a "b - 1" "c - 1"] by simp
  then show ?thesis
    by (simp add: iters_def)
qed auto

text \<open>The iterations that a wrapper has taken and not yet run.\<close>

definition pending :: "get_pc \<Rightarrow> int multiset" where
  "pending pc = (case pc of I_last a b \<Rightarrow> iters a (a + b) | I_run a b \<Rightarrow> iters a b | _ \<Rightarrow> {#})"

section \<open>Well-formed states of the queue and of the wrappers\<close>

definition iq_ok :: "int \<Rightarrow> qqloop_iteration_queue \<Rightarrow> bool" where
  "iq_ok start0 q \<longleftrightarrow> 0 \<le> start0 \<and> start0 \<le> iq_start q \<and> start0 \<le> iq_stop q \<and> (iq_type q = FACTORED \<longrightarrow> iq_phase q \<le> iq_stop q)
     \<and> (iq_type q = TIMED \<longrightarrow> 0 < iq_step q)"

fun pc_ok :: "qqloop_iteration_queue \<Rightarrow> get_pc \<Rightarrow> bool" where
  "pc_ok q I_get = True"
| "pc_ok q (I_sheps ret) = (iq_type q = GUIDED \<and> (iq_stop q \<le> ret \<longrightarrow> iq_stop q \<le> iq_start q))"
| "pc_ok q (I_readphase ret) = (iq_type q = FACTORED \<and> (iq_stop q \<le> ret \<longrightarrow> iq_stop q \<le> iq_start q))"
| "pc_ok q (I_fsheps ret phase) = (iq_type q = FACTORED \<and> phase \<le> iq_stop q \<and> (iq_stop q \<le> ret \<longrightarrow> iq_stop q \<le> iq_start q))"
| "pc_ok q I_one = (iq_type q = GUIDED \<or> iq_type q = FACTORED)"
| "pc_ok q (I_one_set a) = (iq_type q = GUIDED \<or> iq_type q = FACTORED)"
| "pc_ok q (I_guided n) = (0 < n \<and> iq_type q = GUIDED)"
| "pc_ok q (I_guided_cas n ret) = (0 < n \<and> iq_type q = GUIDED \<and> (iq_stop q \<le> ret \<longrightarrow> iq_stop q \<le> iq_start q))"
| "pc_ok q (I_factor n phase) = (0 < n \<and> phase \<le> iq_stop q \<and> iq_type q = FACTORED)"
| "pc_ok q (I_phase n phase ret) = (0 < n \<and> phase \<le> iq_stop q \<and> 0 \<le> ret \<and> iq_type q = FACTORED
     \<and> (iq_stop q \<le> ret \<longrightarrow> iq_stop q \<le> iq_start q))"
| "pc_ok q (I_factor_cas n phase ret) = (0 < n \<and> phase \<le> iq_stop q \<and> (ret < iq_stop q \<longrightarrow> ret < phase) \<and> iq_type q = FACTORED
     \<and> (iq_stop q \<le> ret \<longrightarrow> iq_stop q \<le> iq_start q))"
| "pc_ok q I_chunk = (iq_type q = CHUNK)"
| "pc_ok q (I_block n) = (0 < n \<and> iq_type q = TIMED)"
| "pc_ok q (I_timed n slow b) = (0 < n \<and> iq_type q = TIMED \<and> 0 < b)"
| "pc_ok q (I_timed_cas n slow b a) = (0 < n \<and> iq_type q = TIMED \<and> 0 < b \<and> a < iq_stop q)"
| "pc_ok q (I_last a b) = (0 < b \<and> iq_type q = TIMED \<and> a + b \<le> iq_stop q)"
| "pc_ok q (I_run a b) = (a < b \<and> b \<le> iq_stop q)"
| "pc_ok q I_exit = (iq_stop q \<le> iq_start q)"
| "pc_ok q I_end = True"

text \<open>The queue only moves on: \<open>later q q'\<close> holds of the states before and after an access.\<close>

definition later :: "qqloop_iteration_queue \<Rightarrow> qqloop_iteration_queue \<Rightarrow> bool" where
  "later q q' \<longleftrightarrow> iq_stop q' = iq_stop q \<and> iq_step q' = iq_step q \<and> iq_type q' = iq_type q
     \<and> (iq_stop q \<le> iq_start q \<longrightarrow> iq_stop q \<le> iq_start q') \<and> (\<forall>i. 0 < iq_lastblocks q i \<longrightarrow> 0 < iq_lastblocks q' i)"

lemma pc_ok_later: "later q q' \<Longrightarrow> pc_ok q pc \<Longrightarrow> pc_ok q' pc"
  by (cases pc) (auto simp: later_def)

lemma later_refl [simp]: "later q q"
  by (simp add: later_def)

definition in_call :: "get_pc \<Rightarrow> bool" where
  "in_call pc \<longleftrightarrow> (case pc of I_run a b \<Rightarrow> False | I_exit \<Rightarrow> False | I_end \<Rightarrow> False | _ \<Rightarrow> True)"

text \<open>The block that a timed wrapper used last is known when it has run a range, and from when it has stored it.\<close>

definition block_known :: "qqloop_iteration_queue \<Rightarrow> nat \<Rightarrow> bool \<Rightarrow> get_pc \<Rightarrow> bool" where
  "block_known q shep first pc \<longleftrightarrow> (iq_type q = TIMED \<longrightarrow> \<not> first \<or> (\<exists>a b. pc = I_run a b) \<longrightarrow> 0 < iq_lastblocks q shep)"

text \<open>
  The branch for one worker is not synchronised. It is harmless when there is a single wrapper: then the start of the queue
  is still what was read. \<open>solo\<close> says that there never is another wrapper; only then may a wrapper be in that branch.
\<close>

definition one_pc :: "get_pc \<Rightarrow> bool" where
  "one_pc pc \<longleftrightarrow> (case pc of I_one \<Rightarrow> True | I_one_set a \<Rightarrow> True | _ \<Rightarrow> False)"

definition solo_ok :: "qqloop_iteration_queue \<Rightarrow> get_pc \<Rightarrow> bool" where
  "solo_ok q pc \<longleftrightarrow> (case pc of I_sheps ret \<Rightarrow> ret = iq_start q | I_readphase ret \<Rightarrow> ret = iq_start q | I_fsheps ret phase \<Rightarrow> ret = iq_start q
     | I_one \<Rightarrow> iq_start q < iq_stop q | I_one_set a \<Rightarrow> a = iq_start q \<and> iq_start q < iq_stop q | _ \<Rightarrow> True)"

lemma solo_simps [simp]: "solo_ok q I_get" "solo_ok q I_end" "\<not> one_pc I_get" "\<not> one_pc I_end"
  by (simp_all add: solo_ok_def one_pc_def)

definition solo_inv :: "bool \<Rightarrow> qqloop_iteration_queue \<Rightarrow> get_pc \<Rightarrow> bool" where
  "solo_inv solo q pc \<longleftrightarrow> (solo \<longrightarrow> solo_ok q pc) \<and> (one_pc pc \<longrightarrow> solo)"

text \<open>What an access to the queue does.\<close>

definition access_ok :: "int \<Rightarrow> nat \<Rightarrow> bool \<Rightarrow> qqloop_iteration_queue \<Rightarrow> get_pc \<Rightarrow> (qqloop_iteration_queue \<times> get_pc) option \<Rightarrow> bool" where
  "access_ok start0 shep first q pc r \<longleftrightarrow> (\<exists>q' pc'. r = Some (q', pc') \<and> iq_ok start0 q' \<and> later q q' \<and> pc_ok q' pc' \<and> pc' \<noteq> I_end
     \<and> block_known q' shep first pc'
     \<and> iters start0 (min (iq_start q') (iq_stop q)) + pending pc = iters start0 (min (iq_start q) (iq_stop q)) + pending pc')"

lemma access_same:
  assumes "iq_ok start0 q" "block_known q shep first pc'" "pc_ok q pc'" "pc' \<noteq> I_end" "pending pc' = pending pc"
  shows "access_ok start0 shep first q pc (Some (q, pc'))"
  using assms by (simp add: access_ok_def)

text \<open>Taking the iterations from \<open>ret\<close> on.\<close>

lemma access_take:
  assumes q: "iq_ok start0 q" "iq_start q = ret" and n: "ret < iq_stop q \<Longrightarrow> 0 < n \<and> ret + n \<le> iq_stop q"
    and up: "ret < iq_stop q \<Longrightarrow> ret + n \<le> up \<and> (up \<le> iq_stop q \<longrightarrow> up = ret + n) \<and> (ret + n < iq_stop q \<longrightarrow> up = ret + n)"
      "iq_stop q \<le> ret \<Longrightarrow> iq_stop q \<le> up" and t: "iq_type q \<noteq> TIMED" and pc: "pending pc = {#}"
  shows "access_ok start0 shep first q pc (Some (q\<lparr>iq_start := up\<rparr>, got (iq_stop q) ret n))"
proof (cases "ret < iq_stop q")
  case True
  have "iters start0 ret + iters ret (ret + n) = iters start0 (ret + n)"
    using q n [OF True] by (intro iters_join) (auto simp: iq_ok_def)
  moreover have "min up (iq_stop q) = ret + n" "min ret (iq_stop q) = ret"
    using n [OF True] up(1) [OF True] True by auto
  moreover have "iq_ok start0 (q\<lparr>iq_start := up\<rparr>)" "later q (q\<lparr>iq_start := up\<rparr>)"
    using q n [OF True] up(1) [OF True] True by (auto simp: iq_ok_def later_def)
  moreover have "got (iq_stop q) ret n = I_run ret (ret + n)"
    using True by (simp add: got_def)
  ultimately show ?thesis
    using q(2) n [OF True] t pc by (simp add: access_ok_def block_known_def pending_def)
next
  case False
  then show ?thesis
    using q up(2) t pc by (auto simp: access_ok_def iq_ok_def later_def block_known_def pending_def got_def min_def)
qed

lemma get_step_solo:
  assumes "get_step nw chunk shep first slow act q pc = Some (q', pc')" "solo_inv solo q pc" "pc_ok q pc"
    and "nw = 1 \<Longrightarrow> iq_type q = GUIDED \<or> iq_type q = FACTORED \<Longrightarrow> solo"
  shows "solo_inv solo q' pc'"
  using assms
  by (cases pc) (auto simp: solo_inv_def solo_ok_def one_pc_def got_def Let_def split: if_splits qt_loop_queue_type.splits)

lemma get_step_ok:
  assumes q: "iq_ok start0 q" and act: "0 < act" and chunk: "0 < chunk" and pc: "pc_ok q pc" "in_call pc"
    and b: "block_known q shep first pc" and solo: "solo_inv solo q pc"
  shows "access_ok start0 shep first q pc (get_step nw chunk shep first slow act q pc)"
proof (cases pc)
  case I_get
  then show ?thesis
    using act b by (cases "iq_type q") (auto simp: pending_def block_known_def intro!: access_same [OF q])
next
  case (I_one_set a)
  then have a: "iq_start q = a" "a < iq_stop q" "iq_type q \<noteq> TIMED"
    using solo pc by (auto simp: solo_inv_def solo_ok_def one_pc_def)
  have "access_ok start0 shep first q pc (Some (q\<lparr>iq_start := iq_stop q\<rparr>, got (iq_stop q) a (iq_stop q - a)))"
    by (rule access_take [OF q a(1)]) (use a I_one_set in \<open>simp_all add: pending_def\<close>)
  then show ?thesis
    using I_one_set a by (simp add: got_def)
next
  case I_one
  then show ?thesis
    using pc by (auto simp: pending_def block_known_def intro!: access_same [OF q])
next
  case (I_fsheps ret phase)
  then show ?thesis
    using pc act by (auto simp: pending_def block_known_def intro!: access_same [OF q])
next
  case (I_guided_cas n ret)
  show ?thesis
  proof (cases "iq_start q = ret")
    case True
    have n: "0 < n" "iq_type q = GUIDED"
      using I_guided_cas pc by simp_all
    have "access_ok start0 shep first q pc
        (Some (q\<lparr>iq_start := ret + share_of (iq_stop q) ret n\<rparr>, got (iq_stop q) ret (share_of (iq_stop q) ret n)))"
    proof (rule access_take [OF q True])
      show "ret < iq_stop q \<Longrightarrow> 0 < share_of (iq_stop q) ret n \<and> ret + share_of (iq_stop q) ret n \<le> iq_stop q"
        using share_of_bounds(1) [OF n(1), of ret "iq_stop q"] by simp
    qed (use I_guided_cas n share_of_bounds(2) [OF n(1)] in \<open>simp_all add: pending_def\<close>)
    then show ?thesis
      using I_guided_cas n True by (simp add: Let_def)
  next
    case False
    then show ?thesis
      using I_guided_cas pc b by (auto simp: Let_def pending_def block_known_def intro!: access_same [OF q])
  qed
next
  case (I_phase n phase ret)
  show ?thesis
  proof (cases "phase \<le> ret \<and> ret < iq_stop q \<and> iq_phase q = phase")
    case True
    then have "new_phase (iq_stop q) ret n phase \<le> iq_stop q"
      using I_phase pc new_phase_bounds(2) [of n ret "iq_stop q" phase] by simp
    then show ?thesis
      using I_phase True pc q by (simp add: access_ok_def iq_ok_def later_def block_known_def pending_def)
  next
    case False
    then show ?thesis
      using I_phase pc b q by (auto simp: pending_def block_known_def iq_ok_def intro!: access_same [OF q])
  qed
next
  case (I_factor_cas n phase ret)
  show ?thesis
  proof (cases "iq_start q = ret")
    case True
    have "0 < share_of (iq_stop q) phase n \<and> (ret < iq_stop q \<longrightarrow> ret + share_of (iq_stop q) phase n \<le> iq_stop q)"
      using I_factor_cas pc share_of_bounds [of n phase "iq_stop q"] by (cases "phase < iq_stop q") (auto simp: share_of_def)
    then show ?thesis
      using I_factor_cas pc True by (simp add: Let_def) (rule access_take [OF q True], auto simp: pending_def)
  next
    case False
    then show ?thesis
      using I_factor_cas pc b by (auto simp: Let_def pending_def block_known_def intro!: access_same [OF q])
  qed
next
  case I_chunk
  then show ?thesis
    using chunk pc by (auto simp: Let_def pending_def intro!: access_take [OF q refl])
next
  case (I_timed_cas n slow' block a)
  note t = timed_block_bounds [of a "iq_stop q" slow' n "iq_step q" block]
  have tb: "0 < timed_block slow' block (iq_stop q) a n (iq_step q)" "a + timed_block slow' block (iq_stop q) a n (iq_step q) \<le> iq_stop q"
    using t I_timed_cas pc q by (auto simp: iq_ok_def)
  show ?thesis
  proof (cases "iq_start q = a")
    case True
    have "iters start0 a + iters a (a + timed_block slow' block (iq_stop q) a n (iq_step q))
        = iters start0 (a + timed_block slow' block (iq_stop q) a n (iq_step q))"
      using q True tb by (intro iters_join) (auto simp: iq_ok_def)
    then show ?thesis
      using I_timed_cas True tb pc q b
      by (auto simp: Let_def access_ok_def iq_ok_def later_def block_known_def pending_def min_def)
  next
    case False
    then show ?thesis
      using I_timed_cas pc b tb q by (auto simp: Let_def pending_def block_known_def iq_ok_def intro!: access_same [OF q])
  qed
next
  case (I_last a n)
  then show ?thesis
    using pc q b by (auto simp: access_ok_def iq_ok_def later_def block_known_def pending_def)
next
  case (I_sheps ret)
  then show ?thesis
    using pc act by (auto simp: pending_def block_known_def intro!: access_same [OF q])
next
  case (I_timed n slow' block)
  then show ?thesis
    using pc b by (simp add: pending_def block_known_def access_same [OF q])
next
  case (I_block n)
  then show ?thesis
    using pc b by (simp add: pending_def block_known_def access_same [OF q])
next
  case (I_factor n phase)
  then show ?thesis
    using pc q by (simp add: pending_def block_known_def access_same [OF q] iq_ok_def)
qed (use pc act q in \<open>simp_all add: pending_def block_known_def in_call_def access_same [OF q] iq_ok_def [of start0 q]\<close>)

section \<open>Work\<close>

text \<open>The steps that are left to a wrapper, up to changes by others: an attempt to swap that is known to fail costs more.\<close>

definition local_work :: "qqloop_iteration_queue \<Rightarrow> get_pc \<Rightarrow> nat" where
  "local_work q pc = (case pc of I_last a b \<Rightarrow> 21 | I_run a b \<Rightarrow> 20 | I_get \<Rightarrow> 19 | I_sheps ret \<Rightarrow> 18
     | I_readphase ret \<Rightarrow> 18 | I_fsheps ret phase \<Rightarrow> 17 | I_one \<Rightarrow> 16 | I_one_set a \<Rightarrow> 15
     | I_guided n \<Rightarrow> 10 | I_guided_cas n ret \<Rightarrow> if ret = iq_start q then 9 else 11
     | I_factor n phase \<Rightarrow> 10
     | I_phase n phase ret \<Rightarrow> (if ret = iq_start q then 8 else 12) + (if phase = iq_phase q then 0 else 1)
     | I_factor_cas n phase ret \<Rightarrow> if ret = iq_start q then 7 else 11
     | I_chunk \<Rightarrow> 10 | I_block n \<Rightarrow> 17 | I_timed n slow b \<Rightarrow> 15 | I_timed_cas n slow b a \<Rightarrow> if a = iq_start q then 10 else 11
     | _ \<Rightarrow> 0)"

text \<open>\<open>W\<close> pays for what a successful swap costs the others.\<close>

definition wrap_work :: "nat \<Rightarrow> qqloop_iteration_queue \<Rightarrow> get_pc \<Rightarrow> nat" where
  "wrap_work W q pc = (case pc of I_end \<Rightarrow> 0 | I_exit \<Rightarrow> 1 | _ \<Rightarrow> W + local_work q pc)"

definition queue_work :: "qqloop_iteration_queue \<Rightarrow> nat" where
  "queue_work q = nat (iq_stop q - iq_start q) + (if iq_type q = FACTORED then nat (iq_stop q - iq_phase q) else 0)"

lemma wrap_work_bounds:
  "in_call pc \<Longrightarrow> W + 7 \<le> wrap_work W q pc" "wrap_work W q pc \<le> W + 21" "wrap_work W q' pc \<le> wrap_work W q pc + 5"
  by (cases pc; simp add: wrap_work_def local_work_def in_call_def)+

lemma wrap_work_same: "iq_start q' = iq_start q \<Longrightarrow> iq_phase q' = iq_phase q \<Longrightarrow> wrap_work W q' pc = wrap_work W q pc"
  by (cases pc) (simp_all add: wrap_work_def local_work_def)

definition works :: "nat \<Rightarrow> qqloop_iteration_queue \<Rightarrow> get_pc \<Rightarrow> qqloop_iteration_queue \<Rightarrow> get_pc \<Rightarrow> bool" where
  "works W q pc q' pc' \<longleftrightarrow> queue_work q' < queue_work q \<or> queue_work q' \<le> queue_work q \<and> pc' = I_exit
     \<or> iq_start q' = iq_start q \<and> iq_phase q' = iq_phase q \<and> queue_work q' = queue_work q \<and> wrap_work W q' pc' < wrap_work W q pc"

text \<open>A successful swap of the start of the queue.\<close>

lemma works_take:
  assumes "ret = iq_start q" "ret < iq_stop q \<Longrightarrow> ret < up" "iq_stop q \<le> ret \<Longrightarrow> iq_stop q \<le> up"
  shows "works W q pc (q\<lparr>iq_start := up\<rparr>) (got (iq_stop q) ret n)"
  using assms by (cases "ret < iq_stop q") (auto simp: works_def queue_work_def got_def)

lemma get_step_works:
  assumes q: "iq_ok start0 q" and chunk: "0 < chunk" and pc: "pc_ok q pc" and solo: "solo_inv solo q pc"
    and r: "get_step nw chunk shep first slow act q pc = Some (q', pc')"
  shows "works W q pc q' pc'"
proof (cases pc)
  case I_get
  then show ?thesis
    using r by (cases "iq_type q") (auto simp: works_def wrap_work_def local_work_def split: if_splits)
next
  case (I_one_set a)
  then show ?thesis
    using solo r by (auto simp: solo_inv_def solo_ok_def one_pc_def works_def queue_work_def)
next
  case (I_guided_cas n ret)
  show ?thesis
  proof (cases "iq_start q = ret")
    case True
    have n: "0 < n"
      using I_guided_cas pc by simp
    have "works W q pc (q\<lparr>iq_start := ret + share_of (iq_stop q) ret n\<rparr>) (got (iq_stop q) ret (share_of (iq_stop q) ret n))"
      using share_of_bounds(1) [OF n, of ret "iq_stop q"] share_of_bounds(2) [OF n, of "iq_stop q" ret] True
      by (intro works_take) (auto dest: leD)
    then show ?thesis
      using I_guided_cas n True r by (simp add: Let_def)
  next
    case False
    then show ?thesis
      using I_guided_cas r by (auto simp: Let_def works_def wrap_work_def local_work_def split: if_splits)
  qed
next
  case (I_phase n phase ret)
  show ?thesis
  proof (cases "phase \<le> ret \<and> ret < iq_stop q \<and> iq_phase q = phase")
    case True
    then have "phase < new_phase (iq_stop q) ret n phase" "new_phase (iq_stop q) ret n phase \<le> iq_stop q"
      using I_phase pc new_phase_bounds [of n ret "iq_stop q" phase] by simp_all
    then show ?thesis
      using I_phase True pc r by (auto simp: works_def queue_work_def split: if_splits)
  next
    case False
    then show ?thesis
      using I_phase pc r by (auto simp: works_def wrap_work_def local_work_def split: if_splits)
  qed
next
  case (I_factor_cas n phase ret)
  show ?thesis
  proof (cases "iq_start q = ret")
    case True
    have n: "0 < n" "1 \<le> share_of (iq_stop q) phase n"
      using I_factor_cas pc share_of_bounds(3) [of n phase "iq_stop q"] by simp_all
    have "works W q pc (q\<lparr>iq_start := ret + share_of (iq_stop q) phase n\<rparr>) (got (iq_stop q) ret (share_of (iq_stop q) phase n))"
      using n True by (intro works_take) auto
    then show ?thesis
      using I_factor_cas n True r by (simp add: Let_def)
  next
    case False
    then show ?thesis
      using I_factor_cas r by (auto simp: Let_def works_def wrap_work_def local_work_def split: if_splits)
  qed
next
  case I_chunk
  then show ?thesis
    using chunk r works_take [of "iq_start q" q "iq_start q + chunk" W pc] by (auto simp: Let_def)
next
  case (I_timed_cas n slow' block a)
  have "0 < timed_block slow' block (iq_stop q) a n (iq_step q)"
    using timed_block_bounds(1) [of a "iq_stop q" slow' n "iq_step q" block] I_timed_cas pc q by (auto simp: iq_ok_def)
  then show ?thesis
    using I_timed_cas pc r by (auto simp: Let_def works_def queue_work_def wrap_work_def local_work_def split: if_splits)
qed (use r in \<open>auto simp: works_def queue_work_def wrap_work_def local_work_def split: if_splits\<close>)

end
