(* ===== verification/Qqloop_Props.thy ===== *)
theory Qqloop_Props
  imports Qqloop_Inv
begin

text \<open>A loop over a queue of iterations runs each iteration exactly once and returns, under every policy.\<close>

section \<open>The invariant\<close>



















section \<open>Progress and termination\<close>












section \<open>Complete runs\<close>

text \<open>The states that the loop reaches, while the program may add workers if \<open>joins\<close>.\<close>

definition qq_reaches :: "nat set \<Rightarrow> int \<Rightarrow> bool \<Rightarrow> bool \<Rightarrow> qq_sys \<Rightarrow> qq_sys \<Rightarrow> bool" where
  "qq_reaches nws chunk as_first joins = (\<lambda>s s'. qq_step nws chunk s s' \<or> qq_poll as_first s s' \<or> joins \<and> qq_add s s')\<^sup>*\<^sup>*"







section \<open>Runs\<close>

text \<open>Runs by explicit schedules.\<close>

datatype qq_act = A_get nat nat | A_run nat | A_exit nat | A_poll | A_add | A_fork nat

fun qq_exec :: "int \<Rightarrow> bool \<Rightarrow> qq_act \<Rightarrow> qq_sys \<Rightarrow> qq_sys option" where
  "qq_exec chunk as_first (A_get k nw) s =
     (let w = wraps s ! k
      in do { c_assert (k < length (wraps s));
              (q, pc) \<leftarrow> get_step nw chunk (qw_shep w) (qw_first w) False (activesheps s) (iq s) (qw_pc w);
              Some ((set_wrap k (qw_first w) pc s)\<lparr>iq := q\<rparr>) })"
| "qq_exec chunk as_first (A_run k) s =
     do { c_assert (k < length (wraps s));
          (case qw_pc (wraps s ! k) of
             I_run a b \<Rightarrow> if a \<noteq> b then Some ((set_wrap k False I_get s)\<lparr>qran := qran s @ [(a, b)]\<rparr>) else None
           | _ \<Rightarrow> None) }"
| "qq_exec chunk as_first (A_exit k) s =
     do { c_assert (k < length (wraps s) \<and> qw_pc (wraps s ! k) = I_exit);
          Some ((set_wrap k (qw_first (wraps s ! k)) I_end s)\<lparr>donecount := donecount s + 1\<rparr>) }"
| "qq_exec chunk as_first A_poll s =
     (case caller s of
        W_test \<Rightarrow> Some (s\<lparr>caller := if as_first then W_as (activesheps s) else W_dc (donecount s)\<rparr>)
      | W_dc v \<Rightarrow> Some (s\<lparr>caller := if v < activesheps s then W_test else W_done\<rparr>)
      | W_as v \<Rightarrow> Some (s\<lparr>caller := if donecount s < v then W_test else W_done\<rparr>)
      | W_done \<Rightarrow> None)"
| "qq_exec chunk as_first A_add s =
     (if caller s \<noteq> W_done then Some (s\<lparr>activesheps := activesheps s + 1, adding := adding s + 1\<rparr>) else None)"
| "qq_exec chunk as_first (A_fork shep) s =
     (if 0 < adding s \<and> donecount s = 0 then Some (s\<lparr>adding := adding s - 1, wraps := wraps s @ [new_wrapper shep]\<rparr>) else None)"

primrec qq_execs :: "int \<Rightarrow> bool \<Rightarrow> qq_act list \<Rightarrow> qq_sys \<Rightarrow> qq_sys option" where
  "qq_execs chunk as_first [] s = Some s"
| "qq_execs chunk as_first (a # as) s = do { s \<leftarrow> qq_exec chunk as_first a s; qq_execs chunk as_first as s }"

definition act_ok :: "nat set \<Rightarrow> bool \<Rightarrow> qq_act \<Rightarrow> bool" where
  "act_ok nws joins a \<longleftrightarrow> (case a of A_get k nw \<Rightarrow> nw \<in> nws | A_add \<Rightarrow> joins | _ \<Rightarrow> True)"

lemma qq_exec_step:
  assumes "qq_exec chunk as_first a s = Some s'" "act_ok nws joins a"
  shows "qq_step nws chunk s s' \<or> qq_poll as_first s s' \<or> joins \<and> qq_add s s'"
proof (cases a)
  case (A_get k nw)
  then show ?thesis
    using assms qq_step.get [of k s "wraps s ! k" nw nws chunk False]
    by (auto simp: act_ok_def bind_eq_Some_conv Let_def c_assert_def split: if_splits)
next
  case (A_run k)
  then show ?thesis
    using assms qq_step.run [of k s _ _ nws chunk] by (auto simp: c_assert_def split: if_splits get_pc.splits)
next
  case (A_exit k)
  then show ?thesis
    using assms qq_step.exit [of k s nws chunk] by (auto simp: c_assert_def split: if_splits)
next
  case A_poll
  then show ?thesis
    using assms by (cases "caller s"; cases as_first) (auto intro: qq_poll.intros)
next
  case A_add
  then show ?thesis
    using assms qq_add.add [of s] by (auto simp: act_ok_def returned_def split: if_splits)
next
  case (A_fork shep)
  then show ?thesis
    using assms qq_step.add_fork [of s nws chunk shep] by (auto split: if_splits)
qed

lemma qq_execs_reach:
  "qq_execs chunk as_first as s = Some s' \<Longrightarrow> list_all (act_ok nws joins) as \<Longrightarrow> qq_reaches nws chunk as_first joins s s'"
proof (induction as arbitrary: s)
  case Nil
  then show ?case
    by (simp add: qq_reaches_def)
next
  case (Cons a as)
  then obtain u where u: "qq_exec chunk as_first a s = Some u" "qq_execs chunk as_first as u = Some s'"
    by (auto simp: bind_eq_Some_conv)
  then show ?case
    using Cons qq_exec_step [OF u(1), of nws joins] unfolding qq_reaches_def by (auto intro: converse_rtranclp_into_rtranclp)
qed

text \<open>A guided loop of four iterations over two wrappers.\<close>

definition two_wrappers :: "qt_loop_queue_type \<Rightarrow> nat \<Rightarrow> qq_sys" where
  "two_wrappers type n = qt_loop_queue_run n (qt_loop_queue_create (\<lambda>_. 0) type 0 4 1)"




text \<open>
  The branch for one worker. Two wrappers run when a worker is disabled, so that the first sees one worker. It has read the
  start of the queue when the second, which still saw two, swaps it; then it takes the whole loop, and iterations
  0 and 1 are run twice.
\<close>

lemma one_worker_branch_races:
  "\<exists>s. qq_reaches {1, 2} 1 False False (two_wrappers GUIDED 2) s
     \<and> count (mset (concat (map (\<lambda>(a, b). [a..b - 1]) (qran s)))) 0 = 2"
proof -
  let ?as = "[A_get 0 1, A_get 0 1, A_get 0 1, A_get 1 2, A_get 1 2, A_get 1 2, A_get 1 2, A_get 0 1, A_run 0, A_run 1]"
  have "map_option qran (qq_execs 1 False ?as (two_wrappers GUIDED 2)) = Some [(0, 4), (0, 2)]"
    by code_simp
  then obtain s where s: "qq_execs 1 False ?as (two_wrappers GUIDED 2) = Some s" "qran s = [(0, 4), (0, 2)]"
    by auto
  moreover have "list_all (act_ok {1, 2} False) ?as"
    by (simp add: act_ok_def)
  moreover have "count (mset (concat (map (\<lambda>(a, b). [a..b - 1]) [(0, 4), (0, 2 :: int)]))) (0 :: int) = 2"
    by code_simp
  ultimately show ?thesis
    using qq_execs_reach [OF s(1), of "{1, 2}" False] by auto
qed

text \<open>
  The wait. When \<open>*as\<close> is read first, a worker that joins between the two reads is not waited for: the caller returns, and frees
  the queue, although the iterations 0 and 1 that the new wrapper has taken have not been run.
\<close>

lemma early_return_with_join:
  "\<exists>s. qq_reaches {1, 2} 2 True True (two_wrappers CHUNK 1) s \<and> returned s \<and> 0 < donecount s
     \<and> mset (concat (map (\<lambda>(a, b). [a..b - 1]) (qran s))) \<noteq> mset [0..3]"
proof -
  let ?as = "[A_poll, A_add, A_fork 1, A_get 1 2, A_get 1 2, A_get 0 2, A_get 0 2, A_run 0, A_get 0 2, A_exit 0, A_poll]"
  have "map_option (\<lambda>s. (qran s, donecount s, returned s)) (qq_execs 2 True ?as (two_wrappers CHUNK 1)) = Some ([(2, 4)], 1, True)"
    by code_simp
  then obtain s where s: "qq_execs 2 True ?as (two_wrappers CHUNK 1) = Some s" "qran s = [(2, 4)]" "donecount s = 1" "returned s"
    by auto
  moreover have "list_all (act_ok {1, 2} True) ?as"
    by (simp add: act_ok_def)
  moreover have "mset (concat (map (\<lambda>(a, b). [a..b - 1]) [(2, 4 :: int)])) \<noteq> mset [0..3 :: int]"
    by code_simp
  ultimately show ?thesis
    using qq_execs_reach [OF s(1), of "{1, 2}" True] by (intro exI [of _ s]) simp
qed

end
