(* ===== verification/Barrier.thy ===== *)
theory Barrier
  imports QPrelude
begin

unbundle bit_operations_syntax

text \<open>
  Barriers (\<open>barrier/feb.c\<close>, \<open>barrier/array.c\<close>, \<open>barrier/log.c\<close>): a participant that enters waits until all participants have
  entered. Each access to a full/empty bit, a syncvar or a counter is one step; \<open>readFE\<close>, \<open>writeEF\<close> and \<open>readFF\<close> wait for the
  state that they need.
\<close>

section \<open>The barrier with two gates\<close>

record feb_barrier =
  in_gate :: bool
  out_gate :: bool
  blockers :: nat
  max_blockers :: nat

definition feb_barrier_create :: "nat \<Rightarrow> feb_barrier" where
  "feb_barrier_create max_threads = \<lparr>in_gate = True, out_gate = False, blockers = 0, max_blockers = max_threads\<rparr>"

text \<open>Where a participant is in \<open>qt_barrier_enter\<close>; between two calls it is at the gate.\<close>

datatype gate_pc = B_in | B_incr | B_close | B_open | B_out | B_decr | B_shut | B_reopen

record gate_part =
  gpc :: gate_pc
  ground :: nat

record gate_sys =
  barrier :: feb_barrier
  gparts :: "gate_part list"

text \<open>One step of a participant, which tells whether it leaves the barrier; \<open>None\<close> when it has to wait.\<close>

fun gate_access :: "gate_pc \<Rightarrow> feb_barrier \<Rightarrow> (feb_barrier \<times> gate_pc \<times> bool) option" where
  "gate_access B_in b = (if in_gate b then Some (b, B_incr, False) else None)"
| "gate_access B_incr b =
     (let waiters = blockers b + 1
      in Some (b\<lparr>blockers := waiters\<rparr>, if waiters = max_blockers b then B_close else B_out, False))"
| "gate_access B_close b = Some (b\<lparr>in_gate := False\<rparr>, B_open, False)"
| "gate_access B_open b = Some (b\<lparr>out_gate := True\<rparr>, B_decr, False)"
| "gate_access B_out b = (if out_gate b then Some (b, B_decr, False) else None)"
| "gate_access B_decr b =
     (let waiters = blockers b - 1
      in Some (b\<lparr>blockers := waiters\<rparr>, if waiters = 0 then B_shut else B_in, waiters \<noteq> 0))"
| "gate_access B_shut b = Some (b\<lparr>out_gate := False\<rparr>, B_reopen, False)"
| "gate_access B_reopen b = Some (b\<lparr>in_gate := True\<rparr>, B_in, True)"

definition gate_step :: "nat \<Rightarrow> gate_sys \<Rightarrow> gate_sys option" where
  "gate_step k s =
     do { c_assert (k < length (gparts s));
          (b, pc, leaves) \<leftarrow> gate_access (gpc (gparts s ! k)) (barrier s);
          Some \<lparr>barrier = b, gparts = (gparts s)[k := \<lparr>gpc = pc, ground = ground (gparts s ! k) + (if leaves then 1 else 0)\<rparr>]\<rparr> }"

text \<open>The assertion of \<open>qt_barrier_enter\<close>.\<close>

definition gate_fails :: "nat \<Rightarrow> gate_sys \<Rightarrow> bool" where
  "gate_fails k s \<longleftrightarrow> gpc (gparts s ! k) = B_incr \<and> max_blockers (barrier s) < blockers (barrier s) + 1"

definition gate_start :: "nat \<Rightarrow> gate_sys" where
  "gate_start n = \<lparr>barrier = feb_barrier_create n, gparts = replicate n \<lparr>gpc = B_in, ground = 0\<rparr>\<rparr>"

definition feb_barrier_resize :: "nat \<Rightarrow> feb_barrier \<Rightarrow> feb_barrier option" where
  "feb_barrier_resize new_size b = do { c_assert (blockers b = 0); Some (b\<lparr>max_blockers := new_size\<rparr>) }"

section \<open>Barriers over trees of words\<close>

text \<open>What a participant does in a call, as a list of accesses to the words \<open>up\<close> and \<open>down\<close>.\<close>

datatype bar_act = WaitUp nat | SignalUp nat | WaitDown nat | SignalDown nat

record bar_words =
  upw :: "nat \<Rightarrow> bool"
  downw :: "nat \<Rightarrow> bool"

fun act_step :: "bar_act \<Rightarrow> bar_words \<Rightarrow> bar_words option" where
  "act_step (WaitUp i) w = (if upw w i then Some (w\<lparr>upw := (upw w)(i := False)\<rparr>) else None)"
| "act_step (SignalUp i) w = (if upw w i then None else Some (w\<lparr>upw := (upw w)(i := True)\<rparr>))"
| "act_step (WaitDown i) w = (if downw w i then Some (w\<lparr>downw := (downw w)(i := False)\<rparr>) else None)"
| "act_step (SignalDown i) w = (if downw w i then None else Some (w\<lparr>downw := (downw w)(i := True)\<rparr>))"

text \<open>\<open>qt_barrier_enter_id\<close> of \<open>barrier/array.c\<close> for \<open>n\<close> participants.\<close>

definition array_enter_id :: "nat \<Rightarrow> nat \<Rightarrow> bar_act list" where
  "array_enter_id n ident =
     (let leftchild = push_bit 1 (ident + 1) - 1; rightchild = leftchild + 1
      in (if leftchild < n then WaitUp leftchild # (if rightchild < n then [WaitUp rightchild] else []) else [])
         @ (if ident > 0 then [SignalUp ident, WaitDown ident] else [])
         @ (if leftchild < n then SignalDown leftchild # (if rightchild < n then [SignalDown rightchild] else []) else []))"

text \<open>\<open>qtb_internal_down\<close>, \<open>qtb_internal_up\<close> and \<open>qt_barrier_enter_id\<close> of \<open>barrier/log.c\<close>.\<close>

primrec qtb_internal_down :: "nat \<Rightarrow> nat \<Rightarrow> nat \<Rightarrow> bar_act list" where
  "qtb_internal_down n myLock 0 =
     (let pairedLock = myLock XOR 1 in if pairedLock < n \<and> myLock < pairedLock then [SignalDown pairedLock] else [])"
| "qtb_internal_down n myLock (Suc i) =
     (let pairedLock = myLock XOR push_bit (Suc i) 1 in if pairedLock < n \<and> myLock < pairedLock then [SignalDown pairedLock] else [])
     @ qtb_internal_down n myLock i"

lemma bit_le: "bit m l \<Longrightarrow> 2 ^ l \<le> (m :: nat)"
  by (metis bit_iff_odd div_less even_zero not_le)

lemma xor_bit: "m XOR 2 ^ l = (if bit m l then m - 2 ^ l else m + 2 ^ l)" for m :: nat
proof -
  have "flip_bit l m = (if bit m l then m - 2 ^ l else m + 2 ^ l)"
  proof (induction l arbitrary: m)
    case 0
    then show ?case
      by (simp add: flip_bit_0 bit_0)
  next
    case (Suc l)
    show ?case
    proof (cases "bit (m div 2) l")
      case True
      have "m mod 2 + 2 * (m div 2 - 2 ^ l) = m - 2 * 2 ^ l"
        using bit_le [OF True] div_mult_mod_eq [of m 2] by linarith
      then show ?thesis
        using Suc [of "m div 2"] True by (simp add: flip_bit_Suc bit_Suc)
    qed (use Suc [of "m div 2"] in \<open>simp add: flip_bit_Suc bit_Suc\<close>)
  qed
  then show ?thesis
    by (simp add: flip_bit_eq_xor)
qed

function qtb_internal_up :: "nat \<Rightarrow> nat \<Rightarrow> nat \<Rightarrow> nat \<Rightarrow> bar_act list" where
  "qtb_internal_up n doneLevel myLock level =
     (let pairedLock = myLock XOR push_bit level 1
      in if n \<le> pairedLock then
           [SignalUp myLock, WaitDown myLock] @ (if level \<noteq> 0 then qtb_internal_down n myLock level else [])
         else if pairedLock < myLock then
           [SignalUp myLock, WaitDown myLock] @ (if level \<noteq> 0 then qtb_internal_down n myLock level else [])
         else WaitUp pairedLock
              # (if level + 1 < doneLevel \<or> myLock \<noteq> 0 then qtb_internal_up n doneLevel myLock (level + 1)
                 else qtb_internal_down n myLock level))"
  by pat_completeness auto
termination
proof (relation "measure (\<lambda>(n, doneLevel, myLock, level). n - level)")
  fix n doneLevel myLock level pairedLock :: nat
  assume p: "pairedLock = myLock XOR push_bit level 1" "\<not> n \<le> pairedLock" "\<not> pairedLock < myLock"
    "level + 1 < doneLevel \<or> myLock \<noteq> 0"
  have "2 ^ level \<le> pairedLock"
    using p(1,3) bit_le [of myLock level] by (cases "bit myLock level") (auto simp: xor_bit)
  then have "level < n"
    using p(2) less_exp [of level] by linarith
  then show "((n, doneLevel, myLock, level + 1), (n, doneLevel, myLock, level)) \<in> measure (\<lambda>(n, doneLevel, myLock, level). n - level)"
    by simp
qed simp

declare qtb_internal_up.simps [simp del]

text \<open>The height of the tree, from \<open>qtb_internal_initialize_fixed\<close>.\<close>

lemma drop_bit_1_less [termination_simp]: "0 < n \<Longrightarrow> drop_bit (Suc 0) n < n" for n :: nat
  by (simp add: drop_bit_Suc)

fun depth_loop :: "nat \<Rightarrow> nat \<Rightarrow> nat" where
  "depth_loop temp depth = (if temp = 0 then depth else depth_loop (drop_bit 1 temp) (depth + 1))"

declare depth_loop.simps [simp del]

definition log_doneLevel :: "nat \<Rightarrow> nat" where
  "log_doneLevel n = depth_loop (drop_bit 1 (n - 1)) 1"

definition log_enter_id :: "nat \<Rightarrow> nat \<Rightarrow> bar_act list" where
  "log_enter_id n ident = (if n \<le> 1 then [] else qtb_internal_up n (log_doneLevel n) ident 0)"

section \<open>Participants\<close>

text \<open>A participant has the rest of its current call before it, and has left the barrier \<open>tround\<close> times.\<close>

record bar_part =
  trest :: "bar_act list"
  tround :: nat

record bar_sys =
  twords :: bar_words
  tparts :: "bar_part list"

text \<open>Participant \<open>k\<close> calls \<open>qt_barrier_enter_id\<close> with its own number again and again.\<close>

definition bar_step :: "(nat \<Rightarrow> bar_act list) \<Rightarrow> nat \<Rightarrow> bar_sys \<Rightarrow> bar_sys option" where
  "bar_step prog k s =
     do { c_assert (k < length (tparts s));
          case trest (tparts s ! k) of
            [] \<Rightarrow> Some (s\<lparr>tparts := (tparts s)[k := \<lparr>trest = prog k, tround = tround (tparts s ! k) + 1\<rparr>]\<rparr>)
          | a # as \<Rightarrow> do { w \<leftarrow> act_step a (twords s);
                         Some (s\<lparr>twords := w, tparts := (tparts s)[k := (tparts s ! k)\<lparr>trest := as\<rparr>]\<rparr>) } }"

definition bar_start :: "(nat \<Rightarrow> bar_act list) \<Rightarrow> nat \<Rightarrow> bar_sys" where
  "bar_start prog n = \<lparr>twords = \<lparr>upw = (\<lambda>_. False), downw = (\<lambda>_. False)\<rparr>,
     tparts = map (\<lambda>k. \<lparr>trest = prog k, tround = 0\<rparr>) [0..<n]\<rparr>"

text \<open>A run lets the participants of a list step one after the other.\<close>

primrec run_steps :: "(nat \<Rightarrow> 's \<Rightarrow> 's option) \<Rightarrow> nat list \<Rightarrow> 's \<Rightarrow> 's option" where
  "run_steps step [] s = Some s"
| "run_steps step (k # ks) s = do { s' \<leftarrow> step k s; run_steps step ks s' }"

text \<open>\<open>qt_barrier_enter\<close> of \<open>barrier/array.c\<close> numbers the calls with the counter \<open>participant\<close>. A participant outside of the
  barrier has nothing before it.\<close>

record count_sys = bar_sys +
  participant :: nat

definition count_step :: "nat \<Rightarrow> nat \<Rightarrow> count_sys \<Rightarrow> count_sys option" where
  "count_step n k s =
     do { c_assert (k < length (tparts s));
          case trest (tparts s ! k) of
            [] \<Rightarrow> Some (s\<lparr>tparts := (tparts s)[k := (tparts s ! k)\<lparr>trest := array_enter_id n (participant s mod n)\<rparr>],
                         participant := participant s + 1\<rparr>)
          | a # as \<Rightarrow> do { w \<leftarrow> act_step a (twords s);
                         Some (s\<lparr>twords := w, tparts := (tparts s)[k := \<lparr>trest = as, tround = tround (tparts s ! k) + (if as = [] then 1 else 0)\<rparr>]\<rparr>) } }"

definition count_start :: "nat \<Rightarrow> count_sys" where
  "count_start n = \<lparr>twords = \<lparr>upw = (\<lambda>_. False), downw = (\<lambda>_. False)\<rparr>, tparts = replicate n \<lparr>trest = [], tround = 0\<rparr>, participant = 0\<rparr>"

end
