(* ===== verification/Barrier_Tree.thy ===== *)
theory Barrier_Tree
  imports Barrier
begin

text \<open>
  Barriers over a tree, as an interface: participant \<open>i\<close> collects its children, reports to its parent and waits for it
  (unless it is the root), and wakes its children. Everything here follows from that shape.
\<close>

lemma run_steps_append: "run_steps step (ks @ ls) s = do { s' \<leftarrow> run_steps step ks s; run_steps step ls s' }"
proof (induction ks arbitrary: s)
  case (Cons k ks)
  then show ?case
    by (cases "step k s") simp_all
qed simp

lemma run_steps_invariant:
  assumes "\<And>k s s'. I s \<Longrightarrow> step k s = Some s' \<Longrightarrow> I s'" "I s" "run_steps step ks s = Some t"
  shows "I t"
  using assms(2,3) by (induction ks arbitrary: s) (auto simp: bind_eq_Some_iff dest: assms(1))

text \<open>How often participant \<open>i\<close> has done the access \<open>a\<close> of its program.\<close>

definition cnt :: "bar_sys \<Rightarrow> nat \<Rightarrow> bar_act \<Rightarrow> nat" where
  "cnt s i a = tround (tparts s ! i) + (if a \<in> set (trest (tparts s ! i)) then 0 else 1)"

text \<open>The order of the accesses in a call.\<close>

fun act_rank :: "bar_act \<Rightarrow> nat" where
  "act_rank (WaitUp i) = 0"
| "act_rank (SignalUp i) = 1"
| "act_rank (WaitDown i) = 2"
| "act_rank (SignalDown i) = 3"

text \<open>A word is full when it has been filled once more than emptied.\<close>

definition tree_inv :: "nat \<Rightarrow> (nat \<Rightarrow> bar_act list) \<Rightarrow> (nat \<Rightarrow> nat) \<Rightarrow> bar_sys \<Rightarrow> bool" where
  "tree_inv np prog par s \<longleftrightarrow> length (tparts s) = np \<and> (\<forall>i < np. \<exists>pre. prog i = pre @ trest (tparts s ! i))
     \<and> (\<forall>c. 0 < c \<longrightarrow> c < np \<longrightarrow>
          cnt s c (SignalUp c) = cnt s (par c) (WaitUp c) + (if upw (twords s) c then 1 else 0)
          \<and> cnt s (par c) (SignalDown c) = cnt s c (WaitDown c) + (if downw (twords s) c then 1 else 0))"

text \<open>The accesses that participant \<open>i\<close> has made, with one for each return.\<close>

definition acts_done :: "(nat \<Rightarrow> bar_act list) \<Rightarrow> bar_sys \<Rightarrow> nat \<Rightarrow> nat" where
  "acts_done prog s i = tround (tparts s ! i) * (length (prog i) + 1) + (length (prog i) - length (trest (tparts s ! i)))"

locale tree_barrier =
  fixes np :: nat
    and prog :: "nat \<Rightarrow> bar_act list"
    and kids :: "nat \<Rightarrow> nat list"
    and wakes :: "nat \<Rightarrow> nat list"
    and par :: "nat \<Rightarrow> nat"
  assumes shape: "i < np \<Longrightarrow>
      prog i = map WaitUp (kids i) @ (if i = 0 then [] else [SignalUp i, WaitDown i]) @ map SignalDown (wakes i)"
    and kids: "i < np \<Longrightarrow> distinct (kids i) \<and> set (kids i) = {c. 0 < c \<and> c < np \<and> par c = i}"
    and wakes: "i < np \<Longrightarrow> distinct (wakes i) \<and> set (wakes i) = set (kids i)"
    and par: "0 < c \<Longrightarrow> c < np \<Longrightarrow> par c < c"
begin

lemma distinct_prog: "i < np \<Longrightarrow> distinct (prog i)"
  using kids [of i] wakes [of i] by (auto simp: shape distinct_map inj_on_def)

lemma tree_prog:
  assumes "0 < c" "c < np"
  shows "par c < np" "SignalUp c \<in> set (prog c)" "WaitDown c \<in> set (prog c)" "WaitUp c \<in> set (prog (par c))"
    "SignalDown c \<in> set (prog (par c))"
  using assms par [OF assms] kids [of "par c"] wakes [of "par c"] by (auto simp: shape)

lemma prog_acts:
  assumes "i < np"
  shows "WaitUp c \<in> set (prog i) \<Longrightarrow> 0 < c \<and> c < np \<and> par c = i" "SignalDown c \<in> set (prog i) \<Longrightarrow> 0 < c \<and> c < np \<and> par c = i"
    "SignalUp c \<in> set (prog i) \<Longrightarrow> c = i \<and> 0 < i" "WaitDown c \<in> set (prog i) \<Longrightarrow> c = i \<and> 0 < i"
  using kids [OF assms] wakes [OF assms] by (auto simp: shape [OF assms] split: if_splits)

lemma start_inv: "tree_inv np prog par (bar_start prog np)"
  using tree_prog by (simp add: tree_inv_def bar_start_def cnt_def)

text \<open>The access at the head of a participant's list is counted once more after it, every other access as often as before.\<close>

lemma cnt_pop:
  assumes inv: "tree_inv np prog par s" and k: "k < np" "trest (tparts s ! k) = a # as" and i: "i < np"
    and s': "tparts s' = (tparts s)[k := (tparts s ! k)\<lparr>trest := as\<rparr>]"
  shows "cnt s' i b = cnt s i b + (if i = k \<and> b = a then 1 else 0)"
proof -
  obtain pre where "prog k = pre @ a # as"
    using inv k unfolding tree_inv_def by metis
  then have "a \<notin> set as"
    using distinct_prog [OF k(1)] by simp
  moreover have "length (tparts s) = np"
    using inv by (simp add: tree_inv_def)
  ultimately show ?thesis
    using k i by (cases "i = k") (auto simp: cnt_def s' nth_list_update)
qed

lemma cnt_enter:
  assumes "trest (tparts s ! k) = []" "k < length (tparts s)" "b \<in> set (prog i)"
    "tparts s' = (tparts s)[k := \<lparr>trest = prog k, tround = tround (tparts s ! k) + 1\<rparr>]"
  shows "cnt s' i b = cnt s i b"
  using assms by (auto simp: cnt_def nth_list_update)

text \<open>The effect of an access on the words fits its effect on the counts.\<close>

lemma act_balance:
  assumes w: "act_step a ws = Some w" and a: "a \<in> set (prog k)" and k: "k < np" and x: "0 < x" "x < np" and p: "par x \<noteq> x"
    and old: "su = wu + (if upw ws x then 1 else 0 :: nat)" "sd = wd + (if downw ws x then 1 else 0 :: nat)"
  shows "su + (if x = k \<and> SignalUp x = a then 1 else 0) = wu + (if par x = k \<and> WaitUp x = a then 1 else 0) + (if upw w x then 1 else 0)
    \<and> sd + (if par x = k \<and> SignalDown x = a then 1 else 0) = wd + (if x = k \<and> WaitDown x = a then 1 else 0) + (if downw w x then 1 else 0)"
proof (cases a)
  case (WaitUp c)
  then have "par c = k" "upw ws c" "w = ws\<lparr>upw := (upw ws)(c := False)\<rparr>"
    using w a prog_acts(1) [OF k] by (auto split: if_splits)
  then show ?thesis
    using WaitUp old by (cases "x = c") simp_all
next
  case (SignalUp c)
  then have "c = k" "\<not> upw ws c" "w = ws\<lparr>upw := (upw ws)(c := True)\<rparr>"
    using w a prog_acts(3) [OF k] by (auto split: if_splits)
  then show ?thesis
    using SignalUp old by (cases "x = c") simp_all
next
  case (WaitDown c)
  then have "c = k" "downw ws c" "w = ws\<lparr>downw := (downw ws)(c := False)\<rparr>"
    using w a prog_acts(4) [OF k] by (auto split: if_splits)
  then show ?thesis
    using WaitDown old by (cases "x = c") simp_all
next
  case (SignalDown c)
  then have "par c = k" "\<not> downw ws c" "w = ws\<lparr>downw := (downw ws)(c := True)\<rparr>"
    using w a prog_acts(2) [OF k] by (auto split: if_splits)
  then show ?thesis
    using SignalDown old by (cases "x = c") simp_all
qed

lemma step_inv:
  assumes inv: "tree_inv np prog par s" and st: "bar_step prog k s = Some s'"
  shows "tree_inv np prog par s'"
proof -
  have k: "k < np"
    using inv st by (simp add: bar_step_def tree_inv_def split: if_splits)
  show ?thesis
  proof (cases "trest (tparts s ! k)")
    case Nil
    then have s': "twords s' = twords s" "tparts s' = (tparts s)[k := \<lparr>trest = prog k, tround = tround (tparts s ! k) + 1\<rparr>]"
      using inv st by (auto simp: bar_step_def tree_inv_def split: if_splits)
    note c = cnt_enter [OF Nil _ _ s'(2)]
    show ?thesis
      using inv k c tree_prog unfolding tree_inv_def by (simp add: s' nth_list_update)
  next
    case (Cons a as)
    then obtain w where w: "act_step a (twords s) = Some w" and s': "twords s' = w" "tparts s' = (tparts s)[k := (tparts s ! k)\<lparr>trest := as\<rparr>]"
      using inv st k by (auto simp: bar_step_def tree_inv_def bind_eq_Some_iff)
    note c = cnt_pop [OF inv k Cons _ s'(2)]
    obtain pre where pre: "prog k = pre @ a # as"
      using inv k Cons unfolding tree_inv_def by metis
    then have a: "a \<in> set (prog k)"
      by simp
    have suffix: "\<exists>pre. prog i = pre @ trest (tparts s' ! i)" if "i < np" for i
    proof (cases "i = k")
      case True
      then show ?thesis
        using inv k pre by (auto simp: s'(2) tree_inv_def intro!: exI [of _ "pre @ [a]"])
    qed (use inv k that in \<open>simp add: s'(2) tree_inv_def\<close>)
    have words: "cnt s' x (SignalUp x) = cnt s' (par x) (WaitUp x) + (if upw w x then 1 else 0)
        \<and> cnt s' (par x) (SignalDown x) = cnt s' x (WaitDown x) + (if downw w x then 1 else 0)" if x: "0 < x" "x < np" for x
    proof -
      have p: "par x < np" "par x \<noteq> x"
        using tree_prog(1) [OF x] par [OF x] by auto
      have old: "cnt s x (SignalUp x) = cnt s (par x) (WaitUp x) + (if upw (twords s) x then 1 else 0)"
          "cnt s (par x) (SignalDown x) = cnt s x (WaitDown x) + (if downw (twords s) x then 1 else 0)"
        using inv x by (simp_all add: tree_inv_def)
      show ?thesis
        unfolding c [OF x(2)] c [OF p(1)] by (rule act_balance [OF w a k x p(2) old])
    qed
    show ?thesis
      using inv suffix words by (simp add: tree_inv_def s')
  qed
qed

text \<open>Accesses of lower rank come first.\<close>

lemma sorted_prog: "i < np \<Longrightarrow> sorted (map act_rank (prog i))"
  by (simp add: shape sorted_append o_def map_replicate_const)

lemma rest_suffix:
  assumes inv: "tree_inv np prog par s" and i: "i < np" and b: "b \<in> set (prog i)" and a: "a \<in> set (trest (tparts s ! i))"
    and r: "act_rank a < act_rank b"
  shows "b \<in> set (trest (tparts s ! i))"
proof -
  obtain pre where p: "prog i = pre @ trest (tparts s ! i)"
    using inv i by (auto simp: tree_inv_def)
  have "b \<notin> set pre"
    using sorted_prog [OF i] a r unfolding p by (fastforce simp: sorted_append)
  then show ?thesis
    using b unfolding p by simp
qed

lemma cnt_order:
  assumes "tree_inv np prog par s" "i < np" "b \<in> set (prog i)" "act_rank a < act_rank b"
  shows "cnt s i b \<le> cnt s i a"
  using rest_suffix [OF assms(1-3) _ assms(4)] by (auto simp: cnt_def)

lemma head_order:
  assumes inv: "tree_inv np prog par s" and i: "i < np" and h: "trest (tparts s ! i) = b # bs" and r: "act_rank a < act_rank b"
  shows "cnt s i a = tround (tparts s ! i) + 1" "cnt s i b = tround (tparts s ! i)"
proof -
  obtain pre where p: "prog i = pre @ b # bs"
    using inv i h by (auto simp: tree_inv_def)
  have "a \<notin> set (b # bs)"
    using sorted_prog [OF i] r unfolding p by (auto simp: sorted_append)
  then show "cnt s i a = tround (tparts s ! i) + 1" "cnt s i b = tround (tparts s ! i)"
    using h by (simp_all add: cnt_def)
qed

lemma words_count:
  assumes "tree_inv np prog par s" "0 < c" "c < np"
  shows "cnt s c (SignalUp c) = cnt s (par c) (WaitUp c) + (if upw (twords s) c then 1 else 0)"
    "cnt s (par c) (SignalDown c) = cnt s c (WaitDown c) + (if downw (twords s) c then 1 else 0)"
  using assms by (simp_all add: tree_inv_def)

section \<open>No participant overtakes another\<close>

lemma released_by_root:
  assumes inv: "tree_inv np prog par s" and "0 < i" "i < np" "r \<le> cnt s i (WaitDown i)" and c: "0 < c" "c < np" "par c = 0"
  shows "r \<le> cnt s 0 (WaitUp c)"
  using assms(2-4)
proof (induction i rule: less_induct)
  case (less i)
  note p = tree_prog [OF less.prems(1,2)] and w = words_count [OF inv less.prems(1,2)]
  have sd: "r \<le> cnt s (par i) (SignalDown i)"
    using w(2) less.prems(3) by simp
  show ?case
  proof (cases "par i = 0")
    case True
    then show ?thesis
      using sd cnt_order [OF inv p(1,5), of "WaitUp c"] by simp
  next
    case False
    then show ?thesis
      using sd cnt_order [OF inv p(1,5), of "WaitDown (par i)"] less.IH [of "par i"] par [OF less.prems(1,2)] p(1) by simp
  qed
qed

lemma all_reported:
  assumes inv: "tree_inv np prog par s" and root: "\<And>c. 0 < c \<Longrightarrow> c < np \<Longrightarrow> par c = 0 \<Longrightarrow> r \<le> cnt s 0 (WaitUp c)" and "0 < j" "j < np"
  shows "r \<le> cnt s j (SignalUp j)"
  using assms(3,4)
proof (induction j rule: less_induct)
  case (less j)
  note p = tree_prog [OF less.prems] and w = words_count [OF inv less.prems]
  show ?case
  proof (cases "par j = 0")
    case True
    then show ?thesis
      using root [OF less.prems] w(1) by simp
  next
    case False
    then have "r \<le> cnt s (par j) (SignalUp (par j))" "SignalUp (par j) \<in> set (prog (par j))"
      using less.IH [of "par j"] par [OF less.prems] p(1) tree_prog(2) [of "par j"] by simp_all
    then show ?thesis
      using w(1) cnt_order [OF inv p(1), of "SignalUp (par j)" "WaitUp j"] by simp
  qed
qed

text \<open>When some participant has left its call number \<open>r\<close>, every other one has begun its own.\<close>

lemma tree_safe:
  assumes inv: "tree_inv np prog par s" and i: "i < np" "r < tround (tparts s ! i)" and j: "j < np"
  shows "r < tround (tparts s ! j) \<or> r = tround (tparts s ! j) \<and> trest (tparts s ! j) \<noteq> prog j"
proof -
  have root: "Suc r \<le> cnt s 0 (WaitUp c)" if "0 < c" "c < np" "par c = 0" for c
    using i released_by_root [OF inv _ i(1) _ that, of "Suc r"] by (cases "i = 0") (auto simp: cnt_def)
  have begun: "?thesis" if "Suc r \<le> cnt s j a" "a \<in> set (prog j)" for a
    using that by (auto simp: cnt_def split: if_splits)
  show ?thesis
  proof (cases "j = 0")
    case False
    have "Suc r \<le> cnt s j (SignalUp j)"
      by (rule all_reported [OF inv root]) (use False j in auto)
    then show ?thesis
      using begun tree_prog(2) False j by blast
  next
    case True
    show ?thesis
    proof (cases "i = 0")
      case True
      then show ?thesis
        using i(2) \<open>j = 0\<close> by simp
    next
      case False
      then have one: "0 < (1 :: nat)" "1 < np" "par 1 = 0"
        using i(1) par [of 1] by auto
      then show ?thesis
        using begun [of "WaitUp 1"] root [OF one] tree_prog(4) [OF one(1,2)] \<open>j = 0\<close> by simp
    qed
  qed
qed

section \<open>Some participant can go on\<close>

lemma blocked_head:
  assumes inv: "tree_inv np prog par s" and i: "i < np" and b: "bar_step prog i s = None"
  shows "\<exists>a as. trest (tparts s ! i) = a # as \<and> act_step a (twords s) = None \<and> a \<in> set (prog i)"
proof -
  obtain pre where pre: "prog i = pre @ trest (tparts s ! i)"
    using inv i by (auto simp: tree_inv_def)
  have "i < length (tparts s)"
    using inv i by (simp add: tree_inv_def)
  then obtain a as where h: "trest (tparts s ! i) = a # as" "act_step a (twords s) = None"
    using b by (cases "trest (tparts s ! i)") (auto simp: bar_step_def bind_eq_None_conv)
  then show ?thesis
    using pre by (metis in_set_conv_decomp)
qed

lemma signal_never_blocks:
  assumes inv: "tree_inv np prog par s" and i: "i < np" and h: "trest (tparts s ! i) = a # as" "act_step a (twords s) = None" "a \<in> set (prog i)"
  shows "act_rank a = 0 \<or> act_rank a = 2"
proof (cases a)
  case (SignalUp c)
  then have c: "c = i" "0 < i" "upw (twords s) i"
    using h prog_acts(3) [OF i] by (auto split: if_splits)
  note p = tree_prog [OF c(2) i] and w = words_count [OF inv c(2) i]
  have "cnt s i (WaitDown i) = tround (tparts s ! i)" "cnt s i (SignalUp i) = tround (tparts s ! i)"
    using rest_suffix [OF inv i p(3), of "SignalUp i"] h(1) SignalUp c(1) by (simp_all add: cnt_def)
  then show ?thesis
    using w c(3) cnt_order [OF inv p(1,5), of "WaitUp i"] by simp
next
  case (SignalDown c)
  then have c: "0 < c" "c < np" "par c = i" "downw (twords s) c"
    using h prog_acts(2) [OF i] by (auto split: if_splits)
  note w = words_count [OF inv c(1,2)] and o = head_order [OF inv i h(1), of "WaitUp c"]
  have "cnt s c (SignalUp c) \<le> tround (tparts s ! c) + 1" "tround (tparts s ! c) \<le> cnt s c (WaitDown c)"
    by (simp_all add: cnt_def)
  then show ?thesis
    using w c(3,4) o SignalDown by simp
qed simp_all

text \<open>Who waits for a child that has not reported waits for one that waits for a child itself.\<close>

lemma waits_for_waiting:
  assumes inv: "tree_inv np prog par s" and all: "\<And>k. k < np \<Longrightarrow> bar_step prog k s = None"
    and i: "i < np" and h: "trest (tparts s ! i) = WaitUp c # as"
  shows "\<exists>d bs. trest (tparts s ! c) = WaitUp d # bs \<and> i < c \<and> c < np"
proof -
  obtain a' as' where "trest (tparts s ! i) = a' # as'" "act_step a' (twords s) = None" "a' \<in> set (prog i)"
    using blocked_head [OF inv i all [OF i]] by blast
  then have e: "\<not> upw (twords s) c" "0 < c" "c < np" "par c = i"
    using h prog_acts(1) [OF i, of c] by (auto split: if_splits)
  note w = words_count [OF inv e(2,3)]
  obtain b bs where b: "trest (tparts s ! c) = b # bs" "act_step b (twords s) = None" "b \<in> set (prog c)"
    using blocked_head [OF inv e(3) all [OF e(3)]] by blast
  have "act_rank b = 0"
  proof (rule ccontr)
    assume "act_rank b \<noteq> 0"
    then have "act_rank b = 2"
      using signal_never_blocks [OF inv e(3) b] by simp
    then have d: "b = WaitDown c" "\<not> downw (twords s) c"
      using b(2,3) prog_acts(4) [OF e(3)] by (cases b; auto split: if_splits)+
    have "cnt s c (SignalUp c) = tround (tparts s ! c) + 1" "cnt s c (WaitDown c) = tround (tparts s ! c)"
      using head_order [OF inv e(3) b(1), of "SignalUp c"] d(1) by simp_all
    moreover have "cnt s i (WaitUp c) = tround (tparts s ! i)" "tround (tparts s ! i) \<le> cnt s i (SignalDown c)"
      using h by (simp_all add: cnt_def)
    ultimately show False
      using w e(1,4) d(2) by simp
  qed
  then show ?thesis
    using b(1) e(2-4) par [OF e(2,3)] by (cases b) auto
qed

lemma tree_progress:
  assumes inv: "tree_inv np prog par s" and "0 < np"
  shows "\<exists>k < np. bar_step prog k s \<noteq> None"
proof (rule ccontr)
  assume "\<not> (\<exists>k < np. bar_step prog k s \<noteq> None)"
  then have all: "\<And>k. k < np \<Longrightarrow> bar_step prog k s = None"
    by blast
  have no_wait: "i < np \<Longrightarrow> trest (tparts s ! i) \<noteq> WaitUp c # as" for i c as
  proof (induction "np - i" arbitrary: i c as rule: less_induct)
    case less
    show ?case
    proof
      assume "trest (tparts s ! i) = WaitUp c # as"
      then obtain d bs where "trest (tparts s ! c) = WaitUp d # bs" "i < c" "c < np"
        using waits_for_waiting [OF inv all less.prems] by blast
      then show False
        using less.hyps [of c] by simp
    qed
  qed
  obtain a as where h: "trest (tparts s ! 0) = a # as" "act_step a (twords s) = None" "a \<in> set (prog 0)"
    using blocked_head [OF inv assms(2) all [OF assms(2)]] by blast
  have "act_rank a = 0 \<or> act_rank a = 2"
    by (rule signal_never_blocks [OF inv assms(2) h])
  then show False
    using no_wait [OF assms(2)] h prog_acts(4) [OF assms(2)] by (cases a) auto
qed

section \<open>Every participant gets through\<close>

lemma rounds_close:
  assumes inv: "tree_inv np prog par s" and i: "i < np" and j: "j < np"
  shows "tround (tparts s ! i) \<le> tround (tparts s ! j) + 1"
  using tree_safe [OF inv i _ j, of "tround (tparts s ! i) - 1"] by fastforce

lemma step_done:
  assumes inv: "tree_inv np prog par s" and st: "bar_step prog k s = Some s'"
  shows "(\<Sum>i<np. acts_done prog s' i) = (\<Sum>i<np. acts_done prog s i) + 1"
proof -
  have k: "k < np" "k < length (tparts s)"
    using inv st by (simp_all add: bar_step_def tree_inv_def split: if_splits)
  obtain pre where pre: "prog k = pre @ trest (tparts s ! k)"
    using inv k by (auto simp: tree_inv_def)
  have own: "acts_done prog s' k = acts_done prog s k + 1"
  proof (cases "trest (tparts s ! k)")
    case Nil
    then show ?thesis
      using st k by (auto simp: bar_step_def acts_done_def)
  next
    case (Cons a as)
    then show ?thesis
      using st k arg_cong [OF pre, of length] by (auto simp: bar_step_def acts_done_def bind_eq_Some_iff)
  qed
  have other: "acts_done prog s' i = acts_done prog s i" if "i \<noteq> k" for i
    using st k that by (auto simp: bar_step_def acts_done_def bind_eq_Some_iff split: list.splits)
  have "(\<Sum>i<np. acts_done prog s' i) = (\<Sum>i<np. acts_done prog s i + (if i = k then 1 else 0))"
    by (rule sum.cong) (use own other in auto)
  then show ?thesis
    using k(1) by (simp add: sum.distrib)
qed

lemma run_done:
  assumes "run_steps (bar_step prog) ks s = Some t" "tree_inv np prog par s"
  shows "tree_inv np prog par t \<and> (\<Sum>i<np. acts_done prog t i) = (\<Sum>i<np. acts_done prog s i) + length ks"
  using assms
proof (induction ks arbitrary: s)
  case (Cons k ks)
  then obtain u where u: "bar_step prog k s = Some u" "run_steps (bar_step prog) ks u = Some t"
    by (auto simp: bind_eq_Some_iff)
  then show ?case
    using Cons.IH [OF u(2)] step_inv [OF Cons.prems(2) u(1)] step_done [OF Cons.prems(2) u(1)] by simp
qed simp

lemma tree_live:
  assumes run: "run_steps (bar_step prog) ks (bar_start prog np) = Some s" and j: "j < np"
  shows "length ks \<le> (tround (tparts s ! j) + 2) * (\<Sum>i<np. length (prog i) + 1)"
proof -
  have inv: "tree_inv np prog par s" and n: "(\<Sum>i<np. acts_done prog s i) = (\<Sum>i<np. acts_done prog (bar_start prog np) i) + length ks"
    using run_done [OF run start_inv] by simp_all
  have "acts_done prog s i \<le> (tround (tparts s ! j) + 2) * (length (prog i) + 1)" if "i < np" for i
  proof -
    have "acts_done prog s i \<le> (tround (tparts s ! i) + 1) * (length (prog i) + 1)"
      by (simp add: acts_done_def)
    also have "\<dots> \<le> (tround (tparts s ! j) + 2) * (length (prog i) + 1)"
      by (rule mult_le_mono1) (use rounds_close [OF inv that j] in simp)
    finally show ?thesis .
  qed
  then have "(\<Sum>i<np. acts_done prog s i) \<le> (\<Sum>i<np. (tround (tparts s ! j) + 2) * (length (prog i) + 1))"
    by (intro sum_mono) simp
  then show ?thesis
    using n unfolding sum_distrib_left [symmetric] by simp
qed

text \<open>All that a barrier promises.\<close>

lemma tree_correct:
  assumes run: "run_steps (bar_step prog) ks (bar_start prog np) = Some s" and i: "i < np" and j: "j < np"
  shows "(r < tround (tparts s ! i) \<longrightarrow> r < tround (tparts s ! j) \<or> r = tround (tparts s ! j) \<and> trest (tparts s ! j) \<noteq> prog j)
    \<and> (\<exists>k < np. bar_step prog k s \<noteq> None)
    \<and> length ks \<le> (tround (tparts s ! j) + 2) * (\<Sum>i<np. length (prog i) + 1)"
proof -
  have inv: "tree_inv np prog par s"
    using run_done [OF run start_inv] by simp
  have "0 < np"
    using i by simp
  then show ?thesis
    using tree_safe [OF inv i _ j] tree_progress [OF inv] tree_live [OF run j] by blast
qed

end

end
