(* ===== verification/Barrier_Props.thy ===== *)
theory Barrier_Props
  imports Barrier_Tree
begin

unbundle bit_operations_syntax

text \<open>The barriers of \<open>barrier/array.c\<close> and \<open>barrier/log.c\<close> are trees; the barrier with two gates has an invariant of its own.\<close>

section \<open>The array barrier\<close>

definition array_kids :: "nat \<Rightarrow> nat \<Rightarrow> nat list" where
  "array_kids n i = filter (\<lambda>c. c < n) [2 * i + 1, 2 * i + 2]"

definition array_par :: "nat \<Rightarrow> nat" where
  "array_par c = (c - 1) div 2"

interpretation array: tree_barrier n "array_enter_id n" "array_kids n" "array_kids n" array_par for n
proof
  show "array_enter_id n i
      = map WaitUp (array_kids n i) @ (if i = 0 then [] else [SignalUp i, WaitDown i]) @ map SignalDown (array_kids n i)" for i
    by (simp add: array_enter_id_def array_kids_def Let_def)
  show "distinct (array_kids n i) \<and> set (array_kids n i) = {c. 0 < c \<and> c < n \<and> array_par c = i}" for i
    by (auto simp: array_kids_def array_par_def)
qed (auto simp: array_par_def array_kids_def)

section \<open>The logarithmic barrier\<close>

text \<open>The lowest bit of a number, and the number without it.\<close>

definition low :: "nat \<Rightarrow> nat" where
  "low c = (LEAST l. bit c l)"

definition log_par :: "nat \<Rightarrow> nat" where
  "log_par c = c - 2 ^ low c"

lemma low_facts:
  assumes "0 < c"
  shows "bit c (low c)" "l < low c \<Longrightarrow> \<not> bit c l" "2 ^ low c \<le> c"
proof -
  have "\<exists>l. bit c l"
    using assms by (metis bit_0_eq bot_apply bit_eqI bot_bool_def less_irrefl)
  then show b: "bit c (low c)"
    unfolding low_def by (rule LeastI_ex)
  show "l < low c \<Longrightarrow> \<not> bit c l"
    unfolding low_def by (rule not_less_Least)
  show "2 ^ low c \<le> c"
    by (rule bit_le [OF b])
qed

lemma low_eqI: "bit c l \<Longrightarrow> (\<And>k. k < l \<Longrightarrow> \<not> bit c k) \<Longrightarrow> low c = l"
  unfolding low_def by (rule Least_equality) (auto simp: not_less [symmetric])

lemma bit_add_pow:
  assumes "\<not> bit i l"
  shows "bit (i + 2 ^ l) k \<longleftrightarrow> bit (i :: nat) k \<or> k = l"
proof -
  have "i + 2 ^ l = i XOR 2 ^ l"
    using assms by (simp add: xor_bit)
  then show ?thesis
    using assms by (auto simp: bit_xor_iff bit_exp_iff)
qed

lemma log_par_facts:
  assumes "0 < c"
  shows "c = log_par c + 2 ^ low c" "k \<le> low c \<Longrightarrow> \<not> bit (log_par c) k" "log_par c < c"
proof -
  note f = low_facts [OF assms]
  show "c = log_par c + 2 ^ low c" "log_par c < c"
    using f(3) assms by (simp_all add: log_par_def)
  have "log_par c = c XOR 2 ^ low c"
    using f(1) by (simp add: log_par_def xor_bit)
  then show "k \<le> low c \<Longrightarrow> \<not> bit (log_par c) k"
    using f(1,2) by (auto simp: bit_xor_iff bit_exp_iff le_less)
qed

lemma log_par_child:
  assumes "\<And>k. k \<le> l \<Longrightarrow> \<not> bit i k"
  shows "log_par (i + 2 ^ l) = i"
proof -
  have "low (i + 2 ^ l) = l"
    by (rule low_eqI) (use assms in \<open>simp_all add: bit_add_pow\<close>)
  then show ?thesis
    by (simp add: log_par_def)
qed

text \<open>The level at which participant \<open>i\<close> stops climbing.\<close>

definition log_stop :: "nat \<Rightarrow> nat \<Rightarrow> nat" where
  "log_stop n i = (LEAST l. bit i l \<or> n \<le> i + 2 ^ l)"

lemma log_stop_facts:
  "bit i (log_stop n i) \<or> n \<le> i + 2 ^ log_stop n i" "l < log_stop n i \<Longrightarrow> \<not> bit i l \<and> i + 2 ^ l < n"
proof -
  have "n \<le> i + 2 ^ n"
    using less_exp [of n] by linarith
  then have ex: "\<exists>l. bit i l \<or> n \<le> i + 2 ^ l"
    by blast
  show "bit i (log_stop n i) \<or> n \<le> i + 2 ^ log_stop n i"
    unfolding log_stop_def by (rule LeastI_ex [OF ex])
  have "l < log_stop n i \<Longrightarrow> \<not> (bit i l \<or> n \<le> i + 2 ^ l)"
    unfolding log_stop_def by (rule not_less_Least)
  then show "l < log_stop n i \<Longrightarrow> \<not> bit i l \<and> i + 2 ^ l < n"
    by simp
qed

definition log_kids :: "nat \<Rightarrow> nat \<Rightarrow> nat list" where
  "log_kids n i = map (\<lambda>l. i + 2 ^ l) [0..<log_stop n i]"

lemma set_log_kids: "set (log_kids n i) = {c. 0 < c \<and> c < n \<and> log_par c = i}"
proof (intro set_eqI iffI)
  fix c
  assume "c \<in> set (log_kids n i)"
  then obtain l where l: "l < log_stop n i" "c = i + 2 ^ l"
    by (auto simp: log_kids_def)
  then have "log_par c = i"
    using log_stop_facts(2) [of _ n i] by (simp add: log_par_child)
  then show "c \<in> {c. 0 < c \<and> c < n \<and> log_par c = i}"
    using l log_stop_facts(2) [OF l(1)] by simp
next
  fix c
  assume "c \<in> {c. 0 < c \<and> c < n \<and> log_par c = i}"
  then have c: "0 < c" "c < n" "log_par c = i"
    by auto
  note f = log_par_facts [OF c(1)]
  have "low c < log_stop n i"
  proof (rule ccontr)
    assume "\<not> low c < log_stop n i"
    then have le: "log_stop n i \<le> low c"
      by simp
    have "2 ^ log_stop n i \<le> (2 :: nat) ^ low c"
      by (rule power_increasing [OF le]) simp
    then have "i + 2 ^ log_stop n i \<le> c"
      using f(1) c(3) by linarith
    then show False
      using log_stop_facts(1) [of i n] f(2) [OF le] c(2,3) by simp
  qed
  then show "c \<in> set (log_kids n i)"
    using f(1) c(3) by (auto simp: log_kids_def)
qed

lemma distinct_log_kids: "distinct (log_kids n i)"
  by (simp add: log_kids_def distinct_map inj_on_def)

text \<open>The programs of the logarithmic barrier have the shape of a tree.\<close>

lemma down_all:
  assumes "\<And>l. l < Suc k \<Longrightarrow> \<not> bit i l \<and> i + 2 ^ l < n"
  shows "qtb_internal_down n i k = map SignalDown (rev (map (\<lambda>l. i + 2 ^ l) [0..<Suc k]))"
  using assms
proof (induction k)
  case 0
  then show ?case
    using xor_bit [of i 0] by (auto simp: Let_def)
next
  case (Suc k)
  have "i XOR 2 ^ Suc k = i + 2 ^ Suc k" "i + 2 ^ Suc k < n"
    using Suc.prems [of "Suc k"] by (simp_all add: xor_bit del: power_Suc)
  then show ?case
    using Suc by (simp add: Let_def del: power_Suc)
qed

lemma down_stop:
  assumes "0 < log_stop n i"
  shows "qtb_internal_down n i (log_stop n i) = map SignalDown (rev (log_kids n i))"
proof -
  obtain k where k: "log_stop n i = Suc k"
    using assms by (cases "log_stop n i") auto
  have "\<not> (i XOR 2 ^ Suc k < n \<and> i < i XOR 2 ^ Suc k)"
    using log_stop_facts(1) [of i n] unfolding k by (auto simp: xor_bit simp del: power_Suc)
  then show ?thesis
    using down_all [of k i n] log_stop_facts(2) [of _ n i] unfolding k by (simp add: Let_def log_kids_def k del: power_Suc)
qed

lemma up_climbs:
  assumes "i \<noteq> 0" "level \<le> log_stop n i"
  shows "qtb_internal_up n d i level = map WaitUp (map (\<lambda>l. i + 2 ^ l) [level..<log_stop n i]) @ [SignalUp i, WaitDown i]
    @ map SignalDown (rev (log_kids n i))"
  using assms(2)
proof (induction "log_stop n i - level" arbitrary: level)
  case 0
  then have e: "level = log_stop n i"
    by simp
  have "n \<le> i XOR 2 ^ level \<or> i XOR 2 ^ level < i"
    using log_stop_facts(1) [of i n] assms(1) unfolding e by (cases "bit i (log_stop n i)") (simp_all add: xor_bit)
  then show ?case
    using down_stop [of n i] e by (subst qtb_internal_up.simps) (auto simp: Let_def log_kids_def)
next
  case (Suc k)
  then have l: "\<not> bit i level" "i + 2 ^ level < n" "level < log_stop n i"
    using log_stop_facts(2) [of level n i] by auto
  then show ?case
    using Suc.hyps(1) [of "Suc level"] Suc.hyps(2) assms(1)
    by (subst qtb_internal_up.simps) (simp add: Let_def xor_bit upt_conv_Cons)
qed

text \<open>The root climbs to the height of the tree.\<close>

lemma depth_loop_bounds:
  "d \<le> depth_loop t d \<and> t < 2 ^ (depth_loop t d - d) \<and> (t \<noteq> 0 \<longrightarrow> d < depth_loop t d \<and> 2 ^ (depth_loop t d - Suc d) \<le> t)"
proof (induction t d rule: depth_loop.induct)
  case (1 t d)
  show ?case
  proof (cases "t = 0")
    case True
    then show ?thesis
      by (subst (1 2 3 4) depth_loop.simps) simp
  next
    case False
    let ?x = "depth_loop (t div 2) (Suc d)"
    have x: "depth_loop t d = ?x"
      using False by (subst depth_loop.simps) (simp add: drop_bit_Suc)
    have ih: "Suc d \<le> ?x" "t div 2 < 2 ^ (?x - Suc d)" "t div 2 \<noteq> 0 \<Longrightarrow> 2 ^ (?x - Suc (Suc d)) \<le> t div 2 \<and> Suc d < ?x"
      using 1 [OF False] by (simp_all add: drop_bit_Suc)
    have up: "(2 :: nat) ^ (?x - d) = 2 * 2 ^ (?x - Suc d)"
      using ih(1) by (metis Suc_diff_Suc Suc_le_eq power_Suc)
    have "2 ^ (?x - Suc d) \<le> t"
    proof (cases "t div 2 = 0")
      case True
      then have "?x = Suc d"
        by (subst depth_loop.simps) simp
      then show ?thesis
        using False by simp
    next
      case ne: False
      then have "(2 :: nat) ^ (?x - Suc d) = 2 * 2 ^ (?x - Suc (Suc d))"
        using ih(3) by (metis Suc_diff_Suc power_Suc)
      then show ?thesis
        using ih(3) [OF ne] by linarith
    qed
    then show ?thesis
      using ih(1,2) up unfolding x by linarith
  qed
qed

lemma log_stop_root:
  assumes "1 < n"
  shows "log_stop n 0 = log_doneLevel n" "0 < log_doneLevel n"
proof -
  let ?t = "(n - 1) div 2" and ?d = "log_doneLevel n"
  have d: "?d = depth_loop ?t 1"
    by (simp add: log_doneLevel_def drop_bit_Suc)
  note b = depth_loop_bounds [of 1 ?t, folded d]
  show pos: "0 < ?d"
    using b by simp
  then have up: "(2 :: nat) ^ ?d = 2 * 2 ^ (?d - 1)"
    by (metis Suc_diff_1 power_Suc)
  have hi: "n \<le> 2 ^ ?d"
    using b up by linarith
  have lo: "2 ^ (?d - 1) < n"
  proof (cases "?t = 0")
    case True
    then have "?d = 1"
      unfolding d by (subst depth_loop.simps) simp
    then show ?thesis
      using assms by simp
  next
    case False
    then have "(2 :: nat) ^ (?d - 1) = 2 * 2 ^ (?d - Suc 1)"
      using b by (metis Suc_diff_Suc One_nat_def power_Suc)
    then show ?thesis
      using b False by linarith
  qed
  have "\<not> n \<le> 2 ^ l" if "l < ?d" for l
  proof -
    have "(2 :: nat) ^ l \<le> 2 ^ (?d - 1)"
      using that by (intro power_increasing) auto
    then show ?thesis
      using lo by linarith
  qed
  then show "log_stop n 0 = ?d"
    unfolding log_stop_def using hi by (intro Least_equality) (auto simp: not_less [symmetric])
qed

lemma up_root:
  assumes n: "1 < n" and l: "level < log_doneLevel n"
  shows "qtb_internal_up n (log_doneLevel n) 0 level
    = map WaitUp (map (\<lambda>l. 2 ^ l) [level..<log_doneLevel n]) @ map SignalDown (rev (log_kids n 0))"
  using l
proof (induction "log_doneLevel n - level" arbitrary: level)
  case (Suc k)
  note s = log_stop_facts(2) [of _ n 0, unfolded log_stop_root(1) [OF n]]
  have less: "2 ^ level < n" "(0 :: nat) XOR 2 ^ level = 2 ^ level"
    using s [OF Suc.prems] by simp_all
  show ?case
  proof (cases "Suc level < log_doneLevel n")
    case True
    then show ?thesis
      using Suc.hyps(1) [of "Suc level"] Suc.hyps(2) less Suc.prems
      by (subst qtb_internal_up.simps) (simp add: Let_def upt_conv_Cons)
  next
    case False
    then have e: "log_doneLevel n = Suc level"
      using Suc.prems by simp
    have "qtb_internal_down n 0 level = map SignalDown (rev (log_kids n 0))"
      using down_all [of level 0 n] s unfolding log_kids_def log_stop_root(1) [OF n] e by simp
    then show ?thesis
      using less e by (subst qtb_internal_up.simps) (simp add: Let_def)
  qed
qed simp

interpretation logbar: tree_barrier n "log_enter_id n" "log_kids n" "\<lambda>i. rev (log_kids n i)" log_par for n
proof
  show "log_enter_id n i
      = map WaitUp (log_kids n i) @ (if i = 0 then [] else [SignalUp i, WaitDown i]) @ map SignalDown (rev (log_kids n i))"
    if i: "i < n" for i
  proof (cases "n \<le> 1")
    case True
    then have "log_stop n i = 0"
      using i log_stop_facts(2) [of 0 n i] by auto
    then show ?thesis
      using True i by (simp add: log_enter_id_def log_kids_def)
  next
    case False
    then have n: "1 < n"
      by simp
    show ?thesis
    proof (cases "i = 0")
      case True
      then show ?thesis
        using n up_root [OF n, of 0] log_stop_root [OF n] by (simp add: log_enter_id_def log_kids_def)
    next
      case ne: False
      then show ?thesis
        using n up_climbs [OF ne, of 0 n] by (simp add: log_enter_id_def log_kids_def)
    qed
  qed
  show "distinct (log_kids n i) \<and> set (log_kids n i) = {c. 0 < c \<and> c < n \<and> log_par c = i}" for i
    by (simp add: distinct_log_kids set_log_kids)
qed (simp_all add: distinct_log_kids log_par_facts(3))

section \<open>Properties of the tree barriers\<close>

text \<open>
  C34. (\<open>barrier/array.c\<close> and \<open>barrier/log.c\<close>, \<open>qt_barrier_enter_id\<close>.) With \<open>n\<close> participants that enter with their own numbers again
  and again, in every interleaving of their accesses to the words: when one has left its call number \<open>r\<close>, every
  other one has begun its call number \<open>r\<close> (no one passes before all have arrived); some participant can always go on;
  and the number of steps taken is bounded by the progress of the slowest participant, so that nobody is left behind.
\<close>

theorem tree_barriers_correct:
  assumes "prog = array_enter_id n \<or> prog = log_enter_id n" "run_steps (bar_step prog) ks (bar_start prog n) = Some s" "i < n" "j < n"
  shows "(r < tround (tparts s ! i) \<longrightarrow> r < tround (tparts s ! j) \<or> r = tround (tparts s ! j) \<and> trest (tparts s ! j) \<noteq> prog j)
    \<and> (\<exists>k < n. bar_step prog k s \<noteq> None)
    \<and> length ks \<le> (tround (tparts s ! j) + 2) * (\<Sum>i<n. length (prog i) + 1)"
  using assms array.tree_correct logbar.tree_correct by blast

text \<open>Three participants of the logarithmic barrier, until the first of them has left it.\<close>

theorem tree_barriers_correct_witness:
  "\<exists>s. run_steps (bar_step (log_enter_id 3)) [1, 2, 0, 0, 0, 0, 0] (bar_start (log_enter_id 3) 3) = Some s
    \<and> tround (tparts s ! 0) = 1 \<and> tround (tparts s ! 1) = 0 \<and> trest (tparts s ! 1) \<noteq> log_enter_id 3 1"
proof -
  have "map_option (\<lambda>s. (tround (tparts s ! 0), tround (tparts s ! 1)))
      (run_steps (bar_step (log_enter_id 3)) [1, 2, 0, 0, 0, 0, 0] (bar_start (log_enter_id 3) 3)) = Some (1, 0)"
    by code_simp
  then show ?thesis
    using tree_barriers_correct [of "log_enter_id 3" 3 "[1, 2, 0, 0, 0, 0, 0]" _ 0 1 0] by fastforce
qed

text \<open>
  (\<open>barrier/array.c\<close>, \<open>qt_barrier_enter\<close>.) The same barrier entered through \<open>qt_barrier_enter\<close>, which numbers the calls with a
  counter, is not a barrier: with three participants there is a run in which one has left its second call while
  another is still inside its first one, because the second call of a fast participant gets the number of a slow
  one and takes the signal that was meant for it.
\<close>

lemma counted_array_barrier_overtakes:
  "\<exists>ks s. run_steps (count_step 3) ks (count_start 3) = Some s
    \<and> tround (tparts s ! 2) = 2 \<and> tround (tparts s ! 1) = 0 \<and> trest (tparts s ! 1) \<noteq> []"
proof -
  have "map_option (\<lambda>s. (tround (tparts s ! 2), tround (tparts s ! 1), trest (tparts s ! 1)))
      (run_steps (count_step 3) [0, 1, 2, 1, 2, 0, 0, 0, 0, 2, 0, 2, 2, 2] (count_start 3)) = Some (2, 0, [WaitDown 1])"
    by code_simp
  then show ?thesis
    by (fastforce simp: map_option_eq_Some)
qed

end
