(* ===== verification/Barrier_Gate.thy ===== *)
theory Barrier_Gate
  imports Barrier_Tree
begin

text \<open>The barrier with two gates (\<open>barrier/feb.c\<close>) goes through six phases in every round.\<close>

section \<open>Counting participants\<close>

definition how_many :: "gate_pc set \<Rightarrow> gate_part list \<Rightarrow> nat" where
  "how_many A ps = length (filter (\<lambda>p. gpc p \<in> A) ps)"

lemma how_many_update:
  assumes "k < length ps"
  shows "how_many A (ps[k := p]) + (if gpc (ps ! k) \<in> A then 1 else 0) = how_many A ps + (if gpc p \<in> A then 1 else 0)"
  using filter_length_update [OF assms, of "\<lambda>p. gpc p \<in> A" p] by (simp add: how_many_def)

lemma how_many_le: "how_many A ps \<le> length ps"
  by (simp add: how_many_def)

lemma how_many_all: "how_many A ps = length ps \<longleftrightarrow> (\<forall>p \<in> set ps. gpc p \<in> A)"
  by (simp add: how_many_def filter_id_conv flip: length_filter_conv_card) (metis filter_True filter_id_conv length_filter_less less_irrefl)

lemma how_many_none: "how_many A ps = 0 \<longleftrightarrow> (\<forall>p \<in> set ps. gpc p \<notin> A)"
  by (simp add: how_many_def filter_empty_conv)

section \<open>The phases\<close>

text \<open>Participants arrive; the last one closes and opens the gates; they leave; the last one closes and opens the gates.\<close>

definition arriving :: "nat \<Rightarrow> nat \<Rightarrow> gate_sys \<Rightarrow> bool" where
  "arriving n r s \<longleftrightarrow> in_gate (barrier s) \<and> \<not> out_gate (barrier s)
     \<and> (\<forall>p \<in> set (gparts s). ground p = r \<and> gpc p \<in> {B_in, B_incr, B_out})
     \<and> blockers (barrier s) = how_many {B_out} (gparts s) \<and> blockers (barrier s) < n"

definition leaving :: "nat \<Rightarrow> gate_sys \<Rightarrow> bool" where
  "leaving r s \<longleftrightarrow> \<not> in_gate (barrier s) \<and> out_gate (barrier s)
     \<and> (\<forall>p \<in> set (gparts s). ground p = r \<and> gpc p \<in> {B_out, B_decr} \<or> p = \<lparr>gpc = B_in, ground = r + 1\<rparr>)
     \<and> blockers (barrier s) = how_many {B_out, B_decr} (gparts s) \<and> 0 < blockers (barrier s)"

text \<open>Between these, one participant is at \<open>pc\<close> and the others wait.\<close>

definition alone :: "nat \<Rightarrow> nat \<Rightarrow> gate_pc \<Rightarrow> gate_part \<Rightarrow> gate_sys \<Rightarrow> bool" where
  "alone n r pc rest s \<longleftrightarrow> (\<exists>k < n. gparts s = (replicate n rest)[k := \<lparr>gpc = pc, ground = r\<rparr>])"

definition gate_phase :: "nat \<Rightarrow> nat \<Rightarrow> gate_sys \<Rightarrow> bool" where
  "gate_phase n r s \<longleftrightarrow> arriving n r s \<or> leaving r s
     \<or> (let b = barrier s; last = alone n r B_close \<lparr>gpc = B_out, ground = r\<rparr> s in in_gate b \<and> \<not> out_gate b \<and> blockers b = n \<and> last)
     \<or> (let b = barrier s; last = alone n r B_open \<lparr>gpc = B_out, ground = r\<rparr> s in \<not> in_gate b \<and> \<not> out_gate b \<and> blockers b = n \<and> last)
     \<or> (let b = barrier s; last = alone n r B_shut \<lparr>gpc = B_in, ground = r + 1\<rparr> s in \<not> in_gate b \<and> out_gate b \<and> blockers b = 0 \<and> last)
     \<or> (let b = barrier s; last = alone n r B_reopen \<lparr>gpc = B_in, ground = r + 1\<rparr> s in \<not> in_gate b \<and> \<not> out_gate b \<and> blockers b = 0 \<and> last)"

definition gate_inv :: "nat \<Rightarrow> gate_sys \<Rightarrow> bool" where
  "gate_inv n s \<longleftrightarrow> 0 < n \<and> length (gparts s) = n \<and> max_blockers (barrier s) = n \<and> (\<exists>r. gate_phase n r s)"

lemma gate_stepD:
  assumes "gate_step k s = Some s'"
  shows "\<exists>b pc l. k < length (gparts s) \<and> gate_access (gpc (gparts s ! k)) (barrier s) = Some (b, pc, l) \<and> barrier s' = b
    \<and> gparts s' = (gparts s)[k := \<lparr>gpc = pc, ground = ground (gparts s ! k) + (if l then 1 else 0)\<rparr>]"
proof -
  have k: "k < length (gparts s)"
    using assms by (simp add: gate_step_def split: if_splits)
  obtain b pc l where a: "gate_access (gpc (gparts s ! k)) (barrier s) = Some (b, pc, l)"
    using assms k by (cases "gate_access (gpc (gparts s ! k)) (barrier s)") (auto simp: gate_step_def)
  have "s' = \<lparr>barrier = b, gparts = (gparts s)[k := \<lparr>gpc = pc, ground = ground (gparts s ! k) + (if l then 1 else 0)\<rparr>]\<rparr>"
    using assms k a by (simp add: gate_step_def)
  then show ?thesis
    using k a by simp
qed

text \<open>All but one participant are of one kind.\<close>

lemma aloneI:
  assumes "k < n" "length (gparts s) = n" "\<And>i. i < n \<Longrightarrow> i \<noteq> k \<Longrightarrow> gparts s ! i = rest" "gparts s ! k = \<lparr>gpc = pc, ground = r\<rparr>"
  shows "alone n r pc rest s"
  unfolding alone_def using assms by (intro exI [of _ k]) (auto intro!: nth_equalityI simp: nth_list_update)

lemma others_in:
  assumes "k < length ps" "gpc (ps ! k) \<notin> A" "Suc (how_many A ps) = length ps" "i < length ps" "i \<noteq> k"
  shows "gpc (ps ! i) \<in> A"
proof (rule ccontr)
  assume no: "gpc (ps ! i) \<notin> A"
  have "{j. j < length ps \<and> gpc (ps ! j) \<in> A} \<subseteq> {..<length ps} - {i, k}"
    using no assms(2) by auto
  then have "how_many A ps \<le> card ({..<length ps} - {i, k})"
    unfolding how_many_def length_filter_conv_card by (intro card_mono) auto
  then show False
    using assms by simp
qed

lemma arriving_step:
  assumes a: "arriving n r s" and n: "length (gparts s) = n" "max_blockers (barrier s) = n" and st: "gate_step k s = Some s'"
  shows "gate_phase n r s'"
proof -
  let ?p = "gparts s ! k"
  obtain b pc l where k: "k < length (gparts s)" and acc: "gate_access (gpc ?p) (barrier s) = Some (b, pc, l)"
      and s': "barrier s' = b" "gparts s' = (gparts s)[k := \<lparr>gpc = pc, ground = ground ?p + (if l then 1 else 0)\<rparr>]"
    using gate_stepD [OF st] by blast
  have p: "ground ?p = r" "gpc ?p \<in> {B_in, B_incr, B_out}"
    using a k by (auto simp: arriving_def)
  note h = how_many_update [OF k, of "{B_out}"]
  consider "gpc ?p = B_in" | "gpc ?p = B_incr" "blockers (barrier s) + 1 = n" | "gpc ?p = B_incr" "blockers (barrier s) + 1 \<noteq> n"
    using p(2) a acc by (auto simp: arriving_def)
  then show ?thesis
  proof cases
    case 1
    then have "b = barrier s" "pc = B_incr" "\<not> l"
      using acc a by (auto simp: arriving_def)
    then have "arriving n r s'"
      using a p 1 s' h [of "\<lparr>gpc = B_incr, ground = r\<rparr>"] set_update_subset_insert [of "gparts s" k] by (fastforce simp: arriving_def)
    then show ?thesis
      by (simp add: gate_phase_def)
  next
    case 2
    then have e: "b = (barrier s)\<lparr>blockers := n\<rparr>" "pc = B_close" "\<not> l"
      using acc n by auto
    have "gparts s ! i = \<lparr>gpc = B_out, ground = r\<rparr>" if "i < n" "i \<noteq> k" for i
    proof -
      have "gpc (gparts s ! i) \<in> {B_out}"
        using others_in [OF k, of "{B_out}" i] 2 a n that by (simp add: arriving_def)
      moreover have "ground (gparts s ! i) = r"
        using a n that by (simp add: arriving_def)
      ultimately show ?thesis
        by simp
    qed
    then have "alone n r B_close \<lparr>gpc = B_out, ground = r\<rparr> s'"
      using k n p s' e by (intro aloneI [of k]) auto
    then show ?thesis
      using a e s' by (simp add: gate_phase_def arriving_def)
  next
    case 3
    then have e: "b = (barrier s)\<lparr>blockers := blockers (barrier s) + 1\<rparr>" "pc = B_out" "\<not> l"
      using acc n by auto
    then have "arriving n r s'"
      using a p 3 s' h [of "\<lparr>gpc = B_out, ground = r\<rparr>"] set_update_subset_insert [of "gparts s" k] by (fastforce simp: arriving_def)
    then show ?thesis
      by (simp add: gate_phase_def)
  qed
qed

lemma leaving_step:
  assumes a: "leaving r s" and n: "length (gparts s) = n" and st: "gate_step k s = Some s'"
  shows "gate_phase n r s'"
proof -
  let ?p = "gparts s ! k"
  obtain b pc l where k: "k < length (gparts s)" and acc: "gate_access (gpc ?p) (barrier s) = Some (b, pc, l)"
      and s': "barrier s' = b" "gparts s' = (gparts s)[k := \<lparr>gpc = pc, ground = ground ?p + (if l then 1 else 0)\<rparr>]"
    using gate_stepD [OF st] by blast
  have p: "ground ?p = r \<and> gpc ?p \<in> {B_out, B_decr} \<or> ?p = \<lparr>gpc = B_in, ground = r + 1\<rparr>"
    using a k by (auto simp: leaving_def)
  note h = how_many_update [OF k, of "{B_out, B_decr}"]
  have r: "ground ?p = r"
    using p acc a by (auto simp: leaving_def)
  consider "gpc ?p = B_out" | "gpc ?p = B_decr" "blockers (barrier s) = 1" | "gpc ?p = B_decr" "blockers (barrier s) \<noteq> 1"
    using p acc a by (auto simp: leaving_def)
  then show ?thesis
  proof cases
    case 1
    then have "b = barrier s" "pc = B_decr" "\<not> l"
      using acc a by (auto simp: leaving_def)
    then have "leaving r s'"
      using a r 1 s' h [of "\<lparr>gpc = B_decr, ground = r\<rparr>"] set_update_subset_insert [of "gparts s" k] by (fastforce simp: leaving_def)
    then show ?thesis
      by (simp add: gate_phase_def)
  next
    case 2
    then have e: "b = (barrier s)\<lparr>blockers := 0\<rparr>" "pc = B_shut" "\<not> l"
      using acc by auto
    have "gparts s ! i = \<lparr>gpc = B_in, ground = r + 1\<rparr>" if "i < n" "i \<noteq> k" for i
    proof -
      have "how_many {B_out, B_decr} ((gparts s)[k := \<lparr>gpc = B_in, ground = 0\<rparr>]) = 0"
        using h [of "\<lparr>gpc = B_in, ground = 0\<rparr>"] 2 a by (simp add: leaving_def)
      then have "gpc ((gparts s)[k := \<lparr>gpc = B_in, ground = 0\<rparr>] ! i) \<notin> {B_out, B_decr}"
        using that n unfolding how_many_none by (metis length_list_update nth_mem)
      then show ?thesis
        using a that n by (auto simp: leaving_def)
    qed
    then have "alone n r B_shut \<lparr>gpc = B_in, ground = r + 1\<rparr> s'"
      using k n r s' e by (intro aloneI [of k]) auto
    then show ?thesis
      using a e s' by (simp add: gate_phase_def leaving_def)
  next
    case 3
    then have e: "b = (barrier s)\<lparr>blockers := blockers (barrier s) - 1\<rparr>" "pc = B_in" "l"
      using acc a by (auto simp: leaving_def split: if_splits)
    have "how_many {B_out, B_decr} (gparts s') = blockers (barrier s) - 1"
      using h [of "\<lparr>gpc = B_in, ground = r + 1\<rparr>"] a e s' r 3 by (simp add: leaving_def)
    moreover have "q \<in> set (gparts s') \<Longrightarrow> ground q = r \<and> gpc q \<in> {B_out, B_decr} \<or> q = \<lparr>gpc = B_in, ground = r + 1\<rparr>" for q
      using a e s' r set_update_subset_insert [of "gparts s" k] by (fastforce simp: leaving_def)
    ultimately have "leaving r s'"
      using a e s' 3 by (simp add: leaving_def)
    then show ?thesis
      by (simp add: gate_phase_def)
  qed
qed

text \<open>In the other phases only the participant that is alone can step.\<close>

lemma alone_step:
  assumes a: "alone n r pc rest s" and st: "gate_step k s = Some s'" and blocked: "gate_access (gpc rest) (barrier s) = None"
  shows "\<exists>b pc' l. k < n \<and> gate_access pc (barrier s) = Some (b, pc', l) \<and> barrier s' = b
    \<and> gparts s' = (replicate n rest)[k := \<lparr>gpc = pc', ground = r + (if l then 1 else 0)\<rparr>]"
proof -
  obtain j where j: "j < n" "gparts s = (replicate n rest)[j := \<lparr>gpc = pc, ground = r\<rparr>]"
    using a by (auto simp: alone_def)
  note d = gate_stepD [OF st]
  have "k = j"
  proof (rule ccontr)
    assume "k \<noteq> j"
    then have "gparts s ! k = rest"
      using d j by auto
    then show False
      using d blocked by auto
  qed
  then show ?thesis
    using d j by auto
qed

lemma gate_step_inv:
  assumes inv: "gate_inv n s" and st: "gate_step k s = Some s'"
  shows "gate_inv n s'"
proof -
  obtain r where n: "0 < n" "length (gparts s) = n" "max_blockers (barrier s) = n" and ph: "gate_phase n r s"
    using inv by (auto simp: gate_inv_def)
  obtain b pc l where acc: "gate_access (gpc (gparts s ! k)) (barrier s) = Some (b, pc, l)" "barrier s' = b" "length (gparts s') = n"
    using gate_stepD [OF st] n(2) by auto
  have "max_blockers b = n"
    using acc(1) n(3) by (cases "gpc (gparts s ! k)") (auto simp: Let_def split: if_splits)
  moreover have "\<exists>r. gate_phase n r s'"
    using ph unfolding gate_phase_def [of n r s] Let_def
  proof (elim disjE conjE)
    assume a: "alone n r B_close \<lparr>gpc = B_out, ground = r\<rparr> s" "in_gate (barrier s)" "\<not> out_gate (barrier s)" "blockers (barrier s) = n"
    have "alone n r B_open \<lparr>gpc = B_out, ground = r\<rparr> s'" "barrier s' = (barrier s)\<lparr>in_gate := False\<rparr>"
      using alone_step [OF a(1) st] a(3) by (auto simp: alone_def)
    then have "gate_phase n r s'"
      using a by (simp add: gate_phase_def)
    then show ?thesis ..
  next
    assume a: "alone n r B_open \<lparr>gpc = B_out, ground = r\<rparr> s" "\<not> in_gate (barrier s)" "\<not> out_gate (barrier s)" "blockers (barrier s) = n"
    then obtain j where j: "j < n" "gparts s' = (replicate n \<lparr>gpc = B_out, ground = r\<rparr>)[j := \<lparr>gpc = B_decr, ground = r\<rparr>]"
        "barrier s' = (barrier s)\<lparr>out_gate := True\<rparr>"
      using alone_step [OF a(1) st] by auto
    then have q: "\<forall>p \<in> set (gparts s'). ground p = r \<and> gpc p \<in> {B_out, B_decr}"
      using set_update_subset_insert [of "replicate n \<lparr>gpc = B_out, ground = r\<rparr>" j] by fastforce
    then have "how_many {B_out, B_decr} (gparts s') = n"
      using how_many_all [of "{B_out, B_decr}" "gparts s'"] acc(3) by auto
    then have "leaving r s'"
      using a j n(1) q by (auto simp: leaving_def)
    then have "gate_phase n r s'"
      by (simp add: gate_phase_def)
    then show ?thesis ..
  next
    assume a: "alone n r B_shut \<lparr>gpc = B_in, ground = r + 1\<rparr> s" "\<not> in_gate (barrier s)" "out_gate (barrier s)" "blockers (barrier s) = 0"
    have "alone n r B_reopen \<lparr>gpc = B_in, ground = r + 1\<rparr> s'" "barrier s' = (barrier s)\<lparr>out_gate := False\<rparr>"
      using alone_step [OF a(1) st] a(2) by (auto simp: alone_def)
    then have "gate_phase n r s'"
      using a by (simp add: gate_phase_def)
    then show ?thesis ..
  next
    assume a: "alone n r B_reopen \<lparr>gpc = B_in, ground = r + 1\<rparr> s" "\<not> in_gate (barrier s)" "\<not> out_gate (barrier s)" "blockers (barrier s) = 0"
    have s': "gparts s' = replicate n \<lparr>gpc = B_in, ground = r + 1\<rparr>" "barrier s' = (barrier s)\<lparr>in_gate := True\<rparr>"
      using alone_step [OF a(1) st] a(2) by (auto simp: list_update_same_conv)
    then have "arriving n (r + 1) s'"
      using a n(1) how_many_none [of "{B_out}" "gparts s'"] by (auto simp: arriving_def)
    then show ?thesis
      by (auto simp: gate_phase_def)
  qed (use arriving_step [OF _ n(2,3) st] leaving_step [OF _ n(2) st] in blast)+
  ultimately show ?thesis
    using n(1) acc by (simp add: gate_inv_def)
qed

lemma gate_start_inv: "0 < n \<Longrightarrow> gate_inv n (gate_start n)"
  using how_many_none [of "{B_out}" "replicate n \<lparr>gpc = B_in, ground = 0\<rparr>"]
  by (auto simp: gate_inv_def gate_phase_def arriving_def gate_start_def feb_barrier_create_def intro!: exI [of _ 0])

section \<open>What every phase guarantees\<close>

lemma alone_parts: "alone n r pc rest s \<Longrightarrow> p \<in> set (gparts s) \<Longrightarrow> p = \<lparr>gpc = pc, ground = r\<rparr> \<or> p = rest"
  using set_update_subset_insert [of "replicate n rest" _ "\<lparr>gpc = pc, ground = r\<rparr>"] by (fastforce simp: alone_def)

lemma alone_fields:
  "alone n r pc rest s \<Longrightarrow> p \<in> set (gparts s) \<Longrightarrow> gpc p = pc \<and> ground p = r \<or> gpc p = gpc rest \<and> ground p = ground rest"
  using alone_parts by fastforce

lemma alone_member: "alone n r pc rest s \<Longrightarrow> \<lparr>gpc = pc, ground = r\<rparr> \<in> set (gparts s)"
  by (auto simp: alone_def set_update_memI)

lemma phase_parts:
  assumes "gate_phase n r s" "length (gparts s) = n"
  shows "(\<forall>p \<in> set (gparts s). ground p = r \<or> p = \<lparr>gpc = B_in, ground = r + 1\<rparr>)
    \<and> ((\<forall>p \<in> set (gparts s). ground p = r) \<or> (\<forall>p \<in> set (gparts s). ground p = r \<longrightarrow> gpc p \<notin> {B_in, B_incr}))"
proof -
  show ?thesis
    using assms(1) unfolding gate_phase_def Let_def
  proof (elim disjE conjE)
    assume "leaving r s"
    then have q: "ground p = r \<and> gpc p \<in> {B_out, B_decr} \<or> p = \<lparr>gpc = B_in, ground = r + 1\<rparr>" if "p \<in> set (gparts s)" for p
      using that by (simp add: leaving_def)
    have "\<forall>p \<in> set (gparts s). ground p = r \<or> p = \<lparr>gpc = B_in, ground = r + 1\<rparr>"
      using q by blast
    moreover have "gpc p \<notin> {B_in, B_incr}" if "p \<in> set (gparts s)" "ground p = r" for p
      using q [OF that(1)] that(2) by (cases p) auto
    ultimately show ?thesis
      by blast
  qed (auto simp: arriving_def dest: alone_parts alone_fields)
qed

lemma gate_safe:
  assumes inv: "gate_inv n s" and i: "i < n" and j: "j < n" and r: "r < ground (gparts s ! i)"
  shows "r < ground (gparts s ! j) \<or> r = ground (gparts s ! j) \<and> gpc (gparts s ! j) \<notin> {B_in, B_incr}"
proof -
  obtain r0 where n: "length (gparts s) = n" and ph: "gate_phase n r0 s"
    using inv by (auto simp: gate_inv_def)
  have mem: "gparts s ! i \<in> set (gparts s)" "gparts s ! j \<in> set (gparts s)"
    using i j n by simp_all
  note parts = phase_parts [OF ph n]
  have gi: "ground (gparts s ! i) = r0 \<or> ground (gparts s ! i) = r0 + 1"
    using parts mem(1) by fastforce
  have gj: "ground (gparts s ! j) = r0 \<or> ground (gparts s ! j) = r0 + 1"
    using parts mem(2) by fastforce
  show ?thesis
  proof (cases "\<forall>p \<in> set (gparts s). ground p = r0")
    case True
    then show ?thesis
      using mem r by simp
  next
    case False
    then have "ground (gparts s ! j) = r0 \<longrightarrow> gpc (gparts s ! j) \<notin> {B_in, B_incr}"
      using parts mem(2) by blast
    then show ?thesis
      using gi gj r by linarith
  qed
qed

lemma gate_stepI: "k < length (gparts s) \<Longrightarrow> gate_access (gpc (gparts s ! k)) (barrier s) \<noteq> None \<Longrightarrow> gate_step k s \<noteq> None"
  by (auto simp: gate_step_def)

lemma gate_progress:
  assumes inv: "gate_inv n s"
  shows "\<exists>k < n. gate_step k s \<noteq> None"
proof -
  obtain r where n: "0 < n" "length (gparts s) = n" and ph: "gate_phase n r s"
    using inv by (auto simp: gate_inv_def)
  have "\<exists>p \<in> set (gparts s). gate_access (gpc p) (barrier s) \<noteq> None"
    using ph unfolding gate_phase_def Let_def
  proof (elim disjE conjE)
    assume a: "arriving n r s"
    then have "how_many {B_out} (gparts s) \<noteq> length (gparts s)"
      using n by (simp add: arriving_def)
    then obtain p where "p \<in> set (gparts s)" "gpc p \<noteq> B_out"
      unfolding how_many_all by blast
    moreover from this a have "gpc p = B_in \<or> gpc p = B_incr"
      by (auto simp: arriving_def)
    ultimately show ?thesis
      using a by (intro bexI [of _ p]) (auto simp: arriving_def Let_def)
  next
    assume a: "leaving r s"
    then have "how_many {B_out, B_decr} (gparts s) \<noteq> 0"
      by (simp add: leaving_def)
    then obtain p where "p \<in> set (gparts s)" "gpc p = B_out \<or> gpc p = B_decr"
      unfolding how_many_none by blast
    then show ?thesis
      using a by (intro bexI [of _ p]) (auto simp: leaving_def Let_def)
  qed (drule alone_member, erule bexI [rotated], simp)+
  then obtain k where "k < n" "gate_access (gpc (gparts s ! k)) (barrier s) \<noteq> None"
    using n by (metis in_set_conv_nth)
  then show ?thesis
    using gate_stepI n by blast
qed

lemma gate_never_fails:
  assumes inv: "gate_inv n s" and k: "k < n"
  shows "\<not> gate_fails k s"
proof -
  obtain r where n: "length (gparts s) = n" "max_blockers (barrier s) = n" and ph: "gate_phase n r s"
    using inv by (auto simp: gate_inv_def)
  have mem: "gparts s ! k \<in> set (gparts s)"
    using k n by simp
  have "gpc (gparts s ! k) \<noteq> B_incr" if "alone n r pc rest s" "pc \<noteq> B_incr" "gpc rest \<noteq> B_incr" for pc rest
    using alone_parts [OF that(1) mem] that by auto
  then show ?thesis
    using ph mem n unfolding gate_phase_def Let_def by (fastforce simp: gate_fails_def arriving_def leaving_def)
qed

section \<open>Every step is progress\<close>

primrec pc_rank :: "gate_pc \<Rightarrow> nat" where
  "pc_rank B_in = 0"
| "pc_rank B_incr = 1"
| "pc_rank B_close = 2"
| "pc_rank B_open = 3"
| "pc_rank B_out = 3"
| "pc_rank B_decr = 4"
| "pc_rank B_shut = 5"
| "pc_rank B_reopen = 6"

definition gate_weight :: "gate_part \<Rightarrow> nat" where
  "gate_weight p = 8 * ground p + pc_rank (gpc p)"

lemma gate_access_rank: "gate_access pc b = Some (b', pc', l) \<Longrightarrow> pc_rank pc < (if l then 8 else 0) + pc_rank pc'"
  by (cases pc) (auto simp: Let_def split: if_splits)

lemma gate_step_weight:
  assumes "gate_step k s = Some s'"
  shows "sum_list (map gate_weight (gparts s)) < sum_list (map gate_weight (gparts s'))"
proof -
  let ?p = "gparts s ! k"
  obtain b pc l where k: "k < length (gparts s)" and acc: "gate_access (gpc ?p) (barrier s) = Some (b, pc, l)"
      and s': "gparts s' = (gparts s)[k := \<lparr>gpc = pc, ground = ground ?p + (if l then 1 else 0)\<rparr>]" (is "_ = _[k := ?q]")
    using gate_stepD [OF assms] by blast
  have "gate_weight ?p < gate_weight ?q"
    using gate_access_rank [OF acc] by (auto simp: gate_weight_def)
  moreover have "gate_weight ?p \<le> sum_list (map gate_weight (gparts s))"
    using k by (simp add: member_le_sum_list)
  ultimately show ?thesis
    using k sum_list_update [of k "map gate_weight (gparts s)" "gate_weight ?q"] unfolding s' map_update by simp
qed

lemma gate_run_weight: "run_steps gate_step ks s = Some t \<Longrightarrow> length ks + sum_list (map gate_weight (gparts s)) \<le> sum_list (map gate_weight (gparts t))"
proof (induction ks arbitrary: s)
  case (Cons k ks)
  then obtain u where u: "gate_step k s = Some u" "run_steps gate_step ks u = Some t"
    by (auto split: Option.bind_splits)
  then show ?case
    using Cons.IH [OF u(2)] gate_step_weight [OF u(1)] by simp
qed simp

lemma gate_live:
  assumes run: "run_steps gate_step ks (gate_start n) = Some s" and inv: "gate_inv n s" and j: "j < n"
  shows "length ks \<le> n * (8 * (ground (gparts s ! j) + 1))"
proof -
  obtain r where n: "length (gparts s) = n" and ph: "gate_phase n r s"
    using inv by (auto simp: gate_inv_def)
  note parts = phase_parts [OF ph n]
  have "pc_rank pc \<le> 6" for pc
    by (cases pc) simp_all
  then have "gate_weight p \<le> 8 * (r + 1)" if "p \<in> set (gparts s)" for p
    using parts that le_trans [of "pc_rank (gpc p)" 6 8] by (fastforce simp: gate_weight_def)
  then have "sum_list (map gate_weight (gparts s)) \<le> n * (8 * (r + 1))"
    using sum_list_mono [of "gparts s" gate_weight "\<lambda>_. 8 * (r + 1)"] n by (simp add: sum_list_triv mult.commute)
  moreover have "r \<le> ground (gparts s ! j)"
    using parts j n by fastforce
  then have "n * (8 * (r + 1)) \<le> n * (8 * (ground (gparts s ! j) + 1))"
    by simp
  ultimately show ?thesis
    using gate_run_weight [OF run] by linarith
qed

section \<open>Property of the barrier with two gates\<close>

text \<open>
  C35. (\<open>barrier/feb.c\<close>, \<open>qt_barrier_enter\<close>.) With \<open>n\<close> participants that enter again and again, in every interleaving of their accesses to
  the gates and to the counter: when one has left its call number \<open>r\<close>, every other one has counted itself in for its
  call number \<open>r\<close>; the assertion on the counter never fails; some participant can always go on; and the number of
  steps taken is bounded by the progress of the slowest participant, so that nobody is left behind.
\<close>

theorem gate_barrier_correct:
  assumes "0 < n" "run_steps gate_step ks (gate_start n) = Some s" "i < n" "j < n"
  shows "(r < ground (gparts s ! i)
        \<longrightarrow> r < ground (gparts s ! j) \<or> r = ground (gparts s ! j) \<and> gpc (gparts s ! j) \<notin> {B_in, B_incr})
    \<and> \<not> gate_fails j s \<and> (\<exists>k < n. gate_step k s \<noteq> None)
    \<and> length ks \<le> n * (8 * (ground (gparts s ! j) + 1))"
proof -
  have inv: "gate_inv n s"
    using run_steps_invariant [of "gate_inv n" gate_step "gate_start n" ks s] gate_step_inv gate_start_inv [OF assms(1)] assms(2) by blast
  then show ?thesis
    using gate_safe [OF inv assms(3,4)] gate_never_fails [OF inv assms(4)] gate_progress [OF inv] gate_live [OF assms(2) inv assms(4)]
    by blast
qed

text \<open>Two participants, until the first of them has left the barrier.\<close>

theorem gate_barrier_correct_witness:
  "\<exists>s. run_steps gate_step [0, 1, 1, 0, 0, 0, 0] (gate_start 2) = Some s
    \<and> ground (gparts s ! 0) = 1 \<and> ground (gparts s ! 1) = 0 \<and> gpc (gparts s ! 1) \<notin> {B_in, B_incr}"
proof -
  have "map_option (\<lambda>s. (ground (gparts s ! 0), ground (gparts s ! 1))) (run_steps gate_step [0, 1, 1, 0, 0, 0, 0] (gate_start 2)) = Some (1, 0)"
    by code_simp
  then show ?thesis
    using gate_barrier_correct [of 2 "[0, 1, 1, 0, 0, 0, 0]" _ 0 1 0] by fastforce
qed

end
