(* ===== verification/Qarray.thy ===== *)
theory Qarray
  imports QPrelude
begin

text \<open>
  The distributed array (\<open>ds/qarray.c\<close>, \<open>qarray.h\<close>): an array is divided into segments of whole elements, and every segment
  belongs to a shepherd. Loops over an array fork a strider to each shepherd, which works on the elements that the
  shepherd owns. The model is that of a build without memory affinity; the address that the allocation returns is a
  parameter (0 for \<open>NULL\<close>). Sizes are \<open>nat\<close>: the allocation of all the segments bounds them.
\<close>

section \<open>Data\<close>

datatype distribution_t = FIXED_HASH | FIXED_FIELDS | ALL_SAME | DIST
  | DIST_STRIPES | DIST_FIELDS | DIST_RAND | DIST_LEAST | ALL_LOCAL | ALL_RAND | ALL_LEAST

record qarray =
  unit_size :: nat
  qa_count :: nat
  segment_size :: nat
  segment_bytes :: nat
  base_ptr :: nat
  dist_type :: distribution_t
  dist_shep :: nat
  segs_per_shep :: nat
  extras :: nat

text \<open>The global \<open>chunk_distribution_tracker\<close> (empty for \<open>NULL\<close>) and the memory words that hold the shepherds of segments.\<close>

record qa_state =
  tracker :: "int list"
  seg_mem :: "nat \<Rightarrow> nat"

text \<open>What the array takes from the rest of the library: the page size, the number of shepherds, the shepherd of the caller and
  the results of \<open>random\<close>.\<close>

record qa_env =
  pagesize :: nat
  num_sheps :: nat
  cur_shep :: nat
  rand :: "nat \<Rightarrow> nat"

definition NO_SHEPHERD :: nat where
  "NO_SHEPHERD = 65535"

text \<open>\<open>qthread_incr\<close> on an entry of the tracker.\<close>

definition track :: "nat \<Rightarrow> int \<Rightarrow> qa_state \<Rightarrow> qa_state option" where
  "track s n st = do { c_assert (s < length (tracker st)); Some (st\<lparr>tracker := (tracker st)[s := tracker st ! s + n]\<rparr>) }"

section \<open>Elements and segments\<close>

definition qarray_elem_nomigrate :: "qarray \<Rightarrow> nat \<Rightarrow> nat" where
  "qarray_elem_nomigrate a index =
     (if index > qa_count a then 0
      else let segment_num = index div segment_size a
           in base_ptr a + (segment_num * segment_bytes a + (index - segment_num * segment_size a) * unit_size a))"

definition segment_count :: "qarray \<Rightarrow> nat" where
  "segment_count a = qa_count a div segment_size a + (if qa_count a mod segment_size a \<noteq> 0 then 1 else 0)"

text \<open>Where a segment keeps the number of its shepherd: after its elements, aligned to 4 bytes.\<close>

definition qarray_internal_segment_shep :: "qarray \<Rightarrow> nat \<Rightarrow> nat option" where
  "qarray_internal_segment_shep a segment_head =
     do { let ptr = segment_head + segment_size a * unit_size a;
          c_assert (dist_type a = DIST);
          let ptr = (if ptr AND 3 \<noteq> 0 then ptr + (4 - (ptr AND 3)) else ptr);
          c_assert (ptr + 2 - 1 < segment_bytes a + segment_head);
          Some ptr }"

definition qarray_internal_segment_shep_read :: "qarray \<Rightarrow> nat \<Rightarrow> qa_state \<Rightarrow> nat option" where
  "qarray_internal_segment_shep_read a segment_head st = map_option (seg_mem st) (qarray_internal_segment_shep a segment_head)"

definition qarray_internal_segment_shep_write :: "qarray \<Rightarrow> nat \<Rightarrow> nat \<Rightarrow> qa_state \<Rightarrow> qa_state option" where
  "qarray_internal_segment_shep_write a segment_head shep st =
     map_option (\<lambda>p. st\<lparr>seg_mem := (seg_mem st)(p := shep)\<rparr>) (qarray_internal_segment_shep a segment_head)"

definition qarray_internal_shepof_segidx :: "nat \<Rightarrow> qarray \<Rightarrow> qa_state \<Rightarrow> nat \<Rightarrow> nat option" where
  "qarray_internal_shepof_segidx ns a st seg =
     (case dist_type a of
        ALL_SAME \<Rightarrow> Some (dist_shep a)
      | FIXED_FIELDS \<Rightarrow> Some (if seg div (segs_per_shep a + 1) < extras a then seg div (segs_per_shep a + 1)
                            else (seg - extras a) div segs_per_shep a)
      | FIXED_HASH \<Rightarrow> Some (seg mod ns)
      | DIST \<Rightarrow> qarray_internal_segment_shep_read a (qarray_elem_nomigrate a (seg * segment_size a)) st
      | _ \<Rightarrow> None)"

definition qarray_internal_shepof_ch :: "nat \<Rightarrow> qarray \<Rightarrow> qa_state \<Rightarrow> nat \<Rightarrow> nat option" where
  "qarray_internal_shepof_ch ns a st segment_head =
     (case dist_type a of
        ALL_SAME \<Rightarrow> Some (dist_shep a)
      | FIXED_FIELDS \<Rightarrow> qarray_internal_shepof_segidx ns a st ((segment_head - base_ptr a) div segment_bytes a)
      | DIST \<Rightarrow> qarray_internal_segment_shep_read a segment_head st
      | _ \<Rightarrow> Some ((segment_head - base_ptr a) div segment_bytes a mod ns))"

definition qarray_shepof :: "nat \<Rightarrow> qarray \<Rightarrow> qa_state \<Rightarrow> nat \<Rightarrow> nat option" where
  "qarray_shepof ns a st index =
     do { c_assert (index < qa_count a);
          if dist_type a = ALL_SAME then Some (dist_shep a)
          else do { retval \<leftarrow> qarray_internal_shepof_segidx ns a st (index div segment_size a);
                    c_assert (retval < ns);
                    Some retval } }"

text \<open>\<open>qarray_elem_migrate\<close> returns the address and the shepherd that the caller migrates to.\<close>

definition qarray_elem_migrate :: "nat \<Rightarrow> qarray \<Rightarrow> qa_state \<Rightarrow> nat \<Rightarrow> (nat \<times> nat) option" where
  "qarray_elem_migrate ns a st index =
     do { c_assert (index \<ge> qa_count a);
          let segment_num = index div segment_size a;
          let segment_head = base_ptr a + (segment_num + segment_bytes a);
          dest \<leftarrow> qarray_internal_shepof_ch ns a st segment_head;
          Some (segment_head + (index - segment_num * segment_size a) * unit_size a, dest) }"

section \<open>Creation\<close>

text \<open>\<open>qt_gcd.h\<close>.\<close>

lemma mod_mod_less [termination_simp]: "0 < a \<Longrightarrow> 0 < b mod a \<Longrightarrow> a mod (b mod a) < a" for a b :: nat
  by (meson less_trans mod_less_divisor)

fun qt_gcd :: "nat \<Rightarrow> nat \<Rightarrow> nat" where
  "qt_gcd a b = (if a = 0 then b else let b' = b mod a in if b' = 0 then a else qt_gcd (a mod b') b')"

declare qt_gcd.simps [simp del]

definition qt_lcm :: "nat \<Rightarrow> nat \<Rightarrow> nat" where
  "qt_lcm a b = (let tmp = qt_gcd a b in if tmp \<noteq> 0 then a * b div tmp else 0)"

definition is_dist :: "distribution_t \<Rightarrow> bool" where
  "is_dist d \<longleftrightarrow> d \<in> {DIST_STRIPES, DIST_FIELDS, DIST_RAND, DIST_LEAST, DIST}"

definition unit_for :: "bool \<Rightarrow> nat \<Rightarrow> nat" where
  "unit_for tight obj_size = (if tight then obj_size else obj_size + (if obj_size AND 7 \<noteq> 0 then 8 - (obj_size AND 7) else 0))"

text \<open>The bytes of a segment and the number of its elements.\<close>

definition seg_sizes :: "nat \<Rightarrow> distribution_t \<Rightarrow> nat \<Rightarrow> nat \<Rightarrow> (nat \<times> nat) option" where
  "seg_sizes page d unit seg_pages =
     (let (bytes, size) =
        (if is_dist d then
           let bytes = (if seg_pages = 0 then 16 * page else seg_pages * page); size = bytes div unit
           in if bytes - size * unit < 4 then
                (if page < unit then bytes - unit div page * page + (if unit mod page = 0 then page else 0) else bytes, size - 1)
              else (bytes, size)
         else
           let bytes = (if seg_pages = 0 then if 16 * page < unit then qt_lcm unit page else 16 * page else seg_pages * page)
           in (bytes, bytes div unit))
      in do { c_assert (0 < size); c_assert (0 < bytes); Some (bytes, size) })"

definition least_shep :: "nat \<Rightarrow> int list \<Rightarrow> nat" where
  "least_shep n tr = foldl (\<lambda>least i. if tr ! i < tr ! least then i else least) 0 [1..<n]"

definition type_for :: "distribution_t \<Rightarrow> distribution_t" where
  "type_for d = (if d \<in> {ALL_LOCAL, ALL_RAND, ALL_LEAST, ALL_SAME} then ALL_SAME
     else if d = FIXED_FIELDS then FIXED_FIELDS else if is_dist d then DIST else FIXED_HASH)"

text \<open>The shepherd of an array of one shepherd.\<close>

definition shep_for :: "qa_env \<Rightarrow> distribution_t \<Rightarrow> int list \<Rightarrow> nat" where
  "shep_for env d tr =
     (if d = ALL_SAME \<or> d = ALL_LOCAL then cur_shep env
      else if d = ALL_RAND then rand env 0 mod 65536 mod num_sheps env
      else if d = ALL_LEAST then least_shep (num_sheps env) tr
      else NO_SHEPHERD)"

definition target_shep :: "qa_env \<Rightarrow> qarray \<Rightarrow> distribution_t \<Rightarrow> nat \<Rightarrow> qa_state \<Rightarrow> nat option" where
  "target_shep env a d segment st =
     (let ns = num_sheps env in
      case d of
        FIXED_HASH \<Rightarrow> Some (segment mod ns)
      | FIXED_FIELDS \<Rightarrow> qarray_internal_shepof_segidx ns a st segment
      | DIST \<Rightarrow> Some (rand env segment mod ns)
      | DIST_RAND \<Rightarrow> Some (rand env segment mod ns)
      | DIST_FIELDS \<Rightarrow>
          (let per_shep = segment_count a div ns; extra = segment_count a mod ns; target = segment div (per_shep + 1)
           in Some (if target \<ge> extra then (segment - extra) div per_shep else target))
      | DIST_STRIPES \<Rightarrow> Some (segment mod ns)
      | DIST_LEAST \<Rightarrow> Some (least_shep ns (tracker st))
      | _ \<Rightarrow> do { c_assert (dist_type a = ALL_SAME); Some (dist_shep a) })"

definition place_segment :: "qa_env \<Rightarrow> qarray \<Rightarrow> distribution_t \<Rightarrow> nat \<Rightarrow> qa_state \<Rightarrow> qa_state option" where
  "place_segment env a d segment st =
     do { target \<leftarrow> target_shep env a d segment st;
          st \<leftarrow> (if dist_type a = DIST
                then qarray_internal_segment_shep_write a (qarray_elem_nomigrate a (segment * segment_size a)) target st
                else Some st);
          c_assert (target < num_sheps env);
          track target 1 st }"

primrec place_segments :: "qa_env \<Rightarrow> qarray \<Rightarrow> distribution_t \<Rightarrow> nat list \<Rightarrow> qa_state \<Rightarrow> qa_state option" where
  "place_segments env a d [] st = Some st"
| "place_segments env a d (segment # segments) st =
     do { st \<leftarrow> place_segment env a d segment st; place_segments env a d segments st }"

text \<open>The new array, with what its distribution needs.\<close>

definition new_array :: "qa_env \<Rightarrow> nat \<Rightarrow> nat \<Rightarrow> nat \<Rightarrow> nat \<Rightarrow> nat \<Rightarrow> distribution_t \<Rightarrow> int list \<Rightarrow> qarray" where
  "new_array env base num unit bytes sz d tr =
     (let a = \<lparr>unit_size = unit, qa_count = num, segment_size = sz, segment_bytes = bytes, base_ptr = base,
               dist_type = type_for d, dist_shep = shep_for env d tr, segs_per_shep = 0, extras = 0\<rparr>;
          segs = segment_count a
      in if d = FIXED_FIELDS then
           a\<lparr>segs_per_shep := (if segs div num_sheps env = 0 then 1 else segs div num_sheps env), extras := segs mod num_sheps env\<rparr>
         else a)"

lemma new_array_simps [simp]:
  "unit_size (new_array env base num unit bytes sz d tr) = unit" "qa_count (new_array env base num unit bytes sz d tr) = num"
  "segment_size (new_array env base num unit bytes sz d tr) = sz" "segment_bytes (new_array env base num unit bytes sz d tr) = bytes"
  "base_ptr (new_array env base num unit bytes sz d tr) = base" "dist_type (new_array env base num unit bytes sz d tr) = type_for d"
  "dist_shep (new_array env base num unit bytes sz d tr) = shep_for env d tr"
  by (simp_all add: new_array_def Let_def)

lemma new_array_fields:
  assumes "d = FIXED_FIELDS"
  shows "segs_per_shep (new_array env base num unit bytes sz d tr)
      = (let n = segment_count (new_array env base num unit bytes sz d tr) div num_sheps env in if n = 0 then 1 else n)"
    "extras (new_array env base num unit bytes sz d tr) = segment_count (new_array env base num unit bytes sz d tr) mod num_sheps env"
  using assms by (simp_all add: new_array_def Let_def segment_count_def)

definition qarray_create_internal ::
  "qa_env \<Rightarrow> nat \<Rightarrow> nat \<Rightarrow> nat \<Rightarrow> distribution_t \<Rightarrow> bool \<Rightarrow> nat \<Rightarrow> qa_state \<Rightarrow> (qarray \<times> qa_state) option" where
  "qarray_create_internal env base num obj_size d tight seg_pages st =
     do { c_assert (num > 0);
          c_assert (obj_size > 0);
          let st = (if tracker st = [] then st\<lparr>tracker := replicate (num_sheps env) 0\<rparr> else st);
          let unit = unit_for tight obj_size;
          (bytes, size) \<leftarrow> seg_sizes (pagesize env) d unit seg_pages;
          let a = new_array env base num unit bytes size d (tracker st);
          let segs = segment_count a;
          st \<leftarrow> (if dist_type a = ALL_SAME then track (dist_shep a) (int segs) st else Some st);
          c_assert (base \<noteq> 0);
          st \<leftarrow> place_segments env a d [0..<segs] st;
          Some (a, st) }"

definition qarray_create :: "qa_env \<Rightarrow> nat \<Rightarrow> nat \<Rightarrow> nat \<Rightarrow> qa_state \<Rightarrow> (qarray \<times> qa_state) option" where
  "qarray_create env base num obj_size = qarray_create_internal env base num obj_size FIXED_HASH False 0"

definition qarray_create_tight :: "qa_env \<Rightarrow> nat \<Rightarrow> nat \<Rightarrow> nat \<Rightarrow> qa_state \<Rightarrow> (qarray \<times> qa_state) option" where
  "qarray_create_tight env base num obj_size = qarray_create_internal env base num obj_size FIXED_HASH True 0"

section \<open>Destruction and redistribution\<close>

primrec untrack_segments :: "nat \<Rightarrow> qarray \<Rightarrow> nat list \<Rightarrow> qa_state \<Rightarrow> qa_state option" where
  "untrack_segments ns a [] st = Some st"
| "untrack_segments ns a (segment # segments) st =
     do { s \<leftarrow> qarray_internal_shepof_segidx ns a st segment; st \<leftarrow> track s (- 1) st; untrack_segments ns a segments st }"

definition qarray_destroy :: "nat \<Rightarrow> qarray \<Rightarrow> qa_state \<Rightarrow> qa_state option" where
  "qarray_destroy ns a st =
     do { c_assert (base_ptr a \<noteq> 0);
          if dist_type a = ALL_SAME then track (dist_shep a) (- int (segment_count a)) st
          else untrack_segments ns a [0..<segment_count a] st }"

definition qarray_set_shepof :: "nat \<Rightarrow> qarray \<Rightarrow> nat \<Rightarrow> nat \<Rightarrow> qa_state \<Rightarrow> (qarray \<times> qa_state) option" where
  "qarray_set_shepof ns a i shep st =
     (if i > qa_count a then Some (a, st)
      else case dist_type a of
        FIXED_FIELDS \<Rightarrow> Some (a, st)
      | FIXED_HASH \<Rightarrow> Some (a, st)
      | ALL_SAME \<Rightarrow>
          if dist_shep a \<noteq> shep then
            do { st \<leftarrow> track shep (int (segment_count a)) st;
                 st \<leftarrow> track (dist_shep a) (- int (segment_count a)) st;
                 Some (a\<lparr>dist_shep := shep\<rparr>, st) }
          else Some (a, st)
      | DIST \<Rightarrow>
          do { let seghead = qarray_elem_nomigrate a (i div segment_size a * segment_size a);
               cur \<leftarrow> qarray_internal_segment_shep_read a seghead st;
               c_assert (cur < ns);
               if cur \<noteq> shep then
                 do { st \<leftarrow> track shep 1 st;
                      st \<leftarrow> track cur (- 1) st;
                      st \<leftarrow> qarray_internal_segment_shep_write a seghead shep st;
                      Some (a, st) }
               else Some (a, st) }
      | _ \<Rightarrow> None)"

text \<open>The loop of \<open>qarray_dist_like\<close> over the first elements of the segments; \<open>f\<close> gives the shepherd.\<close>

primrec set_segments :: "nat \<Rightarrow> (nat \<Rightarrow> qa_state \<Rightarrow> nat option) \<Rightarrow> nat list \<Rightarrow> qarray \<times> qa_state \<Rightarrow> (qarray \<times> qa_state) option" where
  "set_segments ns f [] p = Some p"
| "set_segments ns f (k # ks) p =
     do { s \<leftarrow> f (k * segment_size (fst p)) (snd p);
          p \<leftarrow> qarray_set_shepof ns (fst p) (k * segment_size (fst p)) s (snd p);
          set_segments ns f ks p }"

definition qarray_dist_like :: "nat \<Rightarrow> qarray \<Rightarrow> qarray \<Rightarrow> qa_state \<Rightarrow> (qarray \<times> qa_state) option" where
  "qarray_dist_like ns ref md st =
     do { c_assert (qa_count ref = qa_count md);
          c_assert (unit_size ref = unit_size md);
          c_assert (dist_type ref = DIST \<longrightarrow> dist_type md \<noteq> ALL_SAME);
          (case dist_type ref of
             ALL_SAME \<Rightarrow>
               do { shep \<leftarrow> qarray_shepof ns ref st 0;
                    case dist_type md of
                      ALL_SAME \<Rightarrow> qarray_set_shepof ns md 0 shep st
                    | DIST \<Rightarrow> set_segments ns (\<lambda>_ _. Some shep) [0..<segment_count md] (md, st)
                    | _ \<Rightarrow> None }
           | DIST \<Rightarrow>
               do { c_assert (segment_size ref = segment_size md);
                    c_assert (segment_bytes ref = segment_bytes md);
                    c_assert (dist_type md = DIST);
                    set_segments ns (\<lambda>i st. qarray_shepof ns ref st i) [0..<segment_count md] (md, st) }
           | _ \<Rightarrow> None) }"

section \<open>Striders\<close>

text \<open>A strider goes to the next segment of its shepherd from \<open>pos\<close> on; \<open>Some None\<close> when there is none before \<open>max_count\<close>. A segment
  size of 0 is a division by zero.\<close>

function seek :: "(nat \<Rightarrow> nat option) \<Rightarrow> nat \<Rightarrow> nat \<Rightarrow> nat \<Rightarrow> nat \<Rightarrow> nat option option" where
  "seek sh seg shep max_count pos =
     do { c_assert (0 < seg);
          s \<leftarrow> sh pos;
          if s = shep then Some (Some pos)
          else if max_count \<le> pos + seg then Some None
          else seek sh seg shep max_count (pos + seg) }"
  by pat_completeness auto
termination
  by (relation "measure (\<lambda>(sh, seg, shep, max_count, pos). max_count - pos)") (auto simp: c_assert_def split: if_splits)

declare seek.simps [simp del]

text \<open>The first element and the end of the work of a strider.\<close>

definition seek_begin :: "(nat \<Rightarrow> nat option) \<Rightarrow> nat \<Rightarrow> nat \<Rightarrow> nat \<Rightarrow> nat \<Rightarrow> (nat \<times> nat) option option" where
  "seek_begin sh seg shep startat stopat =
     do { away \<leftarrow> (if startat > 0 then map_option (\<lambda>s. s \<noteq> shep) (sh startat) else Some False);
          let pos = (if away then startat + (seg - startat mod seg) else startat);
          if away \<and> stopat \<le> pos then Some None
          else map_option (map_option (\<lambda>c. (c, stopat))) (seek sh seg shep stopat pos) }"

definition strider_begin :: "nat \<Rightarrow> qarray \<Rightarrow> qa_state \<Rightarrow> nat \<Rightarrow> nat \<Rightarrow> nat \<Rightarrow> (nat \<times> nat) option option" where
  "strider_begin ns a st shep startat stopat =
     (case dist_type a of
        ALL_SAME \<Rightarrow> Some (if shep \<noteq> dist_shep a then None else Some (startat, stopat))
      | FIXED_FIELDS \<Rightarrow>
          do { start_shep \<leftarrow> qarray_shepof ns a st startat;
               c_assert (0 < stopat);
               stop_shep \<leftarrow> qarray_shepof ns a st (stopat - 1);
               if shep < start_shep \<or> shep > stop_shep then Some None
               else let pos = (if shep = start_shep then startat
                                 else if shep < extras a then shep * segment_size a * (segs_per_shep a + 1)
                                 else extras a * segment_size a * (segs_per_shep a + 1) + (shep - extras a) * segment_size a * segs_per_shep a);
                        segs = segs_per_shep a + (if shep < extras a then 1 else 0);
                        last_count = pos + (segment_size a * segs - 1)
                    in Some (Some (pos, if stopat > last_count then last_count + 1 else stopat)) }
      | _ \<Rightarrow> seek_begin (qarray_shepof ns a st) (segment_size a) shep startat stopat)"

text \<open>\<open>qarray_loop_strider\<close> has its own arithmetic for \<open>FIXED_FIELDS\<close>.\<close>

definition loop_strider_begin :: "nat \<Rightarrow> qarray \<Rightarrow> qa_state \<Rightarrow> nat \<Rightarrow> nat \<Rightarrow> nat \<Rightarrow> (nat \<times> nat) option option" where
  "loop_strider_begin ns a st shep startat stopat =
     (case dist_type a of
        ALL_SAME \<Rightarrow> Some (if shep \<noteq> dist_shep a then None else Some (startat, stopat))
      | FIXED_FIELDS \<Rightarrow>
          do { start_shep \<leftarrow> qarray_shepof ns a st startat;
               c_assert (0 < stopat);
               stop_shep \<leftarrow> qarray_shepof ns a st (stopat - 1);
               if shep < start_shep \<or> shep > stop_shep then Some None
               else let pos = (if shep = start_shep then startat else shep * segment_size a * segs_per_shep a);
                        last_count = (shep + 1) * segment_size a * segs_per_shep a - 1
                    in Some (Some (pos, if stopat > last_count then last_count else stopat)) }
      | _ \<Rightarrow> seek_begin (qarray_shepof ns a st) (segment_size a) shep startat stopat)"

text \<open>The next segment after the one at \<open>pos\<close>; \<open>Some None\<close> at the end.\<close>

definition strider_next :: "nat \<Rightarrow> qarray \<Rightarrow> qa_state \<Rightarrow> nat \<Rightarrow> nat \<Rightarrow> nat \<Rightarrow> nat option option" where
  "strider_next ns a st shep max_count pos =
     (let upto = (\<lambda>c. if max_count \<le> c then None else Some c) in
      case dist_type a of
        FIXED_FIELDS \<Rightarrow> Some (upto (pos + segment_size a))
      | ALL_SAME \<Rightarrow> Some (upto (pos + segment_size a))
      | DIST \<Rightarrow> if max_count \<le> pos + segment_size a then Some None
                else seek (qarray_shepof ns a st) (segment_size a) shep max_count (pos + segment_size a)
      | _ \<Rightarrow> Some (upto (pos + segment_size a * ns)))"

lemma seek_bounds: "seek sh seg shep max_count pos = Some (Some c) \<Longrightarrow> pos < max_count \<Longrightarrow> pos \<le> c \<and> c < max_count"
proof (induction sh seg shep max_count pos rule: seek.induct)
  case (1 sh seg shep max_count pos)
  show ?case
    using 1 by (subst (asm) seek.simps) (auto split: if_splits Option.bind_splits)
qed

lemma strider_next_bounds:
  assumes "strider_next ns a st shep max_count pos = Some (Some c)" "0 < segment_size a" "0 < ns"
  shows "pos < c \<and> c < max_count"
  using assms seek_bounds [of "qarray_shepof ns a st" "segment_size a" shep max_count "pos + segment_size a" c]
  by (cases "dist_type a") (auto simp: strider_next_def Let_def split: if_splits)

text \<open>The ranges of elements that a strider works on, from \<open>pos\<close> on.\<close>

function strider_walk :: "nat \<Rightarrow> qarray \<Rightarrow> qa_state \<Rightarrow> nat \<Rightarrow> nat \<Rightarrow> nat \<Rightarrow> (nat \<times> nat) list option" where
  "strider_walk ns a st shep max_count pos =
     do { c_assert (0 < segment_size a \<and> 0 < ns);
          let max_offset = (if max_count - pos > segment_size a then segment_size a else max_count - pos);
          r \<leftarrow> strider_next ns a st shep max_count pos;
          case r of
            None \<Rightarrow> Some [(pos, pos + max_offset)]
          | Some c \<Rightarrow> map_option (Cons (pos, pos + max_offset)) (strider_walk ns a st shep max_count c) }"
  by pat_completeness auto
termination
  by (relation "measure (\<lambda>(ns, a, st, shep, max_count, pos). max_count - pos)")
    (auto simp: c_assert_def split: if_splits dest!: strider_next_bounds)

declare strider_walk.simps [simp del]

definition elements :: "(nat \<times> nat) list \<Rightarrow> nat list" where
  "elements rs = concat (map (\<lambda>(x, y). [x..<y]) rs)"

text \<open>The elements on which \<open>qarray_strider\<close> calls the function, in order.\<close>

definition qarray_strider :: "nat \<Rightarrow> qarray \<Rightarrow> qa_state \<Rightarrow> nat \<Rightarrow> nat \<Rightarrow> nat \<Rightarrow> nat list option" where
  "qarray_strider ns a st startat stopat shep =
     do { b \<leftarrow> strider_begin ns a st shep startat stopat;
          case b of
            None \<Rightarrow> Some []
          | Some (pos, max_count) \<Rightarrow> map_option elements (strider_walk ns a st shep max_count pos) }"

text \<open>The ranges that \<open>qarray_loop_strider\<close> hands to the function.\<close>

definition qarray_loop_strider :: "nat \<Rightarrow> qarray \<Rightarrow> qa_state \<Rightarrow> nat \<Rightarrow> nat \<Rightarrow> nat \<Rightarrow> (nat \<times> nat) list option" where
  "qarray_loop_strider ns a st startat stopat shep =
     do { b \<leftarrow> loop_strider_begin ns a st shep startat stopat;
          case b of
            None \<Rightarrow> Some []
          | Some (pos, max_count) \<Rightarrow>
              do { c_assert (pos < max_count);
                   if dist_type a = ALL_SAME \<or> dist_type a = FIXED_FIELDS then Some [(pos, max_count)]
                   else strider_walk ns a st shep max_count pos } }"

section \<open>Loops over an array\<close>

text \<open>The shepherds that get a strider.\<close>

definition iter_sheps :: "nat \<Rightarrow> qarray \<Rightarrow> qa_state \<Rightarrow> nat \<Rightarrow> nat \<Rightarrow> nat list option" where
  "iter_sheps ns a st startat stopat =
     (case dist_type a of
        ALL_SAME \<Rightarrow> Some [dist_shep a]
      | FIXED_FIELDS \<Rightarrow>
          do { start_shep \<leftarrow> qarray_shepof ns a st startat;
               c_assert (0 < stopat);
               stop_shep \<leftarrow> qarray_shepof ns a st (stopat - 1);
               Some [start_shep..<stop_shep + 1] }
      | _ \<Rightarrow> if stopat - startat < segment_size a then map_option (\<lambda>s. [s]) (qarray_shepof ns a st startat) else Some [0..<ns])"

text \<open>What each strider works on; the caller returns when all of them have counted themselves as done.\<close>

definition qarray_iter :: "nat \<Rightarrow> qarray \<Rightarrow> qa_state \<Rightarrow> nat \<Rightarrow> nat \<Rightarrow> (nat \<times> nat list) list option" where
  "qarray_iter ns a st startat stopat =
     do { c_assert (startat \<le> stopat);
          sheps \<leftarrow> iter_sheps ns a st startat stopat;
          those (map (\<lambda>s. map_option (Pair s) (qarray_strider ns a st startat stopat s)) sheps) }"

definition qarray_iter_loop :: "nat \<Rightarrow> qarray \<Rightarrow> qa_state \<Rightarrow> nat \<Rightarrow> nat \<Rightarrow> (nat \<times> (nat \<times> nat) list) list option" where
  "qarray_iter_loop ns a st startat stopat =
     do { c_assert (startat \<le> stopat);
          sheps \<leftarrow> iter_sheps ns a st startat stopat;
          those (map (\<lambda>s. map_option (Pair s) (qarray_loop_strider ns a st startat stopat s)) sheps) }"

end
