(* ===== verification/Qarray_Inv.thy ===== *)
theory Qarray_Inv
  imports Qarray
begin

text \<open>The invariant of a distributed array: where its elements are, which shepherd owns a segment, and that the operations keep it.\<close>

section \<open>Segments\<close>

lemma segment_count_less:
  assumes s: "0 < segment_size a"
  shows "k < segment_count a \<longleftrightarrow> k * segment_size a < qa_count a"
proof -
  define q r where "q = qa_count a div segment_size a" and "r = qa_count a mod segment_size a"
  have c: "qa_count a = q * segment_size a + r" "r < segment_size a" "segment_count a = q + (if r \<noteq> 0 then 1 else 0)"
    using s by (simp_all add: q_def r_def segment_count_def)
  consider "k < q" | "k = q" | "q < k"
    by linarith
  then show ?thesis
  proof cases
    case 1
    then show ?thesis
      using c s by (simp add: trans_less_add1)
  next
    case 3
    then have "(q + 1) * segment_size a \<le> k * segment_size a"
      by (intro mult_le_mono1) simp
    then show ?thesis
      using c 3 by auto
  qed (use c in auto)
qed

lemma div_segment: "0 < segment_size a \<Longrightarrow> i < qa_count a \<Longrightarrow> i div segment_size a < segment_count a"
  by (simp add: segment_count_less) (meson div_times_less_eq_dividend le_less_trans)

lemma segment_count_pos: "0 < segment_size a \<Longrightarrow> 0 < qa_count a \<Longrightarrow> 0 < segment_count a"
  by (simp add: segment_count_less)

lemma elem_eq:
  "i \<le> qa_count a \<Longrightarrow> qarray_elem_nomigrate a i = base_ptr a + (i div segment_size a * segment_bytes a + i mod segment_size a * unit_size a)"
  by (simp add: qarray_elem_nomigrate_def Let_def modulo_nat_def)

text \<open>Segment \<open>k\<close> starts at \<open>head_of a k\<close> and keeps its shepherd at \<open>seg_slot a k\<close>.\<close>

definition head_of :: "qarray \<Rightarrow> nat \<Rightarrow> nat" where
  "head_of a k = base_ptr a + k * segment_bytes a"

definition seg_slot :: "qarray \<Rightarrow> nat \<Rightarrow> nat" where
  "seg_slot a k = (let ptr = head_of a k + segment_size a * unit_size a in if ptr AND 3 \<noteq> 0 then ptr + (4 - (ptr AND 3)) else ptr)"

lemma elem_head: "0 < segment_size a \<Longrightarrow> k < segment_count a \<Longrightarrow> qarray_elem_nomigrate a (k * segment_size a) = head_of a k"
  by (simp add: elem_eq segment_count_less head_of_def)

lemma segment_shep_head:
  "qarray_internal_segment_shep a (head_of a k) = Some p \<longleftrightarrow> dist_type a = DIST \<and> seg_slot a k + 1 < head_of a k + segment_bytes a \<and> p = seg_slot a k"
  by (auto simp: qarray_internal_segment_shep_def seg_slot_def Let_def)

definition owner :: "nat \<Rightarrow> qarray \<Rightarrow> qa_state \<Rightarrow> nat \<Rightarrow> nat" where
  "owner ns a st k =
     (case dist_type a of
        ALL_SAME \<Rightarrow> dist_shep a
      | FIXED_FIELDS \<Rightarrow> (if k div (segs_per_shep a + 1) < extras a then k div (segs_per_shep a + 1) else (k - extras a) div segs_per_shep a)
      | FIXED_HASH \<Rightarrow> k mod ns
      | _ \<Rightarrow> seg_mem st (seg_slot a k))"

text \<open>The shape of an array, and the invariant of an array in a state.\<close>

definition qa_wf :: "nat \<Rightarrow> qarray \<Rightarrow> bool" where
  "qa_wf ns a \<longleftrightarrow> 0 < ns \<and> 0 < qa_count a \<and> 0 < unit_size a \<and> 0 < segment_size a
     \<and> segment_size a * unit_size a \<le> segment_bytes a \<and> base_ptr a \<noteq> 0
     \<and> dist_type a \<in> {ALL_SAME, FIXED_FIELDS, FIXED_HASH, DIST}
     \<and> (dist_type a = DIST \<longrightarrow> (\<forall>k < segment_count a. seg_slot a k + 1 < head_of a k + segment_bytes a))
     \<and> (dist_type a = FIXED_FIELDS \<longrightarrow> 0 < segs_per_shep a \<and> extras a < ns \<and> segment_count a \<le> extras a + ns * segs_per_shep a)"

definition qa_inv :: "nat \<Rightarrow> qarray \<Rightarrow> qa_state \<Rightarrow> bool" where
  "qa_inv ns a st \<longleftrightarrow> qa_wf ns a \<and> length (tracker st) = ns \<and> (\<forall>k < segment_count a. owner ns a st k < ns)"

lemma qa_wfD:
  assumes "qa_wf ns a"
  shows "0 < ns" "0 < qa_count a" "0 < unit_size a" "0 < segment_size a" "segment_size a * unit_size a \<le> segment_bytes a"
    "base_ptr a \<noteq> 0" "0 < segment_count a"
  using assms segment_count_pos [of a] by (simp_all add: qa_wf_def)

lemma shepof_segidx_owner:
  assumes wf: "qa_wf ns a" and k: "k < segment_count a"
  shows "qarray_internal_shepof_segidx ns a st k = Some (owner ns a st k)"
proof (cases "dist_type a = DIST")
  case True
  then have "qarray_internal_segment_shep a (head_of a k) = Some (seg_slot a k)"
    using wf k unfolding segment_shep_head by (simp add: qa_wf_def)
  then show ?thesis
    using True qa_wfD(4) [OF wf] k
    by (simp add: qarray_internal_shepof_segidx_def qarray_internal_segment_shep_read_def owner_def elem_head)
next
  case False
  then show ?thesis
    using wf by (auto simp: qa_wf_def qarray_internal_shepof_segidx_def owner_def)
qed

lemma shepof_owner:
  assumes inv: "qa_inv ns a st" and i: "i < qa_count a"
  shows "qarray_shepof ns a st i = Some (owner ns a st (i div segment_size a))"
proof -
  have wf: "qa_wf ns a"
    using inv by (simp add: qa_inv_def)
  have k: "i div segment_size a < segment_count a"
    using i qa_wfD(4) [OF wf] by (rule div_segment [rotated])
  then have "owner ns a st (i div segment_size a) < ns"
    using inv by (simp add: qa_inv_def)
  then show ?thesis
    using i shepof_segidx_owner [OF wf k] by (auto simp: qarray_shepof_def owner_def)
qed

section \<open>The layout\<close>

lemma elem_in_segment:
  assumes wf: "qa_wf ns a" and i: "i < qa_count a"
  shows "head_of a (i div segment_size a) \<le> qarray_elem_nomigrate a i
    \<and> qarray_elem_nomigrate a i + unit_size a \<le> head_of a (i div segment_size a) + segment_size a * unit_size a"
proof -
  have "i mod segment_size a + 1 \<le> segment_size a"
    using qa_wfD(4) [OF wf] by (simp add: Suc_leI)
  then have "(i mod segment_size a + 1) * unit_size a \<le> segment_size a * unit_size a"
    by (rule mult_le_mono1)
  then show ?thesis
    using i by (simp add: elem_eq head_of_def)
qed

lemma head_mono: "k < l \<Longrightarrow> head_of a k + segment_bytes a \<le> head_of a l"
proof -
  assume "k < l"
  then have "(k + 1) * segment_bytes a \<le> l * segment_bytes a"
    by (intro mult_le_mono1) simp
  then show ?thesis
    by (simp add: head_of_def)
qed

lemma elems_apart:
  assumes wf: "qa_wf ns a" and j: "j < qa_count a" and i: "i < j"
  shows "qarray_elem_nomigrate a i + unit_size a \<le> qarray_elem_nomigrate a j"
proof (cases "i div segment_size a = j div segment_size a")
  case True
  then have "i mod segment_size a < j mod segment_size a"
    using i by (metis div_mult_mod_eq nat_add_left_cancel_less)
  then have "(i mod segment_size a + 1) * unit_size a \<le> j mod segment_size a * unit_size a"
    by (intro mult_le_mono1) simp
  then show ?thesis
    using True i j by (simp add: elem_eq)
next
  case False
  then have "i div segment_size a < j div segment_size a"
    using i by (simp add: div_le_mono le_neq_implies_less)
  from head_mono [OF this, of a] show ?thesis
    using elem_in_segment [OF wf, of i] elem_in_segment [OF wf j] qa_wfD(5) [OF wf] i j by linarith
qed

lemma elem_in_array:
  assumes wf: "qa_wf ns a" and i: "i < qa_count a"
  shows "base_ptr a \<le> qarray_elem_nomigrate a i \<and> qarray_elem_nomigrate a i + unit_size a \<le> base_ptr a + segment_count a * segment_bytes a"
proof -
  have "(i div segment_size a + 1) * segment_bytes a \<le> segment_count a * segment_bytes a"
    using div_segment [OF qa_wfD(4) [OF wf] i] by (intro mult_le_mono1) simp
  then show ?thesis
    using elem_in_segment [OF wf i] qa_wfD(5) [OF wf] by (simp add: head_of_def)
qed

lemma slot_after_elements: "head_of a k + segment_size a * unit_size a \<le> seg_slot a k"
  by (simp add: seg_slot_def Let_def)

lemma slot_apart:
  assumes wf: "qa_wf ns a" and d: "dist_type a = DIST" and k: "k < segment_count a" and i: "i < qa_count a"
  shows "qarray_elem_nomigrate a i + unit_size a \<le> seg_slot a k \<or> seg_slot a k + 2 \<le> qarray_elem_nomigrate a i"
proof -
  let ?l = "i div segment_size a"
  have sl: "seg_slot a k + 1 < head_of a k + segment_bytes a"
    using wf d k by (simp add: qa_wf_def)
  note e = elem_in_segment [OF wf i]
  consider "?l = k" | "?l < k" | "k < ?l"
    by linarith
  then show ?thesis
  proof cases
    case 1
    then show ?thesis
      using e slot_after_elements [of a k] by auto
  next
    case 2
    then show ?thesis
      using e head_mono [OF 2, of a] slot_after_elements [of a k] qa_wfD(5) [OF wf] by linarith
  next
    case 3
    then show ?thesis
      using e head_mono [OF 3, of a] sl by linarith
  qed
qed

lemma slot_inj:
  assumes wf: "qa_wf ns a" and d: "dist_type a = DIST" and k: "k < segment_count a" "l < segment_count a"
  shows "seg_slot a k = seg_slot a l \<longleftrightarrow> k = l"
proof -
  have *: "seg_slot a k < seg_slot a l" if "k < l" "k < segment_count a" for k l
    using wf d that head_mono [of k l a] slot_after_elements [of a l] by (fastforce simp: qa_wf_def)
  show ?thesis
    using * [of k l] * [of l k] k by (metis less_irrefl linorder_neqE_nat)
qed

section \<open>Creation establishes the invariant\<close>

lemma track_Some: "track s n st = Some st' \<longleftrightarrow> s < length (tracker st) \<and> st' = st\<lparr>tracker := (tracker st)[s := tracker st ! s + n]\<rparr>"
  by (auto simp: track_def)

lemma unit_for_pos: "0 < obj \<Longrightarrow> 0 < unit_for tight obj"
  by (simp add: unit_for_def)

lemma seg_sizes_fit:
  assumes "seg_sizes page d unit seg_pages = Some (bytes, sz)"
  shows "0 < sz" "0 < bytes" "sz * unit \<le> bytes"
proof -
  show "0 < sz" "0 < bytes"
    using assms by (auto simp: seg_sizes_def Let_def split: if_splits prod.splits)
  have fit: "B div unit * unit \<le> B" for B
    by simp
  have less: "(B div unit - 1) * unit \<le> B - unit div page * page + x" for B x
  proof -
    have "B div unit * unit - unit \<le> B - unit div page * page"
      by (rule order_trans [OF diff_le_mono [OF fit] diff_le_mono2]) simp
    then show ?thesis
      by (simp add: diff_mult_distrib trans_le_add1)
  qed
  have less': "(B div unit - 1) * unit \<le> B" for B
    using order_trans [OF diff_le_self fit [of B]] by (simp add: diff_mult_distrib)
  show "sz * unit \<le> bytes"
    using assms less less [of _ 0] less' fit by (auto simp: seg_sizes_def Let_def split: if_splits prod.splits)
qed

text \<open>The segments of a list have been placed.\<close>

lemma place_segment_owner:
  assumes st: "place_segment env a d k st = Some st'" and a: "dist_type a = type_for d" "0 < segment_size a" and k: "k < segment_count a"
  shows "owner (num_sheps env) a st' k < num_sheps env
    \<and> (dist_type a = DIST \<longrightarrow> seg_slot a k + 1 < head_of a k + segment_bytes a)
    \<and> (\<forall>p. p \<noteq> seg_slot a k \<longrightarrow> seg_mem st' p = seg_mem st p)
    \<and> (dist_type a \<noteq> DIST \<longrightarrow> seg_mem st' = seg_mem st)
    \<and> tracker st' = (tracker st)[owner (num_sheps env) a st' k := tracker st ! owner (num_sheps env) a st' k + 1]
    \<and> owner (num_sheps env) a st' k < length (tracker st)"
proof (cases "dist_type a = DIST")
  case True
  obtain t st1 where t: "qarray_internal_segment_shep_write a (head_of a k) t st = Some st1" "t < num_sheps env" "track t 1 st1 = Some st'"
    using st True a(2) k by (auto simp: place_segment_def elem_head bind_eq_Some_iff split: if_splits)
  then show ?thesis
    using True by (auto simp: qarray_internal_segment_shep_write_def segment_shep_head track_Some owner_def)
next
  case False
  then have "target_shep env a d k st = Some (owner (num_sheps env) a st' k)" if "target_shep env a d k st \<noteq> None"
    using that a(1)
    by (cases d) (auto simp: target_shep_def type_for_def is_dist_def owner_def qarray_internal_shepof_segidx_def split: if_splits)
  then show ?thesis
    using st False by (auto simp: place_segment_def track_Some bind_eq_Some_iff split: if_splits)
qed

lemma place_segments_owner:
  assumes "place_segments env a d ks st = Some st'" "dist_type a = type_for d" "0 < segment_size a" "\<forall>k \<in> set ks. k < segment_count a"
  shows "(\<forall>k \<in> set ks. owner (num_sheps env) a st' k < num_sheps env
      \<and> (dist_type a = DIST \<longrightarrow> seg_slot a k + 1 < head_of a k + segment_bytes a))
    \<and> (\<forall>p. p \<notin> seg_slot a ` set ks \<longrightarrow> seg_mem st' p = seg_mem st p)
    \<and> length (tracker st') = length (tracker st)"
  using assms(1,4)
proof (induction ks arbitrary: st)
  case (Cons k ks)
  then obtain st1 where st1: "place_segment env a d k st = Some st1" "place_segments env a d ks st1 = Some st'"
    by (auto simp: bind_eq_Some_iff)
  have k: "k < segment_count a"
    using Cons.prems(2) by simp
  note one = place_segment_owner [OF st1(1) assms(2,3) k]
  have ih: "(\<forall>k \<in> set ks. owner (num_sheps env) a st' k < num_sheps env
      \<and> (dist_type a = DIST \<longrightarrow> seg_slot a k + 1 < head_of a k + segment_bytes a))
    \<and> (\<forall>p. p \<notin> seg_slot a ` set ks \<longrightarrow> seg_mem st' p = seg_mem st1 p) \<and> length (tracker st') = length (tracker st1)"
    using Cons.IH [OF st1(2)] Cons.prems(2) by simp
  have "owner (num_sheps env) a st' k < num_sheps env"
  proof (cases "seg_slot a k \<in> seg_slot a ` set ks")
    case True
    then obtain l where "l \<in> set ks" "seg_slot a l = seg_slot a k"
      by force
    moreover have "owner (num_sheps env) a st' l < num_sheps env"
      using ih calculation(1) by blast
    ultimately show ?thesis
      using one by (cases "dist_type a") (auto simp: owner_def)
  next
    case False
    then have "owner (num_sheps env) a st' k = owner (num_sheps env) a st1 k"
      using ih by (simp add: owner_def split: distribution_t.split)
    then show ?thesis
      using one by simp
  qed
  then show ?case
    using one ih by auto
qed simp

lemma fields_fit:
  fixes ns segs sps :: nat
  assumes "0 < ns" and "sps = (if segs div ns = 0 then 1 else segs div ns)"
  shows "segs \<le> segs mod ns + ns * sps"
proof -
  have "ns * (segs div ns) \<le> ns * sps"
    using assms(2) by (auto split: if_splits)
  then show ?thesis
    using mult_div_mod_eq [of ns segs] by linarith
qed

lemma create_inv:
  assumes mk: "qarray_create_internal env base num obj d tight seg_pages st = Some (a, st')" and ns: "0 < num_sheps env"
    and tr: "tracker st = [] \<or> length (tracker st) = num_sheps env"
  shows "qa_inv (num_sheps env) a st' \<and> dist_type a = type_for d \<and> qa_count a = num \<and> unit_size a = unit_for tight obj \<and> base_ptr a = base"
proof -
  obtain bytes sz where c: "0 < num" "0 < obj" "base \<noteq> 0" and sz: "seg_sizes (pagesize env) d (unit_for tight obj) seg_pages = Some (bytes, sz)"
    using mk by (auto simp: qarray_create_internal_def bind_eq_Some_iff Let_def split: if_splits)
  note fit = seg_sizes_fit [OF sz]
  define st0 where "st0 = (if tracker st = [] then st\<lparr>tracker := replicate (num_sheps env) 0\<rparr> else st)"
  have new: "a = new_array env base num (unit_for tight obj) bytes sz d (tracker st0)"
    using mk sz by (auto simp: qarray_create_internal_def bind_eq_Some_iff Let_def st0_def [symmetric] split: if_splits)
  note a = new_array_simps [of env base num "unit_for tight obj" bytes sz d "tracker st0", folded new]
  note f = new_array_fields [of d env base num "unit_for tight obj" bytes sz "tracker st0", folded new]
  have "length (tracker st0) = num_sheps env"
    using tr by (auto simp: st0_def)
  then obtain st1 where place: "place_segments env a d [0..<segment_count a] st1 = Some st'" and len: "length (tracker st1) = num_sheps env"
    using mk sz new
    by (auto simp: qarray_create_internal_def bind_eq_Some_iff Let_def track_Some st0_def [symmetric] split: if_splits)
  have pos: "0 < segment_size a"
    using a fit by simp
  note own = place_segments_owner [OF place a(6) pos, simplified]
  have types: "type_for d \<in> {ALL_SAME, FIXED_FIELDS, FIXED_HASH, DIST}" "type_for d = FIXED_FIELDS \<Longrightarrow> d = FIXED_FIELDS"
    by (cases d; simp add: type_for_def is_dist_def)+
  have "qa_wf (num_sheps env) a"
    unfolding qa_wf_def
    using ns c fit a f pos own types unit_for_pos [OF c(2), of tight] fields_fit [OF ns refl, of "segment_count a"] by (auto simp: Let_def)
  then show ?thesis
    using own a len by (simp add: qa_inv_def)
qed

end
