(* ===== verification/Qarray_Iter.thy ===== *)
theory Qarray_Iter
  imports Qarray_Inv
begin

text \<open>What the striders of a loop over a distributed array visit.\<close>

section \<open>Ranges of segments\<close>

text \<open>The segments before element \<open>stop\<close>, and the elements of one of them.\<close>

definition seg_cut :: "qarray \<Rightarrow> nat \<Rightarrow> nat" where
  "seg_cut a stop = segment_count (a\<lparr>qa_count := stop\<rparr>)"

definition seg_range :: "qarray \<Rightarrow> nat \<Rightarrow> nat \<Rightarrow> nat \<times> nat" where
  "seg_range a stop k = (k * segment_size a, min ((k + 1) * segment_size a) stop)"

lemma less_cut: "0 < segment_size a \<Longrightarrow> k < seg_cut a stop \<longleftrightarrow> k * segment_size a < stop"
  using segment_count_less [of "a\<lparr>qa_count := stop\<rparr>"] by (simp add: seg_cut_def)

lemma cut_le: "0 < segment_size a \<Longrightarrow> stop \<le> qa_count a \<Longrightarrow> seg_cut a stop \<le> segment_count a"
  using less_cut [of a _ stop] segment_count_less [of a] by (metis leI less_le_trans nat_neq_iff)

lemma elements_simps [simp]: "elements [] = []" "elements (r # rs) = [fst r..<snd r] @ elements rs"
  by (simp_all add: elements_def split: prod.split)

lemma elements_segments:
  assumes "0 < segment_size a" "q * segment_size a \<le> stop"
  shows "elements (map (seg_range a stop) [q..<seg_cut a stop]) = [q * segment_size a..<stop]"
  using assms(2)
proof (induction "seg_cut a stop - q" arbitrary: q)
  case 0
  then show ?case
    using less_cut [OF assms(1), of q stop] by simp
next
  case (Suc n)
  then have q: "q < seg_cut a stop"
    by simp
  then have "q * segment_size a < stop"
    using less_cut [OF assms(1)] by simp
  show ?case
  proof (cases "(q + 1) * segment_size a \<le> stop")
    case True
    then have "elements (map (seg_range a stop) [q + 1..<seg_cut a stop]) = [(q + 1) * segment_size a..<stop]"
      using Suc by auto
    then show ?thesis
      using True q upt_add_eq_append [of "q * segment_size a" "(q + 1) * segment_size a" "stop - (q + 1) * segment_size a"]
      by (simp add: upt_conv_Cons seg_range_def)
  next
    case False
    then have "seg_cut a stop \<le> q + 1"
      using less_cut [OF assms(1), of "q + 1" stop] by simp
    then have "[q..<seg_cut a stop] = [q]"
      using q by (simp add: upt_conv_Cons)
    then show ?thesis
      using False by (simp add: seg_range_def min_def)
  qed
qed

lemma in_seg_range: "i \<in> set [fst (seg_range a stop k)..<snd (seg_range a stop k)] \<Longrightarrow> i div segment_size a = k \<and> i < stop"
  by (auto simp: seg_range_def intro!: div_nat_eqI simp: mult.commute)

section \<open>Seeking and walking\<close>

lemma find_filter: "List.find P xs = (case filter P xs of [] \<Rightarrow> None | x # _ \<Rightarrow> Some x)"
  by (induction xs) auto

lemma qa_invD: "qa_inv ns a st \<Longrightarrow> qa_wf ns a" "qa_inv ns a st \<Longrightarrow> 0 < segment_size a" "qa_inv ns a st \<Longrightarrow> 0 < ns"
  using qa_wfD by (auto simp: qa_inv_def)

lemma shepof_head:
  assumes inv: "qa_inv ns a st" and stop: "stop \<le> qa_count a" and q: "q < seg_cut a stop"
  shows "qarray_shepof ns a st (q * segment_size a) = Some (owner ns a st q)"
  using shepof_owner [OF inv, of "q * segment_size a"] less_cut [OF qa_invD(2) [OF inv], of q stop] qa_invD(2) [OF inv] stop q by simp

lemma seek_find:
  assumes inv: "qa_inv ns a st" and stop: "stop \<le> qa_count a" and "q < seg_cut a stop"
  shows "seek (qarray_shepof ns a st) (segment_size a) shep stop (q * segment_size a)
    = Some (map_option (\<lambda>k. k * segment_size a) (List.find (\<lambda>k. owner ns a st k = shep) [q..<seg_cut a stop]))"
  using assms(3)
proof (induction "seg_cut a stop - q" arbitrary: q)
  case (Suc n)
  note size_pos = qa_invD(2) [OF inv] and shepof_head = shepof_head [OF inv stop]
  have next_eq: "q * segment_size a + segment_size a = (q + 1) * segment_size a"
    by simp
  show ?case
  proof (cases "q + 1 < seg_cut a stop")
    case True
    then show ?thesis
      using Suc.hyps(1) [of "q + 1"] Suc.hyps(2) Suc.prems size_pos shepof_head [OF Suc.prems] less_cut [OF size_pos, of "q + 1" stop]
      unfolding upt_conv_Cons [OF Suc.prems] by (subst seek.simps) (simp add: next_eq del: mult_Suc)
  next
    case False
    then show ?thesis
      using Suc.prems size_pos shepof_head [OF Suc.prems] less_cut [OF size_pos, of "q + 1" stop]
      unfolding upt_conv_Cons [OF Suc.prems] by (subst seek.simps) (simp add: next_eq del: mult_Suc)
  qed
qed simp

text \<open>The next segment of the shepherd, whatever the distribution.\<close>

definition finds_next :: "nat \<Rightarrow> qarray \<Rightarrow> qa_state \<Rightarrow> nat \<Rightarrow> nat \<Rightarrow> bool" where
  "finds_next ns a st shep stop \<longleftrightarrow> (\<forall>q < seg_cut a stop. owner ns a st q = shep \<longrightarrow>
     strider_next ns a st shep stop (q * segment_size a)
       = Some (map_option (\<lambda>k. k * segment_size a) (List.find (\<lambda>k. owner ns a st k = shep) [q + 1..<seg_cut a stop])))"

lemma walk_filter:
  assumes inv: "qa_inv ns a st" and nx: "finds_next ns a st shep stop" and "q < seg_cut a stop" "owner ns a st q = shep"
  shows "strider_walk ns a st shep stop (q * segment_size a)
    = Some (map (seg_range a stop) (filter (\<lambda>k. owner ns a st k = shep) [q..<seg_cut a stop]))"
  using assms(3,4)
proof (induction "seg_cut a stop - q" arbitrary: q rule: less_induct)
  case less
  note size_pos = qa_invD(2) [OF inv] and ns_pos = qa_invD(3) [OF inv]
  have less_stop: "q * segment_size a < stop"
    using less.prems less_cut [OF size_pos] by simp
  have off: "q * segment_size a + (if stop - q * segment_size a > segment_size a then segment_size a else stop - q * segment_size a)
      = snd (seg_range a stop q)"
    using less_stop by (auto simp: seg_range_def min_def)
  let ?xs = "filter (\<lambda>k. owner ns a st k = shep) [q + 1..<seg_cut a stop]"
  have nxt: "strider_next ns a st shep stop (q * segment_size a)
      = Some (map_option (\<lambda>k. k * segment_size a) (case ?xs of [] \<Rightarrow> None | x # _ \<Rightarrow> Some x))"
    using nx less.prems unfolding finds_next_def find_filter by blast
  show ?case
  proof (cases ?xs)
    case Nil
    then show ?thesis
      using nxt off size_pos ns_pos less.prems unfolding upt_conv_Cons [OF less.prems(1)]
      by (subst strider_walk.simps) (simp add: Let_def seg_range_def)
  next
    case (Cons k ks)
    then have k: "k \<in> set ?xs"
      by simp
    then have "filter (\<lambda>k. owner ns a st k = shep) [k..<seg_cut a stop] = k # ks"
    proof -
      have "[q + 1..<seg_cut a stop] = [q + 1..<k] @ [k..<seg_cut a stop]"
        using k upt_add_eq_append [of "q + 1" k "seg_cut a stop - k"] by simp
      then have split: "k # ks = filter (\<lambda>k. owner ns a st k = shep) [q + 1..<k] @ filter (\<lambda>k. owner ns a st k = shep) [k..<seg_cut a stop]"
        using Cons by simp
      show ?thesis
      proof (cases "filter (\<lambda>k. owner ns a st k = shep) [q + 1..<k]")
        case (Cons x xs)
        then have "x \<in> set [q + 1..<k]" "x = k"
          using split by (metis filter_is_subset list.set_intros(1) subsetD) (use Cons split in simp)
        then show ?thesis
          by simp
      qed (use split in simp)
    qed
    moreover have "strider_walk ns a st shep stop (k * segment_size a)
        = Some (map (seg_range a stop) (filter (\<lambda>k. owner ns a st k = shep) [k..<seg_cut a stop]))"
      using k less.prems by (intro less.hyps) auto
    ultimately show ?thesis
      using nxt off size_pos ns_pos less.prems Cons unfolding upt_conv_Cons [OF less.prems(1)]
      by (subst strider_walk.simps) (simp add: Let_def seg_range_def)
  qed
qed

section \<open>The striders\<close>

lemma finds_next_dist:
  assumes inv: "qa_inv ns a st" and stop: "stop \<le> qa_count a" and d: "dist_type a = DIST"
  shows "finds_next ns a st shep stop"
  unfolding finds_next_def
proof (intro allI impI)
  fix q
  have e: "q * segment_size a + segment_size a = (q + 1) * segment_size a"
    by simp
  show "strider_next ns a st shep stop (q * segment_size a)
    = Some (map_option (\<lambda>k. k * segment_size a) (List.find (\<lambda>k. owner ns a st k = shep) [q + 1..<seg_cut a stop]))"
    using seek_find [OF inv stop, of "q + 1"] less_cut [OF qa_invD(2) [OF inv], of "q + 1" stop] d
    by (cases "q + 1 < seg_cut a stop") (simp_all add: strider_next_def e del: mult_Suc add_Suc_right)
qed

lemma find_mod:
  assumes ns: "0 < ns" and "q mod ns = shep"
  shows "List.find (\<lambda>k. k mod ns = shep) [q + 1..<m] = (if q + ns < m then Some (q + ns) else None)"
proof -
  have none: "\<forall>k \<in> set [q + 1..<l]. k mod ns \<noteq> shep" if "l \<le> q + ns" for l
  proof
    fix k
    assume "k \<in> set [q + 1..<l]"
    then have "k - q < ns" "0 < k - q" "q \<le> k"
      using that by auto
    then show "k mod ns \<noteq> shep"
      using assms mod_eq_dvd_iff_nat [of q k ns] by (metis nat_dvd_not_less)
  qed
  show ?thesis
  proof (cases "q + ns < m")
    case True
    then have "[q + 1..<m] = [q + 1..<q + ns] @ (q + ns) # [q + ns + 1..<m]"
      using upt_add_eq_append [of "q + 1" "q + ns" "m - (q + ns)"] upt_conv_Cons [of "q + ns" m] ns by simp
    moreover have "List.find (\<lambda>k. k mod ns = shep) [q + 1..<q + ns] = None"
      using none [of "q + ns"] by (auto simp: find_None_iff)
    ultimately show ?thesis
      using True assms by (simp add: find_append)
  next
    case False
    then show ?thesis
      using none [of m] by (auto simp: find_None_iff)
  qed
qed

lemma finds_next_hash:
  assumes inv: "qa_inv ns a st" and h: "dist_type a = FIXED_HASH"
  shows "finds_next ns a st shep stop"
  unfolding finds_next_def
proof (intro allI impI)
  fix q
  assume "owner ns a st q = shep"
  then have q: "q mod ns = shep"
    using h by (simp add: owner_def)
  have e: "q * segment_size a + segment_size a * ns = (q + ns) * segment_size a"
    by (simp add: algebra_simps)
  have "owner ns a st = (\<lambda>k. k mod ns)"
    using h by (auto simp: owner_def)
  then show "strider_next ns a st shep stop (q * segment_size a)
    = Some (map_option (\<lambda>k. k * segment_size a) (List.find (\<lambda>k. owner ns a st k = shep) [q + 1..<seg_cut a stop]))"
    using h find_mod [OF qa_invD(3) [OF inv] q, of "seg_cut a stop"] less_cut [OF qa_invD(2) [OF inv], of "q + ns" stop]
    by (simp add: strider_next_def e)
qed

lemma seek_begin_find:
  assumes inv: "qa_inv ns a st" and stop: "stop \<le> qa_count a" and q: "q < seg_cut a stop"
  shows "seek_begin (qarray_shepof ns a st) (segment_size a) shep (q * segment_size a) stop
    = Some (map_option (\<lambda>k. (k * segment_size a, stop)) (List.find (\<lambda>k. owner ns a st k = shep) [q..<seg_cut a stop]))"
proof (cases "0 < q \<and> owner ns a st q \<noteq> shep")
  case True
  have e: "q * segment_size a + segment_size a = (q + 1) * segment_size a"
    by simp
  show ?thesis
    using True shepof_head [OF inv stop q] qa_invD(2) [OF inv] seek_find [OF inv stop, of "q + 1"] less_cut [OF qa_invD(2) [OF inv], of "q + 1" stop]
    unfolding upt_conv_Cons [OF q]
    by (cases "q + 1 < seg_cut a stop") (auto simp: seek_begin_def e option.map_comp comp_def simp del: mult_Suc)
next
  case False
  then show ?thesis
    using shepof_head [OF inv stop q] qa_invD(2) [OF inv] seek_find [OF inv stop q, of shep]
    by (auto simp: seek_begin_def option.map_comp comp_def)
qed

text \<open>From the first element of a segment on, a strider visits the segments of its shepherd.\<close>

lemma strider_aligned:
  assumes inv: "qa_inv ns a st" and stop: "stop \<le> qa_count a" and q: "q < seg_cut a stop" and d: "dist_type a \<in> {FIXED_HASH, DIST}"
  shows "qarray_loop_strider ns a st (q * segment_size a) stop shep
      = Some (map (seg_range a stop) (filter (\<lambda>k. owner ns a st k = shep) [q..<seg_cut a stop]))
    \<and> qarray_strider ns a st (q * segment_size a) stop shep
      = Some (elements (map (seg_range a stop) (filter (\<lambda>k. owner ns a st k = shep) [q..<seg_cut a stop])))"
proof -
  have nx: "finds_next ns a st shep stop"
    using d finds_next_dist [OF inv stop] finds_next_hash [OF inv] by blast
  have b: "strider_begin ns a st shep (q * segment_size a) stop
      = Some (map_option (\<lambda>k. (k * segment_size a, stop)) (List.find (\<lambda>k. owner ns a st k = shep) [q..<seg_cut a stop]))"
    "loop_strider_begin ns a st shep (q * segment_size a) stop = strider_begin ns a st shep (q * segment_size a) stop"
    using d seek_begin_find [OF inv stop q] by (auto simp: strider_begin_def loop_strider_begin_def)
  show ?thesis
  proof (cases "List.find (\<lambda>k. owner ns a st k = shep) [q..<seg_cut a stop]")
    case None
    then have "filter (\<lambda>k. owner ns a st k = shep) [q..<seg_cut a stop] = []"
      by (simp add: find_None_iff filter_empty_conv)
    then show ?thesis
      using b None by (simp add: qarray_strider_def qarray_loop_strider_def)
  next
    case (Some k)
    obtain i where i: "i < length [q..<seg_cut a stop]" "owner ns a st ([q..<seg_cut a stop] ! i) = shep" "k = [q..<seg_cut a stop] ! i"
        "\<forall>j < i. owner ns a st ([q..<seg_cut a stop] ! j) \<noteq> shep"
      using Some unfolding find_Some_iff by blast
    then have kq: "k = q + i" "k < seg_cut a stop" "owner ns a st k = shep"
      by auto
    have "filter (\<lambda>k. owner ns a st k = shep) [q..<k] = []"
      using i kq(1,2) by (auto simp: filter_empty_conv less_diff_conv2 dest!: le_Suc_ex)
    then have "filter (\<lambda>k. owner ns a st k = shep) [q..<seg_cut a stop] = filter (\<lambda>k. owner ns a st k = shep) [k..<seg_cut a stop]"
      using kq(1,2) upt_add_eq_append [of q k "seg_cut a stop - k"] by simp
    then show ?thesis
      using b Some walk_filter [OF inv nx kq(2,3)] less_cut [OF qa_invD(2) [OF inv], of k stop] kq(2) d
      by (auto simp: qarray_strider_def qarray_loop_strider_def)
  qed
qed

section \<open>Fields\<close>

text \<open>The first segment of a shepherd, when the segments are divided into fields.\<close>

definition field_first :: "qarray \<Rightarrow> nat \<Rightarrow> nat" where
  "field_first a s = (if s < extras a then s * (segs_per_shep a + 1) else extras a * (segs_per_shep a + 1) + (s - extras a) * segs_per_shep a)"

lemma field_first_Suc: "field_first a (s + 1) = field_first a s + segs_per_shep a + (if s < extras a then 1 else 0)"
proof -
  consider "s + 1 < extras a" | "s + 1 = extras a" | "extras a \<le> s"
    by linarith
  then show ?thesis
  proof cases
    case 2
    then show ?thesis
      by (simp add: field_first_def flip: 2)
  qed (simp_all add: field_first_def Suc_diff_le)
qed

lemma field_first_mono: "s \<le> t \<Longrightarrow> field_first a s \<le> field_first a t"
  by (rule lift_Suc_mono_le [where f = "field_first a"]) (simp_all add: field_first_Suc [unfolded Suc_eq_plus1 [symmetric]])

lemma owner_field:
  assumes d: "dist_type a = FIXED_FIELDS" and p: "0 < segs_per_shep a"
  shows "owner ns a st k = s \<longleftrightarrow> field_first a s \<le> k \<and> k < field_first a (s + 1)"
proof -
  have inside: "field_first a (owner ns a st k) \<le> k \<and> k < field_first a (owner ns a st k + 1)"
  proof (cases "k div (segs_per_shep a + 1) < extras a")
    case True
    then show ?thesis
      using d div_times_less_eq_dividend [of k "segs_per_shep a + 1"] dividend_less_div_times [of "segs_per_shep a + 1" k]
      unfolding field_first_Suc by (simp add: owner_def field_first_def)
  next
    case False
    define m where "m = k - extras a * (segs_per_shep a + 1)"
    have "extras a * (segs_per_shep a + 1) \<le> k"
      using False by (metis add_gr_0 less_numeral_extra(1) linorder_not_less less_mult_imp_div_less)
    then have k: "k = extras a * (segs_per_shep a + 1) + m" "k - extras a = m + extras a * segs_per_shep a"
      by (simp_all add: m_def)
    then have "owner ns a st k = extras a + m div segs_per_shep a"
      using False d p by (simp add: owner_def)
    then show ?thesis
      using k(1) p div_times_less_eq_dividend [of m "segs_per_shep a"] dividend_less_div_times [OF p, of m]
      unfolding field_first_Suc by (simp add: field_first_def)
  qed
  show ?thesis
  proof
    assume s: "field_first a s \<le> k \<and> k < field_first a (s + 1)"
    show "owner ns a st k = s"
    proof (rule ccontr)
      assume "owner ns a st k \<noteq> s"
      then consider "owner ns a st k + 1 \<le> s" | "s + 1 \<le> owner ns a st k"
        by linarith
      then show False
        using s inside field_first_mono [of "owner ns a st k + 1" s a] field_first_mono [of "s + 1" "owner ns a st k" a] by cases linarith+
    qed
  qed (use inside in auto)
qed

lemma filter_interval: "filter (\<lambda>k. lo \<le> k \<and> k < hi) [0..<n] = [lo..<min n hi]"
proof (induction n)
  case (Suc n)
  then show ?case
    by (cases "hi \<le> n") (auto simp: min_def)
qed simp

lemma cut_last:
  assumes "0 < segment_size a" "0 < stop"
  shows "(stop - 1) div segment_size a + 1 = seg_cut a stop"
proof -
  let ?l = "(stop - 1) div segment_size a"
  have "?l < seg_cut a stop"
    using assms div_times_less_eq_dividend [of "stop - 1" "segment_size a"] unfolding less_cut [OF assms(1)] by linarith
  moreover have "\<not> ?l + 1 < seg_cut a stop"
    using assms dividend_less_div_times [OF assms(1), of "stop - 1"] unfolding less_cut [OF assms(1)] by simp
  ultimately show ?thesis
    by simp
qed

lemma cut_min:
  assumes "0 < segment_size a"
  shows "seg_cut a (min stop (n * segment_size a)) = min (seg_cut a stop) n"
proof -
  have "k < seg_cut a (min stop (n * segment_size a)) \<longleftrightarrow> k < min (seg_cut a stop) n" for k
    using assms by (simp add: less_cut)
  then show ?thesis
    by (metis nat_neq_iff)
qed

lemma finds_next_field:
  assumes inv: "qa_inv ns a st" and d: "dist_type a = FIXED_FIELDS"
  shows "finds_next ns a st shep (min stop (field_first a (shep + 1) * segment_size a))"
proof -
  define mx K where "mx = min stop (field_first a (shep + 1) * segment_size a)" and "K = min (seg_cut a stop) (field_first a (shep + 1))"
  have K: "seg_cut a mx = K"
    unfolding mx_def K_def by (rule cut_min [OF qa_invD(2) [OF inv]])
  have p: "0 < segs_per_shep a"
    using qa_invD(1) [OF inv] d by (simp add: qa_wf_def)
  have "strider_next ns a st shep mx (q * segment_size a)
      = Some (map_option (\<lambda>k. k * segment_size a) (List.find (\<lambda>k. owner ns a st k = shep) [q + 1..<K]))"
    if q: "q < K" "owner ns a st q = shep" for q
  proof -
    have e: "q * segment_size a + segment_size a = (q + 1) * segment_size a"
      by simp
    have l: "(q + 1) * segment_size a < mx \<longleftrightarrow> q + 1 < K"
      using less_cut [OF qa_invD(2) [OF inv], of "q + 1" mx] unfolding K by simp
    have "owner ns a st (q + 1) = shep" if "q + 1 < K"
      using q that unfolding owner_field [OF d p] K_def by simp
    then show ?thesis
      using d l by (cases "q + 1 < K") (simp_all add: strider_next_def e upt_conv_Cons del: mult_Suc)
  qed
  then show ?thesis
    unfolding finds_next_def mx_def [symmetric] K by blast
qed

lemma strider_fields:
  assumes inv: "qa_inv ns a st" and d: "dist_type a = FIXED_FIELDS" and stop: "0 < stop" "stop \<le> qa_count a"
    and shep: "shep \<le> owner ns a st (seg_cut a stop - 1)"
  shows "qarray_strider ns a st 0 stop shep = Some (elements (map (seg_range a stop) (filter (\<lambda>k. owner ns a st k = shep) [0..<seg_cut a stop])))"
proof -
  let ?sz = "segment_size a" and ?K = "seg_cut a stop" and ?lo = "field_first a shep" and ?hi = "field_first a (shep + 1)"
  define mx where "mx = min stop (?hi * ?sz)"
  have pos: "0 < ?sz" "0 < segs_per_shep a" "0 < qa_count a"
    using qa_invD(1) [OF inv] d by (simp_all add: qa_wf_def)
  note own = owner_field [OF d pos(2)]
  have zero: "owner ns a st 0 = 0"
    using pos(2) unfolding own by (simp add: field_first_def)
  have cut: "(stop - 1) div ?sz = ?K - 1" "0 < ?K"
    using cut_last [OF pos(1) stop(1)] by simp_all
  have lo: "?lo < ?K"
    using field_first_mono [OF shep, of a] own [of ns st "?K - 1" "owner ns a st (?K - 1)"] cut(2) by linarith
  have "owner ns a st 0 = 0" "qarray_shepof ns a st 0 = Some 0"
    using zero shepof_owner [OF inv pos(3)] by simp_all
  moreover have "qarray_shepof ns a st (stop - 1) = Some (owner ns a st (?K - 1))"
    using shepof_owner [OF inv, of "stop - 1"] stop cut by simp
  ultimately have start: "strider_begin ns a st shep 0 stop = Some (Some (?lo * ?sz, mx))"
  proof -
    have c: "(if shep = 0 then 0 else if shep < extras a then shep * ?sz * (segs_per_shep a + 1)
        else extras a * ?sz * (segs_per_shep a + 1) + (shep - extras a) * ?sz * segs_per_shep a) = ?lo * ?sz"
      by (auto simp: field_first_def algebra_simps)
    have "1 \<le> ?sz * (segs_per_shep a + (if shep < extras a then 1 else 0))"
      using pos by (simp add: Suc_le_eq)
    then have "?lo * ?sz + (?sz * (segs_per_shep a + (if shep < extras a then 1 else 0)) - 1) + 1 = ?hi * ?sz"
      unfolding field_first_Suc by (simp add: algebra_simps)
    then show ?thesis
      using \<open>qarray_shepof ns a st 0 = Some 0\<close> \<open>qarray_shepof ns a st (stop - 1) = _\<close> shep d stop(1) c
      by (auto simp: strider_begin_def Let_def mx_def min_def)
  qed
  have at: "owner ns a st ?lo = shep" "?lo < seg_cut a mx"
    using lo pos field_first_Suc [of a shep] unfolding own mx_def cut_min [OF pos(1)] by simp_all
  have seg: "seg_range a mx k = seg_range a stop k" if "k < ?hi" for k
  proof -
    have "(k + 1) * ?sz \<le> ?hi * ?sz"
      using that by (intro mult_le_mono1) simp
    then show ?thesis
      by (auto simp: seg_range_def mx_def min_def)
  qed
  have f: "filter (\<lambda>k. owner ns a st k = shep) [?lo..<seg_cut a mx] = [?lo..<min ?K ?hi]"
    "filter (\<lambda>k. owner ns a st k = shep) [0..<?K] = [?lo..<min ?K ?hi]"
    unfolding own filter_interval mx_def cut_min [OF pos(1)] by (auto simp: filter_id_conv)
  have "strider_walk ns a st shep mx (?lo * ?sz) = Some (map (seg_range a stop) [?lo..<min ?K ?hi])"
    using walk_filter [OF inv finds_next_field [OF inv d, of shep stop, folded mx_def] at(2,1)] seg unfolding f by auto
  then show ?thesis
    using start unfolding f by (simp add: qarray_strider_def)
qed

section \<open>One shepherd, and short ranges\<close>

lemma walk_contiguous:
  assumes "0 < segment_size a" "0 < ns" "dist_type a = ALL_SAME" "pos < stop"
  shows "\<exists>rs. strider_walk ns a st shep stop pos = Some rs \<and> elements rs = [pos..<stop]"
  using assms(4)
proof (induction "stop - pos" arbitrary: pos rule: less_induct)
  case less
  show ?case
  proof (cases "pos + segment_size a < stop")
    case True
    moreover have "stop - (pos + segment_size a) < stop - pos"
      using True assms(1) by linarith
    ultimately obtain rs where rs: "strider_walk ns a st shep stop (pos + segment_size a) = Some rs" "elements rs = [pos + segment_size a..<stop]"
      using less.hyps by blast
    have "strider_walk ns a st shep stop pos = Some ((pos, pos + segment_size a) # rs)"
      using True rs(1) assms by (subst strider_walk.simps) (simp add: strider_next_def)
    then show ?thesis
      using rs(2) True upt_add_eq_append [of pos "pos + segment_size a" "stop - (pos + segment_size a)"] by simp
  next
    case False
    then have "\<not> segment_size a < stop - pos"
      by linarith
    then have "strider_walk ns a st shep stop pos = Some [(pos, stop)]"
      using False less.prems assms by (subst strider_walk.simps) (simp add: strider_next_def Let_def)
    then show ?thesis
      by simp
  qed
qed

lemma strider_short:
  assumes inv: "qa_inv ns a st" and d: "dist_type a \<in> {FIXED_HASH, DIST}" and r: "startat < stop" "stop \<le> qa_count a"
    and short: "stop - startat < segment_size a" and shep: "qarray_shepof ns a st startat = Some shep"
  shows "qarray_strider ns a st startat stop shep = Some [startat..<stop] \<and> qarray_loop_strider ns a st startat stop shep = Some [(startat, stop)]"
proof -
  note pos = qa_invD(2,3) [OF inv]
  have "seek (qarray_shepof ns a st) (segment_size a) shep stop startat = Some (Some startat)"
    using shep pos by (subst seek.simps) simp
  then have b: "strider_begin ns a st shep startat stop = Some (Some (startat, stop))"
    "loop_strider_begin ns a st shep startat stop = Some (Some (startat, stop))"
    using d shep by (auto simp: strider_begin_def loop_strider_begin_def seek_begin_def)
  have "segment_size a \<le> segment_size a * ns"
    using pos by simp
  then have "stop \<le> startat + segment_size a" "stop \<le> startat + segment_size a * ns"
    using short r by linarith+
  then have "strider_next ns a st shep stop startat = Some None"
    using d by (auto simp: strider_next_def)
  then have "strider_walk ns a st shep stop startat = Some [(startat, stop)]"
    using pos short r by (subst strider_walk.simps) (simp add: Let_def)
  then show ?thesis
    using b d r by (auto simp: qarray_strider_def qarray_loop_strider_def)
qed

end
