(* ===== verification/Qarray_Create.thy ===== *)
theory Qarray_Create
  imports Qarray_Inv
begin

text \<open>Creating an array of elements padded to 8 bytes, in segments of the default size, succeeds for every distribution.\<close>

section \<open>Sizes of segments\<close>

lemma and_3_mod: "n AND 3 = n mod 4" for n :: nat
  using take_bit_eq_mask [of 2 n] by (simp add: take_bit_eq_mod mask_eq_exp_minus_1)

lemma and_7_mod: "n AND 7 = n mod 8" for n :: nat
  using take_bit_eq_mask [of 3 n] by (simp add: take_bit_eq_mod mask_eq_exp_minus_1)

lemma unit_for_8: "8 dvd unit_for False obj"
proof -
  define q r where "q = obj div 8" and "r = obj mod 8"
  then have "obj = 8 * q + r" "r < 8"
    by simp_all
  then have "obj + (8 - r) = 8 * (q + 1)"
    by simp
  then have "8 dvd obj + (8 - obj mod 8)"
    unfolding r_def using dvd_triv_left by metis
  then show ?thesis
    by (auto simp: unit_for_def and_7_mod dvd_eq_mod_eq_0)
qed

lemma multiple_8_gap: "8 dvd x \<Longrightarrow> 8 dvd y \<Longrightarrow> x < y \<Longrightarrow> x + 8 \<le> y" for x y :: nat
  by presburger

text \<open>A segment has room for its elements and the number of a shepherd.\<close>

lemma seg_sizes_default:
  assumes p: "8 dvd page" "0 < page" and u: "8 dvd unit" "0 < unit" "unit \<le> 15 * page"
  shows "\<exists>bytes sz. seg_sizes page d unit 0 = Some (bytes, sz) \<and> page dvd bytes \<and> (is_dist d \<longrightarrow> sz * unit + 1 < bytes)"
proof -
  define sz where "sz = 16 * page div unit"
  have fit: "sz * unit \<le> 16 * page" "16 * page < (sz + 1) * unit"
    using u(2) dividend_less_div_times [of unit "16 * page"] by (simp_all add: sz_def)
  have "0 < sz"
    using fit(2) u(3) p(2) by (cases sz) auto
  show ?thesis
  proof (cases "is_dist d \<and> 16 * page - sz * unit < 4")
    case False
    then show ?thesis
      using u p \<open>0 < sz\<close> fit by (auto simp: seg_sizes_def sz_def [symmetric])
  next
    case True
    then have full: "sz * unit = 16 * page"
      using multiple_8_gap [of "sz * unit" "16 * page"] p u fit(1) by (cases "sz * unit = 16 * page") auto
    have "sz \<noteq> 1"
      using full u(3) p(2) by auto
    then obtain m where m: "sz = Suc m" "0 < m"
      using \<open>0 < sz\<close> by (cases sz) auto
    have rest: "m * unit + unit = 16 * page"
      using full m by simp
    have "8 \<le> unit"
      using u(1,2) by (rule dvd_imp_le)
    define bytes where
      "bytes = (if page < unit then 16 * page - unit div page * page + (if unit mod page = 0 then page else 0) else 16 * page)"
    have "page dvd bytes"
      by (simp add: bytes_def)
    moreover have "m * unit + 8 \<le> bytes"
    proof (cases "page < unit")
      case big: True
      have split: "unit = unit div page * page + unit mod page"
        by simp
      have "8 dvd unit mod page"
        using p(1) u(1) by (simp add: dvd_mod)
      then have "unit mod page = 0 \<or> 8 \<le> unit mod page"
        by (auto dest: dvd_imp_le)
      moreover have "8 \<le> page"
        using p by (rule dvd_imp_le)
      moreover have "16 * page - unit div page * page = m * unit + unit mod page"
        using rest split by linarith
      ultimately show ?thesis
        using big by (auto simp: bytes_def)
    qed (use rest \<open>8 \<le> unit\<close> in \<open>simp add: bytes_def\<close>)
    moreover have "seg_sizes page d unit 0 = Some (bytes, m)"
      using True m calculation(2) by (simp add: seg_sizes_def Let_def sz_def [symmetric] bytes_def)
    ultimately show ?thesis
      by auto
  qed
qed

section \<open>Placing the segments\<close>

lemma least_shep_less: "0 < n \<Longrightarrow> least_shep n tr < n"
proof -
  have "foldl (\<lambda>least i. if tr ! i < tr ! least then i else least) x xs < n" if "x < n" "\<forall>i \<in> set xs. i < n" for x xs
    using that by (induction xs arbitrary: x) auto
  then show "0 < n \<Longrightarrow> least_shep n tr < n"
    by (simp add: least_shep_def)
qed

lemma field_shep_less:
  fixes k segs ex ns sps :: nat
  assumes "k < segs" "segs \<le> ex + ns * sps" "ex < ns" "0 < sps"
  shows "(if k div (sps + 1) < ex then k div (sps + 1) else (k - ex) div sps) < ns"
proof -
  have "(k - ex) div sps < ns" if "0 < ns"
    using assms(1,2,4) that less_mult_imp_div_less [of "k - ex" ns sps] by (cases "k < ex") auto
  then show ?thesis
    using assms by auto
qed

lemma target_shep_less:
  assumes ns: "0 < num_sheps env" and k: "k < segment_count a" and ty: "dist_type a = type_for d"
    and f: "d = FIXED_FIELDS \<longrightarrow> 0 < segs_per_shep a \<and> extras a < num_sheps env
      \<and> segment_count a \<le> extras a + num_sheps env * segs_per_shep a"
    and s: "dist_type a = ALL_SAME \<longrightarrow> dist_shep a < num_sheps env"
  shows "\<exists>t < num_sheps env. target_shep env a d k st = Some t"
proof (cases "d = DIST_FIELDS")
  case True
  let ?ns = "num_sheps env" and ?segs = "segment_count a"
  show ?thesis
  proof (cases "?segs div ?ns = 0")
    case z: True
    then have "?segs mod ?ns = ?segs" "?segs < ?ns"
      using ns by (simp_all add: div_eq_0_iff)
    then show ?thesis
      using True k z by (simp add: target_shep_def)
  next
    case False
    then show ?thesis
      using True ns k field_shep_less [of k ?segs "?segs mod ?ns" ?ns "?segs div ?ns"]
      by (auto simp: target_shep_def Let_def not_less split: if_splits)
  qed
next
  case False
  then show ?thesis
    using ns s ty f field_shep_less [OF k, of "extras a" "num_sheps env" "segs_per_shep a"] least_shep_less [OF ns]
    by (cases d) (auto simp: target_shep_def type_for_def is_dist_def qarray_internal_shepof_segidx_def Let_def split: if_splits)
qed

lemma place_segments_succeed:
  assumes ns: "0 < num_sheps env" and a: "dist_type a = type_for d" "0 < segment_size a"
    and f: "d = FIXED_FIELDS \<longrightarrow> 0 < segs_per_shep a \<and> extras a < num_sheps env
      \<and> segment_count a \<le> extras a + num_sheps env * segs_per_shep a"
    and s: "dist_type a = ALL_SAME \<longrightarrow> dist_shep a < num_sheps env"
    and slots: "dist_type a = DIST \<longrightarrow> (\<forall>k < segment_count a. seg_slot a k + 1 < head_of a k + segment_bytes a)"
    and ks: "\<forall>k \<in> set ks. k < segment_count a" and len: "length (tracker st) = num_sheps env"
  shows "\<exists>st'. place_segments env a d ks st = Some st'"
  using ks len
proof (induction ks arbitrary: st)
  case (Cons k ks)
  then have k: "k < segment_count a"
    by simp
  obtain t where t: "t < num_sheps env" "target_shep env a d k st = Some t"
    using target_shep_less [OF ns k a(1) f s] by blast
  have slot: "dist_type a = DIST \<Longrightarrow> qarray_internal_segment_shep a (head_of a k) = Some (seg_slot a k)"
    using slots k by (simp add: segment_shep_head)
  have "\<exists>st1. place_segment env a d k st = Some st1 \<and> length (tracker st1) = num_sheps env"
    using t slot a(2) k Cons.prems(2)
    by (auto simp: place_segment_def elem_head qarray_internal_segment_shep_write_def track_def)
  then show ?case
    using Cons.IH Cons.prems(1) by auto
qed simp

lemma create_succeeds:
  assumes p: "8 dvd pagesize env" "0 < pagesize env" and base: "pagesize env dvd base" "base \<noteq> 0"
    and n: "0 < num" "0 < obj" "unit_for False obj \<le> 15 * pagesize env"
    and ns: "0 < num_sheps env" "cur_shep env < num_sheps env" and tr: "tracker st = [] \<or> length (tracker st) = num_sheps env"
  shows "\<exists>a st'. qarray_create_internal env base num obj d False 0 st = Some (a, st')"
proof -
  let ?unit = "unit_for False obj" and ?ns = "num_sheps env"
  define st0 where "st0 = (if tracker st = [] then st\<lparr>tracker := replicate ?ns 0\<rparr> else st)"
  have len: "length (tracker st0) = ?ns"
    using tr by (auto simp: st0_def)
  obtain bytes sz where sz: "seg_sizes (pagesize env) d ?unit 0 = Some (bytes, sz)" "pagesize env dvd bytes" "is_dist d \<longrightarrow> sz * ?unit + 1 < bytes"
    using seg_sizes_default [OF p unit_for_8 unit_for_pos n(3)] n(2) by blast
  define a where "a = new_array env base num ?unit bytes sz d (tracker st0)"
  note a = new_array_simps [of env base num ?unit bytes sz d "tracker st0", folded a_def]
  have f: "d = FIXED_FIELDS \<longrightarrow> 0 < segs_per_shep a \<and> extras a < ?ns \<and> segment_count a \<le> extras a + ?ns * segs_per_shep a"
    using ns(1) fields_fit [OF ns(1) refl, of "segment_count a"] new_array_fields [of d env base num ?unit bytes sz "tracker st0", folded a_def]
    by (auto simp: Let_def)
  have s: "dist_type a = ALL_SAME \<longrightarrow> dist_shep a < ?ns"
    using ns least_shep_less [OF ns(1)] unfolding a by (cases d) (auto simp: shep_for_def type_for_def is_dist_def)
  have slots: "seg_slot a k + 1 < head_of a k + segment_bytes a" if "dist_type a = DIST" for k
  proof -
    have "is_dist d"
      using that a(6) by (auto simp: type_for_def split: if_splits)
    moreover have "8 dvd head_of a k + segment_size a * unit_size a"
      using p(1) base(1) sz(2) unit_for_8 [of obj] unfolding head_of_def a by (meson dvd_add dvd_mult dvd_trans)
    then have "(head_of a k + segment_size a * unit_size a) mod 4 = 0"
      by presburger
    ultimately show ?thesis
      using sz(3) by (simp add: seg_slot_def Let_def and_3_mod a)
  qed
  obtain st1 where st1: "(if type_for d = ALL_SAME then track (dist_shep a) (int (segment_count a)) st0 else Some st0) = Some st1"
      "length (tracker st1) = ?ns"
    using s len a that by (cases "type_for d = ALL_SAME") (simp_all add: track_def)
  obtain st2 where "place_segments env a d [0..<segment_count a] st1 = Some st2"
    using place_segments_succeed [OF ns(1) a(6) _ f s _ _ st1(2), of "[0..<segment_count a]"] slots seg_sizes_fit(1) [OF sz(1)] a by auto
  then have "qarray_create_internal env base num obj d False 0 st = Some (a, st2)"
    using n base sz st1 a
    by (cases "type_for d = ALL_SAME") (simp_all add: qarray_create_internal_def Let_def st0_def [symmetric] a_def)
  then show ?thesis
    by blast
qed

end
