(* ===== verification/Qarray_Track.thy ===== *)
theory Qarray_Track
  imports Qarray_Create
begin

text \<open>The global count of segments per shepherd, through creation, redistribution and destruction of an array.\<close>

section \<open>Counting the segments of a shepherd\<close>

definition owned :: "nat \<Rightarrow> qarray \<Rightarrow> qa_state \<Rightarrow> nat \<Rightarrow> nat" where
  "owned ns a st x = length (filter (\<lambda>k. owner ns a st k = x) [0..<segment_count a])"

lemma owner_cong: "(dist_type a = DIST \<Longrightarrow> seg_mem st' (seg_slot a k) = seg_mem st (seg_slot a k)) \<Longrightarrow> dist_type a \<in> {ALL_SAME, FIXED_FIELDS, FIXED_HASH, DIST}
    \<Longrightarrow> owner ns a st' k = owner ns a st k"
  by (auto simp: owner_def)

lemma qa_wf_type: "qa_wf ns a \<Longrightarrow> dist_type a \<in> {ALL_SAME, FIXED_FIELDS, FIXED_HASH, DIST}"
  by (simp add: qa_wf_def)

lemma owner_tracker [simp]: "owner ns a (st\<lparr>tracker := t\<rparr>) k = owner ns a st k"
  by (cases "dist_type a") (simp_all add: owner_def)

lemma owned_tracker [simp]: "owned ns a (st\<lparr>tracker := t\<rparr>) x = owned ns a st x"
  by (simp add: owned_def)

lemma place_segments_tracker:
  assumes wf: "qa_wf (num_sheps env) a" and ty: "dist_type a = type_for d"
    and "place_segments env a d ks st = Some st'" "distinct ks" "\<forall>k \<in> set ks. k < segment_count a" "x < length (tracker st)"
  shows "tracker st' ! x = tracker st ! x + int (length (filter (\<lambda>k. owner (num_sheps env) a st' k = x) ks))"
  using assms(3-)
proof (induction ks arbitrary: st)
  case (Cons k ks)
  let ?ns = "num_sheps env"
  obtain st1 where st1: "place_segment env a d k st = Some st1" "place_segments env a d ks st1 = Some st'"
    using Cons.prems(1) by (auto simp: bind_eq_Some_iff)
  have k: "k < segment_count a" "k \<notin> set ks"
    using Cons.prems by simp_all
  note one = place_segment_owner [OF st1(1) ty qa_wfD(4) [OF wf] k(1)]
  have rest: "\<forall>p. p \<notin> seg_slot a ` set ks \<longrightarrow> seg_mem st' p = seg_mem st1 p"
    using place_segments_owner [OF st1(2) ty qa_wfD(4) [OF wf]] Cons.prems(3) by simp
  have "dist_type a = DIST \<Longrightarrow> seg_slot a k \<notin> seg_slot a ` set ks"
    using slot_inj [OF wf] k Cons.prems(3) by force
  then have same: "owner ?ns a st' k = owner ?ns a st1 k"
    using rest qa_wf_type [OF wf] by (intro owner_cong) auto
  have "tracker st' ! x = tracker st1 ! x + int (length (filter (\<lambda>k. owner ?ns a st' k = x) ks))"
    using Cons.IH [OF st1(2)] Cons.prems one by simp
  then show ?case
    using one same Cons.prems(4) by (auto simp: nth_list_update)
qed simp

lemma create_place:
  assumes mk: "qarray_create_internal env base num obj d tight seg_pages st = Some (a, st')" and ne: "tracker st \<noteq> []"
  shows "\<exists>st1. (if dist_type a = ALL_SAME then track (dist_shep a) (int (segment_count a)) st else Some st) = Some st1
    \<and> place_segments env a d [0..<segment_count a] st1 = Some st'"
proof -
  obtain bytes sz where sz: "seg_sizes (pagesize env) d (unit_for tight obj) seg_pages = Some (bytes, sz)"
      and new: "a = new_array env base num (unit_for tight obj) bytes sz d (tracker st)"
    using mk ne by (auto simp: qarray_create_internal_def bind_eq_Some_iff Let_def split: if_splits)
  have ty: "dist_type a = type_for d"
    using new by simp
  show ?thesis
    using mk ne sz new [symmetric] ty by (cases "type_for d = ALL_SAME") (auto simp: qarray_create_internal_def bind_eq_Some_iff Let_def split: if_splits)
qed

lemma create_tracker:
  assumes mk: "qarray_create_internal env base num obj d tight seg_pages st = Some (a, st')" and ns: "0 < num_sheps env"
    and tr: "length (tracker st) = num_sheps env" and x: "x < num_sheps env"
  shows "tracker st' ! x = tracker st ! x + (if type_for d = ALL_SAME then 2 else 1) * int (owned (num_sheps env) a st' x)"
proof -
  note inv = create_inv [OF mk ns]
  have wf: "qa_wf (num_sheps env) a" "dist_type a = type_for d"
    using inv tr by (simp_all add: qa_inv_def)
  have ne: "tracker st \<noteq> []"
    using tr ns by auto
  obtain st1 where st1: "(if dist_type a = ALL_SAME then track (dist_shep a) (int (segment_count a)) st else Some st) = Some st1"
      and place: "place_segments env a d [0..<segment_count a] st1 = Some st'"
    using create_place [OF mk ne] by blast
  have len: "length (tracker st1) = num_sheps env"
    using st1 tr by (auto simp: track_Some split: if_splits)
  have "tracker st' ! x = tracker st1 ! x + int (owned (num_sheps env) a st' x)"
    using place_segments_tracker [OF wf place] x len by (simp add: owned_def)
  moreover have "tracker st1 ! x = tracker st ! x + (if type_for d = ALL_SAME then int (owned (num_sheps env) a st' x) else 0)"
  proof (cases "type_for d = ALL_SAME")
    case True
    have "owner (num_sheps env) a st' k = dist_shep a" for k
      using True wf(2) by (simp add: owner_def)
    then have "owned (num_sheps env) a st' x = (if x = dist_shep a then segment_count a else 0)"
      by (auto simp: owned_def)
    then show ?thesis
      using True wf(2) st1 tr x by (auto simp: track_Some nth_list_update)
  qed (use st1 wf(2) in simp)
  ultimately show ?thesis
    by simp
qed

lemma untrack_segments_tracker:
  assumes wf: "qa_wf ns a" and "\<forall>k \<in> set ks. k < segment_count a \<and> owner ns a st k < ns" "length (tracker st) = ns"
  shows "\<exists>st'. untrack_segments ns a ks st = Some st' \<and> length (tracker st') = ns
    \<and> (\<forall>x < ns. tracker st' ! x = tracker st ! x - int (length (filter (\<lambda>k. owner ns a st k = x) ks)))"
  using assms(2,3)
proof (induction ks arbitrary: st)
  case (Cons k ks)
  let ?o = "owner ns a st k"
  let ?st = "st\<lparr>tracker := (tracker st)[?o := tracker st ! ?o - 1]\<rparr>"
  have "qarray_internal_shepof_segidx ns a st k = Some ?o"
    using shepof_segidx_owner [OF wf] Cons.prems by simp
  moreover have "track ?o (- 1) st = Some ?st"
    using Cons.prems by (simp add: track_def)
  moreover obtain st' where "untrack_segments ns a ks ?st = Some st'" "length (tracker st') = ns"
      "\<forall>x < ns. tracker st' ! x = tracker ?st ! x - int (length (filter (\<lambda>k. owner ns a st k = x) ks))"
    using Cons.IH [of ?st] Cons.prems by auto
  ultimately show ?case
    using Cons.prems by (auto simp: nth_list_update)
qed simp

lemma destroy_tracker:
  assumes inv: "qa_inv ns a st"
  shows "\<exists>st'. qarray_destroy ns a st = Some st' \<and> (\<forall>x < ns. tracker st' ! x = tracker st ! x - int (owned ns a st x))"
proof -
  have wf: "qa_wf ns a" and len: "length (tracker st) = ns" and own: "\<forall>k < segment_count a. owner ns a st k < ns"
    using inv by (simp_all add: qa_inv_def)
  show ?thesis
  proof (cases "dist_type a = ALL_SAME")
    case True
    then have o: "owner ns a st k = dist_shep a" for k
      by (simp add: owner_def)
    then have "owned ns a st x = (if x = dist_shep a then segment_count a else 0)" for x
      by (auto simp: owned_def)
    moreover have "dist_shep a < ns"
      using own o qa_wfD(7) [OF wf] by auto
    ultimately show ?thesis
      using True len qa_wfD(6) [OF wf] by (simp add: qarray_destroy_def track_def nth_list_update)
  next
    case False
    then show ?thesis
      using untrack_segments_tracker [OF wf, of "[0..<segment_count a]" st] own len qa_wfD(6) [OF wf]
      by (auto simp: qarray_destroy_def owned_def)
  qed
qed

section \<open>Redistribution\<close>

text \<open>What \<open>qarray_set_shepof\<close> does: the segment of element \<open>i\<close> (the whole array, if it has one shepherd) moves to \<open>s\<close>, and the
  tracker follows.\<close>

definition moved :: "nat \<Rightarrow> qarray \<Rightarrow> qa_state \<Rightarrow> nat \<Rightarrow> nat \<Rightarrow> qarray \<Rightarrow> qa_state \<Rightarrow> bool" where
  "moved ns a st i s a' st' \<longleftrightarrow> qa_inv ns a' st' \<and> dist_type a' = dist_type a \<and> segment_count a' = segment_count a
     \<and> qa_count a' = qa_count a \<and> segment_size a' = segment_size a \<and> (dist_type a = DIST \<longrightarrow> a' = a)
     \<and> (\<forall>k < segment_count a. owner ns a' st' k
          = (if dist_type a = ALL_SAME \<or> dist_type a = DIST \<and> k = i div segment_size a then s else owner ns a st k))
     \<and> (\<forall>x < ns. tracker st' ! x - int (owned ns a' st' x) = tracker st ! x - int (owned ns a st x))
     \<and> (\<forall>p. (\<forall>k < segment_count a. p \<noteq> seg_slot a k) \<longrightarrow> seg_mem st' p = seg_mem st p)"

lemma set_shepof_same:
  assumes inv: "qa_inv ns a st" and d: "dist_type a = ALL_SAME" and i: "i < qa_count a" and s: "s < ns" "s \<noteq> dist_shep a"
  shows "\<exists>a' st'. qarray_set_shepof ns a i s st = Some (a', st') \<and> moved ns a st i s a' st'"
proof -
  let ?a = "a\<lparr>dist_shep := s\<rparr>" and ?n = "int (segment_count a)"
  let ?t = "(tracker st)[s := tracker st ! s + ?n, dist_shep a := tracker st ! dist_shep a - ?n]"
  have len: "length (tracker st) = ns" and o: "owner ns a st k = dist_shep a" "owner ns ?a st' k = s" for k st'
    using inv d by (simp_all add: qa_inv_def owner_def)
  have old: "dist_shep a < ns"
    using inv o(1) qa_wfD(7) by (auto simp: qa_inv_def)
  have "owned ns a st x = (if x = dist_shep a then segment_count a else 0)" "owned ns ?a st' x = (if x = s then segment_count a else 0)" for x st'
    using o by (auto simp: owned_def segment_count_def)
  moreover have "qa_wf ns ?a"
    using inv d by (simp add: qa_inv_def qa_wf_def segment_count_def)
  ultimately have "moved ns a st i s ?a (st\<lparr>tracker := ?t\<rparr>)"
    using len old s d o unfolding moved_def qa_inv_def by (auto simp: nth_list_update segment_count_def)
  moreover have "qarray_set_shepof ns a i s st = Some (?a, st\<lparr>tracker := ?t\<rparr>)"
    using d i s len old by (simp add: qarray_set_shepof_def track_def)
  ultimately show ?thesis
    by blast
qed

lemma owned_map: "owned ns a st x = length (filter (\<lambda>y. y = x) (map (owner ns a st) [0..<segment_count a]))"
  by (simp add: owned_def filter_map comp_def)

lemma owned_update:
  assumes k: "k < segment_count a" and o: "\<And>l. l < segment_count a \<Longrightarrow> owner ns a st' l = (if l = k then s else owner ns a st l)"
  shows "int (owned ns a st' x) = int (owned ns a st x) + (if s = x then 1 else 0) - (if owner ns a st k = x then 1 else 0)"
proof -
  have "map (owner ns a st') [0..<segment_count a] = (map (owner ns a st) [0..<segment_count a])[k := s]"
    using o by (intro nth_equalityI) (simp_all add: nth_list_update)
  then have "owned ns a st' x + (if owner ns a st k = x then 1 else 0) = owned ns a st x + (if s = x then 1 else 0)"
    using filter_length_update [of k "map (owner ns a st) [0..<segment_count a]" "\<lambda>y. y = x" s] k unfolding owned_map by simp
  then show ?thesis
    by (auto split: if_splits)
qed

lemma set_shepof_dist:
  assumes inv: "qa_inv ns a st" and d: "dist_type a = DIST" and i: "i < qa_count a" and s: "s < ns" "s \<noteq> owner ns a st (i div segment_size a)"
  shows "\<exists>a' st'. qarray_set_shepof ns a i s st = Some (a', st') \<and> moved ns a st i s a' st'"
proof -
  let ?k = "i div segment_size a" and ?o = "owner ns a st (i div segment_size a)"
  define st' where "st' = \<lparr>tracker = (tracker st)[s := tracker st ! s + 1, ?o := tracker st ! ?o - 1], seg_mem = (seg_mem st)(seg_slot a ?k := s)\<rparr>"
  have wf: "qa_wf ns a" and len: "length (tracker st) = ns" and own: "\<forall>k < segment_count a. owner ns a st k < ns"
    using inv by (simp_all add: qa_inv_def)
  have k: "?k < segment_count a"
    using div_segment [OF qa_wfD(4) [OF wf] i] .
  have slot: "qarray_internal_segment_shep a (head_of a ?k) = Some (seg_slot a ?k)"
    using wf d k unfolding segment_shep_head by (simp add: qa_wf_def)
  have o: "owner ns a st' l = (if l = ?k then s else owner ns a st l)" if "l < segment_count a" for l
    using slot_inj [OF wf d that k] d by (simp add: owner_def st'_def)
  have "qarray_set_shepof ns a i s st = Some (a, st')"
    using d i s own k len slot qa_wfD(4) [OF wf] unfolding st'_def
    by (auto simp: qarray_set_shepof_def elem_head qarray_internal_segment_shep_read_def qarray_internal_segment_shep_write_def track_def owner_def)
  moreover have "tracker st' ! x - int (owned ns a st' x) = tracker st ! x - int (owned ns a st x)" if "x < ns" for x
    using owned_update [OF k o] s own k len that by (simp add: st'_def nth_list_update)
  then have "moved ns a st i s a st'"
    using wf len own o s(1) d k unfolding moved_def qa_inv_def by (auto simp: st'_def)
  ultimately show ?thesis
    by blast
qed

lemma set_shepof_moved:
  assumes inv: "qa_inv ns a st" and i: "i < qa_count a" and s: "s < ns"
  shows "\<exists>a' st'. qarray_set_shepof ns a i s st = Some (a', st') \<and> moved ns a st i s a' st'"
proof -
  have wf: "qa_wf ns a"
    using inv by (simp add: qa_inv_def)
  have k: "i div segment_size a < segment_count a"
    using div_segment [OF qa_wfD(4) [OF wf] i] .
  consider (same) "dist_type a = ALL_SAME" "s \<noteq> dist_shep a" | (dist) "dist_type a = DIST" "s \<noteq> owner ns a st (i div segment_size a)"
    | (none) "dist_type a = FIXED_HASH \<or> dist_type a = FIXED_FIELDS \<or> dist_type a = ALL_SAME \<and> s = dist_shep a
        \<or> dist_type a = DIST \<and> s = owner ns a st (i div segment_size a)"
    using qa_wf_type [OF wf] by blast
  then show ?thesis
  proof cases
    case none
    then have "moved ns a st i s a st"
      using inv by (auto simp: moved_def owner_def)
    moreover have "qarray_internal_segment_shep_read a (head_of a (i div segment_size a)) st = Some (owner ns a st (i div segment_size a))"
      if "dist_type a = DIST"
      using shepof_segidx_owner [OF wf k, of st] that qa_wfD(4) [OF wf] k by (simp add: qarray_internal_shepof_segidx_def elem_head)
    then have "qarray_set_shepof ns a i s st = Some (a, st)"
      using none i inv k qa_wfD(4) [OF wf] s by (auto simp: qarray_set_shepof_def elem_head)
    ultimately show ?thesis
      by blast
  qed (use set_shepof_same [OF inv _ i s] set_shepof_dist [OF inv _ i s] in blast)+
qed

text \<open>A sequence of redistributions.\<close>

primrec redistribute :: "nat \<Rightarrow> (nat \<times> nat) list \<Rightarrow> qarray \<times> qa_state \<Rightarrow> (qarray \<times> qa_state) option" where
  "redistribute ns [] p = Some p"
| "redistribute ns (m # ms) p = do { p \<leftarrow> qarray_set_shepof ns (fst p) (fst m) (snd m) (snd p); redistribute ns ms p }"

lemma redistribute_balance:
  assumes "qa_inv ns a st" "\<forall>(i, s) \<in> set ms. i < qa_count a \<and> s < ns"
  shows "\<exists>a' st'. redistribute ns ms (a, st) = Some (a', st') \<and> qa_inv ns a' st'
    \<and> (\<forall>x < ns. tracker st' ! x - int (owned ns a' st' x) = tracker st ! x - int (owned ns a st x))"
  using assms
proof (induction ms arbitrary: a st)
  case (Cons m ms)
  obtain a1 st1 where m: "qarray_set_shepof ns a (fst m) (snd m) st = Some (a1, st1)" "moved ns a st (fst m) (snd m) a1 st1"
    using set_shepof_moved [OF Cons.prems(1), of "fst m" "snd m"] Cons.prems(2) by auto
  then show ?case
    using Cons.IH [of a1 st1] Cons.prems(2) by (auto simp: moved_def)
qed simp

section \<open>Copying a distribution\<close>

text \<open>The memory outside of the slots of \<open>a\<close> is the same.\<close>

definition same_outside :: "nat \<Rightarrow> qarray \<Rightarrow> qa_state \<Rightarrow> qa_state \<Rightarrow> bool" where
  "same_outside ns a st st' \<longleftrightarrow> length (tracker st') = ns \<and> (\<forall>p. (\<forall>k < segment_count a. p \<noteq> seg_slot a k) \<longrightarrow> seg_mem st' p = seg_mem st p)"

lemma set_segments_copy:
  assumes "qa_inv ns md st" "dist_type md = DIST" "\<forall>k \<in> set ks. k < segment_count md \<and> g k < ns"
    and "\<And>k st'. k \<in> set ks \<Longrightarrow> same_outside ns md st st' \<Longrightarrow> f (k * segment_size md) st' = Some (g k)"
  shows "\<exists>st'. set_segments ns f ks (md, st) = Some (md, st') \<and> qa_inv ns md st' \<and> same_outside ns md st st'
    \<and> (\<forall>k < segment_count md. owner ns md st' k = (if k \<in> set ks then g k else owner ns md st k))
    \<and> (\<forall>x < ns. tracker st' ! x - int (owned ns md st' x) = tracker st ! x - int (owned ns md st x))"
  using assms
proof (induction ks arbitrary: st)
  case Nil
  then show ?case
    by (simp add: same_outside_def qa_inv_def)
next
  case (Cons k ks)
  have pos: "0 < segment_size md"
    using Cons.prems(1) qa_wfD(4) by (auto simp: qa_inv_def)
  have "same_outside ns md st st"
    using Cons.prems(1) by (simp add: same_outside_def qa_inv_def)
  then have f: "f (k * segment_size md) st = Some (g k)"
    using Cons.prems(4) by simp
  have k: "k * segment_size md < qa_count md" "g k < ns"
    using Cons.prems(3) segment_count_less [OF pos, of k] by auto
  obtain st1 where st1: "qarray_set_shepof ns md (k * segment_size md) (g k) st = Some (md, st1)" "moved ns md st (k * segment_size md) (g k) md st1"
    using set_shepof_moved [OF Cons.prems(1) k] Cons.prems(2) by (auto simp: moved_def)
  have out: "same_outside ns md st st1"
    using st1(2) by (simp add: moved_def same_outside_def qa_inv_def)
  have inv1: "qa_inv ns md st1" and own1: "\<forall>l < segment_count md. owner ns md st1 l = (if l = k then g k else owner ns md st l)"
      and bal1: "\<forall>x < ns. tracker st1 ! x - int (owned ns md st1 x) = tracker st ! x - int (owned ns md st x)"
    using st1(2) Cons.prems(2) pos by (simp_all add: moved_def)
  have trans: "same_outside ns md st st'" if "same_outside ns md st1 st'" for st'
    using out that by (simp add: same_outside_def)
  obtain st' where st': "set_segments ns f ks (md, st1) = Some (md, st')" "qa_inv ns md st'" "same_outside ns md st1 st'"
      "\<forall>l < segment_count md. owner ns md st' l = (if l \<in> set ks then g l else owner ns md st1 l)"
      "\<forall>x < ns. tracker st' ! x - int (owned ns md st' x) = tracker st1 ! x - int (owned ns md st1 x)"
    using Cons.IH [OF inv1 Cons.prems(2)] Cons.prems(3,4) trans by auto
  have "set_segments ns f (k # ks) (md, st) = Some (md, st')"
    using f st1(1) st'(1) by simp
  then show ?case
    using st' own1 bal1 trans by auto
qed

end
