(* ===== verification/Qarray_Props.thy ===== *)
theory Qarray_Props
  imports Qarray_Iter Qarray_Track
begin

text \<open>Properties of the distributed array: its layout, the loops over it, and the bookkeeping of its segments.\<close>

section \<open>Loops\<close>

lemma those_map: "(\<And>x. x \<in> set xs \<Longrightarrow> f x = Some (g x)) \<Longrightarrow> those (map f xs) = Some (map g xs)"
  by (induction xs) auto

text \<open>Work divided by owner is the whole work.\<close>

lemma mset_by_owner:
  assumes "distinct sheps" "\<forall>k \<in> set ks. own k \<in> set sheps"
  shows "mset (concat (map (\<lambda>s. concat (map h (filter (\<lambda>k. own k = s) ks))) sheps)) = mset (concat (map h ks))"
  using assms(2)
proof (induction ks)
  case (Cons k ks)
  have "mset (concat (map (\<lambda>s. concat (map h (filter (\<lambda>k. own k = s) (k # ks)))) xs))
      = (if own k \<in> set xs then mset (h k) else {#}) + mset (concat (map (\<lambda>s. concat (map h (filter (\<lambda>k. own k = s) ks))) xs))"
    if "distinct xs" for xs
    using that by (induction xs) auto
  from this [OF assms(1)] show ?case
    using Cons by simp
qed (induction sheps, simp_all)

lemma elements_concat: "elements (map (seg_range a stop) ks) = concat (map (\<lambda>k. [fst (seg_range a stop k)..<snd (seg_range a stop k)]) ks)"
  by (induction ks) simp_all

definition work :: "nat \<Rightarrow> qarray \<Rightarrow> qa_state \<Rightarrow> nat \<Rightarrow> nat \<Rightarrow> nat \<Rightarrow> nat list" where
  "work ns a st q stop s = elements (map (seg_range a stop) (filter (\<lambda>k. owner ns a st k = s) [q..<seg_cut a stop]))"

lemma work_all:
  assumes "0 < segment_size a" "q * segment_size a \<le> stop" "distinct sheps" "\<forall>k. q \<le> k \<and> k < seg_cut a stop \<longrightarrow> owner ns a st k \<in> set sheps"
  shows "mset (concat (map (work ns a st q stop) sheps)) = mset [q * segment_size a..<stop]"
proof -
  have "mset (concat (map (work ns a st q stop) sheps)) = mset (elements (map (seg_range a stop) [q..<seg_cut a stop]))"
    unfolding work_def elements_concat using assms(4) by (intro mset_by_owner assms(3)) simp
  then show ?thesis
    using elements_segments [OF assms(1,2)] by simp
qed

lemma work_owner:
  assumes inv: "qa_inv ns a st" and stop: "stop \<le> qa_count a" and i: "i \<in> set (work ns a st q stop s)"
  shows "qarray_shepof ns a st i = Some s"
proof -
  obtain k where "owner ns a st k = s" "i \<in> set [fst (seg_range a stop k)..<snd (seg_range a stop k)]"
    using i unfolding work_def elements_concat by auto
  then show ?thesis
    using in_seg_range [of i a stop k] shepof_owner [OF inv, of i] stop by simp
qed

text \<open>What a loop over the elements from \<open>startat\<close> to \<open>stopat\<close> has to do.\<close>

definition iter_ok :: "nat \<Rightarrow> qarray \<Rightarrow> qa_state \<Rightarrow> nat \<Rightarrow> nat \<Rightarrow> (nat \<times> nat list) list \<Rightarrow> bool" where
  "iter_ok ns a st startat stopat forks \<longleftrightarrow> qarray_iter ns a st startat stopat = Some forks
     \<and> mset (concat (map snd forks)) = mset [startat..<stopat]
     \<and> (if dist_type a = ALL_SAME \<or> segment_size a dvd startat
        then \<forall>(s, is) \<in> set forks. \<forall>i \<in> set is. qarray_shepof ns a st i = Some s
        else \<exists>s. qarray_shepof ns a st startat = Some s \<and> forks = [(s, [startat..<stopat])])
     \<and> (dist_type a \<noteq> FIXED_FIELDS \<longrightarrow> (\<exists>rs. qarray_iter_loop ns a st startat stopat = Some rs \<and> map (\<lambda>(s, r). (s, elements r)) rs = forks))"

lemma iter_sheps_aligned:
  assumes inv: "qa_inv ns a st" and d: "dist_type a \<in> {FIXED_HASH, DIST}" and stop: "stop \<le> qa_count a" and q: "q < seg_cut a stop"
  shows "\<exists>sheps. iter_sheps ns a st (q * segment_size a) stop = Some sheps \<and> distinct sheps
    \<and> (\<forall>k. q \<le> k \<and> k < seg_cut a stop \<longrightarrow> owner ns a st k \<in> set sheps)"
proof (cases "stop - q * segment_size a < segment_size a")
  case True
  then have "\<not> (q + 1) * segment_size a < stop"
    by simp
  then have "seg_cut a stop \<le> q + 1"
    using less_cut [OF qa_invD(2) [OF inv], of "q + 1" stop] by linarith
  then have only: "k = q" if "q \<le> k \<and> k < seg_cut a stop" for k
    using that by linarith
  have "owner ns a st k \<in> set [owner ns a st q]" if "q \<le> k \<and> k < seg_cut a stop" for k
    using only [OF that] by simp
  moreover have "iter_sheps ns a st (q * segment_size a) stop = Some [owner ns a st q]"
    using d True shepof_head [OF inv stop q] by (auto simp: iter_sheps_def)
  ultimately show ?thesis
    by (intro exI [of _ "[owner ns a st q]"] conjI allI impI) (assumption | simp)+
next
  case False
  have "\<forall>k < seg_cut a stop. owner ns a st k < ns"
    using inv cut_le [OF qa_invD(2) [OF inv] stop] by (simp add: qa_inv_def)
  moreover have "iter_sheps ns a st (q * segment_size a) stop = Some [0..<ns]"
    using d False by (auto simp: iter_sheps_def)
  ultimately show ?thesis
    by (intro exI [of _ "[0..<ns]"]) simp
qed

lemma iter_aligned:
  assumes inv: "qa_inv ns a st" and d: "dist_type a \<in> {FIXED_HASH, DIST}" and stop: "stop \<le> qa_count a" and q: "q * segment_size a < stop"
  shows "\<exists>forks. iter_ok ns a st (q * segment_size a) stop forks"
proof -
  let ?sz = "segment_size a"
  have K: "q < seg_cut a stop"
    using q less_cut [OF qa_invD(2) [OF inv]] by simp
  obtain sheps where sheps: "iter_sheps ns a st (q * ?sz) stop = Some sheps" "distinct sheps"
      "\<forall>k. q \<le> k \<and> k < seg_cut a stop \<longrightarrow> owner ns a st k \<in> set sheps"
    using iter_sheps_aligned [OF inv d stop K] by blast
  note str = strider_aligned [OF inv stop K d, folded work_def]
  define rs where "rs s = map (seg_range a stop) (filter (\<lambda>k. owner ns a st k = s) [q..<seg_cut a stop])" for s
  have "qarray_iter ns a st (q * ?sz) stop = Some (map (\<lambda>s. (s, work ns a st q stop s)) sheps)"
    using sheps(1) q str by (simp add: qarray_iter_def those_map [where g = "\<lambda>s. (s, work ns a st q stop s)"])
  moreover have "qarray_iter_loop ns a st (q * ?sz) stop = Some (map (\<lambda>s. (s, rs s)) sheps)"
    using sheps(1) q str by (simp add: qarray_iter_loop_def rs_def those_map [where g = "\<lambda>s. (s, rs s)", unfolded rs_def])
  moreover have "mset (concat (map (work ns a st q stop) sheps)) = mset [q * ?sz..<stop]"
    using work_all [OF qa_invD(2) [OF inv] _ sheps(2,3)] q by simp
  moreover have "elements (rs s) = work ns a st q stop s" for s
    by (simp add: rs_def work_def)
  ultimately have "iter_ok ns a st (q * ?sz) stop (map (\<lambda>s. (s, work ns a st q stop s)) sheps)"
    using work_owner [OF inv stop] unfolding iter_ok_def by (simp add: comp_def)
  then show ?thesis ..
qed

lemma owner_field_mono:
  assumes d: "dist_type a = FIXED_FIELDS" and p: "0 < segs_per_shep a" and k: "k \<le> l"
  shows "owner ns a st k \<le> owner ns a st l"
proof (rule ccontr)
  assume "\<not> ?thesis"
  then have "field_first a (owner ns a st l + 1) \<le> field_first a (owner ns a st k)"
    by (intro field_first_mono) simp
  moreover have "field_first a (owner ns a st k) \<le> k" "l < field_first a (owner ns a st l + 1)"
    using owner_field [OF d p, of ns st k] owner_field [OF d p, of ns st l] by auto
  ultimately show False
    using k by linarith
qed

lemma iter_fields:
  assumes inv: "qa_inv ns a st" and d: "dist_type a = FIXED_FIELDS" and stop: "0 < stop" "stop \<le> qa_count a"
  shows "\<exists>forks. iter_ok ns a st 0 stop forks"
proof -
  have pos: "0 < segment_size a" "0 < segs_per_shep a" "0 < qa_count a"
    using qa_invD(1) [OF inv] d by (simp_all add: qa_wf_def)
  let ?K = "seg_cut a stop"
  let ?sheps = "[0..<owner ns a st (?K - 1) + 1]"
  have K: "(stop - 1) div segment_size a = ?K - 1"
    using cut_last [OF pos(1) stop(1)] by simp
  have "owner ns a st 0 = 0"
    using pos(2) unfolding owner_field [OF d pos(2)] by (simp add: field_first_def)
  then have sheps: "iter_sheps ns a st 0 stop = Some ?sheps"
    using d stop K shepof_owner [OF inv pos(3)] shepof_owner [OF inv, of "stop - 1"] by (simp add: iter_sheps_def)
  have "owner ns a st k \<le> owner ns a st (?K - 1)" if "k < ?K" for k
    using owner_field_mono [OF d pos(2), of k "?K - 1"] that by simp
  then have "\<forall>k. 0 \<le> k \<and> k < ?K \<longrightarrow> owner ns a st k \<in> set ?sheps"
    by (auto simp: le_imp_less_Suc simp del: upt_Suc)
  then have "mset (concat (map (work ns a st 0 stop) ?sheps)) = mset [0..<stop]"
    using work_all [OF pos(1), of 0 stop ?sheps ns st] by simp
  moreover have "qarray_iter ns a st 0 stop = Some (map (\<lambda>s. (s, work ns a st 0 stop s)) ?sheps)"
  proof -
    have "map_option (Pair s) (qarray_strider ns a st 0 stop s) = Some (s, work ns a st 0 stop s)" if "s \<in> set ?sheps" for s
      using strider_fields [OF inv d stop, of s] that by (simp add: work_def less_Suc_eq_le del: upt_Suc)
    then have "those (map (\<lambda>s. map_option (Pair s) (qarray_strider ns a st 0 stop s)) ?sheps) = Some (map (\<lambda>s. (s, work ns a st 0 stop s)) ?sheps)"
      by (rule those_map)
    then show ?thesis
      using sheps by (simp add: qarray_iter_def del: upt_Suc)
  qed
  ultimately show ?thesis
    using work_owner [OF inv stop(2)] d
    by (intro exI [of _ "map (\<lambda>s. (s, work ns a st 0 stop s)) ?sheps"]) (auto simp: iter_ok_def comp_def simp del: upt_Suc)
qed

lemma iter_same:
  assumes inv: "qa_inv ns a st" and d: "dist_type a = ALL_SAME" and r: "startat < stop" "stop \<le> qa_count a"
  shows "\<exists>forks. iter_ok ns a st startat stop forks"
proof -
  obtain rs where rs: "strider_walk ns a st (dist_shep a) stop startat = Some rs" "elements rs = [startat..<stop]"
    using walk_contiguous [OF qa_invD(2,3) [OF inv] d r(1)] by blast
  then have "qarray_iter ns a st startat stop = Some [(dist_shep a, [startat..<stop])]"
    using d r by (simp add: qarray_iter_def iter_sheps_def qarray_strider_def strider_begin_def)
  moreover have "qarray_iter_loop ns a st startat stop = Some [(dist_shep a, [(startat, stop)])]"
    using d r by (simp add: qarray_iter_loop_def iter_sheps_def qarray_loop_strider_def loop_strider_begin_def)
  moreover have "qarray_shepof ns a st i = Some (dist_shep a)" if "i < stop" for i
    using that r d by (simp add: qarray_shepof_def)
  ultimately show ?thesis
    using d by (intro exI [of _ "[(dist_shep a, [startat..<stop])]"]) (simp add: iter_ok_def)
qed

lemma iter_short:
  assumes inv: "qa_inv ns a st" and d: "dist_type a \<in> {FIXED_HASH, DIST}" and r: "startat < stop" "stop \<le> qa_count a"
    and short: "stop - startat < segment_size a" "\<not> segment_size a dvd startat"
  shows "\<exists>forks. iter_ok ns a st startat stop forks"
proof -
  obtain s where s: "qarray_shepof ns a st startat = Some s"
    using shepof_owner [OF inv, of startat] r by simp
  note str = strider_short [OF inv d r short(1) s]
  have "iter_sheps ns a st startat stop = Some [s]"
    using d short s by (auto simp: iter_sheps_def)
  then show ?thesis
    using str r short(2) d s
    by (intro exI [of _ "[(s, [startat..<stop])]"]) (auto simp: iter_ok_def qarray_iter_def qarray_iter_loop_def)
qed

text \<open>
  C37. (\<open>ds/qarray.c\<close>, \<open>qarray_iter\<close>, \<open>qarray_iter_loop\<close> and their striders.) A loop over a part of an array on one shepherd,
  over a part of a hashed or distributed array that starts with a segment, or over a first part of an array in fields:
  the striders end, together they visit every element of the part exactly once and no other, and each visits elements
  of its own shepherd only. A part of a hashed or distributed array that starts within a segment but is shorter than
  one is also visited exactly once, all of it by the strider of the shepherd of its first element. \<open>qarray_iter_loop\<close>
  hands out the same elements in ranges, fields excepted. (Parts of fields with a later start and longer parts that
  start within a segment are not covered: elements are visited twice there, as the examples at the end show.)
\<close>

theorem qarray_iter_visits_all:
  assumes "qa_inv ns a st" "startat < stopat" "stopat \<le> qa_count a"
    and "dist_type a = FIXED_FIELDS \<Longrightarrow> startat = 0"
    and "dist_type a \<in> {FIXED_HASH, DIST} \<Longrightarrow> segment_size a dvd startat \<or> stopat - startat < segment_size a"
  shows "\<exists>forks. qarray_iter ns a st startat stopat = Some forks
    \<and> mset (concat (map snd forks)) = mset [startat..<stopat]
    \<and> (if dist_type a = ALL_SAME \<or> segment_size a dvd startat
       then \<forall>(s, is) \<in> set forks. \<forall>i \<in> set is. qarray_shepof ns a st i = Some s
       else \<exists>s. qarray_shepof ns a st startat = Some s \<and> forks = [(s, [startat..<stopat])])
    \<and> (dist_type a \<noteq> FIXED_FIELDS \<longrightarrow> (\<exists>rs. qarray_iter_loop ns a st startat stopat = Some rs \<and> map (\<lambda>(s, r). (s, elements r)) rs = forks))"
proof -
  have "dist_type a \<in> {ALL_SAME, FIXED_FIELDS, FIXED_HASH, DIST}"
    using qa_invD(1) [OF assms(1)] by (simp add: qa_wf_def)
  then consider "dist_type a = ALL_SAME" | "dist_type a = FIXED_FIELDS" "startat = 0"
    | q where "dist_type a \<in> {FIXED_HASH, DIST}" "startat = q * segment_size a"
    | "dist_type a \<in> {FIXED_HASH, DIST}" "\<not> segment_size a dvd startat" "stopat - startat < segment_size a"
    using assms(4,5) by (metis dvd_div_mult_self insertE singletonD insertI1 insertI2)
  then have "\<exists>forks. iter_ok ns a st startat stopat forks"
  proof cases
    case 2
    then show ?thesis
      using iter_fields [OF assms(1)] assms(2,3) by simp
  next
    case 3
    then show ?thesis
      using iter_aligned [OF assms(1) _ assms(3)] assms(2) by simp
  qed (use iter_same [OF assms(1)] iter_short [OF assms(1)] assms(2,3) in blast)+
  then show ?thesis
    unfolding iter_ok_def .
qed

text \<open>An array of 10 elements of 32 bytes over two shepherds, with pages of 8 bytes.\<close>

definition qa_env_example :: qa_env where
  "qa_env_example = \<lparr>pagesize = 8, num_sheps = 2, cur_shep = 1, rand = (\<lambda>k. k div 2)\<rparr>"

definition qa_state_example :: qa_state where
  "qa_state_example = \<lparr>tracker = [0, 0], seg_mem = (\<lambda>_. 0)\<rparr>"

definition qa_example :: "distribution_t \<Rightarrow> (qarray \<times> qa_state) option" where
  "qa_example d = qarray_create_internal qa_env_example 8 10 32 d False 0 qa_state_example"

lemma qa_example_ok: "\<exists>a st. qa_example d = Some (a, st) \<and> qa_inv 2 a st \<and> qa_count a = 10 \<and> dist_type a = type_for d \<and> unit_size a = 32"
proof -
  have u: "unit_for False 32 = 32"
    by (simp add: unit_for_def and_7_mod)
  then obtain a st where mk: "qa_example d = Some (a, st)"
    using create_succeeds [of qa_env_example 8 10 32 qa_state_example d] by (auto simp: qa_example_def qa_env_example_def qa_state_example_def)
  then show ?thesis
    using create_inv [of qa_env_example 8 10 32 d False 0 qa_state_example a st] u
    by (simp add: qa_example_def qa_env_example_def qa_state_example_def)
qed

theorem qarray_iter_visits_all_witness:
  "\<exists>a st forks. qa_example DIST = Some (a, st) \<and> qarray_iter 2 a st 0 10 = Some forks \<and> mset (concat (map snd forks)) = mset [0..<10]
    \<and> (\<forall>(s, is) \<in> set forks. \<forall>i \<in> set is. qarray_shepof 2 a st i = Some s)"
proof -
  obtain a st where a: "qa_example DIST = Some (a, st)" "qa_inv 2 a st" "qa_count a = 10" "dist_type a = DIST"
    using qa_example_ok [of DIST] by (auto simp: type_for_def is_dist_def)
  have "\<exists>forks. qarray_iter 2 a st 0 10 = Some forks \<and> mset (concat (map snd forks)) = mset [0..<10]
    \<and> (if dist_type a = ALL_SAME \<or> segment_size a dvd 0
       then \<forall>(s, is) \<in> set forks. \<forall>i \<in> set is. qarray_shepof 2 a st i = Some s
       else \<exists>s. qarray_shepof 2 a st 0 = Some s \<and> forks = [(s, [0..<10])])
    \<and> (dist_type a \<noteq> FIXED_FIELDS \<longrightarrow> (\<exists>rs. qarray_iter_loop 2 a st 0 10 = Some rs \<and> map (\<lambda>(s, r). (s, elements r)) rs = forks))"
    by (rule qarray_iter_visits_all [OF a(2)]) (use a in simp_all)
  then show ?thesis
    using a(1) dvd_0_right [of "segment_size a"] by (simp only: simp_thms if_True) blast
qed

section \<open>Layout\<close>





section \<open>Bookkeeping\<close>

text \<open>
  C39. (\<open>ds/qarray.c\<close>, \<open>qarray_create_internal\<close>, \<open>qarray_set_shepof\<close>, \<open>qarray_destroy\<close>.) After an array has been created, redistributed any number of times and
  destroyed, the global count of segments per shepherd is what it was before, except for the arrays on one shepherd,
  whose segments were counted twice by the creation and are subtracted once: their shepherd of creation keeps them.
\<close>

theorem qarray_tracker_roundtrip:
  assumes "qarray_create_internal env base num obj d tight seg_pages st = Some (a, st1)" "length (tracker st) = num_sheps env" "0 < num_sheps env"
    and "\<forall>(i, s) \<in> set ms. i < num \<and> s < num_sheps env"
  shows "\<exists>a' st2 st3. redistribute (num_sheps env) ms (a, st1) = Some (a', st2) \<and> qarray_destroy (num_sheps env) a' st2 = Some st3
    \<and> (\<forall>x < num_sheps env. tracker st3 ! x
          = tracker st ! x + (if type_for d = ALL_SAME \<and> x = dist_shep a then int (segment_count a) else 0))"
proof -
  have inv: "qa_inv (num_sheps env) a st1" and c: "qa_count a = num" "dist_type a = type_for d"
    using create_inv [OF assms(1,3)] assms(2) by simp_all
  obtain a' st2 where re: "redistribute (num_sheps env) ms (a, st1) = Some (a', st2)" "qa_inv (num_sheps env) a' st2"
      "\<forall>x < num_sheps env. tracker st2 ! x - int (owned (num_sheps env) a' st2 x) = tracker st1 ! x - int (owned (num_sheps env) a st1 x)"
    using redistribute_balance [OF inv, of ms] assms(4) c by auto
  obtain st3 where de: "qarray_destroy (num_sheps env) a' st2 = Some st3"
      "\<forall>x < num_sheps env. tracker st3 ! x = tracker st2 ! x - int (owned (num_sheps env) a' st2 x)"
    using destroy_tracker [OF re(2)] by blast
  have "owned (num_sheps env) a st1 x = (if x = dist_shep a then segment_count a else 0)" if "type_for d = ALL_SAME" for x
    using that c by (auto simp: owned_def owner_def)
  then have "\<forall>x < num_sheps env. tracker st3 ! x
      = tracker st ! x + (if type_for d = ALL_SAME \<and> x = dist_shep a then int (segment_count a) else 0)"
    using re(3) de(2) create_tracker [OF assms(1,3,2)] by auto
  then show ?thesis
    using re(1) de(1) by blast
qed

theorem qarray_tracker_roundtrip_witness:
  "\<exists>a st1 a' st2 st3. qa_example ALL_LOCAL = Some (a, st1) \<and> redistribute 2 [(3, 0), (7, 1)] (a, st1) = Some (a', st2)
    \<and> qarray_destroy 2 a' st2 = Some st3 \<and> tracker st3 ! 0 = 0 \<and> tracker st3 ! 1 = 3"
proof -
  have "map_option (\<lambda>(a, st). (dist_shep a, segment_count a)) (qa_example ALL_LOCAL) = Some (1, 3)"
    by code_simp
  then obtain a st1 where a: "qa_example ALL_LOCAL = Some (a, st1)" "dist_shep a = 1" "segment_count a = 3"
    by auto
  then show ?thesis
    using qarray_tracker_roundtrip [of qa_env_example 8 10 32 ALL_LOCAL False 0 qa_state_example a st1 "[(3, 0), (7, 1)]"]
    by (auto simp: qa_example_def qa_env_example_def qa_state_example_def type_for_def)
qed

section \<open>Copying a distribution\<close>

definition apart :: "qarray \<Rightarrow> qarray \<Rightarrow> bool" where
  "apart a b \<longleftrightarrow> base_ptr a + segment_count a * segment_bytes a \<le> base_ptr b \<or> base_ptr b + segment_count b * segment_bytes b \<le> base_ptr a"

lemma slot_in_array:
  assumes wf: "qa_wf ns a" and d: "dist_type a = DIST" and k: "k < segment_count a"
  shows "base_ptr a \<le> seg_slot a k \<and> seg_slot a k < base_ptr a + segment_count a * segment_bytes a"
proof -
  have "(k + 1) * segment_bytes a \<le> segment_count a * segment_bytes a"
    using k by (intro mult_le_mono1) simp
  moreover have "seg_slot a k + 1 < head_of a k + segment_bytes a"
    using wf d k by (simp add: qa_wf_def)
  ultimately show ?thesis
    using slot_after_elements [of a k] by (simp add: head_of_def)
qed

text \<open>Changes to one array do not touch another one.\<close>

lemma apart_keeps:
  assumes inv: "qa_inv ns ref st" and md: "qa_wf ns md" "dist_type md = DIST" and ap: "apart ref md" and out: "same_outside ns md st st'"
  shows "qa_inv ns ref st' \<and> (\<forall>k < segment_count ref. owner ns ref st' k = owner ns ref st k)"
proof -
  have wf: "qa_wf ns ref"
    using inv by (simp add: qa_inv_def)
  have "owner ns ref st' k = owner ns ref st k" if k: "k < segment_count ref" for k
  proof (rule owner_cong [OF _ qa_wf_type [OF wf]])
    assume "dist_type ref = DIST"
    then have "seg_slot ref k \<noteq> seg_slot md l" if "l < segment_count md" for l
      using slot_in_array [OF wf _ k] slot_in_array [OF md that] ap by (auto simp: apart_def)
    then show "seg_mem st' (seg_slot ref k) = seg_mem st (seg_slot ref k)"
      using out by (simp add: same_outside_def)
  qed
  then show ?thesis
    using inv out by (simp add: qa_inv_def same_outside_def)
qed

lemma dist_like_same:
  assumes "qa_inv ns ref st" "qa_inv ns md st" "qa_count ref = qa_count md" "unit_size ref = unit_size md" "apart ref md"
    and "(dist_type ref, dist_type md) \<in> {(ALL_SAME, ALL_SAME), (ALL_SAME, DIST), (DIST, DIST)}"
    and "dist_type ref = DIST \<Longrightarrow> segment_size ref = segment_size md \<and> segment_bytes ref = segment_bytes md"
    and "dist_type md \<noteq> DIST"
  shows "\<exists>md' st'. qarray_dist_like ns ref md st = Some (md', st') \<and> qa_inv ns md' st'
    \<and> (\<forall>i < qa_count md. qarray_shepof ns md' st' i = qarray_shepof ns ref st i \<and> qarray_shepof ns ref st' i = qarray_shepof ns ref st i)
    \<and> (\<forall>x < ns. tracker st' ! x - int (owned ns md' st' x) = tracker st ! x - int (owned ns md st x))"
proof -
  have d: "dist_type ref = ALL_SAME" "dist_type md = ALL_SAME"
    using assms(6,8) by auto
  have wf: "0 < qa_count md" "0 < segment_count ref"
    using qa_wfD(2,7) qa_invD(1) assms(1,2) by blast+
  have "dist_shep ref < ns"
    using assms(1) d wf(2) by (auto simp: qa_inv_def owner_def)
  then obtain md' st' where m: "qarray_set_shepof ns md 0 (dist_shep ref) st = Some (md', st')" "moved ns md st 0 (dist_shep ref) md' st'"
    using set_shepof_moved [OF assms(2) wf(1)] by blast
  have inv': "qa_inv ns md' st'"
    using m(2) by (simp add: moved_def)
  have "qarray_shepof ns md' st' i = Some (dist_shep ref)" if "i < qa_count md" for i
    using shepof_owner [OF inv', of i] m(2) d that div_segment [OF qa_invD(2) [OF assms(2)]] by (simp add: moved_def)
  moreover have "qarray_shepof ns ref st'' i = Some (dist_shep ref)" if "i < qa_count md" for i st''
    using that d assms(3) by (simp add: qarray_shepof_def)
  moreover have "qarray_dist_like ns ref md st = Some (md', st')"
    using m(1) d wf(1) assms(3,4) by (simp add: qarray_dist_like_def qarray_shepof_def)
  ultimately show ?thesis
    using m(2) inv' by (auto simp: moved_def)
qed

lemma dist_like_segments:
  assumes "qa_inv ns ref st" "qa_inv ns md st" "qa_count ref = qa_count md" "unit_size ref = unit_size md" "apart ref md"
    and "(dist_type ref, dist_type md) \<in> {(ALL_SAME, ALL_SAME), (ALL_SAME, DIST), (DIST, DIST)}"
    and "dist_type ref = DIST \<Longrightarrow> segment_size ref = segment_size md \<and> segment_bytes ref = segment_bytes md"
    and True: "dist_type md = DIST"
  shows "\<exists>md' st'. qarray_dist_like ns ref md st = Some (md', st') \<and> qa_inv ns md' st'
    \<and> (\<forall>i < qa_count md. qarray_shepof ns md' st' i = qarray_shepof ns ref st i \<and> qarray_shepof ns ref st' i = qarray_shepof ns ref st i)
    \<and> (\<forall>x < ns. tracker st' ! x - int (owned ns md' st' x) = tracker st ! x - int (owned ns md st x))"
proof -
  have wfm: "qa_wf ns md" and pos: "0 < qa_count ref"
    using assms(1,2,3) qa_invD(1) qa_wfD(2) by blast+
  define g where "g k = owner ns ref st (if dist_type ref = DIST then k else 0)" for k
  have segs: "segment_count ref = segment_count md" if "dist_type ref = DIST"
    using assms(3,7) that by (simp add: segment_count_def)
  have g: "g k < ns" if "k < segment_count md" for k
    using assms(1) that segs qa_wfD(7) [OF qa_invD(1) [OF assms(1)]] by (auto simp: g_def qa_inv_def)
  note keeps = apart_keeps [OF assms(1) wfm True assms(5)]
  define f where "f = (if dist_type ref = DIST then (\<lambda>i st. qarray_shepof ns ref st i) else (\<lambda>_ _. Some (dist_shep ref)))"
  have f: "f (k * segment_size md) st' = Some (g k)" if "k < segment_count md" "same_outside ns md st st'" for k st'
  proof (cases "dist_type ref = DIST")
    case d: True
    have "k * segment_size md < qa_count ref"
      using that(1) segment_count_less [OF qa_invD(2) [OF assms(2)]] assms(3) by simp
    then show ?thesis
      using keeps [OF that(2)] shepof_owner [of ns ref st' "k * segment_size md"] qa_invD(2) [OF assms(2)] assms(7) d segs that(1)
      by (simp add: f_def g_def)
  qed (use assms(6) True in \<open>auto simp: f_def g_def owner_def\<close>)
  obtain st' where st': "set_segments ns f [0..<segment_count md] (md, st) = Some (md, st')" "qa_inv ns md st'" "same_outside ns md st st'"
      "\<forall>k < segment_count md. owner ns md st' k = g k"
      "\<forall>x < ns. tracker st' ! x - int (owned ns md st' x) = tracker st ! x - int (owned ns md st x)"
    using set_segments_copy [OF assms(2) True, of "[0..<segment_count md]" g f] g f by auto
  have "qarray_shepof ns md st' i = qarray_shepof ns ref st i \<and> qarray_shepof ns ref st' i = qarray_shepof ns ref st i" if "i < qa_count md" for i
    using shepof_owner [OF st'(2) that] shepof_owner [OF assms(1), of i] shepof_owner [of ns ref st' i] keeps [OF st'(3)] st'(4) that assms(3,6,7)
      div_segment [OF qa_invD(2) [OF assms(2)] that] div_segment [OF qa_invD(2) [OF assms(1)], of i]
    by (auto simp: g_def owner_def)
  moreover have "qarray_dist_like ns ref md st = Some (md, st')"
    using st'(1) True assms(3,4,6,7) pos by (auto simp: qarray_dist_like_def f_def qarray_shepof_def)
  ultimately show ?thesis
    using st'(2,5) by blast
qed

text \<open>
  C38. (\<open>ds/qarray.c\<close>, \<open>qarray_dist_like\<close>, \<open>qarray_set_shepof\<close>.) Distributing an array like another one, wherever the code allows it, succeeds;
  afterwards every element has the shepherd that the element of the other array has, whose distribution has not
  changed, and the segments stay counted for their shepherds.
\<close>

theorem qarray_dist_like_copies:
  assumes "qa_inv ns ref st" "qa_inv ns md st" "qa_count ref = qa_count md" "unit_size ref = unit_size md" "apart ref md"
    and "(dist_type ref, dist_type md) \<in> {(ALL_SAME, ALL_SAME), (ALL_SAME, DIST), (DIST, DIST)}"
    and "dist_type ref = DIST \<Longrightarrow> segment_size ref = segment_size md \<and> segment_bytes ref = segment_bytes md"
  shows "\<exists>md' st'. qarray_dist_like ns ref md st = Some (md', st') \<and> qa_inv ns md' st'
    \<and> (\<forall>i < qa_count md. qarray_shepof ns md' st' i = qarray_shepof ns ref st i \<and> qarray_shepof ns ref st' i = qarray_shepof ns ref st i)
    \<and> (\<forall>x < ns. tracker st' ! x - int (owned ns md' st' x) = tracker st ! x - int (owned ns md st x))"
  using dist_like_same [OF assms] dist_like_segments [OF assms] by blast

theorem qarray_dist_like_copies_witness:
  "\<exists>ref md st md' st'. qa_example DIST = Some (md, st) \<and> dist_type ref = ALL_SAME \<and> dist_shep ref = 1
    \<and> qarray_dist_like 2 ref md st = Some (md', st') \<and> qarray_shepof 2 md' st' 9 = Some 1"
proof -
  obtain md st where md: "qa_example DIST = Some (md, st)" "qa_inv 2 md st" "qa_count md = 10" "dist_type md = DIST" "unit_size md = 32"
    using qa_example_ok [of DIST] by (auto simp: type_for_def is_dist_def)
  define ref where "ref = \<lparr>unit_size = 32, qa_count = 10, segment_size = 4, segment_bytes = 128,
    base_ptr = base_ptr md + segment_count md * segment_bytes md, dist_type = ALL_SAME, dist_shep = 1, segs_per_shep = 0, extras = 0\<rparr>"
  have "0 < base_ptr ref" "length (tracker st) = 2"
    using md(2) qa_wfD(6) [OF qa_invD(1) [OF md(2)]] by (simp_all add: ref_def qa_inv_def)
  then have "qa_inv 2 ref st"
    by (simp add: qa_inv_def qa_wf_def owner_def) (simp add: ref_def)
  moreover have "apart ref md"
    by (simp add: apart_def ref_def)
  ultimately obtain md' st' where "qarray_dist_like 2 ref md st = Some (md', st')" "\<forall>i < 10. qarray_shepof 2 md' st' i = qarray_shepof 2 ref st i"
    using qarray_dist_like_copies [of 2 ref st md] md by (auto simp: ref_def)
  moreover have "qarray_shepof 2 ref st 9 = Some 1"
    by (simp add: qarray_shepof_def ref_def)
  ultimately show ?thesis
    using md(1) by (intro exI [of _ ref] exI [of _ md] exI [of _ st] exI [of _ md'] exI [of _ st']) (simp add: ref_def)
qed

section \<open>Where the code goes wrong\<close>

text \<open>\<open>qarray_loop_strider\<close> stops one element before the end of a field.\<close>

lemma those_set: "those (map f xs) = Some ys \<Longrightarrow> y \<in> set ys \<Longrightarrow> \<exists>x \<in> set xs. f x = Some y"
  by (induction xs arbitrary: ys) (auto split: option.splits)

text \<open>
  C40. (\<open>ds/qarray.c\<close>, \<open>qarray_iter_loop\<close> and \<open>qarray_loop_strider\<close>.) With the segments divided into fields, a loop from the start of the array that goes beyond
  as many segments as every shepherd has at least never visits the last element of these segments (without extra segments,
  the last element of the first field): the strider of shepherd 0 stops before it and all others start after it.
\<close>

theorem fields_loop_skips_element:
  assumes "qa_inv ns a st" "dist_type a = FIXED_FIELDS" "segment_size a * segs_per_shep a \<le> stop"
    and "qarray_iter_loop ns a st 0 stop = Some forks"
  shows "segment_size a * segs_per_shep a - 1 < stop \<and> (\<forall>(s, rs) \<in> set forks. segment_size a * segs_per_shep a - 1 \<notin> set (elements rs))"
proof -
  let ?e = "segment_size a * segs_per_shep a"
  have pos: "0 < ?e" "0 < segs_per_shep a" "0 < qa_count a"
    using qa_invD(1) [OF assms(1)] assms(2) by (simp_all add: qa_wf_def)
  have "owner ns a st 0 = 0"
    using pos(2) unfolding owner_field [OF assms(2) pos(2)] by (simp add: field_first_def)
  then have start: "qarray_shepof ns a st 0 = Some 0"
    using shepof_owner [OF assms(1) pos(3)] by simp
  have "?e - 1 \<notin> set (elements rs)" if "(s, rs) \<in> set forks" for s rs
  proof -
    obtain sheps where "those (map (\<lambda>s. map_option (Pair s) (qarray_loop_strider ns a st 0 stop s)) sheps) = Some forks"
      using assms(4) by (auto simp: qarray_iter_loop_def bind_eq_Some_iff)
    from those_set [OF this that] have "qarray_loop_strider ns a st 0 stop s = Some rs"
      by auto
    then consider "rs = []" | lo hi where "rs = [(lo, hi)]" "s = 0 \<longrightarrow> hi \<le> ?e - 1" "s \<noteq> 0 \<longrightarrow> ?e \<le> lo"
      using start assms(2,3) pos(1)
      by (cases "s = 0") (auto simp: qarray_loop_strider_def loop_strider_begin_def bind_eq_Some_iff Let_def mult.assoc split: if_splits)
    then show ?thesis
    proof cases
      case (2 lo hi)
      then have "?e - 1 < lo \<or> hi \<le> ?e - 1"
        using pos(1) by linarith
      then show ?thesis
        using 2(1) by auto
    qed simp
  qed
  moreover have "?e - 1 < stop"
    using pos(1) assms(3) by linarith
  ultimately show ?thesis
    by blast
qed

text \<open>A small array divided into fields of two segments of two elements.\<close>

definition fields_example :: qarray where
  "fields_example = \<lparr>unit_size = 8, qa_count = 8, segment_size = 2, segment_bytes = 16, base_ptr = 16, dist_type = FIXED_FIELDS,
     dist_shep = 0, segs_per_shep = 2, extras = 0\<rparr>"

theorem fields_loop_skips_element_witness:
  "\<exists>forks. qarray_iter_loop 2 fields_example qa_state_example 0 8 = Some forks \<and> (\<forall>(s, rs) \<in> set forks. 3 \<notin> set (elements rs))"
proof -
  have "qarray_iter_loop 2 fields_example qa_state_example 0 8 \<noteq> None"
    by code_simp
  then obtain forks where "qarray_iter_loop 2 fields_example qa_state_example 0 8 = Some forks"
    by blast
  moreover have "qa_inv 2 fields_example qa_state_example"
    by code_simp
  ultimately show ?thesis
    using fields_loop_skips_element [of 2 fields_example qa_state_example 8 forks] by (simp add: fields_example_def)
qed

text \<open>A loop that does not start with a segment visits elements twice and leaves others out: here 2 and 6 twice and 4 never.\<close>

lemma unaligned_iter_visits_wrong:
  "qarray_iter 2 (fields_example\<lparr>dist_type := FIXED_HASH\<rparr>) qa_state_example 1 8 = Some [(0, [1, 2, 5, 6]), (1, [2, 3, 6, 7])]"
  by code_simp

text \<open>
  A loop over a part of fields that starts later, even with a segment: the strider of the first
  shepherd still takes a whole field from there, so that elements 4 and 5 are visited twice.
\<close>

lemma fields_part_visited_twice:
  "qarray_iter 2 fields_example qa_state_example 2 8 = Some [(0, [2, 3, 4, 5]), (1, [4, 5, 6, 7])]"
  by code_simp

text \<open>
  A tight distributed array of single bytes cannot be created: a segment gives up one element,
  that is one byte, for the number of its shepherd, and the assertion that the number fits fails.
\<close>

lemma tight_bytes_fail:
  assumes "is_dist d" "4 dvd pagesize env" "4 dvd base" "0 < num"
  shows "qarray_create_internal env base num 1 d True 0 st = None"
proof (cases "seg_sizes (pagesize env) d 1 0")
  case None
  then show ?thesis
    by (simp add: qarray_create_internal_def unit_for_def Let_def)
next
  case (Some bs)
  then have bs: "bs = (16 * pagesize env, 16 * pagesize env - 1)" "0 < pagesize env"
    using assms(1,2) by (auto simp: seg_sizes_def Let_def split: if_splits)
  define a where "a tr = new_array env base num 1 (16 * pagesize env) (16 * pagesize env - 1) d tr" for tr
  have segs: "[0..<segment_count (a tr)] = 0 # [1..<segment_count (a tr)]" for tr
    using segment_count_pos [of "a tr"] assms(4) bs(2) by (simp add: a_def upt_conv_Cons)
  have "qarray_internal_segment_shep (a tr) (qarray_elem_nomigrate (a tr) (0 * segment_size (a tr))) = None" for tr
  proof -
    have h: "qarray_elem_nomigrate (a tr) 0 = base"
      using assms(4) by (simp add: qarray_elem_nomigrate_def a_def)
    obtain m where "base + (16 * pagesize env - 1) = 4 * m + 3"
      using assms(2,3) bs(2) by (auto elim!: dvdE intro: that [of "base div 4 + 4 * pagesize env - 1"])
    moreover have "(4 * m + 3) AND 3 = 3"
      by (simp add: and_3_mod)
    ultimately show ?thesis
      using h bs(2) by (simp add: qarray_internal_segment_shep_def a_def Let_def) linarith
  qed
  moreover have "dist_type (a tr) = DIST" for tr
    using assms(1) by (auto simp: a_def type_for_def is_dist_def)
  ultimately have "place_segment env (a tr) d 0 st' = None" for tr st'
    by (cases "target_shep env (a tr) d 0 st'") (simp_all add: place_segment_def qarray_internal_segment_shep_write_def)
  then have "place_segments env (a tr) d [0..<segment_count (a tr)] st' = None" for tr st'
    by (simp add: segs)
  then show ?thesis
    using Some bs by (simp add: qarray_create_internal_def unit_for_def Let_def a_def split: option.split)
qed

text \<open>\<open>qarray_elem_migrate\<close> only returns for an index outside of the array.\<close>

lemma elem_migrate_outside: "qarray_elem_migrate ns a st i = Some r \<Longrightarrow> qa_count a \<le> i"
  by (auto simp: qarray_elem_migrate_def split: if_splits)

end
