(* ===== verification/Spec2Isabelle.thy ===== *)
theory Spec2Isabelle
  imports Syncvar_Props Qutil_Props Swsr_Props Mutexfifo_Props Tqueue_Props Shepherds_Props Workers_Run Sinc_Props Qloop_Props
    Qqloop_Props Barrier_Props Barrier_Gate Qarray_Props
begin

text \<open>
  Qthreads is a library of user-level threads for C. A program forks qthreads; shepherds
  (groups of workers) take them from ready queues and run them; qthreads synchronise on the
  full/empty bit of a memory word and on syncvars, and while they wait they are kept in queues
  of a record of the word. This development models the core of the library, translated
  function by function from the C sources under \<open>src/src\<close> and \<open>src/include\<close>.

  \<^bold>\<open>Conventions.\<close> A C function is an Isabelle function of the same name on an explicit
  state. \<open>None\<close> stands for undefined behaviour: a failed assertion, an access through a null or
  freed pointer, an out-of-bounds access, an exhausted fuel. Every theorem on an operation
  therefore states that the result is \<open>Some\<close>. Machine integers whose width matters are words;
  pointers are numbers or 64-bit words with 0 as \<open>NULL\<close>. An operation that the code runs under a
  lock is one atomic step; the interleaving of threads is an arbitrary sequence of such steps.
  Allocation is a parameter (the pointer the next allocation returns, fresh and, where the code
  checks it, possibly null).

  \<^bold>\<open>Hashing\<close> (\<open>QHash\<close>; \<open>ds/dictionary/hash.c\<close>). \<open>qt_hash64\<close> and \<open>qt_hash_bytes\<close> in their 64-bit
  branches: the mixing step is a bijection, and a slip in a shift makes certain byte strings
  collide.

  \<^bold>\<open>Hash table\<close> (\<open>Hashmap\<close>, \<open>Hashmap_Probe\<close>, \<open>_Search\<close>, \<open>_Map\<close>, \<open>_Correct\<close>, \<open>_Oob\<close>, \<open>_Props\<close>; \<open>hashmap.c\<close>).
  Open addressing by buckets with tombstones and rehashing. \<open>Hashmap\<close> holds the operations.
  \<open>_Probe\<close> shows that the probe sequence visits every bucket (the step is odd and the number of
  buckets a power of two, so the loop ends within \<open>num_entries\<close> iterations, the fuel of
  \<open>find_loop\<close> and \<open>put_loop\<close>). \<open>_Search\<close> and \<open>_Map\<close> give the invariant and the abstraction to a
  finite map; \<open>_Correct\<close> the laws of the operations across rehashing. A rehash inserts into a
  table that never needs to rehash, so a recursion depth of 2 is enough for
  \<open>put_locked_fuel\<close>; the depth is part of what the theorems show. The locale \<open>address_table\<close>
  states what the clients of the table use, and is interpreted on the model; the clients never use
  the keys 0 and 1. \<open>_Oob\<close> extends the laws to tables that hold these two keys outside of the
  array: it says exactly when insertion and removal succeed there (a rehash of a populated array
  fails an assertion) and what a walk visits.

  \<^bold>\<open>Thread structure and scheduler interface\<close> (\<open>Runtime\<close>; \<open>qt_qthread_struct.h\<close>,
  \<open>qt_threadqueues.h\<close>). The fields of a qthread that the other parts use and the record of
  operations \<open>sched_ops\<close> of a ready queue. The locale \<open>ready_queues\<close> states the contract: an
  operation keeps the invariant of the queues and adds exactly the given task.

  \<^bold>\<open>Full/empty bits\<close> (\<open>Feb\<close>, \<open>Feb_Inv\<close>, \<open>Feb_Release\<close>, \<open>Feb_Ops\<close>, \<open>Feb_Refine\<close>, \<open>Feb_Props\<close>; \<open>feb.c\<close>). All
  operations on words, records, waiter queues and the striped tables. \<open>Feb_Inv\<close> holds the
  invariant (each record is reachable from exactly one table, is needed, and its waiters are
  blocked), \<open>Feb_Release\<close> the release of waiters and tasks with preconditions, \<open>Feb_Refine\<close> the
  proof that every operation implements an atomic specification on words. The proofs use the
  ready queues only through \<open>ready_queues\<close>.

  \<^bold>\<open>Syncvars\<close> (\<open>Records\<close>, \<open>Syncvar\<close>, \<open>Syncvar_Inv\<close>, \<open>Syncvar_Refine\<close>, \<open>Syncvar_Props\<close>; \<open>syncvar.c\<close>).
  The packed word (lock bit, three state bits, 60 bits of data), the spin on the lock bit under
  interference, all operations in two parts (the first attempt and what follows its timeout),
  and their refinement of an atomic specification. The refinement and the conservation of threads are
  for calls that meet \<open>sv_call_ok\<close>, which leaves out \<open>writeF\<close> on a variable with queued writers and
  \<open>incrF\<close> on one with waiting taking readers; what the code does in these cases is shown separately
  (the writers are forgotten, an assertion fails). \<open>Records\<close> is the table of records both
  synchronisation layers keep, with the locale \<open>record_table\<close> for its laws.

  \<^bold>\<open>Sherwood ready queues\<close> (\<open>Sherwood\<close>, \<open>Sherwood_Links\<close>, \<open>_Queue\<close>, \<open>_Inv\<close>, \<open>_Sched\<close>, \<open>_Steal\<close>, \<open>_Props\<close>;
  \<open>threadqueues/sherwood_threadqueues.c\<close>, \<open>spawncache.c\<close>). Doubly linked queues in an explicit heap of
  nodes, the spawn cache of a worker, stealing, and one iteration of the scheduling loop. The
  fuel of a list walk is the length of the list plus one. The model interprets \<open>ready_queues\<close>,
  so that the theorems on full/empty bits and syncvars hold of the composed system.

  \<^bold>\<open>Mutex FIFO ready queues\<close> (\<open>Slist\<close>, \<open>Mutexfifo\<close>, \<open>_Inv\<close>, \<open>_Props\<close>; \<open>threadqueues/mutexfifo_threadqueues.c\<close>).
  A singly linked list with a dummy node per shepherd. It interprets \<open>ready_queues\<close> too, so the
  theorems on full/empty bits hold with it as well, and \<open>fifo\<close>. \<open>Slist\<close> has the chains of
  singly linked nodes that several components share.

  \<^bold>\<open>Task queues\<close> (\<open>Tqueue\<close>, \<open>Nemesis\<close>, \<open>Tqueue_Props\<close>; \<open>queue.c\<close>). The queues on which threads wait for
  a release. \<open>Tqueue\<close> has the four kinds and their operations; \<open>Nemesis\<close> the single memory accesses
  of any number of inserting threads and one removing thread as a step relation, with the
  invariant that makes the list a FIFO queue; the fuel of \<open>release_loop\<close> is more than the number
  of threads in the queue. The results on release are for the two Nemesis kinds; the two other kinds
  lose threads.

  \<^bold>\<open>Shepherds and affinity\<close> (\<open>Shepherds\<close>, \<open>Shepherds_Props\<close>; \<open>shepherds.c\<close>, \<open>workers.c\<close>,
  \<open>affinity/shufflesheps.h\<close>, \<open>affinity/no.c\<close>, \<open>affinity/libnumaV2.c\<close>). The shepherds and their neighbours by
  distance, enabling and disabling, and the choice of the shepherd that takes over the threads of
  a disabled one: it is at the least distance of an active one, though not necessarily active
  itself. The random numbers and \<open>numa_distance\<close> are parameters.

  \<^bold>\<open>Threads and workers\<close> (\<open>Qthread\<close>, \<open>Workers\<close>, \<open>Workers_Inv\<close>, \<open>Workers_Props\<close>, \<open>Workers_Run\<close>; \<open>qthread.c\<close>).
  \<open>Qthread\<close> has the life of a thread: creation, fork in all variants, the body of the worker loop
  (what a worker does with a thread it fetched, and with one that came back), yield, migration,
  return values, task-local storage and ids. \<open>Workers\<close> is the system of all workers as a step
  relation over the interface \<open>scheduler\<close>, which extends \<open>ready_queues\<close>; what a thread does between
  two calls of the library is arbitrary. Its invariant says at which place each thread is and of
  which kind it is there; \<open>Workers_Inv\<close> and \<open>Workers_Props\<close> show that every step keeps it, and
  \<open>Workers_Run\<close> interprets the interface on the Sherwood scheduler, from the start by
  \<open>qthread_initialize\<close>. Spawns in that relation have no return location and no preconditions, and the
  user's queues are of the Nemesis kinds. Two forms of yielding (near and direct) are not steps of the system,
  because they break the cache of the Sherwood scheduler, as shown there.

  \<^bold>\<open>Parallel utilities\<close> (\<open>Qutil\<close>, \<open>Qutil_Sort\<close>, \<open>Qutil_Merge\<close>, \<open>Qutil_Props\<close>; \<open>qutil.c\<close>). Reductions as a step
  relation of tasks, the sequential quicksort with its explicit stack, the parallel merge sort
  and the parallel quicksort of \<open>aligned_t\<close>. The reductions leave out the waits on the full/empty bits
  of the elements, and their theorem is for associative and commutative operations, so not for
  sums of doubles.

  \<^bold>\<open>Sincs\<close> (\<open>Sinc\<close>, \<open>Sinc_Props\<close>; \<open>sincs/donecount.c\<close>). The counters with a reduction that tasks submit to, as
  functions and, for any number of submitting tasks and waiters, as a step relation.

  \<^bold>\<open>Parallel loops\<close> (\<open>Qloop\<close>, \<open>Qloop_Inv\<close>, \<open>Qloop_Run\<close>, \<open>Qloop_Live\<close>, \<open>Qloop_Props\<close>; \<open>qloop.c\<close>). The division of the
  iterations, the tree in which the tasks of a loop spawn each other and the waiting caller, as a step
  relation. \<open>Qloop_Inv\<close> has the tree (task \<open>i\<close> is spawned by \<open>i\<close> without its highest bit), \<open>Qloop_Run\<close>
  the invariant, \<open>Qloop_Live\<close> that no state before the end is stuck and that the number of steps is at
  most quadratic in the number of tasks, \<open>Qloop_Props\<close> the results and the variants that fail.
  \<open>Qqloop\<close> has the loops over a shared queue of iterations, with every access to shared memory as a
  step, for the four ways of taking ranges, with workers that join and leave and a number of workers
  that is read anew in every call; \<open>Qqloop_Inv\<close> the
  invariant (every iteration has been run, is held by one wrapper or is still in the queue) and
  \<open>Qqloop_Props\<close> the measure that bounds the number of steps, and two runs that show why its theorem
  excludes the branch for one worker with several wrappers, and workers that join between the two
  reads of the waiting caller.

  \<^bold>\<open>Barriers\<close> (\<open>Barrier\<close>, \<open>Barrier_Tree\<close>, \<open>Barrier_Props\<close>, \<open>Barrier_Gate\<close>; \<open>barrier/feb.c\<close>, \<open>barrier/array.c\<close>, \<open>barrier/log.c\<close>).
  What a call does is a list of waits and signals on words, and \<open>n\<close> participants interleave their
  accesses. The locale \<open>tree_barrier\<close> states what makes a family of such lists a tree (each
  participant waits for its children, reports to its parent, waits for it and wakes its children)
  and proves safety, progress and a bound on the lag of a participant; it is interpreted on the array
  tree and on the logarithmic tree, whose recursion is shown to visit the children of a tree.
  \<open>Barrier_Gate\<close> has the phases of the barrier with two gates.

  \<^bold>\<open>Distributed array\<close> (\<open>Qarray\<close>, \<open>Qarray_Inv\<close>, \<open>Qarray_Create\<close>, \<open>Qarray_Iter\<close>, \<open>Qarray_Track\<close>, \<open>Qarray_Props\<close>; \<open>ds/qarray.c\<close>, \<open>qarray.h\<close>).
  The layout of the segments and the choice of their shepherds for every distribution, the striders of
  a loop, redistribution, and the global count of segments per shepherd. \<open>_Inv\<close> has the invariant and the
  layout, \<open>_Create\<close> that creation succeeds, \<open>_Iter\<close> what a strider visits, \<open>_Track\<close> the bookkeeping.

  \<^bold>\<open>Ring buffer\<close> (\<open>Swsr\<close>, \<open>Swsr_Props\<close>; \<open>ds/qswsrqueue.c\<close>). The queue of one writer and one reader, as
  functions and as single memory accesses.

  \<^bold>\<open>Not modelled.\<close> Context switching, pthread start-up and the hardware topology (machine and
  operating system access), the memory pools (allocation is a parameter), teams, and the client
  libraries named in the manifest.
\<close>

section \<open>Properties that span components\<close>

text \<open>The system with the mutex FIFO ready queues instead of the Sherwood ones.\<close>

definition feb_mf_start :: "mf_state feb_state" where
  "feb_mf_start = qt_feb_subsystem_init amd64_globals True (\<lambda>a. a + 1) (\<lambda>_. idle_thread) mf_start"

lemma feb_mf_start_ok:
  "feb_inv mf_inv mf_nsheps feb_mf_start" "feb_small feb_mf_start" "feb_view feb_mf_start a = qthread_addrstat_new"
  "fresh 1 feb_mf_start"
proof -
  show "feb_inv mf_inv mf_nsheps feb_mf_start"
    using mf_start_ok unfolding feb_mf_start_def
    by (intro init_inv amd64_globals_wf) (simp_all add: idle_thread_def thread_ok_def mf_nsheps_def)
  have "min_entries amd64_globals = 512"
    by (simp add: amd64_globals_def qt_hash_initialize_subsystem_def min_entries_def)
  then show "feb_small feb_mf_start"
    unfolding feb_mf_start_def by (intro init_small amd64_globals_wf) simp
  show "feb_view feb_mf_start a = qthread_addrstat_new"
    unfolding feb_mf_start_def by (rule view_unbound) (rule init_lookup [OF amd64_globals_wf])
  show "fresh 1 feb_mf_start"
    by (simp add: feb_mf_start_def fresh_def qt_feb_subsystem_init_def)
qed

lemmas mutexfifo_feb_refines = ready_queues.feb_refines [OF mutexfifo.ready_queues_axioms]

text \<open>
  C24. The full/empty-bit operations do not depend on the scheduler chosen at configuration time: with the
  mutex FIFO ready queues every operation implements the same atomic specification, from the same
  proof over the interface of the ready queues.
\<close>
theorem feb_over_mutexfifo:
  assumes "feb_inv mf_inv mf_nsheps s" "feb_small s" "good_addr (op_word ty a b)" "fresh newp s"
  shows "step_ok mf_inv mf_tasks mf_nsheps (waiting_tasks s (op_word ty a b)) me s
    (feb_spec ty me a b (feb_view s, mem s)) (qthread_feb_blocker_thread mf_ops me newp True ty a b s)"
  by (rule mutexfifo_feb_refines [OF assms])

theorem feb_over_mutexfifo_witness:
  "\<exists>s'. qthread_feb_blocker_thread mf_ops 5 1 True WRITEEF 4096 8192 feb_mf_start = Some (s', Blocked)
     \<and> feb_inv mf_inv mf_nsheps s' \<and> accounted mf_tasks s' = accounted mf_tasks feb_mf_start + {#5#}"
proof -
  have "good_addr (op_word WRITEEF 4096 8192)"
    by (simp add: op_word_def good_4096)
  from feb_over_mutexfifo [OF feb_mf_start_ok(1,2) this feb_mf_start_ok(4), of 5] show ?thesis
    by (simp add: step_ok_def implements_def feb_spec_def feb_mf_start_ok(3) qthread_addrstat_new_def)
      (metis)
qed

end
